(* ===== verification/HRX_Prelude.thy ===== *)
theory HRX_Prelude
  imports Main "HOL-Library.Monad_Syntax"
begin

text \<open>
  The shared vocabulary of the development: machine-integer helpers, the vector and
  iterator operations of Rust's standard library that the sources use, the crate's error
  type (\<^verbatim>\<open>src/src/lib.rs\<close>), the access kinds (\<^verbatim>\<open>src/src/execution/contract.rs\<close>) and the
  generic lemmas on lists and results that the component theories share.

  A \<open>usize\<close> or \<open>u64\<close> is a natural number together with the explicit bound \<open>usize_MAX\<close>
  wherever the code checks, saturates or could overflow; everything else about it is
  plain arithmetic. A \<open>Result<T>\<close> is the sum \<open>error + 'a\<close>, with \<open>Inl\<close> for \<open>Err\<close>.
\<close>

named_theorems rust_simps \<open>rewrite rules for the modelled standard-library operations\<close>
named_theorems view_simps \<open>rewrite rules for buffer views and their regions\<close>
named_theorems inv_intros \<open>invariant preservation, one rule per operation\<close>


section \<open>Machine integers\<close>

type_synonym usize = nat

definition usize_MAX :: usize where
  "usize_MAX = 2 ^ 64 - 1"

definition isize_MAX :: usize where
  "isize_MAX = 2 ^ 63 - 1"

definition checked_add :: "usize \<Rightarrow> usize \<Rightarrow> usize option" where
  "checked_add a b = (if a + b \<le> usize_MAX then Some (a + b) else None)"

definition checked_mul :: "usize \<Rightarrow> usize \<Rightarrow> usize option" where
  "checked_mul a b = (if a * b \<le> usize_MAX then Some (a * b) else None)"

definition saturating_add :: "usize \<Rightarrow> usize \<Rightarrow> usize" where
  "saturating_add a b = min (a + b) usize_MAX"

definition saturating_mul :: "usize \<Rightarrow> usize \<Rightarrow> usize" where
  "saturating_mul a b = min (a * b) usize_MAX"

text \<open>Truncating subtraction on \<open>nat\<close> is exactly Rust's \<open>saturating_sub\<close> on \<open>usize\<close>.\<close>

definition saturating_sub :: "usize \<Rightarrow> usize \<Rightarrow> usize" where
  "saturating_sub a b = a - b"

fun is_power_of_two :: "usize \<Rightarrow> bool" where
  "is_power_of_two n =
     (if n = 0 then False else if n = 1 then True else even n \<and> is_power_of_two (n div 2))"

declare is_power_of_two.simps [simp del]

text \<open>Decimal text, as \<open>format!\<close> renders an unsigned integer.\<close>

fun show_nat :: "nat \<Rightarrow> string" where
  "show_nat n = (if n < 10 then [char_of (48 + n)] else show_nat (n div 10) @ [char_of (48 + n mod 10)])"

declare show_nat.simps [simp del]

lemma checked_add_Some [simp]:
  "checked_add a b = Some c \<longleftrightarrow> c = a + b \<and> a + b \<le> usize_MAX"
  by (auto simp: checked_add_def)

lemma checked_add_None [simp]:
  "checked_add a b = None \<longleftrightarrow> usize_MAX < a + b"
  by (auto simp: checked_add_def)

lemma checked_mul_Some [simp]:
  "checked_mul a b = Some c \<longleftrightarrow> c = a * b \<and> a * b \<le> usize_MAX"
  by (auto simp: checked_mul_def)

lemma checked_mul_None [simp]:
  "checked_mul a b = None \<longleftrightarrow> usize_MAX < a * b"
  by (auto simp: checked_mul_def)

lemma is_power_of_two_iff: "is_power_of_two n \<longleftrightarrow> (\<exists>k. n = 2 ^ k)"
proof (induction n rule: is_power_of_two.induct)
  case (1 n)
  consider "n = 0" | "n = 1" | "n \<noteq> 0" "n \<noteq> 1" by blast
  then show ?case
  proof cases
    case 3
    have "(\<exists>k. n = 2 ^ k) \<longleftrightarrow> even n \<and> (\<exists>k. n div 2 = 2 ^ k)"
    proof (intro iffI conjI; (elim conjE exE)?)
      fix k assume k: "n = 2 ^ k"
      with 3 obtain l where "k = Suc l" by (cases k) auto
      with k show "even n" and "\<exists>k. n div 2 = 2 ^ k" by auto
    next
      fix k assume "even n" "n div 2 = 2 ^ k"
      then have "n = 2 ^ Suc k" by auto
      then show "\<exists>k. n = 2 ^ k" by blast
    qed
    with 3 1 show ?thesis by (simp add: is_power_of_two.simps [of n])
  qed (auto simp: is_power_of_two.simps intro: exI [of _ 0])
qed

lemma is_power_of_two_pos: "is_power_of_two n \<Longrightarrow> 0 < n"
  by (auto simp: is_power_of_two_iff)


section \<open>Errors and results\<close>

text \<open>
  The crate's error enum. The payloads whose types come from other crates
  (\<open>std::io::Error\<close>, \<open>serde_json::Error\<close>, \<open>libloading::Error\<close>, \<open>ureq::Error\<close>,
  the diagnostics and the JSON report of a compiler invocation) are carried as rendered
  text.
\<close>

datatype error =
    Busy string
  | Unsupported string
  | DeviceLost string
  | Backend string string int string
  | Execution error
  | Cancelled
  | Message string
  | Compile string "string list" "string option"
  | Io string
  | Json string
  | Library string
  | Download string
  | Runtime string int string
  | Context string error

type_synonym 'a result = "error + 'a"

definition error_context :: "error \<Rightarrow> string \<Rightarrow> error" where
  "error_context e c = Context c e"

fun compiler_diagnostics :: "error \<Rightarrow> string list option" where
  "compiler_diagnostics (Compile _ ds _) = Some ds"
| "compiler_diagnostics (Context _ e) = compiler_diagnostics e"
| "compiler_diagnostics (Execution e) = compiler_diagnostics e"
| "compiler_diagnostics _ = None"

fun compiler_report :: "error \<Rightarrow> string option" where
  "compiler_report (Compile _ _ r) = r"
| "compiler_report (Context _ e) = compiler_report e"
| "compiler_report (Execution e) = compiler_report e"
| "compiler_report _ = None"

fun is_ok :: "'e + 'a \<Rightarrow> bool" where
  "is_ok (Inr _) = True"
| "is_ok (Inl _) = False"

lemma is_ok_iff: "is_ok r \<longleftrightarrow> (\<exists>x. r = Inr x)"
  by (cases r) auto

lemma guard_ok: "(if P then Inl e else Inr x) = Inr y \<longleftrightarrow> \<not> P \<and> x = y"
  by simp

text \<open>The \<open>?\<close> operator.\<close>

definition and_then :: "'e + 'a \<Rightarrow> ('a \<Rightarrow> 'e + 'b) \<Rightarrow> 'e + 'b" where
  "and_then r k = (case r of Inl e \<Rightarrow> Inl e | Inr x \<Rightarrow> k x)"

lemma and_then_simps [simp]:
  "and_then (Inl e) k = Inl e"
  "and_then (Inr x) k = k x"
  by (simp_all add: and_then_def)

lemma and_then_Inr_iff: "and_then r k = Inr y \<longleftrightarrow> (\<exists>x. r = Inr x \<and> k x = Inr y)"
  by (cases r) auto

text \<open>A \<open>for\<close> loop whose body may return early with an error.\<close>

fun try_all :: "('a \<Rightarrow> 'e + unit) \<Rightarrow> 'a list \<Rightarrow> 'e + unit" where
  "try_all f [] = Inr ()"
| "try_all f (x # xs) = and_then (f x) (\<lambda>_. try_all f xs)"

lemma try_all_ok: "try_all f xs = Inr () \<longleftrightarrow> (\<forall>x\<in>set xs. f x = Inr ())"
  by (induction xs) (auto simp: and_then_def split: sum.splits)

lemma try_all_error: "try_all f xs = Inl e \<Longrightarrow> \<exists>x\<in>set xs. f x = Inl e"
  by (induction xs) (auto simp: and_then_def split: sum.splits)

text \<open>Collecting an iterator of results stops at the first error.\<close>

fun map_result :: "('a \<Rightarrow> 'b result) \<Rightarrow> 'a list \<Rightarrow> 'b list result" where
  "map_result f [] = Inr []"
| "map_result f (x # xs) = and_then (f x) (\<lambda>y. and_then (map_result f xs) (\<lambda>ys. Inr (y # ys)))"

lemma map_result_Inr: "map_result f xs = Inr ys \<longleftrightarrow> list_all2 (\<lambda>x y. f x = Inr y) xs ys"
  by (induction xs arbitrary: ys) (auto simp: and_then_Inr_iff list_all2_Cons1)


text \<open>\<open>checked_span\<close> of \<^verbatim>\<open>src/src/runtime.rs\<close>, shared by every kind of view.\<close>

definition span_text :: "usize \<Rightarrow> usize \<Rightarrow> usize \<Rightarrow> string" where
  "span_text off len capacity =
     ''span '' @ show_nat off @ ''+'' @ show_nat len @ '' exceeds '' @ show_nat capacity @ '' bytes''"

definition checked_span :: "usize \<Rightarrow> usize \<Rightarrow> usize \<Rightarrow> unit result" where
  "checked_span off len capacity =
     (case checked_add off len of
        None \<Rightarrow> Inl (Message (span_text off len capacity))
      | Some e \<Rightarrow> if e > capacity then Inl (Message (span_text off len capacity)) else Inr ())"

lemma checked_span_ok: "checked_span off len cap = Inr () \<longleftrightarrow> off + len \<le> usize_MAX \<and> off + len \<le> cap"
  by (auto simp: checked_span_def split: option.splits)


section \<open>Access kinds\<close>

datatype access = Read | Write | ReadWrite

definition writes :: "access \<Rightarrow> bool" where
  "writes a \<longleftrightarrow> a \<noteq> Read"

definition reads :: "access \<Rightarrow> bool" where
  "reads a \<longleftrightarrow> a \<noteq> Write"

lemma writes_simps [simp]: "\<not> writes Read" "writes Write" "writes ReadWrite"
  by (simp_all add: writes_def)

lemma reads_simps [simp]: "reads Read" "\<not> reads Write" "reads ReadWrite"
  by (simp_all add: reads_def)


section \<open>Vectors and iterators\<close>

text \<open>
  \<open>position\<close> is \<open>iter().position(..)\<close>, \<open>vec_insert\<close> and \<open>vec_remove\<close> are
  \<open>Vec::insert\<close> and the states after \<open>Vec::remove\<close> and \<open>swap_remove\<close>, \<open>partition_point\<close> is the slice
  method on a slice that the predicate partitions (all callers establish that).
\<close>

fun position :: "('a \<Rightarrow> bool) \<Rightarrow> 'a list \<Rightarrow> nat option" where
  "position P [] = None"
| "position P (x # xs) = (if P x then Some 0 else map_option Suc (position P xs))"

definition vec_insert :: "nat \<Rightarrow> 'a \<Rightarrow> 'a list \<Rightarrow> 'a list" where
  "vec_insert i x xs = take i xs @ x # drop i xs"

definition vec_remove :: "nat \<Rightarrow> 'a list \<Rightarrow> 'a list" where
  "vec_remove i xs = take i xs @ drop (Suc i) xs"

definition swap_remove :: "nat \<Rightarrow> 'a list \<Rightarrow> 'a list" where
  "swap_remove i xs = butlast (xs[i := last xs])"

definition partition_point :: "('a \<Rightarrow> bool) \<Rightarrow> 'a list \<Rightarrow> nat" where
  "partition_point P xs = length (takeWhile P xs)"

text \<open>\<open>min_by_key\<close>: the first of the smallest elements.\<close>

fun min_by_key :: "('a \<Rightarrow> nat) \<Rightarrow> 'a list \<Rightarrow> 'a option" where
  "min_by_key key [] = None"
| "min_by_key key (x # xs) =
     (case min_by_key key xs of None \<Rightarrow> Some x | Some y \<Rightarrow> if key x \<le> key y then Some x else Some y)"

lemma length_swap_remove [simp]: "length (swap_remove i xs) = length xs - 1"
  by (simp add: swap_remove_def)

lemma set_swap_remove: "xs \<noteq> [] \<Longrightarrow> set (swap_remove i xs) \<subseteq> set xs"
  using set_update_subset_insert [of xs i "last xs"] by (auto simp: swap_remove_def dest!: in_set_butlastD)

lemma position_Some:
  "position P xs = Some i \<longleftrightarrow> i < length xs \<and> P (xs ! i) \<and> (\<forall>j<i. \<not> P (xs ! j))"
proof (induction xs arbitrary: i)
  case (Cons x xs)
  show ?case
  proof (cases i)
    case (Suc k)
    then have "(\<forall>j<i. \<not> P ((x # xs) ! j)) \<longleftrightarrow> \<not> P x \<and> (\<forall>j<k. \<not> P (xs ! j))"
      by (auto simp: less_Suc_eq_0_disj)
    with Cons Suc show ?thesis by auto
  qed auto
qed simp

lemma position_None: "position P xs = None \<longleftrightarrow> (\<forall>x\<in>set xs. \<not> P x)"
  by (induction xs) auto

lemma vec_insert_simps [rust_simps]:
  "vec_insert 0 x xs = x # xs"
  "vec_insert (Suc i) x (y # ys) = y # vec_insert i x ys"
  by (simp_all add: vec_insert_def)

lemma vec_remove_simps [rust_simps]:
  "vec_remove 0 (x # xs) = xs"
  "vec_remove (Suc i) (x # xs) = x # vec_remove i xs"
  by (simp_all add: vec_remove_def)

lemma length_vec_remove: "i < length xs \<Longrightarrow> length (vec_remove i xs) = length xs - 1"
  by (simp add: vec_remove_def)

lemma set_vec_remove_subset: "set (vec_remove i xs) \<subseteq> set xs"
  by (auto simp: vec_remove_def dest: in_set_takeD in_set_dropD)

lemma take_partition_point [rust_simps]: "take (partition_point P xs) xs = takeWhile P xs"
  unfolding partition_point_def by (metis append_eq_conv_conj takeWhile_dropWhile_id)

lemma drop_partition_point [rust_simps]: "drop (partition_point P xs) xs = dropWhile P xs"
  unfolding partition_point_def by (simp add: dropWhile_eq_drop)

lemma ball_zip_nth:
  "length xs = length ys \<Longrightarrow> (\<forall>p\<in>set (zip xs ys). P p) \<longleftrightarrow> (\<forall>i<length xs. P (xs ! i, ys ! i))"
  by (metis (no_types, lifting) in_set_conv_nth length_zip min.idem nth_zip)

text \<open>A symmetric property of all pairs below a bound need only be checked downwards.\<close>

lemma all_pairs_below:
  assumes "\<And>i j. P i j \<Longrightarrow> P j i"
  shows "(\<forall>i<(n::nat). \<forall>j<i. P i j) \<longleftrightarrow> (\<forall>i<n. \<forall>j<n. i \<noteq> j \<longrightarrow> P i j)"
proof
  assume L: "\<forall>i<n. \<forall>j<i. P i j"
  show "\<forall>i<n. \<forall>j<n. i \<noteq> j \<longrightarrow> P i j"
  proof (intro allI impI)
    fix i j assume "i < n" "j < n" "i \<noteq> j"
    then consider "j < i" | "i < j" by linarith
    then show "P i j" using L assms \<open>i < n\<close> \<open>j < n\<close> by cases blast+
  qed
qed auto

lemma min_by_key_Some: "min_by_key key xs = Some x \<Longrightarrow> x \<in> set xs \<and> (\<forall>y\<in>set xs. key x \<le> key y)"
proof (induction xs arbitrary: x)
  case (Cons a xs)
  show ?case
  proof (cases "min_by_key key xs")
    case None
    then have "xs = []" by (cases xs) (auto split: option.splits if_splits)
    with Cons.prems None show ?thesis by simp
  next
    case (Some y)
    with Cons.IH [OF Some] Cons.prems show ?thesis by (auto split: if_splits intro: order_trans)
  qed
qed simp

lemma min_by_key_None: "min_by_key key xs = None \<longleftrightarrow> xs = []"
  by (cases xs) (auto split: option.splits)

end
