(* ===== verification/Buffer_Views.thy ===== *)
theory Buffer_Views
  imports HRX_Prelude
begin

text \<open>
  Buffer views and kernel argument contracts: \<^verbatim>\<open>src/src/execution/buffer.rs\<close> (the owned,
  checked views) and \<^verbatim>\<open>src/src/execution/contract.rs\<close>. A \<open>buffer\<close> is a handle on a shared
  allocation: its address identifies the storage (\<open>Arc::ptr_eq\<close>) and the fields that
  never change after allocation are kept with the handle. What changes (host leases,
  poison, visibility) is in \<open>Buffer_Leases\<close>.
\<close>


section \<open>Handles and views\<close>

record buffer =
  b_id :: usize
  b_bytes :: usize
  b_shared :: bool
  b_mapped :: bool
  b_gpu :: bool
  b_native :: bool
  b_runtime :: nat

record buffer_view =
  v_buffer :: buffer
  v_start :: usize
  v_end :: usize
  v_retained :: "nat list"

definition buffer_len :: "buffer \<Rightarrow> usize" where
  "buffer_len b = b_bytes b"

definition buffer_is_empty :: "buffer \<Rightarrow> bool" where
  "buffer_is_empty b \<longleftrightarrow> buffer_len b = 0"

definition whole_view :: "buffer \<Rightarrow> buffer_view" where
  "whole_view b = \<lparr>v_buffer = b, v_start = 0, v_end = buffer_len b, v_retained = []\<rparr>"

definition is_host_visible :: "buffer_view \<Rightarrow> bool" where
  "is_host_visible v \<longleftrightarrow> b_mapped (v_buffer v)"

definition view_len :: "buffer_view \<Rightarrow> usize" where
  "view_len v = v_end v - v_start v"

definition view_is_empty :: "buffer_view \<Rightarrow> bool" where
  "view_is_empty v \<longleftrightarrow> \<not> v_start v < v_end v"

definition view_offset :: "buffer_view \<Rightarrow> usize" where
  "view_offset v = v_start v"

definition view_slice :: "buffer_view \<Rightarrow> usize \<times> usize \<Rightarrow> buffer_view result" where
  "view_slice v r =
     (if fst r > snd r \<or> snd r > view_len v
      then Inl (Message ''buffer view is out of bounds'')
      else Inr (v\<lparr>v_start := v_start v + fst r, v_end := v_start v + snd r\<rparr>))"

definition buffer_slice :: "buffer \<Rightarrow> usize \<times> usize \<Rightarrow> buffer_view result" where
  "buffer_slice b r = view_slice (whole_view b) r"

definition view_retain :: "buffer_view \<Rightarrow> nat \<Rightarrow> buffer_view" where
  "view_retain v owner = v\<lparr>v_retained := v_retained v @ [owner]\<rparr>"

definition overlaps :: "buffer_view \<Rightarrow> buffer_view \<Rightarrow> bool" where
  "overlaps v w \<longleftrightarrow> b_id (v_buffer v) = b_id (v_buffer w)
     \<and> v_start v < v_end w \<and> v_start w < v_end v"

definition same_region :: "buffer_view \<Rightarrow> buffer_view \<Rightarrow> bool" where
  "same_region v w \<longleftrightarrow> b_id (v_buffer v) = b_id (v_buffer w)
     \<and> v_start v = v_start w \<and> v_end v = v_end w"

definition view_conflicts :: "buffer_view \<Rightarrow> buffer_view \<Rightarrow> bool" where
  "view_conflicts v w \<longleftrightarrow> b_id (v_buffer v) = b_id (v_buffer w)
     \<and> (b_shared (v_buffer v) \<or> overlaps v w)"

text \<open>The GPU buffer of an allocation has the allocation's extent.\<close>

definition view_gpu :: "buffer_view \<Rightarrow> unit result" where
  "view_gpu v =
     (if \<not> b_gpu (v_buffer v) then Inl (Unsupported ''NPU-local storage cannot bind to the GPU'')
      else checked_span (view_offset v) (view_len v) (b_bytes (v_buffer v)))"

text \<open>The invariant of every view the module hands out: it lies inside its allocation.\<close>

definition view_ok :: "buffer_view \<Rightarrow> bool" where
  "view_ok v \<longleftrightarrow> v_start v \<le> v_end v \<and> v_end v \<le> b_bytes (v_buffer v)"

lemmas view_defs = buffer_len_def view_len_def view_offset_def view_slice_def view_ok_def

lemma whole_view_ok [simp, intro, inv_intros]: "view_ok (whole_view b)"
  by (simp add: whole_view_def view_defs)

lemma whole_view_fields [simp, view_simps]:
  "v_buffer (whole_view b) = b" "v_start (whole_view b) = 0" "v_end (whole_view b) = b_bytes b"
  "v_retained (whole_view b) = []"
  by (simp_all add: whole_view_def buffer_len_def)

lemma view_slice_Inr:
  "view_slice v r = Inr w \<longleftrightarrow>
     fst r \<le> snd r \<and> snd r \<le> view_len v
     \<and> w = v\<lparr>v_start := v_start v + fst r, v_end := v_start v + snd r\<rparr>"
  by (auto simp: view_slice_def)

lemma view_slice_ok [inv_intros]: "view_ok v \<Longrightarrow> view_slice v r = Inr w \<Longrightarrow> view_ok w"
  by (auto simp: view_slice_Inr view_len_def view_ok_def)

lemma view_retain_ok [inv_intros]: "view_ok (view_retain v owner) = view_ok v"
  by (simp add: view_ok_def view_retain_def)

text \<open>
  Slicing is checked and composes. A slice succeeds exactly when the requested range
  is ascending and inside the parent view; the result lies inside the parent (so inside
  the allocation), has the requested length, and slicing a slice is the slice of the
  parent at the sum of the offsets.
\<close>

lemma view_slice_checked:
  assumes "view_ok v"
  shows "(is_ok (view_slice v (a, b)) \<longleftrightarrow> a \<le> b \<and> b \<le> view_len v)
    \<and> (\<forall>w. view_slice v (a, b) = Inr w \<longrightarrow>
      view_ok w \<and> v_buffer w = v_buffer v \<and> v_start v \<le> v_start w \<and> v_end w \<le> v_end v
      \<and> view_len w = b - a
      \<and> (\<forall>c d. c \<le> d \<and> d \<le> b - a \<longrightarrow> view_slice w (c, d) = view_slice v (a + c, a + d)))"
proof (rule conjI [OF _ allI [OF impI]])
  show "is_ok (view_slice v (a, b)) \<longleftrightarrow> a \<le> b \<and> b \<le> view_len v"
    by (auto simp: view_slice_def)
  fix w assume w: "view_slice v (a, b) = Inr w"
  then have eq: "a \<le> b" "b \<le> view_len v" "w = v\<lparr>v_start := v_start v + a, v_end := v_start v + b\<rparr>"
    by (auto simp: view_slice_Inr)
  moreover have "view_slice w (c, d) = view_slice v (a + c, a + d)" if "c \<le> d" "d \<le> b - a" for c d
    using that eq by (auto simp: view_slice_def view_len_def)
  ultimately show "view_ok w \<and> v_buffer w = v_buffer v \<and> v_start v \<le> v_start w \<and> v_end w \<le> v_end v
      \<and> view_len w = b - a \<and> (\<forall>c d. c \<le> d \<and> d \<le> b - a \<longrightarrow> view_slice w (c, d) = view_slice v (a + c, a + d))"
    using view_slice_ok [OF assms w] assms by (auto simp: view_len_def view_ok_def)
qed

definition demo_buffer :: "usize \<Rightarrow> bool \<Rightarrow> buffer" where
  "demo_buffer i sh = \<lparr>b_id = i, b_bytes = 256, b_shared = sh, b_mapped = True, b_gpu = True,
     b_native = True, b_runtime = 0\<rparr>"

section \<open>Regions and uses\<close>

text \<open>\<open>Use\<close> of \<^verbatim>\<open>src/src/execution/graph.rs\<close>.\<close>

record guse =
  g_view :: buffer_view
  g_access :: access

text \<open>
  \<open>region\<close> of \<^verbatim>\<open>src/src/execution/dependencies.rs\<close>: hazards of a shared allocation are
  allocation-wide, because its cache maintenance is.
\<close>

definition region :: "buffer_view \<Rightarrow> usize \<times> usize \<times> usize" where
  "region v = (b_id (v_buffer v),
     if b_shared (v_buffer v) then (0, buffer_len (v_buffer v)) else (v_start v, v_end v))"

definition use_id :: "guse \<Rightarrow> usize" where
  "use_id u = fst (region (g_view u))"

definition reg_start :: "guse \<Rightarrow> usize" where
  "reg_start u = fst (snd (region (g_view u)))"

definition reg_end :: "guse \<Rightarrow> usize" where
  "reg_end u = snd (snd (region (g_view u)))"

lemmas region_defs = region_def use_id_def reg_start_def reg_end_def

lemma region_eq: "region (g_view u) = (use_id u, reg_start u, reg_end u)"
  by (simp add: use_id_def reg_start_def reg_end_def)

definition use_ok :: "guse \<Rightarrow> bool" where
  "use_ok u \<longleftrightarrow> view_ok (g_view u)"

lemma use_ok_region: "use_ok u \<Longrightarrow> reg_start u \<le> reg_end u"
  by (auto simp: use_ok_def view_ok_def region_defs)

text \<open>Handles with the same address are the same handle.\<close>

definition handles_agree :: "guse list \<Rightarrow> bool" where
  "handles_agree us \<longleftrightarrow>
     (\<forall>u\<in>set us. \<forall>v\<in>set us. use_id u = use_id v \<longrightarrow> v_buffer (g_view u) = v_buffer (g_view v))"

lemma handles_agreeD:
  "handles_agree us \<Longrightarrow> u \<in> set us \<Longrightarrow> v \<in> set us \<Longrightarrow> use_id u = use_id v
    \<Longrightarrow> v_buffer (g_view u) = v_buffer (g_view v)"
  unfolding handles_agree_def by (drule (1) bspec, drule (1) bspec, erule mp)

text \<open>Two uses of overlapping regions, at least one of them writing.\<close>

definition hazard :: "guse \<Rightarrow> guse \<Rightarrow> bool" where
  "hazard u v \<longleftrightarrow> use_id u = use_id v
     \<and> max (reg_start u) (reg_start v) < min (reg_end u) (reg_end v)
     \<and> (writes (g_access u) \<or> writes (g_access v))"

text \<open>\<open>Use::conflicts\<close>, the pairwise check of the same file.\<close>

definition guse_conflicts :: "guse \<Rightarrow> guse \<Rightarrow> bool" where
  "guse_conflicts u v \<longleftrightarrow> view_conflicts (g_view u) (g_view v)
     \<and> (writes (g_access u) \<or> writes (g_access v))"

lemma hazard_imp_guse_conflicts:
  assumes "hazard u v" "v_buffer (g_view u) = v_buffer (g_view v)"
  shows "guse_conflicts u v"
  using assms
  by (auto simp: hazard_def guse_conflicts_def view_conflicts_def overlaps_def region_defs
      split: if_splits)

lemma guse_conflicts_imp_hazard:
  assumes "guse_conflicts u v" "v_buffer (g_view u) = v_buffer (g_view v)"
    and "v_start (g_view u) < v_end (g_view u)" "v_start (g_view v) < v_end (g_view v)"
    and "0 < b_bytes (v_buffer (g_view u))"
  shows "hazard u v"
  using assms
  by (auto simp: hazard_def guse_conflicts_def view_conflicts_def overlaps_def region_defs
      buffer_len_def split: if_splits)


section \<open>Kernel argument contracts\<close>

record binding_contract =
  c_bytes :: usize
  c_alignment :: usize
  c_access :: access
  c_layout :: string

record kernel_contract =
  k_bindings :: "binding_contract list"
  k_constants :: "nat list"

definition contract_validate :: "kernel_contract \<Rightarrow> unit result" where
  "contract_validate k =
     try_all (\<lambda>b. if c_bytes b = 0 \<or> c_bytes b > isize_MAX \<or> \<not> is_power_of_two (c_alignment b)
                  then Inl (Message ''invalid kernel binding extent or alignment'') else Inr ())
       (k_bindings k)"

definition describe :: "binding_contract \<Rightarrow> string" where
  "describe c = ''binding does not satisfy '' @ c_layout c @ '': '' @ show_nat (c_bytes c)
     @ '' bytes aligned to '' @ show_nat (c_alignment c) @ '' required''"

definition check_extents ::
  "kernel_contract \<Rightarrow> buffer_view list \<Rightarrow> unit result" where
  "check_extents k bindings =
     and_then (contract_validate k) (\<lambda>_.
       if length bindings \<noteq> length (k_bindings k)
       then Inl (Message ''kernel binding count mismatch'')
       else try_all (\<lambda>(v, c). if view_len v < c_bytes c \<or> view_offset v mod c_alignment c \<noteq> 0
                       then Inl (Message (describe c)) else Inr ())
              (zip bindings (k_bindings k)))"

definition check_aliases :: "kernel_contract \<Rightarrow> buffer_view list \<Rightarrow> unit result" where
  "check_aliases k bindings =
     try_all (\<lambda>i. try_all (\<lambda>j.
         if overlaps (bindings ! i) (bindings ! j)
            \<and> (writes (c_access (k_bindings k ! i)) \<or> writes (c_access (k_bindings k ! j)))
         then Inl (Message ''overlapping writable kernel arguments require an unsafe dispatch'')
         else Inr ()) [0..<i])
       [0..<length bindings]"

definition contract_check ::
  "kernel_contract \<Rightarrow> buffer_view list \<Rightarrow> unit result" where
  "contract_check k bindings =
     and_then (check_extents k bindings) (\<lambda>_. check_aliases k bindings)"

lemma overlaps_sym: "overlaps v w \<longleftrightarrow> overlaps w v"
  by (auto simp: overlaps_def)

lemma contract_validate_ok:
  "contract_validate k = Inr () \<longleftrightarrow>
     (\<forall>b\<in>set (k_bindings k). 0 < c_bytes b \<and> c_bytes b \<le> isize_MAX \<and> is_power_of_two (c_alignment b))"
  by (auto simp: contract_validate_def try_all_ok not_less split: if_splits)

lemma check_extents_ok:
  "check_extents k vs = Inr () \<longleftrightarrow>
     contract_validate k = Inr () \<and> length vs = length (k_bindings k) \<and>
     (\<forall>i<length vs. c_bytes (k_bindings k ! i) \<le> view_len (vs ! i)
        \<and> view_offset (vs ! i) mod c_alignment (k_bindings k ! i) = 0)"
proof -
  have "try_all (\<lambda>(v, c). if view_len v < c_bytes c \<or> view_offset v mod c_alignment c \<noteq> 0
             then Inl (Message (describe c)) else Inr ()) (zip vs (k_bindings k)) = Inr ()
     \<longleftrightarrow> (\<forall>i<length vs. c_bytes (k_bindings k ! i) \<le> view_len (vs ! i)
        \<and> view_offset (vs ! i) mod c_alignment (k_bindings k ! i) = 0)"
    if "length vs = length (k_bindings k)"
    by (simp only: try_all_ok ball_zip_nth [OF that] prod.case guard_ok de_Morgan_disj not_less
        not_not simp_thms)
  then show ?thesis by (auto simp: check_extents_def and_then_Inr_iff)
qed

lemma check_aliases_ok:
  "check_aliases k vs = Inr () \<longleftrightarrow>
     (\<forall>i<length vs. \<forall>j<i. overlaps (vs ! i) (vs ! j) \<longrightarrow>
        \<not> writes (c_access (k_bindings k ! i)) \<and> \<not> writes (c_access (k_bindings k ! j)))"
  by (auto simp: check_aliases_def try_all_ok split: if_splits)

text \<open>
  C4: an accepted binding list satisfies the kernel's contract. \<open>check\<close> succeeds exactly
  when every declared extent is nonzero, at most \<open>isize::MAX\<close> and has a power-of-two
  alignment, the number of views matches, every view is long enough and aligned, and no
  two distinct arguments overlap unless both are read only.
\<close>

theorem contract_check_iff:
  "contract_check k vs = Inr () \<longleftrightarrow>
     (\<forall>b\<in>set (k_bindings k). 0 < c_bytes b \<and> c_bytes b \<le> isize_MAX \<and> (\<exists>e. c_alignment b = 2 ^ e)) \<and>
     length vs = length (k_bindings k) \<and>
     (\<forall>i<length vs. c_bytes (k_bindings k ! i) \<le> view_len (vs ! i)
        \<and> c_alignment (k_bindings k ! i) dvd view_offset (vs ! i)) \<and>
     (\<forall>i<length vs. \<forall>j<length vs. i \<noteq> j \<and> overlaps (vs ! i) (vs ! j) \<longrightarrow>
        c_access (k_bindings k ! i) = Read \<and> c_access (k_bindings k ! j) = Read)"
proof -
  have "(\<forall>i<length vs. \<forall>j<i. overlaps (vs ! i) (vs ! j) \<longrightarrow>
        \<not> writes (c_access (k_bindings k ! i)) \<and> \<not> writes (c_access (k_bindings k ! j)))
    \<longleftrightarrow> (\<forall>i<length vs. \<forall>j<length vs. i \<noteq> j \<and> overlaps (vs ! i) (vs ! j) \<longrightarrow>
        c_access (k_bindings k ! i) = Read \<and> c_access (k_bindings k ! j) = Read)"
    unfolding writes_def
    by (subst all_pairs_below) (auto simp: overlaps_sym)
  then show ?thesis
    by (simp add: contract_check_def and_then_Inr_iff check_extents_ok contract_validate_ok
        check_aliases_ok is_power_of_two_iff dvd_eq_mod_eq_0)
qed

lemma all_less_two: "(\<forall>i<Suc (Suc 0). P i) \<longleftrightarrow> P 0 \<and> P (Suc 0)"
  by (auto simp: less_Suc_eq)

definition demo_contract :: kernel_contract where
  "demo_contract = \<lparr>k_bindings =
      [\<lparr>c_bytes = 16, c_alignment = 4, c_access = Read, c_layout = ''in''\<rparr>,
       \<lparr>c_bytes = 16, c_alignment = 4, c_access = Write, c_layout = ''out''\<rparr>],
     k_constants = []\<rparr>"

theorem contract_check_iff_witness:
  "contract_check demo_contract
      [whole_view (demo_buffer 7 False)\<lparr>v_end := 16\<rparr>, whole_view (demo_buffer 7 False)\<lparr>v_start := 16\<rparr>]
      = Inr ()
   \<and> contract_check demo_contract
      [whole_view (demo_buffer 7 False), whole_view (demo_buffer 7 False)] \<noteq> Inr ()"
proof
  have e: "\<exists>e. (4::nat) = 2 ^ e" by (rule exI [of _ 2]) simp
  show "contract_check demo_contract
      [whole_view (demo_buffer 7 False)\<lparr>v_end := 16\<rparr>, whole_view (demo_buffer 7 False)\<lparr>v_start := 16\<rparr>]
      = Inr ()"
    unfolding contract_check_iff using e
    by (auto simp: demo_contract_def demo_buffer_def view_len_def view_offset_def overlaps_def
        isize_MAX_def less_Suc_eq)
  have "overlaps (whole_view (demo_buffer 7 False)) (whole_view (demo_buffer 7 False))"
    by (simp add: overlaps_def demo_buffer_def)
  then show "contract_check demo_contract
      [whole_view (demo_buffer 7 False), whole_view (demo_buffer 7 False)] \<noteq> Inr ()"
    unfolding contract_check_iff demo_contract_def
    by (simp add: all_less_two)
qed

end
