(* ===== verification/Dependency_Frontier.thy ===== *)
theory Dependency_Frontier
  imports HRX_Prelude
begin

text \<open>
  The interval frontier of \<^verbatim>\<open>src/src/dependency_frontier.rs\<close>: for every allocation a sorted
  list of disjoint byte segments, each with its last writer and the readers since that
  write. \<open>dependencies\<close> records one operation and returns the earlier operations it has to
  wait for. The theory shows that the segment lists implement a per-byte table (a
  refinement), and, through the interface \<open>byte_frontier\<close>, that the returned edges order
  every pair of conflicting operations and contain no edge between operations that do
  not conflict.
\<close>


section \<open>Data\<close>

text \<open>\<open>Use\<close>: one declared access of an operation, and \<open>Segment\<close>.\<close>

record iuse =
  u_alloc :: usize
  u_start :: usize
  u_end :: usize
  u_access :: access

record segment =
  seg_start :: usize
  seg_end :: usize
  seg_writer :: "nat option"
  seg_readers :: "nat set"

type_synonym frontier = "usize \<rightharpoonup> segment list"

definition fresh_segment :: "usize \<Rightarrow> usize \<Rightarrow> segment" where
  "fresh_segment s e = \<lparr>seg_start = s, seg_end = e, seg_writer = None, seg_readers = {}\<rparr>"


section \<open>Operations\<close>

text \<open>Lines 40--50: cut the segment that strictly contains \<open>point\<close> in two.\<close>

definition split_at :: "usize \<Rightarrow> segment list \<Rightarrow> segment list" where
  "split_at point segs =
     (case position (\<lambda>s. seg_start s < point \<and> point < seg_end s) segs of
        None \<Rightarrow> segs
      | Some i \<Rightarrow>
          vec_insert (Suc i) ((segs ! i)\<lparr>seg_start := point\<rparr>)
            (segs[i := (segs ! i)\<lparr>seg_end := point\<rparr>]))"

text \<open>
  Lines 54--65: the segment the loop works on at \<open>pos\<close>, with the segments behind it; a
  fresh segment is inserted where the list has a gap. The list argument is the vector
  from the loop's \<open>index\<close> on.
\<close>

definition current_segment :: "usize \<Rightarrow> usize \<Rightarrow> segment list \<Rightarrow> segment \<times> segment list" where
  "current_segment pos uend segs =
     (case segs of
        [] \<Rightarrow> (fresh_segment pos uend, [])
      | s # rest \<Rightarrow>
          if pos < seg_start s then (fresh_segment pos (min (seg_start s) uend), s # rest)
          else (s, rest))"

text \<open>Lines 66--73: collect the segment's dependencies and record the access on it.\<close>

definition touch :: "nat \<Rightarrow> access \<Rightarrow> segment \<Rightarrow> segment \<times> nat set" where
  "touch node acc s =
     (if acc \<noteq> Read then
        (s\<lparr>seg_readers := {}, seg_writer := Some node\<rparr>,
         set_option (seg_writer s) \<union> seg_readers s)
      else (s\<lparr>seg_readers := insert node (seg_readers s)\<rparr>, set_option (seg_writer s)))"

text \<open>Lines 53--76: the loop.\<close>

function sweep :: "nat \<Rightarrow> access \<Rightarrow> usize \<Rightarrow> usize \<Rightarrow> segment list \<Rightarrow> segment list \<times> nat set" where
  "sweep node acc uend pos segs =
     (if pos < uend then
        (let (s, rest) = current_segment pos uend segs;
             (s', d) = touch node acc s;
             (rest', d') = sweep node acc uend (seg_end s) rest
         in (s' # rest', d \<union> d'))
      else (segs, {}))"
  by pat_completeness auto
termination
  by (relation "measure (\<lambda>(node, acc, uend, pos, segs).
        2 * length segs
        + (if pos < uend \<and> (segs = [] \<or> pos < seg_start (hd segs)) then 1 else 0))")
     (auto simp: current_segment_def fresh_segment_def split: list.splits if_splits)

declare sweep.simps [simp del]

text \<open>Lines 35--77: one use, on the segment list of its allocation.\<close>

definition use_segments :: "nat \<Rightarrow> iuse \<Rightarrow> segment list \<Rightarrow> segment list \<times> nat set" where
  "use_segments node u segs =
     (let segs1 = split_at (u_end u) (split_at (u_start u) segs);
          i = partition_point (\<lambda>s. seg_end s \<le> u_start u) segs1;
          (swept, d) = sweep node (u_access u) (u_end u) (u_start u) (drop i segs1)
      in (take i segs1 @ swept, d))"

definition segments_of :: "frontier \<Rightarrow> usize \<Rightarrow> segment list" where
  "segments_of f a = (case f a of None \<Rightarrow> [] | Some segs \<Rightarrow> segs)"

definition frontier_use :: "nat \<Rightarrow> iuse \<Rightarrow> frontier \<Rightarrow> frontier \<times> nat set" where
  "frontier_use node u f =
     (if \<not> u_start u < u_end u then (f, {})
      else
        (let (segs, d) = use_segments node u (segments_of f (u_alloc u))
         in (f(u_alloc u \<mapsto> segs), d)))"

text \<open>The loop over the uses of one operation, collecting a set of dependencies.\<close>

fun track_all :: "('u \<Rightarrow> 'f \<Rightarrow> 'f \<times> nat set) \<Rightarrow> 'u list \<Rightarrow> 'f \<Rightarrow> 'f \<times> nat set" where
  "track_all track [] f = (f, {})"
| "track_all track (u # us) f =
     (let (f1, d) = track u f; (f2, d') = track_all track us f1 in (f2, d \<union> d'))"

lemma track_all_Cons [simp]:
  "fst (track_all track (u # us) f) = fst (track_all track us (fst (track u f)))"
  "snd (track_all track (u # us) f) = snd (track u f) \<union> snd (track_all track us (fst (track u f)))"
  by (simp_all add: Let_def split: prod.splits)

declare track_all.simps(2) [simp del]

definition finish_deps :: "nat \<Rightarrow> 'f \<times> nat set \<Rightarrow> 'f \<times> nat list" where
  "finish_deps node r = (fst r, sorted_list_of_set (snd r - {node}))"

definition dependencies :: "frontier \<Rightarrow> nat \<Rightarrow> iuse list \<Rightarrow> frontier \<times> nat list" where
  "dependencies f node uses = finish_deps node (track_all (frontier_use node) uses f)"

text \<open>
  The clients number their operations from 0 and record them in order; the result is the
  dependency list of each operation.
\<close>

fun record_ops :: "('f \<Rightarrow> nat \<Rightarrow> 'u list \<Rightarrow> 'f \<times> nat list) \<Rightarrow> 'f \<Rightarrow> nat \<Rightarrow> 'u list list \<Rightarrow> nat list list" where
  "record_ops deps f node [] = []"
| "record_ops deps f node (us # ops) =
     (let (f', ds) = deps f node us in ds # record_ops deps f' (Suc node) ops)"

lemma length_record_ops [simp]: "length (record_ops deps f n ops) = length ops"
  by (induction ops arbitrary: f n) (auto simp: Let_def split: prod.splits)

fun record_state :: "('f \<Rightarrow> nat \<Rightarrow> 'u list \<Rightarrow> 'f \<times> nat list) \<Rightarrow> 'f \<Rightarrow> nat \<Rightarrow> 'u list list \<Rightarrow> 'f" where
  "record_state deps f node [] = f"
| "record_state deps f node (us # ops) = record_state deps (fst (deps f node us)) (Suc node) ops"

lemma record_ops_snoc:
  "record_ops deps f n (ops @ [us])
     = record_ops deps f n ops @ [snd (deps (record_state deps f n ops) (n + length ops) us)]"
  by (induction ops arbitrary: f n) (simp_all add: Let_def split: prod.splits)

lemma record_state_snoc:
  "record_state deps f n (ops @ [us]) = fst (deps (record_state deps f n ops) (n + length ops) us)"
  by (induction ops arbitrary: f n) simp_all

definition dep_edges :: "nat list list \<Rightarrow> (nat \<times> nat) set" where
  "dep_edges ds = {(d, j). j < length ds \<and> d \<in> set (ds ! j)}"

definition uses_overlap :: "iuse \<Rightarrow> iuse \<Rightarrow> bool" where
  "uses_overlap u v \<longleftrightarrow> u_alloc u = u_alloc v
     \<and> max (u_start u) (u_start v) < min (u_end u) (u_end v)"

definition uses_conflict :: "iuse \<Rightarrow> iuse \<Rightarrow> bool" where
  "uses_conflict u v \<longleftrightarrow> uses_overlap u v \<and> (writes (u_access u) \<or> writes (u_access v))"

definition ops_conflict :: "iuse list \<Rightarrow> iuse list \<Rightarrow> bool" where
  "ops_conflict us vs \<longleftrightarrow> (\<exists>u\<in>set us. \<exists>v\<in>set vs. uses_conflict u v)"


section \<open>The per-byte reading of a segment list\<close>

fun writer_at :: "segment list \<Rightarrow> usize \<Rightarrow> nat option" where
  "writer_at [] b = None"
| "writer_at (s # ss) b =
     (if seg_start s \<le> b \<and> b < seg_end s then seg_writer s else writer_at ss b)"

fun readers_at :: "segment list \<Rightarrow> usize \<Rightarrow> nat set" where
  "readers_at [] b = {}"
| "readers_at (s # ss) b =
     (if seg_start s \<le> b \<and> b < seg_end s then seg_readers s else readers_at ss b)"

text \<open>Sorted, disjoint, nonempty segments above a lower bound.\<close>

fun segs_ok :: "usize \<Rightarrow> segment list \<Rightarrow> bool" where
  "segs_ok lo [] = True"
| "segs_ok lo (s # ss) =
     (lo \<le> seg_start s \<and> seg_start s < seg_end s \<and> finite (seg_readers s) \<and> segs_ok (seg_end s) ss)"

definition unsplit :: "usize \<Rightarrow> segment list \<Rightarrow> bool" where
  "unsplit p segs \<longleftrightarrow> (\<forall>s\<in>set segs. \<not> (seg_start s < p \<and> p < seg_end s))"

lemma segs_ok_mono: "segs_ok lo segs \<Longrightarrow> lo' \<le> lo \<Longrightarrow> segs_ok lo' segs"
  by (cases segs) auto

lemma segs_ok_start: "segs_ok lo segs \<Longrightarrow> s \<in> set segs \<Longrightarrow> lo \<le> seg_start s \<and> seg_start s < seg_end s"
  by (induction segs arbitrary: lo) force+

lemma below_segs [simp]:
  assumes "segs_ok lo segs" "b < lo"
  shows "writer_at segs b = None" "readers_at segs b = {}"
  using assms by (induction segs arbitrary: lo) force+

lemma finite_readers_at: "segs_ok lo segs \<Longrightarrow> finite (readers_at segs b)"
  by (induction segs arbitrary: lo) auto

subsection \<open>Splitting\<close>

lemma split_at_Nil [simp]: "split_at p [] = []"
  by (simp add: split_at_def)

lemma split_at_Cons [simp]:
  "split_at p (s # ss) =
     (if seg_start s < p \<and> p < seg_end s
      then s\<lparr>seg_end := p\<rparr> # s\<lparr>seg_start := p\<rparr> # ss
      else s # split_at p ss)"
  by (auto simp: split_at_def rust_simps split: option.splits)

lemma split_at_ok: "segs_ok lo segs \<Longrightarrow> segs_ok lo (split_at p segs)"
  by (induction segs arbitrary: lo) auto

lemma split_at_writer [simp]: "writer_at (split_at p segs) b = writer_at segs b"
  by (induction segs) auto

lemma split_at_readers [simp]: "readers_at (split_at p segs) b = readers_at segs b"
  by (induction segs) auto

lemma split_at_unsplit: "segs_ok lo segs \<Longrightarrow> unsplit p (split_at p segs)"
proof (induction segs arbitrary: lo)
  case (Cons s ss)
  show ?case
  proof (cases "seg_start s < p \<and> p < seg_end s")
    case True
    with Cons.prems have "\<forall>t\<in>set ss. p < seg_start t"
      using segs_ok_start [of "seg_end s" ss] by fastforce
    with True show ?thesis by (auto simp: unsplit_def)
  next
    case False
    with Cons show ?thesis by (auto simp: unsplit_def)
  qed
qed (simp add: unsplit_def)

lemma split_at_keeps_unsplit: "unsplit q segs \<Longrightarrow> unsplit q (split_at p segs)"
  by (induction segs) (auto simp: unsplit_def)

subsection \<open>The prefix before the use\<close>

lemma segs_ok_append:
  "segs_ok lo xs \<Longrightarrow> \<forall>s\<in>set xs. seg_end s \<le> p \<Longrightarrow> lo \<le> p \<Longrightarrow> segs_ok p ys \<Longrightarrow> segs_ok lo (xs @ ys)"
  by (induction xs arbitrary: lo) (auto intro: segs_ok_mono)

lemma segs_ok_takeWhile: "segs_ok lo segs \<Longrightarrow> segs_ok lo (takeWhile P segs)"
  by (induction segs arbitrary: lo) auto

lemma segs_ok_dropWhile:
  assumes "segs_ok lo segs" "unsplit p segs"
  shows "segs_ok p (dropWhile (\<lambda>s. seg_end s \<le> p) segs)"
  using assms by (induction segs arbitrary: lo) (auto simp: unsplit_def not_le)

lemma at_append_below:
  assumes "\<forall>s\<in>set xs. seg_end s \<le> p" "p \<le> b"
  shows "writer_at (xs @ ys) b = writer_at ys b" "readers_at (xs @ ys) b = readers_at ys b"
  using assms by (induction xs) auto

lemma at_append_above:
  assumes "segs_ok p ys" "b < p"
  shows "writer_at (xs @ ys) b = writer_at xs b" "readers_at (xs @ ys) b = readers_at xs b"
  using assms by (induction xs) auto

text \<open>
  The predicate handed to \<open>partition_point\<close> partitions the vector, as the slice method
  requires: behind the first segment that ends after \<open>p\<close> every segment does.
\<close>

lemma ends_partitioned:
  "segs_ok lo segs \<Longrightarrow> \<forall>s\<in>set (dropWhile (\<lambda>s. seg_end s \<le> p) segs). p < seg_end s"
proof (induction segs arbitrary: lo)
  case (Cons s ss)
  show ?case
  proof (cases "seg_end s \<le> p")
    case False
    with Cons.prems show ?thesis
      using segs_ok_start [of "seg_end s" ss] by fastforce
  qed (use Cons in auto)
qed simp


subsection \<open>The sweep\<close>

text \<open>What one access does to a single byte's entry, and what it depends on there.\<close>

definition byte_writer :: "nat \<Rightarrow> access \<Rightarrow> nat option \<Rightarrow> nat option" where
  "byte_writer node acc w = (if writes acc then Some node else w)"

definition byte_readers :: "nat \<Rightarrow> access \<Rightarrow> nat set \<Rightarrow> nat set" where
  "byte_readers node acc rs = (if writes acc then {} else insert node rs)"

definition byte_deps :: "access \<Rightarrow> nat option \<Rightarrow> nat set \<Rightarrow> nat set" where
  "byte_deps acc w rs = set_option w \<union> (if writes acc then rs else {})"

lemma touch_eq:
  "touch node acc s =
     (s\<lparr>seg_writer := byte_writer node acc (seg_writer s),
        seg_readers := byte_readers node acc (seg_readers s)\<rparr>,
      byte_deps acc (seg_writer s) (seg_readers s))"
  by (cases acc) (simp_all add: touch_def byte_writer_def byte_readers_def byte_deps_def)

text \<open>
  The contract of the loop: the result is again well formed from the start position on,
  every byte of \<open>pos..uend\<close> gets the access recorded, the others keep their entry, and the
  dependencies are exactly those of the bytes swept.
\<close>

definition swept :: "nat \<Rightarrow> access \<Rightarrow> usize \<Rightarrow> usize \<Rightarrow> segment list \<Rightarrow> segment list \<times> nat set \<Rightarrow> bool" where
  "swept node acc s e segs r \<longleftrightarrow>
     (\<forall>b. writer_at (fst r) b =
        (if s \<le> b \<and> b < e then byte_writer node acc (writer_at segs b) else writer_at segs b)) \<and>
     (\<forall>b. readers_at (fst r) b =
        (if s \<le> b \<and> b < e then byte_readers node acc (readers_at segs b) else readers_at segs b)) \<and>
     snd r = (\<Union>b\<in>{s..<e}. byte_deps acc (writer_at segs b) (readers_at segs b))"

text \<open>
  The current segment starts at \<open>pos\<close> when nothing is split, stays inside the use, and
  together with the rest reads as the list did.
\<close>

lemma current_segment_spec:
  assumes ok: "segs_ok pos segs" and un: "unsplit uend segs" and lt: "pos < uend"
    and cur: "current_segment pos uend segs = (s, rest)"
  shows "seg_start s = pos" "pos < seg_end s" "seg_end s \<le> uend" "finite (seg_readers s)"
    "segs_ok (seg_end s) rest" "unsplit uend rest"
    "\<And>b. pos \<le> b \<Longrightarrow> b < seg_end s \<Longrightarrow> writer_at segs b = seg_writer s \<and> readers_at segs b = seg_readers s"
    "\<And>b. seg_end s \<le> b \<Longrightarrow> writer_at segs b = writer_at rest b \<and> readers_at segs b = readers_at rest b"
  using assms
  by (auto simp: current_segment_def fresh_segment_def unsplit_def not_less
      split: list.splits if_splits)

lemma UN_atLeastLessThan_split:
  "(a::nat) \<le> m \<Longrightarrow> m \<le> e \<Longrightarrow> (\<Union>b\<in>{a..<e}. f b) = (\<Union>b\<in>{a..<m}. f b) \<union> (\<Union>b\<in>{m..<e}. f b)"
  by (simp add: UN_Un [symmetric] ivl_disj_un)

lemma sweep_spec:
  assumes "segs_ok pos segs" "unsplit uend segs"
  shows "segs_ok pos (fst (sweep node acc uend pos segs))
    \<and> swept node acc pos uend segs (sweep node acc uend pos segs)"
  using assms
proof (induction node acc uend pos segs rule: sweep.induct)
  case (1 node acc uend pos segs)
  show ?case
  proof (cases "pos < uend")
    case True
    obtain s rest where cur: "current_segment pos uend segs = (s, rest)" by fastforce
    note c = current_segment_spec [OF "1.prems" True cur]
    obtain rest' d' where rec: "sweep node acc uend (seg_end s) rest = (rest', d')" by fastforce
    have IH: "segs_ok (seg_end s) rest'" "swept node acc (seg_end s) uend rest (rest', d')"
      using "1.IH" [OF True cur [symmetric] refl touch_eq [symmetric] refl c(5,6)] rec by auto
    let ?s' = "s\<lparr>seg_writer := byte_writer node acc (seg_writer s),
        seg_readers := byte_readers node acc (seg_readers s)\<rparr>"
    have res: "sweep node acc uend pos segs
        = (?s' # rest', byte_deps acc (seg_writer s) (seg_readers s) \<union> d')"
      using True by (simp add: sweep.simps [of _ _ _ pos] cur rec touch_eq)
    have ok: "segs_ok pos (?s' # rest')"
      using c(1,2,4) IH(1) by (auto simp: byte_readers_def)
    have "(\<Union>b\<in>{pos..<seg_end s}. byte_deps acc (writer_at segs b) (readers_at segs b))
        = byte_deps acc (seg_writer s) (seg_readers s)"
      using c(2,7) by force
    moreover have "(\<Union>b\<in>{seg_end s..<uend}. byte_deps acc (writer_at segs b) (readers_at segs b)) = d'"
      using IH(2) c(8) by (auto simp: swept_def)
    ultimately have deps: "(\<Union>b\<in>{pos..<uend}. byte_deps acc (writer_at segs b) (readers_at segs b))
        = byte_deps acc (seg_writer s) (seg_readers s) \<union> d'"
      using UN_atLeastLessThan_split [of pos "seg_end s" uend] c(2,3) by (metis less_imp_le)
    have "swept node acc pos uend segs (sweep node acc uend pos segs)"
      unfolding swept_def res fst_conv snd_conv deps
      using c(1,2,3,7,8) IH(2) below_segs [OF "1.prems"(1)] below_segs [OF c(5)]
      by (auto simp: swept_def not_less not_le)
    with ok res show ?thesis by simp
  next
    case False
    with "1.prems" show ?thesis by (auto simp: sweep.simps [of _ _ _ pos] swept_def)
  qed
qed

lemma use_segments_spec:
  assumes ok: "segs_ok 0 segs" and ne: "u_start u < u_end u"
  shows "segs_ok 0 (fst (use_segments node u segs))
    \<and> swept node (u_access u) (u_start u) (u_end u) segs (use_segments node u segs)"
proof -
  let ?p = "u_start u"
  define segs1 where "segs1 = split_at (u_end u) (split_at ?p segs)"
  define pre where "pre = takeWhile (\<lambda>s. seg_end s \<le> ?p) segs1"
  define suf where "suf = dropWhile (\<lambda>s. seg_end s \<le> ?p) segs1"
  obtain segs2 d where sw: "sweep node (u_access u) (u_end u) ?p suf = (segs2, d)" by fastforce
  have ok1: "segs_ok 0 segs1" and un1: "unsplit ?p segs1" "unsplit (u_end u) segs1"
    unfolding segs1_def using ok
    by (auto intro: split_at_ok split_at_unsplit split_at_keeps_unsplit)
  have split: "segs1 = pre @ suf" by (simp add: pre_def suf_def)
  have pre_le: "\<forall>s\<in>set pre. seg_end s \<le> ?p" by (auto simp: pre_def dest: set_takeWhileD)
  have sufs: "segs_ok ?p suf" "unsplit (u_end u) suf"
    unfolding suf_def using ok1 un1
    by (auto intro: segs_ok_dropWhile simp: unsplit_def dest: set_dropWhileD)
  have res: "use_segments node u segs = (pre @ segs2, d)"
    by (simp add: use_segments_def Let_def rust_simps segs1_def [symmetric] pre_def [symmetric]
        suf_def [symmetric] sw)
  have spec: "segs_ok ?p segs2" "swept node (u_access u) ?p (u_end u) suf (segs2, d)"
    using sweep_spec [OF sufs, of node "u_access u"] sw by auto
  have "segs_ok 0 (pre @ segs2)"
    using segs_ok_append [OF _ pre_le _ spec(1)] segs_ok_takeWhile [OF ok1] by (simp add: pre_def)
  moreover have orig: "writer_at segs b = writer_at (pre @ suf) b"
      "readers_at segs b = readers_at (pre @ suf) b" for b
    unfolding split [symmetric] segs1_def by simp_all
  moreover have "writer_at (pre @ segs2) b = writer_at (pre @ suf) b"
      "readers_at (pre @ segs2) b = readers_at (pre @ suf) b" if "b < ?p" for b
    using that at_append_above [OF spec(1)] at_append_above [OF sufs(1)] by simp_all
  moreover have "writer_at (pre @ xs) b = writer_at xs b" "readers_at (pre @ xs) b = readers_at xs b"
    if "?p \<le> b" for b xs using that at_append_below [OF pre_le] by simp_all
  moreover have "?p \<le> b" if "\<not> b < u_end u" for b using that ne by simp
  ultimately show ?thesis
    unfolding res using spec(2) by (auto simp: swept_def not_le)
qed


section \<open>Refinement of the per-byte table\<close>

text \<open>A location is an allocation together with a byte offset.\<close>

type_synonym loc = "usize \<times> usize"

definition use_locs :: "iuse \<Rightarrow> loc set" where
  "use_locs u = {u_alloc u} \<times> {u_start u..<u_end u}"

definition frontier_ok :: "frontier \<Rightarrow> bool" where
  "frontier_ok f \<longleftrightarrow> (\<forall>a segs. f a = Some segs \<longrightarrow> segs_ok 0 segs)"

definition f_writer :: "frontier \<Rightarrow> loc \<Rightarrow> nat option" where
  "f_writer f l = writer_at (segments_of f (fst l)) (snd l)"

definition f_readers :: "frontier \<Rightarrow> loc \<Rightarrow> nat set" where
  "f_readers f l = readers_at (segments_of f (fst l)) (snd l)"

lemma segments_of_ok: "frontier_ok f \<Longrightarrow> segs_ok 0 (segments_of f a)"
  by (auto simp: frontier_ok_def segments_of_def split: option.splits)

lemma segments_of_upd [simp]: "segments_of (f(a \<mapsto> segs)) a' = (if a' = a then segs else segments_of f a')"
  by (simp add: segments_of_def)

lemma frontier_ok_upd: "frontier_ok f \<Longrightarrow> segs_ok 0 segs \<Longrightarrow> frontier_ok (f(a \<mapsto> segs))"
  by (auto simp: frontier_ok_def)

lemma frontier_use_spec:
  assumes ok: "frontier_ok f"
  shows "frontier_ok (fst (frontier_use node u f))"
    and "f_writer (fst (frontier_use node u f)) l =
      (if l \<in> use_locs u then byte_writer node (u_access u) (f_writer f l) else f_writer f l)"
    and "f_readers (fst (frontier_use node u f)) l =
      (if l \<in> use_locs u then byte_readers node (u_access u) (f_readers f l) else f_readers f l)"
    and "snd (frontier_use node u f) =
      (\<Union>l\<in>use_locs u. byte_deps (u_access u) (f_writer f l) (f_readers f l))"
proof -
  let ?r = "frontier_use node u f"
  have "frontier_ok (fst ?r) \<and>
    (\<forall>l. f_writer (fst ?r) l =
      (if l \<in> use_locs u then byte_writer node (u_access u) (f_writer f l) else f_writer f l)) \<and>
    (\<forall>l. f_readers (fst ?r) l =
      (if l \<in> use_locs u then byte_readers node (u_access u) (f_readers f l) else f_readers f l)) \<and>
    snd ?r = (\<Union>l\<in>use_locs u. byte_deps (u_access u) (f_writer f l) (f_readers f l))"
  proof (cases "u_start u < u_end u")
    case True
    obtain segs d where us: "use_segments node u (segments_of f (u_alloc u)) = (segs, d)" by fastforce
    note spec = use_segments_spec [OF segments_of_ok [OF ok] True, of node "u_alloc u", unfolded us]
    have r: "?r = (f(u_alloc u \<mapsto> segs), d)" using True us by (simp add: frontier_use_def)
    have "frontier_ok (fst ?r)" using ok spec by (simp add: r frontier_ok_upd)
    moreover have "f_writer (fst ?r) l =
        (if l \<in> use_locs u then byte_writer node (u_access u) (f_writer f l) else f_writer f l)" for l
      using spec by (cases l) (auto simp: r f_writer_def use_locs_def swept_def)
    moreover have "f_readers (fst ?r) l =
        (if l \<in> use_locs u then byte_readers node (u_access u) (f_readers f l) else f_readers f l)" for l
      using spec by (cases l) (auto simp: r f_readers_def use_locs_def swept_def)
    moreover have "snd ?r = (\<Union>l\<in>use_locs u. byte_deps (u_access u) (f_writer f l) (f_readers f l))"
      using spec by (auto simp: r f_writer_def f_readers_def use_locs_def swept_def)
    ultimately show ?thesis by blast
  qed (use ok in \<open>simp_all add: frontier_use_def use_locs_def\<close>)
  then show "frontier_ok (fst ?r)"
    and "f_writer (fst ?r) l =
      (if l \<in> use_locs u then byte_writer node (u_access u) (f_writer f l) else f_writer f l)"
    and "f_readers (fst ?r) l =
      (if l \<in> use_locs u then byte_readers node (u_access u) (f_readers f l) else f_readers f l)"
    and "snd ?r = (\<Union>l\<in>use_locs u. byte_deps (u_access u) (f_writer f l) (f_readers f l))"
    by blast+
qed


section \<open>The interface of a dependency tracker\<close>

text \<open>
  What a client may rely on: the tracker keeps, for every location, the last writer and
  the readers since then, and the dependencies it reports for a use are the entries the
  use must wait for. Everything about orderings follows from these laws.
\<close>

definition locs_conflict :: "('u \<Rightarrow> 'l set) \<Rightarrow> ('u \<Rightarrow> access) \<Rightarrow> 'u list \<Rightarrow> 'u list \<Rightarrow> bool" where
  "locs_conflict locs acc us vs \<longleftrightarrow>
     (\<exists>u\<in>set us. \<exists>v\<in>set vs. locs u \<inter> locs v \<noteq> {} \<and> (writes (acc u) \<or> writes (acc v)))"

locale byte_frontier =
  fixes ok :: "'f \<Rightarrow> bool"
    and empty :: 'f
    and writer :: "'f \<Rightarrow> 'l \<Rightarrow> nat option"
    and readers :: "'f \<Rightarrow> 'l \<Rightarrow> nat set"
    and locs :: "'u \<Rightarrow> 'l set"
    and acc :: "'u \<Rightarrow> access"
    and track :: "nat \<Rightarrow> 'u \<Rightarrow> 'f \<Rightarrow> 'f \<times> nat set"
  assumes ok_empty: "ok empty"
    and writer_empty: "writer empty l = None"
    and readers_empty: "readers empty l = {}"
    and finite_locs: "finite (locs u)"
    and finite_readers: "ok f \<Longrightarrow> finite (readers f l)"
    and ok_track: "ok f \<Longrightarrow> ok (fst (track n u f))"
    and writer_track: "ok f \<Longrightarrow> writer (fst (track n u f)) l =
      (if l \<in> locs u then byte_writer n (acc u) (writer f l) else writer f l)"
    and readers_track: "ok f \<Longrightarrow> readers (fst (track n u f)) l =
      (if l \<in> locs u then byte_readers n (acc u) (readers f l) else readers f l)"
    and deps_track: "ok f \<Longrightarrow> snd (track n u f) =
      (\<Union>l\<in>locs u. byte_deps (acc u) (writer f l) (readers f l))"
begin

lemma finite_deps_track: "ok f \<Longrightarrow> finite (snd (track n u f))"
  by (auto simp: deps_track finite_locs finite_readers byte_deps_def)

lemma track_all_ok: "ok f \<Longrightarrow> ok (fst (track_all (track n) us f))"
  by (induction us arbitrary: f) (simp_all add: ok_track)

lemma track_all_finite: "ok f \<Longrightarrow> finite (snd (track_all (track n) us f))"
  by (induction us arbitrary: f) (simp_all add: ok_track finite_deps_track)

text \<open>
  \<open>covered E f l i w\<close>: the past access of operation \<open>i\<close> to \<open>l\<close> (a write if \<open>w\<close>) is still
  visible in the table: it is a recorded reader, or it precedes the recorded writer.
\<close>

definition covered :: "(nat \<times> nat) set \<Rightarrow> 'f \<Rightarrow> 'l \<Rightarrow> nat \<Rightarrow> bool \<Rightarrow> bool" where
  "covered E f l i w \<longleftrightarrow>
     (\<exists>x. writer f l = Some x \<and> (i, x) \<in> E\<^sup>*) \<or> (\<not> w \<and> i \<in> readers f l)"

lemma covered_mono: "covered E f l i w \<Longrightarrow> E \<subseteq> E' \<Longrightarrow> covered E' f l i w"
  unfolding covered_def using rtrancl_mono by blast

lemma covered_track:
  assumes ok: "ok f" and cov: "covered E f l i w"
    and deps: "\<And>d. d \<in> snd (track n u f) \<Longrightarrow> d \<noteq> n \<Longrightarrow> (d, n) \<in> E"
  shows "covered E (fst (track n u f)) l i w"
    and "l \<in> locs u \<Longrightarrow> w \<or> writes (acc u) \<Longrightarrow> (i, n) \<in> E\<^sup>*"
proof -
  have step: "(d, n) \<in> E\<^sup>*" if "d \<in> snd (track n u f)" for d
    using deps [OF that] by (cases "d = n") auto
  have reach: "(i, n) \<in> E\<^sup>*" if l: "l \<in> locs u" and c: "w \<or> writes (acc u)"
    using cov unfolding covered_def
  proof (elim disjE exE conjE)
    fix x assume x: "writer f l = Some x" "(i, x) \<in> E\<^sup>*"
    with l have "x \<in> snd (track n u f)" by (auto simp: deps_track [OF ok] byte_deps_def)
    with x(2) step show ?thesis by (blast intro: rtrancl_trans)
  next
    assume "\<not> w" "i \<in> readers f l"
    with l c have "i \<in> snd (track n u f)" by (auto simp: deps_track [OF ok] byte_deps_def)
    then show ?thesis by (rule step)
  qed
  then show "l \<in> locs u \<Longrightarrow> w \<or> writes (acc u) \<Longrightarrow> (i, n) \<in> E\<^sup>*" .
  show "covered E (fst (track n u f)) l i w"
    using cov reach
    by (auto simp: covered_def writer_track [OF ok] readers_track [OF ok]
        byte_writer_def byte_readers_def)
qed

lemma covered_new:
  assumes "ok f" "l \<in> locs u"
  shows "covered E (fst (track n u f)) l n (writes (acc u))"
  using assms by (auto simp: covered_def writer_track readers_track byte_writer_def byte_readers_def)

text \<open>The same for all uses of one operation.\<close>

lemma covered_track_all:
  assumes "ok f" "covered E f l i w"
    and "\<And>d. d \<in> snd (track_all (track n) us f) \<Longrightarrow> d \<noteq> n \<Longrightarrow> (d, n) \<in> E"
  shows "covered E (fst (track_all (track n) us f)) l i w"
  using assms by (induction us arbitrary: f) (simp_all add: ok_track covered_track(1))

lemma covered_reaches:
  assumes "ok f" "covered E f l i w"
    and "\<And>d. d \<in> snd (track_all (track n) us f) \<Longrightarrow> d \<noteq> n \<Longrightarrow> (d, n) \<in> E"
    and "u \<in> set us" "l \<in> locs u" "w \<or> writes (acc u)"
  shows "(i, n) \<in> E\<^sup>*"
  using assms
proof (induction us arbitrary: f)
  case (Cons v us)
  note one = covered_track [OF Cons.prems(1,2), of n v]
  show ?case
  proof (cases "u \<in> set us")
    case True
    then show ?thesis
      using Cons.IH [OF ok_track [OF Cons.prems(1)] one(1)] Cons.prems(3,5,6) by simp
  next
    case False
    with Cons.prems(4) have "u = v" by simp
    then show ?thesis using one(2) Cons.prems(3,5,6) by simp
  qed
qed simp

lemma covered_track_all_new:
  assumes "ok f" "u \<in> set us" "l \<in> locs u"
    and "\<And>d. d \<in> snd (track_all (track n) us f) \<Longrightarrow> d \<noteq> n \<Longrightarrow> (d, n) \<in> E"
  shows "covered E (fst (track_all (track n) us f)) l n (writes (acc u))"
  using assms
proof (induction us arbitrary: f)
  case (Cons v us)
  have ok1: "ok (fst (track n v f))" using Cons.prems(1) by (rule ok_track)
  show ?case
  proof (cases "u \<in> set us")
    case True
    then show ?thesis using Cons.IH [OF ok1 _ Cons.prems(3)] Cons.prems(4) by simp
  next
    case False
    with Cons.prems(2) have "u = v" by simp
    with covered_new [OF Cons.prems(1), of l v] Cons.prems(3)
    show ?thesis using covered_track_all [OF ok1] Cons.prems(4) by simp
  qed
qed simp

abbreviation node_deps :: "'f \<Rightarrow> nat \<Rightarrow> 'u list \<Rightarrow> 'f \<times> nat list" where
  "node_deps f n us \<equiv> finish_deps n (track_all (track n) us f)"

text \<open>Recording the operations from number \<open>n\<close> on, with the past ones covered in \<open>f\<close>.\<close>

lemma record_ops_covered:
  assumes "ok f"
    and "\<And>k d. k < length ops \<Longrightarrow> d \<in> set (record_ops node_deps f n ops ! k) \<Longrightarrow> (d, n + k) \<in> E"
    and "covered E f l i w" "j < length ops" "v \<in> set (ops ! j)" "l \<in> locs v" "w \<or> writes (acc v)"
  shows "(i, n + j) \<in> E\<^sup>*"
  using assms
proof (induction ops arbitrary: f n j)
  case (Cons us ops)
  let ?r = "track_all (track n) us f"
  have fin: "finite (snd ?r)" using Cons.prems(1) by (rule track_all_finite)
  have ds: "(d, n) \<in> E" if "d \<in> snd ?r" "d \<noteq> n" for d
    using Cons.prems(2) [of 0 d] that fin by (simp add: finish_deps_def)
  have rest: "(d, Suc n + k) \<in> E"
    if "k < length ops" "d \<in> set (record_ops node_deps (fst ?r) (Suc n) ops ! k)" for k d
    using Cons.prems(2) [of "Suc k" d] that by (simp add: finish_deps_def)
  note cov = covered_track_all [OF Cons.prems(1,3) ds]
  show ?case
  proof (cases j)
    case 0
    with covered_reaches [OF Cons.prems(1,3) ds] Cons.prems(5-7) show ?thesis by simp
  next
    case (Suc j')
    with Cons.IH [OF track_all_ok [OF Cons.prems(1)] rest cov] Cons.prems(4-7)
    show ?thesis by simp
  qed
qed simp

lemma record_ops_orders:
  assumes "ok f"
    and "\<And>k d. k < length ops \<Longrightarrow> d \<in> set (record_ops node_deps f n ops ! k) \<Longrightarrow> (d, n + k) \<in> E"
    and "i < j" "j < length ops" "locs_conflict locs acc (ops ! i) (ops ! j)"
  shows "(n + i, n + j) \<in> E\<^sup>*"
  using assms
proof (induction ops arbitrary: f n i j)
  case (Cons us ops)
  let ?r = "track_all (track n) us f"
  have rest: "(d, Suc n + k) \<in> E"
    if "k < length ops" "d \<in> set (record_ops node_deps (fst ?r) (Suc n) ops ! k)" for k d
    using Cons.prems(2) [of "Suc k" d] that by (simp add: finish_deps_def)
  have ok1: "ok (fst ?r)" using Cons.prems(1) by (rule track_all_ok)
  from Cons.prems(3) obtain j' where j: "j = Suc j'" by (cases j) auto
  show ?case
  proof (cases i)
    case 0
    obtain u v l where uv: "u \<in> set us" "v \<in> set (ops ! j')" "l \<in> locs u" "l \<in> locs v"
        "writes (acc u) \<or> writes (acc v)"
      using Cons.prems(5) by (auto simp: locs_conflict_def j 0)
    have fin: "finite (snd ?r)" using Cons.prems(1) by (rule track_all_finite)
    have ds: "(d, n) \<in> E" if "d \<in> snd ?r" "d \<noteq> n" for d
      using Cons.prems(2) [of 0 d] that fin by (simp add: finish_deps_def)
    have "covered E (fst ?r) l n (writes (acc u))"
      by (rule covered_track_all_new [OF Cons.prems(1) uv(1,3) ds])
    from record_ops_covered [OF ok1 rest this _ uv(2,4,5)] Cons.prems(4)
    show ?thesis by (simp add: j 0)
  next
    case (Suc i')
    with Cons.IH [OF ok1 rest, of i' j'] Cons.prems(3-5) show ?thesis by (simp add: j)
  qed
qed simp

text \<open>
  The converse: the table only ever holds operations that did access the location, so
  every reported dependency is a genuine hazard. \<open>H\<close> is the list of uses of each operation
  and \<open>m\<close> bounds the numbers handed out so far.
\<close>

definition genuine :: "(nat \<Rightarrow> 'u list) \<Rightarrow> nat \<Rightarrow> 'f \<Rightarrow> bool" where
  "genuine H m f \<longleftrightarrow>
     (\<forall>l x. writer f l = Some x \<longrightarrow> x < m \<and> (\<exists>u\<in>set (H x). l \<in> locs u \<and> writes (acc u))) \<and>
     (\<forall>l x. x \<in> readers f l \<longrightarrow> x < m \<and> (\<exists>u\<in>set (H x). l \<in> locs u))"

lemma genuine_empty: "genuine H m empty"
  by (simp add: genuine_def writer_empty readers_empty)

lemma genuine_mono: "genuine H m f \<Longrightarrow> m \<le> m' \<Longrightarrow> genuine H m' f"
  unfolding genuine_def by (meson order_less_le_trans)

lemma genuine_track:
  assumes "ok f" "genuine H m f" "u \<in> set (H n)" "n < m"
  shows "genuine H m (fst (track n u f))"
    and "d \<in> snd (track n u f) \<Longrightarrow> d < m \<and> locs_conflict locs acc (H d) (H n)"
proof -
  show "genuine H m (fst (track n u f))"
    using assms unfolding genuine_def writer_track [OF assms(1)] readers_track [OF assms(1)]
    by (auto simp: byte_writer_def byte_readers_def split: if_splits)
  assume "d \<in> snd (track n u f)"
  then obtain l where l: "l \<in> locs u"
      and d: "writer f l = Some d \<or> (writes (acc u) \<and> d \<in> readers f l)"
    by (auto simp: deps_track [OF assms(1)] byte_deps_def split: if_splits)
  with assms(2) obtain v where "d < m" "v \<in> set (H d)" "l \<in> locs v" "writes (acc v) \<or> writes (acc u)"
    unfolding genuine_def by blast
  with l assms(3) show "d < m \<and> locs_conflict locs acc (H d) (H n)"
    unfolding locs_conflict_def by blast
qed

lemma genuine_track_all:
  assumes "ok f" "genuine H m f" "set us \<subseteq> set (H n)" "n < m"
  shows "genuine H m (fst (track_all (track n) us f))
    \<and> (\<forall>d\<in>snd (track_all (track n) us f). d < m \<and> locs_conflict locs acc (H d) (H n))"
  using assms
proof (induction us arbitrary: f)
  case (Cons u us)
  then have u: "u \<in> set (H n)" by simp
  note one = genuine_track [OF Cons.prems(1,2) u Cons.prems(4)]
  with Cons.IH [OF ok_track [OF Cons.prems(1)] one(1)] Cons.prems(3,4) show ?case by auto
qed simp

lemma record_ops_sound:
  assumes "ok f" "genuine H n f" "\<And>k. k < length ops \<Longrightarrow> H (n + k) = ops ! k"
    and "j < length ops" "d \<in> set (record_ops node_deps f n ops ! j)"
  shows "d < n + j \<and> locs_conflict locs acc (H d) (H (n + j))"
  using assms
proof (induction ops arbitrary: f n j)
  case (Cons us ops)
  let ?r = "track_all (track n) us f"
  have us: "H n = us" using Cons.prems(3) [of 0] by simp
  have g: "genuine H (Suc n) (fst ?r)"
    "\<forall>d\<in>snd ?r. d < Suc n \<and> locs_conflict locs acc (H d) (H n)"
    using genuine_track_all [OF Cons.prems(1) genuine_mono [OF Cons.prems(2)], of "Suc n" us n] us
    by auto
  show ?case
  proof (cases j)
    case 0
    with Cons.prems(5) have "d \<in> snd ?r" "d \<noteq> n"
      using track_all_finite [OF Cons.prems(1)] by (auto simp: finish_deps_def)
    with g(2) 0 show ?thesis by (auto simp: less_Suc_eq)
  next
    case (Suc j')
    have "H (Suc n + k) = ops ! k" if "k < length ops" for k
      using Cons.prems(3) [of "Suc k"] that by simp
    with Cons.IH [OF track_all_ok [OF Cons.prems(1)] g(1), of j'] Cons.prems(4,5) Suc
    show ?thesis by (simp add: finish_deps_def)
  qed
qed simp

lemma record_ops_ascending:
  assumes "ok f" "ds \<in> set (record_ops node_deps f n ops)"
  shows "sorted ds \<and> distinct ds"
  using assms
proof (induction ops arbitrary: f n)
  case (Cons us ops)
  then show ?case
    using Cons.IH [OF track_all_ok [OF Cons.prems(1)]]
    by (auto simp: finish_deps_def)
qed simp

text \<open>Recording from the empty table: the edges generate exactly the order of the hazards.\<close>

lemma recorded_edge:
  assumes "(d, j) \<in> dep_edges (record_ops node_deps empty 0 ops)"
  shows "d < j \<and> j < length ops \<and> locs_conflict locs acc (ops ! d) (ops ! j)"
  using record_ops_sound [OF ok_empty genuine_empty, of ops "\<lambda>k. ops ! k" 0 j d] assms
  by (auto simp: dep_edges_def)

lemma recorded_hazard:
  assumes "i < j" "j < length ops" "locs_conflict locs acc (ops ! i) (ops ! j)"
  shows "(i, j) \<in> (dep_edges (record_ops node_deps empty 0 ops))\<^sup>+"
proof -
  have "(0 + i, 0 + j) \<in> (dep_edges (record_ops node_deps empty 0 ops))\<^sup>*"
    by (rule record_ops_orders [OF ok_empty _ assms]) (simp add: dep_edges_def)
  with assms(1) show ?thesis by (simp add: rtrancl_eq_or_trancl)
qed

lemma recorded_order:
  "(dep_edges (record_ops node_deps empty 0 ops))\<^sup>+
     = {(i, j). i < j \<and> j < length ops \<and> locs_conflict locs acc (ops ! i) (ops ! j)}\<^sup>+"
  (is "?E\<^sup>+ = ?H\<^sup>+")
proof
  show "?E\<^sup>+ \<subseteq> ?H\<^sup>+"
    by (rule trancl_mono_subset) (auto dest: recorded_edge)
  have "?H \<subseteq> ?E\<^sup>+" by (auto intro: recorded_hazard)
  then have "?H\<^sup>+ \<subseteq> (?E\<^sup>+)\<^sup>+" by (rule trancl_mono_subset)
  then show "?H\<^sup>+ \<subseteq> ?E\<^sup>+" by simp
qed

end


section \<open>The frontier implements the interface\<close>

interpretation fr: byte_frontier frontier_ok Map.empty f_writer f_readers use_locs u_access frontier_use
proof unfold_locales
  show "frontier_ok Map.empty" by (simp add: frontier_ok_def)
  show "f_writer Map.empty l = None" "f_readers Map.empty l = {}" for l
    by (simp_all add: f_writer_def f_readers_def segments_of_def)
  show "finite (use_locs u)" for u by (simp add: use_locs_def)
  show "finite (f_readers f l)" if "frontier_ok f" for f l
    using finite_readers_at [OF segments_of_ok [OF that]] by (simp add: f_readers_def)
qed (simp_all add: frontier_use_spec)

lemma dependencies_eq: "dependencies = (\<lambda>f n us. finish_deps n (track_all (frontier_use n) us f))"
  by (simp add: fun_eq_iff dependencies_def)

lemma use_locs_overlap: "use_locs u \<inter> use_locs v \<noteq> {} \<longleftrightarrow> uses_overlap u v"
proof
  assume "uses_overlap u v"
  then have "(u_alloc u, max (u_start u) (u_start v)) \<in> use_locs u \<inter> use_locs v"
    by (auto simp: use_locs_def uses_overlap_def)
  then show "use_locs u \<inter> use_locs v \<noteq> {}" by blast
qed (auto simp: use_locs_def uses_overlap_def)

lemma ops_conflict_locs: "ops_conflict us vs \<longleftrightarrow> locs_conflict use_locs u_access us vs"
  by (simp add: ops_conflict_def locs_conflict_def uses_conflict_def use_locs_overlap)

text \<open>The frontier's edges for a whole recording, as the clients of this module obtain them.\<close>

definition recorded :: "iuse list list \<Rightarrow> nat list list" where
  "recorded ops = record_ops dependencies Map.empty 0 ops"

lemma length_recorded [simp]: "length (recorded ops) = length ops"
  by (simp add: recorded_def)

lemma recorded_edgeD:
  "j < length ops \<Longrightarrow> d \<in> set (recorded ops ! j) \<Longrightarrow> d < j \<and> ops_conflict (ops ! d) (ops ! j)"
  using fr.recorded_edge [of d j ops]
  by (simp add: recorded_def dependencies_eq ops_conflict_locs dep_edges_def)

lemma recorded_hazardI:
  "i < j \<Longrightarrow> j < length ops \<Longrightarrow> ops_conflict (ops ! i) (ops ! j)
    \<Longrightarrow> (i, j) \<in> (dep_edges (recorded ops))\<^sup>+"
  using fr.recorded_hazard [of i j ops]
  by (simp add: recorded_def dependencies_eq ops_conflict_locs)

lemma recorded_orderE:
  "(dep_edges (recorded ops))\<^sup>+
     = {(i, j). i < j \<and> j < length ops \<and> ops_conflict (ops ! i) (ops ! j)}\<^sup>+"
  using fr.recorded_order [of ops]
  by (simp add: recorded_def dependencies_eq ops_conflict_locs)

lemma ascending_rtrancl:
  assumes "(a, b) \<in> r\<^sup>*" "\<And>x y. (x, y) \<in> r \<Longrightarrow> x < (y::nat)"
  shows "a \<le> b"
  using assms(1) by (induction rule: rtrancl_induct) (auto dest: assms(2))

lemma recorded_first_edge:
  assumes "i < j" "j < length ops" "ops_conflict (ops ! i) (ops ! j)"
  shows "\<exists>h. (i, h) \<in> dep_edges (recorded ops) \<and> h \<le> j"
proof -
  let ?E = "dep_edges (recorded ops)"
  have "(i, j) \<in> ?E\<^sup>+" using recorded_hazardI [OF assms] .
  then obtain h where h: "(i, h) \<in> ?E" "(h, j) \<in> ?E\<^sup>*" by (blast dest: tranclD)
  have "x < y" if "(x, y) \<in> ?E" for x y
    using recorded_edgeD [of y ops x] that by (auto simp: dep_edges_def)
  with h show ?thesis by (auto dest: ascending_rtrancl)
qed

lemma recorded_snoc:
  "recorded (ops @ [us]) = recorded ops
     @ [snd (dependencies (record_state dependencies Map.empty 0 ops) (length ops) us)]"
  by (simp add: recorded_def record_ops_snoc)

lemma recorded_ascending: "ds \<in> set (recorded ops) \<Longrightarrow> sorted ds \<and> distinct ds"
  using fr.record_ops_ascending [OF fr.ok_empty, of ds 0 ops]
  by (simp add: recorded_def dependencies_eq)


section \<open>Properties\<close>

text \<open>
  C1: for every sequence of recorded operations, the transitive closure of the inferred
  dependency edges is exactly the transitive closure of the hazards (earlier operation,
  later operation, an overlapping byte, at least one of the two writes). In particular
  every pair of conflicting operations is ordered, in program order, although the frontier
  keeps only the latest writer and readers of each byte.
\<close>

theorem frontier_orders_exactly_hazards:
  "(dep_edges (record_ops dependencies Map.empty 0 ops))\<^sup>+
     = {(i, j). i < j \<and> j < length ops \<and> ops_conflict (ops ! i) (ops ! j)}\<^sup>+"
  using recorded_orderE [of ops] by (simp add: recorded_def)

text \<open>
  Every dependency the frontier returns for the \<open>j\<close>-th operation is an earlier operation
  that conflicts with it (never the operation itself, never an unrelated one), and the
  returned list is strictly ascending.
\<close>

lemma frontier_edges_sound:
  assumes "j < length ops" and "d \<in> set (record_ops dependencies Map.empty 0 ops ! j)"
  shows "d < j \<and> ops_conflict (ops ! d) (ops ! j)
    \<and> sorted (record_ops dependencies Map.empty 0 ops ! j)
    \<and> distinct (record_ops dependencies Map.empty 0 ops ! j)"
  using recorded_edgeD [of j ops d] recorded_ascending [of "recorded ops ! j" ops] assms
  by (simp add: recorded_def)

definition demo_ops :: "iuse list list" where
  "demo_ops =
     [[\<lparr>u_alloc = 0, u_start = 0, u_end = 64, u_access = Write\<rparr>],
      [\<lparr>u_alloc = 0, u_start = 0, u_end = 32, u_access = Read\<rparr>],
      [\<lparr>u_alloc = 0, u_start = 64, u_end = 96, u_access = Read\<rparr>],
      [\<lparr>u_alloc = 0, u_start = 16, u_end = 80, u_access = Write\<rparr>]]"

lemma demo_ops_recorded:
  "record_ops dependencies Map.empty 0 demo_ops = [[], [0], [], [0, 1, 2]]"
  by code_simp

text \<open>The byte-indexed table that the interval lists stand for.\<close>

type_synonym table = "loc \<Rightarrow> nat option \<times> nat set"

definition table_of :: "frontier \<Rightarrow> table" where
  "table_of f l = (f_writer f l, f_readers f l)"

definition table_use :: "nat \<Rightarrow> iuse \<Rightarrow> table \<Rightarrow> table \<times> nat set" where
  "table_use n u t =
     ((\<lambda>l. if l \<in> use_locs u
           then (byte_writer n (u_access u) (fst (t l)), byte_readers n (u_access u) (snd (t l)))
           else t l),
      (\<Union>l\<in>use_locs u. byte_deps (u_access u) (fst (t l)) (snd (t l))))"

lemma frontier_use_table:
  assumes "frontier_ok f"
  shows "table_use n u (table_of f)
    = (table_of (fst (frontier_use n u f)), snd (frontier_use n u f))"
  using frontier_use_spec [OF assms, of n u]
  by (auto simp: table_use_def table_of_def fun_eq_iff)

lemma track_all_table:
  assumes "frontier_ok f"
  shows "track_all (table_use n) us (table_of f)
    = (table_of (fst (track_all (frontier_use n) us f)), snd (track_all (frontier_use n) us f))"
  using assms
  by (induction us arbitrary: f)
     (simp_all add: frontier_use_table fr.ok_track track_all.simps(2) Let_def split: prod.splits)

text \<open>
  C2: the interval lists refine the per-byte table. For every well-formed frontier,
  recording one operation keeps it well formed, changes the last writer and the readers of
  each byte exactly as applying the uses one by one to a byte-indexed table does, and
  returns exactly the dependencies that table gives, without the operation itself.
\<close>

theorem dependencies_refine_table:
  assumes "frontier_ok f"
  shows "frontier_ok (fst (dependencies f n us))
    \<and> table_of (fst (dependencies f n us)) = fst (track_all (table_use n) us (table_of f))
    \<and> set (snd (dependencies f n us)) = snd (track_all (table_use n) us (table_of f)) - {n}"
  using assms fr.track_all_ok fr.track_all_finite
  by (simp add: track_all_table dependencies_def finish_deps_def)

theorem dependencies_refine_table_witness:
  "set (snd (dependencies (fst (dependencies Map.empty 0 (demo_ops ! 0))) 1 (demo_ops ! 1)))
      = snd (track_all (table_use 1) (demo_ops ! 1)
          (table_of (fst (dependencies Map.empty 0 (demo_ops ! 0))))) - {1}
    \<and> frontier_ok (fst (dependencies Map.empty 0 (demo_ops ! 0)))"
  using dependencies_refine_table [OF fr.ok_empty, of 0 "demo_ops ! 0"]
    dependencies_refine_table [of "fst (dependencies Map.empty 0 (demo_ops ! 0))" 1 "demo_ops ! 1"]
  by simp

end
