(* ===== verification/Use_Summaries.thy ===== *)
theory Use_Summaries
  imports Buffer_Views Dependency_Frontier
begin

text \<open>
  \<^verbatim>\<open>src/src/execution/dependencies.rs\<close>: the scheduler's frontier over buffer views,
  \<open>summarize\<close> (the union of many accesses as sorted disjoint intervals, by sweeping a
  balance of interval ends) and \<open>conflicts\<close> (a merge-style sweep of two summaries). The
  main results: a summary reads and writes exactly the bytes its input reads and writes,
  it is sorted and disjoint, and the sweep of two summaries finds a conflict exactly when
  some pair of the original uses conflicts.
\<close>


section \<open>Ordered maps\<close>

text \<open>
  A \<open>BTreeMap\<close> is the list of its entries in ascending key order. \<open>bt_entry k d f\<close> is
  \<open>entry(k).or_insert(d)\<close> followed by the update \<open>f\<close> of the slot.
\<close>

fun bt_entry :: "'k::linorder \<Rightarrow> 'v \<Rightarrow> ('v \<Rightarrow> 'v) \<Rightarrow> ('k \<times> 'v) list \<Rightarrow> ('k \<times> 'v) list" where
  "bt_entry k d f [] = [(k, f d)]"
| "bt_entry k d f ((k', v) # xs) =
     (if k < k' then (k, f d) # (k', v) # xs
      else if k = k' then (k, f v) # xs
      else (k', v) # bt_entry k d f xs)"

abbreviation keys_ascending :: "('k::linorder \<times> 'v) list \<Rightarrow> bool" where
  "keys_ascending xs \<equiv> sorted_wrt (<) (map fst xs)"

lemma keys_bt_entry [simp]: "fst ` set (bt_entry k d f xs) = insert k (fst ` set xs)"
proof (induction xs)
  case (Cons x xs)
  obtain k' v where "x = (k', v)" by fastforce
  with Cons show ?case by simp blast
qed simp

lemma ascending_bt_entry: "keys_ascending xs \<Longrightarrow> keys_ascending (bt_entry k d f xs)"
proof (induction xs)
  case (Cons x xs)
  have "\<forall>y\<in>set (bt_entry k d f xs). fst y = k \<or> fst y \<in> fst ` set xs"
    using keys_bt_entry [of k d f xs] by (metis image_eqI insert_iff)
  with Cons show ?case by (cases x) force
qed simp

lemma map_of_bt_entry:
  "keys_ascending xs \<Longrightarrow>
   map_of (bt_entry k d f xs) = (map_of xs)(k \<mapsto> f (case map_of xs k of None \<Rightarrow> d | Some v \<Rightarrow> v))"
proof (induction xs)
  case (Cons x xs)
  obtain k' v where x: "x = (k', v)" by fastforce
  have "map_of xs k = None" if "k < k'"
    using that Cons.prems x by (fastforce simp: map_of_eq_None_iff)
  with Cons x show ?case by (auto simp: fun_eq_iff)
qed (simp add: fun_eq_iff)

lemma ascending_distinct: "keys_ascending xs \<Longrightarrow> distinct (map fst xs)"
  by (simp add: strict_sorted_iff)


section \<open>The view frontier\<close>

definition interval_use :: "guse \<Rightarrow> iuse" where
  "interval_use u = (case region (g_view u) of (a, s, e) \<Rightarrow>
     \<lparr>u_alloc = a, u_start = s, u_end = e, u_access = g_access u\<rparr>)"

definition view_dependencies :: "frontier \<Rightarrow> nat \<Rightarrow> guse list \<Rightarrow> frontier \<times> nat list" where
  "view_dependencies f node uses = dependencies f node (map interval_use uses)"

lemma interval_use_fields [simp, view_simps]:
  "u_alloc (interval_use u) = use_id u" "u_start (interval_use u) = reg_start u"
  "u_end (interval_use u) = reg_end u" "u_access (interval_use u) = g_access u"
  by (simp_all add: interval_use_def region_eq)

lemma uses_conflict_hazard: "uses_conflict (interval_use u) (interval_use v) \<longleftrightarrow> hazard u v"
  by (auto simp: uses_conflict_def uses_overlap_def hazard_def)

definition uses_hazard :: "guse list \<Rightarrow> guse list \<Rightarrow> bool" where
  "uses_hazard us vs \<longleftrightarrow> (\<exists>u\<in>set us. \<exists>v\<in>set vs. hazard u v)"

lemma ops_conflict_hazard:
  "ops_conflict (map interval_use us) (map interval_use vs) \<longleftrightarrow> uses_hazard us vs"
  by (auto simp: ops_conflict_def uses_hazard_def uses_conflict_hazard)

lemma record_view_dependencies:
  "record_ops view_dependencies f n ops = record_ops dependencies f n (map (map interval_use) ops)"
  by (induction ops arbitrary: f n) (simp_all add: view_dependencies_def Let_def split: prod.splits)


section \<open>Summaries\<close>

type_synonym events = "(usize \<times> int \<times> int) list"
type_synonym allocations = "(usize \<times> buffer_view \<times> events) list"

definition add_event :: "usize \<Rightarrow> int \<Rightarrow> int \<Rightarrow> events \<Rightarrow> events" where
  "add_event p dr dw = bt_entry p (0, 0) (\<lambda>(r, w). (r + dr, w + dw))"

fun retain_owners :: "nat list \<Rightarrow> nat list \<Rightarrow> nat list" where
  "retain_owners [] old = old"
| "retain_owners (owner # owners) old =
     retain_owners owners (if owner \<in> set old then old else old @ [owner])"

definition add_use :: "guse \<Rightarrow> allocations \<Rightarrow> allocations" where
  "add_use u allocs = (case region (g_view u) of (a, s, e) \<Rightarrow>
     let r = (if g_access u \<noteq> Write then 1 else 0); w = (if writes (g_access u) then 1 else 0)
     in bt_entry a (g_view u, [])
          (\<lambda>(root, events).
            (root\<lparr>v_retained := retain_owners (v_retained (g_view u)) (v_retained root)\<rparr>,
             add_event e (- r) (- w) (add_event s r w events)))
          allocs)"

definition balance_access :: "int \<Rightarrow> int \<Rightarrow> access" where
  "balance_access r w =
     (if r \<noteq> 0 \<and> w \<noteq> 0 then ReadWrite else if r = 0 \<and> w \<noteq> 0 then Write else Read)"

text \<open>Lines 67--82: extend the last output entry or append a new one.\<close>

definition push_use :: "buffer_view \<Rightarrow> usize \<Rightarrow> usize \<Rightarrow> access \<Rightarrow> guse list \<Rightarrow> guse list" where
  "push_use root prev pos acc out =
     (if out \<noteq> [] \<and> b_id (v_buffer (g_view (last out))) = b_id (v_buffer root)
         \<and> g_access (last out) = acc \<and> v_end (g_view (last out)) = prev
      then butlast out @ [(last out)\<lparr>g_view := (g_view (last out))\<lparr>v_end := pos\<rparr>\<rparr>]
      else out @ [\<lparr>g_view = root\<lparr>v_start := prev, v_end := pos\<rparr>, g_access = acc\<rparr>])"

fun emit :: "buffer_view \<Rightarrow> int \<Rightarrow> int \<Rightarrow> usize \<Rightarrow> events \<Rightarrow> guse list \<Rightarrow> guse list" where
  "emit root r w prev [] out = out"
| "emit root r w prev ((pos, dr, dw) # es) out =
     emit root (r + dr) (w + dw) pos es
       (if prev < pos \<and> (r \<noteq> 0 \<or> w \<noteq> 0)
        then push_use root prev pos (balance_access r w) out else out)"

fun emit_all :: "allocations \<Rightarrow> guse list \<Rightarrow> guse list" where
  "emit_all [] out = out"
| "emit_all ((_, root, events) # as) out = emit_all as (emit root 0 0 0 events out)"

definition summarize :: "guse list \<Rightarrow> guse list" where
  "summarize uses = emit_all (fold add_use uses []) []"

text \<open>Lines 93--114: the two-pointer sweep over two summaries.\<close>

fun conflicts :: "guse list \<Rightarrow> guse list \<Rightarrow> bool" where
  "conflicts [] bs = False"
| "conflicts (a # as) [] = False"
| "conflicts (a # as) (b # bs) =
     (if use_id a < use_id b \<or> (use_id a = use_id b \<and> reg_end a \<le> reg_start b)
      then conflicts as (b # bs)
      else if use_id b < use_id a \<or> reg_end b \<le> reg_start a
      then conflicts (a # as) bs
      else if writes (g_access a) \<or> writes (g_access b) then True
      else if reg_end a \<le> reg_end b then conflicts as (b # bs)
      else conflicts (a # as) bs)"


section \<open>The balance of an event list\<close>

text \<open>
  \<open>level sel es x\<close> is the number of uses open at byte \<open>x\<close>: the sum of the deltas of all
  events at or before \<open>x\<close>. \<open>sel\<close> selects the read or the write component.
\<close>

definition level :: "(int \<times> int \<Rightarrow> int) \<Rightarrow> events \<Rightarrow> usize \<Rightarrow> int" where
  "level sel es x = (\<Sum>(p, d)\<leftarrow>es. if p \<le> x then sel d else 0)"

lemma level_simps [simp]:
  "level sel [] x = 0"
  "level sel ((p, d) # es) x = (if p \<le> x then sel d else 0) + level sel es x"
  by (simp_all add: level_def)

lemma level_add_event_fst:
  "level fst (add_event q dr dw es) x = level fst es x + (if q \<le> x then dr else 0)"
  unfolding add_event_def by (induction es) auto

lemma level_add_event_snd:
  "level snd (add_event q dr dw es) x = level snd es x + (if q \<le> x then dw else 0)"
  unfolding add_event_def by (induction es) auto

lemma level_before: "\<forall>p\<in>fst ` set es. x < p \<Longrightarrow> level sel es x = 0"
  by (induction es) auto

lemma keys_add_event [simp]: "fst ` set (add_event p dr dw es) = insert p (fst ` set es)"
  by (simp add: add_event_def)

lemma ascending_add_event: "keys_ascending es \<Longrightarrow> keys_ascending (add_event p dr dw es)"
  by (simp add: add_event_def ascending_bt_entry)

text \<open>The uses of one allocation that are open at a byte.\<close>

definition open_at :: "(access \<Rightarrow> bool) \<Rightarrow> usize \<Rightarrow> usize \<Rightarrow> guse \<Rightarrow> bool" where
  "open_at q a x u \<longleftrightarrow> use_id u = a \<and> reg_start u \<le> x \<and> x < reg_end u \<and> q (g_access u)"

definition opens :: "(access \<Rightarrow> bool) \<Rightarrow> guse list \<Rightarrow> usize \<Rightarrow> usize \<Rightarrow> nat" where
  "opens q us a x = length (filter (open_at q a x) us)"

lemma opens_pos: "opens q us a x \<noteq> 0 \<longleftrightarrow> (\<exists>u\<in>set us. open_at q a x u)"
  by (auto simp: opens_def filter_empty_conv)

text \<open>
  What the fold over the uses establishes: an entry for exactly the allocations used, with
  the common handle as root, ascending events at the interval ends, and the balances of
  the open readers and writers.
\<close>

definition entry_ok :: "guse list \<Rightarrow> usize \<Rightarrow> buffer_view \<Rightarrow> events \<Rightarrow> bool" where
  "entry_ok us a root es \<longleftrightarrow>
     (\<exists>u\<in>set us. use_id u = a \<and> v_buffer root = v_buffer (g_view u)) \<and>
     keys_ascending es \<and>
     fst ` set es = (\<Union>u\<in>{u \<in> set us. use_id u = a}. {reg_start u, reg_end u}) \<and>
     (\<forall>x. level fst es x = int (opens reads us a x)) \<and>
     (\<forall>x. level snd es x = int (opens writes us a x))"

definition allocs_ok :: "guse list \<Rightarrow> allocations \<Rightarrow> bool" where
  "allocs_ok us as \<longleftrightarrow> keys_ascending as \<and>
     (\<forall>a. map_of as a = None \<longleftrightarrow> (\<forall>u\<in>set us. use_id u \<noteq> a)) \<and>
     (\<forall>a root es. map_of as a = Some (root, es) \<longrightarrow> entry_ok us a root es)"

lemma opens_snoc:
  "opens q (us @ [u]) a x = opens q us a x + (if open_at q a x u then 1 else 0)"
  by (simp add: opens_def)

lemma entry_ok_other: "use_id u \<noteq> a \<Longrightarrow> entry_ok us a root es \<Longrightarrow> entry_ok (us @ [u]) a root es"
  by (auto simp: entry_ok_def opens_snoc open_at_def)

lemma level_interval:
  assumes "s \<le> (e::usize)"
  shows "level fst (add_event e (- r) (- w) (add_event s r w es)) x
      = level fst es x + (if s \<le> x \<and> x < e then r else 0)"
    and "level snd (add_event e (- r) (- w) (add_event s r w es)) x
      = level snd es x + (if s \<le> x \<and> x < e then w else 0)"
  using assms by (auto simp: level_add_event_fst level_add_event_snd)

lemma entry_ok_extend:
  assumes u: "use_ok u" "use_id u = a"
    and old: "(es = [] \<and> root = g_view u \<and> (\<forall>v\<in>set us. use_id v \<noteq> a)) \<or> entry_ok us a root es"
    and r: "r = (if g_access u \<noteq> Write then 1 else 0)" and w: "w = (if writes (g_access u) then 1 else 0)"
  shows "entry_ok (us @ [u]) a (root\<lparr>v_retained := rs\<rparr>)
    (add_event (reg_end u) (- r) (- w) (add_event (reg_start u) r w es))"
proof -
  have base: "keys_ascending es" "\<And>x. level fst es x = int (opens reads us a x)"
      "\<And>x. level snd es x = int (opens writes us a x)"
      "fst ` set es = (\<Union>u\<in>{u \<in> set us. use_id u = a}. {reg_start u, reg_end u})"
    using old by (auto simp: entry_ok_def opens_def open_at_def filter_empty_conv)
  have le: "reg_start u \<le> reg_end u" using u(1) by (rule use_ok_region)
  show ?thesis
    unfolding entry_ok_def
  proof (intro conjI allI)
    show "\<exists>v\<in>set (us @ [u]). use_id v = a \<and> v_buffer (root\<lparr>v_retained := rs\<rparr>) = v_buffer (g_view v)"
      using old u(2) by (auto simp: entry_ok_def)
    show "keys_ascending (add_event (reg_end u) (- r) (- w) (add_event (reg_start u) r w es))"
      using base(1) by (simp add: ascending_add_event)
    show "fst ` set (add_event (reg_end u) (- r) (- w) (add_event (reg_start u) r w es))
        = (\<Union>u\<in>{v \<in> set (us @ [u]). use_id v = a}. {reg_start u, reg_end u})"
      using u(2) base(4) by auto
    show "level fst (add_event (reg_end u) (- r) (- w) (add_event (reg_start u) r w es)) x
        = int (opens reads (us @ [u]) a x)" for x
      using base(2) u(2) by (simp add: level_interval [OF le] opens_snoc open_at_def r reads_def)
    show "level snd (add_event (reg_end u) (- r) (- w) (add_event (reg_start u) r w es)) x
        = int (opens writes (us @ [u]) a x)" for x
      using base(3) u(2) by (simp add: level_interval [OF le] opens_snoc open_at_def w)
  qed
qed

lemma allocs_ok_add_use:
  assumes ok: "allocs_ok us as" and u: "use_ok u"
  shows "allocs_ok (us @ [u]) (add_use u as)"
proof -
  let ?r = "(if g_access u \<noteq> Write then 1 else 0) :: int"
  let ?w = "(if writes (g_access u) then 1 else 0) :: int"
  let ?upd = "\<lambda>(root, events).
      (root\<lparr>v_retained := retain_owners (v_retained (g_view u)) (v_retained root)\<rparr>,
       add_event (reg_end u) (- ?r) (- ?w) (add_event (reg_start u) ?r ?w events))"
  have asc: "keys_ascending as" using ok by (simp add: allocs_ok_def)
  have eq: "add_use u as = bt_entry (use_id u) (g_view u, []) ?upd as"
    by (simp add: add_use_def region_eq)
  define old where "old = (case map_of as (use_id u) of None \<Rightarrow> (g_view u, []) | Some v \<Rightarrow> v)"
  have look: "map_of (add_use u as) = (map_of as)(use_id u \<mapsto> ?upd old)"
    unfolding eq old_def by (rule map_of_bt_entry [OF asc])
  obtain root es where re: "old = (root, es)" by fastforce
  have "(es = [] \<and> root = g_view u \<and> (\<forall>v\<in>set us. use_id v \<noteq> use_id u))
      \<or> entry_ok us (use_id u) root es"
    using ok re by (auto simp: old_def allocs_ok_def split: option.splits)
  from entry_ok_extend [OF u refl this refl refl]
  have new: "entry_ok (us @ [u]) (use_id u) (fst (?upd old)) (snd (?upd old))"
    by (simp add: re)
  show ?thesis
    unfolding allocs_ok_def
  proof (intro conjI allI impI)
    show "keys_ascending (add_use u as)" using asc by (simp add: eq ascending_bt_entry)
    show "(map_of (add_use u as) a = None) = (\<forall>v\<in>set (us @ [u]). use_id v \<noteq> a)" for a
      using ok by (auto simp: look allocs_ok_def)
    show "entry_ok (us @ [u]) a root' es'" if "map_of (add_use u as) a = Some (root', es')" for a root' es'
    proof (cases "a = use_id u")
      case True
      with that new show ?thesis by (auto simp: look re)
    next
      case False
      with that ok entry_ok_other [of u a us root' es'] show ?thesis
        by (auto simp: look allocs_ok_def)
    qed
  qed
qed

lemma allocs_ok_fold:
  assumes "\<forall>u\<in>set us. use_ok u"
  shows "allocs_ok us (fold add_use us [])"
  using assms
proof (induction us rule: rev_induct)
  case (snoc u us)
  then show ?case by (simp add: allocs_ok_add_use)
qed (simp add: allocs_ok_def)


section \<open>The emitted intervals\<close>

text \<open>The bytes an output list covers, by the views' own ranges.\<close>

definition view_at :: "(access \<Rightarrow> bool) \<Rightarrow> usize \<Rightarrow> usize \<Rightarrow> guse \<Rightarrow> bool" where
  "view_at q a x u \<longleftrightarrow> b_id (v_buffer (g_view u)) = a
     \<and> v_start (g_view u) \<le> x \<and> x < v_end (g_view u) \<and> q (g_access u)"

definition covers :: "(access \<Rightarrow> bool) \<Rightarrow> guse list \<Rightarrow> usize \<Rightarrow> usize \<Rightarrow> bool" where
  "covers q out a x \<longleftrightarrow> (\<exists>u\<in>set out. view_at q a x u)"

text \<open>Well-formed output: sorted by allocation and offset, disjoint, nonempty.\<close>

definition before :: "guse \<Rightarrow> guse \<Rightarrow> bool" where
  "before u v \<longleftrightarrow> b_id (v_buffer (g_view u)) < b_id (v_buffer (g_view v))
     \<or> (b_id (v_buffer (g_view u)) = b_id (v_buffer (g_view v)) \<and> v_end (g_view u) \<le> v_start (g_view v))"

definition out_ok :: "guse list \<Rightarrow> bool" where
  "out_ok out \<longleftrightarrow> sorted_wrt before out \<and> (\<forall>u\<in>set out. v_start (g_view u) < v_end (g_view u))"

text \<open>Everything emitted so far lies before position \<open>prev\<close> of allocation \<open>a\<close>.\<close>

definition done_upto :: "usize \<Rightarrow> usize \<Rightarrow> guse list \<Rightarrow> bool" where
  "done_upto a prev out \<longleftrightarrow> (\<forall>u\<in>set out. b_id (v_buffer (g_view u)) < a
     \<or> (b_id (v_buffer (g_view u)) = a \<and> v_end (g_view u) \<le> prev))"

lemma covers_simps [simp]:
  "covers q [] a x = False"
  "covers q (us @ vs) a x = (covers q us a x \<or> covers q vs a x)"
  "covers q (u # us) a x = (view_at q a x u \<or> covers q us a x)"
  by (auto simp: covers_def)

lemma out_ok_snoc:
  "out_ok (out @ [u]) \<longleftrightarrow> out_ok out \<and> (\<forall>v\<in>set out. before v u) \<and> v_start (g_view u) < v_end (g_view u)"
  by (auto simp: out_ok_def sorted_wrt_append)

lemma push_use_cases:
  obtains (extend) out' l where "out = out' @ [l]" "b_id (v_buffer (g_view l)) = b_id (v_buffer root)"
      "g_access l = acc" "v_end (g_view l) = prev"
      "push_use root prev pos acc out = out' @ [l\<lparr>g_view := (g_view l)\<lparr>v_end := pos\<rparr>\<rparr>]"
  | (append) "push_use root prev pos acc out
      = out @ [\<lparr>g_view = root\<lparr>v_start := prev, v_end := pos\<rparr>, g_access = acc\<rparr>]"
proof (cases out rule: rev_cases)
  case (snoc out' l)
  then show thesis
    by (cases "b_id (v_buffer (g_view l)) = b_id (v_buffer root) \<and> g_access l = acc \<and> v_end (g_view l) = prev")
       (auto simp: push_use_def intro: append extend)
qed (auto simp: push_use_def intro: append)

lemma push_use_covers:
  assumes "out_ok out" "prev < pos"
  shows "covers q (push_use root prev pos acc out) a x \<longleftrightarrow>
    covers q out a x \<or> (a = b_id (v_buffer root) \<and> prev \<le> x \<and> x < pos \<and> q acc)"
  by (cases rule: push_use_cases [of out root acc prev pos])
     (use assms in \<open>auto simp: view_at_def out_ok_snoc\<close>)

lemma push_use_ok:
  assumes "out_ok out" "done_upto (b_id (v_buffer root)) prev out" "prev < pos"
  shows "out_ok (push_use root prev pos acc out)
    \<and> done_upto (b_id (v_buffer root)) pos (push_use root prev pos acc out)"
  by (cases rule: push_use_cases [of out root acc prev pos])
     (use assms in \<open>auto simp: out_ok_snoc before_def done_upto_def\<close>)

lemma done_upto_mono: "done_upto a p out \<Longrightarrow> p \<le> p' \<Longrightarrow> done_upto a p' out"
  by (auto simp: done_upto_def)

lemma emit_ok:
  assumes "out_ok out" "done_upto (b_id (v_buffer root)) prev out"
    and "keys_ascending es" "\<forall>p\<in>fst ` set es. prev \<le> p"
  shows "out_ok (emit root r w prev es out)
    \<and> (\<exists>p. done_upto (b_id (v_buffer root)) p (emit root r w prev es out))"
  using assms
proof (induction root r w prev es out rule: emit.induct)
  case (2 root r w prev pos dr dw es out)
  let ?out = "if prev < pos \<and> (r \<noteq> 0 \<or> w \<noteq> 0)
    then push_use root prev pos (balance_access r w) out else out"
  have "out_ok ?out \<and> done_upto (b_id (v_buffer root)) pos ?out"
    using "2.prems" push_use_ok [of out root prev pos] done_upto_mono [of _ prev out pos] by auto
  moreover have "keys_ascending es" "\<forall>p\<in>fst ` set es. pos \<le> p"
    using "2.prems"(3) by auto
  ultimately show ?case using "2.IH" by simp
qed auto

lemma balance_access_sel:
  "r \<noteq> 0 \<or> w \<noteq> 0 \<Longrightarrow> reads (balance_access r w) \<longleftrightarrow> r \<noteq> 0"
  "r \<noteq> 0 \<or> w \<noteq> 0 \<Longrightarrow> writes (balance_access r w) \<longleftrightarrow> w \<noteq> 0"
  by (auto simp: balance_access_def)

text \<open>
  What \<open>emit\<close> adds for one allocation, for reads (\<open>c = r\<close>, \<open>sel = fst\<close>) and writes alike:
  the bytes between \<open>prev\<close> and the last event at which the balance is not zero.
\<close>

lemma emit_covers_gen:
  assumes sel: "\<And>r w. (r::int) \<noteq> 0 \<or> w \<noteq> 0 \<Longrightarrow> q (balance_access r w) \<longleftrightarrow> sel (r, w) \<noteq> 0"
      "\<And>r w r' w'. sel (r + r', w + w') = sel (r, w) + sel (r', w')" "sel (0, 0) = 0"
    and "out_ok out" "done_upto (b_id (v_buffer root)) prev out"
    and "keys_ascending es" "\<forall>p\<in>fst ` set es. prev \<le> p"
  shows "covers q (emit root r w prev es out) a x \<longleftrightarrow>
    covers q out a x \<or> (a = b_id (v_buffer root) \<and> prev \<le> x \<and> (\<exists>p\<in>fst ` set es. x < p)
      \<and> sel (r, w) + level sel es x \<noteq> 0)"
  using assms(4-)
proof (induction root r w prev es out rule: emit.induct)
  case (2 root r w prev pos dr dw es out)
  let ?out = "if prev < pos \<and> (r \<noteq> 0 \<or> w \<noteq> 0)
    then push_use root prev pos (balance_access r w) out else out"
  have ok: "out_ok ?out" "done_upto (b_id (v_buffer root)) pos ?out"
    using "2.prems" push_use_ok [of out root prev pos] done_upto_mono [of _ prev out pos] by auto
  have asc: "keys_ascending es" "\<forall>p\<in>fst ` set es. pos \<le> p" "\<forall>p\<in>fst ` set es. pos < p"
    using "2.prems"(3) by auto
  have step: "covers q ?out a x \<longleftrightarrow> covers q out a x \<or>
      (a = b_id (v_buffer root) \<and> prev \<le> x \<and> x < pos \<and> sel (r, w) \<noteq> 0)"
    using push_use_covers [OF "2.prems"(1)] sel(1) [of r w] sel(3) by auto
  have "level sel es x = 0" if "x < pos" using that asc(3) by (intro level_before) auto
  then show ?case
    using "2.IH" [OF ok asc(1,2)] step "2.prems"(4) asc(3) sel(2) [of r dr w dw]
    by (cases "x < pos") (auto simp: add.assoc)
qed simp

lemmas emit_covers =
  emit_covers_gen [of reads fst, simplified balance_access_sel, simplified]
  emit_covers_gen [of writes snd, simplified balance_access_sel, simplified]


text \<open>All outputs of one allocation share its handle and start and end at event positions.\<close>

definition bounded_by :: "usize set \<Rightarrow> buffer \<Rightarrow> guse \<Rightarrow> bool" where
  "bounded_by K b u \<longleftrightarrow> v_buffer (g_view u) = b \<and> v_start (g_view u) \<in> K \<and> v_end (g_view u) \<in> K"

lemma emit_bounded:
  assumes "\<forall>u\<in>set out. (b_id (v_buffer (g_view u)) \<noteq> b_id (v_buffer root) \<and> R u) \<or> bounded_by K (v_buffer root) u"
    and "prev \<in> K" "fst ` set es \<subseteq> K" "u \<in> set (emit root r w prev es out)"
  shows "(b_id (v_buffer (g_view u)) \<noteq> b_id (v_buffer root) \<and> R u) \<or> bounded_by K (v_buffer root) u"
  using assms
proof (induction root r w prev es out rule: emit.induct)
  case (2 root r w prev pos dr dw es out)
  have "(b_id (v_buffer (g_view v)) \<noteq> b_id (v_buffer root) \<and> R v) \<or> bounded_by K (v_buffer root) v"
    if "v \<in> set (push_use root prev pos (balance_access r w) out)" for v
    by (cases rule: push_use_cases [of out root "balance_access r w" prev pos])
       (use that "2.prems" in \<open>auto simp: bounded_by_def\<close>)
  then show ?case using "2.IH" "2.prems" by (auto split: if_splits)
qed auto

text \<open>All allocations, in ascending order of their addresses.\<close>

definition roots_ok :: "allocations \<Rightarrow> bool" where
  "roots_ok as \<longleftrightarrow> keys_ascending as \<and>
     (\<forall>(a, root, es)\<in>set as. b_id (v_buffer root) = a \<and> keys_ascending es)"

definition done_before :: "allocations \<Rightarrow> guse list \<Rightarrow> bool" where
  "done_before as out \<longleftrightarrow> (\<forall>a\<in>fst ` set as. \<forall>u\<in>set out. b_id (v_buffer (g_view u)) < a)"

lemma emit_all_step:
  assumes "out_ok out" "roots_ok ((a, root, es) # as)" "done_before ((a, root, es) # as) out"
  shows "out_ok (emit root 0 0 0 es out)" "done_before as (emit root 0 0 0 es out)"
    "roots_ok as" "done_upto (b_id (v_buffer root)) 0 out" "keys_ascending es" "b_id (v_buffer root) = a"
proof -
  show r: "b_id (v_buffer root) = a" "roots_ok as" "keys_ascending es"
    using assms(2) by (auto simp: roots_ok_def)
  show d: "done_upto (b_id (v_buffer root)) 0 out"
    using assms(3) r by (auto simp: done_upto_def done_before_def)
  from emit_ok [OF assms(1) d r(3), of 0 0] obtain p where
    e: "out_ok (emit root 0 0 0 es out)" "done_upto (b_id (v_buffer root)) p (emit root 0 0 0 es out)"
    by auto
  show "out_ok (emit root 0 0 0 es out)" by (rule e)
  have "\<forall>a'\<in>fst ` set as. a < a'" using assms(2) by (auto simp: roots_ok_def)
  with e(2) r(1) show "done_before as (emit root 0 0 0 es out)"
    by (fastforce simp: done_upto_def done_before_def)
qed

lemma emit_all_ok:
  assumes "out_ok out" "roots_ok as" "done_before as out"
  shows "out_ok (emit_all as out)"
  using assms by (induction as out rule: emit_all.induct) (auto dest: emit_all_step(1-3))

text \<open>The bytes of an event list that are open for a selected balance.\<close>

definition lit :: "(int \<times> int \<Rightarrow> int) \<Rightarrow> events \<Rightarrow> usize \<Rightarrow> bool" where
  "lit sel es x \<longleftrightarrow> (\<exists>p\<in>fst ` set es. x < p) \<and> level sel es x \<noteq> 0"

lemma emit_all_covers:
  assumes cov: "\<And>root es out a x. out_ok out \<Longrightarrow> done_upto (b_id (v_buffer root)) 0 out \<Longrightarrow> keys_ascending es
      \<Longrightarrow> covers q (emit root 0 0 0 es out) a x \<longleftrightarrow> covers q out a x \<or>
        (a = b_id (v_buffer root) \<and> lit sel es x)"
    and "out_ok out" "roots_ok as" "done_before as out"
  shows "covers q (emit_all as out) a x \<longleftrightarrow> covers q out a x \<or>
    (\<exists>root es. (a, root, es) \<in> set as \<and> lit sel es x)"
  using assms(2-)
proof (induction as out rule: emit_all.induct)
  case (2 a' root es as out)
  note st = emit_all_step [OF "2.prems"]
  from "2.IH" [OF st(1,3,2)] cov [OF "2.prems"(1) st(4,5)] st(6) show ?case by auto
qed simp

lemma emit_all_bounded:
  assumes "\<forall>u\<in>set out. R u" "u \<in> set (emit_all as out)"
    and "out_ok out" "roots_ok as" "done_before as out"
  shows "R u \<or> (\<exists>a root es. (a, root, es) \<in> set as \<and> bounded_by (insert 0 (fst ` set es)) (v_buffer root) u)"
  using assms
proof (induction as out arbitrary: R rule: emit_all.induct)
  case (2 a root es as out)
  let ?K = "insert 0 (fst ` set es)"
  let ?R = "\<lambda>u. R u \<or> bounded_by ?K (v_buffer root) u"
  note st = emit_all_step [OF "2.prems"(3-5)]
  have "\<forall>v\<in>set out. b_id (v_buffer (g_view v)) \<noteq> b_id (v_buffer root) \<and> R v"
    using "2.prems"(1,5) st(6) by (auto simp: done_before_def)
  then have "\<forall>v\<in>set (emit root 0 0 0 es out). ?R v"
    using emit_bounded [of out root R ?K 0 es] by auto
  then show ?case using "2.IH" [of ?R] "2.prems"(2) st(1-3) by auto
qed simp


section \<open>Summaries are exact\<close>

definition summary_input :: "guse list \<Rightarrow> bool" where
  "summary_input us \<longleftrightarrow> (\<forall>u\<in>set us. use_ok u) \<and> handles_agree us"

lemma allocs_entry:
  assumes "summary_input us" "(a, root, es) \<in> set (fold add_use us [])"
  shows "entry_ok us a root es"
proof -
  have ok: "allocs_ok us (fold add_use us [])"
    using assms(1) by (simp add: summary_input_def allocs_ok_fold)
  then have "map_of (fold add_use us []) a = Some (root, es)"
    using assms(2) by (simp add: allocs_ok_def ascending_distinct)
  with ok show ?thesis by (simp add: allocs_ok_def)
qed

lemma allocs_roots_ok:
  assumes "summary_input us"
  shows "roots_ok (fold add_use us [])"
proof -
  have "b_id (v_buffer root) = a \<and> keys_ascending es" if "(a, root, es) \<in> set (fold add_use us [])" for a root es
    using allocs_entry [OF assms that] by (auto simp: entry_ok_def use_id_def region_def)
  with assms show ?thesis
    using allocs_ok_fold [of us] by (auto simp: roots_ok_def summary_input_def allocs_ok_def)
qed

lemma lit_opens:
  assumes "entry_ok us a root es"
  shows "lit fst es x \<longleftrightarrow> (\<exists>u\<in>set us. open_at reads a x u)"
    and "lit snd es x \<longleftrightarrow> (\<exists>u\<in>set us. open_at writes a x u)"
proof -
  have "\<exists>p\<in>fst ` set es. x < p" if "open_at q a x u" "u \<in> set us" for q u
    using that assms by (auto simp: entry_ok_def open_at_def)
  moreover have levels: "level fst es x \<noteq> 0 \<longleftrightarrow> opens reads us a x \<noteq> 0"
      "level snd es x \<noteq> 0 \<longleftrightarrow> opens writes us a x \<noteq> 0"
    using assms by (simp_all add: entry_ok_def)
  ultimately show "lit fst es x \<longleftrightarrow> (\<exists>u\<in>set us. open_at reads a x u)"
    and "lit snd es x \<longleftrightarrow> (\<exists>u\<in>set us. open_at writes a x u)"
    unfolding lit_def levels opens_pos by blast+
qed

lemma summarize_start: "out_ok []" "done_before as []"
  by (simp_all add: out_ok_def done_before_def)

lemma entry_exists:
  assumes "summary_input us" "u \<in> set us"
  obtains root es where "(use_id u, root, es) \<in> set (fold add_use us [])" "entry_ok us (use_id u) root es"
proof -
  have "map_of (fold add_use us []) (use_id u) \<noteq> None"
    using allocs_ok_fold [of us] assms by (auto simp: summary_input_def allocs_ok_def)
  then obtain root es where "(use_id u, root, es) \<in> set (fold add_use us [])"
    by (auto dest: map_of_SomeD)
  then show thesis using that allocs_entry [OF assms(1)] by blast
qed

lemma summarize_covers:
  assumes "summary_input us"
  shows "covers reads (summarize us) a x \<longleftrightarrow> (\<exists>u\<in>set us. open_at reads a x u)"
    and "covers writes (summarize us) a x \<longleftrightarrow> (\<exists>u\<in>set us. open_at writes a x u)"
proof -
  note rt = allocs_roots_ok [OF assms]
  have r: "covers reads (emit_all (fold add_use us []) []) a x \<longleftrightarrow>
      (\<exists>root es. (a, root, es) \<in> set (fold add_use us []) \<and> lit fst es x)"
    using emit_all_covers [OF _ summarize_start(1) rt summarize_start(2), of reads fst a x]
      emit_covers(1) [of _ _ 0] by (simp add: lit_def)
  have w: "covers writes (emit_all (fold add_use us []) []) a x \<longleftrightarrow>
      (\<exists>root es. (a, root, es) \<in> set (fold add_use us []) \<and> lit snd es x)"
    using emit_all_covers [OF _ summarize_start(1) rt summarize_start(2), of writes snd a x]
      emit_covers(2) [of _ _ 0] by (simp add: lit_def)
  have "(\<exists>root es. (a, root, es) \<in> set (fold add_use us []) \<and> lit sel es x)
      \<longleftrightarrow> (\<exists>u\<in>set us. open_at q a x u)"
    if "\<And>a root es. entry_ok us a root es \<Longrightarrow> lit sel es x \<longleftrightarrow> (\<exists>u\<in>set us. open_at q a x u)" for sel q
  proof
    assume "\<exists>u\<in>set us. open_at q a x u"
    then obtain u where u: "u \<in> set us" "open_at q a x u" by blast
    then have "use_id u = a" by (simp add: open_at_def)
    with entry_exists [OF assms u(1)] that u
    show "\<exists>root es. (a, root, es) \<in> set (fold add_use us []) \<and> lit sel es x" by metis
  qed (use that allocs_entry [OF assms] in blast)
  from this [OF lit_opens(1)] this [OF lit_opens(2)] r w
  show "covers reads (summarize us) a x \<longleftrightarrow> (\<exists>u\<in>set us. open_at reads a x u)"
    and "covers writes (summarize us) a x \<longleftrightarrow> (\<exists>u\<in>set us. open_at writes a x u)"
    by (simp_all add: summarize_def)
qed

lemma summarize_out_ok: "summary_input us \<Longrightarrow> out_ok (summarize us)"
  unfolding summarize_def by (intro emit_all_ok summarize_start allocs_roots_ok)

text \<open>Output views lie inside their allocation and, for shared storage, span it.\<close>

lemma summarize_entry:
  assumes us: "summary_input us" and o: "ou \<in> set (summarize us)"
  obtains u where "u \<in> set us" "v_buffer (g_view ou) = v_buffer (g_view u)"
    "v_end (g_view ou) \<le> b_bytes (v_buffer (g_view u))"
    "b_shared (v_buffer (g_view u)) \<longrightarrow> v_start (g_view ou) = 0 \<and> v_end (g_view ou) = b_bytes (v_buffer (g_view u))"
proof -
  from emit_all_bounded [of "[]" "\<lambda>_. False", OF _ o [unfolded summarize_def] summarize_start(1)
      allocs_roots_ok [OF us] summarize_start(2)]
  obtain a root es where e: "(a, root, es) \<in> set (fold add_use us [])"
      "bounded_by (insert 0 (fst ` set es)) (v_buffer root) ou" by auto
  note ok = allocs_entry [OF us e(1)]
  then obtain u where u: "u \<in> set us" "use_id u = a" "v_buffer root = v_buffer (g_view u)"
    by (auto simp: entry_ok_def)
  let ?b = "v_buffer (g_view u)"
  have ne: "v_start (g_view ou) < v_end (g_view ou)"
    using summarize_out_ok [OF us] o by (simp add: out_ok_def)
  have same: "v_buffer (g_view v) = ?b" if "v \<in> set us" "use_id v = a" for v
    using us that u(1,2) by (intro handles_agreeD [of us]) (simp_all add: summary_input_def)
  have in_keys: "p \<le> b_bytes ?b \<and> (b_shared ?b \<longrightarrow> p \<in> {0, b_bytes ?b})"
    if p: "p \<in> insert 0 (fst ` set es)" for p
  proof (cases "p = 0")
    case False
    with p ok obtain v where v: "v \<in> set us" "use_id v = a" "p = reg_start v \<or> p = reg_end v"
      by (auto simp: entry_ok_def)
    then have "use_ok v" using us by (simp add: summary_input_def)
    with v same [OF v(1,2)] show ?thesis
      by (auto simp: use_ok_def view_ok_def reg_start_def reg_end_def region_def buffer_len_def
          split: if_splits)
  qed simp
  have K: "v_start (g_view ou) \<in> insert 0 (fst ` set es)" "v_end (g_view ou) \<in> insert 0 (fst ` set es)"
    using e(2) unfolding bounded_by_def by blast+
  show thesis
  proof (rule that [of u])
    show "v_buffer (g_view ou) = ?b" using e(2) u(3) by (simp add: bounded_by_def)
    show "v_end (g_view ou) \<le> b_bytes ?b"
      using in_keys [OF K(2)] by blast
    show "b_shared ?b \<longrightarrow> v_start (g_view ou) = 0 \<and> v_end (g_view ou) = b_bytes ?b"
      using in_keys [OF K(1)] in_keys [OF K(2)] ne by auto
  qed (use u in simp)
qed

lemma summarize_region:
  assumes "summary_input us" "ou \<in> set (summarize us)"
  shows "use_id ou = b_id (v_buffer (g_view ou))" "reg_start ou = v_start (g_view ou)"
    "reg_end ou = v_end (g_view ou)"
proof -
  from summarize_entry [OF assms] obtain u where u: "u \<in> set us"
      "v_buffer (g_view ou) = v_buffer (g_view u)" "v_end (g_view ou) \<le> b_bytes (v_buffer (g_view u))"
      "b_shared (v_buffer (g_view u)) \<longrightarrow>
        v_start (g_view ou) = 0 \<and> v_end (g_view ou) = b_bytes (v_buffer (g_view u))" .
  from u(2,4) show "use_id ou = b_id (v_buffer (g_view ou))" "reg_start ou = v_start (g_view ou)"
    "reg_end ou = v_end (g_view ou)"
    by (simp_all add: region_defs buffer_len_def)
qed

lemma summarize_input:
  assumes us: "summary_input us"
  shows "summary_input (summarize us)"
  unfolding summary_input_def handles_agree_def
proof (intro conjI ballI impI)
  fix p assume p: "p \<in> set (summarize us)"
  from summarize_entry [OF us p] obtain u where u: "u \<in> set us"
      "v_buffer (g_view p) = v_buffer (g_view u)" "v_end (g_view p) \<le> b_bytes (v_buffer (g_view u))"
    by blast
  then show "use_ok p"
    using summarize_out_ok [OF us] p by (auto simp: use_ok_def view_ok_def out_ok_def less_imp_le)
  fix p' assume p': "p' \<in> set (summarize us)" "use_id p = use_id p'"
  from summarize_entry [OF us p'(1)] obtain u' where u': "u' \<in> set us"
      "v_buffer (g_view p') = v_buffer (g_view u')" by blast
  from u(2) u'(2) p'(2) have "use_id u = use_id u'" by (simp add: use_id_def region_def)
  with us u(1) u'(1) have "v_buffer (g_view u) = v_buffer (g_view u')"
    by (intro handles_agreeD [of us]) (simp_all add: summary_input_def)
  with u(2) u'(2) show "v_buffer (g_view p) = v_buffer (g_view p')" by simp
qed

lemma summarize_open:
  assumes "summary_input us"
  shows "(\<exists>u\<in>set (summarize us). open_at reads a x u) \<longleftrightarrow> (\<exists>u\<in>set us. open_at reads a x u)"
    and "(\<exists>u\<in>set (summarize us). open_at writes a x u) \<longleftrightarrow> (\<exists>u\<in>set us. open_at writes a x u)"
proof -
  have "open_at q a x u \<longleftrightarrow> view_at q a x u" if "u \<in> set (summarize us)" for q u
    using summarize_region [OF assms that] by (simp add: open_at_def view_at_def)
  then show "(\<exists>u\<in>set (summarize us). open_at reads a x u) \<longleftrightarrow> (\<exists>u\<in>set us. open_at reads a x u)"
    and "(\<exists>u\<in>set (summarize us). open_at writes a x u) \<longleftrightarrow> (\<exists>u\<in>set us. open_at writes a x u)"
    using summarize_covers [OF assms, of a x] by (simp_all add: covers_def)
qed

text \<open>The canonical form that the sweep \<open>conflicts\<close> relies on.\<close>

definition precedes :: "guse \<Rightarrow> guse \<Rightarrow> bool" where
  "precedes u v \<longleftrightarrow> use_id u < use_id v \<or> (use_id u = use_id v \<and> reg_end u \<le> reg_start v)"

definition canonical :: "guse list \<Rightarrow> bool" where
  "canonical us \<longleftrightarrow> sorted_wrt precedes us \<and> (\<forall>u\<in>set us. reg_start u < reg_end u)"

lemma summarize_canonical:
  assumes "summary_input us"
  shows "canonical (summarize us)"
proof -
  have ok: "sorted_wrt before (summarize us)" "\<forall>u\<in>set (summarize us). v_start (g_view u) < v_end (g_view u)"
    using summarize_out_ok [OF assms] by (auto simp: out_ok_def)
  have "sorted_wrt precedes (summarize us)"
    by (rule sorted_wrt_mono_rel [OF _ ok(1)]) (simp add: before_def precedes_def summarize_region [OF assms])
  with ok(2) show ?thesis by (simp add: canonical_def summarize_region [OF assms])
qed


section \<open>The sweep over two summaries\<close>

lemma canonical_Cons:
  "canonical (u # us) \<longleftrightarrow> reg_start u < reg_end u \<and> canonical us \<and> (\<forall>v\<in>set us. precedes u v)"
  by (auto simp: canonical_def)

lemma precedes_no_hazard: "precedes u v \<Longrightarrow> \<not> hazard u v \<and> \<not> hazard v u"
  by (auto simp: precedes_def hazard_def)

lemma precedes_trans: "precedes u v \<Longrightarrow> reg_start v < reg_end v \<Longrightarrow> precedes v w \<Longrightarrow> precedes u w"
  by (auto simp: precedes_def)

lemma precedes_end: "use_id u = use_id v \<Longrightarrow> reg_end u \<le> reg_end v \<Longrightarrow> precedes v w \<Longrightarrow> precedes u w"
  by (auto simp: precedes_def)

text \<open>A use that ends before the head of a canonical list starts meets no use of it.\<close>

lemma no_hazard_before:
  assumes "canonical (v # vs)" "precedes u v"
  shows "\<forall>w\<in>set (v # vs). \<not> hazard u w \<and> \<not> hazard w u"
  using assms by (auto simp: canonical_Cons dest: precedes_trans precedes_no_hazard)

lemma conflicts_correct:
  assumes "canonical us" "canonical vs"
  shows "conflicts us vs \<longleftrightarrow> uses_hazard us vs"
  using assms
proof (induction us vs rule: conflicts.induct)
  case (3 a as b bs)
  have ca: "canonical as" and cb: "canonical bs" using "3.prems" by (simp_all add: canonical_Cons)
  consider (left) "use_id a < use_id b \<or> (use_id a = use_id b \<and> reg_end a \<le> reg_start b)"
    | (right) "\<not> (use_id a < use_id b \<or> (use_id a = use_id b \<and> reg_end a \<le> reg_start b))"
        "precedes b a" "use_id b < use_id a \<or> reg_end b \<le> reg_start a"
    | (meet) "use_id a = use_id b" "reg_start b < reg_end a" "reg_start a < reg_end b"
    unfolding precedes_def by linarith
  then show ?case
  proof cases
    case left
    then have "precedes a b" by (simp add: precedes_def)
    with left no_hazard_before [OF "3.prems"(2)] "3.IH"(1) [OF left ca "3.prems"(2)]
    show ?thesis by (auto simp: uses_hazard_def)
  next
    case right
    with no_hazard_before [OF "3.prems"(1) right(2)] "3.IH"(2) [OF right(1,3) "3.prems"(1) cb]
    show ?thesis by (auto simp: uses_hazard_def)
  next
    case meet
    have nl: "\<not> (use_id a < use_id b \<or> (use_id a = use_id b \<and> reg_end a \<le> reg_start b))"
      and nr: "\<not> (use_id b < use_id a \<or> reg_end b \<le> reg_start a)" using meet by auto
    show ?thesis
    proof (cases "writes (g_access a) \<or> writes (g_access b)")
      case True
      moreover have "hazard a b"
        using True meet "3.prems" by (auto simp: hazard_def canonical_Cons)
      ultimately show ?thesis using nl nr by (auto simp: uses_hazard_def)
    next
      case False
      then have ab: "\<not> hazard a b" by (simp add: hazard_def)
      show ?thesis
      proof (cases "reg_end a \<le> reg_end b")
        case True
        have "\<not> hazard a w" if "w \<in> set bs" for w
          using that True meet "3.prems"(2)
          by (auto simp: canonical_Cons dest: precedes_no_hazard precedes_end)
        with ab "3.IH"(3) [OF nl nr False True ca "3.prems"(2)] nl nr False True
        show ?thesis by (auto simp: uses_hazard_def)
      next
        case le: False
        have "\<not> hazard w b" if "w \<in> set as" for w
          using that le meet "3.prems"(1) precedes_end [of b a w] precedes_no_hazard [of b w]
          by (auto simp: canonical_Cons)
        with ab "3.IH"(4) [OF nl nr False le "3.prems"(1) cb] nl nr False le
        show ?thesis by (auto simp: uses_hazard_def)
      qed
    qed
  qed
qed (auto simp: uses_hazard_def)

lemma hazard_bytes:
  "hazard u v \<longleftrightarrow> (\<exists>a x.
      open_at writes a x u \<and> (open_at reads a x v \<or> open_at writes a x v) \<or>
      (open_at reads a x u \<or> open_at writes a x u) \<and> open_at writes a x v)"
  (is "_ \<longleftrightarrow> (\<exists>a x. ?P a x)")
proof
  assume h: "hazard u v"
  let ?x = "max (reg_start u) (reg_start v)"
  have any: "reads acc \<or> writes acc" for acc by (cases acc) auto
  have "open_at q (use_id u) ?x u \<longleftrightarrow> q (g_access u)" "open_at q (use_id u) ?x v \<longleftrightarrow> q (g_access v)" for q
    using h by (auto simp: hazard_def open_at_def)
  with h any have "?P (use_id u) ?x" by (simp add: hazard_def)
  then show "\<exists>a x. ?P a x" by blast
qed (auto simp: hazard_def open_at_def)

lemma uses_hazard_bytes:
  "uses_hazard us vs \<longleftrightarrow> (\<exists>a x.
      (\<exists>u\<in>set us. open_at writes a x u) \<and>
        ((\<exists>v\<in>set vs. open_at reads a x v) \<or> (\<exists>v\<in>set vs. open_at writes a x v)) \<or>
      ((\<exists>u\<in>set us. open_at reads a x u) \<or> (\<exists>u\<in>set us. open_at writes a x u)) \<and>
        (\<exists>v\<in>set vs. open_at writes a x v))"
  unfolding uses_hazard_def hazard_bytes by blast

lemma uses_hazard_summarize:
  assumes "summary_input us" "summary_input vs"
  shows "uses_hazard (summarize us) (summarize vs) \<longleftrightarrow> uses_hazard us vs"
  unfolding uses_hazard_bytes summarize_open [OF assms(1)] summarize_open [OF assms(2)] ..

text \<open>
  \<open>refines_uses vs us\<close>: \<open>vs\<close> reads and writes the same bytes as \<open>us\<close> through handles of \<open>us\<close>.
  Summaries refine their input, and refinement composes through concatenation.
\<close>

definition same_bytes :: "guse list \<Rightarrow> guse list \<Rightarrow> bool" where
  "same_bytes vs us \<longleftrightarrow> (\<forall>a x.
     ((\<exists>u\<in>set vs. open_at reads a x u) \<longleftrightarrow> (\<exists>u\<in>set us. open_at reads a x u)) \<and>
     ((\<exists>u\<in>set vs. open_at writes a x u) \<longleftrightarrow> (\<exists>u\<in>set us. open_at writes a x u)))"

definition refines_uses :: "guse list \<Rightarrow> guse list \<Rightarrow> bool" where
  "refines_uses vs us \<longleftrightarrow> same_bytes vs us
     \<and> (\<forall>v\<in>set vs. use_ok v \<and> v_buffer (g_view v) \<in> (\<lambda>u. v_buffer (g_view u)) ` set us)"

lemma refines_self: "summary_input us \<Longrightarrow> refines_uses us us"
  by (auto simp: refines_uses_def same_bytes_def summary_input_def)

lemma refines_trans: "refines_uses ws vs \<Longrightarrow> refines_uses vs us \<Longrightarrow> refines_uses ws us"
  unfolding refines_uses_def same_bytes_def by (intro conjI) (simp, fastforce)

lemma refines_summarize:
  assumes "summary_input us"
  shows "refines_uses (summarize us) us"
  unfolding refines_uses_def
proof (intro conjI ballI)
  show "same_bytes (summarize us) us" using summarize_open [OF assms] by (simp add: same_bytes_def)
  fix v assume v: "v \<in> set (summarize us)"
  then show "use_ok v" using summarize_input [OF assms] by (simp add: summary_input_def)
  from summarize_entry [OF assms v] show "v_buffer (g_view v) \<in> (\<lambda>u. v_buffer (g_view u)) ` set us"
    by (metis image_eqI)
qed

lemma refines_append:
  "refines_uses vs us \<Longrightarrow> refines_uses vs' us' \<Longrightarrow> refines_uses (vs @ vs') (us @ us')"
  unfolding refines_uses_def same_bytes_def by (simp add: bex_Un ball_Un image_Un)

lemma refines_concat: "list_all2 refines_uses vss uss \<Longrightarrow> refines_uses (concat vss) (concat uss)"
proof (induction rule: list_all2_induct)
  case (Cons v vss u uss)
  then show ?case by (simp add: refines_append)
qed (simp add: refines_uses_def same_bytes_def)

lemma summary_input_subset: "summary_input us \<Longrightarrow> set vs \<subseteq> set us \<Longrightarrow> summary_input vs"
  unfolding summary_input_def handles_agree_def by (meson subsetD)

lemma refines_input:
  assumes "refines_uses vs us" "summary_input us"
  shows "summary_input vs"
  unfolding summary_input_def handles_agree_def
proof (intro conjI ballI impI)
  show "use_ok v" if "v \<in> set vs" for v using assms(1) that by (simp add: refines_uses_def)
  fix v w assume v: "v \<in> set vs" and w: "w \<in> set vs" and id: "use_id v = use_id w"
  from v w assms(1) obtain u u' where u: "u \<in> set us" "v_buffer (g_view v) = v_buffer (g_view u)"
      "u' \<in> set us" "v_buffer (g_view w) = v_buffer (g_view u')"
    unfolding refines_uses_def by (metis (no_types, lifting) imageE)
  have "use_id u = use_id u'" using u(2,4) id by (simp add: use_id_def region_def)
  with assms(2) u(1,3) have "v_buffer (g_view u) = v_buffer (g_view u')"
    by (intro handles_agreeD [of us]) (simp_all add: summary_input_def)
  with u(2,4) show "v_buffer (g_view v) = v_buffer (g_view w)" by simp
qed

lemma refines_hazard:
  assumes "refines_uses us' us" "refines_uses vs' vs"
  shows "uses_hazard us' vs' \<longleftrightarrow> uses_hazard us vs"
  using assms unfolding uses_hazard_bytes refines_uses_def same_bytes_def by simp


section \<open>Properties\<close>

text \<open>
  \<open>summarize\<close> is exact. For views that lie inside their allocations, the summary reads
  exactly the bytes the input reads and writes exactly the bytes the input writes (shared
  allocations widened to the whole buffer), its entries are nonempty, disjoint and sorted
  by allocation and offset, and it is again a valid input.
\<close>

lemma summarize_exact:
  assumes "summary_input us"
  shows "((\<exists>u\<in>set (summarize us). open_at reads a x u) \<longleftrightarrow> (\<exists>u\<in>set us. open_at reads a x u))
    \<and> ((\<exists>u\<in>set (summarize us). open_at writes a x u) \<longleftrightarrow> (\<exists>u\<in>set us. open_at writes a x u))
    \<and> canonical (summarize us) \<and> summary_input (summarize us)"
  using summarize_open [OF assms] summarize_canonical [OF assms] summarize_input [OF assms] by blast

definition demo_use :: "usize \<Rightarrow> usize \<Rightarrow> usize \<Rightarrow> access \<Rightarrow> guse" where
  "demo_use i s e acc =
     \<lparr>g_view = \<lparr>v_buffer = demo_buffer i False, v_start = s, v_end = e, v_retained = []\<rparr>, g_access = acc\<rparr>"

definition demo_uses :: "guse list" where
  "demo_uses = [demo_use 1 0 32 Read, demo_use 1 16 64 Write, demo_use 1 64 80 Write, demo_use 0 8 24 ReadWrite]"

lemma demo_uses_input: "summary_input demo_uses"
  by (auto simp: summary_input_def demo_uses_def demo_use_def demo_buffer_def use_ok_def view_ok_def
      handles_agree_def use_id_def region_def)

text \<open>
  C5: conflict detection between submissions is exact. For views that lie inside their allocations, the summary of a submission reads
  exactly the bytes its uses read and writes exactly the bytes they write (shared allocations widened to the whole buffer), and is sorted and
  disjoint; sweeping two summaries with two pointers reports a conflict exactly when some use of one submission and some use of
  the other touch a common byte region and at least one of them writes.
\<close>

theorem conflicts_summaries_exact:
  assumes "summary_input us" and "summary_input vs"
  shows "((\<exists>u\<in>set (summarize us). open_at reads a x u) \<longleftrightarrow> (\<exists>u\<in>set us. open_at reads a x u))
    \<and> ((\<exists>u\<in>set (summarize us). open_at writes a x u) \<longleftrightarrow> (\<exists>u\<in>set us. open_at writes a x u))
    \<and> canonical (summarize us) \<and> summary_input (summarize us)
    \<and> (conflicts (summarize us) (summarize vs) \<longleftrightarrow> (\<exists>u\<in>set us. \<exists>v\<in>set vs. hazard u v))"
proof -
  have "conflicts (summarize us) (summarize vs) \<longleftrightarrow> (\<exists>u\<in>set us. \<exists>v\<in>set vs. hazard u v)"
    using conflicts_correct [OF summarize_canonical summarize_canonical, OF assms] uses_hazard_summarize [OF assms] by (simp add: uses_hazard_def)
  then show ?thesis using summarize_exact [OF assms(1), of a x] by blast
qed

theorem conflicts_summaries_exact_witness:
  "conflicts (summarize demo_uses) (summarize [demo_use 1 40 48 Read])
    \<and> \<not> conflicts (summarize demo_uses) (summarize [demo_use 1 0 16 Read])
    \<and> map (\<lambda>u. (v_start (g_view u), v_end (g_view u), g_access u)) (summarize demo_uses)
      = [(8, 24, ReadWrite), (0, 16, Read), (16, 32, ReadWrite), (32, 80, Write)]"
proof -
  have v: "summary_input [demo_use 1 s e Read]" if "s \<le> e" "e \<le> 256" for s e
    using that by (simp add: summary_input_def demo_use_def demo_buffer_def use_ok_def view_ok_def handles_agree_def)
  have "conflicts (summarize demo_uses) (summarize [demo_use 1 s e Read]) \<longleftrightarrow> (\<exists>u\<in>set demo_uses. \<exists>v\<in>set [demo_use 1 s e Read]. hazard u v)"
    if "s \<le> e" "e \<le> 256" for s e
    using conflicts_summaries_exact [OF demo_uses_input v [OF that], of 0 0] by (elim conjE)
  moreover have "map (\<lambda>u. (v_start (g_view u), v_end (g_view u), g_access u)) (summarize demo_uses)
      = [(8, 24, ReadWrite), (0, 16, Read), (16, 32, ReadWrite), (32, 80, Write)]" by code_simp
  ultimately show ?thesis by (simp add: demo_uses_def demo_use_def demo_buffer_def hazard_def region_defs)
qed

end
