(* ===== verification/Buffer_Leases.thy ===== *)
theory Buffer_Leases
  imports Buffer_Views
begin

text \<open>
  The mutable state of an allocation: \<^verbatim>\<open>src/src/execution/buffer.rs\<close> (host leases, cache
  visibility, the read and write guards) and the reservation that
  \<^verbatim>\<open>src/src/execution/handoff.rs\<close> takes for external GPU work. Every critical section of
  the host mutex and of the visibility mutex is one function. Whether the scheduler
  holds pending work that conflicts with an access is the argument \<open>busy\<close> here; the
  execution theory supplies it. The answers of native cache maintenance are the parameter \<open>cc\<close>; every call
  is appended to the calls its allocation has received, with its direction, offset and length.
\<close>


section \<open>Host leases\<close>

record host_state =
  h_readers :: usize
  h_writer :: bool
  h_external :: bool
  h_poison :: "string option"

definition host_default :: host_state where
  "host_default = \<lparr>h_readers = 0, h_writer = False, h_external = False, h_poison = None\<rparr>"

datatype 'a turn = Fail error | Wait | Go 'a

text \<open>
  One turn of the loop of \<open>acquire_with\<close> under the scheduler lock: the access fails, waits
  for device work to change, or goes on and reserves the lease.
\<close>

definition reserve :: "bool \<Rightarrow> host_state \<Rightarrow> host_state" where
  "reserve wr h = (if wr then h\<lparr>h_writer := True\<rparr> else h\<lparr>h_readers := h_readers h + 1\<rparr>)"

definition acquire_turn :: "buffer \<Rightarrow> (access \<Rightarrow> bool) \<Rightarrow> bool \<Rightarrow> bool \<Rightarrow> host_state \<Rightarrow> host_state turn" where
  "acquire_turn b busy wr wait h =
     (if \<not> b_mapped b
      then Fail (Unsupported ''GPU-local memory is not host mapped; use an explicit graph copy to shared storage'')
      else case h_poison h of
        Some e \<Rightarrow> Fail (DeviceLost e)
      | None \<Rightarrow>
          if h_external h \<or> h_writer h \<or> wr \<and> h_readers h \<noteq> 0
          then Fail (Busy ''conflicting host mapping'')
          else if \<not> busy (if wr then ReadWrite else Read) then Go (reserve wr h)
          else if \<not> wait then Fail (Busy ''allocation is in device use'')
          else Wait)"

text \<open>The second half of \<open>acquire_with\<close>: a failed \<open>make_visible\<close> gives the lease back.\<close>

definition release :: "bool \<Rightarrow> host_state \<Rightarrow> host_state" where
  "release wr h = (if wr then h\<lparr>h_writer := False\<rparr> else h\<lparr>h_readers := h_readers h - 1\<rparr>)"

definition acquire_finish :: "bool \<Rightarrow> unit result \<Rightarrow> host_state \<Rightarrow> host_state \<times> unit result" where
  "acquire_finish wr visible h =
     (case visible of Inl e \<Rightarrow> (release wr h, Inl e) | Inr _ \<Rightarrow> (h, Inr ()))"

definition host_conflict :: "access \<Rightarrow> host_state \<Rightarrow> unit result" where
  "host_conflict acc h =
     (case h_poison h of
        Some e \<Rightarrow> Inl (DeviceLost e)
      | None \<Rightarrow>
          if h_external h \<or> h_writer h \<or> writes acc \<and> h_readers h \<noteq> 0
          then Inl (Busy ''device binding conflicts with a live host mapping'')
          else Inr ())"


section \<open>Visibility\<close>

datatype engine = Host | Gpu | Npu

record visibility =
  vs_writer :: engine
  vs_host :: bool
  vs_gpu :: bool
  vs_npu :: bool

definition visible :: "visibility \<Rightarrow> engine \<Rightarrow> bool" where
  "visible v e = (case e of Host \<Rightarrow> vs_host v | Gpu \<Rightarrow> vs_gpu v | Npu \<Rightarrow> vs_npu v)"

definition set_visible :: "engine \<Rightarrow> visibility \<Rightarrow> visibility" where
  "set_visible e v =
     (case e of Host \<Rightarrow> v\<lparr>vs_host := True\<rparr> | Gpu \<Rightarrow> v\<lparr>vs_gpu := True\<rparr> | Npu \<Rightarrow> v\<lparr>vs_npu := True\<rparr>)"

definition visibility_new :: visibility where
  "visibility_new = \<lparr>vs_writer = Host, vs_host = True, vs_gpu = False, vs_npu = False\<rparr>"

definition sync_to_device :: "visibility \<Rightarrow> engine \<Rightarrow> bool" where
  "sync_to_device v consumer \<longleftrightarrow> vs_writer v = Host \<or> consumer = Npu"

definition wrote :: "engine \<Rightarrow> visibility \<Rightarrow> visibility" where
  "wrote e v = set_visible e (v\<lparr>vs_writer := e, vs_host := False, vs_gpu := False, vs_npu := False\<rparr>)"

text \<open>
  The mutable state of an allocation, with the maintenance calls its native memory has received. \<open>cc\<close> answers a call to an
  allocation that has received some calls before.
\<close>

type_synonym sync_call = "bool \<times> usize \<times> usize"
type_synonym sync_control = "usize \<Rightarrow> sync_call list \<Rightarrow> sync_call \<Rightarrow> unit result"

record storage =
  st_host :: host_state
  st_vis :: visibility
  st_calls :: "sync_call list"

definition storage_new :: storage where
  "storage_new = \<lparr>st_host = host_default, st_vis = visibility_new, st_calls = []\<rparr>"

definition native_sync :: "sync_control \<Rightarrow> buffer \<Rightarrow> bool \<Rightarrow> usize \<Rightarrow> usize \<Rightarrow> storage \<Rightarrow> storage \<times> unit result" where
  "native_sync cc b flush off len s =
     (s\<lparr>st_calls := st_calls s @ [(flush, off, len)]\<rparr>, cc (b_id b) (st_calls s) (flush, off, len))"

text \<open>
  \<open>make_visible\<close> returns the new state, the bytes it adds to the maintenance counter and its
  result.
\<close>

definition make_visible :: "sync_control \<Rightarrow> buffer \<Rightarrow> engine \<Rightarrow> storage \<Rightarrow> storage \<times> nat \<times> unit result" where
  "make_visible cc b e s =
     (if visible (st_vis s) e then (s, 0, Inr ())
      else if b_native b
      then (case native_sync cc b (sync_to_device (st_vis s) e) 0 (b_bytes b) s of
              (s1, Inl err) \<Rightarrow> (s1, 0, Inl err)
            | (s1, Inr _) \<Rightarrow> (s1\<lparr>st_vis := set_visible e (st_vis s1)\<rparr>, b_bytes b, Inr ()))
      else (s\<lparr>st_vis := set_visible e (st_vis s)\<rparr>, 0, Inr ()))"

text \<open>
  Dropping the storage: \<open>None\<close> keeps the native pages (their flush failed), otherwise the
  number of bytes taken off the live counter. \<open>accounted\<close> is the storage's own flag.
\<close>

definition storage_drop :: "sync_control \<Rightarrow> buffer \<Rightarrow> bool \<Rightarrow> storage \<Rightarrow> storage \<times> nat option" where
  "storage_drop cc b accounted s =
     (let (s1, flushed) = (if vs_writer (st_vis s) = Host \<and> b_native b then native_sync cc b True 0 (b_bytes b) s else (s, Inr ()))
      in (s1, if is_ok flushed then Some (if accounted then b_bytes b else 0) else None))"

section \<open>Guards and hand-off leases\<close>

definition read_guard_drop :: "storage \<Rightarrow> storage" where
  "read_guard_drop s = s\<lparr>st_host := release False (st_host s)\<rparr>"

definition write_guard_drop :: "storage \<Rightarrow> storage" where
  "write_guard_drop s = s\<lparr>st_vis := wrote Host (st_vis s), st_host := release True (st_host s)\<rparr>"

definition external_begin :: "storage \<Rightarrow> storage" where
  "external_begin s = s\<lparr>st_host := (st_host s)\<lparr>h_external := True\<rparr>\<rparr>"

definition lease_drop :: "bool \<Rightarrow> storage \<Rightarrow> storage" where
  "lease_drop uncertain s =
     s\<lparr>st_host := (if uncertain
        then (st_host s)\<lparr>h_poison := Some ''external GPU completion is uncertain'', h_external := False\<rparr>
        else (st_host s)\<lparr>h_external := False\<rparr>)\<rparr>"

definition poison :: "string \<Rightarrow> storage \<Rightarrow> storage" where
  "poison m s = s\<lparr>st_host := (st_host s)\<lparr>h_poison := Some m\<rparr>\<rparr>"

text \<open>
  The life of one allocation. \<open>held\<close> lists the leases that have been granted and not given
  back: a reader, a writer, or an external hand-off. \<open>busy\<close> may differ at every attempt.
\<close>

datatype lease = Reader | Writer | External

definition lease_of :: "bool \<Rightarrow> lease" where
  "lease_of wr = (if wr then Writer else Reader)"

inductive lease_step :: "buffer \<Rightarrow> storage \<times> lease list \<Rightarrow> storage \<times> lease list \<Rightarrow> bool" for b where
  acquire: "acquire_turn b busy wr wait (st_host s) = Go h
    \<Longrightarrow> lease_step b (s, held) (s\<lparr>st_host := h\<rparr>, lease_of wr # held)"
| visible_done: "make_visible cc b e s = (s', n, r) \<Longrightarrow> lease_step b (s, held) (s', held)"
| rollback: "lease_of wr \<in> set held \<Longrightarrow> acquire_finish wr (Inl e) (st_host s) = (h, r)
    \<Longrightarrow> lease_step b (s, held) (s\<lparr>st_host := h\<rparr>, remove1 (lease_of wr) held)"
| drop_read: "Reader \<in> set held \<Longrightarrow> lease_step b (s, held) (read_guard_drop s, remove1 Reader held)"
| drop_write: "Writer \<in> set held \<Longrightarrow> lease_step b (s, held) (write_guard_drop s, remove1 Writer held)"
| hand_off: "host_conflict ReadWrite (st_host s) = Inr ()
    \<Longrightarrow> lease_step b (s, held) (external_begin s, External # held)"
| hand_back: "External \<in> set held \<Longrightarrow> lease_step b (s, held) (lease_drop u s, remove1 External held)"
| device_failed: "lease_step b (s, held) (poison m s, held)"
| device_wrote: "lease_step b (s, held) (s\<lparr>st_vis := wrote e (st_vis s)\<rparr>, held)"

abbreviation lease_reach :: "buffer \<Rightarrow> storage \<times> lease list \<Rightarrow> bool" where
  "lease_reach b \<equiv> (lease_step b)\<^sup>*\<^sup>* (storage_new, [])"

inductive_simps lease_step_simps: "lease_step b (s, held) y"

text \<open>The counters are the leases held, and an exclusive lease is alone.\<close>

definition leases_ok :: "storage \<times> lease list \<Rightarrow> bool" where
  "leases_ok x \<longleftrightarrow> (case x of (s, held) \<Rightarrow>
     h_readers (st_host s) = count_list held Reader \<and>
     count_list held Writer = (if h_writer (st_host s) then 1 else 0) \<and>
     count_list held External = (if h_external (st_host s) then 1 else 0) \<and>
     (h_writer (st_host s) \<or> h_external (st_host s) \<longrightarrow> length held = 1) \<and>
     vs_writer (st_vis s) \<in> {e. visible (st_vis s) e})"

lemma count_minus1: "x \<in> set xs \<Longrightarrow> count_list (remove1 x xs) y = count_list xs y - (if x = y then 1 else 0)"
  by (induction xs) (auto simp: count_list_0_iff)

lemma count_list_zero: "x \<notin> set xs \<Longrightarrow> count_list xs x = 0"
  by (simp add: count_list_0_iff)

lemma held_split: "length held = count_list held Reader + count_list held Writer + count_list held External"
proof (induction held)
  case (Cons l held)
  then show ?case by (cases l) auto
qed simp

lemma visible_wrote: "visible (wrote e v) f \<longleftrightarrow> f = e"
  by (auto simp: visible_def wrote_def set_visible_def split: engine.splits)

lemma visible_set: "visible (set_visible e v) f \<longleftrightarrow> f = e \<or> visible v f"
  by (auto simp: visible_def set_visible_def split: engine.splits)

lemma writer_simps [simp]: "vs_writer (set_visible e v) = vs_writer v" "vs_writer (wrote e v) = e"
  by (simp_all add: set_visible_def wrote_def split: engine.splits)

lemma leases_ok_simps:
  "leases_ok (s, held) \<longleftrightarrow>
     h_readers (st_host s) = count_list held Reader \<and>
     count_list held Writer = (if h_writer (st_host s) then 1 else 0) \<and>
     count_list held External = (if h_external (st_host s) then 1 else 0) \<and>
     (h_writer (st_host s) \<or> h_external (st_host s) \<longrightarrow> length held = 1) \<and>
     visible (st_vis s) (vs_writer (st_vis s))"
  by (simp add: leases_ok_def)

lemma acquire_turn_Go:
  "acquire_turn b busy wr wait h = Go h' \<longleftrightarrow>
     b_mapped b \<and> h_poison h = None \<and> \<not> h_external h \<and> \<not> h_writer h \<and> (wr \<longrightarrow> h_readers h = 0)
     \<and> \<not> busy (if wr then ReadWrite else Read) \<and> h' = reserve wr h"
  by (auto simp: acquire_turn_def split: option.splits if_splits)

lemma host_conflict_ok:
  "host_conflict acc h = Inr () \<longleftrightarrow>
     h_poison h = None \<and> \<not> h_external h \<and> \<not> h_writer h \<and> (writes acc \<longrightarrow> h_readers h = 0)"
  by (auto simp: host_conflict_def split: option.splits if_splits)

lemma make_visible_keeps:
  "make_visible cc b e s = (s', n, r) \<Longrightarrow> st_host s' = st_host s \<and> vs_writer (st_vis s') = vs_writer (st_vis s)
     \<and> (\<forall>f. visible (st_vis s) f \<longrightarrow> visible (st_vis s') f)"
  by (auto simp: make_visible_def native_sync_def visible_set split: if_splits sum.splits)

lemma make_visible_host [simp]: "st_host (fst (make_visible cc b e s)) = st_host s"
  by (cases "make_visible cc b e s") (auto dest: make_visible_keeps)

lemma leases_ok_step: "lease_step b x y \<Longrightarrow> leases_ok x \<Longrightarrow> leases_ok y"
proof (induction rule: lease_step.induct)
  case (acquire busy wr wait s h held)
  have held: "count_list held Writer = 0" "count_list held External = 0" "wr \<longrightarrow> length held = 0"
    using acquire held_split [of held] by (auto simp: leases_ok_simps acquire_turn_Go)
  with acquire show ?case
    by (cases wr) (auto simp: leases_ok_simps acquire_turn_Go lease_of_def reserve_def)
next
  case (visible_done cc e s s' n r held)
  then show ?case using make_visible_keeps [OF visible_done.hyps] by (auto simp: leases_ok_simps)
next
  case (rollback wr held e s h r)
  with held_split [of held] show ?case
    by (cases wr) (auto simp: leases_ok_simps acquire_finish_def lease_of_def release_def count_minus1
        length_remove1 count_list_0_iff split: if_splits)
next
  case (drop_read held s)
  with held_split [of held] show ?case
    by (auto simp: leases_ok_simps read_guard_drop_def release_def count_minus1 count_list_0_iff split: if_splits)
next
  case (drop_write held s)
  with held_split [of held] show ?case
    by (auto simp: leases_ok_simps write_guard_drop_def release_def count_minus1 count_list_0_iff
        visible_wrote split: if_splits)
next
  case (hand_off s held)
  with held_split [of held] show ?case
    by (auto simp: leases_ok_simps external_begin_def host_conflict_ok split: if_splits)
next
  case (hand_back held u s)
  with held_split [of held] show ?case
    by (auto simp: leases_ok_simps lease_drop_def count_minus1 count_list_0_iff split: if_splits)
next
  case (device_failed s held m)
  then show ?case by (simp add: leases_ok_simps poison_def)
next
  case (device_wrote s held e)
  then show ?case by (simp add: leases_ok_simps visible_wrote)
qed

lemma leases_ok_reach: "lease_reach b x \<Longrightarrow> leases_ok x"
proof (induction rule: rtranclp_induct)
  case base
  show ?case
    by (simp add: leases_ok_def storage_new_def host_default_def visibility_new_def visible_def)
next
  case (step y z)
  then show ?case by (blast intro: leases_ok_step)
qed

text \<open>
  C11: host leases are exclusive and exactly counted. In every reachable state of an
  allocation, through acquisitions, failed visibility with rollback, guard drops, external
  hand-offs, poisoning and device writes in any order: a live writer or external hand-off is the only
  lease, the reader count is the number of live read guards (so its decrement never
  underflows), and the last writing engine sees its own writes.
\<close>

theorem leases_exclusive:
  assumes "lease_reach b (s, held)"
  shows "(Writer \<in> set held \<or> External \<in> set held \<longrightarrow> length held = 1)
    \<and> h_readers (st_host s) = count_list held Reader
    \<and> (h_writer (st_host s) \<longleftrightarrow> Writer \<in> set held) \<and> (h_external (st_host s) \<longleftrightarrow> External \<in> set held)
    \<and> visible (st_vis s) (vs_writer (st_vis s))"
  using leases_ok_reach [OF assms] count_list_0_iff [of held Writer] count_list_0_iff [of held External]
  by (auto simp: leases_ok_simps split: if_splits)

lemma lease_reach_Cons: "lease_reach b x \<Longrightarrow> lease_step b x y \<Longrightarrow> lease_reach b y"
  by (rule rtranclp.rtrancl_into_rtrancl)

theorem leases_exclusive_witness:
  "h_readers (st_host (storage_new\<lparr>st_host := reserve False (reserve False host_default)\<rparr>)) = 2"
proof -
  let ?b = "demo_buffer 7 False"
  have go: "acquire_turn ?b (\<lambda>_. False) False True (reserve False host_default) = Go (reserve False (reserve False host_default))"
      "acquire_turn ?b (\<lambda>_. False) False True host_default = Go (reserve False host_default)"
    by (simp_all add: acquire_turn_Go demo_buffer_def host_default_def reserve_def)
  have "lease_reach ?b (storage_new, [])" by simp
  from lease_reach_Cons [OF this lease_step.acquire [where s = storage_new and h = "reserve False host_default"
        and busy = "\<lambda>_. False" and wr = False and wait = True]] go(2)
  have "lease_reach ?b (storage_new\<lparr>st_host := reserve False host_default\<rparr>, [Reader])"
    by (simp add: storage_new_def lease_of_def)
  from lease_reach_Cons [OF this lease_step.acquire [where h = "reserve False (reserve False host_default)"
        and busy = "\<lambda>_. False" and wr = False and wait = True]] go(1)
  have "lease_reach ?b (storage_new\<lparr>st_host := reserve False (reserve False host_default)\<rparr>, [Reader, Reader])"
    by (simp add: storage_new_def lease_of_def)
  from leases_exclusive [OF this] show ?thesis by simp
qed



section \<open>Cache maintenance history\<close>

text \<open>
  A history of an allocation's visibility: engines write, and consumers are made visible. The result counts the bytes added to
  the maintenance counter and lists what the consumers got.
\<close>

datatype vis_event = Wrote engine | Consume engine

fun run_history :: "sync_control \<Rightarrow> buffer \<Rightarrow> vis_event list \<Rightarrow> storage \<Rightarrow> storage \<times> nat \<times> unit result list" where
  "run_history cc b [] s = (s, 0, [])"
| "run_history cc b (Wrote e # es) s = run_history cc b es (s\<lparr>st_vis := wrote e (st_vis s)\<rparr>)"
| "run_history cc b (Consume e # es) s =
     (let (s1, n, r) = make_visible cc b e s; (s2, m, rs) = run_history cc b es s1 in (s2, n + m, r # rs))"

text \<open>
  What a history should maintain, with no state but the last writer and the engines served
  since: a consumer is maintained for exactly once per write, over the whole allocation, and toward the device
  when the bytes are dirty in the host's caches or the consumer is the NPU.
\<close>

fun needed :: "usize \<Rightarrow> engine \<Rightarrow> engine set \<Rightarrow> vis_event list \<Rightarrow> sync_call list" where
  "needed len w served [] = []"
| "needed len w served (Wrote e # es) = needed len e {e} es"
| "needed len w served (Consume e # es) =
     (if e \<in> served then needed len w served es
      else (w = Host \<or> e = Npu, 0, len) # needed len w (insert e served) es)"

lemma visible_engines: "{f. visible (set_visible e v) f} = insert e {f. visible v f}"
    "{f. visible (wrote e v) f} = {e}"
  by (auto simp: visible_set visible_wrote)

text \<open>With working maintenance a consumer that is not served is served by one call.\<close>

lemma make_visible_serves:
  assumes "b_native b" "\<And>calls flush. cc (b_id b) calls (flush, 0, b_bytes b) = Inr ()" "\<not> visible (st_vis s) e"
  shows "\<exists>s1. make_visible cc b e s = (s1, b_bytes b, Inr ()) \<and> st_vis s1 = set_visible e (st_vis s)
    \<and> st_calls s1 = st_calls s @ [(vs_writer (st_vis s) = Host \<or> e = Npu, 0, b_bytes b)]"
  using assms by (simp add: make_visible_def native_sync_def sync_to_device_def)

lemma run_history_exact:
  assumes "b_native b" "\<And>calls flush. cc (b_id b) calls (flush, 0, b_bytes b) = Inr ()"
  shows "case run_history cc b es s of (s', n, rs) \<Rightarrow>
      st_calls s' = st_calls s @ needed (b_bytes b) (vs_writer (st_vis s)) {e. visible (st_vis s) e} es
    \<and> n = b_bytes b * length (needed (b_bytes b) (vs_writer (st_vis s)) {e. visible (st_vis s) e} es) \<and> (\<forall>r\<in>set rs. r = Inr ())"
proof (induction es arbitrary: s)
  case (Cons ev es)
  show ?case
  proof (cases ev)
    case (Wrote e)
    then show ?thesis using Cons.IH [of "s\<lparr>st_vis := wrote e (st_vis s)\<rparr>"] by (simp add: visible_engines)
  next
    case (Consume e)
    show ?thesis
    proof (cases "visible (st_vis s) e")
      case True
      then have "make_visible cc b e s = (s, 0, Inr ())" by (simp add: make_visible_def)
      then show ?thesis using Cons.IH [of s] True Consume by (simp split: prod.splits)
    next
      case False
      obtain s1 where s1: "make_visible cc b e s = (s1, b_bytes b, Inr ())" "st_vis s1 = set_visible e (st_vis s)"
          "st_calls s1 = st_calls s @ [(vs_writer (st_vis s) = Host \<or> e = Npu, 0, b_bytes b)]"
        using make_visible_serves [of b cc, OF assms False] by blast
      then show ?thesis using Cons.IH [of s1] False Consume by (simp add: visible_engines split: prod.splits)
    qed
  qed
qed simp

text \<open>
  C12: cache maintenance is neither missed nor repeated. For an allocation with native backing, making a consumer visible
  calls the native memory exactly when the consumer has not been served since the last write, once, over the whole allocation, in
  the direction the last writer and the consumer call for; it succeeds exactly when the consumer is then visible, and a failed
  call leaves the consumer unserved and counts no bytes, so the next attempt calls again. With working maintenance the calls an allocation
  receives along any history of writes and consumers are exactly those needed: one for each consumer that has not been served since the
  last write and is not its writer, and the maintenance counter grows by the allocation's bytes for each of them.
\<close>

theorem maintenance_exact:
  assumes "b_native b"
  shows "(case make_visible cc b e s of (s', n, r) \<Rightarrow>
        st_calls s' = st_calls s @ (if visible (st_vis s) e then [] else [(vs_writer (st_vis s) = Host \<or> e = Npu, 0, b_bytes b)])
      \<and> (r = Inr () \<longleftrightarrow> visible (st_vis s') e) \<and> (r \<noteq> Inr () \<longrightarrow> st_vis s' = st_vis s \<and> n = 0))
    \<and> ((\<forall>calls flush. cc (b_id b) calls (flush, 0, b_bytes b) = Inr ()) \<longrightarrow>
        (case run_history cc b es s of (s', n, rs) \<Rightarrow>
           st_calls s' = st_calls s @ needed (b_bytes b) (vs_writer (st_vis s)) {e. visible (st_vis s) e} es
         \<and> n = b_bytes b * length (needed (b_bytes b) (vs_writer (st_vis s)) {e. visible (st_vis s) e} es) \<and> (\<forall>r\<in>set rs. r = Inr ())))"
  using assms run_history_exact [of b cc s es]
  by (auto simp: make_visible_def native_sync_def sync_to_device_def visible_set split: sum.splits)

theorem maintenance_exact_witness:
  "st_calls (fst (run_history (\<lambda>_ _ _. Inr ()) (demo_buffer 7 False)
     [Consume Gpu, Consume Gpu, Wrote Gpu, Consume Npu, Consume Host] storage_new))
   = [(True, 0, 256), (True, 0, 256), (False, 0, 256)]"
proof -
  let ?es = "[Consume Gpu, Consume Gpu, Wrote Gpu, Consume Npu, Consume Host]"
  have v: "visible (st_vis storage_new) e \<longleftrightarrow> e = Host" for e
    by (cases e) (simp_all add: visible_def visibility_new_def storage_new_def)
  then have "{e. visible (st_vis storage_new) e} = {Host}" by auto
  moreover have "vs_writer (st_vis storage_new) = Host" "st_calls storage_new = []" by (simp_all add: storage_new_def visibility_new_def)
  moreover have "b_native (demo_buffer 7 False)" "b_bytes (demo_buffer 7 False) = 256" by (simp_all add: demo_buffer_def)
  ultimately show ?thesis
    using maintenance_exact [where b = "demo_buffer 7 False" and cc = "\<lambda>_ _ _. Inr ()" and s = storage_new and es = ?es] by (auto split: prod.splits)
qed


section \<open>External hand-off\<close>

text \<open>
  \<open>Runtime::with_gpu_access\<close>. The storages of the runtime are a function of their address.
  \<open>handoff_roots\<close> validates the accesses and collects each allocation once, in
  address order; \<open>handoff_turn\<close> is one turn of the waiting loop under the scheduler lock;
  \<open>handoff_run\<close> is the rest, with the result of the callback (\<open>None\<close> for a panic) and of
  the stream's synchronization as arguments.
\<close>

type_synonym stores = "usize \<Rightarrow> storage"

definition update_store :: "usize \<Rightarrow> (storage \<Rightarrow> storage) \<Rightarrow> stores \<Rightarrow> stores" where
  "update_store i f st = st(i := f (st i))"

fun roots_insert :: "buffer \<Rightarrow> buffer list \<Rightarrow> buffer list" where
  "roots_insert b [] = [b]"
| "roots_insert b (c # cs) =
     (if b_id b < b_id c then b # c # cs else if b_id b = b_id c then b # cs else c # roots_insert b cs)"

fun handoff_roots :: "nat \<Rightarrow> (buffer \<Rightarrow> nat) \<Rightarrow> nat \<Rightarrow> buffer list \<Rightarrow> guse list \<Rightarrow> buffer list result" where
  "handoff_roots rt gpu_device stream roots [] = Inr roots"
| "handoff_roots rt gpu_device stream roots (u # us) =
     (if b_runtime (v_buffer (g_view u)) \<noteq> rt then Inl (Message ''buffer belongs to another runtime'')
      else and_then (view_gpu (g_view u)) (\<lambda>_.
        if gpu_device (v_buffer (g_view u)) \<noteq> stream then Inl (Message ''stream belongs to another device'')
        else handoff_roots rt gpu_device stream (roots_insert (v_buffer (g_view u)) roots) us))"

definition handoff_turn :: "(buffer \<Rightarrow> access \<Rightarrow> bool) \<Rightarrow> buffer list \<Rightarrow> stores \<Rightarrow> stores turn" where
  "handoff_turn busy roots st =
     (case try_all (\<lambda>b. host_conflict ReadWrite (st_host (st (b_id b)))) roots of
        Inl e \<Rightarrow> Fail e
      | Inr _ \<Rightarrow>
          if \<exists>b\<in>set roots. busy b ReadWrite then Wait
          else Go (fold (\<lambda>b. update_store (b_id b) external_begin) roots st))"

fun handoff_visible :: "sync_control \<Rightarrow> buffer list \<Rightarrow> stores \<Rightarrow> stores \<times> unit result" where
  "handoff_visible cc [] st = (st, Inr ())"
| "handoff_visible cc (b # bs) st =
     (let (s, n, r) = make_visible cc b Gpu (st (b_id b));
          st1 = update_store (b_id b) (\<lambda>_. s) st
      in case r of Inl e \<Rightarrow> (st1, Inl e) | Inr _ \<Rightarrow> handoff_visible cc bs st1)"

definition drop_leases :: "bool \<Rightarrow> buffer list \<Rightarrow> stores \<Rightarrow> stores" where
  "drop_leases uncertain roots st = fold (\<lambda>b. update_store (b_id b) (lease_drop uncertain)) roots st"

definition mark_written :: "guse list \<Rightarrow> stores \<Rightarrow> stores" where
  "mark_written us st =
     fold (\<lambda>u. update_store (use_id u) (\<lambda>s. s\<lparr>st_vis := wrote Gpu (st_vis s)\<rparr>))
       (filter (\<lambda>u. writes (g_access u)) us) st"

definition handoff_run ::
  "sync_control \<Rightarrow> guse list \<Rightarrow> buffer list \<Rightarrow> 'a result option
    \<Rightarrow> unit result \<Rightarrow> stores \<Rightarrow> stores \<times> 'a result option" where
  "handoff_run cc us roots callback completion st =
     (let (st1, vis) = handoff_visible cc roots st
      in case and_then vis (\<lambda>_. try_all (\<lambda>u. view_gpu (g_view u)) us) of
           Inl e \<Rightarrow> (drop_leases False roots st1, Some (Inl e))
         | Inr _ \<Rightarrow>
             let st2 = (if is_ok completion then mark_written us st1 else st1);
                 st3 = drop_leases (\<not> is_ok completion) roots st2
             in (st3, map_option (\<lambda>r. and_then completion (\<lambda>_. r)) callback))"

lemma fold_update_store:
  assumes "distinct (map h xs)"
  shows "fold (\<lambda>x. update_store (h x) f) xs st i = (if i \<in> h ` set xs then f (st i) else st i)"
  using assms by (induction xs arbitrary: st) (auto simp: update_store_def)

lemma set_roots_insert: "b_id ` set (roots_insert b cs) = insert (b_id b) (b_id ` set cs)"
  by (induction cs) auto

lemma sorted_roots_insert:
  "sorted_wrt (<) (map b_id cs) \<Longrightarrow> sorted_wrt (<) (map b_id (roots_insert b cs))"
proof (induction cs)
  case (Cons c cs)
  have "b_id c < x" if "x \<in> b_id ` set (roots_insert b cs)" "b_id c < b_id b" for x
    using that Cons.prems by (auto simp: set_roots_insert)
  with Cons show ?case by (auto simp: image_iff)
qed simp

lemma handoff_roots_ok:
  "handoff_roots rt gd sd roots us = Inr rs \<Longrightarrow> sorted_wrt (<) (map b_id roots) \<Longrightarrow>
     sorted_wrt (<) (map b_id rs) \<and> b_id ` set rs = b_id ` set roots \<union> use_id ` set us
     \<and> (\<forall>u\<in>set us. b_runtime (v_buffer (g_view u)) = rt \<and> view_gpu (g_view u) = Inr ())"
proof (induction rt gd sd roots us rule: handoff_roots.induct)
  case (2 rt gd sd roots u us)
  then show ?case
    by (auto simp: and_then_Inr_iff set_roots_insert sorted_roots_insert use_id_def region_def split: if_splits)
qed simp

lemma sorted_distinct_ids: "sorted_wrt (<) (map b_id rs) \<Longrightarrow> distinct (map b_id rs)"
  by (induction rs) auto

lemma handoff_visible_host: "st_host (fst (handoff_visible cc bs st) i) = st_host (st i)"
proof (induction bs arbitrary: st)
  case (Cons b bs)
  obtain s n r where mv: "make_visible cc b Gpu (st (b_id b)) = (s, n, r)" by (metis prod_cases3)
  have keep: "st_host s = st_host (st (b_id b))" using make_visible_keeps [OF mv] by simp
  show ?case using Cons.IH [of "update_store (b_id b) (\<lambda>_. s) st"] keep by (cases r) (simp_all add: mv update_store_def fun_upd_def)
qed simp

lemma mark_written_host: "st_host (mark_written us st i) = st_host (st i)"
proof -
  have "st_host (fold (\<lambda>u. update_store (use_id u) (\<lambda>s. s\<lparr>st_vis := wrote Gpu (st_vis s)\<rparr>)) vs st i) = st_host (st i)"
    for vs st by (induction vs arbitrary: st) (auto simp: update_store_def)
  then show ?thesis by (simp add: mark_written_def)
qed

lemma mark_written_vis:
  "u \<in> set us \<Longrightarrow> writes (g_access u) \<Longrightarrow> visible (st_vis (mark_written us st (use_id u))) e \<longleftrightarrow> e = Gpu"
proof -
  let ?f = "\<lambda>u. update_store (use_id u) (\<lambda>s. s\<lparr>st_vis := wrote Gpu (st_vis s)\<rparr>)"
  have keep: "(\<forall>e. visible (st_vis (st i)) e \<longleftrightarrow> e = Gpu) \<Longrightarrow> visible (st_vis (fold ?f vs st i)) e \<longleftrightarrow> e = Gpu" for vs st i
    by (induction vs arbitrary: st) (auto simp: update_store_def visible_wrote)
  have "u \<in> set vs \<Longrightarrow> visible (st_vis (fold ?f vs st (use_id u))) e \<longleftrightarrow> e = Gpu" for vs st
  proof (induction vs arbitrary: st)
    case (Cons v vs)
    have "visible (st_vis (?f u st (use_id u))) e \<longleftrightarrow> e = Gpu" for e
      by (simp add: update_store_def visible_wrote)
    with keep [of "?f u st" "use_id u" vs] Cons show ?case by (cases "v = u") auto
  qed simp
  then show "u \<in> set us \<Longrightarrow> writes (g_access u) \<Longrightarrow> ?thesis" by (simp add: mark_written_def)
qed

lemma drop_leases_at:
  "distinct (map b_id rs) \<Longrightarrow>
     drop_leases u rs st i = (if i \<in> b_id ` set rs then lease_drop u (st i) else st i)"
  by (simp add: drop_leases_def fold_update_store)

lemma lease_drop_simps [simp]:
  "\<not> h_external (st_host (lease_drop u s))" "st_vis (lease_drop u s) = st_vis s"
  "h_poison (st_host (lease_drop u s)) = (if u then Some ''external GPU completion is uncertain'' else h_poison (st_host s))"
  by (simp_all add: lease_drop_def)

lemma handoff_run_at:
  assumes "distinct (map b_id rs)" "handoff_run cc us rs cb sync st = (st', out)" "i \<in> b_id ` set rs"
  shows "\<not> h_external (st_host (st' i))"
  using assms
  by (auto simp: handoff_run_def drop_leases_at Let_def split: prod.splits sum.splits)

text \<open>
  C13: an external hand-off always gives its reservations back, and never loses an uncertain
  outcome. After validation, a granted turn and the run, whatever the cache maintenance, the callback
  (a panic included) and the synchronization do: no accessed allocation stays reserved;
  if the views were prepared and the synchronization failed, every accessed allocation rejects
  all further access as lost; if it succeeded, the GPU is the only engine that sees the written ones.
\<close>

theorem handoff_releases:
  assumes "handoff_roots rt gd sd [] us = Inr rs" and "handoff_turn busy rs st0 = Go st"
    and "handoff_run cc us rs cb sync st = (st', out)"
  shows "(\<forall>u\<in>set us. \<not> h_external (st_host (st' (use_id u))))
    \<and> (\<forall>u\<in>set us. h_external (st_host (st (use_id u))) \<and> \<not> h_external (st_host (st0 (use_id u))))
    \<and> (snd (handoff_visible cc rs st) = Inr () \<longrightarrow>
         (\<not> is_ok sync \<longrightarrow> (\<forall>u\<in>set us. \<forall>acc. host_conflict acc (st_host (st' (use_id u)))
                               = Inl (DeviceLost ''external GPU completion is uncertain'')))
       \<and> (is_ok sync \<longrightarrow> (\<forall>u\<in>set us. writes (g_access u) \<longrightarrow>
             (\<forall>e. visible (st_vis (st' (use_id u))) e \<longleftrightarrow> e = Gpu))))"
proof (intro conjI impI ballI allI)
  have rs: "sorted_wrt (<) (map b_id rs)" "b_id ` set rs = use_id ` set us"
      "\<forall>u\<in>set us. view_gpu (g_view u) = Inr ()"
    using handoff_roots_ok [OF assms(1)] by auto
  have d: "distinct (map b_id rs)" using rs(1) by (rule sorted_distinct_ids)
  fix u assume u: "u \<in> set us"
  then have i: "use_id u \<in> b_id ` set rs" using rs(2) by simp
  show "\<not> h_external (st_host (st' (use_id u)))" using handoff_run_at [OF d assms(3) i] .
  have turn: "try_all (\<lambda>b. host_conflict ReadWrite (st_host (st0 (b_id b)))) rs = Inr ()"
      "st = fold (\<lambda>b. update_store (b_id b) external_begin) rs st0"
    using assms(2) by (auto simp: handoff_turn_def split: sum.splits if_splits)
  then show "h_external (st_host (st (use_id u)))" "\<not> h_external (st_host (st0 (use_id u)))"
    using i d by (auto simp: fold_update_store external_begin_def try_all_ok host_conflict_ok)
  assume vis: "snd (handoff_visible cc rs st) = Inr ()"
  have run: "st' = drop_leases (\<not> is_ok sync) rs
      (if is_ok sync then mark_written us (fst (handoff_visible cc rs st)) else fst (handoff_visible cc rs st))"
    using assms(3) vis rs(3) try_all_ok [of "\<lambda>u. view_gpu (g_view u)" us]
    by (auto simp: handoff_run_def Let_def split: prod.splits sum.splits)
  show "host_conflict acc (st_host (st' (use_id u))) = Inl (DeviceLost ''external GPU completion is uncertain'')"
    if "\<not> is_ok sync" for acc
    using that run i d by (simp add: drop_leases_at host_conflict_def)
  show "visible (st_vis (st' (use_id u))) e \<longleftrightarrow> e = Gpu" if "is_ok sync" "writes (g_access u)" for e
    using that run i d u by (simp add: drop_leases_at mark_written_vis)
qed

definition demo_handoff :: "guse list" where
  "demo_handoff = [\<lparr>g_view = whole_view (demo_buffer 7 False), g_access = Write\<rparr>]"

theorem handoff_releases_witness:
  "host_conflict Read (st_host (fst (handoff_run (\<lambda>_ _ _. Inr ()) demo_handoff [demo_buffer 7 False]
       (Some (Inr ())) (Inl Cancelled) (update_store 7 external_begin (\<lambda>_. storage_new))) 7))
     = Inl (DeviceLost ''external GPU completion is uncertain'')"
proof -
  let ?st = "update_store 7 external_begin (\<lambda>_. storage_new)"
  have "handoff_roots 0 (\<lambda>_. 3) 3 [] demo_handoff = Inr [demo_buffer 7 False]"
    by (simp add: demo_handoff_def view_gpu_def demo_buffer_def and_then_Inr_iff checked_span_ok
        view_offset_def view_len_def usize_MAX_def)
  moreover have "handoff_turn (\<lambda>_ _. False) [demo_buffer 7 False] (\<lambda>_. storage_new) = Go ?st"
    by (simp add: handoff_turn_def host_conflict_def storage_new_def host_default_def demo_buffer_def)
  moreover have "snd (handoff_visible (\<lambda>_ _ _. Inr ()) [demo_buffer 7 False] ?st) = Inr ()"
    by (simp add: make_visible_def native_sync_def Let_def demo_buffer_def)
  moreover obtain st' out where run: "handoff_run (\<lambda>_ _ _. Inr ()) demo_handoff [demo_buffer 7 False]
      (Some (Inr ())) (Inl Cancelled) ?st = (st', out)" by fastforce
  moreover have "\<forall>u\<in>set demo_handoff. use_id u = 7"
    by (simp add: demo_handoff_def use_id_def region_def demo_buffer_def)
  ultimately have "\<forall>u\<in>set demo_handoff. \<forall>acc. host_conflict acc (st_host (st' 7))
      = Inl (DeviceLost ''external GPU completion is uncertain'')"
    using handoff_releases [where us = demo_handoff and rs = "[demo_buffer 7 False]" and st = ?st
        and sync = "Inl Cancelled" and cb = "Some (Inr ())" and cc = "\<lambda>_ _ _. Inr ()"]
    by simp
  with run show ?thesis by (simp add: demo_handoff_def)
qed

end
