(* ===== verification/Stream_Graph.thy ===== *)
theory Stream_Graph
  imports HRX_Prelude
begin

text \<open>
  GPU stream graphs of \<^verbatim>\<open>src/src/runtime.rs\<close>: checked views of device buffers, recording of
  nodes under explicit dependency lists, and the lowering of a recording to an ordered
  command list with barrier flags (\<open>Graph::finish\<close>). Native preparation of a single command
  is the parameter \<open>prepare\<close>: it returns a command of the abstract type \<open>'c\<close> or an error.
  The main result is that the lowering, which keeps only the highest predecessor of each
  node and the position of the last barrier, separates every node from each of its
  predecessors by a barrier.
\<close>


section \<open>Checked views\<close>

record gpu_buffer =
  gb_addr :: usize
  gb_native :: usize
  gb_bytes :: usize
  gb_device :: nat
  gb_reservation :: "usize option"

record gview =
  gv_owner :: gpu_buffer
  gv_offset :: usize
  gv_length :: usize

definition gview_slice :: "gview \<Rightarrow> usize \<Rightarrow> usize \<Rightarrow> gview result" where
  "gview_slice v off len =
     and_then (checked_span off len (gv_length v))
       (\<lambda>_. Inr (v\<lparr>gv_offset := gv_offset v + off, gv_length := len\<rparr>))"

definition gview_is_empty :: "gview \<Rightarrow> bool" where
  "gview_is_empty v \<longleftrightarrow> gv_length v = 0"

definition binding :: "gpu_buffer \<Rightarrow> gview" where
  "binding b = \<lparr>gv_owner = b, gv_offset = 0, gv_length = gb_bytes b\<rparr>"

definition try_slice :: "gpu_buffer \<Rightarrow> usize \<Rightarrow> usize \<Rightarrow> gview result" where
  "try_slice b off len = gview_slice (binding b) off len"

text \<open>A view inside its allocation; allocations are at most \<open>usize_MAX\<close> bytes.\<close>

definition gview_ok :: "gview \<Rightarrow> bool" where
  "gview_ok v \<longleftrightarrow> gv_offset v + gv_length v \<le> gb_bytes (gv_owner v) \<and> gb_bytes (gv_owner v) \<le> usize_MAX"

lemma gview_slice_Inr:
  "gview_slice v off len = Inr w \<longleftrightarrow>
     off + len \<le> usize_MAX \<and> off + len \<le> gv_length v
     \<and> w = v\<lparr>gv_offset := gv_offset v + off, gv_length := len\<rparr>"
  by (auto simp: gview_slice_def and_then_Inr_iff checked_span_ok)

lemma gview_slice_ok: "gview_ok v \<Longrightarrow> gview_slice v off len = Inr w \<Longrightarrow> gview_ok w"
  by (auto simp: gview_slice_Inr gview_ok_def)


section \<open>Recording\<close>

definition u32_MAX :: nat where
  "u32_MAX = 2 ^ 32 - 1"

record node =
  n_graph :: nat
  n_index :: nat

datatype 'c recorded_cmd = Prepared 'c | Join

record 'c graph =
  gr_id :: nat
  gr_device :: nat
  gr_nodes :: "('c recorded_cmd \<times> nat option) list"
  gr_bindings :: "usize \<rightharpoonup> usize"
  gr_budget :: "usize set"

definition owned_graph :: "nat \<Rightarrow> nat \<Rightarrow> 'c graph" where
  "owned_graph gid dev =
     \<lparr>gr_id = gid, gr_device = dev, gr_nodes = [], gr_bindings = Map.empty, gr_budget = {}\<rparr>"

definition owns :: "nat \<Rightarrow> gpu_buffer \<Rightarrow> unit result" where
  "owns dev b = (if dev = gb_device b then Inr () else Inl (Message ''buffer belongs to another device''))"

definition retain_bindings :: "gview list \<Rightarrow> 'c graph \<Rightarrow> 'c graph" where
  "retain_bindings views g =
     g\<lparr>gr_budget := gr_budget g \<union> (\<Union>v\<in>set views. set_option (gb_reservation (gv_owner v))),
       gr_bindings := fold (\<lambda>v m. m(gb_native (gv_owner v) \<mapsto> gb_bytes (gv_owner v))) views (gr_bindings g)\<rparr>"

definition validate_dependencies :: "'c graph \<Rightarrow> node list \<Rightarrow> unit result" where
  "validate_dependencies g after =
     and_then
       (try_all (\<lambda>n. if n_graph n \<noteq> gr_id g \<or> n_index n \<ge> length (gr_nodes g)
                  then Inl (Message ''dependency node belongs to another graph'') else Inr ()) after)
       (\<lambda>_. if length (gr_nodes g) \<ge> u32_MAX then Inl (Message ''graph node capacity exceeded'') else Inr ())"

definition graph_record :: "'c recorded_cmd \<Rightarrow> node list \<Rightarrow> 'c graph \<Rightarrow> 'c graph \<times> node" where
  "graph_record c after g =
     (g\<lparr>gr_nodes := gr_nodes g @
          [(c, if after = [] then None else Some (Max (set (map n_index after))))]\<rparr>,
      \<lparr>n_graph = gr_id g, n_index = length (gr_nodes g) mod 2 ^ 32\<rparr>)"

definition graph_fill ::
  "(gview \<Rightarrow> nat \<Rightarrow> 'c result) \<Rightarrow> 'c graph \<Rightarrow> node list \<Rightarrow> gview \<Rightarrow> nat \<Rightarrow> ('c graph \<times> node) result" where
  "graph_fill prepare g after dst pattern =
     and_then (validate_dependencies g after) (\<lambda>_.
     and_then (owns (gr_device g) (gv_owner dst)) (\<lambda>_.
     if gview_is_empty dst then Inl (Message ''empty graph fill'')
     else and_then (prepare dst pattern) (\<lambda>c.
       Inr (graph_record (Prepared c) after (retain_bindings [dst] g)))))"

definition graph_copy ::
  "(gview \<Rightarrow> gview \<Rightarrow> 'c result) \<Rightarrow> 'c graph \<Rightarrow> node list \<Rightarrow> gview \<Rightarrow> gview \<Rightarrow> ('c graph \<times> node) result" where
  "graph_copy prepare g after dst src =
     and_then (validate_dependencies g after) (\<lambda>_.
     and_then (owns (gr_device g) (gv_owner dst)) (\<lambda>_.
     and_then (owns (gr_device g) (gv_owner src)) (\<lambda>_.
     if gv_length dst \<noteq> gv_length src \<or> gview_is_empty dst
     then Inl (Message ''graph copy requires equal nonempty spans'')
     else and_then (prepare dst src) (\<lambda>c.
       Inr (graph_record (Prepared c) after (retain_bindings [dst, src] g))))))"

text \<open>The launch (kernel, grid, block and constants) is one value for \<open>prepare\<close>.\<close>

definition graph_dispatch ::
  "('l \<Rightarrow> gview list \<Rightarrow> 'c result) \<Rightarrow> 'c graph \<Rightarrow> node list \<Rightarrow> 'l \<Rightarrow> gview list \<Rightarrow> ('c graph \<times> node) result" where
  "graph_dispatch prepare g after launch bindings =
     and_then (validate_dependencies g after) (\<lambda>_.
     and_then (prepare launch bindings) (\<lambda>c.
       Inr (graph_record (Prepared c) after (retain_bindings bindings g))))"

definition graph_join :: "'c graph \<Rightarrow> node list \<Rightarrow> ('c graph \<times> node) result" where
  "graph_join g after =
     and_then (validate_dependencies g after) (\<lambda>_. Inr (graph_record Join after g))"


section \<open>Lowering\<close>

text \<open>
  The loop of \<open>finish_inner\<close>: \<open>completed\<close> is the index of the node in front of which the last
  barrier stands; a command gets a barrier when its highest predecessor is not before it.
\<close>

fun order_commands :: "nat \<Rightarrow> nat \<Rightarrow> ('c recorded_cmd \<times> nat option) list \<Rightarrow> ('c \<times> bool) list" where
  "order_commands index completed [] = []"
| "order_commands index completed ((Join, dep) # rest) = order_commands (Suc index) completed rest"
| "order_commands index completed ((Prepared c, dep) # rest) =
     (let barrier = (case dep of None \<Rightarrow> False | Some d \<Rightarrow> d \<ge> completed)
      in (c, barrier) # order_commands (Suc index) (if barrier then index else completed) rest)"

text \<open>
  \<open>finish_inner\<close>: a stream with PM4 compute and compute copies batches the flagged commands
  natively (\<open>batch\<close>); the other engines replay the commands one after the other.
\<close>

definition graph_finish ::
  "(('c \<times> bool) list \<Rightarrow> string list option \<Rightarrow> 'c list result) \<Rightarrow> bool \<Rightarrow> string list option \<Rightarrow> 'c graph \<Rightarrow> 'c list result" where
  "graph_finish batch pm4 labels g =
     (let ordered = order_commands 0 0 (gr_nodes g)
      in if pm4 then batch ordered labels
         else if labels \<noteq> None
         then Inl (Unsupported ''device graph profiling requires PM4 compute and compute copies'')
         else Inr (map fst ordered))"

text \<open>The number of commands among the first \<open>i\<close> nodes: the position of node \<open>i\<close>'s command.\<close>

definition is_prepared :: "'c recorded_cmd \<times> nat option \<Rightarrow> bool" where
  "is_prepared n \<longleftrightarrow> (case fst n of Prepared _ \<Rightarrow> True | Join \<Rightarrow> False)"

definition command_pos :: "('c recorded_cmd \<times> nat option) list \<Rightarrow> nat \<Rightarrow> nat" where
  "command_pos nodes i = length (filter is_prepared (take i nodes))"

lemma is_prepared_simps [simp]: "is_prepared (Prepared c, d)" "\<not> is_prepared (Join, d)"
  by (simp_all add: is_prepared_def)

lemma command_pos_simps [simp]:
  "command_pos nodes 0 = 0"
  "command_pos (n # nodes) (Suc i) = (if is_prepared n then 1 else 0) + command_pos nodes i"
  by (simp_all add: command_pos_def)

lemma command_pos_mono: "i \<le> j \<Longrightarrow> command_pos nodes i \<le> command_pos nodes j"
proof -
  assume "i \<le> j"
  then have "take i nodes = take i (take j nodes)" by (simp add: min_def)
  then have "filter is_prepared (take j nodes)
      = filter is_prepared (take i nodes) @ filter is_prepared (drop i (take j nodes))"
    by (metis append_take_drop_id filter_append)
  then show ?thesis by (simp add: command_pos_def)
qed

lemma order_commands_fst:
  "map fst (order_commands index completed nodes) = [c. (Prepared c, _) \<leftarrow> nodes]"
  by (induction index completed nodes rule: order_commands.induct) (auto simp: Let_def)

lemma order_commands_barrier:
  assumes "j < length nodes" "nodes ! j = (Prepared c, Some d)" "completed \<le> d" "d < index + j"
  shows "\<exists>m\<le>j. d < index + m \<and> is_prepared (nodes ! m)
    \<and> snd (order_commands index completed nodes ! command_pos nodes m)"
  using assms
proof (induction index completed nodes arbitrary: j rule: order_commands.induct)
  case (2 index completed dep rest)
  then obtain j' where j: "j = Suc j'" by (cases j) auto
  from "2.IH" [of j'] "2.prems" j obtain m where "m \<le> j'" "d < Suc index + m" "is_prepared (rest ! m)"
      "snd (order_commands (Suc index) completed rest ! command_pos rest m)" by auto
  then show ?case using j by (intro exI [of _ "Suc m"]) simp
next
  case (3 index completed c' dep rest)
  let ?b = "case dep of None \<Rightarrow> False | Some d \<Rightarrow> d \<ge> completed"
  show ?case
  proof (cases j)
    case 0
    with "3.prems" show ?thesis by (intro exI [of _ 0]) simp
  next
    case (Suc j')
    show ?thesis
    proof (cases "?b \<and> d < index")
      case True
      then show ?thesis by (intro exI [of _ 0]) (simp add: Let_def)
    next
      case False
      then have "(if ?b then index else completed) \<le> d" using "3.prems"(3) by auto
      with "3.IH" [OF refl, of j'] "3.prems" Suc obtain m where "m \<le> j'" "d < Suc index + m"
          "is_prepared (rest ! m)"
          "snd (order_commands (Suc index) (if ?b then index else completed) rest ! command_pos rest m)"
        by auto
      then show ?thesis using Suc by (intro exI [of _ "Suc m"]) (simp add: Let_def)
    qed
  qed
qed simp

text \<open>
  The recording invariant: predecessors precede their node. Every recording operation
  keeps it, because a node's predecessors are validated against the nodes recorded so far.
\<close>

definition graph_ok :: "'c graph \<Rightarrow> bool" where
  "graph_ok g \<longleftrightarrow> length (gr_nodes g) \<le> u32_MAX \<and>
     (\<forall>j<length (gr_nodes g). \<forall>d. snd (gr_nodes g ! j) = Some d \<longrightarrow> d < j)"

lemma graph_ok_owned: "graph_ok (owned_graph gid dev)"
  by (simp add: graph_ok_def owned_graph_def)

lemma retain_bindings_simps [simp]:
  "gr_nodes (retain_bindings vs g) = gr_nodes g" "gr_id (retain_bindings vs g) = gr_id g"
  "gr_device (retain_bindings vs g) = gr_device g"
  by (simp_all add: retain_bindings_def)

lemma validate_dependencies_ok:
  "validate_dependencies g after = Inr () \<longleftrightarrow>
     (\<forall>n\<in>set after. n_graph n = gr_id g \<and> n_index n < length (gr_nodes g)) \<and> length (gr_nodes g) < u32_MAX"
  by (auto simp: validate_dependencies_def and_then_Inr_iff try_all_ok not_le split: if_splits)

lemma graph_ok_record:
  assumes ok: "graph_ok g" and v: "validate_dependencies g after = Inr ()"
    and g': "gr_nodes g' = gr_nodes g"
  shows "graph_ok (fst (graph_record c after g'))"
proof -
  have "Max (set (map n_index after)) < length (gr_nodes g)" if "after \<noteq> []"
    using v that by (auto simp: validate_dependencies_ok)
  with ok v show ?thesis
    by (auto simp: graph_ok_def graph_record_def g' nth_append validate_dependencies_ok less_Suc_eq
        split: if_splits)
qed

lemma graph_record_okD:
  assumes "graph_ok g" "validate_dependencies g after = Inr ()"
  shows "graph_record c after (retain_bindings vs g) = (g', n) \<Longrightarrow> graph_ok g'"
    and "graph_record c after g = (g', n) \<Longrightarrow> graph_ok g'"
  using graph_ok_record [OF assms, of "retain_bindings vs g" c] graph_ok_record [OF assms, of g c]
  by auto

lemma graph_ops_ok:
  assumes "graph_ok g"
  shows "graph_fill pf g after dst p = Inr (g', n) \<Longrightarrow> graph_ok g'"
    and "graph_copy pc g after dst src = Inr (g', n) \<Longrightarrow> graph_ok g'"
    and "graph_dispatch pd g after l bs = Inr (g', n) \<Longrightarrow> graph_ok g'"
    and "graph_join g after = Inr (g', n) \<Longrightarrow> graph_ok g'"
  by (auto simp: graph_fill_def graph_copy_def graph_dispatch_def graph_join_def and_then_Inr_iff
      split: if_splits intro: graph_record_okD [OF assms])

lemma order_commands_separates:
  assumes "j < length nodes" "nodes ! j = (Prepared c, Some d)" "d < j"
  shows "\<exists>k. command_pos nodes (Suc d) \<le> k \<and> k \<le> command_pos nodes j \<and> snd (order_commands 0 0 nodes ! k)"
proof -
  from order_commands_barrier [OF assms(1,2), of 0 0] assms(3) obtain m
    where m: "m \<le> j" "d < m" "snd (order_commands 0 0 nodes ! command_pos nodes m)" by auto
  from m(1,2) show ?thesis
    by (intro exI [of _ "command_pos nodes m"]) (auto simp: m(3) intro: command_pos_mono)
qed

text \<open>
  A graph that records inferred dependency lists: node \<open>j\<close> carries the highest of its list.
  Without joins a node's command stands at the node's own index.
\<close>

definition highest :: "nat list \<Rightarrow> nat option" where
  "highest ds = (if ds = [] then None else Some (Max (set ds)))"

lemma all_prepared_pos:
  "\<forall>n\<in>set nodes. is_prepared n \<Longrightarrow> i \<le> length nodes \<Longrightarrow> command_pos nodes i = i"
  unfolding command_pos_def by (subst filter_True) (auto dest: in_set_takeD)

lemma highest_barrier:
  assumes ok: "graph_ok g" and prep: "\<forall>n\<in>set (gr_nodes g). is_prepared n"
    and deps: "map snd (gr_nodes g) = map highest dss" and j: "j < length dss" and d: "d \<in> set (dss ! j)"
  shows "\<exists>k. d < k \<and> k \<le> j \<and> snd (order_commands 0 0 (gr_nodes g) ! k)"
proof -
  let ?nodes = "gr_nodes g"
  have len: "length ?nodes = length dss" using deps by (metis length_map)
  have "map snd ?nodes ! j = map highest dss ! j" using deps by simp
  then have "snd (?nodes ! j) = highest (dss ! j)" using j len by simp
  moreover obtain D where "highest (dss ! j) = Some D" and dD: "d \<le> D"
    using d by (cases "dss ! j = []") (auto simp: highest_def)
  ultimately have D: "snd (?nodes ! j) = Some D" "d \<le> D" by simp_all
  obtain c where c: "?nodes ! j = (Prepared c, Some D)"
    using D(1) j len prep nth_mem [of j ?nodes]
    by (cases "?nodes ! j"; cases "fst (?nodes ! j)") (auto simp: is_prepared_def)
  have Dj: "D < j" using ok j D(1) len by (simp add: graph_ok_def)
  from order_commands_separates [OF _ c Dj] j len obtain k where
    "command_pos ?nodes (Suc D) \<le> k" "k \<le> command_pos ?nodes j" "snd (order_commands 0 0 ?nodes ! k)"
    by auto
  moreover have "command_pos ?nodes (Suc D) = Suc D" "command_pos ?nodes j = j"
    using prep Dj j len by (auto intro!: all_prepared_pos)
  ultimately show ?thesis using D(2) by (intro exI [of _ k]) simp
qed

text \<open>
  C7: the lowering of a recorded graph places barriers that respect every dependency. The
  finished list holds the prepared commands in recording order, and whenever node \<open>j\<close>
  was recorded after the nodes \<open>after\<close>, each of them, payload or join, has all its commands
  before some barrier that stands at or before the command of \<open>j\<close>.
\<close>

theorem finish_separates_dependencies:
  assumes "graph_ok g" and "j < length (gr_nodes g)" and "gr_nodes g ! j = (Prepared c, Some d)"
  shows "map fst (order_commands 0 0 (gr_nodes g)) = [c. (Prepared c, _) \<leftarrow> gr_nodes g]
    \<and> (\<forall>i\<le>d. \<exists>k. command_pos (gr_nodes g) (Suc i) \<le> k \<and> k \<le> command_pos (gr_nodes g) j
          \<and> snd (order_commands 0 0 (gr_nodes g) ! k))"
proof (intro conjI allI impI)
  show "map fst (order_commands 0 0 (gr_nodes g)) = [c. (Prepared c, _) \<leftarrow> gr_nodes g]"
    by (rule order_commands_fst)
  fix i assume i: "i \<le> d"
  have "d < j" using assms by (auto simp: graph_ok_def)
  from order_commands_separates [OF assms(2,3) this] i
  show "\<exists>k. command_pos (gr_nodes g) (Suc i) \<le> k \<and> k \<le> command_pos (gr_nodes g) j
      \<and> snd (order_commands 0 0 (gr_nodes g) ! k)"
    by (meson Suc_le_mono command_pos_mono order_trans)
qed

definition demo_graph :: "nat graph" where
  "demo_graph = (owned_graph 0 0)\<lparr>gr_nodes :=
     [(Prepared 10, None), (Prepared 11, None), (Join, Some 1), (Prepared 12, Some 2), (Prepared 13, Some 0)]\<rparr>"

lemma demo_graph_lowered:
  "order_commands 0 0 (gr_nodes demo_graph) = [(10, False), (11, False), (12, True), (13, False)]"
  by (simp add: demo_graph_def)

theorem finish_separates_dependencies_witness:
  "\<exists>k. command_pos (gr_nodes demo_graph) (Suc 1) \<le> k \<and> k \<le> command_pos (gr_nodes demo_graph) 3
    \<and> snd (order_commands 0 0 (gr_nodes demo_graph) ! k)"
proof -
  have "graph_ok demo_graph"
    by (auto simp: graph_ok_def demo_graph_def u32_MAX_def less_Suc_eq nth_Cons')
  moreover have "gr_nodes demo_graph ! 3 = (Prepared 12, Some 2)" "3 < length (gr_nodes demo_graph)"
    by (simp_all add: demo_graph_def)
  ultimately show ?thesis
    using finish_separates_dependencies [of demo_graph 3 12 2] by auto
qed

end
