(* ===== verification/Access_Graph.thy ===== *)
theory Access_Graph
  imports Dependency_Frontier Stream_Graph
begin

text \<open>
  \<^verbatim>\<open>src/src/access_graph.rs\<close>: GPU graphs whose dependency lists are inferred from the
  declared accesses. Each recording first asks the frontier for the dependencies of the
  new node and then records it on the underlying graph; the frontier has already changed
  when that second step fails. The theory composes the frontier with the lowering of
  \<open>Stream_Graph\<close>: when every recording succeeds, conflicting operations are separated by a
  barrier; after a failed recording they need not be.
\<close>


section \<open>Recording with inferred dependencies\<close>

record access_view =
  av_view :: gview
  av_access :: access

definition read_view :: "gview \<Rightarrow> access_view" where
  "read_view v = \<lparr>av_view = v, av_access = Read\<rparr>"

definition write_view :: "gview \<Rightarrow> access_view" where
  "write_view v = \<lparr>av_view = v, av_access = Write\<rparr>"

definition read_write_view :: "gview \<Rightarrow> access_view" where
  "read_write_view v = \<lparr>av_view = v, av_access = ReadWrite\<rparr>"

record 'c access_graph =
  ag_graph :: "'c graph"
  ag_frontier :: frontier
  ag_nodes :: "node list"

definition new_access_graph :: "nat \<Rightarrow> nat \<Rightarrow> 'c access_graph" where
  "new_access_graph gid dev =
     \<lparr>ag_graph = owned_graph gid dev, ag_frontier = Map.empty, ag_nodes = []\<rparr>"

definition view_use :: "access_view \<Rightarrow> iuse" where
  "view_use b = \<lparr>u_alloc = gb_addr (gv_owner (av_view b)), u_start = gv_offset (av_view b),
     u_end = saturating_add (gv_offset (av_view b)) (gv_length (av_view b)), u_access = av_access b\<rparr>"

definition ag_dependencies :: "'c access_graph \<Rightarrow> access_view list \<Rightarrow> 'c access_graph \<times> node list" where
  "ag_dependencies ag uses =
     (let (f, ds) = dependencies (ag_frontier ag) (length (ag_nodes ag)) (map view_use uses)
      in (ag\<lparr>ag_frontier := f\<rparr>, map (\<lambda>d. ag_nodes ag ! d) ds))"

text \<open>The common tail: an error leaves the graph and the node list as they are.\<close>

definition ag_record :: "'c access_graph \<Rightarrow> ('c graph \<times> node) result \<Rightarrow> 'c access_graph \<times> node result" where
  "ag_record ag r =
     (case r of
        Inl e \<Rightarrow> (ag, Inl e)
      | Inr (g, n) \<Rightarrow> (ag\<lparr>ag_graph := g, ag_nodes := ag_nodes ag @ [n]\<rparr>, Inr n))"

definition ag_fill ::
  "(gview \<Rightarrow> nat \<Rightarrow> 'c result) \<Rightarrow> 'c access_graph \<Rightarrow> gview \<Rightarrow> nat \<Rightarrow> 'c access_graph \<times> node result" where
  "ag_fill prepare ag dst pattern =
     (let (ag1, after) = ag_dependencies ag [write_view dst]
      in ag_record ag1 (graph_fill prepare (ag_graph ag1) after dst pattern))"

definition ag_copy ::
  "(gview \<Rightarrow> gview \<Rightarrow> 'c result) \<Rightarrow> 'c access_graph \<Rightarrow> gview \<Rightarrow> gview \<Rightarrow> 'c access_graph \<times> node result" where
  "ag_copy prepare ag dst src =
     (let (ag1, after) = ag_dependencies ag [read_view src, write_view dst]
      in ag_record ag1 (graph_copy prepare (ag_graph ag1) after dst src))"

definition ag_dispatch ::
  "('l \<Rightarrow> gview list \<Rightarrow> 'c result) \<Rightarrow> 'c access_graph \<Rightarrow> 'l \<Rightarrow> access_view list \<Rightarrow> 'c access_graph \<times> node result" where
  "ag_dispatch prepare ag launch bindings =
     (let (ag1, after) = ag_dependencies ag bindings
      in ag_record ag1 (graph_dispatch prepare (ag_graph ag1) after launch (map av_view bindings)))"

definition ag_finish ::
  "(('c \<times> bool) list \<Rightarrow> string list option \<Rightarrow> 'c list result) \<Rightarrow> bool \<Rightarrow> 'c access_graph \<Rightarrow> 'c list result" where
  "ag_finish batch pm4 ag = graph_finish batch pm4 None (ag_graph ag)"

definition ag_len :: "'c access_graph \<Rightarrow> nat" where
  "ag_len ag = length (ag_nodes ag)"

definition ag_is_empty :: "'c access_graph \<Rightarrow> bool" where
  "ag_is_empty ag \<longleftrightarrow> ag_nodes ag = []"


section \<open>Successful recordings\<close>

text \<open>All states reachable by recordings that return a node, with the accesses recorded.\<close>

inductive recording ::
  "(gview \<Rightarrow> nat \<Rightarrow> 'c result) \<Rightarrow> (gview \<Rightarrow> gview \<Rightarrow> 'c result) \<Rightarrow> ('l \<Rightarrow> gview list \<Rightarrow> 'c result)
    \<Rightarrow> 'c access_graph \<Rightarrow> access_view list list \<Rightarrow> bool"
  for pf pc pd where
  rec_start: "recording pf pc pd (new_access_graph gid dev) []"
| rec_fill: "recording pf pc pd ag ops \<Longrightarrow> ag_fill pf ag dst p = (ag', Inr n)
    \<Longrightarrow> recording pf pc pd ag' (ops @ [[write_view dst]])"
| rec_copy: "recording pf pc pd ag ops \<Longrightarrow> ag_copy pc ag dst src = (ag', Inr n)
    \<Longrightarrow> recording pf pc pd ag' (ops @ [[read_view src, write_view dst]])"
| rec_dispatch: "recording pf pc pd ag ops \<Longrightarrow> ag_dispatch pd ag launch bindings = (ag', Inr n)
    \<Longrightarrow> recording pf pc pd ag' (ops @ [bindings])"

abbreviation ops_uses :: "access_view list list \<Rightarrow> iuse list list" where
  "ops_uses ops \<equiv> map (map view_use) ops"

text \<open>
  A graph \<open>g\<close> with frontier \<open>f\<close> and node list \<open>nodes\<close> mirrors the recorded accesses \<open>uss\<close>:
  the nodes are the graph's nodes in order, and each carries its highest dependency.
\<close>

definition mirrors :: "'c graph \<Rightarrow> frontier \<Rightarrow> node list \<Rightarrow> iuse list list \<Rightarrow> bool" where
  "mirrors g f nodes uss \<longleftrightarrow>
     graph_ok g \<and> length (gr_nodes g) = length uss \<and>
     nodes = map (\<lambda>i. \<lparr>n_graph = gr_id g, n_index = i\<rparr>) [0..<length uss] \<and>
     f = record_state dependencies Map.empty 0 uss \<and>
     map snd (gr_nodes g) = map highest (recorded uss) \<and>
     (\<forall>n\<in>set (gr_nodes g). is_prepared n)"

lemma mirrors_start: "gr_nodes g = [] \<Longrightarrow> mirrors g Map.empty [] []"
  by (simp add: mirrors_def graph_ok_def recorded_def)

lemma mirrors_record:
  assumes m: "mirrors g f nodes uss"
    and deps: "dependencies f (length nodes) us = (f1, ds)"
    and val: "validate_dependencies g (map (\<lambda>d. nodes ! d) ds) = Inr ()"
    and h: "gr_nodes h = gr_nodes g" "gr_id h = gr_id g"
    and rec: "graph_record (Prepared c) (map (\<lambda>d. nodes ! d) ds) h = (g1, n)"
  shows "mirrors g1 f1 (nodes @ [n]) (uss @ [us])"
proof -
  have len: "length nodes = length uss" using m by (simp add: mirrors_def)
  have fr: "f = record_state dependencies Map.empty 0 uss" using m by (simp add: mirrors_def)
  have ds: "f1 = fst (dependencies f (length uss) us)" "ds = snd (dependencies f (length uss) us)"
    using deps by (simp_all add: len)
  have "d < length uss" if "d \<in> set ds" for d
    using recorded_edgeD [of "length uss" "uss @ [us]" d] that
    by (simp add: recorded_snoc nth_append ds fr)
  then have idx: "map n_index (map (\<lambda>d. nodes ! d) ds) = ds"
    using m by (auto simp: mirrors_def intro!: nth_equalityI)
  have small: "length uss < 2 ^ 32"
    using val m by (simp add: validate_dependencies_ok mirrors_def u32_MAX_def)
  have "set (map n_index (map (\<lambda>d. nodes ! d) ds)) = set ds" using idx by simp
  then have g': "gr_nodes g1 = gr_nodes g @ [(Prepared c, highest ds)]"
      "gr_id g1 = gr_id g" "n = \<lparr>n_graph = gr_id g, n_index = length uss\<rparr>"
    using rec m small h by (auto simp: graph_record_def highest_def mirrors_def simp del: map_map)
  have "graph_ok g1"
    using graph_ok_record [OF _ val h(1), of "Prepared c"] m rec by (simp add: mirrors_def)
  with m g' show ?thesis
    by (auto simp: mirrors_def record_state_snoc recorded_snoc ds fr)
qed

lemma mirrors_ops:
  assumes m: "mirrors g f nodes uss" and d: "dependencies f (length nodes) us = (f1, ds)"
  shows "graph_fill pf g (map (\<lambda>d. nodes ! d) ds) dst x = Inr (g1, n) \<Longrightarrow> mirrors g1 f1 (nodes @ [n]) (uss @ [us])"
    and "graph_copy pc g (map (\<lambda>d. nodes ! d) ds) dst src = Inr (g1, n) \<Longrightarrow> mirrors g1 f1 (nodes @ [n]) (uss @ [us])"
    and "graph_dispatch pd g (map (\<lambda>d. nodes ! d) ds) l vs = Inr (g1, n) \<Longrightarrow> mirrors g1 f1 (nodes @ [n]) (uss @ [us])"
  using mirrors_record [OF m d, where h = "retain_bindings [dst] g"]
    mirrors_record [OF m d, where h = "retain_bindings [dst, src] g"]
    mirrors_record [OF m d, where h = "retain_bindings vs g"]
  by (auto simp: graph_fill_def graph_copy_def graph_dispatch_def and_then_Inr_iff split: if_splits)

lemma recording_mirrors:
  "recording pf pc pd ag ops \<Longrightarrow> mirrors (ag_graph ag) (ag_frontier ag) (ag_nodes ag) (ops_uses ops)"
proof (induction rule: recording.induct)
  case (rec_start gid dev)
  show ?case by (simp add: new_access_graph_def mirrors_start owned_graph_def)
next
  case (rec_fill ag ops dst p ag' n)
  obtain f ds where d: "dependencies (ag_frontier ag) (length (ag_nodes ag)) (map view_use [write_view dst]) = (f, ds)"
    by fastforce
  with rec_fill.hyps(2) mirrors_ops(1) [OF rec_fill.IH d] show ?case
    by (auto simp: ag_fill_def ag_dependencies_def ag_record_def split: sum.splits prod.splits)
next
  case (rec_copy ag ops dst src ag' n)
  obtain f ds where d: "dependencies (ag_frontier ag) (length (ag_nodes ag))
      (map view_use [read_view src, write_view dst]) = (f, ds)" by fastforce
  with rec_copy.hyps(2) mirrors_ops(2) [OF rec_copy.IH d] show ?case
    by (auto simp: ag_copy_def ag_dependencies_def ag_record_def split: sum.splits prod.splits)
next
  case (rec_dispatch ag ops launch bindings ag' n)
  obtain f ds where d: "dependencies (ag_frontier ag) (length (ag_nodes ag)) (map view_use bindings) = (f, ds)"
    by fastforce
  with rec_dispatch.hyps(2) mirrors_ops(3) [OF rec_dispatch.IH d] show ?case
    by (auto simp: ag_dispatch_def ag_dependencies_def ag_record_def split: sum.splits prod.splits)
qed

lemma mirrors_barrier:
  assumes m: "mirrors g f nodes uss" and ij: "i < j" "j < length uss" and c: "ops_conflict (uss ! i) (uss ! j)"
  shows "\<exists>k. i < k \<and> k \<le> j \<and> snd (order_commands 0 0 (gr_nodes g) ! k)"
proof -
  obtain h where h: "(i, h) \<in> dep_edges (recorded uss)" "h \<le> j"
    using recorded_first_edge [OF ij c] by blast
  have "\<exists>k. i < k \<and> k \<le> h \<and> snd (order_commands 0 0 (gr_nodes g) ! k)"
    using m h(1) by (intro highest_barrier [where dss = "recorded uss"]) (auto simp: mirrors_def dep_edges_def)
  with h(2) show ?thesis by fastforce
qed

text \<open>The lowered list of a graph of native commands has one command per recorded operation.\<close>

lemma mirrors_command_count:
  assumes m: "mirrors g f nodes uss"
  shows "length (order_commands 0 0 (gr_nodes g)) = length uss"
proof -
  have "length [c. (Prepared c, _) \<leftarrow> ns] = length ns" if "\<forall>n\<in>set ns. is_prepared n" for ns :: "('a recorded_cmd \<times> nat option) list"
    using that by (induction ns) (auto simp: is_prepared_def split: recorded_cmd.splits)
  moreover have "length (order_commands 0 0 (gr_nodes g)) = length [c. (Prepared c, _) \<leftarrow> gr_nodes g]"
    using arg_cong [OF order_commands_fst [of 0 0 "gr_nodes g"], of length] by simp
  ultimately show ?thesis using m by (simp add: mirrors_def)
qed

text \<open>
  Access graphs order conflicting operations on the device. After any sequence of
  successful recordings, whenever operation \<open>i\<close> precedes operation \<open>j\<close>, both touch a common
  byte of one allocation and at least one writes it, the finished command list has a
  barrier after command \<open>i\<close> and at or before command \<open>j\<close>.
\<close>

lemma access_graph_barriers:
  assumes "recording pf pc pd ag ops" and "i < j" and "j < length ops"
    and "ops_conflict (map view_use (ops ! i)) (map view_use (ops ! j))"
  shows "\<exists>k. i < k \<and> k \<le> j \<and> snd (order_commands 0 0 (gr_nodes (ag_graph ag)) ! k)"
  using mirrors_barrier [OF recording_mirrors [OF assms(1)] assms(2)] assms(2-) by simp

definition demo_gbuf :: "usize \<Rightarrow> gpu_buffer" where
  "demo_gbuf a = \<lparr>gb_addr = a, gb_native = a, gb_bytes = 64, gb_device = 0, gb_reservation = None\<rparr>"

definition demo_fill :: "gview \<Rightarrow> nat \<Rightarrow> nat result" where
  "demo_fill v p = Inr p"

definition demo_copy :: "gview \<Rightarrow> gview \<Rightarrow> nat result" where
  "demo_copy d s = Inr 100"

definition demo_dispatch :: "nat \<Rightarrow> gview list \<Rightarrow> nat result" where
  "demo_dispatch l vs = Inr l"

definition ag_use :: "nat \<Rightarrow> nat \<Rightarrow> access \<Rightarrow> iuse" where
  "ag_use a len acc = \<lparr>u_alloc = a, u_start = 0, u_end = len, u_access = acc\<rparr>"

lemma ag_view_use [simp]:
  "view_use (write_view (binding (demo_gbuf a))) = ag_use a 64 Write"
  "view_use (read_view (binding (demo_gbuf a))) = ag_use a 64 Read"
  "view_use (read_view ((binding (demo_gbuf a))\<lparr>gv_length := 16\<rparr>)) = ag_use a 16 Read"
  by (simp_all add: view_use_def write_view_def read_view_def binding_def demo_gbuf_def ag_use_def
      saturating_add_def usize_MAX_def)

definition demo_front :: frontier where
  "demo_front = fst (dependencies Map.empty 0 [ag_use 8 64 Write])"

definition demo_front_failed :: frontier where
  "demo_front_failed = fst (dependencies demo_front 1 [ag_use 9 16 Read, ag_use 8 64 Write])"

definition demo_front_copy :: frontier where
  "demo_front_copy = fst (dependencies demo_front 1 [ag_use 8 64 Read, ag_use 9 64 Write])"

definition demo_front_retry :: frontier where
  "demo_front_retry = fst (dependencies demo_front_failed 1 [ag_use 8 64 Read, ag_use 9 64 Write])"

lemma demo_dependencies:
  "dependencies Map.empty 0 [ag_use 8 64 Write] = (demo_front, [])"
  "dependencies demo_front 1 [ag_use 8 64 Read, ag_use 9 64 Write]
     = (demo_front_copy, [0])"
  "dependencies demo_front 1 [ag_use 9 16 Read, ag_use 8 64 Write] = (demo_front_failed, [0])"
  "dependencies demo_front_failed 1 [ag_use 8 64 Read, ag_use 9 64 Write]
     = (demo_front_retry, [])"
proof -
  have "snd (dependencies Map.empty 0 [ag_use 8 64 Write]) = []"
    "snd (dependencies demo_front 1 [ag_use 8 64 Read, ag_use 9 64 Write]) = [0]"
    "snd (dependencies demo_front 1 [ag_use 9 16 Read, ag_use 8 64 Write]) = [0]"
    "snd (dependencies demo_front_failed 1 [ag_use 8 64 Read, ag_use 9 64 Write]) = []"
    by code_simp+
  then show "dependencies Map.empty 0 [ag_use 8 64 Write] = (demo_front, [])"
    "dependencies demo_front 1 [ag_use 8 64 Read, ag_use 9 64 Write]
       = (demo_front_copy, [0])"
    "dependencies demo_front 1 [ag_use 9 16 Read, ag_use 8 64 Write] = (demo_front_failed, [0])"
    "dependencies demo_front_failed 1 [ag_use 8 64 Read, ag_use 9 64 Write]
       = (demo_front_retry, [])"
    by (simp_all add: demo_front_def demo_front_failed_def demo_front_copy_def demo_front_retry_def prod_eq_iff)
qed

definition demo_ag1 :: "nat access_graph" where
  "demo_ag1 = fst (ag_fill demo_fill (new_access_graph 3 0) (binding (demo_gbuf 8)) 7)"

definition demo_ag2 :: "nat access_graph \<times> node result" where
  "demo_ag2 = ag_copy demo_copy demo_ag1 (binding (demo_gbuf 9)) (binding (demo_gbuf 8))"

lemmas demo_recording_simps =
  ag_fill_def ag_copy_def ag_dependencies_def ag_record_def graph_fill_def graph_copy_def
  validate_dependencies_def owns_def gview_is_empty_def graph_record_def demo_fill_def demo_copy_def
  new_access_graph_def owned_graph_def demo_dependencies u32_MAX_def
  demo_dependencies [unfolded One_nat_def]

lemma demo_gbuf_simps [simp]:
  "gv_owner (binding b) = b" "gv_length (binding b) = gb_bytes b"
  "gb_device (demo_gbuf a) = 0" "gb_bytes (demo_gbuf a) = 64"
  by (simp_all add: binding_def demo_gbuf_def)

lemma demo_fill_result:
  "ag_fill demo_fill (new_access_graph 3 0) (binding (demo_gbuf 8)) 7
     = (demo_ag1, Inr \<lparr>n_graph = 3, n_index = 0\<rparr>)"
  by (simp add: demo_ag1_def demo_recording_simps)

lemma demo_ag1_simps:
  "gr_nodes (ag_graph demo_ag1) = [(Prepared 7, None)]" "gr_id (ag_graph demo_ag1) = 3"
  "gr_device (ag_graph demo_ag1) = 0" "ag_frontier demo_ag1 = demo_front"
  "ag_nodes demo_ag1 = [\<lparr>n_graph = 3, n_index = 0\<rparr>]"
  by (simp_all add: demo_ag1_def demo_recording_simps)

lemma demo_copy_result:
  "snd demo_ag2 = Inr \<lparr>n_graph = 3, n_index = 1\<rparr>"
  by (simp add: demo_ag2_def demo_recording_simps demo_ag1_simps)

lemma demo_recording:
  "recording demo_fill demo_copy demo_dispatch (fst demo_ag2)
     ([[write_view (binding (demo_gbuf 8))]] @ [[read_view (binding (demo_gbuf 8)), write_view (binding (demo_gbuf 9))]])"
proof (rule rec_copy)
  show "recording demo_fill demo_copy demo_dispatch demo_ag1 [[write_view (binding (demo_gbuf 8))]]"
    using rec_fill [OF rec_start demo_fill_result, of demo_copy demo_dispatch] by simp
  show "ag_copy demo_copy demo_ag1 (binding (demo_gbuf 9)) (binding (demo_gbuf 8))
      = (fst demo_ag2, Inr \<lparr>n_graph = 3, n_index = 1\<rparr>)"
    using demo_copy_result by (simp add: demo_ag2_def prod_eq_iff)
qed

lemma demo_graph_barrier:
  "\<exists>k. 0 < k \<and> k \<le> 1 \<and> snd (order_commands 0 0 (gr_nodes (ag_graph (fst demo_ag2))) ! k)"
proof -
  have "ops_conflict [ag_use 8 64 Write] [ag_use 8 64 Read, ag_use 9 64 Write]"
    by code_simp
  then show ?thesis
    using access_graph_barriers [OF demo_recording, of 0 1] by simp
qed

definition retry_ag2 :: "nat access_graph \<times> node result" where
  "retry_ag2 = ag_copy demo_copy demo_ag1 (binding (demo_gbuf 8)) ((binding (demo_gbuf 9))\<lparr>gv_length := 16\<rparr>)"

definition retry_ag3 :: "nat access_graph \<times> node result" where
  "retry_ag3 = ag_copy demo_copy (fst retry_ag2) (binding (demo_gbuf 9)) (binding (demo_gbuf 8))"

lemma retry_ag2_eq:
  "retry_ag2 = (demo_ag1\<lparr>ag_frontier := demo_front_failed\<rparr>,
     Inl (Message ''graph copy requires equal nonempty spans''))"
  by (simp add: retry_ag2_def demo_recording_simps demo_ag1_simps)

lemma retry_ag3_simps:
  "is_ok (snd retry_ag3)"
  "gr_nodes (ag_graph (fst retry_ag3)) = [(Prepared 7, None), (Prepared 100, None)]"
  by (simp_all add: retry_ag3_def retry_ag2_eq demo_recording_simps demo_ag1_simps)

text \<open>
  A failed recording breaks this order. The frontier is updated before the node is
  recorded, so when the recording fails (here a copy with unequal spans) the failed access
  stays in the frontier under the index that the next operation gets. The frontier then takes it
  for that operation's own access and drops it: a later copy that reads the buffer a recorded fill wrote
  is recorded without any dependency, and the finished list has no barrier between the two.
\<close>

lemma failed_recording_loses_order:
  "snd retry_ag2 = Inl (Message ''graph copy requires equal nonempty spans'')
    \<and> is_ok (snd retry_ag3)
    \<and> ops_conflict [view_use (write_view (binding (demo_gbuf 8)))]
        [view_use (read_view (binding (demo_gbuf 8))), view_use (write_view (binding (demo_gbuf 9)))]
    \<and> gr_nodes (ag_graph (fst retry_ag3)) = [(Prepared 7, None), (Prepared 100, None)]
    \<and> order_commands 0 0 (gr_nodes (ag_graph (fst retry_ag3))) = [(7, False), (100, False)]"
proof -
  have "ops_conflict [ag_use 8 64 Write] [ag_use 8 64 Read, ag_use 9 64 Write]"
    by code_simp
  then show ?thesis by (simp add: retry_ag2_eq retry_ag3_simps)
qed

end
