(* ===== verification/Launch_Constants.thy ===== *)
theory Launch_Constants
  imports HRX_Prelude
begin

text \<open>
  Launch parameters of \<^verbatim>\<open>src/src/runtime.rs\<close>: validation of grid and block dimensions against
  the device limit and the compiled workgroup size, and the 256-byte block of packed scalar
  constants. Bytes are natural numbers below 256; a scalar is its little-endian
  byte sequence at its explicit width.
\<close>


section \<open>Launch dimensions\<close>

type_synonym dims = "nat \<times> nat \<times> nat"

definition dims_list :: "dims \<Rightarrow> nat list" where
  "dims_list d = (case d of (x, y, z) \<Rightarrow> [x, y, z])"

text \<open>\<open>try_fold\<close> with a checked 32-bit multiplication.\<close>

fun checked_product :: "nat \<Rightarrow> nat list \<Rightarrow> nat option" where
  "checked_product n [] = Some n"
| "checked_product n (b # bs) = (if n * b < 2 ^ 32 then checked_product (n * b) bs else None)"

definition validate_launch :: "dims \<Rightarrow> dims \<Rightarrow> unit result" where
  "validate_launch grid block =
     (if 0 \<in> set (dims_list grid) \<or> 0 \<in> set (dims_list block)
         \<or> (case checked_product 1 (dims_list block) of None \<Rightarrow> True | Some n \<Rightarrow> n > 1024)
      then Inl (Message ''invalid GPU launch dimensions'') else Inr ())"

definition show_dims :: "dims \<Rightarrow> string" where
  "show_dims d = (case d of (x, y, z) \<Rightarrow>
     ''['' @ show_nat x @ '', '' @ show_nat y @ '', '' @ show_nat z @ '']'')"

definition validate_export_launch :: "dims \<Rightarrow> dims \<Rightarrow> dims \<Rightarrow> unit result" where
  "validate_export_launch compiled grid block =
     and_then (validate_launch grid block) (\<lambda>_.
       if \<exists>(expected, actual)\<in>set (zip (dims_list compiled) (dims_list block)). expected \<noteq> 0 \<and> expected \<noteq> actual
       then Inl (Message (''workgroup size '' @ show_dims block @ '' disagrees with compiled size '' @ show_dims compiled))
       else Inr ())"

lemma checked_product_eq:
  "0 \<notin> set bs \<Longrightarrow> n < 2 ^ 32 \<Longrightarrow>
     checked_product n bs = (if n * prod_list bs < 2 ^ 32 then Some (n * prod_list bs) else None)"
proof (induction bs arbitrary: n)
  case (Cons b bs)
  have "0 < prod_list bs" using Cons.prems by (induction bs) auto
  then have le: "n * b \<le> n * (b * prod_list bs)" by (cases "prod_list bs") simp_all
  show ?case
  proof (cases "n * b < 2 ^ 32")
    case True
    then show ?thesis using Cons by (simp add: mult.assoc)
  next
    case False
    with le have "\<not> n * (b * prod_list bs) < 2 ^ 32" by linarith
    with False show ?thesis by simp
  qed
qed simp

text \<open>
  An accepted launch fits the device and the compiled kernel, and nothing else is
  rejected: every grid and block dimension is positive, a workgroup has at most 1024 work items even
  when the product of the dimensions does not fit 32 bits, and every dimension fixed at
  compilation is the one requested.
\<close>

lemma launch_accepted_iff:
  "validate_export_launch (c1, c2, c3) (g1, g2, g3) (b1, b2, b3) = Inr () \<longleftrightarrow>
     0 < g1 \<and> 0 < g2 \<and> 0 < g3 \<and> 0 < b1 \<and> 0 < b2 \<and> 0 < b3 \<and> b1 * b2 * b3 \<le> 1024
     \<and> (c1 = 0 \<or> c1 = b1) \<and> (c2 = 0 \<or> c2 = b2) \<and> (c3 = 0 \<or> c3 = b3)"
proof -
  have *: "(case checked_product 1 [b1, b2, b3] of None \<Rightarrow> True | Some n \<Rightarrow> n > 1024) \<longleftrightarrow> b1 * b2 * b3 > 1024"
    if "0 < b1" "0 < b2" "0 < b3"
    using checked_product_eq [of "[b1, b2, b3]" 1] that by (simp add: mult.assoc del: checked_product.simps)
  show ?thesis
    using * by (auto simp: validate_export_launch_def validate_launch_def dims_list_def and_then_Inr_iff
        simp del: checked_product.simps split: if_splits)
qed


section \<open>Constant blocks\<close>

record constants =
  cb_bytes :: "nat list"
  cb_len :: usize

definition constants_new :: constants where
  "constants_new = \<lparr>cb_bytes = replicate 256 0, cb_len = 0\<rparr>"

text \<open>\<open>copy_from_slice\<close> into a subrange.\<close>

definition splice :: "usize \<Rightarrow> 'a list \<Rightarrow> 'a list \<Rightarrow> 'a list" where
  "splice at bs xs = take at xs @ bs @ drop (at + length bs) xs"

definition constants_push :: "nat list \<Rightarrow> constants \<Rightarrow> constants result" where
  "constants_push bytes c =
     and_then (checked_span (cb_len c) (length bytes) (length (cb_bytes c))) (\<lambda>_.
       Inr \<lparr>cb_bytes = splice (cb_len c) bytes (cb_bytes c), cb_len = cb_len c + length bytes\<rparr>)"

definition from_bytes :: "nat list \<Rightarrow> constants result" where
  "from_bytes bytes =
     and_then (checked_span 0 (length bytes) (length (cb_bytes constants_new))) (\<lambda>_.
       Inr \<lparr>cb_bytes = splice 0 bytes (cb_bytes constants_new), cb_len = length bytes\<rparr>)"

definition as_bytes :: "constants \<Rightarrow> nat list" where
  "as_bytes c = take (cb_len c) (cb_bytes c)"

definition to_le_bytes :: "nat \<Rightarrow> nat \<Rightarrow> nat list" where
  "to_le_bytes width x = map (\<lambda>i. x div 256 ^ i mod 256) [0..<width]"

fun push_all :: "nat \<Rightarrow> nat list \<Rightarrow> constants \<Rightarrow> constants result" where
  "push_all width [] c = Inr c"
| "push_all width (x # xs) c = and_then (constants_push (to_le_bytes width x) c) (push_all width xs)"

text \<open>\<open>Constants::indices\<close>, for an export with \<open>nbytes\<close> constant bytes and 32-bit values.\<close>

definition constants_indices :: "nat \<Rightarrow> nat list \<Rightarrow> constants result" where
  "constants_indices nbytes values =
     (if values = []
      then if nbytes \<noteq> 0 then Inl (Message ''missing index constants'') else Inr constants_new
      else if nbytes = length values * 4 then push_all 4 values constants_new
      else if nbytes = length values * 8 then push_all 8 values constants_new
      else Inl (Message ''export is not a homogeneous 32/64-bit index list''))"

text \<open>A block never exceeds its capacity of 256 bytes.\<close>

definition constants_ok :: "constants \<Rightarrow> bool" where
  "constants_ok c \<longleftrightarrow> length (cb_bytes c) = 256 \<and> cb_len c \<le> 256"

definition from_le_bytes :: "nat list \<Rightarrow> nat" where
  "from_le_bytes bs = (\<Sum>i<length bs. bs ! i * 256 ^ i)"

lemma constants_new_ok [simp, inv_intros]: "constants_ok constants_new" "as_bytes constants_new = []"
  by (simp_all add: constants_ok_def constants_new_def as_bytes_def)

lemma constants_push_Inr:
  assumes "constants_ok c"
  shows "constants_push bs c = Inr d \<longleftrightarrow>
     cb_len c + length bs \<le> 256 \<and> d = \<lparr>cb_bytes = splice (cb_len c) bs (cb_bytes c), cb_len = cb_len c + length bs\<rparr>"
  using assms by (auto simp: constants_push_def and_then_Inr_iff checked_span_ok constants_ok_def usize_MAX_def)

lemma constants_push_ok [inv_intros]:
  assumes "constants_ok c" "constants_push bs c = Inr d"
  shows "constants_ok d \<and> as_bytes d = as_bytes c @ bs"
  using assms by (auto simp: constants_push_Inr constants_ok_def splice_def as_bytes_def)

lemma length_to_le_bytes [simp]: "length (to_le_bytes w x) = w"
  by (simp add: to_le_bytes_def)

lemma push_all_ok:
  "constants_ok c \<Longrightarrow> push_all w xs c = Inr d \<Longrightarrow>
     constants_ok d \<and> as_bytes d = as_bytes c @ concat (map (to_le_bytes w) xs)"
proof (induction xs arbitrary: c)
  case (Cons x xs)
  then obtain c1 where c1: "constants_push (to_le_bytes w x) c = Inr c1" "push_all w xs c1 = Inr d"
    by (auto simp: and_then_Inr_iff)
  with constants_push_ok [OF Cons.prems(1) c1(1)] Cons.IH [of c1] show ?case by simp
qed simp

lemma push_all_fits:
  "constants_ok c \<Longrightarrow> cb_len c + w * length xs \<le> 256 \<Longrightarrow> \<exists>d. push_all w xs c = Inr d"
proof (induction xs arbitrary: c)
  case (Cons x xs)
  then obtain c1 where c1: "constants_push (to_le_bytes w x) c = Inr c1" "cb_len c1 = cb_len c + w"
    by (auto simp: constants_push_Inr)
  with Cons.prems constants_push_ok [OF Cons.prems(1) c1(1)] Cons.IH [of c1] show ?case by auto
qed simp

lemma le_sum: "x < 256 ^ w \<Longrightarrow> (\<Sum>i<w. x div 256 ^ i mod 256 * 256 ^ i) = (x::nat)"
proof (induction w arbitrary: x)
  case (Suc w)
  have "x div 256 < 256 ^ w" using Suc.prems by (simp add: less_mult_imp_div_less mult.commute)
  then have IH: "(\<Sum>i<w. x div 256 div 256 ^ i mod 256 * 256 ^ i) = x div 256" by (rule Suc.IH)
  have "(\<Sum>i<Suc w. x div 256 ^ i mod 256 * 256 ^ i)
      = x mod 256 + (\<Sum>i<w. x div 256 ^ Suc i mod 256 * 256 ^ Suc i)"
    by (subst sum.lessThan_Suc_shift) simp
  also have "(\<Sum>i<w. x div 256 ^ Suc i mod 256 * 256 ^ Suc i) = 256 * (\<Sum>i<w. x div 256 div 256 ^ i mod 256 * 256 ^ i)"
    by (simp add: sum_distrib_left div_mult2_eq ac_simps)
  finally show ?case by (simp add: IH)
qed simp

lemma from_to_le_bytes: "x < 256 ^ w \<Longrightarrow> from_le_bytes (to_le_bytes w x) = x"
  using le_sum [of x w] by (simp add: from_le_bytes_def to_le_bytes_def)

lemma nth_chunk:
  "i < length xs \<Longrightarrow> take w (drop (i * w) (concat (map (to_le_bytes w) xs))) = to_le_bytes w (xs ! i)"
proof (induction xs arbitrary: i)
  case (Cons x xs)
  then show ?case by (cases i) simp_all
qed simp

text \<open>
  Index constants round-trip. Packing a nonempty list of 32-bit indices for an export
  whose constant size is four or eight bytes per index succeeds whenever the block's 256
  bytes suffice, fills exactly the export's size, and the little-endian word at
  position \<open>i\<close> of the packed bytes is the \<open>i\<close>-th index.
\<close>

lemma indices_roundtrip:
  assumes "values \<noteq> []" and "\<forall>x\<in>set values. x < 2 ^ 32"
    and "w = 4 \<or> w = 8" and "nbytes = length values * w" and "nbytes \<le> 256"
  shows "\<exists>c. constants_indices nbytes values = Inr c \<and> constants_ok c \<and> length (as_bytes c) = nbytes
    \<and> (\<forall>i<length values. from_le_bytes (take w (drop (i * w) (as_bytes c))) = values ! i)"
proof -
  have fits: "cb_len constants_new + w * length values \<le> 256"
    using assms(4,5) by (simp add: constants_new_def mult.commute)
  obtain c where c: "push_all w values constants_new = Inr c"
    using push_all_fits [OF constants_new_ok(1) fits] by blast
  have bytes: "as_bytes c = concat (map (to_le_bytes w) values)" "constants_ok c"
    using push_all_ok [OF constants_new_ok(1) c] by simp_all
  have "constants_indices nbytes values = Inr c"
    using assms(1,3,4) c by (auto simp: constants_indices_def)
  moreover have "from_le_bytes (take w (drop (i * w) (as_bytes c))) = values ! i" if "i < length values" for i
  proof -
    have "values ! i < 256 ^ w" using assms(2,3) nth_mem [OF that] by fastforce
    with nth_chunk [OF that, of w] show ?thesis by (simp add: bytes from_to_le_bytes)
  qed
  moreover have "length (as_bytes c) = nbytes"
    by (simp add: bytes length_concat assms(4) comp_def sum_list_triv)
  ultimately show ?thesis using bytes(2) by blast
qed

end
