(* ===== verification/Exec_Graph.thy ===== *)
theory Exec_Graph
  imports Use_Summaries Buffer_Leases Access_Graph Launch_Constants
begin

text \<open>
  The pipeline builder and its preparation, \<^verbatim>\<open>src/src/execution/graph.rs\<close>. A builder collects
  entries (fills, copies, kernels, scoped callbacks, NPU kernels) with their uses;
  \<open>prepare\<close> groups consecutive entries into device regions, lowers each region to one
  backend, and orders the regions by the frontier over their summarized uses. Native
  preparation (queues, streams, command encoding) is the record of parameters \<open>natives\<close>;
  recording a GPU region goes through the graph operations of \<open>Stream_Graph\<close>.
\<close>


section \<open>Builder\<close>

datatype gpu_lane = Upload | Compute | Download

record gpu_kernel =
  gk_contract :: kernel_contract
  gk_runtime :: nat
  gk_launch :: "dims \<times> dims"

record npu_kernel =
  nk_contract :: kernel_contract
  nk_device :: nat

datatype description =
    Fill buffer_view nat
  | CopyTo buffer_view buffer_view
  | GpuRun gpu_kernel "buffer_view list"
  | Scoped nat "buffer_view list"
  | NpuRun npu_kernel "buffer_view list"

record entry =
  e_op :: description
  e_uses :: "guse list"
  e_lane :: gpu_lane

record builder =
  bd_runtime :: nat
  bd_entries :: "entry list"
  bd_scratch :: "(bool \<times> buffer_view) list"

definition builder_new :: "nat \<Rightarrow> builder" where
  "builder_new rt = \<lparr>bd_runtime = rt, bd_entries = [], bd_scratch = []\<rparr>"

definition builder_validate_runtime :: "nat \<Rightarrow> builder \<Rightarrow> unit result" where
  "builder_validate_runtime rt g =
     (if bd_runtime g \<noteq> rt then Inl (Message ''graph belongs to another runtime'') else Inr ())"

definition graph_push :: "description \<Rightarrow> guse list \<Rightarrow> builder \<Rightarrow> (builder \<times> nat) result" where
  "graph_push op uses g =
     and_then (try_all (\<lambda>u. if b_runtime (v_buffer (g_view u)) \<noteq> bd_runtime g
                         then Inl (Message ''buffer belongs to another runtime'') else Inr ()) uses)
       (\<lambda>_. Inr (g\<lparr>bd_entries := bd_entries g @ [\<lparr>e_op = op, e_uses = uses, e_lane = Compute\<rparr>]\<rparr>,
                 length (bd_entries g)))"

definition gpu_scoped :: "nat \<Rightarrow> guse list \<Rightarrow> builder \<Rightarrow> (builder \<times> nat) result" where
  "gpu_scoped callback bindings g =
     and_then (try_all (\<lambda>b. view_gpu (g_view b)) bindings)
       (\<lambda>_. graph_push (Scoped callback (map g_view bindings)) bindings g)"

definition builder_fill :: "buffer_view \<Rightarrow> nat \<Rightarrow> builder \<Rightarrow> (builder \<times> nat) result" where
  "builder_fill dst byte g =
     and_then (view_gpu dst) (\<lambda>_. graph_push (Fill dst byte) [\<lparr>g_view = dst, g_access = Write\<rparr>] g)"

definition copy_lane :: "buffer_view \<Rightarrow> buffer_view \<Rightarrow> gpu_lane" where
  "copy_lane dst src =
     (case (b_mapped (v_buffer src), b_mapped (v_buffer dst)) of
        (True, False) \<Rightarrow> Upload
      | (False, True) \<Rightarrow> Download
      | _ \<Rightarrow> Compute)"

definition copy_on :: "buffer_view \<Rightarrow> buffer_view \<Rightarrow> gpu_lane \<Rightarrow> builder \<Rightarrow> (builder \<times> nat) result" where
  "copy_on dst src lane g =
     and_then (view_gpu dst) (\<lambda>_. and_then (view_gpu src) (\<lambda>_.
       if view_len dst \<noteq> view_len src \<or> overlaps dst src
       then Inl (Message ''copy needs equal, nonoverlapping ranges'')
       else and_then
         (graph_push (CopyTo dst src) [\<lparr>g_view = dst, g_access = Write\<rparr>, \<lparr>g_view = src, g_access = Read\<rparr>] g)
         (\<lambda>(g1, node). Inr (g1\<lparr>bd_entries := (bd_entries g1)[node := (bd_entries g1 ! node)\<lparr>e_lane := lane\<rparr>]\<rparr>, node))))"

definition builder_copy :: "buffer_view \<Rightarrow> buffer_view \<Rightarrow> builder \<Rightarrow> (builder \<times> nat) result" where
  "builder_copy dst src g = copy_on dst src (copy_lane dst src) g"

definition contract_uses :: "buffer_view list \<Rightarrow> kernel_contract \<Rightarrow> guse list" where
  "contract_uses bindings k =
     map (\<lambda>(v, c). \<lparr>g_view = v, g_access = c_access c\<rparr>) (zip bindings (k_bindings k))"

text \<open>The device address of an allocation is a native query, the parameter \<open>address\<close>.\<close>

definition check_address ::
  "(buffer \<Rightarrow> nat result) \<Rightarrow> string \<Rightarrow> buffer_view \<times> binding_contract \<Rightarrow> unit result" where
  "check_address address text = (\<lambda>(v, c).
     and_then (address (v_buffer v)) (\<lambda>a.
       if \<not> c_alignment c dvd a + view_offset v then Inl (Message text) else Inr ()))"

definition gpu_aliasing ::
  "(buffer \<Rightarrow> nat result) \<Rightarrow> gpu_kernel \<Rightarrow> buffer_view list \<Rightarrow> builder \<Rightarrow> (builder \<times> nat) result" where
  "gpu_aliasing address k bindings g =
     (if gk_runtime k \<noteq> bd_runtime g then Inl (Message ''kernel belongs to another runtime'')
      else and_then (check_extents (gk_contract k) bindings) (\<lambda>_.
        and_then (try_all (\<lambda>p. and_then (view_gpu (fst p))
                     (\<lambda>_. check_address address ''GPU allocation does not satisfy kernel alignment'' p))
                   (zip bindings (k_bindings (gk_contract k)))) (\<lambda>_.
          graph_push (GpuRun k bindings) (contract_uses bindings (gk_contract k)) g)))"

definition builder_gpu ::
  "(buffer \<Rightarrow> nat result) \<Rightarrow> gpu_kernel \<Rightarrow> buffer_view list \<Rightarrow> builder \<Rightarrow> (builder \<times> nat) result" where
  "builder_gpu address k bindings g =
     and_then (contract_check (gk_contract k) bindings) (\<lambda>_. gpu_aliasing address k bindings g)"

definition builder_npu ::
  "(nat \<Rightarrow> buffer \<Rightarrow> nat result) \<Rightarrow> npu_kernel \<Rightarrow> buffer_view list \<Rightarrow> builder \<Rightarrow> (builder \<times> nat) result" where
  "builder_npu address k bindings g =
     and_then (contract_check (nk_contract k) bindings) (\<lambda>_.
       and_then (try_all (\<lambda>p. if \<not> b_native (v_buffer (fst p))
                    then Inl (Unsupported ''binding has no native storage'')
                    else check_address (address (nk_device k)) ''NPU allocation does not satisfy kernel alignment'' p)
                  (zip bindings (k_bindings (nk_contract k)))) (\<lambda>_.
         graph_push (NpuRun k bindings) (contract_uses bindings (nk_contract k)) g))"


section \<open>Fragment scratch\<close>

definition best_fit :: "(bool \<times> buffer_view) list \<Rightarrow> nat list \<Rightarrow> usize \<Rightarrow> bool \<Rightarrow> nat option" where
  "best_fit scratch used bytes host =
     min_by_key (\<lambda>i. view_len (snd (scratch ! i)))
       (filter (\<lambda>i. i \<notin> set used \<and> fst (scratch ! i) = host \<and> view_len (snd (scratch ! i)) \<ge> bytes)
          [0..<length scratch])"

text \<open>
  The loop of \<open>fragment_scratch\<close>: \<open>alloc\<close> is \<open>Runtime::allocate\<close> for the pool at hand. What
  was allocated before an error stays in the pool.
\<close>

fun scratch_loop ::
  "((bool \<times> buffer_view) list \<Rightarrow> usize \<Rightarrow> bool \<Rightarrow> buffer result) \<Rightarrow> (usize \<times> bool) list \<Rightarrow> nat list
    \<Rightarrow> buffer_view list \<Rightarrow> (bool \<times> buffer_view) list \<Rightarrow> (bool \<times> buffer_view) list \<times> buffer_view list result" where
  "scratch_loop alloc [] used out scratch = (scratch, Inr out)"
| "scratch_loop alloc ((bytes, host) # reqs) used out scratch =
     (case best_fit scratch used bytes host of
        Some i \<Rightarrow>
          (case view_slice (snd (scratch ! i)) (0, bytes) of
             Inl e \<Rightarrow> (scratch, Inl e)
           | Inr v \<Rightarrow> scratch_loop alloc reqs (used @ [i]) (out @ [v]) scratch)
      | None \<Rightarrow>
          (case alloc scratch bytes host of
             Inl e \<Rightarrow> (scratch, Inl e)
           | Inr b \<Rightarrow>
               let scratch1 = scratch @ [(host, whole_view b)]; i = length scratch1 - 1
               in case view_slice (snd (scratch1 ! i)) (0, bytes) of
                    Inl e \<Rightarrow> (scratch1, Inl e)
                  | Inr v \<Rightarrow> scratch_loop alloc reqs (used @ [i]) (out @ [v]) scratch1))"

definition fragment_scratch ::
  "((bool \<times> buffer_view) list \<Rightarrow> usize \<Rightarrow> bool \<Rightarrow> buffer result) \<Rightarrow> (usize \<times> bool) list \<Rightarrow> builder
    \<Rightarrow> builder \<times> buffer_view list result" where
  "fragment_scratch alloc requests g =
     (let (scratch, r) = scratch_loop alloc requests [] [] (bd_scratch g) in (g\<lparr>bd_scratch := scratch\<rparr>, r))"


section \<open>Preparation\<close>

record 'c natives =
  nv_aql :: bool
  nv_sdma :: bool
  nv_gbuf :: "buffer \<Rightarrow> gpu_buffer"
  nv_stream :: "unit result"
  nv_copy_stream :: "gpu_lane \<Rightarrow> unit result"
  nv_sdma_queue :: "gpu_lane \<Rightarrow> unit result"
  nv_aql_queue :: "gpu_lane \<Rightarrow> unit result"
  nv_prepare_xdna :: "npu_kernel \<Rightarrow> buffer_view list \<Rightarrow> 'c result"
  nv_prepare_aql :: "gpu_kernel \<Rightarrow> constants \<Rightarrow> gview list \<Rightarrow> 'c result"
  nv_prepare_copy :: "gview \<Rightarrow> gview \<Rightarrow> 'c result"
  nv_fill :: "gview \<Rightarrow> nat \<Rightarrow> 'c result"
  nv_copy :: "gview \<Rightarrow> gview \<Rightarrow> 'c result"
  nv_dispatch :: "gpu_kernel \<times> constants \<Rightarrow> gview list \<Rightarrow> 'c result"
  nv_batch :: "('c \<times> bool) list \<Rightarrow> string list option \<Rightarrow> 'c list result"
  nv_pm4 :: bool
  nv_graph :: "'c graph"

datatype 'c backend =
    Aql 'c
  | Sdma "'c list"
  | Copies "(buffer_view \<times> buffer_view) list"
  | GpuGraph "'c list"
  | ScopedRun nat "buffer_view list"
  | NpuProgram 'c npu_kernel

record 'c operation =
  o_lane :: gpu_lane
  o_copy_bytes :: usize
  o_backend :: "'c backend"
  o_uses :: "guse list"
  o_deps :: "nat list"

definition op_engine :: "'c operation \<Rightarrow> engine" where
  "op_engine op = (case o_backend op of NpuProgram _ _ \<Rightarrow> Npu | _ \<Rightarrow> Gpu)"

definition lane_index :: "gpu_lane \<Rightarrow> nat" where
  "lane_index l = (case l of Upload \<Rightarrow> 0 | Compute \<Rightarrow> 1 | Download \<Rightarrow> 2)"

definition op_queue :: "'c operation \<Rightarrow> nat" where
  "op_queue op = (case op_engine op of Gpu \<Rightarrow> lane_index (o_lane op) | Npu \<Rightarrow> 3 | Host \<Rightarrow> 4)"

text \<open>\<open>BufferView::gpu\<close> as a value: the view of the allocation's GPU buffer.\<close>

definition gview_of :: "(buffer \<Rightarrow> gpu_buffer) \<Rightarrow> buffer_view \<Rightarrow> gview result" where
  "gview_of gbuf v =
     and_then (view_gpu v) (\<lambda>_.
       Inr \<lparr>gv_owner = gbuf (v_buffer v), gv_offset = view_offset v, gv_length = view_len v\<rparr>)"

text \<open>Entries that form a region of their own, and the test that keeps a region open.\<close>

definition is_scoped :: "entry \<Rightarrow> bool" where
  "is_scoped e = (case e_op e of Scoped _ _ \<Rightarrow> True | _ \<Rightarrow> False)"

definition is_npu :: "entry \<Rightarrow> bool" where
  "is_npu e = (case e_op e of NpuRun _ _ \<Rightarrow> True | _ \<Rightarrow> False)"

definition is_gpu_run :: "entry \<Rightarrow> bool" where
  "is_gpu_run e = (case e_op e of GpuRun _ _ \<Rightarrow> True | _ \<Rightarrow> False)"

definition is_copy :: "entry \<Rightarrow> bool" where
  "is_copy e = (case e_op e of CopyTo _ _ \<Rightarrow> True | _ \<Rightarrow> False)"

definition is_alone :: "bool \<Rightarrow> entry \<Rightarrow> bool" where
  "is_alone aql e \<longleftrightarrow> is_scoped e \<or> is_npu e \<or> aql \<and> is_gpu_run e"

definition joins :: "bool \<Rightarrow> gpu_lane \<Rightarrow> entry \<Rightarrow> bool" where
  "joins aql lane e \<longleftrightarrow> \<not> is_scoped e \<and> \<not> (aql \<and> is_gpu_run e) \<and> e_lane e = lane \<and> \<not> is_npu e"

function regions :: "bool \<Rightarrow> entry list \<Rightarrow> entry list list" where
  "regions aql [] = []"
| "regions aql (e # es) =
     (if is_alone aql e then [e] # regions aql es
      else (e # takeWhile (joins aql (e_lane e)) es) # regions aql (dropWhile (joins aql (e_lane e)) es))"
  by pat_completeness auto
termination
  by (relation "measure (length \<circ> snd)") (auto simp: le_imp_less_Suc length_dropWhile_le)

definition copy_length :: "entry \<Rightarrow> usize" where
  "copy_length e = (case e_op e of CopyTo dst _ \<Rightarrow> view_len dst | _ \<Rightarrow> 0)"

definition copy_pair :: "entry \<Rightarrow> buffer_view \<times> buffer_view" where
  "copy_pair e = (case e_op e of CopyTo dst src \<Rightarrow> (dst, src))"

text \<open>Recording a GPU region on a native graph, with the region's own frontier.\<close>

definition record_entry ::
  "'c natives \<Rightarrow> 'c graph \<Rightarrow> node list \<Rightarrow> description \<Rightarrow> ('c graph \<times> node) result" where
  "record_entry nv g after op =
     (case op of
        Fill dst byte \<Rightarrow>
          and_then (gview_of (nv_gbuf nv) dst) (\<lambda>d. graph_fill (nv_fill nv) g after d byte)
      | CopyTo dst src \<Rightarrow>
          and_then (gview_of (nv_gbuf nv) dst) (\<lambda>d. and_then (gview_of (nv_gbuf nv) src) (\<lambda>s.
            graph_copy (nv_copy nv) g after d s))
      | GpuRun k bindings \<Rightarrow>
          and_then (map_result (gview_of (nv_gbuf nv)) bindings) (\<lambda>views.
            and_then (from_bytes (k_constants (gk_contract k))) (\<lambda>c.
              graph_dispatch (nv_dispatch nv) g after (k, c) views))
      | _ \<Rightarrow> Inl (Message ''internal error: entered unreachable code''))"

fun record_region ::
  "'c natives \<Rightarrow> nat \<Rightarrow> entry list \<Rightarrow> frontier \<Rightarrow> 'c graph \<Rightarrow> node list \<Rightarrow> 'c graph result" where
  "record_region nv i [] f g nodes = Inr g"
| "record_region nv i (e # es) f g nodes =
     (let (f1, ds) = view_dependencies f i (e_uses e)
      in and_then (record_entry nv g (map (\<lambda>j. nodes ! j) ds) (e_op e)) (\<lambda>(g1, node).
           record_region nv (Suc i) es f1 g1 (nodes @ [node])))"

definition lower_alone :: "'c natives \<Rightarrow> entry \<Rightarrow> ('c backend \<times> gpu_lane) result" where
  "lower_alone nv e =
     (case e_op e of
        Scoped callback bindings \<Rightarrow> Inr (ScopedRun callback bindings, Compute)
      | NpuRun k bindings \<Rightarrow>
          and_then (try_all (\<lambda>v. if \<not> b_native (v_buffer v)
                       then Inl (Unsupported ''missing native XDNA backing'') else Inr ()) bindings) (\<lambda>_.
            and_then (nv_prepare_xdna nv k bindings) (\<lambda>run. Inr (NpuProgram run k, Compute)))
      | GpuRun k bindings \<Rightarrow>
          and_then (nv_aql_queue nv (e_lane e)) (\<lambda>_.
            and_then (map_result (gview_of (nv_gbuf nv)) bindings) (\<lambda>views.
              and_then (from_bytes (k_constants (gk_contract k))) (\<lambda>c.
                and_then (nv_prepare_aql nv k c views) (\<lambda>command. Inr (Aql command, e_lane e)))))
      | _ \<Rightarrow> Inl (Message ''internal error: entered unreachable code''))"

definition lower_group :: "'c natives \<Rightarrow> entry list \<Rightarrow> 'c backend result" where
  "lower_group nv es =
     (if \<forall>e\<in>set es. is_copy e
      then if nv_sdma nv
           then and_then (nv_sdma_queue nv (e_lane (hd es))) (\<lambda>_.
                  and_then (map_result (\<lambda>e. and_then (gview_of (nv_gbuf nv) (fst (copy_pair e))) (\<lambda>d.
                                        and_then (gview_of (nv_gbuf nv) (snd (copy_pair e))) (\<lambda>s.
                                          nv_prepare_copy nv d s))) es)
                    (\<lambda>commands. Inr (Sdma commands)))
           else and_then (nv_copy_stream nv (e_lane (hd es))) (\<lambda>_. Inr (Copies (map copy_pair es)))
      else and_then (nv_stream nv) (\<lambda>_.
             and_then (record_region nv 0 es Map.empty (nv_graph nv) []) (\<lambda>g.
               and_then (graph_finish (nv_batch nv) (nv_pm4 nv) None g) (\<lambda>cs. Inr (GpuGraph cs)))))"

text \<open>
  One region as an operation; its dependencies are filled in afterwards. A recorded GPU
  region summarizes its uses here already.
\<close>

definition lower_region :: "'c natives \<Rightarrow> entry list \<Rightarrow> 'c operation result" where
  "lower_region nv es =
     (if is_alone (nv_aql nv) (hd es)
      then and_then (lower_alone nv (hd es)) (\<lambda>(b, lane).
             Inr \<lparr>o_lane = lane, o_copy_bytes = 0, o_backend = b, o_uses = e_uses (hd es), o_deps = []\<rparr>)
      else and_then (lower_group nv es) (\<lambda>b.
             Inr \<lparr>o_lane = e_lane (hd es), o_copy_bytes = sum_list (map copy_length es), o_backend = b,
                  o_uses = (if \<forall>e\<in>set es. is_copy e then concat (map e_uses es)
                            else summarize (concat (map e_uses es))),
                  o_deps = []\<rparr>))"

text \<open>The final loop: summaries and dependencies of the regions.\<close>

fun order_regions :: "nat \<Rightarrow> frontier \<Rightarrow> 'c operation list \<Rightarrow> 'c operation list" where
  "order_regions i f [] = []"
| "order_regions i f (op # ops) =
     (let us = summarize (o_uses op); (f1, ds) = view_dependencies f i us
      in op\<lparr>o_uses := us, o_deps := ds\<rparr> # order_regions (Suc i) f1 ops)"

record 'c prepared =
  p_runtime :: nat
  p_parallel :: bool
  p_operations :: "'c operation list"
  p_uses :: "guse list"

definition is_parallel :: "'c operation list \<Rightarrow> bool" where
  "is_parallel ops \<longleftrightarrow> (\<exists>i\<in>{1..<length ops}. i - 1 \<notin> set (o_deps (ops ! i)))"

definition prepare :: "'c natives \<Rightarrow> builder \<Rightarrow> 'c prepared result" where
  "prepare nv g =
     (if bd_entries g = [] then Inl (Message ''cannot prepare an empty graph'')
      else and_then (map_result (lower_region nv) (regions (nv_aql nv) (bd_entries g))) (\<lambda>ops.
        let ordered = order_regions 0 Map.empty ops
        in Inr \<lparr>p_runtime = bd_runtime g, p_parallel = is_parallel ordered, p_operations = ordered,
                p_uses = summarize (concat (map o_uses ordered))\<rparr>))"

definition prepared_validate_runtime :: "nat \<Rightarrow> 'c prepared \<Rightarrow> unit result" where
  "prepared_validate_runtime rt p =
     (if p_runtime p \<noteq> rt then Inl (Message ''graph belongs to another runtime'') else Inr ())"

definition prepared_regions :: "'c prepared \<Rightarrow> nat" where
  "prepared_regions p = length (p_operations p)"


section \<open>Region structure\<close>

lemma concat_regions: "concat (regions aql es) = es"
  by (induction aql es rule: regions.induct) simp_all

lemma regions_shape:
  "r \<in> set (regions aql es) \<Longrightarrow> r \<noteq> []
    \<and> (is_alone aql (hd r) \<longrightarrow> length r = 1)
    \<and> (\<not> is_alone aql (hd r) \<longrightarrow> (\<forall>e\<in>set r. joins aql (e_lane (hd r)) e))"
proof (induction aql es rule: regions.induct)
  case (2 aql e es)
  have "joins aql (e_lane e) e" if "\<not> is_alone aql e"
    using that by (auto simp: is_alone_def joins_def)
  moreover have "joins aql (e_lane e) x" if "x \<in> set (takeWhile (joins aql (e_lane e)) es)" for x
    using that by (rule set_takeWhileD [THEN conjunct2])
  ultimately show ?case using 2 by (auto split: if_splits)
qed simp

lemma lower_region_uses:
  assumes "lower_region nv r = Inr op" and "r \<noteq> []" and "is_alone (nv_aql nv) (hd r) \<longrightarrow> length r = 1"
    and "summary_input (concat (map e_uses r))"
  shows "refines_uses (o_uses op) (concat (map e_uses r))"
proof (cases "is_alone (nv_aql nv) (hd r)")
  case True
  then obtain e where "r = [e]" using assms(2,3) by (cases r) auto
  with True assms(1) have "o_uses op = concat (map e_uses r)"
    by (auto simp: lower_region_def and_then_Inr_iff)
  with assms(4) show ?thesis by (simp add: refines_self)
next
  case False
  with assms(1,4) show ?thesis
    by (auto simp: lower_region_def and_then_Inr_iff refines_self refines_summarize split: if_splits)
qed

lemma op_queue_update [simp]: "op_queue (op\<lparr>o_uses := us, o_deps := ds\<rparr>) = op_queue op"
  by (simp add: op_queue_def op_engine_def split: engine.splits backend.splits)

lemma order_regions_fields:
  "map o_uses (order_regions i f ops) = map (\<lambda>op. summarize (o_uses op)) ops"
  "map o_deps (order_regions i f ops)
     = record_ops view_dependencies f i (map (\<lambda>op. summarize (o_uses op)) ops)"
  "map op_queue (order_regions i f ops) = map op_queue ops"
  "map o_backend (order_regions i f ops) = map o_backend ops"
  by (induction i f ops rule: order_regions.induct)
     (auto simp: Let_def split: prod.splits)

abbreviation region_uses :: "entry list \<Rightarrow> guse list" where
  "region_uses r \<equiv> concat (map e_uses r)"

lemma regions_input:
  assumes "summary_input (region_uses es)" "r \<in> set (regions aql es)"
  shows "summary_input (region_uses r)"
proof -
  have "set r \<subseteq> set es" using assms(2) concat_regions [of aql es] by (metis UN_upper set_concat)
  then have "set (region_uses r) \<subseteq> set (region_uses es)" by auto
  with assms(1) show ?thesis by (rule summary_input_subset)
qed

text \<open>The regions of a prepared graph and what its operations use.\<close>

lemma prepare_operations:
  assumes "prepare nv g = Inr p" and in_ok: "summary_input (region_uses (bd_entries g))"
  defines "rs \<equiv> regions (nv_aql nv) (bd_entries g)"
  shows "map o_deps (p_operations p) = recorded (map (map interval_use) (map o_uses (p_operations p)))"
    and "list_all2 (\<lambda>op r. refines_uses (o_uses op) (region_uses r) \<and> canonical (o_uses op)) (p_operations p) rs"
    and "p_uses p = summarize (concat (map o_uses (p_operations p)))"
proof -
  obtain ops where ops: "map_result (lower_region nv) rs = Inr ops"
      and p: "p_operations p = order_regions 0 Map.empty ops"
      "p_uses p = summarize (concat (map o_uses (order_regions 0 Map.empty ops)))"
    using assms(1) by (auto simp: prepare_def and_then_Inr_iff Let_def rs_def split: if_splits)
  have len: "length ops = length rs" and low: "\<And>i. i < length rs \<Longrightarrow> lower_region nv (rs ! i) = Inr (ops ! i)"
    using ops by (auto simp: map_result_Inr list_all2_conv_all_nth)
  show "map o_deps (p_operations p) = recorded (map (map interval_use) (map o_uses (p_operations p)))"
    by (simp add: p order_regions_fields record_view_dependencies recorded_def)
  show "p_uses p = summarize (concat (map o_uses (p_operations p)))" by (simp add: p)
  have "refines_uses (o_uses (ops ! i)) (region_uses (rs ! i))" "summary_input (region_uses (rs ! i))"
    if "i < length rs" for i
  proof -
    have r: "rs ! i \<in> set rs" using that by simp
    show inp: "summary_input (region_uses (rs ! i))" using regions_input [OF in_ok r [unfolded rs_def]] by (simp add: rs_def)
    show "refines_uses (o_uses (ops ! i)) (region_uses (rs ! i))"
      using regions_shape [OF r [unfolded rs_def]] by (intro lower_region_uses [OF low [OF that] _ _ inp]) (auto simp: rs_def)
  qed
  then have "refines_uses (summarize (o_uses (ops ! i))) (region_uses (rs ! i)) \<and> canonical (summarize (o_uses (ops ! i)))"
    if "i < length rs" for i
    using that by (blast intro: refines_trans refines_summarize refines_input summarize_canonical)
  then have "list_all2 (\<lambda>us r. refines_uses us (region_uses r) \<and> canonical us) (map (\<lambda>op. summarize (o_uses op)) ops) rs"
    using len by (simp add: list_all2_conv_all_nth)
  then have "list_all2 (\<lambda>us r. refines_uses us (region_uses r) \<and> canonical us) (map o_uses (p_operations p)) rs"
    by (simp add: p order_regions_fields)
  then show "list_all2 (\<lambda>op r. refines_uses (o_uses op) (region_uses r) \<and> canonical (o_uses op)) (p_operations p) rs"
    by (simp add: list_all2_map1)
qed

text \<open>
  C16: preparation orders the device regions exactly by their hazards. The regions partition the
  recorded entries in order; the transitive closure of the prepared dependencies is the
  transitive closure of "an earlier and a later region touch a common byte region
  and at least one of them writes"; every dependency is an earlier region.
\<close>

theorem prepare_orders_regions:
  assumes "prepare nv g = Inr p" and "summary_input (region_uses (bd_entries g))"
  shows "let rs = regions (nv_aql nv) (bd_entries g) in
      concat rs = bd_entries g \<and> length (p_operations p) = length rs
    \<and> (dep_edges (map o_deps (p_operations p)))\<^sup>+
       = {(a, b). a < b \<and> b < length rs \<and> uses_hazard (region_uses (rs ! a)) (region_uses (rs ! b))}\<^sup>+
    \<and> (\<forall>b<length rs. \<forall>a\<in>set (o_deps (p_operations p ! b)). a < b)"
proof -
  define rs where "rs = regions (nv_aql nv) (bd_entries g)"
  note ops = prepare_operations [OF assms, folded rs_def]
  define os where "os = map (map interval_use) (map o_uses (p_operations p))"
  have len: "length (p_operations p) = length rs" using ops(2) by (rule list_all2_lengthD)
  have lo: "length os = length rs" by (simp add: os_def len)
  have deps: "map o_deps (p_operations p) = recorded os" using ops(1) by (simp only: os_def)
  have ref: "refines_uses (o_uses (p_operations p ! i)) (region_uses (rs ! i))" if "i < length rs" for i
    using ops(2) that len by (simp add: list_all2_conv_all_nth)
  have haz: "ops_conflict (os ! a) (os ! b) \<longleftrightarrow> uses_hazard (region_uses (rs ! a)) (region_uses (rs ! b))"
    if "a < length rs" "b < length rs" for a b
    using refines_hazard [OF ref [OF that(1)] ref [OF that(2)]] that len
    by (simp only: os_def nth_map length_map ops_conflict_hazard)
  have "{(a, b). a < b \<and> b < length os \<and> ops_conflict (os ! a) (os ! b)}
      = {(a, b). a < b \<and> b < length rs \<and> uses_hazard (region_uses (rs ! a)) (region_uses (rs ! b))}"
    using haz by (auto simp: lo dest: less_trans)
  with recorded_orderE [of os] have "(dep_edges (map o_deps (p_operations p)))\<^sup>+
      = {(a, b). a < b \<and> b < length rs \<and> uses_hazard (region_uses (rs ! a)) (region_uses (rs ! b))}\<^sup>+"
    by (simp only: deps)
  moreover have "a < b" if "b < length rs" "a \<in> set (o_deps (p_operations p ! b))" for a b
  proof -
    have "o_deps (p_operations p ! b) = recorded os ! b"
      using arg_cong [OF deps, of "\<lambda>xs. xs ! b"] that(1) len by simp
    with recorded_edgeD [of b os a] that lo show ?thesis by simp
  qed
  ultimately show ?thesis
    unfolding Let_def rs_def [symmetric]
    using concat_regions [of "nv_aql nv" "bd_entries g", folded rs_def] len by blast
qed

definition demo_builder :: builder where
  "demo_builder = (builder_new 0)\<lparr>bd_entries :=
     [\<lparr>e_op = Fill (whole_view (demo_buffer 8 False)) 7,
       e_uses = [\<lparr>g_view = whole_view (demo_buffer 8 False), g_access = Write\<rparr>], e_lane = Compute\<rparr>,
      \<lparr>e_op = Scoped 3 [whole_view (demo_buffer 8 False)],
       e_uses = [\<lparr>g_view = whole_view (demo_buffer 8 False), g_access = Read\<rparr>], e_lane = Compute\<rparr>]\<rparr>"

definition demo_natives :: "nat natives" where
  "demo_natives = \<lparr>nv_aql = False, nv_sdma = False,
     nv_gbuf = (\<lambda>b. \<lparr>gb_addr = b_id b, gb_native = b_id b, gb_bytes = b_bytes b, gb_device = 0, gb_reservation = None\<rparr>),
     nv_stream = Inr (), nv_copy_stream = (\<lambda>_. Inr ()), nv_sdma_queue = (\<lambda>_. Inr ()), nv_aql_queue = (\<lambda>_. Inr ()),
     nv_prepare_xdna = (\<lambda>_ _. Inr 0), nv_prepare_aql = (\<lambda>_ _ _. Inr 1), nv_prepare_copy = (\<lambda>_ _. Inr 2),
     nv_fill = (\<lambda>_ _. Inr 3), nv_copy = (\<lambda>_ _. Inr 4), nv_dispatch = (\<lambda>_ _. Inr 5),
     nv_batch = (\<lambda>cs _. Inr (map fst cs)), nv_pm4 = True, nv_graph = owned_graph 5 0\<rparr>"

lemma demo_builder_input: "summary_input (region_uses (bd_entries demo_builder))"
  by (simp add: demo_builder_def builder_new_def summary_input_def use_ok_def handles_agree_def)

lemma demo_regions:
  "regions (nv_aql demo_natives) (bd_entries demo_builder) = [[bd_entries demo_builder ! 0], [bd_entries demo_builder ! 1]]"
  by (simp add: demo_natives_def demo_builder_def builder_new_def is_alone_def is_scoped_def is_npu_def is_gpu_run_def
      joins_def)

lemma demo_prepared: "\<exists>p. prepare demo_natives demo_builder = Inr p"
proof -
  have u: "view_dependencies Map.empty 0 us = (f, ds) \<Longrightarrow> ds = []" for us f ds
  proof -
    assume "view_dependencies Map.empty 0 us = (f, ds)"
    then have "recorded [map interval_use us] = [ds]" by (simp add: recorded_def view_dependencies_def)
    then have "d < 0" if "d \<in> set ds" for d
      using recorded_edgeD [of 0 "[map interval_use us]" d] that by simp
    then show "ds = []" by (cases ds) auto
  qed
  have "lower_region demo_natives [bd_entries demo_builder ! 0] \<noteq> Inl e" for e
    by (auto simp: lower_region_def lower_group_def demo_natives_def demo_builder_def builder_new_def is_alone_def
        is_scoped_def is_npu_def is_gpu_run_def is_copy_def record_entry_def gview_of_def view_gpu_def demo_buffer_def
        checked_span_def checked_add_def usize_MAX_def view_offset_def view_len_def graph_fill_def
        validate_dependencies_def owned_graph_def u32_MAX_def owns_def gview_is_empty_def graph_finish_def
        split: prod.splits dest!: u)
  moreover have "lower_region demo_natives [bd_entries demo_builder ! 1] \<noteq> Inl e" for e
    by (simp add: lower_region_def lower_alone_def demo_builder_def builder_new_def is_alone_def is_scoped_def)
  ultimately obtain a b where "lower_region demo_natives [bd_entries demo_builder ! 0] = Inr a"
      "lower_region demo_natives [bd_entries demo_builder ! 1] = Inr b"
    by (metis sum.exhaust)
  moreover have "bd_entries demo_builder \<noteq> []" by (simp add: demo_builder_def)
  ultimately show ?thesis by (simp add: prepare_def demo_regions Let_def del: order_regions.simps)
qed

theorem prepare_orders_regions_witness:
  "\<exists>p. prepare demo_natives demo_builder = Inr p \<and> length (p_operations p) = 2
     \<and> (0, 1) \<in> (dep_edges (map o_deps (p_operations p)))\<^sup>+"
proof -
  obtain p where p: "prepare demo_natives demo_builder = Inr p" using demo_prepared by blast
  have haz: "uses_hazard (region_uses [bd_entries demo_builder ! 0]) (region_uses [bd_entries demo_builder ! 1])"
    by (simp add: uses_hazard_def demo_builder_def builder_new_def hazard_def region_defs demo_buffer_def)
  have "length (p_operations p) = 2"
      "(dep_edges (map o_deps (p_operations p)))\<^sup>+ = {(a, b). a < b \<and> b < Suc (Suc 0) \<and>
         uses_hazard (region_uses ([[bd_entries demo_builder ! 0], [bd_entries demo_builder ! 1]] ! a))
           (region_uses ([[bd_entries demo_builder ! 0], [bd_entries demo_builder ! 1]] ! b))}\<^sup>+"
    using prepare_orders_regions [OF p demo_builder_input] by (simp_all add: Let_def demo_regions)
  with p haz show ?thesis by (auto intro!: r_into_trancl)
qed


section \<open>Order inside a recorded region\<close>

lemma record_entry_mirrors:
  assumes m: "mirrors g f nodes uss" and d: "view_dependencies f (length nodes) us = (f1, ds)"
    and r: "record_entry nv g (map (\<lambda>j. nodes ! j) ds) op = Inr (g1, n)"
  shows "mirrors g1 f1 (nodes @ [n]) (uss @ [map interval_use us])"
  using r by (auto simp: record_entry_def and_then_Inr_iff split: description.splits
      intro: mirrors_ops [OF m d [unfolded view_dependencies_def]])

lemma record_region_mirrors:
  "mirrors g f nodes uss \<Longrightarrow> i = length nodes \<Longrightarrow> record_region nv i es f g nodes = Inr g' \<Longrightarrow>
     \<exists>f' nodes'. mirrors g' f' nodes' (uss @ map (\<lambda>e. map interval_use (e_uses e)) es)"
proof (induction nv i es f g nodes arbitrary: uss rule: record_region.induct)
  case (2 nv i e es f g nodes)
  obtain f1 ds where d: "view_dependencies f (length nodes) (e_uses e) = (f1, ds)" by fastforce
  from "2.prems" d obtain g1 n where r: "record_entry nv g (map (\<lambda>j. nodes ! j) ds) (e_op e) = Inr (g1, n)"
      "record_region nv (Suc i) es f1 g1 (nodes @ [n]) = Inr g'"
    by (auto simp: and_then_Inr_iff)
  have "mirrors g1 f1 (nodes @ [n]) (uss @ [map interval_use (e_uses e)])"
    using record_entry_mirrors [OF "2.prems"(1) d r(1)] .
  from "2.IH" [OF _ _ this _ r(2)] d "2.prems"(2) show ?case by simp
qed auto

text \<open>
  Inside a recorded GPU region, conflicting entries are separated by a barrier. When the
  entries of a region are recorded on a fresh native graph, its lowered command list has one
  command per entry, in order, and for any two entries whose uses conflict there is a
  barrier after the earlier and at or before the later command.
\<close>

lemma region_barriers:
  assumes "record_region nv 0 es Map.empty (nv_graph nv) [] = Inr g" and "gr_nodes (nv_graph nv) = []"
    and "i < j" and "j < length es" and "uses_hazard (e_uses (es ! i)) (e_uses (es ! j))"
  shows "length (order_commands 0 0 (gr_nodes g)) = length es
    \<and> (\<exists>k. i < k \<and> k \<le> j \<and> snd (order_commands 0 0 (gr_nodes g) ! k))"
proof -
  let ?uss = "map (\<lambda>e. map interval_use (e_uses e)) es"
  obtain f nodes where m: "mirrors g f nodes ?uss"
    using record_region_mirrors [OF mirrors_start [OF assms(2)] _ assms(1)] by auto
  have "length (order_commands 0 0 (gr_nodes g)) = length es" using mirrors_command_count [OF m] by simp
  moreover have "ops_conflict (?uss ! i) (?uss ! j)"
    using assms(3-5) by (simp add: ops_conflict_hazard)
  ultimately show ?thesis using mirrors_barrier [OF m assms(3)] assms(4) by simp
qed

definition demo_region :: "entry list" where
  "demo_region =
     [\<lparr>e_op = Fill (whole_view (demo_buffer 8 False)) 7,
       e_uses = [\<lparr>g_view = whole_view (demo_buffer 8 False), g_access = Write\<rparr>], e_lane = Compute\<rparr>,
      \<lparr>e_op = Fill (whole_view (demo_buffer 8 False)) 9,
       e_uses = [\<lparr>g_view = whole_view (demo_buffer 8 False), g_access = Write\<rparr>], e_lane = Compute\<rparr>]"

lemma demo_region_recorded: "\<exists>g. record_region demo_natives 0 demo_region Map.empty (nv_graph demo_natives) [] = Inr g"
proof -
  have fill: "\<exists>g' n. record_entry demo_natives g after (Fill (whole_view (demo_buffer 8 False)) x) = Inr (g', n)
      \<and> gr_device g' = 0 \<and> length (gr_nodes g') = Suc (length (gr_nodes g))"
    if "gr_device g = 0" "validate_dependencies g after = Inr ()" for g after x
    using that
    by (simp add: record_entry_def demo_natives_def gview_of_def view_gpu_def demo_buffer_def checked_span_def
        checked_add_def usize_MAX_def view_offset_def view_len_def graph_fill_def owns_def gview_is_empty_def
        graph_record_def)
  let ?us = "[\<lparr>g_view = whole_view (demo_buffer 8 False), g_access = Write\<rparr>]"
  obtain f ds where d: "view_dependencies Map.empty 0 ?us = (f, ds)" by fastforce
  have "recorded [map interval_use ?us] = [ds]" using d by (simp add: recorded_def view_dependencies_def)
  then have "d < 0" if "d \<in> set ds" for d using recorded_edgeD [of 0 "[map interval_use ?us]" d] that by simp
  then have ds: "ds = []" by (cases ds) auto
  have g0: "gr_device (nv_graph demo_natives) = 0" "validate_dependencies (nv_graph demo_natives) [] = Inr ()"
    by (simp_all add: demo_natives_def owned_graph_def validate_dependencies_def u32_MAX_def)
  from fill [OF this, of 7] obtain g1 n where g1: "record_entry demo_natives (nv_graph demo_natives) []
      (Fill (whole_view (demo_buffer 8 False)) 7) = Inr (g1, n)" "gr_device g1 = 0" "length (gr_nodes g1) = 1"
    by (auto simp: demo_natives_def owned_graph_def)
  have m0: "mirrors (nv_graph demo_natives) Map.empty [] []"
    by (rule mirrors_start) (simp add: demo_natives_def owned_graph_def)
  have m1: "mirrors g1 f [n] [map interval_use ?us]"
    using record_entry_mirrors [OF m0, where nv = demo_natives and us = ?us] d ds g1(1) by fastforce
  obtain f2 ds2 where d2: "view_dependencies f 1 ?us = (f2, ds2)" by fastforce
  have "f = record_state dependencies Map.empty 0 [map interval_use ?us]" using m1 by (simp add: mirrors_def)
  then have "recorded [map interval_use ?us, map interval_use ?us] ! 1 = ds2"
    using d2 recorded_snoc [of "[map interval_use ?us]" "map interval_use ?us"]
    by (simp add: nth_append view_dependencies_def)
  then have small: "x < 1" if "x \<in> set ds2" for x
    using recorded_edgeD [of 1 "[map interval_use ?us, map interval_use ?us]" x] that by simp
  have "[n] ! x = n" if "x \<in> set ds2" for x using small [OF that] by simp
  then have "validate_dependencies g1 (map (\<lambda>j. [n] ! j) ds2) = Inr ()"
    using m1 g1(3) by (auto simp: validate_dependencies_ok mirrors_def u32_MAX_def)
  from fill [OF g1(2) this, of 9] show ?thesis
    using d ds g1(1) d2 by (auto simp: demo_region_def Let_def)
qed

lemma demo_region_barrier:
  "\<exists>g. record_region demo_natives 0 demo_region Map.empty (nv_graph demo_natives) [] = Inr g
     \<and> length (order_commands 0 0 (gr_nodes g)) = 2 \<and> snd (order_commands 0 0 (gr_nodes g) ! 1)"
proof -
  obtain g where g: "record_region demo_natives 0 demo_region Map.empty (nv_graph demo_natives) [] = Inr g"
    using demo_region_recorded by blast
  have "uses_hazard (e_uses (demo_region ! 0)) (e_uses (demo_region ! 1))"
    by (simp add: uses_hazard_def demo_region_def hazard_def region_defs demo_buffer_def)
  moreover have "gr_nodes (nv_graph demo_natives) = []" by (simp add: demo_natives_def owned_graph_def)
  ultimately obtain k where "0 < k" "k \<le> 1" "snd (order_commands 0 0 (gr_nodes g) ! k)"
      "length (order_commands 0 0 (gr_nodes g)) = 2"
    using region_barriers [OF g, of 0 1] by (auto simp: demo_region_def)
  moreover from this have "k = 1" by simp
  ultimately show ?thesis using g by auto
qed


section \<open>Scratch views are disjoint\<close>

text \<open>The scratch pool holds whole views of distinct allocations.\<close>

definition pool_ok :: "(bool \<times> buffer_view) list \<Rightarrow> bool" where
  "pool_ok scratch \<longleftrightarrow> distinct (map (\<lambda>s. b_id (v_buffer (snd s))) scratch)
     \<and> (\<forall>s\<in>set scratch. snd s = whole_view (v_buffer (snd s)))"

text \<open>Scratch entry \<open>i\<close> serves a request with the view \<open>v\<close>.\<close>

definition serves :: "(bool \<times> buffer_view) list \<Rightarrow> nat \<times> buffer_view \<Rightarrow> usize \<times> bool \<Rightarrow> bool" where
  "serves scratch iv r \<longleftrightarrow> fst iv < length scratch \<and> fst (scratch ! fst iv) = snd r
     \<and> v_buffer (snd iv) = v_buffer (snd (scratch ! fst iv)) \<and> v_start (snd iv) = 0 \<and> v_end (snd iv) = fst r
     \<and> fst r \<le> b_bytes (v_buffer (snd iv))"

lemma best_fit_Some:
  "best_fit scratch used bytes host = Some i \<Longrightarrow>
     i < length scratch \<and> i \<notin> set used \<and> fst (scratch ! i) = host \<and> bytes \<le> view_len (snd (scratch ! i))"
  unfolding best_fit_def by (drule min_by_key_Some) auto

lemma serves_append: "serves scratch iv r \<Longrightarrow> serves (scratch @ s) iv r"
  by (auto simp: serves_def nth_append)

lemma whole_slice:
  "v = whole_view (v_buffer v) \<Longrightarrow> view_slice v (0, bytes) = Inr w \<Longrightarrow>
     v_buffer w = v_buffer v \<and> v_start w = 0 \<and> v_end w = bytes \<and> bytes \<le> b_bytes (v_buffer v)"
  by (cases v) (auto simp: view_slice_Inr view_len_def whole_view_def buffer_len_def)

lemma scratch_loop_ok:
  assumes fresh: "\<And>pool n host b. alloc pool n host = Inr b \<Longrightarrow>
      b_bytes b = n \<and> b_id b \<notin> (\<lambda>s. b_id (v_buffer (snd s))) ` set pool"
  shows "scratch_loop alloc reqs used out scratch = (scratch', r) \<Longrightarrow> pool_ok scratch \<Longrightarrow> distinct used
    \<Longrightarrow> length out = length used \<Longrightarrow> list_all2 (serves scratch) (zip used out) dones \<Longrightarrow>
    pool_ok scratch' \<and> (\<forall>vs. r = Inr vs \<longrightarrow> (\<exists>us. distinct us \<and> length us = length vs
       \<and> list_all2 (serves scratch') (zip us vs) (dones @ reqs)))"
proof (induction reqs arbitrary: used out scratch dones)
  case Nil
  then show ?case by auto
next
  case (Cons req reqs)
  obtain bytes host where req: "req = (bytes, host)" by fastforce
  have bound: "i < length scratch" if "i \<in> set used" for i
    using that Cons.prems(4,5) by (auto simp: list_all2_conv_all_nth serves_def in_set_conv_nth)
  show ?case
  proof (cases "best_fit scratch used bytes host")
    case (Some i)
    note fit = best_fit_Some [OF Some]
    have whole: "snd (scratch ! i) = whole_view (v_buffer (snd (scratch ! i)))"
      using Cons.prems(2) fit by (simp add: pool_ok_def)
    show ?thesis
    proof (cases "view_slice (snd (scratch ! i)) (0, bytes)")
      case (Inr v)
      note v = whole_slice [OF whole Inr]
      have "serves scratch (i, v) (bytes, host)" using fit v by (simp add: serves_def)
      then have "list_all2 (serves scratch) (zip (used @ [i]) (out @ [v])) (dones @ [(bytes, host)])"
        using Cons.prems(4,5) by (simp add: list_all2_appendI)
      with Cons.IH [of "used @ [i]" "out @ [v]" scratch "dones @ [(bytes, host)]"] Cons.prems Some Inr fit req
      show ?thesis by simp
    qed (use Cons.prems Some req in auto)
  next
    case None
    show ?thesis
    proof (cases "alloc scratch bytes host")
      case (Inr b)
      let ?s = "scratch @ [(host, whole_view b)]"
      have b: "b_bytes b = bytes" "b_id b \<notin> (\<lambda>s. b_id (v_buffer (snd s))) ` set scratch"
        using fresh [OF Inr] by auto
      then have pool: "pool_ok ?s" using Cons.prems(2) by (auto simp: pool_ok_def)
      obtain v where v: "view_slice (whole_view b) (0, bytes) = Inr v" "v_buffer v = b" "v_start v = 0" "v_end v = bytes"
        using b(1) by (auto simp: view_slice_def view_len_def)
      have "list_all2 (serves ?s) (zip used out) dones"
        using Cons.prems(5) by (rule list_all2_mono) (rule serves_append)
      moreover have "serves ?s (length scratch, v) (bytes, host)" using v b(1) by (simp add: serves_def nth_append)
      ultimately have srv: "list_all2 (serves ?s) (zip (used @ [length scratch]) (out @ [v])) (dones @ [(bytes, host)])"
        using Cons.prems(4) by (simp add: list_all2_appendI)
      have "distinct (used @ [length scratch])" using Cons.prems(3) bound by auto
      with Cons.IH [of "used @ [length scratch]" "out @ [v]" ?s "dones @ [(bytes, host)]"] Cons.prems None Inr pool v srv req
      show ?thesis by (simp add: Let_def)
    qed (use Cons.prems None req in auto)
  qed
qed

text \<open>
  The temporaries of one fragment never share storage. Starting from a valid scratch pool,
  and with an allocator that returns fresh allocations of the requested size, a
  successful request yields one view per request, of exactly the requested length, inside its
  allocation and with the requested host visibility, and views of different requests lie in different
  allocations; the pool stays valid, also when an allocation fails.
\<close>

lemma scratch_disjoint:
  assumes "\<And>pool n host b. alloc pool n host = Inr b \<Longrightarrow>
      b_bytes b = n \<and> b_id b \<notin> (\<lambda>s. b_id (v_buffer (snd s))) ` set pool"
    and "pool_ok (bd_scratch g)" and "fragment_scratch alloc requests g = (g', r)"
  shows "pool_ok (bd_scratch g') \<and> (\<forall>vs. r = Inr vs \<longrightarrow>
     length vs = length requests \<and> distinct (map (\<lambda>v. b_id (v_buffer v)) vs)
     \<and> (\<forall>i<length vs. view_len (vs ! i) = fst (requests ! i) \<and> view_ok (vs ! i)
          \<and> (snd (requests ! i), whole_view (v_buffer (vs ! i))) \<in> set (bd_scratch g')))"
proof -
  obtain scratch where loop: "scratch_loop alloc requests [] [] (bd_scratch g) = (scratch, r)"
      and g': "bd_scratch g' = scratch"
    using assms(3) by (auto simp: fragment_scratch_def split: prod.splits)
  have res: "pool_ok scratch \<and> (\<forall>vs. r = Inr vs \<longrightarrow> (\<exists>us. distinct us \<and> length us = length vs
       \<and> list_all2 (serves scratch) (zip us vs) ([] @ requests)))"
    by (rule scratch_loop_ok [OF assms(1) loop assms(2)]) auto
  have "length vs = length requests \<and> distinct (map (\<lambda>v. b_id (v_buffer v)) vs)
     \<and> (\<forall>i<length vs. view_len (vs ! i) = fst (requests ! i) \<and> view_ok (vs ! i)
          \<and> (snd (requests ! i), whole_view (v_buffer (vs ! i))) \<in> set scratch)" if "r = Inr vs" for vs
  proof -
    from res that obtain us where us: "distinct us" "length us = length vs"
        "list_all2 (serves scratch) (zip us vs) requests" by auto
    have srv: "serves scratch (us ! i, vs ! i) (requests ! i)" if "i < length vs" for i
      using us(2,3) that by (auto simp: list_all2_conv_all_nth)
    have buf: "map (\<lambda>v. b_id (v_buffer v)) vs = map (\<lambda>i. map (\<lambda>s. b_id (v_buffer (snd s))) scratch ! i) us"
      using us(2) srv by (intro nth_equalityI) (auto simp: serves_def)
    have bound: "set us \<subseteq> {..<length scratch}"
      using us(2) srv by (auto simp: in_set_conv_nth serves_def)
    have "distinct (map (\<lambda>s. b_id (v_buffer (snd s))) scratch)" using res by (simp add: pool_ok_def)
    then have "distinct (map (\<lambda>v. b_id (v_buffer v)) vs)"
      unfolding buf using us(1) bound by (auto simp: distinct_map inj_on_def distinct_conv_nth subset_iff)
    moreover have "(snd (requests ! i), whole_view (v_buffer (vs ! i))) \<in> set scratch" if "i < length vs" for i
    proof -
      from srv [OF that] have i: "us ! i < length scratch" "fst (scratch ! (us ! i)) = snd (requests ! i)"
          "v_buffer (vs ! i) = v_buffer (snd (scratch ! (us ! i)))" by (auto simp: serves_def)
      then have "snd (scratch ! (us ! i)) = whole_view (v_buffer (vs ! i))" using res by (simp add: pool_ok_def)
      with i have "scratch ! (us ! i) = (snd (requests ! i), whole_view (v_buffer (vs ! i)))"
        by (simp add: prod_eq_iff)
      then show ?thesis using nth_mem [OF i(1)] by simp
    qed
    moreover have "view_len (vs ! i) = fst (requests ! i) \<and> view_ok (vs ! i)" if "i < length vs" for i
      using srv [OF that] by (auto simp: serves_def view_len_def view_ok_def)
    moreover have "length vs = length requests" using us(2,3) by (auto dest: list_all2_lengthD)
    ultimately show ?thesis by blast
  qed
  with res g' show ?thesis by blast
qed

end
