(* ===== verification/Completion_Signal.thy ===== *)
theory Completion_Signal
  imports HRX_Prelude "HOL-Library.Sublist"
begin

text \<open>
  Completion signals of \<^verbatim>\<open>src/src/execution/completion.rs\<close>: the state a prepared run slot
  publishes its result through, the observers that keep it from being reused, and the
  wakers of polling tasks (four inline places, then an overflow vector). Each operation holds the
  signal's mutex for its whole effect, so it is one function on the state. Instants are
  natural numbers supplied by the caller; \<open>Waker::will_wake\<close> is the parameter \<open>ww\<close>. The standard library
  documents it as best effort: it may answer no for two wakers of one task, even for a waker and its clone, but a yes means that
  both wake the same task.
\<close>


section \<open>State and operations\<close>

type_synonym instant = nat

record 'w signal =
  sg_submitted :: "instant option"
  sg_started :: "instant option"
  sg_finished :: "instant option"
  sg_done :: bool
  sg_failure :: "error option"
  sg_cancelled :: bool
  sg_wakers :: "'w option list"
  sg_overflow :: "'w list"
  sg_cancel :: bool
  sg_observers :: nat

definition signal_new :: "'w signal" where
  "signal_new = \<lparr>sg_submitted = None, sg_started = None, sg_finished = None, sg_done = True,
     sg_failure = None, sg_cancelled = False, sg_wakers = replicate 4 None, sg_overflow = [],
     sg_cancel = False, sg_observers = 0\<rparr>"

definition signal_reset :: "instant \<Rightarrow> 'w signal \<Rightarrow> 'w signal" where
  "signal_reset now s = s\<lparr>sg_done := False, sg_submitted := Some now, sg_started := None,
     sg_finished := None, sg_failure := None, sg_cancelled := False,
     sg_wakers := replicate (length (sg_wakers s)) None, sg_overflow := [], sg_cancel := False\<rparr>"

text \<open>The inline wakers in order, then the overflow: the order in which they are woken.\<close>

fun flatten :: "'w option list \<Rightarrow> 'w list" where
  "flatten [] = []"
| "flatten (None # ws) = flatten ws"
| "flatten (Some w # ws) = w # flatten ws"

definition registered :: "'w signal \<Rightarrow> 'w list" where
  "registered s = flatten (sg_wakers s) @ sg_overflow s"

text \<open>\<open>publish\<close> returns the wakers that its closure wakes once the caller released its lock.\<close>

definition publish :: "instant \<Rightarrow> error option \<Rightarrow> 'w signal \<Rightarrow> 'w signal \<times> 'w list" where
  "publish now failure s =
     (s\<lparr>sg_failure := failure, sg_cancelled := sg_cancel s, sg_done := True, sg_finished := Some now,
        sg_wakers := replicate 4 None, sg_overflow := []\<rparr>,
      registered s)"

definition started :: "instant \<Rightarrow> 'w signal \<Rightarrow> 'w signal" where
  "started now s = s\<lparr>sg_started := Some (case sg_started s of None \<Rightarrow> now | Some t \<Rightarrow> t)\<rparr>"

definition outcome :: "'w signal \<Rightarrow> unit result" where
  "outcome s =
     (case sg_failure s of
        Some e \<Rightarrow> Inl (Execution e)
      | None \<Rightarrow> if sg_cancelled s then Inl Cancelled else Inr ())"

text \<open>Creating, cloning and dropping a \<open>Completion\<close> count its observers.\<close>

definition completion_new :: "'w signal \<Rightarrow> 'w signal" where
  "completion_new s = s\<lparr>sg_observers := sg_observers s + 1\<rparr>"

definition completion_drop :: "'w signal \<Rightarrow> 'w signal" where
  "completion_drop s = s\<lparr>sg_observers := sg_observers s - 1\<rparr>"

definition finished_at :: "'w signal \<Rightarrow> instant option" where
  "finished_at s = sg_finished s"

text \<open>Elapsed and queue time, in ticks of the clock.\<close>

definition profile :: "'w signal \<Rightarrow> (nat \<times> nat option) option" where
  "profile s =
     (case sg_submitted s of
        None \<Rightarrow> None
      | Some sub \<Rightarrow>
          (case sg_finished s of
             None \<Rightarrow> None
           | Some fin \<Rightarrow> Some (fin - sub, map_option (\<lambda>st. st - sub) (sg_started s))))"

definition is_complete :: "'w signal \<Rightarrow> bool" where
  "is_complete s = sg_done s"

definition completion_result :: "'w signal \<Rightarrow> unit result option" where
  "completion_result s = (if sg_done s then Some (outcome s) else None)"

text \<open>The owner of a completion: \<open>None\<close> once its runtime core is gone.\<close>

definition completion_validate_runtime :: "nat \<Rightarrow> nat option \<Rightarrow> 'w signal \<Rightarrow> unit result" where
  "completion_validate_runtime core owner s =
     (case owner of
        Some c \<Rightarrow> if c \<noteq> core then Inl (Message ''completion belongs to another runtime'') else Inr ()
      | None \<Rightarrow> if \<not> is_complete s then Inl (Message ''orphaned incomplete producer'') else Inr ())"

definition cancel :: "'w signal \<Rightarrow> 'w signal" where
  "cancel s = s\<lparr>sg_cancel := True\<rparr>"

fun fill_first :: "'w \<Rightarrow> 'w option list \<Rightarrow> 'w option list option" where
  "fill_first w [] = None"
| "fill_first w (None # ws) = Some (Some w # ws)"
| "fill_first w (Some v # ws) = map_option ((#) (Some v)) (fill_first w ws)"

definition poll :: "('w \<Rightarrow> 'w \<Rightarrow> bool) \<Rightarrow> 'w \<Rightarrow> 'w signal \<Rightarrow> 'w signal \<times> unit result option" where
  "poll ww waker s =
     (if sg_done s then (s, Some (outcome s))
      else if \<exists>w\<in>set (registered s). ww w waker then (s, None)
      else (case fill_first waker (sg_wakers s) of
              Some ws \<Rightarrow> (s\<lparr>sg_wakers := ws\<rparr>, None)
            | None \<Rightarrow> (s\<lparr>sg_overflow := sg_overflow s @ [waker]\<rparr>, None)))"

text \<open>
  One turn of the loop of \<open>wait_timeout\<close>, with the time elapsed since the call: the result
  when the run is done, \<open>Some (Inr False)\<close> when the timeout has passed, \<open>None\<close> when the
  caller waits on the condition variable for the rest.
\<close>

definition wait_timeout_turn :: "nat \<Rightarrow> nat \<Rightarrow> 'w signal \<Rightarrow> bool result option" where
  "wait_timeout_turn timeout elapsed s =
     (if sg_done s then Some (and_then (outcome s) (\<lambda>_. Inr True))
      else if timeout < elapsed then Some (Inr False) else None)"


section \<open>Wakers and results\<close>

text \<open>A run of polls, cancellations and region starts between a reset and the publication.\<close>

datatype 'w event = Poll 'w | Cancel | Start instant | Observe | Unobserve

definition handle :: "('w \<Rightarrow> 'w \<Rightarrow> bool) \<Rightarrow> 'w event \<Rightarrow> 'w signal \<Rightarrow> 'w signal" where
  "handle ww e s =
     (case e of
        Poll w \<Rightarrow> fst (poll ww w s)
      | Cancel \<Rightarrow> cancel s
      | Start t \<Rightarrow> started t s
      | Observe \<Rightarrow> completion_new s
      | Unobserve \<Rightarrow> completion_drop s)"

definition handle_all :: "('w \<Rightarrow> 'w \<Rightarrow> bool) \<Rightarrow> 'w event list \<Rightarrow> 'w signal \<Rightarrow> 'w signal" where
  "handle_all ww es s = fold (handle ww) es s"

lemma flatten_none [simp]: "flatten (replicate n None) = []"
  by (induction n) simp_all

lemma fill_first_Some:
  "fill_first w ws = Some ws' \<Longrightarrow> length ws' = length ws \<and> (\<exists>as bs. flatten ws = as @ bs \<and> flatten ws' = as @ w # bs)"
proof (induction w ws arbitrary: ws' rule: fill_first.induct)
  case (3 w v ws)
  then obtain ws1 as bs where "fill_first w ws = Some ws1" "ws' = Some v # ws1" "length ws1 = length ws"
      "flatten ws = as @ bs" "flatten ws1 = as @ w # bs" by auto
  then show ?case by (intro conjI exI [of _ "v # as"] exI [of _ bs]) simp_all
next
  case (2 w ws)
  then show ?case by (intro conjI exI [of _ "[]"] exI [of _ "flatten ws"]) auto
qed simp

lemma poll_registered:
  "set (registered (fst (poll ww w s)))
     = (if sg_done s \<or> (\<exists>v\<in>set (registered s). ww v w) then set (registered s) else insert w (set (registered s)))"
  by (auto simp: poll_def registered_def dest: fill_first_Some split: option.splits)

lemma poll_other [simp]:
  "sg_done (fst (poll ww w s)) = sg_done s" "sg_cancel (fst (poll ww w s)) = sg_cancel s"
  "sg_observers (fst (poll ww w s)) = sg_observers s" "sg_submitted (fst (poll ww w s)) = sg_submitted s"
  "sg_started (fst (poll ww w s)) = sg_started s"
  by (simp_all add: poll_def split: option.splits)

lemma handle_done [simp]: "sg_done (handle ww e s) = sg_done s"
  by (simp add: handle_def cancel_def started_def completion_new_def completion_drop_def split: event.splits)

lemma handle_all_done [simp]: "sg_done (handle_all ww es s) = sg_done s"
  unfolding handle_all_def by (induction es arbitrary: s) simp_all

lemma handle_registered:
  "registered (handle ww e s) = (case e of Poll w \<Rightarrow> registered (fst (poll ww w s)) | _ \<Rightarrow> registered s)"
  by (cases e) (simp_all add: handle_def cancel_def started_def completion_new_def completion_drop_def registered_def)

lemma handle_registered_mono: "set (registered s) \<subseteq> set (registered (handle ww e s))"
  by (auto simp: handle_registered poll_registered split: event.splits)

lemma handle_all_registered_mono: "set (registered s) \<subseteq> set (registered (handle_all ww es s))"
  unfolding handle_all_def
proof (induction es arbitrary: s)
  case (Cons e es)
  then show ?case using handle_registered_mono [of s ww e] by fastforce
qed simp

lemma poll_wakes:
  assumes "\<not> sg_done s" and "Poll w \<in> set es"
  shows "\<exists>v\<in>set (registered (handle_all ww es s)). v = w \<or> ww v w"
  using assms
proof (induction es arbitrary: s)
  case (Cons e es)
  show ?case
  proof (cases "e = Poll w")
    case True
    then have "\<exists>v\<in>set (registered (handle ww e s)). v = w \<or> ww v w"
      using Cons.prems(1) by (auto simp: handle_def poll_registered)
    then show ?thesis
      using handle_all_registered_mono [of "handle ww e s" ww es] by (auto simp: handle_all_def)
  next
    case False
    with Cons show ?thesis by (simp add: handle_all_def)
  qed
qed simp

text \<open>
  The inline places fill from the front and the overflow is used only once they are full, so the registered wakers are
  in the order of their polls.
\<close>

definition packed :: "'w signal \<Rightarrow> bool" where
  "packed s \<longleftrightarrow> (\<exists>ws k. sg_wakers s = map Some ws @ replicate k None \<and> (k \<noteq> 0 \<longrightarrow> sg_overflow s = []))"

fun polls :: "'w event list \<Rightarrow> 'w list" where
  "polls [] = []"
| "polls (Poll w # es) = w # polls es"
| "polls (_ # es) = polls es"

lemma set_polls: "w \<in> set (polls es) \<longleftrightarrow> Poll w \<in> set es"
  by (induction es rule: polls.induct) auto

lemma flatten_packed [simp]: "flatten (map Some ws @ replicate k None) = ws"
  by (induction ws) simp_all

lemma fill_first_packed:
  "fill_first w (map Some ws @ replicate k None)
     = (if k = 0 then None else Some (map Some (ws @ [w]) @ replicate (k - 1) None))"
proof (induction ws)
  case Nil
  show ?case by (cases k) simp_all
qed simp

lemma packed_poll:
  assumes "packed s" "\<not> sg_done s"
  shows "packed (fst (poll ww w s))
    \<and> registered (fst (poll ww w s)) = (if \<exists>v\<in>set (registered s). ww v w then registered s else registered s @ [w])"
proof -
  obtain ws k where s: "sg_wakers s = map Some ws @ replicate k None" "k \<noteq> 0 \<longrightarrow> sg_overflow s = []"
    using assms(1) by (auto simp: packed_def)
  show ?thesis
  proof (cases "k = 0")
    case True
    then have "fill_first w (sg_wakers s) = None" using s(1) fill_first_packed [of w ws k] by simp
    then show ?thesis using assms True s(1) flatten_packed [of ws 0] by (auto simp: poll_def packed_def registered_def)
  next
    case False
    let ?ws = "map Some (ws @ [w]) @ replicate (k - 1) None"
    have fill: "fill_first w (sg_wakers s) = Some ?ws" using s(1) fill_first_packed [of w ws k] False by simp
    have "packed (s\<lparr>sg_wakers := ?ws\<rparr>)" unfolding packed_def using False s(2)
      by (intro exI [of _ "ws @ [w]"] exI [of _ "k - 1"]) simp
    moreover have "registered s = ws" "registered (s\<lparr>sg_wakers := ?ws\<rparr>) = ws @ [w]"
      using s False flatten_packed [of ws k] flatten_packed [of "ws @ [w]" "k - 1"] by (simp_all add: registered_def)
    ultimately show ?thesis using assms fill by (simp add: poll_def del: map_append)
  qed
qed

lemma packed_handle:
  assumes "packed s" "\<not> sg_done s"
  shows "packed (handle ww e s)"
proof (cases e)
  case (Poll w)
  then show ?thesis using packed_poll [OF assms] by (simp add: handle_def)
qed (use assms(1) in \<open>simp_all add: handle_def packed_def cancel_def started_def completion_new_def completion_drop_def\<close>)

text \<open>
  A waker is added behind the others and only when none of them is known to wake its task.
\<close>

lemma handle_all_ordered:
  assumes "packed s" "\<not> sg_done s"
  shows "(\<exists>new. registered (handle_all ww es s) = registered s @ new \<and> subseq new (polls es))
    \<and> (sorted_wrt (\<lambda>u v. \<not> ww u v) (registered s) \<longrightarrow> sorted_wrt (\<lambda>u v. \<not> ww u v) (registered (handle_all ww es s)))"
  using assms
proof (induction es arbitrary: s)
  case (Cons e es)
  let ?s = "handle ww e s"
  have run: "handle_all ww (e # es) s = handle_all ww es ?s" by (simp add: handle_all_def)
  have ih: "(\<exists>new. registered (handle_all ww es ?s) = registered ?s @ new \<and> subseq new (polls es))
    \<and> (sorted_wrt (\<lambda>u v. \<not> ww u v) (registered ?s) \<longrightarrow> sorted_wrt (\<lambda>u v. \<not> ww u v) (registered (handle_all ww es ?s)))"
    using Cons.IH [OF packed_handle [OF Cons.prems]] Cons.prems(2) by simp
  show ?case
  proof (cases "\<exists>w. e = Poll w \<and> \<not> (\<exists>v\<in>set (registered s). ww v w)")
    case True
    then obtain w where w: "e = Poll w" "\<not> (\<exists>v\<in>set (registered s). ww v w)" by blast
    then have reg: "registered ?s = registered s @ [w]" using packed_poll [OF Cons.prems] by (simp add: handle_def)
    from ih obtain new where new: "registered (handle_all ww es ?s) = registered ?s @ new" "subseq new (polls es)" by blast
    have "registered (handle_all ww (e # es) s) = registered s @ (w # new)" "subseq (w # new) (polls (e # es))"
      using new reg w(1) run by simp_all
    moreover have "sorted_wrt (\<lambda>u v. \<not> ww u v) (registered s) \<Longrightarrow> sorted_wrt (\<lambda>u v. \<not> ww u v) (registered ?s)"
      using w(2) by (auto simp: reg sorted_wrt_append)
    ultimately show ?thesis using ih run by metis
  next
    case False
    then have reg: "registered ?s = registered s"
      using packed_poll [OF Cons.prems] by (auto simp: handle_registered split: event.splits)
    from ih obtain new where new: "registered (handle_all ww es ?s) = registered s @ new" "subseq new (polls es)"
      unfolding reg by blast
    have "subseq new (polls (e # es))" using new(2) by (cases e) (auto intro: list_emb_Cons)
    then show ?thesis using new(1) ih reg run by metis
  qed
qed (simp add: handle_all_def)

lemma packed_reset: "packed (signal_reset now s)"
  unfolding packed_def signal_reset_def by (intro exI [of _ "[]"] exI [of _ "length (sg_wakers s)"]) simp

lemma registered_reset [simp]: "registered (signal_reset now s) = []"
  by (simp add: registered_def signal_reset_def)

text \<open>The cancellation flag after a run of events: set by any \<open>Cancel\<close>.\<close>

lemma handle_all_cancel: "sg_cancel (handle_all ww es s) \<longleftrightarrow> sg_cancel s \<or> Cancel \<in> set es"
  unfolding handle_all_def
proof (induction es arbitrary: s)
  case (Cons e es)
  have "sg_cancel (handle ww e s) \<longleftrightarrow> sg_cancel s \<or> e = Cancel"
    by (cases e) (auto simp: handle_def cancel_def started_def completion_new_def completion_drop_def)
  with Cons show ?case by auto
qed simp

text \<open>
  C10: no wakeup is lost and the published result is right. Between the reset of a signal
  for a new run and its publication, let any sequence of polls, cancellations, region starts and observer
  changes happen. Polls in that time return \<open>Pending\<close>; the tasks woken by the publication are exactly the tasks that polled; the
  wakers woken are some of those polled with, each poll adds at most one, in the order of the polls, and none is woken
  that \<open>will_wake\<close> recognised as a repetition of an earlier one; no waker stays registered; afterwards every observation is the
  failure if there is one, else the cancellation if one was requested, else success. Of \<open>will_wake\<close> only its documented
  guarantee is used: a yes means the same task.
\<close>

theorem publish_wakes_all:
  assumes "\<And>u v. ww u v \<Longrightarrow> task u = task v"
  shows "let s1 = handle_all ww es (signal_reset t s); (s2, woken) = publish now failure s1 in
      snd (poll ww w s1) = None \<and> completion_result s1 = None
    \<and> task ` set woken = task ` {v. Poll v \<in> set es}
    \<and> subseq woken (polls es) \<and> sorted_wrt (\<lambda>u v. \<not> ww u v) woken \<and> registered s2 = []
    \<and> completion_result s2 = Some (case failure of
          Some e \<Rightarrow> Inl (Execution e)
        | None \<Rightarrow> if Cancel \<in> set es then Inl Cancelled else Inr ())"
proof -
  let ?s1 = "handle_all ww es (signal_reset t s)"
  have d: "\<not> sg_done (signal_reset t s)" "\<not> sg_cancel (signal_reset t s)" by (simp_all add: signal_reset_def)
  have reg: "registered (s1\<lparr>sg_failure := failure, sg_cancelled := c, sg_done := True, sg_finished := Some now,
        sg_wakers := replicate 4 None, sg_overflow := []\<rparr>) = []" for s1 :: "'a signal" and c
    by (simp add: registered_def)
  from d(1) have "snd (poll ww w ?s1) = None" "completion_result ?s1 = None"
    by (auto simp: poll_def completion_result_def split: option.splits)
  moreover have order: "subseq (registered ?s1) (polls es)" "sorted_wrt (\<lambda>u v. \<not> ww u v) (registered ?s1)"
    using handle_all_ordered [OF packed_reset d(1), of ww es] by auto
  moreover have "task ` set (registered ?s1) = task ` {v. Poll v \<in> set es}"
  proof
    show "task ` set (registered ?s1) \<subseteq> task ` {v. Poll v \<in> set es}"
      using order(1) by (auto simp: set_polls [symmetric] elim: list_emb_set)
    have "task v \<in> task ` set (registered ?s1)" if poll: "Poll v \<in> set es" for v
    proof -
      obtain u where "u \<in> set (registered ?s1)" "u = v \<or> ww u v" using poll_wakes [OF d(1) poll] by blast
      moreover from this(2) have "task u = task v" using assms by blast
      ultimately show ?thesis by (metis imageI)
    qed
    then show "task ` {v. Poll v \<in> set es} \<subseteq> task ` set (registered ?s1)" by blast
  qed
  ultimately show ?thesis
    using d(2) by (simp add: publish_def reg completion_result_def outcome_def handle_all_cancel split: option.splits)
qed

text \<open>The wakers \<open>2 * n\<close> and \<open>2 * n + 1\<close> wake the same task, but only equal wakers are recognised.\<close>

definition demo_events :: "nat event list" where
  "demo_events = [Poll 2, Poll 4, Poll 2, Start 5, Poll 3, Poll 6, Poll 8, Cancel]"

theorem publish_wakes_all_witness:
  "completion_result (fst (publish 9 None (handle_all (=) demo_events (signal_reset 0 signal_new)))) = Some (Inl Cancelled)
   \<and> snd (publish 9 None (handle_all (=) demo_events (signal_reset 0 signal_new))) = [2, 4, 3, 6, 8]
   \<and> (\<lambda>w. w div 2) ` set (snd (publish 9 None (handle_all (=) demo_events (signal_reset 0 signal_new)))) = {1, 2, 3, 4}"
proof -
  have "snd (publish 9 None (handle_all (=) demo_events (signal_reset 0 signal_new))) = [2, 4, 3, 6, 8]"
    by code_simp
  moreover have "Cancel \<in> set demo_events" "{v. Poll v \<in> set demo_events} = {2, 3, 4, 6, 8}" by (auto simp: demo_events_def)
  ultimately show ?thesis
    using publish_wakes_all [of "(=)" "\<lambda>w. w div 2" demo_events 0 signal_new 9 None 2]
    by (simp add: Let_def split_beta)
qed

end
