(* ===== verification/Exec_Scheduler.thy ===== *)
theory Exec_Scheduler
  imports Exec_Graph Completion_Signal
begin

text \<open>
  The submission scheduler, \<^verbatim>\<open>src/src/execution/scheduler.rs\<close>, with the run slots and the
  admission of \<^verbatim>\<open>src/src/execution/graph.rs\<close>. Everything the scheduler mutex protects is one
  state; each critical section is one function on it. Prepared graphs are named by a
  number (the shared pointer), completions by their graph and slot. An action that a worker has taken
  and not finished yet is in flight.
\<close>


section \<open>State\<close>

datatype node_state = Pending | Running | Done

record slot =
  sl_nodes :: "node_state list"
  sl_occupied :: bool
  sl_failure :: "error option"

record ('c, 'w) xgraph =
  xg_prepared :: "'c prepared"
  xg_quarantined :: bool
  xg_slots :: "slot list"
  xg_signals :: "'w signal list"

text \<open>A completion handle; \<open>Ready\<close> is \<open>Completion::ready()\<close>, done from the start.\<close>

datatype completion = Run_of nat nat | Ready

record job =
  pj_sequence :: nat
  pj_graph :: nat
  pj_slot :: nat
  pj_blockers :: nat
  pj_deps :: "completion list"

record scheduler =
  sc_pending :: "job list"
  sc_capacity :: usize
  sc_shutdown :: bool
  sc_finishing :: "nat list"
  sc_running :: "bool list"
  sc_sequence :: nat
  sc_last_started :: "nat option list"
  sc_next_lane :: nat
  sc_native :: "nat list"
  sc_native_active :: bool

datatype action = Run nat nat nat | Finish job "error option"

record ('c, 'w) exec =
  ex_sched :: scheduler
  ex_graph :: "nat \<Rightarrow> ('c, 'w) xgraph"
  ex_inflight :: "action list"

text \<open>The queue of GPU compute work, which native leases share.\<close>

abbreviation (input) compute_queue :: nat where
  "compute_queue \<equiv> 1"

definition scheduler_new :: "usize \<Rightarrow> scheduler" where
  "scheduler_new capacity = \<lparr>sc_pending = [], sc_capacity = capacity, sc_shutdown = False, sc_finishing = [],
     sc_running = replicate 5 False, sc_sequence = 0, sc_last_started = replicate 5 None,
     sc_next_lane = 0, sc_native = [], sc_native_active = False\<rparr>"


section \<open>Scheduler operations\<close>

definition occupied :: "scheduler \<Rightarrow> nat" where
  "occupied s = length (sc_pending s) + length (sc_finishing s) + length (sc_native s)
     + (if sc_native_active s then 1 else 0)"

definition native_ready :: "scheduler \<Rightarrow> nat \<Rightarrow> bool" where
  "native_ready s ticket \<longleftrightarrow>
     (case sc_native s of [] \<Rightarrow> False | t # _ \<Rightarrow> t = ticket)
     \<and> \<not> sc_running s ! compute_queue
     \<and> \<not> (\<exists>job\<in>set (sc_pending s). pj_sequence job < ticket)
     \<and> \<not> (\<exists>q\<in>set (sc_finishing s). q < ticket)"

text \<open>\<open>None\<close> is the panic on an exhausted sequence.\<close>

definition next_sequence :: "scheduler \<Rightarrow> (scheduler \<times> nat) option" where
  "next_sequence s =
     (if sc_sequence s + 1 \<le> usize_MAX then Some (s\<lparr>sc_sequence := sc_sequence s + 1\<rparr>, sc_sequence s) else None)"

definition graph_uses :: "('c, 'w) exec \<Rightarrow> nat \<Rightarrow> guse list" where
  "graph_uses w g = p_uses (xg_prepared (ex_graph w g))"

definition graph_operations :: "('c, 'w) exec \<Rightarrow> nat \<Rightarrow> 'c operation list" where
  "graph_operations w g = p_operations (xg_prepared (ex_graph w g))"

definition sched_conflicts :: "('c, 'w) exec \<Rightarrow> buffer_view \<Rightarrow> access \<Rightarrow> bool" where
  "sched_conflicts w v acc \<longleftrightarrow>
     (\<exists>job\<in>set (sc_pending (ex_sched w)). \<exists>u\<in>set (graph_uses w (pj_graph job)).
        view_conflicts v (g_view u) \<and> (writes acc \<or> writes (g_access u)))"

definition count_blockers :: "('c, 'w) exec \<Rightarrow> job list \<Rightarrow> nat \<Rightarrow> nat" where
  "count_blockers w earlier g =
     length (filter (\<lambda>job. conflicts (graph_uses w (pj_graph job)) (graph_uses w g)) earlier)"

definition enqueue :: "nat \<Rightarrow> nat \<Rightarrow> completion list \<Rightarrow> ('c, 'w) exec \<Rightarrow> ('c, 'w) exec option" where
  "enqueue g slot deps w =
     (case next_sequence (ex_sched w) of
        None \<Rightarrow> None
      | Some (s, q) \<Rightarrow>
          Some (w\<lparr>ex_sched := s\<lparr>sc_pending := sc_pending s @
            [\<lparr>pj_sequence = q, pj_graph = g, pj_slot = slot,
              pj_blockers = count_blockers w (sc_pending s) g, pj_deps = deps\<rparr>]\<rparr>\<rparr>))"

definition unblock :: "('c, 'w) exec \<Rightarrow> nat \<Rightarrow> job \<Rightarrow> job" where
  "unblock w g later =
     (if conflicts (graph_uses w g) (graph_uses w (pj_graph later))
      then later\<lparr>pj_blockers := pj_blockers later - 1\<rparr> else later)"

definition remove_job :: "nat \<Rightarrow> ('c, 'w) exec \<Rightarrow> ('c, 'w) exec \<times> job" where
  "remove_job i w =
     (let s = ex_sched w; job = sc_pending s ! i
      in (w\<lparr>ex_sched := s\<lparr>sc_pending := take i (sc_pending s)
              @ map (unblock w (pj_graph job)) (drop (Suc i) (sc_pending s)),
            sc_finishing := sc_finishing s @ [pj_sequence job]\<rparr>\<rparr>, job))"


section \<open>Choosing the next action\<close>

definition job_slot :: "('c, 'w) exec \<Rightarrow> job \<Rightarrow> slot" where
  "job_slot w job = xg_slots (ex_graph w (pj_graph job)) ! pj_slot job"

definition job_signal :: "('c, 'w) exec \<Rightarrow> job \<Rightarrow> 'w signal" where
  "job_signal w job = xg_signals (ex_graph w (pj_graph job)) ! pj_slot job"

definition update_slot :: "nat \<Rightarrow> nat \<Rightarrow> (slot \<Rightarrow> slot) \<Rightarrow> ('c, 'w) exec \<Rightarrow> ('c, 'w) exec" where
  "update_slot g i f w =
     w\<lparr>ex_graph := (ex_graph w)(g := (ex_graph w g)\<lparr>xg_slots :=
        (xg_slots (ex_graph w g))[i := f (xg_slots (ex_graph w g) ! i)]\<rparr>)\<rparr>"

definition update_signal :: "nat \<Rightarrow> nat \<Rightarrow> ('w signal \<Rightarrow> 'w signal) \<Rightarrow> ('c, 'w) exec \<Rightarrow> ('c, 'w) exec" where
  "update_signal g i f w =
     w\<lparr>ex_graph := (ex_graph w)(g := (ex_graph w g)\<lparr>xg_signals :=
        (xg_signals (ex_graph w g))[i := f (xg_signals (ex_graph w g) ! i)]\<rparr>)\<rparr>"

definition dep_result :: "('c, 'w) exec \<Rightarrow> completion \<Rightarrow> unit result option" where
  "dep_result w c =
     (case c of
        Run_of g i \<Rightarrow> completion_result (xg_signals (ex_graph w g) ! i)
      | Ready \<Rightarrow> Some (Inr ()))"

text \<open>The dependency loop: whether some dependency is unfinished before the first failed one.\<close>

fun check_deps :: "('c, 'w) exec \<Rightarrow> completion list \<Rightarrow> bool \<Rightarrow> bool \<times> error option" where
  "check_deps w [] waiting = (waiting, None)"
| "check_deps w (c # cs) waiting =
     (case dep_result w c of
        None \<Rightarrow> check_deps w cs True
      | Some (Inr _) \<Rightarrow> check_deps w cs waiting
      | Some (Inl e) \<Rightarrow> (waiting, Some (error_context e ''inference dependency failed'')))"

definition skip_pending :: "node_state \<Rightarrow> node_state" where
  "skip_pending n = (if n = Pending then Done else n)"

text \<open>A job's slot after the dependency check and, when cancelled or failed, the skipping of its nodes.\<close>

definition settle :: "bool \<Rightarrow> error option \<Rightarrow> slot \<Rightarrow> slot" where
  "settle cancelled dep_failure sl =
     (let sl1 = (case dep_failure of None \<Rightarrow> sl | Some e \<Rightarrow> sl\<lparr>sl_failure := Some e\<rparr>)
      in if cancelled \<or> sl_failure sl1 \<noteq> None then sl1\<lparr>sl_nodes := map skip_pending (sl_nodes sl1)\<rparr> else sl1)"

definition op_startable :: "scheduler \<Rightarrow> job \<Rightarrow> node_state list \<Rightarrow> 'c operation list \<Rightarrow> nat \<Rightarrow> bool" where
  "op_startable s job nodes ops i \<longleftrightarrow>
     (let lane = op_queue (ops ! i);
          native_precedes = (lane = compute_queue \<and> (case sc_native s of [] \<Rightarrow> False | t # _ \<Rightarrow> pj_sequence job > t))
      in \<not> sc_running s ! lane \<and> \<not> native_precedes \<and> nodes ! i = Pending
         \<and> (\<forall>d\<in>set (o_deps (ops ! i)). nodes ! d = Done))"

text \<open>Jobs that started last on a lane, and all before them, yield to the later ones.\<close>

definition rank :: "scheduler \<Rightarrow> nat \<Rightarrow> nat \<Rightarrow> bool \<times> nat" where
  "rank s lane q = ((case sc_last_started s ! lane of None \<Rightarrow> False | Some latest \<Rightarrow> q \<le> latest), q)"

definition rank_less :: "bool \<times> nat \<Rightarrow> bool \<times> nat \<Rightarrow> bool" where
  "rank_less a b \<longleftrightarrow> (\<not> fst a \<and> fst b) \<or> (fst a = fst b \<and> snd a < snd b)"

type_synonym candidates = "(nat \<times> nat) option list"

definition consider_op :: "scheduler \<Rightarrow> nat \<Rightarrow> node_state list \<Rightarrow> 'c operation list \<Rightarrow> nat \<Rightarrow> candidates \<Rightarrow> candidates" where
  "consider_op s j nodes ops i cands =
     (let job = sc_pending s ! j; lane = op_queue (ops ! i)
      in if op_startable s job nodes ops i
            \<and> (case cands ! lane of
                 None \<Rightarrow> True
               | Some (earlier, _) \<Rightarrow>
                   rank_less (rank s lane (pj_sequence job)) (rank s lane (pj_sequence (sc_pending s ! earlier))))
         then cands[lane := Some (j, i)] else cands)"

definition is_target :: "(nat \<times> nat) option \<Rightarrow> job \<Rightarrow> bool" where
  "is_target target job = (case target of None \<Rightarrow> True | Some gs \<Rightarrow> gs = (pj_graph job, pj_slot job))"

text \<open>
  The scan over the pending jobs, from index \<open>j\<close> on: it ends with a job to finish
  (\<open>Inl\<close>) or with the candidates of all lanes (\<open>Inr\<close>).
\<close>

fun scan :: "(nat \<times> nat) option \<Rightarrow> nat list \<Rightarrow> ('c, 'w) exec \<Rightarrow> candidates
    \<Rightarrow> ('c, 'w) exec \<times> (job \<times> error option + candidates)" where
  "scan target [] w cands = (w, Inr cands)"
| "scan target (j # js) w cands =
     (let job = sc_pending (ex_sched w) ! j;
          (waiting, dep_failure) = check_deps w (pj_deps job) False;
          w1 = update_slot (pj_graph job) (pj_slot job)
                 (settle (sg_cancel (job_signal w job)) dep_failure) w;
          sl = job_slot w1 job
      in if \<forall>n\<in>set (sl_nodes sl). n = Done
         then if \<not> is_target target job then scan target js w1 cands
              else let w2 = update_slot (pj_graph job) (pj_slot job) (\<lambda>sl. sl\<lparr>sl_failure := None\<rparr>) w1;
                       (w3, job') = remove_job j w2
                   in (w3, Inl (job', sl_failure sl))
         else if pj_blockers job \<noteq> 0 \<or> waiting then scan target js w1 cands
         else scan target js w1
                (fold (consider_op (ex_sched w1) j (sl_nodes sl) (graph_operations w1 (pj_graph job)))
                   [0..<length (graph_operations w1 (pj_graph job))] cands))"

fun pick_lane :: "('c, 'w) exec \<Rightarrow> (nat \<times> nat) option \<Rightarrow> candidates \<Rightarrow> nat list \<Rightarrow> (nat \<times> nat \<times> nat) option" where
  "pick_lane w target cands [] = None"
| "pick_lane w target cands (lane # lanes) =
     (case cands ! lane of
        None \<Rightarrow> pick_lane w target cands lanes
      | Some (j, i) \<Rightarrow>
          if \<not> is_target target (sc_pending (ex_sched w) ! j) then pick_lane w target cands lanes
          else Some (lane, j, i))"

definition start_node :: "nat \<Rightarrow> nat \<Rightarrow> nat \<Rightarrow> ('c, 'w) exec \<Rightarrow> ('c, 'w) exec \<times> action" where
  "start_node lane j i w =
     (let job = sc_pending (ex_sched w) ! j;
          w1 = update_slot (pj_graph job) (pj_slot job) (\<lambda>sl. sl\<lparr>sl_nodes := (sl_nodes sl)[i := Running]\<rparr>) w;
          s = ex_sched w1
      in (w1\<lparr>ex_sched := s\<lparr>sc_running := (sc_running s)[lane := True],
              sc_last_started := (sc_last_started s)[lane := Some (pj_sequence job)],
              sc_next_lane := (lane + 1) mod 5\<rparr>\<rparr>,
          Run (pj_graph job) (pj_slot job) i))"

definition next_action :: "(nat \<times> nat) option \<Rightarrow> ('c, 'w) exec \<Rightarrow> ('c, 'w) exec \<times> action option" where
  "next_action target w =
     (case scan target [0..<length (sc_pending (ex_sched w))] w (replicate 5 None) of
        (w1, Inl (job, failure)) \<Rightarrow> (w1, Some (Finish job failure))
      | (w1, Inr cands) \<Rightarrow>
          (case pick_lane w1 target cands (map (\<lambda>off. (sc_next_lane (ex_sched w1) + off) mod 5) [0..<5]) of
             None \<Rightarrow> (w1, None)
           | Some (lane, j, i) \<Rightarrow> let (w2, a) = start_node lane j i w1 in (w2, Some a)))"


section \<open>Carrying out an action\<close>

text \<open>
  \<open>perform\<close> of a region: the signal notes the start; the native run happens without the
  lock; then, under the lock, the lane is freed, a failure quarantines the graph and the node is done.
  \<open>outcome\<close> is what \<open>Operation::run\<close> returned: \<open>None\<close> when the worker panicked.
\<close>

definition run_failure :: "nat \<Rightarrow> unit result option \<Rightarrow> error option" where
  "run_failure node r =
     (case r of
        None \<Rightarrow> Some (DeviceLost ''native worker panicked'')
      | Some (Inl e) \<Rightarrow> Some (error_context e (''executing graph region '' @ show_nat node))
      | Some (Inr _) \<Rightarrow> None)"

definition run_begin :: "instant \<Rightarrow> nat \<Rightarrow> nat \<Rightarrow> ('c, 'w) exec \<Rightarrow> ('c, 'w) exec" where
  "run_begin now g slot w = update_signal g slot (started now) w"

definition run_end :: "nat \<Rightarrow> nat \<Rightarrow> nat \<Rightarrow> error option \<Rightarrow> ('c, 'w) exec \<Rightarrow> ('c, 'w) exec" where
  "run_end g slot node failure w =
     (let s = ex_sched w;
          w1 = w\<lparr>ex_sched := s\<lparr>sc_running := (sc_running s)[op_queue (graph_operations w g ! node) := False]\<rparr>\<rparr>;
          w2 = (if failure \<noteq> None
                then w1\<lparr>ex_graph := (ex_graph w1)(g := (ex_graph w1 g)\<lparr>xg_quarantined := True\<rparr>)\<rparr> else w1)
      in update_slot g slot (\<lambda>sl. sl\<lparr>sl_nodes := (sl_nodes sl)[node := Done],
           sl_failure := (if failure \<noteq> None then failure else sl_failure sl)\<rparr>) w2)"

text \<open>
  \<open>perform\<close> of a finished job: its slot is freed, its place among the finishing jobs given
  up and its result published; the wakers to wake are returned. \<open>None\<close> is the failed
  expectation that the job is still listed as finishing.
\<close>

definition finish_job :: "instant \<Rightarrow> job \<Rightarrow> error option \<Rightarrow> ('c, 'w) exec \<Rightarrow> (('c, 'w) exec \<times> 'w list) option" where
  "finish_job now job failure w =
     (let w1 = update_slot (pj_graph job) (pj_slot job) (\<lambda>sl. sl\<lparr>sl_occupied := False\<rparr>) w;
          s = ex_sched w1
      in case position (\<lambda>q. q = pj_sequence job) (sc_finishing s) of
           None \<Rightarrow> None
         | Some i \<Rightarrow>
             let (sg, woken) = publish now failure (job_signal w1 job)
             in Some (update_signal (pj_graph job) (pj_slot job) (\<lambda>_. sg)
                        (w1\<lparr>ex_sched := s\<lparr>sc_finishing := swap_remove i (sc_finishing s)\<rparr>\<rparr>), woken))"


section \<open>Admission\<close>

text \<open>
  \<open>submit_after\<close> from the capacity check on; \<open>hosts\<close> is the check of every used allocation
  against live host mappings. The slot chosen is the first that is free, unobserved and done.
\<close>

definition free_slot :: "('c, 'w) xgraph \<Rightarrow> nat \<Rightarrow> bool" where
  "free_slot x i \<longleftrightarrow> \<not> sl_occupied (xg_slots x ! i) \<and> sg_observers (xg_signals x ! i) = 0
     \<and> sg_done (xg_signals x ! i)"

definition begin_slot :: "slot \<Rightarrow> slot" where
  "begin_slot sl = \<lparr>sl_nodes = map (\<lambda>_. Pending) (sl_nodes sl), sl_occupied = True, sl_failure = None\<rparr>"

definition submit_locked ::
  "instant \<Rightarrow> (guse \<Rightarrow> unit result) \<Rightarrow> nat \<Rightarrow> completion list \<Rightarrow> ('c, 'w) exec
    \<Rightarrow> (('c, 'w) exec \<times> completion) result option" where
  "submit_locked now hosts g deps w =
     (if occupied (ex_sched w) \<ge> sc_capacity (ex_sched w)
      then Some (Inl (Busy ''runtime submission capacity exhausted''))
      else case try_all hosts (graph_uses w g) of
        Inl e \<Rightarrow> Some (Inl e)
      | Inr _ \<Rightarrow>
          (case List.find (free_slot (ex_graph w g)) [0..<length (xg_slots (ex_graph w g))] of
             None \<Rightarrow> Some (Inl (Busy ''prepared run slots are occupied; drop completed observers or reserve more slots''))
           | Some i \<Rightarrow>
               map_option (\<lambda>w1. Inr (w1, Run_of g i))
                 (enqueue g i deps
                   (update_slot g i begin_slot
                     (update_signal g i (\<lambda>sg. completion_new (signal_reset now sg)) w)))))"


section \<open>Native leases\<close>

definition native_enqueue :: "scheduler \<Rightarrow> (scheduler \<times> nat) result option" where
  "native_enqueue s =
     (if occupied s \<ge> sc_capacity s then Some (Inl (Busy ''runtime submission capacity exhausted''))
      else map_option (\<lambda>(s1, t). Inr (s1\<lparr>sc_native := sc_native s1 @ [t]\<rparr>, t)) (next_sequence s))"

text \<open>The turn of the waiting loop that finds the ticket ready.\<close>

definition native_enter :: "nat \<Rightarrow> scheduler \<Rightarrow> scheduler turn" where
  "native_enter t s =
     (if \<not> native_ready s t then Wait
      else Go (s\<lparr>sc_native := tl (sc_native s), sc_native_active := True,
                sc_running := (sc_running s)[compute_queue := True]\<rparr>))"

definition native_yield :: "scheduler \<Rightarrow> (scheduler \<times> nat) option" where
  "native_yield s =
     map_option (\<lambda>(s1, t). (s1\<lparr>sc_native := sc_native s1 @ [t], sc_native_active := False,
                             sc_running := (sc_running s1)[compute_queue := False]\<rparr>, t)) (next_sequence s)"

definition native_drop :: "scheduler \<Rightarrow> scheduler" where
  "native_drop s = s\<lparr>sc_native_active := False, sc_running := (sc_running s)[compute_queue := False]\<rparr>"

definition has_waiters :: "scheduler \<Rightarrow> bool" where
  "has_waiters s \<longleftrightarrow> sc_pending s \<noteq> [] \<or> sc_finishing s \<noteq> [] \<or> sc_native s \<noteq> []"

text \<open>When a worker leaves its loop, having found no action.\<close>

definition worker_exits :: "scheduler \<Rightarrow> bool" where
  "worker_exits s \<longleftrightarrow> sc_shutdown s \<and> sc_pending s = []"

end
