(* ===== verification/Vec_Multiset.thy ===== *)
theory Vec_Multiset
  imports HRX_Prelude "HOL-Library.Multiset"
begin

text \<open>Vectors as multisets: what \<^verbatim>\<open>swap_remove\<close> takes away, and distinctness of a part of a vector.\<close>

lemma swap_remove_mset: "i < length xs \<Longrightarrow> mset (swap_remove i xs) = mset xs - {#xs ! i#}"
proof -
  assume i: "i < length xs"
  then have ne: "xs \<noteq> []" by auto
  let ?ys = "xs[i := last xs]"
  have "last ?ys = last xs" using i ne by (simp add: last_conv_nth nth_list_update)
  moreover have "?ys = butlast ?ys @ [last ?ys]" using ne by simp
  then have "mset ?ys = mset (butlast ?ys) + {#last ?ys#}" by (metis mset_append mset_single_iff)
  ultimately have "mset (butlast ?ys) = mset ?ys - {#last xs#}" by simp
  then show ?thesis using i by (simp add: swap_remove_def mset_update)
qed

lemma mset_swap_remove: "i < length xs \<Longrightarrow> mset xs = add_mset (xs ! i) (mset (swap_remove i xs))"
  by (simp add: swap_remove_mset insert_DiffM)

lemma swap_remove_subset: "i < length xs \<Longrightarrow> mset (swap_remove i xs) \<subseteq># mset xs"
  by (simp add: swap_remove_mset)

lemma distinct_map_subset:
  assumes "distinct (map f ys)" "mset xs \<subseteq># mset ys"
  shows "distinct (map f xs)"
proof -
  obtain Z where "mset ys = mset xs + Z" using assms(2) by (auto simp: mset_subset_eq_exists_conv)
  moreover obtain zs where "mset zs = Z" using ex_mset by blast
  ultimately have "mset (map f ys) = mset (map f (xs @ zs))" by simp
  then have "distinct (map f (xs @ zs))" using assms(1) mset_eq_imp_distinct_iff by blast
  then show ?thesis by simp
qed

end
