(* ===== verification/Exec_Invariants.thy ===== *)
theory Exec_Invariants
  imports Exec_Scheduler Vec_Multiset
begin

text \<open>
  Safety of the submission scheduler. \<open>exec_step\<close> is one critical section of any thread, in
  any order: admission of a submission, taking the next action, the two ends of a region's
  run, finishing a job, the native leases and the signal operations. The invariant
  \<open>exec_inv\<close> has one part per concern; it is kept by every step, and the properties at the
  end read off it.
\<close>


section \<open>Steps\<close>

inductive exec_step :: "('c, 'w) exec \<Rightarrow> ('c, 'w) exec \<Rightarrow> bool" where
  submit: "submit_locked now hosts g deps w = Some (Inr (w', c)) \<Longrightarrow> exec_step w w'"
| idle: "next_action target w = (w', None) \<Longrightarrow> exec_step w w'"
| take_action: "next_action target w = (w', Some a) \<Longrightarrow> exec_step w (w'\<lparr>ex_inflight := ex_inflight w' @ [a]\<rparr>)"
| begin_run: "Run g i n \<in> set (ex_inflight w) \<Longrightarrow> exec_step w (run_begin now g i w)"
| end_run: "Run g i n \<in> set (ex_inflight w) \<Longrightarrow> failure = run_failure n r
    \<Longrightarrow> exec_step w ((run_end g i n failure w)\<lparr>ex_inflight := remove1 (Run g i n) (ex_inflight w)\<rparr>)"
| finish: "Finish job failure \<in> set (ex_inflight w) \<Longrightarrow> finish_job now job failure w = Some (w', woken)
    \<Longrightarrow> exec_step w (w'\<lparr>ex_inflight := remove1 (Finish job failure) (ex_inflight w)\<rparr>)"
| native_enqueue: "native_enqueue (ex_sched w) = Some (Inr (s, t)) \<Longrightarrow> exec_step w (w\<lparr>ex_sched := s\<rparr>)"
| native_enter: "native_enter t (ex_sched w) = Go s \<Longrightarrow> exec_step w (w\<lparr>ex_sched := s\<rparr>)"
| native_yield: "sc_native_active (ex_sched w) \<Longrightarrow> native_yield (ex_sched w) = Some (s, t)
    \<Longrightarrow> exec_step w (w\<lparr>ex_sched := s\<rparr>)"
| native_drop: "sc_native_active (ex_sched w) \<Longrightarrow> exec_step w (w\<lparr>ex_sched := native_drop (ex_sched w)\<rparr>)"
| signal_event: "exec_step w (update_signal g i (handle ww e) w)"
| shutdown: "exec_step w (w\<lparr>ex_sched := (ex_sched w)\<lparr>sc_shutdown := True\<rparr>\<rparr>)"

text \<open>Fresh graphs: prepared by \<open>prepare\<close>, one signal per slot, every slot free.\<close>

definition prepared_ok :: "'c prepared \<Rightarrow> bool" where
  "prepared_ok p \<longleftrightarrow>
     canonical (p_uses p) \<and> same_bytes (p_uses p) (concat (map o_uses (p_operations p)))
     \<and> (\<forall>b<length (p_operations p). \<forall>a\<in>set (o_deps (p_operations p ! b)). a < b)
     \<and> (\<forall>a b. a < b \<and> b < length (p_operations p)
          \<and> uses_hazard (o_uses (p_operations p ! a)) (o_uses (p_operations p ! b))
          \<longrightarrow> (a, b) \<in> (dep_edges (map o_deps (p_operations p)))\<^sup>+)"

definition graph_static :: "('c, 'w) xgraph \<Rightarrow> bool" where
  "graph_static x \<longleftrightarrow> prepared_ok (xg_prepared x) \<and> length (xg_slots x) = length (xg_signals x)
     \<and> (\<forall>sl\<in>set (xg_slots x). length (sl_nodes sl) = length (p_operations (xg_prepared x)))"

definition exec_start :: "('c, 'w) exec \<Rightarrow> bool" where
  "exec_start w \<longleftrightarrow> (\<exists>capacity. ex_sched w = scheduler_new capacity) \<and> ex_inflight w = []
     \<and> (\<forall>g. graph_static (ex_graph w g))"

definition exec_reach :: "('c, 'w) exec \<Rightarrow> bool" where
  "exec_reach w \<longleftrightarrow> (\<exists>w0. exec_start w0 \<and> exec_step\<^sup>*\<^sup>* w0 w)"

text \<open>A graph that \<open>prepare\<close> returns is \<open>prepared_ok\<close>.\<close>

lemma prepare_ok:
  assumes "prepare nv g = Inr p" and "summary_input (region_uses (bd_entries g))"
  shows "prepared_ok p"
proof -
  define rs where "rs = regions (nv_aql nv) (bd_entries g)"
  note ops = prepare_operations [OF assms, folded rs_def]
  define os where "os = map (map interval_use) (map o_uses (p_operations p))"
  have len: "length os = length (p_operations p)" by (simp add: os_def)
  have deps: "map o_deps (p_operations p) = recorded os" using ops(1) by (simp only: os_def)
  have "list_all2 refines_uses (map o_uses (p_operations p)) (map region_uses rs)"
    using ops(2) by (auto simp: list_all2_conv_all_nth)
  then have ref: "refines_uses (concat (map o_uses (p_operations p))) (concat (map region_uses rs))"
    by (rule refines_concat)
  have "concat (map region_uses rs) = region_uses (concat rs)" by (induction rs) auto
  then have "summary_input (concat (map region_uses rs))"
    using assms(2) concat_regions [of "nv_aql nv" "bd_entries g"] by (simp add: rs_def)
  with ref have inp: "summary_input (concat (map o_uses (p_operations p)))" by (rule refines_input)
  have "canonical (p_uses p)" "same_bytes (p_uses p) (concat (map o_uses (p_operations p)))"
    unfolding ops(3) using summarize_canonical [OF inp] refines_summarize [OF inp] by (simp_all add: refines_uses_def)
  moreover have "a < b" if "b < length (p_operations p)" "a \<in> set (o_deps (p_operations p ! b))" for a b
  proof -
    have "o_deps (p_operations p ! b) = recorded os ! b"
      using arg_cong [OF deps, of "\<lambda>xs. xs ! b"] that(1) by simp
    with recorded_edgeD [of b os a] that len show ?thesis by simp
  qed
  moreover have "(a, b) \<in> (dep_edges (map o_deps (p_operations p)))\<^sup>+"
    if "a < b" "b < length (p_operations p)" "uses_hazard (o_uses (p_operations p ! a)) (o_uses (p_operations p ! b))" for a b
    unfolding deps using that by (intro recorded_hazardI) (simp_all add: len os_def ops_conflict_hazard)
  ultimately show ?thesis by (simp add: prepared_ok_def)
qed


section \<open>Node order inside a job\<close>

text \<open>
  Every ancestor of a running region is done; and as long as some region is pending, the
  done regions are closed under dependencies (after a cancellation or a failure nothing
  is pending any more).
\<close>

definition op_edges :: "'c operation list \<Rightarrow> (nat \<times> nat) set" where
  "op_edges ops = dep_edges (map o_deps ops)"

definition order_ok :: "'c operation list \<Rightarrow> node_state list \<Rightarrow> bool" where
  "order_ok ops nodes \<longleftrightarrow>
     (\<forall>b<length nodes. nodes ! b = Running \<longrightarrow> (\<forall>a. (a, b) \<in> (op_edges ops)\<^sup>+ \<longrightarrow> nodes ! a = Done))
     \<and> ((\<exists>b<length nodes. nodes ! b = Pending) \<longrightarrow>
         (\<forall>b<length nodes. nodes ! b = Done \<longrightarrow> (\<forall>a. (a, b) \<in> op_edges ops \<longrightarrow> nodes ! a = Done)))"

text \<open>Dependencies point backwards and inside the operation list.\<close>

definition edges_ok :: "'c operation list \<Rightarrow> bool" where
  "edges_ok ops \<longleftrightarrow> (\<forall>a b. (a, b) \<in> op_edges ops \<longrightarrow> a < b \<and> b < length ops)"

lemma edges_okD: "edges_ok ops \<Longrightarrow> (a, b) \<in> op_edges ops \<Longrightarrow> a < b \<and> b < length ops"
  by (simp add: edges_ok_def)

lemma prepared_edges: "prepared_ok p \<Longrightarrow> edges_ok (p_operations p)"
  by (auto simp: prepared_ok_def edges_ok_def op_edges_def dep_edges_def)

lemma edges_trancl: "(a, b) \<in> (op_edges ops)\<^sup>+ \<Longrightarrow> edges_ok ops \<Longrightarrow> a < b \<and> b < length ops"
proof (induction rule: trancl_induct)
  case (base y)
  then show ?case by (rule edges_okD [rotated])
next
  case (step y z)
  from edges_okD [OF step.prems step.hyps(2)] step.IH [OF step.prems] show ?case by linarith
qed

lemma order_okI:
  assumes "\<And>a b. b < length nodes \<Longrightarrow> nodes ! b = Running \<Longrightarrow> (a, b) \<in> (op_edges ops)\<^sup>+ \<Longrightarrow> nodes ! a = Done"
    and "\<And>a b c. c < length nodes \<Longrightarrow> nodes ! c = Pending \<Longrightarrow> b < length nodes \<Longrightarrow> nodes ! b = Done
      \<Longrightarrow> (a, b) \<in> op_edges ops \<Longrightarrow> nodes ! a = Done"
  shows "order_ok ops nodes"
  unfolding order_ok_def using assms by blast

lemma order_ok_running:
  "order_ok ops nodes \<Longrightarrow> b < length nodes \<Longrightarrow> nodes ! b = Running \<Longrightarrow> (a, b) \<in> (op_edges ops)\<^sup>+ \<Longrightarrow> nodes ! a = Done"
  unfolding order_ok_def by blast

lemma order_ok_closed:
  "order_ok ops nodes \<Longrightarrow> c < length nodes \<Longrightarrow> nodes ! c = Pending \<Longrightarrow> b < length nodes \<Longrightarrow> nodes ! b = Done
    \<Longrightarrow> (a, b) \<in> op_edges ops \<Longrightarrow> nodes ! a = Done"
  unfolding order_ok_def by blast

lemma skip_pending_simps [simp]:
  "skip_pending n = Running \<longleftrightarrow> n = Running" "skip_pending n = Done \<longleftrightarrow> n \<noteq> Running" "skip_pending n \<noteq> Pending"
  by (cases n; simp add: skip_pending_def)+

lemma order_ok_fresh: "edges_ok ops \<Longrightarrow> length nodes = length ops \<Longrightarrow> order_ok ops (map (\<lambda>_. Pending) nodes)"
  by (rule order_okI) auto

lemma order_ok_skip:
  assumes ok: "order_ok ops nodes" and e: "edges_ok ops" and len: "length nodes = length ops"
  shows "order_ok ops (map skip_pending nodes)"
proof (rule order_okI)
  fix a b assume b: "b < length (map skip_pending nodes)" "map skip_pending nodes ! b = Running" and ab: "(a, b) \<in> (op_edges ops)\<^sup>+"
  then have "nodes ! a = Done" by (intro order_ok_running [OF ok _ _ ab]) simp_all
  moreover have "a < length nodes" using edges_trancl [OF ab e] b(1) by simp
  ultimately show "map skip_pending nodes ! a = Done" by simp
qed simp

lemma order_ok_start:
  assumes ok: "order_ok ops nodes" and e: "edges_ok ops" and len: "length nodes = length ops"
    and i: "i < length nodes" "nodes ! i = Pending" and deps: "\<forall>d\<in>set (o_deps (ops ! i)). nodes ! d = Done"
  shows "order_ok ops (nodes[i := Running])"
proof -
  have closed: "nodes ! a = Done" if "(a, b) \<in> (op_edges ops)\<^sup>*" "nodes ! b = Done" "b < length nodes" for a b
    using that
  proof (induction rule: converse_rtrancl_induct)
    case (step a c)
    have "c < length nodes" using edges_okD [OF e step.hyps(1)] len by simp
    with order_ok_closed [OF ok i] step show ?case by blast
  qed
  have anc: "nodes ! a = Done" if a: "(a, i) \<in> (op_edges ops)\<^sup>+" for a
  proof -
    obtain d where d: "(a, d) \<in> (op_edges ops)\<^sup>*" "(d, i) \<in> op_edges ops" using a by (auto dest: tranclD2)
    have "nodes ! d = Done" using deps d(2) by (auto simp: op_edges_def dep_edges_def)
    moreover have "d < length nodes" using edges_okD [OF e d(2)] len by simp
    ultimately show ?thesis using closed [OF d(1)] by blast
  qed
  have ne: "a \<noteq> i" if "nodes ! a = Done" for a using that i(2) by auto
  have keep: "nodes[i := Running] ! a = Done" if "nodes ! a = Done" for a using ne [OF that] that by simp
  show ?thesis
  proof (rule order_okI)
    fix a b assume b: "b < length (nodes[i := Running])" "nodes[i := Running] ! b = Running" and ab: "(a, b) \<in> (op_edges ops)\<^sup>+"
    show "nodes[i := Running] ! a = Done"
    proof (cases "b = i")
      case True
      with ab anc keep show ?thesis by blast
    next
      case False
      with b order_ok_running [OF ok _ _ ab] keep show ?thesis by simp
    qed
  next
    fix a b c assume c: "c < length (nodes[i := Running])" "nodes[i := Running] ! c = Pending"
      and b: "b < length (nodes[i := Running])" "nodes[i := Running] ! b = Done" and ab: "(a, b) \<in> op_edges ops"
    have "b \<noteq> i" using b i by auto
    with b have "nodes ! a = Done" by (intro order_ok_closed [OF ok i _ _ ab]) simp_all
    then show "nodes[i := Running] ! a = Done" by (rule keep)
  qed
qed

lemma order_ok_done:
  assumes ok: "order_ok ops nodes" and i: "i < length nodes" "nodes ! i = Running"
  shows "order_ok ops (nodes[i := Done])"
proof -
  have keep: "nodes[i := Done] ! a = Done" if "nodes ! a = Done" for a
    using that i by (cases "a = i") simp_all
  show ?thesis
  proof (rule order_okI)
    fix a b assume b: "b < length (nodes[i := Done])" "nodes[i := Done] ! b = Running" and ab: "(a, b) \<in> (op_edges ops)\<^sup>+"
    have "b \<noteq> i" using b i by auto
    with b order_ok_running [OF ok _ _ ab] keep show "nodes[i := Done] ! a = Done" by simp
  next
    fix a b c assume c: "c < length (nodes[i := Done])" "nodes[i := Done] ! c = Pending"
      and b: "b < length (nodes[i := Done])" "nodes[i := Done] ! b = Done" and ab: "(a, b) \<in> op_edges ops"
    have "c \<noteq> i" using c i by auto
    show "nodes[i := Done] ! a = Done"
    proof (cases "b = i")
      case True
      with order_ok_running [OF ok i] ab keep show ?thesis by blast
    next
      case False
      with b c \<open>c \<noteq> i\<close> have "nodes ! a = Done" by (intro order_ok_closed [OF ok _ _ _ _ ab, of c]) simp_all
      then show ?thesis by (rule keep)
    qed
  qed
qed


section \<open>Counting blockers\<close>

text \<open>Each entry of a list carries the number of earlier entries related to it.\<close>

definition counts :: "('a \<Rightarrow> 'a \<Rightarrow> bool) \<Rightarrow> ('a \<times> nat) list \<Rightarrow> bool" where
  "counts c xs \<longleftrightarrow> (\<forall>j<length xs. snd (xs ! j) = length (filter (\<lambda>h. c (fst h) (fst (xs ! j))) (take j xs)))"

lemma counts_snoc: "counts c xs \<Longrightarrow> counts c (xs @ [(g, length (filter (\<lambda>h. c (fst h) g) xs))])"
  by (auto simp: counts_def nth_append less_Suc_eq)

lemma filter_fst_map: "length (filter (\<lambda>h. P (fst h)) (map (\<lambda>(g, b). (g, f g b)) ys)) = length (filter (\<lambda>h. P (fst h)) ys)"
  by (induction ys) auto

lemma counts_at:
  "counts c xs \<Longrightarrow> j < length xs \<Longrightarrow> snd (xs ! j) = length (filter (\<lambda>h. c (fst h) (fst (xs ! j))) (take j xs))"
  by (simp add: counts_def)

lemma counts_remove:
  assumes "counts c (xs @ (g0, n) # ys)"
  shows "counts c (xs @ map (\<lambda>(g, b). (g, if c g0 g then b - 1 else b)) ys)"
  unfolding counts_def
proof (intro allI impI)
  let ?f = "\<lambda>(g, b). (g, if c g0 g then b - 1 else b :: nat)"
  fix j assume j: "j < length (xs @ map ?f ys)"
  show "snd ((xs @ map ?f ys) ! j) = length (filter (\<lambda>h. c (fst h) (fst ((xs @ map ?f ys) ! j))) (take j (xs @ map ?f ys)))"
  proof (cases "j < length xs")
    case True
    with counts_at [OF assms, of j] show ?thesis by (simp add: nth_append)
  next
    case False
    define k where "k = j - length xs"
    have k: "j = length xs + k" "k < length ys" using False j by (auto simp: k_def)
    obtain g b where y: "ys ! k = (g, b)" by fastforce
    have b: "b = length (filter (\<lambda>h. c (fst h) g) xs) + (if c g0 g then 1 else 0)
        + length (filter (\<lambda>h. c (fst h) g) (take k ys))"
      using counts_at [OF assms, of "Suc j"] k y by (simp add: nth_append)
    have "length (filter (\<lambda>h. c (fst h) g) (take k (map ?f ys))) = length (filter (\<lambda>h. c (fst h) g) (take k ys))"
      using filter_fst_map [of "\<lambda>h. c h g" "\<lambda>g b. if c g0 g then b - 1 else b" "take k ys"] by (simp add: take_map)
    with b k y show ?thesis by (simp add: nth_append)
  qed
qed


section \<open>The invariant\<close>

definition nodes_of :: "('c, 'w) exec \<Rightarrow> nat \<Rightarrow> nat \<Rightarrow> node_state list" where
  "nodes_of w g i = sl_nodes (xg_slots (ex_graph w g) ! i)"

fun finish_jobs :: "action list \<Rightarrow> job list" where
  "finish_jobs [] = []"
| "finish_jobs (Finish job _ # as) = job # finish_jobs as"
| "finish_jobs (Run _ _ _ # as) = finish_jobs as"

definition job_key :: "job \<Rightarrow> nat \<times> nat" where
  "job_key job = (pj_graph job, pj_slot job)"

definition live_jobs :: "('c, 'w) exec \<Rightarrow> job list" where
  "live_jobs w = sc_pending (ex_sched w) @ finish_jobs (ex_inflight w)"

definition static_ok :: "('c, 'w) exec \<Rightarrow> bool" where
  "static_ok w \<longleftrightarrow> (\<forall>g. graph_static (ex_graph w g))"

definition seq_ok :: "scheduler \<Rightarrow> bool" where
  "seq_ok s \<longleftrightarrow> sorted_wrt (<) (map pj_sequence (sc_pending s))
     \<and> (\<forall>job\<in>set (sc_pending s). pj_sequence job < sc_sequence s)
     \<and> (\<forall>q\<in>set (sc_finishing s). q < sc_sequence s)
     \<and> sorted_wrt (<) (sc_native s) \<and> (\<forall>t\<in>set (sc_native s). t < sc_sequence s)
     \<and> length (sc_running s) = 5 \<and> length (sc_last_started s) = 5 \<and> occupied s \<le> sc_capacity s"

definition blockers_ok :: "('c, 'w) exec \<Rightarrow> bool" where
  "blockers_ok w \<longleftrightarrow> counts (\<lambda>g h. conflicts (graph_uses w g) (graph_uses w h))
     (map (\<lambda>job. (pj_graph job, pj_blockers job)) (sc_pending (ex_sched w)))"

definition slots_ok :: "('c, 'w) exec \<Rightarrow> bool" where
  "slots_ok w \<longleftrightarrow> distinct (map job_key (live_jobs w))
     \<and> (\<forall>job\<in>set (live_jobs w). pj_slot job < length (xg_slots (ex_graph w (pj_graph job))) \<and> sl_occupied (job_slot w job))
     \<and> mset (sc_finishing (ex_sched w)) = mset (map pj_sequence (finish_jobs (ex_inflight w)))"

definition runs_ok :: "('c, 'w) exec \<Rightarrow> bool" where
  "runs_ok w \<longleftrightarrow>
     (\<forall>g i n. Run g i n \<in> set (ex_inflight w) \<longrightarrow>
        (g, i) \<in> job_key ` set (sc_pending (ex_sched w)) \<and> n < length (graph_operations w g))
     \<and> (\<forall>job\<in>set (sc_pending (ex_sched w)). \<forall>n<length (graph_operations w (pj_graph job)).
          nodes_of w (pj_graph job) (pj_slot job) ! n = Running \<longleftrightarrow> Run (pj_graph job) (pj_slot job) n \<in> set (ex_inflight w))"

definition runs_on :: "('c, 'w) exec \<Rightarrow> nat \<Rightarrow> action \<Rightarrow> bool" where
  "runs_on w lane a = (case a of Run g i n \<Rightarrow> op_queue (graph_operations w g ! n) = lane | Finish _ _ \<Rightarrow> False)"

definition lane_load :: "('c, 'w) exec \<Rightarrow> nat \<Rightarrow> nat" where
  "lane_load w lane = length (filter (runs_on w lane) (ex_inflight w))
     + (if lane = compute_queue \<and> sc_native_active (ex_sched w) then 1 else 0)"

definition lanes_ok :: "('c, 'w) exec \<Rightarrow> bool" where
  "lanes_ok w \<longleftrightarrow> (\<forall>lane<5. lane_load w lane = (if sc_running (ex_sched w) ! lane then 1 else 0))"

definition progress_ok :: "('c, 'w) exec \<Rightarrow> bool" where
  "progress_ok w \<longleftrightarrow> (\<forall>job\<in>set (sc_pending (ex_sched w)).
     order_ok (graph_operations w (pj_graph job)) (nodes_of w (pj_graph job) (pj_slot job))
     \<and> (Running \<in> set (nodes_of w (pj_graph job) (pj_slot job)) \<longrightarrow> pj_blockers job = 0))"

definition exec_inv :: "('c, 'w) exec \<Rightarrow> bool" where
  "exec_inv w \<longleftrightarrow> static_ok w \<and> seq_ok (ex_sched w) \<and> blockers_ok w \<and> slots_ok w \<and> runs_ok w \<and> lanes_ok w \<and> progress_ok w"

lemmas exec_inv_parts = static_ok_def seq_ok_def blockers_ok_def slots_ok_def runs_ok_def lanes_ok_def progress_ok_def

text \<open>What an update of the scheduler, of one slot or of one signal leaves alone.\<close>

lemma exec_update_simps [simp]:
  "graph_uses (w\<lparr>ex_sched := s\<rparr>) = graph_uses w" "graph_uses (w\<lparr>ex_inflight := as\<rparr>) = graph_uses w"
  "graph_operations (w\<lparr>ex_sched := s\<rparr>) = graph_operations w" "graph_operations (w\<lparr>ex_inflight := as\<rparr>) = graph_operations w"
  "nodes_of (w\<lparr>ex_sched := s\<rparr>) = nodes_of w" "nodes_of (w\<lparr>ex_inflight := as\<rparr>) = nodes_of w"
  "job_slot (w\<lparr>ex_sched := s\<rparr>) = job_slot w" "job_slot (w\<lparr>ex_inflight := as\<rparr>) = job_slot w"
  "runs_on (w\<lparr>ex_sched := s\<rparr>) = runs_on w" "runs_on (w\<lparr>ex_inflight := as\<rparr>) = runs_on w"
  by (auto simp: graph_uses_def graph_operations_def nodes_of_def job_slot_def runs_on_def fun_eq_iff split: action.splits)

lemma update_slot_simps [simp]:
  "ex_sched (update_slot g i f w) = ex_sched w" "ex_inflight (update_slot g i f w) = ex_inflight w"
  "xg_prepared (ex_graph (update_slot g i f w) h) = xg_prepared (ex_graph w h)"
  "xg_signals (ex_graph (update_slot g i f w) h) = xg_signals (ex_graph w h)"
  "xg_quarantined (ex_graph (update_slot g i f w) h) = xg_quarantined (ex_graph w h)"
  "length (xg_slots (ex_graph (update_slot g i f w) h)) = length (xg_slots (ex_graph w h))"
  "graph_uses (update_slot g i f w) = graph_uses w" "graph_operations (update_slot g i f w) = graph_operations w"
  "runs_on (update_slot g i f w) = runs_on w"
  by (auto simp: update_slot_def graph_uses_def graph_operations_def runs_on_def fun_eq_iff split: action.splits)

lemma update_slot_at:
  "i < length (xg_slots (ex_graph w g)) \<Longrightarrow>
     xg_slots (ex_graph (update_slot g i f w) h) ! k =
       (if (h, k) = (g, i) then f (xg_slots (ex_graph w g) ! i) else xg_slots (ex_graph w h) ! k)"
  by (auto simp: update_slot_def)

lemma update_signal_simps [simp]:
  "ex_sched (update_signal g i f w) = ex_sched w" "ex_inflight (update_signal g i f w) = ex_inflight w"
  "xg_prepared (ex_graph (update_signal g i f w) h) = xg_prepared (ex_graph w h)"
  "xg_slots (ex_graph (update_signal g i f w) h) = xg_slots (ex_graph w h)"
  "xg_quarantined (ex_graph (update_signal g i f w) h) = xg_quarantined (ex_graph w h)"
  "length (xg_signals (ex_graph (update_signal g i f w) h)) = length (xg_signals (ex_graph w h))"
  "graph_uses (update_signal g i f w) = graph_uses w" "graph_operations (update_signal g i f w) = graph_operations w"
  "nodes_of (update_signal g i f w) = nodes_of w" "job_slot (update_signal g i f w) = job_slot w"
  "runs_on (update_signal g i f w) = runs_on w"
  by (auto simp: update_signal_def graph_uses_def graph_operations_def nodes_of_def job_slot_def runs_on_def
      fun_eq_iff split: action.splits)

text \<open>The invariant depends only on the scheduler, the slots, the prepared graphs and the actions in flight.\<close>

lemma exec_inv_frame:
  assumes "exec_inv w" and "ex_sched v = ex_sched w" "ex_inflight v = ex_inflight w"
    and "\<And>h. xg_prepared (ex_graph v h) = xg_prepared (ex_graph w h)"
    and "\<And>h. xg_slots (ex_graph v h) = xg_slots (ex_graph w h)"
    and "\<And>h. length (xg_signals (ex_graph v h)) = length (xg_signals (ex_graph w h))"
  shows "exec_inv v"
proof -
  have "graph_uses v = graph_uses w" "graph_operations v = graph_operations w" "nodes_of v = nodes_of w"
      "job_slot v = job_slot w"
    by (auto simp: graph_uses_def graph_operations_def nodes_of_def job_slot_def assms fun_eq_iff)
  moreover from this have "runs_on v = runs_on w" by (auto simp: runs_on_def fun_eq_iff split: action.splits)
  moreover have "graph_static (ex_graph v h) = graph_static (ex_graph w h)" for h
    by (simp add: graph_static_def assms)
  ultimately show ?thesis
    using assms(1) by (simp add: exec_inv_def exec_inv_parts lane_load_def live_jobs_def assms(2,3,5))
qed

lemma exec_inv_signal: "exec_inv w \<Longrightarrow> exec_inv (update_signal g i f w)"
  by (erule exec_inv_frame) simp_all

lemma exec_inv_slot_bound:
  "exec_inv w \<Longrightarrow> job \<in> set (live_jobs w) \<Longrightarrow> pj_slot job < length (xg_slots (ex_graph w (pj_graph job)))"
  by (simp add: exec_inv_def slots_ok_def)

lemma pending_live: "job \<in> set (sc_pending (ex_sched w)) \<Longrightarrow> job \<in> set (live_jobs w)"
  by (simp add: live_jobs_def)

lemma exec_inv_nodes_length:
  assumes "exec_inv w" "i < length (xg_slots (ex_graph w g))"
  shows "length (nodes_of w g i) = length (graph_operations w g)"
  using assms by (simp add: exec_inv_def static_ok_def graph_static_def nodes_of_def graph_operations_def)

lemma exec_inv_edges: "exec_inv w \<Longrightarrow> edges_ok (graph_operations w g)"
  by (simp add: exec_inv_def static_ok_def graph_static_def graph_operations_def prepared_edges)

lemma nodes_of_update:
  "i < length (xg_slots (ex_graph w g)) \<Longrightarrow>
     nodes_of (update_slot g i f w) h k = (if (h, k) = (g, i) then sl_nodes (f (xg_slots (ex_graph w g) ! i)) else nodes_of w h k)"
  by (simp add: nodes_of_def update_slot_at)

lemma static_slot:
  assumes "static_ok w" "i < length (xg_slots (ex_graph w g))"
    and "length (sl_nodes (f (xg_slots (ex_graph w g) ! i))) = length (nodes_of w g i)"
  shows "static_ok (update_slot g i f w)"
  unfolding static_ok_def graph_static_def
proof (intro allI conjI ballI)
  fix h
  show "prepared_ok (xg_prepared (ex_graph (update_slot g i f w) h))"
      "length (xg_slots (ex_graph (update_slot g i f w) h)) = length (xg_signals (ex_graph (update_slot g i f w) h))"
    using assms(1) by (simp_all add: static_ok_def graph_static_def)
  fix sl assume "sl \<in> set (xg_slots (ex_graph (update_slot g i f w) h))"
  then obtain k where k: "k < length (xg_slots (ex_graph w h))" "sl = xg_slots (ex_graph (update_slot g i f w) h) ! k"
    by (auto simp: in_set_conv_nth)
  then show "length (sl_nodes sl) = length (p_operations (xg_prepared (ex_graph (update_slot g i f w) h)))"
    using assms by (auto simp: update_slot_at static_ok_def graph_static_def nodes_of_def)
qed

text \<open>A slot of a pending job may change its nodes if the running ones stay and the order is kept.\<close>

lemma exec_inv_slot:
  assumes inv: "exec_inv w" and job: "job \<in> set (sc_pending (ex_sched w))"
    and f: "sl_occupied (f (job_slot w job)) = sl_occupied (job_slot w job)"
      "length (sl_nodes (f (job_slot w job))) = length (sl_nodes (job_slot w job))"
      "\<And>n. n < length (sl_nodes (job_slot w job)) \<Longrightarrow>
         sl_nodes (f (job_slot w job)) ! n = Running \<longleftrightarrow> sl_nodes (job_slot w job) ! n = Running"
      "order_ok (graph_operations w (pj_graph job)) (sl_nodes (f (job_slot w job)))"
  shows "exec_inv (update_slot (pj_graph job) (pj_slot job) f w)"
proof -
  let ?g = "pj_graph job" and ?i = "pj_slot job" and ?w = "update_slot (pj_graph job) (pj_slot job) f w"
  have b: "?i < length (xg_slots (ex_graph w ?g))"
    using exec_inv_slot_bound [OF inv pending_live [OF job]] .
  have slot: "xg_slots (ex_graph w ?g) ! ?i = job_slot w job" by (simp add: job_slot_def)
  have nodes: "nodes_of ?w h k = (if (h, k) = (?g, ?i) then sl_nodes (f (job_slot w job)) else nodes_of w h k)" for h k
    using nodes_of_update [OF b, of f h k] by (simp add: slot)
  have old: "nodes_of w ?g ?i = sl_nodes (job_slot w job)" by (simp add: nodes_of_def slot)
  have len: "length (nodes_of w ?g ?i) = length (graph_operations w ?g)"
    using exec_inv_nodes_length [OF inv b] .
  have "static_ok ?w" using inv b f(2) by (intro static_slot) (simp_all add: exec_inv_def slot old)
  moreover have "slots_ok ?w"
  proof -
    have "sl_occupied (f (job_slot w job))"
      using inv f(1) pending_live [OF job] by (simp add: exec_inv_def slots_ok_def)
    then have "sl_occupied (job_slot ?w j)" if "sl_occupied (job_slot w j)" for j
      using that b by (simp add: job_slot_def update_slot_at)
    with inv show ?thesis by (simp add: exec_inv_def slots_ok_def live_jobs_def)
  qed
  moreover have "runs_ok ?w"
    using inv f(3) len by (auto simp: exec_inv_def runs_ok_def nodes old)
  moreover have "lanes_ok ?w"
  proof -
    have "runs_on ?w = runs_on w" by (auto simp: runs_on_def fun_eq_iff split: action.splits)
    with inv show ?thesis by (simp add: exec_inv_def lanes_ok_def lane_load_def)
  qed
  moreover have "progress_ok ?w"
    unfolding progress_ok_def
  proof (intro ballI conjI impI)
    fix j assume j: "j \<in> set (sc_pending (ex_sched ?w))"
    then show "order_ok (graph_operations ?w (pj_graph j)) (nodes_of ?w (pj_graph j) (pj_slot j))"
      using inv f(4) by (auto simp: exec_inv_def progress_ok_def nodes)
    assume "Running \<in> set (nodes_of ?w (pj_graph j) (pj_slot j))"
    then have "Running \<in> set (nodes_of w (pj_graph j) (pj_slot j))"
      using f(2,3) by (auto simp: nodes old in_set_conv_nth split: if_splits)
    then show "pj_blockers j = 0" using inv j by (auto simp: exec_inv_def progress_ok_def)
  qed
  ultimately show ?thesis using inv by (simp add: exec_inv_def blockers_ok_def)
qed

lemma settle_cases:
  "sl_nodes (settle c d sl) = sl_nodes sl \<or> sl_nodes (settle c d sl) = map skip_pending (sl_nodes sl)"
  "sl_occupied (settle c d sl) = sl_occupied sl"
  by (auto simp: settle_def Let_def split: option.splits)

lemma exec_inv_settle:
  assumes inv: "exec_inv w" and job: "job \<in> set (sc_pending (ex_sched w))"
  shows "exec_inv (update_slot (pj_graph job) (pj_slot job) (settle c d) w)"
proof (rule exec_inv_slot [OF inv job])
  let ?ops = "graph_operations w (pj_graph job)" and ?sl = "job_slot w job"
  have old: "nodes_of w (pj_graph job) (pj_slot job) = sl_nodes ?sl" by (simp add: nodes_of_def job_slot_def)
  have ord: "order_ok ?ops (sl_nodes ?sl)" using inv job old by (auto simp: exec_inv_def progress_ok_def)
  have len: "length (sl_nodes ?sl) = length ?ops"
    using exec_inv_nodes_length [OF inv exec_inv_slot_bound [OF inv pending_live [OF job]]] old by simp
  show "order_ok ?ops (sl_nodes (settle c d ?sl))"
    using settle_cases(1) [of c d ?sl] ord order_ok_skip [OF ord exec_inv_edges [OF inv] len] by auto
  show "sl_nodes (settle c d ?sl) ! n = Running \<longleftrightarrow> sl_nodes ?sl ! n = Running" if "n < length (sl_nodes ?sl)" for n
    using settle_cases(1) [of c d ?sl] that by auto
  show "length (sl_nodes (settle c d ?sl)) = length (sl_nodes ?sl)" using settle_cases(1) [of c d ?sl] by auto
qed (rule settle_cases)

lemma exec_inv_failure:
  assumes inv: "exec_inv w" and job: "job \<in> set (sc_pending (ex_sched w))"
  shows "exec_inv (update_slot (pj_graph job) (pj_slot job) (\<lambda>sl. sl\<lparr>sl_failure := e\<rparr>) w)"
proof (rule exec_inv_slot [OF inv job])
  show "order_ok (graph_operations w (pj_graph job)) (sl_nodes ((job_slot w job)\<lparr>sl_failure := e\<rparr>))"
    using inv job by (auto simp: exec_inv_def progress_ok_def nodes_of_def job_slot_def)
qed simp_all


section \<open>Taking a finished job out\<close>

lemma finish_jobs_append [simp]: "finish_jobs (as @ bs) = finish_jobs as @ finish_jobs bs"
  by (induction as rule: finish_jobs.induct) simp_all

lemma unblock_simps [simp]:
  "pj_graph (unblock w g job) = pj_graph job" "pj_slot (unblock w g job) = pj_slot job"
  "pj_sequence (unblock w g job) = pj_sequence job" "pj_deps (unblock w g job) = pj_deps job"
  "job_key (unblock w g job) = job_key job" "job_slot v (unblock w g job) = job_slot v job"
  by (simp_all add: unblock_def job_key_def job_slot_def)

lemma unblock_blockers:
  "pj_blockers (unblock w g job)
     = (if conflicts (graph_uses w g) (graph_uses w (pj_graph job)) then pj_blockers job - 1 else pj_blockers job)"
  by (simp add: unblock_def)

lemma pending_split:
  "j < length ps \<Longrightarrow> ps = take j ps @ ps ! j # drop (Suc j) ps"
  by (rule id_take_nth_drop)

lemma exec_inv_remove:
  assumes inv: "exec_inv w" and j: "j < length (sc_pending (ex_sched w))"
    and all_done: "\<forall>n\<in>set (sl_nodes (job_slot w (sc_pending (ex_sched w) ! j))). n = Done"
    and rm: "remove_job j w = (w1, job)"
  shows "exec_inv (w1\<lparr>ex_inflight := ex_inflight w1 @ [Finish job failure]\<rparr>)"
proof -
  let ?ps = "sc_pending (ex_sched w)" and ?s = "ex_sched w"
  define xs ys where "xs = take j ?ps" and "ys = drop (Suc j) ?ps"
  let ?ys = "map (unblock w (pj_graph job)) ys"
  have job: "job = ?ps ! j" using rm by (simp add: remove_job_def Let_def)
  have ps: "?ps = xs @ job # ys" using pending_split [OF j] by (simp add: xs_def ys_def job)
  have w1: "w1 = w\<lparr>ex_sched := ?s\<lparr>sc_pending := xs @ ?ys, sc_finishing := sc_finishing ?s @ [pj_sequence job]\<rparr>\<rparr>"
    using rm by (auto simp: remove_job_def Let_def xs_def ys_def)
  let ?w = "w1\<lparr>ex_inflight := ex_inflight w1 @ [Finish job failure]\<rparr>"
  have nodes: "nodes_of w (pj_graph job) (pj_slot job) = sl_nodes (job_slot w job)"
    by (simp add: nodes_of_def job_slot_def)
  have jp: "job \<in> set ?ps" using ps by simp
  have len: "length (nodes_of w (pj_graph job) (pj_slot job)) = length (graph_operations w (pj_graph job))"
    using exec_inv_nodes_length [OF inv exec_inv_slot_bound [OF inv pending_live [OF jp]]] .
  have "static_ok ?w" using inv by (simp add: exec_inv_def static_ok_def w1)
  moreover have "seq_ok (ex_sched ?w)"
    using inv by (auto simp: exec_inv_def seq_ok_def occupied_def w1 ps sorted_wrt_append comp_def)
  moreover have "blockers_ok ?w"
  proof -
    have "counts (\<lambda>g h. conflicts (graph_uses w g) (graph_uses w h))
        (map (\<lambda>job. (pj_graph job, pj_blockers job)) xs @ (pj_graph job, pj_blockers job) # map (\<lambda>job. (pj_graph job, pj_blockers job)) ys)"
      using inv by (simp add: exec_inv_def blockers_ok_def ps)
    from counts_remove [OF this] show ?thesis
      by (simp add: blockers_ok_def w1 comp_def unblock_blockers)
  qed
  moreover have "slots_ok ?w"
    using inv by (auto simp: exec_inv_def slots_ok_def live_jobs_def w1 ps comp_def)
  moreover have "runs_ok ?w"
  proof -
    have no: "Run (pj_graph job) (pj_slot job) n \<notin> set (ex_inflight w)" for n
    proof
      assume r: "Run (pj_graph job) (pj_slot job) n \<in> set (ex_inflight w)"
      then have "n < length (graph_operations w (pj_graph job))" using inv by (auto simp: exec_inv_def runs_ok_def)
      with r inv jp have "nodes_of w (pj_graph job) (pj_slot job) ! n = Running" "n < length (nodes_of w (pj_graph job) (pj_slot job))"
        using len by (auto simp: exec_inv_def runs_ok_def)
      with all_done nodes job show False by (metis node_state.distinct(5) nth_mem)
    qed
    have key: "(g, i) \<in> job_key ` set (xs @ ys)" if "Run g i n \<in> set (ex_inflight w)" for g i n
    proof -
      have "(g, i) \<in> job_key ` set (xs @ job # ys)" using inv that ps by (auto simp: exec_inv_def runs_ok_def)
      moreover have "(g, i) \<noteq> job_key job" using no that by (auto simp: job_key_def)
      ultimately show ?thesis by auto
    qed
    have "job_key ` set (xs @ ?ys) = job_key ` set (xs @ ys)" by (auto simp: image_Un image_image)
    with key inv show ?thesis
      by (auto simp: exec_inv_def runs_ok_def w1 ps image_Un image_image)
  qed
  moreover have "lanes_ok ?w"
  proof -
    have "lane_load ?w l = lane_load w l" for l by (simp add: lane_load_def w1) (simp add: runs_on_def)
    with inv show ?thesis by (simp add: exec_inv_def lanes_ok_def w1)
  qed
  moreover have "progress_ok ?w"
    using inv by (auto simp: exec_inv_def progress_ok_def w1 ps unblock_blockers)
  ultimately show ?thesis by (simp add: exec_inv_def)
qed

section \<open>Starting and ending a region\<close>

lemma op_queue_bound: "op_queue op < 5"
  by (simp add: op_queue_def lane_index_def split: engine.splits gpu_lane.splits)

lemma pending_unique:
  assumes "exec_inv w" "a \<in> set (sc_pending (ex_sched w))" "b \<in> set (sc_pending (ex_sched w))" "job_key a = job_key b"
  shows "a = b"
  using assms by (auto simp: exec_inv_def slots_ok_def live_jobs_def distinct_map inj_on_def)

lemma exec_inv_start:
  assumes inv: "exec_inv w" and j: "j < length (sc_pending (ex_sched w))"
    and job: "job = sc_pending (ex_sched w) ! j" and free: "pj_blockers job = 0"
    and i: "i < length (graph_operations w (pj_graph job))"
    and st: "op_startable (ex_sched w) job (nodes_of w (pj_graph job) (pj_slot job)) (graph_operations w (pj_graph job)) i"
    and lane: "lane = op_queue (graph_operations w (pj_graph job) ! i)"
    and step: "start_node lane j i w = (w1, a)"
  shows "exec_inv (w1\<lparr>ex_inflight := ex_inflight w1 @ [a]\<rparr>)"
proof -
  let ?g = "pj_graph job" and ?k = "pj_slot job" and ?s = "ex_sched w"
  let ?f = "\<lambda>sl. sl\<lparr>sl_nodes := (sl_nodes sl)[i := Running]\<rparr>"
  let ?w = "w1\<lparr>ex_inflight := ex_inflight w1 @ [a]\<rparr>"
  have jp: "job \<in> set (sc_pending ?s)" using j job by simp
  have b: "?k < length (xg_slots (ex_graph w ?g))" using exec_inv_slot_bound [OF inv pending_live [OF jp]] .
  have len: "length (nodes_of w ?g ?k) = length (graph_operations w ?g)" using exec_inv_nodes_length [OF inv b] .
  have a: "a = Run ?g ?k i" and w1: "w1 = (update_slot ?g ?k ?f w)\<lparr>ex_sched := ?s\<lparr>
        sc_running := (sc_running ?s)[lane := True],
        sc_last_started := (sc_last_started ?s)[lane := Some (pj_sequence job)], sc_next_lane := (lane + 1) mod 5\<rparr>\<rparr>"
    using step by (auto simp: start_node_def Let_def job)
  have st': "\<not> sc_running ?s ! lane" "nodes_of w ?g ?k ! i = Pending"
      "\<forall>d\<in>set (o_deps (graph_operations w ?g ! i)). nodes_of w ?g ?k ! d = Done"
    using st by (auto simp: op_startable_def Let_def lane)
  have lb: "lane < 5" by (simp add: lane op_queue_bound)
  have slot: "sl_nodes (xg_slots (ex_graph w ?g) ! ?k) = nodes_of w ?g ?k" by (simp add: nodes_of_def)
  have nodes: "nodes_of w1 h k = (if (h, k) = (?g, ?k) then (nodes_of w ?g ?k)[i := Running] else nodes_of w h k)" for h k
    using nodes_of_update [OF b, of ?f h k] by (simp add: w1 slot)
  have infl: "ex_inflight w1 = ex_inflight w" by (simp add: w1)
  have same: "graph_uses w1 = graph_uses w" "graph_operations w1 = graph_operations w" "runs_on w1 = runs_on w"
    by (auto simp: w1 runs_on_def fun_eq_iff split: action.splits)
  have "static_ok ?w"
    using static_slot [of w ?k ?g ?f] inv b by (simp add: exec_inv_def slot static_ok_def w1)
  moreover have "seq_ok (ex_sched ?w)"
    using inv by (auto simp: exec_inv_def seq_ok_def occupied_def w1)
  moreover have "blockers_ok ?w" using inv by (simp add: exec_inv_def blockers_ok_def w1)
  moreover have "slots_ok ?w"
  proof -
    have "sl_occupied (job_slot ?w x) = sl_occupied (job_slot w x)" for x
      using b by (simp add: w1 job_slot_def update_slot_at)
    with inv show ?thesis by (simp add: exec_inv_def slots_ok_def live_jobs_def w1 a)
  qed
  moreover have "runs_ok ?w"
    unfolding runs_ok_def
  proof (intro conjI allI impI ballI)
    fix h k n assume "Run h k n \<in> set (ex_inflight ?w)"
    then have "Run h k n \<in> set (ex_inflight w) \<or> (h, k, n) = (?g, ?k, i)" by (auto simp: w1 a)
    then show "(h, k) \<in> job_key ` set (sc_pending (ex_sched ?w))" "n < length (graph_operations ?w h)"
      using inv jp i by (auto simp: exec_inv_def runs_ok_def same w1 job_key_def)
  next
    fix x n assume x: "x \<in> set (sc_pending (ex_sched ?w))" and n: "n < length (graph_operations ?w (pj_graph x))"
    then have x': "x \<in> set (sc_pending ?s)" by (simp add: w1)
    have old: "nodes_of w (pj_graph x) (pj_slot x) ! n = Running \<longleftrightarrow> Run (pj_graph x) (pj_slot x) n \<in> set (ex_inflight w)"
      using inv x' n by (simp add: exec_inv_def runs_ok_def same)
    show "nodes_of ?w (pj_graph x) (pj_slot x) ! n = Running \<longleftrightarrow> Run (pj_graph x) (pj_slot x) n \<in> set (ex_inflight ?w)"
      using old i len by (auto simp: nodes infl a nth_list_update)
  qed
  moreover have "lanes_ok ?w"
    unfolding lanes_ok_def
  proof (intro allI impI)
    fix l :: nat assume l: "l < 5"
    have "lane_load w l = (if sc_running ?s ! l then 1 else 0)" using inv l by (simp add: exec_inv_def lanes_ok_def)
    moreover have "lane_load ?w l = lane_load w l + (if l = lane then 1 else 0)"
      by (simp add: lane_load_def same) (simp add: w1 a runs_on_def lane)
    ultimately show "lane_load ?w l = (if sc_running (ex_sched ?w) ! l then 1 else 0)"
      using st'(1) lb inv l by (auto simp: w1 exec_inv_def seq_ok_def nth_list_update)
  qed
  moreover have "progress_ok ?w"
    unfolding progress_ok_def
  proof (intro ballI conjI impI)
    fix x assume x: "x \<in> set (sc_pending (ex_sched ?w))"
    then have x': "x \<in> set (sc_pending ?s)" by (simp add: w1)
    have "order_ok (graph_operations w ?g) ((nodes_of w ?g ?k)[i := Running])"
      using inv jp i len st'(2,3) exec_inv_edges [OF inv]
      by (intro order_ok_start) (auto simp: exec_inv_def progress_ok_def)
    then show "order_ok (graph_operations ?w (pj_graph x)) (nodes_of ?w (pj_graph x) (pj_slot x))"
      using inv x' by (auto simp: nodes same exec_inv_def progress_ok_def)
    assume run: "Running \<in> set (nodes_of ?w (pj_graph x) (pj_slot x))"
    show "pj_blockers x = 0"
    proof (cases "job_key x = job_key job")
      case True
      then show ?thesis using pending_unique [OF inv x' jp] free by simp
    next
      case False
      then have "nodes_of ?w (pj_graph x) (pj_slot x) = nodes_of w (pj_graph x) (pj_slot x)"
        by (auto simp: nodes job_key_def)
      with run inv x' show ?thesis by (auto simp: exec_inv_def progress_ok_def)
    qed
  qed
  ultimately show ?thesis by (simp add: exec_inv_def)
qed

lemma filter_remove1: "x \<in> set xs \<Longrightarrow> length (filter P (remove1 x xs)) = length (filter P xs) - (if P x then 1 else 0)"
proof (induction xs)
  case (Cons y xs)
  have "0 < length (filter P xs)" if "x \<in> set xs" "P x" using that by (auto simp: filter_empty_conv)
  with Cons show ?case by auto
qed simp

lemma finish_jobs_remove_run [simp]: "finish_jobs (remove1 (Run g i n) as) = finish_jobs as"
  by (induction as rule: finish_jobs.induct) auto

lemma run_load:
  assumes "lanes_ok w" "Run g i n \<in> set (ex_inflight w)"
  defines "lane \<equiv> op_queue (graph_operations w g ! n)"
  shows "sc_running (ex_sched w) ! lane" "length (filter (runs_on w lane) (ex_inflight w)) = 1"
    "\<not> (lane = compute_queue \<and> sc_native_active (ex_sched w))"
proof -
  have on: "Run g i n \<in> set (filter (runs_on w lane) (ex_inflight w))"
    using assms(2) by (simp add: runs_on_def lane_def)
  have load: "lane_load w lane = (if sc_running (ex_sched w) ! lane then 1 else 0)"
    using assms(1) op_queue_bound [of "graph_operations w g ! n"] by (simp add: lanes_ok_def lane_def)
  have pos: "0 < length (filter (runs_on w lane) (ex_inflight w))" using on by (metis length_pos_if_in_set)
  with load show "sc_running (ex_sched w) ! lane" "length (filter (runs_on w lane) (ex_inflight w)) = 1"
    "\<not> (lane = compute_queue \<and> sc_native_active (ex_sched w))"
    by (auto simp: lane_load_def split: if_splits)
qed

text \<open>No action is in flight twice: the lane counts it.\<close>

lemma run_once:
  assumes "lanes_ok w" "Run g i n \<in> set (ex_inflight w)"
  shows "Run g i n \<notin> set (remove1 (Run g i n) (ex_inflight w))"
proof
  assume again: "Run g i n \<in> set (remove1 (Run g i n) (ex_inflight w))"
  let ?P = "runs_on w (op_queue (graph_operations w g ! n))"
  have P: "?P (Run g i n)" by (simp add: runs_on_def)
  have "length (filter ?P (remove1 (Run g i n) (ex_inflight w))) = 0"
    using run_load(2) [OF assms] filter_remove1 [OF assms(2), of ?P] P by simp
  with again P show False by (auto simp: filter_empty_conv)
qed

lemma run_end_fields:
  fixes n :: nat and failure :: "error option"
  assumes b: "i < length (xg_slots (ex_graph w g))"
  defines "w' \<equiv> run_end g i n failure w"
  shows "ex_inflight w' = ex_inflight w" "graph_uses w' = graph_uses w" "graph_operations w' = graph_operations w"
    "ex_sched w' = (ex_sched w)\<lparr>sc_running := (sc_running (ex_sched w))[op_queue (graph_operations w g ! n) := False]\<rparr>"
    "nodes_of w' h k = (if (h, k) = (g, i) then (nodes_of w g i)[n := Done] else nodes_of w h k)"
    "sl_occupied (xg_slots (ex_graph w' h) ! k) = sl_occupied (xg_slots (ex_graph w h) ! k)"
    "length (xg_slots (ex_graph w' h)) = length (xg_slots (ex_graph w h))" "runs_on w' = runs_on w"
    "static_ok w \<Longrightarrow> static_ok w'"
proof -
  define w2 where "w2 = (let s = ex_sched w; w1 = w\<lparr>ex_sched := s\<lparr>sc_running := (sc_running s)[op_queue (graph_operations w g ! n) := False]\<rparr>\<rparr>
      in if failure \<noteq> None then w1\<lparr>ex_graph := (ex_graph w1)(g := (ex_graph w1 g)\<lparr>xg_quarantined := True\<rparr>)\<rparr> else w1)"
  let ?f = "\<lambda>sl. sl\<lparr>sl_nodes := (sl_nodes sl)[n := Done], sl_failure := (if failure \<noteq> None then failure else sl_failure sl)\<rparr>"
  have w': "w' = update_slot g i ?f w2" by (simp add: w'_def run_end_def w2_def Let_def)
  have g2: "xg_slots (ex_graph w2 h) = xg_slots (ex_graph w h)" "xg_prepared (ex_graph w2 h) = xg_prepared (ex_graph w h)"
      "xg_signals (ex_graph w2 h) = xg_signals (ex_graph w h)" for h
    by (auto simp: w2_def Let_def)
  have b2: "i < length (xg_slots (ex_graph w2 g))" using b by (simp add: g2)
  have ops2: "graph_uses w2 = graph_uses w" "graph_operations w2 = graph_operations w" "nodes_of w2 = nodes_of w"
    by (auto simp: graph_uses_def graph_operations_def nodes_of_def g2 fun_eq_iff)
  show "ex_inflight w' = ex_inflight w" by (simp add: w' w2_def Let_def)
  show uses: "graph_uses w' = graph_uses w" and ops: "graph_operations w' = graph_operations w" by (simp_all add: w' ops2)
  show "ex_sched w' = (ex_sched w)\<lparr>sc_running := (sc_running (ex_sched w))[op_queue (graph_operations w g ! n) := False]\<rparr>"
    by (simp add: w' w2_def Let_def)
  show "nodes_of w' h k = (if (h, k) = (g, i) then (nodes_of w g i)[n := Done] else nodes_of w h k)"
    using nodes_of_update [OF b2, of ?f h k] by (simp add: w' ops2 g2) (simp add: nodes_of_def)
  show "sl_occupied (xg_slots (ex_graph w' h) ! k) = sl_occupied (xg_slots (ex_graph w h) ! k)"
    using update_slot_at [OF b2, of ?f h k] by (simp add: w' g2)
  show "length (xg_slots (ex_graph w' h)) = length (xg_slots (ex_graph w h))" by (simp add: w' g2)
  show "runs_on w' = runs_on w" by (auto simp: runs_on_def ops fun_eq_iff split: action.splits)
  assume "static_ok w"
  then have "static_ok w2" by (simp add: static_ok_def graph_static_def g2)
  then show "static_ok w'" unfolding w' using b2 by (rule static_slot) (simp add: nodes_of_def)
qed

lemma run_job:
  assumes "exec_inv w" "Run g i n \<in> set (ex_inflight w)"
  obtains job where "job \<in> set (sc_pending (ex_sched w))" "pj_graph job = g" "pj_slot job = i"
    "n < length (graph_operations w g)" "nodes_of w g i ! n = Running"
proof -
  have runs: "runs_ok w" using assms(1) by (simp add: exec_inv_def)
  then have "(g, i) \<in> job_key ` set (sc_pending (ex_sched w))" and n: "n < length (graph_operations w g)"
    using assms(2) unfolding runs_ok_def by blast+
  then obtain job where job: "job \<in> set (sc_pending (ex_sched w))" "job_key job = (g, i)" by auto
  with runs n assms(2) have "nodes_of w g i ! n = Running" by (auto simp: runs_ok_def job_key_def)
  with job n that show thesis by (simp add: job_key_def)
qed

lemma exec_inv_end:
  assumes inv: "exec_inv w" and run: "Run g i n \<in> set (ex_inflight w)"
  shows "exec_inv ((run_end g i n failure w)\<lparr>ex_inflight := remove1 (Run g i n) (ex_inflight w)\<rparr>)"
proof -
  let ?r = "run_end g i n failure w" and ?lane = "op_queue (graph_operations w g ! n)"
  let ?w = "?r\<lparr>ex_inflight := remove1 (Run g i n) (ex_inflight w)\<rparr>"
  obtain job where job: "job \<in> set (sc_pending (ex_sched w))" "pj_graph job = g" "pj_slot job = i"
      and n: "n < length (graph_operations w g)" and running: "nodes_of w g i ! n = Running"
    using run_job [OF inv run] by metis
  have b: "i < length (xg_slots (ex_graph w g))" using exec_inv_slot_bound [OF inv pending_live [OF job(1)]] job by simp
  note fields = run_end_fields [OF b, of n failure]
  have len: "length (nodes_of w g i) = length (graph_operations w g)" using exec_inv_nodes_length [OF inv b] .
  have lanes: "lanes_ok w" using inv by (simp add: exec_inv_def)
  have "static_ok ?w" using fields(9) inv by (simp add: exec_inv_def static_ok_def)
  moreover have "seq_ok (ex_sched ?w)" using inv by (simp add: exec_inv_def seq_ok_def occupied_def fields)
  moreover have "blockers_ok ?w" using inv by (simp add: exec_inv_def blockers_ok_def fields)
  moreover have "slots_ok ?w"
    using inv by (simp add: exec_inv_def slots_ok_def live_jobs_def fields job_slot_def)
  moreover have "runs_ok ?w"
    unfolding runs_ok_def
  proof (intro conjI allI impI ballI)
    fix h k m assume "Run h k m \<in> set (ex_inflight ?w)"
    then have "Run h k m \<in> set (ex_inflight w)" by (auto dest: notin_set_remove1 intro: ccontr)
    then show "(h, k) \<in> job_key ` set (sc_pending (ex_sched ?w))" "m < length (graph_operations ?w h)"
      using inv by (auto simp: exec_inv_def runs_ok_def fields)
  next
    fix x m assume x: "x \<in> set (sc_pending (ex_sched ?w))" and m: "m < length (graph_operations ?w (pj_graph x))"
    have old: "nodes_of w (pj_graph x) (pj_slot x) ! m = Running \<longleftrightarrow> Run (pj_graph x) (pj_slot x) m \<in> set (ex_inflight w)"
      using inv x m by (simp add: exec_inv_def runs_ok_def fields)
    show "nodes_of ?w (pj_graph x) (pj_slot x) ! m = Running \<longleftrightarrow> Run (pj_graph x) (pj_slot x) m \<in> set (ex_inflight ?w)"
      using old run_once [OF lanes run] n len
      by (cases "(pj_graph x, pj_slot x, m) = (g, i, n)") (auto simp: fields nth_list_update)
  qed
  moreover have "lanes_ok ?w"
    unfolding lanes_ok_def
  proof (intro allI impI)
    fix l :: nat assume l: "l < 5"
    have old: "lane_load w l = (if sc_running (ex_sched w) ! l then 1 else 0)" using lanes l by (simp add: lanes_ok_def)
    have "lane_load ?w l = lane_load w l - (if l = ?lane then 1 else 0)"
      using filter_remove1 [OF run, of "runs_on w l"] run_load(2) [OF lanes run]
      by (auto simp: lane_load_def fields runs_on_def)
    with old run_load(1) [OF lanes run] l inv show "lane_load ?w l = (if sc_running (ex_sched ?w) ! l then 1 else 0)"
      by (auto simp: fields exec_inv_def seq_ok_def nth_list_update)
  qed
  moreover have "progress_ok ?w"
    unfolding progress_ok_def
  proof (intro ballI conjI impI)
    fix x assume x: "x \<in> set (sc_pending (ex_sched ?w))"
    then have x': "x \<in> set (sc_pending (ex_sched w))" by (simp add: fields)
    have "order_ok (graph_operations w g) ((nodes_of w g i)[n := Done])"
      using inv job n len running by (intro order_ok_done) (auto simp: exec_inv_def progress_ok_def)
    then show "order_ok (graph_operations ?w (pj_graph x)) (nodes_of ?w (pj_graph x) (pj_slot x))"
      using inv x' by (auto simp: fields exec_inv_def progress_ok_def)
    assume "Running \<in> set (nodes_of ?w (pj_graph x) (pj_slot x))"
    then have "Running \<in> set (nodes_of w (pj_graph x) (pj_slot x))"
      by (auto simp: fields split: if_splits dest!: subsetD [OF set_update_subset_insert])
    then show "pj_blockers x = 0" using inv x' by (auto simp: exec_inv_def progress_ok_def)
  qed
  ultimately show ?thesis by (simp add: exec_inv_def)
qed


section \<open>Finishing and admitting jobs\<close>

lemma finish_jobs_remove:
  "Finish job f \<in> set as \<Longrightarrow>
     \<exists>xs ys. finish_jobs as = xs @ job # ys \<and> finish_jobs (remove1 (Finish job f) as) = xs @ ys"
proof (induction as rule: finish_jobs.induct)
  case (2 j f' as)
  show ?case
  proof (cases "j = job \<and> f' = f")
    case True
    then show ?thesis by (intro exI [of _ "[]"] exI [of _ "finish_jobs as"]) simp
  next
    case False
    with 2 obtain xs ys where "finish_jobs as = xs @ job # ys" "finish_jobs (remove1 (Finish job f) as) = xs @ ys" by auto
    with False show ?thesis by (intro exI [of _ "j # xs"] exI [of _ ys]) auto
  qed
next
  case (3 g i n as)
  then show ?case by auto
qed simp

lemma exec_inv_finish:
  assumes inv: "exec_inv w" and fin: "Finish job failure \<in> set (ex_inflight w)"
    and step: "finish_job now job failure w = Some (w', woken)"
  shows "exec_inv (w'\<lparr>ex_inflight := remove1 (Finish job failure) (ex_inflight w)\<rparr>)"
proof -
  let ?g = "pj_graph job" and ?i = "pj_slot job" and ?as = "remove1 (Finish job failure) (ex_inflight w)"
  let ?w1 = "update_slot ?g ?i (\<lambda>sl. sl\<lparr>sl_occupied := False\<rparr>) w" and ?w = "w'\<lparr>ex_inflight := ?as\<rparr>"
  obtain xs ys where split: "finish_jobs (ex_inflight w) = xs @ job # ys" "finish_jobs ?as = xs @ ys"
    using finish_jobs_remove [OF fin] by blast
  have jl: "job \<in> set (live_jobs w)" by (simp add: live_jobs_def split)
  have b: "?i < length (xg_slots (ex_graph w ?g))" using exec_inv_slot_bound [OF inv jl] .
  obtain p sg where p: "position (\<lambda>q. q = pj_sequence job) (sc_finishing (ex_sched w)) = Some p"
      and w': "w' = update_signal ?g ?i (\<lambda>_. sg) (?w1\<lparr>ex_sched := (ex_sched w)\<lparr>sc_finishing := swap_remove p (sc_finishing (ex_sched w))\<rparr>\<rparr>)"
    using step by (auto simp: finish_job_def Let_def split: option.splits prod.splits)
  have fin': "mset (swap_remove p (sc_finishing (ex_sched w))) = mset (sc_finishing (ex_sched w)) - {#pj_sequence job#}"
    and pl: "p < length (sc_finishing (ex_sched w))"
    using p swap_remove_mset [of p "sc_finishing (ex_sched w)"] by (auto simp: position_Some)
  then have sub: "set (swap_remove p (sc_finishing (ex_sched w))) \<subseteq> set (sc_finishing (ex_sched w))"
    by (metis set_mset_mset set_mset_mono diff_subset_eq_self)
  have flen: "length (swap_remove p (sc_finishing (ex_sched w))) = length (sc_finishing (ex_sched w)) - 1"
    by (simp add: swap_remove_def)
  have nodes: "nodes_of w' = nodes_of w"
    using b by (auto simp: w' nodes_of_def update_slot_at fun_eq_iff)
  have ops: "graph_uses w' = graph_uses w" "graph_operations w' = graph_operations w" "runs_on w' = runs_on w"
    by (auto simp: w' runs_on_def fun_eq_iff split: action.splits)
  have pend: "sc_pending (ex_sched w') = sc_pending (ex_sched w)" by (simp add: w')
  have run_mem: "Run h k n \<in> set ?as \<longleftrightarrow> Run h k n \<in> set (ex_inflight w)" for h k n
    by (meson action.distinct(1) in_set_remove1)
  have "static_ok ?w"
    using static_slot [of w ?i ?g "\<lambda>sl. sl\<lparr>sl_occupied := False\<rparr>"] inv b
    by (simp add: exec_inv_def static_ok_def graph_static_def w' nodes_of_def)
  moreover have "seq_ok (ex_sched ?w)"
    using inv sub flen by (auto simp: exec_inv_def seq_ok_def occupied_def w')
  moreover have "blockers_ok ?w" using inv by (simp add: exec_inv_def blockers_ok_def pend ops)
  moreover have "slots_ok ?w"
  proof -
    have keys: "distinct (map job_key (sc_pending (ex_sched w) @ xs @ job # ys))"
      using inv by (simp add: exec_inv_def slots_ok_def live_jobs_def split)
    have occ: "sl_occupied (job_slot ?w x)" if "x \<in> set (sc_pending (ex_sched w) @ xs @ ys)" for x
    proof -
      have "job_key job \<notin> job_key ` set (sc_pending (ex_sched w) @ xs @ ys)" using keys by auto
      then have "job_key x \<noteq> job_key job" using that by (metis imageI)
      moreover have "sl_occupied (job_slot w x)" using inv that by (auto simp: exec_inv_def slots_ok_def live_jobs_def split)
      ultimately show ?thesis using b by (auto simp: w' job_slot_def update_slot_at job_key_def)
    qed
    have "mset (sc_finishing (ex_sched ?w)) = mset (map pj_sequence (xs @ ys))"
      using inv fin' by (simp add: exec_inv_def slots_ok_def split w')
    moreover have "pj_slot x < length (xg_slots (ex_graph ?w (pj_graph x)))" if "x \<in> set (sc_pending (ex_sched w) @ xs @ ys)" for x
      using inv that by (auto simp: exec_inv_def slots_ok_def live_jobs_def split w')
    ultimately show ?thesis
      using keys occ by (simp add: slots_ok_def live_jobs_def split(2) pend)
  qed
  moreover have "runs_ok ?w"
    using inv by (simp add: exec_inv_def runs_ok_def pend ops nodes run_mem)
  moreover have "lanes_ok ?w"
  proof -
    have "length (filter (runs_on w l) ?as) = length (filter (runs_on w l) (ex_inflight w))" for l
      using filter_remove1 [OF fin, of "runs_on w l"] by (simp add: runs_on_def)
    then have "lane_load ?w l = lane_load w l" for l by (simp add: lane_load_def ops w')
    with inv show ?thesis by (simp add: exec_inv_def lanes_ok_def w')
  qed
  moreover have "progress_ok ?w" using inv by (simp add: exec_inv_def progress_ok_def pend ops nodes)
  ultimately show ?thesis by (simp add: exec_inv_def)
qed

lemma find_index:
  "List.find P [0..<n] = Some i \<Longrightarrow> i < n \<and> P i"
  by (auto simp: find_Some_iff)

lemma submit_locked_Inr:
  assumes "submit_locked now hosts g deps w = Some (Inr (w', c))"
  obtains i q where "c = Run_of g i" "i < length (xg_slots (ex_graph w g))" "free_slot (ex_graph w g) i"
    "occupied (ex_sched w) < sc_capacity (ex_sched w)" "\<forall>u\<in>set (graph_uses w g). hosts u = Inr ()" "q = sc_sequence (ex_sched w)"
    "w' = (update_slot g i begin_slot (update_signal g i (\<lambda>sg. completion_new (signal_reset now sg)) w))\<lparr>
        ex_sched := (ex_sched w)\<lparr>sc_sequence := Suc q, sc_pending := sc_pending (ex_sched w)
          @ [\<lparr>pj_sequence = q, pj_graph = g, pj_slot = i,
              pj_blockers = count_blockers w (sc_pending (ex_sched w)) g, pj_deps = deps\<rparr>]\<rparr>\<rparr>"
proof -
  have cap: "\<not> occupied (ex_sched w) \<ge> sc_capacity (ex_sched w)"
    using assms by (auto simp: submit_locked_def split: if_splits)
  have hosts: "try_all hosts (graph_uses w g) = Inr ()"
    using assms cap by (auto simp: submit_locked_def split: sum.splits)
  obtain i where i: "List.find (free_slot (ex_graph w g)) [0..<length (xg_slots (ex_graph w g))] = Some i"
    using assms cap hosts by (auto simp: submit_locked_def split: option.splits)
  let ?v = "update_slot g i begin_slot (update_signal g i (\<lambda>sg. completion_new (signal_reset now sg)) w)"
  have enq: "enqueue g i deps ?v = Some w'" "c = Run_of g i"
    using assms cap hosts i by (auto simp: submit_locked_def)
  have cb: "count_blockers ?v = count_blockers w" by (simp add: count_blockers_def fun_eq_iff)
  from enq(1) have w': "w' = ?v\<lparr>ex_sched := (ex_sched w)\<lparr>sc_sequence := Suc (sc_sequence (ex_sched w)),
      sc_pending := sc_pending (ex_sched w) @ [\<lparr>pj_sequence = sc_sequence (ex_sched w), pj_graph = g, pj_slot = i,
          pj_blockers = count_blockers w (sc_pending (ex_sched w)) g, pj_deps = deps\<rparr>]\<rparr>\<rparr>"
    by (auto simp: enqueue_def next_sequence_def cb split: if_splits)
  show thesis
    using that [OF enq(2)] find_index [OF i] cap hosts w' by (simp add: try_all_ok not_le)
qed

lemma exec_inv_submit:
  assumes inv: "exec_inv w" and sub: "submit_locked now hosts g deps w = Some (Inr (w', c))"
  shows "exec_inv w'"
proof -
  obtain i q where i: "i < length (xg_slots (ex_graph w g))" "free_slot (ex_graph w g) i"
      and cap: "occupied (ex_sched w) < sc_capacity (ex_sched w)" and q: "q = sc_sequence (ex_sched w)"
      and w': "w' = (update_slot g i begin_slot (update_signal g i (\<lambda>sg. completion_new (signal_reset now sg)) w))\<lparr>
        ex_sched := (ex_sched w)\<lparr>sc_sequence := Suc q, sc_pending := sc_pending (ex_sched w)
          @ [\<lparr>pj_sequence = q, pj_graph = g, pj_slot = i,
              pj_blockers = count_blockers w (sc_pending (ex_sched w)) g, pj_deps = deps\<rparr>]\<rparr>\<rparr>"
    using submit_locked_Inr [OF sub] by metis
  define v where "v = update_signal g i (\<lambda>sg. completion_new (signal_reset now sg)) w"
  define new where "new = \<lparr>pj_sequence = q, pj_graph = g, pj_slot = i,
      pj_blockers = count_blockers w (sc_pending (ex_sched w)) g, pj_deps = deps\<rparr>"
  have vinv: "exec_inv v" unfolding v_def by (rule exec_inv_signal [OF inv])
  have vs: "ex_sched v = ex_sched w" "ex_inflight v = ex_inflight w" "graph_uses v = graph_uses w"
      "graph_operations v = graph_operations w" "nodes_of v = nodes_of w" "xg_slots (ex_graph v h) = xg_slots (ex_graph w h)"
      "job_slot v = job_slot w" for h
    by (simp_all add: v_def)
  have iv: "i < length (xg_slots (ex_graph v g))" using i by (simp add: vs)
  have w': "w' = (update_slot g i begin_slot v)\<lparr>ex_sched := (ex_sched w)\<lparr>sc_sequence := Suc q,
      sc_pending := sc_pending (ex_sched w) @ [new]\<rparr>\<rparr>" using w' by (simp add: v_def new_def)
  have key: "job_key x \<noteq> (g, i)" if "x \<in> set (live_jobs w)" for x
  proof
    assume "job_key x = (g, i)"
    then have "sl_occupied (xg_slots (ex_graph w g) ! i)"
      using inv that by (auto simp: exec_inv_def slots_ok_def job_slot_def job_key_def)
    with i(2) show False by (simp add: free_slot_def)
  qed
  have nodes: "nodes_of w' h k = (if (h, k) = (g, i) then map (\<lambda>_. Pending) (nodes_of w g i) else nodes_of w h k)" for h k
    using nodes_of_update [OF iv, of begin_slot h k]
    by (simp add: w' vs begin_slot_def) (simp add: nodes_of_def)
  have ops: "graph_uses w' = graph_uses w" "graph_operations w' = graph_operations w" "runs_on w' = runs_on w"
      "ex_inflight w' = ex_inflight w"
    by (auto simp: w' vs runs_on_def fun_eq_iff split: action.splits)
  have pend: "sc_pending (ex_sched w') = sc_pending (ex_sched w) @ [new]" by (simp add: w')
  have new: "pj_graph new = g" "pj_slot new = i" "job_key new = (g, i)" "pj_sequence new = q"
      "pj_blockers new = count_blockers w (sc_pending (ex_sched w)) g"
    by (simp_all add: new_def job_key_def)
  have "static_ok w'"
    using static_slot [OF _ iv, of begin_slot] vinv by (simp add: exec_inv_def static_ok_def w' begin_slot_def nodes_of_def)
  moreover have "seq_ok (ex_sched w')"
    using inv cap q by (auto simp: exec_inv_def seq_ok_def occupied_def w' new sorted_wrt_append)
  moreover have "blockers_ok w'"
  proof -
    have "count_blockers w xs g = length (filter (\<lambda>h. conflicts (graph_uses w (fst h)) (graph_uses w g))
        (map (\<lambda>job. (pj_graph job, pj_blockers job)) xs))" for xs
      by (induction xs) (auto simp: count_blockers_def)
    then show ?thesis
      using inv counts_snoc [of "\<lambda>g h. conflicts (graph_uses w g) (graph_uses w h)"
          "map (\<lambda>job. (pj_graph job, pj_blockers job)) (sc_pending (ex_sched w))" g]
      by (simp add: exec_inv_def blockers_ok_def pend ops new)
  qed
  moreover have "slots_ok w'"
  proof -
    have "sl_occupied (job_slot w' x)" if "x \<in> set (live_jobs w) \<or> x = new" for x
      using that inv iv by (auto simp: w' job_slot_def update_slot_at vs begin_slot_def new exec_inv_def slots_ok_def)
    moreover have "length (xg_slots (ex_graph w' h)) = length (xg_slots (ex_graph w h))" for h by (simp add: w' vs)
    moreover have "set (live_jobs w') = insert new (set (live_jobs w))" by (auto simp: live_jobs_def pend ops)
    moreover have "distinct (map job_key (live_jobs w'))"
      using inv key new by (force simp: exec_inv_def slots_ok_def live_jobs_def pend ops)
    ultimately show ?thesis
      using inv i(1) new by (auto simp: exec_inv_def slots_ok_def ops w' vs)
  qed
  moreover have "runs_ok w'"
  proof -
    have no: "Run g i n \<notin> set (ex_inflight w)" for n
      using run_job [OF inv, of g i n] key [OF pending_live] by (metis job_key_def)
    have old: "nodes_of w' (pj_graph x) (pj_slot x) = nodes_of w (pj_graph x) (pj_slot x)"
      if "x \<in> set (sc_pending (ex_sched w))" for x
      using key [OF pending_live [OF that]] by (auto simp: nodes job_key_def)
    have len: "length (nodes_of w g i) = length (graph_operations w g)" using exec_inv_nodes_length [OF inv i(1)] .
    have fresh: "nodes_of w' g i ! n \<noteq> Running" if "n < length (graph_operations w g)" for n
      using that len by (simp add: nodes)
    show ?thesis
      using inv no old fresh by (auto simp: exec_inv_def runs_ok_def pend ops new)
  qed
  moreover have "lanes_ok w'"
  proof -
    have "lane_load w' l = lane_load w l" for l by (simp add: lane_load_def w' v_def)
    with inv show ?thesis by (simp add: exec_inv_def lanes_ok_def w')
  qed
  moreover have "progress_ok w'"
  proof -
    have old: "nodes_of w' (pj_graph x) (pj_slot x) = nodes_of w (pj_graph x) (pj_slot x)"
      if "x \<in> set (sc_pending (ex_sched w))" for x
      using key [OF pending_live [OF that]] by (auto simp: nodes job_key_def)
    have len: "length (nodes_of w g i) = length (graph_operations w g)" using exec_inv_nodes_length [OF inv i(1)] .
    have "order_ok (graph_operations w g) (nodes_of w' g i)" "Running \<notin> set (nodes_of w' g i)"
      using order_ok_fresh [OF exec_inv_edges [OF inv] len] by (auto simp: nodes)
    with inv old show ?thesis by (auto simp: exec_inv_def progress_ok_def pend ops new)
  qed
  ultimately show ?thesis by (simp add: exec_inv_def)
qed

end
