(* ===== verification/Exec_Safety.thy ===== *)
theory Exec_Safety
  imports Exec_Invariants
begin

text \<open>
  The invariant of \<open>Exec_Invariants\<close> holds in every reachable state: the remaining steps
  (choosing the next action and the native leases), the induction, and the safety properties
  of the scheduler that follow from it.
\<close>


section \<open>Native leases\<close>

lemma exec_inv_sched:
  assumes inv: "exec_inv w" and seq: "seq_ok s" and same: "sc_pending s = sc_pending (ex_sched w)"
    "sc_finishing s = sc_finishing (ex_sched w)" and lanes: "lanes_ok (w\<lparr>ex_sched := s\<rparr>)"
  shows "exec_inv (w\<lparr>ex_sched := s\<rparr>)"
  using assms
  by (simp add: exec_inv_def static_ok_def blockers_ok_def slots_ok_def runs_ok_def progress_ok_def live_jobs_def)

lemma lanes_native:
  assumes "lanes_ok w" "seq_ok (ex_sched w)" and s: "sc_running s = (sc_running (ex_sched w))[compute_queue := sc_native_active s]"
    and act: "sc_native_active s \<noteq> sc_native_active (ex_sched w)"
    and free: "sc_native_active s \<Longrightarrow> \<not> sc_running (ex_sched w) ! compute_queue"
  shows "lanes_ok (w\<lparr>ex_sched := s\<rparr>)"
  unfolding lanes_ok_def
proof (intro allI impI)
  fix l :: nat assume l: "l < 5"
  have len: "length (sc_running (ex_sched w)) = 5" using assms(2) by (simp add: seq_ok_def)
  have load: "lane_load w l = (if sc_running (ex_sched w) ! l then 1 else 0)" using assms(1) l by (simp add: lanes_ok_def)
  show "lane_load (w\<lparr>ex_sched := s\<rparr>) l = (if sc_running (ex_sched (w\<lparr>ex_sched := s\<rparr>)) ! l then 1 else 0)"
    using load act free len by (cases "l = 1"; cases "sc_native_active s") (auto simp: lane_load_def s split: if_splits)
qed

lemma lanes_same:
  assumes "lanes_ok w" "sc_running s = sc_running (ex_sched w)" "sc_native_active s = sc_native_active (ex_sched w)"
  shows "lanes_ok (w\<lparr>ex_sched := s\<rparr>)"
proof -
  have "lane_load (w\<lparr>ex_sched := s\<rparr>) l = lane_load w l" for l by (simp add: lane_load_def assms)
  with assms show ?thesis by (simp add: lanes_ok_def)
qed

lemma exec_inv_native:
  assumes inv: "exec_inv w"
  shows "native_enqueue (ex_sched w) = Some (Inr (s, t)) \<Longrightarrow> exec_inv (w\<lparr>ex_sched := s\<rparr>)"
    and "native_enter t (ex_sched w) = Go s \<Longrightarrow> exec_inv (w\<lparr>ex_sched := s\<rparr>)"
    and "sc_native_active (ex_sched w) \<Longrightarrow> native_yield (ex_sched w) = Some (s, t) \<Longrightarrow> exec_inv (w\<lparr>ex_sched := s\<rparr>)"
    and "sc_native_active (ex_sched w) \<Longrightarrow> exec_inv (w\<lparr>ex_sched := native_drop (ex_sched w)\<rparr>)"
    and "exec_inv (w\<lparr>ex_sched := (ex_sched w)\<lparr>sc_shutdown := b\<rparr>\<rparr>)"
proof -
  have l: "lanes_ok w" and q: "seq_ok (ex_sched w)" using inv by (simp_all add: exec_inv_def)
  have "lane_load w 1 = (if sc_running (ex_sched w) ! 1 then 1 else 0)" using l unfolding lanes_ok_def by fastforce
  moreover have "lane_load w 1 \<noteq> 0" if "sc_native_active (ex_sched w)" using that by (simp add: lane_load_def)
  ultimately have run: "sc_running (ex_sched w) ! 1" if "sc_native_active (ex_sched w)" using that by presburger
  show "exec_inv (w\<lparr>ex_sched := s\<rparr>)" if e: "native_enqueue (ex_sched w) = Some (Inr (s, t))"
  proof -
    have s: "s = (ex_sched w)\<lparr>sc_sequence := Suc (sc_sequence (ex_sched w)), sc_native := sc_native (ex_sched w) @ [sc_sequence (ex_sched w)]\<rparr>"
        and cap: "occupied (ex_sched w) < sc_capacity (ex_sched w)"
      using e by (auto simp: native_enqueue_def next_sequence_def split: if_splits)
    have "seq_ok s" using q cap by (auto simp: s seq_ok_def occupied_def sorted_wrt_append less_Suc_eq)
    then show ?thesis by (rule exec_inv_sched [OF inv]) (simp_all add: s lanes_same [OF l])
  qed
  show "exec_inv (w\<lparr>ex_sched := s\<rparr>)" if e: "native_enter t (ex_sched w) = Go s"
  proof -
    have ready: "native_ready (ex_sched w) t" and s: "s = (ex_sched w)\<lparr>sc_native := tl (sc_native (ex_sched w)),
        sc_native_active := True, sc_running := (sc_running (ex_sched w))[1 := True]\<rparr>"
      using e by (auto simp: native_enter_def split: if_splits)
    have free: "\<not> sc_running (ex_sched w) ! 1" "sc_native (ex_sched w) \<noteq> []"
      using ready by (auto simp: native_ready_def split: list.splits)
    with run have na: "\<not> sc_native_active (ex_sched w)" by blast
    have "seq_ok s" using q free(2) na by (auto simp: s seq_ok_def occupied_def neq_Nil_conv)
    moreover have "lanes_ok (w\<lparr>ex_sched := s\<rparr>)" using free(1) na by (intro lanes_native [OF l q]) (simp_all add: s)
    ultimately show ?thesis by (intro exec_inv_sched [OF inv]) (simp_all add: s)
  qed
  show "exec_inv (w\<lparr>ex_sched := s\<rparr>)" if a: "sc_native_active (ex_sched w)" and e: "native_yield (ex_sched w) = Some (s, t)"
  proof -
    have s: "s = (ex_sched w)\<lparr>sc_sequence := Suc (sc_sequence (ex_sched w)), sc_native := sc_native (ex_sched w) @ [sc_sequence (ex_sched w)],
        sc_native_active := False, sc_running := (sc_running (ex_sched w))[1 := False]\<rparr>"
      using e by (auto simp: native_yield_def next_sequence_def split: if_splits)
    have "seq_ok s" using q a by (auto simp: s seq_ok_def occupied_def sorted_wrt_append less_Suc_eq)
    moreover have "lanes_ok (w\<lparr>ex_sched := s\<rparr>)" using a by (intro lanes_native [OF l q]) (simp_all add: s)
    ultimately show ?thesis by (intro exec_inv_sched [OF inv]) (simp_all add: s)
  qed
  show "exec_inv (w\<lparr>ex_sched := native_drop (ex_sched w)\<rparr>)" if a: "sc_native_active (ex_sched w)"
  proof -
    have "seq_ok (native_drop (ex_sched w))" using q by (auto simp: native_drop_def seq_ok_def occupied_def)
    moreover have "lanes_ok (w\<lparr>ex_sched := native_drop (ex_sched w)\<rparr>)"
      using a by (intro lanes_native [OF l q]) (simp_all add: native_drop_def)
    ultimately show ?thesis by (intro exec_inv_sched [OF inv]) (simp_all add: native_drop_def)
  qed
  show "exec_inv (w\<lparr>ex_sched := (ex_sched w)\<lparr>sc_shutdown := b\<rparr>\<rparr>)"
  proof -
    have "seq_ok ((ex_sched w)\<lparr>sc_shutdown := b\<rparr>)" using q by (simp add: seq_ok_def occupied_def)
    then show ?thesis by (rule exec_inv_sched [OF inv]) (simp_all add: lanes_same [OF l])
  qed
qed


section \<open>Choosing the next action\<close>

lemma check_deps_ok:
  "check_deps w cs waiting = (False, None) \<Longrightarrow> \<not> waiting \<and> (\<forall>c\<in>set cs. dep_result w c = Some (Inr ()))"
  by (induction w cs waiting rule: check_deps.induct) (auto split: option.splits sum.splits)

text \<open>
  A candidate is a region that may start: its job has no blockers, is neither cancelled nor
  failed, all its dependencies have succeeded, and the region itself is startable.
\<close>

definition candidate :: "('c, 'w) exec \<Rightarrow> nat \<Rightarrow> nat \<Rightarrow> nat \<Rightarrow> bool" where
  "candidate w lane j i \<longleftrightarrow> j < length (sc_pending (ex_sched w)) \<and>
     (let job = sc_pending (ex_sched w) ! j; ops = graph_operations w (pj_graph job)
      in pj_blockers job = 0 \<and> i < length ops \<and> op_queue (ops ! i) = lane
         \<and> op_startable (ex_sched w) job (nodes_of w (pj_graph job) (pj_slot job)) ops i
         \<and> (\<forall>c\<in>set (pj_deps job). dep_result w c = Some (Inr ()))
         \<and> \<not> sg_cancel (job_signal w job) \<and> sl_failure (job_slot w job) = None)"

definition cands_ok :: "('c, 'w) exec \<Rightarrow> nat list \<Rightarrow> candidates \<Rightarrow> bool" where
  "cands_ok w js cands \<longleftrightarrow> length cands = 5
     \<and> (\<forall>lane<5. \<forall>j i. cands ! lane = Some (j, i) \<longrightarrow> j \<notin> set js \<and> candidate w lane j i)"

lemma dep_result_slot [simp]: "dep_result (update_slot g i f w) = dep_result w"
  by (simp add: dep_result_def fun_eq_iff split: completion.splits)

lemma job_signal_slot [simp]: "job_signal (update_slot g i f w) = job_signal w"
  by (simp add: job_signal_def fun_eq_iff)

lemma cands_ok_slot:
  assumes inv: "exec_inv w" and j: "j < length (sc_pending (ex_sched w))" and job: "job = sc_pending (ex_sched w) ! j"
    and c: "cands_ok w (j # js) cands"
  shows "cands_ok (update_slot (pj_graph job) (pj_slot job) f w) js cands"
  unfolding cands_ok_def
proof (intro conjI allI impI)
  show "length cands = 5" using c by (simp add: cands_ok_def)
  fix lane k i assume l: "lane < 5" and k: "cands ! lane = Some (k, i)"
  from c l k have kj: "k \<noteq> j" "k \<notin> set js" and cand: "candidate w lane k i" by (auto simp: cands_ok_def)
  show "k \<notin> set js" by (rule kj)
  have b: "pj_slot job < length (xg_slots (ex_graph w (pj_graph job)))"
    using j job by (intro exec_inv_slot_bound [OF inv pending_live]) simp
  have "k < length (sc_pending (ex_sched w))" using cand by (simp add: candidate_def)
  moreover have "distinct (map job_key (sc_pending (ex_sched w)))"
    using inv by (simp add: exec_inv_def slots_ok_def live_jobs_def)
  ultimately have "job_key (sc_pending (ex_sched w) ! k) \<noteq> job_key job"
    using kj(1) j job by (metis length_map nth_eq_iff_index_eq nth_map)
  then have "job_slot (update_slot (pj_graph job) (pj_slot job) f w) (sc_pending (ex_sched w) ! k) = job_slot w (sc_pending (ex_sched w) ! k)"
      "nodes_of (update_slot (pj_graph job) (pj_slot job) f w) (pj_graph (sc_pending (ex_sched w) ! k)) (pj_slot (sc_pending (ex_sched w) ! k))
        = nodes_of w (pj_graph (sc_pending (ex_sched w) ! k)) (pj_slot (sc_pending (ex_sched w) ! k))"
    using b by (auto simp: job_slot_def nodes_of_def update_slot_at job_key_def)
  with cand show "candidate (update_slot (pj_graph job) (pj_slot job) f w) lane k i"
    by (simp add: candidate_def Let_def)
qed

lemma cands_ok_set:
  assumes "cands_ok w js cands" "candidate w lane j i" "j \<notin> set js" "lane < 5"
  shows "cands_ok w js (cands[lane := Some (j, i)])"
  using assms by (auto simp: cands_ok_def nth_list_update)

lemma cands_ok_consider:
  assumes j: "j < length (sc_pending (ex_sched w))" and job: "job = sc_pending (ex_sched w) ! j"
    and free: "pj_blockers job = 0" "\<forall>c\<in>set (pj_deps job). dep_result w c = Some (Inr ())"
      "\<not> sg_cancel (job_signal w job)" "sl_failure (job_slot w job) = None"
    and nodes: "nodes = nodes_of w (pj_graph job) (pj_slot job)" and ops: "ops = graph_operations w (pj_graph job)"
    and js: "j \<notin> set js" and i: "\<forall>i\<in>set ks. i < length ops" and c: "cands_ok w js cands"
  shows "cands_ok w js (fold (consider_op (ex_sched w) j nodes ops) ks cands)"
  using i c
proof (induction ks arbitrary: cands)
  case (Cons i ks)
  have "candidate w (op_queue (ops ! i)) j i" if "op_startable (ex_sched w) job nodes ops i"
    using that j free job nodes ops Cons.prems(1) by (simp add: candidate_def Let_def)
  then have "cands_ok w js (consider_op (ex_sched w) j nodes ops i cands)"
    using Cons.prems(2) js job by (simp add: consider_op_def Let_def cands_ok_set op_queue_bound)
  with Cons show ?case by simp
qed simp

lemma settle_clean:
  assumes "Pending \<in> set (sl_nodes (settle c d sl))"
  shows "\<not> c \<and> d = None \<and> sl_failure (settle c d sl) = None"
proof -
  have "Pending \<notin> set (map skip_pending ns)" for ns by (induction ns) (auto dest: sym)
  with assms show ?thesis by (cases d) (auto simp: settle_def Let_def simp del: set_map split: if_splits)
qed

lemma startable_pending: "op_startable s job nodes ops i \<Longrightarrow> nodes ! i = Pending"
  by (simp add: op_startable_def Let_def)

lemma consider_none:
  assumes "\<forall>i\<in>set ks. nodes ! i \<noteq> Pending"
  shows "fold (consider_op s j nodes ops) ks cands = cands"
  using assms by (induction ks arbitrary: cands) (auto simp: consider_op_def Let_def dest: startable_pending)

lemma scan_ok:
  "exec_inv w \<Longrightarrow> \<forall>j\<in>set js. j < length (sc_pending (ex_sched w)) \<Longrightarrow> distinct js \<Longrightarrow> cands_ok w js cands
    \<Longrightarrow> scan target js w cands = (w', r) \<Longrightarrow>
    (case r of
       Inl (job, failure) \<Rightarrow> exec_inv (w'\<lparr>ex_inflight := ex_inflight w' @ [Finish job failure]\<rparr>)
     | Inr cands' \<Rightarrow> exec_inv w' \<and> ex_sched w' = ex_sched w \<and> ex_inflight w' = ex_inflight w \<and> cands_ok w' [] cands')"
proof (induction target js w cands rule: scan.induct)
  case (2 target j js w cands)
  define job where "job = sc_pending (ex_sched w) ! j"
  obtain waiting dep where cd: "check_deps w (pj_deps job) False = (waiting, dep)" by fastforce
  define w1 where "w1 = update_slot (pj_graph job) (pj_slot job) (settle (sg_cancel (job_signal w job)) dep) w"
  define sl where "sl = job_slot w1 job"
  have j: "j < length (sc_pending (ex_sched w))" "j \<notin> set js" using "2.prems"(2,3) by auto
  have jp: "job \<in> set (sc_pending (ex_sched w))" using j by (simp add: job_def)
  have inv1: "exec_inv w1" unfolding w1_def by (rule exec_inv_settle [OF "2.prems"(1) jp])
  have b: "pj_slot job < length (xg_slots (ex_graph w (pj_graph job)))"
    by (rule exec_inv_slot_bound [OF "2.prems"(1) pending_live [OF jp]])
  have sl: "sl = settle (sg_cancel (job_signal w job)) dep (job_slot w job)"
    using b by (simp add: sl_def w1_def job_slot_def update_slot_at)
  have s1: "ex_sched w1 = ex_sched w" "ex_inflight w1 = ex_inflight w" by (simp_all add: w1_def)
  have c1: "cands_ok w1 js cands" unfolding w1_def by (rule cands_ok_slot [OF "2.prems"(1) j(1) job_def "2.prems"(4)])
  have js1: "\<forall>j\<in>set js. j < length (sc_pending (ex_sched w1))" "distinct js" using "2.prems"(2,3) s1 by auto
  note step = scan.simps(2) [of target j js w cands, unfolded Let_def, folded job_def, unfolded cd prod.case,
      folded w1_def, folded sl_def]
  note IH = "2.IH" [OF job_def cd [symmetric] refl w1_def sl_def]
  consider (fin) "\<forall>n\<in>set (sl_nodes sl). n = Done" "is_target target job"
    | (skip) "\<forall>n\<in>set (sl_nodes sl). n = Done" "\<not> is_target target job"
    | (wait) "\<not> (\<forall>n\<in>set (sl_nodes sl). n = Done)" "pj_blockers job \<noteq> 0 \<or> waiting"
    | (go) "\<not> (\<forall>n\<in>set (sl_nodes sl). n = Done)" "\<not> (pj_blockers job \<noteq> 0 \<or> waiting)" by blast
  then show ?case
  proof cases
    case fin
    define w2 where "w2 = update_slot (pj_graph job) (pj_slot job) (\<lambda>sl. sl\<lparr>sl_failure := None\<rparr>) w1"
    have inv2: "exec_inv w2" unfolding w2_def using jp s1 by (intro exec_inv_failure [OF inv1]) simp
    have b1: "pj_slot job < length (xg_slots (ex_graph w1 (pj_graph job)))" using b by (simp add: w1_def)
    have "sl_nodes (job_slot w2 job) = sl_nodes sl" using b1 by (simp add: w2_def job_slot_def update_slot_at sl_def)
    then have dn: "\<forall>n\<in>set (sl_nodes (job_slot w2 (sc_pending (ex_sched w2) ! j))). n = Done"
      using fin(1) by (simp add: w2_def s1 job_def)
    obtain w3 job' where rm: "remove_job j w2 = (w3, job')" by fastforce
    have "(w', r) = (w3, Inl (job', sl_failure sl))"
      using "2.prems"(5) fin rm unfolding step w2_def [symmetric] by simp
    moreover have "j < length (sc_pending (ex_sched w2))" using j s1 by (simp add: w2_def)
    ultimately show ?thesis using exec_inv_remove [OF inv2 _ dn rm] by simp
  next
    case skip
    then have "scan target js w1 cands = (w', r)"
      using "2.prems"(5) unfolding step by simp
    from IH(1) [OF skip inv1 js1 c1 this] show ?thesis by (cases r) (auto simp: s1)
  next
    case wait
    then have "scan target js w1 cands = (w', r)"
      using "2.prems"(5) unfolding step if_not_P [OF wait(1)] if_P [OF wait(2)] by simp
    from IH(2) [OF wait inv1 js1 c1 this] show ?thesis by (cases r) (auto simp: s1)
  next
    case go
    let ?ops = "graph_operations w1 (pj_graph job)"
    let ?c = "fold (consider_op (ex_sched w1) j (sl_nodes sl) ?ops) [0..<length ?ops] cands"
    have rest: "scan target js w1 ?c = (w', r)"
      using "2.prems"(5) unfolding step if_not_P [OF go(1)] if_not_P [OF go(2)] .
    have nodes: "sl_nodes sl = nodes_of w1 (pj_graph job) (pj_slot job)" by (simp add: sl_def nodes_of_def job_slot_def)
    have c2: "cands_ok w1 js ?c"
    proof (cases "Pending \<in> set (sl_nodes sl)")
      case True
      from settle_clean [OF True [unfolded sl]] have clean: "\<not> sg_cancel (job_signal w job)" "dep = None" "sl_failure sl = None"
        by (auto simp: sl)
      have deps: "\<forall>c\<in>set (pj_deps job). dep_result w1 c = Some (Inr ())"
        using check_deps_ok [of w "pj_deps job" False] cd go(2) clean(2) by (simp add: w1_def)
      show ?thesis
        using go(2) clean deps j c1 s1 nodes
        by (intro cands_ok_consider [where job = job]) (auto simp: job_def w1_def sl_def)
    next
      case False
      have "length (sl_nodes sl) = length ?ops"
        using exec_inv_nodes_length [OF inv1, of "pj_slot job" "pj_graph job"] b nodes by (simp add: w1_def)
      with False have "\<forall>i\<in>set [0..<length ?ops]. sl_nodes sl ! i \<noteq> Pending" by (metis atLeastLessThan_iff nth_mem set_upt)
      with c1 show ?thesis by (simp only: consider_none)
    qed
    from IH(3) [OF go inv1 js1 c2 rest] show ?thesis by (cases r) (auto simp: s1)
  qed
qed auto

lemma pick_lane_Some:
  "pick_lane w target cands lanes = Some (lane, j, i) \<Longrightarrow>
     lane \<in> set lanes \<and> cands ! lane = Some (j, i) \<and> is_target target (sc_pending (ex_sched w) ! j)"
  by (induction lanes) (auto split: option.splits if_splits)

lemma cands_ok_empty: "cands_ok w js (replicate 5 None)"
  by (simp add: cands_ok_def)

lemma scan_all:
  assumes "exec_inv w" "scan target [0..<length (sc_pending (ex_sched w))] w (replicate 5 None) = (w', r)"
  shows "case r of
       Inl (job, failure) \<Rightarrow> exec_inv (w'\<lparr>ex_inflight := ex_inflight w' @ [Finish job failure]\<rparr>)
     | Inr cands' \<Rightarrow> exec_inv w' \<and> ex_sched w' = ex_sched w \<and> ex_inflight w' = ex_inflight w \<and> cands_ok w' [] cands'"
  using scan_ok [OF assms(1) _ _ cands_ok_empty assms(2)] by simp

text \<open>What \<open>next_action\<close> returns when it starts a region, with the state right before the start.\<close>

lemma next_action_Run:
  assumes inv: "exec_inv w" and run: "next_action target w = (w', Some (Run g k n))"
  obtains w1 lane j where "exec_inv w1" "ex_sched w1 = ex_sched w" "ex_inflight w1 = ex_inflight w"
    "candidate w1 lane j n" "lane < 5" "start_node lane j n w1 = (w', Run g k n)"
    "is_target target (sc_pending (ex_sched w) ! j)"
    "g = pj_graph (sc_pending (ex_sched w) ! j)" "k = pj_slot (sc_pending (ex_sched w) ! j)"
proof -
  obtain w1 r where sc: "scan target [0..<length (sc_pending (ex_sched w))] w (replicate 5 None) = (w1, r)" by fastforce
  note ok = scan_all [OF inv sc]
  obtain cands where r: "r = Inr cands"
    using run sc by (cases r) (auto simp: next_action_def split: prod.splits)
  obtain lane j i where pick: "pick_lane w1 target cands (map (\<lambda>off. (sc_next_lane (ex_sched w1) + off) mod 5) [0..<5]) = Some (lane, j, i)"
      and st: "start_node lane j i w1 = (w', Run g k n)"
    using run sc r by (auto simp: next_action_def split: option.splits prod.splits)
  have i: "i = n" "g = pj_graph (sc_pending (ex_sched w1) ! j)" "k = pj_slot (sc_pending (ex_sched w1) ! j)"
    using st by (auto simp: start_node_def Let_def)
  have "lane < 5" using pick_lane_Some [OF pick] by auto
  moreover from this have "candidate w1 lane j n" using pick_lane_Some [OF pick] ok r i by (auto simp: cands_ok_def)
  ultimately show thesis
    using that [of w1 lane j] ok r st i pick_lane_Some [OF pick] by auto
qed

lemma exec_inv_next_action:
  assumes inv: "exec_inv w" and act: "next_action target w = (w', a)"
  shows "exec_inv (case a of None \<Rightarrow> w' | Some b \<Rightarrow> w'\<lparr>ex_inflight := ex_inflight w' @ [b]\<rparr>)"
proof (cases "\<exists>g k n. a = Some (Run g k n)")
  case True
  then obtain g k n where a: "a = Some (Run g k n)" by blast
  obtain w1 lane j where w1: "exec_inv w1" "candidate w1 lane j n" "start_node lane j n w1 = (w', Run g k n)"
    using next_action_Run [OF inv act [unfolded a]] by metis
  show ?thesis
    using w1(2) exec_inv_start [OF w1(1) _ refl _ _ _ _ w1(3)] by (simp add: a candidate_def Let_def)
next
  case False
  obtain w1 r where sc: "scan target [0..<length (sc_pending (ex_sched w))] w (replicate 5 None) = (w1, r)" by fastforce
  from scan_all [OF inv sc] act False sc show ?thesis
    by (cases r) (auto simp: next_action_def start_node_def Let_def split: prod.splits option.splits)
qed

lemma exec_inv_start_state: "exec_start w \<Longrightarrow> exec_inv w"
proof -
  assume "exec_start w"
  then obtain c where s: "ex_sched w = scheduler_new c" "ex_inflight w = []" "\<forall>g. graph_static (ex_graph w g)"
    by (auto simp: exec_start_def)
  have "lanes_ok w" by (auto simp: lanes_ok_def lane_load_def s scheduler_new_def)
  with s show ?thesis
    by (simp add: exec_inv_def static_ok_def seq_ok_def blockers_ok_def slots_ok_def runs_ok_def progress_ok_def
        live_jobs_def scheduler_new_def occupied_def counts_def)
qed

lemma exec_inv_step: "exec_step w w' \<Longrightarrow> exec_inv w \<Longrightarrow> exec_inv w'"
proof (induction rule: exec_step.induct)
  case (submit now hosts g deps w w' c)
  then show ?case by (blast intro: exec_inv_submit)
next
  case (idle target w w')
  from exec_inv_next_action [OF idle.prems idle.hyps] show ?case by simp
next
  case (take_action target w w' a)
  from exec_inv_next_action [OF take_action.prems take_action.hyps] show ?case by simp
next
  case (begin_run g i n w now)
  then show ?case by (simp add: run_begin_def exec_inv_signal)
next
  case (end_run g i n w failure r)
  then show ?case by (blast intro: exec_inv_end)
next
  case (finish job failure w now w' woken)
  then show ?case by (blast intro: exec_inv_finish)
qed (blast intro: exec_inv_native exec_inv_signal)+

lemma exec_reach_inv: "exec_reach w \<Longrightarrow> exec_inv w"
proof -
  assume "exec_reach w"
  then obtain w0 where "exec_start w0" "exec_step\<^sup>*\<^sup>* w0 w" by (auto simp: exec_reach_def)
  from this(2) exec_inv_start_state [OF this(1)] show ?thesis
    by (induction rule: rtranclp_induct) (auto intro: exec_inv_step)
qed



lemma scan_ops: "scan target js w cands = (w', r) \<Longrightarrow> graph_operations w' = graph_operations w"
proof (induction target js w cands rule: scan.induct)
  case (2 target j js w cands)
  then show ?case
    by (auto simp: Let_def remove_job_def split: prod.splits if_splits)
qed auto

lemma next_action_ops: "next_action target w = (w', a) \<Longrightarrow> graph_operations w' = graph_operations w"
  by (auto simp: next_action_def start_node_def Let_def dest!: scan_ops split: prod.splits sum.splits option.splits)


section \<open>Properties\<close>

lemma hazard_sym: "hazard u v \<Longrightarrow> hazard v u"
  by (auto simp: hazard_def)

lemma uses_hazard_sym: "uses_hazard us vs \<Longrightarrow> uses_hazard vs us"
  unfolding uses_hazard_def by (blast intro: hazard_sym)

lemma op_uses_conflict:
  assumes "exec_inv w" "a < length (graph_operations w g)" "b < length (graph_operations w h)"
    and "uses_hazard (o_uses (graph_operations w g ! a)) (o_uses (graph_operations w h ! b))"
  shows "conflicts (graph_uses w g) (graph_uses w h)"
proof -
  have p: "prepared_ok (xg_prepared (ex_graph w x))" for x
    using assms(1) by (simp add: exec_inv_def static_ok_def graph_static_def)
  have "uses_hazard (concat (map o_uses (graph_operations w g))) (concat (map o_uses (graph_operations w h)))"
    using assms(2-4) unfolding uses_hazard_def by (fastforce simp: in_set_conv_nth)
  moreover have "same_bytes (graph_uses w x) (concat (map o_uses (graph_operations w x)))" for x
    using p [of x] by (simp add: prepared_ok_def graph_uses_def graph_operations_def)
  ultimately have "uses_hazard (graph_uses w g) (graph_uses w h)"
    unfolding uses_hazard_bytes same_bytes_def by simp
  then show ?thesis
    using conflicts_correct [of "graph_uses w g" "graph_uses w h"] p by (simp add: prepared_ok_def graph_uses_def)
qed

lemma unblocked_no_conflict:
  assumes inv: "exec_inv w" and ab: "a < b" "b < length (sc_pending (ex_sched w))"
    and free: "pj_blockers (sc_pending (ex_sched w) ! b) = 0"
  shows "\<not> conflicts (graph_uses w (pj_graph (sc_pending (ex_sched w) ! a))) (graph_uses w (pj_graph (sc_pending (ex_sched w) ! b)))"
proof
  let ?ps = "sc_pending (ex_sched w)" and ?f = "\<lambda>job. (pj_graph job, pj_blockers job)"
  let ?c = "\<lambda>h. conflicts (graph_uses w (fst h)) (graph_uses w (pj_graph (?ps ! b)))"
  assume c: "conflicts (graph_uses w (pj_graph (?ps ! a))) (graph_uses w (pj_graph (?ps ! b)))"
  have "counts (\<lambda>g h. conflicts (graph_uses w g) (graph_uses w h)) (map ?f ?ps)"
    using inv by (simp add: exec_inv_def blockers_ok_def)
  from counts_at [OF this, of b] ab free have "filter ?c (take b (map ?f ?ps)) = []" by simp
  moreover have "?f (?ps ! a) \<in> set (take b (map ?f ?ps))"
    using ab by (auto simp: in_set_conv_nth intro!: exI [of _ a])
  ultimately show False using c by (auto simp: filter_empty_conv)
qed

lemma running_unblocked:
  assumes "exec_inv w" "a \<in> set (sc_pending (ex_sched w))" "n < length (graph_operations w (pj_graph a))"
    "nodes_of w (pj_graph a) (pj_slot a) ! n = Running"
  shows "pj_blockers a = 0"
proof -
  have "Running \<in> set (nodes_of w (pj_graph a) (pj_slot a))"
    using assms(3,4) exec_inv_nodes_length [OF assms(1) exec_inv_slot_bound [OF assms(1) pending_live [OF assms(2)]]] by (metis nth_mem)
  with assms(1,2) show ?thesis by (auto simp: exec_inv_def progress_ok_def)
qed

text \<open>Inside one submission the earlier of two conflicting regions is done before the later one runs.\<close>

lemma running_after_hazard:
  assumes "exec_inv w" "a \<in> set (sc_pending (ex_sched w))" "x < y" "y < length (graph_operations w (pj_graph a))"
    "uses_hazard (o_uses (graph_operations w (pj_graph a) ! x)) (o_uses (graph_operations w (pj_graph a) ! y))"
    "nodes_of w (pj_graph a) (pj_slot a) ! y = Running"
  shows "nodes_of w (pj_graph a) (pj_slot a) ! x = Done"
proof -
  have "prepared_ok (xg_prepared (ex_graph w (pj_graph a)))" using assms(1) by (simp add: exec_inv_def static_ok_def graph_static_def)
  then have path: "(x, y) \<in> (op_edges (graph_operations w (pj_graph a)))\<^sup>+"
    using assms(3-5) by (simp add: prepared_ok_def graph_operations_def op_edges_def)
  have ord: "order_ok (graph_operations w (pj_graph a)) (nodes_of w (pj_graph a) (pj_slot a))"
    using assms(1,2) by (auto simp: exec_inv_def progress_ok_def)
  have "length (nodes_of w (pj_graph a) (pj_slot a)) = length (graph_operations w (pj_graph a))"
    using exec_inv_nodes_length [OF assms(1) exec_inv_slot_bound [OF assms(1) pending_live [OF assms(2)]]] by simp
  with order_ok_running [OF ord, of y x] path assms(4,6) show ?thesis by simp
qed

text \<open>Two unblocked submissions do not conflict at all.\<close>

lemma unblocked_jobs_no_hazard:
  assumes "exec_inv w" "a \<in> set (sc_pending (ex_sched w))" "b \<in> set (sc_pending (ex_sched w))" "a \<noteq> b"
    "pj_blockers a = 0" "pj_blockers b = 0" "n < length (graph_operations w (pj_graph a))" "m < length (graph_operations w (pj_graph b))"
  shows "\<not> uses_hazard (o_uses (graph_operations w (pj_graph a) ! n)) (o_uses (graph_operations w (pj_graph b) ! m))"
proof
  assume haz: "uses_hazard (o_uses (graph_operations w (pj_graph a) ! n)) (o_uses (graph_operations w (pj_graph b) ! m))"
  obtain x where x: "x < length (sc_pending (ex_sched w))" "sc_pending (ex_sched w) ! x = a" using assms(2) by (auto simp: in_set_conv_nth)
  obtain y where y: "y < length (sc_pending (ex_sched w))" "sc_pending (ex_sched w) ! y = b" using assms(3) by (auto simp: in_set_conv_nth)
  have "x \<noteq> y" using x y assms(4) by auto
  then consider "x < y" | "y < x" by linarith
  then show False
  proof cases
    case 1
    from unblocked_no_conflict [OF assms(1) 1 y(1)] x y assms(6) op_uses_conflict [OF assms(1,7,8) haz] show ?thesis by auto
  next
    case 2
    have "conflicts (graph_uses w (pj_graph b)) (graph_uses w (pj_graph a))"
      using op_uses_conflict [OF assms(1,8,7)] haz uses_hazard_sym by blast
    with unblocked_no_conflict [OF assms(1) 2 x(1)] x y assms(5) show ?thesis by auto
  qed
qed

text \<open>
  C20: device work never races. In every reachable state, for any two distinct regions in
  flight, of the same submission or of different ones, no byte region is used by both with at least one writing.
\<close>

theorem inflight_no_race:
  assumes "exec_reach w" and "Run g i n \<in> set (ex_inflight w)" and "Run h k m \<in> set (ex_inflight w)"
    and "(g, i, n) \<noteq> (h, k, m)"
  shows "\<not> uses_hazard (o_uses (graph_operations w g ! n)) (o_uses (graph_operations w h ! m))"
proof
  assume haz: "uses_hazard (o_uses (graph_operations w g ! n)) (o_uses (graph_operations w h ! m))"
  have inv: "exec_inv w" using assms(1) by (rule exec_reach_inv)
  obtain a where a: "a \<in> set (sc_pending (ex_sched w))" "pj_graph a = g" "pj_slot a = i" "n < length (graph_operations w g)"
      "nodes_of w g i ! n = Running" using run_job [OF inv assms(2)] by metis
  obtain b where b: "b \<in> set (sc_pending (ex_sched w))" "pj_graph b = h" "pj_slot b = k" "m < length (graph_operations w h)"
      "nodes_of w h k ! m = Running" using run_job [OF inv assms(3)] by metis
  show False
  proof (cases "(g, i) = (h, k)")
    case True
    then have "n \<noteq> m" using assms(4) by auto
    then consider "n < m" | "m < n" by linarith
    then show False
    proof cases
      case 1
      with running_after_hazard [OF inv a(1), of n m] haz a b True show ?thesis by auto
    next
      case 2
      with running_after_hazard [OF inv a(1), of m n] uses_hazard_sym [OF haz] a b True show ?thesis by auto
    qed
  next
    case False
    have "pj_blockers a = 0" "pj_blockers b = 0"
      using running_unblocked [OF inv a(1), of n] running_unblocked [OF inv b(1), of m] a b by simp_all
    with unblocked_jobs_no_hazard [OF inv a(1) b(1), of n m] False haz a b show False by auto
  qed
qed

text \<open>A runtime with one graph of two independent regions, submitted and with both regions started.\<close>

definition demo_write :: "usize \<Rightarrow> guse" where
  "demo_write b = \<lparr>g_view = whole_view (demo_buffer b False), g_access = Write\<rparr>"

definition demo_op :: "gpu_lane \<Rightarrow> usize \<Rightarrow> nat operation" where
  "demo_op lane b = \<lparr>o_lane = lane, o_copy_bytes = 0, o_backend = ScopedRun 0 [], o_uses = [demo_write b], o_deps = []\<rparr>"

definition demo_xgraph :: "(nat, nat) xgraph" where
  "demo_xgraph = \<lparr>xg_prepared = \<lparr>p_runtime = 0, p_parallel = True,
        p_operations = [demo_op Upload 1, demo_op Compute 2], p_uses = [demo_write 1, demo_write 2]\<rparr>,
     xg_quarantined = False,
     xg_slots = [\<lparr>sl_nodes = [Pending, Pending], sl_occupied = False, sl_failure = None\<rparr>],
     xg_signals = [signal_new]\<rparr>"

definition demo_exec0 :: "(nat, nat) exec" where
  "demo_exec0 = \<lparr>ex_sched = scheduler_new 4, ex_graph = (\<lambda>_. demo_xgraph), ex_inflight = []\<rparr>"

definition demo_job :: job where
  "demo_job = \<lparr>pj_sequence = 0, pj_graph = 0, pj_slot = 0, pj_blockers = 0, pj_deps = []\<rparr>"

definition demo_exec :: "node_state list \<Rightarrow> bool list \<Rightarrow> nat option list \<Rightarrow> nat \<Rightarrow> action list \<Rightarrow> (nat, nat) exec" where
  "demo_exec nodes running latest lane acts = \<lparr>
     ex_sched = (scheduler_new 4)\<lparr>sc_pending := [demo_job], sc_sequence := 1, sc_running := running,
        sc_last_started := latest, sc_next_lane := lane\<rparr>,
     ex_graph = (\<lambda>_. demo_xgraph)(0 := demo_xgraph\<lparr>
        xg_slots := [\<lparr>sl_nodes = nodes, sl_occupied = True, sl_failure = None\<rparr>],
        xg_signals := [completion_new (signal_reset 7 signal_new)]\<rparr>),
     ex_inflight = acts\<rparr>"

lemma demo_start: "exec_start demo_exec0"
proof -
  have "prepared_ok (xg_prepared demo_xgraph)"
    by (auto simp: prepared_ok_def demo_xgraph_def demo_op_def canonical_def precedes_def same_bytes_def
        uses_hazard_def hazard_def region_defs demo_write_def demo_buffer_def buffer_len_def less_Suc_eq nth_Cons')
  then show ?thesis by (auto simp: exec_start_def demo_exec0_def graph_static_def) (auto simp: demo_xgraph_def)
qed

lemma demo_submit:
  "submit_locked 7 (\<lambda>_. Inr ()) 0 [] demo_exec0
     = Some (Inr (demo_exec [Pending, Pending] (replicate 5 False) (replicate 5 None) 0 [], Run_of 0 0))"
proof -
  have "try_all (\<lambda>_. Inr ()) us = Inr ()" for us :: "guse list" by (simp add: try_all_ok)
  then show ?thesis
    by (simp add: submit_locked_def occupied_def demo_exec0_def scheduler_new_def demo_xgraph_def free_slot_def
        signal_new_def enqueue_def next_sequence_def usize_MAX_def demo_exec_def demo_job_def update_slot_def
        update_signal_def begin_slot_def count_blockers_def graph_uses_def fun_eq_iff upt_rec)
qed

lemma demo_lanes: "map (\<lambda>off. (l + off) mod 5) [0..<5] = [l mod 5, (l + 1) mod 5, (l + 2) mod 5, (l + 3) mod 5, (l + 4) mod (5::nat)]"
  by (simp add: upt_rec add.commute)

lemma replicate_five: "replicate 5 x = [x, x, x, x, x]"
  by (simp add: eval_nat_numeral)

lemmas demo_action_simps = next_action_def demo_exec_def scheduler_new_def demo_job_def demo_xgraph_def job_signal_def
  job_slot_def settle_def completion_new_def signal_reset_def signal_new_def update_slot_def graph_operations_def demo_op_def
  consider_op_def op_startable_def op_queue_def op_engine_def lane_index_def is_target_def start_node_def demo_lanes

lemma demo_take1:
  "next_action None (demo_exec [Pending, Pending] (replicate 5 False) (replicate 5 None) 0 [])
     = (demo_exec [Running, Pending] [True, False, False, False, False] [Some 0, None, None, None, None] 1 [], Some (Run 0 0 0))"
  by (simp add: demo_action_simps upt_rec Let_def fun_eq_iff replicate_five)

lemma demo_take2:
  "next_action None (demo_exec [Running, Pending] [True, False, False, False, False] [Some 0, None, None, None, None] 1 [Run 0 0 0])
     = (demo_exec [Running, Running] [True, True, False, False, False] [Some 0, Some 0, None, None, None] 2 [Run 0 0 0], Some (Run 0 0 1))"
  by (simp add: demo_action_simps upt_rec Let_def fun_eq_iff replicate_five)

definition demo_both :: "(nat, nat) exec" where
  "demo_both = demo_exec [Running, Running] [True, True, False, False, False] [Some 0, Some 0, None, None, None] 2 [Run 0 0 0, Run 0 0 1]"

lemma demo_first_reach:
  "exec_reach (demo_exec [Running, Pending] [True, False, False, False, False] [Some 0, None, None, None, None] 1 [Run 0 0 0])"
proof -
  have "exec_step demo_exec0 (demo_exec [Pending, Pending] (replicate 5 False) (replicate 5 None) 0 [])"
    by (rule exec_step.submit [OF demo_submit])
  moreover have "exec_step (demo_exec [Pending, Pending] (replicate 5 False) (replicate 5 None) 0 [])
      (demo_exec [Running, Pending] [True, False, False, False, False] [Some 0, None, None, None, None] 1 [Run 0 0 0])"
    using exec_step.take_action [OF demo_take1] by (simp add: demo_exec_def)
  ultimately show ?thesis
    unfolding exec_reach_def using demo_start by (meson converse_rtranclp_into_rtranclp rtranclp.rtrancl_refl)
qed

lemma exec_reach_step: "exec_reach w \<Longrightarrow> exec_step w w' \<Longrightarrow> exec_reach w'"
  unfolding exec_reach_def by (meson rtranclp.rtrancl_into_rtrancl)

lemma demo_both_reach: "exec_reach demo_both"
proof (rule exec_reach_step [OF demo_first_reach])
  show "exec_step (demo_exec [Running, Pending] [True, False, False, False, False] [Some 0, None, None, None, None] 1 [Run 0 0 0])
      demo_both"
    using exec_step.take_action [OF demo_take2] by (simp add: demo_exec_def demo_both_def)
qed

theorem inflight_no_race_witness:
  "\<not> uses_hazard (o_uses (graph_operations demo_both 0 ! 0)) (o_uses (graph_operations demo_both 0 ! 1))"
  using inflight_no_race [OF demo_both_reach, of 0 0 0 0 0 1] by (simp add: demo_both_def demo_exec_def)

text \<open>
  C22: blocker counts are exact. In every reachable state the blocker count of a pending
  submission is the number of earlier pending submissions with a use that conflicts with
  one of its own, whatever submissions were finished or cancelled out of order; and sequence
  numbers ascend in the queue.
\<close>

theorem blockers_exact:
  assumes "exec_reach w" and "j < length (sc_pending (ex_sched w))"
  shows "pj_blockers (sc_pending (ex_sched w) ! j) = card {i. i < j \<and>
       uses_hazard (graph_uses w (pj_graph (sc_pending (ex_sched w) ! i))) (graph_uses w (pj_graph (sc_pending (ex_sched w) ! j)))}
    \<and> (\<forall>i<j. pj_sequence (sc_pending (ex_sched w) ! i) < pj_sequence (sc_pending (ex_sched w) ! j))"
proof
  let ?ps = "sc_pending (ex_sched w)" and ?f = "\<lambda>job. (pj_graph job, pj_blockers job)"
  have inv: "exec_inv w" using assms(1) by (rule exec_reach_inv)
  have conf: "conflicts (graph_uses w a) (graph_uses w b) \<longleftrightarrow> uses_hazard (graph_uses w a) (graph_uses w b)" for a b
    using inv by (intro conflicts_correct) (simp_all add: exec_inv_def static_ok_def graph_static_def prepared_ok_def graph_uses_def)
  have "counts (\<lambda>g h. conflicts (graph_uses w g) (graph_uses w h)) (map ?f ?ps)"
    using inv by (simp add: exec_inv_def blockers_ok_def)
  from counts_at [OF this, of j] assms(2)
  have "pj_blockers (?ps ! j) = length (filter (\<lambda>h. uses_hazard (graph_uses w (fst h)) (graph_uses w (pj_graph (?ps ! j)))) (take j (map ?f ?ps)))"
    by (simp add: conf)
  also have "\<dots> = card {i. i < length (take j (map ?f ?ps)) \<and>
      uses_hazard (graph_uses w (fst (take j (map ?f ?ps) ! i))) (graph_uses w (pj_graph (?ps ! j)))}"
    by (rule length_filter_conv_card)
  also have "{i. i < length (take j (map ?f ?ps)) \<and> uses_hazard (graph_uses w (fst (take j (map ?f ?ps) ! i))) (graph_uses w (pj_graph (?ps ! j)))}
      = {i. i < j \<and> uses_hazard (graph_uses w (pj_graph (?ps ! i))) (graph_uses w (pj_graph (?ps ! j)))}"
    using assms(2) by auto
  finally show "pj_blockers (?ps ! j) = card {i. i < j \<and> uses_hazard (graph_uses w (pj_graph (?ps ! i))) (graph_uses w (pj_graph (?ps ! j)))}" .
  have "sorted_wrt (<) (map pj_sequence ?ps)" using inv by (simp add: exec_inv_def seq_ok_def)
  then show "\<forall>i<j. pj_sequence (?ps ! i) < pj_sequence (?ps ! j)"
    using assms(2) by (auto simp: sorted_wrt_iff_nth_less)
qed

theorem blockers_exact_witness:
  "pj_blockers (sc_pending (ex_sched demo_both) ! 0) = 0"
  using blockers_exact [OF demo_both_reach, of 0] by (simp add: demo_both_def demo_exec_def)

text \<open>What starting a region changes in the state and in the results a worker reads.\<close>

lemma start_node_results:
  assumes "start_node lane j n w = (w', Run g k n)" "k < length (xg_slots (ex_graph w g))"
    "g = pj_graph (sc_pending (ex_sched w) ! j)" "k = pj_slot (sc_pending (ex_sched w) ! j)"
  shows "dep_result w' = dep_result w" "job_signal w' = job_signal w"
    "sl_failure (job_slot w' (sc_pending (ex_sched w) ! j)) = sl_failure (job_slot w (sc_pending (ex_sched w) ! j))"
    "nodes_of w' g k = (nodes_of w g k)[n := Running]" "graph_operations w' = graph_operations w"
proof -
  let ?f = "\<lambda>sl. sl\<lparr>sl_nodes := (sl_nodes sl)[n := Running]\<rparr>"
  have "\<exists>s. w' = (update_slot g k ?f w)\<lparr>ex_sched := s\<rparr>" using assms(1,3,4) by (auto simp: start_node_def Let_def)
  then show "dep_result w' = dep_result w" "job_signal w' = job_signal w"
      "sl_failure (job_slot w' (sc_pending (ex_sched w) ! j)) = sl_failure (job_slot w (sc_pending (ex_sched w) ! j))"
      "nodes_of w' g k = (nodes_of w g k)[n := Running]" "graph_operations w' = graph_operations w"
    using assms(2-4) by (auto simp: dep_result_def job_signal_def job_slot_def nodes_of_def update_slot_at fun_eq_iff split: completion.splits)
qed

text \<open>
  C23: a region starts only when it may. Whenever the scheduler starts a region in a
  reachable state, its submission is pending with no earlier conflicting submission left, is not
  cancelled, has not failed, and all producers it was submitted after have succeeded; the region's own
  dependencies are done, its queue was free, and on the compute queue no native stage with an
  earlier ticket is waiting. The region is then running on its queue.
\<close>

theorem started_region_ready:
  assumes "exec_reach w" and "next_action target w = (w', Some (Run g k n))"
  shows "\<exists>job\<in>set (sc_pending (ex_sched w)). pj_graph job = g \<and> pj_slot job = k \<and> is_target target job
      \<and> pj_blockers job = 0 \<and> (\<forall>c\<in>set (pj_deps job). dep_result w' c = Some (Inr ()))
      \<and> \<not> sg_cancel (job_signal w' job) \<and> sl_failure (job_slot w' job) = None
      \<and> (\<forall>d\<in>set (o_deps (graph_operations w g ! n)). nodes_of w' g k ! d = Done) \<and> nodes_of w' g k ! n = Running
      \<and> \<not> sc_running (ex_sched w) ! op_queue (graph_operations w g ! n)
      \<and> (op_queue (graph_operations w g ! n) = compute_queue \<longrightarrow> (\<forall>t\<in>set (sc_native (ex_sched w)). pj_sequence job \<le> t))"
proof -
  have inv: "exec_inv w" using assms(1) by (rule exec_reach_inv)
  obtain w1 lane j where w1: "exec_inv w1" "ex_sched w1 = ex_sched w" "candidate w1 lane j n" "lane < 5"
      "start_node lane j n w1 = (w', Run g k n)" "is_target target (sc_pending (ex_sched w) ! j)"
      "g = pj_graph (sc_pending (ex_sched w) ! j)" "k = pj_slot (sc_pending (ex_sched w) ! j)"
    using next_action_Run [OF inv assms(2)] by metis
  define job where "job = sc_pending (ex_sched w) ! j"
  have cand: "j < length (sc_pending (ex_sched w))" "pj_blockers job = 0" "n < length (graph_operations w1 g)"
      "op_queue (graph_operations w1 g ! n) = lane" "op_startable (ex_sched w) job (nodes_of w1 g k) (graph_operations w1 g) n"
      "\<forall>c\<in>set (pj_deps job). dep_result w1 c = Some (Inr ())" "\<not> sg_cancel (job_signal w1 job)" "sl_failure (job_slot w1 job) = None"
    using w1(2,3,7,8) by (auto simp: candidate_def Let_def job_def)
  have jp: "job \<in> set (sc_pending (ex_sched w))" using cand(1) by (simp add: job_def)
  have ops: "graph_operations w1 g = graph_operations w g"
    using next_action_ops [OF assms(2)] w1(5) by (auto simp: start_node_def Let_def)
  have b: "k < length (xg_slots (ex_graph w1 g))"
    using exec_inv_slot_bound [OF w1(1) pending_live, of job] jp w1(2,7,8) by (simp add: job_def)
  have len: "length (nodes_of w1 g k) = length (graph_operations w1 g)" using exec_inv_nodes_length [OF w1(1) b] .
  note res = start_node_results [OF w1(5) b w1(7,8) [folded w1(2)], unfolded w1(2), folded job_def]
  have st: "\<not> sc_running (ex_sched w) ! lane" "nodes_of w1 g k ! n = Pending"
      "\<forall>d\<in>set (o_deps (graph_operations w1 g ! n)). nodes_of w1 g k ! d = Done"
      "\<not> (lane = compute_queue \<and> (case sc_native (ex_sched w) of [] \<Rightarrow> False | t # _ \<Rightarrow> pj_sequence job > t))"
    using cand(4,5) by (auto simp: op_startable_def Let_def)
  have "nodes_of w' g k ! d = Done" if "d \<in> set (o_deps (graph_operations w g ! n))" for d
  proof -
    have "nodes_of w1 g k ! d = Done" using st(3) that ops by simp
    moreover from this have "d \<noteq> n" using st(2) by auto
    ultimately show ?thesis by (simp add: res)
  qed
  moreover have "nodes_of w' g k ! n = Running" using cand(3) len by (simp add: res)
  moreover have "pj_sequence job \<le> t" if "lane = compute_queue" "t \<in> set (sc_native (ex_sched w))" for t
  proof -
    have "sorted_wrt (<) (sc_native (ex_sched w))" using inv by (simp add: exec_inv_def seq_ok_def)
    with that st(4) show ?thesis by (cases "sc_native (ex_sched w)") auto
  qed
  moreover have "pj_graph job = g" "pj_slot job = k" "is_target target job" using w1(6-8) by (simp_all add: job_def)
  moreover have "\<not> sc_running (ex_sched w) ! op_queue (graph_operations w g ! n)" "op_queue (graph_operations w g ! n) = lane"
    using st(1) cand(4) ops by simp_all
  ultimately show ?thesis
    using jp cand(2,6-8) by (intro bexI [of _ job] conjI) (auto simp: res)
qed

theorem started_region_ready_witness:
  "nodes_of (demo_exec [Running, Running] [True, True, False, False, False] [Some 0, Some 0, None, None, None] 2 [Run 0 0 0]) 0 0 ! 1 = Running"
proof -
  have "exec_reach (demo_exec [Running, Pending] [True, False, False, False, False] [Some 0, None, None, None, None] 1 [Run 0 0 0])"
    by (rule demo_first_reach)
  from started_region_ready [OF this demo_take2] show ?thesis by auto
qed

text \<open>
  Native stages enter in order. When a waiting native stage gets the compute queue in
  a reachable state, its ticket is the smallest of all waiting tickets, every submission with an earlier
  sequence number has finished and published its result, no region is in flight on the compute
  queue, and the stage alone holds it afterwards.
\<close>

lemma native_fifo:
  assumes "exec_reach w" and "native_enter t (ex_sched w) = Go s"
  shows "(\<forall>u\<in>set (sc_native (ex_sched w)). t \<le> u) \<and> t \<in> set (sc_native (ex_sched w))
    \<and> (\<forall>job\<in>set (live_jobs w). t \<le> pj_sequence job)
    \<and> filter (runs_on w compute_queue) (ex_inflight w) = [] \<and> \<not> sc_native_active (ex_sched w)
    \<and> sc_native_active s \<and> occupied s = occupied (ex_sched w)"
proof -
  have inv: "exec_inv w" using assms(1) by (rule exec_reach_inv)
  have ready: "native_ready (ex_sched w) t" and s: "s = (ex_sched w)\<lparr>sc_native := tl (sc_native (ex_sched w)),
        sc_native_active := True, sc_running := (sc_running (ex_sched w))[1 := True]\<rparr>"
    using assms(2) by (auto simp: native_enter_def split: if_splits)
  obtain ts where ts: "sc_native (ex_sched w) = t # ts"
    using ready by (auto simp: native_ready_def split: list.splits)
  have free: "\<not> sc_running (ex_sched w) ! 1" using ready by (simp add: native_ready_def)
  have "lane_load w 1 = (if sc_running (ex_sched w) ! 1 then 1 else 0)"
    using inv unfolding exec_inv_def lanes_ok_def by fastforce
  with free have load: "lane_load w 1 = 0" by simp
  have "sorted_wrt (<) (t # ts)" using inv ts by (simp add: exec_inv_def seq_ok_def)
  moreover have "\<not> q < t" if "q \<in> set (sc_finishing (ex_sched w))" for q using ready that by (auto simp: native_ready_def)
  moreover have "mset (sc_finishing (ex_sched w)) = mset (map pj_sequence (finish_jobs (ex_inflight w)))"
    using inv by (simp add: exec_inv_def slots_ok_def)
  then have "set (sc_finishing (ex_sched w)) = pj_sequence ` set (finish_jobs (ex_inflight w))"
    by (metis set_map set_mset_mset)
  moreover have "\<not> pj_sequence job < t" if "job \<in> set (sc_pending (ex_sched w))" for job
    using ready that by (auto simp: native_ready_def)
  ultimately have "\<forall>job\<in>set (live_jobs w). t \<le> pj_sequence job" "\<forall>u\<in>set ts. t \<le> u"
    by (auto simp: live_jobs_def not_less)
  moreover have "filter (runs_on w compute_queue) (ex_inflight w) = []" "\<not> sc_native_active (ex_sched w)"
    using load by (auto simp: lane_load_def split: if_splits)
  ultimately show ?thesis using ts by (simp add: s occupied_def)
qed

definition demo_native :: scheduler where
  "demo_native = (scheduler_new 4)\<lparr>sc_sequence := 1, sc_native := [0]\<rparr>"

text \<open>
  C21: queues and capacity. In every reachable state each of the five queues has at most one
  region in flight, a native lease excludes every region on the compute queue, and the
  pending, finishing and native submissions together never exceed the configured capacity. Native stages enter in order: one that gets
  the compute queue has the smallest of all waiting tickets, every submission with an earlier
  sequence number has finished and published its result, no region is in flight on the compute queue, and the stage alone holds it afterwards.
\<close>

theorem queues_exclusive:
  assumes "exec_reach w"
  shows "(\<forall>lane<5. length (filter (runs_on w lane) (ex_inflight w)) \<le> 1)
    \<and> (sc_native_active (ex_sched w) \<longrightarrow> filter (runs_on w compute_queue) (ex_inflight w) = [])
    \<and> occupied (ex_sched w) \<le> sc_capacity (ex_sched w)
    \<and> (\<forall>t s. native_enter t (ex_sched w) = Go s \<longrightarrow>
         (\<forall>u\<in>set (sc_native (ex_sched w)). t \<le> u) \<and> t \<in> set (sc_native (ex_sched w))
         \<and> (\<forall>job\<in>set (live_jobs w). t \<le> pj_sequence job)
         \<and> filter (runs_on w compute_queue) (ex_inflight w) = [] \<and> \<not> sc_native_active (ex_sched w)
         \<and> sc_native_active s \<and> occupied s = occupied (ex_sched w))"
proof -
  have inv: "exec_inv w" using assms by (rule exec_reach_inv)
  have load: "lane_load w l \<le> 1" if "l < 5" for l
    using inv that by (simp add: exec_inv_def lanes_ok_def)
  have "length (filter (runs_on w l) (ex_inflight w)) \<le> 1" if "l < 5" for l
    using load [OF that] by (simp add: lane_load_def split: if_splits)
  moreover have "filter (runs_on w compute_queue) (ex_inflight w) = []" if "sc_native_active (ex_sched w)"
    using load [of 1] that by (simp add: lane_load_def)
  moreover have "occupied (ex_sched w) \<le> sc_capacity (ex_sched w)" using inv by (simp add: exec_inv_def seq_ok_def)
  ultimately show ?thesis using native_fifo [OF assms] by blast
qed

theorem queues_exclusive_witness:
  "\<exists>s. native_enter 0 demo_native = Go s \<and> sc_native_active s \<and> occupied s = 1 \<and> occupied demo_native \<le> 4"
proof -
  have enq: "native_enqueue (ex_sched demo_exec0) = Some (Inr (demo_native, 0))"
    by (simp add: native_enqueue_def demo_exec0_def scheduler_new_def occupied_def next_sequence_def usize_MAX_def demo_native_def)
  have "exec_reach demo_exec0" using demo_start by (auto simp: exec_reach_def)
  from exec_reach_step [OF this exec_step.native_enqueue [OF enq]]
  have reach: "exec_reach (demo_exec0\<lparr>ex_sched := demo_native\<rparr>)" .
  obtain s where s: "native_enter 0 demo_native = Go s"
    by (simp add: native_enter_def native_ready_def demo_native_def scheduler_new_def)
  note Q = queues_exclusive [OF reach]
  have "sc_native_active s" "occupied s = occupied demo_native"
    using Q [THEN conjunct2, THEN conjunct2, THEN conjunct2, THEN spec [of _ 0], THEN spec [of _ s]] s by simp_all
  moreover have "occupied demo_native \<le> sc_capacity demo_native" using Q [THEN conjunct2, THEN conjunct2, THEN conjunct1] by simp
  ultimately show ?thesis using s by (simp add: occupied_def demo_native_def scheduler_new_def)
qed

text \<open>
  Finishing is total and publishes the result. In a reachable state a job that a worker
  took for finishing is still listed as finishing (the expectation in the code never
  fails), and finishing it makes its completion observable with the recorded failure,
  else the requested cancellation, else success, and frees its slot.
\<close>

lemma finish_publishes:
  assumes "exec_reach w" and "Finish job failure \<in> set (ex_inflight w)"
  shows "\<exists>w' woken. finish_job now job failure w = Some (w', woken)
    \<and> woken = registered (job_signal w job)
    \<and> dep_result w' (Run_of (pj_graph job) (pj_slot job))
        = Some (case failure of Some e \<Rightarrow> Inl (Execution e)
                | None \<Rightarrow> if sg_cancel (job_signal w job) then Inl Cancelled else Inr ())
    \<and> \<not> sl_occupied (job_slot w' job)"
proof -
  let ?g = "pj_graph job" and ?i = "pj_slot job"
  have inv: "exec_inv w" using assms(1) by (rule exec_reach_inv)
  obtain xs ys where split: "finish_jobs (ex_inflight w) = xs @ job # ys" using finish_jobs_remove [OF assms(2)] by blast
  then have live: "job \<in> set (live_jobs w)" by (simp add: live_jobs_def)
  have b: "?i < length (xg_slots (ex_graph w ?g))" using exec_inv_slot_bound [OF inv live] .
  have sb: "?i < length (xg_signals (ex_graph w ?g))"
    using b inv by (simp add: exec_inv_def static_ok_def graph_static_def)
  have "mset (sc_finishing (ex_sched w)) = mset (map pj_sequence (finish_jobs (ex_inflight w)))"
    using inv by (simp add: exec_inv_def slots_ok_def)
  then have "pj_sequence job \<in> set (sc_finishing (ex_sched w))"
    by (metis split in_set_conv_decomp list.set_map rev_image_eqI set_mset_mset)
  then obtain p where p: "position (\<lambda>q. q = pj_sequence job) (sc_finishing (ex_sched w)) = Some p"
    using position_None [of "\<lambda>q. q = pj_sequence job" "sc_finishing (ex_sched w)"] by (cases "position (\<lambda>q. q = pj_sequence job) (sc_finishing (ex_sched w))") auto
  let ?w1 = "update_slot ?g ?i (\<lambda>sl. sl\<lparr>sl_occupied := False\<rparr>) w"
  let ?sg = "fst (publish now failure (job_signal w job))"
  let ?w' = "update_signal ?g ?i (\<lambda>_. ?sg) (?w1\<lparr>ex_sched := (ex_sched w)\<lparr>sc_finishing := swap_remove p (sc_finishing (ex_sched w))\<rparr>\<rparr>)"
  have run: "finish_job now job failure w = Some (?w', registered (job_signal w job))"
    using p by (simp add: finish_job_def Let_def publish_def)
  have "xg_signals (ex_graph ?w' ?g) ! ?i = ?sg" using sb by (simp add: update_signal_def)
  then have "dep_result ?w' (Run_of ?g ?i) = Some (outcome ?sg)"
    by (simp add: dep_result_def completion_result_def publish_def)
  moreover have "outcome ?sg = (case failure of Some e \<Rightarrow> Inl (Execution e)
      | None \<Rightarrow> if sg_cancel (job_signal w job) then Inl Cancelled else Inr ())"
    by (simp add: outcome_def publish_def split: option.splits)
  moreover have "\<not> sl_occupied (job_slot ?w' job)" using b by (simp add: job_slot_def update_slot_at)
  ultimately show ?thesis using run by auto
qed

section \<open>Progress\<close>

lemma consider_keeps:
  "length cands = 5 \<Longrightarrow> cands ! l \<noteq> None \<Longrightarrow> consider_op s j nodes ops i cands ! l \<noteq> None"
  using op_queue_bound [of "ops ! i"]
  by (cases "l = op_queue (ops ! i)") (simp_all add: consider_op_def Let_def)

lemma consider_length [simp]: "length (consider_op s j nodes ops i cands) = length cands"
  by (simp add: consider_op_def Let_def)

lemma fold_consider_keeps:
  "length cands = 5 \<Longrightarrow> cands ! l \<noteq> None \<Longrightarrow> fold (consider_op s j nodes ops) ks cands ! l \<noteq> None"
proof (induction ks arbitrary: cands)
  case (Cons k ks)
  have "length (consider_op s j nodes ops k cands) = 5" using Cons.prems(1) by simp
  from Cons.IH [OF this consider_keeps [OF Cons.prems]] show ?case unfolding fold_simps(2) .
qed simp

lemma fold_consider_length [simp]: "length (fold (consider_op s j nodes ops) ks cands) = length cands"
  by (induction ks arbitrary: cands) simp_all

lemma fold_consider_finds:
  assumes "i \<in> set ks" "op_startable s (sc_pending s ! j) nodes ops i" "length cands = 5"
  shows "fold (consider_op s j nodes ops) ks cands ! op_queue (ops ! i) \<noteq> None"
  using assms(1,3)
proof (induction ks arbitrary: cands)
  case (Cons k ks)
  show ?case
  proof (cases "k = i")
    case True
    have "consider_op s j nodes ops i cands ! op_queue (ops ! i) \<noteq> None"
      using assms(2) Cons.prems(2) op_queue_bound [of "ops ! i"]
      by (auto simp: consider_op_def Let_def split: option.splits)
    then have "fold (consider_op s j nodes ops) ks (consider_op s j nodes ops i cands) ! op_queue (ops ! i) \<noteq> None"
      by (intro fold_consider_keeps) (simp add: Cons.prems(2))
    then show ?thesis unfolding fold_simps(2) True .
  qed (use Cons in simp)
qed simp

lemma scan_keeps:
  "scan target js w cands = (w', Inr cands') \<Longrightarrow> length cands = 5 \<Longrightarrow> cands ! l \<noteq> None \<Longrightarrow> cands' ! l \<noteq> None"
proof (induction target js w cands rule: scan.induct)
  case (2 target j js w cands)
  then show ?case
    by (auto simp: Let_def fold_consider_keeps split: prod.splits if_splits)
qed simp

lemma check_deps_waits:
  "\<forall>c\<in>set cs. dep_result w c \<noteq> None \<Longrightarrow> \<exists>dep. check_deps w cs waiting = (waiting, dep)"
  by (induction w cs waiting rule: check_deps.induct) (auto split: option.splits sum.splits)

lemma pick_lane_None:
  "pick_lane w None cands lanes = None \<Longrightarrow> l \<in> set lanes \<Longrightarrow> cands ! l = None"
  by (induction lanes) (auto simp: is_target_def split: option.splits)

lemma all_lanes: "l < 5 \<Longrightarrow> l \<in> set (map (\<lambda>off. (a + off) mod 5) [0..<5])"
proof -
  assume l: "l < 5"
  have "a mod 5 < 5" "5 * (a div 5) + a mod 5 = a" by simp_all
  then have "a + (l + 5 - a mod 5) = l + 5 * (a div 5 + 1)" unfolding distrib_left by linarith
  then have "(a + (l + 5 - a mod 5) mod 5) mod 5 = (l + 5 * (a div 5 + 1)) mod 5" by (simp only: mod_add_right_eq)
  also have "\<dots> = l" using l by (simp only: mod_mult_self2 mod_less)
  finally have "(a + (l + 5 - a mod 5) mod 5) mod 5 = l" .
  moreover have "(l + 5 - a mod 5) mod 5 \<in> {0..<5}" by simp
  ultimately show ?thesis unfolding set_map set_upt by (intro image_eqI) (rule sym)
qed

text \<open>
  With nothing in flight and no native stage active, the first region of the oldest submission that is not done can start, unless an
  older native ticket waits.
\<close>

lemma first_unfinished_startable:
  assumes "exec_inv w" "ex_inflight w = []" "\<forall>t\<in>set (sc_native (ex_sched w)). pj_sequence job \<le> t" "\<not> sc_native_active (ex_sched w)"
    "sc_pending (ex_sched w) = job # rest" "\<not> (\<forall>x\<in>set (sl_nodes (job_slot w job)). x = Done)"
  shows "\<exists>i<length (graph_operations w (pj_graph job)).
      op_startable (ex_sched w) (sc_pending (ex_sched w) ! 0) (sl_nodes (job_slot w job)) (graph_operations w (pj_graph job)) i"
proof -
  define sl where "sl = job_slot w job"
  let ?ops = "graph_operations w (pj_graph job)"
  have jp: "job \<in> set (sc_pending (ex_sched w))" by (simp add: assms(5))
  have nodes: "sl_nodes sl = nodes_of w (pj_graph job) (pj_slot job)" by (simp add: sl_def nodes_of_def job_slot_def)
  have len: "length (sl_nodes sl) = length ?ops"
    using exec_inv_nodes_length [OF assms(1) exec_inv_slot_bound [OF assms(1) pending_live [OF jp]]] nodes by simp
  have not_running: "sl_nodes sl ! n \<noteq> Running" if "n < length ?ops" for n
    using assms(1,2) that jp nodes by (auto simp: exec_inv_def runs_ok_def)
  define i where "i = (LEAST i. i < length ?ops \<and> sl_nodes sl ! i \<noteq> Done)"
  have ex: "\<exists>i. i < length ?ops \<and> sl_nodes sl ! i \<noteq> Done" using assms(6) len by (auto simp: in_set_conv_nth sl_def)
  have i: "i < length ?ops" "sl_nodes sl ! i \<noteq> Done" using LeastI_ex [OF ex] by (simp_all add: i_def)
  then have pending: "sl_nodes sl ! i = Pending" using not_running [of i] by (cases "sl_nodes sl ! i") auto
  have before: "sl_nodes sl ! d = Done" if "d < i" for d
    using not_less_Least [of d "\<lambda>i. i < length ?ops \<and> sl_nodes sl ! i \<noteq> Done"] that i(1) by (auto simp: i_def)
  have "lane_load w l = 0" if "l < 5" for l using assms(2,4) by (simp add: lane_load_def)
  then have idle: "\<not> sc_running (ex_sched w) ! op_queue (?ops ! i)"
    using assms(1) op_queue_bound [of "?ops ! i"] unfolding exec_inv_def lanes_ok_def by (metis zero_neq_one)
  have earlier: "d < i" if "d \<in> set (o_deps (?ops ! i))" for d
    using edges_okD [OF exec_inv_edges [OF assms(1), of "pj_graph job"], of d i] that i(1) by (simp add: op_edges_def dep_edges_def)
  have "op_startable (ex_sched w) (sc_pending (ex_sched w) ! 0) (sl_nodes sl) ?ops i"
    using idle pending before earlier assms(3,5) by (auto simp: op_startable_def Let_def split: list.splits)
  with i(1) show ?thesis unfolding sl_def by blast
qed

text \<open>An idle scheduler lets the front ticket in when no older submission is pending.\<close>

lemma front_ticket_ready:
  assumes "exec_inv w" "ex_inflight w = []" "\<not> sc_native_active (ex_sched w)" "sc_native (ex_sched w) = t # ts"
    "\<forall>job\<in>set (sc_pending (ex_sched w)). t \<le> pj_sequence job"
  shows "native_ready (ex_sched w) t"
proof -
  have "lane_load w compute_queue = 0" using assms(2,3) by (simp add: lane_load_def)
  moreover have "compute_queue < 5" by simp
  ultimately have "\<not> sc_running (ex_sched w) ! compute_queue"
    using assms(1) unfolding exec_inv_def lanes_ok_def by (metis zero_neq_one)
  moreover have "sc_finishing (ex_sched w) = []" using assms(1,2) by (simp add: exec_inv_def slots_ok_def)
  ultimately show ?thesis using assms(4,5) by (auto simp: native_ready_def)
qed

text \<open>
  C26: the scheduler gets stuck only on a producer. In a reachable state with no action in flight, a worker that finds no
  action to take has nothing to do: no submission is pending and no native stage waits; or the oldest pending
  submission waits for a producer that has not completed; or a native stage is active, holding the compute lane; or the native
  stage at the front of the queue may enter at once. In particular the oldest of the waiting
  submissions and stages never waits for a younger one.
\<close>

theorem idle_only_on_producer:
  assumes "exec_reach w" and "ex_inflight w = []" and "next_action None w = (w', None)"
  shows "sc_pending (ex_sched w) = [] \<and> sc_native (ex_sched w) = []
    \<or> sc_pending (ex_sched w) \<noteq> [] \<and> (\<exists>c\<in>set (pj_deps (hd (sc_pending (ex_sched w)))). dep_result w c = None)
    \<or> sc_native_active (ex_sched w)
    \<or> (\<exists>t ts. sc_native (ex_sched w) = t # ts \<and> native_ready (ex_sched w) t)"
proof (rule ccontr)
  assume stuck: "\<not> ?thesis"
  have inv: "exec_inv w" using assms(1) by (rule exec_reach_inv)
  have sorted: "sorted_wrt (<) (map pj_sequence (sc_pending (ex_sched w)))" "sorted_wrt (<) (sc_native (ex_sched w))"
    using inv by (simp_all add: exec_inv_def seq_ok_def)
  have native: "\<not> sc_native_active (ex_sched w)" using stuck by blast
  have older: "\<exists>job\<in>set (sc_pending (ex_sched w)). pj_sequence job < t" if "sc_native (ex_sched w) = t # ts" for t ts
    using front_ticket_ready [OF inv assms(2) native that] stuck that by (metis not_less)
  have "sc_pending (ex_sched w) \<noteq> []"
    using stuck older by (cases "sc_native (ex_sched w)") auto
  then obtain job rest where pend: "sc_pending (ex_sched w) = job # rest" by (cases "sc_pending (ex_sched w)") auto
  then have deps: "\<forall>c\<in>set (pj_deps job). dep_result w c \<noteq> None" using stuck by auto
  have first: "pj_sequence job \<le> t" if "t \<in> set (sc_native (ex_sched w))" for t
  proof -
    from that have "sc_native (ex_sched w) \<noteq> []" by auto
    then obtain u us where u: "sc_native (ex_sched w) = u # us" by (cases "sc_native (ex_sched w)") auto
    have "u \<le> t" using that sorted(2) u by auto
    moreover have "pj_sequence job < u" using older [OF u] sorted(1) pend by auto
    ultimately show ?thesis by simp
  qed
  obtain dep where cd: "check_deps w (pj_deps job) False = (False, dep)"
    using check_deps_waits [OF deps, of False] by auto
  define w1 where "w1 = update_slot (pj_graph job) (pj_slot job) (settle (sg_cancel (job_signal w job)) dep) w"
  define sl where "sl = job_slot w1 job"
  let ?js = "[1..<length (sc_pending (ex_sched w))]" and ?ops = "graph_operations w1 (pj_graph job)"
  have js: "[0..<length (sc_pending (ex_sched w))] = 0 # ?js" by (subst upt_conv_Cons) (simp_all add: pend)
  have job: "job = sc_pending (ex_sched w) ! 0" by (simp add: pend)
  have jp: "job \<in> set (sc_pending (ex_sched w))" by (simp add: pend)
  note step = scan.simps(2) [of None 0 ?js w "replicate 5 None", unfolded Let_def, folded job, unfolded cd prod.case,
      folded w1_def, folded sl_def]
  have inv1: "exec_inv w1" unfolding w1_def by (rule exec_inv_settle [OF inv jp])
  have s1: "ex_sched w1 = ex_sched w" "ex_inflight w1 = []" using assms(2) by (simp_all add: w1_def)
  obtain w2 r where sc: "scan None (0 # ?js) w (replicate 5 None) = (w2, r)" by fastforce
  have blockers: "pj_blockers job = 0"
    using inv counts_at [of "\<lambda>g h. conflicts (graph_uses w g) (graph_uses w h)" "map (\<lambda>job. (pj_graph job, pj_blockers job)) (sc_pending (ex_sched w))" 0]
    by (simp add: exec_inv_def blockers_ok_def pend)
  obtain cands where r: "r = Inr cands"
    using assms(3) sc js by (cases r) (auto simp: next_action_def split: prod.splits)
  have not_done: "\<not> (\<forall>n\<in>set (sl_nodes sl). n = Done)"
  proof
    assume all: "\<forall>n\<in>set (sl_nodes sl). n = Done"
    have t: "\<not> \<not> is_target None job" by (simp add: is_target_def)
    show False using sc r unfolding step if_P [OF all] if_not_P [OF t] by (auto split: prod.splits)
  qed
  let ?c = "fold (consider_op (ex_sched w1) 0 (sl_nodes sl) ?ops) [0..<length ?ops] (replicate 5 None)"
  have go: "\<not> (pj_blockers job \<noteq> 0 \<or> False)" using blockers by simp
  have rest: "scan None ?js w1 ?c = (w2, Inr cands)"
    using sc r unfolding step if_not_P [OF not_done] if_not_P [OF go] by simp
  obtain i where i: "i < length ?ops" "op_startable (ex_sched w1) (sc_pending (ex_sched w1) ! 0) (sl_nodes sl) ?ops i"
    using first_unfinished_startable [OF inv1 s1(2), of job rest] first native s1(1) pend not_done unfolding sl_def by auto
  from i have "?c ! op_queue (?ops ! i) \<noteq> None" by (intro fold_consider_finds) simp_all
  then have found: "cands ! op_queue (?ops ! i) \<noteq> None" using scan_keeps [OF rest] by simp
  have "pick_lane w2 None cands (map (\<lambda>off. (sc_next_lane (ex_sched w2) + off) mod 5) [0..<5]) = None"
    using assms(3) sc js r by (auto simp: next_action_def split: option.splits prod.splits)
  from pick_lane_None [OF this all_lanes [OF op_queue_bound [of "?ops ! i"]]] found show False by blast
qed

text \<open>A submission that waits for a producer which has not completed.\<close>

definition demo_waiting0 :: "(nat, nat) exec" where
  "demo_waiting0 = demo_exec0\<lparr>ex_graph := (\<lambda>_. demo_xgraph)(1 := demo_xgraph\<lparr>xg_signals := [signal_reset 3 signal_new]\<rparr>)\<rparr>"

definition demo_waiting :: "(nat, nat) exec" where
  "demo_waiting = demo_waiting0\<lparr>
     ex_sched := (scheduler_new 4)\<lparr>sc_sequence := 1,
       sc_pending := [\<lparr>pj_sequence = 0, pj_graph = 0, pj_slot = 0, pj_blockers = 0, pj_deps = [Run_of 1 0]\<rparr>]\<rparr>,
     ex_graph := (ex_graph demo_waiting0)(0 := demo_xgraph\<lparr>
        xg_slots := [\<lparr>sl_nodes = [Pending, Pending], sl_occupied = True, sl_failure = None\<rparr>],
        xg_signals := [completion_new (signal_reset 7 signal_new)]\<rparr>)\<rparr>"

lemma demo_waiting0_graph: "ex_graph demo_waiting0 0 = demo_xgraph" "ex_sched demo_waiting0 = scheduler_new 4"
  by (simp_all add: demo_waiting0_def demo_exec0_def)

lemma demo_waiting_submit: "submit_locked 7 (\<lambda>_. Inr ()) 0 [Run_of 1 0] demo_waiting0 = Some (Inr (demo_waiting, Run_of 0 0))"
proof -
  have hosts: "try_all (\<lambda>_. Inr ()) us = Inr ()" for us :: "guse list" by (simp add: try_all_ok)
  have free: "List.find (free_slot demo_xgraph) [0..<length (xg_slots demo_xgraph)] = Some 0"
    by (simp add: demo_xgraph_def free_slot_def signal_new_def upt_rec)
  have room: "\<not> occupied (scheduler_new 4) \<ge> sc_capacity (scheduler_new 4)" by (simp add: occupied_def scheduler_new_def)
  have slots: "begin_slot (xg_slots demo_xgraph ! 0) = \<lparr>sl_nodes = [Pending, Pending], sl_occupied = True, sl_failure = None\<rparr>"
    "xg_signals demo_xgraph ! 0 = signal_new" by (simp_all add: begin_slot_def demo_xgraph_def)
  have "update_slot 0 0 begin_slot (update_signal 0 0 (\<lambda>sg. completion_new (signal_reset 7 sg)) demo_waiting0)
      = demo_waiting0\<lparr>ex_graph := (ex_graph demo_waiting0)(0 := demo_xgraph\<lparr>
        xg_slots := [\<lparr>sl_nodes = [Pending, Pending], sl_occupied = True, sl_failure = None\<rparr>],
        xg_signals := [completion_new (signal_reset 7 signal_new)]\<rparr>)\<rparr>"
    by (simp add: update_slot_def update_signal_def demo_waiting0_graph slots) (simp add: demo_xgraph_def)
  then show ?thesis
    by (simp add: submit_locked_def demo_waiting0_graph hosts free room demo_waiting_def enqueue_def)
      (simp add: next_sequence_def scheduler_new_def usize_MAX_def count_blockers_def)
qed

lemma demo_waiting_reach: "exec_reach demo_waiting"
proof (rule exec_reach_step [OF _ exec_step.submit [OF demo_waiting_submit]])
  have "exec_start demo_waiting0"
    using demo_start by (auto simp: exec_start_def demo_waiting0_def demo_exec0_def graph_static_def) (simp add: demo_xgraph_def)
  then show "exec_reach demo_waiting0" by (auto simp: exec_reach_def)
qed

lemma demo_waiting_idle: "snd (next_action None demo_waiting) = None"
  by (simp add: demo_waiting_def demo_waiting0_def demo_exec0_def demo_action_simps dep_result_def completion_result_def
      upt_rec Let_def replicate_five)

theorem idle_only_on_producer_witness:
  "exec_reach demo_waiting \<and> sc_pending (ex_sched demo_waiting) \<noteq> [] \<and> dep_result demo_waiting (Run_of 1 0) = None"
proof -
  obtain w' where "next_action None demo_waiting = (w', None)" using demo_waiting_idle by (metis prod.collapse)
  from idle_only_on_producer [OF demo_waiting_reach _ this]
  show ?thesis
    using demo_waiting_reach by (simp add: demo_waiting_def demo_waiting0_def demo_exec0_def scheduler_new_def)
qed

end
