(* ===== verification/Exec_Host.thy ===== *)
theory Exec_Host
  imports Exec_Safety
begin

text \<open>
  Host access and device work on the same allocations: the whole of \<open>Operation::run\<close>,
  \<open>usable\<close> and \<open>submit_after\<close> (\<^verbatim>\<open>src/src/execution/graph.rs\<close>) and the poisoning in
  \<open>perform\<close> (\<^verbatim>\<open>src/src/execution/scheduler.rs\<close>), over the scheduler state together with the
  storages of all allocations. \<open>sys_step\<close> interleaves the critical sections of the workers, of
  submitting threads and of threads that map buffers or hand them off.
\<close>


section \<open>Running a region\<close>

definition show_int :: "int \<Rightarrow> string" where
  "show_int i = (if i < 0 then ''-'' @ show_nat (nat (- i)) else show_nat (nat i))"

text \<open>The display text of an error.\<close>

fun error_text :: "error \<Rightarrow> string" where
  "error_text (Busy m) = ''resource busy: '' @ m"
| "error_text (Unsupported m) = ''unsupported capability: '' @ m"
| "error_text (DeviceLost m) = ''device execution failed: '' @ m"
| "error_text (Backend b op code m) = b @ '' '' @ op @ '' failed ('' @ show_int code @ ''): '' @ m"
| "error_text (Execution e) = error_text e"
| "error_text Cancelled = ''execution cancelled''"
| "error_text (Message m) = m"
| "error_text (Compile m ds r) = ''Loom compilation failed: '' @ m"
| "error_text (Io m) = m"
| "error_text (Json m) = m"
| "error_text (Library m) = m"
| "error_text (error.Download m) = m"
| "error_text (Runtime c code m) = c @ '': '' @ m"
| "error_text (Context c e) = c @ '': '' @ error_text e"

text \<open>The first loop of \<open>Operation::run\<close>: reject poisoned allocations, make the others visible.\<close>

fun visible_uses ::
  "sync_control \<Rightarrow> engine \<Rightarrow> guse list \<Rightarrow> stores \<Rightarrow> stores \<times> unit result" where
  "visible_uses cc e [] st = (st, Inr ())"
| "visible_uses cc e (u # us) st =
     (case h_poison (st_host (st (use_id u))) of
        Some m \<Rightarrow> (st, Inl (DeviceLost m))
      | None \<Rightarrow>
          let (s, n, r) = make_visible cc (v_buffer (g_view u)) e (st (use_id u));
              st1 = update_store (use_id u) (\<lambda>_. s) st
          in case r of Inl err \<Rightarrow> (st1, Inl err) | Inr _ \<Rightarrow> visible_uses cc e us st1)"

text \<open>
  SDMA submission: every command retains its parts, then dispatches them in order; \<open>latest\<close>
  is the last accepted part. The accepted prefix is drained even when a later part fails.
\<close>

fun sdma_parts :: "'d result list \<Rightarrow> 'd option \<Rightarrow> 'd option \<times> unit result" where
  "sdma_parts [] latest = (latest, Inr ())"
| "sdma_parts (Inl e # ps) latest = (latest, Inl e)"
| "sdma_parts (Inr d # ps) latest = sdma_parts ps (Some d)"

fun sdma_submit :: "(unit result \<times> 'd result list) list \<Rightarrow> 'd option \<Rightarrow> 'd option \<times> unit result" where
  "sdma_submit [] latest = (latest, Inr ())"
| "sdma_submit ((Inl e, ps) # cs) latest = (latest, Inl e)"
| "sdma_submit ((Inr _, ps) # cs) latest =
     (case sdma_parts ps latest of
        (d, Inl e) \<Rightarrow> (d, Inl e)
      | (d, Inr _) \<Rightarrow> sdma_submit cs d)"

definition run_sdma :: "('d \<Rightarrow> unit result) \<Rightarrow> (unit result \<times> 'd result list) list \<Rightarrow> unit result" where
  "run_sdma wait cmds =
     (let (latest, submitted) = sdma_submit cmds None
      in and_then (case latest of None \<Rightarrow> Inr () | Some d \<Rightarrow> wait d) (\<lambda>_. submitted))"

text \<open>
  A region of plain copies runs on the lane's copy stream, which a failure marks unhealthy for
  good. \<open>copy\<close> is one native copy, \<open>sync\<close> the result of the final synchronization.
\<close>

definition run_copies ::
  "(buffer_view \<times> buffer_view \<Rightarrow> unit result) \<Rightarrow> unit result \<Rightarrow> bool \<Rightarrow> (buffer_view \<times> buffer_view) list
    \<Rightarrow> bool \<times> unit result" where
  "run_copies copy sync healthy copies =
     (if \<not> healthy then (healthy, Inl (DeviceLost ''copy stream is quarantined''))
      else let r = and_then (try_all (\<lambda>(dst, src).
                       and_then (view_gpu dst) (\<lambda>_. and_then (view_gpu src) (\<lambda>_. copy (dst, src)))) copies)
                     (\<lambda>_. sync)
           in (is_ok r, r))"

definition mark_wrote :: "engine \<Rightarrow> guse list \<Rightarrow> stores \<Rightarrow> stores" where
  "mark_wrote e us st =
     fold (\<lambda>u. update_store (use_id u) (\<lambda>s. s\<lparr>st_vis := wrote e (st_vis s)\<rparr>))
       (filter (\<lambda>u. writes (g_access u)) us) st"

text \<open>
  \<open>Operation::run\<close>; \<open>native\<close> is the outcome of the backend. The middle result is what the
  lane's and the total copy counters grow by.
\<close>

definition operation_run ::
  "sync_control \<Rightarrow> ('c backend \<Rightarrow> unit result) \<Rightarrow> 'c operation \<Rightarrow> stores
    \<Rightarrow> stores \<times> nat \<times> unit result" where
  "operation_run cc native op st =
     (let (st1, r) = visible_uses cc (op_engine op) (o_uses op) st
      in case and_then r (\<lambda>_. native (o_backend op)) of
           Inl e \<Rightarrow> (st1, 0, Inl e)
         | Inr _ \<Rightarrow> (mark_wrote (op_engine op) (o_uses op) st1, (if o_uses op = [] then 0 else o_copy_bytes op), Inr ()))"


section \<open>The system\<close>

record ('c, 'w) sys =
  sy_exec :: "('c, 'w) exec"
  sy_buffer :: "usize \<Rightarrow> buffer"
  sy_store :: stores
  sy_held :: "usize \<Rightarrow> lease list"

definition poison_uses :: "string \<Rightarrow> guse list \<Rightarrow> stores \<Rightarrow> stores" where
  "poison_uses m us st = fold (\<lambda>u. update_store (use_id u) (poison m)) us st"

text \<open>The locked end of \<open>perform\<close>: a failure poisons every allocation the graph uses.\<close>

definition run_complete :: "nat \<Rightarrow> nat \<Rightarrow> nat \<Rightarrow> error option \<Rightarrow> ('c, 'w) sys \<Rightarrow> ('c, 'w) sys" where
  "run_complete g i n failure x =
     x\<lparr>sy_exec := run_end g i n failure (sy_exec x),
       sy_store := (case failure of None \<Rightarrow> sy_store x
                    | Some e \<Rightarrow> poison_uses (error_text e) (graph_uses (sy_exec x) g) (sy_store x))\<rparr>"

definition usable :: "nat \<Rightarrow> ('c, 'w) sys \<Rightarrow> unit result" where
  "usable g x =
     (if xg_quarantined (ex_graph (sy_exec x) g) then Inl (DeviceLost ''graph quarantined after native failure'')
      else try_all (\<lambda>u. case h_poison (st_host (sy_store x (use_id u))) of
               None \<Rightarrow> Inr () | Some m \<Rightarrow> Inl (DeviceLost m)) (graph_uses (sy_exec x) g))"

text \<open>\<open>owner\<close> upgrades a completion's weak runtime handle: \<open>None\<close> when that runtime is gone.\<close>

definition dep_valid :: "(completion \<Rightarrow> nat option) \<Rightarrow> nat \<Rightarrow> ('c, 'w) exec \<Rightarrow> completion \<Rightarrow> unit result" where
  "dep_valid owner rt w c =
     (case owner c of
        Some r \<Rightarrow> if r \<noteq> rt then Inl (Message ''completion belongs to another runtime'') else Inr ()
      | None \<Rightarrow> if dep_result w c = None then Inl (Message ''orphaned incomplete producer'') else Inr ())"

definition submit_after ::
  "instant \<Rightarrow> (completion \<Rightarrow> nat option) \<Rightarrow> nat \<Rightarrow> completion list \<Rightarrow> ('c, 'w) sys
    \<Rightarrow> (('c, 'w) sys \<times> completion) result option" where
  "submit_after now owner g deps x =
     (case and_then (usable g x) (\<lambda>_. try_all (dep_valid owner (p_runtime (xg_prepared (ex_graph (sy_exec x) g))) (sy_exec x)) deps) of
        Inl e \<Rightarrow> Some (Inl e)
      | Inr _ \<Rightarrow>
          map_option (map_sum id (\<lambda>(w, c). (x\<lparr>sy_exec := w\<rparr>, c)))
            (submit_locked now (\<lambda>u. host_conflict (g_access u) (st_host (sy_store x (use_id u)))) g deps (sy_exec x)))"

text \<open>Whether device work is pending on an allocation, as a mapping thread sees it.\<close>

definition device_busy :: "('c, 'w) sys \<Rightarrow> buffer \<Rightarrow> access \<Rightarrow> bool" where
  "device_busy x b acc = sched_conflicts (sy_exec x) (whole_view b) acc"

definition hold :: "usize list \<Rightarrow> lease \<Rightarrow> (usize \<Rightarrow> lease list) \<Rightarrow> usize \<Rightarrow> lease list" where
  "hold ids l held i = (if i \<in> set ids then l # held i else held i)"

definition unhold :: "usize list \<Rightarrow> lease \<Rightarrow> (usize \<Rightarrow> lease list) \<Rightarrow> usize \<Rightarrow> lease list" where
  "unhold ids l held i = (if i \<in> set ids then remove1 l (held i) else held i)"

inductive sys_step :: "('c, 'w) sys \<Rightarrow> ('c, 'w) sys \<Rightarrow> bool" where
  submit: "submit_after now owner g deps x = Some (Inr (x', c)) \<Longrightarrow> sys_step x x'"
| idle: "next_action target (sy_exec x) = (w, None) \<Longrightarrow> sys_step x (x\<lparr>sy_exec := w\<rparr>)"
| take_action: "next_action target (sy_exec x) = (w, Some a)
    \<Longrightarrow> sys_step x (x\<lparr>sy_exec := w\<lparr>ex_inflight := ex_inflight w @ [a]\<rparr>\<rparr>)"
| begin_run: "Run g i n \<in> set (ex_inflight (sy_exec x)) \<Longrightarrow> sys_step x (x\<lparr>sy_exec := run_begin now g i (sy_exec x)\<rparr>)"
| region_run: "Run g i n \<in> set (ex_inflight (sy_exec x))
    \<Longrightarrow> operation_run cc native (graph_operations (sy_exec x) g ! n) (sy_store x) = (st, copied, r)
    \<Longrightarrow> sys_step x (x\<lparr>sy_store := st\<rparr>)"
| end_run: "Run g i n \<in> set (ex_inflight (sy_exec x)) \<Longrightarrow> run_complete g i n (run_failure n r) x = x'
    \<Longrightarrow> sys_step x (x'\<lparr>sy_exec := (sy_exec x')\<lparr>ex_inflight := remove1 (Run g i n) (ex_inflight (sy_exec x))\<rparr>\<rparr>)"
| finish: "Finish job failure \<in> set (ex_inflight (sy_exec x)) \<Longrightarrow> finish_job now job failure (sy_exec x) = Some (w, woken)
    \<Longrightarrow> sys_step x (x\<lparr>sy_exec := w\<lparr>ex_inflight := remove1 (Finish job failure) (ex_inflight (sy_exec x))\<rparr>\<rparr>)"
| native_stage: "exec_step (sy_exec x) w \<Longrightarrow> ex_graph w = ex_graph (sy_exec x) \<Longrightarrow> ex_inflight w = ex_inflight (sy_exec x)
    \<Longrightarrow> sc_pending (ex_sched w) = sc_pending (ex_sched (sy_exec x)) \<Longrightarrow> sys_step x (x\<lparr>sy_exec := w\<rparr>)"
| signal_event: "sys_step x (x\<lparr>sy_exec := update_signal g i (handle ww e) (sy_exec x)\<rparr>)"
| map_acquire: "acquire_turn (sy_buffer x i) (device_busy x (sy_buffer x i)) wr wait (st_host (sy_store x i)) = Go h
    \<Longrightarrow> sys_step x (x\<lparr>sy_store := update_store i (\<lambda>s. s\<lparr>st_host := h\<rparr>) (sy_store x),
                       sy_held := hold [i] (lease_of wr) (sy_held x)\<rparr>)"
| map_visible: "make_visible cc (sy_buffer x i) Host (sy_store x i) = (s, n, r)
    \<Longrightarrow> sys_step x (x\<lparr>sy_store := update_store i (\<lambda>_. s) (sy_store x)\<rparr>)"
| map_rollback: "lease_of wr \<in> set (sy_held x i) \<Longrightarrow> acquire_finish wr (Inl e) (st_host (sy_store x i)) = (h, r)
    \<Longrightarrow> sys_step x (x\<lparr>sy_store := update_store i (\<lambda>s. s\<lparr>st_host := h\<rparr>) (sy_store x),
                       sy_held := unhold [i] (lease_of wr) (sy_held x)\<rparr>)"
| drop_read: "Reader \<in> set (sy_held x i)
    \<Longrightarrow> sys_step x (x\<lparr>sy_store := update_store i read_guard_drop (sy_store x), sy_held := unhold [i] Reader (sy_held x)\<rparr>)"
| drop_write: "Writer \<in> set (sy_held x i)
    \<Longrightarrow> sys_step x (x\<lparr>sy_store := update_store i write_guard_drop (sy_store x), sy_held := unhold [i] Writer (sy_held x)\<rparr>)"
| hand_off: "distinct ids \<Longrightarrow> handoff_turn (device_busy x) (map (sy_buffer x) ids) (sy_store x) = Go st
    \<Longrightarrow> sys_step x (x\<lparr>sy_store := st, sy_held := hold ids External (sy_held x)\<rparr>)"
| hand_visible: "handoff_visible cc (map (sy_buffer x) ids) (sy_store x) = (st, r) \<Longrightarrow> sys_step x (x\<lparr>sy_store := st\<rparr>)"
| hand_wrote: "sys_step x (x\<lparr>sy_store := mark_written us (sy_store x)\<rparr>)"
| hand_back: "distinct ids \<Longrightarrow> \<forall>i\<in>set ids. External \<in> set (sy_held x i)
    \<Longrightarrow> sys_step x (x\<lparr>sy_store := drop_leases uncertain (map (sy_buffer x) ids) (sy_store x),
                       sy_held := unhold ids External (sy_held x)\<rparr>)"

text \<open>
  At the start nothing is submitted or held, and every graph was prepared over the
  runtime's own allocations.
\<close>

definition sys_start :: "('c, 'w) sys \<Rightarrow> bool" where
  "sys_start x \<longleftrightarrow> exec_start (sy_exec x) \<and> (\<forall>i. b_id (sy_buffer x i) = i \<and> sy_held x i = [] \<and> sy_store x i = storage_new)
     \<and> (\<forall>g. \<forall>u\<in>set (graph_uses (sy_exec x) g). use_ok u \<and> v_buffer (g_view u) = sy_buffer x (use_id u))"

definition sys_reach :: "('c, 'w) sys \<Rightarrow> bool" where
  "sys_reach x \<longleftrightarrow> (\<exists>x0. sys_start x0 \<and> sys_step\<^sup>*\<^sup>* x0 x)"


section \<open>What a step leaves alone\<close>

abbreviation pend_graphs :: "('c, 'w) exec \<Rightarrow> nat set" where
  "pend_graphs w \<equiv> pj_graph ` set (sc_pending (ex_sched w))"

lemma remove_job_frame:
  "remove_job j w = (w', job) \<Longrightarrow>
     graph_uses w' = graph_uses w \<and> pend_graphs w' \<subseteq> pend_graphs w"
proof -
  assume a: "remove_job j w = (w', job)"
  let ?ps = "sc_pending (ex_sched w)"
  have "pend_graphs w' = pj_graph ` (set (take j ?ps) \<union> set (drop (Suc j) ?ps))"
    using a by (auto simp: remove_job_def Let_def image_Un image_image)
  also have "\<dots> \<subseteq> pend_graphs w" by (intro image_mono Un_least set_take_subset set_drop_subset)
  finally show ?thesis using a by (auto simp: remove_job_def Let_def)
qed

lemma scan_frame:
  "scan target js w cands = (w', r) \<Longrightarrow> \<forall>j\<in>set js. j < length (sc_pending (ex_sched w)) \<Longrightarrow>
     graph_uses w' = graph_uses w \<and> pend_graphs w' \<subseteq> pend_graphs w"
proof (induction target js w cands rule: scan.induct)
  case (2 target j js w cands)
  obtain waiting dep where cd: "check_deps w (pj_deps (sc_pending (ex_sched w) ! j)) False = (waiting, dep)" by fastforce
  define job where "job = sc_pending (ex_sched w) ! j"
  define w1 where "w1 = update_slot (pj_graph job) (pj_slot job) (settle (sg_cancel (job_signal w job)) dep) w"
  have w1: "ex_sched w1 = ex_sched w" "graph_uses w1 = graph_uses w" by (simp_all add: w1_def)
  have js: "\<forall>j\<in>set js. j < length (sc_pending (ex_sched w1))" using 2(5) w1 by simp
  note IH = 2(1-3) [OF job_def cd [symmetric, folded job_def] refl w1_def refl]
  show ?case
  proof (cases "\<forall>n\<in>set (sl_nodes (job_slot w1 job)). n = Done")
    case all: True
    show ?thesis
    proof (cases "is_target target job")
      case True
      let ?w2 = "update_slot (pj_graph job) (pj_slot job) (\<lambda>sl. sl\<lparr>sl_failure := None\<rparr>) w1"
      obtain w3 job' where rm: "remove_job j ?w2 = (w3, job')" by fastforce
      have "w' = w3"
        using 2(4) all True rm by (simp add: Let_def cd [folded job_def] flip: job_def w1_def)
      then show ?thesis using remove_job_frame [OF rm] w1 2(5) by simp
    next
      case False
      then have "scan target js w1 cands = (w', r)"
        using 2(4) all by (simp add: Let_def cd [folded job_def] flip: job_def w1_def)
      from IH(1) [OF all False this js] show ?thesis using w1 by simp
    qed
  next
    case notall: False
    show ?thesis
    proof (cases "pj_blockers job \<noteq> 0 \<or> waiting")
      case True
      then have "scan target js w1 cands = (w', r)"
        using 2(4) unfolding scan.simps Let_def by (simp add: cd [folded job_def] notall flip: job_def w1_def)
      from IH(2) [OF notall True this js] show ?thesis using w1 by simp
    next
      case False
      then have "scan target js w1 (fold (consider_op (ex_sched w1) j (sl_nodes (job_slot w1 job)) (graph_operations w1 (pj_graph job)))
          [0..<length (graph_operations w1 (pj_graph job))] cands) = (w', r)"
        using 2(4) unfolding scan.simps Let_def by (simp add: cd [folded job_def] notall flip: job_def w1_def)
      from IH(3) [OF notall False this js] show ?thesis using w1 by simp
    qed
  qed
qed simp

lemma pick_lane_pending: "pick_lane w target cands lanes = Some (lane, j, i) \<Longrightarrow> \<exists>l. cands ! l = Some (j, i)"
  by (induction lanes) (auto split: option.splits if_splits)

lemma next_action_frame:
  assumes "next_action target w = (w', a)"
  shows "graph_uses w' = graph_uses w \<and> pend_graphs w' \<subseteq> pend_graphs w"
proof -
  obtain w1 r where sc: "scan target [0..<length (sc_pending (ex_sched w))] w (replicate 5 None) = (w1, r)" by fastforce
  have f: "graph_uses w1 = graph_uses w" "pend_graphs w1 \<subseteq> pend_graphs w" using scan_frame [OF sc] by auto
  have "graph_uses w' = graph_uses w1 \<and> pend_graphs w' = pend_graphs w1"
    using assms sc by (auto simp: next_action_def start_node_def Let_def split: sum.splits option.splits prod.splits)
  with f show ?thesis by simp
qed

lemma run_end_frame: "graph_uses (run_end g i n failure w) = graph_uses w \<and> pend_graphs (run_end g i n failure w) = pend_graphs w"
  by (auto simp: run_end_def Let_def graph_uses_def update_slot_def fun_eq_iff)

lemma finish_job_frame:
  "finish_job now job failure w = Some (w', woken) \<Longrightarrow> graph_uses w' = graph_uses w \<and> pend_graphs w' = pend_graphs w"
  by (auto simp: finish_job_def Let_def publish_def split: option.splits)

lemma submit_after_Inr:
  assumes "submit_after now owner g deps x = Some (Inr (x', c))"
  obtains w where "x' = x\<lparr>sy_exec := w\<rparr>" "exec_step (sy_exec x) w" "graph_uses w = graph_uses (sy_exec x)"
    "pend_graphs w \<subseteq> insert g (pend_graphs (sy_exec x))"
    "\<forall>u\<in>set (graph_uses (sy_exec x) g). host_conflict (g_access u) (st_host (sy_store x (use_id u))) = Inr ()"
proof -
  let ?h = "\<lambda>u. host_conflict (g_access u) (st_host (sy_store x (use_id u)))"
  obtain w where w: "submit_locked now ?h g deps (sy_exec x) = Some (Inr (w, c))" "x' = x\<lparr>sy_exec := w\<rparr>"
  proof -
    from assms obtain r where r: "submit_locked now ?h g deps (sy_exec x) = Some r"
        "map_sum id (\<lambda>(w, c). (x\<lparr>sy_exec := w\<rparr>, c)) r = Inr (x', c)"
      by (auto simp: submit_after_def split: sum.splits)
    then show thesis using that by (cases r) auto
  qed
  from submit_locked_Inr [OF w(1)] obtain i q where
      hosts: "\<forall>u\<in>set (graph_uses (sy_exec x) g). ?h u = Inr ()"
      and w': "w = (update_slot g i begin_slot (update_signal g i (\<lambda>sg. completion_new (signal_reset now sg)) (sy_exec x)))\<lparr>
        ex_sched := (ex_sched (sy_exec x))\<lparr>sc_sequence := Suc q, sc_pending := sc_pending (ex_sched (sy_exec x))
          @ [\<lparr>pj_sequence = q, pj_graph = g, pj_slot = i,
              pj_blockers = count_blockers (sy_exec x) (sc_pending (ex_sched (sy_exec x))) g, pj_deps = deps\<rparr>]\<rparr>\<rparr>"
    by metis
  show thesis
  proof (rule that [OF w(2) exec_step.submit [OF w(1)] _ _ hosts])
    show "graph_uses w = graph_uses (sy_exec x)" by (simp add: w')
    show "pend_graphs w \<subseteq> insert g (pend_graphs (sy_exec x))" by (auto simp: w')
  qed
qed

text \<open>A step of the system is a step of the scheduler or leaves it alone.\<close>

lemma sys_step_exec: "sys_step x y \<Longrightarrow> sy_exec y = sy_exec x \<or> exec_step (sy_exec x) (sy_exec y)"
proof (induction rule: sys_step.induct)
  case (submit now owner g deps x x' c)
  then show ?case by (auto elim: submit_after_Inr)
next
  case (end_run g i n x r x')
  from exec_step.end_run [OF end_run.hyps(1) refl, of r] show ?case
    using end_run.hyps(2) by (auto simp: run_complete_def)
qed (auto intro: exec_step.intros)

lemma sys_step_static: "sys_step x y \<Longrightarrow> sy_buffer y = sy_buffer x \<and> graph_uses (sy_exec y) = graph_uses (sy_exec x)"
proof (induction rule: sys_step.induct)
  case (submit now owner g deps x x' c)
  then show ?case by (auto elim: submit_after_Inr)
next
  case (end_run g i n x r x')
  then show ?case by (auto simp: run_complete_def run_end_frame)
next
  case (native_stage x w)
  then show ?case by (simp add: graph_uses_def fun_eq_iff)
qed (auto simp: run_begin_def dest: next_action_frame finish_job_frame)


section \<open>Host and device exclude each other\<close>

text \<open>The lease counters of one allocation, whatever its visibility.\<close>

definition held_ok :: "host_state \<Rightarrow> lease list \<Rightarrow> bool" where
  "held_ok h held \<longleftrightarrow> leases_ok (storage_new\<lparr>st_host := h\<rparr>, held)"

lemma held_ok_step:
  "lease_step b (storage_new\<lparr>st_host := h\<rparr>, held) (storage_new\<lparr>st_host := h'\<rparr>, held') \<Longrightarrow> held_ok h held \<Longrightarrow> held_ok h' held'"
  unfolding held_ok_def by (rule leases_ok_step)

lemma held_ok_acquire:
  assumes "acquire_turn b busy wr wait h = Go h'" "held_ok h held"
  shows "held_ok h' (lease_of wr # held)"
proof (rule held_ok_step [OF _ assms(2)])
  from lease_step.acquire [where s = "storage_new\<lparr>st_host := h\<rparr>" and held = held] assms(1)
  show "lease_step b (storage_new\<lparr>st_host := h\<rparr>, held) (storage_new\<lparr>st_host := h'\<rparr>, lease_of wr # held)" by fastforce
qed

lemma held_ok_release:
  assumes "lease_of wr \<in> set held" "held_ok h held"
  shows "held_ok (release wr h) (remove1 (lease_of wr) held)"
proof (rule held_ok_step [OF _ assms(2)])
  from lease_step.rollback [OF assms(1), of Cancelled "storage_new\<lparr>st_host := h\<rparr>" "release wr h" "Inl Cancelled"]
  show "lease_step b (storage_new\<lparr>st_host := h\<rparr>, held) (storage_new\<lparr>st_host := release wr h\<rparr>, remove1 (lease_of wr) held)" for b
    by (simp add: acquire_finish_def)
qed

lemma held_ok_external:
  assumes "host_conflict ReadWrite h = Inr ()" "held_ok h held"
  shows "held_ok (h\<lparr>h_external := True\<rparr>) (External # held)"
proof (rule held_ok_step [OF _ assms(2)])
  from lease_step.hand_off [of "storage_new\<lparr>st_host := h\<rparr>"] assms(1)
  show "lease_step b (storage_new\<lparr>st_host := h\<rparr>, held) (storage_new\<lparr>st_host := h\<lparr>h_external := True\<rparr>\<rparr>, External # held)" for b
    by (simp add: external_begin_def)
qed

lemma held_ok_back:
  assumes "External \<in> set held" "held_ok (st_host s) held"
  shows "held_ok (st_host (lease_drop u s)) (remove1 External held)"
proof (rule held_ok_step [OF _ assms(2)])
  from lease_step.hand_back [OF assms(1), of _ "storage_new\<lparr>st_host := st_host s\<rparr>" u]
  show "lease_step b (storage_new\<lparr>st_host := st_host s\<rparr>, held) (storage_new\<lparr>st_host := st_host (lease_drop u s)\<rparr>, remove1 External held)" for b
    by (cases u) (simp_all add: lease_drop_def)
qed

lemma held_ok_poison [simp]: "held_ok (h\<lparr>h_poison := m\<rparr>) held = held_ok h held"
  by (simp add: held_ok_def leases_ok_simps)

lemma held_okD:
  assumes "held_ok h held"
  shows "h_writer h \<longleftrightarrow> Writer \<in> set held" "h_external h \<longleftrightarrow> External \<in> set held" "h_readers h = 0 \<longleftrightarrow> Reader \<notin> set held"
  using assms count_list_0_iff [of held Writer] count_list_0_iff [of held External] count_list_0_iff [of held Reader]
  by (auto simp: held_ok_def leases_ok_simps split: if_splits)

text \<open>No lease held on an allocation is at odds with an access to it.\<close>

definition compatible :: "lease list \<Rightarrow> access \<Rightarrow> bool" where
  "compatible held acc \<longleftrightarrow> Writer \<notin> set held \<and> External \<notin> set held \<and> (writes acc \<longrightarrow> Reader \<notin> set held)"

lemma compatible_remove [simp, intro]: "compatible held acc \<Longrightarrow> compatible (remove1 l held) acc"
  by (auto simp: compatible_def dest: notin_set_remove1)

lemma host_conflict_compatible: "held_ok h held \<Longrightarrow> host_conflict acc h = Inr () \<Longrightarrow> compatible held acc"
  using held_okD [of h held] by (auto simp: compatible_def host_conflict_ok)

definition statics :: "('c, 'w) sys \<Rightarrow> bool" where
  "statics x \<longleftrightarrow> (\<forall>i. b_id (sy_buffer x i) = i) \<and> (\<forall>g. \<forall>u\<in>set (graph_uses (sy_exec x) g).
     use_ok u \<and> v_buffer (g_view u) = sy_buffer x (use_id u) \<and> reg_start u < reg_end u)"

definition exclusion :: "('c, 'w) exec \<Rightarrow> (usize \<Rightarrow> lease list) \<Rightarrow> bool" where
  "exclusion w held \<longleftrightarrow> (\<forall>g\<in>pend_graphs w. \<forall>u\<in>set (graph_uses w g). compatible (held (use_id u)) (g_access u))"

definition host_inv :: "('c, 'w) sys \<Rightarrow> bool" where
  "host_inv x \<longleftrightarrow> statics x \<and> (\<forall>i. held_ok (st_host (sy_store x i)) (sy_held x i)) \<and> exclusion (sy_exec x) (sy_held x)"

lemma exclusion_mono:
  "exclusion w held \<Longrightarrow> graph_uses w' = graph_uses w \<Longrightarrow> pend_graphs w' \<subseteq> pend_graphs w
    \<Longrightarrow> (\<And>i. held' i = held i \<or> (\<exists>l. held' i = remove1 l (held i))) \<Longrightarrow> exclusion w' held'"
proof -
  assume e: "exclusion w held" and u: "graph_uses w' = graph_uses w" and g: "pend_graphs w' \<subseteq> pend_graphs w"
    and h: "\<And>i. held' i = held i \<or> (\<exists>l. held' i = remove1 l (held i))"
  have "compatible (held' i) acc" if "compatible (held i) acc" for i acc
    using h [of i] that by (elim disjE exE) simp_all
  moreover have "compatible (held (use_id v)) (g_access v)" if "a \<in> pend_graphs w'" "v \<in> set (graph_uses w' a)" for a v
    using e that subsetD [OF g that(1)] unfolding exclusion_def u by blast
  ultimately show ?thesis unfolding exclusion_def by blast
qed

lemma statics_step: "sys_step x y \<Longrightarrow> statics x \<Longrightarrow> statics y"
  by (drule sys_step_static) (simp add: statics_def)

lemma busy_use:
  assumes "statics x" "g \<in> pend_graphs (sy_exec x)" "u \<in> set (graph_uses (sy_exec x) g)" "writes acc \<or> writes (g_access u)"
  shows "device_busy x (sy_buffer x (use_id u)) acc"
proof -
  have u: "use_ok u" "v_buffer (g_view u) = sy_buffer x (use_id u)" "reg_start u < reg_end u"
    using assms(1,3) by (auto simp: statics_def)
  have "view_conflicts (whole_view (v_buffer (g_view u))) (g_view u)"
    using u(1,3)
    by (auto simp: view_conflicts_def overlaps_def whole_view_def region_defs use_ok_def view_ok_def buffer_len_def split: if_splits)
  then have "view_conflicts (whole_view (sy_buffer x (use_id u))) (g_view u)" by (simp only: u(2))
  then show ?thesis using assms(2-4) by (auto simp: device_busy_def sched_conflicts_def)
qed

text \<open>A lease granted while the device is not busy keeps the exclusion.\<close>

lemma exclusion_hold:
  assumes "statics x" "exclusion (sy_exec x) (sy_held x)" "\<forall>i\<in>set ids. \<not> device_busy x (sy_buffer x i) acc"
    and "l = Reader \<or> writes acc"
  shows "exclusion (sy_exec x) (hold ids l (sy_held x))"
  unfolding exclusion_def
proof (intro ballI)
  fix g u assume g: "g \<in> pend_graphs (sy_exec x)" and u: "u \<in> set (graph_uses (sy_exec x) g)"
  then have c: "compatible (sy_held x (use_id u)) (g_access u)" using assms(2) by (auto simp: exclusion_def)
  show "compatible (hold ids l (sy_held x) (use_id u)) (g_access u)"
  proof (cases "use_id u \<in> set ids")
    case True
    then have "\<not> device_busy x (sy_buffer x (use_id u)) acc" using assms(3) by blast
    then have "\<not> writes acc" "\<not> writes (g_access u)" using busy_use [OF assms(1) g u] by blast+
    with assms(4) c True show ?thesis by (auto simp: compatible_def hold_def)
  qed (use c in \<open>simp add: hold_def\<close>)
qed

lemma visible_uses_host: "st_host (fst (visible_uses cc e us st) i) = st_host (st i)"
proof (induction us arbitrary: st)
  case (Cons u us)
  obtain s n r where mv: "make_visible cc (v_buffer (g_view u)) e (st (use_id u)) = (s, n, r)" by (metis prod_cases3)
  have keep: "st_host s = st_host (st (use_id u))" using make_visible_keeps [OF mv] by simp
  show ?case using Cons.IH [of "update_store (use_id u) (\<lambda>_. s) st"] keep
    by (cases r; cases "h_poison (st_host (st (use_id u)))") (simp_all add: mv update_store_def fun_upd_def)
qed simp

lemma mark_wrote_host: "st_host (mark_wrote e us st i) = st_host (st i)"
proof -
  have "st_host (fold (\<lambda>u. update_store (use_id u) (\<lambda>s. s\<lparr>st_vis := wrote e (st_vis s)\<rparr>)) vs st i) = st_host (st i)"
    for vs st by (induction vs arbitrary: st) (auto simp: update_store_def)
  then show ?thesis by (simp add: mark_wrote_def)
qed

lemma operation_run_host:
  assumes "operation_run cc native op st = (st', n, r)"
  shows "st_host (st' i) = st_host (st i)"
  using assms visible_uses_host [of cc "op_engine op" "o_uses op" st i]
  by (auto simp: operation_run_def mark_wrote_host split: prod.splits sum.splits)

lemma poison_uses_host: "\<exists>p. st_host (poison_uses m us st i) = (st_host (st i))\<lparr>h_poison := p\<rparr>"
proof -
  have "\<exists>p. st_host (fold (\<lambda>u. update_store (use_id u) (poison m)) us st i) = (st_host (st i))\<lparr>h_poison := p\<rparr>"
  proof (induction us arbitrary: st)
    case Nil
    show ?case by (auto intro: exI [of _ "h_poison (st_host (st i))"])
  next
    case (Cons u us)
    from Cons [of "update_store (use_id u) (poison m) st"] show ?case
      by (auto simp: update_store_def poison_def split: if_splits)
  qed
  then show ?thesis by (simp add: poison_uses_def)
qed

lemma held_ok_poison_uses: "held_ok (st_host (poison_uses m us st i)) held = held_ok (st_host (st i)) held"
  using poison_uses_host [of m us st i] by auto

lemma run_complete_host: "held_ok (st_host (sy_store (run_complete g i n failure x) k)) held = held_ok (st_host (sy_store x k)) held"
  by (simp add: run_complete_def held_ok_poison_uses split: option.splits)

text \<open>Steps that change neither leases nor host states.\<close>

lemma host_inv_exec:
  assumes "host_inv x" "statics y" "graph_uses (sy_exec y) = graph_uses (sy_exec x)"
    and "pend_graphs (sy_exec y) \<subseteq> pend_graphs (sy_exec x)" "sy_held y = sy_held x"
    and "\<And>i held. held_ok (st_host (sy_store y i)) held = held_ok (st_host (sy_store x i)) held"
  shows "host_inv y"
  using assms(1,2,5,6) exclusion_mono [of "sy_exec x" "sy_held x" "sy_exec y" "sy_held y"] assms(3,4)
  by (simp add: host_inv_def)

text \<open>Steps that give leases back.\<close>

lemma host_inv_release:
  assumes "host_inv x" "sy_exec y = sy_exec x" "statics y" "sy_held y = unhold ids l (sy_held x)"
    and "\<And>i. held_ok (st_host (sy_store y i)) (sy_held y i)"
  shows "host_inv y"
proof -
  have "exclusion (sy_exec y) (sy_held y)"
    by (rule exclusion_mono [of "sy_exec x" "sy_held x"]) (use assms(1) in \<open>auto simp: host_inv_def assms(2,4) unhold_def\<close>)
  with assms show ?thesis by (simp add: host_inv_def)
qed

lemma host_inv_step: "sys_step x y \<Longrightarrow> host_inv x \<Longrightarrow> host_inv y"
proof (induction rule: sys_step.induct)
  case (submit now owner g deps x x' c)
  from submit_after_Inr [OF submit.hyps] obtain w where w: "x' = x\<lparr>sy_exec := w\<rparr>" "graph_uses w = graph_uses (sy_exec x)"
      "pend_graphs w \<subseteq> insert g (pend_graphs (sy_exec x))"
      "\<forall>u\<in>set (graph_uses (sy_exec x) g). host_conflict (g_access u) (st_host (sy_store x (use_id u))) = Inr ()"
    by metis
  have held: "\<And>i. held_ok (st_host (sy_store x i)) (sy_held x i)" and excl: "exclusion (sy_exec x) (sy_held x)"
    using submit.prems by (auto simp: host_inv_def)
  have new: "compatible (sy_held x (use_id u)) (g_access u)" if "u \<in> set (graph_uses (sy_exec x) g)" for u
    using that w(4) by (intro host_conflict_compatible [OF held]) simp
  have "exclusion w (sy_held x)"
    unfolding exclusion_def w(2)
  proof (intro ballI)
    fix a u assume "a \<in> pend_graphs w" "u \<in> set (graph_uses (sy_exec x) a)"
    then show "compatible (sy_held x (use_id u)) (g_access u)"
      using w(3) new excl by (cases "a = g") (auto simp: exclusion_def)
  qed
  moreover have "statics x'" using statics_step [OF sys_step.submit [OF submit.hyps]] submit.prems by (simp add: host_inv_def)
  ultimately show ?case using held by (simp add: host_inv_def w(1))
next
  case (idle target x w)
  with statics_step [OF sys_step.idle [OF idle.hyps]] next_action_frame [OF idle.hyps] show ?case
    by (intro host_inv_exec [OF idle.prems]) (auto simp: host_inv_def)
next
  case (take_action target x w a)
  with statics_step [OF sys_step.take_action [OF take_action.hyps]] next_action_frame [OF take_action.hyps] show ?case
    by (intro host_inv_exec [OF take_action.prems]) (auto simp: host_inv_def)
next
  case (begin_run g i n x now)
  with statics_step [OF sys_step.begin_run [OF begin_run.hyps, of now]] show ?case
    by (intro host_inv_exec [OF begin_run.prems]) (auto simp: host_inv_def run_begin_def)
next
  case (region_run g i n x cc native st copied r)
  with statics_step [OF sys_step.region_run [OF region_run.hyps]] show ?case
    by (intro host_inv_exec [OF region_run.prems]) (auto simp: host_inv_def operation_run_host)
next
  case (end_run g i n x r x')
  note st = statics_step [OF sys_step.end_run [OF end_run.hyps]]
  have "graph_uses (sy_exec x') = graph_uses (sy_exec x)" "pend_graphs (sy_exec x') = pend_graphs (sy_exec x)" "sy_held x' = sy_held x"
    using run_end_frame [of g i n "run_failure n r" "sy_exec x"] by (simp_all flip: end_run.hyps(2) add: run_complete_def)
  moreover have "held_ok (st_host (sy_store x' k)) held = held_ok (st_host (sy_store x k)) held" for k held
    using run_complete_host [of g i n _ x] end_run.hyps(2) by blast
  ultimately show ?case using st end_run.prems by (intro host_inv_exec [OF end_run.prems]) (simp_all add: host_inv_def)
next
  case (finish job failure x now w woken)
  with statics_step [OF sys_step.finish [OF finish.hyps]] finish_job_frame [OF finish.hyps(2)] show ?case
    by (intro host_inv_exec [OF finish.prems]) (auto simp: host_inv_def)
next
  case (native_stage x w)
  with statics_step [OF sys_step.native_stage [OF native_stage.hyps]] show ?case
    by (intro host_inv_exec [OF native_stage.prems]) (auto simp: host_inv_def graph_uses_def)
next
  case (signal_event x g i ww e)
  with statics_step [OF sys_step.signal_event] show ?case
    by (intro host_inv_exec [OF signal_event.prems]) (auto simp: host_inv_def)
next
  case (map_acquire x i wr wait h)
  let ?acc = "if wr then ReadWrite else Read"
  have free: "\<not> device_busy x (sy_buffer x i) ?acc" using map_acquire.hyps by (simp add: acquire_turn_Go)
  have "exclusion (sy_exec x) (hold [i] (lease_of wr) (sy_held x))"
    using map_acquire.prems free
    by (intro exclusion_hold [where acc = ?acc]) (auto simp: host_inv_def lease_of_def)
  moreover have "held_ok h (lease_of wr # sy_held x i)"
    using map_acquire.prems by (intro held_ok_acquire [OF map_acquire.hyps]) (simp add: host_inv_def)
  ultimately show ?case
    using statics_step [OF sys_step.map_acquire [OF map_acquire.hyps]] map_acquire.prems
    by (auto simp: host_inv_def update_store_def hold_def)
next
  case (map_visible cc x i s n r)
  with make_visible_keeps [OF map_visible.hyps] statics_step [OF sys_step.map_visible [OF map_visible.hyps]] show ?case
    by (intro host_inv_exec [OF map_visible.prems]) (auto simp: host_inv_def update_store_def)
next
  case (map_rollback wr x i e h r)
  have "h = release wr (st_host (sy_store x i))" using map_rollback.hyps(2) by (simp add: acquire_finish_def)
  then have "held_ok h (remove1 (lease_of wr) (sy_held x i))"
    using held_ok_release [OF map_rollback.hyps(1)] map_rollback.prems by (simp add: host_inv_def)
  with map_rollback.prems show ?case
    using statics_step [OF sys_step.map_rollback [OF map_rollback.hyps]]
    by (intro host_inv_release [OF map_rollback.prems]) (auto simp: host_inv_def update_store_def unhold_def)
next
  case (drop_read x i)
  have "held_ok (release False (st_host (sy_store x i))) (remove1 Reader (sy_held x i))"
    using held_ok_release [of False "sy_held x i"] drop_read by (simp add: host_inv_def lease_of_def)
  with drop_read.prems show ?case
    using statics_step [OF sys_step.drop_read [OF drop_read.hyps]]
    by (intro host_inv_release [OF drop_read.prems]) (auto simp: host_inv_def update_store_def unhold_def read_guard_drop_def)
next
  case (drop_write x i)
  have "held_ok (release True (st_host (sy_store x i))) (remove1 Writer (sy_held x i))"
    using held_ok_release [of True "sy_held x i"] drop_write by (simp add: host_inv_def lease_of_def)
  with drop_write.prems show ?case
    using statics_step [OF sys_step.drop_write [OF drop_write.hyps]]
    by (intro host_inv_release [OF drop_write.prems]) (auto simp: host_inv_def update_store_def unhold_def write_guard_drop_def)
next
  case (hand_off ids x st)
  have ids: "distinct (map b_id (map (sy_buffer x) ids))" "b_id ` sy_buffer x ` set ids = set ids"
      "map (\<lambda>i. b_id (sy_buffer x i)) ids = ids"
    using hand_off.hyps(1) hand_off.prems by (auto simp: host_inv_def statics_def image_image comp_def)
  have turn: "\<forall>i\<in>set ids. host_conflict ReadWrite (st_host (sy_store x i)) = Inr ()"
      "\<forall>i\<in>set ids. \<not> device_busy x (sy_buffer x i) ReadWrite"
      "st = fold (\<lambda>b. update_store (b_id b) external_begin) (map (sy_buffer x) ids) (sy_store x)"
    using hand_off.hyps(2) hand_off.prems
    by (auto simp: handoff_turn_def try_all_ok host_inv_def statics_def split: sum.splits if_splits)
  have st: "st i = (if i \<in> set ids then external_begin (sy_store x i) else sy_store x i)" for i
    unfolding turn(3) using fold_update_store [OF ids(1)] ids(2) by simp
  have "held_ok (st_host (st i)) (hold ids External (sy_held x) i)" for i
    using hand_off.prems turn(1) held_ok_external [of "st_host (sy_store x i)" "sy_held x i"]
    by (auto simp: st hold_def external_begin_def host_inv_def)
  moreover have "exclusion (sy_exec x) (hold ids External (sy_held x))"
    using hand_off.prems turn(2) by (intro exclusion_hold [where acc = ReadWrite]) (auto simp: host_inv_def)
  ultimately show ?case
    using statics_step [OF sys_step.hand_off [OF hand_off.hyps]] hand_off.prems by (simp add: host_inv_def)
next
  case (hand_visible cc x ids st r)
  have "st_host (st i) = st_host (sy_store x i)" for i
    using handoff_visible_host [of cc "map (sy_buffer x) ids" "sy_store x" i] hand_visible.hyps by simp
  with hand_visible.prems statics_step [OF sys_step.hand_visible [OF hand_visible.hyps]] show ?case
    by (intro host_inv_exec [OF hand_visible.prems]) (auto simp: host_inv_def)
next
  case (hand_wrote x us)
  with statics_step [OF sys_step.hand_wrote] show ?case
    by (intro host_inv_exec [OF hand_wrote.prems]) (auto simp: host_inv_def mark_written_host)
next
  case (hand_back ids x uncertain)
  have ids: "distinct (map b_id (map (sy_buffer x) ids))" "b_id ` sy_buffer x ` set ids = set ids"
    using hand_back.hyps(1) hand_back.prems by (auto simp: host_inv_def statics_def image_image comp_def)
  have "held_ok (st_host (drop_leases uncertain (map (sy_buffer x) ids) (sy_store x) i)) (unhold ids External (sy_held x) i)" for i
    using hand_back.hyps(2) hand_back.prems ids(2) held_ok_back [of "sy_held x i" "sy_store x i"]
    by (auto simp: drop_leases_at [OF ids(1)] unhold_def host_inv_def)
  with hand_back.prems show ?case
    using statics_step [OF sys_step.hand_back [OF hand_back.hyps]]
    by (intro host_inv_release [OF hand_back.prems]) (auto simp: host_inv_def)
qed

lemma host_inv_start: "sys_start x \<Longrightarrow> host_inv x"
proof -
  assume s: "sys_start x"
  then obtain capacity where sched: "ex_sched (sy_exec x) = scheduler_new capacity"
      and static: "\<And>g. graph_static (ex_graph (sy_exec x) g)"
    by (auto simp: sys_start_def exec_start_def)
  have "reg_start u < reg_end u" if "u \<in> set (graph_uses (sy_exec x) g)" for g u
    using static [of g] that by (simp add: graph_static_def prepared_ok_def canonical_def graph_uses_def)
  with s have "statics x" by (auto simp: statics_def sys_start_def)
  moreover have "exclusion (sy_exec x) (sy_held x)" by (simp add: exclusion_def sched scheduler_new_def)
  moreover have "held_ok (st_host (sy_store x i)) (sy_held x i)" for i
  proof -
    have "held_ok (st_host storage_new) []"
      by (simp add: held_ok_def leases_ok_simps storage_new_def host_default_def visibility_new_def visible_def)
    then show ?thesis using s by (simp add: sys_start_def)
  qed
  ultimately show ?thesis by (simp add: host_inv_def)
qed

lemma sys_reach_inv: "sys_reach x \<Longrightarrow> exec_inv (sy_exec x) \<and> host_inv x"
proof -
  assume "sys_reach x"
  then obtain x0 where x0: "sys_start x0" "sys_step\<^sup>*\<^sup>* x0 x" by (auto simp: sys_reach_def)
  from x0(2) show ?thesis
  proof (induction rule: rtranclp_induct)
    case base
    from x0(1) show ?case by (simp add: host_inv_start sys_start_def exec_inv_start_state)
  next
    case (step y z)
    then show ?case using sys_step_exec [OF step.hyps(2)] by (metis exec_inv_step host_inv_step)
  qed
qed

lemma reads_or_writes: "reads a \<or> writes a"
  by (cases a) (simp_all add: reads_def writes_def)

text \<open>
  C27: host mappings and device work exclude each other. In every reachable state of a runtime,
  with any interleaving of submissions, workers, mapping threads and external hand-offs: while a region is in
  flight, no allocation it touches has a live write guard or external hand-off, and
  none that it writes has a live read guard.
\<close>

theorem host_device_exclusion:
  assumes "sys_reach x" and "Run g i n \<in> set (ex_inflight (sy_exec x))"
    and "u \<in> set (o_uses (graph_operations (sy_exec x) g ! n))" and "reg_start u < reg_end u"
  shows "Writer \<notin> set (sy_held x (use_id u)) \<and> External \<notin> set (sy_held x (use_id u))
    \<and> (writes (g_access u) \<longrightarrow> Reader \<notin> set (sy_held x (use_id u)))"
proof -
  let ?w = "sy_exec x"
  have inv: "exec_inv ?w" "host_inv x" using sys_reach_inv [OF assms(1)] by auto
  from run_job [OF inv(1) assms(2)] obtain job where job: "job \<in> set (sc_pending (ex_sched ?w))" "pj_graph job = g"
      "n < length (graph_operations ?w g)" by metis
  then have g: "g \<in> pend_graphs ?w" by blast
  have same: "same_bytes (graph_uses ?w g) (concat (map o_uses (graph_operations ?w g)))"
    using inv(1) by (simp add: exec_inv_def static_ok_def graph_static_def prepared_ok_def graph_uses_def graph_operations_def)
  have all: "u \<in> set (concat (map o_uses (graph_operations ?w g)))" using assms(3) job(3) by (auto intro: nth_mem)
  have find: "\<exists>v\<in>set (graph_uses ?w g). use_id v = use_id u \<and> q (g_access v)" if "q (g_access u)" "q = reads \<or> q = writes" for q
  proof -
    have "open_at q (use_id u) (reg_start u) u" using that(1) assms(4) by (simp add: open_at_def)
    with all that(2) same have "\<exists>v\<in>set (graph_uses ?w g). open_at q (use_id u) (reg_start u) v"
      unfolding same_bytes_def by blast
    then show ?thesis by (auto simp: open_at_def)
  qed
  have ok: "compatible (sy_held x (use_id v)) (g_access v)" if "v \<in> set (graph_uses ?w g)" for v
    using inv(2) g that by (auto simp: host_inv_def exclusion_def)
  from find [of reads] find [of writes] reads_or_writes [of "g_access u"] obtain v where
      "v \<in> set (graph_uses ?w g)" "use_id v = use_id u" by blast
  with ok [of v] have "Writer \<notin> set (sy_held x (use_id u))" "External \<notin> set (sy_held x (use_id u))"
    by (auto simp: compatible_def)
  moreover have "Reader \<notin> set (sy_held x (use_id u))" if w: "writes (g_access u)"
  proof -
    obtain v where "v \<in> set (graph_uses ?w g)" "use_id v = use_id u" "writes (g_access v)" using find [of writes] w by blast
    with ok [of v] show ?thesis by (simp add: compatible_def)
  qed
  ultimately show ?thesis by blast
qed

definition demo_sys :: "(nat, nat) exec \<Rightarrow> (nat, nat) sys" where
  "demo_sys w = \<lparr>sy_exec = w, sy_buffer = (\<lambda>i. demo_buffer i False), sy_store = (\<lambda>_. storage_new), sy_held = (\<lambda>_. [])\<rparr>"

lemma demo_sys_start: "sys_start (demo_sys demo_exec0)"
  using demo_start
  by (auto simp: sys_start_def demo_sys_def demo_buffer_def graph_uses_def demo_exec0_def demo_xgraph_def demo_write_def
      use_ok_def region_defs whole_view_def view_ok_def buffer_len_def)

lemma demo_sys_submit:
  "submit_after 7 (\<lambda>_. None) 0 [] (demo_sys demo_exec0)
     = Some (Inr (demo_sys (demo_exec [Pending, Pending] (replicate 5 False) (replicate 5 None) 0 []), Run_of 0 0))"
proof -
  have "usable 0 (demo_sys demo_exec0) = Inr ()"
    by (simp add: usable_def demo_sys_def demo_exec0_def demo_xgraph_def try_all_ok storage_new_def host_default_def)
  moreover have "host_conflict acc (st_host storage_new) = Inr ()" for acc
    by (simp add: host_conflict_def storage_new_def host_default_def)
  ultimately show ?thesis by (simp add: submit_after_def demo_submit) (simp add: demo_sys_def demo_submit)
qed

lemma demo_sys_both: "sys_reach (demo_sys demo_both)"
proof -
  let ?w1 = "demo_exec [Pending, Pending] (replicate 5 False) (replicate 5 None) 0 []"
  let ?w2 = "demo_exec [Running, Pending] [True, False, False, False, False] [Some 0, None, None, None, None] 1 [Run 0 0 0]"
  have "sys_step (demo_sys demo_exec0) (demo_sys ?w1)" by (rule sys_step.submit [OF demo_sys_submit])
  moreover have "sys_step (demo_sys ?w1) (demo_sys ?w2)"
    using sys_step.take_action [of None "demo_sys ?w1"] demo_take1 by (fastforce simp: demo_sys_def demo_exec_def)
  moreover have "sys_step (demo_sys ?w2) (demo_sys demo_both)"
    using sys_step.take_action [of None "demo_sys ?w2"] demo_take2 by (fastforce simp: demo_sys_def demo_exec_def demo_both_def)
  ultimately have "sys_step\<^sup>*\<^sup>* (demo_sys demo_exec0) (demo_sys demo_both)"
    by (meson converse_rtranclp_into_rtranclp rtranclp.rtrancl_refl)
  with demo_sys_start show ?thesis by (auto simp: sys_reach_def)
qed

theorem host_device_exclusion_witness:
  "sys_reach (demo_sys demo_both) \<and> Reader \<notin> set (sy_held (demo_sys demo_both) 2)"
proof
  show "sys_reach (demo_sys demo_both)" by (rule demo_sys_both)
  from host_device_exclusion [OF demo_sys_both, of 0 0 1 "demo_write 2"]
  show "Reader \<notin> set (sy_held (demo_sys demo_both) 2)"
    by (simp add: demo_both_def demo_exec_def graph_operations_def demo_xgraph_def demo_op_def demo_write_def
        region_defs demo_buffer_def whole_view_def buffer_len_def writes_def) (simp add: demo_sys_def)
qed


section \<open>Failures are contained\<close>

lemma poison_uses_set: "u \<in> set us \<Longrightarrow> h_poison (st_host (poison_uses m us st (use_id u))) = Some m"
proof -
  let ?f = "\<lambda>u. update_store (use_id u) (poison m)"
  have keep: "h_poison (st_host (st i)) = Some m \<Longrightarrow> h_poison (st_host (fold ?f vs st i)) = Some m" for vs st i
    by (induction vs arbitrary: st) (auto simp: update_store_def poison_def)
  have "u \<in> set vs \<Longrightarrow> h_poison (st_host (fold ?f vs st (use_id u))) = Some m" for vs st
  proof (induction vs arbitrary: st)
    case (Cons v vs)
    have "h_poison (st_host (?f u st (use_id u))) = Some m" by (simp add: update_store_def poison_def)
    with keep [of "?f u st" "use_id u" vs] Cons show ?case by (cases "v = u") auto
  qed simp
  then show "u \<in> set us \<Longrightarrow> ?thesis" by (simp add: poison_uses_def)
qed

lemma poison_uses_stays:
  "h_poison (st_host (st i)) \<noteq> None \<Longrightarrow> h_poison (st_host (poison_uses m us st i)) \<noteq> None"
proof -
  have "h_poison (st_host (st i)) \<noteq> None \<Longrightarrow> h_poison (st_host (fold (\<lambda>u. update_store (use_id u) (poison m)) us st i)) \<noteq> None"
    by (induction us arbitrary: st) (auto simp: update_store_def poison_def)
  then show "h_poison (st_host (st i)) \<noteq> None \<Longrightarrow> ?thesis" by (simp add: poison_uses_def)
qed

lemma poison_stays:
  "sys_step x y \<Longrightarrow> h_poison (st_host (sy_store x k)) \<noteq> None \<Longrightarrow> h_poison (st_host (sy_store y k)) \<noteq> None"
proof (induction rule: sys_step.induct)
  case (submit now owner g deps x x' c)
  then show ?case by (auto elim: submit_after_Inr)
next
  case (region_run g i n x cc native st copied r)
  then show ?case by (simp add: operation_run_host)
next
  case (end_run g i n x r x')
  from poison_uses_stays [where st = "sy_store x" and i = k, OF end_run.prems] end_run.prems show ?case
    by (cases "run_failure n r") (simp_all flip: end_run.hyps(2) add: run_complete_def)
next
  case (map_acquire x i wr wait h)
  then show ?case by (auto simp: acquire_turn_Go update_store_def reserve_def)
next
  case (map_rollback wr x i e h r)
  then show ?case by (auto simp: acquire_finish_def update_store_def release_def)
next
  case (hand_off ids x st)
  have "h_poison (st_host (fold (\<lambda>b. update_store (b_id b) external_begin) bs s k)) = h_poison (st_host (s k))" for bs :: "buffer list" and s
    by (induction bs arbitrary: s) (simp_all add: update_store_def external_begin_def)
  with hand_off show ?case by (auto simp: handoff_turn_def split: sum.splits if_splits)
next
  case (hand_visible cc x ids st r)
  with handoff_visible_host [of cc "map (sy_buffer x) ids" "sy_store x" k] show ?case by simp
next
  case (hand_back ids x uncertain)
  have "h_poison (st_host (s k)) \<noteq> None \<Longrightarrow>
      h_poison (st_host (fold (\<lambda>b. update_store (b_id b) (lease_drop uncertain)) bs s k)) \<noteq> None" for bs :: "buffer list" and s
  proof (induction bs arbitrary: s)
    case (Cons b bs)
    have "h_poison (st_host (update_store (b_id b) (lease_drop uncertain) s k)) \<noteq> None"
      using Cons.prems by (auto simp: update_store_def)
    from Cons.IH [where s = "update_store (b_id b) (lease_drop uncertain) s", OF this] show ?case by simp
  qed simp
  with hand_back show ?case by (simp add: drop_leases_def)
qed (auto simp: update_store_def read_guard_drop_def write_guard_drop_def release_def mark_written_host dest!: make_visible_keeps)

lemma visible_uses_poisoned:
  "v \<in> set us \<Longrightarrow> h_poison (st_host (st (use_id v))) \<noteq> None \<Longrightarrow> \<not> is_ok (snd (visible_uses cc e us st))"
proof (induction us arbitrary: st)
  case (Cons u us)
  show ?case
  proof (cases "h_poison (st_host (st (use_id u)))")
    case None
    with Cons.prems have v: "v \<in> set us" by auto
    obtain s n r where mv: "make_visible cc (v_buffer (g_view u)) e (st (use_id u)) = (s, n, r)" by (metis prod_cases3)
    let ?st = "update_store (use_id u) (\<lambda>_. s) st"
    have "h_poison (st_host (?st (use_id v))) \<noteq> None"
      using Cons.prems(2) make_visible_keeps [OF mv] by (auto simp: update_store_def)
    from Cons.IH [where st = ?st, OF v this] None mv show ?thesis by (cases r) simp_all
  qed simp
qed simp

text \<open>
  C28: a failed region takes its allocations out of use for good. After the locked end of a failed region, and
  after any further steps of the system: every allocation the failed graph uses refuses device
  bindings, host mappings and regions that still run, and every graph that uses one of
  them refuses submission, each as a lost device.
\<close>

theorem failure_contained:
  assumes "run_complete g i n (Some e) x = x1" and "sys_step\<^sup>*\<^sup>* (x1\<lparr>sy_exec := (sy_exec x1)\<lparr>ex_inflight := acts\<rparr>\<rparr>) y"
    and "u \<in> set (graph_uses (sy_exec x) g)"
  shows "(\<exists>m. host_conflict acc (st_host (sy_store y (use_id u))) = Inl (DeviceLost m))
    \<and> (b_mapped b \<longrightarrow> (\<exists>m. acquire_turn b busy wr wait (st_host (sy_store y (use_id u))) = Fail (DeviceLost m)))
    \<and> (\<forall>v\<in>set (o_uses op). use_id v = use_id u \<longrightarrow> \<not> is_ok (snd (snd (operation_run cc native op (sy_store y)))))
    \<and> (\<forall>v\<in>set (graph_uses (sy_exec y) h). use_id v = use_id u \<longrightarrow> (\<exists>m. submit_after now owner h deps y = Some (Inl (DeviceLost m))))"
proof -
  have "h_poison (st_host (sy_store x1 (use_id u))) \<noteq> None"
    using poison_uses_set [OF assms(3)] by (simp flip: assms(1) add: run_complete_def)
  from assms(2) this obtain m where m: "h_poison (st_host (sy_store y (use_id u))) = Some m"
    by (induction rule: rtranclp_induct) (auto dest: poison_stays)
  show ?thesis
  proof (intro conjI ballI impI)
    fix v assume v: "v \<in> set (o_uses op)" "use_id v = use_id u"
    have "\<not> is_ok (snd (visible_uses cc (op_engine op) (o_uses op) (sy_store y)))"
      using v m by (intro visible_uses_poisoned [of v]) simp_all
    then obtain st err where "visible_uses cc (op_engine op) (o_uses op) (sy_store y) = (st, Inl err)"
      by (metis is_ok.elims(3) prod.collapse)
    then show "\<not> is_ok (snd (snd (operation_run cc native op (sy_store y))))" by (simp add: operation_run_def)
  next
    fix v assume v: "v \<in> set (graph_uses (sy_exec y) h)" "use_id v = use_id u"
    have "usable h y \<noteq> Inr ()" using v m by (auto simp: usable_def try_all_ok intro!: bexI [of _ v])
    moreover have "\<exists>m. e = DeviceLost m" if "usable h y = Inl e" for e
      using that by (auto simp: usable_def dest!: try_all_error split: if_splits option.splits)
    ultimately show "\<exists>m. submit_after now owner h deps y = Some (Inl (DeviceLost m))"
      by (cases "usable h y") (fastforce simp: submit_after_def)+
  qed (simp_all add: host_conflict_def acquire_turn_def m)
qed

theorem failure_contained_witness:
  "\<exists>m. host_conflict Read (st_host (sy_store (run_complete 0 0 1 (Some Cancelled) (demo_sys demo_both)) 2)) = Inl (DeviceLost m)"
proof -
  let ?x = "run_complete 0 0 1 (Some Cancelled) (demo_sys demo_both)"
  have "demo_write 2 \<in> set (graph_uses (sy_exec (demo_sys demo_both)) 0)" "use_id (demo_write 2) = 2"
    by (simp_all add: demo_sys_def demo_both_def demo_exec_def graph_uses_def demo_xgraph_def demo_write_def region_defs
        whole_view_def demo_buffer_def)
  moreover have "u \<in> set (graph_uses (sy_exec (demo_sys demo_both)) 0) \<Longrightarrow>
      \<exists>m. host_conflict Read (st_host (sy_store ?x (use_id u))) = Inl (DeviceLost m)" for u
    using failure_contained [where x = "demo_sys demo_both" and y = "?x\<lparr>sy_exec := (sy_exec ?x)\<lparr>ex_inflight := []\<rparr>\<rparr>",
        OF refl rtranclp.rtrancl_refl, THEN conjunct1, of u Read] by simp
  ultimately show ?thesis by metis
qed

end
