(* ===== verification/Flight_Cache.thy ===== *)
theory Flight_Cache
  imports HRX_Prelude "HOL-Library.AList" "HOL-Library.Multiset"
begin

text \<open>
  What the two caches of the crate share, \<^verbatim>\<open>src/src/plan_cache.rs\<close> and
  \<^verbatim>\<open>src/src/residency.rs\<close>: entries that are loading under a flight or ready with the time of
  their last use, the choice of the least recently used idle entry, and the flights that
  concurrent requests for one key share. A hash map is an association list with distinct keys;
  its order stands for the unspecified iteration order. A counted reference (\<open>Arc\<close>) is an
  identity; the number of strong references to it is the number of places that hold it.
\<close>


section \<open>Entries and flights\<close>

type_synonym flight_id = nat
type_synonym owner_id = nat

datatype centry = ELoading flight_id | EReady owner_id nat

type_synonym 'k entries = "('k \<times> centry) list"

record flight =
  fl_result :: "owner_id result option"
  fl_refs :: nat

type_synonym flights = "(flight_id \<times> flight) list"

text \<open>A fresh address, different from all those in use.\<close>

definition fresh_id :: "nat list \<Rightarrow> nat" where
  "fresh_id used = Suc (fold max used 0)"

text \<open>The least recently used ready entry that may go, first in iteration order among equals.\<close>

fun stamped :: "(owner_id \<Rightarrow> bool) \<Rightarrow> 'k \<times> centry \<Rightarrow> ('k \<times> nat) list" where
  "stamped ok (k, EReady v used) = (if ok v then [(k, used)] else [])"
| "stamped ok (k, ELoading f) = []"

definition lru_victim :: "(owner_id \<Rightarrow> bool) \<Rightarrow> 'k entries \<Rightarrow> 'k option" where
  "lru_victim ok es = map_option fst (min_by_key snd (concat (map (stamped ok) es)))"

text \<open>Strong references held by the entries and by the published results of flights.\<close>

fun entry_refs :: "'k \<times> centry \<Rightarrow> owner_id list" where
  "entry_refs (k, EReady v used) = [v]"
| "entry_refs (k, ELoading f) = []"

fun flight_refs :: "flight_id \<times> flight \<Rightarrow> owner_id list" where
  "flight_refs (f, fl) = (case fl_result fl of Some (Inr v) \<Rightarrow> [v] | _ \<Rightarrow> [])"

definition ready_refs :: "'k entries \<Rightarrow> owner_id list" where
  "ready_refs es = concat (map entry_refs es)"

definition result_refs :: "flights \<Rightarrow> owner_id list" where
  "result_refs fs = concat (map flight_refs fs)"

text \<open>Publishing a flight's result, joining a flight, and leaving it; the last one out drops it.\<close>

definition flight_publish :: "flight_id \<Rightarrow> owner_id result \<Rightarrow> flights \<Rightarrow> flights" where
  "flight_publish f r fs =
     (case map_of fs f of None \<Rightarrow> fs | Some fl \<Rightarrow> AList.update f (fl\<lparr>fl_result := Some r\<rparr>) fs)"

definition flight_join :: "flight_id \<Rightarrow> flights \<Rightarrow> flights" where
  "flight_join f fs =
     (case map_of fs f of None \<Rightarrow> fs | Some fl \<Rightarrow> AList.update f (fl\<lparr>fl_refs := fl_refs fl + 1\<rparr>) fs)"

definition flight_leave :: "flight_id \<Rightarrow> flights \<Rightarrow> flights" where
  "flight_leave f fs =
     (case map_of fs f of None \<Rightarrow> fs
      | Some fl \<Rightarrow> if fl_refs fl \<le> 1 then AList.delete f fs else AList.update f (fl\<lparr>fl_refs := fl_refs fl - 1\<rparr>) fs)"


section \<open>Facts\<close>

lemma fold_max_bound: "x \<in> set xs \<or> x = n \<Longrightarrow> x \<le> fold max xs (n :: nat)"
proof (induction xs arbitrary: x n)
  case (Cons y xs)
  have "max y n \<le> fold max xs (max y n)" using Cons.IH [of "max y n" "max y n"] by simp
  with Cons.IH [of x "max y n"] Cons.prems show ?case by (auto intro: order_trans)
qed simp

lemma fresh_id [simp]: "fresh_id xs \<notin> set xs"
  using fold_max_bound [of "fresh_id xs" xs 0] by (auto simp: fresh_id_def)

lemma mset_delete:
  assumes "distinct (map fst al)" "map_of al k = Some v"
  shows "mset al = add_mset (k, v) (mset (AList.delete k al))"
  using assms
proof (induction al)
  case (Cons p al)
  obtain k' v' where p: "p = (k', v')" by force
  show ?case
  proof (cases "k' = k")
    case True
    with Cons.prems p have "k \<notin> fst ` set al" by auto
    then have "AList.delete k al = al" by (induction al) auto
    with True Cons.prems p show ?thesis by simp
  next
    case False
    with Cons p show ?thesis by simp
  qed
qed simp

lemma delete_absent: "map_of al k = None \<Longrightarrow> AList.delete k al = al"
  by (induction al) (auto split: if_splits)

lemma mset_update:
  assumes "distinct (map fst al)"
  shows "mset (AList.update k v al) = add_mset (k, v) (mset (AList.delete k al))"
  using assms
proof (induction al)
  case (Cons p al)
  obtain k' v' where p: "p = (k', v')" by force
  show ?case
  proof (cases "k' = k")
    case True
    with Cons.prems p have "map_of al k = None" by (auto simp: map_of_eq_None_iff)
    with True p show ?thesis by (simp add: delete_absent)
  next
    case False
    with Cons p show ?thesis by simp
  qed
qed simp

lemma mset_concat_map: "mset (concat (map f xs)) = (\<Sum>x\<in>#mset xs. mset (f x))"
  by (induction xs) simp_all

lemma mset_ready_refs: "mset (ready_refs es) = (\<Sum>x\<in>#mset es. mset (entry_refs x))"
  by (simp add: ready_refs_def mset_concat_map)

lemma mset_result_refs: "mset (result_refs fs) = (\<Sum>x\<in>#mset fs. mset (flight_refs x))"
  by (simp add: result_refs_def mset_concat_map)

lemma alist_keys [simp]:
  "distinct (map fst al) \<Longrightarrow> distinct (map fst (AList.update k v al))"
  "distinct (map fst al) \<Longrightarrow> distinct (map fst (AList.delete k al))"
  "fst ` set (AList.update k v al) = insert k (fst ` set al)"
  "fst ` set (AList.delete k al) = fst ` set al - {k}"
proof -
  show "fst ` set (AList.delete k al) = fst ` set al - {k}"
    using arg_cong [OF AList.delete_keys [of k al], of set] by simp
qed (simp_all add: AList.distinct_update AList.distinct_delete AList.dom_update)

lemmas alist_map_of [simp] = AList.update_conv' AList.delete_conv'

text \<open>How references move when an entry is replaced or removed.\<close>

lemma ready_refs_update:
  "distinct (map fst es) \<Longrightarrow>
     mset (ready_refs (AList.update k e es)) = mset (entry_refs (k, e)) + mset (ready_refs (AList.delete k es))"
  by (simp add: mset_ready_refs mset_update)

lemma ready_refs_delete:
  "distinct (map fst es) \<Longrightarrow> map_of es k = Some e \<Longrightarrow>
     mset (ready_refs es) = mset (entry_refs (k, e)) + mset (ready_refs (AList.delete k es))"
  by (simp add: mset_ready_refs mset_delete)

lemma result_refs_update:
  "distinct (map fst fs) \<Longrightarrow>
     mset (result_refs (AList.update f fl fs)) = mset (flight_refs (f, fl)) + mset (result_refs (AList.delete f fs))"
  by (simp add: mset_result_refs mset_update)

lemma result_refs_delete:
  "distinct (map fst fs) \<Longrightarrow> map_of fs f = Some fl \<Longrightarrow>
     mset (result_refs fs) = mset (flight_refs (f, fl)) + mset (result_refs (AList.delete f fs))"
  by (simp add: mset_result_refs mset_delete)

lemma lru_victim_Some:
  assumes "lru_victim ok es = Some k" "distinct (map fst es)"
  obtains v used where "map_of es k = Some (EReady v used)" "ok v"
    "\<And>k' v' used'. map_of es k' = Some (EReady v' used') \<Longrightarrow> ok v' \<Longrightarrow> used \<le> used'"
proof -
  obtain used where m: "min_by_key snd (concat (map (stamped ok) es)) = Some (k, used)"
    using assms(1) by (auto simp: lru_victim_def)
  have mem: "(k', u) \<in> set (concat (map (stamped ok) es)) \<longleftrightarrow> (\<exists>v. (k', EReady v u) \<in> set es \<and> ok v)" for k' u
  proof (induction es)
    case (Cons p es)
    then show ?case by (cases "(ok, p)" rule: stamped.cases) auto
  qed simp
  from min_by_key_Some [OF m] obtain v where v: "(k, EReady v used) \<in> set es" "ok v"
      and least: "\<And>k' u. (k', u) \<in> set (concat (map (stamped ok) es)) \<Longrightarrow> used \<le> u"
    by (metis mem snd_conv)
  have "used \<le> used'" if "map_of es k' = Some (EReady v' used')" "ok v'" for k' v' used'
    using least mem that by (metis map_of_SomeD)
  with v assms(2) that show thesis by (metis map_of_eq_Some_iff)
qed

lemma lru_victim_entry:
  assumes "lru_victim ok es = Some k" "distinct (map fst es)"
  shows "\<exists>v used. map_of es k = Some (EReady v used) \<and> ok v"
  by (rule lru_victim_Some [OF assms]) blast

lemma lru_victim_None: "lru_victim ok es = None \<Longrightarrow> (k, EReady v used) \<in> set es \<Longrightarrow> \<not> ok v"
proof
  assume "lru_victim ok es = None" "(k, EReady v used) \<in> set es" "ok v"
  moreover from this(2,3) have "(k, used) \<in> set (concat (map (stamped ok) es))" by (force intro: bexI [of _ "(k, EReady v used)"])
  ultimately show False by (auto simp: lru_victim_def min_by_key_None)
qed

text \<open>Flights: what joining, publishing and leaving do to results and references.\<close>

lemma flight_join_spec:
  assumes "distinct (map fst fs)" "map_of fs f = Some fl"
  shows "map_of (flight_join f fs) = (map_of fs)(f \<mapsto> fl\<lparr>fl_refs := fl_refs fl + 1\<rparr>)"
    "distinct (map fst (flight_join f fs))" "fst ` set (flight_join f fs) = fst ` set fs"
    "mset (result_refs (flight_join f fs)) = mset (result_refs fs)"
proof -
  have f: "f \<in> fst ` set fs" using map_of_SomeD [OF assms(2)] by force
  show "fst ` set (flight_join f fs) = fst ` set fs" using f by (simp add: flight_join_def assms(2) insert_absorb)
  show "mset (result_refs (flight_join f fs)) = mset (result_refs fs)"
    using result_refs_delete [OF assms] by (simp add: flight_join_def assms result_refs_update)
qed (use assms in \<open>simp_all add: flight_join_def\<close>)

lemma flight_publish_spec:
  assumes "distinct (map fst fs)" "map_of fs f = Some fl" "fl_result fl = None"
  shows "map_of (flight_publish f r fs) = (map_of fs)(f \<mapsto> fl\<lparr>fl_result := Some r\<rparr>)"
    "distinct (map fst (flight_publish f r fs))" "fst ` set (flight_publish f r fs) = fst ` set fs"
    "mset (result_refs (flight_publish f r fs)) = (case r of Inr v \<Rightarrow> {#v#} | Inl _ \<Rightarrow> {#}) + mset (result_refs fs)"
proof -
  have f: "f \<in> fst ` set fs" using map_of_SomeD [OF assms(2)] by force
  show "fst ` set (flight_publish f r fs) = fst ` set fs" using f by (simp add: flight_publish_def assms(2) insert_absorb)
  show "mset (result_refs (flight_publish f r fs)) = (case r of Inr v \<Rightarrow> {#v#} | Inl _ \<Rightarrow> {#}) + mset (result_refs fs)"
    using result_refs_delete [OF assms(1,2)] assms by (simp add: flight_publish_def result_refs_update split: sum.splits)
qed (use assms in \<open>simp_all add: flight_publish_def\<close>)

lemma flight_leave_last:
  assumes "distinct (map fst fs)" "map_of fs f = Some fl" "fl_refs fl \<le> 1"
  shows "map_of (flight_leave f fs) = (map_of fs)(f := None)" "distinct (map fst (flight_leave f fs))"
    "fst ` set (flight_leave f fs) = fst ` set fs - {f}"
    "mset (result_refs fs) = mset (flight_refs (f, fl)) + mset (result_refs (flight_leave f fs))"
  using assms result_refs_delete [OF assms(1,2)] by (simp_all add: flight_leave_def)

lemma flight_leave_more:
  assumes "distinct (map fst fs)" "map_of fs f = Some fl" "\<not> fl_refs fl \<le> 1"
  shows "map_of (flight_leave f fs) = (map_of fs)(f \<mapsto> fl\<lparr>fl_refs := fl_refs fl - 1\<rparr>)" "distinct (map fst (flight_leave f fs))"
    "fst ` set (flight_leave f fs) = fst ` set fs"
    "mset (result_refs (flight_leave f fs)) = mset (result_refs fs)"
proof -
  have f: "f \<in> fst ` set fs" using map_of_SomeD [OF assms(2)] by force
  show "fst ` set (flight_leave f fs) = fst ` set fs" using f assms by (simp add: flight_leave_def insert_absorb)
  show "mset (result_refs (flight_leave f fs)) = mset (result_refs fs)"
    using result_refs_delete [OF assms(1,2)] assms by (simp add: flight_leave_def result_refs_update)
qed (use assms in \<open>simp_all add: flight_leave_def\<close>)


section \<open>Well-formed flights\<close>

text \<open>
  How the parts of a cache fit together, whatever it keeps: \<open>el\<close> are the requests elected for a
  key that have not published, \<open>ws\<close> the requests waiting on a flight and \<open>ls\<close> the elected ones that
  have published and not left. A loading entry belongs to exactly one elected request, a
  flight lives as long as someone refers to it, and it has a result exactly when its elected request
  has published.
\<close>

definition flights_wf :: "'k entries \<Rightarrow> flights \<Rightarrow> (flight_id \<times> 'k) list \<Rightarrow> flight_id list \<Rightarrow> flight_id list \<Rightarrow> bool" where
  "flights_wf es fs el ws ls \<longleftrightarrow> distinct (map fst el) \<and> set ls \<inter> fst ` set el = {}
     \<and> (\<forall>f key. (f, key) \<in> set el \<longleftrightarrow> map_of es key = Some (ELoading f))
     \<and> (\<forall>f. f \<in> fst ` set fs \<longleftrightarrow> f \<in> fst ` set el \<union> set ws \<union> set ls)
     \<and> (\<forall>f fl. map_of fs f = Some fl \<longrightarrow>
          (fl_result fl = None \<longleftrightarrow> f \<in> fst ` set el)
          \<and> fl_refs fl = count_list ws f + count_list ls f + (if f \<in> fst ` set el then 1 else 0))"

lemma flights_wfD:
  assumes "flights_wf es fs el ws ls"
  shows "distinct (map fst el)"
    "(f, key) \<in> set el \<longleftrightarrow> map_of es key = Some (ELoading f)"
    "f \<in> fst ` set fs \<longleftrightarrow> f \<in> fst ` set el \<union> set ws \<union> set ls"
    "map_of fs f = Some fl \<Longrightarrow> fl_result fl = None \<longleftrightarrow> f \<in> fst ` set el"
    "map_of fs f = Some fl \<Longrightarrow> fl_refs fl = count_list ws f + count_list ls f + (if f \<in> fst ` set el then 1 else 0)"
    "set ls \<inter> fst ` set el = {}"
  using assms by (simp_all add: flights_wf_def)

lemma flights_wf_empty [simp]: "flights_wf [] [] [] [] []"
  by (simp add: flights_wf_def)

lemma flight_known: "f \<in> fst ` set fs \<Longrightarrow> \<exists>fl. map_of fs f = Some fl"
  by (metis map_of_eq_None_iff not_None_eq)

lemma wf_elected_flight:
  assumes "flights_wf es fs el ws ls" "(f, key) \<in> set el"
  obtains fl where "map_of fs f = Some fl" "fl_result fl = None"
proof -
  have f: "f \<in> fst ` set el" using assms(2) by force
  then have "f \<in> fst ` set fs" unfolding flights_wfD(3) [OF assms(1)] by (intro UnI1)
  from flight_known [OF this] obtain fl where fl: "map_of fs f = Some fl" ..
  show thesis using that [OF fl] flights_wfD(4) [OF assms(1) fl] f by simp
qed

lemma wf_party_flight:
  assumes "flights_wf es fs el ws ls" "f \<in> set ls \<or> f \<in> set ws"
  obtains fl where "map_of fs f = Some fl"
proof -
  have "f \<in> fst ` set fs" unfolding flights_wfD(3) [OF assms(1)] using assms(2) by blast
  from flight_known [OF this] that show thesis by blast
qed

text \<open>At most one request is elected for a key.\<close>

lemma wf_elected_keys:
  assumes "flights_wf es fs el ws ls"
  shows "distinct (map snd el)"
proof -
  have "inj_on snd (set el)"
  proof (rule inj_onI)
    fix x y assume xy: "x \<in> set el" "y \<in> set el" "snd x = snd y"
    obtain f k where x: "x = (f, k)" by (cases x)
    obtain g where y: "y = (g, k)" using xy(3) x by (cases y) simp
    show "x = y" using flights_wfD(2) [OF assms, of f k] flights_wfD(2) [OF assms, of g k] xy(1,2) unfolding x y by simp
  qed
  moreover have "distinct el" using flights_wfD(1) [OF assms] by (simp add: distinct_map)
  ultimately show ?thesis by (simp add: distinct_map)
qed

lemma wf_entries:
  assumes "flights_wf es fs el ws ls" "\<And>k f. map_of es' k = Some (ELoading f) \<longleftrightarrow> map_of es k = Some (ELoading f)"
  shows "flights_wf es' fs el ws ls"
  using assms by (simp add: flights_wf_def)

lemma wf_perm:
  assumes "flights_wf es fs el ws ls" "mset el' = mset el"
  shows "flights_wf es fs el' ws ls"
proof -
  have "set el' = set el" "distinct (map fst el') \<longleftrightarrow> distinct (map fst el)"
    using assms(2) by (metis set_mset_mset) (metis assms(2) mset_eq_imp_distinct_iff mset_map)
  with assms(1) show ?thesis by (simp add: flights_wf_def)
qed

lemma wf_join:
  assumes "flights_wf es fs el ws ls" "distinct (map fst fs)" "map_of es key = Some (ELoading f)"
  shows "flights_wf es (flight_join f fs) el (f # ws) ls" "distinct (map fst (flight_join f fs))"
    "mset (result_refs (flight_join f fs)) = mset (result_refs fs)"
proof -
  have el: "(f, key) \<in> set el" using flights_wfD(2) [OF assms(1)] assms(3) by simp
  then obtain fl where fl: "map_of fs f = Some fl" "fl_result fl = None" using wf_elected_flight [OF assms(1)] by blast
  note join = flight_join_spec [OF assms(2) fl(1)]
  have f: "f \<in> fst ` set el" using el by force
  show "flights_wf es (flight_join f fs) el (f # ws) ls"
    using assms(1) f fl flights_wfD(3,5) [OF assms(1)] unfolding flights_wf_def by (auto simp: join(1,3))
  show "distinct (map fst (flight_join f fs))" "mset (result_refs (flight_join f fs)) = mset (result_refs fs)"
    using join(2,4) by simp_all
qed

lemma wf_elect:
  assumes "flights_wf es fs el ws ls" "map_of es key = None" "f \<notin> fst ` set fs"
  shows "flights_wf (AList.update key (ELoading f) es) ((f, \<lparr>fl_result = None, fl_refs = 1\<rparr>) # fs) ((f, key) # el) ws ls"
    (is "flights_wf ?es ?fs ?el ws ls")
proof -
  note wf = flights_wfD [OF assms(1)]
  have new: "f \<notin> fst ` set el" "f \<notin> set ws" "f \<notin> set ls" using wf(3) [of f] assms(3) by auto
  have zero: "count_list ws f = 0" "count_list ls f = 0" using new by (simp_all add: count_list_0_iff)
  have "(h, k) \<in> set ?el \<longleftrightarrow> map_of ?es k = Some (ELoading h)" for h k using wf(2) [of h k] assms(2) by auto
  moreover have "h \<in> fst ` set ?fs \<longleftrightarrow> h \<in> fst ` set ?el \<union> set ws \<union> set ls" for h using wf(3) [of h] by auto
  moreover have "(fl_result fl = None \<longleftrightarrow> h \<in> fst ` set ?el)
      \<and> fl_refs fl = count_list ws h + count_list ls h + (if h \<in> fst ` set ?el then 1 else 0)"
    if "map_of ?fs h = Some fl" for h fl
    using that zero wf(4,5) [of h fl] by (cases "h = f") auto
  moreover have "distinct (map fst ?el)" using new(1) wf(1) by simp
  moreover have "set ls \<inter> fst ` set ?el = {}" using new(3) wf(6) by simp
  ultimately show ?thesis unfolding flights_wf_def by blast
qed

lemma wf_publish:
  assumes "flights_wf es fs el ws ls" "distinct (map fst fs)" "mset el = add_mset (f, key) (mset el')"
    and es': "\<And>k. k \<noteq> key \<Longrightarrow> map_of es' k = map_of es k" "\<And>h. map_of es' key \<noteq> Some (ELoading h)"
  shows "flights_wf es' (flight_publish f r fs) el' ws (f # ls)"
proof -
  note wf = flights_wfD [OF assms(1)]
  have el: "set el = insert (f, key) (set el')" using assms(3) by (metis set_mset_add_mset_insert set_mset_mset)
  have dist: "distinct (f # map fst el')"
    using wf(1) arg_cong [OF assms(3), of "image_mset fst"] mset_eq_imp_distinct_iff [of "map fst el" "f # map fst el'"] by simp
  then have nf: "f \<notin> fst ` set el'" "fst ` set el = insert f (fst ` set el')" using el by auto
  obtain fl where fl: "map_of fs f = Some fl" "fl_result fl = None" using wf_elected_flight [OF assms(1)] el by blast
  note pub = flight_publish_spec [OF assms(2) fl]
  have entry: "map_of es key = Some (ELoading f)" using wf(2) el by blast
  have "(h, k) \<in> set el' \<longleftrightarrow> map_of es' k = Some (ELoading h)" for h k
  proof (cases "k = key")
    case True
    have "(h, key) \<notin> set el'"
    proof
      assume a: "(h, key) \<in> set el'"
      then have "map_of es key = Some (ELoading h)" using el wf(2) [of h key] by blast
      with entry a nf(1) show False by force
    qed
    with True es'(2) show ?thesis by simp
  next
    case False
    with el wf(2) [of h k] es'(1) show ?thesis by simp
  qed
  moreover have "h \<in> fst ` set (flight_publish f r fs) \<longleftrightarrow> h \<in> fst ` set el' \<union> set ws \<union> set (f # ls)" for h
    using wf(3) [of h] nf(2) by (auto simp: pub(3))
  moreover have "(fl_result gl = None \<longleftrightarrow> h \<in> fst ` set el')
      \<and> fl_refs gl = count_list ws h + count_list (f # ls) h + (if h \<in> fst ` set el' then 1 else 0)"
    if "map_of (flight_publish f r fs) h = Some gl" for h gl
  proof (cases "h = f")
    case True
    then have "gl = fl\<lparr>fl_result := Some r\<rparr>" using that by (simp add: pub(1))
    with True nf wf(5) [OF fl(1)] show ?thesis by simp
  next
    case False
    then have "map_of fs h = Some gl" using that by (simp add: pub(1))
    with False nf wf(4,5) [OF this] show ?thesis by simp
  qed
  moreover have "set (f # ls) \<inter> fst ` set el' = {}" using nf wf(6) by auto
  ultimately show ?thesis using dist unfolding flights_wf_def by simp
qed

text \<open>Leaving a published flight.\<close>

lemma wf_leave:
  assumes "flights_wf es fs el ws ls" "distinct (map fst fs)" "map_of fs f = Some fl" "fl_result fl = Some r"
    and here: "count_list ws' f + count_list ls' f + 1 = count_list ws f + count_list ls f"
    and others: "\<And>h. h \<noteq> f \<Longrightarrow> count_list ws' h = count_list ws h \<and> count_list ls' h = count_list ls h"
  shows "flights_wf es (flight_leave f fs) el ws' ls'" "distinct (map fst (flight_leave f fs))"
    "set (result_refs fs) = set (flight_refs (f, fl)) \<union> set (result_refs (flight_leave f fs))"
proof -
  note wf = flights_wfD [OF assms(1)]
  have nf: "f \<notin> fst ` set el" using wf(4) [OF assms(3)] assms(4) by simp
  have refs_f: "fl_refs fl = count_list ws' f + count_list ls' f + 1" using wf(5) [OF assms(3)] nf here by simp
  have mem: "h \<in> set xs \<longleftrightarrow> count_list xs h \<noteq> 0" for h :: flight_id and xs by (simp add: count_list_0_iff)
  note lo = flight_leave_last [OF assms(2,3)] and lm = flight_leave_more [OF assms(2,3)]
  have fin: "f \<in> fst ` set fs" using map_of_SomeD [OF assms(3)] by force
  show "distinct (map fst (flight_leave f fs))" using lo(2) lm(2) by blast
  have other: "map_of (flight_leave f fs) h = map_of fs h" if "h \<noteq> f" for h
    using that lo(1) lm(1) by (cases "fl_refs fl \<le> 1") auto
  have known: "h \<in> fst ` set (flight_leave f fs) \<longleftrightarrow> (if h = f then fl_refs fl \<noteq> 1 else h \<in> fst ` set fs)" for h
    using fin refs_f lo(3) lm(3) by (cases "fl_refs fl \<le> 1") auto
  have own: "fl_refs fl \<noteq> 1 \<and> gl = fl\<lparr>fl_refs := fl_refs fl - 1\<rparr>" if "map_of (flight_leave f fs) f = Some gl" for gl
    using that refs_f lo(1) lm(1) by (cases "fl_refs fl \<le> 1") auto
  have "h \<in> fst ` set (flight_leave f fs) \<longleftrightarrow> h \<in> fst ` set el \<union> set ws' \<union> set ls'" for h
    using nf refs_f wf(3) [of h] others [of h] by (cases "h = f") (simp_all add: known mem)
  moreover have "(fl_result gl = None \<longleftrightarrow> h \<in> fst ` set el)
      \<and> fl_refs gl = count_list ws' h + count_list ls' h + (if h \<in> fst ` set el then 1 else 0)"
    if "map_of (flight_leave f fs) h = Some gl" for h gl
  proof (cases "h = f")
    case True
    then show ?thesis using own [of gl] that nf refs_f assms(4) by simp
  next
    case False
    then have "map_of fs h = Some gl" using that other by simp
    then show ?thesis using wf(4,5) [of h gl] others [OF False] by simp
  qed
  moreover have "set ls' \<inter> fst ` set el = {}"
  proof -
    have "set ls' \<subseteq> insert f (set ls)" using others by (metis insert_iff mem subsetI)
    with nf wf(6) show ?thesis by blast
  qed
  ultimately show "flights_wf es (flight_leave f fs) el ws' ls'" unfolding flights_wf_def using wf(1,2) by simp
  show "set (result_refs fs) = set (flight_refs (f, fl)) \<union> set (result_refs (flight_leave f fs))"
  proof (cases "fl_refs fl \<le> 1")
    case True
    then show ?thesis using arg_cong [OF lo(4) [OF True], of set_mset] by simp
  next
    case False
    have "set (flight_refs (f, fl)) \<subseteq> set (result_refs fs)"
      using map_of_SomeD [OF assms(3)] unfolding result_refs_def by force
    with arg_cong [OF lm(4) [OF False], of set_mset] show ?thesis by auto
  qed
qed

lemma count_remove1: "x \<in> set xs \<Longrightarrow> count_list (remove1 x xs) y + (if y = x then 1 else 0) = count_list xs y"
  by (induction xs) (auto simp: count_list_0_iff)

lemma count_leave:
  "x \<in> set xs \<Longrightarrow> n + count_list (remove1 x xs) x + 1 = n + count_list xs x"
  "x \<in> set xs \<Longrightarrow> count_list (remove1 x xs) x + n + 1 = count_list xs x + n"
  "y \<noteq> x \<Longrightarrow> count_list (remove1 x xs) y = count_list xs y"
proof -
  show "n + count_list (remove1 x xs) x + 1 = n + count_list xs x" "count_list (remove1 x xs) x + n + 1 = count_list xs x + n"
    if "x \<in> set xs" using count_remove1 [OF that, of x] by simp_all
  show "count_list (remove1 x xs) y = count_list xs y" if "y \<noteq> x" using that by (induction xs) auto
qed

end
