(* ===== verification/Bounded_Ledger.thy ===== *)
theory Bounded_Ledger
  imports HRX_Prelude
begin

text \<open>
  The interface of a counter with a ceiling that reservations are charged to and given back
  from. The crate has two providers: the byte usage of a residency manager
  (\<^verbatim>\<open>src/src/residency.rs\<close>) and the bytes a buffer pool retains (\<^verbatim>\<open>src/src/buffer_pool.rs\<close>). The law their
  clients need is proved once: whatever is taken and given back, in any order, the counter is the sum
  of the charges outstanding and never exceeds the ceiling.
\<close>

datatype ledger_event = Take nat | Give nat

locale bounded_ledger =
  fixes ceiling :: "'s \<Rightarrow> nat" and charged :: "'s \<Rightarrow> nat"
    and take_charge :: "nat \<Rightarrow> 's \<Rightarrow> 's option" and give_back :: "nat \<Rightarrow> 's \<Rightarrow> 's"
    and invar :: "'s \<Rightarrow> bool"
  assumes take_granted: "invar s \<Longrightarrow> take_charge n s = Some s' \<Longrightarrow>
      invar s' \<and> ceiling s' = ceiling s \<and> charged s' = charged s + n \<and> charged s' \<le> ceiling s'"
    and take_refused: "invar s \<Longrightarrow> take_charge n s = None \<Longrightarrow> ceiling s < charged s + n"
    and given_back: "invar s \<Longrightarrow> n \<le> charged s \<Longrightarrow>
      invar (give_back n s) \<and> ceiling (give_back n s) = ceiling s \<and> charged (give_back n s) = charged s - n"
begin

definition balanced :: "'s \<times> nat list \<Rightarrow> bool" where
  "balanced x \<longleftrightarrow> invar (fst x) \<and> charged (fst x) = sum_list (snd x) \<and> charged (fst x) \<le> ceiling (fst x)"

definition apply_event :: "ledger_event \<Rightarrow> 's \<times> nat list \<Rightarrow> 's \<times> nat list" where
  "apply_event e x =
     (case e of
        Take n \<Rightarrow> (case take_charge n (fst x) of None \<Rightarrow> x | Some s \<Rightarrow> (s, n # snd x))
      | Give n \<Rightarrow> if n \<in> set (snd x) then (give_back n (fst x), remove1 n (snd x)) else x)"

lemma sum_remove1: "n \<in> set ns \<Longrightarrow> sum_list ns = n + sum_list (remove1 n ns)" for n :: nat
  by (rule sum_list_map_remove1 [where f = "\<lambda>x. x", simplified])

lemma balanced_event: "balanced x \<Longrightarrow> balanced (apply_event e x) \<and> ceiling (fst (apply_event e x)) = ceiling (fst x)"
proof (cases e)
  case (Take n)
  assume "balanced x"
  with Take show ?thesis
    using take_granted [of "fst x" n] by (auto simp: balanced_def apply_event_def split: option.splits)
next
  case (Give n)
  assume b: "balanced x"
  then have "n \<le> charged (fst x)" if "n \<in> set (snd x)" using sum_remove1 [OF that] by (simp add: balanced_def)
  with Give b given_back [of "fst x" n] sum_remove1 [of n "snd x"] show ?thesis
    by (auto simp: balanced_def apply_event_def)
qed

lemma balanced_history:
  "balanced x \<Longrightarrow> balanced (fold apply_event es x) \<and> ceiling (fst (fold apply_event es x)) = ceiling (fst x)"
proof (induction es arbitrary: x)
  case (Cons e es)
  from balanced_event [OF Cons.prems, of e] Cons.IH [of "apply_event e x"] show ?case by simp
qed simp

end

end
