(* ===== verification/Residency.thy ===== *)
theory Residency
  imports Flight_Cache Bounded_Ledger
begin

text \<open>
  Byte-budgeted model residency, \<^verbatim>\<open>src/src/residency.rs\<close>. The state holds the shared byte
  usage, the registry behind its mutex, the resources that are alive, and who holds strong
  references to them: cache entries, published flights, leases (and the local variables of
  threads), pins. Dropping the last reference destroys the resource and only then gives its bytes
  back. Every critical section and every atomic operation is one function; a loader runs between two of
  them without any lock. Values and type identities are parameters, the idle
  predicate is an argument of every operation that consults it.
\<close>


section \<open>Usage and reservations\<close>

record usage =
  us_limit :: usize
  us_bytes :: usize

definition usage_reserve :: "usize \<Rightarrow> usage \<Rightarrow> usage option" where
  "usage_reserve bytes u =
     (case checked_add (us_bytes u) bytes of
        None \<Rightarrow> None
      | Some t \<Rightarrow> if t \<le> us_limit u then Some (u\<lparr>us_bytes := t\<rparr>) else None)"

text \<open>Dropping a reservation, and the part that \<open>shrink\<close> gives back.\<close>

definition usage_release :: "usize \<Rightarrow> usage \<Rightarrow> usage" where
  "usage_release bytes u = u\<lparr>us_bytes := us_bytes u - bytes\<rparr>"

definition reservation_shrink :: "usize \<Rightarrow> usize \<Rightarrow> usage \<Rightarrow> usage" where
  "reservation_shrink held bytes u = usage_release (held - bytes) u"

definition usage_ok :: "usage \<Rightarrow> bool" where
  "usage_ok u \<longleftrightarrow> us_limit u \<le> usize_MAX"

interpretation ug: bounded_ledger us_limit us_bytes usage_reserve usage_release usage_ok
  by unfold_locales (auto simp: usage_reserve_def usage_release_def usage_ok_def checked_add_def split: if_splits)


section \<open>State\<close>

record 'v resource =
  r_value :: 'v
  r_type :: nat
  r_bytes :: usize
  r_pins :: nat
  r_idle_since :: "nat option option"

record 'v registry =
  rg_usage :: usage
  rg_entries :: "string entries"
  rg_clock :: nat
  rg_evictions :: nat
  rg_timeout :: "nat option"
  rg_heap :: "(owner_id \<times> 'v resource) list"
  rg_flights :: flights
  rg_holds :: "owner_id list"
  rg_pins :: "owner_id list"
  rg_loaders :: "(flight_id \<times> string \<times> usize) list"
  rg_loaded :: "(flight_id \<times> string \<times> owner_id result) list"
  rg_waiting :: "flight_id list"
  rg_leaving :: "flight_id list"
  rg_charges :: "usize list"

text \<open>
  The last fields follow the threads inside \<open>load_inner\<close>: loaders that run with their reservation,
  elected requests between the loader's return and publication (the outcome in a local variable), requests waiting
  on a flight, and elected requests that have published and not returned yet.
\<close>

fun loaded_ref :: "flight_id \<times> string \<times> owner_id result \<Rightarrow> owner_id list" where
  "loaded_ref (f, key, r) = (case r of Inr v \<Rightarrow> [v] | Inl _ \<Rightarrow> [])"

definition refs :: "'v registry \<Rightarrow> owner_id list" where
  "refs rg = ready_refs (rg_entries rg) @ result_refs (rg_flights rg) @ concat (map loaded_ref (rg_loaded rg))
     @ rg_holds rg @ rg_pins rg"

definition strong_count :: "'v registry \<Rightarrow> owner_id \<Rightarrow> nat" where
  "strong_count rg v = count_list (refs rg) v"

definition update_resource :: "owner_id \<Rightarrow> ('v resource \<Rightarrow> 'v resource) \<Rightarrow> 'v registry \<Rightarrow> 'v registry" where
  "update_resource v f rg =
     (case map_of (rg_heap rg) v of None \<Rightarrow> rg | Some r \<Rightarrow> rg\<lparr>rg_heap := AList.update v (f r) (rg_heap rg)\<rparr>)"

definition mark_active :: "'v resource \<Rightarrow> 'v resource" where
  "mark_active r = r\<lparr>r_idle_since := map_option (\<lambda>_. None) (r_idle_since r)\<rparr>"

definition is_evictable :: "('v \<Rightarrow> bool) \<Rightarrow> 'v registry \<Rightarrow> owner_id \<Rightarrow> bool" where
  "is_evictable idle rg v \<longleftrightarrow>
     (case map_of (rg_heap rg) v of None \<Rightarrow> False
      | Some r \<Rightarrow> strong_count rg v = 1 \<and> r_pins r = 0 \<and> idle (r_value r))"

text \<open>After a reference is gone: the last one destroys the resource and gives its bytes back.\<close>

definition reap :: "owner_id \<Rightarrow> 'v registry \<Rightarrow> 'v registry" where
  "reap v rg =
     (if strong_count rg v \<noteq> 0 then rg
      else case map_of (rg_heap rg) v of
        None \<Rightarrow> rg
      | Some r \<Rightarrow> rg\<lparr>rg_heap := AList.delete v (rg_heap rg), rg_usage := usage_release (r_bytes r) (rg_usage rg)\<rparr>)"

definition drop_hold :: "owner_id \<Rightarrow> 'v registry \<Rightarrow> 'v registry" where
  "drop_hold v rg = reap v (rg\<lparr>rg_holds := remove1 v (rg_holds rg)\<rparr>)"


section \<open>Creation and budget\<close>

definition create :: "usize \<Rightarrow> nat option \<Rightarrow> 'v registry result" where
  "create budget timeout =
     (if budget = 0 then Inl (Message ''residency budget must be nonzero'')
      else Inr \<lparr>rg_usage = \<lparr>us_limit = budget, us_bytes = 0\<rparr>, rg_entries = [], rg_clock = 0, rg_evictions = 0,
         rg_timeout = timeout, rg_heap = [], rg_flights = [], rg_holds = [], rg_pins = [], rg_loaders = [],
         rg_loaded = [], rg_waiting = [], rg_leaving = [], rg_charges = []\<rparr>)"

definition with_idle_timeout :: "usize \<Rightarrow> nat \<Rightarrow> 'v registry result" where
  "with_idle_timeout budget timeout =
     (if timeout = 0 then Inl (Message ''residency idle timeout must be nonzero'') else create budget (Some timeout))"

text \<open>
  Removing the victim moves the entry's reference to a local variable, which is dropped after
  the lock is released. A victim that is not ready is the unreachable branch, here \<open>None\<close>.
\<close>

definition evict_idle :: "('v \<Rightarrow> bool) \<Rightarrow> 'v registry \<Rightarrow> ('v registry \<times> owner_id) option" where
  "evict_idle idle rg =
     (case lru_victim (is_evictable idle rg) (rg_entries rg) of
        None \<Rightarrow> None
      | Some key \<Rightarrow>
          (case map_of (rg_entries rg) key of
             Some (EReady v used) \<Rightarrow>
               Some (rg\<lparr>rg_entries := AList.delete key (rg_entries rg), rg_evictions := rg_evictions rg + 1,
                        rg_holds := v # rg_holds rg\<rparr>, v)
           | _ \<Rightarrow> None))"

datatype budget_turn = Granted | Evicted owner_id | Refused error

text \<open>One turn of the loop of \<open>MemoryBudget::reserve\<close>; \<open>alive\<close>: the registry still exists.\<close>

definition budget_reserve :: "('v \<Rightarrow> bool) \<Rightarrow> bool \<Rightarrow> usize \<Rightarrow> 'v registry \<Rightarrow> 'v registry \<times> budget_turn" where
  "budget_reserve idle alive bytes rg =
     (if bytes > us_limit (rg_usage rg) then (rg, Refused (Message ''allocation exceeds residency budget''))
      else case usage_reserve bytes (rg_usage rg) of
        Some u \<Rightarrow> (rg\<lparr>rg_usage := u, rg_charges := bytes # rg_charges rg\<rparr>, Granted)
      | None \<Rightarrow>
          (case (if alive then evict_idle idle rg else None) of
             None \<Rightarrow> (rg, Refused (Busy ''residency budget is pinned or loading''))
           | Some (rg1, v) \<Rightarrow> (rg1, Evicted v)))"

definition charge_drop :: "usize \<Rightarrow> 'v registry \<Rightarrow> 'v registry" where
  "charge_drop bytes rg =
     rg\<lparr>rg_usage := usage_release bytes (rg_usage rg), rg_charges := remove1 bytes (rg_charges rg)\<rparr>"


section \<open>Loading\<close>

datatype load_turn = Leased owner_id | Joined flight_id | Elected flight_id | Retry owner_id | Rejected error

definition load_enter :: "('v \<Rightarrow> bool) \<Rightarrow> string \<Rightarrow> usize \<Rightarrow> 'v registry \<Rightarrow> 'v registry \<times> load_turn" where
  "load_enter idle key peak rg =
     (let rg1 = rg\<lparr>rg_clock := saturating_add (rg_clock rg) 1\<rparr>; used = rg_clock rg1
      in case map_of (rg_entries rg1) key of
           Some (EReady v _) \<Rightarrow>
             (rg1\<lparr>rg_entries := AList.update key (EReady v used) (rg_entries rg1), rg_holds := v # rg_holds rg1\<rparr>, Leased v)
         | Some (ELoading f) \<Rightarrow> (rg1\<lparr>rg_flights := flight_join f (rg_flights rg1), rg_waiting := f # rg_waiting rg1\<rparr>, Joined f)
         | None \<Rightarrow>
             (case usage_reserve peak (rg_usage rg1) of
                None \<Rightarrow>
                  (case evict_idle idle rg1 of
                     None \<Rightarrow> (rg1, Rejected (Busy ''residency budget is pinned or loading''))
                   | Some (rg2, v) \<Rightarrow> (rg2, Retry v))
              | Some u \<Rightarrow>
                  let f = fresh_id (map fst (rg_flights rg1))
                  in (rg1\<lparr>rg_usage := u, rg_flights := (f, \<lparr>fl_result = None, fl_refs = 1\<rparr>) # rg_flights rg1,
                          rg_entries := AList.update key (ELoading f) (rg_entries rg1),
                          rg_loaders := (f, key, peak) # rg_loaders rg1\<rparr>, Elected f)))"

text \<open>
  The loader returned (\<open>None\<close>: it panicked). An accepted value shrinks the reservation to its
  resident bytes; anything else drops the reservation.
\<close>

definition load_accepts :: "bool \<Rightarrow> usize \<Rightarrow> ('v \<times> usize) result option \<Rightarrow> ('v \<times> usize) option" where
  "load_accepts budgeted peak outcome =
     (case outcome of
        Some (Inr (v, bytes)) \<Rightarrow> if (budgeted \<or> bytes > 0) \<and> bytes \<le> peak then Some (v, bytes) else None
      | _ \<Rightarrow> None)"

definition load_failure :: "('v \<times> usize) result option \<Rightarrow> error" where
  "load_failure outcome =
     (case outcome of
        Some (Inr _) \<Rightarrow> Message ''resident bytes exceed loader reservation or are zero''
      | Some (Inl e) \<Rightarrow> e
      | None \<Rightarrow> Message ''resident model loader panicked'')"

definition load_return ::
  "nat \<Rightarrow> bool \<Rightarrow> flight_id \<Rightarrow> string \<Rightarrow> usize \<Rightarrow> ('v \<times> usize) result option \<Rightarrow> 'v registry \<Rightarrow> 'v registry" where
  "load_return ty budgeted f key peak outcome rg =
     (let rg1 = rg\<lparr>rg_loaders := remove1 (f, key, peak) (rg_loaders rg)\<rparr>
      in case load_accepts budgeted peak outcome of
           Some (value, bytes) \<Rightarrow>
             let v = fresh_id (map fst (rg_heap rg1))
             in rg1\<lparr>rg_usage := reservation_shrink peak bytes (rg_usage rg1),
                    rg_heap := (v, \<lparr>r_value = value, r_type = ty, r_bytes = bytes, r_pins = 0,
                       r_idle_since = map_option (\<lambda>_. None) (rg_timeout rg1)\<rparr>) # rg_heap rg1,
                    rg_loaded := (f, key, Inr v) # rg_loaded rg1\<rparr>
         | None \<Rightarrow>
             rg1\<lparr>rg_usage := usage_release peak (rg_usage rg1),
                 rg_loaded := (f, key, Inl (load_failure outcome)) # rg_loaded rg1\<rparr>)"

text \<open>The second critical section of the elected request: the entry and the flight's result hold clones.\<close>

definition load_publish :: "flight_id \<Rightarrow> string \<Rightarrow> owner_id result \<Rightarrow> 'v registry \<Rightarrow> 'v registry" where
  "load_publish f key r rg =
     rg\<lparr>rg_loaded := remove1 (f, key, r) (rg_loaded rg), rg_leaving := f # rg_leaving rg,
        rg_holds := loaded_ref (f, key, r) @ rg_holds rg,
        rg_entries := (case r of
            Inr v \<Rightarrow> AList.update key (EReady v (rg_clock rg)) (rg_entries rg)
          | Inl _ \<Rightarrow> AList.delete key (rg_entries rg)),
        rg_flights := flight_publish f r (rg_flights rg)\<rparr>"

text \<open>A waiter takes a clone of the published result; leaving the flight drops it with the last one.\<close>

definition flight_exit :: "flight_id \<Rightarrow> 'v registry \<Rightarrow> 'v registry" where
  "flight_exit f rg =
     (let rg1 = rg\<lparr>rg_flights := flight_leave f (rg_flights rg)\<rparr>
      in case map_of (rg_flights rg) f of
           Some fl \<Rightarrow> (case fl_result fl of Some (Inr v) \<Rightarrow> reap v rg1 | _ \<Rightarrow> rg1)
         | None \<Rightarrow> rg1)"

definition load_exit :: "flight_id \<Rightarrow> 'v registry \<Rightarrow> 'v registry" where
  "load_exit f rg = flight_exit f (rg\<lparr>rg_leaving := remove1 f (rg_leaving rg)\<rparr>)"

definition flight_take :: "flight_id \<Rightarrow> 'v registry \<Rightarrow> ('v registry \<times> owner_id result) option" where
  "flight_take f rg =
     (case map_of (rg_flights rg) f of
        None \<Rightarrow> None
      | Some fl \<Rightarrow>
          (case fl_result fl of
             None \<Rightarrow> None
           | Some (Inr v) \<Rightarrow> Some (flight_exit f (rg\<lparr>rg_waiting := remove1 f (rg_waiting rg), rg_holds := v # rg_holds rg\<rparr>), Inr v)
           | Some (Inl e) \<Rightarrow> Some (flight_exit f (rg\<lparr>rg_waiting := remove1 f (rg_waiting rg)\<rparr>), Inl (Execution e))))"

text \<open>\<open>lease\<close>: a reference becomes a lease of the requested type or is dropped.\<close>

definition lease :: "nat \<Rightarrow> owner_id \<Rightarrow> 'v registry \<Rightarrow> 'v registry \<times> owner_id result" where
  "lease ty v rg =
     (case map_of (rg_heap rg) v of
        Some r \<Rightarrow>
          if r_type r = ty then (update_resource v mark_active rg, Inr v)
          else (drop_hold v rg, Inl (Message ''residency key has another resource type''))
      | None \<Rightarrow> (rg, Inl (Message ''residency key has another resource type'')))"

definition load_guard :: "usize \<Rightarrow> 'v registry \<Rightarrow> unit result" where
  "load_guard peak rg =
     (if peak = 0 \<or> peak > us_limit (rg_usage rg)
      then Inl (Message ''loader reservation exceeds residency budget or is zero'') else Inr ())"


section \<open>Leases, pins, eviction and statistics\<close>

definition lease_clone :: "owner_id \<Rightarrow> 'v registry \<Rightarrow> 'v registry" where
  "lease_clone v rg = (let rg1 = update_resource v mark_active rg in rg1\<lparr>rg_holds := v # rg_holds rg1\<rparr>)"

definition pin :: "owner_id \<Rightarrow> 'v registry \<Rightarrow> 'v registry" where
  "pin v rg =
     (let rg1 = update_resource v (\<lambda>r. (mark_active r)\<lparr>r_pins := r_pins r + 1\<rparr>) rg
      in rg1\<lparr>rg_pins := v # rg_pins rg1\<rparr>)"

definition pin_drop :: "owner_id \<Rightarrow> 'v registry \<Rightarrow> 'v registry" where
  "pin_drop v rg =
     (let rg1 = update_resource v (\<lambda>r. r\<lparr>r_pins := r_pins r - 1\<rparr>) rg
      in reap v (rg1\<lparr>rg_pins := remove1 v (rg_pins rg1)\<rparr>))"

definition evict :: "('v \<Rightarrow> bool) \<Rightarrow> string \<Rightarrow> 'v registry \<Rightarrow> 'v registry \<times> owner_id option \<times> bool result" where
  "evict idle key rg =
     (case map_of (rg_entries rg) key of
        None \<Rightarrow> (rg, None, Inr False)
      | Some (EReady v used) \<Rightarrow>
          if is_evictable idle rg v
          then (rg\<lparr>rg_entries := AList.delete key (rg_entries rg), rg_evictions := rg_evictions rg + 1,
                   rg_holds := v # rg_holds rg\<rparr>, Some v, Inr True)
          else (rg, None, Inl (Busy ''resident resource is in use''))
      | Some (ELoading f) \<Rightarrow> (rg, None, Inl (Busy ''resident resource is in use'')))"

text \<open>
  The idle sweep: the first pass starts, keeps or resets the countdown of every ready
  resource and collects the expired keys, the second removes their entries. A resource
  without tracking is the failed expectation, here \<open>None\<close>.
\<close>

fun expire_pass ::
  "(owner_id \<Rightarrow> bool) \<Rightarrow> nat \<Rightarrow> nat \<Rightarrow> string entries \<Rightarrow> (owner_id \<times> 'v resource) list
    \<Rightarrow> ((owner_id \<times> 'v resource) list \<times> (string \<times> owner_id) list) option" where
  "expire_pass ok now timeout [] heap = Some (heap, [])"
| "expire_pass ok now timeout ((key, ELoading f) # es) heap = expire_pass ok now timeout es heap"
| "expire_pass ok now timeout ((key, EReady v used) # es) heap =
     (case map_of heap v of
        None \<Rightarrow> None
      | Some r \<Rightarrow>
          (case r_idle_since r of
             None \<Rightarrow> None
           | Some since \<Rightarrow>
               if \<not> ok v
               then expire_pass ok now timeout es (AList.update v (r\<lparr>r_idle_since := Some None\<rparr>) heap)
               else
                 let t = (case since of None \<Rightarrow> now | Some t \<Rightarrow> t)
                 in map_option (\<lambda>(h, ks). (h, if now - t \<ge> timeout then (key, v) # ks else ks))
                      (expire_pass ok now timeout es (AList.update v (r\<lparr>r_idle_since := Some (Some t)\<rparr>) heap))))"

definition collect_expired :: "('v \<Rightarrow> bool) \<Rightarrow> nat \<Rightarrow> 'v registry \<Rightarrow> ('v registry \<times> owner_id list) option" where
  "collect_expired idle now rg =
     (case rg_timeout rg of
        None \<Rightarrow> Some (rg, [])
      | Some timeout \<Rightarrow>
          map_option (\<lambda>(heap, expired).
              (rg\<lparr>rg_heap := heap,
                  rg_entries := fold AList.delete (map fst expired) (rg_entries rg),
                  rg_evictions := rg_evictions rg + length expired,
                  rg_holds := map snd expired @ rg_holds rg\<rparr>, map snd expired))
            (expire_pass (is_evictable idle rg) now timeout (rg_entries rg) (rg_heap rg)))"

record residency_statistics =
  rs_budget :: usize
  rs_reserved :: usize
  rs_resources :: nat
  rs_evicted :: nat

definition statistics :: "'v registry \<Rightarrow> residency_statistics" where
  "statistics rg = \<lparr>rs_budget = us_limit (rg_usage rg), rs_reserved = us_bytes (rg_usage rg),
     rs_resources = length (rg_entries rg), rs_evicted = rg_evictions rg\<rparr>"

end
