(* ===== verification/Residency_Safety.thy ===== *)
theory Residency_Safety
  imports Residency
begin

text \<open>
  Safety of the residency manager under any interleaving of requests, loaders, leases, pins,
  evictions, idle sweeps and budgeted allocations: the byte ceiling, the life of resources,
  and the sharing of loads.
\<close>


section \<open>Steps\<close>

inductive res_step :: "'v registry \<Rightarrow> 'v registry \<Rightarrow> bool" where
  enter: "load_enter idle key peak rg = (rg', turn) \<Longrightarrow> res_step rg rg'"
| returned: "(f, key, peak) \<in> set (rg_loaders rg) \<Longrightarrow> res_step rg (load_return ty budgeted f key peak outcome rg)"
| published: "(f, key, r) \<in> set (rg_loaded rg) \<Longrightarrow> res_step rg (load_publish f key r rg)"
| exit: "f \<in> set (rg_leaving rg) \<Longrightarrow> res_step rg (load_exit f rg)"
| taken: "f \<in> set (rg_waiting rg) \<Longrightarrow> flight_take f rg = Some (rg', r) \<Longrightarrow> res_step rg rg'"
| leased: "v \<in> set (rg_holds rg) \<Longrightarrow> lease ty v rg = (rg', r) \<Longrightarrow> res_step rg rg'"
| cloned: "v \<in> set (rg_holds rg) \<Longrightarrow> res_step rg (lease_clone v rg)"
| dropped: "v \<in> set (rg_holds rg) \<Longrightarrow> res_step rg (drop_hold v rg)"
| pinned: "v \<in> set (rg_holds rg) \<Longrightarrow> res_step rg (pin v rg)"
| unpinned: "v \<in> set (rg_pins rg) \<Longrightarrow> res_step rg (pin_drop v rg)"
| evicted: "evict idle key rg = (rg', victim, r) \<Longrightarrow> res_step rg rg'"
| swept: "collect_expired idle now rg = Some (rg', victims) \<Longrightarrow> res_step rg rg'"
| reserved: "budget_reserve idle alive bytes rg = (rg', turn') \<Longrightarrow> res_step rg rg'"
| freed: "bytes \<in> set (rg_charges rg) \<Longrightarrow> res_step rg (charge_drop bytes rg)"

definition res_reach :: "'v registry \<Rightarrow> bool" where
  "res_reach rg \<longleftrightarrow> (\<exists>budget timeout rg0. create budget timeout = Inr rg0 \<and> budget \<le> usize_MAX \<and> res_step\<^sup>*\<^sup>* rg0 rg)"


section \<open>Invariant\<close>

definition heap_bytes :: "(owner_id \<times> 'v resource) list \<Rightarrow> nat" where
  "heap_bytes h = sum_list (map (\<lambda>x. r_bytes (snd x)) h)"

definition loader_bytes :: "(flight_id \<times> string \<times> usize) list \<Rightarrow> nat" where
  "loader_bytes ls = sum_list (map (\<lambda>x. snd (snd x)) ls)"

definition keys_ok :: "'v registry \<Rightarrow> bool" where
  "keys_ok rg \<longleftrightarrow> distinct (map fst (rg_entries rg)) \<and> distinct (map fst (rg_heap rg)) \<and> distinct (map fst (rg_flights rg))"

definition bytes_ok :: "'v registry \<Rightarrow> bool" where
  "bytes_ok rg \<longleftrightarrow> usage_ok (rg_usage rg)
     \<and> us_bytes (rg_usage rg) = heap_bytes (rg_heap rg) + loader_bytes (rg_loaders rg) + sum_list (rg_charges rg)
     \<and> us_bytes (rg_usage rg) \<le> us_limit (rg_usage rg)"

definition resources_ok :: "'v registry \<Rightarrow> bool" where
  "resources_ok rg \<longleftrightarrow> (\<forall>v r. map_of (rg_heap rg) v = Some r \<longrightarrow>
     r_pins r = count_list (rg_pins rg) v \<and> (rg_timeout rg \<noteq> None \<longrightarrow> r_idle_since r \<noteq> None))"

definition alive_ok :: "'v registry \<Rightarrow> bool" where
  "alive_ok rg \<longleftrightarrow> fst ` set (rg_heap rg) = set (refs rg)"

text \<open>Requests that have been elected for a key and have not published yet.\<close>

definition elected :: "'v registry \<Rightarrow> (flight_id \<times> string) list" where
  "elected rg = map (\<lambda>x. (fst x, fst (snd x))) (rg_loaders rg) @ map (\<lambda>x. (fst x, fst (snd x))) (rg_loaded rg)"

definition flights_ok :: "'v registry \<Rightarrow> bool" where
  "flights_ok rg \<longleftrightarrow> flights_wf (rg_entries rg) (rg_flights rg) (elected rg) (rg_waiting rg) (rg_leaving rg)"

definition res_inv :: "'v registry \<Rightarrow> bool" where
  "res_inv rg \<longleftrightarrow> keys_ok rg \<and> bytes_ok rg \<and> resources_ok rg \<and> alive_ok rg \<and> flights_ok rg"

lemma heap_bytes_delete:
  "distinct (map fst h) \<Longrightarrow> map_of h v = Some r \<Longrightarrow> heap_bytes h = r_bytes r + heap_bytes (AList.delete v h)"
proof -
  assume "distinct (map fst h)" "map_of h v = Some r"
  from mset_delete [OF this] have "mset (map (\<lambda>x. r_bytes (snd x)) h) = mset (map (\<lambda>x. r_bytes (snd x)) ((v, r) # AList.delete v h))"
    by (simp only: mset_map mset.simps)
  from arg_cong [OF this, of sum_mset] show ?thesis unfolding sum_mset_sum_list by (simp add: heap_bytes_def)
qed

lemma heap_bytes_update:
  assumes "distinct (map fst h)" "map_of h v = Some r" "r_bytes r' = r_bytes r"
  shows "heap_bytes (AList.update v r' h) = heap_bytes h"
proof -
  from mset_update [OF assms(1), of v r']
  have "mset (map (\<lambda>x. r_bytes (snd x)) (AList.update v r' h)) = mset (map (\<lambda>x. r_bytes (snd x)) ((v, r') # AList.delete v h))"
    by (simp only: mset_map mset.simps)
  from arg_cong [OF this, of sum_mset] have "heap_bytes (AList.update v r' h) = r_bytes r' + heap_bytes (AList.delete v h)"
    unfolding sum_mset_sum_list by (simp add: heap_bytes_def)
  with heap_bytes_delete [OF assms(1,2)] assms(3) show ?thesis by simp
qed

lemma loader_bytes_remove:
  "(f, key, peak) \<in> set ls \<Longrightarrow> loader_bytes ls = peak + loader_bytes (remove1 (f, key, peak) ls)"
  unfolding loader_bytes_def using sum_list_map_remove1 [of "(f, key, peak)" ls "\<lambda>x. snd (snd x)"] by simp


section \<open>Reaping\<close>

lemma strong_count_zero: "strong_count rg v = 0 \<longleftrightarrow> v \<notin> set (refs rg)"
  by (simp add: strong_count_def count_list_0_iff)

lemma alive_okD: "alive_ok rg \<Longrightarrow> v \<in> set (refs rg) \<Longrightarrow> \<exists>r. map_of (rg_heap rg) v = Some r"
  unfolding alive_ok_def by (metis map_of_eq_None_iff not_None_eq)

text \<open>The state when one reference to \<open>v\<close> has just gone and its drop has not run.\<close>

lemma reap_inv:
  assumes "keys_ok rg" "bytes_ok rg" "resources_ok rg" "flights_ok rg" "fst ` set (rg_heap rg) = insert v (set (refs rg))"
  shows "res_inv (reap v rg)"
proof (cases "v \<in> set (refs rg)")
  case True
  then have "reap v rg = rg" by (simp add: reap_def strong_count_zero)
  with assms True show ?thesis by (simp add: res_inv_def alive_ok_def insert_absorb)
next
  case False
  obtain r where r: "map_of (rg_heap rg) v = Some r" using assms(5) by (metis insertI1 map_of_eq_None_iff not_None_eq)
  let ?rg = "rg\<lparr>rg_heap := AList.delete v (rg_heap rg), rg_usage := usage_release (r_bytes r) (rg_usage rg)\<rparr>"
  have reap: "reap v rg = ?rg" using False r by (simp add: reap_def strong_count_zero)
  have refs: "refs ?rg = refs rg" by (simp add: refs_def)
  have hb: "heap_bytes (rg_heap rg) = r_bytes r + heap_bytes (AList.delete v (rg_heap rg))"
    using assms(1) r by (intro heap_bytes_delete) (auto simp: keys_ok_def)
  then have "r_bytes r \<le> us_bytes (rg_usage rg)" using assms(2) by (simp add: bytes_ok_def)
  with ug.given_back [of "rg_usage rg" "r_bytes r"] assms(2) hb have "bytes_ok ?rg" by (simp add: bytes_ok_def)
  moreover have "resources_ok ?rg" using assms(3) by (simp add: resources_ok_def)
  moreover have "alive_ok ?rg" using assms(5) False refs by (auto simp: alive_ok_def)
  moreover have "keys_ok ?rg" "flights_ok ?rg" using assms(1,4) by (simp_all add: keys_ok_def flights_ok_def elected_def)
  ultimately show ?thesis by (simp add: reap res_inv_def)
qed

lemma update_resource_inv:
  assumes inv: "res_inv rg" and f: "\<And>r. r_bytes (f r) = r_bytes r" "\<And>r. r_idle_since r \<noteq> None \<Longrightarrow> r_idle_since (f r) \<noteq> None"
    and v: "v \<in> set (refs rg)"
  obtains r where "map_of (rg_heap rg) v = Some r"
    "update_resource v f rg = rg\<lparr>rg_heap := AList.update v (f r) (rg_heap rg)\<rparr>"
    "keys_ok (update_resource v f rg)" "bytes_ok (update_resource v f rg)" "flights_ok (update_resource v f rg)"
    "fst ` set (rg_heap (update_resource v f rg)) = set (refs rg)"
proof -
  obtain r where r: "map_of (rg_heap rg) v = Some r" using inv v alive_okD [of rg v] by (auto simp: res_inv_def)
  then have in_heap: "v \<in> fst ` set (rg_heap rg)" by (metis map_of_eq_None_iff option.discI)
  have up: "update_resource v f rg = rg\<lparr>rg_heap := AList.update v (f r) (rg_heap rg)\<rparr>" using r by (simp add: update_resource_def)
  have "heap_bytes (AList.update v (f r) (rg_heap rg)) = heap_bytes (rg_heap rg)"
    using inv r f(1) by (intro heap_bytes_update [where r = r]) (auto simp: res_inv_def keys_ok_def)
  with that [OF r up] inv in_heap show thesis
    by (simp add: up res_inv_def keys_ok_def bytes_ok_def flights_ok_def elected_def alive_ok_def insert_absorb)
qed

lemma update_resource_same:
  assumes inv: "res_inv rg" and f: "\<And>r. r_bytes (f r) = r_bytes r" "\<And>r. r_idle_since r \<noteq> None \<Longrightarrow> r_idle_since (f r) \<noteq> None"
    and v: "v \<in> set (refs rg)" and p: "\<And>r. r_pins (f r) = r_pins r"
  shows "res_inv (update_resource v f rg) \<and> refs (update_resource v f rg) = refs rg"
proof -
  obtain r where r: "map_of (rg_heap rg) v = Some r" "update_resource v f rg = rg\<lparr>rg_heap := AList.update v (f r) (rg_heap rg)\<rparr>"
    "keys_ok (update_resource v f rg)" "bytes_ok (update_resource v f rg)" "flights_ok (update_resource v f rg)"
    "fst ` set (rg_heap (update_resource v f rg)) = set (refs rg)"
    using update_resource_inv [OF inv f v] by blast
  have refs: "refs (update_resource v f rg) = refs rg" by (simp add: r(2) refs_def)
  have "resources_ok (update_resource v f rg)"
    using inv r(1) p f(2) by (auto simp: r(2) res_inv_def resources_ok_def)
  with r(3-6) refs show ?thesis by (simp add: res_inv_def alive_ok_def)
qed


section \<open>Every operation keeps the invariant\<close>

lemma res_invD:
  assumes "res_inv rg"
  shows "distinct (map fst (rg_entries rg))" "distinct (map fst (rg_heap rg))" "distinct (map fst (rg_flights rg))"
    "bytes_ok rg" "resources_ok rg" "flights_ok rg" "keys_ok rg" "fst ` set (rg_heap rg) = set (refs rg)"
  using assms by (simp_all add: res_inv_def keys_ok_def alive_ok_def)

text \<open>Moving or adding references to live resources.\<close>

lemma res_inv_frame:
  assumes "res_inv rg" "rg_usage rg' = rg_usage rg" "rg_heap rg' = rg_heap rg" "rg_loaders rg' = rg_loaders rg"
    "rg_charges rg' = rg_charges rg" "rg_pins rg' = rg_pins rg" "rg_timeout rg' = rg_timeout rg"
    "set (refs rg') = set (refs rg)" "distinct (map fst (rg_entries rg'))" "distinct (map fst (rg_flights rg'))" "flights_ok rg'"
  shows "res_inv rg'"
  using assms by (simp add: res_inv_def keys_ok_def bytes_ok_def resources_ok_def alive_ok_def)

lemma res_inv_hold: "res_inv rg \<Longrightarrow> v \<in> set (refs rg) \<Longrightarrow> res_inv (rg\<lparr>rg_holds := v # rg_holds rg\<rparr>)"
  by (rule res_inv_frame [of rg]) (auto simp: refs_def res_inv_def keys_ok_def flights_ok_def elected_def)

lemma res_inv_drop_hold:
  assumes "res_inv rg" "v \<in> set (rg_holds rg)"
  shows "res_inv (drop_hold v rg)"
  unfolding drop_hold_def
proof (rule reap_inv)
  let ?rg = "rg\<lparr>rg_holds := remove1 v (rg_holds rg)\<rparr>"
  have "mset (refs rg) = add_mset v (mset (refs ?rg))" using assms(2) by (simp add: refs_def)
  then have "set (refs rg) = insert v (set (refs ?rg))" by (metis set_mset_add_mset_insert set_mset_mset)
  then show "fst ` set (rg_heap ?rg) = insert v (set (refs ?rg))" using res_invD(8) [OF assms(1)] by simp
qed (use assms(1) in \<open>simp_all add: res_inv_def keys_ok_def bytes_ok_def resources_ok_def flights_ok_def elected_def\<close>)

lemma mark_active_simps [simp]:
  "r_bytes (mark_active r) = r_bytes r" "r_pins (mark_active r) = r_pins r"
  "r_idle_since r \<noteq> None \<Longrightarrow> r_idle_since (mark_active r) \<noteq> None"
  by (auto simp: mark_active_def)

lemma res_inv_active: "res_inv rg \<Longrightarrow> v \<in> set (refs rg) \<Longrightarrow>
    res_inv (update_resource v mark_active rg) \<and> refs (update_resource v mark_active rg) = refs rg"
  by (rule update_resource_same) simp_all

lemma hold_ref: "v \<in> set (rg_holds rg) \<Longrightarrow> v \<in> set (refs rg)" "v \<in> set (rg_pins rg) \<Longrightarrow> v \<in> set (refs rg)"
  by (simp_all add: refs_def)

lemma res_inv_lease: "res_inv rg \<Longrightarrow> v \<in> set (rg_holds rg) \<Longrightarrow> lease ty v rg = (rg', r) \<Longrightarrow> res_inv rg'"
  using res_inv_active [of rg v] res_inv_drop_hold [of rg v]
  by (auto simp: lease_def hold_ref split: option.splits if_splits)

lemma res_inv_clone: "res_inv rg \<Longrightarrow> v \<in> set (rg_holds rg) \<Longrightarrow> res_inv (lease_clone v rg)"
  using res_inv_active [of rg v] by (auto simp: lease_clone_def Let_def hold_ref intro!: res_inv_hold)

lemma res_inv_pin:
  assumes "res_inv rg" "v \<in> set (rg_holds rg)"
  shows "res_inv (pin v rg)"
proof -
  let ?f = "\<lambda>r. (mark_active r)\<lparr>r_pins := r_pins r + 1\<rparr>"
  from assms obtain r where r: "map_of (rg_heap rg) v = Some r" "update_resource v ?f rg = rg\<lparr>rg_heap := AList.update v (?f r) (rg_heap rg)\<rparr>"
    "keys_ok (update_resource v ?f rg)" "bytes_ok (update_resource v ?f rg)" "flights_ok (update_resource v ?f rg)"
    "fst ` set (rg_heap (update_resource v ?f rg)) = set (refs rg)"
    using update_resource_inv [OF assms(1), of ?f v] by (auto simp: hold_ref)
  have pin: "pin v rg = rg\<lparr>rg_heap := AList.update v (?f r) (rg_heap rg), rg_pins := v # rg_pins rg\<rparr>"
    unfolding pin_def r(2) Let_def by simp
  have "resources_ok (pin v rg)"
    using res_invD(5) [OF assms(1)] r(1) unfolding pin resources_ok_def by (auto simp: mark_active_def)
  moreover have "set (refs (pin v rg)) = set (refs rg)" using assms(2) by (auto simp: pin refs_def)
  ultimately show ?thesis using r(3-6) unfolding r(2)
    by (simp add: pin res_inv_def keys_ok_def bytes_ok_def flights_ok_def elected_def alive_ok_def)
qed

lemma res_inv_pin_drop:
  assumes "res_inv rg" "v \<in> set (rg_pins rg)"
  shows "res_inv (pin_drop v rg)"
proof -
  let ?f = "\<lambda>r :: 'a resource. r\<lparr>r_pins := r_pins r - 1\<rparr>"
  from assms obtain r where r: "map_of (rg_heap rg) v = Some r" "update_resource v ?f rg = rg\<lparr>rg_heap := AList.update v (?f r) (rg_heap rg)\<rparr>"
    "keys_ok (update_resource v ?f rg)" "bytes_ok (update_resource v ?f rg)" "flights_ok (update_resource v ?f rg)"
    "fst ` set (rg_heap (update_resource v ?f rg)) = set (refs rg)"
    using update_resource_inv [OF assms(1), of ?f v] by (auto simp: hold_ref)
  let ?rg = "rg\<lparr>rg_heap := AList.update v (?f r) (rg_heap rg), rg_pins := remove1 v (rg_pins rg)\<rparr>"
  have cnt: "count_list (remove1 v xs) w = count_list xs w - (if w = v then 1 else 0)" for xs w
    by (induction xs) (auto simp: count_list_0_iff)
  have "resources_ok ?rg"
    using res_invD(5) [OF assms(1)] r(1) unfolding resources_ok_def by (auto simp: cnt)
  moreover have "mset (refs rg) = add_mset v (mset (refs ?rg))" using assms(2) by (simp add: refs_def)
  then have "set (refs rg) = insert v (set (refs ?rg))" by (metis set_mset_add_mset_insert set_mset_mset)
  ultimately have "res_inv (reap v ?rg)"
    using r(3-6) unfolding r(2) by (intro reap_inv) (simp_all add: keys_ok_def bytes_ok_def flights_ok_def elected_def)
  moreover have "pin_drop v rg = reap v ?rg" unfolding pin_drop_def r(2) Let_def by simp
  ultimately show ?thesis by simp
qed

text \<open>Taking a ready entry out of the registry moves its reference to a local variable.\<close>

lemma res_inv_take_entry:
  assumes "res_inv rg" "map_of (rg_entries rg) key = Some (EReady v used)"
  shows "res_inv (rg\<lparr>rg_entries := AList.delete key (rg_entries rg), rg_evictions := n, rg_holds := v # rg_holds rg\<rparr>)"
proof (rule res_inv_frame [OF assms(1)])
  let ?rg = "rg\<lparr>rg_entries := AList.delete key (rg_entries rg), rg_evictions := n, rg_holds := v # rg_holds rg\<rparr>"
  have "mset (refs ?rg) = mset (refs rg)"
    using ready_refs_delete [OF res_invD(1) [OF assms(1)] assms(2)] by (simp add: refs_def)
  then show "set (refs ?rg) = set (refs rg)" by (metis set_mset_mset)
  have "map_of (rg_entries ?rg) k = Some (ELoading f) \<longleftrightarrow> map_of (rg_entries rg) k = Some (ELoading f)" for k f
    using assms(2) by auto
  from wf_entries [OF res_invD(6) [OF assms(1), unfolded flights_ok_def] this] show "flights_ok ?rg"
    by (simp add: flights_ok_def elected_def)
qed (use res_invD [OF assms(1)] in simp_all)

lemma evict_idle_Some:
  assumes "evict_idle idle rg = Some (rg', v)" "distinct (map fst (rg_entries rg))"
  obtains key used where "map_of (rg_entries rg) key = Some (EReady v used)" "is_evictable idle rg v"
    "rg' = rg\<lparr>rg_entries := AList.delete key (rg_entries rg), rg_evictions := rg_evictions rg + 1, rg_holds := v # rg_holds rg\<rparr>"
    "\<And>k' v' used'. map_of (rg_entries rg) k' = Some (EReady v' used') \<Longrightarrow> is_evictable idle rg v' \<Longrightarrow> used \<le> used'"
proof -
  obtain key where key: "lru_victim (is_evictable idle rg) (rg_entries rg) = Some key"
    using assms(1) by (auto simp: evict_idle_def split: option.splits)
  from lru_victim_Some [OF this assms(2)] obtain w used where w: "map_of (rg_entries rg) key = Some (EReady w used)"
      "is_evictable idle rg w"
      "\<And>k' v' used'. map_of (rg_entries rg) k' = Some (EReady v' used') \<Longrightarrow> is_evictable idle rg v' \<Longrightarrow> used \<le> used'" by blast
  from assms(1) key w(1) have eq: "v = w" "rg' = rg\<lparr>rg_entries := AList.delete key (rg_entries rg),
      rg_evictions := rg_evictions rg + 1, rg_holds := v # rg_holds rg\<rparr>" by (auto simp: evict_idle_def)
  show thesis by (rule that [OF w(1,2) [folded eq(1)] eq(2) w(3)])
qed

lemma res_inv_evict_idle: "res_inv rg \<Longrightarrow> evict_idle idle rg = Some (rg', v) \<Longrightarrow> res_inv rg'"
  by (metis evict_idle_Some res_invD(1) res_inv_take_entry)

lemma res_inv_evict: "res_inv rg \<Longrightarrow> evict idle key rg = (rg', victim, r) \<Longrightarrow> res_inv rg'"
  by (auto simp: evict_def split: option.splits centry.splits if_splits intro: res_inv_take_entry)

lemma res_inv_clock: "res_inv rg \<Longrightarrow> res_inv (rg\<lparr>rg_clock := n\<rparr>)"
  by (rule res_inv_frame [of rg]) (auto simp: refs_def res_inv_def keys_ok_def flights_ok_def elected_def)

lemma res_inv_budget_reserve: "res_inv rg \<Longrightarrow> budget_reserve idle alive bytes rg = (rg', turn) \<Longrightarrow> res_inv rg'"
proof -
  assume inv: "res_inv rg" and b: "budget_reserve idle alive bytes rg = (rg', turn)"
  have "res_inv (rg\<lparr>rg_usage := u, rg_charges := bytes # rg_charges rg\<rparr>)" if "usage_reserve bytes (rg_usage rg) = Some u" for u
    using inv ug.take_granted [OF _ that]
    by (simp add: res_inv_def keys_ok_def bytes_ok_def resources_ok_def alive_ok_def refs_def flights_ok_def elected_def)
  with inv b show ?thesis
    by (auto simp: budget_reserve_def intro: res_inv_evict_idle split: if_splits option.splits)
qed

lemma res_inv_charge_drop:
  assumes "res_inv rg" "bytes \<in> set (rg_charges rg)"
  shows "res_inv (charge_drop bytes rg)"
proof -
  have s: "sum_list (rg_charges rg) = bytes + sum_list (remove1 bytes (rg_charges rg))" using assms(2) by (rule ug.sum_remove1)
  with res_invD(4) [OF assms(1)] have le: "bytes \<le> us_bytes (rg_usage rg)" by (simp add: bytes_ok_def)
  with ug.given_back [of "rg_usage rg" bytes] s assms(1) show ?thesis
    by (simp add: charge_drop_def res_inv_def keys_ok_def bytes_ok_def resources_ok_def alive_ok_def refs_def flights_ok_def elected_def)
qed

lemma res_inv_enter_ready:
  assumes "res_inv rg" "map_of (rg_entries rg) key = Some (EReady v last_used)"
  shows "res_inv (rg\<lparr>rg_entries := AList.update key (EReady v used) (rg_entries rg), rg_holds := v # rg_holds rg\<rparr>)"
proof (rule res_inv_frame [OF assms(1)])
  let ?rg = "rg\<lparr>rg_entries := AList.update key (EReady v used) (rg_entries rg), rg_holds := v # rg_holds rg\<rparr>"
  have "mset (refs ?rg) = add_mset v (mset (refs rg))" "v \<in># mset (refs rg)"
    using ready_refs_delete [OF res_invD(1) [OF assms(1)] assms(2)] ready_refs_update [OF res_invD(1) [OF assms(1)], of key "EReady v used"]
    by (simp_all add: refs_def)
  then show "set (refs ?rg) = set (refs rg)" by (metis insert_absorb set_mset_add_mset_insert set_mset_mset)
  have "map_of (rg_entries ?rg) k = Some (ELoading f) \<longleftrightarrow> map_of (rg_entries rg) k = Some (ELoading f)" for k f
    using assms(2) by auto
  from wf_entries [OF res_invD(6) [OF assms(1), unfolded flights_ok_def] this] show "flights_ok ?rg"
    by (simp add: flights_ok_def elected_def)
qed (use res_invD [OF assms(1)] in simp_all)

lemma res_inv_enter_join:
  assumes "res_inv rg" "map_of (rg_entries rg) key = Some (ELoading f)"
  shows "res_inv (rg\<lparr>rg_flights := flight_join f (rg_flights rg), rg_waiting := f # rg_waiting rg\<rparr>)"
proof (rule res_inv_frame [OF assms(1)])
  let ?rg = "rg\<lparr>rg_flights := flight_join f (rg_flights rg), rg_waiting := f # rg_waiting rg\<rparr>"
  note join = wf_join [OF res_invD(6) [OF assms(1), unfolded flights_ok_def] res_invD(3) [OF assms(1)] assms(2)]
  have "mset (refs ?rg) = mset (refs rg)" using join(3) by (simp add: refs_def)
  then show "set (refs ?rg) = set (refs rg)" by (metis set_mset_mset)
  show "distinct (map fst (rg_flights ?rg))" "flights_ok ?rg" using join(1,2) by (simp_all add: flights_ok_def elected_def)
qed (use res_invD [OF assms(1)] in simp_all)

lemma res_inv_enter_elect:
  assumes "res_inv rg" "map_of (rg_entries rg) key = None" "usage_reserve peak (rg_usage rg) = Some u"
    and "f \<notin> fst ` set (rg_flights rg)"
  shows "res_inv (rg\<lparr>rg_usage := u, rg_flights := (f, \<lparr>fl_result = None, fl_refs = 1\<rparr>) # rg_flights rg,
      rg_entries := AList.update key (ELoading f) (rg_entries rg), rg_loaders := (f, key, peak) # rg_loaders rg\<rparr>)"
proof -
  let ?rg = "rg\<lparr>rg_usage := u, rg_flights := (f, \<lparr>fl_result = None, fl_refs = 1\<rparr>) # rg_flights rg,
      rg_entries := AList.update key (ELoading f) (rg_entries rg), rg_loaders := (f, key, peak) # rg_loaders rg\<rparr>"
  note inv = res_invD [OF assms(1)] and fok = res_invD(6) [OF assms(1)]
  have "mset (refs ?rg) = mset (refs rg)"
    using ready_refs_update [OF inv(1), of key "ELoading f"] by (simp add: refs_def delete_absent [OF assms(2)] result_refs_def)
  then have refs: "set (refs ?rg) = set (refs rg)" by (metis set_mset_mset)
  have "flights_ok ?rg"
    using wf_elect [OF fok [unfolded flights_ok_def] assms(2,4)] by (simp add: flights_ok_def elected_def)
  moreover have "bytes_ok ?rg"
    using inv(4) ug.take_granted [OF _ assms(3)] by (simp add: bytes_ok_def loader_bytes_def)
  moreover have "keys_ok ?rg" using inv(1-3) assms(4) by (simp add: keys_ok_def)
  ultimately show ?thesis using inv(5,8) refs by (simp add: res_inv_def alive_ok_def resources_ok_def)
qed

lemma res_inv_enter:
  assumes "res_inv rg" "load_enter idle key peak rg = (rg', turn)"
  shows "res_inv rg'"
proof -
  let ?rg = "rg\<lparr>rg_clock := saturating_add (rg_clock rg) 1\<rparr>"
  have inv: "res_inv ?rg" using assms(1) by (rule res_inv_clock)
  have fresh: "fresh_id (map fst (rg_flights ?rg)) \<notin> fst ` set (rg_flights ?rg)" by (metis fresh_id list.set_map)
  show ?thesis
    using assms(2) res_inv_enter_ready [OF inv, of key] res_inv_enter_join [OF inv, of key]
      res_inv_enter_elect [OF inv _ _ fresh, of key peak] res_inv_evict_idle [OF inv] inv
    by (auto simp: load_enter_def Let_def split: option.splits centry.splits prod.splits)
qed

lemma flights_ok_elected:
  assumes "flights_ok rg" "mset (elected rg') = mset (elected rg)" "rg_entries rg' = rg_entries rg" "rg_flights rg' = rg_flights rg"
    "rg_waiting rg' = rg_waiting rg" "rg_leaving rg' = rg_leaving rg"
  shows "flights_ok rg'"
  using wf_perm [OF assms(1) [unfolded flights_ok_def] assms(2)] assms(3-6) by (simp add: flights_ok_def)

lemma res_inv_return:
  assumes "res_inv rg" "(f, key, peak) \<in> set (rg_loaders rg)"
  shows "res_inv (load_return ty budgeted f key peak outcome rg)"
proof -
  note inv = res_invD [OF assms(1)]
  let ?ls = "remove1 (f, key, peak) (rg_loaders rg)"
  have el: "mset (map (\<lambda>x. (fst x, fst (snd x))) ?ls @ (f, key) # map (\<lambda>x. (fst x, fst (snd x))) (rg_loaded rg)) = mset (elected rg)"
    using image_mset_add_mset [of "\<lambda>x. (fst x, fst (snd x))" "(f, key, peak)" "mset (rg_loaders rg) - {#(f, key, peak)#}"] assms(2)
    by (simp add: elected_def)
  have lb: "loader_bytes (rg_loaders rg) = peak + loader_bytes ?ls" using assms(2) by (rule loader_bytes_remove)
  with inv(4) have le: "peak \<le> us_bytes (rg_usage rg)" by (simp add: bytes_ok_def)
  show ?thesis
  proof (cases "load_accepts budgeted peak outcome")
    case None
    let ?rg = "rg\<lparr>rg_loaders := ?ls, rg_usage := usage_release peak (rg_usage rg),
        rg_loaded := (f, key, Inl (load_failure outcome)) # rg_loaded rg\<rparr>"
    have "flights_ok ?rg" using el by (intro flights_ok_elected [OF inv(6)]) (simp_all add: elected_def)
    moreover have "bytes_ok ?rg"
      using inv(4) lb le ug.given_back [of "rg_usage rg" peak] by (simp add: bytes_ok_def)
    moreover have "refs ?rg = refs rg" by (simp add: refs_def)
    ultimately have "res_inv ?rg" using inv(5,7,8) by (simp add: res_inv_def keys_ok_def alive_ok_def resources_ok_def)
    with None show ?thesis by (simp add: load_return_def)
  next
    case (Some vb)
    obtain val bytes where vb: "vb = (val, bytes)" by force
    have bytes: "bytes \<le> peak" using Some vb by (auto simp: load_accepts_def split: option.splits sum.splits if_splits)
    define v where "v = fresh_id (map fst (rg_heap rg))"
    define r where "r = \<lparr>r_value = val, r_type = ty, r_bytes = bytes, r_pins = 0, r_idle_since = map_option (\<lambda>_. None) (rg_timeout rg)\<rparr>"
    let ?rg = "rg\<lparr>rg_loaders := ?ls, rg_usage := reservation_shrink peak bytes (rg_usage rg),
        rg_heap := (v, r) # rg_heap rg, rg_loaded := (f, key, Inr v) # rg_loaded rg\<rparr>"
    have new: "v \<notin> fst ` set (rg_heap rg)" unfolding v_def by (metis fresh_id list.set_map)
    have "flights_ok ?rg" using el by (intro flights_ok_elected [OF inv(6)]) (simp_all add: elected_def)
    moreover have "bytes_ok ?rg"
      using inv(4) lb le bytes ug.given_back [of "rg_usage rg" "peak - bytes"]
      by (simp add: bytes_ok_def reservation_shrink_def heap_bytes_def r_def)
    moreover have "resources_ok ?rg"
    proof -
      have "v \<notin> set (rg_pins rg)" using new inv(8) by (auto simp: refs_def)
      then have "count_list (rg_pins rg) v = 0" by (simp add: count_list_0_iff)
      then show ?thesis using inv(5) by (auto simp: resources_ok_def r_def)
    qed
    moreover have "set (refs ?rg) = insert v (set (refs rg))" by (auto simp: refs_def)
    ultimately have "res_inv ?rg" using inv(7,8) new by (simp add: res_inv_def keys_ok_def alive_ok_def)
    with Some vb show ?thesis by (simp add: load_return_def v_def r_def Let_def)
  qed
qed

lemma res_inv_publish:
  assumes "res_inv rg" "(f, key, r) \<in> set (rg_loaded rg)"
  shows "res_inv (load_publish f key r rg)"
proof (rule res_inv_frame [OF assms(1)])
  let ?rg = "load_publish f key r rg"
  note inv = res_invD [OF assms(1)] and fok = res_invD(6) [OF assms(1)]
  note wf = fok [unfolded flights_ok_def]
  have el: "mset (elected rg) = add_mset (f, key) (mset (elected ?rg))"
    using image_mset_add_mset [of "\<lambda>x. (fst x, fst (snd x))" "(f, key, r)" "mset (rg_loaded rg) - {#(f, key, r)#}"] assms(2)
    by (simp add: elected_def load_publish_def)
  have fk: "(f, key) \<in> set (elected rg)" using assms(2) by (force simp: elected_def)
  then have entry: "map_of (rg_entries rg) key = Some (ELoading f)" using flights_wfD(2) [OF wf] by blast
  obtain fl where fl: "map_of (rg_flights rg) f = Some fl" "fl_result fl = None" using wf_elected_flight [OF wf fk] .
  note pub = flight_publish_spec [OF inv(3) fl]
  have "flights_wf (rg_entries ?rg) (flight_publish f r (rg_flights rg)) (elected ?rg) (rg_waiting rg) (f # rg_leaving rg)"
    by (rule wf_publish [OF wf inv(3) el]) (simp_all add: load_publish_def split: sum.splits)
  then show "flights_ok ?rg" by (simp add: flights_ok_def load_publish_def elected_def)
  show "distinct (map fst (rg_flights ?rg))" using pub(2) by (simp add: load_publish_def)
  show "distinct (map fst (rg_entries ?rg))" using inv(1) by (simp add: load_publish_def split: sum.splits)
  have one: "mset (rg_loaded rg) = add_mset (f, key, r) (mset (remove1 (f, key, r) (rg_loaded rg)))" using assms(2) by simp
  have lr: "mset (concat (map loaded_ref (rg_loaded rg)))
      = mset (loaded_ref (f, key, r)) + mset (concat (map loaded_ref (remove1 (f, key, r) (rg_loaded rg))))"
    unfolding mset_concat_map using arg_cong [OF one, of "\<lambda>M. \<Sum>x\<in>#M. mset (loaded_ref x)"]
    by (simp only: image_mset_add_mset sum_mset.add_mset)
  have "mset (refs ?rg) = mset (refs rg) + mset (loaded_ref (f, key, r)) + mset (loaded_ref (f, key, r))"
    using ready_refs_delete [OF inv(1) entry] ready_refs_update [OF inv(1), of key]
    by (cases r) (simp_all add: load_publish_def refs_def pub(4) lr)
  moreover have "set (loaded_ref (f, key, r)) \<subseteq> set (refs rg)" using assms(2) by (auto simp: refs_def)
  ultimately show "set (refs ?rg) = set (refs rg)" by (metis Un_absorb2 set_mset_mset set_mset_union)
qed (simp_all add: load_publish_def)

text \<open>Leaving a published flight: the last one out drops the flight's clone of the result.\<close>

lemma res_inv_exit:
  assumes "res_inv rg" and fl: "map_of (rg_flights rg) f = Some fl" "fl_result fl = Some r"
    and here: "count_list wt f + count_list lv f + 1 = count_list (rg_waiting rg) f + count_list (rg_leaving rg) f"
    and others: "\<And>h. h \<noteq> f \<Longrightarrow> count_list wt h = count_list (rg_waiting rg) h \<and> count_list lv h = count_list (rg_leaving rg) h"
    and hs: "hs = rg_holds rg \<or> (\<exists>v. r = Inr v \<and> hs = v # rg_holds rg)"
  shows "res_inv (flight_exit f (rg\<lparr>rg_waiting := wt, rg_leaving := lv, rg_holds := hs\<rparr>))"
proof -
  let ?rg = "rg\<lparr>rg_waiting := wt, rg_leaving := lv, rg_holds := hs, rg_flights := flight_leave f (rg_flights rg)\<rparr>"
  note inv = res_invD [OF assms(1)] and fok = res_invD(6) [OF assms(1)]
  note leave = wf_leave [OF fok [unfolded flights_ok_def] inv(3) fl here others]
  have fok': "flights_ok ?rg" using leave(1) by (simp add: flights_ok_def elected_def)
  have sets: "set (refs rg) = set (flight_refs (f, fl)) \<union> set (refs ?rg)"
    using hs fl(2) leave(3) by (auto simp: refs_def)
  have rest: "keys_ok ?rg" "bytes_ok ?rg" "resources_ok ?rg"
    using inv leave(2) by (simp_all add: keys_ok_def bytes_ok_def resources_ok_def)
  show ?thesis
  proof (cases r)
    case (Inl e)
    with sets fl(2) inv(8) have "alive_ok ?rg" by (simp add: alive_ok_def)
    with rest fok' have "res_inv ?rg" by (simp add: res_inv_def)
    then show ?thesis by (simp add: flight_exit_def fl Inl)
  next
    case (Inr v)
    with sets fl(2) inv(8) have "fst ` set (rg_heap ?rg) = insert v (set (refs ?rg))" by simp
    from reap_inv [OF rest fok' this] show ?thesis by (simp add: flight_exit_def fl Inr)
  qed
qed

lemma res_inv_load_exit:
  assumes "res_inv rg" "f \<in> set (rg_leaving rg)"
  shows "res_inv (load_exit f rg)"
proof -
  obtain fl where fl: "map_of (rg_flights rg) f = Some fl" using wf_party_flight [OF res_invD(6) [OF assms(1), unfolded flights_ok_def]] assms(2) by blast
  have "f \<notin> fst ` set (elected rg)" using flights_wfD(6) [OF res_invD(6) [OF assms(1), unfolded flights_ok_def]] assms(2) by blast
  then obtain r where r: "fl_result fl = Some r" using flights_wfD(4) [OF res_invD(6) [OF assms(1), unfolded flights_ok_def] fl] by auto
  have "res_inv (flight_exit f (rg\<lparr>rg_waiting := rg_waiting rg, rg_leaving := remove1 f (rg_leaving rg), rg_holds := rg_holds rg\<rparr>))"
  proof (rule res_inv_exit [OF assms(1) fl r])
    show "count_list (rg_waiting rg) f + count_list (remove1 f (rg_leaving rg)) f + 1 = count_list (rg_waiting rg) f + count_list (rg_leaving rg) f"
      using count_remove1 [OF assms(2), of f] by simp
    show "count_list (rg_waiting rg) h = count_list (rg_waiting rg) h \<and> count_list (remove1 f (rg_leaving rg)) h = count_list (rg_leaving rg) h" if "h \<noteq> f" for h
      using count_remove1 [OF assms(2), of h] that by simp
  qed simp
  then show ?thesis by (simp add: load_exit_def)
qed

lemma res_inv_take:
  assumes "res_inv rg" "f \<in> set (rg_waiting rg)" "flight_take f rg = Some (rg', out)"
  shows "res_inv rg'"
proof -
  obtain fl r where fl: "map_of (rg_flights rg) f = Some fl" "fl_result fl = Some r"
    using assms(3) by (auto simp: flight_take_def split: option.splits)
  define hs where "hs = (case r of Inr v \<Rightarrow> v # rg_holds rg | Inl _ \<Rightarrow> rg_holds rg)"
  have "res_inv (flight_exit f (rg\<lparr>rg_waiting := remove1 f (rg_waiting rg), rg_leaving := rg_leaving rg, rg_holds := hs\<rparr>))"
  proof (rule res_inv_exit [OF assms(1) fl])
    show "hs = rg_holds rg \<or> (\<exists>v. r = Inr v \<and> hs = v # rg_holds rg)" by (cases r) (simp_all add: hs_def)
    show "count_list (remove1 f (rg_waiting rg)) f + count_list (rg_leaving rg) f + 1 = count_list (rg_waiting rg) f + count_list (rg_leaving rg) f"
      using count_remove1 [OF assms(2), of f] by simp
    show "count_list (remove1 f (rg_waiting rg)) h = count_list (rg_waiting rg) h \<and> count_list (rg_leaving rg) h = count_list (rg_leaving rg) h" if "h \<noteq> f" for h
      using count_remove1 [OF assms(2), of h] that by simp
  qed
  then show ?thesis using assms(3) fl by (cases r) (auto simp: flight_take_def hs_def)
qed


section \<open>The idle sweep\<close>

text \<open>What happens to one resource, and when an entry expires.\<close>

definition countdown :: "bool \<Rightarrow> nat \<Rightarrow> 'v resource \<Rightarrow> 'v resource" where
  "countdown ok now r = r\<lparr>r_idle_since := Some (if ok then Some (case r_idle_since r of Some (Some t) \<Rightarrow> t | _ \<Rightarrow> now) else None)\<rparr>"

definition expires :: "bool \<Rightarrow> nat \<Rightarrow> nat \<Rightarrow> 'v resource \<Rightarrow> bool" where
  "expires ok now timeout r \<longleftrightarrow> ok \<and> (case r_idle_since r of Some (Some t) \<Rightarrow> now - t | _ \<Rightarrow> 0) \<ge> timeout"

fun picked :: "(owner_id \<Rightarrow> bool) \<Rightarrow> 'k \<times> centry \<Rightarrow> ('k \<times> owner_id) list" where
  "picked P (k, EReady v used) = (if P v then [(k, v)] else [])"
| "picked P (k, ELoading f) = []"

lemma picked_iff: "(k, v) \<in> set (picked P x) \<longleftrightarrow> (\<exists>used. x = (k, EReady v used)) \<and> P v"
  by (cases "(P, x)" rule: picked.cases) auto

lemma ready_refs_Cons [simp]:
  "ready_refs ((k, EReady v used) # es) = v # ready_refs es" "ready_refs ((k, ELoading f) # es) = ready_refs es"
  by (simp_all add: ready_refs_def)

text \<open>
  The sweep succeeds when every ready resource is alive and tracked. Different entries hold different
  resources where they count: an entry that may go is the only reference to its resource.
\<close>

lemma expire_pass_spec:
  assumes "\<forall>v\<in>set (ready_refs es). \<exists>r. map_of h v = Some r \<and> r_idle_since r \<noteq> None"
    and "\<And>v. ok v \<Longrightarrow> count_list (ready_refs es) v \<le> 1"
  shows "\<exists>h' ks. expire_pass ok now timeout es h = Some (h', ks)
    \<and> map fst h' = map fst h
    \<and> (\<forall>v. map_of h' v = (if v \<in> set (ready_refs es) then map_option (countdown (ok v) now) (map_of h v) else map_of h v))
    \<and> ks = concat (map (picked (\<lambda>v. expires (ok v) now timeout (the (map_of h v)))) es)"
  using assms
proof (induction ok now timeout es h rule: expire_pass.induct)
  case (1 ok now timeout heap)
  show ?case by (simp add: ready_refs_def)
next
  case (2 ok now timeout key f es heap)
  then show ?case by simp
next
  case (3 ok now timeout key v used es heap)
  obtain r s where r: "map_of heap v = Some r" "r_idle_since r = Some s" using "3.prems"(1) by auto
  let ?h = "AList.update v (countdown (ok v) now r) heap"
  have keys: "map fst ?h = map fst heap"
    using r(1) by (metis AList.update_keys map_of_eq_None_iff option.distinct(1) set_map)
  have tr: "\<forall>w\<in>set (ready_refs es). \<exists>r. map_of ?h w = Some r \<and> r_idle_since r \<noteq> None"
    using "3.prems"(1) by (auto simp: countdown_def)
  have once: "count_list (ready_refs es) w \<le> 1" if "ok w" for w
    using "3.prems"(2) [OF that] by (auto split: if_splits)
  have fresh: "v \<notin> set (ready_refs es)" if "ok v"
    using "3.prems"(2) [OF that] by (simp add: count_list_0_iff)
  have idem: "countdown (ok v) now (countdown (ok v) now r) = countdown (ok v) now r" by (simp add: countdown_def)
  have IH: "\<exists>h' ks. expire_pass ok now timeout es ?h = Some (h', ks) \<and> map fst h' = map fst ?h
      \<and> (\<forall>w. map_of h' w = (if w \<in> set (ready_refs es) then map_option (countdown (ok w) now) (map_of ?h w) else map_of ?h w))
      \<and> ks = concat (map (picked (\<lambda>v. expires (ok v) now timeout (the (map_of ?h v)))) es)"
  proof (cases "ok v")
    case True
    have eq: "r\<lparr>r_idle_since := Some (Some (case s of None \<Rightarrow> now | Some t \<Rightarrow> t))\<rparr> = countdown (ok v) now r"
      using True r(2) by (simp add: countdown_def split: option.splits)
    have "\<not> \<not> ok v" using True by simp
    from "3.IH"(2) [OF r this refl, unfolded eq, OF tr once] show ?thesis .
  next
    case False
    have eq: "r\<lparr>r_idle_since := Some None\<rparr> = countdown (ok v) now r" using False by (simp add: countdown_def)
    from "3.IH"(1) [OF r False, unfolded eq, OF tr once] show ?thesis .
  qed
  then obtain h' ks where h': "expire_pass ok now timeout es ?h = Some (h', ks)" "map fst h' = map fst ?h"
      "\<And>w. map_of h' w = (if w \<in> set (ready_refs es) then map_option (countdown (ok w) now) (map_of ?h w) else map_of ?h w)"
      "ks = concat (map (picked (\<lambda>v. expires (ok v) now timeout (the (map_of ?h v)))) es)" by blast
  have maps: "map_of h' w = (if w \<in> set (ready_refs ((key, EReady v used) # es)) then map_option (countdown (ok w) now) (map_of heap w) else map_of heap w)" for w
    using h'(3) [of w] r(1) idem by (cases "w = v") auto
  have same: "expires (ok w) now timeout (the (map_of ?h w)) = expires (ok w) now timeout (the (map_of heap w))" if "w \<in> set (ready_refs es)" for w
    using that fresh by (cases "w = v") (auto simp: expires_def)
  have "picked (\<lambda>v. expires (ok v) now timeout (the (map_of ?h v))) x
      = picked (\<lambda>v. expires (ok v) now timeout (the (map_of heap v))) x"
    if "x \<in> set es" for x
  proof (cases x rule: entry_refs.cases)
    case (1 k w u)
    then have "w \<in> set (ready_refs es)" using that by (force simp: ready_refs_def)
    with 1 same show ?thesis by simp
  qed simp
  then have ks: "ks = concat (map (picked (\<lambda>v. expires (ok v) now timeout (the (map_of heap v)))) es)"
    unfolding h'(4) by (metis (no_types, lifting) map_cong)
  have ex: "expires (ok v) now timeout r \<longleftrightarrow> ok v \<and> now - (case s of None \<Rightarrow> now | Some t \<Rightarrow> t) \<ge> timeout"
    using r(2) by (auto simp: expires_def split: option.splits)
  show ?case
  proof (cases "ok v")
    case True
    have up: "r\<lparr>r_idle_since := Some (Some (case s of None \<Rightarrow> now | Some t \<Rightarrow> t))\<rparr> = countdown (ok v) now r"
      using True r(2) by (simp add: countdown_def split: option.splits)
    show ?thesis using True r h'(1,2) keys maps ks ex by (simp add: up Let_def)
  next
    case False
    have up: "r\<lparr>r_idle_since := Some None\<rparr> = countdown (ok v) now r" using False by (simp add: countdown_def)
    show ?thesis using False r h'(1,2) keys maps ks ex by (simp add: up)
  qed
qed

lemma heap_bytes_keys: "distinct (map fst h) \<Longrightarrow> heap_bytes h = sum_list (map (\<lambda>v. r_bytes (the (map_of h v))) (map fst h))"
proof -
  assume "distinct (map fst h)"
  then have "r_bytes (snd x) = r_bytes (the (map_of h (fst x)))" if "x \<in> set h" for x
    using that by (cases x) (simp add: map_of_is_SomeI)
  then show ?thesis by (simp add: heap_bytes_def comp_def cong: map_cong)
qed

lemma ready_refs_take:
  assumes "distinct (map fst es)" "distinct (map fst ks)" "\<And>k v. (k, v) \<in> set ks \<Longrightarrow> \<exists>used. map_of es k = Some (EReady v used)"
  shows "mset (ready_refs es) = mset (map snd ks) + mset (ready_refs (fold AList.delete (map fst ks) es))
    \<and> distinct (map fst (fold AList.delete (map fst ks) es))
    \<and> (\<forall>k f. map_of (fold AList.delete (map fst ks) es) k = Some (ELoading f) \<longleftrightarrow> map_of es k = Some (ELoading f))"
  using assms
proof (induction ks arbitrary: es)
  case (Cons x ks)
  obtain k v where x: "x = (k, v)" by force
  obtain used where e: "map_of es k = Some (EReady v used)" using Cons.prems(3) x by auto
  have "\<exists>used. map_of (AList.delete k es) k' = Some (EReady v' used)" if "(k', v') \<in> set ks" for k' v'
  proof -
    have "k' \<noteq> k" using Cons.prems(2) x that by force
    with Cons.prems(3) [of k' v'] that show ?thesis by simp
  qed
  with Cons.IH [of "AList.delete k es"] Cons.prems(1,2)
  have "mset (ready_refs (AList.delete k es)) = mset (map snd ks) + mset (ready_refs (fold AList.delete (map fst ks) (AList.delete k es)))"
      "distinct (map fst (fold AList.delete (map fst ks) (AList.delete k es)))"
      "\<And>k' f. map_of (fold AList.delete (map fst ks) (AList.delete k es)) k' = Some (ELoading f) \<longleftrightarrow> map_of (AList.delete k es) k' = Some (ELoading f)"
    by auto
  with ready_refs_delete [OF Cons.prems(1) e] x e show ?case by auto
qed simp

lemma distinct_filtered:
  "distinct (map fst es) \<Longrightarrow> distinct (map fst (concat (map (picked P) es)))"
proof (induction es)
  case (Cons x es)
  have sub: "fst ` set (concat (map (picked P) es)) \<subseteq> fst ` set es"
    by (force simp: picked_iff)
  show ?case
  proof (cases x rule: entry_refs.cases)
    case (1 k v used)
    then have "k \<notin> fst ` set (concat (map (picked P) es))"
      using Cons.prems sub by auto
    with 1 Cons show ?thesis by (auto simp del: set_concat)
  qed (use Cons in simp)
qed simp

lemma ready_tracked:
  assumes "res_inv rg" "rg_timeout rg = Some timeout" "v \<in> set (ready_refs (rg_entries rg))"
  obtains r where "map_of (rg_heap rg) v = Some r" "r_idle_since r \<noteq> None"
proof -
  have "v \<in> set (refs rg)" using assms(3) by (simp add: refs_def)
  then obtain r where r: "map_of (rg_heap rg) v = Some r" using alive_okD [of rg v] assms(1) by (auto simp: res_inv_def)
  with res_invD(5) [OF assms(1)] assms(2) that show thesis by (auto simp: resources_ok_def)
qed

lemma evictable_once:
  assumes "is_evictable idle rg v"
  shows "count_list (ready_refs (rg_entries rg)) v \<le> 1"
  using assms by (auto simp: is_evictable_def strong_count_def refs_def split: option.splits)

text \<open>The expired entries of a sweep.\<close>

definition expired_entries :: "('v \<Rightarrow> bool) \<Rightarrow> nat \<Rightarrow> nat \<Rightarrow> 'v registry \<Rightarrow> (string \<times> owner_id) list" where
  "expired_entries idle now timeout rg = concat (map (picked (\<lambda>v. expires (is_evictable idle rg v) now timeout (the (map_of (rg_heap rg) v)))) (rg_entries rg))"

lemma collect_expired_spec:
  assumes "res_inv rg" "rg_timeout rg = Some timeout"
  obtains h' where "collect_expired idle now rg = Some
      (rg\<lparr>rg_heap := h', rg_entries := fold AList.delete (map fst (expired_entries idle now timeout rg)) (rg_entries rg),
          rg_evictions := rg_evictions rg + length (expired_entries idle now timeout rg),
          rg_holds := map snd (expired_entries idle now timeout rg) @ rg_holds rg\<rparr>, map snd (expired_entries idle now timeout rg))"
    "map fst h' = map fst (rg_heap rg)"
    "\<And>v. map_of h' v = (if v \<in> set (ready_refs (rg_entries rg))
        then map_option (countdown (is_evictable idle rg v) now) (map_of (rg_heap rg) v) else map_of (rg_heap rg) v)"
proof -
  have tracked: "\<forall>v\<in>set (ready_refs (rg_entries rg)). \<exists>r. map_of (rg_heap rg) v = Some r \<and> r_idle_since r \<noteq> None"
    using ready_tracked [OF assms] by blast
  have once: "count_list (ready_refs (rg_entries rg)) v \<le> 1" if "is_evictable idle rg v" for v using that by (rule evictable_once)
  from expire_pass_spec [where ok = "is_evictable idle rg" and now = now and timeout = timeout, OF tracked once]
  obtain h' where h': "expire_pass (is_evictable idle rg) now timeout (rg_entries rg) (rg_heap rg) = Some (h', expired_entries idle now timeout rg)"
      "map fst h' = map fst (rg_heap rg)"
      "\<And>v. map_of h' v = (if v \<in> set (ready_refs (rg_entries rg))
        then map_option (countdown (is_evictable idle rg v) now) (map_of (rg_heap rg) v) else map_of (rg_heap rg) v)"
    unfolding expired_entries_def by auto
  show thesis
  proof (rule that [OF _ h'(2,3)])
    show "collect_expired idle now rg = Some
      (rg\<lparr>rg_heap := h', rg_entries := fold AList.delete (map fst (expired_entries idle now timeout rg)) (rg_entries rg),
          rg_evictions := rg_evictions rg + length (expired_entries idle now timeout rg),
          rg_holds := map snd (expired_entries idle now timeout rg) @ rg_holds rg\<rparr>, map snd (expired_entries idle now timeout rg))"
      using assms(2) h'(1) by (simp add: collect_expired_def)
  qed
qed

lemma expired_entry:
  assumes "(k, v) \<in> set (expired_entries idle now timeout rg)" "distinct (map fst (rg_entries rg))"
  shows "(\<exists>used. map_of (rg_entries rg) k = Some (EReady v used)) \<and> expires (is_evictable idle rg v) now timeout (the (map_of (rg_heap rg) v))"
  using assms by (auto simp: expired_entries_def picked_iff)

lemma res_inv_sweep:
  assumes "res_inv rg" "collect_expired idle now rg = Some (rg', victims)"
  shows "res_inv rg'"
proof (cases "rg_timeout rg")
  case None
  with assms show ?thesis by (simp add: collect_expired_def)
next
  case (Some timeout)
  note inv = res_invD [OF assms(1)]
  define ks where "ks = expired_entries idle now timeout rg"
  obtain h' where h': "rg' = rg\<lparr>rg_heap := h', rg_entries := fold AList.delete (map fst ks) (rg_entries rg),
        rg_evictions := rg_evictions rg + length ks, rg_holds := map snd ks @ rg_holds rg\<rparr>"
      "map fst h' = map fst (rg_heap rg)"
      "\<And>v. map_of h' v = (if v \<in> set (ready_refs (rg_entries rg))
        then map_option (countdown (is_evictable idle rg v) now) (map_of (rg_heap rg) v) else map_of (rg_heap rg) v)"
  proof -
    from collect_expired_spec [OF assms(1) Some, of idle now] obtain h' where h: "collect_expired idle now rg = Some
        (rg\<lparr>rg_heap := h', rg_entries := fold AList.delete (map fst ks) (rg_entries rg),
          rg_evictions := rg_evictions rg + length ks, rg_holds := map snd ks @ rg_holds rg\<rparr>, map snd ks)"
        "map fst h' = map fst (rg_heap rg)"
        "\<And>v. map_of h' v = (if v \<in> set (ready_refs (rg_entries rg))
          then map_option (countdown (is_evictable idle rg v) now) (map_of (rg_heap rg) v) else map_of (rg_heap rg) v)"
      unfolding ks_def by blast
    show thesis by (rule that [OF _ h(2,3)]) (use assms(2) h(1) in auto)
  qed
  have d: "distinct (map fst ks)" unfolding ks_def expired_entries_def using inv(1) by (rule distinct_filtered)
  have take: "mset (ready_refs (rg_entries rg)) = mset (map snd ks) + mset (ready_refs (rg_entries rg'))"
      "distinct (map fst (rg_entries rg'))"
      "\<And>k f. map_of (rg_entries rg') k = Some (ELoading f) \<longleftrightarrow> map_of (rg_entries rg) k = Some (ELoading f)"
  proof -
    have e: "rg_entries rg' = fold AList.delete (map fst ks) (rg_entries rg)" by (simp add: h'(1))
    have "\<exists>used. map_of (rg_entries rg) k = Some (EReady v used)" if "(k, v) \<in> set ks" for k v
      using expired_entry [OF _ inv(1)] that unfolding ks_def by blast
    from ready_refs_take [OF inv(1) d this]
    show "mset (ready_refs (rg_entries rg)) = mset (map snd ks) + mset (ready_refs (rg_entries rg'))"
      "distinct (map fst (rg_entries rg'))"
      "\<And>k f. map_of (rg_entries rg') k = Some (ELoading f) \<longleftrightarrow> map_of (rg_entries rg) k = Some (ELoading f)"
      unfolding e by blast+
  qed
  have "mset (refs rg') = mset (refs rg)" using take(1) unfolding refs_def h'(1) by simp
  then have refs: "set (refs rg') = set (refs rg)" by (metis set_mset_mset)
  have keys: "map fst (rg_heap rg') = map fst (rg_heap rg)" using h'(1,2) by simp
  have "r_bytes (the (map_of h' v)) = r_bytes (the (map_of (rg_heap rg) v))" if "v \<in> fst ` set (rg_heap rg)" for v
    using flight_known [OF that] h'(3) [of v] by (auto simp: countdown_def)
  then have "map (\<lambda>v. r_bytes (the (map_of h' v))) (map fst (rg_heap rg)) = map (\<lambda>v. r_bytes (the (map_of (rg_heap rg) v))) (map fst (rg_heap rg))"
    by (intro map_cong) auto
  then have "heap_bytes h' = heap_bytes (rg_heap rg)"
    using heap_bytes_keys [OF inv(2)] heap_bytes_keys [of h', unfolded h'(2), OF inv(2)] by (simp only:)
  then have "bytes_ok rg'" using inv(4) unfolding h'(1) by (simp add: bytes_ok_def)
  moreover have "resources_ok rg'"
    using inv(5) h'(3) unfolding h'(1) resources_ok_def by (auto simp: countdown_def split: if_splits)
  moreover have "flights_ok rg'"
  proof -
    have "elected rg' = elected rg" "rg_flights rg' = rg_flights rg" "rg_waiting rg' = rg_waiting rg" "rg_leaving rg' = rg_leaving rg"
      by (simp_all add: h'(1) elected_def)
    with wf_entries [OF inv(6) [unfolded flights_ok_def] take(3)] show ?thesis by (simp add: flights_ok_def)
  qed
  moreover have "keys_ok rg'" using inv(2,3) take(2) keys unfolding h'(1) by (simp add: keys_ok_def)
  moreover have "fst ` set (rg_heap rg') = fst ` set (rg_heap rg)" using arg_cong [OF keys, of set] by simp
  ultimately show ?thesis using inv(8) refs by (simp add: res_inv_def alive_ok_def)
qed

lemma res_inv_step: "res_step rg rg' \<Longrightarrow> res_inv rg \<Longrightarrow> res_inv rg'"
proof (induction rule: res_step.induct)
  case (enter idle key peak rg rg' turn)
  then show ?case by (blast intro: res_inv_enter)
next
  case (taken f rg rg' r)
  then show ?case by (blast intro: res_inv_take)
next
  case (leased v rg ty rg' r)
  then show ?case by (blast intro: res_inv_lease)
qed (blast intro: res_inv_return res_inv_publish res_inv_load_exit res_inv_clone res_inv_drop_hold res_inv_pin
    res_inv_pin_drop res_inv_evict res_inv_sweep res_inv_budget_reserve res_inv_charge_drop)+

lemma res_inv_create: "create budget timeout = Inr rg \<Longrightarrow> budget \<le> usize_MAX \<Longrightarrow> res_inv rg"
  by (auto simp: create_def res_inv_def keys_ok_def bytes_ok_def usage_ok_def heap_bytes_def loader_bytes_def resources_ok_def
      alive_ok_def refs_def ready_refs_def result_refs_def flights_ok_def elected_def split: if_splits)

lemma res_reach_inv: "res_reach rg \<Longrightarrow> res_inv rg"
proof -
  assume "res_reach rg"
  then obtain budget timeout rg0 where "create budget timeout = Inr rg0" "budget \<le> usize_MAX" "res_step\<^sup>*\<^sup>* rg0 rg"
    by (auto simp: res_reach_def)
  from this(3) res_inv_create [OF this(1,2)] show ?thesis
    by (induction rule: rtranclp_induct) (auto intro: res_inv_step)
qed


section \<open>A concrete history\<close>

text \<open>
  One model of 40 bytes: elected with a peak of 60, joined by a second request while it loads, published, taken by
  both, dropped by both, then swept at time 10.
\<close>

definition demo_idle :: "nat \<Rightarrow> bool" where
  "demo_idle v \<longleftrightarrow> v = 7"

definition demo0 :: "nat registry" where
  "demo0 = \<lparr>rg_usage = \<lparr>us_limit = 100, us_bytes = 0\<rparr>, rg_entries = [], rg_clock = 0, rg_evictions = 0,
     rg_timeout = Some 5, rg_heap = [], rg_flights = [], rg_holds = [], rg_pins = [], rg_loaders = [],
     rg_loaded = [], rg_waiting = [], rg_leaving = [], rg_charges = []\<rparr>"

definition demo_loading :: "nat registry" where
  "demo_loading = demo0\<lparr>rg_usage := \<lparr>us_limit = 100, us_bytes = 60\<rparr>, rg_entries := [(''m'', ELoading 1)], rg_clock := 2,
     rg_flights := [(1, \<lparr>fl_result = None, fl_refs = 2\<rparr>)], rg_loaders := [(1, ''m'', 60)], rg_waiting := [1]\<rparr>"

definition demo_loaded :: "nat registry" where
  "demo_loaded = load_return 1 False 1 ''m'' 60 (Some (Inr (7, 40))) demo_loading"

definition demo_leased :: "nat registry" where
  "demo_leased = load_exit 1 (fst (the (flight_take 1 (load_publish 1 ''m'' (Inr 1) demo_loaded))))"

definition demo_idling :: "nat registry" where
  "demo_idling = fst (the (collect_expired demo_idle 10 (drop_hold 1 (drop_hold 1 demo_leased))))"

lemma demo_states:
  "demo_loaded = demo_loading\<lparr>rg_usage := \<lparr>us_limit = 100, us_bytes = 40\<rparr>, rg_loaders := [],
     rg_heap := [(1, \<lparr>r_value = 7, r_type = 1, r_bytes = 40, r_pins = 0, r_idle_since = Some None\<rparr>)],
     rg_loaded := [(1, ''m'', Inr 1)]\<rparr>"
  "flight_take 1 (load_publish 1 ''m'' (Inr 1) demo_loaded) = Some (demo0\<lparr>rg_usage := \<lparr>us_limit = 100, us_bytes = 40\<rparr>, rg_clock := 2,
     rg_heap := [(1, \<lparr>r_value = 7, r_type = 1, r_bytes = 40, r_pins = 0, r_idle_since = Some None\<rparr>)],
     rg_entries := [(''m'', EReady 1 2)], rg_flights := [(1, \<lparr>fl_result = Some (Inr 1), fl_refs = 1\<rparr>)],
     rg_leaving := [1], rg_holds := [1, 1]\<rparr>, Inr 1)"
  "demo_leased = demo0\<lparr>rg_usage := \<lparr>us_limit = 100, us_bytes = 40\<rparr>, rg_clock := 2,
     rg_heap := [(1, \<lparr>r_value = 7, r_type = 1, r_bytes = 40, r_pins = 0, r_idle_since = Some None\<rparr>)],
     rg_entries := [(''m'', EReady 1 2)], rg_holds := [1, 1]\<rparr>"
proof -
  show 1: "demo_loaded = demo_loading\<lparr>rg_usage := \<lparr>us_limit = 100, us_bytes = 40\<rparr>, rg_loaders := [],
     rg_heap := [(1, \<lparr>r_value = 7, r_type = 1, r_bytes = 40, r_pins = 0, r_idle_since = Some None\<rparr>)],
     rg_loaded := [(1, ''m'', Inr 1)]\<rparr>"
    by (simp add: demo_loaded_def demo_loading_def demo0_def load_return_def load_accepts_def reservation_shrink_def
        usage_release_def fresh_id_def)
  show 2: "flight_take 1 (load_publish 1 ''m'' (Inr 1) demo_loaded) = Some (demo0\<lparr>rg_usage := \<lparr>us_limit = 100, us_bytes = 40\<rparr>, rg_clock := 2,
     rg_heap := [(1, \<lparr>r_value = 7, r_type = 1, r_bytes = 40, r_pins = 0, r_idle_since = Some None\<rparr>)],
     rg_entries := [(''m'', EReady 1 2)], rg_flights := [(1, \<lparr>fl_result = Some (Inr 1), fl_refs = 1\<rparr>)],
     rg_leaving := [1], rg_holds := [1, 1]\<rparr>, Inr 1)"
    by (simp add: 1 demo_loading_def demo0_def flight_take_def load_publish_def flight_publish_def flight_exit_def flight_leave_def
        reap_def strong_count_def refs_def ready_refs_def result_refs_def)
  show "demo_leased = demo0\<lparr>rg_usage := \<lparr>us_limit = 100, us_bytes = 40\<rparr>, rg_clock := 2,
     rg_heap := [(1, \<lparr>r_value = 7, r_type = 1, r_bytes = 40, r_pins = 0, r_idle_since = Some None\<rparr>)],
     rg_entries := [(''m'', EReady 1 2)], rg_holds := [1, 1]\<rparr>"
    unfolding demo_leased_def 2
    by (simp add: demo0_def load_exit_def flight_exit_def flight_leave_def
        reap_def strong_count_def refs_def ready_refs_def result_refs_def)
qed

lemma demo_dropped:
  "drop_hold 1 (drop_hold 1 demo_leased) = demo_leased\<lparr>rg_holds := []\<rparr>"
  by (simp add: demo_states(3) demo0_def drop_hold_def reap_def strong_count_def refs_def ready_refs_def result_refs_def)

lemma demo_swept:
  "collect_expired demo_idle 10 (demo_leased\<lparr>rg_holds := []\<rparr>) = Some (demo_idling, [])"
  "demo_idling = demo0\<lparr>rg_usage := \<lparr>us_limit = 100, us_bytes = 40\<rparr>, rg_clock := 2,
     rg_heap := [(1, \<lparr>r_value = 7, r_type = 1, r_bytes = 40, r_pins = 0, r_idle_since = Some (Some 10)\<rparr>)],
     rg_entries := [(''m'', EReady 1 2)]\<rparr>"
  unfolding demo_idling_def demo_dropped
  by (simp_all add: demo_states(3) demo0_def collect_expired_def is_evictable_def demo_idle_def
      strong_count_def refs_def ready_refs_def result_refs_def)

lemma demo_reach:
  "res_reach demo_loading" "res_reach demo_loaded" "res_reach demo_idling"
proof -
  have c: "create 100 (Some 5) = Inr demo0" by (simp add: create_def demo0_def)
  obtain rg where e: "load_enter demo_idle ''m'' 60 demo0 = (rg, Elected 1)" "load_enter demo_idle ''m'' 60 rg = (demo_loading, Joined 1)"
    by (simp add: load_enter_def demo0_def demo_loading_def usage_reserve_def checked_add_def saturating_add_def
        usize_MAX_def fresh_id_def flight_join_def)
  have 1: "res_step\<^sup>*\<^sup>* demo0 demo_loading"
    using res_step.enter [OF e(1)] res_step.enter [OF e(2)] by (meson rtranclp.simps)
  then show "res_reach demo_loading" using c unfolding res_reach_def by (force simp: usize_MAX_def)
  have "(1, ''m'', 60) \<in> set (rg_loaders demo_loading)" by (simp add: demo_loading_def)
  from 1 res_step.returned [OF this, of 1 False "Some (Inr (7, 40))"]
  have 2: "res_step\<^sup>*\<^sup>* demo0 demo_loaded" unfolding demo_loaded_def by (rule rtranclp.rtrancl_into_rtrancl)
  then show "res_reach demo_loaded" using c unfolding res_reach_def by (force simp: usize_MAX_def)
  let ?p = "load_publish 1 ''m'' (Inr 1) demo_loaded"
  have "(1, ''m'', Inr 1) \<in> set (rg_loaded demo_loaded)" by (simp add: demo_states(1))
  from 2 res_step.published [OF this] have 3: "res_step\<^sup>*\<^sup>* demo0 ?p" by (rule rtranclp.rtrancl_into_rtrancl)
  have "1 \<in> set (rg_waiting ?p)" by (simp add: load_publish_def demo_states(1) demo_loading_def)
  from 3 res_step.taken [OF this demo_states(2)] have 4: "res_step\<^sup>*\<^sup>* demo0 (fst (the (flight_take 1 ?p)))"
    unfolding demo_states(2) option.sel fst_conv by (rule rtranclp.rtrancl_into_rtrancl)
  have "1 \<in> set (rg_leaving (fst (the (flight_take 1 ?p))))" unfolding demo_states(2) by simp
  from 4 res_step.exit [OF this] have 5: "res_step\<^sup>*\<^sup>* demo0 demo_leased"
    unfolding demo_leased_def by (rule rtranclp.rtrancl_into_rtrancl)
  have h: "1 \<in> set (rg_holds demo_leased)" "1 \<in> set (rg_holds (drop_hold 1 demo_leased))"
    by (simp_all add: demo_states(3) demo0_def drop_hold_def reap_def strong_count_def refs_def ready_refs_def)
  from 5 res_step.dropped [OF h(1)] have "res_step\<^sup>*\<^sup>* demo0 (drop_hold 1 demo_leased)" by (rule rtranclp.rtrancl_into_rtrancl)
  from this res_step.dropped [OF h(2)] have 6: "res_step\<^sup>*\<^sup>* demo0 (demo_leased\<lparr>rg_holds := []\<rparr>)"
    unfolding demo_dropped by (rule rtranclp.rtrancl_into_rtrancl)
  from this res_step.swept [OF demo_swept(1)] have "res_step\<^sup>*\<^sup>* demo0 demo_idling" by (rule rtranclp.rtrancl_into_rtrancl)
  then show "res_reach demo_idling" using c unfolding res_reach_def by (force simp: usize_MAX_def)
qed


section \<open>Properties\<close>

text \<open>
  C29: the byte ceiling holds and nothing leaks. In every reachable state of a residency
  manager, whatever requests, loaders (failing or panicking ones included), leases, pins, evictions, sweeps and
  budgeted allocations happened: the reserved bytes are exactly those of the live resources, of the
  running loaders' peak reservations and of the outstanding allocation charges, and they never
  exceed the budget.
\<close>

theorem residency_budget:
  assumes "res_reach rg"
  shows "rs_reserved (statistics rg) = sum_list (map (\<lambda>x. r_bytes (snd x)) (rg_heap rg))
      + sum_list (map (\<lambda>x. snd (snd x)) (rg_loaders rg)) + sum_list (rg_charges rg)
    \<and> rs_reserved (statistics rg) \<le> rs_budget (statistics rg)"
proof -
  have "bytes_ok rg" using res_reach_inv [OF assms] by (simp add: res_inv_def)
  then show ?thesis by (simp add: bytes_ok_def statistics_def heap_bytes_def loader_bytes_def)
qed

theorem residency_budget_witness: "rs_reserved (statistics demo_loading) = 60 \<and> rs_reserved (statistics demo_loading) \<le> 100"
  using residency_budget [OF demo_reach(1)] by (simp add: demo_loading_def demo0_def statistics_def)

text \<open>
  C30: eviction is safe and follows use. In every reachable state every resource that a lease, pin or other
  owner holds is alive. A resource chosen for capacity is idle and unpinned, no lease,
  pin, waiter or published flight refers to it, and no other evictable entry was used earlier.
\<close>

theorem eviction_safe:
  assumes "res_reach rg"
  shows "(\<forall>v\<in>set (rg_holds rg) \<union> set (rg_pins rg). \<exists>r. map_of (rg_heap rg) v = Some r)
    \<and> (\<forall>idle rg' v. evict_idle idle rg = Some (rg', v) \<longrightarrow>
         v \<notin> set (rg_holds rg) \<and> v \<notin> set (rg_pins rg) \<and> v \<notin> set (result_refs (rg_flights rg))
       \<and> (\<exists>r. map_of (rg_heap rg) v = Some r \<and> r_pins r = 0 \<and> idle (r_value r))
       \<and> (\<exists>key used. map_of (rg_entries rg) key = Some (EReady v used) \<and> map_of (rg_entries rg') key = None
            \<and> (\<forall>k' v' used'. map_of (rg_entries rg) k' = Some (EReady v' used') \<and> is_evictable idle rg v' \<longrightarrow> used \<le> used')))"
proof (intro conjI ballI allI impI)
  have inv: "res_inv rg" using assms by (rule res_reach_inv)
  show "\<exists>r. map_of (rg_heap rg) v = Some r" if "v \<in> set (rg_holds rg) \<union> set (rg_pins rg)" for v
    using that inv hold_ref [of v rg] alive_okD [of rg v] by (auto simp: res_inv_def)
  fix idle rg' v assume ev: "evict_idle idle rg = Some (rg', v)"
  obtain key used where e: "map_of (rg_entries rg) key = Some (EReady v used)" "is_evictable idle rg v"
      "rg' = rg\<lparr>rg_entries := AList.delete key (rg_entries rg), rg_evictions := rg_evictions rg + 1, rg_holds := v # rg_holds rg\<rparr>"
      "\<And>k' v' used'. map_of (rg_entries rg) k' = Some (EReady v' used') \<Longrightarrow> is_evictable idle rg v' \<Longrightarrow> used \<le> used'"
    using evict_idle_Some [OF ev res_invD(1) [OF inv]] by metis
  have "v \<in> set (ready_refs (rg_entries rg))" using map_of_SomeD [OF e(1)] by (force simp: ready_refs_def)
  then have "0 < count_list (ready_refs (rg_entries rg)) v" using count_list_0_iff [of "ready_refs (rg_entries rg)" v] by auto
  moreover have "strong_count rg v = 1" using e(2) by (auto simp: is_evictable_def split: option.splits)
  ultimately have "count_list (result_refs (rg_flights rg)) v = 0" "count_list (rg_holds rg) v = 0" "count_list (rg_pins rg) v = 0"
    by (auto simp: strong_count_def refs_def)
  then show "v \<notin> set (rg_holds rg)" "v \<notin> set (rg_pins rg)" "v \<notin> set (result_refs (rg_flights rg))"
    by (simp_all add: count_list_0_iff)
  show "\<exists>r. map_of (rg_heap rg) v = Some r \<and> r_pins r = 0 \<and> idle (r_value r)"
    using e(2) by (auto simp: is_evictable_def split: option.splits)
  show "\<exists>key used. map_of (rg_entries rg) key = Some (EReady v used) \<and> map_of (rg_entries rg') key = None
      \<and> (\<forall>k' v' used'. map_of (rg_entries rg) k' = Some (EReady v' used') \<and> is_evictable idle rg v' \<longrightarrow> used \<le> used')"
    using e by (auto intro!: exI [of _ key] exI [of _ used])
qed

theorem eviction_safe_witness:
  "\<exists>rg'. evict_idle demo_idle demo_idling = Some (rg', 1) \<and> 1 \<notin> set (rg_holds demo_idling) \<and> map_of (rg_entries rg') ''m'' = None"
proof -
  let ?rg = "demo_idling\<lparr>rg_entries := [], rg_evictions := 1, rg_holds := [1]\<rparr>"
  have ev: "evict_idle demo_idle demo_idling = Some (?rg, 1)"
    by (simp add: evict_idle_def demo_swept(2) demo0_def lru_victim_def is_evictable_def demo_idle_def strong_count_def refs_def
        ready_refs_def result_refs_def)
  from eviction_safe [OF demo_reach(3), THEN conjunct2, rule_format, OF ev] have "1 \<notin> set (rg_holds demo_idling)" by blast
  with ev show ?thesis by simp
qed

text \<open>
  C31: loads are shared and never strand a waiter. In every reachable state at most one request is elected
  for a key and no ready entry exists beside it; a waiting request either finds its flight's
  result published or an elected request still owns the flight; and when that one publishes, every waiter
  obtains exactly its outcome, while a failed load leaves no entry, so that the next request is elected again.
\<close>

theorem single_flight:
  assumes "res_reach rg"
  shows "distinct (map snd (elected rg))
    \<and> (\<forall>f key. (f, key) \<in> set (elected rg) \<longrightarrow> map_of (rg_entries rg) key = Some (ELoading f))
    \<and> (\<forall>f\<in>set (rg_waiting rg). flight_take f rg \<noteq> None \<or> (\<exists>key. (f, key) \<in> set (elected rg)))
    \<and> (\<forall>f key r. (f, key, r) \<in> set (rg_loaded rg) \<longrightarrow>
         (\<forall>w\<in>set (rg_waiting rg). w = f \<longrightarrow> (\<exists>rg'. flight_take w (load_publish f key r rg)
             = Some (rg', case r of Inr v \<Rightarrow> Inr v | Inl e \<Rightarrow> Inl (Execution e))))
       \<and> map_of (rg_entries (load_publish f key r rg)) key = (case r of Inr v \<Rightarrow> Some (EReady v (rg_clock rg)) | Inl _ \<Rightarrow> None))"
proof (intro conjI ballI allI impI)
  have inv: "res_inv rg" using assms by (rule res_reach_inv)
  note fok = res_invD(6) [OF inv, unfolded flights_ok_def]
  show "distinct (map snd (elected rg))" using fok by (rule wf_elected_keys)
  show "map_of (rg_entries rg) key = Some (ELoading f)" if "(f, key) \<in> set (elected rg)" for f key
    using flights_wfD(2) [OF fok] that by blast
  show "flight_take f rg \<noteq> None \<or> (\<exists>key. (f, key) \<in> set (elected rg))" if w: "f \<in> set (rg_waiting rg)" for f
  proof (cases "f \<in> fst ` set (elected rg)")
    case False
    obtain fl where fl: "map_of (rg_flights rg) f = Some fl" using wf_party_flight [OF fok disjI2 [OF w]] .
    from False flights_wfD(4) [OF fok fl] obtain r where "fl_result fl = Some r" by auto
    with fl show ?thesis by (cases r) (simp_all add: flight_take_def)
  qed auto
  fix f key r assume l: "(f, key, r) \<in> set (rg_loaded rg)"
  then have "(f, key) \<in> set (elected rg)" by (force simp: elected_def)
  then obtain fl where fl: "map_of (rg_flights rg) f = Some fl" "fl_result fl = None" using wf_elected_flight [OF fok] by blast
  note pub = flight_publish_spec [OF res_invD(3) [OF inv] fl]
  show "\<exists>rg'. flight_take w (load_publish f key r rg) = Some (rg', case r of Inr v \<Rightarrow> Inr v | Inl e \<Rightarrow> Inl (Execution e))"
    if "w = f" for w
    unfolding that by (cases r) (simp_all add: flight_take_def load_publish_def pub(1))
  show "map_of (rg_entries (load_publish f key r rg)) key = (case r of Inr v \<Rightarrow> Some (EReady v (rg_clock rg)) | Inl _ \<Rightarrow> None)"
    by (simp add: load_publish_def split: sum.splits)
qed

theorem single_flight_witness:
  "\<exists>rg'. flight_take 1 (load_publish 1 ''m'' (Inr 1) demo_loaded) = Some (rg', Inr 1)"
proof -
  have "(1, ''m'', Inr 1) \<in> set (rg_loaded demo_loaded)" "1 \<in> set (rg_waiting demo_loaded)"
    by (simp_all add: demo_states(1) demo_loading_def)
  with single_flight [OF demo_reach(2)] show ?thesis by fastforce
qed

text \<open>
  The idle sweep is exact. In every reachable state of a manager with a positive idle timeout the sweep
  never fails its expectation; the resources it unloads are exactly the ready ones that
  may be evicted and whose countdown started at least the timeout ago; of the others, those in use
  lose their countdown and idle ones keep theirs or start it now.
\<close>

lemma sweep_exact:
  assumes "res_reach rg" "rg_timeout rg = Some timeout" "0 < timeout"
  shows "\<exists>rg' victims. collect_expired idle now rg = Some (rg', victims)
    \<and> set victims = {v. \<exists>key used r t. map_of (rg_entries rg) key = Some (EReady v used) \<and> is_evictable idle rg v
         \<and> map_of (rg_heap rg) v = Some r \<and> r_idle_since r = Some (Some t) \<and> t + timeout \<le> now}
    \<and> (\<forall>key v used r. map_of (rg_entries rg) key = Some (EReady v used) \<and> map_of (rg_heap rg) v = Some r \<longrightarrow>
         map_of (rg_heap rg') v = Some (r\<lparr>r_idle_since := Some (if is_evictable idle rg v
            then Some (case r_idle_since r of Some (Some t) \<Rightarrow> t | _ \<Rightarrow> now) else None)\<rparr>))"
proof -
  have inv: "res_inv rg" using assms(1) by (rule res_reach_inv)
  let ?ks = "expired_entries idle now timeout rg"
  from collect_expired_spec [OF inv assms(2), of idle now] obtain h' where h':
      "collect_expired idle now rg = Some (rg\<lparr>rg_heap := h', rg_entries := fold AList.delete (map fst ?ks) (rg_entries rg),
          rg_evictions := rg_evictions rg + length ?ks, rg_holds := map snd ?ks @ rg_holds rg\<rparr>, map snd ?ks)"
      "\<And>v. map_of h' v = (if v \<in> set (ready_refs (rg_entries rg))
        then map_option (countdown (is_evictable idle rg v) now) (map_of (rg_heap rg) v) else map_of (rg_heap rg) v)" by metis
  have ready: "v \<in> set (ready_refs (rg_entries rg))" if "map_of (rg_entries rg) key = Some (EReady v used)" for key v used
    using map_of_SomeD [OF that] by (force simp: ready_refs_def)
  have ex: "expires ok now timeout r \<longleftrightarrow> ok \<and> (\<exists>t. r_idle_since r = Some (Some t) \<and> t + timeout \<le> now)" for ok and r :: "'a resource"
    using assms(3) by (auto simp: expires_def split: option.splits)
  have "v \<in> snd ` set ?ks \<longleftrightarrow> (\<exists>key used r t. map_of (rg_entries rg) key = Some (EReady v used) \<and> is_evictable idle rg v
         \<and> map_of (rg_heap rg) v = Some r \<and> r_idle_since r = Some (Some t) \<and> t + timeout \<le> now)" for v
  proof
    assume "v \<in> snd ` set ?ks"
    then obtain k where "(k, v) \<in> set ?ks" by force
    from expired_entry [OF this res_invD(1) [OF inv]] obtain used where
        u: "map_of (rg_entries rg) k = Some (EReady v used)" "expires (is_evictable idle rg v) now timeout (the (map_of (rg_heap rg) v))" by blast
    obtain r where r: "map_of (rg_heap rg) v = Some r" using ready_tracked [OF inv assms(2) ready [OF u(1)]] by blast
    with u ex show "\<exists>key used r t. map_of (rg_entries rg) key = Some (EReady v used) \<and> is_evictable idle rg v
         \<and> map_of (rg_heap rg) v = Some r \<and> r_idle_since r = Some (Some t) \<and> t + timeout \<le> now" by auto
  next
    assume "\<exists>key used r t. map_of (rg_entries rg) key = Some (EReady v used) \<and> is_evictable idle rg v
         \<and> map_of (rg_heap rg) v = Some r \<and> r_idle_since r = Some (Some t) \<and> t + timeout \<le> now"
    then obtain key used r t where k: "map_of (rg_entries rg) key = Some (EReady v used)" "is_evictable idle rg v"
        "map_of (rg_heap rg) v = Some r" "r_idle_since r = Some (Some t)" "t + timeout \<le> now" by blast
    have "expires (is_evictable idle rg v) now timeout (the (map_of (rg_heap rg) v))" using k by (simp add: ex)
    with map_of_SomeD [OF k(1)] have "(key, v) \<in> set ?ks" by (force simp: expired_entries_def picked_iff)
    then show "v \<in> snd ` set ?ks" by force
  qed
  then have "set (map snd ?ks) = {v. \<exists>key used r t. map_of (rg_entries rg) key = Some (EReady v used) \<and> is_evictable idle rg v
         \<and> map_of (rg_heap rg) v = Some r \<and> r_idle_since r = Some (Some t) \<and> t + timeout \<le> now}"
    unfolding set_map by blast
  moreover have "map_of h' v = Some (r\<lparr>r_idle_since := Some (if is_evictable idle rg v
            then Some (case r_idle_since r of Some (Some t) \<Rightarrow> t | _ \<Rightarrow> now) else None)\<rparr>)"
    if "map_of (rg_entries rg) key = Some (EReady v used)" "map_of (rg_heap rg) v = Some r" for key v used r
    using h'(2) [of v] ready [OF that(1)] that(2) by (simp add: countdown_def)
  ultimately show ?thesis using h'(1) by auto
qed

end
