(* ===== verification/Buffer_Pool.thy ===== *)
theory Buffer_Pool
  imports Bounded_Ledger "HOL-Library.Multiset"
begin

text \<open>
  Automatic reuse of temporary device buffers on one ordered stream, \<^verbatim>\<open>src/src/buffer_pool.rs\<close>.
  The retained blocks are a \<open>BTreeMap\<close> from sizes to stacks of buffers, here a list ascending in
  the size. The native allocation of \<open>Stream::allocate\<close> is an argument of \<open>acquire\<close>, consulted
  only when nothing can be reused. Buffers out on lease are recorded beside the pool, so that
  exclusive ownership can be stated.
\<close>


section \<open>State\<close>

record pbuffer =
  pb_id :: nat
  pb_bytes :: usize

type_synonym blocks = "(usize \<times> pbuffer list) list"

record free_list =
  fp_cached :: usize
  fp_blocks :: blocks
  fp_stream :: "nat option"

record buffer_pool =
  bp_limit :: usize
  bp_free :: free_list
  bp_leased :: "pbuffer list"

definition DEFAULT_LIMIT :: usize where
  "DEFAULT_LIMIT = 512 * 2 ^ 20"

definition with_limit :: "usize \<Rightarrow> buffer_pool" where
  "with_limit limit = \<lparr>bp_limit = limit, bp_free = \<lparr>fp_cached = 0, fp_blocks = [], fp_stream = None\<rparr>, bp_leased = []\<rparr>"

definition pool_default :: buffer_pool where
  "pool_default = with_limit DEFAULT_LIMIT"


section \<open>Operations\<close>

definition cached_bytes :: "buffer_pool \<Rightarrow> usize" where
  "cached_bytes p = fp_cached (bp_free p)"

text \<open>The retained bytes are a counter below the limit: retaining charges it, reuse gives back.\<close>

definition charge_cached :: "usize \<Rightarrow> buffer_pool \<Rightarrow> buffer_pool option" where
  "charge_cached bytes p =
     (if bytes > bp_limit p - fp_cached (bp_free p) then None
      else Some (p\<lparr>bp_free := (bp_free p)\<lparr>fp_cached := fp_cached (bp_free p) + bytes\<rparr>\<rparr>))"

definition uncharge_cached :: "usize \<Rightarrow> buffer_pool \<Rightarrow> buffer_pool" where
  "uncharge_cached bytes p = p\<lparr>bp_free := (bp_free p)\<lparr>fp_cached := fp_cached (bp_free p) - bytes\<rparr>\<rparr>"

definition within_limit :: "buffer_pool \<Rightarrow> bool" where
  "within_limit p \<longleftrightarrow> cached_bytes p \<le> bp_limit p"

interpretation cached: bounded_ledger bp_limit cached_bytes charge_cached uncharge_cached within_limit
  by unfold_locales (auto simp: charge_cached_def uncharge_cached_def cached_bytes_def within_limit_def split: if_splits)

text \<open>The first size in the inclusive range, with its stack.\<close>

definition first_in_range :: "usize \<Rightarrow> usize \<Rightarrow> blocks \<Rightarrow> (usize \<times> pbuffer list) option" where
  "first_in_range lo hi bs = find (\<lambda>b. lo \<le> fst b \<and> fst b \<le> hi) bs"

text \<open>Popping the stack of a size that is present; an emptied stack is removed.\<close>

fun pop_block :: "usize \<Rightarrow> blocks \<Rightarrow> blocks" where
  "pop_block sz [] = []"
| "pop_block sz ((k, xs) # bs) =
     (if k = sz then (if butlast xs = [] then bs else (k, butlast xs) # bs) else (k, xs) # pop_block sz bs)"

text \<open>\<open>entry(size).or_default().push(buffer)\<close>\<close>

fun push_block :: "usize \<Rightarrow> pbuffer \<Rightarrow> blocks \<Rightarrow> blocks" where
  "push_block sz b [] = [(sz, [b])]"
| "push_block sz b ((k, xs) # bs) =
     (if sz < k then (sz, [b]) # (k, xs) # bs
      else if sz = k then (k, xs @ [b]) # bs
      else (k, xs) # push_block sz b bs)"

definition bind_stream :: "nat \<Rightarrow> free_list \<Rightarrow> free_list result" where
  "bind_stream stream free =
     (case fp_stream free of
        Some owner \<Rightarrow>
          if owner \<noteq> stream
          then Inl (Message ''a buffer pool serves one stream because reuse follows that queue's order'')
          else Inr free
      | None \<Rightarrow> Inr (free\<lparr>fp_stream := Some stream\<rparr>))"

definition lend :: "pbuffer \<Rightarrow> buffer_pool \<Rightarrow> buffer_pool" where
  "lend b p = p\<lparr>bp_leased := b # bp_leased p\<rparr>"

definition acquire :: "nat \<Rightarrow> usize \<Rightarrow> pbuffer result \<Rightarrow> buffer_pool \<Rightarrow> buffer_pool \<times> pbuffer result" where
  "acquire stream bytes allocated p =
     (if bytes = 0 then (p, Inl (Message ''empty pooled allocation''))
      else case bind_stream stream (bp_free p) of
        Inl e \<Rightarrow> (p, Inl e)
      | Inr free \<Rightarrow>
          (case first_in_range bytes (saturating_mul bytes 2) (fp_blocks free) of
             Some (sz, b # bs) \<Rightarrow>
               let buffer = List.last (b # bs)
               in (lend buffer (uncharge_cached sz (p\<lparr>bp_free := free\<lparr>fp_blocks := pop_block sz (fp_blocks free)\<rparr>\<rparr>)), Inr buffer)
           | _ \<Rightarrow>
               (case allocated of
                  Inl e \<Rightarrow> (p\<lparr>bp_free := free\<rparr>, Inl e)
                | Inr buffer \<Rightarrow> (lend buffer (p\<lparr>bp_free := free\<rparr>), Inr buffer))))"

text \<open>\<open>release\<close>: a buffer that does not fit below the limit is dropped.\<close>

definition pool_release :: "pbuffer \<Rightarrow> buffer_pool \<Rightarrow> buffer_pool" where
  "pool_release buffer p =
     (case charge_cached (pb_bytes buffer) p of
        None \<Rightarrow> p
      | Some p1 \<Rightarrow> p1\<lparr>bp_free := (bp_free p1)\<lparr>fp_blocks := push_block (pb_bytes buffer) buffer (fp_blocks (bp_free p1))\<rparr>\<rparr>)"

text \<open>Dropping a \<open>PooledBuffer\<close> ends its lease.\<close>

definition pooled_drop :: "pbuffer \<Rightarrow> buffer_pool \<Rightarrow> buffer_pool" where
  "pooled_drop buffer p = pool_release buffer (p\<lparr>bp_leased := remove1 buffer (bp_leased p)\<rparr>)"


section \<open>Blocks\<close>

definition stacked :: "blocks \<Rightarrow> pbuffer list" where
  "stacked bs = concat (map snd bs)"

definition blocks_ok :: "blocks \<Rightarrow> bool" where
  "blocks_ok bs \<longleftrightarrow> sorted_wrt (<) (map fst bs)
     \<and> (\<forall>x\<in>set bs. snd x \<noteq> [] \<and> (\<forall>b\<in>set (snd x). pb_bytes b = fst x))"

lemma blocks_ok_Cons [simp]:
  "blocks_ok ((k, xs) # bs) \<longleftrightarrow> (\<forall>x\<in>set bs. k < fst x) \<and> xs \<noteq> [] \<and> (\<forall>b\<in>set xs. pb_bytes b = k) \<and> blocks_ok bs"
  by (auto simp: blocks_ok_def)

lemma blocks_ok_Nil [simp]: "blocks_ok []"
  by (simp add: blocks_ok_def)

lemma stacked_simps [simp]: "stacked [] = []" "stacked (x # bs) = snd x @ stacked bs"
  by (simp_all add: stacked_def)

lemma ball_keys: "(\<forall>x\<in>set bs. n < fst x) \<longleftrightarrow> (\<forall>k\<in>fst ` set bs. n < k)"
  by simp

lemma push_block_keys: "fst ` set (push_block sz b bs) = insert sz (fst ` set bs)"
  by (induction sz b bs rule: push_block.induct) auto

lemma push_block_ok: "blocks_ok bs \<Longrightarrow> pb_bytes b = sz \<Longrightarrow> blocks_ok (push_block sz b bs)"
proof (induction sz b bs rule: push_block.induct)
  case (2 sz b k xs bs)
  have keys: "(\<forall>x\<in>set (push_block sz b bs). k < fst x) \<longleftrightarrow> k < sz \<and> (\<forall>x\<in>set bs. k < fst x)"
    unfolding ball_keys push_block_keys by simp
  have sorted: "\<forall>x\<in>set bs. sz < fst x" if "sz < k" "\<forall>x\<in>set bs. k < fst x" using that order.strict_trans by blast
  consider "sz < k" | "sz = k" | "k < sz" by linarith
  then show ?case
  proof cases
    case 1
    with sorted "2.prems" show ?thesis by simp
  next
    case b: 2
    with "2.prems" show ?thesis by auto
  next
    case 3
    with keys 2 show ?thesis by simp
  qed
qed simp

lemma push_block_stacked: "mset (stacked (push_block sz b bs)) = add_mset b (mset (stacked bs))"
  by (induction sz b bs rule: push_block.induct) auto

lemma pop_block_subset: "fst ` set (pop_block sz bs) \<subseteq> fst ` set bs"
  by (induction sz bs rule: pop_block.induct) auto

lemma pop_block_ok: "blocks_ok bs \<Longrightarrow> blocks_ok (pop_block sz bs)"
proof (induction sz bs rule: pop_block.induct)
  case (2 sz k xs bs)
  have "\<forall>x\<in>set (pop_block sz bs). k < fst x" if "\<forall>x\<in>set bs. k < fst x"
    using pop_block_subset [of sz bs] that unfolding ball_keys by blast
  with 2 show ?case by (auto dest: in_set_butlastD)
qed simp

lemma pop_block_stacked:
  "blocks_ok bs \<Longrightarrow> (sz, xs) \<in> set bs \<Longrightarrow> mset (stacked bs) = add_mset (List.last xs) (mset (stacked (pop_block sz bs)))"
proof (induction sz bs rule: pop_block.induct)
  case (2 sz k ys bs)
  have l: "mset ys = add_mset (List.last ys) (mset (butlast ys))" if "ys \<noteq> []"
    using that by (metis add_mset_add_single append_butlast_last_id mset.simps(1) mset.simps(2) mset_append)
  show ?case
  proof (cases "k = sz")
    case True
    with 2 have "ys = xs" by fastforce
    with True 2 l show ?thesis by auto
  next
    case False
    with 2 show ?thesis by auto
  qed
qed simp

text \<open>In an ascending map the first block in a range is the smallest that fits.\<close>

lemma first_in_range_Some:
  assumes "first_in_range lo hi bs = Some (sz, xs)" "blocks_ok bs"
  shows "(sz, xs) \<in> set bs" "lo \<le> sz" "sz \<le> hi" "xs \<noteq> []" "List.last xs \<in> set (stacked bs)"
    "pb_bytes (List.last xs) = sz" "\<And>b. b \<in> set (stacked bs) \<Longrightarrow> lo \<le> pb_bytes b \<Longrightarrow> sz \<le> pb_bytes b"
proof -
  obtain i where i: "i < length bs" "lo \<le> fst (bs ! i)" "fst (bs ! i) \<le> hi" "(sz, xs) = bs ! i"
      "\<And>j. j < i \<Longrightarrow> \<not> (lo \<le> fst (bs ! j) \<and> fst (bs ! j) \<le> hi)"
    using assms(1) unfolding first_in_range_def find_Some_iff by blast
  have mem: "(sz, xs) \<in> set bs" using i(1,4) by (metis nth_mem)
  then show "(sz, xs) \<in> set bs" .
  show "lo \<le> sz" "sz \<le> hi" using i(2-4) by (metis fst_conv)+
  show ne: "xs \<noteq> []" using mem assms(2) by (fastforce simp: blocks_ok_def)
  show "List.last xs \<in> set (stacked bs)" using mem ne by (force simp: stacked_def)
  show "pb_bytes (List.last xs) = sz" using mem ne assms(2) by (fastforce simp: blocks_ok_def)
  fix b assume b: "b \<in> set (stacked bs)" "lo \<le> pb_bytes b"
  then obtain x where x: "x \<in> set bs" "b \<in> set (snd x)" by (auto simp: stacked_def)
  then obtain j where j: "j < length bs" "b \<in> set (snd (bs ! j))" by (metis in_set_conv_nth)
  then have "pb_bytes b = fst (bs ! j)" using assms(2) by (simp add: blocks_ok_def)
  moreover have "fst (bs ! a) < fst (bs ! c)" if "a < c" "c < length bs" for a c
    using assms(2) that by (simp add: blocks_ok_def sorted_wrt_iff_nth_less)
  moreover have "i \<le> j"
  proof (rule ccontr)
    assume "\<not> i \<le> j"
    then have "j < i" by simp
    from i(5) [OF this] calculation(2) [OF this i(1)] calculation(1) b(2) i(3) show False by linarith
  qed
  moreover have "sz = fst (bs ! i)" using i(4) by (metis fst_conv)
  ultimately show "sz \<le> pb_bytes b" using j(1) by (cases "i = j") (auto simp: less_imp_le)
qed

lemma first_in_range_None:
  assumes "first_in_range lo hi bs = None" "blocks_ok bs" "b \<in> set (stacked bs)"
  shows "\<not> (lo \<le> pb_bytes b \<and> pb_bytes b \<le> hi)"
  using assms by (auto simp: first_in_range_def find_None_iff stacked_def blocks_ok_def)


section \<open>Reachable pools\<close>

definition pooled :: "buffer_pool \<Rightarrow> pbuffer list" where
  "pooled p = bp_leased p @ stacked (fp_blocks (bp_free p))"

text \<open>
  A fresh native allocation has the requested size and is none of the buffers alive; a buffer
  dropped by \<open>release\<close> is dead. Threads take turns under the pool's mutex.
\<close>

inductive pool_step :: "buffer_pool \<Rightarrow> buffer_pool \<Rightarrow> bool" where
  acquired: "(\<And>b. allocated = Inr b \<Longrightarrow> pb_bytes b = bytes \<and> pb_id b \<notin> pb_id ` set (pooled p)) \<Longrightarrow>
    acquire stream bytes allocated p = (p', r) \<Longrightarrow> pool_step p p'"
| dropped: "b \<in> set (bp_leased p) \<Longrightarrow> pool_step p (pooled_drop b p)"

definition pool_reach :: "usize \<Rightarrow> buffer_pool \<Rightarrow> bool" where
  "pool_reach limit p \<longleftrightarrow> pool_step\<^sup>*\<^sup>* (with_limit limit) p"

definition pool_ok :: "buffer_pool \<Rightarrow> bool" where
  "pool_ok p \<longleftrightarrow> blocks_ok (fp_blocks (bp_free p)) \<and> distinct (map pb_id (pooled p))
     \<and> cached_bytes p = sum_list (map pb_bytes (stacked (fp_blocks (bp_free p)))) \<and> within_limit p"

lemma distinct_map_mset: "mset xs = mset ys \<Longrightarrow> distinct (map f xs) = distinct (map f ys)"
  by (metis mset_eq_imp_distinct_iff mset_map)

lemma bind_stream_Inr: "bind_stream s free = Inr free' \<Longrightarrow> free' = free\<lparr>fp_stream := Some s\<rparr>"
  by (auto simp: bind_stream_def split: option.splits if_splits)

text \<open>The three outcomes of an acquisition.\<close>

lemma acquire_cases:
  assumes "acquire stream bytes allocated p = (p', r)" "blocks_ok (fp_blocks (bp_free p))"
  obtains (refused) e where "p' = p" "r = Inl e"
  | (reused) sz xs where "r = Inr (List.last xs)" "bytes \<noteq> 0" "fp_stream (bp_free p) \<in> {None, Some stream}"
      "first_in_range bytes (saturating_mul bytes 2) (fp_blocks (bp_free p)) = Some (sz, xs)"
      "p' = lend (List.last xs) (uncharge_cached sz
          (p\<lparr>bp_free := (bp_free p)\<lparr>fp_stream := Some stream, fp_blocks := pop_block sz (fp_blocks (bp_free p))\<rparr>\<rparr>))"
  | (fresh) "r = allocated" "bytes \<noteq> 0" "fp_stream (bp_free p) \<in> {None, Some stream}"
      "first_in_range bytes (saturating_mul bytes 2) (fp_blocks (bp_free p)) = None"
      "p' = (case allocated of Inl _ \<Rightarrow> p\<lparr>bp_free := (bp_free p)\<lparr>fp_stream := Some stream\<rparr>\<rparr>
          | Inr b \<Rightarrow> lend b (p\<lparr>bp_free := (bp_free p)\<lparr>fp_stream := Some stream\<rparr>\<rparr>))"
proof (cases "bytes = 0")
  case True
  with assms(1) show ?thesis by (intro refused [of "Message ''empty pooled allocation''"]) (auto simp: acquire_def)
next
  case False
  show ?thesis
  proof (cases "bind_stream stream (bp_free p)")
    case (Inl e)
    with False assms(1) show ?thesis by (intro refused [of e]) (auto simp: acquire_def)
  next
    case (Inr free)
    have s: "fp_stream (bp_free p) \<in> {None, Some stream}" using Inr by (auto simp: bind_stream_def split: option.splits if_splits)
    note fr = bind_stream_Inr [OF Inr]
    show ?thesis
    proof (cases "first_in_range bytes (saturating_mul bytes 2) (fp_blocks (bp_free p))")
      case None
      with False Inr fr assms(1) s show ?thesis by (intro fresh) (auto simp: acquire_def split: sum.splits)
    next
      case (Some y)
      obtain sz xs where y: "y = (sz, xs)" by (cases y)
      then have "xs \<noteq> []" using first_in_range_Some(4) Some assms(2) by blast
      then obtain b bs where "xs = b # bs" by (cases xs) auto
      with False Inr fr Some y assms(1) s show ?thesis by (intro reused [of xs sz]) (auto simp: acquire_def Let_def)
    qed
  qed
qed

lemma uncharge_simps [simp]:
  "bp_limit (uncharge_cached n p) = bp_limit p" "bp_leased (uncharge_cached n p) = bp_leased p"
  "fp_blocks (bp_free (uncharge_cached n p)) = fp_blocks (bp_free p)" "fp_stream (bp_free (uncharge_cached n p)) = fp_stream (bp_free p)"
  by (simp_all add: uncharge_cached_def)

lemma charge_simps:
  "charge_cached n p = Some p' \<Longrightarrow> bp_limit p' = bp_limit p \<and> bp_leased p' = bp_leased p \<and> fp_blocks (bp_free p') = fp_blocks (bp_free p)"
  by (auto simp: charge_cached_def split: if_splits)

lemma within_limit_frame:
  assumes "within_limit p" "bp_limit q = bp_limit p" "fp_cached (bp_free q) = fp_cached (bp_free p)"
  shows "within_limit q" "cached_bytes q = cached_bytes p"
  using assms by (simp_all add: within_limit_def cached_bytes_def)

lemma pool_ok_reuse:
  assumes "pool_ok p" "first_in_range lo hi (fp_blocks (bp_free p)) = Some (sz, xs)"
    and p': "p' = lend (List.last xs) (uncharge_cached sz
          (p\<lparr>bp_free := (bp_free p)\<lparr>fp_stream := st, fp_blocks := pop_block sz (fp_blocks (bp_free p))\<rparr>\<rparr>))"
  shows "pool_ok p' \<and> bp_limit p' = bp_limit p"
proof -
  let ?q = "p\<lparr>bp_free := (bp_free p)\<lparr>fp_stream := st, fp_blocks := pop_block sz (fp_blocks (bp_free p))\<rparr>\<rparr>"
  have ok: "blocks_ok (fp_blocks (bp_free p))" "within_limit p" using assms(1) by (simp_all add: pool_ok_def)
  note f = first_in_range_Some [OF assms(2) ok(1)]
  note st = pop_block_stacked [OF ok(1) f(1)]
  have sum: "sum_list (map pb_bytes (stacked (fp_blocks (bp_free p))))
      = sz + sum_list (map pb_bytes (stacked (pop_block sz (fp_blocks (bp_free p)))))"
    using arg_cong [OF st, of "\<lambda>m. sum_mset (image_mset pb_bytes m)"] f(6) by (simp flip: sum_mset_sum_list)
  have q: "within_limit ?q" "cached_bytes ?q = cached_bytes p" using ok(2) by (auto intro: within_limit_frame [of p])
  have "sz \<le> cached_bytes ?q" using assms(1) sum q(2) by (simp add: pool_ok_def)
  from cached.given_back [OF q(1) this] have u: "within_limit (uncharge_cached sz ?q)" "cached_bytes (uncharge_cached sz ?q) = cached_bytes p - sz"
    using q(2) by simp_all
  have c: "within_limit p'" "cached_bytes p' = cached_bytes p - sz"
    using u within_limit_frame [OF u(1), of p'] by (simp_all add: p' lend_def)
  have "mset (pooled p') = mset (pooled p)" using st by (simp add: pooled_def p' lend_def)
  then have "distinct (map pb_id (pooled p'))" using assms(1) distinct_map_mset by (fastforce simp: pool_ok_def)
  moreover have "blocks_ok (fp_blocks (bp_free p'))" using ok(1) by (simp add: p' lend_def pop_block_ok)
  moreover have "cached_bytes p' = sum_list (map pb_bytes (stacked (fp_blocks (bp_free p'))))"
    using c(2) sum assms(1) by (simp add: pool_ok_def p' lend_def)
  ultimately show ?thesis using c(1) by (simp add: pool_ok_def) (simp add: p' lend_def)
qed

lemma pool_ok_drop:
  assumes "pool_ok p" "b \<in> set (bp_leased p)"
  shows "pool_ok (pooled_drop b p) \<and> bp_limit (pooled_drop b p) = bp_limit p"
proof -
  let ?q = "p\<lparr>bp_leased := remove1 b (bp_leased p)\<rparr>"
  have m: "add_mset b (mset (pooled ?q)) = mset (pooled p)" using assms(2) by (simp add: pooled_def)
  then have q: "distinct (map pb_id (pooled ?q))"
    using assms(1) distinct_map_mset [of "b # pooled ?q" "pooled p" pb_id] by (auto simp: pool_ok_def)
  have wq: "within_limit ?q" "cached_bytes ?q = cached_bytes p"
    using assms(1) within_limit_frame [of p ?q] by (simp_all add: pool_ok_def)
  show ?thesis
  proof (cases "charge_cached (pb_bytes b) ?q")
    case None
    then have "pooled_drop b p = ?q" by (simp add: pooled_drop_def pool_release_def)
    with q wq assms(1) show ?thesis by (simp add: pool_ok_def)
  next
    case (Some q1)
    let ?bs = "push_block (pb_bytes b) b (fp_blocks (bp_free p))"
    note q1 = charge_simps [OF Some] and c = cached.take_granted [OF wq(1) Some]
    have p': "pooled_drop b p = q1\<lparr>bp_free := (bp_free q1)\<lparr>fp_blocks := ?bs\<rparr>\<rparr>"
      using Some q1 by (simp add: pooled_drop_def pool_release_def)
    have "mset (pooled (pooled_drop b p)) = mset (pooled p)"
      using m push_block_stacked [of "pb_bytes b" b] q1 by (simp add: p' pooled_def)
    then have "distinct (map pb_id (pooled (pooled_drop b p)))" using assms(1) distinct_map_mset by (fastforce simp: pool_ok_def)
    moreover have "sum_list (map pb_bytes (stacked ?bs)) = pb_bytes b + sum_list (map pb_bytes (stacked (fp_blocks (bp_free p))))"
      using arg_cong [OF push_block_stacked, of "\<lambda>m. sum_mset (image_mset pb_bytes m)"] by (simp flip: sum_mset_sum_list)
    moreover have "within_limit (pooled_drop b p)" "cached_bytes (pooled_drop b p) = cached_bytes p + pb_bytes b"
      using c wq(2) within_limit_frame [of q1 "pooled_drop b p"] by (simp_all add: p')
    ultimately show ?thesis using assms(1) q1 by (simp add: pool_ok_def) (simp add: p' push_block_ok)
  qed
qed

lemma pool_ok_step:
  assumes "pool_step p p'" "pool_ok p"
  shows "pool_ok p' \<and> bp_limit p' = bp_limit p"
  using assms(1)
proof (cases rule: pool_step.cases)
  case (acquired allocated bytes stream r)
  have ok: "blocks_ok (fp_blocks (bp_free p))" using assms(2) by (simp add: pool_ok_def)
  from acquired(2) ok show ?thesis
  proof (cases rule: acquire_cases)
    case (reused sz xs)
    from pool_ok_reuse [OF assms(2) reused(4,5)] show ?thesis .
  next
    case fresh
    have w: "within_limit p'" "cached_bytes p' = cached_bytes p"
      using assms(2) fresh(5) within_limit_frame [of p p'] by (auto simp: pool_ok_def lend_def split: sum.splits)
    then show ?thesis using assms(2) acquired(1) fresh(5)
      by (simp add: pool_ok_def) (auto simp: lend_def pooled_def split: sum.splits)
  qed (use assms(2) in simp)
next
  case (dropped b)
  with pool_ok_drop [OF assms(2)] show ?thesis by simp
qed

lemma pool_reach_ok: "pool_reach limit p \<Longrightarrow> pool_ok p \<and> bp_limit p = limit"
  unfolding pool_reach_def
proof (induction rule: rtranclp_induct)
  case base
  then show ?case by (simp add: pool_ok_def with_limit_def pooled_def within_limit_def cached_bytes_def)
next
  case (step y z)
  then show ?case using pool_ok_step [of y z] by simp
qed


section \<open>Properties\<close>

text \<open>
  C33: pooled storage is exclusive, bounded and fitting. In every reachable pool no
  buffer is out on lease twice or on lease while it is retained; the retained bytes are exactly
  those of the retained buffers and never exceed the limit. A successful acquisition by the pool's
  stream yields a buffer of at least the requested and, when reused, at most twice the requested size,
  the smallest retained one that is large enough; an acquisition by another stream is
  refused and changes nothing.
\<close>

theorem pooled_exclusive:
  assumes "pool_reach limit p"
  shows "distinct (map pb_id (bp_leased p @ stacked (fp_blocks (bp_free p))))
    \<and> cached_bytes p = sum_list (map pb_bytes (stacked (fp_blocks (bp_free p)))) \<and> cached_bytes p \<le> limit
    \<and> (\<forall>stream bytes allocated p' b. acquire stream bytes allocated p = (p', Inr b) \<longrightarrow>
         bp_leased p' = b # bp_leased p \<and> fp_stream (bp_free p') = Some stream
       \<and> (if \<exists>b'\<in>set (stacked (fp_blocks (bp_free p))). bytes \<le> pb_bytes b' \<and> pb_bytes b' \<le> saturating_mul bytes 2
          then b \<in> set (stacked (fp_blocks (bp_free p))) \<and> bytes \<le> pb_bytes b \<and> pb_bytes b \<le> 2 * bytes
             \<and> (\<forall>b'\<in>set (stacked (fp_blocks (bp_free p))). bytes \<le> pb_bytes b' \<longrightarrow> pb_bytes b \<le> pb_bytes b')
          else allocated = Inr b))
    \<and> (\<forall>owner stream bytes allocated. fp_stream (bp_free p) = Some owner \<and> stream \<noteq> owner \<longrightarrow>
         (\<exists>e. acquire stream bytes allocated p = (p, Inl e)))"
proof (intro conjI allI impI)
  have ok: "pool_ok p" "bp_limit p = limit" using pool_reach_ok [OF assms] by auto
  then have bs: "blocks_ok (fp_blocks (bp_free p))" by (simp add: pool_ok_def)
  show "distinct (map pb_id (bp_leased p @ stacked (fp_blocks (bp_free p))))"
      "cached_bytes p = sum_list (map pb_bytes (stacked (fp_blocks (bp_free p))))" "cached_bytes p \<le> limit"
    using ok by (auto simp: pool_ok_def pooled_def cached_bytes_def within_limit_def)
  show "\<exists>e. acquire stream bytes allocated p = (p, Inl e)" if "fp_stream (bp_free p) = Some owner \<and> stream \<noteq> owner" for owner stream bytes allocated
    using that by (auto simp: acquire_def bind_stream_def)
  fix stream bytes allocated p' b assume acq: "acquire stream bytes allocated p = (p', Inr b)"
  from acq bs show "bp_leased p' = b # bp_leased p" "fp_stream (bp_free p') = Some stream"
    by (cases rule: acquire_cases; auto simp: lend_def)+
  from acq bs show "if \<exists>b'\<in>set (stacked (fp_blocks (bp_free p))). bytes \<le> pb_bytes b' \<and> pb_bytes b' \<le> saturating_mul bytes 2
      then b \<in> set (stacked (fp_blocks (bp_free p))) \<and> bytes \<le> pb_bytes b \<and> pb_bytes b \<le> 2 * bytes
        \<and> (\<forall>b'\<in>set (stacked (fp_blocks (bp_free p))). bytes \<le> pb_bytes b' \<longrightarrow> pb_bytes b \<le> pb_bytes b')
      else allocated = Inr b"
  proof (cases rule: acquire_cases)
    case (reused sz xs)
    note f = first_in_range_Some [OF reused(4) bs]
    have "saturating_mul bytes 2 \<le> 2 * bytes" by (simp add: saturating_mul_def)
    with f(2,3,5-7) reused(1) show ?thesis by auto
  next
    case fresh
    then show ?thesis using first_in_range_None [OF fresh(4) bs] by auto
  qed simp
qed

text \<open>A concrete history: a buffer of 64 bytes is allocated, dropped and reused for 40 bytes.\<close>

definition demo_pool :: buffer_pool where
  "demo_pool = pooled_drop \<lparr>pb_id = 1, pb_bytes = 64\<rparr> (fst (acquire 3 64 (Inr \<lparr>pb_id = 1, pb_bytes = 64\<rparr>) (with_limit 100)))"

lemma demo_pool_reach: "pool_reach 100 demo_pool"
proof -
  let ?b = "\<lparr>pb_id = 1, pb_bytes = 64\<rparr>"
  let ?q = "fst (acquire 3 64 (Inr ?b) (with_limit 100))"
  have "pool_step (with_limit 100) ?q"
    by (rule pool_step.acquired [of "Inr ?b" 64 _ 3 _ "snd (acquire 3 64 (Inr ?b) (with_limit 100))"])
      (auto simp: pooled_def with_limit_def)
  moreover have "?b \<in> set (bp_leased ?q)"
    by (simp add: acquire_def with_limit_def bind_stream_def first_in_range_def lend_def)
  then have "pool_step ?q demo_pool" unfolding demo_pool_def by (rule pool_step.dropped)
  ultimately show ?thesis unfolding pool_reach_def by (meson rtranclp.simps)
qed

theorem pooled_exclusive_witness:
  "cached_bytes demo_pool = 64 \<and> (\<exists>p' b. acquire 3 40 (Inl (Message ''out of memory'')) demo_pool = (p', Inr b) \<and> pb_bytes b \<le> 80)"
proof -
  have d: "fp_blocks (bp_free demo_pool) = [(64, [\<lparr>pb_id = 1, pb_bytes = 64\<rparr>])]" "fp_stream (bp_free demo_pool) = Some 3"
    by (simp_all add: demo_pool_def acquire_def with_limit_def bind_stream_def first_in_range_def lend_def pooled_drop_def pool_release_def charge_cached_def)
  then obtain p' b where a: "acquire 3 40 (Inl (Message ''out of memory'')) demo_pool = (p', Inr b)"
    by (simp add: acquire_def bind_stream_def first_in_range_def saturating_mul_def usize_MAX_def Let_def)
  note p = pooled_exclusive [OF demo_pool_reach]
  from p have "cached_bytes demo_pool = 64" by (simp add: d)
  moreover have "pb_bytes b \<le> 2 * 40"
    using p [THEN conjunct2, THEN conjunct2, THEN conjunct2, THEN conjunct1, rule_format, OF a]
    by (simp add: d saturating_mul_def usize_MAX_def)
  ultimately show ?thesis using a by auto
qed

end
