(* ===== verification/Plan_Cache.thy ===== *)
theory Plan_Cache
  imports Flight_Cache
begin

text \<open>
  Bounded single-flight preparation of plans, \<^verbatim>\<open>src/src/plan_cache.rs\<close>. The state holds the entries
  behind the mutex with the counters, the values that are alive, the flights, and who refers to
  them. Each critical section of \<open>get_or_prepare\<close> is one function; the preparation itself
  runs between two of them and its outcome is an argument. The idle predicate given to
  \<open>new\<close> is an argument of the operation that consults it. The cache is proved bounded, its
  preparations shared, and its evictions safe under any interleaving.
\<close>


section \<open>State\<close>

record ('k, 'v) plan_cache =
  pc_capacity :: usize
  pc_entries :: "'k entries"
  pc_clock :: nat
  pc_hits :: nat
  pc_misses :: nat
  pc_evictions :: nat
  pc_heap :: "(owner_id \<times> 'v) list"
  pc_flights :: flights
  pc_held :: "owner_id list"
  pc_preparing :: "(flight_id \<times> 'k) list"
  pc_prepared :: "(flight_id \<times> 'k \<times> owner_id result) list"
  pc_waiting :: "flight_id list"
  pc_leaving :: "flight_id list"

definition plan_new :: "usize \<Rightarrow> ('k, 'v) plan_cache result" where
  "plan_new capacity =
     (if capacity = 0 then Inl (Message ''plan cache capacity must be nonzero'')
      else Inr \<lparr>pc_capacity = capacity, pc_entries = [], pc_clock = 0, pc_hits = 0, pc_misses = 0, pc_evictions = 0,
         pc_heap = [], pc_flights = [], pc_held = [], pc_preparing = [], pc_prepared = [], pc_waiting = [], pc_leaving = []\<rparr>)"

fun prepared_ref :: "flight_id \<times> 'k \<times> owner_id result \<Rightarrow> owner_id list" where
  "prepared_ref (f, key, r) = (case r of Inr v \<Rightarrow> [v] | Inl _ \<Rightarrow> [])"

definition plan_refs :: "('k, 'v) plan_cache \<Rightarrow> owner_id list" where
  "plan_refs pc = ready_refs (pc_entries pc) @ result_refs (pc_flights pc) @ concat (map prepared_ref (pc_prepared pc)) @ pc_held pc"

definition plan_evictable :: "('v \<Rightarrow> bool) \<Rightarrow> ('k, 'v) plan_cache \<Rightarrow> owner_id \<Rightarrow> bool" where
  "plan_evictable idle pc v \<longleftrightarrow>
     (case map_of (pc_heap pc) v of None \<Rightarrow> False | Some val \<Rightarrow> count_list (plan_refs pc) v = 1 \<and> idle val)"

text \<open>The last strong reference destroys the value.\<close>

definition plan_reap :: "owner_id \<Rightarrow> ('k, 'v) plan_cache \<Rightarrow> ('k, 'v) plan_cache" where
  "plan_reap v pc = (if v \<in> set (plan_refs pc) then pc else pc\<lparr>pc_heap := AList.delete v (pc_heap pc)\<rparr>)"


section \<open>Operations\<close>

datatype plan_turn = Found owner_id | Shared flight_id | Prepare flight_id | Occupied error

definition plan_elect :: "'k \<Rightarrow> ('k, 'v) plan_cache \<Rightarrow> ('k, 'v) plan_cache \<times> plan_turn" where
  "plan_elect key pc =
     (let f = fresh_id (map fst (pc_flights pc))
      in (pc\<lparr>pc_flights := (f, \<lparr>fl_result = None, fl_refs = 1\<rparr>) # pc_flights pc,
             pc_entries := AList.update key (ELoading f) (pc_entries pc), pc_misses := pc_misses pc + 1,
             pc_preparing := (f, key) # pc_preparing pc\<rparr>, Prepare f))"

text \<open>Removing the victim drops the entry's reference at once.\<close>

definition plan_evict :: "'k \<Rightarrow> ('k, 'v) plan_cache \<Rightarrow> ('k, 'v) plan_cache" where
  "plan_evict key pc =
     (let pc1 = pc\<lparr>pc_entries := AList.delete key (pc_entries pc), pc_evictions := pc_evictions pc + 1\<rparr>
      in case map_of (pc_entries pc) key of Some (EReady v used) \<Rightarrow> plan_reap v pc1 | _ \<Rightarrow> pc1)"

definition plan_enter :: "('v \<Rightarrow> bool) \<Rightarrow> 'k \<Rightarrow> ('k, 'v) plan_cache \<Rightarrow> ('k, 'v) plan_cache \<times> plan_turn" where
  "plan_enter idle key pc =
     (let pc1 = pc\<lparr>pc_clock := saturating_add (pc_clock pc) 1\<rparr>; used = pc_clock pc1
      in case map_of (pc_entries pc1) key of
           Some (EReady v _) \<Rightarrow>
             (pc1\<lparr>pc_hits := pc_hits pc1 + 1, pc_entries := AList.update key (EReady v used) (pc_entries pc1),
                  pc_held := v # pc_held pc1\<rparr>, Found v)
         | Some (ELoading f) \<Rightarrow>
             (pc1\<lparr>pc_hits := pc_hits pc1 + 1, pc_flights := flight_join f (pc_flights pc1), pc_waiting := f # pc_waiting pc1\<rparr>, Shared f)
         | None \<Rightarrow>
             if length (pc_entries pc1) = pc_capacity pc1
             then (case lru_victim (plan_evictable idle pc1) (pc_entries pc1) of
                     None \<Rightarrow> (pc1, Occupied (Busy ''all shape plans are pinned or preparing''))
                   | Some victim \<Rightarrow> plan_elect key (plan_evict victim pc1))
             else plan_elect key pc1)"

text \<open>The preparation returned (\<open>None\<close>: it panicked).\<close>

definition plan_return :: "flight_id \<Rightarrow> 'k \<Rightarrow> 'v result option \<Rightarrow> ('k, 'v) plan_cache \<Rightarrow> ('k, 'v) plan_cache" where
  "plan_return f key outcome pc =
     (let pc1 = pc\<lparr>pc_preparing := remove1 (f, key) (pc_preparing pc)\<rparr>
      in case outcome of
           Some (Inr val) \<Rightarrow>
             let v = fresh_id (map fst (pc_heap pc1))
             in pc1\<lparr>pc_heap := (v, val) # pc_heap pc1, pc_prepared := (f, key, Inr v) # pc_prepared pc1\<rparr>
         | Some (Inl e) \<Rightarrow> pc1\<lparr>pc_prepared := (f, key, Inl e) # pc_prepared pc1\<rparr>
         | None \<Rightarrow> pc1\<lparr>pc_prepared := (f, key, Inl (Message ''shape preparation panicked'')) # pc_prepared pc1\<rparr>)"

definition plan_publish :: "flight_id \<Rightarrow> 'k \<Rightarrow> owner_id result \<Rightarrow> ('k, 'v) plan_cache \<Rightarrow> ('k, 'v) plan_cache" where
  "plan_publish f key r pc =
     pc\<lparr>pc_prepared := remove1 (f, key, r) (pc_prepared pc), pc_leaving := f # pc_leaving pc,
        pc_held := prepared_ref (f, key, r) @ pc_held pc,
        pc_entries := (case r of
            Inr v \<Rightarrow> AList.update key (EReady v (pc_clock pc)) (pc_entries pc)
          | Inl _ \<Rightarrow> AList.delete key (pc_entries pc)),
        pc_flights := flight_publish f r (pc_flights pc)\<rparr>"

definition plan_flight_exit :: "flight_id \<Rightarrow> ('k, 'v) plan_cache \<Rightarrow> ('k, 'v) plan_cache" where
  "plan_flight_exit f pc =
     (let pc1 = pc\<lparr>pc_flights := flight_leave f (pc_flights pc)\<rparr>
      in case map_of (pc_flights pc) f of
           Some fl \<Rightarrow> (case fl_result fl of Some (Inr v) \<Rightarrow> plan_reap v pc1 | _ \<Rightarrow> pc1)
         | None \<Rightarrow> pc1)"

text \<open>The elected request returns its result; a waiter returns a clone of the published one.\<close>

definition plan_exit :: "flight_id \<Rightarrow> ('k, 'v) plan_cache \<Rightarrow> ('k, 'v) plan_cache" where
  "plan_exit f pc = plan_flight_exit f (pc\<lparr>pc_leaving := remove1 f (pc_leaving pc)\<rparr>)"

definition plan_outcome :: "owner_id result \<Rightarrow> owner_id result" where
  "plan_outcome r = (case r of Inr v \<Rightarrow> Inr v | Inl e \<Rightarrow> Inl (Execution e))"

definition plan_take :: "flight_id \<Rightarrow> ('k, 'v) plan_cache \<Rightarrow> (('k, 'v) plan_cache \<times> owner_id result) option" where
  "plan_take f pc =
     (case map_of (pc_flights pc) f of
        None \<Rightarrow> None
      | Some fl \<Rightarrow>
          (case fl_result fl of
             None \<Rightarrow> None
           | Some r \<Rightarrow>
               Some (plan_flight_exit f (pc\<lparr>pc_waiting := remove1 f (pc_waiting pc),
                        pc_held := (case r of Inr v \<Rightarrow> [v] | Inl _ \<Rightarrow> []) @ pc_held pc\<rparr>), plan_outcome r)))"

text \<open>A caller clones or drops the \<open>Arc\<close> it got.\<close>

definition plan_clone :: "owner_id \<Rightarrow> ('k, 'v) plan_cache \<Rightarrow> ('k, 'v) plan_cache" where
  "plan_clone v pc = pc\<lparr>pc_held := v # pc_held pc\<rparr>"

definition plan_drop :: "owner_id \<Rightarrow> ('k, 'v) plan_cache \<Rightarrow> ('k, 'v) plan_cache" where
  "plan_drop v pc = plan_reap v (pc\<lparr>pc_held := remove1 v (pc_held pc)\<rparr>)"

record cache_statistics =
  cs_entries :: nat
  cs_hits :: nat
  cs_misses :: nat
  cs_evictions :: nat

definition plan_statistics :: "('k, 'v) plan_cache \<Rightarrow> cache_statistics" where
  "plan_statistics pc = \<lparr>cs_entries = length (pc_entries pc), cs_hits = pc_hits pc, cs_misses = pc_misses pc,
     cs_evictions = pc_evictions pc\<rparr>"


section \<open>Reachable caches\<close>

inductive plan_step :: "('k, 'v) plan_cache \<Rightarrow> ('k, 'v) plan_cache \<Rightarrow> bool" where
  enter: "plan_enter idle key pc = (pc', turn) \<Longrightarrow> plan_step pc pc'"
| returned: "(f, key) \<in> set (pc_preparing pc) \<Longrightarrow> plan_step pc (plan_return f key outcome pc)"
| published: "(f, key, r) \<in> set (pc_prepared pc) \<Longrightarrow> plan_step pc (plan_publish f key r pc)"
| exit: "f \<in> set (pc_leaving pc) \<Longrightarrow> plan_step pc (plan_exit f pc)"
| taken: "f \<in> set (pc_waiting pc) \<Longrightarrow> plan_take f pc = Some (pc', r) \<Longrightarrow> plan_step pc pc'"
| cloned: "v \<in> set (pc_held pc) \<Longrightarrow> plan_step pc (plan_clone v pc)"
| dropped: "v \<in> set (pc_held pc) \<Longrightarrow> plan_step pc (plan_drop v pc)"

definition plan_reach :: "usize \<Rightarrow> ('k, 'v) plan_cache \<Rightarrow> bool" where
  "plan_reach capacity pc \<longleftrightarrow> (\<exists>pc0. plan_new capacity = Inr pc0 \<and> plan_step\<^sup>*\<^sup>* pc0 pc)"

definition plan_elected :: "('k, 'v) plan_cache \<Rightarrow> (flight_id \<times> 'k) list" where
  "plan_elected pc = pc_preparing pc @ map (\<lambda>x. (fst x, fst (snd x))) (pc_prepared pc)"

definition plan_inv :: "('k, 'v) plan_cache \<Rightarrow> bool" where
  "plan_inv pc \<longleftrightarrow> distinct (map fst (pc_entries pc)) \<and> distinct (map fst (pc_flights pc)) \<and> distinct (map fst (pc_heap pc))
     \<and> fst ` set (pc_heap pc) = set (plan_refs pc) \<and> length (pc_entries pc) \<le> pc_capacity pc
     \<and> flights_wf (pc_entries pc) (pc_flights pc) (plan_elected pc) (pc_waiting pc) (pc_leaving pc)"

lemma plan_invD:
  assumes "plan_inv pc"
  shows "distinct (map fst (pc_entries pc))" "distinct (map fst (pc_flights pc))" "distinct (map fst (pc_heap pc))"
    "fst ` set (pc_heap pc) = set (plan_refs pc)" "length (pc_entries pc) \<le> pc_capacity pc"
    "flights_wf (pc_entries pc) (pc_flights pc) (plan_elected pc) (pc_waiting pc) (pc_leaving pc)"
  using assms by (simp_all add: plan_inv_def)

lemma mset_setD: "mset xs = add_mset x (mset ys) \<Longrightarrow> set xs = insert x (set ys)"
  by (metis set_mset_add_mset_insert set_mset_mset)

text \<open>Reaping restores the correspondence of living values and references.\<close>

lemma plan_reap_inv:
  assumes "distinct (map fst (pc_entries pc))" "distinct (map fst (pc_flights pc))" "distinct (map fst (pc_heap pc))"
    "fst ` set (pc_heap pc) = insert v (set (plan_refs pc))" "length (pc_entries pc) \<le> pc_capacity pc"
    "flights_wf (pc_entries pc) (pc_flights pc) (plan_elected pc) (pc_waiting pc) (pc_leaving pc)"
  shows "plan_inv (plan_reap v pc)"
  using assms by (auto simp: plan_reap_def plan_inv_def plan_refs_def plan_elected_def insert_absorb)

lemma plan_reap_simps [simp]:
  "pc_capacity (plan_reap v pc) = pc_capacity pc" "pc_entries (plan_reap v pc) = pc_entries pc"
  "pc_flights (plan_reap v pc) = pc_flights pc" "pc_clock (plan_reap v pc) = pc_clock pc"
  by (simp_all add: plan_reap_def)

lemma length_update: "length (AList.update k e es) = (if k \<in> fst ` set es then length es else Suc (length es))"
  by (induction es) auto

lemma length_delete: "map_of es k = Some e \<Longrightarrow> distinct (map fst es) \<Longrightarrow> Suc (length (AList.delete k es)) = length es"
proof -
  assume "map_of es k = Some e" "distinct (map fst es)"
  from arg_cong [OF mset_delete [OF this(2,1)], of size] show ?thesis by simp
qed

lemma plan_inv_clock: "plan_inv pc \<Longrightarrow> plan_inv (pc\<lparr>pc_clock := n\<rparr>)"
  by (simp add: plan_inv_def plan_refs_def plan_elected_def)

lemma plan_inv_found:
  assumes "plan_inv pc" "map_of (pc_entries pc) key = Some (EReady v last_used)"
  shows "plan_inv (pc\<lparr>pc_hits := n, pc_entries := AList.update key (EReady v used) (pc_entries pc), pc_held := v # pc_held pc\<rparr>)"
proof -
  let ?pc = "pc\<lparr>pc_hits := n, pc_entries := AList.update key (EReady v used) (pc_entries pc), pc_held := v # pc_held pc\<rparr>"
  note inv = plan_invD [OF assms(1)]
  have "mset (plan_refs ?pc) = add_mset v (mset (plan_refs pc))" and v: "v \<in># mset (plan_refs pc)"
    using ready_refs_delete [OF inv(1) assms(2)] ready_refs_update [OF inv(1), of key "EReady v used"] by (simp_all add: plan_refs_def)
  then have refs: "set (plan_refs ?pc) = set (plan_refs pc)" using mset_setD [of "plan_refs ?pc" v "plan_refs pc"] by auto
  have "map_of (pc_entries ?pc) k = Some (ELoading f) \<longleftrightarrow> map_of (pc_entries pc) k = Some (ELoading f)" for k f
    using assms(2) by auto
  note wf = wf_entries [OF inv(6) this]
  have "key \<in> fst ` set (pc_entries pc)" using map_of_SomeD [OF assms(2)] by force
  then show ?thesis using inv refs wf by (simp add: plan_inv_def length_update plan_elected_def)
qed

lemma plan_inv_shared:
  assumes "plan_inv pc" "map_of (pc_entries pc) key = Some (ELoading f)"
  shows "plan_inv (pc\<lparr>pc_hits := n, pc_flights := flight_join f (pc_flights pc), pc_waiting := f # pc_waiting pc\<rparr>)"
proof -
  let ?pc = "pc\<lparr>pc_hits := n, pc_flights := flight_join f (pc_flights pc), pc_waiting := f # pc_waiting pc\<rparr>"
  note inv = plan_invD [OF assms(1)] and join = wf_join [OF plan_invD(6,2) [OF assms(1)] assms(2)]
  have "mset (plan_refs ?pc) = mset (plan_refs pc)" using join(3) by (simp add: plan_refs_def)
  then have "set (plan_refs ?pc) = set (plan_refs pc)" by (metis set_mset_mset)
  then show ?thesis using inv join(1,2) by (simp add: plan_inv_def plan_elected_def)
qed

lemma plan_inv_elect:
  assumes "plan_inv pc" "map_of (pc_entries pc) key = None" "length (pc_entries pc) < pc_capacity pc"
  shows "plan_inv (fst (plan_elect key pc))"
proof -
  note inv = plan_invD [OF assms(1)]
  define f where "f = fresh_id (map fst (pc_flights pc))"
  have f: "f \<notin> fst ` set (pc_flights pc)" unfolding f_def by (metis fresh_id list.set_map)
  let ?pc = "fst (plan_elect key pc)"
  have key: "key \<notin> fst ` set (pc_entries pc)" using assms(2) by (simp add: map_of_eq_None_iff)
  have "mset (plan_refs ?pc) = mset (plan_refs pc)"
    using ready_refs_update [OF inv(1), of key "ELoading f"]
    by (simp add: plan_elect_def Let_def flip: f_def) (simp add: plan_refs_def delete_absent [OF assms(2)] result_refs_def)
  then have "set (plan_refs ?pc) = set (plan_refs pc)" by (metis set_mset_mset)
  then show ?thesis using inv f key assms(3) wf_elect [OF inv(6) assms(2) f]
    by (simp add: plan_inv_def plan_elect_def Let_def length_update plan_elected_def flip: f_def)
qed

text \<open>The victim's only reference is its entry, so that it dies at once.\<close>

lemma plan_inv_evict:
  assumes "plan_inv pc" "map_of (pc_entries pc) key = Some (EReady v used)"
  shows "plan_inv (plan_evict key pc)"
proof -
  let ?pc = "pc\<lparr>pc_entries := AList.delete key (pc_entries pc), pc_evictions := pc_evictions pc + 1\<rparr>"
  note inv = plan_invD [OF assms(1)]
  have "mset (plan_refs pc) = add_mset v (mset (plan_refs ?pc))"
    using ready_refs_delete [OF inv(1) assms(2)] by (simp add: plan_refs_def)
  note refs = mset_setD [OF this]
  have "map_of (pc_entries ?pc) k = Some (ELoading f) \<longleftrightarrow> map_of (pc_entries pc) k = Some (ELoading f)" for k f
    using assms(2) by auto
  note wf = wf_entries [OF inv(6) this]
  have "plan_inv (plan_reap v ?pc)"
  proof (rule plan_reap_inv)
    show "fst ` set (pc_heap ?pc) = insert v (set (plan_refs ?pc))" using refs inv(4) by simp
    show "length (pc_entries ?pc) \<le> pc_capacity ?pc" using length_delete [OF assms(2) inv(1)] inv(5) by simp
    show "flights_wf (pc_entries ?pc) (pc_flights ?pc) (plan_elected ?pc) (pc_waiting ?pc) (pc_leaving ?pc)"
      using wf by (simp add: plan_elected_def)
  qed (use inv in simp_all)
  then show ?thesis by (simp add: plan_evict_def assms(2))
qed

lemma plan_inv_enter:
  assumes "plan_inv pc0" "plan_enter idle key pc0 = (pc', turn)"
  shows "plan_inv pc' \<and> pc_capacity pc' = pc_capacity pc0"
proof -
  define pc where "pc = pc0\<lparr>pc_clock := saturating_add (pc_clock pc0) 1\<rparr>"
  have inv: "plan_inv pc" unfolding pc_def using assms(1) by (rule plan_inv_clock)
  have cap0: "pc_capacity pc = pc_capacity pc0" by (simp add: pc_def)
  note invD = plan_invD [OF inv] and e = assms(2) [unfolded plan_enter_def Let_def, folded pc_def]
  have cap: "pc_capacity (fst (plan_elect key p)) = pc_capacity p" for p :: "('a, 'b) plan_cache" by (simp add: plan_elect_def Let_def)
  show ?thesis
  proof (cases "map_of (pc_entries pc) key")
    case None
    note e' = e [unfolded None option.case]
    show ?thesis
    proof (cases "length (pc_entries pc) = pc_capacity pc")
      case full: True
      show ?thesis
      proof (cases "lru_victim (plan_evictable idle pc) (pc_entries pc)")
        case none: None
        have "pc' = pc" using e' by (simp only: full none option.case if_True prod.inject simp_thms)
        with inv cap0 show ?thesis by simp
      next
        case (Some victim)
        from lru_victim_entry [OF Some invD(1)] obtain v used where v: "map_of (pc_entries pc) victim = Some (EReady v used)" by blast
        have ev: "pc_entries (plan_evict victim pc) = AList.delete victim (pc_entries pc)"
            "pc_capacity (plan_evict victim pc) = pc_capacity pc"
          using v by (simp_all add: plan_evict_def)
        have "plan_inv (fst (plan_elect key (plan_evict victim pc)))"
          using None full length_delete [OF v invD(1)] by (intro plan_inv_elect plan_inv_evict [OF inv v]) (simp_all add: ev)
        moreover have "pc' = fst (plan_elect key (plan_evict victim pc))" using e' unfolding Some using full by simp
        ultimately show ?thesis using cap ev(2) cap0 by simp
      qed
    next
      case False
      with e' have "pc' = fst (plan_elect key pc)" by simp
      with plan_inv_elect [OF inv None] False invD(5) cap cap0 show ?thesis by simp
    qed
  next
    case (Some x)
    then show ?thesis
      using e plan_inv_found [OF inv, of key] plan_inv_shared [OF inv, of key] cap0 by (cases x) auto
  qed
qed

lemma plan_inv_return:
  assumes "plan_inv pc" "(f, key) \<in> set (pc_preparing pc)"
  shows "plan_inv (plan_return f key outcome pc)"
proof -
  note inv = plan_invD [OF assms(1)]
  define v where "v = fresh_id (map fst (pc_heap pc))"
  have v: "v \<notin> fst ` set (pc_heap pc)" unfolding v_def by (metis fresh_id list.set_map)
  have "flights_wf (pc_entries pc) (pc_flights pc)
      (remove1 (f, key) (pc_preparing pc) @ (f, key) # map (\<lambda>x. (fst x, fst (snd x))) (pc_prepared pc)) (pc_waiting pc) (pc_leaving pc)"
    by (rule wf_perm [OF inv(6)]) (use assms(2) in \<open>simp add: plan_elected_def\<close>)
  then have wf: "flights_wf (pc_entries pc) (pc_flights pc) (plan_elected (pc\<lparr>pc_preparing := remove1 (f, key) (pc_preparing pc),
      pc_heap := h, pc_prepared := (f, key, r) # pc_prepared pc\<rparr>)) (pc_waiting pc) (pc_leaving pc)" for h r
    by (simp add: plan_elected_def)
  show ?thesis
  proof (cases "\<exists>val. outcome = Some (Inr val)")
    case True
    then obtain val where "outcome = Some (Inr val)" ..
    then have "plan_return f key outcome pc = pc\<lparr>pc_preparing := remove1 (f, key) (pc_preparing pc), pc_heap := (v, val) # pc_heap pc,
        pc_prepared := (f, key, Inr v) # pc_prepared pc\<rparr>" by (simp add: plan_return_def Let_def v_def)
    moreover have "set (plan_refs \<dots>) = insert v (set (plan_refs pc))" by (auto simp: plan_refs_def)
    ultimately show ?thesis using inv v wf [where h = "(v, val) # pc_heap pc" and r = "Inr v"] by (simp add: plan_inv_def)
  next
    case False
    then obtain e where o: "outcome = None \<and> e = Message ''shape preparation panicked'' \<or> outcome = Some (Inl e)"
      by (metis not_Some_eq sumE)
    then have "plan_return f key outcome pc = pc\<lparr>pc_preparing := remove1 (f, key) (pc_preparing pc),
        pc_prepared := (f, key, Inl e) # pc_prepared pc\<rparr>"
      by (auto simp: plan_return_def)
    moreover have "plan_refs \<dots> = plan_refs pc" by (simp add: plan_refs_def)
    ultimately show ?thesis using inv wf [where h = "pc_heap pc" and r = "Inl e"] by (simp add: plan_inv_def)
  qed
qed

lemma plan_inv_publish:
  assumes "plan_inv pc" "(f, key, r) \<in> set (pc_prepared pc)"
  shows "plan_inv (plan_publish f key r pc)"
proof -
  let ?pc = "plan_publish f key r pc"
  note inv = plan_invD [OF assms(1)]
  have el: "mset (plan_elected pc) = add_mset (f, key) (mset (plan_elected ?pc))"
    using image_mset_add_mset [of "\<lambda>x. (fst x, fst (snd x))" "(f, key, r)" "mset (pc_prepared pc) - {#(f, key, r)#}"] assms(2)
    by (simp add: plan_elected_def plan_publish_def)
  have fk: "(f, key) \<in> set (plan_elected pc)" using mset_setD [OF el] by simp
  then have entry: "map_of (pc_entries pc) key = Some (ELoading f)" using flights_wfD(2) [OF inv(6)] by blast
  obtain fl where fl: "map_of (pc_flights pc) f = Some fl" "fl_result fl = None" using wf_elected_flight [OF inv(6) fk] .
  note pub = flight_publish_spec [OF inv(2) fl]
  have "flights_wf (pc_entries ?pc) (flight_publish f r (pc_flights pc)) (plan_elected ?pc) (pc_waiting pc) (f # pc_leaving pc)"
    by (rule wf_publish [OF inv(6,2) el]) (simp_all add: plan_publish_def split: sum.splits)
  moreover have one: "mset (pc_prepared pc) = add_mset (f, key, r) (mset (remove1 (f, key, r) (pc_prepared pc)))" using assms(2) by simp
  have pr: "mset (concat (map prepared_ref (pc_prepared pc)))
      = mset (prepared_ref (f, key, r)) + mset (concat (map prepared_ref (remove1 (f, key, r) (pc_prepared pc))))"
    unfolding mset_concat_map using arg_cong [OF one, of "\<lambda>M. \<Sum>x\<in>#M. mset (prepared_ref x)"]
    by (simp only: image_mset_add_mset sum_mset.add_mset)
  have "mset (plan_refs ?pc) = mset (plan_refs pc) + mset (prepared_ref (f, key, r)) + mset (prepared_ref (f, key, r))"
    using ready_refs_delete [OF inv(1) entry] ready_refs_update [OF inv(1), of key]
    by (cases r) (simp_all add: plan_publish_def plan_refs_def pub(4) pr)
  moreover have "set (prepared_ref (f, key, r)) \<subseteq> set (plan_refs pc)" using assms(2) by (auto simp: plan_refs_def)
  ultimately have "set (plan_refs ?pc) = set (plan_refs pc)" by (metis Un_absorb2 set_mset_mset set_mset_union)
  moreover have "length (pc_entries ?pc) \<le> pc_capacity ?pc" "distinct (map fst (pc_entries ?pc))"
    using inv(1,5) length_delete [OF entry inv(1)] map_of_SomeD [OF entry]
    by (auto simp: plan_publish_def length_update image_iff split: sum.splits)
  moreover have "pc_flights ?pc = flight_publish f r (pc_flights pc)" "pc_waiting ?pc = pc_waiting pc" "pc_leaving ?pc = f # pc_leaving pc"
      "pc_heap ?pc = pc_heap pc" by (simp_all add: plan_publish_def)
  ultimately show ?thesis using inv(3,4) pub(2) \<open>flights_wf (pc_entries ?pc) _ _ _ _\<close> by (simp add: plan_inv_def)
qed

lemma plan_inv_exit:
  assumes "plan_inv pc" and fl: "map_of (pc_flights pc) f = Some fl" "fl_result fl = Some r"
    and here: "count_list wt f + count_list lv f + 1 = count_list (pc_waiting pc) f + count_list (pc_leaving pc) f"
    and others: "\<And>h. h \<noteq> f \<Longrightarrow> count_list wt h = count_list (pc_waiting pc) h \<and> count_list lv h = count_list (pc_leaving pc) h"
    and hs: "hs = pc_held pc \<or> (\<exists>v. r = Inr v \<and> hs = v # pc_held pc)"
  shows "plan_inv (plan_flight_exit f (pc\<lparr>pc_waiting := wt, pc_leaving := lv, pc_held := hs\<rparr>))"
proof -
  let ?pc = "pc\<lparr>pc_waiting := wt, pc_leaving := lv, pc_held := hs, pc_flights := flight_leave f (pc_flights pc)\<rparr>"
  note inv = plan_invD [OF assms(1)]
  note leave = wf_leave [OF inv(6,2) fl here others]
  have wf: "flights_wf (pc_entries ?pc) (pc_flights ?pc) (plan_elected ?pc) (pc_waiting ?pc) (pc_leaving ?pc)"
    using leave(1) by (simp add: plan_elected_def)
  have sets: "set (plan_refs pc) = set (flight_refs (f, fl)) \<union> set (plan_refs ?pc)"
    using hs fl(2) leave(3) by (auto simp: plan_refs_def)
  show ?thesis
  proof (cases r)
    case (Inl e)
    with sets fl(2) inv leave(2) wf have "plan_inv ?pc" by (simp add: plan_inv_def)
    then show ?thesis by (simp add: plan_flight_exit_def fl Inl)
  next
    case (Inr v)
    with sets fl(2) inv(4) have "fst ` set (pc_heap ?pc) = insert v (set (plan_refs ?pc))" by simp
    from plan_reap_inv [OF _ _ _ this _ wf] inv leave(2) show ?thesis by (simp add: plan_flight_exit_def fl Inr)
  qed
qed

lemma plan_inv_leave:
  assumes "plan_inv pc" "f \<in> set (pc_leaving pc)"
  shows "plan_inv (plan_exit f pc)"
proof -
  note inv = plan_invD [OF assms(1)]
  obtain fl where fl: "map_of (pc_flights pc) f = Some fl" using wf_party_flight [OF inv(6)] assms(2) by blast
  have "f \<notin> fst ` set (plan_elected pc)" using flights_wfD(6) [OF inv(6)] assms(2) by blast
  then obtain r where r: "fl_result fl = Some r" using flights_wfD(4) [OF inv(6) fl] by auto
  have "plan_inv (plan_flight_exit f (pc\<lparr>pc_waiting := pc_waiting pc, pc_leaving := remove1 f (pc_leaving pc), pc_held := pc_held pc\<rparr>))"
    by (rule plan_inv_exit [OF assms(1) fl r]) (simp_all only: count_leave(1,2) [OF assms(2)] count_leave(3) simp_thms)
  then show ?thesis by (simp add: plan_exit_def)
qed

lemma plan_inv_take:
  assumes "plan_inv pc" "f \<in> set (pc_waiting pc)" "plan_take f pc = Some (pc', out)"
  shows "plan_inv pc'"
proof -
  obtain fl r where fl: "map_of (pc_flights pc) f = Some fl" "fl_result fl = Some r"
    using assms(3) by (auto simp: plan_take_def split: option.splits)
  define hs where "hs = (case r of Inr v \<Rightarrow> [v] | Inl _ \<Rightarrow> []) @ pc_held pc"
  have "plan_inv (plan_flight_exit f (pc\<lparr>pc_waiting := remove1 f (pc_waiting pc), pc_leaving := pc_leaving pc, pc_held := hs\<rparr>))"
  proof (rule plan_inv_exit [OF assms(1) fl])
    show "hs = pc_held pc \<or> (\<exists>v. r = Inr v \<and> hs = v # pc_held pc)" by (cases r) (simp_all add: hs_def)
  qed (simp_all only: count_leave(1,2) [OF assms(2)] count_leave(3) simp_thms)
  then show ?thesis using assms(3) fl by (simp add: plan_take_def hs_def)
qed

lemma plan_inv_clone: "plan_inv pc \<Longrightarrow> v \<in> set (pc_held pc) \<Longrightarrow> plan_inv (plan_clone v pc)"
  by (auto simp: plan_inv_def plan_clone_def plan_refs_def plan_elected_def)

lemma plan_inv_drop:
  assumes "plan_inv pc" "v \<in> set (pc_held pc)"
  shows "plan_inv (plan_drop v pc)"
  unfolding plan_drop_def
proof (rule plan_reap_inv)
  let ?pc = "pc\<lparr>pc_held := remove1 v (pc_held pc)\<rparr>"
  have "mset (plan_refs pc) = add_mset v (mset (plan_refs ?pc))" using assms(2) by (simp add: plan_refs_def)
  from mset_setD [OF this] plan_invD(4) [OF assms(1)] show "fst ` set (pc_heap ?pc) = insert v (set (plan_refs ?pc))" by simp
qed (use plan_invD [OF assms(1)] in \<open>simp_all add: plan_elected_def\<close>)

lemma plan_capacity_fixed [simp]:
  "pc_capacity (plan_return f key outcome pc) = pc_capacity pc" "pc_capacity (plan_publish f key r pc) = pc_capacity pc"
  "pc_capacity (plan_flight_exit f pc) = pc_capacity pc" "pc_capacity (plan_exit f pc) = pc_capacity pc"
  "pc_capacity (plan_clone v pc) = pc_capacity pc" "pc_capacity (plan_drop v pc) = pc_capacity pc"
proof -
  show "pc_capacity (plan_flight_exit f pc) = pc_capacity pc" for pc :: "('a, 'b) plan_cache"
    by (simp add: plan_flight_exit_def Let_def split: option.splits sum.splits)
  then show "pc_capacity (plan_exit f pc) = pc_capacity pc" by (simp add: plan_exit_def)
qed (simp_all add: plan_return_def plan_publish_def plan_clone_def plan_drop_def Let_def split: option.splits sum.splits)

lemma plan_inv_step: "plan_step pc pc' \<Longrightarrow> plan_inv pc \<Longrightarrow> plan_inv pc' \<and> pc_capacity pc' = pc_capacity pc"
proof (induction rule: plan_step.induct)
  case (enter idle key pc pc' turn)
  then show ?case by (blast dest: plan_inv_enter)
next
  case (taken f pc pc' r)
  then have "pc_capacity pc' = pc_capacity pc" by (auto simp: plan_take_def split: option.splits)
  with taken show ?case by (blast intro: plan_inv_take)
qed (simp_all add: plan_inv_return plan_inv_publish plan_inv_leave plan_inv_clone plan_inv_drop)

lemma plan_reach_inv: "plan_reach capacity pc \<Longrightarrow> plan_inv pc \<and> pc_capacity pc = capacity"
proof -
  assume "plan_reach capacity pc"
  then obtain pc0 where pc0: "plan_new capacity = Inr pc0" "plan_step\<^sup>*\<^sup>* pc0 pc" by (auto simp: plan_reach_def)
  from pc0(1) have "plan_inv pc0 \<and> pc_capacity pc0 = capacity"
    by (auto simp: plan_new_def plan_inv_def plan_refs_def plan_elected_def ready_refs_def result_refs_def split: if_splits)
  with pc0(2) show ?thesis by (induction rule: rtranclp_induct) (auto dest: plan_inv_step)
qed


text \<open>What one request does to the counters, and when it is refused.\<close>

lemma plan_elect_outcome:
  "plan_elect key pc = (pc', turn) \<Longrightarrow> (\<exists>f. turn = Prepare f) \<and> pc_hits pc' = pc_hits pc \<and> pc_misses pc' = pc_misses pc + 1"
  by (auto simp: plan_elect_def Let_def)

lemma plan_evict_counters: "pc_hits (plan_evict k pc) = pc_hits pc" "pc_misses (plan_evict k pc) = pc_misses pc"
  by (simp_all add: plan_evict_def Let_def plan_reap_def split: option.splits centry.splits)

lemma plan_enter_outcome:
  assumes "plan_enter idle key pc0 = (pc', turn)" "distinct (map fst (pc_entries pc0))"
  shows "(\<exists>e. turn = Occupied e) \<longleftrightarrow> map_of (pc_entries pc0) key = None \<and> length (pc_entries pc0) = pc_capacity pc0
      \<and> \<not> (\<exists>k v used. map_of (pc_entries pc0) k = Some (EReady v used) \<and> plan_evictable idle pc0 v)"
    "turn = Occupied e \<Longrightarrow> pc_entries pc' = pc_entries pc0"
    "pc_hits pc' = pc_hits pc0 + (if map_of (pc_entries pc0) key = None then 0 else 1)"
    "pc_misses pc' = pc_misses pc0 + (if \<exists>f. turn = Prepare f then 1 else 0)"
proof -
  define pc where "pc = pc0\<lparr>pc_clock := saturating_add (pc_clock pc0) 1\<rparr>"
  have same: "pc_entries pc0 = pc_entries pc" "pc_capacity pc0 = pc_capacity pc" "pc_hits pc0 = pc_hits pc" "pc_misses pc0 = pc_misses pc"
      "plan_evictable idle pc0 = plan_evictable idle pc"
    by (simp_all add: pc_def fun_eq_iff plan_evictable_def plan_refs_def cong: option.case_cong)
  note e = assms(1) [unfolded plan_enter_def Let_def, folded pc_def]
  let ?none = "\<not> (\<exists>k v used. map_of (pc_entries pc) k = Some (EReady v used) \<and> plan_evictable idle pc v)"
  have none: "lru_victim (plan_evictable idle pc) (pc_entries pc) = None \<longleftrightarrow> ?none"
  proof
    assume "lru_victim (plan_evictable idle pc) (pc_entries pc) = None"
    from lru_victim_None [OF this] show ?none by (meson map_of_SomeD)
  next
    assume ?none
    then show "lru_victim (plan_evictable idle pc) (pc_entries pc) = None"
      using lru_victim_entry [OF _ assms(2) [unfolded same]] by (metis not_None_eq)
  qed
  have "((\<exists>e. turn = Occupied e) \<longleftrightarrow> map_of (pc_entries pc) key = None \<and> length (pc_entries pc) = pc_capacity pc \<and> ?none)
      \<and> ((\<exists>e. turn = Occupied e) \<longrightarrow> pc_entries pc' = pc_entries pc)
      \<and> pc_hits pc' = pc_hits pc + (if map_of (pc_entries pc) key = None then 0 else 1)
      \<and> pc_misses pc' = pc_misses pc + (if \<exists>f. turn = Prepare f then 1 else 0)"
  proof (cases "map_of (pc_entries pc) key")
    case None
    note e' = e [unfolded None option.case]
    show ?thesis
    proof (cases "length (pc_entries pc) = pc_capacity pc \<and> ?none")
      case True
      then have "lru_victim (plan_evictable idle pc) (pc_entries pc) = None" using none by blast
      with True e' have "pc' = pc \<and> turn = Occupied (Busy ''all shape plans are pinned or preparing'')" by (simp only: option.case if_True prod.inject simp_thms)
      with None True show ?thesis by auto
    next
      case False
      then obtain p where p: "plan_elect key p = (pc', turn)" "pc_hits p = pc_hits pc" "pc_misses p = pc_misses pc"
        using e' none plan_evict_counters by (metis (no_types, lifting) option.case_eq_if)
      from plan_elect_outcome [OF p(1)] p(2,3) None False show ?thesis by auto
    qed
  next
    case (Some x)
    with e show ?thesis by (cases x) auto
  qed
  then show "(\<exists>e. turn = Occupied e) \<longleftrightarrow> map_of (pc_entries pc0) key = None \<and> length (pc_entries pc0) = pc_capacity pc0
      \<and> \<not> (\<exists>k v used. map_of (pc_entries pc0) k = Some (EReady v used) \<and> plan_evictable idle pc0 v)"
    "turn = Occupied e \<Longrightarrow> pc_entries pc' = pc_entries pc0"
    "pc_hits pc' = pc_hits pc0 + (if map_of (pc_entries pc0) key = None then 0 else 1)"
    "pc_misses pc' = pc_misses pc0 + (if \<exists>f. turn = Prepare f then 1 else 0)"
    unfolding same by blast+
qed


section \<open>Properties\<close>

text \<open>
  C34: a bounded cache with shared preparation. In every reachable plan cache there are at most
  \<open>capacity\<close> entries and at most one preparation per key; every value a caller or entry
  refers to is alive. A request for an absent key is refused exactly when the cache is full and no
  entry is idle and unreferenced, and then no entry changes; a request counts as a hit exactly when the
  key is present and as a miss exactly when it is elected. When an elected request publishes, every waiter of its
  flight obtains its outcome, and the entry is the value, or absent after a failure.
\<close>

theorem plan_cache_bounded:
  assumes "plan_reach capacity pc"
  shows "length (pc_entries pc) \<le> capacity \<and> distinct (map snd (plan_elected pc))
    \<and> (\<forall>v\<in>set (pc_held pc). map_of (pc_heap pc) v \<noteq> None)
    \<and> (\<forall>key v used. map_of (pc_entries pc) key = Some (EReady v used) \<longrightarrow> map_of (pc_heap pc) v \<noteq> None)
    \<and> (\<forall>idle key pc' turn. plan_enter idle key pc = (pc', turn) \<longrightarrow>
         ((\<exists>e. turn = Occupied e) \<longleftrightarrow> map_of (pc_entries pc) key = None \<and> length (pc_entries pc) = capacity
             \<and> \<not> (\<exists>k v used. map_of (pc_entries pc) k = Some (EReady v used) \<and> plan_evictable idle pc v))
       \<and> ((\<exists>e. turn = Occupied e) \<longrightarrow> pc_entries pc' = pc_entries pc)
       \<and> pc_hits pc' = pc_hits pc + (if map_of (pc_entries pc) key = None then 0 else 1)
       \<and> pc_misses pc' = pc_misses pc + (if \<exists>f. turn = Prepare f then 1 else 0))
    \<and> (\<forall>f key r. (f, key, r) \<in> set (pc_prepared pc) \<longrightarrow>
         (\<exists>pc'. plan_take f (plan_publish f key r pc) = Some (pc', plan_outcome r))
       \<and> map_of (pc_entries (plan_publish f key r pc)) key = (case r of Inr v \<Rightarrow> Some (EReady v (pc_clock pc)) | Inl _ \<Rightarrow> None))"
proof (intro conjI ballI allI impI)
  note pi = plan_reach_inv [OF assms]
  note inv = plan_invD [OF conjunct1 [OF pi]]
  show "length (pc_entries pc) \<le> capacity" using inv(5) pi by simp
  show "distinct (map snd (plan_elected pc))" using inv(6) by (rule wf_elected_keys)
  have alive: "map_of (pc_heap pc) v \<noteq> None" if "v \<in> set (plan_refs pc)" for v
    using that unfolding inv(4) [symmetric] by (metis flight_known option.distinct(1))
  show "map_of (pc_heap pc) v \<noteq> None" if "v \<in> set (pc_held pc)" for v using that by (intro alive) (simp add: plan_refs_def)
  show "map_of (pc_heap pc) v \<noteq> None" if "map_of (pc_entries pc) key = Some (EReady v used)" for key v used
    using map_of_SomeD [OF that] by (intro alive) (force simp: plan_refs_def ready_refs_def)
  show "\<exists>pc'. plan_take f (plan_publish f key r pc) = Some (pc', plan_outcome r)" if l: "(f, key, r) \<in> set (pc_prepared pc)" for f key r
  proof -
    have "(f, key) \<in> set (plan_elected pc)" using l by (force simp: plan_elected_def)
    then obtain fl where fl: "map_of (pc_flights pc) f = Some fl" "fl_result fl = None" using wf_elected_flight [OF inv(6)] by blast
    show ?thesis by (simp add: plan_take_def plan_publish_def flight_publish_spec(1) [OF inv(2) fl])
  qed
  show "map_of (pc_entries (plan_publish f key r pc)) key = (case r of Inr v \<Rightarrow> Some (EReady v (pc_clock pc)) | Inl _ \<Rightarrow> None)" for f key r
    by (simp add: plan_publish_def split: sum.splits)
  fix idle key pc' turn assume e: "plan_enter idle key pc = (pc', turn)"
  note o = plan_enter_outcome [OF e inv(1)]
  show "(\<exists>e. turn = Occupied e) \<longleftrightarrow> map_of (pc_entries pc) key = None \<and> length (pc_entries pc) = capacity
             \<and> \<not> (\<exists>k v used. map_of (pc_entries pc) k = Some (EReady v used) \<and> plan_evictable idle pc v)"
    using o(1) pi by simp
  show "pc_entries pc' = pc_entries pc" if "\<exists>e. turn = Occupied e" using o(2) that by blast
  show "pc_hits pc' = pc_hits pc + (if map_of (pc_entries pc) key = None then 0 else 1)" by (rule o(3))
  show "pc_misses pc' = pc_misses pc + (if \<exists>f. turn = Prepare f then 1 else 0)" by (rule o(4))
qed

text \<open>A cache of one plan while that plan is being prepared: a request for another key is refused.\<close>

definition demo_cache :: "(nat, nat) plan_cache" where
  "demo_cache = \<lparr>pc_capacity = 1, pc_entries = [(7, ELoading 1)], pc_clock = 1, pc_hits = 0, pc_misses = 1, pc_evictions = 0,
     pc_heap = [], pc_flights = [(1, \<lparr>fl_result = None, fl_refs = 1\<rparr>)], pc_held = [], pc_preparing = [(1, 7)],
     pc_prepared = [], pc_waiting = [], pc_leaving = []\<rparr>"

theorem plan_cache_bounded_witness:
  "plan_reach 1 demo_cache \<and> length (pc_entries demo_cache) \<le> 1
    \<and> (\<exists>pc' e. plan_enter (\<lambda>_. True) 8 demo_cache = (pc', Occupied e) \<and> pc_hits pc' = 0)"
proof -
  obtain pc0 :: "(nat, nat) plan_cache" where new: "plan_new 1 = Inr pc0" "plan_enter (\<lambda>_. True) 7 pc0 = (demo_cache, Prepare 1)"
    by (simp add: plan_new_def plan_enter_def plan_elect_def demo_cache_def saturating_add_def usize_MAX_def fresh_id_def)
  have r: "plan_reach 1 demo_cache" unfolding plan_reach_def using new(1) plan_step.enter [OF new(2)] by blast
  obtain pc' turn where e: "plan_enter (\<lambda>_. True) 8 demo_cache = (pc', turn)" by (cases "plan_enter (\<lambda>_. True) 8 demo_cache")
  note p = plan_cache_bounded [OF r]
  note q = p [THEN conjunct2, THEN conjunct2, THEN conjunct2, THEN conjunct2, THEN conjunct1, rule_format, OF e]
  have "map_of (pc_entries demo_cache) 8 = None" "length (pc_entries demo_cache) = 1" "pc_hits demo_cache = 0"
      "\<not> (\<exists>k v used. map_of (pc_entries demo_cache) k = Some (EReady v used) \<and> plan_evictable (\<lambda>_. True) demo_cache v)"
    by (simp_all add: demo_cache_def)
  with q e r p show ?thesis by simp
qed

end
