(* ===== verification/Job_Pool.thy ===== *)
theory Job_Pool
  imports HRX_Prelude "HOL-Library.Multiset"
begin

text \<open>
  The bounded worker pool for host orchestration, \<^verbatim>\<open>src/src/jobs.rs\<close>. The state holds the permit
  counter, the bounded channel, the cancellation state of every accepted job, and the phase of
  every job a worker is running. Each atomic operation and critical section is one
  function; the submitted closures are parameters, what they return is an argument. The calls of the
  completion callbacks and the outcomes of the closures are recorded in order.
\<close>


section \<open>State\<close>

record job_state =
  js_cancelled :: bool
  js_finished :: bool

datatype 'a job_phase = Checking | Working | Returned "'a result" | Notifying

record 'a job_pool =
  jp_workers :: nat
  jp_capacity :: usize
  jp_live :: usize
  jp_open :: bool
  jp_submitting :: nat
  jp_queue :: "nat list"
  jp_running :: "(nat \<times> 'a job_phase) list"
  jp_jobs :: "job_state list"
  jp_outcomes :: "(nat \<times> 'a result) list"
  jp_callbacks :: "(nat \<times> 'a result) list"

definition jobs_new :: "nat \<Rightarrow> usize \<Rightarrow> 'a job_pool result" where
  "jobs_new workers capacity =
     (if workers = 0 \<or> capacity < workers then Inl (Message ''job capacity must be >= nonzero worker count'')
      else Inr \<lparr>jp_workers = workers, jp_capacity = capacity, jp_live = 0, jp_open = True, jp_submitting = 0, jp_queue = [],
         jp_running = [], jp_jobs = [], jp_outcomes = [], jp_callbacks = []\<rparr>)"

definition outstanding :: "'a job_pool \<Rightarrow> usize" where
  "outstanding p = jp_live p"


section \<open>Handles\<close>

definition job_cancel :: "nat \<Rightarrow> 'a job_pool \<Rightarrow> 'a job_pool \<times> bool" where
  "job_cancel j p =
     (if js_finished (jp_jobs p ! j) then (p, False)
      else (p\<lparr>jp_jobs := (jp_jobs p)[j := (jp_jobs p ! j)\<lparr>js_cancelled := True\<rparr>]\<rparr>, True))"

definition job_is_cancelled :: "nat \<Rightarrow> 'a job_pool \<Rightarrow> bool" where
  "job_is_cancelled j p = js_cancelled (jp_jobs p ! j)"

definition job_is_finished :: "nat \<Rightarrow> 'a job_pool \<Rightarrow> bool" where
  "job_is_finished j p = js_finished (jp_jobs p ! j)"


section \<open>Submission\<close>

text \<open>\<open>submit\<close> first takes a permit, then sends the task without waiting.\<close>

definition submit_permit :: "'a job_pool \<Rightarrow> 'a job_pool result" where
  "submit_permit p =
     (if jp_live p < jp_capacity p then Inr (p\<lparr>jp_live := jp_live p + 1, jp_submitting := jp_submitting p + 1\<rparr>)
      else Inl (Busy ''job capacity is occupied''))"

text \<open>A task that cannot be sent is dropped with its permit.\<close>

definition submit_send :: "'a job_pool \<Rightarrow> 'a job_pool \<times> nat result" where
  "submit_send p =
     (if jp_open p \<and> length (jp_queue p) < jp_capacity p
      then (p\<lparr>jp_submitting := jp_submitting p - 1, jp_jobs := jp_jobs p @ [\<lparr>js_cancelled = False, js_finished = False\<rparr>],
              jp_queue := jp_queue p @ [length (jp_jobs p)]\<rparr>, Inr (length (jp_jobs p)))
      else (p\<lparr>jp_submitting := jp_submitting p - 1, jp_live := jp_live p - 1\<rparr>, Inl (Busy ''job queue unavailable'')))"


section \<open>Workers\<close>

text \<open>An idle worker receives the next task; after the pool is dropped and the queue is drained, it leaves.\<close>

definition worker_recv :: "'a job_pool \<Rightarrow> 'a job_pool option" where
  "worker_recv p =
     (case jp_queue p of
        [] \<Rightarrow> None
      | j # q \<Rightarrow> if length (jp_running p) < jp_workers p
          then Some (p\<lparr>jp_queue := q, jp_running := (j, Checking) # jp_running p\<rparr>) else None)"

definition worker_leave :: "'a job_pool \<Rightarrow> 'a job_pool option" where
  "worker_leave p =
     (if \<not> jp_open p \<and> jp_queue p = [] \<and> length (jp_running p) < jp_workers p
      then Some (p\<lparr>jp_workers := jp_workers p - 1\<rparr>) else None)"

definition phase_to :: "nat \<Rightarrow> 'a job_phase \<Rightarrow> (nat \<times> 'a job_phase) list \<Rightarrow> (nat \<times> 'a job_phase) list" where
  "phase_to j ph rs = map (\<lambda>x. (fst x, if fst x = j then ph else snd x)) rs"

definition set_phase :: "nat \<Rightarrow> 'a job_phase \<Rightarrow> 'a job_pool \<Rightarrow> 'a job_pool" where
  "set_phase j ph p = p\<lparr>jp_running := phase_to j ph (jp_running p)\<rparr>"

text \<open>The task: it skips its work when already cancelled.\<close>

definition task_begin :: "nat \<Rightarrow> 'a job_pool \<Rightarrow> 'a job_pool" where
  "task_begin j p = set_phase j (if job_is_cancelled j p then Returned (Inl Cancelled) else Working) p"

text \<open>The work returned (\<open>None\<close>: it panicked).\<close>

definition task_return :: "nat \<Rightarrow> 'a result option \<Rightarrow> 'a job_pool \<Rightarrow> 'a job_pool" where
  "task_return j out p =
     (let r = (case out of Some r \<Rightarrow> r | None \<Rightarrow> Inl (Message ''job panicked''))
      in set_phase j (Returned r) (p\<lparr>jp_outcomes := (j, r) # jp_outcomes p\<rparr>))"

text \<open>Under the lock the job becomes finished and its result is settled; then the callback is called.\<close>

definition task_finish :: "nat \<Rightarrow> 'a result \<Rightarrow> 'a job_pool \<Rightarrow> 'a job_pool" where
  "task_finish j r p =
     (let s = jp_jobs p ! j; r' = (if js_cancelled s then Inl Cancelled else r)
      in set_phase j Notifying (p\<lparr>jp_jobs := (jp_jobs p)[j := s\<lparr>js_finished := True\<rparr>], jp_callbacks := (j, r') # jp_callbacks p\<rparr>))"

text \<open>The callback returned or panicked; the permit is dropped with the task.\<close>

definition task_end :: "nat \<Rightarrow> 'a job_pool \<Rightarrow> 'a job_pool" where
  "task_end j p = p\<lparr>jp_running := filter (\<lambda>x. fst x \<noteq> j) (jp_running p), jp_live := jp_live p - 1\<rparr>"

definition owner_drop :: "'a job_pool \<Rightarrow> 'a job_pool" where
  "owner_drop p = p\<lparr>jp_open := False\<rparr>"


section \<open>Reachable pools\<close>

text \<open>Submitters and handles exist only as long as a clone of the pool does; handles may outlive it.\<close>

inductive jobs_step :: "'a job_pool \<Rightarrow> 'a job_pool \<Rightarrow> bool" where
  permit: "jp_open p \<Longrightarrow> submit_permit p = Inr p' \<Longrightarrow> jobs_step p p'"
| send: "jp_open p \<Longrightarrow> jp_submitting p > 0 \<Longrightarrow> submit_send p = (p', r) \<Longrightarrow> jobs_step p p'"
| cancel: "j < length (jp_jobs p) \<Longrightarrow> job_cancel j p = (p', b) \<Longrightarrow> jobs_step p p'"
| recv: "worker_recv p = Some p' \<Longrightarrow> jobs_step p p'"
| leave: "worker_leave p = Some p' \<Longrightarrow> jobs_step p p'"
| begin_task: "(j, Checking) \<in> set (jp_running p) \<Longrightarrow> jobs_step p (task_begin j p)"
| return_task: "(j, Working) \<in> set (jp_running p) \<Longrightarrow> jobs_step p (task_return j out p)"
| finish_task: "(j, Returned r) \<in> set (jp_running p) \<Longrightarrow> jobs_step p (task_finish j r p)"
| end_task: "(j, Notifying) \<in> set (jp_running p) \<Longrightarrow> jobs_step p (task_end j p)"
| drop_owner: "jp_submitting p = 0 \<Longrightarrow> jobs_step p (owner_drop p)"

definition jobs_reach :: "nat \<Rightarrow> usize \<Rightarrow> 'a job_pool \<Rightarrow> bool" where
  "jobs_reach workers capacity p \<longleftrightarrow> (\<exists>p0. jobs_new workers capacity = Inr p0 \<and> jobs_step\<^sup>*\<^sup>* p0 p)"

section \<open>Where the jobs are\<close>

text \<open>
  Every accepted job is queued, running or called back; \<open>Notifying\<close> is running and called back at
  once. A job is finished exactly when its callback has been called.
\<close>

definition places :: "nat list \<Rightarrow> (nat \<times> 'a job_phase) list \<Rightarrow> nat list \<Rightarrow> bool list \<Rightarrow> bool" where
  "places qs rs cs fin \<longleftrightarrow> distinct (qs @ map fst rs) \<and> distinct cs
     \<and> set qs \<union> fst ` set rs \<union> set cs = {..<length fin} \<and> set qs \<inter> set cs = {}
     \<and> (\<forall>j ph. (j, ph) \<in> set rs \<longrightarrow> (j \<in> set cs \<longleftrightarrow> ph = Notifying))
     \<and> (\<forall>j<length fin. fin ! j \<longleftrightarrow> j \<in> set cs)"

lemma phase_to_keys [simp]:
  "map fst (phase_to j ph rs) = map fst rs" "length (phase_to j ph rs) = length rs" "fst ` set (phase_to j ph rs) = fst ` set rs"
  by (simp_all add: phase_to_def comp_def image_image)

lemma phase_to_mem:
  "(j, ph0) \<in> set rs \<Longrightarrow> (k, q) \<in> set (phase_to j ph rs) \<longleftrightarrow> (if k = j then q = ph else (k, q) \<in> set rs)"
  by (force simp: phase_to_def)

lemma places_send: "places qs rs cs fin \<Longrightarrow> places (qs @ [length fin]) rs cs (fin @ [False])"
proof -
  assume pl: "places qs rs cs fin"
  then have all: "set qs \<union> fst ` set rs \<union> set cs = {..<length fin}" by (simp add: places_def)
  then have "length fin \<notin> set qs" "length fin \<notin> fst ` set rs" "length fin \<notin> set cs"
    by (metis UnI1 UnI2 lessThan_iff less_irrefl)+
  moreover have "set (qs @ [length fin]) \<union> fst ` set rs \<union> set cs = {..<length (fin @ [False])}"
    using all by (simp add: lessThan_Suc)
  ultimately show ?thesis using pl unfolding places_def by (simp add: nth_append less_Suc_eq)
qed

lemma places_recv: "places (j # qs) rs cs fin \<Longrightarrow> places qs ((j, Checking) # rs) cs fin"
  unfolding places_def by auto

lemma places_phase:
  assumes "places qs rs cs fin" "(j, ph0) \<in> set rs" "ph0 \<noteq> Notifying" "ph \<noteq> Notifying"
  shows "places qs (phase_to j ph rs) cs fin"
  using assms unfolding places_def phase_to_mem [OF assms(2)] by (simp split: if_splits)

lemma places_finish:
  assumes "places qs rs cs fin" "(j, ph0) \<in> set rs" "ph0 \<noteq> Notifying"
  shows "places qs (phase_to j Notifying rs) (j # cs) (fin[j := True])"
proof -
  have j: "j \<in> fst ` set rs" using assms(2) by force
  have new: "j \<notin> set cs" "j \<notin> set qs" using assms j unfolding places_def by (blast, auto)
  have all: "set qs \<union> fst ` set rs \<union> set cs = {..<length fin}" using assms(1) by (simp add: places_def)
  then have "j < length fin" using j by (metis UnI1 UnI2 lessThan_iff)
  then show ?thesis using assms new all j unfolding places_def phase_to_mem [OF assms(2)]
    by (simp add: nth_list_update) (metis Un_insert_right insert_absorb lessThan_iff UnI1 UnI2)
qed

lemma places_end:
  assumes "places qs rs cs fin" "(j, Notifying) \<in> set rs"
  shows "places qs (filter (\<lambda>x. fst x \<noteq> j) rs) cs fin"
proof -
  have j: "j \<in> set cs" using assms unfolding places_def by blast
  have k: "fst ` set (filter (\<lambda>x. fst x \<noteq> j) rs) = fst ` set rs - {j}" by auto
  have "distinct (map fst (filter (\<lambda>x. fst x \<noteq> j) rs))" using assms(1) by (simp add: places_def distinct_map_filter)
  moreover have "set qs \<union> (fst ` set rs - {j}) \<union> set cs = set qs \<union> fst ` set rs \<union> set cs" using j by blast
  ultimately show ?thesis using assms(1) unfolding places_def distinct_append set_map k by auto
qed

text \<open>What the running and called back jobs will have reported, or have.\<close>

definition settled :: "(nat \<times> 'a job_phase) list \<Rightarrow> (nat \<times> 'a result) list \<Rightarrow> (nat \<times> 'a result) list \<Rightarrow> (nat \<Rightarrow> bool) \<Rightarrow> bool" where
  "settled rs os cbs cancelled \<longleftrightarrow> distinct (map fst os)
     \<and> (\<forall>j\<in>fst ` set os. j \<in> fst ` set cbs \<or> (\<exists>r. (j, Returned r) \<in> set rs))
     \<and> (\<forall>j r. (j, Returned r) \<in> set rs \<longrightarrow> r = Inl Cancelled \<and> cancelled j \<or> (j, r) \<in> set os)
     \<and> (\<forall>j r. (j, r) \<in> set cbs \<longrightarrow> (if cancelled j then r = Inl Cancelled else (j, r) \<in> set os))"

lemma settled_mono:
  assumes "settled rs os cbs c" "\<And>j. c j \<Longrightarrow> c' j" "\<And>j. j \<in> fst ` set cbs \<Longrightarrow> c' j = c j"
    "\<And>j r. (j, Returned r) \<in> set rs' \<longleftrightarrow> (j, Returned r) \<in> set rs"
  shows "settled rs' os cbs c'"
proof -
  have "if c' j then r = Inl Cancelled else (j, r) \<in> set os" if "(j, r) \<in> set cbs" for j r
  proof -
    have "c' j = c j" using that by (intro assms(3)) force
    with assms(1) that show ?thesis unfolding settled_def by simp
  qed
  with assms(1,2,4) show ?thesis unfolding settled_def by blast
qed

lemma settled_skip:
  assumes "settled rs os cbs c" "(j, ph0) \<in> set rs" "\<And>r. ph0 \<noteq> Returned r" "c j" "distinct (map fst rs)"
  shows "settled (phase_to j (Returned (Inl Cancelled)) rs) os cbs c"
proof -
  have "ph = ph0" if "(j, ph) \<in> set rs" for ph using that assms(2,5) by (meson eq_key_imp_eq_value)
  with assms(1,3,4) show ?thesis unfolding settled_def phase_to_mem [OF assms(2)] by (simp split: if_splits) metis
qed

lemma settled_return:
  assumes "settled rs os cbs c" "(j, ph0) \<in> set rs" "\<And>r. ph0 \<noteq> Returned r" "distinct (map fst rs)" "j \<notin> fst ` set cbs"
  shows "settled (phase_to j (Returned r) rs) ((j, r) # os) cbs c"
proof -
  have "ph = ph0" if "(j, ph) \<in> set rs" for ph using that assms(2,4) by (meson eq_key_imp_eq_value)
  then have "j \<notin> fst ` set os" using assms(1,3,5) unfolding settled_def by metis
  with assms(1) show ?thesis unfolding settled_def phase_to_mem [OF assms(2)] by (simp split: if_splits) metis
qed

lemma settled_finish:
  assumes "settled rs os cbs c" "(j, Returned r) \<in> set rs" "distinct (map fst rs)"
  shows "settled (phase_to j Notifying rs) os ((j, if c j then Inl Cancelled else r) # cbs) c"
proof -
  have "(j, r) \<in> set os" if "\<not> c j" using assms(1,2) that unfolding settled_def by blast
  with assms(1) show ?thesis unfolding settled_def phase_to_mem [OF assms(2)] by (simp split: if_splits) metis
qed


section \<open>Invariant\<close>

definition counts_inv :: "'a job_pool \<Rightarrow> bool" where
  "counts_inv p \<longleftrightarrow> jp_live p = jp_submitting p + length (jp_queue p) + length (jp_running p) \<and> jp_live p \<le> jp_capacity p
     \<and> length (jp_running p) \<le> jp_workers p \<and> (jp_queue p \<noteq> [] \<longrightarrow> 0 < jp_workers p) \<and> (jp_open p \<longrightarrow> 0 < jp_workers p)"

definition jobs_inv :: "'a job_pool \<Rightarrow> bool" where
  "jobs_inv p \<longleftrightarrow> counts_inv p
     \<and> places (jp_queue p) (jp_running p) (map fst (jp_callbacks p)) (map js_finished (jp_jobs p))
     \<and> settled (jp_running p) (jp_outcomes p) (jp_callbacks p) (\<lambda>j. js_cancelled (jp_jobs p ! j))"

lemma jobs_invD:
  assumes "jobs_inv p"
  shows "counts_inv p" "places (jp_queue p) (jp_running p) (map fst (jp_callbacks p)) (map js_finished (jp_jobs p))"
    "settled (jp_running p) (jp_outcomes p) (jp_callbacks p) (\<lambda>j. js_cancelled (jp_jobs p ! j))"
    "distinct (map fst (jp_running p))" "j \<in> fst ` set (jp_running p) \<Longrightarrow> j < length (jp_jobs p)"
    "j \<in> fst ` set (jp_callbacks p) \<Longrightarrow> j < length (jp_jobs p)"
proof -
  show 1: "counts_inv p" "places (jp_queue p) (jp_running p) (map fst (jp_callbacks p)) (map js_finished (jp_jobs p))"
      "settled (jp_running p) (jp_outcomes p) (jp_callbacks p) (\<lambda>j. js_cancelled (jp_jobs p ! j))"
    using assms by (simp_all add: jobs_inv_def)
  then show "distinct (map fst (jp_running p))" by (simp add: places_def)
  have "set (jp_queue p) \<union> fst ` set (jp_running p) \<union> fst ` set (jp_callbacks p) = {..<length (jp_jobs p)}"
    using 1(2) by (simp add: places_def)
  then show "j \<in> fst ` set (jp_running p) \<Longrightarrow> j < length (jp_jobs p)" "j \<in> fst ` set (jp_callbacks p) \<Longrightarrow> j < length (jp_jobs p)"
    by (metis UnI1 UnI2 lessThan_iff)+
qed

lemma keyed_head:
  assumes "(j, ph) \<in> set (x # rs)" "distinct (map fst (x # rs))" "fst x = j"
  shows "x = (j, ph)" "\<forall>y\<in>set rs. fst y \<noteq> j"
proof -
  show rest: "\<forall>y\<in>set rs. fst y \<noteq> j" using assms(2,3) by (metis distinct.simps(2) image_eqI list.set_map list.simps(9))
  with assms(1) show "x = (j, ph)" by (metis fst_conv set_ConsD)
qed

lemma filter_other: "(j, ph) \<in> set xs \<Longrightarrow> distinct (map fst xs) \<Longrightarrow> length (filter (\<lambda>x. fst x \<noteq> j) xs) + 1 = length xs"
proof (induction xs)
  case (Cons x xs)
  show ?case
  proof (cases "fst x = j")
    case True
    from keyed_head(2) [OF Cons.prems True] have "filter (\<lambda>x. fst x \<noteq> j) xs = xs" by (simp add: filter_id_conv)
    with True show ?thesis by simp
  next
    case False
    with Cons show ?thesis by auto
  qed
qed simp

lemma counts_step: "jobs_step p p' \<Longrightarrow> counts_inv p \<Longrightarrow> distinct (map fst (jp_running p)) \<Longrightarrow> counts_inv p' \<and> jp_capacity p' = jp_capacity p"
proof (induction rule: jobs_step.induct)
  case (end_task j p)
  from filter_other [OF end_task(1,3)] end_task(2) show ?case unfolding counts_inv_def task_end_def by simp linarith
qed (auto simp: counts_inv_def submit_permit_def submit_send_def job_cancel_def worker_recv_def worker_leave_def owner_drop_def
    task_begin_def task_return_def task_finish_def set_phase_def Let_def split: if_splits list.splits)

lemma phase_step:
  assumes "jobs_inv p" "(j, ph0) \<in> set (jp_running p)" "ph0 = Checking \<or> ph0 = Working" "ph = Working \<or> (\<exists>r. ph = Returned r)"
  shows "places (jp_queue p) (phase_to j ph (jp_running p)) (map fst (jp_callbacks p)) (map js_finished (jp_jobs p))"
    "j \<notin> fst ` set (jp_callbacks p)"
proof -
  note inv = jobs_invD [OF assms(1)]
  show "places (jp_queue p) (phase_to j ph (jp_running p)) (map fst (jp_callbacks p)) (map js_finished (jp_jobs p))"
    using assms(3,4) by (intro places_phase [OF inv(2) assms(2)]) auto
  have "j \<in> set (map fst (jp_callbacks p)) \<longleftrightarrow> ph0 = Notifying" using inv(2) assms(2) unfolding places_def by blast
  then show "j \<notin> fst ` set (jp_callbacks p)" using assms(3) by auto
qed

lemma jobs_inv_begin:
  assumes "jobs_inv p" "(j, Checking) \<in> set (jp_running p)"
  shows "places (jp_queue p) (jp_running (task_begin j p)) (map fst (jp_callbacks p)) (map js_finished (jp_jobs p))"
    "settled (jp_running (task_begin j p)) (jp_outcomes p) (jp_callbacks p) (\<lambda>j. js_cancelled (jp_jobs p ! j))"
proof -
  note inv = jobs_invD [OF assms(1)]
  show "places (jp_queue p) (jp_running (task_begin j p)) (map fst (jp_callbacks p)) (map js_finished (jp_jobs p))"
    using phase_step(1) [OF assms] by (simp add: task_begin_def set_phase_def)
  have one: "ph = Checking" if "(j, ph) \<in> set (jp_running p)" for ph using that assms(2) inv(4) by (meson eq_key_imp_eq_value)
  show "settled (jp_running (task_begin j p)) (jp_outcomes p) (jp_callbacks p) (\<lambda>j. js_cancelled (jp_jobs p ! j))"
  proof (cases "job_is_cancelled j p")
    case True
    then show ?thesis using settled_skip [OF inv(3) assms(2)] inv(4) by (simp add: task_begin_def set_phase_def job_is_cancelled_def)
  next
    case False
    then show ?thesis
      by (auto simp: task_begin_def set_phase_def phase_to_mem [OF assms(2)] dest: one intro!: settled_mono [OF inv(3)] split: if_splits)
  qed
qed

lemma jobs_inv_cancel:
  assumes "jobs_inv p" "j < length (jp_jobs p)" "job_cancel j p = (p', b)"
  shows "places (jp_queue p') (jp_running p') (map fst (jp_callbacks p')) (map js_finished (jp_jobs p'))
    \<and> settled (jp_running p') (jp_outcomes p') (jp_callbacks p') (\<lambda>j. js_cancelled (jp_jobs p' ! j))"
proof (cases "js_finished (jp_jobs p ! j)")
  case True
  with assms(1,3) show ?thesis by (auto simp: job_cancel_def jobs_inv_def)
next
  case False
  note inv = jobs_invD [OF assms(1)]
  let ?jobs = "(jp_jobs p)[j := (jp_jobs p ! j)\<lparr>js_cancelled := True\<rparr>]"
  have p': "p' = p\<lparr>jp_jobs := ?jobs\<rparr>" using False assms(3) by (simp add: job_cancel_def)
  have "map js_finished ?jobs = map js_finished (jp_jobs p)"
    using assms(2) by (intro nth_equalityI) (auto simp: nth_list_update)
  moreover have "j \<notin> fst ` set (jp_callbacks p)" using False inv(2) assms(2) by (auto simp: places_def)
  then have "settled (jp_running p) (jp_outcomes p) (jp_callbacks p) (\<lambda>j. js_cancelled (?jobs ! j))"
    by (intro settled_mono [OF inv(3)]) (auto simp: nth_list_update assms(2))
  ultimately show ?thesis using inv(2) by (simp add: p')
qed

lemma jobs_inv_finish:
  assumes "jobs_inv p" "(j, Returned r) \<in> set (jp_running p)"
  shows "places (jp_queue p) (jp_running (task_finish j r p)) (map fst (jp_callbacks (task_finish j r p))) (map js_finished (jp_jobs (task_finish j r p)))"
    "settled (jp_running (task_finish j r p)) (jp_outcomes p) (jp_callbacks (task_finish j r p)) (\<lambda>k. js_cancelled (jp_jobs (task_finish j r p) ! k))"
proof -
  note inv = jobs_invD [OF assms(1)]
  let ?jobs = "(jp_jobs p)[j := (jp_jobs p ! j)\<lparr>js_finished := True\<rparr>]"
  have j: "j < length (jp_jobs p)" using inv(5) assms(2) by force
  have fields: "jp_running (task_finish j r p) = phase_to j Notifying (jp_running p)" "jp_jobs (task_finish j r p) = ?jobs"
      "jp_callbacks (task_finish j r p) = (j, if js_cancelled (jp_jobs p ! j) then Inl Cancelled else r) # jp_callbacks p"
    by (simp_all add: task_finish_def set_phase_def Let_def)
  have "map js_finished ?jobs = (map js_finished (jp_jobs p))[j := True]" by (simp add: map_update)
  then show "places (jp_queue p) (jp_running (task_finish j r p)) (map fst (jp_callbacks (task_finish j r p))) (map js_finished (jp_jobs (task_finish j r p)))"
    using places_finish [OF inv(2) assms(2)] by (simp add: fields)
  have "(\<lambda>k. js_cancelled (?jobs ! k)) = (\<lambda>k. js_cancelled (jp_jobs p ! k))" using j by (auto simp: nth_list_update fun_eq_iff)
  then show "settled (jp_running (task_finish j r p)) (jp_outcomes p) (jp_callbacks (task_finish j r p)) (\<lambda>k. js_cancelled (jp_jobs (task_finish j r p) ! k))"
    using settled_finish [OF inv(3) assms(2) inv(4)] by (simp add: fields)
qed

lemma jobs_inv_send:
  assumes "jobs_inv p" "submit_send p = (p', r)"
  shows "places (jp_queue p') (jp_running p') (map fst (jp_callbacks p')) (map js_finished (jp_jobs p'))
    \<and> settled (jp_running p') (jp_outcomes p') (jp_callbacks p') (\<lambda>j. js_cancelled (jp_jobs p' ! j))"
proof (cases "jp_open p \<and> length (jp_queue p) < jp_capacity p")
  case False
  with assms show ?thesis by (auto simp: submit_send_def jobs_inv_def)
next
  case True
  note inv = jobs_invD [OF assms(1)]
  let ?jobs = "jp_jobs p @ [\<lparr>js_cancelled = False, js_finished = False\<rparr>]"
  have p': "p' = p\<lparr>jp_submitting := jp_submitting p - 1, jp_jobs := ?jobs, jp_queue := jp_queue p @ [length (jp_jobs p)]\<rparr>"
    using True assms(2) by (simp add: submit_send_def)
  have "settled (jp_running p) (jp_outcomes p) (jp_callbacks p) (\<lambda>j. js_cancelled (?jobs ! j))"
  proof -
    have same: "js_cancelled (?jobs ! j) = js_cancelled (jp_jobs p ! j)" if "j < length (jp_jobs p)" for j using that by (simp add: nth_append)
    have "if js_cancelled (?jobs ! j) then r = Inl Cancelled else (j, r) \<in> set (jp_outcomes p)" if "(j, r) \<in> set (jp_callbacks p)" for j r
    proof -
      have "j < length (jp_jobs p)" using that by (intro inv(6)) force
      with inv(3) that show ?thesis unfolding settled_def by (simp add: same)
    qed
    moreover have "r = Inl Cancelled \<and> js_cancelled (?jobs ! j) \<or> (j, r) \<in> set (jp_outcomes p)" if "(j, Returned r) \<in> set (jp_running p)" for j r
    proof -
      have "j < length (jp_jobs p)" using that by (intro inv(5)) force
      with inv(3) that show ?thesis unfolding settled_def by (simp add: same)
    qed
    ultimately show ?thesis using inv(3) unfolding settled_def by blast
  qed
  with places_send [OF inv(2)] show ?thesis by (simp add: p')
qed

lemma jobs_inv_step:
  assumes "jobs_step p p'" "jobs_inv p"
  shows "jobs_inv p' \<and> jp_capacity p' = jp_capacity p"
proof -
  note inv = jobs_invD [OF assms(2)] and c = counts_step [OF assms(1) jobs_invD(1,4) [OF assms(2)]]
  have "places (jp_queue p') (jp_running p') (map fst (jp_callbacks p')) (map js_finished (jp_jobs p'))
    \<and> settled (jp_running p') (jp_outcomes p') (jp_callbacks p') (\<lambda>j. js_cancelled (jp_jobs p' ! j))"
    using assms(1)
  proof (cases rule: jobs_step.cases)
    case permit
    with inv(2,3) show ?thesis by (auto simp: submit_permit_def split: if_splits)
  next
    case (send r)
    then show ?thesis using jobs_inv_send [OF assms(2)] by blast
  next
    case (cancel j b)
    then show ?thesis using jobs_inv_cancel [OF assms(2)] by blast
  next
    case recv
    then obtain j q where q: "jp_queue p = j # q" "p' = p\<lparr>jp_queue := q, jp_running := (j, Checking) # jp_running p\<rparr>"
      by (auto simp: worker_recv_def split: list.splits if_splits)
    have "settled (jp_running p') (jp_outcomes p) (jp_callbacks p) (\<lambda>j. js_cancelled (jp_jobs p ! j))"
      by (rule settled_mono [OF inv(3)]) (simp_all add: q(2))
    with places_recv [of j q] inv(2) q show ?thesis by simp
  next
    case leave
    with inv(2,3) show ?thesis by (auto simp: worker_leave_def split: if_splits)
  next
    case (begin_task j)
    with jobs_inv_begin [OF assms(2) begin_task(2)] show ?thesis by (simp add: task_begin_def set_phase_def)
  next
    case (return_task j out)
    then show ?thesis using phase_step(1) [OF assms(2) return_task(2)]
        settled_return [OF inv(3) return_task(2) _ inv(4) phase_step(2) [OF assms(2) return_task(2), of Working]]
      by (simp add: task_return_def set_phase_def Let_def)
  next
    case (finish_task j r)
    with jobs_inv_finish [OF assms(2) finish_task(2)] show ?thesis by (simp add: task_finish_def set_phase_def Let_def)
  next
    case (end_task j)
    have "settled (filter (\<lambda>x. fst x \<noteq> j) (jp_running p)) (jp_outcomes p) (jp_callbacks p) (\<lambda>j. js_cancelled (jp_jobs p ! j))"
    proof (rule settled_mono [OF inv(3)])
      have "ph = Notifying" if "(j, ph) \<in> set (jp_running p)" for ph using that end_task(2) inv(4) by (meson eq_key_imp_eq_value)
      then show "(k, Returned r) \<in> set (filter (\<lambda>x. fst x \<noteq> j) (jp_running p)) \<longleftrightarrow> (k, Returned r) \<in> set (jp_running p)" for k r by auto
    qed simp_all
    with places_end [OF inv(2) end_task(2)] end_task(1) show ?thesis by (simp add: task_end_def)
  next
    case drop_owner
    with inv(2,3) show ?thesis by (simp add: owner_drop_def)
  qed
  with c show ?thesis by (simp add: jobs_inv_def)
qed

lemma jobs_reach_inv: "jobs_reach workers capacity p \<Longrightarrow> jobs_inv p \<and> jp_capacity p = capacity"
proof -
  assume "jobs_reach workers capacity p"
  then obtain p0 :: "'a job_pool" where p0: "jobs_new workers capacity = Inr p0" "jobs_step\<^sup>*\<^sup>* p0 p" by (auto simp: jobs_reach_def)
  from p0(1) have "jobs_inv p0 \<and> jp_capacity p0 = capacity"
    by (auto simp: jobs_new_def jobs_inv_def counts_inv_def places_def settled_def split: if_splits)
  with p0(2) show ?thesis by (induction rule: rtranclp_induct) (auto dest: jobs_inv_step)
qed


section \<open>Draining\<close>

text \<open>The steps of the workers alone, and how many are left.\<close>

inductive worker_step :: "'a job_pool \<Rightarrow> 'a job_pool \<Rightarrow> bool" where
  "worker_recv p = Some p' \<Longrightarrow> worker_step p p'"
| "(j, Checking) \<in> set (jp_running p) \<Longrightarrow> worker_step p (task_begin j p)"
| "(j, Working) \<in> set (jp_running p) \<Longrightarrow> worker_step p (task_return j out p)"
| "(j, Returned r) \<in> set (jp_running p) \<Longrightarrow> worker_step p (task_finish j r p)"
| "(j, Notifying) \<in> set (jp_running p) \<Longrightarrow> worker_step p (task_end j p)"

fun phase_left :: "'a job_phase \<Rightarrow> nat" where
  "phase_left Checking = 4"
| "phase_left Working = 3"
| "phase_left (Returned r) = 2"
| "phase_left Notifying = 1"

definition work_left :: "'a job_pool \<Rightarrow> nat" where
  "work_left p = 5 * length (jp_queue p) + sum_list (map (\<lambda>x. phase_left (snd x)) (jp_running p))"

lemma worker_step_is_step: "worker_step p p' \<Longrightarrow> jobs_step p p'"
  by (induction rule: worker_step.induct) (blast intro: jobs_step.intros)+

lemma phase_to_left:
  "(j, ph0) \<in> set rs \<Longrightarrow> distinct (map fst rs) \<Longrightarrow>
     sum_list (map (\<lambda>x. phase_left (snd x)) (phase_to j ph rs)) + phase_left ph0 = sum_list (map (\<lambda>x. phase_left (snd x)) rs) + phase_left ph"
proof (induction rs)
  case (Cons x rs)
  show ?case
  proof (cases "fst x = j")
    case True
    from keyed_head [OF Cons.prems True] have "phase_to j ph rs = rs" "x = (j, ph0)" by (auto simp: phase_to_def intro!: map_idI)
    with True show ?thesis by (simp add: phase_to_def)
  next
    case False
    with Cons show ?thesis by (auto simp: phase_to_def)
  qed
qed simp

lemma filter_left:
  "(j, ph) \<in> set rs \<Longrightarrow> distinct (map fst rs) \<Longrightarrow>
     sum_list (map (\<lambda>x. phase_left (snd x)) (filter (\<lambda>x. fst x \<noteq> j) rs)) + phase_left ph = sum_list (map (\<lambda>x. phase_left (snd x)) rs)"
proof (induction rs)
  case (Cons x rs)
  show ?case
  proof (cases "fst x = j")
    case True
    from keyed_head [OF Cons.prems True] have "filter (\<lambda>x. fst x \<noteq> j) rs = rs" "x = (j, ph)" by (auto simp: filter_id_conv)
    with True show ?thesis by simp
  next
    case False
    with Cons show ?thesis by auto
  qed
qed simp

lemma worker_step_left:
  assumes "worker_step p p'" "distinct (map fst (jp_running p))"
  shows "work_left p' < work_left p"
  using assms(1)
proof (cases rule: worker_step.cases)
  case 1
  then show ?thesis by (auto simp: worker_recv_def work_left_def split: list.splits if_splits)
next
  case (2 j)
  show ?thesis using phase_to_left [OF 2(2) assms(2), of Working] phase_to_left [OF 2(2) assms(2), of "Returned (Inl Cancelled)"]
    by (simp add: 2(1) task_begin_def set_phase_def work_left_def)
next
  case (3 j out)
  show ?thesis using phase_to_left [OF 3(2) assms(2), of "Returned (case out of Some r \<Rightarrow> r | None \<Rightarrow> Inl (Message ''job panicked''))"]
    by (simp add: 3(1) task_return_def set_phase_def work_left_def Let_def)
next
  case (4 j r)
  show ?thesis using phase_to_left [OF 4(2) assms(2), of Notifying]
    by (simp add: 4(1) task_finish_def set_phase_def work_left_def Let_def)
next
  case (5 j)
  show ?thesis using filter_left [OF 5(2) assms(2)] by (simp add: 5(1) task_end_def work_left_def)
qed

lemma worker_step_enabled:
  assumes "jobs_inv p" "jp_queue p \<noteq> [] \<or> jp_running p \<noteq> []"
  shows "\<exists>p'. worker_step p p'"
proof (cases "jp_running p")
  case Nil
  with assms(2) obtain j q where "jp_queue p = j # q" by (cases "jp_queue p") auto
  moreover have "0 < jp_workers p" using jobs_invD(1) [OF assms(1)] calculation by (simp add: counts_inv_def)
  ultimately have "worker_recv p \<noteq> None" using Nil by (simp add: worker_recv_def)
  then show ?thesis by (blast intro: worker_step.intros(1))
next
  case (Cons x rs)
  obtain j ph where x: "(j, ph) \<in> set (jp_running p)" using Cons by (cases x) auto
  then show ?thesis by (cases ph) (blast intro: worker_step.intros)+
qed


section \<open>Properties\<close>

text \<open>
  C35: exact accounting and exactly one truthful callback. In every reachable pool the live count is the number of jobs
  being submitted, queued and running, never above the capacity, so that a task with a permit
  always finds room in the channel. Every accepted job is queued, running or called back; no job is called
  back twice and no closure runs twice. A callback receives \<open>Cancelled\<close> if the job was cancelled before it
  finished and otherwise what the closure returned; cancelling afterwards is refused.
\<close>

theorem job_pool_exact:
  assumes "jobs_reach workers capacity p"
  shows "outstanding p = jp_submitting p + length (jp_queue p) + length (jp_running p) \<and> outstanding p \<le> capacity
    \<and> (jp_open p \<and> 0 < jp_submitting p \<longrightarrow> (\<exists>p'. submit_send p = (p', Inr (length (jp_jobs p)))))
    \<and> distinct (map fst (jp_callbacks p)) \<and> distinct (map fst (jp_outcomes p))
    \<and> (\<forall>j<length (jp_jobs p). j \<in> set (jp_queue p) \<or> j \<in> fst ` set (jp_running p) \<or> j \<in> fst ` set (jp_callbacks p))
    \<and> (\<forall>j r. (j, r) \<in> set (jp_callbacks p) \<longrightarrow>
         job_is_finished j p \<and> job_cancel j p = (p, False)
       \<and> (if job_is_cancelled j p then r = Inl Cancelled else (j, r) \<in> set (jp_outcomes p)))"
proof (intro conjI allI impI)
  note ri = jobs_reach_inv [OF assms]
  note inv = jobs_invD [OF conjunct1 [OF ri]]
  show "outstanding p = jp_submitting p + length (jp_queue p) + length (jp_running p)" "outstanding p \<le> capacity"
    using inv(1) ri by (simp_all add: counts_inv_def outstanding_def)
  show "\<exists>p'. submit_send p = (p', Inr (length (jp_jobs p)))" if "jp_open p \<and> 0 < jp_submitting p"
    using inv(1) that by (simp add: counts_inv_def submit_send_def)
  show "distinct (map fst (jp_callbacks p))" "distinct (map fst (jp_outcomes p))"
    using inv(2,3) by (simp_all add: places_def settled_def)
  have all: "set (jp_queue p) \<union> fst ` set (jp_running p) \<union> fst ` set (jp_callbacks p) = {..<length (jp_jobs p)}"
    using inv(2) by (simp add: places_def)
  show "j \<in> set (jp_queue p) \<or> j \<in> fst ` set (jp_running p) \<or> j \<in> fst ` set (jp_callbacks p)" if "j < length (jp_jobs p)" for j
    using that all by (metis UnE lessThan_iff)
  fix j r assume jr: "(j, r) \<in> set (jp_callbacks p)"
  then have c: "j \<in> fst ` set (jp_callbacks p)" by force
  from inv(2) inv(6) [OF c] c have "js_finished (jp_jobs p ! j)" by (simp add: places_def)
  then show "job_is_finished j p" "job_cancel j p = (p, False)" by (simp_all add: job_is_finished_def job_cancel_def)
  show "if job_is_cancelled j p then r = Inl Cancelled else (j, r) \<in> set (jp_outcomes p)"
    using inv(3) jr by (simp add: settled_def job_is_cancelled_def)
qed

text \<open>A pool of one worker: one job, cancelled while its closure runs, called back and not yet ended.\<close>

definition demo_jobs :: "nat \<Rightarrow> nat job_pool" where
  "demo_jobs n = (let p1 = fst (submit_send (projr (submit_permit (projr (jobs_new 1 2))))); p2 = task_begin 0 (the (worker_recv p1))
     in if n = 0 then p1 else if n = 2 then p2 else task_finish 0 (Inr 5) (task_return 0 (Some (Inr 5)) (fst (job_cancel 0 p2))))"

lemma demo_jobs_eval:
  "demo_jobs 0 = \<lparr>jp_workers = 1, jp_capacity = 2, jp_live = 1, jp_open = True, jp_submitting = 0, jp_queue = [0], jp_running = [],
     jp_jobs = [\<lparr>js_cancelled = False, js_finished = False\<rparr>], jp_outcomes = [], jp_callbacks = []\<rparr>"
  "demo_jobs 2 = (demo_jobs 0)\<lparr>jp_queue := [], jp_running := [(0, Working)]\<rparr>"
  "demo_jobs 3 = (demo_jobs 2)\<lparr>jp_running := [(0, Notifying)], jp_jobs := [\<lparr>js_cancelled = True, js_finished = True\<rparr>],
     jp_outcomes := [(0, Inr 5)], jp_callbacks := [(0, Inl Cancelled)]\<rparr>"
  by (simp_all add: demo_jobs_def jobs_new_def submit_permit_def submit_send_def worker_recv_def task_begin_def task_return_def
      task_finish_def job_cancel_def job_is_cancelled_def set_phase_def phase_to_def Let_def)

lemma demo_jobs_reach: "jobs_reach 1 2 (demo_jobs 3)"
proof -
  define p0 :: "nat job_pool" where "p0 = projr (jobs_new 1 2)"
  have new: "jobs_new 1 2 = Inr p0" by (simp add: p0_def jobs_new_def)
  have "jobs_step\<^sup>*\<^sup>* p0 (projr (submit_permit p0))"
    by (rule r_into_rtranclp, rule jobs_step.permit) (simp_all add: p0_def jobs_new_def submit_permit_def)
  moreover have "jobs_step (projr (submit_permit p0)) (demo_jobs 0)"
    by (rule jobs_step.send [where r = "Inr 0"])
      (simp_all add: p0_def jobs_new_def submit_permit_def submit_send_def demo_jobs_eval(1))
  moreover have "jobs_step (demo_jobs 0) (the (worker_recv (demo_jobs 0)))"
    by (rule jobs_step.recv) (simp add: worker_recv_def demo_jobs_eval(1))
  moreover have "jobs_step (the (worker_recv (demo_jobs 0))) (demo_jobs 2)"
  proof -
    have "(0, Checking) \<in> set (jp_running (the (worker_recv (demo_jobs 0))))" by (simp add: worker_recv_def demo_jobs_eval(1))
    moreover have "demo_jobs 2 = task_begin 0 (the (worker_recv (demo_jobs 0)))" by (simp add: demo_jobs_def)
    ultimately show ?thesis by (simp add: jobs_step.begin_task)
  qed
  moreover have "jobs_step (demo_jobs 2) (fst (job_cancel 0 (demo_jobs 2)))"
    by (rule jobs_step.cancel [where j = 0 and b = True]) (simp_all add: job_cancel_def demo_jobs_eval(1,2))
  moreover have "jobs_step (fst (job_cancel 0 (demo_jobs 2))) (task_return 0 (Some (Inr 5)) (fst (job_cancel 0 (demo_jobs 2))))"
    by (rule jobs_step.return_task) (simp add: job_cancel_def demo_jobs_eval(1,2))
  moreover have "jobs_step (task_return 0 (Some (Inr 5)) (fst (job_cancel 0 (demo_jobs 2)))) (demo_jobs 3)"
    using jobs_step.finish_task [of 0 "Inr 5" "task_return 0 (Some (Inr 5)) (fst (job_cancel 0 (demo_jobs 2)))"]
    by (simp add: job_cancel_def demo_jobs_eval task_return_def task_finish_def set_phase_def phase_to_def Let_def)
  ultimately have "jobs_step\<^sup>*\<^sup>* p0 (demo_jobs 3)" by (meson rtranclp.rtrancl_into_rtrancl)
  with new show ?thesis by (auto simp: jobs_reach_def)
qed

theorem job_pool_exact_witness:
  "outstanding (demo_jobs 3) \<le> 2 \<and> (0, Inl Cancelled) \<in> set (jp_callbacks (demo_jobs 3)) \<and> job_cancel 0 (demo_jobs 3) = (demo_jobs 3, False)"
proof -
  note p = job_pool_exact [OF demo_jobs_reach]
  have "(0, Inl Cancelled) \<in> set (jp_callbacks (demo_jobs 3))" by (simp add: demo_jobs_eval(3))
  with p show ?thesis by blast
qed

text \<open>
  C36: the pool drains. Every step of a worker brings the work left down, and a reachable pool in
  which no worker can make a step has called back every job it accepted: as long as closures and
  callbacks return, no accepted job is stranded, also after the pool itself is dropped.
\<close>

theorem jobs_drain:
  assumes "jobs_reach workers capacity p"
  shows "(\<forall>p'. worker_step p p' \<longrightarrow> work_left p' < work_left p)
    \<and> ((\<exists>p'. worker_step p p')
       \<or> (\<forall>j<length (jp_jobs p). \<exists>r. (j, r) \<in> set (jp_callbacks p)) \<and> outstanding p = jp_submitting p)"
proof
  note ri = jobs_reach_inv [OF assms]
  note inv = jobs_invD [OF conjunct1 [OF ri]]
  show "\<forall>p'. worker_step p p' \<longrightarrow> work_left p' < work_left p" using worker_step_left inv(4) by blast
  show "(\<exists>p'. worker_step p p') \<or> (\<forall>j<length (jp_jobs p). \<exists>r. (j, r) \<in> set (jp_callbacks p)) \<and> outstanding p = jp_submitting p"
  proof (cases "jp_queue p \<noteq> [] \<or> jp_running p \<noteq> []")
    case True
    then show ?thesis using worker_step_enabled ri by blast
  next
    case False
    then have "fst ` set (jp_callbacks p) = {..<length (jp_jobs p)}" using inv(2) by (simp add: places_def)
    moreover have "outstanding p = jp_submitting p" using False inv(1) by (simp add: counts_inv_def outstanding_def)
    ultimately show ?thesis by (metis (no_types, lifting) imageE lessThan_iff prod.collapse)
  qed
qed

theorem jobs_drain_witness:
  "worker_step (demo_jobs 3) (task_end 0 (demo_jobs 3)) \<and> work_left (task_end 0 (demo_jobs 3)) < work_left (demo_jobs 3)"
proof -
  have "worker_step (demo_jobs 3) (task_end 0 (demo_jobs 3))" by (rule worker_step.intros(5)) (simp add: demo_jobs_eval(3))
  with jobs_drain [OF demo_jobs_reach] show ?thesis by blast
qed

end
