(* ===== verification/Span_Merge.thy ===== *)
theory Span_Merge
  imports HRX_Prelude
begin

text \<open>
  Merging of half-open ranges in order of their starts, the loop body that
  \<^verbatim>\<open>fabric/sanitizer.rs\<close> (\<^verbatim>\<open>address_shadow\<close>) and \<^verbatim>\<open>fabric/visibility.rs\<close>
  (\<^verbatim>\<open>coalesce_ranges\<close>) share: a range that starts at or before the end of the last span
  extends it, any other opens a new span.
\<close>

type_synonym span = "nat \<times> nat"

definition merge_span :: "span \<Rightarrow> span list \<Rightarrow> span list" where
  "merge_span x ms =
     (if ms \<noteq> [] \<and> fst x \<le> snd (List.last ms)
      then butlast ms @ [(fst (List.last ms), max (snd (List.last ms)) (snd x))]
      else ms @ [x])"

definition covered :: "span list \<Rightarrow> nat set" where
  "covered ms = (\<Union>x\<in>set ms. {fst x..<snd x})"

text \<open>Nonempty spans in ascending order with a gap between neighbours.\<close>

definition separated :: "span list \<Rightarrow> bool" where
  "separated ms \<longleftrightarrow> sorted_wrt (\<lambda>x y. snd x < fst y) ms \<and> (\<forall>x\<in>set ms. fst x < snd x)"

lemma covered_simps [simp]:
  "covered [] = {}" "covered (x # ms) = {fst x..<snd x} \<union> covered ms" "covered (ms @ ns) = covered ms \<union> covered ns"
  by (auto simp: covered_def)

lemma separated_Nil [simp]: "separated []"
  by (simp add: separated_def)

lemma separated_snoc:
  "separated (ms @ [x]) \<longleftrightarrow> separated ms \<and> fst x < snd x \<and> (\<forall>y\<in>set ms. snd y < fst x)"
  by (auto simp: separated_def sorted_wrt_append)

lemma merge_span_cases:
  obtains (extend) bs y where "ms = bs @ [y]" "fst x \<le> snd y" "merge_span x ms = bs @ [(fst y, max (snd y) (snd x))]"
  | (open_new) "merge_span x ms = ms @ [x]" "ms = [] \<or> snd (List.last ms) < fst x"
proof (cases "ms \<noteq> [] \<and> fst x \<le> snd (List.last ms)")
  case True
  with extend [of "butlast ms" "List.last ms"] show ?thesis by (simp add: merge_span_def)
next
  case False
  with open_new show ?thesis by (auto simp: merge_span_def)
qed

lemma merge_span_ends:
  "\<forall>y\<in>set (merge_span x ms). fst y \<in> insert (fst x) (fst ` set ms) \<and> snd y \<in> insert (snd x) (snd ` set ms)"
  by (rule merge_span_cases [of ms x]) (auto simp: max_def)

lemma merge_span_nonempty [simp]: "merge_span x ms \<noteq> []"
  by (simp add: merge_span_def)

lemma merge_span_hd: "fst (hd (merge_span x ms)) = (if ms = [] then fst x else fst (hd ms))"
  by (rule merge_span_cases [of ms x]) (auto simp: hd_append)

lemma merge_span_spec:
  assumes "separated ms" "fst x < snd x" "\<forall>y\<in>set ms. fst y \<le> fst x"
  shows "separated (merge_span x ms)" "covered (merge_span x ms) = covered ms \<union> {fst x..<snd x}"
    "\<forall>y\<in>set (merge_span x ms). fst y \<le> fst x"
proof -
  show "\<forall>y\<in>set (merge_span x ms). fst y \<le> fst x" using merge_span_ends [of x ms] assms(3) by fastforce
  have "separated (merge_span x ms) \<and> covered (merge_span x ms) = covered ms \<union> {fst x..<snd x}"
  proof (rule merge_span_cases [of ms x])
    fix bs y assume "ms = bs @ [y]" "fst x \<le> snd y" "merge_span x ms = bs @ [(fst y, max (snd y) (snd x))]"
    with assms show ?thesis by (auto simp: separated_snoc max_def)
  next
    assume new: "merge_span x ms = ms @ [x]" "ms = [] \<or> snd (List.last ms) < fst x"
    have "snd y < fst x" if "y \<in> set ms" for y
    proof -
      from that obtain bs z where ms: "ms = bs @ [z]" by (cases ms rule: rev_cases) auto
      with assms(1) new(2) that show ?thesis by (auto simp: separated_snoc)
    qed
    with new(1) assms show ?thesis by (auto simp: separated_snoc)
  qed
  then show "separated (merge_span x ms)" "covered (merge_span x ms) = covered ms \<union> {fst x..<snd x}" by simp_all
qed

text \<open>Merging a whole list in order of starts.\<close>

lemma merge_spans_spec:
  assumes "separated ms" "sorted (map fst xs)" "\<forall>x\<in>set xs. fst x < snd x" "\<forall>y\<in>set ms. \<forall>x\<in>set xs. fst y \<le> fst x"
  shows "separated (fold merge_span xs ms) \<and> covered (fold merge_span xs ms) = covered ms \<union> covered xs"
  using assms
proof (induction xs arbitrary: ms)
  case (Cons x xs)
  have le: "\<forall>y\<in>set ms. fst y \<le> fst x" using Cons.prems(4) by simp
  note m = merge_span_spec [OF Cons.prems(1) _ le]
  have "\<forall>y\<in>set (merge_span x ms). \<forall>z\<in>set xs. fst y \<le> fst z" using m(3) Cons.prems(2,3) by (auto intro: order_trans)
  with Cons.IH [of "merge_span x ms"] m(1,2) Cons.prems(2,3) show ?case by auto
qed simp

text \<open>Separated lists are canonical: the ranges they cover determine them.\<close>

lemma separated_Cons: "separated (x # ms) \<longleftrightarrow> fst x < snd x \<and> (\<forall>y\<in>set ms. snd x < fst y) \<and> separated ms"
  by (auto simp: separated_def)

lemma covered_above: "\<forall>y\<in>set ms. b < fst y \<Longrightarrow> a \<in> covered ms \<Longrightarrow> b < a"
  by (fastforce simp: covered_def)

lemma separated_first:
  assumes "separated (x # ms)"
  shows "a \<in> covered (x # ms) \<Longrightarrow> fst x \<le> a" "fst x \<in> covered (x # ms)" "snd x \<notin> covered (x # ms)"
    "fst x \<le> a \<Longrightarrow> a < snd x \<Longrightarrow> a \<in> covered (x # ms)"
  using assms covered_above [of ms "snd x"] by (fastforce simp: separated_Cons)+

lemma separated_first_end:
  assumes "separated (x # ms)" "separated (y # ns)" "covered (x # ms) = covered (y # ns)"
  shows "fst x = fst y" "snd x \<le> snd y"
proof -
  have "fst y \<in> covered (x # ms)" unfolding assms(3) by (rule separated_first(2) [OF assms(2)])
  moreover have "fst x \<in> covered (y # ns)" unfolding assms(3) [symmetric] by (rule separated_first(2) [OF assms(1)])
  ultimately show f: "fst x = fst y" by (intro antisym separated_first(1) [OF assms(1)] separated_first(1) [OF assms(2)])
  show "snd x \<le> snd y"
  proof (rule ccontr)
    assume "\<not> snd x \<le> snd y"
    moreover have "fst y < snd y" using assms(2) by (simp add: separated_Cons)
    ultimately have "snd y \<in> covered (x # ms)" using f by (intro separated_first(4) [OF assms(1)]) auto
    then show False using separated_first(3) [OF assms(2)] unfolding assms(3) by contradiction
  qed
qed

lemma separated_unique: "separated ms \<Longrightarrow> separated ns \<Longrightarrow> covered ms = covered ns \<Longrightarrow> ms = ns"
proof (induction ms arbitrary: ns)
  case Nil
  then show ?case by (cases ns) (auto simp: separated_Cons)
next
  case (Cons x ms)
  then obtain y ns' where ns: "ns = y # ns'" by (cases ns) (auto simp: separated_Cons)
  note p = Cons.prems [unfolded ns]
  have xy: "x = y"
    using separated_first_end [OF p] separated_first_end(2) [OF p(2,1) p(3) [symmetric]] by (intro prod_eqI antisym) simp_all
  have tail: "covered ls = covered (x # ls) - {..snd x}" if "separated (x # ls)" for ls
  proof -
    have "snd x < a" if a: "a \<in> covered ls" for a using covered_above [OF _ a] \<open>separated (x # ls)\<close> by (simp add: separated_Cons)
    then show ?thesis by fastforce
  qed
  have "covered ms = covered ns'" using tail [OF p(1)] tail [of ns'] p(2,3) by (simp only: xy)
  with Cons ns xy show ?case by (auto simp: separated_Cons)
qed

end
