(* ===== verification/Align_Mask.thy ===== *)
theory Align_Mask
  imports HRX_Prelude "HOL-Library.Word"
begin

text \<open>
  Rounding addresses to a power of two with the bit mask the sources write, \<open>n & !(page - 1)\<close> on \<open>u64\<close> or \<open>usize\<close>. The
  mask is taken on 64-bit words; the lemmas say what it is on the numbers.
\<close>

unbundle bit_operations_syntax

definition mask_down :: "usize \<Rightarrow> usize \<Rightarrow> usize" where
  "mask_down page n = unat ((word_of_nat n :: 64 word) AND NOT (word_of_nat (page - 1)))"

lemma word_clear_low: "w AND NOT (mask k) = push_bit k (drop_bit k w)" for w :: "64 word"
  by (rule bit_word_eqI) (auto simp only: bit_and_iff bit_not_iff bit_mask_iff bit_push_bit_iff bit_drop_bit_eq possible_bit_word comp_def le_add_diff_inverse)

lemma unat_clear_low: "unat (push_bit k (drop_bit k w)) = unat w div 2 ^ k * 2 ^ k" for w :: "64 word"
proof -
  have "unat w div 2 ^ k * 2 ^ k \<le> unat w" by (rule div_times_less_eq_dividend)
  moreover have w: "unat w < 2 ^ 64" using unsigned_less [of w] by simp
  ultimately have "unat w div 2 ^ k * 2 ^ k < 2 ^ 64" by (rule le_less_trans)
  then show ?thesis using w
    unfolding unsigned_push_bit_eq unsigned_drop_bit_eq
    by (simp add: push_bit_eq_mult drop_bit_eq_div take_bit_eq_mod del: of_nat_mod)
qed

lemma mask_down_power:
  assumes "n \<le> usize_MAX"
  shows "mask_down (2 ^ k) n = n - n mod 2 ^ k"
proof -
  have m: "(word_of_nat (2 ^ k - 1) :: 64 word) = mask k" by (simp add: mask_eq_exp_minus_1 of_nat_diff)
  have "mask_down (2 ^ k) n = unat (word_of_nat n :: 64 word) div 2 ^ k * 2 ^ k"
    unfolding mask_down_def m by (simp only: word_clear_low unat_clear_low)
  also have "\<dots> = n - n mod 2 ^ k" using assms by (simp add: unat_of_nat usize_MAX_def minus_mod_eq_div_mult)
  finally show ?thesis .
qed

lemma mask_down:
  assumes "is_power_of_two page" "n \<le> usize_MAX"
  shows "mask_down page n = n - n mod page" "page dvd mask_down page n" "mask_down page n \<le> n" "n < mask_down page n + page"
proof -
  obtain k where k: "page = 2 ^ k" using assms(1) by (auto simp: is_power_of_two_iff)
  show eq: "mask_down page n = n - n mod page" using mask_down_power [OF assms(2)] k by simp
  show "page dvd mask_down page n" unfolding eq by (simp add: dvd_minus_mod)
  show "mask_down page n \<le> n" unfolding eq by simp
  have "n mod page < page" using k by simp
  then show "n < mask_down page n + page" unfolding eq by linarith
qed

end
