(* ===== verification/Sanitizer_Shadow.thy ===== *)
theory Sanitizer_Shadow
  imports Span_Merge Align_Mask "HOL-Library.Product_Lexorder"
begin

unbundle bit_operations_syntax

text \<open>
  The shadow memory of the address and race sanitizers, \<^verbatim>\<open>src/src/fabric/sanitizer.rs\<close>: the merged
  allocation ranges, the shadow bytes painted from them, and the size of the race shadow.
  Addresses are \<open>u64\<close> values kept as naturals with every overflow check written out; the one
  bitwise mask is taken at 64 bits. A shadow byte describes eight bytes of memory: zero when all
  of them may be accessed, \<open>n\<close> below eight when the first \<open>n\<close> may, and \<open>0xff\<close> when none may.
\<close>


section \<open>Address shadow\<close>

type_synonym u64 = nat

fun merge_ranges :: "(u64 \<times> usize) list \<Rightarrow> span list \<Rightarrow> span list result" where
  "merge_ranges [] merged = Inr merged"
| "merge_ranges ((start, len) # ranges) merged =
     (if start mod 8 \<noteq> 0 \<or> len = 0
      then Inl (Unsupported ''address sanitizer allocations must start on an 8-byte boundary and be nonempty'')
      else case checked_add start len of
        None \<Rightarrow> Inl (Message ''address sanitizer allocation overflow'')
      | Some e \<Rightarrow> merge_ranges ranges (merge_span (start, e) merged))"

text \<open>\<open>n & !7\<close> on \<open>u64\<close>.\<close>

definition mask_granule :: "u64 \<Rightarrow> u64" where
  "mask_granule n = unat ((word_of_nat n :: 64 word) AND NOT 7)"

definition window_end :: "u64 \<Rightarrow> u64 option" where
  "window_end e = map_option mask_granule (checked_add e 7)"

definition fill_slice :: "usize \<Rightarrow> usize \<Rightarrow> nat \<Rightarrow> nat list \<Rightarrow> nat list" where
  "fill_slice first past v bytes = take first bytes @ replicate (past - first) v @ drop past bytes"

definition paint_span :: "u64 \<Rightarrow> span \<Rightarrow> nat list \<Rightarrow> nat list" where
  "paint_span base x bytes =
     (let first = (fst x - base) div 8; past = (snd x - base) div 8; filled = fill_slice first past 0 bytes
      in if snd x mod 8 \<noteq> 0 then filled[past := snd x mod 8] else filled)"

definition address_shadow :: "(u64 \<times> usize) list \<Rightarrow> usize \<Rightarrow> (u64 \<times> u64 \<times> nat list) result" where
  "address_shadow ranges maximum =
     (case merge_ranges (sort ranges) [] of
        Inl e \<Rightarrow> Inl e
      | Inr [] \<Rightarrow> Inl (Message ''empty address sanitizer window'')
      | Inr (m # ms) \<Rightarrow>
          let base = fst m
          in case window_end (snd (List.last (m # ms))) of
               None \<Rightarrow> Inl (Message ''address sanitizer window overflow'')
             | Some e \<Rightarrow>
                 let sz = (e - base) div 8
                 in if sz \<le> maximum
                    then Inr (base, e, fold (paint_span base) (m # ms) (replicate sz 255))
                    else Inl (Message ''address shadow exceeds configured byte limit''))"

text \<open>What a check reads from the shadow.\<close>

definition shadow_allows :: "u64 \<Rightarrow> nat list \<Rightarrow> u64 \<Rightarrow> bool" where
  "shadow_allows base bytes a \<longleftrightarrow> (let v = bytes ! ((a - base) div 8) in v = 0 \<or> v < 8 \<and> a mod 8 < v)"


section \<open>Race shadow\<close>

fun grid_product :: "nat \<Rightarrow> nat list \<Rightarrow> nat option" where
  "grid_product n [] = Some n"
| "grid_product n (v # vs) = (if n * v < 2 ^ 32 then grid_product (n * v) vs else None)"

definition corrupt :: error where
  "corrupt = Message ''invalid sanitizer runtime record''"

definition race_layout :: "nat \<Rightarrow> nat \<times> nat \<times> nat \<Rightarrow> usize \<Rightarrow> (nat \<times> usize \<times> usize) result" where
  "race_layout local_bytes grid maximum =
     (case grid of (x, y, z) \<Rightarrow>
      (case grid_product 1 [x, y, z] of
         None \<Rightarrow> Inl (Message ''race shadow workgroup count overflow or zero'')
       | Some capacity \<Rightarrow>
           if capacity = 0 then Inl (Message ''race shadow workgroup count overflow or zero'')
           else case checked_mul ((local_bytes + 3) div 4) 8 of
             None \<Rightarrow> Inl corrupt
           | Some n \<Rightarrow>
               (case checked_add n 8 of
                  None \<Rightarrow> Inl corrupt
                | Some stride \<Rightarrow>
                    (case checked_mul stride capacity of
                       None \<Rightarrow> Inl (Message ''race shadow exceeds configured byte limit'')
                     | Some sz \<Rightarrow>
                         if sz \<le> maximum \<and> sz div 4 \<le> 2 ^ 32 - 1 - 63 then Inr (capacity, stride, sz)
                         else Inl (Message ''race shadow exceeds configured byte limit'')))))"


section \<open>Merging\<close>

text \<open>Spans that start on granules, are nonempty and separated.\<close>

definition spans_ok :: "span list \<Rightarrow> bool" where
  "spans_ok ms \<longleftrightarrow> separated ms \<and> (\<forall>x\<in>set ms. fst x mod 8 = 0 \<and> snd x \<le> usize_MAX)"

lemma mask_granule: "n \<le> usize_MAX \<Longrightarrow> mask_granule n = n - n mod 8"
  using mask_down_power [of n 3] by (simp add: mask_granule_def mask_down_def)

lemma merge_one:
  assumes "spans_ok ms" "fst x mod 8 = 0" "fst x < snd x" "snd x \<le> usize_MAX" "\<forall>y\<in>set ms. fst y \<le> fst x"
  shows "spans_ok (merge_span x ms)"
  using merge_span_spec(1) [of ms x] merge_span_ends [of x ms] assms by (fastforce simp: spans_ok_def)

lemma merge_ranges_spec:
  assumes "merge_ranges rs ms = Inr ns" "spans_ok ms" "sorted (map fst rs)" "\<forall>x\<in>set ms. \<forall>r\<in>set rs. fst x \<le> fst r"
  shows "spans_ok ns \<and> covered ns = covered ms \<union> (\<Union>r\<in>set rs. {fst r..<fst r + snd r}) \<and> (ns = [] \<longleftrightarrow> ms = [] \<and> rs = [])
    \<and> (\<forall>r\<in>set rs. fst r mod 8 = 0 \<and> snd r \<noteq> 0 \<and> fst r + snd r \<le> usize_MAX)"
  using assms
proof (induction rs ms rule: merge_ranges.induct)
  case (2 start len ranges merged)
  then have g: "start mod 8 = 0" "len \<noteq> 0" "start + len \<le> usize_MAX" by (auto split: if_splits option.splits)
  let ?ns = "merge_span (start, start + len) merged"
  have m: "\<forall>x\<in>set merged. fst x \<le> fst (start, start + len)" using "2.prems"(4) by simp
  have "separated merged" using "2.prems"(2) by (simp add: spans_ok_def)
  note one = merge_span_spec(2,3) [OF this _ m]
  have ok: "spans_ok ?ns" using merge_one [OF "2.prems"(2) _ _ _ m] g by simp
  have rest: "merge_ranges ranges ?ns = Inr ns" using "2.prems"(1) g by (auto simp: checked_add_def)
  have le: "\<forall>x\<in>set ?ns. \<forall>r\<in>set ranges. fst x \<le> fst r" using one(2) g(2) "2.prems"(3) by (auto intro: order_trans)
  show ?case using "2.IH" [of "start + len"] rest ok le one(1) g "2.prems"(3) by auto
qed simp


lemma spans_ok_iff:
  "spans_ok ms \<longleftrightarrow> sorted_wrt (\<lambda>x y. snd x < fst y) ms
     \<and> (\<forall>x\<in>set ms. fst x mod 8 = 0 \<and> fst x < snd x \<and> snd x \<le> usize_MAX)"
  by (auto simp: spans_ok_def separated_def)


section \<open>Painting\<close>

text \<open>The granule \<open>k\<close> of the window meets a span, and the byte it then gets.\<close>

definition touches :: "u64 \<Rightarrow> span \<Rightarrow> nat \<Rightarrow> bool" where
  "touches base x k \<longleftrightarrow> fst x \<le> base + 8 * k \<and> base + 8 * k < snd x"

definition granule_byte :: "u64 \<Rightarrow> span \<Rightarrow> nat \<Rightarrow> nat" where
  "granule_byte base x k = (if base + 8 * k + 8 \<le> snd x then 0 else snd x mod 8)"

definition span_inside :: "u64 \<Rightarrow> nat \<Rightarrow> span \<Rightarrow> bool" where
  "span_inside base n x \<longleftrightarrow> base mod 8 = 0 \<and> fst x mod 8 = 0 \<and> base \<le> fst x \<and> fst x < snd x \<and> snd x \<le> base + 8 * n"

lemma fill_slice_nth:
  assumes "first \<le> past" "past \<le> length bytes" "k < length bytes"
  shows "fill_slice first past v bytes ! k = (if first \<le> k \<and> k < past then v else bytes ! k)"
    "length (fill_slice first past v bytes) = length bytes"
  using assms by (auto simp: fill_slice_def nth_append)

lemma paint_span_nth:
  assumes "span_inside base (length bytes) x" "k < length bytes"
  shows "paint_span base x bytes ! k = (if touches base x k then granule_byte base x k else bytes ! k)"
    "length (paint_span base x bytes) = length bytes"
proof -
  obtain B F where BF: "base = 8 * B" "fst x = 8 * F" using assms(1) by (auto simp: span_inside_def mod_eq_0_iff_dvd dvd_def)
  obtain E r where E: "snd x = 8 * E + r" "r < 8" by (metis mod_less_divisor mult_div_mod_eq zero_less_numeral)
  have le: "B \<le> F" "F \<le> E" "8 * E + r \<le> 8 * B + 8 * length bytes" "8 * F < 8 * E + r"
    using assms(1) BF E by (simp_all add: span_inside_def)
  have first: "(fst x - base) div 8 = F - B" "(snd x - base) div 8 = E - B" "snd x mod 8 = r"
    using BF E le by (simp_all add: diff_mult_distrib2 [symmetric])
  have past: "F - B \<le> E - B" "E - B \<le> length bytes" "r \<noteq> 0 \<Longrightarrow> E - B < length bytes" using le by linarith+
  note fill = fill_slice_nth [OF past(1,2)]
  show "length (paint_span base x bytes) = length bytes" using fill(2) [OF assms(2)] by (simp add: paint_span_def first Let_def)
  have t: "touches base x k \<longleftrightarrow> F - B \<le> k \<and> (k < E - B \<or> k = E - B \<and> r \<noteq> 0)"
    using BF E le by (auto simp: touches_def)
  have g: "granule_byte base x k = (if k < E - B then 0 else r)" if "k \<le> E - B" using BF E le that by (auto simp: granule_byte_def)
  show "paint_span base x bytes ! k = (if touches base x k then granule_byte base x k else bytes ! k)"
    using t g fill(1) [OF assms(2)] fill(2) [OF assms(2)] past assms(2) by (auto simp: paint_span_def first Let_def nth_list_update)
qed

text \<open>Separated spans meet different granules, so the order of painting does not matter.\<close>

lemma touches_once:
  assumes "touches base x k" "touches base y k" "base mod 8 = 0" "fst y mod 8 = 0"
  shows "\<not> snd x < fst y"
proof
  assume "snd x < fst y"
  with assms(1,2) have "base + 8 * k < fst y" "fst y \<le> base + 8 * k" by (simp_all add: touches_def)
  then show False by simp
qed

lemma separated_eq: "sorted_wrt R ms \<Longrightarrow> x \<in> set ms \<Longrightarrow> y \<in> set ms \<Longrightarrow> \<not> R x y \<Longrightarrow> \<not> R y x \<Longrightarrow> x = y"
  by (induction ms) auto

lemma paint_all:
  "\<forall>x\<in>set ms. span_inside base (length bytes) x \<Longrightarrow> sorted_wrt (\<lambda>x y. snd x < fst y) ms \<Longrightarrow> k < length bytes \<Longrightarrow>
     length (fold (paint_span base) ms bytes) = length bytes
   \<and> (\<forall>x\<in>set ms. touches base x k \<longrightarrow> fold (paint_span base) ms bytes ! k = granule_byte base x k)
   \<and> ((\<forall>x\<in>set ms. \<not> touches base x k) \<longrightarrow> fold (paint_span base) ms bytes ! k = bytes ! k)"
proof (induction ms arbitrary: bytes)
  case (Cons y ms)
  note paint = paint_span_nth [OF _ Cons.prems(3), of base y]
  have y: "span_inside base (length bytes) y" using Cons.prems(1) by simp
  have IH: "length (fold (paint_span base) ms (paint_span base y bytes)) = length bytes
   \<and> (\<forall>x\<in>set ms. touches base x k \<longrightarrow> fold (paint_span base) ms (paint_span base y bytes) ! k = granule_byte base x k)
   \<and> ((\<forall>x\<in>set ms. \<not> touches base x k) \<longrightarrow> fold (paint_span base) ms (paint_span base y bytes) ! k = paint_span base y bytes ! k)"
    using Cons.IH [of "paint_span base y bytes"] Cons.prems paint(2) [OF y] by simp
  have "\<not> touches base x k" if "x \<in> set ms" "touches base y k" for x
    using touches_once [OF that(2), of x] that(1) Cons.prems by (auto simp: span_inside_def)
  with IH paint(1) [OF y] show ?case by auto
qed simp

lemma granule_allows:
  assumes "base mod 8 = 0" "touches base x k" "base + 8 * k \<le> a" "a < base + 8 * k + 8"
  shows "(let v = granule_byte base x k in v = 0 \<or> v < 8 \<and> a mod 8 < v) \<longleftrightarrow> a < snd x"
proof (cases "base + 8 * k + 8 \<le> snd x")
  case True
  with assms(4) show ?thesis by (simp add: granule_byte_def)
next
  case False
  have lo: "base + 8 * k < snd x" using assms(2) by (simp add: touches_def)
  obtain c where c: "base + 8 * k = 8 * c" using assms(1) by (metis add.commute dvd_def mod_eq_0_iff_dvd mod_mult_self2)
  have low: "y mod 8 = y - 8 * c" if "8 * c \<le> y" "y < 8 * c + 8" for y
  proof -
    have "y = (y - 8 * c) + c * 8" "y - 8 * c < 8" using that by simp_all
    then show ?thesis by (metis mod_less mod_mult_self1)
  qed
  have "snd x mod 8 = snd x - (base + 8 * k)" "a mod 8 = a - (base + 8 * k)"
    using low [of "snd x"] low [of a] lo False assms(3,4) unfolding c by simp_all
  with False lo assms(3) show ?thesis by (auto simp: granule_byte_def Let_def)
qed

text \<open>Reading the shadow of separated spans decides membership in them.\<close>

lemma shadow_decides:
  assumes "spans_ok ms" "\<forall>x\<in>set ms. span_inside base n x" "base mod 8 = 0" "base \<le> a" "a < base + 8 * n"
  shows "shadow_allows base (fold (paint_span base) ms (replicate n 255)) a \<longleftrightarrow> a \<in> covered ms"
proof -
  define k where "k = (a - base) div 8"
  have k: "k < n" "base + 8 * k \<le> a" "a < base + 8 * k + 8" using assms(4,5) by (auto simp: k_def less_mult_imp_div_less)
  obtain B where B: "base = 8 * B" using assms(3) by (auto simp: mod_eq_0_iff_dvd)
  let ?bytes = "fold (paint_span base) ms (replicate n 255)"
  have paint: "(\<forall>x\<in>set ms. touches base x k \<longrightarrow> ?bytes ! k = granule_byte base x k)
      \<and> ((\<forall>x\<in>set ms. \<not> touches base x k) \<longrightarrow> ?bytes ! k = 255)"
    using paint_all [of ms base "replicate n 255" k] assms(1,2) k(1) by (auto simp: spans_ok_iff)
  have here: "touches base x k" if x: "x \<in> set ms" "fst x \<le> a" "a < snd x" for x
  proof -
    have "8 dvd fst x" using assms(1) x(1) by (auto simp: spans_ok_iff mod_eq_0_iff_dvd)
    then obtain F where "fst x = 8 * F" ..
    with x(2) k(3) B have "F < B + k + 1" by linarith
    then have "8 * F \<le> 8 * B + 8 * k" by simp
    with \<open>fst x = 8 * F\<close> x(3) k(2) B show ?thesis by (simp add: touches_def)
  qed
  show ?thesis
  proof (cases "\<exists>x\<in>set ms. touches base x k")
    case True
    then obtain x where x: "x \<in> set ms" "touches base x k" by blast
    have v: "?bytes ! k = granule_byte base x k" using paint x by blast
    have "shadow_allows base ?bytes a \<longleftrightarrow> a < snd x"
      unfolding shadow_allows_def k_def [symmetric] v by (rule granule_allows [OF assms(3) x(2) k(2,3)])
    moreover have "a \<in> covered ms \<longleftrightarrow> a < snd x"
    proof
      assume "a \<in> covered ms"
      then obtain y where y: "y \<in> set ms" "fst y \<le> a" "a < snd y" by (auto simp: covered_def)
      have sep: "sorted_wrt (\<lambda>x y. snd x < fst y) ms" "fst x mod 8 = 0" "fst y mod 8 = 0" using assms(1) x(1) y(1) by (simp_all add: spans_ok_iff)
      note ty = here [OF y]
      have "x = y" using separated_eq [OF sep(1) x(1) y(1)] touches_once [OF x(2) ty assms(3) sep(3)] touches_once [OF ty x(2) assms(3) sep(2)] by blast
      with y(3) show "a < snd x" by simp
    next
      assume "a < snd x"
      moreover have "fst x \<le> a" using x(2) k(2) by (simp add: touches_def)
      ultimately show "a \<in> covered ms" using x(1) by (auto simp: covered_def)
    qed
    ultimately show ?thesis by simp
  next
    case False
    then have "?bytes ! k = 255" using paint by blast
    then have "\<not> shadow_allows base ?bytes a" by (simp add: shadow_allows_def k_def [symmetric])
    moreover have "a \<notin> covered ms" using False here by (auto simp: covered_def)
    ultimately show ?thesis by simp
  qed
qed

lemma length_paint:
  assumes "ms \<noteq> []" "spans_ok ms" "\<forall>x\<in>set ms. span_inside base n x"
  shows "length (fold (paint_span base) ms (replicate n v)) = n"
proof -
  have "span_inside base n (hd ms)" using assms(1,3) by simp
  then have "0 < n" by (cases n) (auto simp: span_inside_def)
  with paint_all [of ms base "replicate n v" 0] assms(2,3) show ?thesis by (simp add: spans_ok_iff)
qed

lemma sorted_starts: "sorted (map fst (sort ranges))" for ranges :: "(u64 \<times> usize) list"
  by (rule sorted_map_mono [OF sorted_sort]) (auto simp: mono_on_def less_eq_prod_def)

lemma address_shadow_Inr:
  assumes "address_shadow ranges maximum = Inr (base, e, bytes)"
  shows "\<exists>ms. ms \<noteq> [] \<and> spans_ok ms \<and> covered ms = (\<Union>r\<in>set ranges. {fst r..<fst r + snd r}) \<and> base = fst (hd ms)
    \<and> e = snd (List.last ms) + 7 - (snd (List.last ms) + 7) mod 8 \<and> (e - base) div 8 \<le> maximum
    \<and> bytes = fold (paint_span base) ms (replicate ((e - base) div 8) 255)"
proof -
  obtain m ms where merged: "merge_ranges (sort ranges) [] = Inr (m # ms)" and base: "base = fst m"
      and we: "window_end (snd (List.last (m # ms))) = Some e" and sz: "(e - base) div 8 \<le> maximum"
      and bytes: "bytes = fold (paint_span base) (m # ms) (replicate ((e - base) div 8) 255)"
    using assms by (auto simp: address_shadow_def Let_def split: sum.splits list.splits option.splits if_splits)
  from merge_ranges_spec [OF merged _ sorted_starts] have s: "spans_ok (m # ms)" "covered (m # ms) = (\<Union>r\<in>set ranges. {fst r..<fst r + snd r})"
    by (auto simp: spans_ok_iff)
  from we have "snd (List.last (m # ms)) + 7 \<le> usize_MAX" "e = mask_granule (snd (List.last (m # ms)) + 7)"
    by (auto simp: window_end_def)
  then have "e = snd (List.last (m # ms)) + 7 - (snd (List.last (m # ms)) + 7) mod 8" using mask_granule by simp
  with s base sz bytes show ?thesis by (intro exI [of _ "m # ms"]) simp
qed

lemma last_span:
  assumes "ms \<noteq> []" "spans_ok ms" "x \<in> set ms"
  shows "fst (hd ms) \<le> fst x" "snd x \<le> snd (List.last ms)"
proof -
  show "fst (hd ms) \<le> fst x" using assms by (cases ms) (auto simp: spans_ok_iff intro: less_imp_le order.strict_trans)
  obtain bs y where ms: "ms = bs @ [y]" using assms(1) by (metis append_butlast_last_id)
  with assms(2,3) show "snd x \<le> snd (List.last ms)"
    by (auto simp: spans_ok_iff sorted_wrt_append intro: less_imp_le order.strict_trans)
qed

lemma window_spans:
  assumes "ms \<noteq> []" "spans_ok ms"
  defines "base \<equiv> fst (hd ms)" and "e \<equiv> snd (List.last ms) + 7 - (snd (List.last ms) + 7) mod 8"
  shows "base mod 8 = 0" "e mod 8 = 0" "\<forall>x\<in>set ms. span_inside base ((e - base) div 8) x" "base + 8 * ((e - base) div 8) = e"
proof -
  show b: "base mod 8 = 0" using assms(1,2) by (simp add: base_def spans_ok_iff)
  show e: "e mod 8 = 0" unfolding e_def by (simp add: minus_mod_eq_mult_div)
  have "(snd (List.last ms) + 7) mod 8 < 8" by simp
  then have le: "snd (List.last ms) \<le> e" unfolding e_def by linarith
  have "fst (hd ms) < snd (hd ms)" using assms(1,2) by (simp add: spans_ok_iff)
  also have "\<dots> \<le> snd (List.last ms)" using last_span(2) [OF assms(1,2)] assms(1) by simp
  finally have "base \<le> e" using le by (simp add: base_def)
  moreover have "8 dvd e - base" using b e by (intro dvd_diff_nat) (simp_all add: mod_eq_0_iff_dvd)
  ultimately show n: "base + 8 * ((e - base) div 8) = e" by simp
  show "\<forall>x\<in>set ms. span_inside base ((e - base) div 8) x"
  proof
    fix x assume x: "x \<in> set ms"
    have "fst x mod 8 = 0" "fst x < snd x" using assms(2) x by (simp_all add: spans_ok_iff)
    with last_span [OF assms(1,2) x] le n b show "span_inside base ((e - base) div 8) x" by (simp add: span_inside_def base_def)
  qed
qed

text \<open>Merging accepts exactly aligned, nonempty ranges that do not overflow.\<close>

definition range_ok :: "u64 \<times> usize \<Rightarrow> bool" where
  "range_ok r \<longleftrightarrow> fst r mod 8 = 0 \<and> snd r \<noteq> 0 \<and> fst r + snd r \<le> usize_MAX"

lemma merge_ranges_total: "\<forall>r\<in>set rs. range_ok r \<Longrightarrow> \<exists>ns. merge_ranges rs ms = Inr ns"
  by (induction rs ms rule: merge_ranges.induct) (auto simp: range_ok_def checked_add_def)

lemma window_bounds:
  assumes "ms \<noteq> []" "spans_ok ms" "covered ms = (\<Union>r\<in>set rs. {fst r..<fst r + snd r})" "\<forall>r\<in>set rs. range_ok r"
  shows "fst (hd ms) = Min (fst ` set rs)" "snd (List.last ms) = Max ((\<lambda>r. fst r + snd r) ` set rs)"
proof -
  have hd: "hd ms \<in> set ms" "List.last ms \<in> set ms" "fst (hd ms) < snd (hd ms)" "fst (List.last ms) < snd (List.last ms)"
    using assms(1,2) by (simp_all add: spans_ok_iff)
  have in_hd: "fst (hd ms) \<in> covered ms" using hd(1,3) by (force simp: covered_def)
  have in_last: "snd (List.last ms) - 1 \<in> covered ms" using hd(2,4) by (force simp: covered_def)
  have bound: "fst (hd ms) \<le> a \<and> a < snd (List.last ms)" if "a \<in> covered ms" for a
  proof -
    from that obtain x where x: "x \<in> set ms" "fst x \<le> a" "a < snd x" by (auto simp: covered_def)
    with last_span [OF assms(1,2) x(1)] show ?thesis by simp
  qed
  have edge: "fst r \<in> covered ms \<and> fst r + snd r - 1 \<in> covered ms" if "r \<in> set rs" for r
    unfolding assms(3) using that assms(4) by (force simp: range_ok_def)
  obtain r where r: "r \<in> set rs" "fst r \<le> fst (hd ms)" using in_hd unfolding assms(3) by auto
  have "fst (hd ms) \<le> fst q" if "q \<in> set rs" for q using bound edge [OF that] by blast
  moreover from this [OF r(1)] r(2) have "fst r = fst (hd ms)" by simp
  ultimately show "fst (hd ms) = Min (fst ` set rs)" using imageI [OF r(1), of fst] by (intro Min_eqI [symmetric]) auto
  obtain q where q: "q \<in> set rs" "snd (List.last ms) - 1 < fst q + snd q" using in_last unfolding assms(3) by auto
  have le: "fst r + snd r \<le> snd (List.last ms)" if "r \<in> set rs" for r using bound edge [OF that] by fastforce
  have "fst q + snd q = snd (List.last ms)" using q le [OF q(1)] by simp
  with imageI [OF q(1), of "\<lambda>r. fst r + snd r"] le show "snd (List.last ms) = Max ((\<lambda>r. fst r + snd r) ` set rs)"
    by (intro Max_eqI [symmetric]) auto
qed


lemma address_shadow_contract:
  assumes "address_shadow ranges maximum = Inr (base, e, bytes)"
  shows "base mod 8 = 0 \<and> e mod 8 = 0 \<and> length bytes = (e - base) div 8 \<and> length bytes \<le> maximum
    \<and> (\<forall>a. (\<exists>r\<in>set ranges. fst r \<le> a \<and> a < fst r + snd r) \<longleftrightarrow> base \<le> a \<and> a < e \<and> shadow_allows base bytes a)"
proof -
  from address_shadow_Inr [OF assms] obtain ms where ms: "ms \<noteq> []" "spans_ok ms"
      "covered ms = (\<Union>r\<in>set ranges. {fst r..<fst r + snd r})" "base = fst (hd ms)" "e = snd (List.last ms) + 7 - (snd (List.last ms) + 7) mod 8"
      "(e - base) div 8 \<le> maximum" "bytes = fold (paint_span base) ms (replicate ((e - base) div 8) 255)" by blast
  let ?n = "(e - base) div 8"
  note w = window_spans [OF ms(1,2), folded ms(4,5)]
  have len: "length bytes = ?n" unfolding ms(7) by (rule length_paint [OF ms(1,2) w(3)])
  have "(\<exists>r\<in>set ranges. fst r \<le> a \<and> a < fst r + snd r) \<longleftrightarrow> base \<le> a \<and> a < e \<and> shadow_allows base bytes a" for a
  proof -
    have "(\<exists>r\<in>set ranges. fst r \<le> a \<and> a < fst r + snd r) \<longleftrightarrow> a \<in> covered ms" by (auto simp: ms(3))
    moreover have "base \<le> a \<and> a < e" if "a \<in> covered ms" using that w(3,4) by (fastforce simp: covered_def span_inside_def)
    moreover have "shadow_allows base bytes a \<longleftrightarrow> a \<in> covered ms" if "base \<le> a" "a < e"
      unfolding ms(7) using shadow_decides [OF ms(2) w(3) w(1) that(1)] that(2) w(4) by simp
    ultimately show ?thesis by blast
  qed
  with w(1,2) len ms(6) show "base mod 8 = 0 \<and> e mod 8 = 0 \<and> length bytes = ?n \<and> length bytes \<le> maximum
    \<and> (\<forall>a. (\<exists>r\<in>set ranges. fst r \<le> a \<and> a < fst r + snd r) \<longleftrightarrow> base \<le> a \<and> a < e \<and> shadow_allows base bytes a)" by simp
qed

lemma address_shadow_succeeds:
  "(\<exists>x. address_shadow ranges maximum = Inr x) \<longleftrightarrow> ranges \<noteq> [] \<and> (\<forall>r\<in>set ranges. range_ok r)
     \<and> (let top = Max ((\<lambda>r. fst r + snd r) ` set ranges) + 7
        in top \<le> usize_MAX \<and> (top - top mod 8 - Min (fst ` set ranges)) div 8 \<le> maximum)"
proof (cases "merge_ranges (sort ranges) []")
  case (Inl err)
  then have "\<not> (\<forall>r\<in>set ranges. range_ok r)" using merge_ranges_total [of "sort ranges" "[]"] by auto
  with Inl show ?thesis by (simp add: address_shadow_def)
next
  case (Inr ms)
  have nil: "sort ranges = [] \<longleftrightarrow> ranges = []" by (metis length_0_conv length_sort)
  from merge_ranges_spec [OF Inr _ sorted_starts] nil have sp: "spans_ok ms" "covered ms = (\<Union>r\<in>set ranges. {fst r..<fst r + snd r})"
      "ms = [] \<longleftrightarrow> ranges = []" "\<forall>r\<in>set ranges. range_ok r" by (auto simp: spans_ok_iff range_ok_def)
  show ?thesis
  proof (cases ms)
    case Nil
    with Inr sp show ?thesis by (simp add: address_shadow_def)
  next
    case (Cons m ns)
    note b = window_bounds [OF _ sp(1,2,4)]
    show ?thesis
    proof (cases "snd (List.last ms) + 7 \<le> usize_MAX")
      case True
      then have "window_end (snd (List.last ms)) = Some (snd (List.last ms) + 7 - (snd (List.last ms) + 7) mod 8)"
        by (simp add: window_end_def checked_add_def mask_granule)
      with Inr Cons sp(3,4) True b show ?thesis by (auto simp: address_shadow_def Let_def)
    next
      case False
      then have "window_end (snd (List.last ms)) = None" by (simp add: window_end_def)
      with Inr Cons False b show ?thesis by (auto simp: address_shadow_def Let_def)
    qed
  qed
qed


section \<open>Properties\<close>

text \<open>
  C38: the address shadow is exact. When the shadow is built, its window is whole granules and within the
  configured limit, and for every address a check of the shadow allows the access exactly when
  one of the registered allocations contains the address, whatever their order, overlaps, gaps and
  unaligned tails. Building succeeds exactly when there is an allocation, all of them are nonempty and aligned,
  and neither they nor the window overflow or exceed the limit.
\<close>

theorem address_shadow_exact:
  "(\<forall>base e bytes. address_shadow ranges maximum = Inr (base, e, bytes) \<longrightarrow>
      base mod 8 = 0 \<and> e mod 8 = 0 \<and> length bytes = (e - base) div 8 \<and> length bytes \<le> maximum
    \<and> (\<forall>a. (\<exists>r\<in>set ranges. fst r \<le> a \<and> a < fst r + snd r) \<longleftrightarrow> base \<le> a \<and> a < e \<and> shadow_allows base bytes a))
   \<and> ((\<exists>x. address_shadow ranges maximum = Inr x) \<longleftrightarrow> ranges \<noteq> [] \<and> (\<forall>r\<in>set ranges. range_ok r)
     \<and> (let top = Max ((\<lambda>r. fst r + snd r) ` set ranges) + 7
        in top \<le> usize_MAX \<and> (top - top mod 8 - Min (fst ` set ranges)) div 8 \<le> maximum))"
  using address_shadow_contract [of ranges maximum] address_shadow_succeeds [of ranges maximum] by blast

text \<open>Two allocations with a gap, the first with a tail of four bytes.\<close>

theorem address_shadow_exact_witness:
  "\<exists>base e bytes. address_shadow [(64, 8), (32, 12)] 16 = Inr (base, e, bytes) \<and> shadow_allows base bytes 43 \<and> \<not> shadow_allows base bytes 44"
proof -
  note p = address_shadow_exact [of "[(64, 8), (32, 12)]" 16]
  have "\<exists>x. address_shadow [(64, 8), (32, 12)] 16 = Inr x"
    using p [THEN conjunct2] by (simp add: range_ok_def usize_MAX_def)
  then obtain base e bytes where a: "address_shadow [(64, 8), (32, 12)] 16 = Inr (base, e, bytes)" by (metis prod_cases3)
  note q = p [THEN conjunct1, rule_format, OF a]
  have all: "(\<exists>r\<in>set [(64, 8), (32, 12)]. fst r \<le> x \<and> x < fst r + snd r) \<longleftrightarrow> base \<le> x \<and> x < e \<and> shadow_allows base bytes x" for x
    using q by blast
  have "base \<le> 43 \<and> 71 < e \<and> shadow_allows base bytes 43" using all [of 43] all [of 71] by simp
  moreover have "\<not> shadow_allows base bytes 44" using all [of 44] calculation by auto
  ultimately show ?thesis using a by blast
qed

end
