(* ===== verification/Fabric_Memory.thy ===== *)
theory Fabric_Memory
  imports Launch_Constants "HOL-Library.Word"
begin

unbundle bit_operations_syntax

text \<open>
  Native memory, \<^verbatim>\<open>src/src/fabric/memory.rs\<close>: buffers as checked views of an allocation, device use leases,
  host transfers with their cache maintenance, and the choice of a construction profile.

  An allocation and the aliases imported from it share one cell: the physical bytes, the count of device uses and
  the cache requirement. Operations take the state of all cells and return a result and the new state,
  which also logs the maintenance calls made, so an error keeps the effects before it. Every operation on a cell
  runs under the lock of its use count and is one step. The native entry points are arguments:
  \<open>control\<close> is \<open>host_mapping_cache_control\<close> and returns a status, which may depend on the calls made before.
\<close>


section \<open>State\<close>

datatype cache_call = CacheFence | CacheControl (cc_mapping: nat) (cc_operation: nat) (cc_offset: usize) (cc_length: usize)

datatype fmemory = Memory
  (fm_cell: nat) (fm_devices: "nat list") (fm_raw: nat) (fm_mapping: nat) (fm_mapped: bool) (fm_bytes: usize)
  (fm_source: "(fmemory \<times> usize \<times> usize) option")

type_synonym fbuffer = "fmemory \<times> usize \<times> usize"

record fabric_mem =
  fb_data :: "nat \<Rightarrow> nat list"
  fb_uses :: "nat \<Rightarrow> nat"
  fb_poisoned :: "nat \<Rightarrow> bool"
  fb_needs_cache :: "nat \<Rightarrow> bool"
  fb_calls :: "cache_call list"

type_synonym host_control = "cache_call list \<Rightarrow> nat \<Rightarrow> nat \<Rightarrow> usize \<Rightarrow> usize \<Rightarrow> nat"

definition log_call :: "cache_call \<Rightarrow> fabric_mem \<Rightarrow> fabric_mem" where
  "log_call c s = s\<lparr>fb_calls := fb_calls s @ [c]\<rparr>"

definition buf_memory :: "fbuffer \<Rightarrow> fmemory" where "buf_memory b = fst b"
definition buf_base :: "fbuffer \<Rightarrow> usize" where "buf_base b = fst (snd b)"
definition buf_len :: "fbuffer \<Rightarrow> usize" where "buf_len b = snd (snd b)"
definition buf_cell :: "fbuffer \<Rightarrow> nat" where "buf_cell b = fm_cell (fst b)"


section \<open>Native status\<close>

definition as_i32 :: "nat \<Rightarrow> int" where
  "as_i32 code = (if code < 2 ^ 31 then int code else int code - 2 ^ 32)"

definition check_status :: "string \<Rightarrow> nat \<Rightarrow> unit result" where
  "check_status operation status =
     (if status = 0 then Inr ()
      else let domain = status div 2 ^ 32 mod 2 ^ 32; code = status mod 2 ^ 32
           in Inl (Backend ''libamdf'' operation (as_i32 code)
                ((''native status domain '' @ show_nat domain) @ ('', code '' @ show_nat code))))"

definition missing :: "string \<Rightarrow> error" where
  "missing name = Unsupported (''libamdf ABI is missing '' @ name)"


section \<open>Views\<close>

definition is_whole_allocation :: "fbuffer \<Rightarrow> bool" where
  "is_whole_allocation b \<longleftrightarrow> buf_base b = 0 \<and> buf_len b = fm_bytes (buf_memory b)"

definition buffer_range :: "fbuffer \<Rightarrow> usize \<Rightarrow> usize \<Rightarrow> unit result" where
  "buffer_range b off len =
     (case checked_add off len of
        None \<Rightarrow> Inl (Message ''buffer range is out of bounds'')
      | Some e \<Rightarrow> if e > buf_len b then Inl (Message ''buffer range is out of bounds'') else Inr ())"

definition buffer_subview :: "fbuffer \<Rightarrow> usize \<Rightarrow> usize \<Rightarrow> fbuffer result" where
  "buffer_subview b off len =
     and_then (buffer_range b off len) (\<lambda>_.
       if len = 0 then Inl (Message ''buffer views must be nonempty'')
       else Inr (buf_memory b, buf_base b + off, len))"

definition require_host_mapping :: "fbuffer \<Rightarrow> unit result" where
  "require_host_mapping b =
     (if \<not> fm_mapped (buf_memory b)
      then Inl (Unsupported ''device-only buffer has no host mapping; use a device transfer'') else Inr ())"


section \<open>Cache maintenance\<close>

definition FLUSH :: nat where "FLUSH = 1"
definition INVALIDATE :: nat where "INVALIDATE = 2"

fun cache_control :: "host_control \<Rightarrow> bool \<Rightarrow> usize \<Rightarrow> usize \<Rightarrow> fbuffer \<Rightarrow> fabric_mem \<Rightarrow> unit result \<times> fabric_mem" where
  "cache_control control flush off len (Memory cell devices raw mapping mapped bytes source, base, n) s =
     (let b = (Memory cell devices raw mapping mapped bytes source, base, n)
      in case and_then (buffer_range b off len) (\<lambda>_. require_host_mapping b) of
           Inl e \<Rightarrow> (Inl e, s)
         | Inr _ \<Rightarrow>
             (case source of
                Some src \<Rightarrow> cache_control control flush (base + off) len src s
              | None \<Rightarrow>
                  if \<not> fb_needs_cache s cell then (Inr (), log_call CacheFence s)
                  else let op = (if flush then FLUSH else INVALIDATE)
                       in (check_status ''explicit mapped visibility'' (control (fb_calls s) mapping op (base + off) len),
                           log_call (CacheControl mapping op (base + off) len) s)))"

declare cache_control.simps [simp del]


section \<open>Use leases\<close>

definition retain_use :: "fbuffer \<Rightarrow> fabric_mem \<Rightarrow> unit result \<times> fabric_mem" where
  "retain_use b s =
     (if fb_poisoned s (buf_cell b) then (Inl (DeviceLost ''memory ownership poisoned''), s)
      else case checked_add (fb_uses s (buf_cell b)) 1 of
        None \<Rightarrow> (Inl (Busy ''memory lease limit''), s)
      | Some n \<Rightarrow> (Inr (), s\<lparr>fb_uses := (fb_uses s)(buf_cell b := n)\<rparr>))"

definition device_use_drop :: "fbuffer \<Rightarrow> fabric_mem \<Rightarrow> fabric_mem" where
  "device_use_drop b s = s\<lparr>fb_uses := (fb_uses s)(buf_cell b := fb_uses s (buf_cell b) - 1)\<rparr>"

text \<open>The lock and test that begin every host transfer.\<close>

definition admit_host :: "string \<Rightarrow> fbuffer \<Rightarrow> fabric_mem \<Rightarrow> unit result" where
  "admit_host text b s =
     (if fb_poisoned s (buf_cell b) then Inl (DeviceLost ''memory ownership poisoned'')
      else if fb_uses s (buf_cell b) \<noteq> 0 then Inl (Busy text) else Inr ())"


section \<open>Host transfers\<close>

definition host_slice :: "fbuffer \<Rightarrow> usize \<Rightarrow> usize \<Rightarrow> fabric_mem \<Rightarrow> nat list" where
  "host_slice b off len s = take len (drop (buf_base b + off) (fb_data s (buf_cell b)))"

definition host_store :: "fbuffer \<Rightarrow> usize \<Rightarrow> nat list \<Rightarrow> fabric_mem \<Rightarrow> fabric_mem" where
  "host_store b off bytes s =
     s\<lparr>fb_data := (fb_data s)(buf_cell b := splice (buf_base b + off) bytes (fb_data s (buf_cell b)))\<rparr>"

text \<open>
  Acquire a range, run a host action on it that replaces its bytes, publish the range. An error of the
  publication takes precedence over the action's own result.
\<close>

definition host_transaction ::
  "host_control \<Rightarrow> fbuffer \<Rightarrow> usize \<Rightarrow> usize \<Rightarrow> (nat list \<Rightarrow> 'a result \<times> nat list) \<Rightarrow> fabric_mem \<Rightarrow> 'a result \<times> fabric_mem" where
  "host_transaction control b off len action s =
     (case cache_control control False off len b s of
        (Inl e, s1) \<Rightarrow> (Inl e, s1)
      | (Inr _, s1) \<Rightarrow>
          let (r, bytes) = action (host_slice b off len s1)
          in (case cache_control control True off len b (host_store b off bytes s1) of
                (Inl e, s2) \<Rightarrow> (Inl e, s2)
              | (Inr _, s2) \<Rightarrow> (r, s2)))"

definition buffer_write :: "host_control \<Rightarrow> fbuffer \<Rightarrow> usize \<Rightarrow> nat list \<Rightarrow> fabric_mem \<Rightarrow> unit result \<times> fabric_mem" where
  "buffer_write control b off bytes s =
     (case and_then (buffer_range b off (length bytes)) (\<lambda>_. admit_host ''buffer is in use by a device'' b s) of
        Inl e \<Rightarrow> (Inl e, s)
      | Inr _ \<Rightarrow> host_transaction control b off (length bytes) (\<lambda>_. (Inr (), bytes)) s)"

definition buffer_read :: "host_control \<Rightarrow> fbuffer \<Rightarrow> usize \<Rightarrow> usize \<Rightarrow> fabric_mem \<Rightarrow> nat list result \<times> fabric_mem" where
  "buffer_read control b off len s =
     (case and_then (buffer_range b off len) (\<lambda>_. admit_host ''buffer is in use by a device'' b s) of
        Inl e \<Rightarrow> (Inl e, s)
      | Inr _ \<Rightarrow>
          (case cache_control control False off len b s of
             (Inl e, s1) \<Rightarrow> (Inl e, s1)
           | (Inr _, s1) \<Rightarrow> (Inr (host_slice b off len s1), s1)))"

definition buffer_zero :: "host_control \<Rightarrow> fbuffer \<Rightarrow> fabric_mem \<Rightarrow> unit result \<times> fabric_mem" where
  "buffer_zero control b s =
     (case and_then (require_host_mapping b) (\<lambda>_. admit_host ''memory is executing'' b s) of
        Inl e \<Rightarrow> (Inl e, s)
      | Inr _ \<Rightarrow> cache_control control True 0 (buf_len b) b (host_store b 0 (replicate (buf_len b) 0) s))"

definition with_host_bytes ::
  "host_control \<Rightarrow> fbuffer \<Rightarrow> (nat list \<Rightarrow> 'a result \<times> nat list) \<Rightarrow> fabric_mem \<Rightarrow> 'a result \<times> fabric_mem" where
  "with_host_bytes control b action s =
     (case admit_host ''buffer is in use by a device'' b s of
        Inl e \<Rightarrow> (Inl e, s)
      | Inr _ \<Rightarrow> host_transaction control b 0 (buf_len b) action s)"


section \<open>Filling from files\<close>

text \<open>
  An open file is its bytes and how the operating system serves one fill from it. A positional read that does not fail and finds enough bytes
  stores exactly them; at the end of the file, or on any other error, what it leaves in the slice is unspecified: \<open>left\<close>. A
  worker thread may not start, for the reason given, or may panic.
\<close>

datatype io_end = IoDone "nat list" | IoFailed string "nat list"

datatype worker_end = Worked io_end | WorkerPanicked "nat list"

record file_source =
  fs_bytes :: "nat list"
  fs_read :: io_end
  fs_spawn :: "nat \<Rightarrow> string option"
  fs_worker :: "nat \<Rightarrow> worker_end"

definition overwrite :: "nat list \<Rightarrow> nat list \<Rightarrow> nat list" where
  "overwrite left target = take (length target) left @ drop (length left) target"

definition read_exact_at :: "nat list \<Rightarrow> io_end \<Rightarrow> nat \<Rightarrow> nat list \<Rightarrow> unit result \<times> nat list" where
  "read_exact_at content io pos target =
     (if target = [] then (Inr (), [])
      else case io of
        IoFailed e left \<Rightarrow> (Inl (Io e), overwrite left target)
      | IoDone left \<Rightarrow>
          if pos + length target \<le> length content then (Inr (), take (length target) (drop pos content))
          else (Inl (Io ''failed to fill whole buffer''), overwrite left target))"

definition file_checks :: "fbuffer \<Rightarrow> usize \<Rightarrow> usize \<Rightarrow> nat \<Rightarrow> fabric_mem \<Rightarrow> unit result" where
  "file_checks b off len pos s =
     and_then (buffer_range b off len) (\<lambda>_.
       case checked_add pos len of
         None \<Rightarrow> Inl (Message ''file range overflows'')
       | Some _ \<Rightarrow> admit_host ''buffer is in use by a device'' b s)"

definition write_from_file ::
  "host_control \<Rightarrow> fbuffer \<Rightarrow> usize \<Rightarrow> usize \<Rightarrow> file_source \<Rightarrow> nat \<Rightarrow> fabric_mem \<Rightarrow> unit result \<times> fabric_mem" where
  "write_from_file control b off len f pos s =
     (case file_checks b off len pos s of
        Inl e \<Rightarrow> (Inl e, s)
      | Inr _ \<Rightarrow> host_transaction control b off len (read_exact_at (fs_bytes f) (fs_read f) pos) s)"

text \<open>
  The workers fill disjoint chunks of the target, each from its own position. The spawning loop stops at the first thread that does not
  start; the threads started before it run to their end, the later chunks stay as they are. A worker's result is \<open>None\<close> when it panicked.
\<close>

definition worker_result :: "nat list \<Rightarrow> worker_end \<Rightarrow> nat \<Rightarrow> nat list \<Rightarrow> unit result option \<times> nat list" where
  "worker_result content w pos chunk =
     (case w of
        Worked io \<Rightarrow> (let (r, bytes) = read_exact_at content io pos chunk in (Some r, bytes))
      | WorkerPanicked left \<Rightarrow> (None, overwrite left chunk))"

fun spawn_workers ::
  "file_source \<Rightarrow> nat \<Rightarrow> usize \<Rightarrow> nat \<Rightarrow> nat list list \<Rightarrow> string option \<times> unit result option list \<times> nat list" where
  "spawn_workers f pos n index [] = (None, [], [])"
| "spawn_workers f pos n index (chunk # chunks) =
     (case fs_spawn f index of
        Some e \<Rightarrow> (Some e, [], concat (chunk # chunks))
      | None \<Rightarrow>
          let (r, bytes) = worker_result (fs_bytes f) (fs_worker f index) (pos + index * n) chunk;
              (e, rs, rest) = spawn_workers f pos n (Suc index) chunks
          in (e, r # rs, bytes @ rest))"

text \<open>The joins in order, up to the first error; the handles behind it are dropped unjoined.\<close>

fun join_workers :: "unit result option list \<Rightarrow> unit result \<times> unit result option list" where
  "join_workers [] = (Inr (), [])"
| "join_workers (None # rs) = (Inl (Io ''file read worker panicked''), rs)"
| "join_workers (Some (Inl e) # rs) = (Inl e, rs)"
| "join_workers (Some (Inr _) # rs) = join_workers rs"

fun chunks_mut :: "usize \<Rightarrow> nat list \<Rightarrow> nat list list" where
  "chunks_mut n xs = (if n = 0 \<or> xs = [] then [] else take n xs # chunks_mut n (drop n xs))"

declare chunks_mut.simps [simp del]

definition div_ceil :: "usize \<Rightarrow> usize \<Rightarrow> usize" where
  "div_ceil a b = (a + b - 1) div b"

text \<open>The scope waits for every thread; it panics itself (\<open>None\<close>) when one that was not joined panicked.\<close>

definition parallel_fill :: "usize \<Rightarrow> file_source \<Rightarrow> nat \<Rightarrow> nat list \<Rightarrow> unit result option \<times> nat list" where
  "parallel_fill workers f pos target =
     (let n = div_ceil (length target) workers;
          (failed, rs, bytes) = spawn_workers f pos n 0 (chunks_mut n target);
          (r, unjoined) = (case failed of Some e \<Rightarrow> (Inl (Io e), rs) | None \<Rightarrow> join_workers rs)
      in (if None \<in> set unjoined then None else Some r, bytes))"

text \<open>A panic of the scope unwinds through the admission lock and poisons it.\<close>

definition write_from_file_parallel ::
  "host_control \<Rightarrow> fbuffer \<Rightarrow> usize \<Rightarrow> usize \<Rightarrow> file_source \<Rightarrow> nat \<Rightarrow> usize \<Rightarrow> fabric_mem \<Rightarrow> unit result option \<times> fabric_mem" where
  "write_from_file_parallel control b off len f pos workers s =
     (if \<not> (1 \<le> workers \<and> workers \<le> 8) then (Some (Inl (Message ''parallel file workers must be1..8'')), s)
      else if workers = 1 \<or> len = 0 then (let (r, t) = write_from_file control b off len f pos s in (Some r, t))
      else case file_checks b off len pos s of
        Inl e \<Rightarrow> (Some (Inl e), s)
      | Inr _ \<Rightarrow>
          (case cache_control control False off len b s of
             (Inl e, s1) \<Rightarrow> (Some (Inl e), s1)
           | (Inr _, s1) \<Rightarrow>
               let (result, bytes) = parallel_fill workers f pos (host_slice b off len s1);
                   s2 = host_store b off bytes s1
               in case result of
                    None \<Rightarrow> (None, s2\<lparr>fb_poisoned := (fb_poisoned s2)(buf_cell b := True)\<rparr>)
                  | Some r \<Rightarrow>
                      (case cache_control control True off len b s2 of
                         (Inl e, s3) \<Rightarrow> (Some (Inl e), s3)
                       | (Inr _, s3) \<Rightarrow> (Some r, s3))))"


section \<open>Device addresses\<close>

fun device_address :: "(nat \<Rightarrow> nat \<Rightarrow> nat result) \<Rightarrow> nat \<Rightarrow> fbuffer \<Rightarrow> nat result" where
  "device_address query dev (Memory cell devices raw mapping mapped bytes source, base, n) =
     (case position (\<lambda>d. d = dev) devices of
        Some index \<Rightarrow>
          and_then (query raw index) (\<lambda>a.
            case checked_add a base of None \<Rightarrow> Inl (Message ''buffer view address overflow'') | Some x \<Rightarrow> Inr x)
      | None \<Rightarrow>
          (case source of
             None \<Rightarrow> Inl (Message ''device has no access to this buffer'')
           | Some src \<Rightarrow>
               and_then (device_address query dev src) (\<lambda>a.
                 case checked_add a base of None \<Rightarrow> Inl (Message ''buffer view address overflow'') | Some x \<Rightarrow> Inr x)))"

declare device_address.simps [simp del]


section \<open>Construction\<close>

datatype engine = Gpu | Xdna

record fdevice =
  dv_id :: nat
  dv_instance :: nat
  dv_engine :: engine

record allocation_options =
  ao_mapping_source :: bool
  ao_host_mapping_source :: bool
  ao_host_numa_node :: "nat option"
  ao_coherent_gpu :: bool
  ao_minimum_alignment :: nat
  ao_required_backing_flags :: "64 word"

record memory_owners =
  mo_device_only :: bool
  mo_coherent :: bool
  mo_profile :: "(nat \<times> nat) option"
  mo_source :: "fbuffer option"
  mo_options :: allocation_options

record construction_limits =
  cl_placement_kinds :: "64 word"
  cl_maximum_bytes :: nat

record native_profile =
  np_roles :: "64 word"
  np_supported_flags :: "64 word"
  np_allocation :: construction_limits
  np_import :: construction_limits
  np_registration :: construction_limits

text \<open>The answers of the native scope and profile queries: a scope with the status of its query and its kind, and for each profile the query's status.\<close>

record native_scope =
  ns_id :: nat
  ns_status :: nat
  ns_system :: bool
  ns_profiles :: "(nat \<times> native_profile) list"

definition FLAG_HOST_VISIBLE :: "64 word" where "FLAG_HOST_VISIBLE = 1"
definition FLAG_DEVICE_LOCAL :: "64 word" where "FLAG_DEVICE_LOCAL = 2"
definition FLAG_HOST_MAPPING_SOURCE :: "64 word" where "FLAG_HOST_MAPPING_SOURCE = 128"
definition ROLE_CREATE :: "64 word" where "ROLE_CREATE = 1"
definition ROLE_REGISTER :: "64 word" where "ROLE_REGISTER = 2"
definition ROLE_IMPORT :: "64 word" where "ROLE_IMPORT = 4"
definition ROLE_HOST_MAP :: "64 word" where "ROLE_HOST_MAP = 16"
definition STATUS_UNSUPPORTED :: nat where "STATUS_UNSUPPORTED = 3"

definition required_flags :: "allocation_options \<Rightarrow> 64 word" where
  "required_flags o' =
     FLAG_HOST_VISIBLE OR ao_required_backing_flags o' OR (if ao_host_mapping_source o' then FLAG_HOST_MAPPING_SOURCE else 0)"

fun devices_unique :: "nat \<Rightarrow> nat list \<Rightarrow> fdevice list \<Rightarrow> bool" where
  "devices_unique inst seen [] \<longleftrightarrow> True"
| "devices_unique inst seen (d # ds) \<longleftrightarrow>
     dv_instance d = inst \<and> dv_id d \<notin> set seen \<and> devices_unique inst (dv_id d # seen) ds"

definition creation_checks :: "nat \<Rightarrow> usize \<Rightarrow> fdevice list \<Rightarrow> bool \<Rightarrow> memory_owners \<Rightarrow> nat list option \<Rightarrow> unit result" where
  "creation_checks inst bytes devices host owners initial =
     (if bytes = 0 then Inl (Message ''allocation must be nonempty'')
      else if (case initial of None \<Rightarrow> False | Some d \<Rightarrow> length d \<noteq> bytes \<or> host \<or> mo_source owners \<noteq> None)
      then Inl (Message ''initial data must cover exactly one new allocation'')
      else if \<not> devices_unique inst [] devices
      then Inl (Message ''allocation devices must be unique and belong to this fabric'')
      else case mo_source owners of
        Some src \<Rightarrow> if \<not> is_whole_allocation src then Inl (Unsupported ''native imports require a whole buffer'') else Inr ()
      | None \<Rightarrow> Inr ())"

definition profile_admits :: "usize \<Rightarrow> bool \<Rightarrow> memory_owners \<Rightarrow> native_profile \<Rightarrow> bool" where
  "profile_admits bytes host owners p \<longleftrightarrow>
     (let role = (if mo_source owners \<noteq> None then ROLE_IMPORT else if host then ROLE_REGISTER else ROLE_CREATE);
          limits = (if mo_source owners \<noteq> None then np_import p else if host then np_registration p else np_allocation p);
          roles = (if mo_device_only owners then role else role OR ROLE_HOST_MAP);
          flags = (if mo_device_only owners then FLAG_DEVICE_LOCAL else required_flags (mo_options owners))
      in np_roles p AND roles = roles \<and> np_supported_flags p AND flags = flags
         \<and> (ao_host_numa_node (mo_options owners) \<noteq> None \<longrightarrow> bit (cl_placement_kinds limits) 1)
         \<and> bytes \<le> cl_maximum_bytes limits)"

fun select_profile ::
  "usize \<Rightarrow> bool \<Rightarrow> memory_owners \<Rightarrow> nat \<Rightarrow> nat \<Rightarrow> (nat \<times> native_profile) list \<Rightarrow> nat option result" where
  "select_profile bytes host owners scope ordinal [] = Inr None"
| "select_profile bytes host owners scope ordinal ((status, p) # rest) =
     (if mo_profile owners \<noteq> None \<and> mo_profile owners \<noteq> Some (scope, ordinal) \<or> status = STATUS_UNSUPPORTED
      then select_profile bytes host owners scope (Suc ordinal) rest
      else and_then (check_status ''memory_scope_query_device_profile'' status) (\<lambda>_.
        if profile_admits bytes host owners p then Inr (Some ordinal)
        else select_profile bytes host owners scope (Suc ordinal) rest))"

fun select_scope :: "usize \<Rightarrow> bool \<Rightarrow> memory_owners \<Rightarrow> native_scope list \<Rightarrow> (nat \<times> nat) option result" where
  "select_scope bytes host owners [] = Inr None"
| "select_scope bytes host owners (sc # rest) =
     and_then (check_status ''memory_scope_query_info'' (ns_status sc)) (\<lambda>_.
       if \<not> mo_device_only owners \<and> \<not> ns_system sc then select_scope bytes host owners rest
       else and_then (select_profile bytes host owners (ns_id sc) 0 (ns_profiles sc)) (\<lambda>r.
         case r of Some ordinal \<Rightarrow> Inr (Some (ns_id sc, ordinal)) | None \<Rightarrow> select_scope bytes host owners rest))"


text \<open>
  What the native calls of one construction return: the statuses of exporting the source, of creating or importing, of mapping and of
  the mapping query; the handles; and the length and bytes behind the mapping. \<open>nc_cell\<close> is the fresh cell
  of a construction without source.
\<close>

record native_creation =
  nc_scopes :: "native_scope list result"
  nc_export :: nat
  nc_create :: nat
  nc_raw :: "nat option"
  nc_map :: nat
  nc_info :: nat
  nc_mapping :: nat
  nc_length :: "nat option"
  nc_cell :: nat
  nc_contents :: "nat list"

definition owner_cell :: "memory_owners \<Rightarrow> native_creation \<Rightarrow> nat" where
  "owner_cell owners nat' = (case mo_source owners of None \<Rightarrow> nc_cell nat' | Some src \<Rightarrow> buf_cell src)"

text \<open>The cell of a new allocation starts unused and coherent; an import keeps its source's cell. Consumers that are not coherent GPUs raise the cache requirement.\<close>

definition open_cell :: "fdevice list \<Rightarrow> memory_owners \<Rightarrow> native_creation \<Rightarrow> fabric_mem \<Rightarrow> fabric_mem" where
  "open_cell devices owners n s =
     (let c = owner_cell owners n;
          s1 = (if mo_source owners = None
                then s\<lparr>fb_uses := (fb_uses s)(c := 0), fb_needs_cache := (fb_needs_cache s)(c := False),
                       fb_poisoned := (fb_poisoned s)(c := False), fb_data := (fb_data s)(c := nc_contents n)\<rparr>
                else s)
      in if \<not> mo_coherent owners \<or> devices = [] \<or> (\<exists>d\<in>set devices. dv_engine d \<noteq> Gpu)
         then s1\<lparr>fb_needs_cache := (fb_needs_cache s1)(c := True)\<rparr> else s1)"

definition initialize_cell :: "usize \<Rightarrow> bool \<Rightarrow> memory_owners \<Rightarrow> nat list option \<Rightarrow> native_creation \<Rightarrow> fabric_mem \<Rightarrow> fabric_mem" where
  "initialize_cell bytes host owners initial n s =
     (if host \<or> mo_source owners \<noteq> None then s
      else let c = owner_cell owners n
           in s\<lparr>fb_data := (fb_data s)(c := splice 0 (case initial of Some d \<Rightarrow> d | None \<Rightarrow> replicate bytes 0) (fb_data s c))\<rparr>)"

definition prepare_creation :: "nat \<Rightarrow> usize \<Rightarrow> fdevice list \<Rightarrow> bool \<Rightarrow> memory_owners \<Rightarrow> nat list option \<Rightarrow> native_creation \<Rightarrow> nat result" where
  "prepare_creation inst bytes devices host owners initial n =
     and_then (creation_checks inst bytes devices host owners initial) (\<lambda>_.
     and_then (if mo_source owners \<noteq> None then check_status ''memory_export'' (nc_export n) else Inr ()) (\<lambda>_.
     and_then (nc_scopes n) (\<lambda>scopes.
     and_then (select_scope bytes host owners scopes) (\<lambda>choice.
       case choice of
         None \<Rightarrow> Inl (Unsupported ''no memory profile admits the requested placement and consumers'')
       | Some _ \<Rightarrow>
           and_then (check_status (if mo_source owners \<noteq> None then ''memory_import'' else ''memory_create'') (nc_create n)) (\<lambda>_.
             case nc_raw n of None \<Rightarrow> Inl (missing ''created memory'') | Some raw \<Rightarrow> Inr raw)))))"

definition map_creation :: "usize \<Rightarrow> native_creation \<Rightarrow> unit result" where
  "map_creation bytes n =
     and_then (check_status ''memory_map'' (nc_map n)) (\<lambda>_.
     and_then (check_status ''host_mapping_query_info'' (nc_info n)) (\<lambda>_.
       case nc_length n of
         None \<Rightarrow> Inl (missing ''complete host mapping'')
       | Some l \<Rightarrow> if l < bytes then Inl (missing ''complete host mapping'') else Inr ()))"

definition create_memory ::
  "host_control \<Rightarrow> nat \<Rightarrow> usize \<Rightarrow> fdevice list \<Rightarrow> bool \<Rightarrow> memory_owners \<Rightarrow> nat list option \<Rightarrow> native_creation
   \<Rightarrow> fabric_mem \<Rightarrow> fbuffer result \<times> fabric_mem" where
  "create_memory control inst bytes devices host owners initial n s =
     (case prepare_creation inst bytes devices host owners initial n of
        Inl e \<Rightarrow> (Inl e, s)
      | Inr raw \<Rightarrow>
          let s1 = open_cell devices owners n s;
              memory = (\<lambda>mapped. Memory (owner_cell owners n) (map dv_id devices) raw (nc_mapping n) mapped bytes (mo_source owners))
          in if mo_device_only owners then (Inr (memory False, 0, bytes), s1)
             else case map_creation bytes n of
               Inl e \<Rightarrow> (Inl e, s1)
             | Inr _ \<Rightarrow>
                 (case cache_control control True 0 bytes (memory True, 0, bytes)
                         (initialize_cell bytes host owners initial n s1) of
                    (Inl e, s2) \<Rightarrow> (Inl e, s2)
                  | (Inr _, s2) \<Rightarrow> (Inr (memory True, 0, bytes), s2)))"


text \<open>
  The allocation entry points. \<open>create\<close> stands for the call of \<open>create_memory\<close> with the arguments it takes here;
  \<open>reserve\<close> is the answer of the optional memory budget for a size.
\<close>

definition default_options :: allocation_options where
  "default_options = \<lparr>ao_mapping_source = False, ao_host_mapping_source = False, ao_host_numa_node = None,
     ao_coherent_gpu = False, ao_minimum_alignment = 0, ao_required_backing_flags = 0\<rparr>"

definition default_owners :: memory_owners where
  "default_owners = \<lparr>mo_device_only = False, mo_coherent = False, mo_profile = None, mo_source = None, mo_options = default_options\<rparr>"

type_synonym creator =
  "usize \<Rightarrow> fdevice list \<Rightarrow> bool \<Rightarrow> memory_owners \<Rightarrow> nat list option \<Rightarrow> fabric_mem \<Rightarrow> fbuffer result \<times> fabric_mem"

definition allocate_device_local :: "creator \<Rightarrow> usize \<Rightarrow> fdevice \<Rightarrow> fabric_mem \<Rightarrow> fbuffer result \<times> fabric_mem" where
  "allocate_device_local create bytes device s =
     (if dv_engine device \<noteq> Gpu then (Inl (Unsupported ''device-local backing requires a GPU''), s)
      else create bytes [device] False (default_owners\<lparr>mo_device_only := True\<rparr>) None s)"

definition allocate_with_options ::
  "creator \<Rightarrow> (usize \<Rightarrow> unit result) \<Rightarrow> usize \<Rightarrow> fdevice list \<Rightarrow> allocation_options \<Rightarrow> fabric_mem \<Rightarrow> fbuffer result \<times> fabric_mem" where
  "allocate_with_options create reserve bytes devices opts s =
     (case reserve bytes of
        Inl e \<Rightarrow> (Inl e, s)
      | Inr _ \<Rightarrow> create bytes devices False (default_owners\<lparr>mo_coherent := ao_coherent_gpu opts, mo_options := opts\<rparr>) None s)"

definition allocate_registered ::
  "creator \<Rightarrow> (usize \<Rightarrow> unit result) \<Rightarrow> int \<Rightarrow> usize \<Rightarrow> fdevice list \<Rightarrow> fabric_mem \<Rightarrow> fbuffer result \<times> fabric_mem" where
  "allocate_registered create reserve page bytes devices s =
     (if page \<le> 0 \<or> bytes = 0 then (Inl (Message ''invalid registered allocation size''), s)
      else case checked_add bytes (nat page - 1) of
        None \<Rightarrow> (Inl (Message ''registered allocation overflow''), s)
      | Some v \<Rightarrow>
          let rounded = v div nat page * nat page
          in (case reserve rounded of
                Inl e \<Rightarrow> (Inl e, s)
              | Inr _ \<Rightarrow> create rounded devices True (default_owners\<lparr>mo_coherent := True\<rparr>) None s))"

definition allocate_shared :: "creator \<Rightarrow> usize \<Rightarrow> fdevice list \<Rightarrow> fabric_mem \<Rightarrow> fbuffer result \<times> fabric_mem" where
  "allocate_shared create bytes devices s = create bytes devices False (default_owners\<lparr>mo_coherent := True\<rparr>) None s"

definition allocate :: "creator \<Rightarrow> usize \<Rightarrow> fdevice list \<Rightarrow> fabric_mem \<Rightarrow> fbuffer result \<times> fabric_mem" where
  "allocate create bytes devices s = create bytes devices False default_owners None s"

definition allocate_from :: "creator \<Rightarrow> nat list \<Rightarrow> fdevice list \<Rightarrow> fabric_mem \<Rightarrow> fbuffer result \<times> fabric_mem" where
  "allocate_from create data devices s = create (length data) devices False default_owners (Some data) s"

definition allocate_budgeted ::
  "creator \<Rightarrow> (usize \<Rightarrow> unit result) \<Rightarrow> usize \<Rightarrow> fdevice list \<Rightarrow> fabric_mem \<Rightarrow> fbuffer result \<times> fabric_mem" where
  "allocate_budgeted create reserve bytes devices s =
     (case reserve bytes of Inl e \<Rightarrow> (Inl e, s) | Inr _ \<Rightarrow> create bytes devices False default_owners None s)"

definition allocate_owned ::
  "creator \<Rightarrow> (usize \<Rightarrow> unit result) \<Rightarrow> usize \<Rightarrow> fdevice \<Rightarrow> bool \<Rightarrow> fabric_mem \<Rightarrow> fbuffer result \<times> fabric_mem" where
  "allocate_owned create reserve bytes device coherent s =
     (case reserve bytes of
        Inl e \<Rightarrow> (Inl e, s)
      | Inr _ \<Rightarrow> create bytes [device] False (default_owners\<lparr>mo_coherent := coherent\<rparr>) None s)"

definition share_owned ::
  "creator \<Rightarrow> (nat \<Rightarrow> nat \<Rightarrow> nat result) \<Rightarrow> fbuffer \<Rightarrow> fdevice list \<Rightarrow> fabric_mem \<Rightarrow> fbuffer result \<times> fabric_mem" where
  "share_owned create query source devices s =
     (let additional = filter (\<lambda>d. \<not> is_ok (device_address query (dv_id d) source)) devices
      in if additional = [] then (Inr source, s)
         else create (buf_len source) additional False (default_owners\<lparr>mo_source := Some source\<rparr>) None s)"

definition register_host :: "creator \<Rightarrow> nat \<Rightarrow> usize \<Rightarrow> fdevice list \<Rightarrow> fabric_mem \<Rightarrow> fbuffer result \<times> fabric_mem" where
  "register_host create pointer bytes devices s =
     (if pointer = 0 then (Inl (Message ''host registration pointer is null''), s)
      else create bytes devices True (default_owners\<lparr>mo_coherent := True\<rparr>) None s)"

record allocation_profile =
  ap_devices :: "fdevice list"
  ap_scope :: nat
  ap_ordinal :: nat
  ap_coherent :: bool
  ap_maximum_bytes :: nat
  ap_granularity :: nat

definition profile_allocate ::
  "creator \<Rightarrow> (usize \<Rightarrow> unit result) \<Rightarrow> allocation_profile \<Rightarrow> usize \<Rightarrow> fabric_mem \<Rightarrow> fbuffer result \<times> fabric_mem" where
  "profile_allocate create reserve p bytes s =
     (if bytes = 0 \<or> bytes > ap_maximum_bytes p \<or> bytes mod max (ap_granularity p) 1 \<noteq> 0
      then (Inl (Message ''allocation does not satisfy the selected profile's size limits''), s)
      else case reserve bytes of
        Inl e \<Rightarrow> (Inl e, s)
      | Inr _ \<Rightarrow> create bytes (ap_devices p) False
          (default_owners\<lparr>mo_coherent := ap_coherent p, mo_profile := Some (ap_scope p, ap_ordinal p)\<rparr>) None s)"

text \<open>
  Ownership tests, on the strong count of the allocation and, for each private command, its identity and
  how many handles of this allocation it retains.
\<close>

definition exclusively_owned :: "nat \<Rightarrow> fbuffer \<Rightarrow> bool" where
  "exclusively_owned strong b \<longleftrightarrow> is_whole_allocation b \<and> fm_source (buf_memory b) = None \<and> strong = 1"

fun command_owners :: "(nat \<times> nat) option list \<Rightarrow> nat set \<Rightarrow> nat \<Rightarrow> nat option" where
  "command_owners [] seen expected = Some expected"
| "command_owners (None # cs) seen expected = None"
| "command_owners (Some (ident, owners) # cs) seen expected =
     (if ident \<in> seen then None
      else case checked_add expected owners of
        None \<Rightarrow> None
      | Some n \<Rightarrow> command_owners cs (insert ident seen) n)"

definition exclusively_owned_with_commands :: "nat \<Rightarrow> (nat \<times> nat) option list \<Rightarrow> fbuffer \<Rightarrow> bool" where
  "exclusively_owned_with_commands strong commands b \<longleftrightarrow>
     is_whole_allocation b \<and> fm_source (buf_memory b) = None \<and> command_owners commands {} 1 = Some strong"

definition fence_value :: "fbuffer \<Rightarrow> fabric_mem \<Rightarrow> nat result" where
  "fence_value b s =
     and_then (require_host_mapping b) (\<lambda>_.
       if buf_len b < 4 then Inl (Message ''completion storage is too small'')
       else if fb_needs_cache s (buf_cell b) then Inl (Message ''completion fence must be GPU-coherent only'')
       else Inr (from_le_bytes (host_slice b 0 4 s)))"


section \<open>Bounds\<close>

text \<open>
  A buffer lies inside its allocation; an alias was imported from a whole allocation of its own length and shares the
  cell; the bytes behind a cell reach to the end of the allocation.
\<close>

fun memory_ok :: "fabric_mem \<Rightarrow> fmemory \<Rightarrow> bool" where
  "memory_ok s (Memory cell devices raw mapping mapped bytes source) \<longleftrightarrow>
     bytes \<le> usize_MAX \<and> (mapped \<longrightarrow> bytes \<le> length (fb_data s cell))
     \<and> (case source of
          None \<Rightarrow> True
        | Some (m, base, len) \<Rightarrow> memory_ok s m \<and> base = 0 \<and> len = bytes \<and> fm_bytes m = bytes \<and> fm_cell m = cell \<and> fm_mapped m)"

declare memory_ok.simps [simp del]

definition buffer_ok :: "fabric_mem \<Rightarrow> fbuffer \<Rightarrow> bool" where
  "buffer_ok s b \<longleftrightarrow> memory_ok s (buf_memory b) \<and> buf_base b + buf_len b \<le> fm_bytes (buf_memory b)"

lemma buf_simps [simp]:
  "buf_memory (m, base, n) = m" "buf_base (m, base, n) = base" "buf_len (m, base, n) = n" "buf_cell (m, base, n) = fm_cell m"
  by (simp_all add: buf_memory_def buf_base_def buf_len_def buf_cell_def)

lemma buffer_range_ok: "buffer_range b off len = Inr () \<longleftrightarrow> off + len \<le> usize_MAX \<and> off + len \<le> buf_len b"
  by (auto simp: buffer_range_def split: option.splits)

lemma subview_ok:
  assumes "buffer_ok s b" "buffer_subview b off len = Inr v"
  shows "buffer_ok s v" "buf_cell v = buf_cell b" "buf_base v = buf_base b + off" "buf_len v = len" "off + len \<le> buf_len b" "0 < len"
  using assms by (auto simp: buffer_subview_def buffer_ok_def and_then_Inr_iff buffer_range_ok buf_cell_def buf_memory_def split: if_splits)

text \<open>The mapping that maintains an allocation is the one of the allocation it was first imported from.\<close>

fun root_mapping :: "fmemory \<Rightarrow> nat" where
  "root_mapping (Memory cell devices raw mapping mapped bytes source) =
     (case source of None \<Rightarrow> mapping | Some (m, _, _) \<Rightarrow> root_mapping m)"

declare root_mapping.simps [simp del]

definition maintenance :: "bool \<Rightarrow> usize \<Rightarrow> usize \<Rightarrow> fbuffer \<Rightarrow> fabric_mem \<Rightarrow> cache_call" where
  "maintenance flush off len b s =
     (if fb_needs_cache s (buf_cell b)
      then CacheControl (root_mapping (buf_memory b)) (if flush then FLUSH else INVALIDATE) (buf_base b + off) len
      else CacheFence)"

definition maintenance_result :: "host_control \<Rightarrow> cache_call list \<Rightarrow> cache_call \<Rightarrow> unit result" where
  "maintenance_result control calls c =
     (case c of CacheFence \<Rightarrow> Inr () | CacheControl m op off len \<Rightarrow> check_status ''explicit mapped visibility'' (control calls m op off len))"

lemma cache_control_eq:
  assumes "buffer_ok s (m, base, n)" "fm_mapped m" "off + len \<le> n"
  shows "cache_control control flush off len (m, base, n) s =
    (let c = maintenance flush off len (m, base, n) s in (maintenance_result control (fb_calls s) c, log_call c s))"
  using assms
proof (induction m arbitrary: base n off)
  case (Memory cell devices raw mapping mapped bytes source)
  have range: "buffer_range (Memory cell devices raw mapping mapped bytes source, base, n) off len = Inr ()"
    using Memory.prems by (simp add: buffer_range_ok buffer_ok_def memory_ok.simps)
  show ?case
  proof (cases source)
    case None
    with Memory.prems range show ?thesis
      by (simp add: cache_control.simps require_host_mapping_def maintenance_def maintenance_result_def root_mapping.simps Let_def)
  next
    case (Some src)
    obtain m' base' n' where src: "src = (m', base', n')" by (cases src)
    have ok: "memory_ok s m'" "base' = 0" "n' = bytes" "fm_bytes m' = bytes" "fm_cell m' = cell" "fm_mapped m'"
      using Memory.prems(1) Some src by (auto simp: buffer_ok_def memory_ok.simps)
    have "buffer_ok s (m', 0, bytes)" "base + off + len \<le> bytes"
      using ok Memory.prems by (auto simp: buffer_ok_def)
    then have "cache_control control flush (base + off) len (m', 0, bytes) s =
        (let c = maintenance flush (base + off) len (m', 0, bytes) s in (maintenance_result control (fb_calls s) c, log_call c s))"
      using Memory.IH [of src m' 0 bytes "base + off"] ok(6) by (simp add: Some src)
    then show ?thesis using Memory.prems(2) range Some src ok
      by (simp add: cache_control.simps require_host_mapping_def maintenance_def root_mapping.simps Let_def)
  qed
qed


section \<open>Transfers\<close>

lemma log_call_simps [simp]:
  "fb_data (log_call c s) = fb_data s" "fb_uses (log_call c s) = fb_uses s" "fb_poisoned (log_call c s) = fb_poisoned s"
  "fb_needs_cache (log_call c s) = fb_needs_cache s" "fb_calls (log_call c s) = fb_calls s @ [c]"
  by (simp_all add: log_call_def)

lemma host_store_simps [simp]:
  "fb_uses (host_store b off bytes s) = fb_uses s" "fb_poisoned (host_store b off bytes s) = fb_poisoned s"
  "fb_needs_cache (host_store b off bytes s) = fb_needs_cache s" "fb_calls (host_store b off bytes s) = fb_calls s"
  by (simp_all add: host_store_def)

lemma host_slice_log [simp]: "host_slice b off len (log_call c s) = host_slice b off len s"
  by (simp add: host_slice_def)

lemma memory_ok_cong: "(\<And>c. length (fb_data s c) = length (fb_data t c)) \<Longrightarrow> memory_ok s m = memory_ok t m"
  by (induction m) (fastforce simp: memory_ok.simps split: option.splits)

lemma buffer_ok_cong: "(\<And>c. length (fb_data s c) = length (fb_data t c)) \<Longrightarrow> buffer_ok s b = buffer_ok t b"
  using memory_ok_cong [of s t "buf_memory b"] by (simp add: buffer_ok_def)

lemma maintenance_cong:
  "fb_needs_cache s (buf_cell b) = fb_needs_cache t (buf_cell b) \<Longrightarrow> maintenance flush off len b s = maintenance flush off len b t"
  by (simp add: maintenance_def)

lemma buffer_inside:
  assumes "buffer_ok s b" "fm_mapped (buf_memory b)" "off + len \<le> buf_len b"
  shows "buf_base b + off + len \<le> length (fb_data s (buf_cell b))"
  using assms by (cases "buf_memory b") (auto simp: buffer_ok_def memory_ok.simps buf_cell_def buf_memory_def)

lemma host_store_data:
  assumes "buf_base b + off + length bytes \<le> length (fb_data s (buf_cell b))"
  shows "length (fb_data (host_store b off bytes s) c) = length (fb_data s c)"
    "i < length (fb_data s c) \<Longrightarrow> fb_data (host_store b off bytes s) c ! i =
       (if c = buf_cell b \<and> buf_base b + off \<le> i \<and> i < buf_base b + off + length bytes
        then bytes ! (i - (buf_base b + off)) else fb_data s c ! i)"
    "host_slice b off (length bytes) (host_store b off bytes s) = bytes"
  using assms by (auto simp: host_store_def splice_def nth_append min_def host_slice_def)

lemma cache_control_buffer:
  assumes "buffer_ok s b" "fm_mapped (buf_memory b)" "off + len \<le> buf_len b"
  shows "cache_control control flush off len b s =
    (maintenance_result control (fb_calls s) (maintenance flush off len b s), log_call (maintenance flush off len b s) s)"
  using cache_control_eq [of s "buf_memory b" "buf_base b" "buf_len b" off len control flush] assms
  by (simp add: Let_def buf_memory_def buf_base_def buf_len_def)

text \<open>A transaction on a mapped range, in closed form.\<close>

lemma host_transaction_eq:
  assumes "buffer_ok s b" "fm_mapped (buf_memory b)" "off + len \<le> buf_len b"
    "action (host_slice b off len s) = (r, bytes)" "length bytes = len"
  shows "host_transaction control b off len action s =
    (let acquire = maintenance False off len b s; publish = maintenance True off len b s;
         s' = log_call publish (host_store b off bytes (log_call acquire s))
     in case maintenance_result control (fb_calls s) acquire of
          Inl e \<Rightarrow> (Inl e, log_call acquire s)
        | Inr _ \<Rightarrow> (case maintenance_result control (fb_calls s @ [acquire]) publish of Inl e \<Rightarrow> (Inl e, s') | Inr _ \<Rightarrow> (r, s')))"
proof -
  let ?a = "maintenance False off len b s"
  let ?t = "host_store b off bytes (log_call ?a s)"
  have "buf_base b + off + length bytes \<le> length (fb_data (log_call ?a s) (buf_cell b))" using buffer_inside [OF assms(1-3)] assms(5) by simp
  then have "buffer_ok ?t b" using host_store_data(1) assms(1) buffer_ok_cong [of ?t s b] by simp
  then have "cache_control control True off len b ?t =
      (maintenance_result control (fb_calls s @ [?a]) (maintenance True off len b s), log_call (maintenance True off len b s) ?t)"
    using cache_control_buffer [of ?t b off len control True] assms(2,3) maintenance_cong [of ?t b s True off len] by simp
  then show ?thesis
    unfolding host_transaction_def cache_control_buffer [OF assms(1-3)] using assms(4)
    by (auto simp: Let_def split: sum.splits)
qed

text \<open>Fills keep the length of the target, and one that succeeds stores exactly the bytes of the file.\<close>

lemma overwrite_length [simp]: "length (overwrite left target) = length target"
  by (simp add: overwrite_def)

lemma read_exact_length: "read_exact_at content io pos xs = (r, b) \<Longrightarrow> length b = length xs"
  by (auto simp: read_exact_at_def split: if_splits io_end.splits)

lemma read_exact_Inr:
  "read_exact_at content io pos xs = (Inr (), b) \<Longrightarrow> xs \<noteq> [] \<Longrightarrow> pos + length xs \<le> length content \<and> b = take (length xs) (drop pos content)"
  by (auto simp: read_exact_at_def split: if_splits io_end.splits)

lemma worker_result_length: "worker_result content w pos xs = (r, b) \<Longrightarrow> length b = length xs"
  by (auto simp: worker_result_def split: worker_end.splits prod.splits dest: read_exact_length)

lemma concat_chunks_mut: "0 < n \<Longrightarrow> concat (chunks_mut n xs) = xs"
proof (induction n xs rule: chunks_mut.induct)
  case (1 n xs)
  then show ?case using chunks_mut.simps [of n xs] by (cases "xs = []") simp_all
qed

lemma spawn_workers_length: "spawn_workers f pos n index chunks = (e, rs, b) \<Longrightarrow> length b = length (concat chunks)"
proof (induction f pos n index chunks arbitrary: e rs b rule: spawn_workers.induct)
  case (2 f pos n index chunk chunks)
  obtain r bytes where w: "worker_result (fs_bytes f) (fs_worker f index) (pos + index * n) chunk = (r, bytes)" by fastforce
  obtain e' rs' rest where rest: "spawn_workers f pos n (Suc index) chunks = (e', rs', rest)" by (metis prod_cases3)
  show ?case
  proof (cases "fs_spawn f index")
    case None
    then show ?thesis using "2.prems" w rest worker_result_length [OF w] "2.IH" [OF None w [symmetric] refl rest] by auto
  qed (use "2.prems" in auto)
qed simp

lemma join_workers_Inr: "join_workers rs = (Inr (), u) \<Longrightarrow> u = [] \<and> (\<forall>r\<in>set rs. r = Some (Inr ()))"
  by (induction rs rule: join_workers.induct) auto

lemma join_workers_all: "\<forall>r\<in>set rs. r = Some (Inr ()) \<Longrightarrow> join_workers rs = (Inr (), [])"
proof (induction rs)
  case (Cons r rs)
  then have "r = Some (Inr ())" "join_workers rs = (Inr (), [])" by (simp_all del: split_paired_All)
  then show ?case by simp
qed simp

text \<open>When every thread started and filled its chunk, the chunks are the bytes of the file from the position of the first.\<close>

lemma spawn_workers_exact:
  assumes "spawn_workers f pos n index (chunks_mut n xs) = (None, rs, b)" "\<forall>r\<in>set rs. r = Some (Inr ())" "0 < n" "xs \<noteq> []"
  shows "pos + index * n + length xs \<le> length (fs_bytes f) \<and> b = take (length xs) (drop (pos + index * n) (fs_bytes f))"
  using assms
proof (induction n xs arbitrary: index rs b rule: chunks_mut.induct)
  case (1 n xs)
  have split: "chunks_mut n xs = take n xs # chunks_mut n (drop n xs)" using "1.prems"(3,4) chunks_mut.simps [of n xs] by simp
  let ?pos = "pos + index * n"
  obtain r bytes where w: "worker_result (fs_bytes f) (fs_worker f index) ?pos (take n xs) = (r, bytes)" by fastforce
  obtain e' rs' rest where rest: "spawn_workers f pos n (Suc index) (chunks_mut n (drop n xs)) = (e', rs', rest)" by (metis prod_cases3)
  from "1.prems"(1) w rest have eqs: "e' = None" "rs = r # rs'" "b = bytes @ rest" by (auto simp: split split: option.splits)
  have "r = Some (Inr ())" using "1.prems"(2) eqs(2) by simp
  then have "read_exact_at (fs_bytes f) io ?pos (take n xs) = (Inr (), bytes)" if "fs_worker f index = Worked io" for io
    using w that by (auto simp: worker_result_def split: prod.splits)
  moreover obtain io where "fs_worker f index = Worked io" using w \<open>r = Some (Inr ())\<close> by (auto simp: worker_result_def split: worker_end.splits)
  ultimately have first: "?pos + length (take n xs) \<le> length (fs_bytes f)" "bytes = take (length (take n xs)) (drop ?pos (fs_bytes f))"
    using read_exact_Inr "1.prems"(3,4) by fastforce+
  show ?case
  proof (cases "drop n xs = []")
    case True
    then have "rest = []" using rest spawn_workers_length by (simp add: chunks_mut.simps)
    with True first eqs(3) show ?thesis by simp
  next
    case False
    then have len: "length (take n xs) = n" "length xs = n + length (drop n xs)" by auto
    have "pos + Suc index * n + length (drop n xs) \<le> length (fs_bytes f) \<and> rest = take (length (drop n xs)) (drop (pos + Suc index * n) (fs_bytes f))"
      using "1.IH" [of "Suc index" rs' rest] "1.prems"(2,3,4) rest eqs False by simp
    moreover have "pos + Suc index * n = ?pos + n" by simp
    ultimately have tail: "?pos + n + length (drop n xs) \<le> length (fs_bytes f)" "rest = take (length (drop n xs)) (drop (?pos + n) (fs_bytes f))"
      by (simp_all only:)
    have "take (n + length (drop n xs)) (drop ?pos (fs_bytes f)) = take n (drop ?pos (fs_bytes f)) @ take (length (drop n xs)) (drop (?pos + n) (fs_bytes f))"
      by (simp add: take_add add.commute)
    then have "b = take (n + length (drop n xs)) (drop ?pos (fs_bytes f))" using first(2) tail(2) eqs(3) len(1) by simp
    moreover have "?pos + (n + length (drop n xs)) \<le> length (fs_bytes f)" using tail(1) by linarith
    ultimately show ?thesis by (simp only: flip: len(2))
  qed
qed

definition quiet :: "file_source \<Rightarrow> bool" where
  "quiet f \<longleftrightarrow> (\<exists>left. fs_read f = IoDone left) \<and> (\<forall>i. fs_spawn f i = None \<and> (\<exists>left. fs_worker f i = Worked (IoDone left)))"

lemma spawn_workers_quiet:
  assumes "quiet f" "0 < n" "xs = [] \<or> pos + index * n + length xs \<le> length (fs_bytes f)"
  shows "\<exists>rs b. spawn_workers f pos n index (chunks_mut n xs) = (None, rs, b) \<and> (\<forall>r\<in>set rs. r = Some (Inr ()))"
  using assms
proof (induction n xs arbitrary: index rule: chunks_mut.induct)
  case (1 n xs)
  show ?case
  proof (cases "xs = []")
    case False
    have split: "chunks_mut n xs = take n xs # chunks_mut n (drop n xs)" using "1.prems"(2) False chunks_mut.simps [of n xs] by simp
    obtain left where io: "fs_worker f index = Worked (IoDone left)" "fs_spawn f index = None" using "1.prems"(1) by (auto simp: quiet_def)
    have "pos + index * n + length (take n xs) \<le> length (fs_bytes f)" using "1.prems"(3) False by auto
    then have "\<exists>b. worker_result (fs_bytes f) (fs_worker f index) (pos + index * n) (take n xs) = (Some (Inr ()), b)"
      using False "1.prems"(2) by (simp add: worker_result_def io read_exact_at_def)
    moreover have "drop n xs = [] \<or> pos + Suc index * n + length (drop n xs) \<le> length (fs_bytes f)" using "1.prems"(3) False by auto
    then obtain rs b where "spawn_workers f pos n (Suc index) (chunks_mut n (drop n xs)) = (None, rs, b)" "\<forall>r\<in>set rs. r = Some (Inr ())"
      using "1.IH" [of "Suc index"] "1.prems"(1,2) False by auto
    ultimately show ?thesis using io(2) by (auto simp: split)
  qed (simp add: chunks_mut.simps)
qed

lemma parallel_fill_exact:
  assumes "0 < workers" "target \<noteq> []" "parallel_fill workers f pos target = (r, b)"
  shows "length b = length target"
    "r = Some (Inr ()) \<Longrightarrow> pos + length target \<le> length (fs_bytes f) \<and> b = take (length target) (drop pos (fs_bytes f))"
    "quiet f \<Longrightarrow> pos + length target \<le> length (fs_bytes f) \<Longrightarrow> r = Some (Inr ())"
proof -
  define n where "n = div_ceil (length target) workers"
  have n: "0 < n" using assms(1,2) by (cases target) (simp_all add: n_def div_ceil_def div_greater_zero_iff)
  obtain failed rs c where sp: "spawn_workers f pos n 0 (chunks_mut n target) = (failed, rs, c)" by (metis prod_cases3)
  obtain res unjoined where jn: "(case failed of Some e \<Rightarrow> (Inl (Io e), rs) | None \<Rightarrow> join_workers rs) = (res, unjoined)" by fastforce
  have eqs: "b = c" "r = (if None \<in> set unjoined then None else Some res)"
    using assms(3) sp jn by (simp_all add: parallel_fill_def Let_def flip: n_def)
  show "length b = length target" using spawn_workers_length [OF sp] n by (simp add: eqs concat_chunks_mut)
  show "pos + length target \<le> length (fs_bytes f) \<and> b = take (length target) (drop pos (fs_bytes f))" if ok: "r = Some (Inr ())"
  proof -
    from ok eqs(2) have "res = Inr ()" by (auto split: if_splits)
    then have "failed = None" "\<forall>r\<in>set rs. r = Some (Inr ())" using jn by (auto split: option.splits dest: join_workers_Inr)
    then show ?thesis using spawn_workers_exact [of f pos n 0 target rs c] sp n assms(2) by (simp add: eqs)
  qed
  show "r = Some (Inr ())" if q: "quiet f" "pos + length target \<le> length (fs_bytes f)"
    using spawn_workers_quiet [OF q(1) n, of target pos 0] q(2) sp jn by (auto simp: eqs join_workers_all)
qed

text \<open>While a device holds a use, every host transfer fails and changes nothing.\<close>

lemma admit_host_busy: "fb_uses s (buf_cell b) \<noteq> 0 \<Longrightarrow> \<exists>e. admit_host text b s = Inl e"
  by (simp add: admit_host_def)

lemma busy_excludes_host:
  assumes "fb_uses s (buf_cell b) \<noteq> 0"
  shows "\<exists>e. buffer_write control b off bytes s = (Inl e, s)" "\<exists>e. buffer_read control b off len s = (Inl e, s)"
    "\<exists>e. buffer_zero control b s = (Inl e, s)" "\<exists>e. with_host_bytes control b action s = (Inl e, s)"
    "\<exists>e. write_from_file control b off len f pos s = (Inl e, s)" "\<exists>e. write_from_file_parallel control b off len f pos workers s = (Some (Inl e), s)"
proof -
  obtain e where busy: "admit_host ''buffer is in use by a device'' b s = Inl e" using admit_host_busy [OF assms] by blast
  obtain e' where exec: "admit_host ''memory is executing'' b s = Inl e'" using admit_host_busy [OF assms] by blast
  show "\<exists>e. buffer_write control b off bytes s = (Inl e, s)"
    by (cases "buffer_range b off (length bytes)") (simp_all add: buffer_write_def busy)
  show "\<exists>e. buffer_read control b off len s = (Inl e, s)"
    by (cases "buffer_range b off len") (simp_all add: buffer_read_def busy)
  show "\<exists>e. buffer_zero control b s = (Inl e, s)" by (cases "require_host_mapping b") (simp_all add: buffer_zero_def exec)
  show "\<exists>e. with_host_bytes control b action s = (Inl e, s)" by (simp add: with_host_bytes_def busy)
  obtain e'' where checks: "file_checks b off len pos s = Inl e''"
    by (cases "buffer_range b off len"; cases "pos + len \<le> usize_MAX") (simp_all add: file_checks_def busy checked_add_def)
  then show "\<exists>e. write_from_file control b off len f pos s = (Inl e, s)"
    "\<exists>e. write_from_file_parallel control b off len f pos workers s = (Some (Inl e), s)"
    by (simp_all add: write_from_file_def write_from_file_parallel_def)
qed

lemma buffer_write_Inr:
  assumes "buffer_ok s b" "fm_mapped (buf_memory b)" "buffer_write control b off bytes s = (Inr (), s')"
  shows "off + length bytes \<le> buf_len b" "fb_uses s (buf_cell b) = 0" "\<not> fb_poisoned s (buf_cell b)"
    "s' = log_call (maintenance True off (length bytes) b s)
            (host_store b off bytes (log_call (maintenance False off (length bytes) b s) s))"
proof -
  from assms(3) have guard: "buffer_range b off (length bytes) = Inr ()" "admit_host ''buffer is in use by a device'' b s = Inr ()"
    and t: "host_transaction control b off (length bytes) (\<lambda>_. (Inr (), bytes)) s = (Inr (), s')"
    by (auto simp: buffer_write_def and_then_def split: sum.splits)
  show r: "off + length bytes \<le> buf_len b" using guard(1) by (simp add: buffer_range_ok)
  show "fb_uses s (buf_cell b) = 0" "\<not> fb_poisoned s (buf_cell b)" using guard(2) by (auto simp: admit_host_def split: if_splits)
  note e = host_transaction_eq [OF assms(1,2) r, of "\<lambda>_. (Inr (), bytes)" "Inr ()" bytes control]
  show "s' = log_call (maintenance True off (length bytes) b s)
            (host_store b off bytes (log_call (maintenance False off (length bytes) b s) s))"
    using t e by (auto simp: Let_def split: sum.splits)
qed

text \<open>An effect on a range of a buffer leaves every other byte of every allocation, and all lengths, as they are.\<close>

definition confined :: "fbuffer \<Rightarrow> usize \<Rightarrow> usize \<Rightarrow> fabric_mem \<Rightarrow> fabric_mem \<Rightarrow> bool" where
  "confined b off len s t \<longleftrightarrow> (\<forall>c. length (fb_data t c) = length (fb_data s c) \<and> (\<forall>i<length (fb_data s c).
     c = buf_cell b \<and> buf_base b + off \<le> i \<and> i < buf_base b + off + len \<or> fb_data t c ! i = fb_data s c ! i))"

lemma confined_cong: "fb_data t = fb_data t' \<Longrightarrow> confined b off len s t = confined b off len s t'"
  by (simp add: confined_def)

lemma confined_refl: "fb_data t = fb_data s \<Longrightarrow> confined b off len s t"
  by (simp add: confined_def)

lemma stored:
  assumes "buffer_ok s b" "fm_mapped (buf_memory b)" "off + length bytes \<le> buf_len b" "fb_data t = fb_data (host_store b off bytes (log_call a s))"
  shows "confined b off (length bytes) s t" "host_slice b off (length bytes) t = bytes"
proof -
  have inside: "buf_base b + off + length bytes \<le> length (fb_data (log_call a s) (buf_cell b))" using buffer_inside [OF assms(1-3)] by simp
  show "confined b off (length bytes) s t" using host_store_data(1,2) [OF inside] by (simp add: confined_def assms(4))
  show "host_slice b off (length bytes) t = bytes" using host_store_data(3) [OF inside] by (simp add: host_slice_def assms(4))
qed

text \<open>A transaction on a range stores bytes in it or changes nothing.\<close>

lemma host_transaction_data:
  assumes "buffer_ok s b" "fm_mapped (buf_memory b)" "off + len \<le> buf_len b" "action (host_slice b off len s) = (r, bytes)" "length bytes = len"
    "host_transaction control b off len action s = (q, t)"
  shows "confined b off len s t" "q = Inr x \<Longrightarrow> r = Inr x \<and> host_slice b off len t = bytes"
proof -
  let ?a = "maintenance False off len b s"
  note eq = host_transaction_eq [of s b off len action r bytes control, OF assms(1-5), unfolded assms(6)]
  have "fb_data t = fb_data s \<and> (\<exists>e. q = Inl e) \<or> fb_data t = fb_data (host_store b off bytes (log_call ?a s)) \<and> ((\<exists>e. q = Inl e) \<or> q = r)"
    using eq by (auto simp: Let_def split: sum.splits)
  moreover have "confined b off len s t" "host_slice b off len t = bytes" if "fb_data t = fb_data (host_store b off bytes (log_call ?a s))"
    using stored [of s b off bytes t ?a] that assms(1-3,5) by simp_all
  ultimately show "confined b off len s t" "q = Inr x \<Longrightarrow> r = Inr x \<and> host_slice b off len t = bytes"
    using confined_refl [of t s b off len] by auto
qed

lemma host_slice_length:
  "buffer_ok s b \<Longrightarrow> fm_mapped (buf_memory b) \<Longrightarrow> off + len \<le> buf_len b \<Longrightarrow> length (host_slice b off len s) = len"
  using buffer_inside [of s b off len] by (simp add: host_slice_def)

lemma file_checks_range: "file_checks b off len pos s = Inr () \<Longrightarrow> off + len \<le> buf_len b"
  by (auto simp: file_checks_def and_then_Inr_iff buffer_range_ok)

lemma write_from_file_exact:
  assumes "buffer_ok s b" "fm_mapped (buf_memory b)" "write_from_file control b off len f pos s = (r, t)"
  shows "confined b off len s t"
    "r = Inr () \<Longrightarrow> length (take len (drop pos (fs_bytes f))) = len \<and> host_slice b off len t = take len (drop pos (fs_bytes f))"
proof -
  have "confined b off len s t \<and> (r = Inr () \<longrightarrow> length (take len (drop pos (fs_bytes f))) = len \<and> host_slice b off len t = take len (drop pos (fs_bytes f)))"
  proof (cases "file_checks b off len pos s")
    case (Inl e)
    then show ?thesis using assms(3) by (auto simp: write_from_file_def intro: confined_refl)
  next
    case (Inr u)
    then have range: "off + len \<le> buf_len b" by (simp add: file_checks_range)
    have sl: "length (host_slice b off len s) = len" using host_slice_length [OF assms(1,2) range] .
    obtain q bytes where rd: "read_exact_at (fs_bytes f) (fs_read f) pos (host_slice b off len s) = (q, bytes)" by fastforce
    have bl: "length bytes = len" using read_exact_length [OF rd] sl by simp
    have run: "host_transaction control b off len (read_exact_at (fs_bytes f) (fs_read f) pos) s = (r, t)"
      using assms(3) Inr by (simp add: write_from_file_def)
    note d = host_transaction_data [OF assms(1,2) range rd bl run]
    have "length (take len (drop pos (fs_bytes f))) = len \<and> host_slice b off len t = take len (drop pos (fs_bytes f))" if "r = Inr ()"
    proof (cases "len = 0")
      case True
      then show ?thesis by (simp add: host_slice_def)
    next
      case False
      with sl have "host_slice b off len s \<noteq> []" by auto
      then show ?thesis using d(2) [OF that] rd sl read_exact_Inr [of "fs_bytes f" "fs_read f" pos "host_slice b off len s" bytes] by auto
    qed
    with d(1) show ?thesis by blast
  qed
  then show "confined b off len s t"
    "r = Inr () \<Longrightarrow> length (take len (drop pos (fs_bytes f))) = len \<and> host_slice b off len t = take len (drop pos (fs_bytes f))" by simp_all
qed

text \<open>What a fill by several workers does from the acquisition on.\<close>

lemma parallel_tail:
  assumes "buffer_ok s b" "fm_mapped (buf_memory b)" "off + len \<le> buf_len b" "1 < workers" "workers \<le> 8" "len \<noteq> 0" "file_checks b off len pos s = Inr ()"
    "parallel_fill workers f pos (host_slice b off len s) = (result, bytes)"
  shows "write_from_file_parallel control b off len f pos workers s =
    (let acquire = maintenance False off len b s; publish = maintenance True off len b s; s2 = host_store b off bytes (log_call acquire s)
     in case maintenance_result control (fb_calls s) acquire of
          Inl e \<Rightarrow> (Some (Inl e), log_call acquire s)
        | Inr _ \<Rightarrow>
            (case result of
               None \<Rightarrow> (None, s2\<lparr>fb_poisoned := (fb_poisoned s2)(buf_cell b := True)\<rparr>)
             | Some r \<Rightarrow> (case maintenance_result control (fb_calls s @ [acquire]) publish of
                              Inl e \<Rightarrow> (Some (Inl e), log_call publish s2) | Inr _ \<Rightarrow> (Some r, log_call publish s2))))"
proof -
  let ?a = "maintenance False off len b s"
  let ?t = "host_store b off bytes (log_call ?a s)"
  have sl: "length (host_slice b off len s) = len" using host_slice_length [OF assms(1-3)] .
  then have "host_slice b off len s \<noteq> []" using assms(6) by auto
  then have bl: "length bytes = len" using parallel_fill_exact(1) [OF _ _ assms(8)] assms(4) sl by simp
  have "buf_base b + off + length bytes \<le> length (fb_data (log_call ?a s) (buf_cell b))" using buffer_inside [OF assms(1-3)] bl by simp
  then have "buffer_ok ?t b" using host_store_data(1) assms(1) buffer_ok_cong [of ?t s b] by simp
  then have pub: "cache_control control True off len b ?t =
      (maintenance_result control (fb_calls s @ [?a]) (maintenance True off len b s), log_call (maintenance True off len b s) ?t)"
    using cache_control_buffer [of ?t b off len control True] assms(2,3) maintenance_cong [of ?t b s True off len] by simp
  show ?thesis using assms(4-8) pub
    by (auto simp: write_from_file_parallel_def cache_control_buffer [OF assms(1-3)] Let_def split: sum.split option.split)
qed

lemma parallel_file_exact:
  assumes "buffer_ok s b" "fm_mapped (buf_memory b)" "write_from_file_parallel control b off len f pos workers s = (r, t)"
  shows "confined b off len s t"
    "r = Some (Inr ()) \<Longrightarrow> length (take len (drop pos (fs_bytes f))) = len \<and> host_slice b off len t = take len (drop pos (fs_bytes f))"
    "r = None \<Longrightarrow> fb_poisoned t (buf_cell b)"
    "quiet f \<Longrightarrow> pos + len \<le> length (fs_bytes f) \<Longrightarrow> 1 \<le> workers \<Longrightarrow> workers \<le> 8 \<Longrightarrow>
       r = Some (fst (write_from_file control b off len f pos s)) \<and> t = snd (write_from_file control b off len f pos s)"
proof -
  let ?good = "length (take len (drop pos (fs_bytes f))) = len \<and> host_slice b off len t = take len (drop pos (fs_bytes f))"
  let ?plain = "write_from_file control b off len f pos s"
  have "confined b off len s t \<and> (r = Some (Inr ()) \<longrightarrow> ?good) \<and> (r = None \<longrightarrow> fb_poisoned t (buf_cell b))
    \<and> (quiet f \<longrightarrow> pos + len \<le> length (fs_bytes f) \<longrightarrow> 1 \<le> workers \<longrightarrow> workers \<le> 8 \<longrightarrow> r = Some (fst ?plain) \<and> t = snd ?plain)"
  proof -
    consider (bad) "\<not> (1 \<le> workers \<and> workers \<le> 8)" | (plain) "1 \<le> workers" "workers \<le> 8" "workers = 1 \<or> len = 0"
      | (refused) e where "1 < workers" "workers \<le> 8" "len \<noteq> 0" "file_checks b off len pos s = Inl e"
      | (par) "1 < workers" "workers \<le> 8" "len \<noteq> 0" "file_checks b off len pos s = Inr ()"
      by (cases "file_checks b off len pos s") force+
    then show ?thesis
    proof cases
      case bad
      then show ?thesis using assms(3) by (auto simp: write_from_file_parallel_def intro: confined_refl)
    next
      case plain
      obtain q u where w: "?plain = (q, u)" by fastforce
      then have "r = Some q" "t = u" using plain assms(3) by (auto simp: write_from_file_parallel_def)
      then show ?thesis using write_from_file_exact [OF assms(1,2) w] w by simp
    next
      case refused
      then show ?thesis using assms(3) by (auto simp: write_from_file_parallel_def write_from_file_def intro: confined_refl)
    next
      case par
      have range: "off + len \<le> buf_len b" by (rule file_checks_range [OF par(4)])
      have sl: "length (host_slice b off len s) = len" using host_slice_length [OF assms(1,2) range] .
      then have ne: "host_slice b off len s \<noteq> []" using par(3) by auto
      obtain result bytes where fill: "parallel_fill workers f pos (host_slice b off len s) = (result, bytes)" by fastforce
      have "0 < workers" using par(1) by simp
      note pf = parallel_fill_exact [OF this ne fill, unfolded sl]
      let ?a = "maintenance False off len b s"
      note eq = parallel_tail [OF assms(1,2) range par fill, of control, unfolded assms(3)]
      have st: "confined b off len s v" "host_slice b off len v = bytes" if "fb_data v = fb_data (host_store b off bytes (log_call ?a s))" for v
        using stored [of s b off bytes v ?a] that assms(1,2) range pf(1) by simp_all
      have same: "confined b off len s v" if "fb_data v = fb_data s" for v using that by (rule confined_refl)
      have "confined b off len s t \<and> (r = Some (Inr ()) \<longrightarrow> ?good) \<and> (r = None \<longrightarrow> fb_poisoned t (buf_cell b))"
        using eq st same pf(2) by (auto simp: Let_def split: sum.splits option.splits)
      moreover have "r = Some (fst ?plain) \<and> t = snd ?plain" if q: "quiet f" "pos + len \<le> length (fs_bytes f)"
      proof -
        have res: "result = Some (Inr ())" using pf(3) q by simp
        then have got: "bytes = take len (drop pos (fs_bytes f))" using pf(2) by simp
        have rd: "read_exact_at (fs_bytes f) (fs_read f) pos (host_slice b off len s) = (Inr (), bytes)"
          using q ne sl by (auto simp: read_exact_at_def quiet_def got)
        note tr = host_transaction_eq [of s b off len "read_exact_at (fs_bytes f) (fs_read f) pos" "Inr ()" bytes control, OF assms(1,2) range rd pf(1)]
        have "?plain = host_transaction control b off len (read_exact_at (fs_bytes f) (fs_read f) pos) s" using par(4) by (simp add: write_from_file_def)
        then show ?thesis using eq tr res by (auto simp: Let_def split: sum.splits)
      qed
      ultimately show ?thesis by blast
    qed
  qed
  then show "confined b off len s t" "r = Some (Inr ()) \<Longrightarrow> ?good" "r = None \<Longrightarrow> fb_poisoned t (buf_cell b)"
    "quiet f \<Longrightarrow> pos + len \<le> length (fs_bytes f) \<Longrightarrow> 1 \<le> workers \<Longrightarrow> workers \<le> 8 \<Longrightarrow> r = Some (fst ?plain) \<and> t = snd ?plain"
    by blast+
qed

section \<open>Created allocations\<close>

lemma select_profile_admits:
  "select_profile bytes host owners scope k ps = Inr (Some ordinal) \<Longrightarrow>
     k \<le> ordinal \<and> ordinal < k + length ps \<and> fst (ps ! (ordinal - k)) = 0 \<and> profile_admits bytes host owners (snd (ps ! (ordinal - k)))
     \<and> (mo_profile owners \<noteq> None \<longrightarrow> mo_profile owners = Some (scope, ordinal))"
proof (induction bytes host owners scope k ps rule: select_profile.induct)
  case (2 bytes host owners scope k status p rest)
  have skip: "?case" if "select_profile bytes host owners scope (Suc k) rest = Inr (Some ordinal)"
    and ih: "select_profile bytes host owners scope (Suc k) rest = Inr (Some ordinal) \<Longrightarrow>
      Suc k \<le> ordinal \<and> ordinal < Suc k + length rest \<and> fst (rest ! (ordinal - Suc k)) = 0
      \<and> profile_admits bytes host owners (snd (rest ! (ordinal - Suc k)))
      \<and> (mo_profile owners \<noteq> None \<longrightarrow> mo_profile owners = Some (scope, ordinal))"
  proof -
    from ih [OF that(1)] have "ordinal - k = Suc (ordinal - Suc k)" by linarith
    with ih [OF that(1)] show ?thesis by simp
  qed
  show ?case
  proof (cases "mo_profile owners \<noteq> None \<and> mo_profile owners \<noteq> Some (scope, k) \<or> status = STATUS_UNSUPPORTED")
    case True
    with "2.prems" "2.IH"(1) show ?thesis by (intro skip) auto
  next
    case False
    with "2.prems" have zero: "status = 0" by (auto simp: check_status_def Let_def split: if_splits)
    show ?thesis
    proof (cases "profile_admits bytes host owners p")
      case True
      with False "2.prems" zero show ?thesis by (auto simp: check_status_def)
    next
      case no: False
      have "select_profile bytes host owners scope (Suc k) rest = Inr (Some ordinal)"
        using "2.prems" False no zero by (simp add: check_status_def split: if_splits)
      then show ?thesis using "2.IH"(2) [OF False no] zero by (intro skip) (auto simp: check_status_def)
    qed
  qed
qed simp

lemma open_cell_data:
  "fb_data (open_cell devices owners n s) =
     (if mo_source owners = None then (fb_data s)(nc_cell n := nc_contents n) else fb_data s)"
  by (auto simp: open_cell_def Let_def owner_cell_def)

lemma create_memory_Inr:
  assumes "create_memory control inst bytes devices host owners initial n s = (Inr b, s')"
  shows "bytes \<noteq> 0" "devices_unique inst [] devices"
    "\<exists>raw mapped. b = (Memory (owner_cell owners n) (map dv_id devices) raw (nc_mapping n) mapped bytes (mo_source owners), 0, bytes)"
    "fm_mapped (buf_memory b) \<longleftrightarrow> \<not> mo_device_only owners"
    "mo_source owners = Some src \<Longrightarrow> is_whole_allocation src"
    "initial = Some d \<Longrightarrow> length d = bytes"
  using assms
  by (auto simp: create_memory_def prepare_creation_def creation_checks_def and_then_Inr_iff Let_def
      split: sum.splits prod.splits if_splits option.splits)

text \<open>Host-visible backing allocated afresh holds the given data, or zeros, before anyone can see it.\<close>

lemma create_memory_initialized:
  assumes "create_memory control inst bytes devices False owners initial n s = (Inr b, s')"
    "\<not> mo_device_only owners" "mo_source owners = None" "bytes \<le> length (nc_contents n)" "bytes \<le> usize_MAX"
  shows "buffer_ok s' b" "host_slice b 0 bytes s' = (case initial of Some d \<Rightarrow> d | None \<Rightarrow> replicate bytes 0)"
    "fb_uses s' (buf_cell b) = 0" "\<exists>c. fb_calls s' = fb_calls s @ [c]"
proof -
  note c = create_memory_Inr [OF assms(1)]
  let ?c = "nc_cell n" and ?fill = "case initial of Some d \<Rightarrow> d | None \<Rightarrow> replicate bytes 0"
  let ?t = "initialize_cell bytes False owners initial n (open_cell devices owners n s)"
  obtain raw where b: "b = (Memory ?c (map dv_id devices) raw (nc_mapping n) True bytes None, 0, bytes)"
    using c(3,4) assms(2,3) by (auto simp: owner_cell_def)
  have fill: "length ?fill = bytes" using c(6) by (auto split: option.splits)
  have data: "fb_data ?t ?c = ?fill @ drop bytes (nc_contents n)"
    using assms(3) fill by (simp add: initialize_cell_def open_cell_data owner_cell_def splice_def Let_def)
  have ok: "buffer_ok ?t b" using b data fill assms(4,5) by (simp add: buffer_ok_def memory_ok.simps)
  have "cache_control control True 0 bytes b ?t = (Inr (), s')"
    using assms(1-3) b c(4)
    by (auto simp: create_memory_def owner_cell_def Let_def split: sum.splits prod.splits)
  moreover have "cache_control control True 0 bytes b ?t
      = (maintenance_result control (fb_calls ?t) (maintenance True 0 bytes b ?t), log_call (maintenance True 0 bytes b ?t) ?t)"
    using cache_control_buffer [OF ok, of 0 bytes] b by simp
  ultimately have s': "s' = log_call (maintenance True 0 bytes b ?t) ?t" by simp
  show "buffer_ok s' b" using ok buffer_ok_cong [of s' ?t b] by (simp add: s')
  show "host_slice b 0 bytes s' = ?fill" using fill by (simp add: s' host_slice_def b data)
  show "fb_uses s' (buf_cell b) = 0" "\<exists>c. fb_calls s' = fb_calls s @ [c]"
    using assms(3) by (auto simp: s' b initialize_cell_def open_cell_def Let_def owner_cell_def)
qed


text \<open>
  An allocation is owned by its handle and the given commands alone exactly when every command is private, no command is
  listed twice and the handles account for the whole count; a duplicate cannot hide another owner.
\<close>

lemma command_owners_Some:
  "command_owners cs seen k = Some n \<Longrightarrow>
     \<exists>ps. cs = map Some ps \<and> distinct (map fst ps) \<and> set (map fst ps) \<inter> seen = {} \<and> n = k + sum_list (map snd ps)"
proof (induction cs seen k rule: command_owners.induct)
  case (3 ident owners cs seen k)
  then have fresh: "ident \<notin> seen" and rest: "command_owners cs (insert ident seen) (k + owners) = Some n" "k + owners \<le> usize_MAX"
    by (auto simp: checked_add_def split: if_splits option.splits)
  then obtain ps where ps: "cs = map Some ps" "distinct (map fst ps)" "set (map fst ps) \<inter> insert ident seen = {}"
      "n = k + owners + sum_list (map snd ps)"
    using "3.IH" [of "k + owners"] by (auto simp: checked_add_def)
  show ?case using ps fresh by (intro exI [of _ "(ident, owners) # ps"]) auto
qed auto

lemma exclusive_commands_exact:
  "exclusively_owned_with_commands strong commands b \<Longrightarrow>
     \<exists>ps. commands = map Some ps \<and> distinct (map fst ps) \<and> strong = 1 + sum_list (map snd ps) \<and> is_whole_allocation b"
  using command_owners_Some [of commands "{}" 1 strong] by (auto simp: exclusively_owned_with_commands_def)

lemma registered_rounds_up:
  assumes "0 < (page :: nat)" "bytes + (page - 1) \<le> usize_MAX"
  shows "bytes \<le> (bytes + (page - 1)) div page * page" "(bytes + (page - 1)) div page * page < bytes + page"
proof -
  have m: "(bytes + (page - 1)) mod page < page" using assms(1) by simp
  have d: "(bytes + (page - 1)) div page * page + (bytes + (page - 1)) mod page = bytes + (page - 1)" by simp
  show "bytes \<le> (bytes + (page - 1)) div page * page" using m d assms(1) by linarith
  show "(bytes + (page - 1)) div page * page < bytes + page" using d assms(1) by linarith
qed


section \<open>Properties\<close>

text \<open>
  C14: Host transfers are exact. A successful write happened while no device used the allocation; it acquired and then published
  precisely its range, in the coordinates of the mapping that maintains the allocation; it stored the bytes at their
  place of the shared cell and changed nothing else, so every view and alias stays within bounds; and
  reading the range back returns them, or the error of the acquisition the read begins with. While a device holds a use of the allocation, writing, reading
  and filling fail without any effect. Filling from a file with several workers changes only the target range, whatever threads fail to start,
  panic or report; when it succeeds the range holds exactly the bytes of the file; when it panics the allocation is
  poisoned; and when every thread starts and no read fails, on a file that is long enough, it is the plain fill.
\<close>

theorem host_transfers_exact:
  assumes "buffer_ok s b" "fm_mapped (buf_memory b)" "buffer_write control b off bytes s = (Inr (), s')"
  shows "fb_uses s (buf_cell b) = 0
    \<and> fb_calls s' = fb_calls s @ [maintenance False off (length bytes) b s, maintenance True off (length bytes) b s]
    \<and> confined b off (length bytes) s s' \<and> host_slice b off (length bytes) s' = bytes
    \<and> (\<forall>v. buffer_ok s v \<longrightarrow> buffer_ok s' v)
    \<and> fst (buffer_read control b off (length bytes) s')
        = and_then (maintenance_result control (fb_calls s') (maintenance False off (length bytes) b s)) (\<lambda>_. Inr bytes)
    \<and> (\<forall>t. fb_uses t (buf_cell b) \<noteq> 0 \<longrightarrow>
         (\<exists>e. buffer_write control b off bytes t = (Inl e, t)) \<and> (\<exists>e. buffer_read control b off (length bytes) t = (Inl e, t))
         \<and> (\<exists>e. write_from_file control b at len f pos t = (Inl e, t))
         \<and> (\<exists>e. write_from_file_parallel control b at len f pos workers t = (Some (Inl e), t)))
    \<and> (case write_from_file_parallel control b at len f pos workers s of (r, t) \<Rightarrow>
         confined b at len s t
         \<and> (r = Some (Inr ()) \<longrightarrow> length (take len (drop pos (fs_bytes f))) = len \<and> host_slice b at len t = take len (drop pos (fs_bytes f)))
         \<and> (r = None \<longrightarrow> fb_poisoned t (buf_cell b))
         \<and> (quiet f \<and> pos + len \<le> length (fs_bytes f) \<and> 1 \<le> workers \<and> workers \<le> 8 \<longrightarrow>
              r = Some (fst (write_from_file control b at len f pos s)) \<and> t = snd (write_from_file control b at len f pos s)))"
proof -
  let ?n = "length bytes"
  let ?a = "maintenance False off ?n b s"
  note w = buffer_write_Inr [OF assms]
  have data: "fb_data s' = fb_data (host_store b off bytes (log_call ?a s))" by (simp add: w(4))
  note st = stored [OF assms(1,2) w(1) data]
  have ok: "buffer_ok s' v \<longleftrightarrow> buffer_ok s v" for v using buffer_ok_cong [of s' s v] st(1) by (simp add: confined_def)
  have rd: "buffer_range b off ?n = Inr ()" using w(1) assms(1)
    by (cases "buf_memory b") (auto simp: buffer_range_ok buffer_ok_def memory_ok.simps)
  have "maintenance False off ?n b s' = ?a" by (rule maintenance_cong) (simp add: w(4))
  then have "cache_control control False off ?n b s' = (maintenance_result control (fb_calls s') ?a, log_call ?a s')"
    using cache_control_buffer [of s' b off ?n control False] assms(1,2) ok w(1) by simp
  moreover have "fb_uses s' (buf_cell b) = 0" "\<not> fb_poisoned s' (buf_cell b)" using w(2,3) by (simp_all add: w(4))
  ultimately have again: "fst (buffer_read control b off ?n s') = and_then (maintenance_result control (fb_calls s') ?a) (\<lambda>_. Inr bytes)"
    using st(2) by (auto simp: buffer_read_def rd admit_host_def split: sum.splits)
  have calls: "fb_calls s' = fb_calls s @ [?a, maintenance True off ?n b s]" by (simp add: w(4))
  obtain r t where par: "write_from_file_parallel control b at len f pos workers s = (r, t)" by fastforce
  note pe = parallel_file_exact [OF assms(1,2) par]
  show ?thesis unfolding par prod.case
  proof (intro conjI allI impI)
    show "r = Some (fst (write_from_file control b at len f pos s))" "t = snd (write_from_file control b at len f pos s)"
      if "quiet f \<and> pos + len \<le> length (fs_bytes f) \<and> 1 \<le> workers \<and> workers \<le> 8" using pe(4) that by simp_all
  qed (use w(2) calls st again ok pe(1-3) busy_excludes_host in simp_all)
qed

text \<open>A view of sixteen bytes at offset four of an allocation that needs maintenance.\<close>

definition demo_state :: fabric_mem where
  "demo_state = \<lparr>fb_data = (\<lambda>_. replicate 32 0), fb_uses = (\<lambda>_. 0), fb_poisoned = (\<lambda>_. False),
     fb_needs_cache = (\<lambda>_. True), fb_calls = []\<rparr>"

definition demo_view :: fbuffer where
  "demo_view = (Memory 5 [7] 8 9 True 32 None, 4, 16)"

definition demo_file :: file_source where
  "demo_file = \<lparr>fs_bytes = [1, 2, 3, 4, 5, 6], fs_read = IoDone [], fs_spawn = (\<lambda>_. None), fs_worker = (\<lambda>_. Worked (IoDone []))\<rparr>"

theorem host_transfers_exact_witness:
  "\<exists>s'. buffer_write (\<lambda>_ _ _ _ _. 0) demo_view 2 [3, 6] demo_state = (Inr (), s')
     \<and> host_slice demo_view 2 2 s' = [3, 6] \<and> fst (buffer_read (\<lambda>_ _ _ _ _. 0) demo_view 2 2 s') = Inr [3, 6]
     \<and> fst (write_from_file_parallel (\<lambda>_ _ _ _ _. 0) demo_view 0 3 demo_file 2 2 demo_state)
         = Some (fst (write_from_file (\<lambda>_ _ _ _ _. 0) demo_view 0 3 demo_file 2 demo_state))"
proof -
  have ok: "buffer_ok demo_state demo_view" "fm_mapped (buf_memory demo_view)"
    by (simp_all add: buffer_ok_def demo_view_def demo_state_def memory_ok.simps usize_MAX_def)
  obtain s' where w: "buffer_write (\<lambda>_ _ _ _ _. 0) demo_view 2 [3, 6] demo_state = (Inr (), s')"
    by (simp add: buffer_write_def buffer_range_def admit_host_def host_transaction_def cache_control.simps demo_view_def demo_state_def
        checked_add_def usize_MAX_def require_host_mapping_def check_status_def log_call_def host_store_def Let_def)
  note p = host_transfers_exact [OF ok w, where at = 0 and len = 3 and f = demo_file and pos = 2 and workers = 2]
  have good: "maintenance_result (\<lambda>_ _ _ _ _. 0) calls c = Inr ()" for calls c by (cases c) (simp_all add: maintenance_result_def check_status_def)
  have "fst (buffer_read (\<lambda>_ _ _ _ _. 0) demo_view 2 (length [3, 6 :: nat]) s') = Inr [3, 6]" "host_slice demo_view 2 (length [3, 6 :: nat]) s' = [3, 6]"
    using p by (simp_all add: good)
  moreover have "quiet demo_file" "2 + 3 \<le> length (fs_bytes demo_file)" by (simp_all add: quiet_def demo_file_def)
  then have "fst (write_from_file_parallel (\<lambda>_ _ _ _ _. 0) demo_view 0 3 demo_file 2 2 demo_state)
         = Some (fst (write_from_file (\<lambda>_ _ _ _ _. 0) demo_view 0 3 demo_file 2 demo_state))"
    using p by (auto split: prod.splits)
  ultimately show ?thesis using w by (simp add: numeral_2_eq_2)
qed

end
