(* ===== verification/Sanitizer_Report.thy ===== *)
theory Sanitizer_Report
  imports Sanitizer_Shadow Launch_Constants Fabric_Memory
begin

text \<open>
  Decoding of sanitizer feedback, \<^verbatim>\<open>src/src/fabric/sanitizer.rs\<close>: the bounds-checked little-endian readers,
  the compiler's site table and the report channel. A channel is 64 bytes of header followed by packets
  laid end to end; bytes are naturals below 256. Maps from site identities are partial
  functions.
\<close>


section \<open>Readers and writers\<close>

definition get_bytes :: "nat list \<Rightarrow> usize \<Rightarrow> usize \<Rightarrow> nat list result" where
  "get_bytes bytes start past =
     (if start \<le> past \<and> past \<le> length bytes then Inr (take (past - start) (drop start bytes)) else Inl corrupt)"

definition u16_at :: "nat list \<Rightarrow> usize \<Rightarrow> nat result" where
  "u16_at bytes off = and_then (get_bytes bytes off (off + 2)) (\<lambda>b. Inr (from_le_bytes b))"

definition u32_at :: "nat list \<Rightarrow> usize \<Rightarrow> nat result" where
  "u32_at bytes off = and_then (get_bytes bytes off (off + 4)) (\<lambda>b. Inr (from_le_bytes b))"

definition u64_at :: "nat list \<Rightarrow> usize \<Rightarrow> nat result" where
  "u64_at bytes off = and_then (get_bytes bytes off (off + 8)) (\<lambda>b. Inr (from_le_bytes b))"

definition put32 :: "usize \<Rightarrow> nat \<Rightarrow> nat list \<Rightarrow> nat list" where
  "put32 off v bytes = splice off (to_le_bytes 4 v) bytes"

definition put64 :: "usize \<Rightarrow> nat \<Rightarrow> nat list \<Rightarrow> nat list" where
  "put64 off v bytes = splice off (to_le_bytes 8 v) bytes"

definition subregion :: "nat list \<Rightarrow> nat \<Rightarrow> nat \<Rightarrow> nat list result" where
  "subregion bytes off len =
     (case checked_add off len of None \<Rightarrow> Inl corrupt | Some past \<Rightarrow> get_bytes bytes off past)"


section \<open>Site table\<close>

text \<open>The width of the first character of a byte string in UTF-8, zero when it is malformed.\<close>

definition continuation :: "nat \<Rightarrow> bool" where
  "continuation b \<longleftrightarrow> 128 \<le> b \<and> b < 192"

definition utf8_width :: "nat list \<Rightarrow> nat" where
  "utf8_width bs =
     (case bs of
        [] \<Rightarrow> 0
      | a # rest \<Rightarrow>
          if a < 128 then 1
          else case rest of
            [] \<Rightarrow> 0
          | b # rest2 \<Rightarrow>
              if 194 \<le> a \<and> a \<le> 223 then (if continuation b then 2 else 0)
              else case rest2 of
                [] \<Rightarrow> 0
              | c # rest3 \<Rightarrow>
                  if 224 \<le> a \<and> a \<le> 239
                  then (if continuation b \<and> continuation c \<and> (a = 224 \<longrightarrow> 160 \<le> b) \<and> (a = 237 \<longrightarrow> b < 160) then 3 else 0)
                  else case rest3 of
                    [] \<Rightarrow> 0
                  | d # _ \<Rightarrow>
                      if 240 \<le> a \<and> a \<le> 244 \<and> continuation b \<and> continuation c \<and> continuation d
                        \<and> (a = 240 \<longrightarrow> 144 \<le> b) \<and> (a = 244 \<longrightarrow> b < 144) then 4 else 0)"

function utf8_valid :: "nat list \<Rightarrow> bool" where
  "utf8_valid bs = (if bs = [] then True else if utf8_width bs = 0 then False else utf8_valid (drop (utf8_width bs) bs))"
  by auto
termination
proof (relation "measure length")
  fix bs :: "nat list"
  assume "bs \<noteq> []" "utf8_width bs \<noteq> 0"
  then show "(drop (utf8_width bs) bs, bs) \<in> measure length" by (cases bs) auto
qed simp

declare utf8_valid.simps [simp del]

definition from_utf8 :: "nat list \<Rightarrow> nat list result" where
  "from_utf8 bs = (if utf8_valid bs then Inr bs else Inl corrupt)"

record sanitizer_site =
  st_operation_kind :: nat
  st_source_name :: "nat list option"
  st_start :: "(nat \<times> nat) option"
  st_end :: "(nat \<times> nat) option"
  st_payload :: "nat list"

type_synonym sites = "nat \<Rightarrow> sanitizer_site option"

definition parse_row :: "nat list \<Rightarrow> nat list \<Rightarrow> nat list \<Rightarrow> (nat \<times> sanitizer_site) result" where
  "parse_row strings payload row =
     and_then (map_result (u32_at row) [0, 4, 8, 12, 16, 20, 24, 28, 32, 36, 40]) (\<lambda>w.
       let source = bit (w ! 2) 1
       in and_then (if source then and_then (subregion strings (w ! 5) (w ! 6)) (\<lambda>t. and_then (from_utf8 t) (\<lambda>s. Inr (Some s)))
                    else Inr None) (\<lambda>source_name.
          and_then (if bit (w ! 2) 0 then subregion payload (w ! 3) (w ! 4) else Inr []) (\<lambda>pl.
            Inr (w ! 0, \<lparr>st_operation_kind = w ! 1, st_source_name = source_name,
                 st_start = (if source then Some (w ! 7, w ! 8) else None),
                 st_end = (if source then Some (w ! 9, w ! 10) else None), st_payload = pl\<rparr>))))"

fun parse_rows :: "nat list \<Rightarrow> nat list \<Rightarrow> nat list list \<Rightarrow> sites \<Rightarrow> sites result" where
  "parse_rows strings payload [] m = Inr m"
| "parse_rows strings payload (row # rows) m =
     and_then (parse_row strings payload row) (\<lambda>(key, site).
       if m key \<noteq> None then Inl corrupt else parse_rows strings payload rows (m(key \<mapsto> site)))"

definition row_chunks :: "nat list \<Rightarrow> nat \<Rightarrow> nat list list" where
  "row_chunks bytes rows = map (\<lambda>i. take 48 (drop (32 + 48 * i) bytes)) [0..<rows]"

definition parse_sites :: "nat list \<Rightarrow> sites result" where
  "parse_sites bytes =
     (if bytes = [] then Inr Map.empty
      else if length bytes < 32 \<or> u32_at bytes 0 \<noteq> Inr 1414091596 \<or> bytes ! 4 \<noteq> 1 \<or> bytes ! 5 \<noteq> 32 \<or> u16_at bytes 6 \<noteq> Inr 48
      then Inl (Unsupported ''unexpected sanitizer site table ABI'')
      else and_then (u32_at bytes 8) (\<lambda>rows.
        case checked_mul rows 48 of
          None \<Rightarrow> Inl corrupt
        | Some n \<Rightarrow>
            (case checked_add 32 n of
               None \<Rightarrow> Inl corrupt
             | Some table_end \<Rightarrow>
                 if table_end > length bytes then Inl corrupt
                 else and_then (u32_at bytes 12) (\<lambda>so. and_then (u32_at bytes 16) (\<lambda>sl.
                   and_then (subregion bytes so sl) (\<lambda>strings.
                   and_then (u32_at bytes 20) (\<lambda>po. and_then (u32_at bytes 24) (\<lambda>pl.
                   and_then (subregion bytes po pl) (\<lambda>payload.
                     parse_rows strings payload (row_chunks bytes rows) Map.empty)))))))))"



section \<open>Reports\<close>

datatype sanitizer_check =
    UnknownCheck nat | IntegerOverflow | DivideByZero | Alignment | FloatNanContract | Unreachable | Assertion
  | DataRace | InvalidAccess

datatype sanitizer_access = ReadAccess | WriteAccess | ReadWriteAccess | AtomicAccess | UnknownAccess nat

definition from_native :: "nat \<Rightarrow> sanitizer_access" where
  "from_native v =
     (if v = 1 then ReadAccess else if v = 2 then WriteAccess else if v = 3 then ReadWriteAccess
      else if v = 4 then AtomicAccess else UnknownAccess v)"

record sanitizer_race =
  rc_memory_space :: nat
  rc_current_access :: sanitizer_access
  rc_prior_access :: sanitizer_access
  rc_current_atomic :: bool
  rc_prior_atomic :: bool
  rc_access_bytes :: nat
  rc_memory_address :: nat
  rc_prior_site_id :: nat
  rc_prior_site :: "sanitizer_site option"
  rc_shadow_address :: nat
  rc_shadow_value :: nat
  rc_current_workgroup :: "nat list"
  rc_current_workitem :: "nat list"
  rc_prior_workgroup :: "nat list"
  rc_prior_workitem :: "nat list"
  rc_current_workitem_linear :: bool
  rc_prior_workitem_linear :: bool

record sanitizer_address =
  ad_access :: sanitizer_access
  ad_fault_address :: nat
  ad_access_bytes :: nat
  ad_shadow_address :: nat
  ad_shadow_value :: nat

record sanitizer_report =
  rp_check :: sanitizer_check
  rp_site_id :: nat
  rp_operands :: "nat \<times> nat"
  rp_dispatch_address :: nat
  rp_workgroup_x :: nat
  rp_workitem_x :: nat
  rp_site :: "sanitizer_site option"
  rp_race :: "sanitizer_race option"
  rp_address :: "sanitizer_address option"

record sanitizer_reports =
  rs_reports :: "sanitizer_report list"
  rs_dropped :: nat


section \<open>Decoding the channel\<close>

definition expected_lengths :: "nat \<Rightarrow> (nat \<times> nat) option" where
  "expected_lengths kind = (if kind = 1 \<or> kind = 5 then Some (128, 64) else if kind = 4 then Some (192, 120) else None)"

definition classify_check :: "nat \<Rightarrow> nat \<Rightarrow> sanitizer_check" where
  "classify_check kind v =
     (if kind = 1 then InvalidAccess
      else if kind = 4 then (if v = 1 then DataRace else UnknownCheck v)
      else if v = 1 then IntegerOverflow else if v = 2 then DivideByZero else if v = 3 then Alignment
      else if v = 4 then FloatNanContract else if v = 5 then Unreachable else if v = 6 then Assertion
      else UnknownCheck v)"

definition classify_access :: "nat \<Rightarrow> sanitizer_access" where
  "classify_access v =
     (if v = 1 then ReadAccess else if v = 2 then WriteAccess else if v = 3 then AtomicAccess else UnknownAccess v)"

definition coordinates :: "nat list \<Rightarrow> usize \<Rightarrow> nat list result" where
  "coordinates packet off = map_result (u32_at packet) [off, off + 4, off + 8]"

definition decode_race :: "sites \<Rightarrow> nat list \<Rightarrow> sanitizer_race result" where
  "decode_race sites packet =
     and_then (u32_at packet 76) (\<lambda>flags. and_then (u64_at packet 104) (\<lambda>prior.
     and_then (u32_at packet 80) (\<lambda>space. and_then (u32_at packet 84) (\<lambda>current_access.
     and_then (u32_at packet 88) (\<lambda>prior_access. and_then (u32_at packet 92) (\<lambda>width.
     and_then (u64_at packet 112) (\<lambda>address. and_then (u64_at packet 120) (\<lambda>shadow.
     and_then (u64_at packet 128) (\<lambda>shadow_value.
     and_then (coordinates packet 136) (\<lambda>cwg. and_then (coordinates packet 148) (\<lambda>cwi.
     and_then (coordinates packet 160) (\<lambda>pwg. and_then (coordinates packet 172) (\<lambda>pwi.
       Inr \<lparr>rc_memory_space = space, rc_current_access = from_native current_access,
            rc_prior_access = from_native prior_access, rc_current_atomic = bit flags 0, rc_prior_atomic = bit flags 1,
            rc_access_bytes = width, rc_memory_address = address, rc_prior_site_id = prior, rc_prior_site = sites prior,
            rc_shadow_address = shadow, rc_shadow_value = shadow_value, rc_current_workgroup = cwg,
            rc_current_workitem = cwi, rc_prior_workgroup = pwg, rc_prior_workitem = pwi,
            rc_current_workitem_linear = bit flags 3, rc_prior_workitem_linear = bit flags 2\<rparr>)))))))))))))"

definition decode_address :: "nat list \<Rightarrow> sanitizer_address result" where
  "decode_address packet =
     and_then (u32_at packet 72) (\<lambda>access. and_then (u64_at packet 80) (\<lambda>fault. and_then (u64_at packet 88) (\<lambda>width.
     and_then (u64_at packet 104) (\<lambda>shadow. and_then (u64_at packet 112) (\<lambda>shadow_value.
       Inr \<lparr>ad_access = classify_access access, ad_fault_address = fault, ad_access_bytes = width,
            ad_shadow_address = shadow, ad_shadow_value = shadow_value\<rparr>)))))"

text \<open>The body of a report, once the packet's envelope has been accepted.\<close>

definition decode_report :: "sites \<Rightarrow> nat \<Rightarrow> nat list \<Rightarrow> sanitizer_report result" where
  "decode_report sites kind packet =
     and_then (u64_at packet (if kind = 5 then 80 else 96)) (\<lambda>site_id.
     and_then (u32_at packet 72) (\<lambda>code.
     and_then (if kind = 4 then and_then (decode_race sites packet) (\<lambda>r. Inr (Some r)) else Inr None) (\<lambda>race.
     and_then (if kind = 1 then and_then (decode_address packet) (\<lambda>a. Inr (Some a)) else Inr None) (\<lambda>address.
     and_then (if kind = 5 then and_then (u64_at packet 88) (\<lambda>a. and_then (u64_at packet 96) (\<lambda>b. Inr (a, b)))
               else Inr (0, 0)) (\<lambda>operands.
     and_then (u64_at packet 24) (\<lambda>dispatch. and_then (u32_at packet 32) (\<lambda>workgroup.
     and_then (u32_at packet 36) (\<lambda>workitem.
       Inr \<lparr>rp_check = classify_check kind code, rp_site_id = site_id, rp_operands = operands,
            rp_dispatch_address = dispatch, rp_workgroup_x = workgroup, rp_workitem_x = workitem,
            rp_site = sites site_id, rp_race = race, rp_address = address\<rparr>))))))))"

definition decode_packet :: "sites \<Rightarrow> usize \<Rightarrow> nat list \<Rightarrow> (usize \<times> sanitizer_report) result" where
  "decode_packet sites off packet =
     and_then (u32_at packet 0) (\<lambda>len. and_then (u16_at packet 6) (\<lambda>kind.
       case expected_lengths kind of
         None \<Rightarrow> Inl corrupt
       | Some (packet_length, record_length) \<Rightarrow>
           if len \<noteq> packet_length \<or> len > length packet then Inl corrupt
           else and_then (u16_at packet 4) (\<lambda>hdr. and_then (u32_at packet 12) (\<lambda>version.
             and_then (u64_at packet 16) (\<lambda>position. and_then (u64_at packet 40) (\<lambda>ctx.
             and_then (u32_at packet 64) (\<lambda>rec. and_then (u32_at packet 68) (\<lambda>reserved.
               if hdr \<noteq> 64 \<or> version \<noteq> 1 \<or> position \<noteq> off \<or> ctx \<noteq> 1 \<or> rec \<noteq> record_length \<or> reserved \<noteq> 0
               then Inl corrupt
               else and_then (decode_report sites kind packet) (\<lambda>r. Inr (len, r))))))))))"

text \<open>The slice of the ring from an offset to the producer's head.\<close>

definition packet_at :: "nat list \<Rightarrow> usize \<Rightarrow> usize \<Rightarrow> nat list" where
  "packet_at bytes head off = take (head - off) (drop (64 + off) bytes)"

lemma decode_packet_length:
  assumes "decode_packet sites off packet = Inr (len, r)"
  shows "len = 128 \<or> len = 192" and "len \<le> length packet"
  using assms
  by (auto simp: decode_packet_def and_then_def expected_lengths_def split: sum.splits if_splits option.splits)

function decode_loop :: "sites \<Rightarrow> nat list \<Rightarrow> usize \<Rightarrow> usize \<Rightarrow> sanitizer_report list \<Rightarrow> sanitizer_report list result" where
  "decode_loop sites bytes head off reports =
     (if off < head
      then case decode_packet sites off (packet_at bytes head off) of
             Inl e \<Rightarrow> Inl e
           | Inr (len, r) \<Rightarrow> decode_loop sites bytes head (off + len) (reports @ [r])
      else Inr reports)"
  by pat_completeness auto
termination
  by (relation "measure (\<lambda>(_, _, head, off, _). head - off)") (auto dest: decode_packet_length(1))

declare decode_loop.simps [simp del]

definition decode :: "nat list \<Rightarrow> usize \<Rightarrow> sites \<Rightarrow> sanitizer_reports result" where
  "decode bytes capacity sites =
     (if length bytes \<noteq> 64 + capacity then Inl corrupt
      else and_then (u32_at bytes 0) (\<lambda>a. and_then (u32_at bytes 4) (\<lambda>b. and_then (u64_at bytes 24) (\<lambda>c.
        and_then (u64_at bytes 32) (\<lambda>tail.
          if a \<noteq> 64 \<or> b \<noteq> 0 \<or> c \<noteq> capacity \<or> tail \<noteq> 0 then Inl corrupt
          else and_then (u64_at bytes 40) (\<lambda>head.
            if head > capacity \<or> \<not> 64 dvd head then Inl corrupt
            else and_then (decode_loop sites bytes head 0 []) (\<lambda>reports.
              and_then (u64_at bytes 48) (\<lambda>dropped. Inr \<lparr>rs_reports = reports, rs_dropped = dropped\<rparr>))))))))"


text \<open>
  \<^verbatim>\<open>Feedback\<close>: a fresh channel is a header, written over the first 64 bytes of the allocation; the
  record handed to the device names the channel; a successful collection zeroes the cursors and the ring.
\<close>

definition capacity_ok :: "usize \<Rightarrow> bool" where
  "capacity_ok capacity \<longleftrightarrow> is_power_of_two capacity \<and> 128 \<le> capacity \<and> capacity \<le> 16777216"

definition feedback_header :: "u64 \<Rightarrow> usize \<Rightarrow> nat list result" where
  "feedback_header base capacity =
     (case checked_add base 64 of
        None \<Rightarrow> Inl corrupt
      | Some ring \<Rightarrow> Inr (put64 24 capacity (put64 16 ring (put32 8 1 (put32 0 64 (replicate 64 0))))))"

definition feedback_new ::
  "creator \<Rightarrow> (usize \<Rightarrow> unit result) \<Rightarrow> (nat \<Rightarrow> nat \<Rightarrow> nat result) \<Rightarrow> host_control \<Rightarrow> fdevice \<Rightarrow> usize \<Rightarrow> nat list
   \<Rightarrow> fabric_mem \<Rightarrow> (fbuffer \<times> sites) result \<times> fabric_mem" where
  "feedback_new create reserve query control device capacity table s =
     (if \<not> capacity_ok capacity
      then (Inl (Message ''sanitizer capacity must be a power of two between 128 bytes and 16 MiB''), s)
      else case parse_sites table of
        Inl e \<Rightarrow> (Inl e, s)
      | Inr sites \<Rightarrow>
          (case allocate_owned create reserve (64 + capacity) device True s of
             (Inl e, s1) \<Rightarrow> (Inl e, s1)
           | (Inr buffer, s1) \<Rightarrow>
               (case and_then (device_address query (dv_id device) buffer) (\<lambda>base. feedback_header base capacity) of
                  Inl e \<Rightarrow> (Inl e, s1)
                | Inr header \<Rightarrow>
                    (case buffer_write control buffer 0 header s1 of
                       (Inl e, s2) \<Rightarrow> (Inl e, s2)
                     | (Inr _, s2) \<Rightarrow> (Inr (buffer, sites), s2)))))"

text \<open>The block to configure is indexed up to its fortieth byte; a shorter one panics (\<open>None\<close>).\<close>

definition feedback_configure :: "u64 \<Rightarrow> nat list \<Rightarrow> nat list option" where
  "feedback_configure base output =
     (if length output < 40 then None
      else Some (put64 32 1 (put64 16 base (put32 8 1 (put32 0 64 (replicate (length output) 0))))))"




section \<open>What a collection returns\<close>

text \<open>The little-endian number in a slice, and the envelope a packet at an offset must carry.\<close>

definition le_at :: "nat \<Rightarrow> usize \<Rightarrow> nat list \<Rightarrow> nat" where
  "le_at n off bytes = from_le_bytes (take n (drop off bytes))"



definition channel_ok :: "nat list \<Rightarrow> usize \<Rightarrow> bool" where
  "channel_ok bytes capacity \<longleftrightarrow>
     length bytes = 64 + capacity \<and> le_at 4 0 bytes = 64 \<and> le_at 4 4 bytes = 0 \<and> le_at 8 24 bytes = capacity
     \<and> le_at 8 32 bytes = 0 \<and> le_at 8 40 bytes \<le> capacity \<and> 64 dvd le_at 8 40 bytes"


lemma reads:
  "u16_at bytes off = (if off + 2 \<le> length bytes then Inr (le_at 2 off bytes) else Inl corrupt)"
  "u32_at bytes off = (if off + 4 \<le> length bytes then Inr (le_at 4 off bytes) else Inl corrupt)"
  "u64_at bytes off = (if off + 8 \<le> length bytes then Inr (le_at 8 off bytes) else Inl corrupt)"
  by (simp_all add: u16_at_def u32_at_def u64_at_def get_bytes_def le_at_def)













lemma decode_eq:
  "decode bytes capacity sites =
     (if channel_ok bytes capacity
      then and_then (decode_loop sites bytes (le_at 8 40 bytes) 0 [])
             (\<lambda>reports. Inr \<lparr>rs_reports = reports, rs_dropped = le_at 8 48 bytes\<rparr>)
      else Inl corrupt)"
  by (auto simp: decode_def channel_ok_def reads)




text \<open>Reading a channel after its cursors and ring were cleared.\<close>

lemma from_le_zero [simp]: "from_le_bytes (replicate n 0) = 0"
  by (simp add: from_le_bytes_def)








text \<open>A fresh channel: the header fields, and that the first collection is empty.\<close>

lemma feedback_header_split:
  assumes "feedback_header base capacity = Inr h"
  shows "h = to_le_bytes 4 64 @ replicate 4 0 @ to_le_bytes 4 1 @ replicate 4 0 @ to_le_bytes 8 (base + 64)
    @ to_le_bytes 8 capacity @ replicate 32 0"
  using assms
  by (auto simp: feedback_header_def put32_def put64_def splice_def checked_add_def drop_replicate take_replicate
      split: option.splits if_splits)

lemma feedback_new_fresh:
  assumes "feedback_new create reserve query control device capacity table s = (Inr (b, sites), s')"
    and created: "\<And>s1. allocate_owned create reserve (64 + capacity) device True s = (Inr b, s1) \<Longrightarrow>
      buffer_ok s1 b \<and> fm_mapped (buf_memory b) \<and> buf_len b = 64 + capacity"
  shows "decode (host_slice b 0 (buf_len b) s') capacity sites = Inr \<lparr>rs_reports = [], rs_dropped = 0\<rparr>"
proof -
  obtain s1 base h where h: "capacity_ok capacity" "allocate_owned create reserve (64 + capacity) device True s = (Inr b, s1)"
    "feedback_header base capacity = Inr h" "buffer_write control b 0 h s1 = (Inr (), s')"
    using assms(1) by (auto simp: feedback_new_def and_then_Inr_iff split: if_splits sum.splits prod.splits)
  note ok = created [OF h(2), THEN conjunct1] created [OF h(2), THEN conjunct2, THEN conjunct1]
    created [OF h(2), THEN conjunct2, THEN conjunct2]
  note w = buffer_write_Inr [OF ok(1,2) h(4)]
  note split = feedback_header_split [OF h(3)]
  have hl: "length h = 64" by (simp add: split)
  define bytes where "bytes = host_slice b 0 (buf_len b) s'"
  have conf: "confined b 0 (length h) s1 s'" "host_slice b 0 (length h) s' = h"
    using stored [OF ok(1,2) w(1)] by (simp_all add: w(4))
  have ok': "buffer_ok s' b" using buffer_ok_cong [of s' s1 b] conf(1) ok(1) by (simp add: confined_def)
  have len: "length bytes = 64 + capacity" using host_slice_length [OF ok' ok(2), of 0 "buf_len b"] ok(3) by (simp add: bytes_def)
  have pre: "take 64 bytes = h" using conf(2) hl ok(3) by (simp add: bytes_def host_slice_def min_def)
  have low: "le_at n off bytes = le_at n off h" if "off + n \<le> 64" for n off
    using that by (simp add: le_at_def flip: pre) (simp add: take_drop min_def)
  have "capacity < 256 ^ 8" using h(1) by (simp add: capacity_ok_def)
  then have fields: "le_at 4 0 bytes = 64" "le_at 4 4 bytes = 0" "le_at 8 24 bytes = capacity" "le_at 8 32 bytes = 0"
    "le_at 8 40 bytes = 0" "le_at 8 48 bytes = 0"
    by (simp_all add: low) (simp_all add: split le_at_def from_to_le_bytes take_replicate drop_replicate)
  have "channel_ok bytes capacity" using fields len by (simp add: channel_ok_def)
  with fields show ?thesis by (simp add: decode_eq decode_loop.simps flip: bytes_def)
qed













end
