(* ===== verification/Sanitizer_State.thy ===== *)
theory Sanitizer_State
  imports Sanitizer_Report
begin

text \<open>
  The configuration records the host writes for instrumented kernels,
  \<^verbatim>\<open>AddressState\<close> and \<^verbatim>\<open>RaceState\<close> of
  \<^verbatim>\<open>src/src/fabric/sanitizer.rs\<close>. The device addresses of the native allocations are
  arguments. An instrumented kernel adds the granule number of an address to the biased shadow base it
  reads from the configuration; the lemmas show that this finds the byte painted for the address.
\<close>


section \<open>Configuration records\<close>

fun put32_all :: "(usize \<times> nat) list \<Rightarrow> nat list \<Rightarrow> nat list" where
  "put32_all [] bytes = bytes"
| "put32_all ((at, v) # rest) bytes = put32_all rest (put32 at v bytes)"

fun put64_all :: "(usize \<times> nat) list \<Rightarrow> nat list \<Rightarrow> nat list" where
  "put64_all [] bytes = bytes"
| "put64_all ((at, v) # rest) bytes = put64_all rest (put64 at v bytes)"

text \<open>\<open>wrapping_sub\<close> on \<open>u64\<close>, on naturals below \<open>2 ^ 64\<close>.\<close>

definition wrapping_sub64 :: "u64 \<Rightarrow> u64 \<Rightarrow> u64" where
  "wrapping_sub64 x y = (x + (2 ^ 64 - y)) mod 2 ^ 64"

definition address_config :: "u64 \<Rightarrow> u64 \<Rightarrow> u64 \<Rightarrow> usize \<Rightarrow> nat list" where
  "address_config shadow base past sz =
     put64_all [(16, wrapping_sub64 shadow (base div 8)), (24, base), (32, past - base), (40, sz), (48, sz)]
       (put32_all [(0, 96), (8, 1), (12, 3)] (replicate 96 0))"

definition address_state_new :: "u64 \<Rightarrow> (u64 \<times> usize) list \<Rightarrow> usize \<Rightarrow> (nat list \<times> nat list) result" where
  "address_state_new shadow ranges maximum =
     and_then (address_shadow ranges maximum) (\<lambda>(base, past, bytes).
       Inr (bytes, address_config shadow base past (length bytes)))"

text \<open>\<^verbatim>\<open>configure\<close> copies a prepared record into a block of exactly its size.\<close>

definition state_configure :: "string \<Rightarrow> nat list \<Rightarrow> nat list \<Rightarrow> nat list result" where
  "state_configure what config output = (if length output \<noteq> 96 then Inl (Unsupported what) else Inr config)"

definition race_queue_state :: "nat \<Rightarrow> usize \<Rightarrow> usize \<Rightarrow> u64 \<Rightarrow> u64 \<Rightarrow> u64 \<Rightarrow> nat list" where
  "race_queue_state capacity stride sz base ring ring_mask =
     put64_all [(32, ring), (40, ring_mask), (56, base), (64, sz), (72, sz), (80, stride)]
       (put32_all [(0, 112), (28, 1), (88, capacity), (92, 8), (96, 2)] (replicate 112 0))"

definition race_config :: "nat \<Rightarrow> usize \<Rightarrow> usize \<Rightarrow> u64 \<Rightarrow> u64 \<Rightarrow> u64 \<Rightarrow> u64 \<Rightarrow> nat list" where
  "race_config capacity stride sz base ring ring_mask queue_state =
     put64_all [(16, base), (24, sz), (32, sz), (40, stride), (56, ring), (64, ring_mask), (72, queue_state)]
       (put32_all [(0, 96), (8, 3), (12, 2), (48, capacity), (52, 8), (80, 1)] (replicate 96 0))"

definition race_state_new ::
  "nat \<Rightarrow> nat \<times> nat \<times> nat \<Rightarrow> usize \<Rightarrow> u64 \<Rightarrow> u64 \<Rightarrow> u64 \<Rightarrow> u64 \<Rightarrow> (usize \<times> nat list \<times> nat list) result" where
  "race_state_new local_bytes grid maximum base queue_state ring ring_mask =
     and_then (race_layout local_bytes grid maximum) (\<lambda>(capacity, stride, sz).
       Inr (sz, race_queue_state capacity stride sz base ring ring_mask,
            race_config capacity stride sz base ring ring_mask queue_state))"

text \<open>The words and workgroups of the kernel that clears the race shadow.\<close>

definition clear_groups :: "usize \<Rightarrow> usize \<times> nat" where
  "clear_groups shadow_len = (let words = shadow_len div 4 in (words, (words + 63) div 64))"


section \<open>Reading the records back\<close>

lemma length_put [simp]:
  "off + 4 \<le> length bytes \<Longrightarrow> length (put32 off v bytes) = length bytes"
  "off + 8 \<le> length bytes \<Longrightarrow> length (put64 off v bytes) = length bytes"
  by (simp_all add: put32_def put64_def splice_def)

lemma le_at_splice_same:
  "off + length bs \<le> length bytes \<Longrightarrow> le_at (length bs) off (splice off bs bytes) = from_le_bytes bs"
  by (simp add: le_at_def splice_def)

lemma le_at_splice_before: "o1 + n \<le> off \<Longrightarrow> off + length bs \<le> length bytes \<Longrightarrow> le_at n o1 (splice off bs bytes) = le_at n o1 bytes"
  by (auto simp: le_at_def splice_def drop_take min_def)

lemma le_at_splice_after: "off + length bs \<le> o1 \<Longrightarrow> off + length bs \<le> length bytes \<Longrightarrow> le_at n o1 (splice off bs bytes) = le_at n o1 bytes"
  by (simp add: le_at_def splice_def)

lemma le_at_put32:
  "off + 4 \<le> length bytes \<Longrightarrow> v < 2 ^ 32 \<Longrightarrow> le_at 4 off (put32 off v bytes) = v"
  "off + 4 \<le> length bytes \<Longrightarrow> o1 + n \<le> off \<or> off + 4 \<le> o1 \<Longrightarrow> le_at n o1 (put32 off v bytes) = le_at n o1 bytes"
  using le_at_splice_same [of off "to_le_bytes 4 v" bytes] from_to_le_bytes [of v 4]
    le_at_splice_before [of o1 n off "to_le_bytes 4 v" bytes] le_at_splice_after [of off "to_le_bytes 4 v" o1 bytes n]
  by (auto simp: put32_def)

lemma le_at_put64:
  "off + 8 \<le> length bytes \<Longrightarrow> v < 2 ^ 64 \<Longrightarrow> le_at 8 off (put64 off v bytes) = v"
  "off + 8 \<le> length bytes \<Longrightarrow> o1 + n \<le> off \<or> off + 8 \<le> o1 \<Longrightarrow> le_at n o1 (put64 off v bytes) = le_at n o1 bytes"
  using le_at_splice_same [of off "to_le_bytes 8 v" bytes] from_to_le_bytes [of v 8]
    le_at_splice_before [of o1 n off "to_le_bytes 8 v" bytes] le_at_splice_after [of off "to_le_bytes 8 v" o1 bytes n]
  by (auto simp: put64_def)

lemma address_config_fields:
  assumes "base < 2 ^ 64" "past < 2 ^ 64" "sz < 2 ^ 64"
  shows "le_at 8 16 (address_config shadow base past sz) = wrapping_sub64 shadow (base div 8)"
    "le_at 8 24 (address_config shadow base past sz) = base"
    "le_at 8 32 (address_config shadow base past sz) = past - base"
    "le_at 8 40 (address_config shadow base past sz) = sz"
    "length (address_config shadow base past sz) = 96"
  using assms by (simp_all add: address_config_def le_at_put64 wrapping_sub64_def)

lemma wrapping_bias:
  assumes "shadow + n \<le> 2 ^ 64" "b \<le> g" "g < b + n" "b < 2 ^ 64"
  shows "(wrapping_sub64 shadow b + g) mod 2 ^ 64 = shadow + (g - b)"
proof -
  have "(wrapping_sub64 shadow b + g) mod 2 ^ 64 = (shadow + (2 ^ 64 - b) + g) mod 2 ^ 64"
    by (simp add: wrapping_sub64_def mod_add_left_eq)
  also have "shadow + (2 ^ 64 - b) + g = 2 ^ 64 + (shadow + (g - b))" using assms(2,4) by simp
  also have "\<dots> mod 2 ^ 64 = shadow + (g - b)" unfolding mod_add_self1 using assms(1-3) by (intro mod_less) simp
  finally show ?thesis .
qed


section \<open>The race shadow\<close>

lemma race_layout_Inr:
  assumes "race_layout local_bytes (x, y, z) maximum = Inr (capacity, stride, sz)"
  shows "capacity = x * y * z" "0 < capacity" "stride = 8 * ((local_bytes + 3) div 4) + 8" "sz = stride * capacity"
    "sz \<le> maximum" "sz div 4 + 63 < 2 ^ 32"
  using assms
  by (auto simp: race_layout_def checked_mul_def checked_add_def split: if_splits option.splits)

text \<open>Every workgroup has a slot of its own, with an entry for each granule of local memory.\<close>

lemma race_slots:
  assumes "race_layout local_bytes (x, y, z) maximum = Inr (capacity, stride, sz)" "g < capacity" "i < local_bytes"
  shows "g * stride + 8 + 8 * (i div 4) + 8 \<le> (g + 1) * stride" "(g + 1) * stride \<le> sz"
proof -
  note r = race_layout_Inr [OF assms(1)]
  have "i div 4 + 1 \<le> (local_bytes + 3) div 4" using assms(3) by simp
  then have "8 + 8 * (i div 4) + 8 \<le> stride" unfolding r(3) by simp
  then show "g * stride + 8 + 8 * (i div 4) + 8 \<le> (g + 1) * stride" by simp
  have "(g + 1) * stride \<le> capacity * stride" using assms(2) by (intro mult_right_mono) auto
  then show "(g + 1) * stride \<le> sz" by (simp add: r(4) mult.commute)
qed

text \<open>The clearing kernel reaches every word of the shadow, and its grid fits 32 bits.\<close>

lemma clear_groups_cover:
  assumes "race_layout local_bytes (x, y, z) maximum = Inr (capacity, stride, sz)" "clear_groups sz = (words, groups)"
  shows "words * 4 = sz" "words \<le> groups * 64" "groups < 2 ^ 32"
proof -
  note r = race_layout_Inr [OF assms(1)]
  have w: "words = sz div 4" "groups = (words + 63) div 64" using assms(2) by (auto simp: clear_groups_def Let_def)
  have "4 dvd stride" unfolding r(3) by (simp add: dvd_add)
  then have "4 dvd sz" unfolding r(4) by simp
  then show "words * 4 = sz" by (simp add: w(1))
  show "words \<le> groups * 64" unfolding w(2) by simp
  show "groups < 2 ^ 32" using r(6) unfolding w by simp
qed


section \<open>Properties\<close>

lemma mask_granule_bound: "mask_granule n < 2 ^ 64"
  unfolding mask_granule_def using unsigned_less [of "(word_of_nat n :: 64 word) AND NOT 7", where 'a = nat] by simp

lemma address_shadow_window:
  assumes "address_shadow ranges maximum = Inr (base, past, bytes)"
  shows "base \<le> past" "past < 2 ^ 64"
proof -
  from address_shadow_Inr [OF assms] obtain ms where ms: "ms \<noteq> []" "spans_ok ms" "base = fst (hd ms)"
      "past = snd (List.last ms) + 7 - (snd (List.last ms) + 7) mod 8" by blast
  from window_spans(4) [OF ms(1,2), folded ms(3,4)] show "base \<le> past" by linarith
  from assms obtain n where "past = mask_granule n"
    by (auto simp: address_shadow_def Let_def window_end_def split: sum.splits list.splits option.splits if_splits)
  then show "past < 2 ^ 64" by (metis mask_granule_bound)
qed

text \<open>The shadow slot of an address, as instrumented code computes it from the configuration.\<close>

definition shadow_slot :: "nat list \<Rightarrow> u64 \<Rightarrow> u64" where
  "shadow_slot config a = (le_at 8 16 config + a div 8) mod 2 ^ 64"

text \<open>
  C40: The address configuration leads every check to the right byte. Where the shadow fits
  the address space at its device address, the record states the shadow's size and a window that covers every
  allocation; for each address of the window the wrapped sum of the biased base and
  the granule number is the device address of a byte of the shadow, and that byte allows the access exactly
  when an allocation contains the address.
\<close>

theorem address_state_finds:
  assumes "address_state_new shadow ranges maximum = Inr (bytes, config)" "shadow + length bytes \<le> 2 ^ 64"
  shows "state_configure what config (replicate 96 0) = Inr config \<and> length config = 96
    \<and> le_at 8 40 config = length bytes \<and> length bytes \<le> maximum
    \<and> (\<forall>a. le_at 8 24 config \<le> a \<and> a < le_at 8 24 config + le_at 8 32 config \<longrightarrow>
         shadow \<le> shadow_slot config a \<and> shadow_slot config a < shadow + length bytes
         \<and> (let v = bytes ! (shadow_slot config a - shadow)
            in (v = 0 \<or> v < 8 \<and> a mod 8 < v) \<longleftrightarrow> (\<exists>r\<in>set ranges. fst r \<le> a \<and> a < fst r + snd r)))
    \<and> (\<forall>r\<in>set ranges. \<forall>a. fst r \<le> a \<and> a < fst r + snd r \<longrightarrow>
         le_at 8 24 config \<le> a \<and> a < le_at 8 24 config + le_at 8 32 config)"
proof -
  from assms(1) obtain base past where s: "address_shadow ranges maximum = Inr (base, past, bytes)"
      and config: "config = address_config shadow base past (length bytes)"
    by (auto simp: address_state_new_def and_then_Inr_iff)
  note w = address_shadow_window [OF s]
  note c = address_shadow_contract [OF s]
  have len: "length bytes = (past - base) div 8" and b8: "base mod 8 = 0" and p8: "past mod 8 = 0" using c by auto
  have "base < 2 ^ 64" "length bytes < 2 ^ 64" using w len by linarith+
  note f = address_config_fields [OF this(1) w(2) this(2), of shadow, folded config]
  have window: "le_at 8 24 config + le_at 8 32 config = past" using f w(1) by simp
  have slot: "shadow_slot config a = shadow + (a - base) div 8 \<and> (a - base) div 8 < length bytes" if "base \<le> a" "a < past" for a
  proof -
    obtain B P where BP: "base = 8 * B" "past = 8 * P" using b8 p8 by (metis mod_0_imp_dvd dvd_def)
    obtain k where "a = 8 * B + k" using \<open>base \<le> a\<close> by (auto simp: BP dest: le_Suc_ex)
    then have "(a - 8 * B) div 8 = a div 8 - B" by simp
    then have g: "(a - base) div 8 = a div 8 - base div 8" by (simp add: BP)
    have "length bytes = P - B" using len by (simp add: BP flip: diff_mult_distrib2)
    then have n: "a div 8 < base div 8 + length bytes" using that w(1) by (simp add: BP less_mult_imp_div_less mult.commute)
    have le: "base div 8 \<le> a div 8" "base div 8 < 2 ^ 64" using that(1) w by (auto intro: div_le_mono)
    have "a div 8 - base div 8 < length bytes" using n le(1) by linarith
    with wrapping_bias [OF assms(2) le(1) n le(2)] g le show ?thesis by (simp add: shadow_slot_def f(1))
  qed
  have member: "(\<exists>r\<in>set ranges. fst r \<le> a \<and> a < fst r + snd r) \<longleftrightarrow> base \<le> a \<and> a < past \<and> shadow_allows base bytes a" for a
    using c by blast
  have "shadow \<le> shadow_slot config a \<and> shadow_slot config a < shadow + length bytes
      \<and> (let v = bytes ! (shadow_slot config a - shadow)
         in (v = 0 \<or> v < 8 \<and> a mod 8 < v) \<longleftrightarrow> (\<exists>r\<in>set ranges. fst r \<le> a \<and> a < fst r + snd r))"
    if "base \<le> a" "a < past" for a
    using slot [OF that] that unfolding member by (simp add: shadow_allows_def Let_def)
  moreover have "base \<le> a \<and> a < past" if "r \<in> set ranges" "fst r \<le> a" "a < fst r + snd r" for r a
    using member [of a] that by blast
  ultimately show ?thesis using f c window by (simp add: state_configure_def)
qed

text \<open>Two allocations; the shadow lies below its biased base, so the sum wraps.\<close>

theorem address_state_finds_witness:
  "\<exists>bytes config. address_state_new 4 [(64, 8), (32, 12)] 16 = Inr (bytes, config)
     \<and> shadow_slot config 65 < 4 + length bytes \<and> bytes ! (shadow_slot config 65 - 4) < 8"
proof -
  let ?rs = "[(64, 8), (32, 12)] :: (nat \<times> nat) list"
  obtain base past bytes where s: "address_shadow ?rs 16 = Inr (base, past, bytes)"
    using address_shadow_succeeds [of ?rs 16] by (auto simp: range_ok_def usize_MAX_def)
  then obtain config where n: "address_state_new 4 ?rs 16 = Inr (bytes, config)" by (simp add: address_state_new_def)
  have "4 + length bytes \<le> 2 ^ 64" using address_shadow_contract [OF s] by simp
  note p = address_state_finds [OF n this, where what = "[]"]
  have "le_at 8 24 config \<le> 65 \<and> 65 < le_at 8 24 config + le_at 8 32 config"
    using p by (elim conjE) (erule ballE [of _ _ "(64, 8)"], auto)
  moreover have "\<exists>r\<in>set ?rs. fst r \<le> 65 \<and> 65 < fst r + snd r" by simp
  ultimately have "shadow_slot config 65 < 4 + length bytes \<and> (let v = bytes ! (shadow_slot config 65 - 4) in v = 0 \<or> v < 8 \<and> 65 mod 8 < v)"
    using p unfolding Let_def by blast
  then have "shadow_slot config 65 < 4 + length bytes" "bytes ! (shadow_slot config 65 - 4) < 8" by (auto simp: Let_def)
  with n show ?thesis by blast
qed

end
