(* ===== verification/Visibility.thy ===== *)
theory Visibility
  imports Fabric_Memory Span_Merge
begin

text \<open>
  Directional cache visibility, \<^verbatim>\<open>src/src/fabric/visibility.rs\<close>: decoding of the native facts, resolution of
  access sites along import chains, the host side of a transition, and prepared host work over
  coalesced ranges. The native query and the cache call are arguments; a fence or a call is appended
  to the log of \<open>fabric_mem\<close>.
\<close>


section \<open>Facts\<close>

datatype transition_kind = UnknownKind | NoneKind | RangeKind | GlobalKind

datatype cache_executor = NoExecutor | QueueExecutor | ProgramExecutor | HostDirect | HostApi

datatype cache_operation = NoOperation | ReleaseToSystem | AcquireFromSystem

datatype atomic_scope = NoScope | DeviceScope | FabricScope | SystemScope

record native_transition =
  nt_kind :: nat
  nt_executor :: nat
  nt_operation :: nat
  nt_range_granularity :: nat
  nt_host_operation :: nat

record cache_transition =
  ct_kind :: transition_kind
  ct_executor :: cache_executor
  ct_operation :: cache_operation
  ct_range_granularity :: nat
  ct_native :: native_transition

definition transition_from_native :: "native_transition \<Rightarrow> cache_transition result" where
  "transition_from_native n =
     and_then
       (if nt_kind n = 0 then Inr UnknownKind else if nt_kind n = 1 then Inr NoneKind
        else if nt_kind n = 2 then Inr RangeKind else if nt_kind n = 3 then Inr GlobalKind
        else Inl (missing ''cache transition kind'')) (\<lambda>kind.
     and_then
       (if nt_executor n = 0 then Inr NoExecutor else if nt_executor n = 1 then Inr QueueExecutor
        else if nt_executor n = 2 then Inr ProgramExecutor else if nt_executor n = 3 then Inr HostDirect
        else if nt_executor n = 4 then Inr HostApi else Inl (missing ''cache transition executor'')) (\<lambda>executor.
     and_then
       (if nt_operation n = 0 then Inr NoOperation else if nt_operation n = 1 then Inr ReleaseToSystem
        else if nt_operation n = 2 then Inr AcquireFromSystem else Inl (missing ''cache operation'')) (\<lambda>operation.
       Inr \<lparr>ct_kind = kind, ct_executor = executor, ct_operation = operation,
            ct_range_granularity = nt_range_granularity n, ct_native = n\<rparr>)))"

definition atomic_scope_from_native :: "nat \<Rightarrow> atomic_scope result" where
  "atomic_scope_from_native v =
     (if v = 0 then Inr NoScope else if v = 1 then Inr DeviceScope else if v = 2 then Inr FabricScope
      else if v = 3 then Inr SystemScope else Inl (missing ''atomic scope''))"

record native_pair_info =
  pi_flags :: "64 word"
  pi_release :: native_transition
  pi_acquire :: native_transition
  pi_scope_32 :: nat
  pi_scope_64 :: nat
  pi_fixed_cost :: nat

record visibility_facts =
  vf_reachable :: bool
  vf_release :: cache_transition
  vf_acquire :: cache_transition
  vf_scope_32 :: atomic_scope
  vf_scope_64 :: atomic_scope
  vf_fixed_cost :: "nat option"

definition facts_from_native :: "native_pair_info \<Rightarrow> visibility_facts result" where
  "facts_from_native i =
     and_then (transition_from_native (pi_release i)) (\<lambda>release.
     and_then (transition_from_native (pi_acquire i)) (\<lambda>acquire.
     and_then (atomic_scope_from_native (pi_scope_32 i)) (\<lambda>s32.
     and_then (atomic_scope_from_native (pi_scope_64 i)) (\<lambda>s64.
       Inr \<lparr>vf_reachable = bit (pi_flags i) 0, vf_release = release, vf_acquire = acquire, vf_scope_32 = s32,
            vf_scope_64 = s64, vf_fixed_cost = (if bit (pi_flags i) 2 then Some (pi_fixed_cost i) else None)\<rparr>))))"


section \<open>Sites\<close>

datatype memory_site = HostSite | DeviceSite nat nat

datatype native_site = NativeHost nat | NativeDevice nat nat nat

fun buffer_site :: "memory_site \<Rightarrow> fbuffer \<Rightarrow> native_site result" where
  "buffer_site st (Memory cell devices raw mapping mapped bytes source, base, n) =
     (case st of
        HostSite \<Rightarrow> (case source of Some src \<Rightarrow> buffer_site st src | None \<Rightarrow> Inr (NativeHost mapping))
      | DeviceSite dev family \<Rightarrow>
          (case position (\<lambda>d. d = dev) devices of
             Some index \<Rightarrow> Inr (NativeDevice raw index family)
           | None \<Rightarrow>
               (case source of
                  None \<Rightarrow> Inl (Message ''visibility device has no access to backing'')
                | Some src \<Rightarrow> buffer_site st src)))"

declare buffer_site.simps [simp del]

record memory_visibility =
  mv_buffer :: fbuffer
  mv_facts :: visibility_facts

definition buffer_visibility ::
  "(native_site \<Rightarrow> native_site \<Rightarrow> nat \<times> native_pair_info) \<Rightarrow> memory_site \<Rightarrow> memory_site \<Rightarrow> fbuffer \<Rightarrow> memory_visibility result" where
  "buffer_visibility query producer consumer b =
     and_then (buffer_site producer b) (\<lambda>p. and_then (buffer_site consumer b) (\<lambda>c.
       let (status, info) = query p c
       in and_then (check_status ''memory_query_pair_info'' status) (\<lambda>_.
          and_then (facts_from_native info) (\<lambda>facts. Inr \<lparr>mv_buffer = b, mv_facts = facts\<rparr>))))"


section \<open>Host transitions\<close>

definition is_host_executor :: "cache_executor \<Rightarrow> bool" where
  "is_host_executor x \<longleftrightarrow> x = HostApi \<or> x = HostDirect"

definition host_transition ::
  "host_control \<Rightarrow> memory_visibility \<Rightarrow> cache_transition \<Rightarrow> usize \<Rightarrow> usize \<Rightarrow> fabric_mem \<Rightarrow> unit result \<times> fabric_mem" where
  "host_transition control v t off len s =
     (if (case checked_add off len of None \<Rightarrow> True | Some e \<Rightarrow> e > buf_len (mv_buffer v))
      then (Inl (Message ''visibility range out of bounds''), s)
      else if \<not> vf_reachable (mv_facts v) then (Inl (Unsupported ''shared backing is unreachable''), s)
      else if ct_kind t = NoneKind then (Inr (), log_call CacheFence s)
      else if \<not> is_host_executor (ct_executor t) then (Inl (Unsupported ''transition is not a qualified host action''), s)
      else let mapping = root_mapping (buf_memory (mv_buffer v)); op = nt_host_operation (ct_native t)
           in (check_status ''prepared host visibility'' (control (fb_calls s) mapping op off len),
               log_call (CacheControl mapping op off len) s))"

definition release_host :: "host_control \<Rightarrow> memory_visibility \<Rightarrow> usize \<Rightarrow> usize \<Rightarrow> fabric_mem \<Rightarrow> unit result \<times> fabric_mem" where
  "release_host control v off len s = host_transition control v (vf_release (mv_facts v)) off len s"

definition acquire_host :: "host_control \<Rightarrow> memory_visibility \<Rightarrow> usize \<Rightarrow> usize \<Rightarrow> fabric_mem \<Rightarrow> unit result \<times> fabric_mem" where
  "acquire_host control v off len s = host_transition control v (vf_acquire (mv_facts v)) off len s"


section \<open>Prepared host work\<close>

definition coalesce_ranges :: "span list \<Rightarrow> usize \<Rightarrow> span list result" where
  "coalesce_ranges ranges len =
     (if \<exists>r\<in>set ranges. fst r > snd r \<or> snd r > len then Inl (Message ''visibility range out of bounds'')
      else Inr (fold merge_span (sort_key fst (filter (\<lambda>r. fst r < snd r) ranges)) []))"

record prepared_visibility =
  pv_visibility :: memory_visibility
  pv_transition :: cache_transition
  pv_ranges :: "span list"

definition prepare_host :: "memory_visibility \<Rightarrow> cache_transition \<Rightarrow> span list \<Rightarrow> prepared_visibility result" where
  "prepare_host v t ranges =
     (if \<not> vf_reachable (mv_facts v) \<or> ct_kind t = UnknownKind
      then Inl (Unsupported ''unqualified host visibility relation'')
      else if ct_kind t \<noteq> NoneKind \<and> \<not> is_host_executor (ct_executor t)
      then Inl (Unsupported ''transition is not a qualified host action'')
      else and_then (coalesce_ranges ranges (buf_len (mv_buffer v))) (\<lambda>rs.
        Inr \<lparr>pv_visibility = v, pv_transition = t,
             pv_ranges = (if rs \<noteq> [] \<and> (ct_kind t = NoneKind \<or> ct_kind t = GlobalKind)
                          then [(0, buf_len (mv_buffer v))] else rs)\<rparr>))"

definition prepare_release_host :: "memory_visibility \<Rightarrow> span list \<Rightarrow> prepared_visibility result" where
  "prepare_release_host v ranges = prepare_host v (vf_release (mv_facts v)) ranges"

definition prepare_acquire_host :: "memory_visibility \<Rightarrow> span list \<Rightarrow> prepared_visibility result" where
  "prepare_acquire_host v ranges = prepare_host v (vf_acquire (mv_facts v)) ranges"

definition operation_count :: "prepared_visibility \<Rightarrow> nat" where
  "operation_count p = length (pv_ranges p)"

fun run_ranges ::
  "host_control \<Rightarrow> memory_visibility \<Rightarrow> cache_transition \<Rightarrow> span list \<Rightarrow> fabric_mem \<Rightarrow> unit result \<times> fabric_mem" where
  "run_ranges control v t [] s = (Inr (), s)"
| "run_ranges control v t (r # rs) s =
     (case host_transition control v t (fst r) (snd r - fst r) s of
        (Inl e, s1) \<Rightarrow> (Inl e, s1)
      | (Inr _, s1) \<Rightarrow> run_ranges control v t rs s1)"

definition prepared_execute :: "host_control \<Rightarrow> prepared_visibility \<Rightarrow> fabric_mem \<Rightarrow> unit result \<times> fabric_mem" where
  "prepared_execute control p s = run_ranges control (pv_visibility p) (pv_transition p) (pv_ranges p) s"


section \<open>Coalescing\<close>

lemma covered_nonempty: "covered (sort_key fst (filter (\<lambda>r. fst r < snd r) ranges)) = covered ranges"
proof -
  have "covered (filter (\<lambda>r. fst r < snd r) ranges) = covered ranges" by (induction ranges) auto
  then show ?thesis by (simp add: covered_def)
qed

lemma coalesce_Inr:
  assumes "coalesce_ranges ranges len = Inr rs"
  shows "separated rs" "covered rs = covered ranges" "\<forall>r\<in>set rs. snd r \<le> len"
proof -
  let ?xs = "sort_key fst (filter (\<lambda>r. fst r < snd r) ranges)"
  have rs: "rs = fold merge_span ?xs []" and inside: "\<forall>r\<in>set ranges. snd r \<le> len"
    using assms by (auto simp: coalesce_ranges_def not_less split: if_splits)
  have "separated rs \<and> covered rs = covered [] \<union> covered ?xs" unfolding rs by (rule merge_spans_spec) auto
  moreover have "covered ?xs = covered ranges" by (auto simp: covered_nonempty)
  ultimately show sep: "separated rs" and cov: "covered rs = covered ranges" by simp_all
  show "\<forall>r\<in>set rs. snd r \<le> len"
  proof
    fix r assume r: "r \<in> set rs"
    then have "snd r - 1 \<in> covered rs" and pos: "fst r < snd r" using sep by (force simp: separated_def covered_def)+
    then obtain x where "x \<in> set ranges" "snd r - 1 < snd x" unfolding cov by (auto simp: covered_def)
    with inside pos show "snd r \<le> len" by fastforce
  qed
qed

text \<open>The coalesced list is the only separated list of the same bytes, so it does the fewest calls.\<close>

lemma coalesce_canonical: "coalesce_ranges ranges len = Inr rs \<Longrightarrow> separated qs \<Longrightarrow> covered qs = covered ranges \<Longrightarrow> qs = rs"
  using coalesce_Inr separated_unique by metis

lemma run_ranges_calls:
  assumes "vf_reachable (mv_facts v)" "ct_kind t = NoneKind \<or> is_host_executor (ct_executor t)"
    "\<forall>r\<in>set rs. fst r \<le> snd r \<and> snd r \<le> buf_len (mv_buffer v)" "buf_len (mv_buffer v) \<le> usize_MAX"
    "\<And>calls m op off n. control calls m op off n = 0"
  shows "run_ranges control v t rs s = (Inr (), s\<lparr>fb_calls := fb_calls s @
    map (\<lambda>r. if ct_kind t = NoneKind then CacheFence
             else CacheControl (root_mapping (buf_memory (mv_buffer v))) (nt_host_operation (ct_native t)) (fst r) (snd r - fst r)) rs\<rparr>)"
  using assms(3)
proof (induction rs arbitrary: s)
  case (Cons r rs)
  then have "fst r + (snd r - fst r) \<le> usize_MAX" "fst r + (snd r - fst r) \<le> buf_len (mv_buffer v)" using assms(4) by auto
  with Cons assms(1,2,5) show ?case
    by (auto simp: host_transition_def checked_add_def check_status_def log_call_def Let_def)
qed simp


text \<open>
  Prepared host work maintains exactly the requested bytes of a whole allocation, once each: where a range transition is
  qualified, executing it issues one call per coalesced range, in ascending order, the calls are disjoint, and the bytes they
  cover are the bytes of the requested ranges.
\<close>

definition call_span :: "cache_call \<Rightarrow> span" where
  "call_span c = (cc_offset c, cc_offset c + cc_length c)"

lemma prepared_calls_exact:
  assumes "prepare_host v t ranges = Inr p" "ct_kind t = RangeKind" "buffer_ok s (mv_buffer v)" "\<And>calls m op off n. control calls m op off n = 0"
  shows "\<exists>calls. prepared_execute control p s = (Inr (), s\<lparr>fb_calls := fb_calls s @ calls\<rparr>)
    \<and> length calls = operation_count p
    \<and> (\<forall>c\<in>set calls. \<exists>off len. c = CacheControl (root_mapping (buf_memory (mv_buffer v))) (nt_host_operation (ct_native t)) off len)
    \<and> separated (map call_span calls) \<and> covered (map call_span calls) = covered ranges"
proof -
  from assms(1,2) obtain rs where q: "vf_reachable (mv_facts v)" "is_host_executor (ct_executor t)"
      "coalesce_ranges ranges (buf_len (mv_buffer v)) = Inr rs" "p = \<lparr>pv_visibility = v, pv_transition = t, pv_ranges = rs\<rparr>"
    by (auto simp: prepare_host_def and_then_Inr_iff split: if_splits)
  note c = coalesce_Inr [OF q(3)]
  let ?call = "\<lambda>r. CacheControl (root_mapping (buf_memory (mv_buffer v))) (nt_host_operation (ct_native t)) (fst r) (snd r - fst r)"
  have "\<forall>r\<in>set rs. fst r \<le> snd r \<and> snd r \<le> buf_len (mv_buffer v)" using c(1,3) by (force simp: separated_def)
  moreover have "buf_len (mv_buffer v) \<le> usize_MAX"
    using assms(3) by (cases "buf_memory (mv_buffer v)") (auto simp: buffer_ok_def memory_ok.simps)
  ultimately have run: "prepared_execute control p s = (Inr (), s\<lparr>fb_calls := fb_calls s @ map ?call rs\<rparr>)"
    using run_ranges_calls [of v t rs control s] q assms(2,4) by (simp add: prepared_execute_def)
  have spans: "map call_span (map ?call rs) = rs"
    using c(1) by (induction rs) (auto simp: call_span_def separated_Cons)
  show ?thesis using run c(1,2) q(4) spans by (intro exI [of _ "map ?call rs"]) (auto simp: operation_count_def)
qed

text \<open>
  On a view the call does not name the view's bytes. The range of a transition is counted from the start of the
  view, and so is its bound, but the call passes it on as an offset into the mapping of the whole allocation. The plain
  maintenance of the same range, \<open>cache_control\<close>, adds the view's offset; the two agree only for views at offset zero.
\<close>

lemma transition_ignores_view_offset:
  assumes "buffer_ok s b" "fm_mapped (buf_memory b)" "fb_needs_cache s (buf_cell b)" "off + len \<le> buf_len b"
    "vf_reachable facts" "ct_kind t = RangeKind" "is_host_executor (ct_executor t)" "nt_host_operation (ct_native t) = FLUSH"
  shows "snd (host_transition control \<lparr>mv_buffer = b, mv_facts = facts\<rparr> t off len s)
      = log_call (CacheControl (root_mapping (buf_memory b)) FLUSH off len) s"
    "snd (cache_control control True off len b s)
      = log_call (CacheControl (root_mapping (buf_memory b)) FLUSH (buf_base b + off) len) s"
    "snd (host_transition control \<lparr>mv_buffer = b, mv_facts = facts\<rparr> t off len s) = snd (cache_control control True off len b s)
      \<longleftrightarrow> buf_base b = 0"
proof -
  have "off + len \<le> usize_MAX" using assms(1,4) by (cases "buf_memory b") (auto simp: buffer_ok_def memory_ok.simps)
  then show h: "snd (host_transition control \<lparr>mv_buffer = b, mv_facts = facts\<rparr> t off len s)
      = log_call (CacheControl (root_mapping (buf_memory b)) FLUSH off len) s"
    using assms by (simp add: host_transition_def checked_add_def Let_def)
  show c: "snd (cache_control control True off len b s)
      = log_call (CacheControl (root_mapping (buf_memory b)) FLUSH (buf_base b + off) len) s"
    using cache_control_buffer [OF assms(1,2,4)] assms(3) by (simp add: maintenance_def)
  show "snd (host_transition control \<lparr>mv_buffer = b, mv_facts = facts\<rparr> t off len s) = snd (cache_control control True off len b s)
      \<longleftrightarrow> buf_base b = 0"
    unfolding h c by (auto simp: log_call_def dest: arg_cong [where f = fb_calls])
qed

end
