(* ===== verification/Native_Session.thy ===== *)
theory Native_Session
  imports HRX_Prelude
begin

text \<open>
  Native sessions, \<^verbatim>\<open>src/src/execution/native_session.rs\<close>: synchronous stages over private native state, run under the
  compute lease with fenced checkpoints. A panic is an outcome beside the returned value. A stage is the tree of
  its checkpoints: each names the calling thread, whether the cooperation lock was contended, what the scheduler answers about waiters and what the
  fence does, and continues with the checkpoint's outcome, which it may inspect, ignore or (for a panic)
  catch. The lease itself is modelled in \<open>Exec_Scheduler\<close>; here it is acquired, yielded
  and dropped as events of the run, next to the fences and the quarantine.
\<close>


section \<open>State\<close>

datatype 'a outcome = Returned 'a | Panicked string

datatype session_event = LeaseAcquired | Fenced | FenceFailed | Yielded | FinalFence | Traced bool | Quarantined | LeaseDropped

record cooperation =
  co_owner :: nat
  co_lease :: bool
  co_failure :: "error option"

datatype ('t, 'r) stage =
    Finish "'r outcome" 't
  | Checkpoint (ck_thread: nat) (ck_contended: bool) (ck_conditional: bool) (ck_waits: bool) (ck_fence: "unit result outcome")
      (ck_waits_after: bool) (ck_next: "bool result outcome \<Rightarrow> ('t, 'r) stage")


section \<open>Checkpoints\<close>

definition checkpoint_inner ::
  "nat \<Rightarrow> bool \<Rightarrow> bool \<Rightarrow> bool \<Rightarrow> unit result outcome \<Rightarrow> bool \<Rightarrow> cooperation
   \<Rightarrow> bool result outcome \<times> cooperation \<times> session_event list" where
  "checkpoint_inner thread contended conditional waits fence waits_after c =
     (if contended then (Returned (Inl (Busy ''native checkpoint already active'')), c, [])
      else if co_owner c \<noteq> thread \<or> \<not> co_lease c
      then (Returned (Inl (Busy ''native checkpoint outside its calling stage'')), c, [])
      else case co_failure c of
        Some e \<Rightarrow> (Returned (Inl (Execution e)), c, [])
      | None \<Rightarrow>
          if conditional \<and> \<not> waits then (Returned (Inr False), c, [])
          else (case fence of
                  Returned (Inr _) \<Rightarrow> (Returned (Inr waits_after), c, if waits_after then [Fenced, Yielded] else [Fenced])
                | Returned (Inl e) \<Rightarrow> (Returned (Inl (Execution e)), c\<lparr>co_failure := Some e\<rparr>, [FenceFailed])
                | Panicked p \<Rightarrow>
                    (Panicked p, c\<lparr>co_failure := Some (DeviceLost ''native checkpoint fence panicked'')\<rparr>, [FenceFailed])))"

primrec run_stage :: "('t, 'r) stage \<Rightarrow> cooperation \<Rightarrow> 'r outcome \<times> 't \<times> cooperation \<times> session_event list" where
  "run_stage (Finish r t) c = (r, t, c, [])"
| "run_stage (Checkpoint thread contended conditional waits fence waits_after next_stage) c =
     (let (r, c1, es) = checkpoint_inner thread contended conditional waits fence waits_after c;
          (r', t, c2, es') = run_stage (next_stage r) c1
      in (r', t, c2, es @ es'))"


section \<open>Sessions\<close>

definition session_state :: "'t option \<Rightarrow> 't result" where
  "session_state st = (case st of Some t \<Rightarrow> Inr t | None \<Rightarrow> Inl (DeviceLost ''native session is quarantined''))"

definition enter_runtime :: "nat \<Rightarrow> nat list \<Rightarrow> nat list result" where
  "enter_runtime runtime active =
     (if runtime \<in> set active then Inl (Busy ''recursive native session in the same runtime'') else Inr (active @ [runtime]))"

definition leave_runtime :: "nat \<Rightarrow> nat list \<Rightarrow> nat list" where
  "leave_runtime runtime active = filter (\<lambda>i. i \<noteq> runtime) active"

definition session_result :: "'r outcome \<Rightarrow> unit result outcome \<Rightarrow> error option \<Rightarrow> 'r result outcome" where
  "session_result r completion failure =
     (case r of
        Panicked p \<Rightarrow> Panicked p
      | Returned v \<Rightarrow>
          (case completion of
             Panicked p \<Rightarrow> Panicked p
           | Returned d \<Rightarrow> Returned (and_then d (\<lambda>_. case failure of Some e \<Rightarrow> Inl (Execution e) | None \<Rightarrow> Inr v))))"

definition is_panic :: "'a outcome \<Rightarrow> bool" where
  "is_panic r \<longleftrightarrow> (case r of Panicked _ \<Rightarrow> True | Returned _ \<Rightarrow> False)"

definition run_cooperative ::
  "nat \<Rightarrow> nat \<Rightarrow> unit result \<Rightarrow> ('t \<Rightarrow> unit result outcome \<times> 't) \<Rightarrow> ('t \<Rightarrow> ('t, 'r) stage) \<Rightarrow> nat list \<Rightarrow> 't option
   \<Rightarrow> 'r result outcome \<times> 't option \<times> nat list \<times> session_event list" where
  "run_cooperative runtime thread acquire fence stage active st =
     (case session_state st of
        Inl e \<Rightarrow> (Returned (Inl e), st, active, [])
      | Inr t \<Rightarrow>
          (case enter_runtime runtime active of
             Inl e \<Rightarrow> (Returned (Inl e), st, active, [])
           | Inr entered \<Rightarrow>
               (case acquire of
                  Inl e \<Rightarrow> (Returned (Inl e), st, leave_runtime runtime entered, [])
                | Inr _ \<Rightarrow>
                    let (r, t1, c, es) = run_stage (stage t) \<lparr>co_owner = thread, co_lease = True, co_failure = None\<rparr>;
                        (completion, t2) = fence t1;
                        failed = (co_failure c \<noteq> None \<or> completion \<noteq> Returned (Inr ()))
                    in (session_result r completion (co_failure c), if failed then None else Some t2, leave_runtime runtime entered,
                        [LeaseAcquired] @ es @ [FinalFence, Traced (failed \<or> is_panic r)]
                          @ (if failed then [Quarantined] else []) @ [LeaseDropped]))))"

text \<open>A plain stage has no checkpoints.\<close>

definition session_run ::
  "nat \<Rightarrow> nat \<Rightarrow> unit result \<Rightarrow> ('t \<Rightarrow> unit result outcome \<times> 't) \<Rightarrow> ('t \<Rightarrow> 'r outcome \<times> 't) \<Rightarrow> nat list \<Rightarrow> 't option
   \<Rightarrow> 'r result outcome \<times> 't option \<times> nat list \<times> session_event list" where
  "session_run runtime thread acquire fence stage active st =
     run_cooperative runtime thread acquire fence (\<lambda>t. case stage t of (r, t') \<Rightarrow> Finish r t') active st"

text \<open>A checkpoint through a handle kept after the stage: the lease has been taken out.\<close>

definition retire_cooperation :: "cooperation \<Rightarrow> cooperation" where
  "retire_cooperation c = c\<lparr>co_lease := False, co_failure := None\<rparr>"

lemma expired_checkpoint:
  "checkpoint_inner thread False conditional waits fence waits_after (retire_cooperation c)
     = (Returned (Inl (Busy ''native checkpoint outside its calling stage'')), retire_cooperation c, [])"
  by (simp add: checkpoint_inner_def retire_cooperation_def)


section \<open>Events of a stage\<close>

text \<open>
  A fenced trace: every yield directly follows a successful fence, and after a failed fence there is neither.
\<close>

fun fenced_trace :: "session_event list \<Rightarrow> bool" where
  "fenced_trace [] \<longleftrightarrow> True"
| "fenced_trace (Fenced # Yielded # es) \<longleftrightarrow> fenced_trace es"
| "fenced_trace (Fenced # es) \<longleftrightarrow> fenced_trace es"
| "fenced_trace [FenceFailed] \<longleftrightarrow> True"
| "fenced_trace _ \<longleftrightarrow> False"

lemma checkpoint_cases:
  obtains (quiet) r where "checkpoint_inner thread contended conditional waits fence waits_after c = (r, c, [])"
  | (fenced) "co_failure c = None"
      "checkpoint_inner thread contended conditional waits fence waits_after c
        = (Returned (Inr waits_after), c, if waits_after then [Fenced, Yielded] else [Fenced])"
  | (failed) r e where "co_failure c = None"
      "checkpoint_inner thread contended conditional waits fence waits_after c = (r, c\<lparr>co_failure := Some e\<rparr>, [FenceFailed])"
proof (cases "contended \<or> co_owner c \<noteq> thread \<or> \<not> co_lease c \<or> co_failure c \<noteq> None \<or> conditional \<and> \<not> waits")
  case True
  then have "\<exists>r. checkpoint_inner thread contended conditional waits fence waits_after c = (r, c, [])"
    by (cases "co_failure c") (auto simp: checkpoint_inner_def)
  with quiet show ?thesis by blast
next
  case False
  show ?thesis
  proof (cases fence)
    case (Panicked p)
    with False failed show ?thesis by (simp add: checkpoint_inner_def)
  next
    case (Returned d)
    with False failed fenced show ?thesis by (cases d) (simp_all add: checkpoint_inner_def)
  qed
qed

lemma run_stage_failed:
  "co_failure c \<noteq> None \<Longrightarrow> run_stage st c = (r, t, c', es) \<Longrightarrow> es = [] \<and> c' = c"
proof (induction st arbitrary: c r t c' es)
  case (Checkpoint thread contended conditional waits fence waits_after next_stage)
  show ?case
  proof (rule checkpoint_cases [of thread contended conditional waits fence waits_after c])
    fix q assume "checkpoint_inner thread contended conditional waits fence waits_after c = (q, c, [])"
    then have "run_stage (next_stage q) c = (r, t, c', es)" using Checkpoint.prems by (auto split: prod.splits)
    then show ?thesis using Checkpoint.IH [OF rangeI] Checkpoint.prems(1) by blast
  qed (use Checkpoint.prems(1) in auto)
qed auto

lemma run_stage_trace:
  assumes "run_stage st c = (r, t, c', es)" "co_failure c = None"
  shows "fenced_trace es" "co_failure c' \<noteq> None \<longleftrightarrow> FenceFailed \<in> set es" "set es \<subseteq> {Fenced, Yielded, FenceFailed}"
proof -
  have "fenced_trace es \<and> (co_failure c' \<noteq> None \<longleftrightarrow> FenceFailed \<in> set es) \<and> set es \<subseteq> {Fenced, Yielded, FenceFailed}"
    using assms
  proof (induction st arbitrary: c r t c' es)
    case (Checkpoint thread contended conditional waits fence waits_after next_stage)
    show ?case
    proof (rule checkpoint_cases [of thread contended conditional waits fence waits_after c])
      fix q assume "checkpoint_inner thread contended conditional waits fence waits_after c = (q, c, [])"
      then have "run_stage (next_stage q) c = (r, t, c', es)" using Checkpoint.prems by (auto split: prod.splits)
      then show ?thesis using Checkpoint.IH [OF rangeI] Checkpoint.prems(2) by blast
    next
      assume k: "checkpoint_inner thread contended conditional waits fence waits_after c
        = (Returned (Inr waits_after), c, if waits_after then [Fenced, Yielded] else [Fenced])"
      obtain r1 t1 c1 es1 where n: "run_stage (next_stage (Returned (Inr waits_after))) c = (r1, t1, c1, es1)" by (metis prod_cases4)
      have ih: "fenced_trace es1 \<and> (co_failure c1 \<noteq> None \<longleftrightarrow> FenceFailed \<in> set es1) \<and> set es1 \<subseteq> {Fenced, Yielded, FenceFailed}"
        using Checkpoint.IH [OF _ n Checkpoint.prems(2)] by blast
      have "fenced_trace (Fenced # es1)" using ih by (cases es1 rule: fenced_trace.cases) auto
      with ih show ?thesis using Checkpoint.prems(1) k n by (auto split: if_splits)
    next
      fix q e assume k: "checkpoint_inner thread contended conditional waits fence waits_after c = (q, c\<lparr>co_failure := Some e\<rparr>, [FenceFailed])"
      obtain r1 t1 c1 es1 where n: "run_stage (next_stage q) (c\<lparr>co_failure := Some e\<rparr>) = (r1, t1, c1, es1)" by (metis prod_cases4)
      then have "es1 = [] \<and> c1 = c\<lparr>co_failure := Some e\<rparr>" using run_stage_failed [of "c\<lparr>co_failure := Some e\<rparr>"] by simp
      then show ?thesis using Checkpoint.prems(1) k n by auto
    qed
  qed auto
  then show "fenced_trace es" "co_failure c' \<noteq> None \<longleftrightarrow> FenceFailed \<in> set es" "set es \<subseteq> {Fenced, Yielded, FenceFailed}" by auto
qed



section \<open>Properties\<close>

lemma leave_entered: "enter_runtime runtime active = Inr entered \<Longrightarrow> leave_runtime runtime entered = active"
  by (auto simp: enter_runtime_def leave_runtime_def split: if_splits intro: filter_True)

text \<open>
  The shape of a run that was admitted: the stage's own events lie between acquiring the lease and the single
  final fence, and the lease is dropped last, after the quarantine.
\<close>

definition session_trace :: "bool \<Rightarrow> bool \<Rightarrow> session_event list \<Rightarrow> session_event list" where
  "session_trace failed traced es =
     [LeaseAcquired] @ es @ [FinalFence, Traced traced] @ (if failed then [Quarantined] else []) @ [LeaseDropped]"

lemma run_cooperative_cases:
  assumes "run_cooperative runtime thread acquire fence stage active st = (res, st', active', evs)"
  obtains (refused) e where "res = Returned (Inl e)" "st' = st" "evs = []" "st = None \<or> runtime \<in> set active \<or> acquire = Inl e"
      "st = None \<Longrightarrow> e = DeviceLost ''native session is quarantined''"
  | (ran) t r t1 c es completion t2 where "st = Some t" "runtime \<notin> set active" "is_ok acquire"
      "run_stage (stage t) \<lparr>co_owner = thread, co_lease = True, co_failure = None\<rparr> = (r, t1, c, es)" "fence t1 = (completion, t2)"
      "res = session_result r completion (co_failure c)"
      "st' = (if co_failure c \<noteq> None \<or> completion \<noteq> Returned (Inr ()) then None else Some t2)"
      "evs = session_trace (st' = None) (st' = None \<or> is_panic r) es"
proof (cases st)
  case None
  then have "run_cooperative runtime thread acquire fence stage active st
      = (Returned (Inl (DeviceLost ''native session is quarantined'')), None, active, [])"
    by (simp add: run_cooperative_def session_state_def)
  then show ?thesis using assms None by (intro refused) simp_all
next
  case (Some t)
  show ?thesis
  proof (cases "enter_runtime runtime active")
    case (Inl e)
    then have "run_cooperative runtime thread acquire fence stage active st = (Returned (Inl e), st, active, [])"
      by (simp add: run_cooperative_def session_state_def Some)
    then have "res = Returned (Inl e)" "st' = st" "evs = []" using assms by simp_all
    moreover have "runtime \<in> set active" using Inl by (auto simp: enter_runtime_def split: if_splits)
    ultimately show ?thesis by (intro refused) (simp_all add: Some)
  next
    case enter: (Inr entered)
    then have fresh: "runtime \<notin> set active" by (auto simp: enter_runtime_def split: if_splits)
    show ?thesis
    proof (cases acquire)
      case (Inl e)
      have "run_cooperative runtime thread acquire fence stage active st = (Returned (Inl e), st, leave_runtime runtime entered, [])"
        by (simp add: run_cooperative_def session_state_def Some enter Inl)
      then have "res = Returned (Inl e)" "st' = st" "evs = []" using assms by simp_all
      then show ?thesis by (intro refused [of e]) (simp_all add: Some Inl)
    next
      case acq: (Inr u)
      obtain r t1 c es where rs: "run_stage (stage t) \<lparr>co_owner = thread, co_lease = True, co_failure = None\<rparr> = (r, t1, c, es)"
        by (metis prod_cases4)
      obtain completion t2 where f: "fence t1 = (completion, t2)" by (cases "fence t1")
      let ?failed = "co_failure c \<noteq> None \<or> completion \<noteq> Returned (Inr ())"
      have "run_cooperative runtime thread acquire fence stage active st =
          (session_result r completion (co_failure c), if ?failed then None else Some t2, leave_runtime runtime entered,
           session_trace ?failed (?failed \<or> is_panic r) es)"
        by (simp add: run_cooperative_def session_state_def Some enter acq rs f session_trace_def)
      then have eqs: "res = session_result r completion (co_failure c)" "st' = (if ?failed then None else Some t2)"
          "evs = session_trace ?failed (?failed \<or> is_panic r) es"
        using assms by auto
      have "evs = session_trace (st' = None) (st' = None \<or> is_panic r) es" unfolding eqs(2,3) by simp
      moreover have "is_ok acquire" by (simp add: acq)
      ultimately show ?thesis by (intro ran [OF Some fresh _ rs f eqs(1,2)])
    qed
  qed
qed

lemma active_restored:
  "run_cooperative runtime thread acquire fence stage active st = (res, st', active', evs) \<Longrightarrow> active' = active"
  using leave_entered [of runtime active]
  by (auto simp: run_cooperative_def Let_def split: sum.splits prod.splits)

text \<open>
  C3: Sessions drain or are quarantined. A run that is refused (quarantined session, recursive use of the runtime on this thread, no lease) has no effect. Every
  other run, whatever its stage does, returns or panics, acquires the lease once, runs the final fence exactly once after all checkpoints, and drops the lease last;
  compute is yielded only directly after a successful fence. The session survives exactly when no checkpoint fence and not the final
  fence failed or panicked, and a run only returns a value when the session survives. A quarantined session refuses every
  later run without touching the device.
\<close>

theorem session_quarantine:
  fixes res :: "'r result outcome"
  assumes "run_cooperative runtime thread acquire fence stage active st = (res, st', active', evs)"
  shows "active' = active
    \<and> (evs = [] \<and> st' = st \<and> (\<exists>e. res = Returned (Inl e))
       \<or> (\<exists>t r t1 c es completion t2 traced. st = Some t
            \<and> run_stage (stage t) \<lparr>co_owner = thread, co_lease = True, co_failure = None\<rparr> = (r, t1, c, es)
            \<and> fence t1 = (completion, t2) \<and> evs = session_trace (st' = None) traced es
            \<and> fenced_trace es \<and> set es \<subseteq> {Fenced, Yielded, FenceFailed}
            \<and> res = session_result r completion (co_failure c) \<and> st' \<in> {None, Some t2}
            \<and> (st' \<noteq> None \<longleftrightarrow> FenceFailed \<notin> set es \<and> completion = Returned (Inr ()))))
    \<and> (\<forall>v. res = Returned (Inr v) \<longrightarrow> st' \<noteq> None)
    \<and> (st' = None \<longrightarrow> (\<forall>runtime' thread' acquire' fence' stage' active2.
          run_cooperative runtime' thread' acquire' fence' stage' active2 st'
            = (Returned (Inl (DeviceLost ''native session is quarantined'')) :: 'r result outcome, None, active2, [])))"
proof -
  have gone: "run_cooperative runtime' thread' acquire' fence' stage' active2 None
      = (Returned (Inl (DeviceLost ''native session is quarantined'')) :: 'r result outcome, None, active2, [])"
    for runtime' thread' acquire' fence' stage' active2
    by (simp add: run_cooperative_def session_state_def)
  from assms show ?thesis
  proof (cases rule: run_cooperative_cases)
    case (refused e)
    then show ?thesis using active_restored [OF assms] gone by auto
  next
    case (ran t r t1 c es completion t2)
    note tr = run_stage_trace [OF ran(4)]
    have alive: "st' \<noteq> None \<longleftrightarrow> FenceFailed \<notin> set es \<and> completion = Returned (Inr ())"
      using tr(2) ran(7) by auto
    have "st' \<noteq> None" if "res = Returned (Inr v)" for v
      using that ran(6,7) by (auto simp: session_result_def and_then_def split: outcome.splits option.splits sum.splits)
    moreover have "fenced_trace es" "set es \<subseteq> {Fenced, Yielded, FenceFailed}" using tr(1,3) by simp_all
    moreover have "st' \<in> {None, Some t2}" using ran(7) by simp
    ultimately show ?thesis using active_restored [OF assms] alive ran(1,4-6,8) gone by blast
  qed
qed

text \<open>
  A stage fences successfully and yields, then a checkpoint fence fails and the stage ignores it: the run reports the failure and the
  session is gone, although its final fence succeeds.
\<close>

definition demo_stage :: "nat \<Rightarrow> (nat, nat) stage" where
  "demo_stage t = Checkpoint 3 False False True (Returned (Inr ())) True (\<lambda>_.
     Checkpoint 3 False False True (Returned (Inl Cancelled)) True (\<lambda>_. Finish (Returned 8) t))"

theorem session_quarantine_witness:
  "\<exists>res evs. run_cooperative 6 3 (Inr ()) (\<lambda>t. (Returned (Inr ()), t)) demo_stage [] (Some (5 :: nat)) = (res, None, [], evs)
     \<and> evs = [LeaseAcquired, Fenced, Yielded, FenceFailed, FinalFence, Traced True, Quarantined, LeaseDropped]
     \<and> run_cooperative 6 3 (Inr ()) (\<lambda>t. (Returned (Inr ()), t)) demo_stage [] None
         = (Returned (Inl (DeviceLost ''native session is quarantined'')), None, [], [])"
proof -
  let ?evs = "[LeaseAcquired, Fenced, Yielded, FenceFailed, FinalFence, Traced True, Quarantined, LeaseDropped]"
  have run: "run_cooperative 6 3 (Inr ()) (\<lambda>t. (Returned (Inr ()), t)) demo_stage [] (Some (5 :: nat))
      = (Returned (Inl (Execution Cancelled)) :: nat result outcome, None, [], ?evs)"
    by (simp add: run_cooperative_def session_state_def enter_runtime_def leave_runtime_def demo_stage_def checkpoint_inner_def
        session_result_def)
  have "run_cooperative 6 3 (Inr ()) (\<lambda>t. (Returned (Inr ()), t)) demo_stage [] None
      = (Returned (Inl (DeviceLost ''native session is quarantined'')) :: nat result outcome, None :: nat option, [], [])"
    using session_quarantine [OF run] by blast
  with run show ?thesis by auto
qed

end
