(* ===== verification/Tensor_Desc.thy ===== *)
theory Tensor_Desc
  imports Buffer_Views "HOL-Library.Multiset"
begin

text \<open>
  Checked tensor metadata and views, \<^verbatim>\<open>src/src/tensor.rs\<close>. A descriptor that the crate accepts
  addresses its elements injectively and inside its byte extent; every product and sum
  is checked against the machine word. The producer completion and the lease of a device tensor
  are opaque identities.
\<close>


section \<open>Element types and layouts\<close>

datatype dtype = U8 | I32 | U32 | I64 | F16 | BF16 | F32

fun dtype_bytes :: "dtype \<Rightarrow> usize" where
  "dtype_bytes U8 = 1"
| "dtype_bytes F16 = 2"
| "dtype_bytes BF16 = 2"
| "dtype_bytes I32 = 4"
| "dtype_bytes U32 = 4"
| "dtype_bytes F32 = 4"
| "dtype_bytes I64 = 8"

datatype layout = General | Nchw | Nhwc | Rows

record tensor_desc =
  td_dtype :: dtype
  td_shape :: "usize list"
  td_strides :: "usize list"
  td_layout :: layout
  td_elements :: usize
  td_bytes :: usize


section \<open>Construction\<close>

fun try_product :: "usize \<Rightarrow> usize list \<Rightarrow> usize option" where
  "try_product n [] = Some n"
| "try_product n (d # ds) = (case checked_mul n d of None \<Rightarrow> None | Some m \<Rightarrow> try_product m ds)"

text \<open>The loop over the axes longer than one, ascending in their stride.\<close>

fun pack_axes :: "(usize \<times> usize) list \<Rightarrow> usize \<Rightarrow> usize result" where
  "pack_axes [] extent = Inr extent"
| "pack_axes ((dimension, stride) # axes) extent =
     (if stride < extent then Inl (Message ''overlapping tensor strides'')
      else case checked_mul (dimension - 1) stride of
        None \<Rightarrow> Inl (Message ''tensor extent overflow'')
      | Some n \<Rightarrow>
          (case checked_add n extent of
             None \<Rightarrow> Inl (Message ''tensor extent overflow'')
           | Some e \<Rightarrow> pack_axes axes e))"

definition long_axes :: "usize list \<Rightarrow> usize list \<Rightarrow> (usize \<times> usize) list" where
  "long_axes shape strides = sort_key snd (filter (\<lambda>a. fst a > 1) (zip shape strides))"

definition strided :: "dtype \<Rightarrow> usize list \<Rightarrow> usize list \<Rightarrow> tensor_desc result" where
  "strided dt shape strides =
     (if length shape \<noteq> length strides \<or> 0 \<in> set strides then Inl (Message ''invalid tensor strides'')
      else
        let empty = 0 \<in> set shape
        in case (if empty then Some 0 else try_product 1 shape) of
             None \<Rightarrow> Inl (Message ''tensor element count overflow'')
           | Some elements \<Rightarrow>
               (case (if empty then Inr 0 else pack_axes (long_axes shape strides) 1) of
                  Inl e \<Rightarrow> Inl e
                | Inr extent \<Rightarrow>
                    (case checked_mul extent (dtype_bytes dt) of
                       None \<Rightarrow> Inl (Message ''tensor byte extent overflow'')
                     | Some bytes \<Rightarrow>
                         if bytes \<le> isize_MAX
                         then Inr \<lparr>td_dtype = dt, td_shape = shape, td_strides = strides, td_layout = General,
                                   td_elements = elements, td_bytes = bytes\<rparr>
                         else Inl (Message ''tensor byte extent overflow''))))"

text \<open>The reversed loop of \<open>new\<close>: the strides of a suffix and the stride in front of it.\<close>

fun row_major :: "usize list \<Rightarrow> (usize list \<times> usize) result" where
  "row_major [] = Inr ([], 1)"
| "row_major (d # ds) =
     (case row_major ds of
        Inl e \<Rightarrow> Inl e
      | Inr (strides, stride) \<Rightarrow>
          (case checked_mul stride (max d 1) of
             None \<Rightarrow> Inl (Message ''tensor stride overflow'')
           | Some next_stride \<Rightarrow> Inr (stride # strides, next_stride)))"

definition tensor_new :: "dtype \<Rightarrow> usize list \<Rightarrow> tensor_desc result" where
  "tensor_new dt shape =
     (if 0 \<in> set shape then strided dt shape (replicate (length shape) 1)
      else case row_major shape of
        Inl e \<Rightarrow> Inl e
      | Inr (strides, _) \<Rightarrow> strided dt shape strides)"

definition with_layout :: "layout \<Rightarrow> tensor_desc \<Rightarrow> tensor_desc result" where
  "with_layout l d =
     (if (case l of General \<Rightarrow> True | Rows \<Rightarrow> length (td_shape d) = 2 | _ \<Rightarrow> length (td_shape d) = 4)
      then Inr (d\<lparr>td_layout := l\<rparr>) else Inl (Message ''tensor layout rank mismatch''))"

definition desc_is_empty :: "tensor_desc \<Rightarrow> bool" where
  "desc_is_empty d \<longleftrightarrow> td_elements d = 0"

text \<open>The loop of \<open>is_contiguous\<close> from the last axis on; \<open>None\<close> is an early \<open>false\<close>.\<close>

fun contiguous_stride :: "(usize \<times> usize) list \<Rightarrow> usize option" where
  "contiguous_stride [] = Some 1"
| "contiguous_stride ((dimension, actual) # axes) =
     (case contiguous_stride axes of
        None \<Rightarrow> None
      | Some stride \<Rightarrow> if dimension > 1 \<and> actual \<noteq> stride then None else checked_mul stride (max dimension 1))"

definition is_contiguous :: "tensor_desc \<Rightarrow> bool" where
  "is_contiguous d \<longleftrightarrow> desc_is_empty d \<or> contiguous_stride (zip (td_shape d) (td_strides d)) \<noteq> None"


section \<open>Device tensors\<close>

record device_tensor =
  dt_runtime :: nat
  dt_desc :: tensor_desc
  dt_view :: "buffer_view option"
  dt_producer :: nat
  dt_lease :: "nat option"

definition tensor_binding :: "device_tensor \<Rightarrow> buffer_view option" where
  "tensor_binding t =
     map_option (\<lambda>v. case dt_lease t of Some l \<Rightarrow> view_retain v l | None \<Rightarrow> v) (dt_view t)"

definition tensor_view :: "usize \<Rightarrow> tensor_desc \<Rightarrow> device_tensor \<Rightarrow> device_tensor result" where
  "tensor_view byte_offset d t =
     (case checked_add byte_offset (td_bytes d) of
        None \<Rightarrow> Inl (Message ''tensor view exceeds storage'')
      | Some e \<Rightarrow>
          if e > td_bytes (dt_desc t) then Inl (Message ''tensor view exceeds storage'')
          else
            let origin = (case dt_view t of None \<Rightarrow> 0 | Some v \<Rightarrow> view_offset v)
            in if (origin + byte_offset) mod dtype_bytes (td_dtype d) \<noteq> 0 then Inl (Message ''unaligned tensor view'')
               else if desc_is_empty d then Inr (t\<lparr>dt_desc := d, dt_view := None\<rparr>)
               else case dt_view t of
                 None \<Rightarrow> Inl (Message ''empty tensor has no storage'')
               | Some v \<Rightarrow> map_sum id (\<lambda>s. t\<lparr>dt_desc := d, dt_view := Some s\<rparr>) (view_slice v (byte_offset, e)))"


section \<open>Addressing\<close>

text \<open>The element offset of an index, and the indices of a shape.\<close>

definition element_offset :: "usize list \<Rightarrow> nat list \<Rightarrow> nat" where
  "element_offset strides idx = sum_list (map (\<lambda>(i, s). i * s) (zip idx strides))"

definition in_shape :: "usize list \<Rightarrow> nat list \<Rightarrow> bool" where
  "in_shape shape idx \<longleftrightarrow> length idx = length shape \<and> (\<forall>k<length shape. idx ! k < shape ! k)"

lemma insort_key_map: "insort_key k (f x) (map f xs) = map f (insort_key (\<lambda>x. k (f x)) x xs)"
  by (induction xs) simp_all

lemma sort_key_map: "sort_key k (map f xs) = map f (sort_key (\<lambda>x. k (f x)) xs)"
  by (induction xs) (simp_all add: insort_key_map)

lemma sum_sort_key: "sum_list (map f (sort_key k xs)) = sum_list (map f xs)" for f :: "'a \<Rightarrow> nat"
  by (metis mset_map mset_sort sum_mset_sum_list)

text \<open>
  An axis with two coordinates. Packing makes the offsets of all coordinates different: each stride is
  at least the extent of the axes before it.
\<close>

type_synonym axis_pair = "(usize \<times> usize) \<times> (nat \<times> nat)"

definition axis_fits :: "axis_pair \<Rightarrow> bool" where
  "axis_fits x \<longleftrightarrow> fst (snd x) < fst (fst x) \<and> snd (snd x) < fst (fst x)"

abbreviation first_part :: "axis_pair \<Rightarrow> nat" where
  "first_part x \<equiv> fst (snd x) * snd (fst x)"

abbreviation second_part :: "axis_pair \<Rightarrow> nat" where
  "second_part x \<equiv> snd (snd x) * snd (fst x)"

lemma pack_step:
  assumes "pack_axes ((d, s) # axes) e = Inr ext"
  shows "e \<le> s" "pack_axes axes ((d - 1) * s + e) = Inr ext"
  using assms by (auto split: if_splits option.splits)

lemma digit_bound: "i < d \<Longrightarrow> r < e \<Longrightarrow> r + i * s < (d - 1) * s + e" for i d :: nat
proof -
  assume "i < d" "r < e"
  then have "i * s \<le> (d - 1) * s" by (intro mult_le_mono1) simp
  with \<open>r < e\<close> show ?thesis by linarith
qed

lemma digit_unique:
  fixes r r' i i' s e :: nat
  assumes "r + i * s = r' + i' * s" "r < e" "r' < e" "e \<le> s"
  shows "r = r' \<and> i = i'"
proof -
  have "(r + i * s) mod s = r" "(r + i * s) div s = i" using assms(2,4) by simp_all
  moreover have "(r' + i' * s) mod s = r'" "(r' + i' * s) div s = i'" using assms(3,4) by simp_all
  ultimately show ?thesis using assms(1) by metis
qed

lemma pack_unique:
  "pack_axes (map fst q) e = Inr ext \<Longrightarrow> \<forall>x\<in>set q. axis_fits x \<Longrightarrow> r < e \<Longrightarrow> r' < e
    \<Longrightarrow> r + sum_list (map first_part q) = r' + sum_list (map second_part q)
    \<Longrightarrow> r = r' \<and> (\<forall>x\<in>set q. fst (snd x) = snd (snd x))"
proof (induction q arbitrary: e r r')
  case (Cons x q)
  obtain d s i i' where x: "x = ((d, s), (i, i'))" by (metis prod.collapse)
  have ps: "e \<le> s" "pack_axes (map fst q) ((d - 1) * s + e) = Inr ext" using pack_step Cons.prems(1) x by auto
  have ii: "i < d" "i' < d" using Cons.prems(2) by (simp_all add: x axis_fits_def)
  have "r + i * s = r' + i' * s \<and> (\<forall>x\<in>set q. fst (snd x) = snd (snd x))"
    using Cons.prems(2,5) x digit_bound [OF ii(1) Cons.prems(3)] digit_bound [OF ii(2) Cons.prems(4)]
    by (intro Cons.IH [OF ps(2)]) simp_all
  with digit_unique [of r i s r' i' e] Cons.prems(3,4) ps(1) x show ?case by simp
qed simp

lemma pack_bound:
  "pack_axes (map fst q) e = Inr ext \<Longrightarrow> \<forall>x\<in>set q. axis_fits x \<Longrightarrow> r < e \<Longrightarrow> r + sum_list (map first_part q) < ext"
proof (induction q arbitrary: e r)
  case (Cons x q)
  obtain d s i i' where x: "x = ((d, s), (i, i'))" by (metis prod.collapse)
  have ps: "pack_axes (map fst q) ((d - 1) * s + e) = Inr ext" using pack_step(2) Cons.prems(1) x by auto
  have "i < d" using Cons.prems(2) by (simp add: x axis_fits_def)
  from Cons.IH [OF ps _ digit_bound [OF this Cons.prems(3)]] Cons.prems(2) x show ?case by (simp add: add.assoc)
qed simp

lemma pack_exact:
  "pack_axes (map fst q) e = Inr ext \<Longrightarrow> \<forall>x\<in>set q. fst (snd x) = fst (fst x) - 1 \<Longrightarrow> e + sum_list (map first_part q) = ext"
proof (induction q arbitrary: e)
  case (Cons x q)
  obtain d s i i' where x: "x = ((d, s), (i, i'))" by (metis prod.collapse)
  have ps: "pack_axes (map fst q) ((d - 1) * s + e) = Inr ext" using pack_step(2) Cons.prems(1) x by auto
  from Cons.IH [OF ps] Cons.prems(2) x show ?case by simp
qed simp

text \<open>The axes of a shape with two indices, as \<open>strided\<close> arranges them.\<close>

definition axis_pairs :: "usize list \<Rightarrow> usize list \<Rightarrow> nat list \<Rightarrow> nat list \<Rightarrow> axis_pair list" where
  "axis_pairs shape strides idx jdx =
     sort_key (\<lambda>x. snd (fst x)) (filter (\<lambda>x. fst (fst x) > 1) (zip (zip shape strides) (zip idx jdx)))"

lemma axis_pairs_axes:
  assumes "length strides = length shape" "length idx = length shape" "length jdx = length shape"
  shows "map fst (axis_pairs shape strides idx jdx) = long_axes shape strides"
proof -
  have "zip shape strides = map fst (zip (zip shape strides) (zip idx jdx))" using assms by simp
  then have "filter (\<lambda>a. fst a > 1) (zip shape strides) = map fst (filter (\<lambda>x. fst (fst x) > 1) (zip (zip shape strides) (zip idx jdx)))"
    by (metis (no_types, lifting) comp_def filter_cong filter_map)
  then show ?thesis by (simp only: long_axes_def axis_pairs_def sort_key_map)
qed

lemma axis_pairs_fit:
  assumes "in_shape shape idx" "in_shape shape jdx"
  shows "\<forall>x\<in>set (axis_pairs shape strides idx jdx). axis_fits x"
  using assms by (auto simp: axis_pairs_def in_shape_def axis_fits_def set_zip)

lemma sum_filter_zero: "(\<And>x. x \<in> set xs \<Longrightarrow> \<not> P x \<Longrightarrow> f x = 0) \<Longrightarrow> sum_list (map f (filter P xs)) = sum_list (map f xs)" for f :: "'a \<Rightarrow> nat"
  by (induction xs) auto

lemma axis_pairs_offset:
  assumes "length strides = length shape" "in_shape shape idx" "in_shape shape jdx"
  shows "sum_list (map first_part (axis_pairs shape strides idx jdx)) = element_offset strides idx"
    "sum_list (map second_part (axis_pairs shape strides idx jdx)) = element_offset strides jdx"
proof -
  let ?z = "zip (zip shape strides) (zip idx jdx)"
  have len: "length idx = length shape" "length jdx = length shape" using assms by (simp_all add: in_shape_def)
  have short: "fst (snd x) = 0 \<and> snd (snd x) = 0" if x: "x \<in> set ?z" "\<not> fst (fst x) > 1" for x
  proof -
    obtain k where k: "k < length shape" "x = ((shape ! k, strides ! k), (idx ! k, jdx ! k))"
      using x(1) assms(1) len by (auto simp: set_zip)
    then have "idx ! k < shape ! k" "jdx ! k < shape ! k" using assms(2,3) by (simp_all add: in_shape_def)
    with k x(2) show ?thesis by simp
  qed
  have "sum_list (map first_part (axis_pairs shape strides idx jdx)) = sum_list (map first_part ?z)"
    unfolding axis_pairs_def sum_sort_key by (rule sum_filter_zero) (use short in simp)
  also have "map first_part ?z = map (\<lambda>(i, s). i * s) (zip idx strides)"
    using assms(1) len by (intro nth_equalityI) simp_all
  finally show "sum_list (map first_part (axis_pairs shape strides idx jdx)) = element_offset strides idx"
    by (simp add: element_offset_def)
  have "sum_list (map second_part (axis_pairs shape strides idx jdx)) = sum_list (map second_part ?z)"
    unfolding axis_pairs_def sum_sort_key by (rule sum_filter_zero) (use short in simp)
  also have "map second_part ?z = map (\<lambda>(i, s). i * s) (zip jdx strides)"
    using assms(1) len by (intro nth_equalityI) simp_all
  finally show "sum_list (map second_part (axis_pairs shape strides idx jdx)) = element_offset strides jdx"
    by (simp add: element_offset_def)
qed

lemma same_offset_same_index:
  assumes "length strides = length shape" "in_shape shape idx" "in_shape shape jdx"
    "pack_axes (map fst (axis_pairs shape strides idx jdx)) 1 = Inr extent" "element_offset strides idx = element_offset strides jdx"
  shows "idx = jdx"
proof (rule nth_equalityI)
  have len: "length idx = length shape" "length jdx = length shape" using assms by (simp_all add: in_shape_def)
  then show "length idx = length jdx" by simp
  have same: "\<forall>x\<in>set (axis_pairs shape strides idx jdx). fst (snd x) = snd (snd x)"
    using pack_unique [OF assms(4) axis_pairs_fit [OF assms(2,3)], of 0 0] axis_pairs_offset [OF assms(1-3)] assms(5) by simp
  fix k assume "k < length idx"
  then have k: "k < length shape" using len by simp
  have lt: "idx ! k < shape ! k" "jdx ! k < shape ! k" using assms(2,3) k by (simp_all add: in_shape_def)
  show "idx ! k = jdx ! k"
  proof (cases "shape ! k > 1")
    case True
    have "((shape ! k, strides ! k), (idx ! k, jdx ! k)) \<in> set (zip (zip shape strides) (zip idx jdx))"
      using k len assms(1) by (auto simp: set_zip intro!: exI [of _ k])
    with True have "((shape ! k, strides ! k), (idx ! k, jdx ! k)) \<in> set (axis_pairs shape strides idx jdx)"
      by (simp add: axis_pairs_def)
    with same show ?thesis by fastforce
  next
    case False
    with lt show ?thesis by simp
  qed
qed


section \<open>What construction accepts\<close>

lemma prod_list_pos: "0 \<notin> set ds \<Longrightarrow> 0 < prod_list ds" for ds :: "nat list"
  by (induction ds) auto

lemma try_product_eq:
  "0 \<notin> set ds \<Longrightarrow> n \<le> usize_MAX \<Longrightarrow> try_product n ds = (if n * prod_list ds \<le> usize_MAX then Some (n * prod_list ds) else None)"
proof (induction ds arbitrary: n)
  case (Cons d ds)
  have le: "n * d \<le> n * (d * prod_list ds)" using prod_list_pos [of ds] Cons.prems(1) by (cases "prod_list ds") simp_all
  show ?case
  proof (cases "n * d \<le> usize_MAX")
    case True
    with Cons show ?thesis by (simp add: checked_mul_def mult.assoc)
  next
    case False
    with le have "\<not> n * (d * prod_list ds) \<le> usize_MAX" by linarith
    with False show ?thesis by (simp add: checked_mul_def)
  qed
qed simp

lemma strided_Inr:
  assumes "strided dt shape strides = Inr d"
  shows "length strides = length shape" "td_dtype d = dt" "td_shape d = shape" "td_strides d = strides" "td_bytes d \<le> isize_MAX"
    "td_elements d = prod_list shape"
    "0 \<in> set shape \<Longrightarrow> td_bytes d = 0"
    "0 \<notin> set shape \<Longrightarrow> \<exists>extent. pack_axes (long_axes shape strides) 1 = Inr extent \<and> td_bytes d = extent * dtype_bytes dt"
proof -
  show "td_elements d = prod_list shape"
  proof (cases "0 \<in> set shape")
    case True
    then have "prod_list shape = 0" by (simp add: prod_list_zero_iff)
    with True assms show ?thesis by (auto simp: strided_def Let_def split: if_splits sum.splits option.splits)
  next
    case False
    with assms try_product_eq [of shape 1] show ?thesis
      by (auto simp: strided_def Let_def usize_MAX_def split: if_splits sum.splits option.splits)
  qed
qed (use assms in \<open>auto simp: strided_def Let_def split: if_splits sum.splits option.splits\<close>)

text \<open>Row-major strides: each is the product of the dimensions behind it.\<close>

fun suffix_products :: "usize list \<Rightarrow> usize list" where
  "suffix_products [] = []"
| "suffix_products (d # ds) = prod_list ds # suffix_products ds"

lemma length_suffix_products [simp]: "length (suffix_products ds) = length ds"
  by (induction ds) simp_all

lemma row_major_eq:
  "0 \<notin> set ds \<Longrightarrow> row_major ds = (if prod_list ds \<le> usize_MAX then Inr (suffix_products ds, prod_list ds) else Inl (Message ''tensor stride overflow''))"
proof (induction ds)
  case (Cons d ds)
  have le: "prod_list ds \<le> d * prod_list ds" and d: "max d 1 = d" using Cons.prems by (cases d; simp)+
  show ?case
  proof (cases "prod_list ds \<le> usize_MAX")
    case True
    with Cons d show ?thesis by (simp add: checked_mul_def mult.commute)
  next
    case False
    with le have "\<not> d * prod_list ds \<le> usize_MAX" by linarith
    with False Cons show ?thesis by simp
  qed
qed (simp add: usize_MAX_def)

lemma suffix_product_less:
  assumes "(d, s) \<in> set (zip ds (suffix_products ds))" "1 < d" "0 \<notin> set ds"
  shows "s < prod_list ds"
  using assms
proof (induction ds)
  case (Cons c ds)
  have pos: "0 < prod_list ds" using prod_list_pos Cons.prems(3) by auto
  show ?case
  proof (cases "(d, s) = (c, prod_list ds)")
    case True
    with Cons.prems(2) pos show ?thesis by simp
  next
    case False
    with Cons have "s < prod_list ds" by auto
    also have "\<dots> \<le> c * prod_list ds" using Cons.prems(3) by (cases c) simp_all
    finally show ?thesis by simp
  qed
qed simp

lemma long_axes_row_major:
  assumes "0 \<notin> set ds"
  shows "long_axes ds (suffix_products ds) = rev (filter (\<lambda>a. fst a > 1) (zip ds (suffix_products ds)))"
proof -
  let ?axes = "\<lambda>ds. filter (\<lambda>a. fst a > 1) (zip ds (suffix_products ds))"
  have desc: "sorted_wrt (>) (map snd (?axes ds))" using assms
  proof (induction ds)
    case (Cons d ds)
    then show ?case using suffix_product_less [of _ _ ds] by auto
  qed simp
  then have "distinct (map snd (?axes ds))" by (metis distinct_rev rev_map sorted_wrt_rev strict_sorted_iff)
  then have "inj_on snd (set (?axes ds))" by (simp add: distinct_map)
  moreover have "sorted (map snd (rev (?axes ds)))"
    using desc by (metis rev_map sorted_wrt_rev strict_sorted_imp_sorted)
  ultimately show ?thesis unfolding long_axes_def by (intro sort_key_inj_key_eq) simp_all
qed

lemma pack_axes_append:
  "pack_axes (xs @ ys) e = (case pack_axes xs e of Inl err \<Rightarrow> Inl err | Inr e' \<Rightarrow> pack_axes ys e')"
  by (induction xs e rule: pack_axes.induct) (auto split: option.splits)

lemma pack_row_major:
  "0 \<notin> set ds \<Longrightarrow> prod_list ds \<le> usize_MAX \<Longrightarrow> pack_axes (rev (filter (\<lambda>a. fst a > 1) (zip ds (suffix_products ds)))) 1 = Inr (prod_list ds)"
proof (induction ds)
  case (Cons d ds)
  obtain k where d: "d = Suc k" using Cons.prems(1) by (cases d) auto
  have "prod_list ds \<le> usize_MAX" using Cons.prems(2) d by simp
  with Cons d show ?case by (auto simp: pack_axes_append checked_mul_def checked_add_def)
qed simp

lemma contiguous_row_major:
  "0 \<notin> set ds \<Longrightarrow> prod_list ds \<le> usize_MAX \<Longrightarrow> contiguous_stride (zip ds (suffix_products ds)) = Some (prod_list ds)"
proof (induction ds)
  case (Cons d ds)
  obtain k where d: "d = Suc k" using Cons.prems(1) by (cases d) auto
  with Cons show ?case by (auto simp: checked_mul_def mult.commute max_def)
qed simp

lemma suffix_products_pos: "0 \<notin> set ds \<Longrightarrow> 0 \<notin> set (suffix_products ds)"
  by (induction ds) (auto simp: prod_list_zero_iff)

lemma tensor_new_eq:
  assumes "0 \<notin> set shape"
  shows "tensor_new dt shape = (if prod_list shape > usize_MAX then Inl (Message ''tensor stride overflow'')
     else if prod_list shape * dtype_bytes dt > isize_MAX then Inl (Message ''tensor byte extent overflow'')
     else Inr \<lparr>td_dtype = dt, td_shape = shape, td_strides = suffix_products shape, td_layout = General,
        td_elements = prod_list shape, td_bytes = prod_list shape * dtype_bytes dt\<rparr>)"
proof (cases "prod_list shape \<le> usize_MAX")
  case True
  have "try_product 1 shape = Some (prod_list shape)" using try_product_eq [OF assms, of 1] True by (simp add: usize_MAX_def)
  moreover have "pack_axes (long_axes shape (suffix_products shape)) 1 = Inr (prod_list shape)"
    using long_axes_row_major [OF assms] pack_row_major [OF assms True] by simp
  moreover have "row_major shape = Inr (suffix_products shape, prod_list shape)" using row_major_eq [OF assms] True by simp
  moreover have "isize_MAX \<le> usize_MAX" by (simp add: usize_MAX_def isize_MAX_def)
  ultimately show ?thesis
    using True assms suffix_products_pos [OF assms] by (simp add: tensor_new_def strided_def checked_mul_def)
next
  case False
  with assms row_major_eq [OF assms] show ?thesis by (simp add: tensor_new_def)
qed


section \<open>Properties\<close>

text \<open>
  C37: accepted descriptors address memory safely. When a strided descriptor is accepted, every index of its shape lies
  inside the byte extent, different indices never share an element, the element count is the product of
  the dimensions without overflow, and the extent is tight: unless the tensor is empty some index ends exactly at it.
  A contiguous descriptor is accepted exactly when its bytes fit the address space, and is then contiguous
  with no gaps.
\<close>

theorem tensor_layout_sound:
  assumes "strided dt shape strides = Inr d"
  shows "(\<forall>idx. in_shape shape idx \<longrightarrow> (element_offset strides idx + 1) * dtype_bytes dt \<le> td_bytes d)
    \<and> (\<forall>idx jdx. in_shape shape idx \<and> in_shape shape jdx \<and> element_offset strides idx = element_offset strides jdx \<longrightarrow> idx = jdx)
    \<and> td_elements d = prod_list shape \<and> td_bytes d \<le> isize_MAX
    \<and> (0 \<notin> set shape \<longrightarrow> (\<exists>idx. in_shape shape idx \<and> (element_offset strides idx + 1) * dtype_bytes dt = td_bytes d))
    \<and> (\<forall>dt' shape'. 0 \<notin> set shape' \<longrightarrow>
         (\<exists>c. tensor_new dt' shape' = Inr c \<and> is_contiguous c \<and> td_bytes c = prod_list shape' * dtype_bytes dt')
           = (prod_list shape' * dtype_bytes dt' \<le> isize_MAX))"
proof (intro conjI allI impI)
  note d = strided_Inr [OF assms]
  show "td_elements d = prod_list shape" "td_bytes d \<le> isize_MAX" using d by simp_all
  have nonempty: "0 \<notin> set shape" if "in_shape shape idx" for idx
    using that by (metis in_shape_def in_set_conv_nth not_less_zero)
  have pair: "pack_axes (map fst (axis_pairs shape strides idx jdx)) 1 = Inr (td_bytes d div dtype_bytes dt) \<and>
      td_bytes d = td_bytes d div dtype_bytes dt * dtype_bytes dt"
    if "in_shape shape idx" "in_shape shape jdx" for idx jdx
    using d(8) [OF nonempty [OF that(1)]] axis_pairs_axes [OF d(1), of idx jdx] that
    by (cases dt) (auto simp: in_shape_def)
  show "(element_offset strides idx + 1) * dtype_bytes dt \<le> td_bytes d" if i: "in_shape shape idx" for idx
  proof -
    have "0 + element_offset strides idx < td_bytes d div dtype_bytes dt"
      using pack_bound [OF conjunct1 [OF pair [OF i i]] axis_pairs_fit [OF i i], of 0] axis_pairs_offset(1) [OF d(1) i i] by simp
    then show ?thesis using pair [OF i i] by (metis Suc_eq_plus1 Suc_leI add_0 mult_le_mono1)
  qed
  show "idx = jdx" if ij: "in_shape shape idx \<and> in_shape shape jdx \<and> element_offset strides idx = element_offset strides jdx" for idx jdx
    by (rule same_offset_same_index [OF d(1) _ _ conjunct1 [OF pair]]) (use ij in simp_all)
  show "\<exists>idx. in_shape shape idx \<and> (element_offset strides idx + 1) * dtype_bytes dt = td_bytes d" if z: "0 \<notin> set shape"
  proof -
    let ?idx = "map (\<lambda>n. n - 1) shape"
    have i: "in_shape shape ?idx" using z by (auto simp: in_shape_def in_set_conv_nth)
    have "\<forall>x\<in>set (axis_pairs shape strides ?idx ?idx). fst (snd x) = fst (fst x) - 1"
      by (auto simp: axis_pairs_def set_zip)
    from pack_exact [OF conjunct1 [OF pair [OF i i]] this] axis_pairs_offset(1) [OF d(1) i i]
    have "element_offset strides ?idx + 1 = td_bytes d div dtype_bytes dt" by simp
    with pair [OF i i] i show ?thesis by metis
  qed
  show "(\<exists>c. tensor_new dt' shape' = Inr c \<and> is_contiguous c \<and> td_bytes c = prod_list shape' * dtype_bytes dt')
      = (prod_list shape' * dtype_bytes dt' \<le> isize_MAX)" if z: "0 \<notin> set shape'" for dt' shape'
  proof -
    have "prod_list shape' \<le> usize_MAX" if "prod_list shape' * dtype_bytes dt' \<le> isize_MAX"
      using that by (cases dt') (auto simp: usize_MAX_def isize_MAX_def)
    with z contiguous_row_major [OF z] show ?thesis by (auto simp: tensor_new_eq is_contiguous_def)
  qed
qed

theorem tensor_layout_sound_witness:
  "(element_offset [3, 1] [1, 2] + 1) * 4 \<le> (24 :: nat) \<and> element_offset [3, 1] [1, 2] \<noteq> element_offset [3, 1] [0, 2]"
proof -
  let ?d = "\<lparr>td_dtype = F32, td_shape = [2, 3], td_strides = [3, 1], td_layout = General, td_elements = 6, td_bytes = 24\<rparr>"
  have "strided F32 [2, 3] [3, 1] = Inr ?d" by (simp add: strided_def long_axes_def checked_mul_def checked_add_def usize_MAX_def isize_MAX_def)
  note p = tensor_layout_sound [OF this]
  have "in_shape [2, 3] [1, 2]" "in_shape [2, 3] [0, 2]" by (auto simp: in_shape_def less_Suc_eq)
  with p show ?thesis by fastforce
qed

end
