(* ===== verification/Inference_Slots.thy ===== *)
theory Inference_Slots
  imports Tensor_Desc
begin

text \<open>
  Bounded inference slots and transfer staging, \<^verbatim>\<open>src/src/inference.rs\<close>. A prepared model has a fixed list of
  slots; a slot is leased to one caller at a time and reused only when its last submission is complete. Completions are
  numbers, the set of complete ones is part of the state; whether a slot's graph is usable is
  answered by the runtime (\<open>ip_unusable\<close>). A lease is a shared pointer with a strong count: the slot handle, the inference
  and every exported output hold it. Each operation below is one critical section of the pool's lock.
\<close>


section \<open>Staging\<close>

record staging_entry =
  se_buffer :: buffer
  se_done :: nat

abbreviation se_bytes :: "staging_entry \<Rightarrow> usize" where
  "se_bytes x \<equiv> buffer_len (se_buffer x)"

definition STAGING_POOL_ENTRIES :: nat where
  "STAGING_POOL_ENTRIES = 32"

text \<open>The first position of the smallest reusable entry.\<close>

fun best_staging :: "nat set \<Rightarrow> usize \<Rightarrow> nat \<Rightarrow> staging_entry list \<Rightarrow> (nat \<times> usize) option" where
  "best_staging complete bytes i [] = None"
| "best_staging complete bytes i (x # xs) =
     (let rest = best_staging complete bytes (Suc i) xs
      in if bytes \<le> se_bytes x \<and> se_bytes x \<le> saturating_mul bytes 2 \<and> se_done x \<in> complete
         then (case rest of
                 None \<Rightarrow> Some (i, se_bytes x)
               | Some (j, n) \<Rightarrow> if se_bytes x \<le> n then Some (i, se_bytes x) else Some (j, n))
         else rest)"

definition staging_take :: "nat set \<Rightarrow> usize \<Rightarrow> staging_entry list \<Rightarrow> staging_entry option \<times> staging_entry list" where
  "staging_take complete bytes pool =
     (case best_staging complete bytes 0 pool of
        None \<Rightarrow> (None, pool)
      | Some (i, _) \<Rightarrow> (Some (pool ! i), swap_remove i pool))"

definition staging_recycle :: "staging_entry \<Rightarrow> staging_entry list \<Rightarrow> staging_entry list" where
  "staging_recycle x pool = (if length pool = STAGING_POOL_ENTRIES then vec_remove 0 pool else pool) @ [x]"

lemma best_staging_Some:
  "best_staging complete bytes i xs = Some (j, n) \<Longrightarrow>
     i \<le> j \<and> j < i + length xs \<and> n = se_bytes (xs ! (j - i)) \<and> bytes \<le> n \<and> n \<le> saturating_mul bytes 2 \<and> se_done (xs ! (j - i)) \<in> complete
     \<and> (\<forall>x\<in>set xs. bytes \<le> se_bytes x \<and> se_bytes x \<le> saturating_mul bytes 2 \<and> se_done x \<in> complete \<longrightarrow> n \<le> se_bytes x)"
proof (induction complete bytes i xs arbitrary: j n rule: best_staging.induct)
  case (2 complete bytes i x xs)
  let ?fit = "bytes \<le> se_bytes x \<and> se_bytes x \<le> saturating_mul bytes 2 \<and> se_done x \<in> complete"
  have shift: "i \<le> j \<and> j < i + length (x # xs) \<and> (x # xs) ! (j - i) = xs ! (j - Suc i)" if "Suc i \<le> j" "j < Suc i + length xs" for j
    using that by (auto simp: nth_Cons split: nat.splits) (metis Suc_diff_Suc Suc_le_lessD diff_Suc_Suc nat.inject)
  show ?case
  proof (cases "best_staging complete bytes (Suc i) xs")
    case None
    moreover have "\<not> (bytes \<le> se_bytes y \<and> se_bytes y \<le> saturating_mul bytes 2 \<and> se_done y \<in> complete)" if "y \<in> set xs" for y
      using None that
    proof (induction xs arbitrary: i)
      case (Cons z zs)
      then show ?case by (auto simp: Let_def split: if_splits option.splits prod.splits)
    qed simp
    ultimately show ?thesis using "2.prems" by (auto simp: Let_def split: if_splits)
  next
    case (Some r)
    obtain k m where r: "r = (k, m)" by (cases r)
    note ih = "2.IH" [OF Some [unfolded r]]
    note s = shift [of k]
    show ?thesis
    proof (cases "?fit \<and> se_bytes x \<le> m")
      case True
      then have "j = i" "n = se_bytes x" using "2.prems" Some r by (auto simp: Let_def)
      with True ih show ?thesis by auto
    next
      case False
      then have "j = k" "n = m" using "2.prems" Some r by (auto simp: Let_def split: if_splits)
      with False ih s show ?thesis by auto
    qed
  qed
qed simp

text \<open>A reused buffer is big enough, at most twice as big, the smallest such, and no copy still uses it; the pool stays bounded.\<close>

lemma staging_take_idle:
  assumes "staging_take complete bytes pool = (Some x, pool')"
  shows "x \<in> set pool" "bytes \<le> se_bytes x" "se_bytes x \<le> saturating_mul bytes 2" "se_done x \<in> complete"
    "\<forall>y\<in>set pool. bytes \<le> se_bytes y \<and> se_bytes y \<le> saturating_mul bytes 2 \<and> se_done y \<in> complete \<longrightarrow> se_bytes x \<le> se_bytes y"
    "length pool' < length pool"
proof -
  from assms obtain i n where i: "best_staging complete bytes 0 pool = Some (i, n)" "x = pool ! i" "pool' = swap_remove i pool"
    by (auto simp: staging_take_def split: option.splits prod.splits)
  note b = best_staging_Some [OF i(1)]
  show "x \<in> set pool" "bytes \<le> se_bytes x" "se_bytes x \<le> saturating_mul bytes 2" "se_done x \<in> complete"
    "\<forall>y\<in>set pool. bytes \<le> se_bytes y \<and> se_bytes y \<le> saturating_mul bytes 2 \<and> se_done y \<in> complete \<longrightarrow> se_bytes x \<le> se_bytes y"
    "length pool' < length pool"
    using b i(2,3) by auto
qed

lemma staging_recycle_bounded:
  "length pool \<le> STAGING_POOL_ENTRIES \<Longrightarrow> length (staging_recycle x pool) \<le> STAGING_POOL_ENTRIES"
  by (auto simp: staging_recycle_def vec_remove_def STAGING_POOL_ENTRIES_def)



section \<open>Preparing a model\<close>

record inference_graph =
  ig_inputs :: "device_tensor list"
  ig_outputs :: "device_tensor list"

definition slot_tensors :: "inference_graph \<Rightarrow> device_tensor list" where
  "slot_tensors g = ig_inputs g @ ig_outputs g"

definition context_validate :: "nat \<Rightarrow> device_tensor \<Rightarrow> unit result" where
  "context_validate runtime t =
     (if dt_runtime t \<noteq> runtime then Inl (Message ''tensor belongs to another model context'') else Inr ())"

definition slot_bindings :: "inference_graph list \<Rightarrow> buffer_view list" where
  "slot_bindings gs = List.map_filter tensor_binding (concat (map slot_tensors gs))"

text \<open>\<open>wait\<close> is what waiting for a producer returns.\<close>

definition check_tensor :: "nat \<Rightarrow> (nat \<Rightarrow> unit result) \<Rightarrow> inference_graph list \<Rightarrow> device_tensor \<Rightarrow> unit result" where
  "check_tensor runtime wait slots t =
     and_then (context_validate runtime t) (\<lambda>_. and_then (wait (dt_producer t)) (\<lambda>_.
       case tensor_binding t of
         None \<Rightarrow> Inr ()
       | Some v \<Rightarrow> if \<exists>old\<in>set (slot_bindings slots). overlaps v old
                   then Inl (Message ''inference slots share writable IO'') else Inr ()))"

definition same_descs :: "device_tensor list \<Rightarrow> device_tensor list \<Rightarrow> bool" where
  "same_descs xs ys \<longleftrightarrow> map dt_desc xs = map dt_desc ys"

definition check_slot :: "nat \<Rightarrow> (nat \<Rightarrow> unit result) \<Rightarrow> inference_graph list \<Rightarrow> inference_graph \<Rightarrow> unit result" where
  "check_slot runtime wait slots g =
     and_then (try_all (check_tensor runtime wait slots) (slot_tensors g)) (\<lambda>_.
       case slots of
         [] \<Rightarrow> Inr ()
       | first # _ \<Rightarrow>
           if \<not> same_descs (ig_inputs g) (ig_inputs first) \<or> \<not> same_descs (ig_outputs g) (ig_outputs first)
           then Inl (Message ''inference slot descriptors differ'') else Inr ())"

text \<open>\<open>build\<close> gives the result of the model's builder for each slot in turn, with the validation of its graph against the runtime.\<close>

fun prepare_slots ::
  "nat \<Rightarrow> (nat \<Rightarrow> unit result) \<Rightarrow> (nat \<Rightarrow> inference_graph result) \<Rightarrow> nat \<Rightarrow> nat \<Rightarrow> inference_graph list \<Rightarrow> inference_graph list result" where
  "prepare_slots runtime wait build i 0 slots = Inr slots"
| "prepare_slots runtime wait build i (Suc n) slots =
     and_then (build i) (\<lambda>g. and_then (check_slot runtime wait slots g) (\<lambda>_.
       prepare_slots runtime wait build (Suc i) n (slots @ [g])))"

definition model_prepare :: "nat \<Rightarrow> (nat \<Rightarrow> unit result) \<Rightarrow> (nat \<Rightarrow> inference_graph result) \<Rightarrow> nat \<Rightarrow> inference_graph list result" where
  "model_prepare runtime wait build capacity =
     (if capacity = 0 then Inl (Message ''inference capacity must be nonzero'')
      else prepare_slots runtime wait build 0 capacity [])"


section \<open>Slots\<close>

record slot_state =
  sl_leased :: bool
  sl_completion :: "nat option"

record ipool =
  ip_slots :: "slot_state list"
  ip_wakers :: "nat list"
  ip_complete :: "nat set"
  ip_unusable :: "nat \<Rightarrow> error option"
  ip_leases :: "nat \<Rightarrow> (nat \<times> nat) option"
  ip_observers :: "(nat \<times> nat) list"
  ip_woken :: "nat list"

definition pool_new :: "nat \<Rightarrow> (nat \<Rightarrow> error option) \<Rightarrow> ipool" where
  "pool_new capacity unusable =
     \<lparr>ip_slots = replicate capacity \<lparr>sl_leased = False, sl_completion = None\<rparr>, ip_wakers = [], ip_complete = {}, ip_unusable = unusable,
      ip_leases = (\<lambda>_. None), ip_observers = [], ip_woken = []\<rparr>"

definition drained :: "ipool \<Rightarrow> slot_state \<Rightarrow> bool" where
  "drained p s \<longleftrightarrow> \<not> sl_leased s \<and> (case sl_completion s of None \<Rightarrow> True | Some c \<Rightarrow> c \<in> ip_complete p)"

definition is_idle :: "ipool \<Rightarrow> bool" where
  "is_idle p \<longleftrightarrow> (\<forall>s\<in>set (ip_slots p). drained p s)"

fun acquire_scan :: "ipool \<Rightarrow> nat \<Rightarrow> slot_state list \<Rightarrow> error option \<Rightarrow> nat option \<times> error option" where
  "acquire_scan p i [] failure = (None, failure)"
| "acquire_scan p i (s # ss) failure =
     (if \<not> drained p s then acquire_scan p (Suc i) ss failure
      else case ip_unusable p i of
        Some e \<Rightarrow> acquire_scan p (Suc i) ss (Some e)
      | None \<Rightarrow> (Some i, failure))"

definition busy_slots :: error where
  "busy_slots = Busy ''all inference slots are retained or running''"

text \<open>\<open>lease\<close> names the new shared lease, of strong count one.\<close>

definition acquire_locked :: "nat \<Rightarrow> ipool \<Rightarrow> nat result \<times> ipool" where
  "acquire_locked lease p =
     (case acquire_scan p 0 (ip_slots p) None of
        (Some i, _) \<Rightarrow>
          (Inr i, p\<lparr>ip_slots := (ip_slots p)[i := \<lparr>sl_leased = True, sl_completion = None\<rparr>],
                    ip_leases := (ip_leases p)(lease \<mapsto> (i, 1))\<rparr>)
      | (None, failure) \<Rightarrow>
          (case failure of
             Some e \<Rightarrow> if is_idle p then (Inl e, p) else (Inl busy_slots, p)
           | None \<Rightarrow> (Inl busy_slots, p)))"

datatype 'a slot_poll = Ready 'a | Pending

text \<open>
  \<^verbatim>\<open>AcquireSlot::poll\<close>: a busy pool registers the waker with every incomplete submission of an unleased slot and once with the pool; a
  submission found complete wakes at once.
\<close>

definition unleased_completions :: "ipool \<Rightarrow> nat list" where
  "unleased_completions p = List.map_filter sl_completion (filter (\<lambda>s. \<not> sl_leased s) (ip_slots p))"

definition poll_acquire :: "nat \<Rightarrow> nat \<Rightarrow> ipool \<Rightarrow> nat result slot_poll \<times> ipool" where
  "poll_acquire lease waker p =
     (case acquire_locked lease p of
        (Inr i, p') \<Rightarrow> (Ready (Inr i), p')
      | (Inl (Busy text), p') \<Rightarrow>
          let cs = unleased_completions p';
              p1 = p'\<lparr>ip_observers := ip_observers p' @ map (\<lambda>c. (c, waker)) (filter (\<lambda>c. c \<notin> ip_complete p') cs)\<rparr>;
              p2 = (if \<exists>c\<in>set cs. c \<in> ip_complete p' then p1\<lparr>ip_woken := ip_woken p1 @ [waker]\<rparr> else p1)
          in (Pending, if waker \<in> set (ip_wakers p2) then p2 else p2\<lparr>ip_wakers := ip_wakers p2 @ [waker]\<rparr>)
      | (Inl e, p') \<Rightarrow> (Ready (Inl e), p'))"

text \<open>
  One turn of \<^verbatim>\<open>acquire_blocking\<close>: done, wait for a submission of an unleased slot, or wait for a change of the pool.
\<close>

datatype blocking_turn = Finished "nat result" | AwaitCompletion nat | AwaitChange

definition blocking_step :: "nat \<Rightarrow> ipool \<Rightarrow> blocking_turn \<times> ipool" where
  "blocking_step lease p =
     (case acquire_locked lease p of
        (Inr i, p') \<Rightarrow> (Finished (Inr i), p')
      | (Inl (Busy text), p') \<Rightarrow>
          (case find (\<lambda>c. c \<notin> ip_complete p') (unleased_completions p') of
             Some c \<Rightarrow> (AwaitCompletion c, p')
           | None \<Rightarrow> (AwaitChange, p'))
      | (Inl e, p') \<Rightarrow> (Finished (Inl e), p'))"

definition lease_clone :: "nat \<Rightarrow> ipool \<Rightarrow> ipool" where
  "lease_clone lease p =
     (case ip_leases p lease of
        None \<Rightarrow> p
      | Some (i, n) \<Rightarrow> p\<lparr>ip_leases := (ip_leases p)(lease \<mapsto> (i, Suc n))\<rparr>)"

text \<open>Dropping the last reference runs \<^verbatim>\<open>Lease::drop\<close>.\<close>

definition lease_drop :: "nat \<Rightarrow> ipool \<Rightarrow> ipool" where
  "lease_drop lease p =
     (case ip_leases p lease of
        None \<Rightarrow> p
      | Some (i, n) \<Rightarrow>
          if n > 1 then p\<lparr>ip_leases := (ip_leases p)(lease \<mapsto> (i, n - 1))\<rparr>
          else p\<lparr>ip_slots := (ip_slots p)[i := (ip_slots p ! i)\<lparr>sl_leased := False\<rparr>],
                 ip_leases := (ip_leases p)(lease := None),
                 ip_woken := ip_woken p @ ip_wakers p, ip_wakers := []\<rparr>)"

definition set_completion :: "nat \<Rightarrow> nat \<Rightarrow> ipool \<Rightarrow> ipool" where
  "set_completion lease c p =
     (case ip_leases p lease of
        None \<Rightarrow> p
      | Some (i, n) \<Rightarrow> p\<lparr>ip_slots := (ip_slots p)[i := (ip_slots p ! i)\<lparr>sl_completion := Some c\<rparr>]\<rparr>)"

text \<open>
  \<^verbatim>\<open>ModelSlot::execute\<close> after the graph was submitted: the slot remembers the submission and every output shares the lease.
  A submission that failed drops the handle's lease.
\<close>

definition slot_execute :: "nat \<Rightarrow> nat result \<Rightarrow> nat \<Rightarrow> ipool \<Rightarrow> nat result \<times> ipool" where
  "slot_execute lease submitted outputs p =
     (case submitted of
        Inl e \<Rightarrow> (Inl e, lease_drop lease p)
      | Inr c \<Rightarrow> (Inr c, (lease_clone lease ^^ outputs) (set_completion lease c p)))"

text \<open>
  The transfer before it (upload of host inputs or copy of device inputs): \<open>None\<close> when nothing has to be copied, else the
  result of its submission; the graph itself is then submitted after it.
\<close>

definition slot_submit :: "nat \<Rightarrow> nat result option \<Rightarrow> nat result \<Rightarrow> nat \<Rightarrow> ipool \<Rightarrow> nat result \<times> ipool" where
  "slot_submit lease transfer submitted outputs p =
     (case transfer of
        None \<Rightarrow> slot_execute lease submitted outputs p
      | Some (Inl e) \<Rightarrow> (Inl e, lease_drop lease p)
      | Some (Inr t) \<Rightarrow> slot_execute lease submitted outputs (set_completion lease t p))"

text \<open>\<^verbatim>\<open>Inference::download\<close>: the outputs are dropped and the lease moves to the readback.\<close>

definition inference_download :: "nat \<Rightarrow> nat result \<Rightarrow> nat \<Rightarrow> ipool \<Rightarrow> nat result \<times> ipool" where
  "inference_download lease copied outputs p =
     (let p1 = (case copied of Inl e \<Rightarrow> lease_drop lease p | Inr c \<Rightarrow> set_completion lease c p)
      in (copied, (lease_drop lease ^^ outputs) p1))"

definition complete_submission :: "nat \<Rightarrow> ipool \<Rightarrow> ipool" where
  "complete_submission c p = p\<lparr>ip_complete := insert c (ip_complete p),
     ip_woken := ip_woken p @ map snd (filter (\<lambda>x. fst x = c) (ip_observers p)),
     ip_observers := filter (\<lambda>x. fst x \<noteq> c) (ip_observers p)\<rparr>"



section \<open>Prepared slots are disjoint\<close>

lemma slot_bindings_iff: "v \<in> set (slot_bindings gs) \<longleftrightarrow> (\<exists>g\<in>set gs. \<exists>t\<in>set (slot_tensors g). tensor_binding t = Some v)"
  by (force simp: slot_bindings_def List.map_filter_def)

definition slots_disjoint :: "inference_graph list \<Rightarrow> bool" where
  "slots_disjoint gs \<longleftrightarrow> (\<forall>i<length gs. \<forall>j<i. \<forall>v\<in>set (slot_bindings [gs ! i]). \<forall>w\<in>set (slot_bindings [gs ! j]). \<not> overlaps v w)"

lemma check_slot_disjoint:
  assumes "check_slot runtime wait slots g = Inr ()"
  shows "\<forall>v\<in>set (slot_bindings [g]). \<forall>w\<in>set (slot_bindings slots). \<not> overlaps v w"
    "\<forall>first\<in>set (take 1 slots). map dt_desc (ig_inputs g) = map dt_desc (ig_inputs first) \<and> map dt_desc (ig_outputs g) = map dt_desc (ig_outputs first)"
proof -
  from assms have all: "\<forall>t\<in>set (slot_tensors g). check_tensor runtime wait slots t = Inr ()"
    by (auto simp: check_slot_def and_then_Inr_iff try_all_ok)
  show "\<forall>v\<in>set (slot_bindings [g]). \<forall>w\<in>set (slot_bindings slots). \<not> overlaps v w"
  proof (intro ballI)
    fix v w assume v: "v \<in> set (slot_bindings [g])" and w: "w \<in> set (slot_bindings slots)"
    from v obtain t where "t \<in> set (slot_tensors g)" "tensor_binding t = Some v" by (auto simp: slot_bindings_iff)
    with all w show "\<not> overlaps v w" by (force simp: check_tensor_def and_then_Inr_iff split: if_splits)
  qed
  show "\<forall>first\<in>set (take 1 slots). map dt_desc (ig_inputs g) = map dt_desc (ig_inputs first) \<and> map dt_desc (ig_outputs g) = map dt_desc (ig_outputs first)"
    using assms by (cases slots) (auto simp: check_slot_def and_then_Inr_iff same_descs_def split: if_splits)
qed

lemma prepare_slots_disjoint:
  "prepare_slots runtime wait build i n slots = Inr gs \<Longrightarrow> slots_disjoint slots \<Longrightarrow> slots_disjoint gs \<and> length gs = length slots + n"
proof (induction runtime wait build i n slots rule: prepare_slots.induct)
  case (2 runtime wait build i n slots)
  then obtain g where g: "build i = Inr g" "check_slot runtime wait slots g = Inr ()"
      "prepare_slots runtime wait build (Suc i) n (slots @ [g]) = Inr gs" by (auto simp: and_then_Inr_iff)
  have "w \<in> set (slot_bindings slots)" if "j < length slots" "w \<in> set (slot_bindings [slots ! j])" for j w
    using that by (auto simp: slot_bindings_iff)
  then have "slots_disjoint (slots @ [g])"
    using "2.prems"(2) check_slot_disjoint(1) [OF g(2)] by (auto simp: slots_disjoint_def nth_append less_Suc_eq)
  with "2.IH" [OF g(3)] show ?case by simp
qed simp

text \<open>A prepared model has the requested number of slots, and no two of them share input or output storage.\<close>

lemma model_prepare_disjoint:
  "model_prepare runtime wait build capacity = Inr gs \<Longrightarrow> 0 < capacity \<and> length gs = capacity \<and> slots_disjoint gs"
  using prepare_slots_disjoint [of runtime wait build 0 capacity "[]" gs]
  by (auto simp: model_prepare_def slots_disjoint_def split: if_splits)


section \<open>Acquisition\<close>

definition grantable :: "ipool \<Rightarrow> nat \<Rightarrow> bool" where
  "grantable p i \<longleftrightarrow> i < length (ip_slots p) \<and> drained p (ip_slots p ! i) \<and> ip_unusable p i = None"

lemma acquire_scan_Some:
  "acquire_scan p k ss f = (Some i, f') \<Longrightarrow>
     k \<le> i \<and> i < k + length ss \<and> drained p (ss ! (i - k)) \<and> ip_unusable p i = None
     \<and> (\<forall>j<i - k. \<not> (drained p (ss ! j) \<and> ip_unusable p (k + j) = None))"
proof (induction p k ss f rule: acquire_scan.induct)
  case (2 p k s ss f)
  show ?case
  proof (cases "drained p s \<and> ip_unusable p k = None")
    case True
    then show ?thesis using "2.prems" by simp
  next
    case False
    then have "Suc k \<le> i \<and> i < Suc k + length ss \<and> drained p (ss ! (i - Suc k)) \<and> ip_unusable p i = None
        \<and> (\<forall>j<i - Suc k. \<not> (drained p (ss ! j) \<and> ip_unusable p (Suc k + j) = None))"
      using "2.prems" "2.IH" by (auto split: if_splits option.splits)
    moreover from this have "i - k = Suc (i - Suc k)" by linarith
    ultimately show ?thesis using False by (auto simp: less_Suc_eq_0_disj)
  qed
qed simp

lemma acquire_scan_None:
  "acquire_scan p k ss f = (None, f') \<Longrightarrow>
     (\<forall>j<length ss. \<not> (drained p (ss ! j) \<and> ip_unusable p (k + j) = None))
     \<and> (f' = None \<longrightarrow> f = None \<and> (\<forall>s\<in>set ss. \<not> drained p s))
     \<and> (\<forall>e. f' = Some e \<longrightarrow> f = Some e \<or> (\<exists>j<length ss. ip_unusable p (k + j) = Some e))"
proof (induction p k ss f rule: acquire_scan.induct)
  case (2 p k s ss f)
  have shift: "\<exists>j<length (s # ss). ip_unusable p (k + j) = Some e" if "\<exists>j<length ss. ip_unusable p (Suc k + j) = Some e" for e
    using that by (metis add_Suc_shift length_Cons not_less_eq)
  have all: "\<forall>j<length (s # ss). \<not> (drained p ((s # ss) ! j) \<and> ip_unusable p (k + j) = None)"
    if "\<not> (drained p s \<and> ip_unusable p k = None)" "\<forall>j<length ss. \<not> (drained p (ss ! j) \<and> ip_unusable p (Suc k + j) = None)"
    using that by (auto simp: less_Suc_eq_0_disj)
  show ?case
  proof (cases "drained p s")
    case False
    then have "acquire_scan p (Suc k) ss f = (None, f')" using "2.prems" by simp
    note ih = "2.IH"(1) [OF False this]
    show ?thesis
    proof (intro conjI)
      show "\<forall>j<length (s # ss). \<not> (drained p ((s # ss) ! j) \<and> ip_unusable p (k + j) = None)" using all ih False by blast
      show "f' = None \<longrightarrow> f = None \<and> (\<forall>s\<in>set (s # ss). \<not> drained p s)" using ih False by simp
      show "\<forall>e. f' = Some e \<longrightarrow> f = Some e \<or> (\<exists>j<length (s # ss). ip_unusable p (k + j) = Some e)" using ih shift by blast
    qed
  next
    case True
    then obtain x where x: "ip_unusable p k = Some x" using "2.prems" by (auto split: option.splits)
    then have sc: "acquire_scan p (Suc k) ss (Some x) = (None, f')" using "2.prems" True by simp
    have dd: "\<not> \<not> drained p s" using True by simp
    note ih = "2.IH"(2) [OF dd x sc]
    have here: "\<exists>j<length (s # ss). ip_unusable p (k + j) = Some x" by (rule exI [of _ 0]) (simp add: x)
    show ?thesis
    proof (intro conjI)
      show "\<forall>j<length (s # ss). \<not> (drained p ((s # ss) ! j) \<and> ip_unusable p (k + j) = None)" using all ih x by simp
      show "f' = None \<longrightarrow> f = None \<and> (\<forall>s\<in>set (s # ss). \<not> drained p s)" using ih by auto
      show "\<forall>e. f' = Some e \<longrightarrow> f = Some e \<or> (\<exists>j<length (s # ss). ip_unusable p (k + j) = Some e)"
      proof (intro allI impI disjI2)
        fix e assume "f' = Some e"
        with ih consider "x = e" | "\<exists>j<length ss. ip_unusable p (Suc k + j) = Some e" by blast
        then show "\<exists>j<length (s # ss). ip_unusable p (k + j) = Some e" using here shift [of e] by cases simp_all
      qed
    qed
  qed
qed simp

lemma acquire_locked_Inr:
  assumes "acquire_locked lease p = (Inr i, p')"
  shows "grantable p i" "\<forall>j<i. \<not> grantable p j"
    "p' = p\<lparr>ip_slots := (ip_slots p)[i := \<lparr>sl_leased = True, sl_completion = None\<rparr>], ip_leases := (ip_leases p)(lease \<mapsto> (i, 1))\<rparr>"
proof -
  from assms obtain f where sc: "acquire_scan p 0 (ip_slots p) None = (Some i, f)"
    and "p' = p\<lparr>ip_slots := (ip_slots p)[i := \<lparr>sl_leased = True, sl_completion = None\<rparr>], ip_leases := (ip_leases p)(lease \<mapsto> (i, 1))\<rparr>"
    by (auto simp: acquire_locked_def split: prod.splits option.splits if_splits)
  with acquire_scan_Some [OF sc] show "grantable p i" "\<forall>j<i. \<not> grantable p j"
    "p' = p\<lparr>ip_slots := (ip_slots p)[i := \<lparr>sl_leased = True, sl_completion = None\<rparr>], ip_leases := (ip_leases p)(lease \<mapsto> (i, 1))\<rparr>"
    by (auto simp: grantable_def)
qed

lemma acquire_locked_Inl:
  assumes "acquire_locked lease p = (Inl e, p')" "ip_slots p \<noteq> []"
  shows "p' = p" "\<forall>i. \<not> grantable p i" "\<not> is_idle p \<and> e = busy_slots \<or> is_idle p \<and> (\<exists>i<length (ip_slots p). ip_unusable p i = Some e)"
proof -
  from assms(1) obtain f where sc: "acquire_scan p 0 (ip_slots p) None = (None, f)" and eq: "p' = p"
    and e: "case f of Some x \<Rightarrow> e = (if is_idle p then x else busy_slots) | None \<Rightarrow> e = busy_slots"
    by (auto simp: acquire_locked_def split: prod.splits option.splits if_splits)
  note n = acquire_scan_None [OF sc]
  show "p' = p" by (rule eq)
  show "\<forall>i. \<not> grantable p i" using n by (auto simp: grantable_def)
  have "\<not> is_idle p" if "f = None" using n that assms(2) by (cases "ip_slots p") (auto simp: is_idle_def)
  then show "\<not> is_idle p \<and> e = busy_slots \<or> is_idle p \<and> (\<exists>i<length (ip_slots p). ip_unusable p i = Some e)"
    using e n by (cases f) (auto split: if_splits)
qed


section \<open>Leases\<close>

definition pool_ok :: "ipool \<Rightarrow> bool" where
  "pool_ok p \<longleftrightarrow>
     (\<forall>l i n. ip_leases p l = Some (i, n) \<longrightarrow> i < length (ip_slots p) \<and> 0 < n \<and> sl_leased (ip_slots p ! i))
     \<and> (\<forall>l l' i n n'. ip_leases p l = Some (i, n) \<and> ip_leases p l' = Some (i, n') \<longrightarrow> l = l')
     \<and> (\<forall>i<length (ip_slots p). sl_leased (ip_slots p ! i) \<longrightarrow> (\<exists>l n. ip_leases p l = Some (i, n)))"

lemma pool_ok_new [inv_intros]: "pool_ok (pool_new capacity unusable)"
  by (simp add: pool_ok_def pool_new_def)

lemma pool_okI:
  assumes "\<And>l i n. ip_leases p l = Some (i, n) \<Longrightarrow> i < length (ip_slots p) \<and> 0 < n \<and> sl_leased (ip_slots p ! i)"
    and "\<And>l l' i n n'. ip_leases p l = Some (i, n) \<Longrightarrow> ip_leases p l' = Some (i, n') \<Longrightarrow> l = l'"
    and "\<And>i. i < length (ip_slots p) \<Longrightarrow> sl_leased (ip_slots p ! i) \<Longrightarrow> \<exists>l n. ip_leases p l = Some (i, n)"
  shows "pool_ok p"
  using assms unfolding pool_ok_def by blast

lemma pool_okD:
  assumes "pool_ok p"
  shows "ip_leases p l = Some (i, n) \<Longrightarrow> i < length (ip_slots p)" "ip_leases p l = Some (i, n) \<Longrightarrow> 0 < n"
    "ip_leases p l = Some (i, n) \<Longrightarrow> sl_leased (ip_slots p ! i)"
    "ip_leases p l = Some (i, n) \<Longrightarrow> ip_leases p l' = Some (i, n') \<Longrightarrow> l = l'"
    "i < length (ip_slots p) \<Longrightarrow> sl_leased (ip_slots p ! i) \<Longrightarrow> \<exists>l n. ip_leases p l = Some (i, n)"
  using assms unfolding pool_ok_def by blast+

lemma pool_ok_acquire [inv_intros]:
  assumes "pool_ok p" "ip_leases p lease = None" "acquire_locked lease p = (r, p')"
  shows "pool_ok p'"
proof (cases r)
  case (Inr i)
  note a = acquire_locked_Inr [OF assms(3) [unfolded Inr]]
  have free: "\<not> sl_leased (ip_slots p ! i)" "i < length (ip_slots p)" using a(1) by (auto simp: grantable_def drained_def)
  have none: "ip_leases p l \<noteq> Some (i, n)" for l n using pool_okD(3) [OF assms(1)] free by blast
  have new: "ip_leases p' l = (if l = lease then Some (i, 1) else ip_leases p l)" for l by (simp add: a(3))
  have slots: "ip_slots p' = (ip_slots p)[i := \<lparr>sl_leased = True, sl_completion = None\<rparr>]" by (simp add: a(3))
  show ?thesis
  proof (rule pool_okI)
    fix l k n assume l: "ip_leases p' l = Some (k, n)"
    then show "k < length (ip_slots p') \<and> 0 < n \<and> sl_leased (ip_slots p' ! k)"
      using pool_okD(1-3) [OF assms(1), of l k n] free by (auto simp: new slots nth_list_update split: if_splits)
  next
    fix l l' k n n' assume "ip_leases p' l = Some (k, n)" "ip_leases p' l' = Some (k, n')"
    then show "l = l'" using pool_okD(4) [OF assms(1), of l k n l' n'] none by (auto simp: new split: if_splits)
  next
    fix k assume k: "k < length (ip_slots p')" "sl_leased (ip_slots p' ! k)"
    show "\<exists>l n. ip_leases p' l = Some (k, n)"
    proof (cases "k = i")
      case True
      then show ?thesis by (auto simp: new)
    next
      case False
      then obtain l n where l: "ip_leases p l = Some (k, n)" using k pool_okD(5) [OF assms(1), of k] by (auto simp: slots)
      moreover from l assms(2) have "l \<noteq> lease" by auto
      ultimately show ?thesis by (auto simp: new)
    qed
  qed
next
  case (Inl e)
  then have "p' = p" using assms(3) by (auto simp: acquire_locked_def split: prod.splits option.splits if_splits)
  with assms(1) show ?thesis by simp
qed

text \<open>Only the slots' lease marks and the leases matter to the invariant.\<close>

lemma pool_ok_cong:
  assumes "pool_ok p" "map sl_leased (ip_slots p') = map sl_leased (ip_slots p)" "ip_leases p' = ip_leases p"
  shows "pool_ok p'"
proof -
  have len: "length (ip_slots p') = length (ip_slots p)" using assms(2) map_eq_imp_length_eq by blast
  have "sl_leased (ip_slots p' ! i) = sl_leased (ip_slots p ! i)" if "i < length (ip_slots p)" for i
    using assms(2) that len by (metis nth_map)
  then show ?thesis using assms(1) unfolding pool_ok_def len assms(3) by blast
qed

lemma pool_ok_recount:
  assumes "pool_ok p" "ip_leases p lease = Some (i, n)" "0 < m"
  shows "pool_ok (p\<lparr>ip_leases := (ip_leases p)(lease \<mapsto> (i, m))\<rparr>)" (is "pool_ok ?q")
proof (rule pool_okI)
  have old: "\<exists>n'. ip_leases p l = Some (k, n')" if "ip_leases ?q l = Some (k, m')" for l k m'
    using that assms(2) by (auto split: if_splits)
  fix l l' k m1 m2 assume l: "ip_leases ?q l = Some (k, m1)" and l': "ip_leases ?q l' = Some (k, m2)"
  show "l = l'" using old [OF l] old [OF l'] pool_okD(4) [OF assms(1)] by blast
next
  fix l k m' assume l: "ip_leases ?q l = Some (k, m')"
  show "k < length (ip_slots ?q) \<and> 0 < m' \<and> sl_leased (ip_slots ?q ! k)"
  proof (cases "l = lease")
    case True
    then show ?thesis using l assms(3) pool_okD(1,3) [OF assms(1,2)] by simp
  next
    case False
    then have "ip_leases p l = Some (k, m')" using l by simp
    then show ?thesis using pool_okD(1-3) [OF assms(1), of l k m'] by simp
  qed
next
  fix k assume "k < length (ip_slots ?q)" "sl_leased (ip_slots ?q ! k)"
  then obtain l n' where l: "ip_leases p l = Some (k, n')" using pool_okD(5) [OF assms(1), of k] by auto
  show "\<exists>l n. ip_leases ?q l = Some (k, n)"
  proof (cases "l = lease")
    case True
    then show ?thesis using l assms(2) by auto
  next
    case False
    then have "ip_leases ?q l = Some (k, n')" using l by simp
    then show ?thesis by blast
  qed
qed

lemma pool_ok_clone [inv_intros]: "pool_ok p \<Longrightarrow> pool_ok (lease_clone lease p)"
  by (auto simp: lease_clone_def intro: pool_ok_recount split: option.splits)

lemma pool_ok_release:
  assumes "pool_ok p" "ip_leases p lease = Some (i, n)"
  shows "pool_ok (p\<lparr>ip_slots := (ip_slots p)[i := (ip_slots p ! i)\<lparr>sl_leased := False\<rparr>],
                  ip_leases := (ip_leases p)(lease := None), ip_woken := w, ip_wakers := []\<rparr>)" (is "pool_ok ?q")
proof (rule pool_okI)
  have old: "l \<noteq> lease \<and> ip_leases p l = Some (k, m)" if "ip_leases ?q l = Some (k, m)" for l k m
    using that by (auto split: if_splits)
  have other: "k \<noteq> i" if "ip_leases p l = Some (k, m)" "l \<noteq> lease" for l k m
    using pool_okD(4) [OF assms, of l m] that by auto
  fix l l' k m m' assume l: "ip_leases ?q l = Some (k, m)" and l': "ip_leases ?q l' = Some (k, m')"
  show "l = l'" using old [OF l] old [OF l'] pool_okD(4) [OF assms(1)] by blast
next
  fix l k m assume "ip_leases ?q l = Some (k, m)"
  then have l: "l \<noteq> lease" "ip_leases p l = Some (k, m)" by (auto split: if_splits)
  then have "k \<noteq> i" using pool_okD(4) [OF assms, of l m] by auto
  then show "k < length (ip_slots ?q) \<and> 0 < m \<and> sl_leased (ip_slots ?q ! k)"
    using pool_okD(1-3) [OF assms(1) l(2)] by simp
next
  fix k assume k: "k < length (ip_slots ?q)" "sl_leased (ip_slots ?q ! k)"
  then have ki: "k \<noteq> i" by (auto simp: nth_list_update split: if_splits)
  then obtain l m where l: "ip_leases p l = Some (k, m)" using k pool_okD(5) [OF assms(1), of k] by auto
  then have "l \<noteq> lease" using ki assms(2) by auto
  then have "ip_leases ?q l = Some (k, m)" using l by simp
  then show "\<exists>l m. ip_leases ?q l = Some (k, m)" by blast
qed

lemma slot_pool_ok_drop [inv_intros]: "pool_ok p \<Longrightarrow> pool_ok (lease_drop lease p)"
  by (auto simp: lease_drop_def intro!: pool_ok_recount pool_ok_release split: option.splits)

lemma map_update_same: "f x = f (xs ! i) \<Longrightarrow> map f (xs[i := x]) = map f xs"
  by (cases "i < length xs") (auto simp: map_update list_update_same_conv list_update_beyond)

lemma pool_ok_set_completion [inv_intros]: "pool_ok p \<Longrightarrow> pool_ok (set_completion lease c p)"
  by (erule pool_ok_cong) (auto simp: set_completion_def map_update_same split: option.splits)

lemma pool_ok_complete [inv_intros]: "pool_ok p \<Longrightarrow> pool_ok (complete_submission c p)"
  by (erule pool_ok_cong) (auto simp: complete_submission_def)


section \<open>Runs of the pool\<close>

text \<open>
  \<open>w i\<close> lists the submissions that used slot \<open>i\<close>, in order; \<open>d c\<close> are the completions submission \<open>c\<close> was submitted after; \<open>x\<close> are the
  submissions that were stopped: cancelled by an observer, or one of their dependencies failed. A step is one critical section: acquiring with
  a fresh lease, by \<^verbatim>\<open>try_acquire\<close> or a poll, sharing and dropping a lease, recording a submission, stopping one, its completion, and
  a change of which graphs are usable. The lease submits its transfer, its graph and its readback each after the one before. The scheduler finishes a stopped submission
  without waiting for its dependencies, any other one only after them.
\<close>

type_synonym slot_runs = "ipool \<times> (nat \<Rightarrow> nat list) \<times> nat set"

inductive pool_step :: "(nat \<Rightarrow> nat set) \<Rightarrow> slot_runs \<Rightarrow> slot_runs \<Rightarrow> bool" for d where
  acquire: "ip_leases p lease = None \<Longrightarrow> acquire_locked lease p = (r, p') \<Longrightarrow> pool_step d (p, w, x) (p', w, x)"
| poll: "ip_leases p lease = None \<Longrightarrow> poll_acquire lease waker p = (r, p') \<Longrightarrow> pool_step d (p, w, x) (p', w, x)"
| clone: "pool_step d (p, w, x) (lease_clone lease p, w, x)"
| drop: "pool_step d (p, w, x) (lease_drop lease p, w, x)"
| record_run: "ip_leases p lease = Some (i, n) \<Longrightarrow> (\<forall>t. sl_completion (ip_slots p ! i) = Some t \<longrightarrow> t = c \<or> t \<in> d c) \<Longrightarrow>
    pool_step d (p, w, x) (set_completion lease c p, w(i := w i @ [c]), x)"
| stop: "pool_step d (p, w, x) (p, w, insert c x)"
| complete: "c \<in> x \<or> d c \<subseteq> ip_complete p \<Longrightarrow> pool_step d (p, w, x) (complete_submission c p, w, x)"
| usable: "pool_step d (p, w, x) (p\<lparr>ip_unusable := u\<rparr>, w, x)"

text \<open>Each submission of a slot is complete or a dependency of the next one; a completed submission was stopped or its dependencies are complete.\<close>

definition slot_run_ok :: "ipool \<Rightarrow> slot_state \<Rightarrow> nat list \<Rightarrow> bool" where
  "slot_run_ok p s w \<longleftrightarrow>
     (sl_completion s = None \<longrightarrow> w = [] \<or> last w \<in> ip_complete p) \<and> (\<forall>c. sl_completion s = Some c \<longrightarrow> w \<noteq> [] \<and> last w = c)"

definition chained :: "(nat \<Rightarrow> nat set) \<Rightarrow> nat set \<Rightarrow> nat list \<Rightarrow> bool" where
  "chained d done_set w \<longleftrightarrow> (\<forall>k. Suc k < length w \<longrightarrow> w ! k \<in> done_set \<or> w ! k \<in> d (w ! Suc k) \<or> w ! k = w ! Suc k)"

definition slot_runs_ok :: "(nat \<Rightarrow> nat set) \<Rightarrow> slot_runs \<Rightarrow> bool" where
  "slot_runs_ok d s \<longleftrightarrow> (case s of (p, w, x) \<Rightarrow>
     (\<forall>i<length (ip_slots p). slot_run_ok p (ip_slots p ! i) (w i)) \<and> (\<forall>i. chained d (ip_complete p) (w i))
     \<and> (\<forall>c\<in>ip_complete p. c \<in> x \<or> d c \<subseteq> ip_complete p))"

lemma slot_runs_okI:
  assumes "\<And>i. i < length (ip_slots p) \<Longrightarrow> slot_run_ok p (ip_slots p ! i) (w i)" "\<And>i. chained d (ip_complete p) (w i)"
    "\<And>c. c \<in> ip_complete p \<Longrightarrow> c \<in> x \<or> d c \<subseteq> ip_complete p"
  shows "slot_runs_ok d (p, w, x)"
  using assms by (simp add: slot_runs_ok_def)

lemma slot_runs_okD:
  assumes "slot_runs_ok d (p, w, x)"
  shows "i < length (ip_slots p) \<Longrightarrow> slot_run_ok p (ip_slots p ! i) (w i)" "chained d (ip_complete p) (w i)"
    "c \<in> ip_complete p \<Longrightarrow> c \<in> x \<or> d c \<subseteq> ip_complete p"
  using assms by (auto simp: slot_runs_ok_def)

lemma slot_runs_ok_cong:
  assumes "slot_runs_ok d (p, w, x)" "map sl_completion (ip_slots p') = map sl_completion (ip_slots p)" "ip_complete p' = ip_complete p"
  shows "slot_runs_ok d (p', w, x)"
proof -
  have len: "length (ip_slots p') = length (ip_slots p)" using assms(2) map_eq_imp_length_eq by blast
  have "sl_completion (ip_slots p' ! i) = sl_completion (ip_slots p ! i)" if "i < length (ip_slots p)" for i
    using assms(2) that len by (metis nth_map)
  then show ?thesis using assms(1,3) len by (simp add: slot_runs_ok_def slot_run_ok_def)
qed

text \<open>When the last submission is complete, an incomplete one is followed by a stopped one.\<close>

lemma chained_complete:
  assumes "chained d C w" "\<And>c. c \<in> C \<Longrightarrow> c \<in> x \<or> d c \<subseteq> C" "w \<noteq> []" "last w \<in> C" "k < length w"
  shows "w ! k \<in> C \<or> (\<exists>j. k < j \<and> j < length w \<and> w ! j \<in> x)"
  using assms(5)
proof (induction "length w - k" arbitrary: k)
  case (Suc n)
  show ?case
  proof (cases "Suc k < length w")
    case False
    then have "k = length w - 1" using Suc.prems by simp
    then show ?thesis using assms(3,4) by (simp add: last_conv_nth)
  next
    case True
    have "w ! Suc k \<in> C \<or> (\<exists>j. Suc k < j \<and> j < length w \<and> w ! j \<in> x)" using Suc.hyps True by (intro Suc.hyps(1)) auto
    then show ?thesis
    proof
      assume s: "w ! Suc k \<in> C"
      show ?thesis
      proof (cases "w ! Suc k \<in> x")
        case True
        then show ?thesis using \<open>Suc k < length w\<close> by blast
      next
        case False
        then have "d (w ! Suc k) \<subseteq> C" using assms(2) [OF s] by simp
        then show ?thesis using assms(1) True s unfolding chained_def by (metis subsetD)
      qed
    qed (use Suc_lessD in blast)
  qed
qed simp

lemma drained_runs:
  assumes "slot_runs_ok d (p, w, x)" "i < length (ip_slots p)" "drained p (ip_slots p ! i)"
  shows "w i \<noteq> [] \<Longrightarrow> last (w i) \<in> ip_complete p"
    "k < length (w i) \<Longrightarrow> w i ! k \<in> ip_complete p \<or> (\<exists>j. k < j \<and> j < length (w i) \<and> w i ! j \<in> x)"
proof -
  have ok: "slot_run_ok p (ip_slots p ! i) (w i)" by (rule slot_runs_okD(1) [OF assms(1,2)])
  show l: "last (w i) \<in> ip_complete p" if ne: "w i \<noteq> []"
    using ok ne assms(3) by (cases "sl_completion (ip_slots p ! i)") (auto simp: slot_run_ok_def drained_def)
  show "w i ! k \<in> ip_complete p \<or> (\<exists>j. k < j \<and> j < length (w i) \<and> w i ! j \<in> x)" if k: "k < length (w i)"
  proof (rule chained_complete [OF slot_runs_okD(2,3) [OF assms(1)] _ _ k])
    from k show ne: "w i \<noteq> []" by auto
    show "last (w i) \<in> ip_complete p" by (rule l [OF ne])
  qed
qed

lemma slot_runs_ok_acquire:
  assumes "slot_runs_ok d (p, w, x)" "acquire_locked lease p = (r, p')"
  shows "slot_runs_ok d (p', w, x)"
proof (cases r)
  case (Inr i)
  note a = acquire_locked_Inr [OF assms(2) [unfolded Inr]]
  have i: "i < length (ip_slots p)" "drained p (ip_slots p ! i)" using a(1) by (auto simp: grantable_def)
  have slots: "ip_slots p' = (ip_slots p)[i := \<lparr>sl_leased = True, sl_completion = None\<rparr>]" "ip_complete p' = ip_complete p"
    by (simp_all add: a(3))
  show ?thesis
  proof (rule slot_runs_okI)
    fix j assume "j < length (ip_slots p')"
    then show "slot_run_ok p' (ip_slots p' ! j) (w j)"
      using slot_runs_okD(1) [OF assms(1), of j] drained_runs(1) [OF assms(1) i] i(1)
      by (auto simp: slots slot_run_ok_def nth_list_update)
  qed (use slot_runs_okD(2,3) [OF assms(1)] in \<open>simp_all add: slots\<close>)
next
  case (Inl e)
  then have "p' = p" using assms(2) by (auto simp: acquire_locked_def split: prod.splits option.splits if_splits)
  with assms(1) show ?thesis by simp
qed

lemma slot_chain_snoc:
  "chained d C w \<Longrightarrow> w = [] \<or> last w \<in> C \<or> last w \<in> d c \<or> last w = c \<Longrightarrow> chained d C (w @ [c])"
proof -
  assume c: "chained d C w" and l: "w = [] \<or> last w \<in> C \<or> last w \<in> d c \<or> last w = c"
  have "w ! k = last w" if "Suc k = length w" for k
    using that by (metis diff_Suc_1 last_conv_nth list.size(3) nat.distinct(1))
  then show "chained d C (w @ [c])" using c l by (auto simp: chained_def nth_append less_Suc_eq)
qed

lemma slot_runs_ok_record:
  assumes "slot_runs_ok d (p, w, x)" "ip_leases p lease = Some (i, n)" "i < length (ip_slots p)"
    "\<forall>t. sl_completion (ip_slots p ! i) = Some t \<longrightarrow> t = c \<or> t \<in> d c"
  shows "slot_runs_ok d (set_completion lease c p, w(i := w i @ [c]), x)"
proof (rule slot_runs_okI)
  let ?p = "set_completion lease c p" and ?w = "w(i := w i @ [c])"
  have eqs: "ip_complete ?p = ip_complete p" "ip_slots ?p = (ip_slots p)[i := (ip_slots p ! i)\<lparr>sl_completion := Some c\<rparr>]"
    using assms(2) by (simp_all add: set_completion_def)
  show "slot_run_ok ?p (ip_slots ?p ! j) (?w j)" if "j < length (ip_slots ?p)" for j
    using that slot_runs_okD(1) [OF assms(1), of j] by (auto simp: eqs slot_run_ok_def nth_list_update)
  have "w i = [] \<or> last (w i) \<in> ip_complete p \<or> last (w i) \<in> d c \<or> last (w i) = c"
    using slot_runs_okD(1) [OF assms(1,3)] assms(4) by (cases "sl_completion (ip_slots p ! i)") (auto simp: slot_run_ok_def)
  then show "chained d (ip_complete ?p) (?w j)" for j
    using slot_runs_okD(2) [OF assms(1)] slot_chain_snoc by (simp add: eqs)
  show "c' \<in> x \<or> d c' \<subseteq> ip_complete ?p" if "c' \<in> ip_complete ?p" for c'
    using that slot_runs_okD(3) [OF assms(1)] by (simp add: eqs)
qed

lemma slot_runs_ok_complete:
  assumes "slot_runs_ok d (p, w, x)" "c \<in> x \<or> d c \<subseteq> ip_complete p"
  shows "slot_runs_ok d (complete_submission c p, w, x)"
proof -
  let ?p = "complete_submission c p"
  have eqs: "ip_complete ?p = insert c (ip_complete p)" "ip_slots ?p = ip_slots p" by (simp_all add: complete_submission_def)
  have "slot_run_ok ?p s v" if "slot_run_ok p s v" for s v using that by (auto simp: slot_run_ok_def eqs)
  moreover have "chained d (insert c (ip_complete p)) v" if "chained d (ip_complete p) v" for v using that by (auto simp: chained_def)
  moreover have "c' \<in> x \<or> d c' \<subseteq> insert c (ip_complete p)" if "c' \<in> insert c (ip_complete p)" for c'
    using that slot_runs_okD(3) [OF assms(1), of c'] assms(2) by blast
  ultimately show ?thesis using slot_runs_okD(1,2) [OF assms(1)] by (intro slot_runs_okI) (simp_all add: eqs)
qed

lemma poll_acquire_locked:
  assumes "poll_acquire lease waker p = (r, p')"
  shows "\<exists>r0 q. acquire_locked lease p = (r0, q) \<and> ip_slots p' = ip_slots q \<and> ip_leases p' = ip_leases q \<and> ip_complete p' = ip_complete q"
proof -
  obtain r0 q where q: "acquire_locked lease p = (r0, q)" by (cases "acquire_locked lease p")
  have "ip_slots p' = ip_slots q \<and> ip_leases p' = ip_leases q \<and> ip_complete p' = ip_complete q"
    using assms by (auto simp: poll_acquire_def q Let_def split: sum.splits error.splits if_splits)
  with q show ?thesis by blast
qed

lemma pool_step_ok:
  assumes "pool_step d (p, w, x) (p', w', x')" "pool_ok p" "slot_runs_ok d (p, w, x)"
  shows "pool_ok p' \<and> slot_runs_ok d (p', w', x')"
  using assms(1)
proof cases
  case (acquire lease r)
  then show ?thesis using pool_ok_acquire [OF assms(2)] slot_runs_ok_acquire [OF assms(3)] by simp
next
  case (poll lease waker r)
  then obtain r0 q where q: "acquire_locked lease p = (r0, q)" "ip_slots p' = ip_slots q" "ip_leases p' = ip_leases q"
      "ip_complete p' = ip_complete q" using poll_acquire_locked by blast
  have "pool_ok q" "slot_runs_ok d (q, w, x)" using pool_ok_acquire [OF assms(2) poll(3) q(1)] slot_runs_ok_acquire [OF assms(3) q(1)] by simp_all
  then show ?thesis using q(2-4) pool_ok_cong [of q p'] slot_runs_ok_cong [of d q w x p'] poll(1,2) by simp
next
  case (clone lease)
  moreover have "slot_runs_ok d (lease_clone lease p, w, x)"
    using assms(3) by (rule slot_runs_ok_cong) (auto simp: lease_clone_def split: option.splits)
  ultimately show ?thesis using pool_ok_clone [OF assms(2)] by simp
next
  case (drop lease)
  moreover have "slot_runs_ok d (lease_drop lease p, w, x)"
    using assms(3) by (rule slot_runs_ok_cong) (auto simp: lease_drop_def map_update_same split: option.splits)
  ultimately show ?thesis using slot_pool_ok_drop [OF assms(2)] by simp
next
  case (record_run lease i n c)
  then show ?thesis using pool_ok_set_completion [OF assms(2)] slot_runs_ok_record [OF assms(3)] pool_okD(1) [OF assms(2)] by simp
next
  case (stop c)
  then show ?thesis using assms(2,3) by (auto simp: slot_runs_ok_def)
next
  case (complete c)
  then show ?thesis using pool_ok_complete [OF assms(2)] slot_runs_ok_complete [OF assms(3), of c] by simp
next
  case (usable u)
  then show ?thesis using pool_ok_cong [OF assms(2), of p'] slot_runs_ok_cong [OF assms(3), of p'] by simp
qed

abbreviation pool_start :: "nat \<Rightarrow> (nat \<Rightarrow> error option) \<Rightarrow> slot_runs" where
  "pool_start capacity unusable \<equiv> (pool_new capacity unusable, (\<lambda>_. []), {})"

lemma pool_reachable_ok:
  assumes "(pool_step d)\<^sup>*\<^sup>* (pool_start capacity unusable) (p, w, x)"
  shows "pool_ok p \<and> slot_runs_ok d (p, w, x)"
proof -
  have "pool_ok (fst s) \<and> slot_runs_ok d s" if "(pool_step d)\<^sup>*\<^sup>* (pool_start capacity unusable) s" for s
    using that
  proof induction
    case base
    have "slot_runs_ok d (pool_start capacity unusable)" by (simp add: slot_runs_ok_def pool_new_def slot_run_ok_def chained_def)
    then show ?case by (simp add: pool_ok_new)
  next
    case (step s t)
    then show ?case using pool_step_ok [of d "fst s" "fst (snd s)" "snd (snd s)" "fst t" "fst (snd t)" "snd (snd t)"] by simp
  qed
  from this [OF assms] show ?thesis by simp
qed


text \<open>The slot's handlers are sequences of such steps, so other callers may act between their critical sections.\<close>

lemma pool_clones: "(pool_step d)\<^sup>*\<^sup>* (p, w, x) ((lease_clone lease ^^ n) p, w, x)"
  by (induction n) (auto intro: rtranclp.rtrancl_into_rtrancl pool_step.clone)

lemma pool_drops: "(pool_step d)\<^sup>*\<^sup>* (p, w, x) ((lease_drop lease ^^ n) p, w, x)"
  by (induction n) (auto intro: rtranclp.rtrancl_into_rtrancl pool_step.drop)

lemma pool_drop1: "(pool_step d)\<^sup>*\<^sup>* (p, w, x) (lease_drop lease p, w, x)"
  by (rule r_into_rtranclp) (rule pool_step.drop)

lemma set_completion_lease [simp]: "ip_leases (set_completion lease c p) = ip_leases p" "ip_complete (set_completion lease c p) = ip_complete p"
  by (simp_all add: set_completion_def split: option.splits)

lemma slot_execute_steps:
  assumes "ip_leases p lease = Some (i, n)" "\<And>c t. submitted = Inr c \<Longrightarrow> sl_completion (ip_slots p ! i) = Some t \<Longrightarrow> t = c \<or> t \<in> d c"
    "slot_execute lease submitted outputs p = (r, p')"
  shows "(pool_step d)\<^sup>*\<^sup>* (p, w, x) (p', case submitted of Inl _ \<Rightarrow> w | Inr c \<Rightarrow> w(i := w i @ [c]), x)"
proof (cases submitted)
  case (Inl e)
  then show ?thesis using assms(3) pool_drop1 [of d p w x lease] by (auto simp: slot_execute_def)
next
  case (Inr c)
  have "pool_step d (p, w, x) (set_completion lease c p, w(i := w i @ [c]), x)"
    by (rule pool_step.record_run [OF assms(1)]) (use assms(2) [OF Inr] in blast)
  also have "(pool_step d)\<^sup>*\<^sup>* \<dots> (p', w(i := w i @ [c]), x)" using assms(3) Inr pool_clones by (auto simp: slot_execute_def)
  finally show ?thesis using Inr by simp
qed

text \<open>A fresh lease has no submission yet; the graph is submitted after the transfer.\<close>

lemma slot_submit_steps:
  assumes "ip_leases p lease = Some (i, n)" "i < length (ip_slots p)" "sl_completion (ip_slots p ! i) = None"
    "\<And>t c. transfer = Some (Inr t) \<Longrightarrow> submitted = Inr c \<Longrightarrow> t \<in> d c"
    "slot_submit lease transfer submitted outputs p = (r, p')"
  shows "\<exists>w'. (pool_step d)\<^sup>*\<^sup>* (p, w, x) (p', w', x)"
proof (cases transfer)
  case None
  then have "slot_execute lease submitted outputs p = (r, p')" using assms(5) by (simp add: slot_submit_def)
  from slot_execute_steps [OF assms(1) _ this] assms(3) show ?thesis by auto
next
  case (Some t)
  show ?thesis
  proof (cases t)
    case (Inl e)
    then show ?thesis using assms(5) Some pool_drop1 [of d p w x lease] by (auto simp: slot_submit_def)
  next
    case (Inr c)
    let ?p = "set_completion lease c p" and ?w = "w(i := w i @ [c])"
    have "pool_step d (p, w, x) (?p, ?w, x)" by (rule pool_step.record_run [OF assms(1)]) (simp add: assms(3))
    moreover have "sl_completion (ip_slots ?p ! i) = Some c" using assms(1,2) by (simp add: set_completion_def)
    then have "(pool_step d)\<^sup>*\<^sup>* (?p, ?w, x) (p', case submitted of Inl _ \<Rightarrow> ?w | Inr c \<Rightarrow> ?w(i := ?w i @ [c]), x)"
      by (intro slot_execute_steps [where n = n and outputs = outputs and r = r]) (use assms(1,4,5) Some Inr in \<open>auto simp: slot_submit_def\<close>)
    ultimately show ?thesis by (blast intro: converse_rtranclp_into_rtranclp)
  qed
qed

text \<open>A pending poll leaves its waker where the next release of a lease and the next completion of an unleased slot find it.\<close>

lemma poll_pending_registered:
  assumes "poll_acquire lease waker p = (Pending, p')"
  shows "waker \<in> set (ip_wakers p')"
    "\<forall>s\<in>set (ip_slots p). \<forall>c. \<not> sl_leased s \<and> sl_completion s = Some c \<and> c \<notin> ip_complete p \<longrightarrow> (c, waker) \<in> set (ip_observers p')"
    "ip_slots p' = ip_slots p"
proof -
  obtain r q where q: "acquire_locked lease p = (r, q)" by (cases "acquire_locked lease p")
  obtain m where r: "r = Inl (Busy m)" using assms q by (auto simp: poll_acquire_def split: sum.splits error.splits)
  then have eq: "q = p" using q by (auto simp: acquire_locked_def split: prod.splits option.splits if_splits)
  have in_cs: "c \<in> set (unleased_completions p)" if "s \<in> set (ip_slots p)" "\<not> sl_leased s" "sl_completion s = Some c" for s c
    using that by (force simp: unleased_completions_def List.map_filter_def)
  show "waker \<in> set (ip_wakers p')" "ip_slots p' = ip_slots p"
    using assms q r eq by (auto simp: poll_acquire_def Let_def split: if_splits)
  have "(c, waker) \<in> set (ip_observers p')" if "c \<in> set (unleased_completions p)" "c \<notin> ip_complete p" for c
    using assms q r eq that by (auto simp: poll_acquire_def Let_def split: if_splits)
  with in_cs show "\<forall>s\<in>set (ip_slots p). \<forall>c. \<not> sl_leased s \<and> sl_completion s = Some c \<and> c \<notin> ip_complete p \<longrightarrow> (c, waker) \<in> set (ip_observers p')"
    by blast
qed

lemma release_wakes:
  "ip_leases p lease = Some (i, 1) \<Longrightarrow> waker \<in> set (ip_wakers p) \<Longrightarrow> waker \<in> set (ip_woken (lease_drop lease p))"
  "(c, waker) \<in> set (ip_observers p) \<Longrightarrow> waker \<in> set (ip_woken (complete_submission c p))"
  by (force simp: lease_drop_def complete_submission_def)+


section \<open>Exclusive slots\<close>

text \<open>
  C15: Slots are exclusive and reused only when they are quiet. In every state a pool reaches through any interleaving of its critical
  sections, each leased slot has exactly one lease; a slot is granted only when no lease holds it, its latest submission is complete
  and its graph is usable, and it is the first such slot; every earlier submission of the slot is then complete too, except those followed by
  one of the slot that was stopped (cancelled, or its dependency failed); the granted slot is held by the new lease alone. A refusal
  means that every slot is leased, running or unusable, and leaves the pool as it was.
\<close>

theorem slots_exclusive:
  assumes "(pool_step d)\<^sup>*\<^sup>* (pool_start capacity unusable) (p, w, x)"
  shows "(\<forall>i<length (ip_slots p). sl_leased (ip_slots p ! i) = (\<exists>!l. \<exists>n. ip_leases p l = Some (i, n))) \<and>
    (\<forall>i. acquire_locked lease p = (Inr i, p') \<longrightarrow>
      (\<forall>l n. ip_leases p l \<noteq> Some (i, n)) \<and> (w i \<noteq> [] \<longrightarrow> last (w i) \<in> ip_complete p)
      \<and> (\<forall>k<length (w i). w i ! k \<in> ip_complete p \<or> (\<exists>j. k < j \<and> j < length (w i) \<and> w i ! j \<in> x))
      \<and> ip_unusable p i = None \<and> (\<forall>j<i. \<not> grantable p j)
      \<and> ip_leases p' = (ip_leases p)(lease \<mapsto> (i, 1)) \<and> sl_leased (ip_slots p' ! i)) \<and>
    (\<forall>e. acquire_locked lease p = (Inl e, p') \<longrightarrow> p' = p \<and> (\<forall>i<length (ip_slots p).
      sl_leased (ip_slots p ! i) \<or> (\<exists>c. sl_completion (ip_slots p ! i) = Some c \<and> c \<notin> ip_complete p) \<or> ip_unusable p i \<noteq> None))"
proof (intro conjI [OF _ conjI] allI)
  have ok: "pool_ok p" "slot_runs_ok d (p, w, x)" using pool_reachable_ok [OF assms] by simp_all
  show "i < length (ip_slots p) \<longrightarrow> sl_leased (ip_slots p ! i) = (\<exists>!l. \<exists>n. ip_leases p l = Some (i, n))" for i
    using pool_okD(3-5) [OF ok(1)] by blast
  show "acquire_locked lease p = (Inr i, p') \<longrightarrow>
      (\<forall>l n. ip_leases p l \<noteq> Some (i, n)) \<and> (w i \<noteq> [] \<longrightarrow> last (w i) \<in> ip_complete p)
      \<and> (\<forall>k<length (w i). w i ! k \<in> ip_complete p \<or> (\<exists>j. k < j \<and> j < length (w i) \<and> w i ! j \<in> x))
      \<and> ip_unusable p i = None \<and> (\<forall>j<i. \<not> grantable p j)
      \<and> ip_leases p' = (ip_leases p)(lease \<mapsto> (i, 1)) \<and> sl_leased (ip_slots p' ! i)" for i
  proof
    assume acq: "acquire_locked lease p = (Inr i, p')"
    note a = acquire_locked_Inr [OF acq]
    have i: "i < length (ip_slots p)" "drained p (ip_slots p ! i)" "ip_unusable p i = None" using a(1) by (simp_all add: grantable_def)
    have "ip_leases p l \<noteq> Some (i, n)" for l n using pool_okD(3) [OF ok(1), of l i n] i(2) by (auto simp: drained_def)
    moreover have "ip_leases p' = (ip_leases p)(lease \<mapsto> (i, 1))" "sl_leased (ip_slots p' ! i)" using i(1) by (simp_all add: a(3))
    ultimately show "(\<forall>l n. ip_leases p l \<noteq> Some (i, n)) \<and> (w i \<noteq> [] \<longrightarrow> last (w i) \<in> ip_complete p)
      \<and> (\<forall>k<length (w i). w i ! k \<in> ip_complete p \<or> (\<exists>j. k < j \<and> j < length (w i) \<and> w i ! j \<in> x))
      \<and> ip_unusable p i = None \<and> (\<forall>j<i. \<not> grantable p j)
      \<and> ip_leases p' = (ip_leases p)(lease \<mapsto> (i, 1)) \<and> sl_leased (ip_slots p' ! i)"
      using drained_runs [OF ok(2) i(1,2)] i(3) a(2) by blast
  qed
  show "acquire_locked lease p = (Inl e, p') \<longrightarrow> p' = p \<and> (\<forall>i<length (ip_slots p).
      sl_leased (ip_slots p ! i) \<or> (\<exists>c. sl_completion (ip_slots p ! i) = Some c \<and> c \<notin> ip_complete p) \<or> ip_unusable p i \<noteq> None)" for e
  proof
    assume acq: "acquire_locked lease p = (Inl e, p')"
    then have "p' = p" by (auto simp: acquire_locked_def split: prod.splits option.splits if_splits)
    moreover have "\<not> grantable p i" if "i < length (ip_slots p)" for i
      using acquire_locked_Inl(2) [OF acq] that by (cases "ip_slots p") auto
    moreover have "sl_leased (ip_slots p ! i) \<or> (\<exists>c. sl_completion (ip_slots p ! i) = Some c \<and> c \<notin> ip_complete p) \<or> ip_unusable p i \<noteq> None"
      if "i < length (ip_slots p)" "\<not> grantable p i" for i
      using that by (cases "sl_completion (ip_slots p ! i)") (auto simp: grantable_def drained_def)
    ultimately show "p' = p \<and> (\<forall>i<length (ip_slots p).
      sl_leased (ip_slots p ! i) \<or> (\<exists>c. sl_completion (ip_slots p ! i) = Some c \<and> c \<notin> ip_complete p) \<or> ip_unusable p i \<noteq> None)"
      by blast
  qed
qed

lemma pool_run: "(pool_step d)\<^sup>*\<^sup>* a b \<Longrightarrow> pool_step d b c \<Longrightarrow> (pool_step d)\<^sup>*\<^sup>* a c"
  by (rule rtranclp.rtrancl_into_rtrancl)

text \<open>Two slots: a transfer \<open>7\<close> and the graph \<open>8\<close> submitted after it use the first, then its lease is dropped.\<close>

definition demo_pool1 :: ipool where
  "demo_pool1 = snd (acquire_locked 5 (pool_new 2 (\<lambda>_. None)))"

definition demo_pool :: ipool where
  "demo_pool = lease_drop 5 (set_completion 5 8 (set_completion 5 7 demo_pool1))"

abbreviation demo_after :: "nat \<Rightarrow> nat set" where
  "demo_after c \<equiv> if c = 8 then {7} else {}"

lemma demo_pool1_eq:
  "demo_pool1 = \<lparr>ip_slots = [\<lparr>sl_leased = True, sl_completion = None\<rparr>, \<lparr>sl_leased = False, sl_completion = None\<rparr>], ip_wakers = [],
     ip_complete = {}, ip_unusable = (\<lambda>_. None), ip_leases = [5 \<mapsto> (0, 1)], ip_observers = [], ip_woken = []\<rparr>"
  by (simp add: demo_pool1_def acquire_locked_def pool_new_def numeral_2_eq_2 drained_def)

lemma demo_pool_eq:
  "demo_pool = \<lparr>ip_slots = [\<lparr>sl_leased = False, sl_completion = Some 8\<rparr>, \<lparr>sl_leased = False, sl_completion = None\<rparr>], ip_wakers = [],
     ip_complete = {}, ip_unusable = (\<lambda>_. None), ip_leases = Map.empty, ip_observers = [], ip_woken = []\<rparr>"
  by (simp add: demo_pool_def demo_pool1_eq set_completion_def lease_drop_def)

lemma demo_slots_reach: "(pool_step demo_after)\<^sup>*\<^sup>* (pool_start 2 (\<lambda>_. None)) (demo_pool, (\<lambda>_. [])(0 := [7, 8]), {})"
proof -
  let ?d = "demo_after" and ?w = "(\<lambda>_. []) :: nat \<Rightarrow> nat list"
  have s1: "pool_step ?d (pool_start 2 (\<lambda>_. None)) (demo_pool1, ?w, {})"
    by (rule pool_step.acquire [of _ 5 "fst (acquire_locked 5 (pool_new 2 (\<lambda>_. None)))"]) (simp_all add: pool_new_def demo_pool1_def)
  have s2: "pool_step ?d (demo_pool1, ?w, {}) (set_completion 5 7 demo_pool1, ?w(0 := [7]), {})"
    using pool_step.record_run [of demo_pool1 5 0 1 7 ?d ?w "{}"] by (simp add: demo_pool1_eq)
  have s3: "pool_step ?d (set_completion 5 7 demo_pool1, ?w(0 := [7]), {}) (set_completion 5 8 (set_completion 5 7 demo_pool1), ?w(0 := [7, 8]), {})"
    using pool_step.record_run [of "set_completion 5 7 demo_pool1" 5 0 1 8 ?d "?w(0 := [7])" "{}"] by (simp add: demo_pool1_eq set_completion_def)
  show ?thesis unfolding demo_pool_def
    by (rule pool_run [OF pool_run [OF pool_run [OF r_into_rtranclp [of "pool_step ?d", OF s1] s2] s3] pool_step.drop])
qed

theorem slots_exclusive_witness:
  "fst (acquire_locked 6 demo_pool) = Inr 1 \<and> ip_leases (snd (acquire_locked 6 demo_pool)) 6 = Some (1, 1)
   \<and> sl_leased (ip_slots (snd (acquire_locked 6 demo_pool)) ! 1) \<and> \<not> grantable demo_pool 0"
proof -
  have acq: "acquire_locked 6 demo_pool = (Inr 1, snd (acquire_locked 6 demo_pool))"
    by (simp add: acquire_locked_def demo_pool_eq drained_def)
  note granted = slots_exclusive [OF demo_slots_reach, of 6 "snd (acquire_locked 6 demo_pool)", THEN conjunct2, THEN conjunct1, rule_format, OF acq]
  have "ip_leases (snd (acquire_locked 6 demo_pool)) 6 = Some (1, 1)" using granted by (simp del: One_nat_def)
  moreover have "fst (acquire_locked 6 demo_pool) = Inr 1" by (subst acq) simp
  ultimately show ?thesis using granted by blast
qed

text \<open>
  The exception is real. When the graph is cancelled it completes although its transfer is still unfinished, and the slot is granted
  to the next caller; only the scheduler's hazard tracking keeps the two apart.
\<close>

lemma cancelled_slot_granted_early:
  "\<exists>p. (pool_step demo_after)\<^sup>*\<^sup>* (pool_start 2 (\<lambda>_. None)) (p, (\<lambda>_. [])(0 := [7, 8]), {8}) \<and> 7 \<notin> ip_complete p
     \<and> fst (acquire_locked 6 p) = Inr 0"
proof (intro exI conjI)
  let ?p = "complete_submission 8 demo_pool"
  have "pool_step demo_after (demo_pool, (\<lambda>_. [])(0 := [7, 8]), {}) (demo_pool, (\<lambda>_. [])(0 := [7, 8]), {8})" by (rule pool_step.stop)
  moreover have "pool_step demo_after (demo_pool, (\<lambda>_. [])(0 := [7, 8]), {8}) (?p, (\<lambda>_. [])(0 := [7, 8]), {8})"
    by (rule pool_step.complete) simp
  ultimately show "(pool_step demo_after)\<^sup>*\<^sup>* (pool_start 2 (\<lambda>_. None)) (?p, (\<lambda>_. [])(0 := [7, 8]), {8})"
    using demo_slots_reach by (blast intro: pool_run)
  show "7 \<notin> ip_complete ?p" "fst (acquire_locked 6 ?p) = Inr 0"
    by (simp_all add: complete_submission_def demo_pool_eq acquire_locked_def drained_def)
qed

end
