(* ===== verification/Model_Context.thy ===== *)
theory Model_Context
  imports Inference_Slots
begin

text \<open>
  Tensor transfers of a model context, \<^verbatim>\<open>src/src/inference.rs\<close>: allocation, wrapping of storage, uploads
  through staging, copies between tensors, concatenation and readback. A transfer graph is the list of its copies, destination
  first; \<open>submit\<close> answers for recording, preparing and submitting it after given completions. Allocation, mapping and waiting are
  arguments too. Completion zero is the one that is ready from the start.
\<close>


section \<open>Contexts\<close>

type_synonym copy = "buffer_view \<times> buffer_view"

definition completion_ready :: nat where
  "completion_ready = 0"

text \<open>What a context calls of its runtime.\<close>

record context_env =
  ce_runtime :: nat
  ce_budgeted :: bool
  ce_allocate :: "usize \<Rightarrow> buffer result"
  ce_allocate_overwritten :: "usize \<Rightarrow> buffer result"
  ce_allocate_host :: "usize \<Rightarrow> buffer result"
  ce_map_write :: "buffer \<Rightarrow> (nat list) result"
  ce_map_read :: "buffer \<Rightarrow> (nat list) result"
  ce_submit :: "copy list \<Rightarrow> nat list \<Rightarrow> nat result"
  ce_wait :: "nat \<Rightarrow> unit result"
  ce_validate_producer :: "nat \<Rightarrow> unit result"
  ce_complete :: "nat set"

definition tensor_over :: "context_env \<Rightarrow> tensor_desc \<Rightarrow> buffer_view option \<Rightarrow> nat \<Rightarrow> device_tensor" where
  "tensor_over c d v producer = \<lparr>dt_runtime = ce_runtime c, dt_desc = d, dt_view = v, dt_producer = producer, dt_lease = None\<rparr>"

definition allocate_with :: "(usize \<Rightarrow> buffer result) \<Rightarrow> context_env \<Rightarrow> tensor_desc \<Rightarrow> device_tensor result" where
  "allocate_with allocate c d =
     and_then (if desc_is_empty d then Inr None else map_sum id (\<lambda>b. Some (whole_view b)) (allocate (td_bytes d)))
       (\<lambda>v. Inr (tensor_over c d v completion_ready))"

definition context_tensor :: "context_env \<Rightarrow> tensor_desc \<Rightarrow> buffer_view \<Rightarrow> nat \<Rightarrow> device_tensor result" where
  "context_tensor c d v producer =
     and_then (ce_validate_producer c producer) (\<lambda>_.
       if b_runtime (v_buffer v) \<noteq> ce_runtime c \<or> view_len v < td_bytes d \<or> view_offset v mod dtype_bytes (td_dtype d) \<noteq> 0
       then Inl (Message ''tensor storage has the wrong context, extent, or alignment'')
       else and_then (if desc_is_empty d then Inr None else map_sum id Some (view_slice v (0, td_bytes d)))
         (\<lambda>w. Inr (tensor_over c d w producer)))"


section \<open>Uploads\<close>

definition stage_buffer :: "context_env \<Rightarrow> usize \<Rightarrow> staging_entry list \<Rightarrow> buffer result \<times> staging_entry list" where
  "stage_buffer c bytes pool =
     (case staging_take (ce_complete c) bytes pool of
        (Some x, rest) \<Rightarrow> (Inr (se_buffer x), rest)
      | (None, rest) \<Rightarrow> (ce_allocate_host c bytes, rest))"

text \<open>The loop that copies the parts one behind the other; out of range is a panic, \<open>None\<close>.\<close>

fun write_parts :: "usize \<Rightarrow> nat list list \<Rightarrow> nat list \<Rightarrow> nat list option" where
  "write_parts at [] mapped = Some mapped"
| "write_parts at (p # ps) mapped =
     (if at + length p \<le> length mapped
      then write_parts (at + length p) ps (take at mapped @ p @ drop (at + length p) mapped) else None)"

text \<open>
  \<^verbatim>\<open>upload_parts\<close>, of which \<^verbatim>\<open>upload\<close> is the case of one part: the tensor, the copy that was
  submitted and the staged bytes. \<open>None\<close> is a panic of the slice copy.
\<close>

record uploaded =
  up_tensor :: device_tensor
  up_copies :: "copy list"
  up_staged :: "nat list"

definition upload_parts :: "context_env \<Rightarrow> tensor_desc \<Rightarrow> nat list list \<Rightarrow> staging_entry list \<Rightarrow> (uploaded result \<times> staging_entry list) option" where
  "upload_parts c d parts pool =
     (let total_bytes = sum_list (map length parts)
      in if total_bytes \<noteq> td_bytes d then Some (Inl (Message ''upload byte count does not match tensor''), pool)
         else case allocate_with (ce_allocate_overwritten c) c d of
           Inl e \<Rightarrow> Some (Inl e, pool)
         | Inr t \<Rightarrow>
             (case tensor_binding t of
                None \<Rightarrow> Some (Inr \<lparr>up_tensor = t, up_copies = [], up_staged = []\<rparr>, pool)
              | Some destination \<Rightarrow>
                  (case stage_buffer c total_bytes pool of
                     (Inl e, rest) \<Rightarrow> Some (Inl e, rest)
                   | (Inr staging, rest) \<Rightarrow>
                       (case ce_map_write c staging of
                          Inl e \<Rightarrow> Some (Inl e, rest)
                        | Inr mapped \<Rightarrow>
                            (case write_parts 0 parts mapped of
                               None \<Rightarrow> None
                             | Some staged \<Rightarrow>
                                 (case buffer_slice staging (0, total_bytes) of
                                    Inl e \<Rightarrow> Some (Inl e, rest)
                                  | Inr source \<Rightarrow>
                                      (case ce_submit c [(destination, source)] [] of
                                         Inl e \<Rightarrow> Some (Inl e, rest)
                                       | Inr completion \<Rightarrow>
                                           Some (Inr \<lparr>up_tensor = t\<lparr>dt_producer := completion\<rparr>, up_copies = [(destination, source)],
                                                      up_staged = take total_bytes staged\<rparr>,
                                             if ce_budgeted c then rest
                                             else staging_recycle \<lparr>se_buffer = staging, se_done = completion\<rparr> rest))))))))"

definition upload :: "context_env \<Rightarrow> tensor_desc \<Rightarrow> nat list \<Rightarrow> staging_entry list \<Rightarrow> (uploaded result \<times> staging_entry list) option" where
  "upload c d bytes pool = upload_parts c d [bytes] pool"


section \<open>Copies\<close>

text \<open>The destination with its new producer, and the copies that were submitted; \<open>None\<close> is the failed expectation.\<close>

definition copy_into :: "context_env \<Rightarrow> device_tensor \<Rightarrow> usize \<Rightarrow> device_tensor \<Rightarrow> (device_tensor \<times> copy list) result option" where
  "copy_into c destination byte_offset source =
     (case and_then (context_validate (ce_runtime c) destination) (\<lambda>_. context_validate (ce_runtime c) source) of
        Inl e \<Rightarrow> Some (Inl e)
      | Inr _ \<Rightarrow>
          (case checked_add byte_offset (td_bytes (dt_desc source)) of
             None \<Rightarrow> Some (Inl (Message ''tensor copy exceeds destination''))
           | Some past \<Rightarrow>
               if past > td_bytes (dt_desc destination) then Some (Inl (Message ''tensor copy exceeds destination''))
               else if td_dtype (dt_desc destination) \<noteq> td_dtype (dt_desc source) \<or> \<not> is_contiguous (dt_desc destination)
                   \<or> \<not> is_contiguous (dt_desc source) \<or> byte_offset mod dtype_bytes (td_dtype (dt_desc source)) \<noteq> 0
               then Some (Inl (Message ''invalid tensor copy dtype, strides or alignment''))
               else case tensor_binding source of
                 None \<Rightarrow> Some (map_sum id (\<lambda>_. (destination, [])) (ce_wait c (dt_producer source)))
               | Some from \<Rightarrow>
                   (case tensor_binding destination of
                      None \<Rightarrow> None
                    | Some to \<Rightarrow>
                        Some (and_then (view_slice to (byte_offset, past)) (\<lambda>part.
                          and_then (ce_submit c [(part, from)] [dt_producer destination, dt_producer source]) (\<lambda>done_at.
                            Inr (destination\<lparr>dt_producer := done_at\<rparr>, [(part, from)])))))))"

text \<open>The loop over the inputs of \<^verbatim>\<open>concatenate\<close>: the sum of the first dimensions.\<close>

fun concat_rows :: "context_env \<Rightarrow> tensor_desc \<Rightarrow> usize \<Rightarrow> device_tensor list \<Rightarrow> usize result" where
  "concat_rows c proto rows [] = Inr rows"
| "concat_rows c proto rows (t # ts) =
     and_then (context_validate (ce_runtime c) t) (\<lambda>_.
       let d = dt_desc t
       in if td_dtype d \<noteq> td_dtype proto \<or> td_layout d \<noteq> td_layout proto \<or> length (td_shape d) \<noteq> length (td_shape proto)
             \<or> tl (td_shape d) \<noteq> tl (td_shape proto) \<or> \<not> is_contiguous d
          then Inl (Message ''incompatible concatenate input'')
          else case checked_add rows (hd (td_shape d)) of
            None \<Rightarrow> Inl (Message ''concatenate dimension overflow'')
          | Some n \<Rightarrow> concat_rows c proto n ts)"

fun concat_copies :: "buffer_view \<Rightarrow> usize \<Rightarrow> device_tensor list \<Rightarrow> copy list result" where
  "concat_copies destination offset [] = Inr []"
| "concat_copies destination offset (t # ts) =
     (case tensor_binding t of
        None \<Rightarrow> concat_copies destination offset ts
      | Some source \<Rightarrow>
          and_then (view_slice destination (offset, offset + view_len source)) (\<lambda>part.
            map_sum id (\<lambda>cs. (part, source) # cs) (concat_copies destination (offset + td_bytes (dt_desc t)) ts)))"

text \<open>An empty result still waits for every producer, so that no failure is lost.\<close>

definition concat_submit :: "context_env \<Rightarrow> device_tensor list \<Rightarrow> device_tensor \<Rightarrow> (device_tensor \<times> copy list) result" where
  "concat_submit c inputs result =
     (case tensor_binding result of
        Some destination \<Rightarrow>
          and_then (concat_copies destination 0 inputs) (\<lambda>cs.
            and_then (ce_submit c cs (map dt_producer inputs)) (\<lambda>done_at. Inr (result\<lparr>dt_producer := done_at\<rparr>, cs)))
      | None \<Rightarrow> and_then (try_all (ce_wait c) (map dt_producer inputs)) (\<lambda>_. Inr (result, [])))"

definition concatenate :: "context_env \<Rightarrow> device_tensor list \<Rightarrow> (device_tensor \<times> copy list) result" where
  "concatenate c inputs =
     (case inputs of
        [] \<Rightarrow> Inl (Message ''concatenate needs inputs'')
      | first # _ \<Rightarrow>
          let proto = dt_desc first
          in if td_shape proto = [] \<or> \<not> is_contiguous proto
             then Inl (Message ''concatenate requires contiguous non-scalar tensors'')
             else and_then (concat_rows c proto 0 inputs) (\<lambda>rows.
               and_then (tensor_new (td_dtype proto) (rows # tl (td_shape proto))) (\<lambda>d0.
               and_then (with_layout (td_layout proto) d0) (\<lambda>d.
               and_then (allocate_with (ce_allocate c) c d) (concat_submit c inputs)))))"


section \<open>Readback\<close>

record readback =
  rb_buffer :: "buffer option"
  rb_length :: usize
  rb_completion :: nat
  rb_pooled :: bool

definition download :: "context_env \<Rightarrow> device_tensor \<Rightarrow> staging_entry list \<Rightarrow> (readback \<times> copy list) result \<times> staging_entry list" where
  "download c t pool =
     (case context_validate (ce_runtime c) t of
        Inl e \<Rightarrow> (Inl e, pool)
      | Inr _ \<Rightarrow>
          (case tensor_binding t of
             None \<Rightarrow> (Inr (\<lparr>rb_buffer = None, rb_length = 0, rb_completion = dt_producer t, rb_pooled = False\<rparr>, []), pool)
           | Some source \<Rightarrow>
               let len = td_bytes (dt_desc t)
               in case stage_buffer c len pool of
                    (Inl e, rest) \<Rightarrow> (Inl e, rest)
                  | (Inr staging, rest) \<Rightarrow>
                      (and_then (buffer_slice staging (0, len)) (\<lambda>part.
                         and_then (ce_submit c [(part, source)] [dt_producer t]) (\<lambda>completion.
                           Inr (\<lparr>rb_buffer = Some staging, rb_length = len, rb_completion = completion, rb_pooled = \<not> ce_budgeted c\<rparr>,
                                [(part, source)]))), rest)))"

text \<open>Taking the bytes returns the staging to the pool; a second call finds no buffer. \<open>None\<close> is a panic of the slice.\<close>

definition readback_bytes :: "context_env \<Rightarrow> readback \<Rightarrow> staging_entry list \<Rightarrow> ((nat list) result \<times> readback \<times> staging_entry list) option" where
  "readback_bytes c r pool =
     (case rb_buffer r of
        None \<Rightarrow> Some (Inr [], r, pool)
      | Some b \<Rightarrow>
          (case ce_map_read c b of
             Inl e \<Rightarrow> Some (Inl e, r\<lparr>rb_buffer := None\<rparr>, pool)
           | Inr mapped \<Rightarrow>
               if rb_length r \<le> length mapped
               then Some (Inr (take (rb_length r) mapped), r\<lparr>rb_buffer := None\<rparr>,
                 if rb_pooled r then staging_recycle \<lparr>se_buffer = b, se_done = rb_completion r\<rparr> pool else pool)
               else None))"

definition readback_wait :: "context_env \<Rightarrow> readback \<Rightarrow> staging_entry list \<Rightarrow> ((nat list) result \<times> readback \<times> staging_entry list) option" where
  "readback_wait c r pool =
     (case ce_wait c (rb_completion r) of
        Inl e \<Rightarrow> Some (Inl e, r, pool)
      | Inr _ \<Rightarrow> readback_bytes c r pool)"


section \<open>Slot transfers\<close>

text \<open>The host side of each tensor of a slot, and the copies between the two sides; \<open>upload\<close> gives the direction.\<close>

fun transfer_buffers :: "context_env \<Rightarrow> bool \<Rightarrow> device_tensor list \<Rightarrow> (buffer_view option list \<times> copy list) result" where
  "transfer_buffers c up [] = Inr ([], [])"
| "transfer_buffers c up (t # ts) =
     (case tensor_binding t of
        None \<Rightarrow> map_sum id (\<lambda>(bs, cs). (None # bs, cs)) (transfer_buffers c up ts)
      | Some device \<Rightarrow>
          if is_host_visible device then map_sum id (\<lambda>(bs, cs). (Some device # bs, cs)) (transfer_buffers c up ts)
          else and_then (ce_allocate_host c (td_bytes (dt_desc t))) (\<lambda>host.
            map_sum id (\<lambda>(bs, cs). (Some (whole_view host) # bs,
                (if up then (device, whole_view host) else (whole_view host, device)) # cs)) (transfer_buffers c up ts)))"

record transfer =
  tr_buffers :: "buffer_view option list"
  tr_copies :: "copy list option"

definition transfer_prepare :: "context_env \<Rightarrow> device_tensor list \<Rightarrow> bool \<Rightarrow> transfer result" where
  "transfer_prepare c tensors up =
     map_sum id (\<lambda>(bs, cs). \<lparr>tr_buffers = bs, tr_copies = (if cs = [] then None else Some cs)\<rparr>) (transfer_buffers c up tensors)"

text \<open>
  \<^verbatim>\<open>ModelSlot::submit_host\<close>: the lengths are checked, the staging is prepared or taken from the slot (\<open>staging\<close>), the inputs are
  written (\<open>written\<close> is the result of mapping and filling them) and the upload goes before the graph. An error on the way drops
  the handle and with it the lease.
\<close>

definition host_lengths_match :: "nat list list \<Rightarrow> device_tensor list \<Rightarrow> bool" where
  "host_lengths_match inputs ts \<longleftrightarrow>
     length inputs = length ts \<and> list_all (\<lambda>(bytes, t). length bytes = td_bytes (dt_desc t)) (zip inputs ts)"

definition submit_host_with ::
  "context_env \<Rightarrow> nat \<Rightarrow> transfer result \<Rightarrow> unit result \<Rightarrow> (nat list \<Rightarrow> nat result) \<Rightarrow> nat \<Rightarrow> ipool \<Rightarrow> nat result \<times> ipool" where
  "submit_host_with c lease staging written graph outputs p =
     (case and_then staging (\<lambda>tr. map_sum id (\<lambda>_. tr) written) of
        Inl e \<Rightarrow> (Inl e, lease_drop lease p)
      | Inr tr \<Rightarrow>
          let transfer = map_option (\<lambda>cs. ce_submit c cs []) (tr_copies tr)
          in slot_submit lease transfer (graph (case transfer of Some (Inr t) \<Rightarrow> [t] | _ \<Rightarrow> [])) outputs p)"

definition submit_host ::
  "context_env \<Rightarrow> inference_graph \<Rightarrow> nat \<Rightarrow> nat list list \<Rightarrow> transfer result \<Rightarrow> unit result \<Rightarrow> (nat list \<Rightarrow> nat result) \<Rightarrow> ipool \<Rightarrow> nat result \<times> ipool" where
  "submit_host c slot lease inputs staging written graph p =
     (if \<not> host_lengths_match inputs (ig_inputs slot)
      then (Inl (Message ''host model input byte count mismatch''), lease_drop lease p)
      else submit_host_with c lease staging written graph (length (ig_outputs slot)) p)"

text \<open>\<^verbatim>\<open>ModelSlot::submit\<close>: device inputs are checked against the slot's and copied to its addresses.\<close>

fun check_inputs :: "context_env \<Rightarrow> (device_tensor \<times> device_tensor) list \<Rightarrow> unit result" where
  "check_inputs c [] = Inr ()"
| "check_inputs c ((input, expected) # rest) =
     and_then (context_validate (ce_runtime c) input) (\<lambda>_.
       if dt_desc input \<noteq> dt_desc expected then Inl (Message ''model input descriptor mismatch'') else check_inputs c rest)"

definition input_copies :: "device_tensor list \<Rightarrow> device_tensor list \<Rightarrow> copy list" where
  "input_copies inputs slots =
     List.map_filter (\<lambda>(source, destination).
       case (tensor_binding source, tensor_binding destination) of
         (Some s, Some d) \<Rightarrow> Some (d, s)
       | _ \<Rightarrow> None) (zip inputs slots)"

definition submit_device ::
  "context_env \<Rightarrow> inference_graph \<Rightarrow> nat \<Rightarrow> device_tensor list \<Rightarrow> (nat list \<Rightarrow> nat result) \<Rightarrow> ipool \<Rightarrow> nat result \<times> ipool" where
  "submit_device c slot lease inputs graph p =
     (case (if length inputs \<noteq> length (ig_inputs slot) then Inl (Message ''model input count mismatch'')
            else check_inputs c (zip inputs (ig_inputs slot))) of
        Inl e \<Rightarrow> (Inl e, lease_drop lease p)
      | Inr _ \<Rightarrow>
          let producers = map dt_producer inputs; copies = input_copies inputs (ig_inputs slot);
              transfer = (if copies = [] then None else Some (ce_submit c copies producers))
          in slot_submit lease transfer (graph (case transfer of None \<Rightarrow> producers | Some (Inr t) \<Rightarrow> [t] | Some (Inl _) \<Rightarrow> []))
               (length (ig_outputs slot)) p)"

text \<open>\<^verbatim>\<open>InferenceReadback::read_into\<close>; \<open>wait\<close> and \<open>mapped\<close> answer for the completion and for reading a host buffer.\<close>

fun read_outputs :: "(buffer_view \<Rightarrow> (nat list) result) \<Rightarrow> (nat list \<times> buffer_view option) list \<Rightarrow> (nat list list) result option" where
  "read_outputs mapped [] = Some (Inr [])"
| "read_outputs mapped ((out_bytes, None) # rest) = map_option (map_sum id (\<lambda>bs. out_bytes # bs)) (read_outputs mapped rest)"
| "read_outputs mapped ((out_bytes, Some host) # rest) =
     (case mapped host of
        Inl e \<Rightarrow> Some (Inl e)
      | Inr bytes \<Rightarrow>
          if length bytes \<noteq> length out_bytes then None
          else map_option (map_sum id (\<lambda>bs. bytes # bs)) (read_outputs mapped rest))"

definition read_into ::
  "inference_graph \<Rightarrow> unit result \<Rightarrow> (buffer_view \<Rightarrow> (nat list) result) \<Rightarrow> transfer \<Rightarrow> nat list list \<Rightarrow> (nat list list) result option" where
  "read_into slot wait mapped tr outs =
     (if \<not> host_lengths_match outs (ig_outputs slot) then Some (Inl (Message ''model output byte count mismatch''))
      else case wait of
        Inl e \<Rightarrow> Some (Inl e)
      | Inr _ \<Rightarrow> read_outputs mapped (zip outs (tr_buffers tr)))"


section \<open>Well-formed tensors\<close>

text \<open>A descriptor made by the checked constructors, and a tensor whose storage is as long as its descriptor says.\<close>

definition desc_ok :: "tensor_desc \<Rightarrow> bool" where
  "desc_ok d \<longleftrightarrow> strided (td_dtype d) (td_shape d) (td_strides d) = Inr (d\<lparr>td_layout := General\<rparr>)"

definition tensor_ok :: "device_tensor \<Rightarrow> bool" where
  "tensor_ok t \<longleftrightarrow> desc_ok (dt_desc t) \<and> (desc_is_empty (dt_desc t) \<longleftrightarrow> dt_view t = None)
     \<and> (\<forall>v. dt_view t = Some v \<longrightarrow> v_start v \<le> v_end v \<and> view_len v = td_bytes (dt_desc t))"

lemma strided_layout: "strided dt shape strides = Inr d \<Longrightarrow> td_layout d = General"
  by (auto simp: strided_def Let_def split: if_splits sum.splits option.splits)

lemma desc_ok_strided: "strided dt shape strides = Inr d \<Longrightarrow> desc_ok d"
  using strided_Inr(2-4) [of dt shape strides d] strided_layout [of dt shape strides d] by (simp add: desc_ok_def)

lemma desc_ok_new: "tensor_new dt shape = Inr d \<Longrightarrow> desc_ok d"
  by (auto simp: tensor_new_def intro: desc_ok_strided split: if_splits sum.splits)

lemma desc_ok_layout: "with_layout l d = Inr d' \<Longrightarrow> desc_ok d \<Longrightarrow> desc_ok d'"
  by (auto simp: with_layout_def desc_ok_def split: if_splits layout.splits)

lemma desc_ok_facts:
  assumes "desc_ok d"
  shows "td_elements d = prod_list (td_shape d)" "0 \<in> set (td_shape d) \<Longrightarrow> td_bytes d = 0" "td_bytes d \<le> isize_MAX"
  using strided_Inr(5-7) [OF assms [unfolded desc_ok_def]] by simp_all

lemma empty_bytes: "desc_ok d \<Longrightarrow> desc_is_empty d \<Longrightarrow> td_bytes d = 0"
  using desc_ok_facts [of d] by (simp add: desc_is_empty_def prod_list_zero_iff)

text \<open>Contiguous descriptors have the strides of a row-major tensor wherever a stride matters.\<close>

lemma contiguous_axes:
  assumes "contiguous_stride (zip ds ss) = Some n" "length ss = length ds" "0 \<notin> set ds"
  shows "filter (\<lambda>a. fst a > 1) (zip ds ss) = filter (\<lambda>a. fst a > 1) (zip ds (suffix_products ds)) \<and> n = prod_list ds"
  using assms
proof (induction ds arbitrary: ss n)
  case (Cons d ds)
  from Cons.prems(2) obtain t ts where ss: "ss = t # ts" by (cases ss) auto
  from Cons.prems(1) obtain m where m: "contiguous_stride (zip ds ts) = Some m" "d > 1 \<longrightarrow> t = m" "n = m * max d 1"
    by (auto simp: ss split: option.splits if_splits)
  have "filter (\<lambda>a. fst a > 1) (zip ds ts) = filter (\<lambda>a. fst a > 1) (zip ds (suffix_products ds)) \<and> m = prod_list ds"
    using Cons.IH [OF m(1)] Cons.prems by (simp add: ss)
  then show ?case using m(2,3) Cons.prems(3) by (auto simp: ss max_def)
qed simp

lemma contiguous_bytes:
  assumes "desc_ok d" "is_contiguous d"
  shows "td_bytes d = prod_list (td_shape d) * dtype_bytes (td_dtype d)"
proof (cases "0 \<in> set (td_shape d)")
  case True
  then show ?thesis using desc_ok_facts(2) [OF assms(1)] by (simp add: prod_list_zero_iff)
next
  case False
  note str = strided_Inr [OF assms(1) [unfolded desc_ok_def]]
  have "\<not> desc_is_empty d" using False desc_ok_facts(1) [OF assms(1)] by (simp add: desc_is_empty_def prod_list_zero_iff)
  then obtain n where n: "contiguous_stride (zip (td_shape d) (td_strides d)) = Some n" using assms(2) by (auto simp: is_contiguous_def)
  have len: "length (td_strides d) = length (td_shape d)" using str(1) .
  from contiguous_axes [OF n len False] have axes: "long_axes (td_shape d) (td_strides d) = long_axes (td_shape d) (suffix_products (td_shape d))"
      and np: "n = prod_list (td_shape d)" by (simp_all add: long_axes_def)
  obtain extent where ex: "pack_axes (long_axes (td_shape d) (td_strides d)) 1 = Inr extent" "td_bytes d = extent * dtype_bytes (td_dtype d)"
    using str(8) [OF False] by auto
  have "try_product 1 (td_shape d) \<noteq> None"
    using assms(1) False by (auto simp: desc_ok_def strided_def Let_def split: if_splits option.splits)
  then have fits: "prod_list (td_shape d) \<le> usize_MAX" using try_product_eq [OF False, of 1] by (auto simp: usize_MAX_def split: if_splits)
  have "extent = prod_list (td_shape d)"
    using ex(1) pack_row_major [OF False fits] by (simp add: axes long_axes_row_major [OF False])
  with ex(2) show ?thesis by simp
qed

lemma binding_ok:
  assumes "tensor_ok t"
  shows "tensor_binding t = None \<longleftrightarrow> desc_is_empty (dt_desc t)" "tensor_binding t = Some v \<Longrightarrow> view_len v = td_bytes (dt_desc t)"
    "tensor_binding t = Some v \<Longrightarrow> v_start v \<le> v_end v"
  using assms by (auto simp: tensor_ok_def tensor_binding_def view_retain_def view_len_def split: option.splits)

text \<open>Every way to obtain a tensor gives a well-formed one.\<close>

lemma allocate_with_ok [inv_intros]:
  assumes "allocate_with allocate c d = Inr t" "desc_ok d" "\<And>n b. allocate n = Inr b \<Longrightarrow> b_bytes b = n"
  shows "tensor_ok t" "dt_desc t = d" "dt_lease t = None" "dt_view t = Some v \<Longrightarrow> v_start v = 0"
  using assms
  by (auto simp: allocate_with_def tensor_over_def tensor_ok_def and_then_Inr_iff view_len_def whole_view_def buffer_len_def
      map_sum_def split: if_splits sum.splits)

lemma context_tensor_ok [inv_intros]:
  "context_tensor c d v producer = Inr t \<Longrightarrow> desc_ok d \<Longrightarrow> tensor_ok t"
  by (auto simp: context_tensor_def tensor_over_def tensor_ok_def and_then_Inr_iff view_slice_def view_len_def
      map_sum_def split: if_splits sum.splits)

lemma tensor_view_ok [inv_intros]:
  "tensor_view byte_offset d t = Inr t' \<Longrightarrow> desc_ok d \<Longrightarrow> tensor_ok t'"
  by (auto simp: tensor_view_def tensor_ok_def view_slice_def view_len_def Let_def map_sum_def split: if_splits sum.splits option.splits)


section \<open>Concatenation\<close>

fun tiles :: "usize \<Rightarrow> buffer_view list \<Rightarrow> usize \<Rightarrow> bool" where
  "tiles a [] b \<longleftrightarrow> a = b"
| "tiles a (v # vs) b \<longleftrightarrow> v_start v = a \<and> v_start v \<le> v_end v \<and> tiles (v_end v) vs b"

lemma concat_copies_tile:
  assumes "\<forall>t\<in>set ts. tensor_ok t" "offset + sum_list (map (\<lambda>t. td_bytes (dt_desc t)) ts) \<le> view_len destination"
  shows "\<exists>cs. concat_copies destination offset ts = Inr cs \<and> map snd cs = List.map_filter tensor_binding ts
    \<and> tiles (v_start destination + offset) (map fst cs) (v_start destination + offset + sum_list (map (\<lambda>t. td_bytes (dt_desc t)) ts))
    \<and> (\<forall>(part, source)\<in>set cs. view_len part = view_len source \<and> v_buffer part = v_buffer destination)"
  using assms
proof (induction ts arbitrary: offset)
  case (Cons t ts)
  have t: "tensor_ok t" and rest: "\<forall>t\<in>set ts. tensor_ok t" using Cons.prems(1) by simp_all
  show ?case
  proof (cases "tensor_binding t")
    case None
    then have "td_bytes (dt_desc t) = 0" using binding_ok(1) [OF t] empty_bytes t by (auto simp: tensor_ok_def)
    then show ?thesis using Cons.IH [OF rest, of offset] Cons.prems(2) None by (simp add: List.map_filter_simps)
  next
    case (Some source)
    let ?n = "td_bytes (dt_desc t)"
    have len: "view_len source = ?n" by (rule binding_ok(2) [OF t Some])
    let ?part = "destination\<lparr>v_start := v_start destination + offset, v_end := v_start destination + (offset + ?n)\<rparr>"
    have slice: "view_slice destination (offset, offset + view_len source) = Inr ?part"
      using Cons.prems(2) by (simp add: view_slice_def len)
    obtain cs where cs: "concat_copies destination (offset + ?n) ts = Inr cs" "map snd cs = List.map_filter tensor_binding ts"
        "tiles (v_start destination + (offset + ?n)) (map fst cs) (v_start destination + (offset + ?n) + sum_list (map (\<lambda>t. td_bytes (dt_desc t)) ts))"
        "\<forall>(part, source)\<in>set cs. view_len part = view_len source \<and> v_buffer part = v_buffer destination"
      using Cons.IH [OF rest, of "offset + ?n"] Cons.prems(2) by auto
    have "concat_copies destination offset (t # ts) = Inr ((?part, source) # cs)" using Some slice cs(1) by simp
    moreover have "view_len ?part = view_len source" using len by (simp add: view_len_def)
    ultimately show ?thesis using cs(2-4) Some by (simp add: List.map_filter_simps add.assoc)
  qed
qed (simp add: List.map_filter_simps)

lemma concat_rows_spec:
  assumes "concat_rows c proto rows ts = Inr n"
  shows "n = rows + sum_list (map (\<lambda>t. hd (td_shape (dt_desc t))) ts)
    \<and> (\<forall>t\<in>set ts. td_dtype (dt_desc t) = td_dtype proto \<and> length (td_shape (dt_desc t)) = length (td_shape proto)
          \<and> tl (td_shape (dt_desc t)) = tl (td_shape proto) \<and> is_contiguous (dt_desc t) \<and> dt_runtime t = ce_runtime c)"
  using assms
proof (induction ts arbitrary: rows)
  case (Cons t ts)
  from Cons.prems have "concat_rows c proto (rows + hd (td_shape (dt_desc t))) ts = Inr n"
      "td_dtype (dt_desc t) = td_dtype proto \<and> length (td_shape (dt_desc t)) = length (td_shape proto)
        \<and> tl (td_shape (dt_desc t)) = tl (td_shape proto) \<and> is_contiguous (dt_desc t) \<and> dt_runtime t = ce_runtime c"
    by (auto simp: and_then_Inr_iff Let_def context_validate_def split: if_splits option.splits)
  with Cons.IH [OF this(1)] show ?case by simp
qed simp

lemma sum_list_mult: "sum_list (map (\<lambda>x. f x * (k :: nat)) xs) = sum_list (map f xs) * k"
  by (induction xs) (simp_all add: algebra_simps)

text \<open>
  A successful concatenation has as many rows as its inputs together, and, unless it is empty, its copies are one per nonempty input,
  in order, of equal length on both sides, and their destinations tile the output from its first to its last byte.
\<close>

lemma concatenate_tiles:
  assumes "concatenate c inputs = Inr (out, cs)" "\<forall>t\<in>set inputs. tensor_ok t" "\<And>n b. ce_allocate c n = Inr b \<Longrightarrow> b_bytes b = n"
  shows "tensor_ok out" "hd (td_shape (dt_desc out)) = sum_list (map (\<lambda>t. hd (td_shape (dt_desc t))) inputs)"
    "td_bytes (dt_desc out) = sum_list (map (\<lambda>t. td_bytes (dt_desc t)) inputs)"
    "tiles 0 (map fst cs) (td_bytes (dt_desc out))" "map snd cs = List.map_filter tensor_binding inputs"
    "\<forall>(part, source)\<in>set cs. view_len part = view_len source"
proof -
  from assms(1) obtain first more where inputs: "inputs = first # more" by (cases inputs) (auto simp: concatenate_def)
  let ?proto = "dt_desc first"
  from assms(1) obtain rows d0 d result where shape: "td_shape ?proto \<noteq> []"
    and rows: "concat_rows c ?proto 0 inputs = Inr rows"
    and d0: "tensor_new (td_dtype ?proto) (rows # tl (td_shape ?proto)) = Inr d0" and d: "with_layout (td_layout ?proto) d0 = Inr d"
    and result: "allocate_with (ce_allocate c) c d = Inr result"
    and fin: "concat_submit c inputs result = Inr (out, cs)"
    by (auto simp: concatenate_def inputs Let_def and_then_Inr_iff split: if_splits)
  have rest: "(\<exists>destination done_at. tensor_binding result = Some destination \<and> concat_copies destination 0 inputs = Inr cs \<and> out = result\<lparr>dt_producer := done_at\<rparr>)
        \<or> (tensor_binding result = None \<and> out = result \<and> cs = [])"
    using fin by (cases "tensor_binding result") (auto simp: concat_submit_def and_then_Inr_iff)
  note spec = concat_rows_spec [OF rows]
  have dd: "td_shape d = rows # tl (td_shape ?proto)" "td_dtype d = td_dtype ?proto" "td_bytes d = td_bytes d0" "td_elements d = td_elements d0"
    using d0 d strided_Inr(2,3) by (auto simp: tensor_new_def with_layout_def split: if_splits sum.splits layout.splits)
  have ok_d: "desc_ok d" using desc_ok_layout [OF d desc_ok_new [OF d0]] .
  note alloc = allocate_with_ok [OF result ok_d assms(3)]
  have out: "dt_desc out = d" "dt_view out = dt_view result" using rest alloc(2) by auto
  show "tensor_ok out" using alloc(1) out alloc(2) by (simp add: tensor_ok_def)
  show "hd (td_shape (dt_desc out)) = sum_list (map (\<lambda>t. hd (td_shape (dt_desc t))) inputs)" using spec dd out by simp
  let ?tail = "prod_list (tl (td_shape ?proto)) * dtype_bytes (td_dtype ?proto)"
  have each: "td_bytes (dt_desc t) = hd (td_shape (dt_desc t)) * ?tail" if "t \<in> set inputs" for t
  proof -
    have "desc_ok (dt_desc t)" "is_contiguous (dt_desc t)" "tl (td_shape (dt_desc t)) = tl (td_shape ?proto)"
        "td_dtype (dt_desc t) = td_dtype ?proto" "td_shape (dt_desc t) \<noteq> []"
      using that assms(2) spec shape by (auto simp: tensor_ok_def)
    then show ?thesis using contiguous_bytes [of "dt_desc t"] by (cases "td_shape (dt_desc t)") simp_all
  qed
  have bytes_d: "td_bytes d = rows * ?tail"
  proof (cases "0 \<in> set (td_shape d)")
    case True
    then show ?thesis using desc_ok_facts(2) [OF ok_d] by (auto simp: dd prod_list_zero_iff)
  next
    case False
    then show ?thesis using d0 dd by (simp add: tensor_new_eq split: if_splits) auto
  qed
  have total_bytes: "td_bytes d = sum_list (map (\<lambda>t. td_bytes (dt_desc t)) inputs)"
  proof -
    have "map (\<lambda>t. td_bytes (dt_desc t)) inputs = map (\<lambda>t. hd (td_shape (dt_desc t)) * ?tail) inputs" using each by simp
    then show ?thesis using bytes_d spec by (simp only: sum_list_mult) simp
  qed
  then show "td_bytes (dt_desc out) = sum_list (map (\<lambda>t. td_bytes (dt_desc t)) inputs)" by (simp add: out)
  show "tiles 0 (map fst cs) (td_bytes (dt_desc out))" "map snd cs = List.map_filter tensor_binding inputs"
    "\<forall>(part, source)\<in>set cs. view_len part = view_len source"
  proof -
    have "tiles 0 (map fst cs) (td_bytes d) \<and> map snd cs = List.map_filter tensor_binding inputs \<and> (\<forall>(part, source)\<in>set cs. view_len part = view_len source)"
    proof (cases "tensor_binding result")
      case None
      then have "cs = []" "td_bytes d = 0" using rest binding_ok(1) [OF alloc(1)] empty_bytes ok_d alloc(2) by auto
      then have "desc_is_empty (dt_desc t)" if "t \<in> set inputs" for t
        using that each [of t] contiguous_bytes [of "dt_desc t"] assms(2) spec \<open>td_bytes d = 0\<close> total_bytes desc_ok_facts(1) [of "dt_desc t"]
        by (cases "td_dtype (dt_desc t)") (auto simp: tensor_ok_def desc_is_empty_def sum_list_eq_0_iff)
      then have "tensor_binding t = None" if "t \<in> set inputs" for t using binding_ok(1) [of t] assms(2) that by blast
      then have "List.map_filter tensor_binding inputs = []" by (auto simp: List.map_filter_def)
      then show ?thesis using \<open>cs = []\<close> \<open>td_bytes d = 0\<close> by simp
    next
      case (Some destination)
      have "view_len destination = td_bytes d" using binding_ok(2) [OF alloc(1) Some] alloc(2) by simp
      moreover have "v_start destination = 0" using alloc(4) Some by (simp add: tensor_binding_def alloc(3))
      ultimately show ?thesis using concat_copies_tile [OF assms(2), of 0 destination] total_bytes rest Some by fastforce
    qed
    then show "tiles 0 (map fst cs) (td_bytes (dt_desc out))" "map snd cs = List.map_filter tensor_binding inputs"
      "\<forall>(part, source)\<in>set cs. view_len part = view_len source" by (simp_all add: out)
  qed
qed


section \<open>Staged bytes\<close>

text \<open>The parts end up one behind the other in the prefix of the staging buffer, whatever was there before.\<close>

lemma write_parts_concat:
  assumes "at + sum_list (map length parts) \<le> length mapped"
  shows "write_parts at parts mapped = Some (take at mapped @ concat parts @ drop (at + sum_list (map length parts)) mapped)"
  using assms
proof (induction parts arbitrary: at mapped)
  case (Cons p ps)
  let ?m = "take at mapped @ p @ drop (at + length p) mapped"
  have "take (at + length p) ?m = take at mapped @ p" using Cons.prems by simp
  moreover have "drop (at + length p + sum_list (map length ps)) ?m = drop (at + (length p + sum_list (map length ps))) mapped"
    using Cons.prems by (simp add: ac_simps)
  ultimately show ?case using Cons.IH [of "at + length p" ?m] Cons.prems by simp
qed simp

lemma stage_buffer_fits:
  assumes "stage_buffer c n pool = (Inr b, rest)" "\<And>n b. ce_allocate_host c n = Inr b \<Longrightarrow> b_bytes b = n"
  shows "n \<le> buffer_len b"
  using assms staging_take_idle(2) [of "ce_complete c" n pool _ rest]
  by (auto simp: stage_buffer_def buffer_len_def split: prod.splits option.splits)

text \<open>
  An upload of the right length never panics, and what it stages and copies over the whole tensor is exactly
  the concatenation of the parts.
\<close>

lemma upload_exact:
  assumes "\<And>n b. ce_allocate_host c n = Inr b \<Longrightarrow> b_bytes b = n" "\<And>n b. ce_allocate_overwritten c n = Inr b \<Longrightarrow> b_bytes b = n"
    "\<And>b m. ce_map_write c b = Inr m \<Longrightarrow> length m = buffer_len b" "desc_ok d"
  shows "upload_parts c d parts pool \<noteq> None"
    "upload_parts c d parts pool = Some (Inr u, rest) \<Longrightarrow>
      tensor_ok (up_tensor u) \<and> (desc_is_empty d \<or> up_staged u = concat parts) \<and> length (concat parts) = td_bytes d
      \<and> (\<forall>(to, from)\<in>set (up_copies u). view_len to = td_bytes d \<and> view_len from = td_bytes d \<and> v_start from = 0)"
proof -
  let ?n = "sum_list (map length parts)"
  have staged: "write_parts 0 parts m = Some (concat parts @ drop ?n m)"
    if "stage_buffer c ?n pool = (Inr b, more)" "ce_map_write c b = Inr m" for b more m
    using write_parts_concat [of 0 parts m] stage_buffer_fits [OF that(1) assms(1)] assms(3) [OF that(2)] by simp
  show "upload_parts c d parts pool \<noteq> None"
    using staged by (auto simp: upload_parts_def Let_def split: sum.splits option.splits prod.splits if_splits)
  assume u: "upload_parts c d parts pool = Some (Inr u, rest)"
  then obtain t where n: "?n = td_bytes d" and t: "allocate_with (ce_allocate_overwritten c) c d = Inr t"
    by (auto simp: upload_parts_def Let_def split: sum.splits if_splits)
  note ok = allocate_with_ok [OF t assms(4,2)]
  have len: "length (concat parts) = td_bytes d" using n by (simp add: length_concat)
  show "tensor_ok (up_tensor u) \<and> (desc_is_empty d \<or> up_staged u = concat parts) \<and> length (concat parts) = td_bytes d
      \<and> (\<forall>(to, from)\<in>set (up_copies u). view_len to = td_bytes d \<and> view_len from = td_bytes d \<and> v_start from = 0)"
  proof (cases "tensor_binding t")
    case None
    then have "u = \<lparr>up_tensor = t, up_copies = [], up_staged = []\<rparr>" using u n t by (simp add: upload_parts_def Let_def)
    then show ?thesis using ok None binding_ok(1) [OF ok(1)] len by simp
  next
    case (Some to)
    then obtain b rest1 m src done_at where b: "stage_buffer c ?n pool = (Inr b, rest1)" "ce_map_write c b = Inr m"
        "buffer_slice b (0, ?n) = Inr src" "u = \<lparr>up_tensor = t\<lparr>dt_producer := done_at\<rparr>, up_copies = [(to, src)], up_staged = take ?n (concat parts @ drop ?n m)\<rparr>"
      using u n t staged by (auto simp: upload_parts_def Let_def split: sum.splits option.splits prod.splits)
    have "view_len src = td_bytes d" "v_start src = 0"
      using b(3) n by (auto simp: buffer_slice_def view_slice_Inr view_len_def)
    moreover have "view_len to = td_bytes d" using binding_ok(2) [OF ok(1) Some] ok(2) by simp
    moreover have "tensor_ok (t\<lparr>dt_producer := done_at\<rparr>)" using ok(1) by (simp add: tensor_ok_def)
    ultimately show ?thesis using b(4) len n by simp
  qed
qed

text \<open>Device inputs that pass the checks are copied, in order, over exactly the storage of the slot's inputs.\<close>

lemma check_inputs_ok: "check_inputs c ps = Inr () \<longleftrightarrow> (\<forall>(a, b)\<in>set ps. dt_runtime a = ce_runtime c \<and> dt_desc a = dt_desc b)"
  by (induction c ps rule: check_inputs.induct) (auto simp: and_then_Inr_iff context_validate_def split: if_splits)

lemma input_copies_match:
  assumes "length inputs = length slots" "check_inputs c (zip inputs slots) = Inr ()" "\<forall>t\<in>set inputs \<union> set slots. tensor_ok t"
  shows "map fst (input_copies inputs slots) = List.map_filter tensor_binding slots
    \<and> map snd (input_copies inputs slots) = List.map_filter tensor_binding inputs
    \<and> (\<forall>(to, from)\<in>set (input_copies inputs slots). view_len to = view_len from)"
  using assms
proof (induction inputs slots rule: list_induct2)
  case (Cons x xs y ys)
  have "\<forall>(a, b)\<in>set (zip (x # xs) (y # ys)). dt_runtime a = ce_runtime c \<and> dt_desc a = dt_desc b"
    using Cons.prems(1) by (simp only: check_inputs_ok)
  then have xy: "tensor_ok x" "tensor_ok y" "dt_desc x = dt_desc y" and pre: "check_inputs c (zip xs ys) = Inr ()"
    using Cons.prems(2) by (auto simp: check_inputs_ok)
  have same: "tensor_binding x = None \<longleftrightarrow> tensor_binding y = None" using binding_ok(1) xy by metis
  have len: "view_len v = view_len w" if "tensor_binding x = Some v" "tensor_binding y = Some w" for v w
    using binding_ok(2) xy that by metis
  have "\<forall>t\<in>set xs \<union> set ys. tensor_ok t" using Cons.prems(2) by auto
  note ih = Cons.IH [OF pre this]
  show ?case
  proof (cases "tensor_binding x")
    case None
    then have "tensor_binding y = None" using same by simp
    with None have "input_copies (x # xs) (y # ys) = input_copies xs ys" by (simp add: input_copies_def List.map_filter_simps)
    with ih None \<open>tensor_binding y = None\<close> show ?thesis by (simp add: List.map_filter_simps)
  next
    case (Some v)
    then obtain w where w: "tensor_binding y = Some w" using same by auto
    with Some have "input_copies (x # xs) (y # ys) = (w, v) # input_copies xs ys" by (simp add: input_copies_def List.map_filter_simps)
    with ih Some w len [OF Some w] show ?thesis by (simp add: List.map_filter_simps)
  qed
qed (simp add: input_copies_def List.map_filter_simps)

end
