(* ===== verification/Mapped_Pages.thy ===== *)
theory Mapped_Pages
  imports Align_Mask
begin

text \<open>
  Population of mapped pages by several workers, \<^verbatim>\<open>src/src/artifacts/mapped_pages.rs\<close>. The workers take chunk numbers
  from one atomic counter; a turn of a worker is its fetch and the operation on the chunk it got. The answers of
  the operating system are the argument \<open>operation\<close>, by address and length. A thread that cannot be created, whose error is returned
  once the running workers have finished, is not part of the runs below.
\<close>


section \<open>Chunks\<close>

datatype io_error = OsError int | OtherIo string

text \<open>\<^verbatim>\<open>EINVAL\<close>, \<^verbatim>\<open>ENOSYS\<close> and \<^verbatim>\<open>EOPNOTSUPP\<close>.\<close>

fun unsupported :: "io_error \<Rightarrow> bool" where
  "unsupported (OsError code) \<longleftrightarrow> code = 22 \<or> code = 38 \<or> code = 95"
| "unsupported (OtherIo _) \<longleftrightarrow> False"

definition CHUNK_BYTES :: usize where
  "CHUNK_BYTES = 16777216"

definition MAX_WORKERS :: usize where
  "MAX_WORKERS = 16"

definition div_ceil :: "usize \<Rightarrow> usize \<Rightarrow> usize" where
  "div_ceil a b = a div b + (if a mod b = 0 then 0 else 1)"

text \<open>A later failure replaces nothing, or a failure that only says the operation is unsupported.\<close>

fun keep_error :: "io_error option \<Rightarrow> io_error option \<Rightarrow> io_error option" where
  "keep_error old None = old"
| "keep_error None (Some e) = Some e"
| "keep_error (Some a) (Some e) = (if unsupported a then Some e else Some a)"

record chunk_state =
  ck_next :: usize
  ck_errors :: "nat \<Rightarrow> io_error option"
  ck_finished :: "nat set"
  ck_calls :: "(nat \<times> usize \<times> usize) list"

definition chunks_start :: chunk_state where
  "chunks_start = \<lparr>ck_next = 0, ck_errors = (\<lambda>_. None), ck_finished = {}, ck_calls = []\<rparr>"

definition chunk_at :: "usize \<Rightarrow> usize \<Rightarrow> nat \<Rightarrow> usize \<times> usize" where
  "chunk_at start len index = (start + index * CHUNK_BYTES, min CHUNK_BYTES (len - index * CHUNK_BYTES))"

definition chunk_turn ::
  "usize \<Rightarrow> usize \<Rightarrow> (usize \<Rightarrow> usize \<Rightarrow> io_error option) \<Rightarrow> nat \<Rightarrow> chunk_state \<Rightarrow> chunk_state" where
  "chunk_turn start len operation worker s =
     (let index = ck_next s; s1 = s\<lparr>ck_next := index + 1\<rparr>
      in if div_ceil len CHUNK_BYTES \<le> index then s1\<lparr>ck_finished := insert worker (ck_finished s)\<rparr>
         else let (address, bytes) = chunk_at start len index
              in s1\<lparr>ck_errors := (ck_errors s)(worker := keep_error (ck_errors s worker) (operation address bytes)),
                    ck_calls := ck_calls s @ [(worker, address, bytes)]\<rparr>)"

definition worker_count :: "usize \<Rightarrow> usize \<Rightarrow> nat" where
  "worker_count workers count = max 1 (min (max 1 (min workers MAX_WORKERS)) count)"

inductive chunk_step :: "usize \<Rightarrow> usize \<Rightarrow> usize \<Rightarrow> (usize \<Rightarrow> usize \<Rightarrow> io_error option) \<Rightarrow> chunk_state \<Rightarrow> chunk_state \<Rightarrow> bool"
  for start len workers operation where
  turn: "worker < worker_count workers (div_ceil len CHUNK_BYTES) \<Longrightarrow> worker \<notin> ck_finished s \<Longrightarrow>
    chunk_step start len workers operation s (chunk_turn start len operation worker s)"

text \<open>The calling thread is worker zero; the results of the others are joined to its own in order.\<close>

definition chunks_result :: "usize \<Rightarrow> usize \<Rightarrow> chunk_state \<Rightarrow> io_error option" where
  "chunks_result len workers s =
     fold (\<lambda>w r. keep_error r (ck_errors s w)) [1..<worker_count workers (div_ceil len CHUNK_BYTES)] (ck_errors s 0)"

text \<open>\<open>chunked\<close> is the result of the chunks, \<open>advised\<close> that of the advisory prefetch.\<close>

definition populate :: "io_error option \<Rightarrow> io_error option \<Rightarrow> io_error + bool" where
  "populate chunked advised =
     (case chunked of
        None \<Rightarrow> Inr True
      | Some e \<Rightarrow> if unsupported e then (case advised of None \<Rightarrow> Inr False | Some a \<Rightarrow> Inl a) else Inl e)"


section \<open>Severity of failures\<close>

fun severity :: "io_error option \<Rightarrow> nat" where
  "severity None = 0"
| "severity (Some e) = (if unsupported e then 1 else 2)"

lemma severity_keep [simp]: "severity (keep_error a b) = max (severity a) (severity b)"
  by (cases a; cases b) auto

lemma severity_fold: "severity (fold (\<lambda>w r. keep_error r (f w)) ws r) = fold (\<lambda>w m. max m (severity (f w))) ws (severity r)"
  by (induction ws arbitrary: r) simp_all

lemma fold_max_ge: "m \<le> fold (\<lambda>w m. max m (g w)) ws m" for m :: nat
  by (induction ws arbitrary: m) (auto intro: order_trans [OF max.cobounded1])

lemma fold_max_ends: "w \<in> set ws \<Longrightarrow> g w \<le> fold (\<lambda>w m. max m (g w)) ws m" for m :: nat
proof (induction ws arbitrary: m)
  case (Cons v ws)
  then show ?case using fold_max_ge [of "max m (g v)" g ws] by auto
qed simp

lemma fold_max_attained: "fold (\<lambda>w m. max m (g w)) ws m = m \<or> (\<exists>w\<in>set ws. fold (\<lambda>w m. max m (g w)) ws m = g w)" for m :: nat
proof (induction ws arbitrary: m)
  case (Cons v ws)
  from Cons.IH [of "max m (g v)"] show ?case by (auto simp: max_def)
qed simp


section \<open>The invariant of the workers\<close>

lemma div_ceil_bounds:
  assumes "0 < b"
  shows "i < div_ceil a b \<longleftrightarrow> i * b < a"
proof (cases "a mod b = 0")
  case True
  then obtain k where "a = b * k" by auto
  then show ?thesis using assms by (simp add: div_ceil_def mult.commute)
next
  case False
  have split: "a = a div b * b + a mod b" by simp
  have "i \<le> a div b \<longleftrightarrow> i * b \<le> a div b * b" using assms by simp
  also have "\<dots> \<longleftrightarrow> i * b < a"
  proof
    assume "i * b \<le> a div b * b"
    with split False show "i * b < a" by linarith
  next
    assume "i * b < a"
    then have "i \<le> a div b" using assms by (simp add: less_eq_div_iff_mult_less_eq)
    then show "i * b \<le> a div b * b" by simp
  qed
  finally show ?thesis using False by (simp add: div_ceil_def less_Suc_eq_le)
qed

definition call_severity :: "(usize \<Rightarrow> usize \<Rightarrow> io_error option) \<Rightarrow> usize \<times> usize \<Rightarrow> nat" where
  "call_severity operation c = severity (operation (fst c) (snd c))"

definition chunks_inv :: "usize \<Rightarrow> usize \<Rightarrow> usize \<Rightarrow> (usize \<Rightarrow> usize \<Rightarrow> io_error option) \<Rightarrow> chunk_state \<Rightarrow> bool" where
  "chunks_inv start len workers operation s \<longleftrightarrow>
     map snd (ck_calls s) = map (chunk_at start len) [0..<min (ck_next s) (div_ceil len CHUNK_BYTES)]
     \<and> (\<forall>(w, c)\<in>set (ck_calls s). w < worker_count workers (div_ceil len CHUNK_BYTES) \<and> call_severity operation c \<le> severity (ck_errors s w))
     \<and> (\<forall>w. severity (ck_errors s w) = 0 \<or> (\<exists>c. (w, c) \<in> set (ck_calls s) \<and> severity (ck_errors s w) = call_severity operation c))
     \<and> (ck_finished s \<noteq> {} \<longrightarrow> div_ceil len CHUNK_BYTES \<le> ck_next s)
     \<and> ck_finished s \<subseteq> {..<worker_count workers (div_ceil len CHUNK_BYTES)}"

lemma chunks_inv_start: "chunks_inv start len workers operation chunks_start"
  by (simp add: chunks_inv_def chunks_start_def)

lemma chunks_inv_step:
  assumes "chunks_inv start len workers operation s" "chunk_step start len workers operation s s'"
  shows "chunks_inv start len workers operation s'"
  using assms(2)
proof cases
  case (turn worker)
  let ?count = "div_ceil len CHUNK_BYTES" and ?c = "chunk_at start len (ck_next s)"
  show ?thesis
  proof (cases "?count \<le> ck_next s")
    case True
    then have s': "s' = s\<lparr>ck_next := ck_next s + 1, ck_finished := insert worker (ck_finished s)\<rparr>"
      using turn by (simp add: chunk_turn_def Let_def)
    show ?thesis using assms(1) True turn(2) unfolding chunks_inv_def s' by (simp add: min_absorb2)
  next
    case False
    then have s': "s' = s\<lparr>ck_next := ck_next s + 1,
        ck_errors := (ck_errors s)(worker := keep_error (ck_errors s worker) (operation (fst ?c) (snd ?c))),
        ck_calls := ck_calls s @ [(worker, ?c)]\<rparr>"
      using turn by (simp add: chunk_turn_def Let_def split: prod.splits)
    have calls: "map snd (ck_calls s') = map (chunk_at start len) [0..<min (ck_next s') ?count]"
      using assms(1) False by (simp add: chunks_inv_def s' min_absorb1)
    have upper: "v < worker_count workers ?count \<and> call_severity operation c \<le> severity (ck_errors s' v)" if "(v, c) \<in> set (ck_calls s')" for v c
      using assms(1) that turn(2) unfolding chunks_inv_def s' by (auto simp: call_severity_def)
    have attained: "severity (ck_errors s' v) = 0 \<or> (\<exists>c. (v, c) \<in> set (ck_calls s') \<and> severity (ck_errors s' v) = call_severity operation c)" for v
    proof -
      have old: "severity (ck_errors s v) = 0 \<or> (\<exists>c. (v, c) \<in> set (ck_calls s) \<and> severity (ck_errors s v) = call_severity operation c)"
        using assms(1) unfolding chunks_inv_def by blast
      show ?thesis
      proof (cases "v = worker \<and> severity (ck_errors s v) \<le> call_severity operation ?c")
        case True
        then have "severity (ck_errors s' v) = call_severity operation ?c" by (auto simp: s' call_severity_def max_absorb2)
        moreover have "(v, ?c) \<in> set (ck_calls s')" using True by (simp add: s')
        ultimately show ?thesis by blast
      next
        case False
        then have "severity (ck_errors s' v) = severity (ck_errors s v)" by (auto simp: s' call_severity_def max_def)
        with old show ?thesis by (auto simp: s')
      qed
    qed
    have "ck_finished s = {}" using assms(1) False by (auto simp: chunks_inv_def)
    then have "ck_finished s' = {}" by (simp add: s')
    then show ?thesis unfolding chunks_inv_def using calls upper attained by auto
  qed
qed

lemma chunks_inv_reachable:
  assumes "(chunk_step start len workers operation)\<^sup>*\<^sup>* chunks_start s"
  shows "chunks_inv start len workers operation s"
  using assms by induction (auto intro: chunks_inv_start chunks_inv_step)

text \<open>Every run of the workers ends: a turn takes a chunk or finishes a worker.\<close>

definition chunks_left :: "usize \<Rightarrow> usize \<Rightarrow> chunk_state \<Rightarrow> nat" where
  "chunks_left len workers s =
     (div_ceil len CHUNK_BYTES - ck_next s) + card ({..<worker_count workers (div_ceil len CHUNK_BYTES)} - ck_finished s)"

lemma chunks_terminate:
  assumes "chunk_step start len workers operation s s'"
  shows "chunks_left len workers s' < chunks_left len workers s"
  using assms
proof cases
  case (turn worker)
  let ?count = "div_ceil len CHUNK_BYTES"
  let ?open = "{..<worker_count workers ?count} - ck_finished s"
  show ?thesis
  proof (cases "?count \<le> ck_next s")
    case True
    have "{..<worker_count workers ?count} - insert worker (ck_finished s) = ?open - {worker}" by blast
    moreover have "card (?open - {worker}) < card ?open" using turn(2,3) by (intro card_Diff1_less) auto
    ultimately show ?thesis using True turn(1) by (simp add: chunks_left_def chunk_turn_def Let_def)
  next
    case False
    then show ?thesis using turn(1) by (simp add: chunks_left_def chunk_turn_def Let_def split: prod.splits)
  qed
qed

text \<open>The chunks tile the range.\<close>

lemma chunks_tile:
  assumes "i < div_ceil len CHUNK_BYTES"
  shows "0 < snd (chunk_at start len i)" "snd (chunk_at start len i) \<le> CHUNK_BYTES"
    "fst (chunk_at start len i) + snd (chunk_at start len i) =
      (if Suc i < div_ceil len CHUNK_BYTES then fst (chunk_at start len (Suc i)) else start + len)"
proof -
  have pos: "0 < CHUNK_BYTES" by (simp add: CHUNK_BYTES_def)
  have i: "i * CHUNK_BYTES < len" using assms div_ceil_bounds [OF pos] by simp
  then show "0 < snd (chunk_at start len i)" "snd (chunk_at start len i) \<le> CHUNK_BYTES" using pos by (simp_all add: chunk_at_def)
  have "Suc i < div_ceil len CHUNK_BYTES \<longleftrightarrow> i * CHUNK_BYTES + CHUNK_BYTES < len" using div_ceil_bounds [OF pos, of "Suc i"] by (simp add: add.commute)
  then show "fst (chunk_at start len i) + snd (chunk_at start len i) =
      (if Suc i < div_ceil len CHUNK_BYTES then fst (chunk_at start len (Suc i)) else start + len)"
    using i by (auto simp: chunk_at_def min_def)
qed

text \<open>
  When all workers are done, each chunk was handed to the operating system once, and the joined result is as severe as the
  worst answer: success only when all succeeded, unsupported only when nothing failed for another reason.
\<close>

lemma chunks_exact:
  assumes "(chunk_step start len workers operation)\<^sup>*\<^sup>* chunks_start s"
    "ck_finished s = {..<worker_count workers (div_ceil len CHUNK_BYTES)}"
  shows "map snd (ck_calls s) = map (chunk_at start len) [0..<div_ceil len CHUNK_BYTES]"
    "\<forall>i<div_ceil len CHUNK_BYTES. call_severity operation (chunk_at start len i) \<le> severity (chunks_result len workers s)"
    "severity (chunks_result len workers s) = 0 \<or>
      (\<exists>i<div_ceil len CHUNK_BYTES. severity (chunks_result len workers s) = call_severity operation (chunk_at start len i))"
proof -
  let ?count = "div_ceil len CHUNK_BYTES"
  let ?n = "worker_count workers ?count"
  note inv = chunks_inv_reachable [OF assms(1)]
  have n: "0 < ?n" by (simp add: worker_count_def)
  then have "ck_finished s \<noteq> {}" using assms(2) by auto
  then have "?count \<le> ck_next s" using inv by (simp add: chunks_inv_def)
  then show calls: "map snd (ck_calls s) = map (chunk_at start len) [0..<?count]" using inv by (simp add: chunks_inv_def min_absorb2)
  have sev: "severity (chunks_result len workers s) =
      fold (\<lambda>w m. max m (severity (ck_errors s w))) [1..<?n] (severity (ck_errors s 0))"
    by (simp add: chunks_result_def severity_fold)
  have each: "severity (ck_errors s w) \<le> severity (chunks_result len workers s)" if "w < ?n" for w
    unfolding sev using that fold_max_ge fold_max_ends [of w "[1..<?n]" "\<lambda>w. severity (ck_errors s w)"]
    by (cases "w = 0") auto
  show "\<forall>i<?count. call_severity operation (chunk_at start len i) \<le> severity (chunks_result len workers s)"
  proof (intro allI impI)
    fix i assume "i < ?count"
    then have "chunk_at start len i \<in> set (map snd (ck_calls s))" unfolding calls by simp
    then obtain w where "(w, chunk_at start len i) \<in> set (ck_calls s)" by auto
    then have "w < ?n" "call_severity operation (chunk_at start len i) \<le> severity (ck_errors s w)"
      using inv unfolding chunks_inv_def by blast+
    with each [of w] show "call_severity operation (chunk_at start len i) \<le> severity (chunks_result len workers s)" by linarith
  qed
  obtain w where w: "severity (chunks_result len workers s) = severity (ck_errors s w)"
    unfolding sev using fold_max_attained [of "\<lambda>w. severity (ck_errors s w)" "[1..<?n]" "severity (ck_errors s 0)"] by blast
  have "severity (ck_errors s w) = 0 \<or> (\<exists>c. (w, c) \<in> set (ck_calls s) \<and> severity (ck_errors s w) = call_severity operation c)"
    using inv unfolding chunks_inv_def by blast
  moreover have "\<exists>i<?count. c = chunk_at start len i" if "(w, c) \<in> set (ck_calls s)" for c
  proof -
    have "c \<in> set (map snd (ck_calls s))" using that by force
    then show ?thesis unfolding calls by auto
  qed
  ultimately show "severity (chunks_result len workers s) = 0 \<or>
      (\<exists>i<?count. severity (chunks_result len workers s) = call_severity operation (chunk_at start len i))"
    unfolding w by metis
qed

lemma severity_iff: "severity r = 0 \<longleftrightarrow> r = None" "severity r = 1 \<longleftrightarrow> (\<exists>e. r = Some e \<and> unsupported e)" "severity r \<le> 2"
  by (cases r; auto)+

text \<open>
  Population reports populated pages exactly when every chunk was populated, and falls back to advice
  only when every failure says that population is unsupported.
\<close>

lemma populate_exact:
  assumes "(chunk_step start len workers operation)\<^sup>*\<^sup>* chunks_start s"
    "ck_finished s = {..<worker_count workers (div_ceil len CHUNK_BYTES)}"
  shows "populate (chunks_result len workers s) advised = Inr True \<longleftrightarrow>
      (\<forall>i<div_ceil len CHUNK_BYTES. operation (fst (chunk_at start len i)) (snd (chunk_at start len i)) = None)"
    "populate (chunks_result len workers s) advised = Inr False \<Longrightarrow>
      \<forall>i<div_ceil len CHUNK_BYTES. \<forall>e. operation (fst (chunk_at start len i)) (snd (chunk_at start len i)) = Some e \<longrightarrow> unsupported e"
proof -
  let ?r = "chunks_result len workers s"
  note ex = chunks_exact(2,3) [OF assms]
  have "populate ?r advised = Inr True \<longleftrightarrow> severity ?r = 0"
    by (auto simp: populate_def severity_iff split: option.splits)
  also have "\<dots> \<longleftrightarrow> (\<forall>i<div_ceil len CHUNK_BYTES. call_severity operation (chunk_at start len i) = 0)"
    using ex by fastforce
  finally show "populate ?r advised = Inr True \<longleftrightarrow>
      (\<forall>i<div_ceil len CHUNK_BYTES. operation (fst (chunk_at start len i)) (snd (chunk_at start len i)) = None)"
    by (simp add: call_severity_def severity_iff)
  assume "populate ?r advised = Inr False"
  then have "severity ?r \<le> 1" by (auto simp: populate_def split: option.splits if_splits)
  then have "call_severity operation (chunk_at start len i) \<le> 1" if "i < div_ceil len CHUNK_BYTES" for i
    using ex(1) that by (meson order_trans)
  then show "\<forall>i<div_ceil len CHUNK_BYTES. \<forall>e. operation (fst (chunk_at start len i)) (snd (chunk_at start len i)) = Some e \<longrightarrow> unsupported e"
    by (fastforce simp: call_severity_def split: if_splits)
qed

end
