(* ===== verification/Safe_Tensors.thy ===== *)
theory Safe_Tensors
  imports Mapped_Pages
begin

text \<open>
  Indexed SafeTensors files, \<^verbatim>\<open>src/src/artifacts/safetensors.rs\<close>. The parser of the header is another crate: \<open>read_metadata\<close>
  is its answer on the file's bytes, a header length and the tensors in the order it lists them. A file view
  holds the bytes at an address \<open>fv_base\<close>; a borrowed range of bytes is an address and a length.
  The index, an ordered map in the code, is a function from names; listing its names in order is left out.
\<close>


section \<open>Element types\<close>

datatype native_dtype =
    N_BOOL | N_F4 | N_F6_E2M3 | N_F6_E3M2 | N_U8 | N_I8 | N_F8_E5M2 | N_F8_E4M3 | N_F8_E8M0 | N_F8_E4M3FNUZ | N_F8_E5M2FNUZ
  | N_I16 | N_U16 | N_F16 | N_BF16 | N_I32 | N_U32 | N_F32 | N_C64 | N_F64 | N_I64 | N_U64 | N_Newer nat

datatype st_dtype =
    BOOL | F4 | F6_E2M3 | F6_E3M2 | U8 | I8 | F8_E5M2 | F8_E4M3 | F8_E8M0 | F8_E4M3FNUZ | F8_E5M2FNUZ
  | I16 | U16 | F16 | BF16 | I32 | U32 | F32 | C64 | F64 | I64 | U64 | Unknown

fun dtype_from :: "native_dtype \<Rightarrow> st_dtype" where
  "dtype_from N_BOOL = BOOL"
| "dtype_from N_F4 = F4"
| "dtype_from N_F6_E2M3 = F6_E2M3"
| "dtype_from N_F6_E3M2 = F6_E3M2"
| "dtype_from N_U8 = U8"
| "dtype_from N_I8 = I8"
| "dtype_from N_F8_E5M2 = F8_E5M2"
| "dtype_from N_F8_E4M3 = F8_E4M3"
| "dtype_from N_F8_E8M0 = F8_E8M0"
| "dtype_from N_F8_E4M3FNUZ = F8_E4M3FNUZ"
| "dtype_from N_F8_E5M2FNUZ = F8_E5M2FNUZ"
| "dtype_from N_I16 = I16"
| "dtype_from N_U16 = U16"
| "dtype_from N_F16 = F16"
| "dtype_from N_BF16 = BF16"
| "dtype_from N_I32 = I32"
| "dtype_from N_U32 = U32"
| "dtype_from N_F32 = F32"
| "dtype_from N_C64 = C64"
| "dtype_from N_F64 = F64"
| "dtype_from N_I64 = I64"
| "dtype_from N_U64 = U64"
| "dtype_from (N_Newer _) = Unknown"

definition st_dtype_bytes :: "st_dtype \<Rightarrow> usize option" where
  "st_dtype_bytes d =
     (if d \<in> {F4, F6_E2M3, F6_E3M2, Unknown} then None
      else if d \<in> {BOOL, U8, I8, F8_E5M2, F8_E4M3, F8_E8M0, F8_E4M3FNUZ, F8_E5M2FNUZ} then Some 1
      else if d \<in> {I16, U16, F16, BF16} then Some 2
      else if d \<in> {I32, U32, F32} then Some 4
      else Some 8)"

fun debug_dtype :: "st_dtype \<Rightarrow> string" where
  "debug_dtype BOOL = ''BOOL''"
| "debug_dtype F4 = ''F4''"
| "debug_dtype F6_E2M3 = ''F6_E2M3''"
| "debug_dtype F6_E3M2 = ''F6_E3M2''"
| "debug_dtype U8 = ''U8''"
| "debug_dtype I8 = ''I8''"
| "debug_dtype F8_E5M2 = ''F8_E5M2''"
| "debug_dtype F8_E4M3 = ''F8_E4M3''"
| "debug_dtype F8_E8M0 = ''F8_E8M0''"
| "debug_dtype F8_E4M3FNUZ = ''F8_E4M3FNUZ''"
| "debug_dtype F8_E5M2FNUZ = ''F8_E5M2FNUZ''"
| "debug_dtype I16 = ''I16''"
| "debug_dtype U16 = ''U16''"
| "debug_dtype F16 = ''F16''"
| "debug_dtype BF16 = ''BF16''"
| "debug_dtype I32 = ''I32''"
| "debug_dtype U32 = ''U32''"
| "debug_dtype F32 = ''F32''"
| "debug_dtype C64 = ''C64''"
| "debug_dtype F64 = ''F64''"
| "debug_dtype I64 = ''I64''"
| "debug_dtype U64 = ''U64''"
| "debug_dtype Unknown = ''Unknown''"

fun debug_items :: "string list \<Rightarrow> string" where
  "debug_items [] = ''''"
| "debug_items [x] = x"
| "debug_items (x # xs) = x @ '', '' @ debug_items xs"

definition debug_list :: "string list \<Rightarrow> string" where
  "debug_list xs = ''['' @ debug_items xs @ '']''"

definition show_int :: "int \<Rightarrow> string" where
  "show_int i = (if i < 0 then ''-'' @ show_nat (nat (- i)) else show_nat (nat i))"


section \<open>Entries\<close>

record st_entry =
  en_dtype :: st_dtype
  en_shape :: "usize list"
  en_offset :: usize
  en_bytes :: usize

fun count_elements :: "usize \<Rightarrow> usize list \<Rightarrow> usize result" where
  "count_elements count [] = Inr count"
| "count_elements count (d # ds) =
     (case checked_mul count d of
        None \<Rightarrow> Inl (Message ''SafeTensors element count overflow'')
      | Some n \<Rightarrow> count_elements n ds)"

definition elements :: "st_entry \<Rightarrow> usize result" where
  "elements e = count_elements 1 (en_shape e)"

definition st_rows :: "st_entry \<Rightarrow> usize" where
  "st_rows e = (case en_shape e of [] \<Rightarrow> 1 | d # _ \<Rightarrow> d)"

definition row_bytes :: "st_entry \<Rightarrow> usize result" where
  "row_bytes e =
     (if st_rows e = 0 \<or> en_bytes e mod st_rows e \<noteq> 0
      then Inl (Message ''tensor bytes are not a whole number of rows'')
      else Inr (en_bytes e div st_rows e))"


section \<open>Files\<close>

datatype storage = Owned "nat list" | Mapped "nat list"

fun storage_bytes :: "storage \<Rightarrow> nat list" where
  "storage_bytes (Owned bytes) = bytes"
| "storage_bytes (Mapped bytes) = bytes"

record file_view =
  fv_path :: string
  fv_storage :: storage
  fv_base :: usize
  fv_file :: "nat option"
  fv_data :: usize
  fv_entries :: "string \<Rightarrow> st_entry option"

record tensor_info =
  ti_dtype :: native_dtype
  ti_shape :: "usize list"
  ti_start :: usize
  ti_end :: usize

record st_tensor =
  st_dtype_of :: st_dtype
  st_shape_of :: "usize list"
  st_bytes_of :: "nat list"

text \<open>One entry of the metadata, then all of them.\<close>

definition index_entry :: "usize \<Rightarrow> string \<Rightarrow> tensor_info \<Rightarrow> (string \<Rightarrow> st_entry option) \<Rightarrow> (string \<Rightarrow> st_entry option) result" where
  "index_entry data_bytes name info es =
     (if ti_end info < ti_start info \<or> ti_end info > data_bytes
      then Inl (Message (''tensor '' @ name @ '' exceeds the SafeTensors data block''))
      else let e = \<lparr>en_dtype = dtype_from (ti_dtype info), en_shape = ti_shape info, en_offset = ti_start info,
                    en_bytes = ti_end info - ti_start info\<rparr>
           in case es name of
                Some _ \<Rightarrow> Inl (Message (''duplicate tensor '' @ name))
              | None \<Rightarrow> Inr (es(name \<mapsto> e)))"

fun index_entries :: "usize \<Rightarrow> (string \<times> tensor_info) list \<Rightarrow> (string \<Rightarrow> st_entry option) \<Rightarrow> (string \<Rightarrow> st_entry option) result" where
  "index_entries data_bytes [] es = Inr es"
| "index_entries data_bytes ((name, info) # rest) es =
     and_then (index_entry data_bytes name info es) (index_entries data_bytes rest)"

definition from_storage ::
  "(nat list \<Rightarrow> string + usize \<times> (string \<times> tensor_info) list) \<Rightarrow> usize \<Rightarrow> string \<Rightarrow> storage \<Rightarrow> file_view result" where
  "from_storage read_metadata base path st =
     (case read_metadata (storage_bytes st) of
        Inl problem \<Rightarrow> Inl (Message (path @ '' is not SafeTensors: '' @ problem))
      | Inr (header, tensors) \<Rightarrow>
          (case checked_add 8 header of
             None \<Rightarrow> Inl (Message ''SafeTensors header size overflow'')
           | Some data \<Rightarrow>
               if length (storage_bytes st) < data then Inl (Message ''SafeTensors header exceeds the file'')
               else and_then (index_entries (length (storage_bytes st) - data) tensors (\<lambda>_. None)) (\<lambda>es.
                 Inr \<lparr>fv_path = path, fv_storage = st, fv_base = base, fv_file = None, fv_data = data, fv_entries = es\<rparr>)))"

text \<open>Reading and mapping; \<open>reads\<close>, \<open>opened\<close> and \<open>mapped\<close> are the answers of the operating system.\<close>

definition view_read :: "(nat list \<Rightarrow> string + usize \<times> (string \<times> tensor_info) list) \<Rightarrow> usize \<Rightarrow> string \<Rightarrow> string + nat list \<Rightarrow> file_view result" where
  "view_read read_metadata base path answer =
     (case answer of
        Inl problem \<Rightarrow> Inl (error_context (Io problem) (''reading '' @ path))
      | Inr bytes \<Rightarrow> from_storage read_metadata base path (Owned bytes))"

definition view_map ::
  "(nat list \<Rightarrow> string + usize \<times> (string \<times> tensor_info) list) \<Rightarrow> usize \<Rightarrow> string \<Rightarrow> string + nat \<Rightarrow> string + nat list \<Rightarrow> file_view result" where
  "view_map read_metadata base path opened mapped =
     (case opened of
        Inl problem \<Rightarrow> Inl (error_context (Io problem) (''opening '' @ path))
      | Inr f \<Rightarrow>
          (case mapped of
             Inl problem \<Rightarrow> Inl (error_context (Io problem) (''mapping '' @ path))
           | Inr bytes \<Rightarrow> and_then (from_storage read_metadata base path (Mapped bytes)) (\<lambda>view. Inr (view\<lparr>fv_file := Some f\<rparr>))))"

definition contains_name :: "string \<Rightarrow> file_view \<Rightarrow> bool" where
  "contains_name name view \<longleftrightarrow> fv_entries view name \<noteq> None"

text \<open>
  \<^verbatim>\<open>get\<close> computes its bounds with plain additions and indexes the bytes, \<open>None\<close> is a panic: an overflow or a range
  outside the file.
\<close>

definition index_range :: "usize \<Rightarrow> usize \<Rightarrow> nat list \<Rightarrow> nat list option" where
  "index_range start past bytes =
     (if start \<le> past \<and> past \<le> length bytes then Some (take (past - start) (drop start bytes)) else None)"

definition view_get :: "string \<Rightarrow> file_view \<Rightarrow> st_tensor result option" where
  "view_get name view =
     (case fv_entries view name of
        None \<Rightarrow> Some (Inl (Message (''missing tensor '' @ name @ '' in '' @ fv_path view)))
      | Some e \<Rightarrow>
          (case checked_add (fv_data view) (en_offset e) of
             None \<Rightarrow> None
           | Some start \<Rightarrow>
               (case checked_add start (en_bytes e) of
                  None \<Rightarrow> None
                | Some past \<Rightarrow>
                    map_option (\<lambda>bytes. Inr \<lparr>st_dtype_of = en_dtype e, st_shape_of = en_shape e, st_bytes_of = bytes\<rparr>)
                      (index_range start past (storage_bytes (fv_storage view))))))"

definition view_bytes :: "st_entry \<Rightarrow> file_view \<Rightarrow> nat list result" where
  "view_bytes e view =
     (case checked_add (fv_data view) (en_offset e) of
        None \<Rightarrow> Inl (Message ''SafeTensors offset overflow'')
      | Some start \<Rightarrow>
          (case checked_add start (en_bytes e) of
             None \<Rightarrow> Inl (Message ''SafeTensors range overflow'')
           | Some past \<Rightarrow>
               (case index_range start past (storage_bytes (fv_storage view)) of
                  None \<Rightarrow> Inl (Message ''SafeTensors entry exceeds the file'')
                | Some bytes \<Rightarrow> Inr bytes)))"

definition file_range :: "st_entry \<Rightarrow> usize \<Rightarrow> usize \<Rightarrow> file_view \<Rightarrow> (nat \<times> usize) result" where
  "file_range e offset bytes view =
     (if offset + bytes > usize_MAX \<or> offset + bytes > en_bytes e then Inl (Message ''tensor subrange exceeds entry'')
      else case Option.bind (checked_add (fv_data view) (en_offset e)) (\<lambda>start. checked_add start offset) of
        None \<Rightarrow> Inl (Message ''SafeTensors offset overflow'')
      | Some start \<Rightarrow>
          if start + bytes > usize_MAX \<or> start + bytes > length (storage_bytes (fv_storage view))
          then Inl (Message ''SafeTensors entry exceeds file'')
          else case fv_file view of
            None \<Rightarrow> Inl (Unsupported ''owned SafeTensors snapshots have no backing file'')
          | Some f \<Rightarrow> Inr (f, start))"

definition shape_matches :: "usize list \<Rightarrow> int list \<Rightarrow> bool" where
  "shape_matches shape expected \<longleftrightarrow>
     length shape = length expected \<and> list_all (\<lambda>(a, x). x < 0 \<or> x = int a) (zip shape expected)"

definition get_checked :: "string \<Rightarrow> st_dtype \<Rightarrow> int list \<Rightarrow> file_view \<Rightarrow> st_tensor result option" where
  "get_checked name dtype shape view =
     (case view_get name view of
        None \<Rightarrow> None
      | Some (Inl e) \<Rightarrow> Some (Inl e)
      | Some (Inr t) \<Rightarrow>
          if st_dtype_of t \<noteq> dtype \<or> \<not> shape_matches (st_shape_of t) shape
          then Some (Inl (Message (name @ '' is '' @ debug_dtype (st_dtype_of t) @ '' '' @ debug_list (map show_nat (st_shape_of t))
                 @ '', expected '' @ debug_dtype dtype @ '' '' @ debug_list (map show_int shape) @ '' in '' @ fv_path view)))
          else Some (Inr t))"


section \<open>Pages\<close>

definition advise_pages :: "usize \<times> usize \<Rightarrow> usize \<times> usize \<Rightarrow> usize \<Rightarrow> bool \<Rightarrow> (usize \<times> usize) option" where
  "advise_pages region piece page outward =
     Option.bind (checked_add (fst region) (snd region)) (\<lambda>map_end.
     Option.bind (checked_add (fst piece) (snd piece)) (\<lambda>range_end.
       if page = 0 \<or> \<not> is_power_of_two page \<or> fst piece < fst region \<or> range_end > map_end then None
       else Option.bind
         (if outward
          then map_option (\<lambda>e. (mask_down page (fst piece), mask_down page e)) (checked_add range_end (page - 1))
          else map_option (\<lambda>b. (mask_down page b, mask_down page range_end)) (checked_add (fst piece) (page - 1)))
         (\<lambda>(b, e). if e > b then Some (b, e) else None)))"

datatype page_preparation = Resident | Populated | Advised

text \<open>
  \<open>piece\<close> is a borrowed slice by address and length, \<open>page\<close> the answer of \<^verbatim>\<open>sysconf\<close>, \<open>populates\<close> that of population. \<open>render\<close> is the text of
  an operating system error.
\<close>

definition prepare_bytes ::
  "(io_error \<Rightarrow> string) \<Rightarrow> int \<Rightarrow> (usize \<Rightarrow> usize \<Rightarrow> io_error + bool) \<Rightarrow> usize \<times> usize \<Rightarrow> file_view \<Rightarrow> page_preparation result" where
  "prepare_bytes render page populates piece view =
     (if snd piece = 0 then Inr Resident
      else let len = length (storage_bytes (fv_storage view))
      in if fst piece < fv_base view \<or> fst piece + snd piece > usize_MAX \<or> fst piece + snd piece > fv_base view + len
         then Inl (Message ''page preparation range is outside its file'')
         else case fv_storage view of
           Owned _ \<Rightarrow> Inr Resident
         | Mapped _ \<Rightarrow>
             if page \<le> 0 then Inl (Io ''page size unavailable'')
             else case advise_pages (fv_base view, len) piece (nat page) True of
               None \<Rightarrow> Inl (Message ''invalid page preparation range'')
             | Some (b, e) \<Rightarrow>
                 (case populates b (e - b) of
                    Inl problem \<Rightarrow> Inl (Io (render problem))
                  | Inr True \<Rightarrow> Inr Populated
                  | Inr False \<Rightarrow> Inr Advised))"

text \<open>The advice given to the operating system, if any.\<close>

definition advise :: "int \<Rightarrow> bool \<Rightarrow> usize \<times> usize \<Rightarrow> file_view \<Rightarrow> (usize \<times> usize) option" where
  "advise page outward piece view =
     (case fv_storage view of
        Owned _ \<Rightarrow> None
      | Mapped bytes \<Rightarrow>
          if snd piece = 0 \<or> page \<le> 0 then None
          else map_option (\<lambda>(b, e). (b, e - b)) (advise_pages (fv_base view, length bytes) piece (nat page) outward))"

definition will_need :: "int \<Rightarrow> usize \<times> usize \<Rightarrow> file_view \<Rightarrow> (usize \<times> usize) option" where
  "will_need page piece view = advise page True piece view"

definition done_with :: "int \<Rightarrow> usize \<times> usize \<Rightarrow> file_view \<Rightarrow> (usize \<times> usize) option" where
  "done_with page piece view = advise page False piece view"


section \<open>The index\<close>

definition entry_of :: "tensor_info \<Rightarrow> st_entry" where
  "entry_of info = \<lparr>en_dtype = dtype_from (ti_dtype info), en_shape = ti_shape info, en_offset = ti_start info,
     en_bytes = ti_end info - ti_start info\<rparr>"

text \<open>The index holds the metadata, each name once, and every range lies in the data block.\<close>

lemma index_entries_spec:
  assumes "index_entries data_bytes ts es = Inr es'"
  shows "(\<forall>n. es' n = (case map_of ts n of None \<Rightarrow> es n | Some info \<Rightarrow> Some (entry_of info))) \<and> distinct (map fst ts) \<and> fst ` set ts \<inter> dom es = {}
    \<and> (\<forall>(name, info)\<in>set ts. ti_start info \<le> ti_end info \<and> ti_end info \<le> data_bytes)"
  using assms
proof (induction ts arbitrary: es)
  case (Cons t ts)
  obtain name info where t: "t = (name, info)" by (cases t)
  from Cons.prems obtain es1 where one: "index_entry data_bytes name info es = Inr es1" and rest: "index_entries data_bytes ts es1 = Inr es'"
    by (auto simp: t and_then_Inr_iff)
  from one have e1: "es1 = es(name \<mapsto> entry_of info)" "es name = None" "ti_start info \<le> ti_end info" "ti_end info \<le> data_bytes"
    by (auto simp: index_entry_def entry_of_def Let_def split: if_splits option.splits)
  note ih = Cons.IH [OF rest]
  have fresh: "name \<notin> fst ` set ts" using ih e1(1) by (auto simp: dom_def)
  then have "map_of ts name = None" by (simp add: map_of_eq_None_iff)
  then have "es' n = (case map_of (t # ts) n of None \<Rightarrow> es n | Some info \<Rightarrow> Some (entry_of info))" for n
    using ih e1(1) by (simp add: t split: option.splits)
  moreover have "fst ` set ts \<inter> dom es = {}" using ih e1(1) by auto
  ultimately show ?case using ih e1(2-4) fresh by (auto simp: t)
qed simp

lemma from_storage_Inr:
  assumes "from_storage read_metadata base path st = Inr view"
  obtains header ts where "read_metadata (storage_bytes st) = Inr (header, ts)" "fv_data view = 8 + header" "fv_storage view = st"
    "fv_data view \<le> length (storage_bytes st)" "fv_file view = None"
    "index_entries (length (storage_bytes st) - fv_data view) ts (\<lambda>_. None) = Inr (fv_entries view)"
  using assms
  by (auto simp: from_storage_def and_then_Inr_iff split: sum.splits prod.splits option.splits if_splits)

lemma from_storage_entries:
  assumes "from_storage read_metadata base path st = Inr view" "read_metadata (storage_bytes st) = Inr (header, ts)"
  shows "fv_entries view name = map_option entry_of (map_of ts name)" "distinct (map fst ts)"
    "fv_entries view name = Some e \<Longrightarrow> fv_data view + en_offset e + en_bytes e \<le> length (storage_bytes st)"
proof -
  have v: "fv_data view \<le> length (storage_bytes st)"
      "index_entries (length (storage_bytes st) - fv_data view) ts (\<lambda>_. None) = Inr (fv_entries view)"
    by (rule from_storage_Inr [OF assms(1)], use assms(2) in simp)+
  note ix = index_entries_spec [OF v(2)]
  show eq: "fv_entries view name = map_option entry_of (map_of ts name)" using ix by (simp split: option.splits)
  show "distinct (map fst ts)" using ix by blast
  assume "fv_entries view name = Some e"
  then obtain info where "map_of ts name = Some info" and e: "e = entry_of info" using eq by auto
  then have "(name, info) \<in> set ts" by (simp add: map_of_SomeD)
  then have "ti_start info \<le> ti_end info" "ti_end info \<le> length (storage_bytes st) - fv_data view" using ix by auto
  then show "fv_data view + en_offset e + en_bytes e \<le> length (storage_bytes st)" using v(1) by (simp add: e entry_of_def)
qed


section \<open>Page rounding\<close>

text \<open>Discarding keeps inside the piece: pages it releases hold no byte of any other tensor.\<close>

lemma advise_pages_inside:
  assumes "advise_pages region piece page False = Some (b, e)"
  shows "fst piece \<le> b" "e \<le> fst piece + snd piece" "b < e" "page dvd b" "page dvd e"
    "fst region \<le> b" "e \<le> fst region + snd region"
proof -
  from assms have page: "is_power_of_two page" and lim: "fst piece + snd piece \<le> usize_MAX" "fst piece + (page - 1) \<le> usize_MAX"
      and be: "b = mask_down page (fst piece + (page - 1))" "e = mask_down page (fst piece + snd piece)" "b < e"
      and fits: "fst region \<le> fst piece" "fst piece + snd piece \<le> fst region + snd region"
    by (auto simp: advise_pages_def bind_eq_Some_conv split: if_splits)
  note lo = mask_down [OF page lim(2)] and hi = mask_down [OF page lim(1)]
  show "page dvd b" "page dvd e" "b < e" using lo(2) hi(2) be(3) unfolding be(1,2) .
  have pos: "0 < page" using page by (rule is_power_of_two_pos)
  have "fst piece + (page - 1) < b + page" using lo(4) unfolding be(1) .
  then show b: "fst piece \<le> b" using pos by simp
  show e: "e \<le> fst piece + snd piece" using hi(3) be(2) by simp
  show "fst region \<le> b" "e \<le> fst region + snd region" using b e fits by linarith+
qed

text \<open>Prefetching covers the piece with whole pages, and adds less than a page at each end.\<close>

lemma advise_pages_covers:
  assumes "advise_pages region piece page True = Some (b, e)"
  shows "b \<le> fst piece" "fst piece + snd piece \<le> e" "page dvd b" "page dvd e" "fst piece < b + page" "e < fst piece + snd piece + page"
    "page dvd fst region \<Longrightarrow> fst region \<le> b"
proof -
  from assms have page: "is_power_of_two page" and lim: "fst piece \<le> usize_MAX" "fst piece + snd piece + (page - 1) \<le> usize_MAX"
      and be: "b = mask_down page (fst piece)" "e = mask_down page (fst piece + snd piece + (page - 1))"
      and fits: "fst region \<le> fst piece"
    by (auto simp: advise_pages_def bind_eq_Some_conv split: if_splits)
  note lo = mask_down [OF page lim(1)] and hi = mask_down [OF page lim(2)]
  have pos: "0 < page" using page by (rule is_power_of_two_pos)
  show "page dvd b" "page dvd e" "b \<le> fst piece" "fst piece < b + page" using lo(2) hi(2) lo(3,4) unfolding be .
  have "fst piece + snd piece + (page - 1) < e + page" using hi(4) unfolding be(2) .
  then show "fst piece + snd piece \<le> e" using pos by simp
  have "e \<le> fst piece + snd piece + (page - 1)" using hi(3) unfolding be(2) .
  then show "e < fst piece + snd piece + page" using pos by simp
  assume "page dvd fst region"
  then obtain k where k: "fst region = page * k" by auto
  have "fst piece mod page \<le> fst piece - fst region"
    using fits k by (metis diff_add_inverse le_add_diff_inverse mod_less_eq_dividend mod_mult_self2 add.commute mult.commute)
  then show "fst region \<le> b" using fits be(1) lo(1) by linarith
qed


section \<open>Indexed files are well formed\<close>

text \<open>
  C9: An indexed file is well typed. Once a file of at most \<^verbatim>\<open>isize::MAX\<close> bytes is indexed, its entries are exactly the tensors of the metadata,
  and every operation on them is defined: looking up a name never overflows or indexes outside the file; it fails
  exactly on absent names and otherwise returns the entry's type and shape and as many bytes as the entry
  says, the same as the checked borrow of the entry; and of a mapped file every subrange of a tensor
  has a file range, at which the file holds the bytes of that subrange.
\<close>

theorem safetensors_well_formed:
  assumes "from_storage read_metadata base path st = Inr view" "read_metadata (storage_bytes st) = Inr (header, ts)"
    "length (storage_bytes st) \<le> isize_MAX"
  shows "(case map_of ts name of
      None \<Rightarrow> \<not> contains_name name view \<and> view_get name view = Some (Inl (Message (''missing tensor '' @ name @ '' in '' @ fv_path view)))
    | Some info \<Rightarrow> \<exists>e t. fv_entries view name = Some e \<and> view_get name view = Some (Inr t)
        \<and> st_dtype_of t = dtype_from (ti_dtype info) \<and> st_shape_of t = ti_shape info
        \<and> length (st_bytes_of t) = ti_end info - ti_start info \<and> view_bytes e view = Inr (st_bytes_of t)
        \<and> (\<forall>offset bytes f. offset + bytes \<le> length (st_bytes_of t) \<longrightarrow>
             (\<exists>start. file_range e offset bytes (view\<lparr>fv_file := Some f\<rparr>) = Inr (f, start)
               \<and> take bytes (drop start (storage_bytes st)) = take bytes (drop offset (st_bytes_of t)))))"
proof (cases "map_of ts name")
  case None
  then show ?thesis using from_storage_entries(1) [OF assms(1,2), of name] by (simp add: contains_name_def view_get_def)
next
  case (Some info)
  let ?e = "entry_of info" and ?all = "storage_bytes st"
  have e: "fv_entries view name = Some ?e" using from_storage_entries(1) [OF assms(1,2)] Some by simp
  note fits = from_storage_entries(3) [OF assms(1,2) e]
  have st: "fv_storage view = st" by (rule from_storage_Inr [OF assms(1)])
  let ?start = "fv_data view + en_offset ?e"
  let ?bytes = "take (en_bytes ?e) (drop ?start ?all)"
  have small: "?start + en_bytes ?e \<le> usize_MAX" using fits assms(3) by (simp add: isize_MAX_def usize_MAX_def)
  have rng: "index_range ?start (?start + en_bytes ?e) ?all = Some ?bytes" using fits by (simp add: index_range_def)
  have len: "length ?bytes = en_bytes ?e" using fits by simp
  have get: "view_get name view = Some (Inr \<lparr>st_dtype_of = en_dtype ?e, st_shape_of = en_shape ?e, st_bytes_of = ?bytes\<rparr>)"
    using small rng by (simp add: view_get_def e st checked_add_def)
  have bytes: "view_bytes ?e view = Inr ?bytes" using small rng by (simp add: view_bytes_def st checked_add_def)
  have ranges: "file_range ?e offset n (view\<lparr>fv_file := Some f\<rparr>) = Inr (f, ?start + offset)
      \<and> take n (drop (?start + offset) ?all) = take n (drop offset ?bytes)" if "offset + n \<le> length ?bytes" for offset n f
  proof -
    have n: "offset + n \<le> en_bytes ?e" using that len by simp
    have "take n (drop (?start + offset) ?all) = take n (drop offset ?bytes)"
      using n by (simp add: drop_take add.commute)
    then show ?thesis using n small fits by (simp add: file_range_def st checked_add_def)
  qed
  then have "\<forall>offset n f. offset + n \<le> length ?bytes \<longrightarrow>
      (\<exists>start. file_range ?e offset n (view\<lparr>fv_file := Some f\<rparr>) = Inr (f, start) \<and> take n (drop start ?all) = take n (drop offset ?bytes))"
    by blast
  then show ?thesis using e get bytes len by (simp add: Some entry_of_def)
qed

definition demo_metadata :: "nat list \<Rightarrow> string + usize \<times> (string \<times> tensor_info) list" where
  "demo_metadata bytes =
     (if length bytes < 10 then Inl ''InvalidHeader''
      else Inr (2, [(''x'', \<lparr>ti_dtype = N_U16, ti_shape = [1], ti_start = 0, ti_end = 2\<rparr>),
                    (''y'', \<lparr>ti_dtype = N_U8, ti_shape = [3], ti_start = 2, ti_end = 5\<rparr>)]))"

lemma safetensors_well_formed_witness:
  "\<exists>view t. from_storage demo_metadata 4096 ''m'' (Mapped [0, 0, 0, 0, 0, 0, 0, 0, 123, 125, 1, 2, 3, 4, 5]) = Inr view
     \<and> view_get ''y'' view = Some (Inr t) \<and> st_dtype_of t = U8 \<and> length (st_bytes_of t) = 3"
proof -
  let ?st = "Mapped [0, 0, 0, 0, 0, 0, 0, 0, 123, 125, 1, 2, 3, 4, 5]"
  obtain view where v: "from_storage demo_metadata 4096 ''m'' ?st = Inr view"
    by (simp add: from_storage_def demo_metadata_def checked_add_def usize_MAX_def index_entry_def Let_def)
  have m: "demo_metadata (storage_bytes ?st) = Inr (2, [(''x'', \<lparr>ti_dtype = N_U16, ti_shape = [1], ti_start = 0, ti_end = 2\<rparr>),
      (''y'', \<lparr>ti_dtype = N_U8, ti_shape = [3], ti_start = 2, ti_end = 5\<rparr>)])"
    by (simp add: demo_metadata_def)
  show ?thesis using safetensors_well_formed [OF v m, of "''y''"] v by (auto simp: isize_MAX_def)
qed

end
