(* ===== verification/Pm4_Packets.thy ===== *)
theory Pm4_Packets
  imports HRX_Prelude "HOL-Library.Word"
begin

text \<open>
  Packets of the native compute queue, \<^verbatim>\<open>src/src/fabric/queue.rs\<close>: headers, cache barriers, completion packets, padding,
  and the splitting of a command list into indirect batches. Command words are 32-bit words; the words of a kernel dispatch and of
  a profiling marker come from elsewhere and are arguments.
\<close>

unbundle bit_operations_syntax

type_synonym u32w = "32 word"


section \<open>Packets\<close>

definition header :: "nat \<Rightarrow> nat \<Rightarrow> u32w" where
  "header opcode count = push_bit 30 3 OR push_bit 16 (word_of_nat (count - 2)) OR push_bit 8 (word_of_nat opcode)"

datatype cache_control = Gcr | Gfx9

definition barrier :: "cache_control \<Rightarrow> u32w list" where
  "barrier protocol =
     (case protocol of
        Gfx9 \<Rightarrow>
          [header 0x46 2, 7 OR push_bit 8 4, header 0x58 7 OR 2,
           push_bit 18 1 OR push_bit 22 1 OR push_bit 23 1 OR push_bit 27 1 OR push_bit 29 1,
           - 1, 0xff, 0, 0, 0x0a]
      | Gcr \<Rightarrow>
          [header 0x46 2, 7 OR push_bit 8 4, header 0x58 8, 0, - 1, 0xff, 0, 0, 0x0a,
           1 OR push_bit 4 1 OR push_bit 5 1 OR push_bit 7 1 OR push_bit 8 1 OR push_bit 9 1 OR push_bit 14 1 OR push_bit 15 1])"

text \<open>\<open>address as u32\<close> and \<open>(address >> 32) as u32\<close>.\<close>

definition low_word :: "nat \<Rightarrow> u32w" where
  "low_word a = word_of_nat a"

definition high_word :: "nat \<Rightarrow> u32w" where
  "high_word a = word_of_nat (a div 2 ^ 32)"

text \<open>The packet, and the position of the fence value in it.\<close>

definition completion_packet :: "nat \<Rightarrow> bool \<Rightarrow> u32w list \<times> nat" where
  "completion_packet address release =
     (if release
      then ([header 0x49 8, 0x14 OR push_bit 8 5 OR push_bit 15 1 OR push_bit 16 1 OR push_bit 17 1 OR push_bit 21 1, push_bit 29 1,
             low_word address, high_word address, 1, 0, 0], 5)
      else ([header 0x37 5, push_bit 8 2 OR push_bit 20 1, low_word address, high_word address, 1], 4))"

definition pad_count :: "nat \<Rightarrow> nat" where
  "pad_count len = (let count = 8 - len mod 8 in if count = 1 then count + 8 else count)"

definition pad :: "u32w list \<Rightarrow> u32w list" where
  "pad words = words @ header 0x10 (pad_count (length words)) # replicate (pad_count (length words) - 1) 0"


section \<open>Batches\<close>

definition INDIRECT_WORD_LIMIT :: usize where
  "INDIRECT_WORD_LIMIT = 1048576"

text \<open>The words reserved for one command, \<open>None\<close> when it can never fit.\<close>

definition batch_size :: "bool \<Rightarrow> usize \<Rightarrow> bool \<Rightarrow> usize option" where
  "batch_size profiled payload dependency =
     Option.bind (checked_add payload (if dependency then 10 else 0)) (\<lambda>n.
     Option.bind (checked_add n (if profiled then 2 * (10 + 32) else 0)) (\<lambda>n.
       if n < INDIRECT_WORD_LIMIT - 9 then Some n else None))"

fun batch_loop :: "bool \<Rightarrow> (usize \<times> bool) list \<Rightarrow> usize \<Rightarrow> usize \<Rightarrow> usize \<Rightarrow> (usize \<times> usize) list \<Rightarrow> (usize \<times> usize) list result" where
  "batch_loop profiled [] start past words ranges = Inr (if start \<noteq> past then ranges @ [(start, past)] else ranges)"
| "batch_loop profiled ((payload, dependency) # rest) start past words ranges =
     (case batch_size profiled payload dependency of
        None \<Rightarrow> Inl (Unsupported ''native command exceeds indirect command capacity'')
      | Some n \<Rightarrow>
          if words + n \<ge> INDIRECT_WORD_LIMIT - 9
          then batch_loop profiled rest past (past + 1) n (ranges @ [(start, past)])
          else batch_loop profiled rest start (past + 1) (words + n) ranges)"

definition batch_ranges :: "(usize \<times> bool) list \<Rightarrow> bool \<Rightarrow> (usize \<times> usize) list result" where
  "batch_ranges commands profiled = batch_loop profiled commands 0 0 0 []"

text \<open>
  The indirect words of a batch: each command with its barrier, between two markers when it is profiled (\<open>markers\<close> gives the words
  emitted before and after the command with that number).
\<close>

fun batch_words :: "cache_control \<Rightarrow> (nat \<Rightarrow> u32w list \<times> u32w list) option \<Rightarrow> nat \<Rightarrow> (u32w list \<times> bool) list \<Rightarrow> u32w list" where
  "batch_words protocol markers index [] = []"
| "batch_words protocol markers index ((words, dependency) # rest) =
     (if dependency then barrier protocol else [])
     @ (case markers of None \<Rightarrow> [] | Some m \<Rightarrow> barrier protocol @ fst (m index))
     @ words
     @ (case markers of None \<Rightarrow> [] | Some m \<Rightarrow> barrier protocol @ snd (m index))
     @ batch_words protocol markers (index + 1) rest"

definition prepare_batch_words ::
  "cache_control \<Rightarrow> (nat \<Rightarrow> u32w list \<times> u32w list) option \<Rightarrow> nat \<Rightarrow> (u32w list \<times> bool) list \<Rightarrow> (u32w list) result" where
  "prepare_batch_words protocol markers start commands =
     (if commands = [] then Inl (Message ''empty native command batch'')
      else let indirect = pad (batch_words protocol markers start commands)
           in if length indirect \<ge> INDIRECT_WORD_LIMIT
              then Inl (Unsupported (''native batch exceeds indirect command capacity: '' @ show_nat (length indirect)
                     @ '' words for '' @ show_nat (length commands) @ '' commands''))
              else Inr indirect)"

text \<open>With the checks on the queue and its commands; each command names the queue it was prepared on.\<close>

definition prepare_batch ::
  "bool \<Rightarrow> nat \<Rightarrow> cache_control \<Rightarrow> (nat \<Rightarrow> u32w list \<times> u32w list) option \<Rightarrow> nat \<Rightarrow> (nat \<times> u32w list \<times> bool) list \<Rightarrow> (u32w list) result" where
  "prepare_batch pm4 queue protocol markers start commands =
     (if \<not> pm4 then Inl (Unsupported ''indirect compute batches require a PM4 queue'')
      else if list_ex (\<lambda>c. fst c \<noteq> queue) commands then Inl (Message ''batch command belongs to another queue'')
      else prepare_batch_words protocol markers start (map snd commands))"

text \<open>The words a prepared command publishes around its dispatch, and where its fence value is.\<close>

definition publication_words :: "cache_control \<Rightarrow> bool \<Rightarrow> nat \<Rightarrow> u32w list \<Rightarrow> u32w list \<times> nat" where
  "publication_words protocol release fence dispatch =
     (let body = barrier protocol @ dispatch @ barrier protocol; packet = completion_packet fence release
      in (pad (body @ fst packet), length body + snd packet))"

definition indirect_dispatch :: "nat \<Rightarrow> nat \<Rightarrow> u32w list" where
  "indirect_dispatch address len = [header 0x3f 4, low_word address, high_word address, word_of_nat len OR push_bit 23 1]"

definition wait_words :: "cache_control \<Rightarrow> bool \<Rightarrow> nat \<Rightarrow> nat \<Rightarrow> nat \<Rightarrow> u32w list \<times> nat" where
  "wait_words protocol release source value fence =
     (let body = [header 0x3c 7, 5 OR push_bit 4 1, low_word source, high_word source, word_of_nat value, - 1, 4] @ barrier protocol;
          packet = completion_packet fence release
      in (pad (body @ fst packet), length body + snd packet))"

text \<open>\<^verbatim>\<open>prepare_graph_batches\<close>: all batches of a graph, in order.\<close>

definition prepare_graph_batches ::
  "cache_control \<Rightarrow> (nat \<Rightarrow> u32w list \<times> u32w list) option \<Rightarrow> (u32w list \<times> bool) list \<Rightarrow> (u32w list list) result" where
  "prepare_graph_batches protocol markers commands =
     and_then (batch_ranges (map (\<lambda>(w, d). (length w, d)) commands) (markers \<noteq> None))
       (map_result (\<lambda>(a, b). prepare_batch_words protocol markers a (take (b - a) (drop a commands))))"


section \<open>Lengths\<close>

lemma length_barrier: "length (barrier p) \<le> 10" "length (barrier p) \<noteq> 0"
  by (cases p; simp add: barrier_def)+

lemma pad_count: "2 \<le> pad_count n" "pad_count n \<le> 9" "(n + pad_count n) mod 8 = 0"
proof -
  have m: "n mod 8 < 8" by simp
  show "2 \<le> pad_count n" "pad_count n \<le> 9" using m by (auto simp: pad_count_def Let_def)
  have "(n + (8 - n mod 8)) mod 8 = 0" by presburger
  then show "(n + pad_count n) mod 8 = 0" unfolding pad_count_def Let_def by presburger
qed

lemma length_pad: "length (pad ws) = length ws + pad_count (length ws)"
  using pad_count(1) [of "length ws"] by (simp add: pad_def)

lemma pad_aligned: "length (pad ws) mod 8 = 0"
  by (simp only: length_pad pad_count(3))

text \<open>The padding is one packet whose header covers it: the count field is two less than the number of padding words.\<close>

lemma pad_packet: "unat (drop_bit 16 (header 0x10 (pad_count n)) AND 0x3fff) + 2 = pad_count n"
proof -
  have "pad_count n \<in> {2, 3, 4, 5, 6, 7, 8, 9}" using pad_count(1,2) [of n] by auto
  then show ?thesis by (auto simp: header_def)
qed

lemma batch_words_length:
  assumes "\<And>m i. markers = Some m \<Longrightarrow> length (fst (m i)) \<le> 32 \<and> length (snd (m i)) \<le> 32"
  shows "length (batch_words p markers i cs)
    \<le> sum_list (map (\<lambda>(w, d). length w + (if d then 10 else 0) + (if markers \<noteq> None then 84 else 0)) cs)"
proof (induction cs arbitrary: i)
  case (Cons c cs)
  obtain w d where c: "c = (w, d)" by (cases c)
  show ?case
  proof (cases markers)
    case None
    then show ?thesis using Cons [of "i + 1"] length_barrier(1) [of p] by (auto simp: c)
  next
    case (Some m)
    then show ?thesis using Cons [of "i + 1"] length_barrier(1) [of p] assms [OF Some, of i] by (auto simp: c)
  qed
qed simp


section \<open>Batches fit\<close>

fun chained :: "nat \<Rightarrow> (nat \<times> nat) list \<Rightarrow> nat \<Rightarrow> bool" where
  "chained a [] b \<longleftrightarrow> a = b"
| "chained a ((x, y) # rs) b \<longleftrightarrow> x = a \<and> x < y \<and> chained y rs b"

lemma chained_snoc: "chained a (rs @ [(x, y)]) b \<longleftrightarrow> chained a rs x \<and> x < y \<and> y = b"
  by (induction rs arbitrary: a) auto

definition command_cost :: "bool \<Rightarrow> usize \<times> bool \<Rightarrow> nat" where
  "command_cost profiled c = fst c + (if snd c then 10 else 0) + (if profiled then 84 else 0)"

definition range_cost :: "bool \<Rightarrow> (usize \<times> bool) list \<Rightarrow> nat \<Rightarrow> nat \<Rightarrow> nat" where
  "range_cost profiled cs a b = sum_list (map (command_cost profiled) (take (b - a) (drop a cs)))"

lemma range_cost_Suc:
  assumes "a \<le> b" "b < length cs"
  shows "range_cost profiled cs a (Suc b) = range_cost profiled cs a b + command_cost profiled (cs ! b)"
proof -
  have "take (Suc b - a) (drop a cs) = take (b - a) (drop a cs) @ [cs ! b]"
    using assms by (simp add: Suc_diff_le take_Suc_conv_app_nth)
  then show ?thesis by (simp add: range_cost_def)
qed

lemma batch_size_eq:
  "batch_size profiled payload dependency =
     (if command_cost profiled (payload, dependency) < INDIRECT_WORD_LIMIT - 9 then Some (command_cost profiled (payload, dependency)) else None)"
  by (auto simp: batch_size_def command_cost_def bind_eq_Some_conv checked_add_def INDIRECT_WORD_LIMIT_def usize_MAX_def)

definition batch_inv :: "bool \<Rightarrow> (usize \<times> bool) list \<Rightarrow> nat \<Rightarrow> nat \<Rightarrow> nat \<Rightarrow> (nat \<times> nat) list \<Rightarrow> bool" where
  "batch_inv profiled cs start past words ranges \<longleftrightarrow>
     chained 0 ranges start \<and> start \<le> past \<and> words = range_cost profiled cs start past \<and> words < INDIRECT_WORD_LIMIT - 9
     \<and> (\<forall>(a, b)\<in>set ranges. range_cost profiled cs a b < INDIRECT_WORD_LIMIT - 9)"

lemma batch_loop_spec:
  assumes "batch_inv profiled all start past words ranges" "past \<le> length all" "cs = drop past all"
  shows "(\<forall>rs. batch_loop profiled cs start past words ranges = Inr rs \<longrightarrow>
      chained 0 rs (length all) \<and> (\<forall>(a, b)\<in>set rs. range_cost profiled all a b < INDIRECT_WORD_LIMIT - 9))
    \<and> (is_ok (batch_loop profiled cs start past words ranges) \<longleftrightarrow> (\<forall>c\<in>set cs. command_cost profiled c < INDIRECT_WORD_LIMIT - 9))"
  using assms
proof (induction cs arbitrary: start past words ranges)
  case Nil
  then have "past = length all" by simp
  with Nil(1) show ?case by (auto simp: batch_inv_def chained_snoc)
next
  case (Cons c cs)
  obtain payload dependency where c: "c = (payload, dependency)" by (cases c)
  let ?n = "command_cost profiled c"
  have past: "past < length all" using Cons.prems(3) by (metis drop_all leI list.distinct(1))
  have at: "all ! past = c" and cs: "cs = drop (past + 1) all"
    using Cons.prems(3) past by (metis Cons_nth_drop_Suc list.inject Suc_eq_plus1)+
  show ?case
  proof (cases "?n < INDIRECT_WORD_LIMIT - 9")
    case False
    then show ?thesis by (simp add: c batch_size_eq)
  next
    case fits: True
    show ?thesis
    proof (cases "words + ?n \<ge> INDIRECT_WORD_LIMIT - 9")
      case True
      have "0 < words" using True fits by linarith
      then have "start \<noteq> past" using Cons.prems(1) by (auto simp: batch_inv_def range_cost_def)
      then have "batch_inv profiled all past (past + 1) ?n (ranges @ [(start, past)])"
        using Cons.prems(1) fits range_cost_Suc [of past past all profiled] past at
        by (auto simp: batch_inv_def chained_snoc range_cost_def)
      from Cons.IH [OF this _ cs] past show ?thesis using True fits by (simp add: c batch_size_eq)
    next
      case False
      have "batch_inv profiled all start (past + 1) (words + ?n) ranges"
        using Cons.prems(1) False range_cost_Suc [of start past all profiled] past at by (auto simp: batch_inv_def)
      from Cons.IH [OF this _ cs] past show ?thesis using False fits by (simp add: c batch_size_eq)
    qed
  qed
qed

lemma batch_ranges_spec:
  "batch_ranges cs profiled = Inr rs \<Longrightarrow> chained 0 rs (length cs) \<and> (\<forall>(a, b)\<in>set rs. range_cost profiled cs a b < INDIRECT_WORD_LIMIT - 9)"
  "is_ok (batch_ranges cs profiled) \<longleftrightarrow> (\<forall>c\<in>set cs. command_cost profiled c < INDIRECT_WORD_LIMIT - 9)"
proof -
  have "batch_inv profiled cs 0 0 0 []" by (simp add: batch_inv_def range_cost_def INDIRECT_WORD_LIMIT_def)
  note spec = batch_loop_spec [OF this, of cs]
  show "batch_ranges cs profiled = Inr rs \<Longrightarrow> chained 0 rs (length cs) \<and> (\<forall>(a, b)\<in>set rs. range_cost profiled cs a b < INDIRECT_WORD_LIMIT - 9)"
    using spec by (simp add: batch_ranges_def)
  show "is_ok (batch_ranges cs profiled) \<longleftrightarrow> (\<forall>c\<in>set cs. command_cost profiled c < INDIRECT_WORD_LIMIT - 9)"
    using spec by (simp add: batch_ranges_def)
qed

lemma chained_le: "chained a rs b \<Longrightarrow> a \<le> b"
proof (induction rs arbitrary: a)
  case (Cons r rs)
  then show ?case by (cases r) fastforce
qed simp

lemma chained_bounds: "chained a rs b \<Longrightarrow> (x, y) \<in> set rs \<Longrightarrow> a \<le> x \<and> x < y \<and> y \<le> b"
proof (induction rs arbitrary: a)
  case (Cons r rs)
  obtain u v where r: "r = (u, v)" by (cases r)
  with Cons show ?case using chained_le [of v rs b] by (fastforce simp: r)
qed simp

lemma chained_concat: "chained a rs b \<Longrightarrow> b \<le> length cs \<Longrightarrow> concat (map (\<lambda>(x, y). take (y - x) (drop x cs)) rs) = take (b - a) (drop a cs)"
proof (induction rs arbitrary: a)
  case (Cons r rs)
  obtain u v where r: "r = (u, v)" by (cases r)
  have uv: "u = a" "a < v" "chained v rs b" using Cons.prems(1) by (simp_all add: r)
  note vb = chained_le [OF uv(3)]
  have "take (b - a) (drop a cs) = take (v - a) (drop a cs) @ take (b - v) (drop v cs)"
    using take_add [of "v - a" "b - v" "drop a cs"] uv(2) vb by simp
  then show ?case using Cons.IH [OF uv(3) Cons.prems(2)] by (simp add: r uv(1))
qed simp

text \<open>
  Splitting a graph never overruns an indirect buffer: preparation fails exactly when a single command is too long; otherwise
  the batches hold every command once, in order, and none of them is refused for its length.
\<close>

lemma graph_batches_fit:
  assumes "\<And>m i. markers = Some m \<Longrightarrow> length (fst (m i)) \<le> 32 \<and> length (snd (m i)) \<le> 32"
  shows "is_ok (prepare_graph_batches protocol markers commands) \<longleftrightarrow>
      (\<forall>(w, d)\<in>set commands. command_cost (markers \<noteq> None) (length w, d) < INDIRECT_WORD_LIMIT - 9)"
    "prepare_graph_batches protocol markers commands = Inr bs \<Longrightarrow>
      \<exists>rs. chained 0 rs (length commands)
        \<and> bs = map (\<lambda>(a, b). pad (batch_words protocol markers a (take (b - a) (drop a commands)))) rs
        \<and> concat (map (\<lambda>(a, b). take (b - a) (drop a commands)) rs) = commands
        \<and> (\<forall>b\<in>set bs. length b < INDIRECT_WORD_LIMIT \<and> length b mod 8 = 0)"
proof -
  let ?cs = "map (\<lambda>(w, d). (length w, d)) commands" and ?p = "markers \<noteq> None"
  have part: "prepare_batch_words protocol markers a (take (b - a) (drop a commands)) =
        Inr (pad (batch_words protocol markers a (take (b - a) (drop a commands))))
      \<and> length (pad (batch_words protocol markers a (take (b - a) (drop a commands)))) < INDIRECT_WORD_LIMIT"
    if "a < b" "b \<le> length commands" "range_cost ?p ?cs a b < INDIRECT_WORD_LIMIT - 9" for a b
  proof -
    let ?part = "take (b - a) (drop a commands)"
    have "length (batch_words protocol markers a ?part) \<le> sum_list (map (\<lambda>(w, d). length w + (if d then 10 else 0) + (if ?p then 84 else 0)) ?part)"
      by (rule batch_words_length) (rule assms)
    also have "\<dots> = range_cost ?p ?cs a b"
      by (simp add: range_cost_def command_cost_def drop_map take_map comp_def case_prod_unfold)
    finally have "length (pad (batch_words protocol markers a ?part)) < INDIRECT_WORD_LIMIT"
      using that(3) pad_count(2) [of "length (batch_words protocol markers a ?part)"] unfolding length_pad
      by (simp add: INDIRECT_WORD_LIMIT_def)
    moreover have "?part \<noteq> []" using that(1,2) by simp
    ultimately show ?thesis by (simp add: prepare_batch_words_def Let_def)
  qed
  have all: "map_result (\<lambda>(a, b). prepare_batch_words protocol markers a (take (b - a) (drop a commands))) rs =
      Inr (map (\<lambda>(a, b). pad (batch_words protocol markers a (take (b - a) (drop a commands)))) rs)"
    if "batch_ranges ?cs ?p = Inr rs" for rs
  proof -
    have "\<forall>(a, b)\<in>set rs. prepare_batch_words protocol markers a (take (b - a) (drop a commands)) =
        Inr (pad (batch_words protocol markers a (take (b - a) (drop a commands))))"
      using batch_ranges_spec(1) [OF that] chained_bounds part by fastforce
    then show ?thesis by (induction rs) (auto split: sum.splits)
  qed
  show "is_ok (prepare_graph_batches protocol markers commands) \<longleftrightarrow>
      (\<forall>(w, d)\<in>set commands. command_cost ?p (length w, d) < INDIRECT_WORD_LIMIT - 9)"
  proof -
    have "is_ok (prepare_graph_batches protocol markers commands) \<longleftrightarrow> is_ok (batch_ranges ?cs ?p)"
      using all by (cases "batch_ranges ?cs ?p") (auto simp: prepare_graph_batches_def)
    then show ?thesis using batch_ranges_spec(2) [of ?cs ?p] by auto
  qed
  assume "prepare_graph_batches protocol markers commands = Inr bs"
  then obtain rs where rs: "batch_ranges ?cs ?p = Inr rs" and bs: "bs = map (\<lambda>(a, b). pad (batch_words protocol markers a (take (b - a) (drop a commands)))) rs"
    using all by (auto simp: prepare_graph_batches_def and_then_Inr_iff)
  have chain: "chained 0 rs (length commands)" using batch_ranges_spec(1) [OF rs] by simp
  have "\<forall>b\<in>set bs. length b < INDIRECT_WORD_LIMIT \<and> length b mod 8 = 0"
    using batch_ranges_spec(1) [OF rs] chained_bounds part by (fastforce simp: bs pad_aligned)
  then show "\<exists>rs. chained 0 rs (length commands)
        \<and> bs = map (\<lambda>(a, b). pad (batch_words protocol markers a (take (b - a) (drop a commands)))) rs
        \<and> concat (map (\<lambda>(a, b). take (b - a) (drop a commands)) rs) = commands
        \<and> (\<forall>b\<in>set bs. length b < INDIRECT_WORD_LIMIT \<and> length b mod 8 = 0)"
    using chain bs chained_concat [OF chain order_refl] by (intro exI [of _ rs]) simp
qed

end
