(* ===== verification/Native_Queue.thy ===== *)
theory Native_Queue
  imports Pm4_Packets
begin

text \<open>
  The producer side of a native queue, \<^verbatim>\<open>src/src/fabric/queue.rs\<close>: publication of prepared commands into the command ring,
  retirement of submissions and of the leases they hold. A prepared command and its work are one entry of a
  store, numbered in the order they were made; its fence is a word of host-visible memory that the device raises. The
  device consumes ring words and raises fences in its own steps. Everything a call does under the producer's lock is one definition;
  its retry loop is left to the steps.
\<close>


section \<open>State\<close>

record work =
  wk_queue :: nat
  wk_words :: "u32w list"
  wk_fence_word :: nat
  wk_buffers :: "nat list"
  wk_deps :: "(nat \<times> nat) list"
  wk_previous :: nat
  wk_leases :: "nat list"
  wk_retired :: nat
  wk_active :: nat
  wk_fence :: nat

record ring_queue =
  rq_capacity :: nat
  rq_sdma :: bool
  rq_ring :: "u32w list"
  rq_write :: nat
  rq_read_index :: nat
  rq_write_index :: nat
  rq_pending :: "(nat \<times> nat) list"
  rq_status :: "nat option"

record native =
  nv_works :: "nat \<Rightarrow> work"
  nv_queues :: "nat \<Rightarrow> ring_queue"
  nv_uses :: "nat \<Rightarrow> nat"

definition set_work :: "nat \<Rightarrow> work \<Rightarrow> native \<Rightarrow> native" where
  "set_work w x s = s\<lparr>nv_works := (nv_works s)(w := x)\<rparr>"

definition set_queue :: "nat \<Rightarrow> ring_queue \<Rightarrow> native \<Rightarrow> native" where
  "set_queue q x s = s\<lparr>nv_queues := (nv_queues s)(q := x)\<rparr>"

text \<open>Device uses held on buffers; dropping a lease gives one back.\<close>

definition add_uses :: "nat list \<Rightarrow> native \<Rightarrow> native" where
  "add_uses bs s = s\<lparr>nv_uses := (\<lambda>b. nv_uses s b + count_list bs b)\<rparr>"

definition drop_uses :: "nat list \<Rightarrow> native \<Rightarrow> native" where
  "drop_uses bs s = s\<lparr>nv_uses := (\<lambda>b. nv_uses s b - count_list bs b)\<rparr>"


section \<open>Retirement\<close>

text \<open>
  \<^verbatim>\<open>Work::retire\<close>. A work depends on works made before it, so the recursion goes down in their numbers; the last branch of
  the loop is never taken.
\<close>

function retire :: "nat \<Rightarrow> nat \<Rightarrow> native \<Rightarrow> bool \<times> native"
  and retire_deps :: "nat \<Rightarrow> (nat \<times> nat) list \<Rightarrow> native \<Rightarrow> bool \<times> native" where
  "retire w value s =
     (if wk_retired (nv_works s w) \<ge> value then (True, s)
      else let completed = wk_fence (nv_works s w)
      in if completed < value then (False, s)
         else case retire_deps w (wk_deps (nv_works s w)) s of
           (False, s1) \<Rightarrow> (False, s1)
         | (True, s1) \<Rightarrow>
             let x = nv_works s1 w;
                 s2 = (if completed \<ge> wk_active x then set_work w (x\<lparr>wk_leases := []\<rparr>) (drop_uses (wk_leases x) s1) else s1)
             in (True, set_work w ((nv_works s2 w)\<lparr>wk_retired := completed\<rparr>) s2))"
| "retire_deps w [] s = (True, s)"
| "retire_deps w ((d, point) # ds) s =
     (if d < w
      then (case retire d point s of
              (False, s1) \<Rightarrow> (False, s1)
            | (True, s1) \<Rightarrow> retire_deps w ds s1)
      else (False, s))"
  by pat_completeness auto
termination
  by (relation "inv_image (less_than <*lex*> less_than)
        (\<lambda>x. case x of Inl (w, value, s) \<Rightarrow> (2 * w + 1, 0) | Inr (w, ds, s) \<Rightarrow> (2 * w, length ds))") auto

declare retire.simps [simp del]

definition is_complete :: "nat \<Rightarrow> nat \<Rightarrow> native \<Rightarrow> bool" where
  "is_complete w value s \<longleftrightarrow> wk_retired (nv_works s w) \<ge> value"

text \<open>\<^verbatim>\<open>QueueInner::poll\<close>: not retired on a queue that is no longer active is an error.\<close>

definition poll_work :: "nat \<Rightarrow> nat \<Rightarrow> nat \<Rightarrow> native \<Rightarrow> bool result \<times> native" where
  "poll_work q w value s =
     (case retire w value s of
        (True, s1) \<Rightarrow> (Inr True, s1)
      | (False, s1) \<Rightarrow>
          (case rq_status (nv_queues s1 q) of
             None \<Rightarrow> (Inr False, s1)
           | Some status \<Rightarrow> (Inl (DeviceLost (''PM4 queue failed with native status '' @ show_nat status)), s1)))"

text \<open>Reaping the completed prefix of the pending submissions.\<close>

fun reap :: "nat \<Rightarrow> (nat \<times> nat) list \<Rightarrow> native \<Rightarrow> unit result \<times> native" where
  "reap q [] s = (Inr (), set_queue q ((nv_queues s q)\<lparr>rq_pending := []\<rparr>) s)"
| "reap q ((w, value) # rest) s =
     (case poll_work q w value s of
        (Inr True, s1) \<Rightarrow> reap q rest s1
      | (Inr False, s1) \<Rightarrow> (Inr (), set_queue q ((nv_queues s1 q)\<lparr>rq_pending := (w, value) # rest\<rparr>) s1)
      | (Inl e, s1) \<Rightarrow> (Inl e, set_queue q ((nv_queues s1 q)\<lparr>rq_pending := (w, value) # rest\<rparr>) s1))"

definition completion_refresh :: "nat \<Rightarrow> nat \<Rightarrow> nat \<Rightarrow> native \<Rightarrow> bool result \<times> native" where
  "completion_refresh q w value s =
     (case poll_work q w value s of
        (Inl e, s1) \<Rightarrow> (Inl e, s1)
      | (Inr False, s1) \<Rightarrow> (Inr False, s1)
      | (Inr True, s1) \<Rightarrow>
          (case reap q (rq_pending (nv_queues s1 q)) s1 of
             (Inl e, s2) \<Rightarrow> (Inl e, s2)
           | (Inr _, s2) \<Rightarrow> (Inr True, s2)))"


section \<open>Publication\<close>

definition ring_mask :: "nat \<Rightarrow> nat \<Rightarrow> nat" where
  "ring_mask capacity n = and n (capacity - 1)"

definition index_scale :: "ring_queue \<Rightarrow> nat" where
  "index_scale r = (if rq_sdma r then 4 else 1)"

definition ring_wrap :: "ring_queue \<Rightarrow> nat \<Rightarrow> nat" where
  "ring_wrap r len =
     (let cursor = ring_mask (rq_capacity r) (rq_write r)
      in if len > rq_capacity r - cursor then rq_capacity r - cursor else 0)"

definition ring_outstanding :: "ring_queue \<Rightarrow> nat" where
  "ring_outstanding r =
     ring_mask (rq_capacity r) ((rq_write r + 2 ^ 64 - rq_read_index r div index_scale r) mod 2 ^ 64)"

definition ring_full :: "ring_queue \<Rightarrow> nat \<Rightarrow> string option" where
  "ring_full r len =
     (if length (rq_pending r) \<ge> 4096 then Some ''native queue submission capacity''
      else if ring_wrap r len + len \<ge> rq_capacity r - ring_outstanding r then Some ''native command ring is full''
      else None)"

definition overlay :: "nat \<Rightarrow> 'a list \<Rightarrow> 'a list \<Rightarrow> 'a list" where
  "overlay at ws ring = take at ring @ ws @ drop (at + length ws) ring"

text \<open>The words written: at the end of the ring a padding packet (zero words for the copy engine), then the command with its fence value.\<close>

definition wrap_words :: "bool \<Rightarrow> nat \<Rightarrow> u32w list" where
  "wrap_words sdma wrap = (if wrap = 0 then [] else if sdma then replicate wrap 0 else header 0x10 wrap # replicate (wrap - 1) 0)"

definition command_words :: "work \<Rightarrow> nat \<Rightarrow> u32w list" where
  "command_words x value = (wk_words x)[wk_fence_word x := word_of_nat value]"

definition ring_write :: "ring_queue \<Rightarrow> work \<Rightarrow> nat \<Rightarrow> u32w list" where
  "ring_write r x value =
     (let cursor = ring_mask (rq_capacity r) (rq_write r);
          wrap = ring_wrap r (length (wk_words x));
          padded = overlay cursor (wrap_words (rq_sdma r) wrap) (rq_ring r)
      in overlay (if wrap = 0 then cursor else 0) (command_words x value) padded)"

text \<open>
  \<^verbatim>\<open>dispatch_one\<close> without waiting. \<open>refuses\<close> says which buffers refuse a device use. The lease step is all or
  nothing, and is skipped when the work still holds its leases.
\<close>

fun first_refusal :: "(nat \<Rightarrow> error option) \<Rightarrow> nat list \<Rightarrow> error option" where
  "first_refusal refuses [] = None"
| "first_refusal refuses (b # bs) = (case refuses b of Some e \<Rightarrow> Some e | None \<Rightarrow> first_refusal refuses bs)"

definition take_leases :: "(nat \<Rightarrow> error option) \<Rightarrow> nat \<Rightarrow> native \<Rightarrow> unit result \<times> native" where
  "take_leases refuses w s =
     (let x = nv_works s w
      in if wk_leases x \<noteq> [] then (Inr (), s)
         else case first_refusal refuses (wk_buffers x) of
           Some e \<Rightarrow> (Inl e, s)
         | None \<Rightarrow> (Inr (), add_uses (wk_buffers x) (set_work w (x\<lparr>wk_leases := wk_buffers x\<rparr>) s)))"

definition publish_work :: "nat \<Rightarrow> nat \<Rightarrow> nat \<Rightarrow> native \<Rightarrow> native" where
  "publish_work w value published s =
     (let x = nv_works s w; q = wk_queue x; r = nv_queues s q
      in set_work w (x\<lparr>wk_active := value, wk_previous := value\<rparr>)
           (set_queue q (r\<lparr>rq_pending := rq_pending r @ [(w, value)], rq_ring := ring_write r x value,
                           rq_write_index := published * index_scale r, rq_write := published\<rparr>) s))"

definition dispatch_one :: "(nat \<Rightarrow> error option) \<Rightarrow> nat \<Rightarrow> native \<Rightarrow> nat result \<times> native" where
  "dispatch_one refuses w s =
     (let q = wk_queue (nv_works s w); value = wk_previous (nv_works s w) + 1
      in if value > 2 ^ 32 - 1 then (Inl (DeviceLost ''prepared completion timeline exhausted''), s)
         else case reap q (rq_pending (nv_queues s q)) s of
           (Inl e, s1) \<Rightarrow> (Inl e, s1)
         | (Inr _, s1) \<Rightarrow>
             let r = nv_queues s1 q; len = length (wk_words (nv_works s1 w))
             in case ring_full r len of
                  Some reason \<Rightarrow> (Inl (Busy reason), s1)
                | None \<Rightarrow>
                    let published = rq_write r + (ring_wrap r len + len)
                    in if published > usize_MAX then (Inl (DeviceLost ''native queue index exhausted''), s1)
                       else if published * index_scale r > usize_MAX
                       then (Inl (DeviceLost ''native queue byte index exhausted''), s1)
                       else case take_leases refuses w s1 of
                         (Inl e, s2) \<Rightarrow> (Inl e, s2)
                       | (Inr _, s2) \<Rightarrow> (Inr value, publish_work w value published s2))"

text \<open>With a full ring a waiting caller waits for the oldest pending submission; without one it gives up.\<close>

definition wait_for_capacity :: "(nat \<times> nat) option \<Rightarrow> (nat \<times> nat) result" where
  "wait_for_capacity oldest =
     (case oldest of
        None \<Rightarrow> Inl (Busy ''native command ring is full without pending work'')
      | Some c \<Rightarrow> Inr c)"

text \<open>The dependencies of a wait on a completion: the whole prefix of its queue that is still pending.\<close>

definition wait_dependencies :: "(nat \<times> nat) list \<Rightarrow> nat \<times> nat \<Rightarrow> (nat \<times> nat) list" where
  "wait_dependencies pending c =
     (case position (\<lambda>p. p = c) pending of
        Some i \<Rightarrow> take (i + 1) pending
      | None \<Rightarrow> [c])"


section \<open>Creating a queue\<close>

record queue_family =
  fm_command :: nat
  fm_format_version :: nat
  fm_user_publication :: bool
  fm_gcr :: bool
  fm_gfx9 :: bool
  fm_minimum_ring :: usize

record mapping_info =
  mi_command :: nat
  mi_format_version :: nat
  mi_ring_byte_length :: usize
  mi_index_bits :: nat
  mi_doorbell_bits :: nat
  mi_addresses :: "nat list"
  mi_ring :: "u32w list"

text \<open>The cache protocol of a family that can serve the command type, \<open>None\<close> for a family that is skipped.\<close>

definition family_cache :: "nat \<Rightarrow> bool \<Rightarrow> queue_family \<Rightarrow> cache_control option" where
  "family_cache command pm4 f =
     (if fm_command f \<noteq> command \<or> fm_format_version f \<noteq> 1 \<or> \<not> fm_user_publication f then None
      else if \<not> pm4 \<or> fm_gcr f then Some Gcr
      else if fm_gfx9 f then Some Gfx9
      else None)"

definition mapping_accepted :: "nat \<Rightarrow> mapping_info \<Rightarrow> bool" where
  "mapping_accepted command m \<longleftrightarrow>
     \<not> (mi_command m \<noteq> command \<or> mi_format_version m \<noteq> 1 \<or> \<not> is_power_of_two (mi_ring_byte_length m)
        \<or> mi_ring_byte_length m < 4096 \<or> mi_index_bits m \<noteq> 64 \<or> mi_doorbell_bits m \<noteq> 64
        \<or> list_ex (\<lambda>a. a = 0 \<or> a mod 8 \<noteq> 0) (mi_addresses m))"

definition fresh_queue :: "bool \<Rightarrow> mapping_info \<Rightarrow> ring_queue" where
  "fresh_queue sdma m =
     \<lparr>rq_capacity = mi_ring_byte_length m div 4, rq_sdma = sdma, rq_ring = mi_ring m, rq_write = 0, rq_read_index = 0,
      rq_write_index = 0, rq_pending = [], rq_status = None\<rparr>"

text \<open>\<open>query\<close> answers for a family ordinal, \<open>map_queue\<close> creates and maps a queue of a family.\<close>

fun create_queue_from ::
  "(nat \<Rightarrow> queue_family result) \<Rightarrow> (nat \<Rightarrow> usize \<Rightarrow> mapping_info result) \<Rightarrow> nat \<Rightarrow> bool \<Rightarrow> nat list
     \<Rightarrow> (nat \<times> cache_control \<times> ring_queue) result" where
  "create_queue_from query map_queue command pm4 [] = Inl (Unsupported ''no qualified native queue family for the requested engine'')"
| "create_queue_from query map_queue command pm4 (ordinal # rest) =
     (case query ordinal of
        Inl e \<Rightarrow> Inl e
      | Inr f \<Rightarrow>
          (case family_cache command pm4 f of
             None \<Rightarrow> create_queue_from query map_queue command pm4 rest
           | Some cache \<Rightarrow>
               (case map_queue ordinal (fm_minimum_ring f) of
                  Inl e \<Rightarrow> Inl e
                | Inr m \<Rightarrow>
                    if mapping_accepted command m then Inr (ordinal, cache, fresh_queue (\<not> pm4) m)
                    else Inl (Unsupported ''unexpected native GPU queue mapping contract''))))"

definition create_queue ::
  "bool \<Rightarrow> (nat \<Rightarrow> queue_family result) \<Rightarrow> (nat \<Rightarrow> usize \<Rightarrow> mapping_info result) \<Rightarrow> nat \<Rightarrow> nat \<Rightarrow> bool
     \<Rightarrow> (nat \<times> cache_control \<times> ring_queue) result" where
  "create_queue gpu query map_queue count command pm4 =
     (if \<not> gpu then Inl (Unsupported ''PM4 queues require an AMDGPU device'')
      else create_queue_from query map_queue command pm4 [0..<count])"


section \<open>Queues for streams\<close>

record stream_queues =
  sq_slots :: "nat list"
  sq_limit :: usize
  sq_next :: usize

definition stream_queues_default :: stream_queues where
  "stream_queues_default = \<lparr>sq_slots = [], sq_limit = 8, sq_next = 0\<rparr>"

definition set_limit :: "usize \<Rightarrow> stream_queues \<Rightarrow> unit result \<times> stream_queues" where
  "set_limit count p =
     (if count = 0 then (Inl (Message ''stream queue count must be positive''), p)
      else if count \<noteq> sq_limit p \<and> sq_slots p \<noteq> []
      then (Inl (Busy ''configure stream queues before creating the first stream''), p)
      else (Inr (), p\<lparr>sq_limit := count\<rparr>))"

text \<open>\<open>alive\<close> tells which queues still have an owner, \<open>created\<close> is the answer of creating a queue.\<close>

definition stream_queue :: "(nat \<Rightarrow> bool) \<Rightarrow> nat result \<Rightarrow> stream_queues \<Rightarrow> nat result \<times> stream_queues" where
  "stream_queue alive created p =
     (let slot = sq_next p
      in if slot = length (sq_slots p)
         then (case created of
                 Inl e \<Rightarrow> (Inl e, p)
               | Inr q \<Rightarrow> (Inr q, p\<lparr>sq_slots := sq_slots p @ [q], sq_next := (slot + 1) mod sq_limit p\<rparr>))
         else if alive (sq_slots p ! slot)
         then (Inr (sq_slots p ! slot), p\<lparr>sq_next := (slot + 1) mod sq_limit p\<rparr>)
         else (case created of
                 Inl e \<Rightarrow> (Inl e, p)
               | Inr q \<Rightarrow> (Inr q, p\<lparr>sq_slots := (sq_slots p)[slot := q], sq_next := (slot + 1) mod sq_limit p\<rparr>)))"

lemma stream_queue_bounded:
  assumes "length (sq_slots p) \<le> sq_limit p" "sq_next p \<le> length (sq_slots p)" "sq_next p < sq_limit p" "stream_queue alive created p = (r, p')"
  shows "length (sq_slots p') \<le> sq_limit p' \<and> sq_next p' \<le> length (sq_slots p') \<and> sq_next p' < sq_limit p' \<and> sq_limit p' = sq_limit p"
proof -
  have small: "Suc (sq_next p) mod sq_limit p < sq_limit p" using assms(3) by simp
  have le: "Suc (sq_next p) mod sq_limit p \<le> Suc (sq_next p)" by (rule mod_less_eq_dividend)
  show ?thesis
  proof (cases "sq_next p = length (sq_slots p)")
    case True
    with assms small le show ?thesis by (auto simp: stream_queue_def Let_def split: sum.splits)
  next
    case False
    then have "Suc (sq_next p) mod sq_limit p \<le> length (sq_slots p)" using le assms(2) by linarith
    with False assms small show ?thesis by (auto simp: stream_queue_def Let_def split: sum.splits if_splits)
  qed
qed


section \<open>Works\<close>

definition work_ok :: "work \<Rightarrow> bool" where
  "work_ok x \<longleftrightarrow> length (wk_words x) mod 8 = 0 \<and> wk_words x \<noteq> [] \<and> wk_fence_word x < length (wk_words x)
     \<and> wk_active x = wk_previous x \<and> wk_fence x \<le> wk_active x \<and> wk_retired x \<le> wk_fence x
     \<and> (wk_leases x = [] \<or> wk_leases x = wk_buffers x) \<and> (wk_fence x < wk_active x \<longrightarrow> wk_leases x = wk_buffers x)"

definition leased_uses :: "nat \<Rightarrow> native \<Rightarrow> nat \<Rightarrow> nat" where
  "leased_uses n s b = (\<Sum>w<n. count_list (wk_leases (nv_works s w)) b)"

definition works_ok :: "nat \<Rightarrow> native \<Rightarrow> bool" where
  "works_ok n s \<longleftrightarrow>
     (\<forall>w<n. work_ok (nv_works s w))
     \<and> (\<forall>w<n. \<forall>(d, p)\<in>set (wk_deps (nv_works s w)). d < w \<and> (0 < wk_retired (nv_works s w) \<longrightarrow> p \<le> wk_retired (nv_works s d)))
     \<and> nv_uses s = leased_uses n s"

text \<open>What retirement may change: the leases and the retired mark, which only rises.\<close>

definition same_command :: "work \<Rightarrow> work \<Rightarrow> bool" where
  "same_command x y \<longleftrightarrow> wk_queue y = wk_queue x \<and> wk_words y = wk_words x \<and> wk_fence_word y = wk_fence_word x \<and> wk_buffers y = wk_buffers x
     \<and> wk_deps y = wk_deps x \<and> wk_previous y = wk_previous x \<and> wk_active y = wk_active x \<and> wk_fence y = wk_fence x
     \<and> wk_retired x \<le> wk_retired y"

definition retire_frame :: "native \<Rightarrow> native \<Rightarrow> bool" where
  "retire_frame s s' \<longleftrightarrow> nv_queues s' = nv_queues s \<and> (\<forall>w. same_command (nv_works s w) (nv_works s' w))"

lemma retire_frame_refl: "retire_frame s s"
  by (simp add: retire_frame_def same_command_def)

lemma same_command_trans: "same_command x y \<Longrightarrow> same_command y z \<Longrightarrow> same_command x z"
  by (simp add: same_command_def)

lemma retire_frame_trans: "retire_frame s t \<Longrightarrow> retire_frame t u \<Longrightarrow> retire_frame s u"
  unfolding retire_frame_def using same_command_trans by metis

lemma retire_frame_fields:
  assumes "retire_frame s t"
  shows "wk_queue (nv_works t w) = wk_queue (nv_works s w)" "wk_words (nv_works t w) = wk_words (nv_works s w)"
    "wk_previous (nv_works t w) = wk_previous (nv_works s w)" "wk_fence (nv_works t w) = wk_fence (nv_works s w)"
    "wk_active (nv_works t w) = wk_active (nv_works s w)" "wk_buffers (nv_works t w) = wk_buffers (nv_works s w)"
    "wk_deps (nv_works t w) = wk_deps (nv_works s w)" "wk_retired (nv_works s w) \<le> wk_retired (nv_works t w)"
    "wk_fence_word (nv_works t w) = wk_fence_word (nv_works s w)"
  using assms by (simp_all add: retire_frame_def same_command_def)

lemma leased_uses_update:
  assumes "w < n"
  shows "leased_uses n (set_work w x s) b + count_list (wk_leases (nv_works s w)) b = leased_uses n s b + count_list (wk_leases x) b"
proof -
  have fin: "finite {..<n}" "w \<in> {..<n}" using assms by simp_all
  have rest: "(\<Sum>k\<in>{..<n} - {w}. count_list (wk_leases (nv_works (set_work w x s) k)) b) = (\<Sum>k\<in>{..<n} - {w}. count_list (wk_leases (nv_works s k)) b)"
    by (rule sum.cong) (auto simp: set_work_def)
  show ?thesis
    unfolding leased_uses_def sum.remove [OF fin, of "\<lambda>k. count_list (wk_leases (nv_works (set_work w x s) k)) b"]
      sum.remove [OF fin, of "\<lambda>k. count_list (wk_leases (nv_works s k)) b"] rest
    by (simp add: set_work_def)
qed

lemma leased_uses_ge: "w < n \<Longrightarrow> count_list (wk_leases (nv_works s w)) b \<le> leased_uses n s b"
  unfolding leased_uses_def by (rule member_le_sum) auto

text \<open>Retiring one work whose fence has passed its point and whose dependencies are retired.\<close>

definition retire_one :: "nat \<Rightarrow> native \<Rightarrow> native" where
  "retire_one w s =
     (let x = nv_works s w
      in if wk_fence x \<ge> wk_active x then set_work w (x\<lparr>wk_leases := [], wk_retired := wk_fence x\<rparr>) (drop_uses (wk_leases x) s)
         else set_work w (x\<lparr>wk_retired := wk_fence x\<rparr>) s)"

lemma retire_one_ok:
  assumes "works_ok n s" "w < n" "\<forall>(d, p)\<in>set (wk_deps (nv_works s w)). p \<le> wk_retired (nv_works s d)"
  shows "works_ok n (retire_one w s)" "retire_frame s (retire_one w s)" "wk_retired (nv_works (retire_one w s) w) = wk_fence (nv_works s w)"
    "k \<noteq> w \<Longrightarrow> nv_works (retire_one w s) k = nv_works s k"
proof -
  let ?x = "nv_works s w" and ?t = "retire_one w s"
  let ?y = "if wk_fence ?x \<ge> wk_active ?x then ?x\<lparr>wk_leases := [], wk_retired := wk_fence ?x\<rparr> else ?x\<lparr>wk_retired := wk_fence ?x\<rparr>"
  have works: "nv_works ?t = (nv_works s)(w := ?y)" by (simp add: retire_one_def set_work_def drop_uses_def Let_def)
  have x: "work_ok ?x" using assms(1,2) by (simp add: works_ok_def)
  then have le: "wk_retired ?x \<le> wk_fence ?x" by (simp add: work_ok_def)
  show "wk_retired (nv_works ?t w) = wk_fence ?x" by (simp add: works)
  show "k \<noteq> w \<Longrightarrow> nv_works ?t k = nv_works s k" by (simp add: works)
  have "nv_queues ?t = nv_queues s" by (simp add: retire_one_def set_work_def drop_uses_def Let_def)
  moreover have "same_command (nv_works s k) (nv_works ?t k)" for k
    using le by (simp add: works same_command_def)
  ultimately show frame: "retire_frame s ?t" by (simp add: retire_frame_def)
  have ok: "work_ok (nv_works ?t k)" if "k < n" for k
    using assms(1) that x by (auto simp: works works_ok_def work_ok_def)
  have deps: "d < k \<and> (0 < wk_retired (nv_works ?t k) \<longrightarrow> p \<le> wk_retired (nv_works ?t d))" if "k < n" "(d, p) \<in> set (wk_deps (nv_works ?t k))" for k d p
  proof -
    have dep: "(d, p) \<in> set (wk_deps (nv_works s k))" using that(2) retire_frame_fields(7) [OF frame] by simp
    then have d: "d < k" and old: "0 < wk_retired (nv_works s k) \<longrightarrow> p \<le> wk_retired (nv_works s d)"
      using assms(1) that(1) by (auto simp: works_ok_def)
    have up: "wk_retired (nv_works s d) \<le> wk_retired (nv_works ?t d)" by (rule retire_frame_fields(8) [OF frame])
    show ?thesis
    proof (cases "k = w")
      case True
      then have "p \<le> wk_retired (nv_works s d)" using assms(3) dep by auto
      then show ?thesis using d up by linarith
    next
      case False
      then have "wk_retired (nv_works ?t k) = wk_retired (nv_works s k)" by (simp add: works)
      then show ?thesis using d old up by auto
    qed
  qed
  have "nv_uses ?t b = leased_uses n ?t b" for b
  proof (cases "wk_fence ?x \<ge> wk_active ?x")
    case True
    have t: "leased_uses n ?t b = leased_uses n (set_work w ?y s) b" using True by (simp add: leased_uses_def retire_one_def set_work_def drop_uses_def Let_def)
    have "nv_uses ?t b = nv_uses s b - count_list (wk_leases ?x) b" using True by (simp add: retire_one_def set_work_def drop_uses_def Let_def)
    then show ?thesis using leased_uses_update [OF assms(2), of ?y s b] assms(1) True unfolding t by (simp add: works_ok_def)
  next
    case False
    have t: "leased_uses n ?t b = leased_uses n (set_work w ?y s) b" "nv_uses ?t b = nv_uses s b"
      using False by (simp_all add: leased_uses_def retire_one_def set_work_def Let_def)
    then show ?thesis using leased_uses_update [OF assms(2), of ?y s b] assms(1) False by (simp add: works_ok_def)
  qed
  with ok deps show "works_ok n ?t" by (auto simp: works_ok_def fun_eq_iff)
qed

lemma retire_step:
  "retire w v s =
     (if wk_retired (nv_works s w) \<ge> v then (True, s)
      else if wk_fence (nv_works s w) < v then (False, s)
      else case retire_deps w (wk_deps (nv_works s w)) s of
        (False, s1) \<Rightarrow> (False, s1)
      | (True, s1) \<Rightarrow>
          (True, if wk_fence (nv_works s w) = wk_fence (nv_works s1 w) then retire_one w s1 else snd (retire w v s)))"
  by (subst retire.simps)
    (auto simp: Let_def retire_one_def set_work_def drop_uses_def retire.simps [of w v s] split: prod.splits bool.splits)

lemma retire_ok:
  "works_ok n s \<Longrightarrow> w < n \<Longrightarrow> retire w v s = (b, t) \<Longrightarrow>
     works_ok n t \<and> retire_frame s t \<and> (\<forall>k>w. nv_works t k = nv_works s k) \<and> (b \<longrightarrow> v \<le> wk_retired (nv_works t w))"
  "works_ok n s \<Longrightarrow> w < n \<Longrightarrow> \<forall>(d, p)\<in>set ds. d < w \<Longrightarrow> retire_deps w ds s = (b, t) \<Longrightarrow>
     works_ok n t \<and> retire_frame s t \<and> (\<forall>k\<ge>w. nv_works t k = nv_works s k) \<and> (b \<longrightarrow> (\<forall>(d, p)\<in>set ds. p \<le> wk_retired (nv_works t d)))"
proof (induction w v s and w ds s arbitrary: b t and b t rule: retire_retire_deps.induct)
  case (1 w v s)
  show ?case
  proof (cases "wk_retired (nv_works s w) \<ge> v \<or> wk_fence (nv_works s w) < v")
    case True
    then show ?thesis using "1.prems" retire_frame_refl by (auto simp: retire_step [of w v s] split: if_splits)
  next
    case False
    obtain b1 s1 where deps: "retire_deps w (wk_deps (nv_works s w)) s = (b1, s1)" by fastforce
    have below: "\<forall>(d, p)\<in>set (wk_deps (nv_works s w)). d < w" using "1.prems"(1,2) by (auto simp: works_ok_def)
    have guards: "\<not> v \<le> wk_retired (nv_works s w)" "\<not> wk_fence (nv_works s w) < v" using False by simp_all
    note ih = "1.IH" [OF guards(1) refl guards(2) "1.prems"(1,2) below deps]
    then have same: "nv_works s1 w = nv_works s w" by simp
    show ?thesis
    proof (cases b1)
      case False
      then have "b = False" "t = s1" using "1.prems"(3) guards deps by (simp_all add: retire_step [of w v s])
      then show ?thesis using ih by simp
    next
      case True
      then have bt: "b" "t = retire_one w s1" using "1.prems"(3) guards deps same by (simp_all add: retire_step [of w v s])
      have "\<forall>(d, p)\<in>set (wk_deps (nv_works s1 w)). p \<le> wk_retired (nv_works s1 d)" using ih True same by simp
      note one = retire_one_ok [OF conjunct1 [OF ih] "1.prems"(2) this]
      have "retire_frame s t" using retire_frame_trans [OF _ one(2)] ih bt(2) by blast
      moreover have "\<forall>k>w. nv_works t k = nv_works s k" using one(4) ih bt(2) by simp
      ultimately show ?thesis using one(1,3) bt(2) same guards by simp
    qed
  qed
next
  case (2 w s)
  then show ?case by (simp add: retire_frame_refl)
next
  case (3 w d p ds s)
  have d: "d < w" "d < n" using "3.prems"(2,3) by auto
  obtain b1 s1 where one: "retire d p s = (b1, s1)" by fastforce
  note ih1 = "3.IH"(1) [OF d(1) "3.prems"(1) d(2) one]
  have same1: "\<forall>k\<ge>w. nv_works s1 k = nv_works s k" using ih1 d(1) by simp
  show ?case
  proof (cases b1)
    case False
    then have "b = False" "t = s1" using "3.prems"(4) one d(1) by simp_all
    then show ?thesis using ih1 same1 by simp
  next
    case True
    then have rest: "retire_deps w ds s1 = (b, t)" using "3.prems"(4) one d(1) by simp
    have below: "\<forall>(d, p)\<in>set ds. d < w" using "3.prems"(3) by auto
    have ok1: "works_ok n s1" using ih1 by simp
    have ih2: "works_ok n t \<and> retire_frame s1 t \<and> (\<forall>k\<ge>w. nv_works t k = nv_works s1 k) \<and> (b \<longrightarrow> (\<forall>(d, p)\<in>set ds. p \<le> wk_retired (nv_works t d)))"
      by (rule "3.IH"(2) [OF d(1) one [symmetric] _ ok1 "3.prems"(2) below rest]) (simp add: True)
    have "p \<le> wk_retired (nv_works t d)"
      using ih1 True retire_frame_fields(8) [of s1 t d] ih2 by (meson order_trans)
    then show ?thesis using ih1 ih2 same1 retire_frame_trans [of s s1 t] by auto
  qed
qed


section \<open>The ring\<close>

lemma ring_mask_mod: "ring_mask (2 ^ j) n = n mod 2 ^ j"
  by (simp add: ring_mask_def take_bit_eq_mod [symmetric] take_bit_eq_mask mask_eq_exp_minus_1)

text \<open>
  \<open>st\<close> is the stream of all words ever published. The ring holds the unread part of it, and the producer is never a whole ring
  ahead of the consumer.
\<close>

definition ring_read :: "ring_queue \<Rightarrow> nat" where
  "ring_read r = rq_read_index r div index_scale r"

definition queue_ok :: "ring_queue \<Rightarrow> u32w list \<Rightarrow> bool" where
  "queue_ok r st \<longleftrightarrow>
     (\<exists>j. rq_capacity r = 2 ^ j) \<and> rq_capacity r mod 8 = 0 \<and> length (rq_ring r) = rq_capacity r
     \<and> rq_write r mod 8 = 0 \<and> rq_write r \<le> usize_MAX \<and> rq_write_index r = rq_write r * index_scale r
     \<and> rq_read_index r \<le> rq_write_index r \<and> rq_write r - ring_read r < rq_capacity r \<and> length st = rq_write r
     \<and> (\<forall>p. ring_read r \<le> p \<and> p < rq_write r \<longrightarrow> rq_ring r ! (p mod rq_capacity r) = st ! p)
     \<and> length (rq_pending r) \<le> 4096"

lemma queue_okD:
  assumes "queue_ok r st"
  shows "ring_mask (rq_capacity r) n = n mod rq_capacity r" "0 < rq_capacity r" "ring_read r \<le> rq_write r"
    "ring_outstanding r = rq_write r - ring_read r"
proof -
  obtain j where j: "rq_capacity r = 2 ^ j" using assms by (auto simp: queue_ok_def)
  show m: "ring_mask (rq_capacity r) n = n mod rq_capacity r" for n by (simp add: j ring_mask_mod)
  show "0 < rq_capacity r" by (simp add: j)
  have sc: "0 < index_scale r" by (simp add: index_scale_def)
  show le: "ring_read r \<le> rq_write r"
    using assms sc by (auto simp: queue_ok_def ring_read_def div_le_dividend intro: order_trans [OF div_le_mono])
  have w: "rq_write r \<le> usize_MAX" "rq_write r - ring_read r < rq_capacity r" using assms by (simp_all add: queue_ok_def)
  have "(rq_write r + 2 ^ 64 - ring_read r) mod 2 ^ 64 = rq_write r - ring_read r"
  proof -
    have "rq_write r + 2 ^ 64 - ring_read r = (rq_write r - ring_read r) + 2 ^ 64" using le by simp
    moreover have "rq_write r - ring_read r < 2 ^ 64" using w(1) by (simp add: usize_MAX_def)
    ultimately show ?thesis by (metis mod_add_self2 mod_less)
  qed
  then show "ring_outstanding r = rq_write r - ring_read r" using w(2) by (simp add: ring_outstanding_def m ring_read_def)
qed

lemma length_overlay: "at + length ws \<le> length ring \<Longrightarrow> length (overlay at ws ring) = length ring"
  by (simp add: overlay_def)

lemma nth_overlay:
  assumes "at + length ws \<le> length ring"
  shows "at \<le> i \<Longrightarrow> i < at + length ws \<Longrightarrow> overlay at ws ring ! i = ws ! (i - at)"
    "\<not> (at \<le> i \<and> i < at + length ws) \<Longrightarrow> overlay at ws ring ! i = ring ! i"
proof -
  show "overlay at ws ring ! i = ws ! (i - at)" if bounds: "at \<le> i" "i < at + length ws"
  proof -
    obtain e where "i = at + e" using bounds(1) le_Suc_ex by blast
    then show ?thesis using assms bounds(2) by (simp add: overlay_def nth_append)
  qed
  assume "\<not> (at \<le> i \<and> i < at + length ws)"
  then consider "i < at" | "at + length ws \<le> i" by linarith
  then show "overlay at ws ring ! i = ring ! i"
    using assms by cases (auto simp: overlay_def nth_append)
qed

lemma length_wrap_words [simp]: "length (wrap_words sdma wrap) = wrap"
  by (simp add: wrap_words_def)

lemma length_command_words [simp]: "length (command_words x v) = length (wk_words x)"
  by (simp add: command_words_def)

text \<open>Writing a command: its words, after the padding, follow the write position around the ring, and no other word changes.\<close>

lemma ring_write_spec:
  fixes v :: nat
  assumes "queue_ok r st" "ring_wrap r (length (wk_words x)) + length (wk_words x) < rq_capacity r"
  defines "wrap \<equiv> ring_wrap r (length (wk_words x))"
  defines "ws \<equiv> wrap_words (rq_sdma r) wrap @ command_words x v"
  shows "length (ring_write r x v) = rq_capacity r"
    "i < length ws \<Longrightarrow> ring_write r x v ! ((rq_write r + i) mod rq_capacity r) = ws ! i"
    "k < rq_capacity r \<Longrightarrow> \<forall>i<length ws. (rq_write r + i) mod rq_capacity r \<noteq> k \<Longrightarrow> ring_write r x v ! k = rq_ring r ! k"
proof -
  let ?C = "rq_capacity r" and ?len = "length (wk_words x)"
  define cur where "cur = rq_write r mod ?C"
  have C: "0 < ?C" "length (rq_ring r) = ?C" using queue_okD(2) [OF assms(1)] assms(1) by (simp_all add: queue_ok_def)
  have small: "wrap + ?len < ?C" using assms(2) by (simp add: wrap_def)
  have cur: "cur < ?C" using C(1) by (simp add: cur_def)
  have mask: "ring_mask ?C (rq_write r) = cur" by (simp add: queue_okD(1) [OF assms(1)] cur_def)
  have wrap: "wrap = (if ?len > ?C - cur then ?C - cur else 0)" by (simp add: wrap_def ring_wrap_def mask Let_def)
  have fit: "cur + wrap \<le> ?C" using cur wrap by (simp split: if_splits)
  have full: "cur + wrap = ?C" if "wrap \<noteq> 0" using cur wrap that by (simp split: if_splits)
  have room: "cur + ?len \<le> ?C" if "wrap = 0" using cur wrap that by (simp split: if_splits)
  let ?pad = "overlay cur (wrap_words (rq_sdma r) wrap) (rq_ring r)" and ?at = "if wrap = 0 then cur else 0"
  have rw: "ring_write r x v = overlay ?at (command_words x v) ?pad" by (simp add: ring_write_def mask Let_def wrap_def)
  have pad_len: "length ?pad = ?C" using fit C(2) by (simp add: length_overlay)
  have at: "?at + ?len \<le> ?C" using room small by simp
  have at': "?at + length (command_words x v) \<le> length ?pad" using at pad_len by simp
  have fit': "cur + length (wrap_words (rq_sdma r) wrap) \<le> length (rq_ring r)" using fit C(2) by simp
  show "length (ring_write r x v) = ?C" unfolding rw using at pad_len by (simp add: length_overlay)
  have ws: "length ws = wrap + ?len" by (simp add: ws_def)
  have pos: "(rq_write r + i) mod ?C = (if i < wrap then cur + i else if wrap = 0 then cur + i else i - wrap)" if "i < length ws" for i
  proof -
    have step: "(rq_write r + i) mod ?C = (cur + i) mod ?C" by (simp add: cur_def mod_add_left_eq)
    consider "i < wrap" | "wrap = 0" | "wrap \<noteq> 0" "wrap \<le> i" by linarith
    then show ?thesis
    proof cases
      case 1
      then have "cur + i < ?C" using fit by linarith
      then show ?thesis using 1 step by simp
    next
      case 2
      then have "cur + i < ?C" using room that ws by simp
      then show ?thesis using 2 step by simp
    next
      case 3
      then obtain e where e: "i = wrap + e" using le_Suc_ex by blast
      then have sum: "cur + i = ?C + e" and "e < ?C" using full 3 that ws small by simp_all
      then have "(cur + i) mod ?C = e" unfolding sum by simp
      then show ?thesis using 3 step e by simp
    qed
  qed
  show "ring_write r x v ! ((rq_write r + i) mod ?C) = ws ! i" if i: "i < length ws"
  proof (cases "i < wrap")
    case True
    then have off: "\<not> (?at \<le> cur + i \<and> cur + i < ?at + length (command_words x v))"
      using full small by simp
    have "ring_write r x v ! (cur + i) = ?pad ! (cur + i)" unfolding rw by (rule nth_overlay(2) [OF at' off])
    also have "\<dots> = wrap_words (rq_sdma r) wrap ! (cur + i - cur)" by (rule nth_overlay(1) [OF fit']) (simp_all add: True)
    finally show ?thesis using pos [OF i] True by (simp add: ws_def nth_append)
  next
    case False
    define m where "m = (rq_write r + i) mod ?C"
    have m: "?at \<le> m" "m < ?at + length (command_words x v)" "m - ?at = i - wrap"
      using pos [OF i] i ws False by (auto simp: m_def)
    have "ring_write r x v ! m = command_words x v ! (i - wrap)"
      unfolding rw m(3) [symmetric] by (rule nth_overlay(1) [OF at' m(1,2)])
    then show ?thesis using False by (simp add: ws_def nth_append m_def)
  qed
  assume k: "k < ?C" "\<forall>i<length ws. (rq_write r + i) mod ?C \<noteq> k"
  have not_command: "\<not> (?at \<le> k \<and> k < ?at + length (command_words x v))"
  proof
    assume in_command: "?at \<le> k \<and> k < ?at + length (command_words x v)"
    then have i: "wrap + (k - ?at) < length ws" using ws by auto
    have "(rq_write r + (wrap + (k - ?at))) mod ?C = k" using pos [OF i] in_command by (auto split: if_splits)
    then show False using k(2) i by blast
  qed
  have not_pad: "\<not> (cur \<le> k \<and> k < cur + length (wrap_words (rq_sdma r) wrap))"
  proof
    assume in_pad: "cur \<le> k \<and> k < cur + length (wrap_words (rq_sdma r) wrap)"
    then have i: "k - cur < length ws" and lt: "k - cur < wrap" using ws by auto
    have "(rq_write r + (k - cur)) mod ?C = k" using pos [OF i] lt in_pad by simp
    then show False using k(2) i by blast
  qed
  have "ring_write r x v ! k = ?pad ! k" unfolding rw by (rule nth_overlay(2) [OF at' not_command])
  also have "\<dots> = rq_ring r ! k" by (rule nth_overlay(2) [OF fit' not_pad])
  finally show "ring_write r x v ! k = rq_ring r ! k" .
qed

lemma mod_distinct: "p < m \<Longrightarrow> m < p + (c :: nat) \<Longrightarrow> m mod c \<noteq> p mod c"
proof
  assume less: "p < m" "m < p + c" and "m mod c = p mod c"
  then have "c dvd m - p" using mod_eq_dvd_iff_nat [of p m c] by simp
  then show False using less nat_dvd_not_less [of "m - p" c] by simp
qed

text \<open>Publication appends the padding and the command to the stream; the ring again holds all unread words.\<close>

lemma publish_queue_ok:
  fixes v :: nat
  assumes q: "queue_ok r st" and room: "ring_full r (length (wk_words x)) = None" and words: "length (wk_words x) mod 8 = 0"
    and published: "published = rq_write r + (ring_wrap r (length (wk_words x)) + length (wk_words x))" "published \<le> usize_MAX"
  shows "queue_ok (r\<lparr>rq_pending := rq_pending r @ [e], rq_ring := ring_write r x v, rq_write_index := published * index_scale r, rq_write := published\<rparr>)
           (st @ wrap_words (rq_sdma r) (ring_wrap r (length (wk_words x))) @ command_words x v)"
    (is "queue_ok ?r ?st")
proof -
  let ?C = "rq_capacity r" and ?len = "length (wk_words x)"
  define wrap where "wrap = ring_wrap r ?len"
  define ws where "ws = wrap_words (rq_sdma r) wrap @ command_words x v"
  note D = queue_okD [OF q]
  have free: "wrap + ?len < ?C - (rq_write r - ring_read r)" and pend: "length (rq_pending r) < 4096"
    using room D(4) by (auto simp: ring_full_def wrap_def split: if_splits)
  have small: "ring_wrap r ?len + ?len < ?C" using free by (simp add: wrap_def)
  note spec = ring_write_spec [where v = v, OF q small, folded wrap_def, folded ws_def]
  have ws: "length ws = wrap + ?len" by (simp add: ws_def)
  have fields: "\<exists>j. ?C = 2 ^ j" "?C mod 8 = 0" "rq_write r mod 8 = 0" "rq_read_index r \<le> rq_write_index r" "rq_write_index r = rq_write r * index_scale r"
    "length st = rq_write r" and held: "ring_read r \<le> p \<Longrightarrow> p < rq_write r \<Longrightarrow> rq_ring r ! (p mod ?C) = st ! p" for p
    using q by (simp_all add: queue_ok_def)
  have cur8: "rq_write r mod ?C mod 8 = 0" using fields(2,3) by (metis dvd_eq_mod_eq_0 dvd_mod)
  have "rq_write r mod ?C \<le> ?C" using D(2) by (simp add: less_imp_le)
  then have "wrap mod 8 = 0" using fields(2) cur8 by (auto simp: wrap_def ring_wrap_def Let_def D(1) mod_eq_0_iff_dvd)
  then have pub8: "published mod 8 = 0" using published(1) fields(3) words by (simp add: wrap_def [symmetric] mod_eq_0_iff_dvd)
  have held': "ring_write r x v ! (p mod ?C) = (st @ ws) ! p" if p: "ring_read r \<le> p" "p < published" for p
  proof (cases "p < rq_write r")
    case True
    have "(rq_write r + i) mod ?C \<noteq> p mod ?C" if i: "i < length ws" for i
      by (rule mod_distinct) (use i True p free ws in linarith)+
    then have "ring_write r x v ! (p mod ?C) = rq_ring r ! (p mod ?C)" using spec(3) [where k = "p mod ?C"] D(2) by simp
    then show ?thesis using held [OF p(1) True] True fields(6) by (simp add: nth_append)
  next
    case False
    then obtain i where i: "p = rq_write r + i" using le_Suc_ex not_less by blast
    then have "i < length ws" using p(2) published(1) ws by (simp add: wrap_def)
    then show ?thesis using spec(2) [where i = i] i fields(6) by (simp add: nth_append)
  qed
  have "rq_read_index r \<le> published * index_scale r" using fields(4,5) published(1) by (simp add: algebra_simps)
  moreover have "published - ring_read r < ?C" using published(1) free D(3) by (simp add: wrap_def)
  moreover have "length (st @ ws) = published" using ws published(1) fields(6) by (simp add: wrap_def)
  moreover have "index_scale ?r = index_scale r" "ring_read ?r = ring_read r" by (simp_all add: index_scale_def ring_read_def)
  ultimately show ?thesis
    unfolding queue_ok_def wrap_def [symmetric] ws_def [symmetric]
    using fields(1,2) spec(1) pub8 published(2) pend held' by simp
qed

text \<open>A created queue starts with an empty stream, whatever its ring holds.\<close>

definition queue_created :: "ring_queue \<Rightarrow> bool" where
  "queue_created r \<longleftrightarrow> (\<exists>sdma command m. r = fresh_queue sdma m \<and> mapping_accepted command m \<and> length (mi_ring m) = mi_ring_byte_length m div 4)"

lemma create_queue_from_created:
  assumes "create_queue_from query map_queue command pm4 ords = Inr (ordinal, cache, r)"
    "\<And>k len m. map_queue k len = Inr m \<Longrightarrow> length (mi_ring m) = mi_ring_byte_length m div 4"
  shows "queue_created r"
  using assms(1)
proof (induction ords)
  case Nil
  then show ?case by simp
next
  case (Cons k ords)
  show ?case
  proof (cases "\<exists>f c m. query k = Inr f \<and> family_cache command pm4 f = Some c \<and> map_queue k (fm_minimum_ring f) = Inr m")
    case True
    then obtain len m where m: "mapping_accepted command m" "r = fresh_queue (\<not> pm4) m" "map_queue k len = Inr m"
      using Cons.prems by (auto split: if_splits)
    show ?thesis unfolding queue_created_def using m(1,2) assms(2) [OF m(3)] by blast
  next
    case False
    then show ?thesis using Cons by (auto split: sum.splits option.splits)
  qed
qed

lemma queue_created_ok:
  assumes "queue_created r"
  shows "queue_ok r [] \<and> rq_pending r = []"
proof -
  obtain command sdma m where m: "mapping_accepted command m" "r = fresh_queue sdma m" "length (mi_ring m) = mi_ring_byte_length m div 4"
    using assms by (auto simp: queue_created_def)
  then obtain j where j: "mi_ring_byte_length m = 2 ^ j" "2 ^ j \<ge> (4096 :: nat)"
    by (auto simp: mapping_accepted_def is_power_of_two_iff not_less)
  have "12 \<le> j"
  proof (rule ccontr)
    assume "\<not> 12 \<le> j"
    then have "(2 :: nat) ^ j \<le> 2 ^ 11" by (intro power_increasing) simp_all
    then show False using j(2) by simp
  qed
  then obtain i where i: "j = i + 12" by (metis le_add_diff_inverse2)
  have "rq_capacity r = 2 ^ (i + 10)" using m(2) j(1) i by (simp add: fresh_queue_def power_add)
  then have "\<exists>j. rq_capacity r = 2 ^ j" "rq_capacity r mod 8 = 0" "0 < rq_capacity r" by (blast, simp_all add: power_add)
  then show ?thesis using m(2,3) by (simp add: queue_ok_def fresh_queue_def ring_read_def index_scale_def usize_MAX_def)
qed

end
