(* ===== verification/Native_Producer.thy ===== *)
theory Native_Producer
  imports Native_Queue "HOL-Library.Sublist"
begin

text \<open>
  The whole life of native queues: commands are prepared, published, observed and retired by the producer, while the
  device consumes ring words, raises fences and may fail, in any order. The steps carry the stream of all words published on each queue.
\<close>


section \<open>Reaping\<close>

text \<open>What every state between two calls satisfies: \<open>n\<close> works were made, \<open>st\<close> are the streams of the queues.\<close>

definition pending_ok :: "nat \<Rightarrow> native \<Rightarrow> bool" where
  "pending_ok n s \<longleftrightarrow>
     (\<forall>q. \<forall>(w, v)\<in>set (rq_pending (nv_queues s q)). w < n \<and> wk_queue (nv_works s w) = q \<and> v \<le> wk_active (nv_works s w))
     \<and> (\<forall>w<n. wk_retired (nv_works s w) < wk_active (nv_works s w)
          \<longrightarrow> (w, wk_active (nv_works s w)) \<in> set (rq_pending (nv_queues s (wk_queue (nv_works s w)))))"

definition native_ok :: "nat \<Rightarrow> (nat \<Rightarrow> u32w list) \<Rightarrow> native \<Rightarrow> bool" where
  "native_ok n st s \<longleftrightarrow> works_ok n s \<and> (\<forall>q. queue_ok (nv_queues s q) (st q)) \<and> pending_ok n s"

text \<open>A queue loses pending entries whose points are retired; nothing else changes but what retirement may change.\<close>

definition trimmed :: "nat \<Rightarrow> (nat \<times> nat) list \<Rightarrow> native \<Rightarrow> native \<Rightarrow> bool" where
  "trimmed q ps s t \<longleftrightarrow>
     (\<forall>w. same_command (nv_works s w) (nv_works t w))
     \<and> nv_queues t = (nv_queues s)(q := (nv_queues s q)\<lparr>rq_pending := ps\<rparr>)
     \<and> suffix ps (rq_pending (nv_queues s q))
     \<and> (\<forall>(w, v)\<in>set (rq_pending (nv_queues s q)) - set ps. v \<le> wk_retired (nv_works t w))"

lemma queue_ok_pending:
  "queue_ok r st \<Longrightarrow> length ps \<le> length (rq_pending r) \<Longrightarrow> queue_ok (r\<lparr>rq_pending := ps\<rparr>) st"
  by (simp add: queue_ok_def ring_read_def index_scale_def)

lemma trimmed_ok:
  assumes ok: "native_ok n st s" and t: "works_ok n t" "trimmed q ps s t"
  shows "native_ok n st t"
proof -
  have same: "wk_queue (nv_works t w) = wk_queue (nv_works s w)" "wk_active (nv_works t w) = wk_active (nv_works s w)"
    "wk_retired (nv_works s w) \<le> wk_retired (nv_works t w)" for w
    using t(2) by (simp_all add: trimmed_def same_command_def)
  have queues: "nv_queues t = (nv_queues s)(q := (nv_queues s q)\<lparr>rq_pending := ps\<rparr>)" and suff: "suffix ps (rq_pending (nv_queues s q))"
    and gone: "(w, v) \<in> set (rq_pending (nv_queues s q)) \<Longrightarrow> (w, v) \<notin> set ps \<Longrightarrow> v \<le> wk_retired (nv_works t w)" for w v
    using t(2) by (auto simp: trimmed_def)
  have len: "length ps \<le> length (rq_pending (nv_queues s q))" using suff by (rule suffix_length_le)
  have sub: "set (rq_pending (nv_queues t k)) \<subseteq> set (rq_pending (nv_queues s k))" for k
    using set_mono_suffix [OF suff] by (simp add: queues)
  have "queue_ok (nv_queues t k) (st k)" for k
    using ok queue_ok_pending [of "nv_queues s q" "st q", OF _ len] by (simp add: native_ok_def queues)
  moreover have "pending_ok n t"
    unfolding pending_ok_def same
  proof (intro conjI allI impI ballI)
    fix k x assume "x \<in> set (rq_pending (nv_queues t k))"
    then have "x \<in> set (rq_pending (nv_queues s k))" using sub by blast
    then show "case x of (w, v) \<Rightarrow> w < n \<and> wk_queue (nv_works s w) = k \<and> v \<le> wk_active (nv_works s w)"
      using ok by (auto simp: native_ok_def pending_ok_def)
  next
    fix w assume w: "w < n" "wk_retired (nv_works t w) < wk_active (nv_works s w)"
    then have "wk_retired (nv_works s w) < wk_active (nv_works s w)" using same(3) [of w] by linarith
    then have old: "(w, wk_active (nv_works s w)) \<in> set (rq_pending (nv_queues s (wk_queue (nv_works s w))))"
      using ok w(1) by (simp add: native_ok_def pending_ok_def)
    then show "(w, wk_active (nv_works s w)) \<in> set (rq_pending (nv_queues t (wk_queue (nv_works s w))))"
      using gone [of w "wk_active (nv_works s w)"] w(2) by (auto simp: queues)
  qed
  ultimately show ?thesis using t(1) by (simp add: native_ok_def)
qed

lemma poll_ok:
  assumes "works_ok n s" "w < n" "poll_work q w v s = (r, t)"
  shows "works_ok n t \<and> retire_frame s t \<and> (r = Inr True \<longrightarrow> v \<le> wk_retired (nv_works t w))"
proof -
  obtain b u where u: "retire w v s = (b, u)" by fastforce
  note ret = retire_ok(1) [OF assms(1,2) u]
  have "t = u" "r = Inr True \<longrightarrow> b" using assms(3) u by (auto simp: poll_work_def split: bool.splits option.splits)
  then show ?thesis using ret by simp
qed

lemma retire_frame_trimmed: "retire_frame s t \<Longrightarrow> trimmed q (rq_pending (nv_queues s q)) s t"
  by (auto simp: retire_frame_def trimmed_def)

lemma reap_ok:
  assumes "works_ok n s" "\<forall>(w, v)\<in>set ps. w < n" "suffix ps (rq_pending (nv_queues s q))"
    "\<forall>(w, v)\<in>set (rq_pending (nv_queues s q)) - set ps. v \<le> wk_retired (nv_works s w)" "reap q ps s = (r, t)"
  shows "works_ok n t \<and> (\<exists>ps'. trimmed q ps' s t)"
  using assms
proof (induction ps arbitrary: s)
  case Nil
  have t: "t = set_queue q ((nv_queues s q)\<lparr>rq_pending := []\<rparr>) s" using Nil.prems(5) by simp
  have "trimmed q [] s t" using Nil.prems(4) by (auto simp: t trimmed_def set_queue_def same_command_def)
  moreover have "works_ok n t" using Nil.prems(1) by (simp add: t works_ok_def set_queue_def leased_uses_def fun_eq_iff)
  ultimately show ?case by blast
next
  case (Cons x ps)
  obtain w v where x: "x = (w, v)" by fastforce
  obtain p u where u: "poll_work q w v s = (p, u)" by fastforce
  have w: "w < n" using Cons.prems(2) x by simp
  note poll = poll_ok [OF Cons.prems(1) w u]
  have queues: "nv_queues u = nv_queues s" using poll by (simp add: retire_frame_def)
  have up: "wk_retired (nv_works s k) \<le> wk_retired (nv_works u k)" for k using poll retire_frame_fields(8) by blast
  have gone: "\<forall>(k, m)\<in>set (rq_pending (nv_queues u q)) - set (x # ps). m \<le> wk_retired (nv_works u k)"
  proof clarify
    fix k m assume "(k, m) \<in> set (rq_pending (nv_queues u q))" "(k, m) \<notin> set (x # ps)"
    then have "m \<le> wk_retired (nv_works s k)" using Cons.prems(4) unfolding queues by auto
    then show "m \<le> wk_retired (nv_works u k)" using up [of k] by linarith
  qed
  show ?case
  proof (cases "p = Inr True")
    case True
    have rest: "reap q ps u = (r, t)" using Cons.prems(5) x u True by simp
    have suff: "suffix ps (rq_pending (nv_queues u q))" using Cons.prems(3) queues suffix_ConsD by metis
    have gone': "\<forall>(k, m)\<in>set (rq_pending (nv_queues u q)) - set ps. m \<le> wk_retired (nv_works u k)"
      using gone poll True x by auto
    have "\<forall>(w, v)\<in>set ps. w < n" using Cons.prems(2) by simp
    from Cons.IH [OF _ this suff gone' rest] poll obtain ps' where ps': "works_ok n t" "trimmed q ps' u t" by blast
    have "same_command (nv_works s k) (nv_works t k)" for k
      using poll ps'(2) same_command_trans unfolding retire_frame_def trimmed_def by blast
    then have "trimmed q ps' s t" using ps'(2) queues by (simp add: trimmed_def)
    then show ?thesis using ps'(1) by blast
  next
    case False
    then have t: "t = set_queue q ((nv_queues u q)\<lparr>rq_pending := x # ps\<rparr>) u"
      using Cons.prems(5) x u by (auto split: sum.splits bool.splits)
    have "works_ok n t" using poll by (simp add: t works_ok_def set_queue_def leased_uses_def fun_eq_iff)
    moreover have "trimmed q (x # ps) s t"
      using poll gone Cons.prems(3) by (simp add: trimmed_def t set_queue_def retire_frame_def)
    ultimately show ?thesis by blast
  qed
qed

lemma reap_native_ok:
  assumes ok: "native_ok n st s" and r: "reap q (rq_pending (nv_queues s q)) s = (r, t)"
  shows "native_ok n st t \<and> (\<exists>ps. trimmed q ps s t)"
proof -
  have "works_ok n s" and below: "\<forall>(w, v)\<in>set (rq_pending (nv_queues s q)). w < n"
    using ok by (auto simp: native_ok_def pending_ok_def)
  then have "works_ok n t \<and> (\<exists>ps. trimmed q ps s t)" using reap_ok [OF _ below _ _ r] by simp
  then show ?thesis using trimmed_ok [OF ok] by blast
qed

lemma refresh_ok:
  assumes ok: "native_ok n st s" and w: "w < n" and r: "completion_refresh q w v s = (r, t)"
  shows "native_ok n st t \<and> (\<forall>k. same_command (nv_works s k) (nv_works t k)) \<and> (r = Inr True \<longrightarrow> v \<le> wk_retired (nv_works t w))"
proof -
  obtain p u where u: "poll_work q w v s = (p, u)" by fastforce
  have "works_ok n s" using ok by (simp add: native_ok_def)
  note poll = poll_ok [OF this w u]
  have uok: "native_ok n st u" using trimmed_ok [OF ok] retire_frame_trimmed poll by blast
  show ?thesis
  proof (cases "p = Inr True")
    case False
    then have "t = u" "r \<noteq> Inr True" using r u by (auto simp: completion_refresh_def split: sum.splits bool.splits)
    then show ?thesis using uok poll by (simp add: retire_frame_def)
  next
    case True
    obtain p' u' where u': "reap q (rq_pending (nv_queues u q)) u = (p', u')" by fastforce
    then have "t = u'" using r u True by (auto simp: completion_refresh_def split: sum.splits)
    moreover obtain ps where ps: "native_ok n st u'" "trimmed q ps u u'" using reap_native_ok [OF uok u'] by blast
    moreover have "same_command (nv_works s k) (nv_works u' k)" for k
      using poll ps(2) same_command_trans unfolding retire_frame_def trimmed_def by blast
    moreover have "v \<le> wk_retired (nv_works u' w)"
      using poll True ps(2) order_trans unfolding trimmed_def same_command_def by blast
    ultimately show ?thesis by simp
  qed
qed


section \<open>Publishing\<close>

lemma works_ok_keep:
  assumes "works_ok n s" "\<And>k. wk_deps (nv_works t k) = wk_deps (nv_works s k) \<and> wk_retired (nv_works t k) = wk_retired (nv_works s k)"
    "\<And>k. k < n \<Longrightarrow> work_ok (nv_works t k)" "nv_uses t = leased_uses n t"
  shows "works_ok n t"
  using assms by (simp add: works_ok_def)

lemma take_leases_ok:
  assumes ok: "works_ok n s" and w: "w < n" and t: "take_leases refuses w s = (r, t)"
  shows "works_ok n t \<and> nv_queues t = nv_queues s \<and> (\<forall>k. same_command (nv_works s k) (nv_works t k) \<and> wk_retired (nv_works t k) = wk_retired (nv_works s k))
    \<and> (r = Inr () \<longrightarrow> wk_leases (nv_works t w) = wk_buffers (nv_works t w))"
proof -
  let ?x = "nv_works s w"
  have x: "work_ok ?x" using ok w by (simp add: works_ok_def)
  show ?thesis
  proof (cases "wk_leases ?x = [] \<and> first_refusal refuses (wk_buffers ?x) = None")
    case False
    then have "t = s" "r = Inr () \<longrightarrow> wk_leases ?x \<noteq> []" using t by (auto simp: take_leases_def Let_def split: if_splits option.splits)
    then show ?thesis using ok x by (auto simp: same_command_def work_ok_def)
  next
    case True
    let ?y = "?x\<lparr>wk_leases := wk_buffers ?x\<rparr>"
    have t': "t = add_uses (wk_buffers ?x) (set_work w ?y s)" using t True by (simp add: take_leases_def Let_def)
    have works: "nv_works t = (nv_works s)(w := ?y)" by (simp add: t' add_uses_def set_work_def)
    have "nv_uses t b = leased_uses n t b" for b
    proof -
      have "leased_uses n t b = leased_uses n (set_work w ?y s) b" by (simp add: t' leased_uses_def add_uses_def)
      moreover have "leased_uses n (set_work w ?y s) b = nv_uses s b + count_list (wk_buffers ?x) b"
        using leased_uses_update [OF w, of ?y s b] ok True by (simp add: works_ok_def)
      ultimately show ?thesis by (simp add: t' add_uses_def set_work_def)
    qed
    then have "nv_uses t = leased_uses n t" by (rule ext)
    moreover have "work_ok (nv_works t k)" if "k < n" for k
      using ok that x by (auto simp: works works_ok_def work_ok_def)
    ultimately have "works_ok n t" using works_ok_keep [OF ok, of t] by (simp add: works)
    then show ?thesis by (simp add: works same_command_def) (simp add: t' add_uses_def set_work_def)
  qed
qed

definition published_words :: "native \<Rightarrow> nat \<Rightarrow> nat \<Rightarrow> u32w list" where
  "published_words s w value =
     (let r = nv_queues s (wk_queue (nv_works s w))
      in wrap_words (rq_sdma r) (ring_wrap r (length (wk_words (nv_works s w)))) @ command_words (nv_works s w) value)"

lemma publish_ok:
  assumes ok: "native_ok n st s" and w: "w < n" and x: "x = nv_works s w" and q: "q = wk_queue x" and r: "r = nv_queues s q"
    and leases: "wk_leases x = wk_buffers x" and room: "ring_full r (length (wk_words x)) = None"
    and published: "published = rq_write r + (ring_wrap r (length (wk_words x)) + length (wk_words x))" "published \<le> usize_MAX"
    and v: "value = wk_previous x + 1"
  shows "native_ok n (st(q := st q @ published_words s w value)) (publish_work w value published s)"
proof -
  let ?t = "publish_work w value published s" and ?y = "x\<lparr>wk_active := value, wk_previous := value\<rparr>"
  let ?r = "r\<lparr>rq_pending := rq_pending r @ [(w, value)], rq_ring := ring_write r x value, rq_write_index := published * index_scale r, rq_write := published\<rparr>"
  have t: "nv_works ?t = (nv_works s)(w := ?y)" "nv_queues ?t = (nv_queues s)(q := ?r)" "nv_uses ?t = nv_uses s"
    by (simp_all add: publish_work_def set_work_def set_queue_def Let_def x q r)
  have works: "works_ok n s" and queues: "\<And>k. queue_ok (nv_queues s k) (st k)" and pending: "pending_ok n s" using ok by (simp_all add: native_ok_def)
  have xok: "work_ok x" using works w by (simp add: works_ok_def x)
  then have words: "length (wk_words x) mod 8 = 0" and active: "wk_active x < value" by (simp_all add: work_ok_def v)
  have pub: "queue_ok ?r (st q @ published_words s w value)"
    using publish_queue_ok [OF queues [of q, folded r] room words published]
    by (simp add: published_words_def Let_def x [symmetric] q [symmetric] r [symmetric])
  have "queue_ok (nv_queues ?t k) ((st(q := st q @ published_words s w value)) k)" for k using pub queues by (simp add: t)
  moreover have "works_ok n ?t"
  proof -
    have "work_ok ?y" using xok leases active by (simp add: work_ok_def)
    then have "work_ok (nv_works ?t k)" if "k < n" for k
      using works that by (simp add: t works_ok_def)
    moreover have "leased_uses n ?t = leased_uses n s" by (rule ext) (auto simp: leased_uses_def t x intro!: sum.cong)
    moreover have "nv_uses s = leased_uses n s" using works by (simp add: works_ok_def)
    ultimately show ?thesis using works_ok_keep [OF works, of ?t] by (simp add: t x)
  qed
  moreover have "pending_ok n ?t"
    unfolding pending_ok_def
  proof (intro conjI allI impI ballI)
    fix k e assume "e \<in> set (rq_pending (nv_queues ?t k))"
    then have e: "e \<in> set (rq_pending (nv_queues s k)) \<or> k = q \<and> e = (w, value)" by (auto simp: t r split: if_splits)
    then show "case e of (d, m) \<Rightarrow> d < n \<and> wk_queue (nv_works ?t d) = k \<and> m \<le> wk_active (nv_works ?t d)"
    proof
      assume "e \<in> set (rq_pending (nv_queues s k))"
      then show ?thesis using pending active by (fastforce simp: pending_ok_def t x)
    next
      assume "k = q \<and> e = (w, value)"
      then show ?thesis using w q by (simp add: t)
    qed
  next
    fix k assume k: "k < n" "wk_retired (nv_works ?t k) < wk_active (nv_works ?t k)"
    show "(k, wk_active (nv_works ?t k)) \<in> set (rq_pending (nv_queues ?t (wk_queue (nv_works ?t k))))"
    proof (cases "k = w")
      case True
      then show ?thesis using q by (simp add: t)
    next
      case False
      then have "(k, wk_active (nv_works s k)) \<in> set (rq_pending (nv_queues s (wk_queue (nv_works s k))))"
        using pending k by (simp add: pending_ok_def t)
      then show ?thesis using False by (auto simp: t r)
    qed
  qed
  ultimately show ?thesis by (simp add: native_ok_def)
qed

definition stream_after :: "nat result \<Rightarrow> nat \<Rightarrow> native \<Rightarrow> (nat \<Rightarrow> u32w list) \<Rightarrow> nat \<Rightarrow> u32w list" where
  "stream_after result w s st =
     (case result of
        Inl _ \<Rightarrow> st
      | Inr value \<Rightarrow> st(wk_queue (nv_works s w) := st (wk_queue (nv_works s w)) @ published_words s w value))"

lemma dispatch_ok:
  assumes ok: "native_ok n st s" and w: "w < n" and t: "dispatch_one refuses w s = (res, t)"
  shows "native_ok n (stream_after res w s st) t"
proof -
  define q where "q = wk_queue (nv_works s w)"
  define v where "v = wk_previous (nv_works s w) + 1"
  obtain c s1 where s1: "reap q (rq_pending (nv_queues s q)) s = (c, s1)" by fastforce
  obtain ps where ok1: "native_ok n st s1" and trim: "trimmed q ps s s1" using reap_native_ok [OF ok s1] by blast
  obtain e s2 where s2: "take_leases refuses w s1 = (e, s2)" by fastforce
  have "works_ok n s1" using ok1 by (simp add: native_ok_def)
  note leases = take_leases_ok [OF this w s2]
  have "trimmed q (rq_pending (nv_queues s1 q)) s1 s2" using leases by (simp add: trimmed_def)
  then have ok2: "native_ok n st s2" using trimmed_ok [OF ok1] leases by blast
  have same: "same_command (nv_works s w) (nv_works s2 w)"
    using trim leases same_command_trans unfolding trimmed_def by blast
  define r where "r = nv_queues s1 q"
  define len where "len = length (wk_words (nv_works s1 w))"
  define published where "published = rq_write r + (ring_wrap r len + len)"
  have r2: "nv_queues s2 q = r" using leases by (simp add: r_def)
  have x2: "wk_queue (nv_works s2 w) = q" "wk_previous (nv_works s2 w) + 1 = v" "length (wk_words (nv_works s2 w)) = len"
    using same leases by (simp_all add: same_command_def q_def v_def len_def)
  show ?thesis
  proof (cases res)
    case (Inl err)
    then have "t = s \<or> t = s1 \<or> t = s2"
      using t s1 s2 unfolding dispatch_one_def Let_def q_def [symmetric] by (auto split: if_splits sum.splits option.splits)
    then show ?thesis using Inl ok ok1 ok2 by (auto simp: stream_after_def)
  next
    case (Inr val)
    then have facts: "e = Inr ()" "ring_full r len = None" "published \<le> usize_MAX" "val = v" "t = publish_work w v published s2"
      using t s1 s2 unfolding dispatch_one_def Let_def q_def [symmetric] v_def [symmetric] r_def len_def published_def
      by (auto split: if_splits sum.splits option.splits)
    have "native_ok n (st(q := st q @ published_words s2 w v)) t"
      unfolding facts(5)
      by (rule publish_ok [OF ok2 w refl x2(1) [symmetric] r2 [symmetric]])
        (use leases facts x2 published_def in simp_all)
    moreover have "published_words s2 w v = published_words s w v"
    proof -
      have fields: "rq_sdma r = rq_sdma (nv_queues s q)" "rq_capacity r = rq_capacity (nv_queues s q)" "rq_write r = rq_write (nv_queues s q)"
        using trim by (simp_all add: trimmed_def r_def)
      then have "ring_wrap r m = ring_wrap (nv_queues s q) m" for m by (simp add: ring_wrap_def Let_def)
      moreover have "command_words (nv_works s2 w) v = command_words (nv_works s w) v" "wk_words (nv_works s2 w) = wk_words (nv_works s w)"
        using same by (simp_all add: same_command_def command_words_def)
      ultimately show ?thesis using fields(1) r2 x2(1) by (simp add: published_words_def Let_def q_def [symmetric])
    qed
    ultimately show ?thesis using Inr facts(4) by (simp add: stream_after_def q_def)
  qed
qed


section \<open>Steps\<close>

text \<open>The work of a newly prepared command; its words and their length are what the encoders of the queue give.\<close>

definition prepared_work :: "nat \<Rightarrow> u32w list \<Rightarrow> nat \<Rightarrow> nat list \<Rightarrow> (nat \<times> nat) list \<Rightarrow> work" where
  "prepared_work q words fence_word buffers deps =
     \<lparr>wk_queue = q, wk_words = words, wk_fence_word = fence_word, wk_buffers = buffers, wk_deps = deps, wk_previous = 0,
      wk_leases = [], wk_retired = 0, wk_active = 0, wk_fence = 0\<rparr>"

inductive native_reach :: "nat \<Rightarrow> (nat \<Rightarrow> u32w list) \<Rightarrow> native \<Rightarrow> bool" where
  start: "(\<And>q. queue_created (nv_queues s q)) \<Longrightarrow> nv_uses s = (\<lambda>_. 0) \<Longrightarrow> native_reach 0 (\<lambda>_. []) s"
| prepare: "native_reach n st s \<Longrightarrow> length words mod 8 = 0 \<Longrightarrow> words \<noteq> [] \<Longrightarrow> fence_word < length words
     \<Longrightarrow> \<forall>(d, p)\<in>set deps. d < n \<Longrightarrow> native_reach (Suc n) st (set_work n (prepared_work q words fence_word buffers deps) s)"
| dispatch: "native_reach n st s \<Longrightarrow> w < n \<Longrightarrow> dispatch_one refuses w s = (result, t) \<Longrightarrow> native_reach n (stream_after result w s st) t"
| refresh: "native_reach n st s \<Longrightarrow> w < n \<Longrightarrow> completion_refresh (wk_queue (nv_works s w)) w v s = (result, t) \<Longrightarrow> native_reach n st t"
| fetch: "native_reach n st s \<Longrightarrow> rq_read_index (nv_queues s q) \<le> k \<Longrightarrow> k \<le> rq_write_index (nv_queues s q)
     \<Longrightarrow> native_reach n st (set_queue q ((nv_queues s q)\<lparr>rq_read_index := k\<rparr>) s)"
| fence: "native_reach n st s \<Longrightarrow> w < n \<Longrightarrow> wk_fence (nv_works s w) \<le> v \<Longrightarrow> v \<le> wk_active (nv_works s w)
     \<Longrightarrow> native_reach n st (set_work w ((nv_works s w)\<lparr>wk_fence := v\<rparr>) s)"
| fail: "native_reach n st s \<Longrightarrow> native_reach n st (set_queue q ((nv_queues s q)\<lparr>rq_status := Some status\<rparr>) s)"

lemma start_ok:
  assumes "\<And>q. queue_created (nv_queues s q)" "nv_uses s = (\<lambda>_. 0)"
  shows "native_ok 0 (\<lambda>_. []) s"
  using queue_created_ok [OF assms(1)] assms(2)
  by (simp add: native_ok_def works_ok_def pending_ok_def leased_uses_def fun_eq_iff)

lemma prepare_command_ok:
  assumes ok: "native_ok n st s" and words: "length words mod 8 = 0" "words \<noteq> []" "fence_word < length words" "\<forall>(d, p)\<in>set deps. d < n"
  shows "native_ok (Suc n) st (set_work n (prepared_work q words fence_word buffers deps) s)"
proof -
  let ?x = "prepared_work q words fence_word buffers deps" and ?t = "set_work n (prepared_work q words fence_word buffers deps) s"
  have works: "works_ok n s" and pending: "pending_ok n s" using ok by (simp_all add: native_ok_def)
  have x: "work_ok ?x" using words by (simp add: work_ok_def prepared_work_def)
  have t: "nv_works ?t = (nv_works s)(n := ?x)" "nv_queues ?t = nv_queues s" "nv_uses ?t = nv_uses s" by (simp_all add: set_work_def)
  have "leased_uses (Suc n) ?t b = leased_uses n s b" for b
    unfolding leased_uses_def t by (simp add: prepared_work_def)
  then have "nv_uses ?t = leased_uses (Suc n) ?t" using works by (simp add: t works_ok_def fun_eq_iff)
  moreover have "work_ok (nv_works ?t k)" if "k < Suc n" for k using works that x by (auto simp: t works_ok_def less_Suc_eq)
  moreover have "\<forall>(d, p)\<in>set (wk_deps (nv_works ?t k)). d < k \<and> (0 < wk_retired (nv_works ?t k) \<longrightarrow> p \<le> wk_retired (nv_works ?t d))" if k: "k < Suc n" for k
  proof (cases "k = n")
    case True
    then show ?thesis using words(4) unfolding t by (auto simp: prepared_work_def)
  next
    case False
    then have "k < n" using k by simp
    then show ?thesis using works by (fastforce simp: t works_ok_def)
  qed
  ultimately have "works_ok (Suc n) ?t" by (simp add: works_ok_def)
  moreover have "pending_ok (Suc n) ?t"
    unfolding pending_ok_def t
  proof (intro conjI allI impI ballI)
    fix k e assume "e \<in> set (rq_pending (nv_queues s k))"
    then have "case e of (w, v) \<Rightarrow> w < n \<and> wk_queue (nv_works s w) = k \<and> v \<le> wk_active (nv_works s w)" using pending by (simp add: pending_ok_def)
    then show "case e of (w, v) \<Rightarrow> w < Suc n \<and> wk_queue (((nv_works s)(n := ?x)) w) = k \<and> v \<le> wk_active (((nv_works s)(n := ?x)) w)" by auto
  next
    fix w assume w: "w < Suc n" "wk_retired (((nv_works s)(n := ?x)) w) < wk_active (((nv_works s)(n := ?x)) w)"
    then have "w < n" by (cases "w = n") (simp_all add: prepared_work_def)
    then show "(w, wk_active (((nv_works s)(n := ?x)) w)) \<in> set (rq_pending (nv_queues s (wk_queue (((nv_works s)(n := ?x)) w))))"
      using w pending by (simp add: pending_ok_def)
  qed
  ultimately show ?thesis using ok by (simp add: native_ok_def t)
qed

lemma set_queue_ok:
  assumes ok: "native_ok n st s" and r: "queue_ok r (st q)" "rq_pending r = rq_pending (nv_queues s q)"
  shows "native_ok n st (set_queue q r s)"
proof -
  let ?t = "set_queue q r s"
  have works: "nv_works ?t = nv_works s" "nv_uses ?t = nv_uses s" by (simp_all add: set_queue_def)
  have pending: "rq_pending (nv_queues ?t k) = rq_pending (nv_queues s k)" for k using r(2) by (simp add: set_queue_def)
  have "queue_ok (nv_queues ?t k) (st k)" for k using ok r(1) by (simp add: native_ok_def set_queue_def)
  moreover have "works_ok n ?t" using ok by (simp add: native_ok_def works_ok_def works leased_uses_def fun_eq_iff)
  moreover have "pending_ok n ?t" using ok unfolding native_ok_def pending_ok_def works pending by blast
  ultimately show ?thesis by (simp add: native_ok_def)
qed

lemma fetch_ok:
  assumes ok: "native_ok n st s" and k: "rq_read_index (nv_queues s q) \<le> k" "k \<le> rq_write_index (nv_queues s q)"
  shows "native_ok n st (set_queue q ((nv_queues s q)\<lparr>rq_read_index := k\<rparr>) s)"
proof -
  let ?r = "nv_queues s q"
  let ?r' = "?r\<lparr>rq_read_index := k\<rparr>"
  have q: "queue_ok ?r (st q)" using ok by (simp add: native_ok_def)
  have scale: "index_scale ?r' = index_scale ?r" by (simp add: index_scale_def)
  have up: "ring_read ?r \<le> ring_read ?r'" using k(1) by (simp add: ring_read_def scale div_le_mono)
  have "rq_write ?r - ring_read ?r < rq_capacity ?r" using q by (simp add: queue_ok_def)
  then have "rq_write ?r - ring_read ?r' < rq_capacity ?r" using up by linarith
  then have "queue_ok ?r' (st q)" using q up k(2) by (simp add: queue_ok_def scale)
  then show ?thesis by (intro set_queue_ok [OF ok]) simp_all
qed

lemma fence_ok:
  assumes ok: "native_ok n st s" and w: "w < n" and v: "wk_fence (nv_works s w) \<le> v" "v \<le> wk_active (nv_works s w)"
  shows "native_ok n st (set_work w ((nv_works s w)\<lparr>wk_fence := v\<rparr>) s)"
proof -
  let ?t = "set_work w ((nv_works s w)\<lparr>wk_fence := v\<rparr>) s"
  have works: "works_ok n s" using ok by (simp add: native_ok_def)
  have t: "nv_works ?t = (nv_works s)(w := (nv_works s w)\<lparr>wk_fence := v\<rparr>)" "nv_queues ?t = nv_queues s" "nv_uses ?t = nv_uses s" by (simp_all add: set_work_def)
  have "work_ok (nv_works s w)" using works w by (simp add: works_ok_def)
  then have "work_ok ((nv_works s w)\<lparr>wk_fence := v\<rparr>)" using v by (auto simp: work_ok_def)
  then have "work_ok (nv_works ?t k)" if "k < n" for k using works that by (simp add: t works_ok_def)
  moreover have "leased_uses n ?t = leased_uses n s" by (rule ext) (auto simp: leased_uses_def t intro!: sum.cong)
  moreover have "nv_uses s = leased_uses n s" using works by (simp add: works_ok_def)
  ultimately have "works_ok n ?t" using works_ok_keep [OF works, of ?t] by (simp add: t)
  moreover have "pending_ok n ?t" using ok by (fastforce simp: native_ok_def pending_ok_def t)
  ultimately show ?thesis using ok by (simp add: native_ok_def t)
qed

lemma fail_ok:
  assumes ok: "native_ok n st s"
  shows "native_ok n st (set_queue q ((nv_queues s q)\<lparr>rq_status := Some status\<rparr>) s)"
proof -
  have "queue_ok (nv_queues s q) (st q)" using ok by (simp add: native_ok_def)
  then have "queue_ok ((nv_queues s q)\<lparr>rq_status := Some status\<rparr>) (st q)" by (simp add: queue_ok_def ring_read_def index_scale_def)
  then show ?thesis by (intro set_queue_ok [OF ok]) simp_all
qed

lemma native_reach_ok: "native_reach n st s \<Longrightarrow> native_ok n st s"
proof (induction rule: native_reach.induct)
  case (refresh n st s w v result t)
  then show ?case using refresh_ok by blast
qed (auto intro: start_ok prepare_command_ok dispatch_ok fetch_ok fence_ok fail_ok)


section \<open>What the producer promises\<close>

text \<open>
  C18: in every state of the native queues, each ring holds exactly the words of its stream the device has not read, and the device never
  meets a word that was overwritten; at most 4096 submissions are pending; while a submission's fence has not been reached every buffer of
  it is held in use, and uses are counted exactly; a submission that was retired has had its dependencies retired;
  a submission that was not retired is still pending on its queue.
\<close>

theorem native_queues_safe:
  assumes "native_reach n st s"
  shows "(\<forall>q p. ring_read (nv_queues s q) \<le> p \<longrightarrow> p < rq_write (nv_queues s q)
            \<longrightarrow> rq_ring (nv_queues s q) ! (p mod rq_capacity (nv_queues s q)) = st q ! p)
    \<and> (\<forall>q. rq_write (nv_queues s q) = length (st q) \<and> rq_write (nv_queues s q) - ring_read (nv_queues s q) < rq_capacity (nv_queues s q)
          \<and> length (rq_pending (nv_queues s q)) \<le> 4096)
    \<and> (\<forall>w<n. wk_fence (nv_works s w) < wk_active (nv_works s w) \<longrightarrow> wk_leases (nv_works s w) = wk_buffers (nv_works s w))
    \<and> (\<forall>b. nv_uses s b = (\<Sum>w<n. count_list (wk_leases (nv_works s w)) b))
    \<and> (\<forall>w<n. \<forall>(d, p)\<in>set (wk_deps (nv_works s w)). 0 < wk_retired (nv_works s w) \<longrightarrow> p \<le> wk_retired (nv_works s d))
    \<and> (\<forall>w<n. wk_retired (nv_works s w) < wk_active (nv_works s w)
          \<longrightarrow> (w, wk_active (nv_works s w)) \<in> set (rq_pending (nv_queues s (wk_queue (nv_works s w)))))"
proof -
  have "native_ok n st s" using assms by (rule native_reach_ok)
  then have works: "works_ok n s" and queues: "\<forall>q. queue_ok (nv_queues s q) (st q)" and pending: "pending_ok n s"
    by (simp_all add: native_ok_def)
  show ?thesis
  proof (intro conjI)
    show "\<forall>q. rq_write (nv_queues s q) = length (st q) \<and> rq_write (nv_queues s q) - ring_read (nv_queues s q) < rq_capacity (nv_queues s q)
          \<and> length (rq_pending (nv_queues s q)) \<le> 4096"
      using queues by (simp add: queue_ok_def)
    show "\<forall>w<n. \<forall>(d, p)\<in>set (wk_deps (nv_works s w)). 0 < wk_retired (nv_works s w) \<longrightarrow> p \<le> wk_retired (nv_works s d)"
      using works by (fastforce simp: works_ok_def)
  qed (use queues works pending in \<open>simp_all add: queue_ok_def works_ok_def work_ok_def pending_ok_def leased_uses_def\<close>)
qed

lemma fresh_dispatch:
  fixes x :: work and r :: ring_queue
  defines "x \<equiv> prepared_work 0 (replicate 8 0) 3 [7] []"
    and "r \<equiv> fresh_queue False \<lparr>mi_command = 1, mi_format_version = 1, mi_ring_byte_length = 4096, mi_index_bits = 64, mi_doorbell_bits = 64, mi_addresses = [8], mi_ring = replicate 1024 0\<rparr>"
  shows "dispatch_one (\<lambda>_. None) 0 \<lparr>nv_works = (\<lambda>_. x), nv_queues = (\<lambda>_. r), nv_uses = (\<lambda>_. 0)\<rparr>
    = (Inr 1, publish_work 0 1 8 (add_uses [7] (set_work 0 (x\<lparr>wk_leases := [7]\<rparr>) \<lparr>nv_works = (\<lambda>_. x), nv_queues = (\<lambda>_. r), nv_uses = (\<lambda>_. 0)\<rparr>)))"
proof -
  have "ring_mask (2 ^ 10) k = k mod 2 ^ 10" for k by (rule ring_mask_mod)
  then have "ring_mask 1024 0 = 0" "ring_mask 1024 (2 ^ 64 mod 2 ^ 64) = 0" by simp_all
  then have full: "ring_full r 8 = None" "ring_wrap r 8 = 0"
    by (simp_all add: ring_full_def ring_wrap_def ring_outstanding_def r_def fresh_queue_def index_scale_def Let_def)
  have "set_queue 0 (r\<lparr>rq_pending := []\<rparr>) \<lparr>nv_works = (\<lambda>_. x), nv_queues = (\<lambda>_. r), nv_uses = (\<lambda>_. 0)\<rparr>
      = \<lparr>nv_works = (\<lambda>_. x), nv_queues = (\<lambda>_. r), nv_uses = (\<lambda>_. 0)\<rparr>"
    by (simp add: set_queue_def r_def fresh_queue_def fun_eq_iff)
  moreover have "rq_pending r = []" "rq_write r = 0" "index_scale r = 1" by (simp_all add: r_def fresh_queue_def index_scale_def)
  ultimately show ?thesis using full
    by (simp add: dispatch_one_def x_def prepared_work_def take_leases_def Let_def usize_MAX_def del: replicate.simps)
qed

theorem native_queues_safe_witness:
  "\<exists>st s. native_reach 1 st s \<and> length (st 0) = 8 \<and> nv_uses s 7 = 1 \<and> (0, 1) \<in> set (rq_pending (nv_queues s 0))"
proof -
  define x where "x = prepared_work 0 (replicate 8 0) 3 [7] []"
  define m where "m = \<lparr>mi_command = 1, mi_format_version = 1, mi_ring_byte_length = 4096, mi_index_bits = 64, mi_doorbell_bits = 64, mi_addresses = [8 :: nat],
    mi_ring = replicate 1024 (0 :: u32w)\<rparr>"
  define r where "r = fresh_queue False m"
  define s where "s = \<lparr>nv_works = (\<lambda>_. x), nv_queues = (\<lambda>_. r), nv_uses = (\<lambda>_. 0)\<rparr>"
  define t where "t = publish_work 0 1 8 (add_uses [7] (set_work 0 (x\<lparr>wk_leases := [7]\<rparr>) s))"
  define st where "st = stream_after (Inr 1) 0 s (\<lambda>_. [])"
  have accepted: "mapping_accepted 1 m" by (simp add: m_def mapping_accepted_def is_power_of_two.simps)
  have "queue_created r" unfolding queue_created_def using accepted by (intro exI [of _ False] exI [of _ 1] exI [of _ m]) (simp add: r_def m_def)
  then have "native_reach 0 (\<lambda>_. []) s" by (intro native_reach.start) (simp_all add: s_def)
  then have "native_reach (Suc 0) (\<lambda>_. []) (set_work 0 x s)" unfolding x_def by (rule native_reach.prepare) simp_all
  moreover have "set_work 0 x s = s" by (simp add: set_work_def s_def fun_eq_iff)
  moreover have "dispatch_one (\<lambda>_. None) 0 s = (Inr 1, t)"
    unfolding s_def t_def r_def m_def x_def by (rule fresh_dispatch)
  ultimately have reach: "native_reach 1 st t" unfolding st_def using native_reach.dispatch [of "Suc 0" "\<lambda>_. []" s 0] by simp
  note safe = native_queues_safe [OF reach]
  have fields: "wk_queue (nv_works t 0) = 0" "wk_active (nv_works t 0) = 1" "wk_retired (nv_works t 0) = 0" "wk_fence (nv_works t 0) = 0"
    "wk_buffers (nv_works t 0) = [7]" "rq_write (nv_queues t 0) = 8"
    by (simp_all add: t_def publish_work_def set_work_def set_queue_def add_uses_def s_def x_def prepared_work_def Let_def)
  then have "length (st 0) = 8" "(0, 1) \<in> set (rq_pending (nv_queues t 0))" "wk_leases (nv_works t 0) = [7]"
    using safe by (auto simp: dest: sym)
  moreover have "nv_uses t 7 = (\<Sum>w<1. count_list (wk_leases (nv_works t w)) 7)" using safe by blast
  ultimately have "length (st 0) = 8 \<and> nv_uses t 7 = 1 \<and> (0, 1) \<in> set (rq_pending (nv_queues t 0))" by simp
  then show ?thesis using reach by blast
qed

end
