(* ===== verification/Sdma_Packets.thy ===== *)
theory Sdma_Packets
  imports Pm4_Packets Align_Mask
begin

text \<open>
  Transfer packets of the native copy engine, \<^verbatim>\<open>src/src/fabric/queue/sdma.rs\<close>, and the splitting of large transfers in
  \<^verbatim>\<open>src/src/fabric/queue.rs\<close>. The features a queue reports are a record of flags, addresses are \<open>u64\<close> values.
\<close>


section \<open>Limits\<close>

definition transfer_word_budget :: "usize \<Rightarrow> usize" where
  "transfer_word_budget ring_bytes = mask_down 8 (saturating_sub (ring_bytes div 8) 1)"

definition transfer_limit :: "usize \<Rightarrow> usize result" where
  "transfer_limit ring_bytes =
     (let packets = saturating_sub (transfer_word_budget ring_bytes) (10 + 4 + 14) div 7
      in if packets = 0 then Inl (Unsupported ''SDMA ring cannot hold a transfer'')
         else Inr (min packets ((2 ^ 32 - 1) div 2 ^ 20) * 2 ^ 20))"

definition transfer_chunks :: "usize \<Rightarrow> usize \<Rightarrow> (usize \<times> usize) list" where
  "transfer_chunks len limit = map (\<lambda>i. (i * limit, min (len - i * limit) limit)) [0..<(len + limit - 1) div limit]"

definition transfer_range :: "usize \<Rightarrow> usize \<Rightarrow> usize \<Rightarrow> unit result" where
  "transfer_range buffer_bytes offset len =
     (if len = 0 \<or> offset + len > usize_MAX \<or> offset + len > buffer_bytes
      then Inl (Message ''native transfer range must be nonempty and in bounds'') else Inr ())"


section \<open>Packets\<close>

record sdma_features =
  sf_scope :: bool
  sf_gcr :: bool
  sf_fence_type :: bool
  sf_fence_system :: bool

definition sdma_cache :: "sdma_features \<Rightarrow> bool \<Rightarrow> u32w list" where
  "sdma_cache f release =
     (if sf_gcr f then [17 OR push_bit 8 1, 0, push_bit 16 (if release then 0x8040 else 0xc3c0), 0, 0] else [])"

definition copy_packet :: "sdma_features \<Rightarrow> nat \<Rightarrow> nat \<Rightarrow> nat \<Rightarrow> u32w list" where
  "copy_packet f count src dst =
     [1, word_of_nat count - 1, if sf_scope f then push_bit 18 3 OR push_bit 26 3 else 0,
      low_word src, high_word src, low_word dst, high_word dst]"

function sdma_copy_words :: "sdma_features \<Rightarrow> nat \<Rightarrow> nat \<Rightarrow> nat \<Rightarrow> u32w list" where
  "sdma_copy_words f src dst remaining =
     (if remaining = 0 then []
      else let count = min remaining (2 ^ 20)
           in copy_packet f count src dst @ sdma_copy_words f (src + count) (dst + count) (remaining - count))"
  by pat_completeness auto
termination by (relation "measure (\<lambda>(f, src, dst, remaining). remaining)") auto

declare sdma_copy_words.simps [simp del]

definition fill_packet :: "sdma_features \<Rightarrow> nat \<Rightarrow> nat \<Rightarrow> nat \<Rightarrow> u32w list" where
  "fill_packet f byte address count =
     [11 OR push_bit 30 2 OR (if sf_scope f then push_bit 24 3 else 0), low_word address, high_word address,
      word_of_nat (byte + byte * 2 ^ 8 + byte * 2 ^ 16 + byte * 2 ^ 24), word_of_nat count - 1]"

function sdma_fill_words :: "sdma_features \<Rightarrow> nat \<Rightarrow> nat \<Rightarrow> nat \<Rightarrow> u32w list" where
  "sdma_fill_words f byte address remaining =
     (if remaining = 0 then []
      else let count = min remaining (2 ^ 20)
           in fill_packet f byte address count @ sdma_fill_words f byte (address + count) (remaining - count))"
  by pat_completeness auto
termination by (relation "measure (\<lambda>(f, byte, address, remaining). remaining)") auto

declare sdma_fill_words.simps [simp del]

text \<open>The unaligned head, the aligned body and the tail of a fill.\<close>

definition fill_prefix :: "nat \<Rightarrow> usize \<Rightarrow> usize" where
  "fill_prefix address len = min ((4 - address mod 4) mod 4) len"

definition fill_middle :: "nat \<Rightarrow> usize \<Rightarrow> usize" where
  "fill_middle address len = mask_down 4 (len - fill_prefix address len)"

definition fill_suffix :: "nat \<Rightarrow> usize \<Rightarrow> usize" where
  "fill_suffix address len = len - fill_prefix address len - fill_middle address len"

definition fill_tail :: "sdma_features \<Rightarrow> nat \<Rightarrow> nat \<Rightarrow> usize \<Rightarrow> u32w list" where
  "fill_tail f pattern dst count = (if count = 0 then [] else copy_packet f count pattern dst)"

definition prepare_sdma_fill :: "sdma_features \<Rightarrow> nat \<Rightarrow> nat \<Rightarrow> usize \<Rightarrow> nat \<Rightarrow> u32w list" where
  "prepare_sdma_fill f pattern address len byte =
     (let prefix = fill_prefix address len; middle = fill_middle address len; suffix = fill_suffix address len
      in sdma_cache f False
         @ (if prefix \<noteq> 0 \<or> suffix \<noteq> 0
            then fill_tail f pattern address prefix @ fill_tail f pattern (address + (prefix + middle)) suffix else [])
         @ sdma_fill_words f byte (address + prefix) middle)"

definition prepare_sdma_copy :: "sdma_features \<Rightarrow> nat \<Rightarrow> nat \<Rightarrow> usize \<Rightarrow> (u32w list) result" where
  "prepare_sdma_copy f src dst len =
     (if src < saturating_add dst len \<and> dst < saturating_add src len then Inl (Message ''SDMA copy ranges overlap'')
      else Inr (sdma_cache f False @ sdma_copy_words f src dst len))"

definition sdma_wait_words :: "sdma_features \<Rightarrow> nat \<Rightarrow> nat \<Rightarrow> u32w list" where
  "sdma_wait_words f source byte =
     [8 OR push_bit 28 5 OR push_bit 31 1, low_word source, high_word source, word_of_nat byte, - 1,
      push_bit 16 0xfff OR 4 OR (if sf_scope f then push_bit 28 3 else 0)] @ sdma_cache f False"

text \<open>The fence packet and the zero words that fill the last line; the result is the words and the position of the fence value.\<close>

definition sdma_fence :: "sdma_features \<Rightarrow> nat \<Rightarrow> u32w list" where
  "sdma_fence f address =
     [5 OR (if sf_fence_type f \<or> sf_fence_system f then push_bit 16 3 else 0) OR (if sf_fence_system f then push_bit 20 1 else 0)
        OR (if sf_scope f then push_bit 24 3 else 0),
      low_word address, high_word address, 1]"

definition next_multiple_of :: "usize \<Rightarrow> usize \<Rightarrow> usize" where
  "next_multiple_of n k = (if n mod k = 0 then n else n + (k - n mod k))"

definition sdma_prepared :: "sdma_features \<Rightarrow> usize \<Rightarrow> nat \<Rightarrow> u32w list \<Rightarrow> (u32w list \<times> nat) result" where
  "sdma_prepared f ring_bytes fence words =
     (let body = words @ sdma_cache f True @ sdma_fence f fence;
          padded = body @ replicate (next_multiple_of (length body) 8 - length body) 0
      in if length padded * 4 \<ge> ring_bytes then Inl (Unsupported ''prepared SDMA command exceeds queue capacity'')
         else Inr (padded, length body - 1))"


section \<open>What the packets do\<close>

text \<open>
  Memory is a function from addresses to bytes. A linear copy moves \<open>count\<close> bytes, a fill repeats a word over \<open>count\<close> bytes
  from an address on, cache packets leave memory as it is. The low byte of the first word is the operation; counts are
  stored less one and addresses as two words.
\<close>

type_synonym memory = "nat \<Rightarrow> nat"

definition apply_copy :: "nat \<Rightarrow> nat \<Rightarrow> nat \<Rightarrow> memory \<Rightarrow> memory" where
  "apply_copy src dst count m = (\<lambda>a. if dst \<le> a \<and> a < dst + count then m (src + (a - dst)) else m a)"

definition apply_fill :: "u32w \<Rightarrow> nat \<Rightarrow> nat \<Rightarrow> memory \<Rightarrow> memory" where
  "apply_fill word dst count m = (\<lambda>a. if dst \<le> a \<and> a < dst + count then unat word div 2 ^ (8 * ((a - dst) mod 4)) mod 256 else m a)"

definition address_of :: "u32w \<Rightarrow> u32w \<Rightarrow> nat" where
  "address_of low high = unat low + unat high * 2 ^ 32"

inductive sdma_run :: "u32w list \<Rightarrow> memory \<Rightarrow> memory \<Rightarrow> bool" where
  stop: "sdma_run [] m m"
| copy: "h AND 0xff = 1 \<Longrightarrow> sdma_run rest (apply_copy (address_of a b) (address_of d e) (unat c + 1) m) m' \<Longrightarrow>
    sdma_run (h # c # flags # a # b # d # e # rest) m m'"
| fill: "h AND 0xff = 11 \<Longrightarrow> sdma_run rest (apply_fill word (address_of a b) (unat c + 1) m) m' \<Longrightarrow>
    sdma_run (h # a # b # word # c # rest) m m'"
| cache: "h AND 0xff = 17 \<Longrightarrow> sdma_run rest m m' \<Longrightarrow> sdma_run (h # a # b # c # d # rest) m m'"

lemma address_of_words: "a < 2 ^ 64 \<Longrightarrow> address_of (low_word a) (high_word a) = a"
proof -
  assume a: "a < 2 ^ 64"
  have "unat (low_word a) = a mod 2 ^ 32" by (simp add: low_word_def unat_of_nat)
  moreover have "a div 2 ^ 32 < 2 ^ 32" using a by (simp add: div_less_iff_less_mult)
  then have "unat (high_word a) = a div 2 ^ 32" by (simp add: high_word_def unat_of_nat)
  ultimately show ?thesis using div_mult_mod_eq [of a "2 ^ 32"] by (simp add: address_of_def)
qed

lemma count_word: "0 < n \<Longrightarrow> n \<le> 2 ^ 20 \<Longrightarrow> unat (word_of_nat n - 1 :: u32w) + 1 = n"
proof -
  assume n: "0 < n" "n \<le> 2 ^ 20"
  have "(word_of_nat n - 1 :: u32w) = word_of_nat (n - 1)" using n(1) by (simp add: of_nat_diff)
  moreover have "(n - 1) mod 2 ^ LENGTH(32) = n - 1" using n by simp
  ultimately have "unat (word_of_nat n - 1 :: u32w) = n - 1" by (simp only: unat_of_nat)
  then show ?thesis using n(1) by simp
qed

lemma cache_run: "sdma_run rest m m' \<Longrightarrow> sdma_run (sdma_cache f release @ rest) m m'"
  by (auto simp: sdma_cache_def intro: sdma_run.cache)

lemma copy_packet_run:
  assumes "0 < count" "count \<le> 2 ^ 20" "src + count \<le> 2 ^ 64" "dst + count \<le> 2 ^ 64"
    "sdma_run rest (apply_copy src dst count m) m'"
  shows "sdma_run (copy_packet f count src dst @ rest) m m'"
proof -
  have "src < 2 ^ 64" "dst < 2 ^ 64" using assms(1,3,4) by linarith+
  then have addr: "address_of (low_word src) (high_word src) = src" "address_of (low_word dst) (high_word dst) = dst"
    by (simp_all only: address_of_words)
  have "sdma_run rest (apply_copy (address_of (low_word src) (high_word src)) (address_of (low_word dst) (high_word dst))
      (unat (word_of_nat count - 1 :: u32w) + 1) m) m'"
    using assms(5) by (simp only: addr count_word [OF assms(1,2)])
  then show ?thesis unfolding copy_packet_def append_Cons append_Nil by (rule sdma_run.copy [rotated]) simp
qed

lemma fill_packet_run:
  assumes "0 < count" "count \<le> 2 ^ 20" "address + count \<le> 2 ^ 64"
    "sdma_run rest (apply_fill (word_of_nat (byte + byte * 2 ^ 8 + byte * 2 ^ 16 + byte * 2 ^ 24)) address count m) m'"
  shows "sdma_run (fill_packet f byte address count @ rest) m m'"
proof -
  have "address < 2 ^ 64" using assms(1,3) by linarith
  then have addr: "address_of (low_word address) (high_word address) = address" by (rule address_of_words)
  have "sdma_run rest (apply_fill (word_of_nat (byte + byte * 2 ^ 8 + byte * 2 ^ 16 + byte * 2 ^ 24))
      (address_of (low_word address) (high_word address)) (unat (word_of_nat count - 1 :: u32w) + 1) m) m'"
    using assms(4) by (simp only: addr count_word [OF assms(1,2)])
  then show ?thesis unfolding fill_packet_def append_Cons append_Nil by (rule sdma_run.fill [rotated]) simp
qed


lemma apply_copy_split:
  assumes "c \<le> n" "src + n \<le> dst \<or> dst + n \<le> src"
  shows "apply_copy (src + c) (dst + c) (n - c) (apply_copy src dst c m) = apply_copy src dst n m"
  using assms by (auto simp: apply_copy_def fun_eq_iff)

lemma copy_words_run:
  assumes "src + n \<le> dst \<or> dst + n \<le> src" "src + n \<le> 2 ^ 64" "dst + n \<le> 2 ^ 64"
  shows "sdma_run (sdma_copy_words f src dst n) m (apply_copy src dst n m)"
  using assms
proof (induction f src dst n arbitrary: m rule: sdma_copy_words.induct)
  case (1 f src dst n)
  show ?case
  proof (cases "n = 0")
    case True
    then have "apply_copy src dst n m = m" by (simp add: apply_copy_def fun_eq_iff)
    with True show ?thesis by (simp add: sdma_copy_words.simps [of _ _ _ 0] sdma_run.stop)
  next
    case False
    define c where "c = min n (2 ^ 20 :: nat)"
    have c: "0 < c" "c \<le> 2 ^ 20" "c \<le> n" using False by (simp_all add: c_def)
    have "sdma_run (sdma_copy_words f (src + c) (dst + c) (n - c)) (apply_copy src dst c m)
        (apply_copy (src + c) (dst + c) (n - c) (apply_copy src dst c m))"
      by (rule "1.IH" [OF False c_def]) (use "1.prems" c(3) in auto)
    then have "sdma_run (sdma_copy_words f (src + c) (dst + c) (n - c)) (apply_copy src dst c m) (apply_copy src dst n m)"
      by (simp only: apply_copy_split [OF c(3) "1.prems"(1)])
    then have "sdma_run (copy_packet f c src dst @ sdma_copy_words f (src + c) (dst + c) (n - c)) m (apply_copy src dst n m)"
      using "1.prems"(2,3) c(3) by (intro copy_packet_run [OF c(1,2)]) auto
    then show ?thesis using False by (simp add: sdma_copy_words.simps [of f src dst n] Let_def c_def)
  qed
qed

text \<open>A fill word repeats its byte.\<close>

definition apply_byte :: "nat \<Rightarrow> nat \<Rightarrow> nat \<Rightarrow> memory \<Rightarrow> memory" where
  "apply_byte byte dst count m = (\<lambda>a. if dst \<le> a \<and> a < dst + count then byte else m a)"

lemma repeated_byte:
  assumes "byte < 256" "k < 4"
  shows "unat (word_of_nat (byte + byte * 2 ^ 8 + byte * 2 ^ 16 + byte * 2 ^ 24) :: u32w) div 2 ^ (8 * k) mod 256 = byte"
proof -
  have w: "unat (word_of_nat (byte + byte * 2 ^ 8 + byte * 2 ^ 16 + byte * 2 ^ 24) :: u32w) = byte + byte * 2 ^ 8 + byte * 2 ^ 16 + byte * 2 ^ 24"
  proof -
    have "byte + byte * 2 ^ 8 + byte * 2 ^ 16 + byte * 2 ^ 24 < 2 ^ LENGTH(32)" using assms(1) by simp
    then show ?thesis by (simp only: unat_of_nat mod_less)
  qed
  have digit: "(byte + 256 * x) div 256 = x" "(byte + 256 * x) mod 256 = byte" for x using assms(1) by simp_all
  have x: "byte + byte * 2 ^ 8 + byte * 2 ^ 16 + byte * 2 ^ 24 = byte + 256 * (byte + 256 * (byte + 256 * byte))" by simp
  have pows: "(2 :: nat) ^ (8 * 0) = 1" "(2 :: nat) ^ (8 * 1) = 256" "(2 :: nat) ^ (8 * 2) = 256 * 256" "(2 :: nat) ^ (8 * 3) = 256 * 256 * 256" by simp_all
  have small: "byte mod 256 = byte" using assms(1) by simp
  consider "k = 0" | "k = 1" | "k = 2" | "k = 3" using assms(2) by linarith
  then show ?thesis unfolding w unfolding x
    by cases (simp_all only: pows div_mult2_eq digit small div_by_1)
qed

lemma apply_fill_byte:
  "byte < 256 \<Longrightarrow> apply_fill (word_of_nat (byte + byte * 2 ^ 8 + byte * 2 ^ 16 + byte * 2 ^ 24)) dst count m = apply_byte byte dst count m"
  unfolding apply_fill_def apply_byte_def using repeated_byte [of byte] by fastforce

lemma fill_words_run:
  assumes "byte < 256" "dst + n \<le> 2 ^ 64"
  shows "sdma_run (sdma_fill_words f byte dst n) m (apply_byte byte dst n m)"
  using assms
proof (induction f byte dst n arbitrary: m rule: sdma_fill_words.induct)
  case (1 f byte dst n)
  show ?case
  proof (cases "n = 0")
    case True
    then have "apply_byte byte dst n m = m" by (simp add: apply_byte_def fun_eq_iff)
    with True show ?thesis by (simp add: sdma_fill_words.simps [of _ _ _ 0] sdma_run.stop)
  next
    case False
    define c where "c = min n (2 ^ 20 :: nat)"
    have c: "0 < c" "c \<le> 2 ^ 20" "c \<le> n" using False by (simp_all add: c_def)
    have join: "apply_byte byte (dst + c) (n - c) (apply_byte byte dst c m) = apply_byte byte dst n m"
      using c(3) by (auto simp: apply_byte_def fun_eq_iff)
    have "sdma_run (sdma_fill_words f byte (dst + c) (n - c)) (apply_byte byte dst c m)
        (apply_byte byte (dst + c) (n - c) (apply_byte byte dst c m))"
      by (rule "1.IH" [OF False c_def]) (use "1.prems" c(3) in auto)
    then have "sdma_run (sdma_fill_words f byte (dst + c) (n - c))
        (apply_fill (word_of_nat (byte + byte * 2 ^ 8 + byte * 2 ^ 16 + byte * 2 ^ 24)) dst c m) (apply_byte byte dst n m)"
      by (simp only: join apply_fill_byte [OF "1.prems"(1)])
    then have "sdma_run (fill_packet f byte dst c @ sdma_fill_words f byte (dst + c) (n - c)) m (apply_byte byte dst n m)"
      using "1.prems"(2) c(3) by (intro fill_packet_run [OF c(1,2)]) auto
    then show ?thesis using False by (simp add: sdma_fill_words.simps [of f byte dst n] Let_def c_def)
  qed
qed


lemma align_up: "(a + (4 - a mod 4) mod 4) mod 4 = (0 :: nat)"
proof -
  have "(a mod 4 + (4 - a mod 4) mod 4) mod 4 = (a mod 4 + (4 - a mod 4)) mod 4" by (rule mod_add_right_eq)
  also have "\<dots> = 0" by simp
  finally show ?thesis by (simp only: mod_add_left_eq)
qed

lemma fill_parts:
  assumes "len \<le> usize_MAX"
  shows "fill_prefix address len + fill_middle address len + fill_suffix address len = len"
    "fill_prefix address len \<le> 3" "fill_suffix address len \<le> 3" "fill_middle address len mod 4 = 0"
    "fill_middle address len \<noteq> 0 \<Longrightarrow> (address + fill_prefix address len) mod 4 = 0"
proof -
  have p4: "is_power_of_two 4" by (simp add: is_power_of_two.simps)
  have le: "len - fill_prefix address len \<le> usize_MAX" using assms by simp
  note m = mask_down [OF p4 le]
  have pre: "fill_prefix address len \<le> len" by (simp add: fill_prefix_def)
  show "fill_prefix address len \<le> 3"
  proof -
    have "(4 - address mod 4) mod 4 < 4" by simp
    then show ?thesis unfolding fill_prefix_def by linarith
  qed
  show "fill_prefix address len + fill_middle address len + fill_suffix address len = len"
    using pre m(3) by (simp add: fill_suffix_def fill_middle_def)
  show "fill_middle address len mod 4 = 0" using m(2) by (simp add: fill_middle_def dvd_imp_mod_0)
  show "fill_suffix address len \<le> 3" using m(4) by (simp add: fill_suffix_def fill_middle_def)
  assume "fill_middle address len \<noteq> 0"
  then have "fill_prefix address len < len" using m(3) by (simp add: fill_middle_def)
  then have "fill_prefix address len = (4 - address mod 4) mod 4" unfolding fill_prefix_def by linarith
  moreover have "(address + (4 - address mod 4) mod 4) mod 4 = 0" by (rule align_up)
  ultimately show "(address + fill_prefix address len) mod 4 = 0" by simp
qed

lemma fill_tail_run:
  assumes "count \<le> 3" "pattern + 4 \<le> 2 ^ 64" "dst + count \<le> 2 ^ 64" "\<forall>i<4. m (pattern + i) = byte"
    "sdma_run rest (apply_byte byte dst count m) m'"
  shows "sdma_run (fill_tail f pattern dst count @ rest) m m'"
proof (cases "count = 0")
  case True
  then have "apply_byte byte dst count m = m" by (simp add: apply_byte_def fun_eq_iff)
  with True assms(5) show ?thesis by (simp add: fill_tail_def)
next
  case False
  have "m (pattern + (a - dst)) = byte" if "dst \<le> a" "a < dst + count" for a
  proof -
    have "a - dst < 4" using assms(1) that by linarith
    with assms(4) show ?thesis by blast
  qed
  then have "apply_copy pattern dst count m = apply_byte byte dst count m"
    by (auto simp: apply_copy_def apply_byte_def fun_eq_iff)
  then have "sdma_run rest (apply_copy pattern dst count m) m'" using assms(5) by simp
  then have "sdma_run (copy_packet f count pattern dst @ rest) m m'"
    using assms(1-3) False by (intro copy_packet_run) simp_all
  with False show ?thesis by (simp add: fill_tail_def)
qed

text \<open>
  A prepared copy moves exactly its bytes and a prepared fill writes exactly its bytes: whenever the addresses fit 64
  bits, running the packets gives the memory with the destination range replaced and everything else as it was. A copy between overlapping
  ranges is refused.
\<close>

lemma sdma_copy_exact:
  assumes "src + len \<le> 2 ^ 64 - 1" "dst + len \<le> 2 ^ 64 - 1" "0 < len"
  shows "prepare_sdma_copy f src dst len = Inr words \<Longrightarrow> sdma_run words m (\<lambda>a. if dst \<le> a \<and> a < dst + len then m (src + (a - dst)) else m a)"
    "is_ok (prepare_sdma_copy f src dst len) \<longleftrightarrow> {src..<src + len} \<inter> {dst..<dst + len} = {}"
proof -
  have sat: "saturating_add src len = src + len" "saturating_add dst len = dst + len"
    using assms by (simp_all add: saturating_add_def usize_MAX_def)
  have dis: "\<not> (src < dst + len \<and> dst < src + len) \<longleftrightarrow> src + len \<le> dst \<or> dst + len \<le> src" by auto
  show "is_ok (prepare_sdma_copy f src dst len) \<longleftrightarrow> {src..<src + len} \<inter> {dst..<dst + len} = {}"
    using assms(3) by (auto simp: prepare_sdma_copy_def sat dis Int_atLeastLessThan)
  assume "prepare_sdma_copy f src dst len = Inr words"
  then have w: "words = sdma_cache f False @ sdma_copy_words f src dst len" and "src + len \<le> dst \<or> dst + len \<le> src"
    unfolding prepare_sdma_copy_def sat using dis by (auto split: if_splits)
  then have "sdma_run (sdma_copy_words f src dst len) m (apply_copy src dst len m)" using assms by (intro copy_words_run) simp_all
  from cache_run [OF this] show "sdma_run words m (\<lambda>a. if dst \<le> a \<and> a < dst + len then m (src + (a - dst)) else m a)"
    unfolding w apply_copy_def .
qed

lemma sdma_fill_exact:
  assumes "byte < 256" "address + len \<le> 2 ^ 64 - 1" "pattern + 4 \<le> 2 ^ 64" "\<forall>i<4. m (pattern + i) = byte"
    "pattern + 4 \<le> address \<or> address + len \<le> pattern"
  shows "sdma_run (prepare_sdma_fill f pattern address len byte) m (\<lambda>a. if address \<le> a \<and> a < address + len then byte else m a)"
proof -
  let ?p = "fill_prefix address len" and ?m = "fill_middle address len" and ?s = "fill_suffix address len"
  have "len \<le> usize_MAX" using assms(2) by (simp add: usize_MAX_def)
  note parts = fill_parts [OF this, of address]
  define m1 where "m1 = apply_byte byte address ?p m"
  define m2 where "m2 = apply_byte byte (address + (?p + ?m)) ?s m1"
  have keep: "\<forall>i<4. m1 (pattern + i) = byte"
    using assms(4,5) parts(1) by (auto simp: m1_def apply_byte_def)
  have whole: "apply_byte byte (address + ?p) ?m m2 = (\<lambda>a. if address \<le> a \<and> a < address + len then byte else m a)"
    using parts(1) by (auto simp: m1_def m2_def apply_byte_def fun_eq_iff)
  have body: "sdma_run (sdma_fill_words f byte (address + ?p) ?m) m2 (\<lambda>a. if address \<le> a \<and> a < address + len then byte else m a)"
    using fill_words_run [OF assms(1), of "address + ?p" ?m f m2] parts(1) assms(2) unfolding whole by simp
  have "sdma_run (fill_tail f pattern (address + (?p + ?m)) ?s @ sdma_fill_words f byte (address + ?p) ?m) m1
      (\<lambda>a. if address \<le> a \<and> a < address + len then byte else m a)"
    using parts assms(2,3) by (intro fill_tail_run [OF parts(3) _ _ keep body [unfolded m2_def]]) simp_all
  then have tails: "sdma_run (fill_tail f pattern address ?p @ fill_tail f pattern (address + (?p + ?m)) ?s @ sdma_fill_words f byte (address + ?p) ?m) m
      (\<lambda>a. if address \<le> a \<and> a < address + len then byte else m a)"
    unfolding m1_def using parts assms(2,3) by (intro fill_tail_run [OF parts(2) _ _ assms(4)]) simp_all
  show ?thesis
  proof (cases "?p \<noteq> 0 \<or> ?s \<noteq> 0")
    case True
    then show ?thesis using tails by (simp add: prepare_sdma_fill_def Let_def cache_run)
  next
    case False
    then have "?p = 0" "?s = 0" by simp_all
    then show ?thesis using tails by (simp add: prepare_sdma_fill_def Let_def cache_run fill_tail_def)
  qed
qed


section \<open>Transfers fit the ring\<close>

lemma length_copy_words: "n \<le> k * 2 ^ 20 \<Longrightarrow> length (sdma_copy_words f src dst n) \<le> 7 * k"
proof (induction f src dst n arbitrary: k rule: sdma_copy_words.induct)
  case (1 f src dst n)
  show ?case
  proof (cases "n = 0")
    case False
    then obtain l where k: "k = Suc l" using "1.prems" by (cases k) auto
    have "length (sdma_copy_words f (src + min n (2 ^ 20)) (dst + min n (2 ^ 20)) (n - min n (2 ^ 20))) \<le> 7 * l"
      by (rule "1.IH" [OF False refl]) (use "1.prems" k in auto)
    then show ?thesis using False k by (simp add: sdma_copy_words.simps [of f src dst n] Let_def copy_packet_def)
  qed (simp add: sdma_copy_words.simps [of _ _ _ 0])
qed

lemma length_fill_words: "n \<le> k * 2 ^ 20 \<Longrightarrow> length (sdma_fill_words f byte dst n) \<le> 5 * k"
proof (induction f byte dst n arbitrary: k rule: sdma_fill_words.induct)
  case (1 f byte dst n)
  show ?case
  proof (cases "n = 0")
    case False
    then obtain l where k: "k = Suc l" using "1.prems" by (cases k) auto
    have "length (sdma_fill_words f byte (dst + min n (2 ^ 20)) (n - min n (2 ^ 20))) \<le> 5 * l"
      by (rule "1.IH" [OF False refl]) (use "1.prems" k in auto)
    then show ?thesis using False k by (simp add: sdma_fill_words.simps [of f byte dst n] Let_def fill_packet_def)
  qed (simp add: sdma_fill_words.simps [of _ _ _ 0])
qed

lemma next_multiple_of: "next_multiple_of n 8 mod 8 = 0" "n \<le> next_multiple_of n 8" "b mod 8 = 0 \<Longrightarrow> n \<le> b \<Longrightarrow> next_multiple_of n 8 \<le> b"
proof -
  have "n mod 8 < 8" by simp
  then show "n \<le> next_multiple_of n 8" unfolding next_multiple_of_def by (auto split: if_splits)
  obtain q r where n: "n = 8 * q + r" "r < 8" "r = n mod 8" by (metis mod_less_divisor mult_div_mod_eq zero_less_numeral)
  then have up: "next_multiple_of n 8 = (if r = 0 then 8 * q else 8 * (q + 1))" by (auto simp: next_multiple_of_def)
  then show "next_multiple_of n 8 mod 8 = 0" by simp
  assume "b mod 8 = 0" "n \<le> b"
  then obtain c where c: "b = 8 * c" by auto
  show "next_multiple_of n 8 \<le> b"
  proof (cases "r = 0")
    case True
    then show ?thesis using \<open>n \<le> b\<close> n(1) unfolding up by simp
  next
    case False
    then have "8 * q < 8 * c" using \<open>n \<le> b\<close> n(1) c by linarith
    then show ?thesis using False by (simp add: up c)
  qed
qed

lemma transfer_limit_Inr:
  assumes "transfer_limit ring = Inr limit" "ring \<le> usize_MAX"
  shows "\<exists>k. 0 < k \<and> limit \<le> k * 2 ^ 20 \<and> 7 * k + 28 \<le> transfer_word_budget ring"
    "transfer_word_budget ring mod 8 = 0" "transfer_word_budget ring < ring div 8"
proof -
  have p8: "is_power_of_two 8" by (simp add: is_power_of_two.simps)
  have le: "ring div 8 - 1 \<le> usize_MAX" using assms(2) by linarith
  note b = mask_down [OF p8 le]
  let ?k = "(transfer_word_budget ring - 28) div 7"
  from assms(1) have k: "?k \<noteq> 0" "limit = min ?k ((2 ^ 32 - 1) div 2 ^ 20) * 2 ^ 20"
    by (auto simp: transfer_limit_def Let_def saturating_sub_def split: if_splits)
  have "limit \<le> ?k * 2 ^ 20" unfolding k(2) by (intro mult_le_mono1) simp
  moreover have "7 * ?k + 28 \<le> transfer_word_budget ring" using k(1) by linarith
  ultimately show "\<exists>k. 0 < k \<and> limit \<le> k * 2 ^ 20 \<and> 7 * k + 28 \<le> transfer_word_budget ring" using k(1) by blast
  show "transfer_word_budget ring mod 8 = 0" using b(2) by (simp add: transfer_word_budget_def saturating_sub_def dvd_imp_mod_0)
  have "transfer_word_budget ring \<le> ring div 8 - 1" using b(3) by (simp add: transfer_word_budget_def saturating_sub_def)
  moreover have "0 < transfer_word_budget ring" using k(1) by auto
  ultimately show "transfer_word_budget ring < ring div 8" by linarith
qed

text \<open>
  Every part of a transfer within the limit fits the ring wherever the cursor stands, the padding at the end of the ring
  included: preparation is not refused, and the publication is shorter than the ring.
\<close>

lemma sdma_part_fits:
  assumes "transfer_limit ring = Inr limit" "ring \<le> usize_MAX" "len \<le> limit"
    "words = sdma_cache f False @ sdma_copy_words f src dst len \<or> words = prepare_sdma_fill f pattern dst len byte"
  shows "\<exists>ws at. sdma_prepared f ring fence words = Inr (ws, at) \<and> at < length ws \<and> length ws mod 8 = 0
    \<and> (\<forall>cursor<ring div 4. (if length ws > ring div 4 - cursor then ring div 4 - cursor else 0) + length ws < ring div 4)"
proof -
  let ?budget = "transfer_word_budget ring"
  obtain k where k: "limit \<le> k * 2 ^ 20" "7 * k + 28 \<le> ?budget" using transfer_limit_Inr(1) [OF assms(1,2)] by blast
  note b = transfer_limit_Inr(2,3) [OF assms(1,2)]
  have cache: "length (sdma_cache f r) \<le> 5" for r by (simp add: sdma_cache_def)
  have len: "len \<le> k * 2 ^ 20" using assms(3) k(1) by linarith
  have mid: "fill_middle dst len \<le> k * 2 ^ 20"
  proof -
    have "len - fill_prefix dst len \<le> usize_MAX \<or> usize_MAX < len" by linarith
    moreover have "k * 2 ^ 20 \<le> usize_MAX * 2 ^ 20" using k(2) b(2) assms(2) by (intro mult_le_mono1) linarith
    moreover have "fill_middle dst len \<le> len - fill_prefix dst len" 
    proof -
      have "unat ((word_of_nat n :: 64 word) AND x) \<le> n" for n x
      proof -
        have "unat ((word_of_nat n :: 64 word) AND x) \<le> unat (word_of_nat n :: 64 word)"
          by (simp add: word_le_nat_alt [symmetric] word_and_le2)
        also have "\<dots> \<le> n" by (simp add: unat_of_nat)
        finally show ?thesis .
      qed
      then show ?thesis by (simp add: fill_middle_def mask_down_def)
    qed
    ultimately show ?thesis using len by linarith
  qed
  have "length words \<le> 7 * k + 19"
    using assms(4)
  proof
    assume "words = sdma_cache f False @ sdma_copy_words f src dst len"
    then show ?thesis using cache [of False] length_copy_words [OF len, of f src dst] by simp
  next
    assume w: "words = prepare_sdma_fill f pattern dst len byte"
    have tails: "length (fill_tail f pattern d n) \<le> 7" for d n by (simp add: fill_tail_def copy_packet_def)
    show ?thesis
      using cache [of False] tails [of dst "fill_prefix dst len"] tails [of "dst + (fill_prefix dst len + fill_middle dst len)" "fill_suffix dst len"]
        length_fill_words [OF mid, of f byte "dst + fill_prefix dst len"]
      by (auto simp: w prepare_sdma_fill_def Let_def)
  qed
  define body where "body = words @ sdma_cache f True @ sdma_fence f fence"
  define ws where "ws = body @ replicate (next_multiple_of (length body) 8 - length body) 0"
  have body: "length body \<le> ?budget" "0 < length body"
    using \<open>length words \<le> 7 * k + 19\<close> cache [of True] k(2) by (simp_all add: body_def sdma_fence_def)
  have lws: "length ws = next_multiple_of (length body) 8" using next_multiple_of(2) [of "length body"] by (simp add: ws_def)
  then have small: "length ws \<le> ?budget" "length ws mod 8 = 0" using next_multiple_of(1,3) body(1) b(1) by simp_all
  then have fits: "length ws * 4 < ring" using b(2) by linarith
  have prepared: "sdma_prepared f ring fence words = Inr (ws, length body - 1)"
    using fits unfolding sdma_prepared_def Let_def body_def [symmetric] ws_def [symmetric] by simp
  have "(if length ws > ring div 4 - cursor then ring div 4 - cursor else 0) + length ws < ring div 4" if "cursor < ring div 4" for cursor
    using small(1) b(2) that by (auto split: if_splits)
  moreover have "length body - 1 < length ws" using body(2) next_multiple_of(2) [of "length body"] lws by linarith
  ultimately show ?thesis using prepared small(2) by (intro exI [of _ ws] exI [of _ "length body - 1"]) simp
qed

text \<open>Parts of a large transfer tile it.\<close>

lemma transfer_chunks_tile:
  assumes "0 < limit"
  shows "\<forall>(offset, n)\<in>set (transfer_chunks len limit). 0 < n \<and> n \<le> limit \<and> offset mod limit = 0 \<and> offset + n \<le> len"
    "concat (map (\<lambda>(offset, n). [offset..<offset + n]) (transfer_chunks len limit)) = [0..<len]"
proof -
  let ?count = "(len + limit - 1) div limit"
  have below: "i < ?count \<longleftrightarrow> i * limit < len" for i
  proof -
    have "i < ?count \<longleftrightarrow> Suc i \<le> ?count" by (rule less_eq_Suc_le)
    also have "\<dots> \<longleftrightarrow> Suc i * limit \<le> len + limit - 1" using assms by (simp only: less_eq_div_iff_mult_less_eq)
    also have "\<dots> \<longleftrightarrow> limit + i * limit \<le> len + limit - 1" by simp
    also have "\<dots> \<longleftrightarrow> i * limit < len" using assms by auto
    finally show ?thesis .
  qed
  show "\<forall>(offset, n)\<in>set (transfer_chunks len limit). 0 < n \<and> n \<le> limit \<and> offset mod limit = 0 \<and> offset + n \<le> len"
  proof (clarify)
    fix offset n assume "(offset, n) \<in> set (transfer_chunks len limit)"
    then obtain i where i: "i < ?count" "offset = i * limit" "n = min (len - i * limit) limit" by (auto simp: transfer_chunks_def)
    then have "i * limit < len" using below by blast
    with i assms show "0 < n \<and> n \<le> limit \<and> offset mod limit = 0 \<and> offset + n \<le> len" by simp
  qed
  have "concat (map (\<lambda>i. [i * limit..<i * limit + min (len - i * limit) limit]) [0..<n]) = [0..<min (n * limit) len]" if "n \<le> ?count" for n
    using that
  proof (induction n)
    case (Suc n)
    have n: "n * limit < len" using Suc.prems below [of n] by simp
    have "[0..<min (n * limit) len] @ [n * limit..<n * limit + min (len - n * limit) limit] = [0..<min (Suc n * limit) len]"
    proof -
      have "n * limit + min (len - n * limit) limit = min (Suc n * limit) len" using n by (auto simp: min_def)
      moreover have "min (n * limit) len = n * limit" using n by simp
      ultimately show ?thesis using upt_add_eq_append [of 0 "n * limit" "min (len - n * limit) limit"] by simp
    qed
    then show ?case using Suc by simp
  qed simp
  from this [OF order_refl] have "concat (map (\<lambda>i. [i * limit..<i * limit + min (len - i * limit) limit]) [0..<?count]) = [0..<min (?count * limit) len]" .
  moreover have "len \<le> ?count * limit" using below [of ?count] by simp
  ultimately show "concat (map (\<lambda>(offset, n). [offset..<offset + n]) (transfer_chunks len limit)) = [0..<len]"
    by (simp add: transfer_chunks_def comp_def min_absorb2)
qed

end
