(* ===== verification/Native_Transfers.thy ===== *)
theory Native_Transfers
  imports Native_Producer Sdma_Packets Visibility
begin

text \<open>
  Whole copies and fills of a native queue, \<^verbatim>\<open>src/src/fabric/queue.rs\<close> (\<^verbatim>\<open>prepare_copy\<close>, \<^verbatim>\<open>prepare_transfer\<close>,
  \<^verbatim>\<open>prepare_fill\<close> and their parts) and the visibility check of \<^verbatim>\<open>src/src/fabric/queue/sdma.rs\<close>. The memory a part allocates for its fence or
  its written pattern is the answer of an argument, indexed by the first byte of the part. A transfer kernel's dispatch is described by a
  record; the kernels themselves are compiled device code.
\<close>


section \<open>Model\<close>

record transfer_queue =
  tq_sdma :: bool
  tq_ring_bytes :: usize
  tq_features :: sdma_features
  tq_kernels :: "unit result"

record native_buffer =
  tb_len :: usize
  tb_address :: "nat result"
  tb_mapped :: bool
  tb_facts :: "bool \<Rightarrow> bool \<Rightarrow> visibility_facts result"

text \<open>The pair of sites of a query: \<open>False\<close> is the host, \<open>True\<close> the queue's device.\<close>

definition transition_encodable :: "sdma_features \<Rightarrow> cache_transition \<Rightarrow> unit result" where
  "transition_encodable f t =
     (if ct_kind t = UnknownKind then Inl (Unsupported ''SDMA visibility is not qualified'')
      else if ct_executor t = QueueExecutor \<and> ct_kind t \<noteq> NoneKind \<and> (ct_kind t \<noteq> GlobalKind \<or> \<not> sf_gcr f)
      then Inl (Unsupported ''SDMA cache transition is not encodable'') else Inr ())"

definition sdma_visibility :: "sdma_features \<Rightarrow> native_buffer \<Rightarrow> unit result" where
  "sdma_visibility f b =
     try_all (\<lambda>(producer, consumer).
         and_then (tb_facts b producer consumer) (\<lambda>plan.
           if \<not> vf_reachable plan then Inl (Unsupported ''SDMA cannot reach shared backing'')
           else try_all (transition_encodable f) [vf_release plan, vf_acquire plan]))
       (if tb_mapped b then [(False, True), (True, False)] else [(True, True), (True, True)])"

definition address_at :: "string \<Rightarrow> native_buffer \<Rightarrow> usize \<Rightarrow> nat result" where
  "address_at text b offset =
     and_then (tb_address b) (\<lambda>a. case checked_add a offset of None \<Rightarrow> Inl (Message text) | Some x \<Rightarrow> Inr x)"

type_synonym sdma_command = "u32w list \<times> nat"

definition sdma_command :: "transfer_queue \<Rightarrow> native_buffer result \<Rightarrow> native_buffer list \<Rightarrow> u32w list \<Rightarrow> sdma_command result" where
  "sdma_command q fence buffers words =
     and_then (try_all (sdma_visibility (tq_features q)) buffers) (\<lambda>_.
     and_then fence (\<lambda>b.
     and_then (sdma_visibility (tq_features q) b) (\<lambda>_.
     and_then (tb_address b) (\<lambda>address. sdma_prepared (tq_features q) (tq_ring_bytes q) address words))))"

definition sdma_copy_part :: "transfer_queue \<Rightarrow> native_buffer result \<Rightarrow> native_buffer \<Rightarrow> usize \<Rightarrow> native_buffer \<Rightarrow> usize \<Rightarrow> usize \<Rightarrow> sdma_command result" where
  "sdma_copy_part q fence dst doff src soff len =
     and_then (address_at ''SDMA source address overflow'' src soff) (\<lambda>s.
     and_then (address_at ''SDMA destination address overflow'' dst doff) (\<lambda>d.
     and_then (prepare_sdma_copy (tq_features q) s d len) (\<lambda>words. sdma_command q fence [src, dst] words)))"

definition sdma_fill_part :: "transfer_queue \<Rightarrow> native_buffer result \<Rightarrow> native_buffer result \<Rightarrow> native_buffer \<Rightarrow> usize \<Rightarrow> usize \<Rightarrow> nat \<Rightarrow> sdma_command result" where
  "sdma_fill_part q fence pattern dst offset len byte =
     and_then (address_at ''SDMA fill address overflow'' dst offset) (\<lambda>address.
       if fill_prefix address len \<noteq> 0 \<or> fill_suffix address len \<noteq> 0
       then and_then pattern (\<lambda>p. and_then (tb_address p) (\<lambda>source.
              sdma_command q fence [dst, p] (prepare_sdma_fill (tq_features q) source address len byte)))
       else sdma_command q fence [dst] (prepare_sdma_fill (tq_features q) 0 address len byte))"

text \<open>A dispatch of a transfer kernel over bytes, or over words of eight bytes when everything is aligned.\<close>

record kernel_call =
  kc_kernel :: nat
  kc_grid :: nat
  kc_dst :: nat
  kc_src :: nat
  kc_elements :: nat
  kc_byte :: nat

definition div_ceil :: "nat \<Rightarrow> nat \<Rightarrow> nat" where
  "div_ceil n k = (n + k - 1) div k"

definition transfer_call :: "bool \<Rightarrow> nat \<Rightarrow> nat \<Rightarrow> nat \<Rightarrow> usize \<Rightarrow> nat \<Rightarrow> kernel_call" where
  "transfer_call wide symbol dst src len byte =
     (let elements = (if wide then len div 8 else len)
      in \<lparr>kc_kernel = (if wide then symbol + 2 else symbol), kc_grid = div_ceil elements 256 mod 2 ^ 32, kc_dst = dst, kc_src = src,
          kc_elements = elements, kc_byte = byte\<rparr>)"

definition kernel_copy_part :: "unit result \<Rightarrow> native_buffer \<Rightarrow> usize \<Rightarrow> native_buffer \<Rightarrow> usize \<Rightarrow> usize \<Rightarrow> kernel_call result" where
  "kernel_copy_part kernels dst doff src soff len =
     and_then kernels (\<lambda>_. and_then (tb_address dst) (\<lambda>d0. and_then (tb_address src) (\<lambda>s0.
       let d = (d0 + doff) mod 2 ^ 64; s = (s0 + soff) mod 2 ^ 64
       in Inr (transfer_call (d mod 8 = 0 \<and> s mod 8 = 0 \<and> len mod 8 = 0) 0 d s len 0))))"

definition kernel_fill_part :: "unit result \<Rightarrow> native_buffer \<Rightarrow> usize \<Rightarrow> usize \<Rightarrow> nat \<Rightarrow> kernel_call result" where
  "kernel_fill_part kernels dst offset len byte =
     and_then kernels (\<lambda>_. and_then (tb_address dst) (\<lambda>d0.
       let d = (d0 + offset) mod 2 ^ 64
       in Inr (transfer_call (d mod 8 = 0 \<and> len mod 8 = 0) 1 d 0 len byte)))"

datatype transfer_part = SdmaPart sdma_command | KernelPart kernel_call

definition prepare_copy_part ::
  "transfer_queue \<Rightarrow> (usize \<Rightarrow> native_buffer result) \<Rightarrow> native_buffer \<Rightarrow> usize \<Rightarrow> native_buffer \<Rightarrow> usize \<Rightarrow> usize \<Rightarrow> transfer_part result" where
  "prepare_copy_part q fences dst doff src soff len =
     and_then (transfer_range (tb_len dst) doff len) (\<lambda>_.
     and_then (transfer_range (tb_len src) soff len) (\<lambda>_.
       if tq_sdma q then and_then (sdma_copy_part q (fences doff) dst doff src soff len) (\<lambda>c. Inr (SdmaPart c))
       else and_then (kernel_copy_part (tq_kernels q) dst doff src soff len) (\<lambda>c. Inr (KernelPart c))))"

definition prepare_fill_part ::
  "transfer_queue \<Rightarrow> (usize \<Rightarrow> native_buffer result) \<Rightarrow> (usize \<Rightarrow> native_buffer result) \<Rightarrow> native_buffer \<Rightarrow> usize \<Rightarrow> usize \<Rightarrow> nat \<Rightarrow> transfer_part result" where
  "prepare_fill_part q fences patterns dst offset len byte =
     and_then (transfer_range (tb_len dst) offset len) (\<lambda>_.
       if tq_sdma q then and_then (sdma_fill_part q (fences offset) (patterns offset) dst offset len byte) (\<lambda>c. Inr (SdmaPart c))
       else and_then (kernel_fill_part (tq_kernels q) dst offset len byte) (\<lambda>c. Inr (KernelPart c)))"

text \<open>
  The parts in order: for the copy engine all but the last become the prefix of the last, for the compute queue they
  become one batch without dependencies.
\<close>

definition queue_limit :: "transfer_queue \<Rightarrow> usize result" where
  "queue_limit q = (if tq_sdma q then transfer_limit (tq_ring_bytes q) else Inr (mask_down 256 (2 ^ 32 - 1)))"

definition prepare_transfer :: "transfer_queue \<Rightarrow> usize \<Rightarrow> (usize \<Rightarrow> usize \<Rightarrow> transfer_part result) \<Rightarrow> transfer_part list result" where
  "prepare_transfer q len prepare =
     and_then (queue_limit q) (\<lambda>limit.
       if len \<le> limit then and_then (prepare 0 len) (\<lambda>p. Inr [p])
       else map_result (\<lambda>(offset, bytes). prepare offset bytes) (transfer_chunks len limit))"

definition prepare_copy ::
  "transfer_queue \<Rightarrow> (usize \<Rightarrow> native_buffer result) \<Rightarrow> native_buffer \<Rightarrow> usize \<Rightarrow> native_buffer \<Rightarrow> usize \<Rightarrow> usize \<Rightarrow> transfer_part list result" where
  "prepare_copy q fences dst doff src soff len =
     and_then (transfer_range (tb_len dst) doff len) (\<lambda>_.
     and_then (transfer_range (tb_len src) soff len) (\<lambda>_.
     and_then (address_at ''copy address overflow'' dst doff) (\<lambda>d.
     and_then (address_at ''copy address overflow'' src soff) (\<lambda>s.
       if d < saturating_add s len \<and> s < saturating_add d len then Inl (Message ''native copy ranges overlap'')
       else prepare_transfer q len (\<lambda>offset bytes. prepare_copy_part q fences dst (doff + offset) src (soff + offset) bytes)))))"

definition prepare_fill ::
  "transfer_queue \<Rightarrow> (usize \<Rightarrow> native_buffer result) \<Rightarrow> (usize \<Rightarrow> native_buffer result) \<Rightarrow> native_buffer \<Rightarrow> usize \<Rightarrow> usize \<Rightarrow> nat
     \<Rightarrow> transfer_part list result" where
  "prepare_fill q fences patterns dst offset len byte =
     and_then (transfer_range (tb_len dst) offset len) (\<lambda>_.
       prepare_transfer q len (\<lambda>first bytes. prepare_fill_part q fences patterns dst (offset + first) bytes byte))"

text \<open>The bytes charged for fences before any is allocated.\<close>

definition reserved_fence_bytes :: "transfer_queue \<Rightarrow> usize \<Rightarrow> usize result" where
  "reserved_fence_bytes q len =
     and_then (if tq_sdma q then and_then (transfer_limit (tq_ring_bytes q)) (\<lambda>limit. Inr (div_ceil len limit)) else Inr 1) (\<lambda>count.
       case checked_mul count 64 of None \<Rightarrow> Inl (Message ''transfer fence size overflow'') | Some n \<Rightarrow> Inr n)"


section \<open>Parts\<close>

text \<open>The transfer packets of a command, without its fence and padding.\<close>

definition transfer_packets :: "sdma_command \<Rightarrow> u32w list" where
  "transfer_packets c = take (snd c - 3) (fst c)"

lemma sdma_prepared_packets:
  assumes "sdma_prepared f ring fence words = Inr c"
  shows "transfer_packets c = words @ sdma_cache f True"
proof -
  have "length (sdma_fence f fence) = 4" by (simp add: sdma_fence_def)
  then show ?thesis using assms by (auto simp: sdma_prepared_def Let_def transfer_packets_def split: if_splits)
qed

lemma sdma_command_packets: "sdma_command q fence buffers words = Inr c \<Longrightarrow> transfer_packets c = words @ sdma_cache (tq_features q) True"
  by (auto simp: sdma_command_def and_then_Inr_iff sdma_prepared_packets)

lemma sdma_run_append: "sdma_run xs m m1 \<Longrightarrow> sdma_run ys m1 m2 \<Longrightarrow> sdma_run (xs @ ys) m m2"
  by (induction rule: sdma_run.induct) (auto intro: sdma_run.intros)

lemma queue_limit_pos:
  assumes "queue_limit q = Inr limit" "tq_ring_bytes q \<le> usize_MAX"
  shows "0 < limit"
proof (cases "tq_sdma q")
  case True
  then have "transfer_limit (tq_ring_bytes q) = Inr limit" using assms(1) by (simp add: queue_limit_def)
  then show ?thesis by (auto simp: transfer_limit_def Let_def split: if_splits)
next
  case False
  then have "limit = mask_down 256 (2 ^ 32 - 1)" using assms(1) by (simp add: queue_limit_def)
  moreover have "mask_down 256 (2 ^ 32 - 1) = 2 ^ 32 - 256"
    using mask_down [of 256 "2 ^ 32 - 1"] by (simp add: is_power_of_two.simps usize_MAX_def)
  ultimately show ?thesis by simp
qed

text \<open>Running all parts in order, each to the end of its transfer packets.\<close>

inductive parts_run :: "transfer_part list \<Rightarrow> memory \<Rightarrow> memory \<Rightarrow> bool" where
  no_part: "parts_run [] m m"
| sdma_part: "sdma_run (transfer_packets c) m m1 \<Longrightarrow> parts_run ps m1 m2 \<Longrightarrow> parts_run (SdmaPart c # ps) m m2"

lemma upt_split_head:
  assumes "[k..<k + n] @ xs = [a..<b]" "0 < n"
  shows "k = a" "xs = [k + n..<b]" "a + n \<le> b"
proof -
  have "([k..<k + n] @ xs) ! 0 = k" using assms(2) by (simp add: nth_append)
  moreover have len: "n + length xs = b - a" using arg_cong [OF assms(1), of length] by simp
  ultimately show ka: "k = a" using assms by simp
  show "a + n \<le> b" using len assms(2) by linarith
  have "xs = drop n ([k..<k + n] @ xs)" by simp
  also have "\<dots> = [a + n..<b]" unfolding assms(1) by (rule drop_upt)
  finally show "xs = [k + n..<b]" by (simp add: ka)
qed

lemma chunks_run:
  assumes "list_all2 (\<lambda>(offset, n) p. \<exists>c. p = SdmaPart c \<and> sdma_run (transfer_packets c) (whole offset) (whole (offset + n))) cs ps"
    "\<forall>(offset, n)\<in>set cs. 0 < n" "concat (map (\<lambda>(offset, n). [offset..<offset + n]) cs) = [a..<b]" "a \<le> b"
  shows "parts_run ps (whole a) (whole b)"
  using assms
proof (induction cs ps arbitrary: a rule: list_all2_induct)
  case Nil
  then have "[a..<b] = []" "a \<le> b" by simp_all
  then have "a = b" by (simp only: upt_eq_Nil_conv) linarith
  then show ?case by (simp add: parts_run.no_part)
next
  case (Cons x cs p ps)
  obtain offset n where x: "x = (offset, n)" by fastforce
  have n: "0 < n" using Cons.prems(1) x by simp
  have split: "[offset..<offset + n] @ concat (map (\<lambda>(offset, n). [offset..<offset + n]) cs) = [a..<b]" using Cons.prems(2) x by simp
  note head = upt_split_head [OF split n]
  obtain c where c: "p = SdmaPart c" "sdma_run (transfer_packets c) (whole a) (whole (a + n))" using Cons.hyps(1) x head(1) by auto
  have "parts_run ps (whole (a + n)) (whole b)"
    using Cons.IH [of "a + n"] Cons.prems(1) head by simp
  then show ?case using c by (auto intro: parts_run.sdma_part)
qed

text \<open>A split transfer runs as its parts, each over its own range.\<close>

lemma prepare_transfer_run:
  assumes parts: "prepare_transfer q len prepare = Inr ps" and ring: "tq_ring_bytes q \<le> usize_MAX" and len: "0 < len"
    and step: "\<And>offset n p. prepare offset n = Inr p \<Longrightarrow> 0 < n \<Longrightarrow> offset + n \<le> len \<Longrightarrow>
      \<exists>c. p = SdmaPart c \<and> sdma_run (transfer_packets c) (whole offset) (whole (offset + n))"
  shows "parts_run ps (whole 0) (whole len)"
proof -
  obtain limit where limit: "queue_limit q = Inr limit" using parts by (auto simp: prepare_transfer_def and_then_Inr_iff)
  have pos: "0 < limit" by (rule queue_limit_pos [OF limit ring])
  show ?thesis
  proof (cases "len \<le> limit")
    case True
    then obtain p where p: "prepare 0 len = Inr p" "ps = [p]" using parts limit by (auto simp: prepare_transfer_def and_then_Inr_iff)
    then show ?thesis using step [OF p(1) len] by (auto intro: parts_run.intros)
  next
    case False
    let ?cs = "transfer_chunks len limit"
    note tile = transfer_chunks_tile [OF pos, of len]
    have "list_all2 (\<lambda>x p. (\<lambda>(offset, bytes). prepare offset bytes) x = Inr p) ?cs ps"
      using parts limit False by (simp add: prepare_transfer_def map_result_Inr)
    then have "list_all2 (\<lambda>(offset, n) p. \<exists>c. p = SdmaPart c \<and> sdma_run (transfer_packets c) (whole offset) (whole (offset + n))) ?cs ps"
    proof (rule list.rel_mono_strong)
      fix x p assume x: "x \<in> set ?cs" and "p \<in> set ps" and p: "(\<lambda>(offset, bytes). prepare offset bytes) x = Inr p"
      obtain offset n where on: "x = (offset, n)" by fastforce
      have "0 < n" "offset + n \<le> len" using tile(1) x on by auto
      then show "(\<lambda>(offset, n) p. \<exists>c. p = SdmaPart c \<and> sdma_run (transfer_packets c) (whole offset) (whole (offset + n))) x p"
        using step [of offset n p] p on by simp
    qed
    moreover have "\<forall>(offset, n)\<in>set ?cs. 0 < n" using tile(1) by auto
    ultimately show ?thesis by (rule chunks_run [OF _ _ tile(2)]) simp
  qed
qed

lemma sdma_copy_part_run:
  assumes "sdma_copy_part q fence dst doff src soff n = Inr c" "tb_address dst = Inr d0" "tb_address src = Inr s0" "0 < n"
    "s0 + soff + n \<le> usize_MAX" "d0 + doff + n \<le> usize_MAX"
  shows "sdma_run (transfer_packets c) m (apply_copy (s0 + soff) (d0 + doff) n m)"
proof -
  obtain words where words: "prepare_sdma_copy (tq_features q) (s0 + soff) (d0 + doff) n = Inr words" "sdma_command q fence [src, dst] words = Inr c"
    using assms(1,2,3) by (auto simp: sdma_copy_part_def address_at_def and_then_Inr_iff split: option.splits)
  have "sdma_run words m (apply_copy (s0 + soff) (d0 + doff) n m)"
    using sdma_copy_exact(1) [OF _ _ assms(4) words(1)] assms(5,6) by (simp add: apply_copy_def usize_MAX_def)
  moreover have "sdma_run (sdma_cache (tq_features q) True) m' m'" for m' using cache_run [OF sdma_run.stop] by fastforce
  ultimately show ?thesis using sdma_command_packets [OF words(2)] sdma_run_append by simp
qed

text \<open>A prepared copy moves exactly the requested bytes, in however many parts it is published.\<close>

lemma prepare_copy_exact:
  assumes parts: "prepare_copy q fences dst doff src soff len = Inr ps" and sdma: "tq_sdma q" and ring: "tq_ring_bytes q \<le> usize_MAX"
    and addresses: "tb_address dst = Inr d0" "tb_address src = Inr s0" "d0 + tb_len dst \<le> usize_MAX" "s0 + tb_len src \<le> usize_MAX"
  shows "parts_run ps m (\<lambda>a. if d0 + doff \<le> a \<and> a < d0 + doff + len then m (s0 + soff + (a - (d0 + doff))) else m a)"
proof -
  let ?s = "s0 + soff" and ?d = "d0 + doff"
  have range: "0 < len" "doff + len \<le> tb_len dst" "soff + len \<le> tb_len src"
    using parts by (auto simp: prepare_copy_def transfer_range_def and_then_Inr_iff split: if_splits)
  have sat: "saturating_add ?s len = ?s + len" "saturating_add ?d len = ?d + len"
    using addresses(3,4) range by (simp_all add: saturating_add_def)
  have apart: "?s + len \<le> ?d \<or> ?d + len \<le> ?s" and transfer: "prepare_transfer q len
      (\<lambda>offset bytes. prepare_copy_part q fences dst (doff + offset) src (soff + offset) bytes) = Inr ps"
    using parts addresses(1,2) sat by (auto simp: prepare_copy_def address_at_def and_then_Inr_iff split: if_splits option.splits)
  define whole where "whole a = apply_copy ?s ?d a m" for a
  have "parts_run ps (whole 0) (whole len)"
  proof (rule prepare_transfer_run [OF transfer ring range(1)])
    fix offset n p assume p: "prepare_copy_part q fences dst (doff + offset) src (soff + offset) n = Inr p" and n: "0 < n" "offset + n \<le> len"
    obtain c where c: "p = SdmaPart c" "sdma_copy_part q (fences (doff + offset)) dst (doff + offset) src (soff + offset) n = Inr c"
      using p sdma by (auto simp: prepare_copy_part_def and_then_Inr_iff)
    have "s0 + (soff + offset) + n \<le> usize_MAX" "d0 + (doff + offset) + n \<le> usize_MAX" using range n addresses(3,4) by linarith+
    note run = sdma_copy_part_run [OF c(2) addresses(1,2) n(1) this, of "whole offset"]
    have "apply_copy (s0 + (soff + offset)) (d0 + (doff + offset)) n (whole offset) = whole (offset + n)"
      using apply_copy_split [of offset "offset + n" ?s ?d m] apart n(2) by (auto simp: whole_def add.assoc)
    then show "\<exists>c. p = SdmaPart c \<and> sdma_run (transfer_packets c) (whole offset) (whole (offset + n))" using run c(1) by simp
  qed
  moreover have "whole 0 = m" by (simp add: whole_def apply_copy_def fun_eq_iff)
  ultimately show ?thesis by (simp add: whole_def apply_copy_def)
qed

definition pattern_ok :: "nat \<Rightarrow> nat \<Rightarrow> usize \<Rightarrow> memory \<Rightarrow> nat \<Rightarrow> bool" where
  "pattern_ok byte address len m source \<longleftrightarrow>
     source + 4 \<le> 2 ^ 64 \<and> (\<forall>i<4. m (source + i) = byte) \<and> (source + 4 \<le> address \<or> address + len \<le> source)"

lemma fill_run:
  assumes "byte < 256" "address + n \<le> usize_MAX"
    and pattern: "fill_prefix address n \<noteq> 0 \<or> fill_suffix address n \<noteq> 0 \<Longrightarrow> pattern_ok byte address n m source"
  shows "sdma_run (prepare_sdma_fill f source address n byte) m (apply_byte byte address n m)"
proof (cases "fill_prefix address n \<noteq> 0 \<or> fill_suffix address n \<noteq> 0")
  case True
  then show ?thesis
    using sdma_fill_exact [OF assms(1), of address n source m f] pattern assms(2) by (simp add: pattern_ok_def usize_MAX_def apply_byte_def)
next
  case False
  have "n \<le> usize_MAX" using assms(2) by linarith
  then have mid: "fill_middle address n = n" using fill_parts(1) [of n address] False by simp
  have "address + n \<le> 2 ^ 64" using assms(2) by (simp add: usize_MAX_def)
  then have "sdma_run (sdma_fill_words f byte address n) m (apply_byte byte address n m)" by (rule fill_words_run [OF assms(1)])
  then show ?thesis using False mid by (simp add: prepare_sdma_fill_def Let_def cache_run)
qed

lemma sdma_fill_part_run:
  assumes c: "sdma_fill_part q fence pattern dst offset n byte = Inr c" and d0: "tb_address dst = Inr d0" and byte: "byte < 256"
    and top: "d0 + offset + n \<le> usize_MAX"
    and pattern: "\<And>p a. pattern = Inr p \<Longrightarrow> tb_address p = Inr a \<Longrightarrow> pattern_ok byte (d0 + offset) n m a"
  shows "sdma_run (transfer_packets c) m (apply_byte byte (d0 + offset) n m)"
proof -
  let ?a = "d0 + offset" and ?f = "tq_features q"
  obtain source buffers where source: "sdma_command q fence buffers (prepare_sdma_fill ?f source ?a n byte) = Inr c"
    "fill_prefix ?a n \<noteq> 0 \<or> fill_suffix ?a n \<noteq> 0 \<Longrightarrow> pattern_ok byte ?a n m source"
  proof (cases "fill_prefix ?a n \<noteq> 0 \<or> fill_suffix ?a n \<noteq> 0")
    case True
    then obtain p a where "pattern = Inr p" "tb_address p = Inr a" "sdma_command q fence [dst, p] (prepare_sdma_fill ?f a ?a n byte) = Inr c"
      using c d0 by (auto simp: sdma_fill_part_def address_at_def and_then_Inr_iff split: option.splits)
    then show ?thesis using that pattern by blast
  next
    case False
    then have "sdma_command q fence [dst] (prepare_sdma_fill ?f 0 ?a n byte) = Inr c"
      using c d0 by (auto simp: sdma_fill_part_def address_at_def and_then_Inr_iff split: option.splits)
    then show ?thesis using that False by blast
  qed
  have "sdma_run (sdma_cache ?f True) m' m'" for m' using cache_run [OF sdma_run.stop] by fastforce
  then show ?thesis
    unfolding sdma_command_packets [OF source(1)] using fill_run [OF byte top source(2)] sdma_run_append by blast
qed

text \<open>A prepared fill sets exactly the requested bytes.\<close>

lemma prepare_fill_exact:
  assumes parts: "prepare_fill q fences patterns dst offset len byte = Inr ps" and sdma: "tq_sdma q" and ring: "tq_ring_bytes q \<le> usize_MAX"
    and d0: "tb_address dst = Inr d0" "d0 + tb_len dst \<le> usize_MAX" and byte: "byte < 256"
    and pattern: "\<And>k p a. patterns k = Inr p \<Longrightarrow> tb_address p = Inr a \<Longrightarrow> pattern_ok byte (d0 + offset) len m a"
  shows "parts_run ps m (\<lambda>a. if d0 + offset \<le> a \<and> a < d0 + offset + len then byte else m a)"
proof -
  let ?d = "d0 + offset"
  have range: "0 < len" "offset + len \<le> tb_len dst" and transfer: "prepare_transfer q len
      (\<lambda>first bytes. prepare_fill_part q fences patterns dst (offset + first) bytes byte) = Inr ps"
    using parts by (auto simp: prepare_fill_def transfer_range_def and_then_Inr_iff split: if_splits)
  define whole where "whole a = apply_byte byte ?d a m" for a
  have "parts_run ps (whole 0) (whole len)"
  proof (rule prepare_transfer_run [OF transfer ring range(1)])
    fix first n p assume p: "prepare_fill_part q fences patterns dst (offset + first) n byte = Inr p" and n: "0 < n" "first + n \<le> len"
    obtain c where c: "p = SdmaPart c" "sdma_fill_part q (fences (offset + first)) (patterns (offset + first)) dst (offset + first) n byte = Inr c"
      using p sdma by (auto simp: prepare_fill_part_def and_then_Inr_iff)
    have top: "d0 + (offset + first) + n \<le> usize_MAX" using range n d0(2) by linarith
    have "pattern_ok byte (d0 + (offset + first)) n (whole first) a" if "patterns (offset + first) = Inr b" "tb_address b = Inr a" for a b
      using pattern [OF that] n(2) by (auto simp: pattern_ok_def whole_def apply_byte_def)
    note run = sdma_fill_part_run [OF c(2) d0(1) byte top this]
    have "apply_byte byte (d0 + (offset + first)) n (whole first) = whole (first + n)"
      by (auto simp: whole_def apply_byte_def fun_eq_iff)
    then show "\<exists>c. p = SdmaPart c \<and> sdma_run (transfer_packets c) (whole first) (whole (first + n))" using run c(1) by simp
  qed
  moreover have "whole 0 = m" by (simp add: whole_def apply_byte_def fun_eq_iff)
  ultimately show ?thesis by (simp add: whole_def apply_byte_def)
qed


section \<open>Kernel parts and fences\<close>

text \<open>
  On a compute queue a part never exceeds the extent the transfer kernels were compiled for, the conversion of
  the grid to 32 bits loses nothing, and the grid covers all elements.
\<close>

lemma div_ceil_covers: "0 < k \<Longrightarrow> n \<le> k * div_ceil n k" "0 < k \<Longrightarrow> n \<le> k * m \<Longrightarrow> div_ceil n k \<le> m"
proof -
  assume k: "0 < k"
  have "n + k - 1 < k * Suc ((n + k - 1) div k)" using dividend_less_times_div [OF k, of "n + k - 1"] by simp
  then show "n \<le> k * div_ceil n k" using k by (simp add: div_ceil_def)
  assume "n \<le> k * m"
  then have "n + k - 1 < k * Suc m" using k by simp
  then show "div_ceil n k \<le> m" using k by (simp add: div_ceil_def div_less_iff_less_mult mult.commute less_Suc_eq_le [symmetric])
qed

lemma kernel_limit: "mask_down 256 (2 ^ 32 - 1) = 256 * 16777215"
  using mask_down [of 256 "2 ^ 32 - 1"] by (simp add: is_power_of_two.simps usize_MAX_def)

lemma kernel_grid_exact:
  assumes "kernel_copy_part kernels dst doff src soff len = Inr c \<or> kernel_fill_part kernels dst doff len byte = Inr c"
    "len \<le> mask_down 256 (2 ^ 32 - 1)"
  shows "kc_elements c \<le> 256 * kc_grid c" "kc_grid c \<le> 16777215"
    "kc_elements c * (if kc_kernel c \<ge> 2 then 8 else 1) = len"
proof -
  obtain wide k d b x where c: "c = transfer_call wide k d b len x" "k < 2" "wide \<Longrightarrow> len mod 8 = 0"
    using assms(1)
  proof
    assume "kernel_copy_part kernels dst doff src soff len = Inr c"
    then obtain w d b where "c = transfer_call w 0 d b len 0" "w \<longrightarrow> len mod 8 = 0" by (auto simp: kernel_copy_part_def Let_def and_then_Inr_iff)
    then show thesis using that [of w 0] by simp
  next
    assume "kernel_fill_part kernels dst doff len byte = Inr c"
    then obtain w d where "c = transfer_call w 1 d 0 len byte" "w \<longrightarrow> len mod 8 = 0" by (auto simp: kernel_fill_part_def Let_def and_then_Inr_iff)
    then show thesis using that [of w 1] by simp
  qed
  define elements where "elements = (if wide then len div 8 else len)"
  have e: "kc_elements c = elements" "kc_grid c = div_ceil elements 256 mod 2 ^ 32" "elements \<le> len"
      "elements * (if kc_kernel c \<ge> 2 then 8 else 1) = len"
    using c by (auto simp: transfer_call_def Let_def elements_def)
  have "elements \<le> 256 * 16777215" using e(3) assms(2) by (simp only: kernel_limit)
  then have "div_ceil elements 256 \<le> 16777215" by (rule div_ceil_covers(2) [rotated]) simp
  moreover have "elements \<le> 256 * div_ceil elements 256" by (rule div_ceil_covers(1)) simp
  ultimately show "kc_elements c \<le> 256 * kc_grid c" "kc_grid c \<le> 16777215"
    "kc_elements c * (if kc_kernel c \<ge> 2 then 8 else 1) = len" using e by simp_all
qed

text \<open>The bytes reserved for a copy's fences are those its parts allocate: 64 for each part of a copy engine, 64 for a compute batch.\<close>

lemma reserved_matches_parts:
  assumes "reserved_fence_bytes q len = Inr n" "prepare_transfer q len prepare = Inr ps" "tq_sdma q" "0 < len"
  shows "n = 64 * length ps"
proof -
  obtain limit where limit: "transfer_limit (tq_ring_bytes q) = Inr limit" "n = div_ceil len limit * 64"
    using assms(1,3) by (auto simp: reserved_fence_bytes_def and_then_Inr_iff split: option.splits)
  have pos: "0 < limit" using limit(1) by (auto simp: transfer_limit_def Let_def split: if_splits)
  show ?thesis
  proof (cases "len \<le> limit")
    case True
    have "len + limit - 1 < limit * 2" "limit \<le> len + limit - 1" using True pos assms(4) by linarith+
    then have "div_ceil len limit = 1" using pos by (simp add: div_ceil_def div_nat_eqI)
    then show ?thesis using True assms(2,3) limit by (auto simp: prepare_transfer_def queue_limit_def and_then_Inr_iff)
  next
    case False
    then have "list_all2 (\<lambda>x p. (\<lambda>(offset, bytes). prepare offset bytes) x = Inr p) (transfer_chunks len limit) ps"
      using assms(2,3) limit(1) by (simp add: prepare_transfer_def queue_limit_def map_result_Inr)
    then have "length ps = length (transfer_chunks len limit)" by (simp add: list_all2_lengthD)
    then show ?thesis using limit(2) by (simp add: transfer_chunks_def div_ceil_def)
  qed
qed


section \<open>Parts and the ring\<close>

lemma prepare_transfer_parts:
  assumes "prepare_transfer q len prepare = Inr ps" "tq_ring_bytes q \<le> usize_MAX" "p \<in> set ps"
  shows "\<exists>limit offset n. queue_limit q = Inr limit \<and> n \<le> limit \<and> prepare offset n = Inr p"
proof -
  obtain limit where limit: "queue_limit q = Inr limit" using assms(1) by (auto simp: prepare_transfer_def and_then_Inr_iff)
  show ?thesis
  proof (cases "len \<le> limit")
    case True
    then have "prepare 0 len = Inr p" using assms(1,3) limit by (auto simp: prepare_transfer_def and_then_Inr_iff)
    then show ?thesis using True limit by blast
  next
    case False
    then have "list_all2 (\<lambda>x p. (\<lambda>(offset, bytes). prepare offset bytes) x = Inr p) (transfer_chunks len limit) ps"
      using assms(1) limit by (simp add: prepare_transfer_def map_result_Inr)
    moreover obtain i where i: "i < length ps" "p = ps ! i" using assms(3) by (auto simp: in_set_conv_nth)
    ultimately have "(\<lambda>(offset, bytes). prepare offset bytes) (transfer_chunks len limit ! i) = Inr p" "i < length (transfer_chunks len limit)"
      by (auto dest: list_all2_nthD2 list_all2_lengthD)
    then obtain x where x: "x \<in> set (transfer_chunks len limit)" "(\<lambda>(offset, bytes). prepare offset bytes) x = Inr p"
      using nth_mem by blast
    have "\<forall>(offset, n)\<in>set (transfer_chunks len limit). n \<le> limit"
      using transfer_chunks_tile(1) [OF queue_limit_pos [OF limit assms(2)], of len] by auto
    then have "snd x \<le> limit" "prepare (fst x) (snd x) = Inr p" using x by auto
    then show ?thesis using limit by blast
  qed
qed

text \<open>
  An empty ring with room for one more submission accepts every part of a copy, wherever its write position is, so
  waiting for capacity ends with the last pending submission.
\<close>

lemma copy_parts_publishable:
  assumes parts: "prepare_copy q fences dst doff src soff len = Inr ps" "tq_sdma q" "tq_ring_bytes q \<le> usize_MAX"
    and part: "SdmaPart (words, fence_word) \<in> set ps"
    and ring: "queue_ok r st" "rq_capacity r = tq_ring_bytes q div 4" "ring_read r = rq_write r" "length (rq_pending r) < 4096"
  shows "ring_full r (length words) = None \<and> length words mod 8 = 0 \<and> fence_word < length words"
proof -
  let ?C = "tq_ring_bytes q div 4"
  have "prepare_transfer q len (\<lambda>offset bytes. prepare_copy_part q fences dst (doff + offset) src (soff + offset) bytes) = Inr ps"
    using parts(1) by (auto simp: prepare_copy_def and_then_Inr_iff split: if_splits)
  from prepare_transfer_parts [OF this parts(3) part] obtain limit offset n where
    n: "transfer_limit (tq_ring_bytes q) = Inr limit" "n \<le> limit" "prepare_copy_part q fences dst (doff + offset) src (soff + offset) n = Inr (SdmaPart (words, fence_word))"
    using parts(2) by (auto simp: queue_limit_def)
  then have "sdma_copy_part q (fences (doff + offset)) dst (doff + offset) src (soff + offset) n = Inr (words, fence_word)"
    using parts(2) by (auto simp: prepare_copy_part_def and_then_Inr_iff)
  then obtain s d fence body where body: "prepare_sdma_copy (tq_features q) s d n = Inr body"
    "sdma_prepared (tq_features q) (tq_ring_bytes q) fence body = Inr (words, fence_word)"
    by (auto simp: sdma_copy_part_def sdma_command_def and_then_Inr_iff)
  then have shape: "body = sdma_cache (tq_features q) False @ sdma_copy_words (tq_features q) s d n" by (auto simp: prepare_sdma_copy_def split: if_splits)
  obtain ws at where fits: "sdma_prepared (tq_features q) (tq_ring_bytes q) fence body = Inr (ws, at)" "at < length ws" "length ws mod 8 = 0"
    "\<forall>cursor<?C. (if length ws > ?C - cursor then ?C - cursor else 0) + length ws < ?C"
    using sdma_part_fits [OF n(1) parts(3) n(2) disjI1 [OF shape], of fence] by (elim exE conjE) (rule that)
  have same: "ws = words" "at = fence_word" using fits(1) body(2) by simp_all
  have cursor: "rq_write r mod ?C < ?C" using queue_okD(2) [OF ring(1)] ring(2) by simp
  have "ring_wrap r (length words) + length words < ?C"
    using fits(4) [rule_format, OF cursor] same by (simp only: ring_wrap_def Let_def queue_okD(1) [OF ring(1), unfolded ring(2)] ring(2))
  then have "ring_full r (length words) = None" using queue_okD(4) [OF ring(1)] ring by (simp add: ring_full_def)
  then show ?thesis using fits(2,3) same by simp
qed

end
