(* ===== verification/Gpu_Stream.thy ===== *)
theory Gpu_Stream
  imports Buffer_Pool Vec_Multiset
begin

text \<open>
  GPU streams, \<^verbatim>\<open>src/src/runtime.rs\<close>: the submission timeline over several engines, bounded staging for uploads, the
  scratch pool and the pool of freed allocations. A native allocation is a \<open>pbuffer\<close> with its number; the state also records, for
  every published command part, its engine and the allocations it uses, and which parts have retired. What native calls answer are
  arguments of the operations.
\<close>


section \<open>State\<close>

definition STAGING_LIMIT :: usize where
  "STAGING_LIMIT = 64 * 1024 * 1024"

record gpu_stream =
  gs_published :: "(nat \<times> nat set) list"
  gs_retired :: "nat set"
  gs_last :: "nat option"
  gs_staging :: "pbuffer list"
  gs_staging_pool :: "pbuffer list"
  gs_free :: "pbuffer list"
  gs_scratch :: blocks
  gs_scratch_bytes :: usize
  gs_scratch_limit :: usize
  gs_budget_uses :: "nat set"
  gs_allocated :: nat

definition stream_new :: "usize \<Rightarrow> gpu_stream" where
  "stream_new limit =
     \<lparr>gs_published = [], gs_retired = {}, gs_last = None, gs_staging = [], gs_staging_pool = [], gs_free = [], gs_scratch = [],
      gs_scratch_bytes = 0, gs_scratch_limit = limit, gs_budget_uses = {}, gs_allocated = 0\<rparr>"


section \<open>Submission\<close>

text \<open>
  \<^verbatim>\<open>Inner::submit\<close> under the producer lock: a command for another engine waits for the last completion first, then every accepted part
  is recorded as the last one, so a later error leaves the accepted prefix visible.
\<close>

record submit_answer =
  sa_wait :: "unit result"
  sa_accepted :: nat
  sa_error :: "error option"

definition switches :: "nat \<Rightarrow> gpu_stream \<Rightarrow> bool" where
  "switches engine s = (case gs_last s of None \<Rightarrow> False | Some i \<Rightarrow> fst (gs_published s ! i) \<noteq> engine)"

definition publish_parts :: "nat \<Rightarrow> nat set \<Rightarrow> nat \<Rightarrow> gpu_stream \<Rightarrow> gpu_stream" where
  "publish_parts engine natives n s =
     (if n = 0 then s
      else s\<lparr>gs_published := gs_published s @ replicate n (engine, natives), gs_last := Some (length (gs_published s) + n - 1)\<rparr>)"

definition stream_submit :: "nat \<Rightarrow> nat set \<Rightarrow> submit_answer \<Rightarrow> gpu_stream \<Rightarrow> unit result \<times> gpu_stream" where
  "stream_submit engine natives a s =
     (case (if switches engine s then sa_wait a else Inr ()) of
        Inl e \<Rightarrow> (Inl e, s)
      | Inr _ \<Rightarrow>
          (case sa_error a of
             None \<Rightarrow> (Inr (), publish_parts engine natives (sa_accepted a) s)
           | Some e \<Rightarrow> (Inl e, publish_parts engine natives (sa_accepted a) s)))"

text \<open>A copy or fill keeps the reservations of its views, prepares its command and submits it.\<close>

definition stream_transfer :: "nat \<Rightarrow> nat set \<Rightarrow> nat set \<Rightarrow> unit result \<Rightarrow> submit_answer \<Rightarrow> gpu_stream \<Rightarrow> unit result \<times> gpu_stream" where
  "stream_transfer engine natives reservations prepared a s =
     (let s1 = s\<lparr>gs_budget_uses := gs_budget_uses s \<union> reservations\<rparr>
      in case prepared of Inl e \<Rightarrow> (Inl e, s1) | Inr _ \<Rightarrow> stream_submit engine natives a s1)"


section \<open>Staging\<close>

text \<open>The index \<open>enumerate().filter(P).min_by_key(f)\<close> finds: the first of the smallest.\<close>

fun min_index :: "('a \<Rightarrow> bool) \<Rightarrow> ('a \<Rightarrow> nat) \<Rightarrow> 'a list \<Rightarrow> nat option" where
  "min_index P f [] = None"
| "min_index P f (x # xs) =
     (case min_index P f xs of
        None \<Rightarrow> if P x then Some 0 else None
      | Some i \<Rightarrow> if P x \<and> f x \<le> f (xs ! i) then Some 0 else Some (Suc i))"

definition bytes_sum :: "pbuffer list \<Rightarrow> nat" where
  "bytes_sum bs = sum_list (map pb_bytes bs)"

function make_room :: "usize \<Rightarrow> pbuffer list \<Rightarrow> usize \<Rightarrow> pbuffer list \<times> usize" where
  "make_room bytes pool cached =
     (if length pool \<ge> 8 \<or> bytes > saturating_sub STAGING_LIMIT cached
      then case min_index (\<lambda>_. True) pb_bytes pool of
             None \<Rightarrow> (pool, cached)
           | Some i \<Rightarrow> make_room bytes (swap_remove i pool) (cached - pb_bytes (pool ! i))
      else (pool, cached))"
  by pat_completeness auto
termination
  by (relation "measure (\<lambda>(bytes, pool, cached). length pool)") (auto split: option.splits elim!: min_index.elims)

declare make_room.simps [simp del]

fun reclaim_loop :: "pbuffer list \<Rightarrow> pbuffer list \<Rightarrow> usize \<Rightarrow> pbuffer list" where
  "reclaim_loop [] pool cached = pool"
| "reclaim_loop (b # bs) pool cached =
     (if pb_bytes b > STAGING_LIMIT then reclaim_loop bs pool cached
      else let (pool1, cached1) = make_room (pb_bytes b) pool cached
           in reclaim_loop bs (pool1 @ [b]) (cached1 + pb_bytes b))"

definition reclaim_staging :: "gpu_stream \<Rightarrow> gpu_stream" where
  "reclaim_staging s =
     s\<lparr>gs_staging := [], gs_staging_pool := reclaim_loop (gs_staging s) (gs_staging_pool s) (bytes_sum (gs_staging_pool s))\<rparr>"

text \<open>\<^verbatim>\<open>Stream::synchronize\<close> and \<^verbatim>\<open>Submission::is_complete\<close>; the answer is that of waiting for or polling the last completion.\<close>

definition synchronize :: "unit result \<Rightarrow> gpu_stream \<Rightarrow> unit result \<times> gpu_stream" where
  "synchronize answer s =
     (case answer of Inl e \<Rightarrow> (Inl e, s) | Inr _ \<Rightarrow> (Inr (), (reclaim_staging s)\<lparr>gs_budget_uses := {}\<rparr>))"

definition submission_is_complete :: "bool result \<Rightarrow> gpu_stream \<Rightarrow> bool result \<times> gpu_stream" where
  "submission_is_complete answer s =
     (case answer of
        Inl e \<Rightarrow> (Inl e, s)
      | Inr finished \<Rightarrow> (Inr finished, if finished then (reclaim_staging s)\<lparr>gs_budget_uses := {}\<rparr> else s))"

definition allocate_staging :: "unit result \<Rightarrow> pbuffer result \<Rightarrow> gpu_stream \<Rightarrow> pbuffer result \<times> gpu_stream" where
  "allocate_staging reserved allocated s =
     (case reserved of
        Inl e \<Rightarrow> (Inl e, s)
      | Inr _ \<Rightarrow>
          (case allocated of
             Inl e \<Rightarrow> (Inl e, s)
           | Inr b \<Rightarrow> (Inr b, s\<lparr>gs_allocated := Suc (pb_id b)\<rparr>)))"

record upload_answer =
  ua_wait :: "unit result"
  ua_reserved :: "unit result"
  ua_allocated :: "pbuffer result"
  ua_written :: "unit result"
  ua_prepared :: "unit result"
  ua_submit :: submit_answer

definition take_staging :: "usize \<Rightarrow> upload_answer \<Rightarrow> gpu_stream \<Rightarrow> pbuffer result \<times> gpu_stream" where
  "take_staging n a s =
     (case min_index (\<lambda>b. pb_bytes b \<ge> n) pb_bytes (gs_staging_pool s) of
        Some i \<Rightarrow> (Inr (gs_staging_pool s ! i), s\<lparr>gs_staging_pool := swap_remove i (gs_staging_pool s)\<rparr>)
      | None \<Rightarrow> allocate_staging (ua_reserved a) (ua_allocated a) s)"

definition staging_full :: "usize \<Rightarrow> gpu_stream \<Rightarrow> bool" where
  "staging_full n s \<longleftrightarrow> length (gs_staging s) \<ge> 8 \<or> saturating_add (bytes_sum (gs_staging s)) n > STAGING_LIMIT"

definition upload_chunk :: "nat \<Rightarrow> nat \<Rightarrow> nat set \<Rightarrow> usize \<Rightarrow> upload_answer \<Rightarrow> gpu_stream \<Rightarrow> unit result \<times> gpu_stream" where
  "upload_chunk engine dst reservations n a s =
     (case (if staging_full n s then synchronize (ua_wait a) s else (Inr (), s)) of
        (Inl e, s1) \<Rightarrow> (Inl e, s1)
      | (Inr _, s1) \<Rightarrow>
          (case take_staging n a s1 of
             (Inl e, s2) \<Rightarrow> (Inl e, s2)
           | (Inr b, s2) \<Rightarrow>
               (case ua_written a of
                  Inl e \<Rightarrow> (Inl e, s2)
                | Inr _ \<Rightarrow>
                    (case stream_transfer engine {dst, pb_id b} reservations (ua_prepared a) (ua_submit a) s2 of
                       (Inl e, s3) \<Rightarrow> (Inl e, s3)
                     | (Inr _, s3) \<Rightarrow> (Inr (), s3\<lparr>gs_staging := gs_staging s3 @ [b]\<rparr>)))))"

text \<open>\<open>bytes.chunks(STAGING_LIMIT)\<close>, as offsets and lengths in the destination view; one answer for each chunk.\<close>

definition upload_chunks :: "usize \<Rightarrow> (usize \<times> usize) list" where
  "upload_chunks n = map (\<lambda>i. (i * STAGING_LIMIT, min (n - i * STAGING_LIMIT) STAGING_LIMIT)) [0..<(n + STAGING_LIMIT - 1) div STAGING_LIMIT]"

fun upload_all :: "nat \<Rightarrow> nat \<Rightarrow> nat set \<Rightarrow> usize \<Rightarrow> ((usize \<times> usize) \<times> upload_answer) list \<Rightarrow> gpu_stream \<Rightarrow> unit result \<times> gpu_stream" where
  "upload_all engine dst reservations view_len [] s = (Inr (), s)"
| "upload_all engine dst reservations view_len (((off, n), a) # rest) s =
     (case checked_span off n view_len of
        Inl e \<Rightarrow> (Inl e, s)
      | Inr _ \<Rightarrow>
          (case upload_chunk engine dst reservations n a s of
             (Inl e, s1) \<Rightarrow> (Inl e, s1)
           | (Inr _, s1) \<Rightarrow> upload_all engine dst reservations view_len rest s1))"

definition stream_upload :: "bool \<Rightarrow> nat \<Rightarrow> nat \<Rightarrow> nat set \<Rightarrow> usize \<Rightarrow> usize \<Rightarrow> upload_answer list \<Rightarrow> gpu_stream \<Rightarrow> unit result \<times> gpu_stream" where
  "stream_upload same_device engine dst reservations view_len n answers s =
     (if \<not> same_device then (Inl (Message ''buffer belongs to another device''), s)
      else case checked_span 0 n view_len of
        Inl e \<Rightarrow> (Inl e, s)
      | Inr _ \<Rightarrow> upload_all engine dst reservations view_len (zip (upload_chunks n) answers) s)"


section \<open>Allocation and scratch\<close>

text \<open>
  \<^verbatim>\<open>allocate_initialized\<close>. \<open>reserved\<close> is the answer of the budget: \<open>Inr True\<close> when a budget is attached and granted the
  bytes. \<open>written\<close> is the answer of writing the initial data, if there is any. With a copy engine the storage is shared host memory.
\<close>

definition stream_allocate ::
  "bool \<Rightarrow> usize \<Rightarrow> bool result \<Rightarrow> pbuffer result \<Rightarrow> unit result \<Rightarrow> gpu_stream \<Rightarrow> pbuffer result \<times> gpu_stream" where
  "stream_allocate sdma bytes reserved allocated written s =
     (case reserved of
        Inl e \<Rightarrow> (Inl e, s)
      | Inr budgeted \<Rightarrow>
          (let reused = (if sdma \<or> budgeted then None else position (\<lambda>b. pb_bytes b = bytes) (gs_free s));
               found = (case reused of
                   Some i \<Rightarrow> (Inr (gs_free s ! i), s\<lparr>gs_free := swap_remove i (gs_free s)\<rparr>)
                 | None \<Rightarrow> (case allocated of Inl e \<Rightarrow> (Inl e, s) | Inr b \<Rightarrow> (Inr b, s\<lparr>gs_allocated := Suc (pb_id b)\<rparr>)))
           in case found of
                (Inl e, s1) \<Rightarrow> (Inl e, s1)
              | (Inr b, s1) \<Rightarrow> (case written of Inl e \<Rightarrow> (Inl e, s1) | Inr _ \<Rightarrow> (Inr b, s1))))"

text \<open>Dropping a buffer: its native allocation may enter the free pool. \<open>exclusive\<close> is the answer of \<open>exclusively_owned\<close>.\<close>

definition buffer_drop :: "bool \<Rightarrow> bool \<Rightarrow> bool \<Rightarrow> pbuffer \<Rightarrow> gpu_stream \<Rightarrow> gpu_stream" where
  "buffer_drop poolable reserved exclusive b s =
     (if poolable \<and> \<not> reserved \<and> exclusive \<and> pb_bytes b \<le> 64 * 1024 * 1024
         \<and> length (gs_free s) < 16 \<and> pb_bytes b \<le> saturating_sub (64 * 1024 * 1024) (bytes_sum (gs_free s))
      then s\<lparr>gs_free := gs_free s @ [b]\<rparr> else s)"

definition stream_scratch :: "usize \<Rightarrow> (gpu_stream \<Rightarrow> pbuffer result \<times> gpu_stream) \<Rightarrow> gpu_stream \<Rightarrow> pbuffer result \<times> gpu_stream" where
  "stream_scratch bytes allocate s =
     (case first_in_range (max bytes 1) (max (saturating_mul bytes 2) 1) (gs_scratch s) of
        Some (sz, xs) \<Rightarrow>
          (Inr (List.last xs), s\<lparr>gs_scratch := pop_block sz (gs_scratch s), gs_scratch_bytes := gs_scratch_bytes s - pb_bytes (List.last xs)\<rparr>)
      | None \<Rightarrow> allocate s)"

definition stream_recycle :: "bool \<Rightarrow> pbuffer \<Rightarrow> gpu_stream \<Rightarrow> unit result \<times> gpu_stream" where
  "stream_recycle own b s =
     (if \<not> own then (Inl (Message ''scratch belongs to another stream''), s)
      else if pb_bytes b \<le> saturating_sub (gs_scratch_limit s) (gs_scratch_bytes s)
      then (Inr (), s\<lparr>gs_scratch_bytes := gs_scratch_bytes s + pb_bytes b, gs_scratch := push_block (pb_bytes b) b (gs_scratch s)\<rparr>)
      else (Inr (), s))"

function evict_scratch :: "usize \<Rightarrow> blocks \<Rightarrow> usize \<Rightarrow> blocks \<times> usize" where
  "evict_scratch bytes bs held =
     (if held > bytes \<and> bs \<noteq> []
      then evict_scratch bytes (butlast bs) (held - bytes_sum (snd (List.last bs)))
      else (bs, held))"
  by pat_completeness auto
termination by (relation "measure (\<lambda>(bytes, bs, held). length bs)") auto

declare evict_scratch.simps [simp del]

definition set_scratch_limit :: "usize \<Rightarrow> gpu_stream \<Rightarrow> gpu_stream" where
  "set_scratch_limit bytes s =
     (let (bs, held) = evict_scratch bytes (gs_scratch s) (gs_scratch_bytes s)
      in s\<lparr>gs_scratch_limit := bytes, gs_scratch := bs, gs_scratch_bytes := held\<rparr>)"


section \<open>Readback, events and prepared graphs\<close>

definition stream_read :: "nat \<Rightarrow> nat \<Rightarrow> nat set \<Rightarrow> usize \<Rightarrow> upload_answer \<Rightarrow> gpu_stream \<Rightarrow> (pbuffer \<times> usize) result \<times> gpu_stream" where
  "stream_read engine src reservations n a s =
     (case allocate_staging (ua_reserved a) (ua_allocated a) s of
        (Inl e, s1) \<Rightarrow> (Inl e, s1)
      | (Inr b, s1) \<Rightarrow>
          (if n = 0 then (Inr (b, n), s1)
           else case stream_transfer engine {src, pb_id b} reservations (ua_prepared a) (ua_submit a) s1 of
             (Inl e, s2) \<Rightarrow> (Inl e, s2)
           | (Inr _, s2) \<Rightarrow> (Inr (b, n), s2)))"

definition readback_wait :: "bool \<Rightarrow> unit result \<Rightarrow> 'a result \<Rightarrow> gpu_stream \<Rightarrow> 'a result \<times> gpu_stream" where
  "readback_wait own answer contents s =
     (if \<not> own then (Inl (Message ''readback belongs to another stream''), s)
      else case synchronize answer s of (Inl e, s1) \<Rightarrow> (Inl e, s1) | (Inr _, s1) \<Rightarrow> (contents, s1))"

text \<open>
  An event is the last completion of a stream with its engine. Waiting for one submits a device-side wait when both sides are the
  compute queue, else it waits on the host.
\<close>

definition record_event :: "gpu_stream \<Rightarrow> (nat \<times> nat) option" where
  "record_event s = map_option (\<lambda>i. (i, fst (gs_published s ! i))) (gs_last s)"

definition wait_event ::
  "bool \<Rightarrow> bool \<Rightarrow> bool \<Rightarrow> (nat \<times> nat) option \<Rightarrow> unit result \<Rightarrow> unit result \<Rightarrow> submit_answer \<Rightarrow> gpu_stream \<Rightarrow> unit result \<times> gpu_stream" where
  "wait_event same_device aql sdma event waited prepared a s =
     (if \<not> same_device then (Inl (Message ''event belongs to another device''), s)
      else case event of
        None \<Rightarrow> (Inr (), s)
      | Some (i, engine) \<Rightarrow>
          if engine = 0 \<and> \<not> aql \<and> \<not> sdma
          then (case prepared of Inl e \<Rightarrow> (Inl e, s) | Inr _ \<Rightarrow> stream_submit 0 {} a s)
          else (waited, s))"

record graph_exec =
  ge_commands :: "(nat \<times> nat set) list"
  ge_failed :: bool
  ge_last :: "nat option"

fun launch_all :: "((nat \<times> nat set) \<times> submit_answer) list \<Rightarrow> gpu_stream \<Rightarrow> unit result \<times> gpu_stream" where
  "launch_all [] s = (Inr (), s)"
| "launch_all (((engine, natives), a) # rest) s =
     (case stream_submit engine natives a s of (Inl e, s1) \<Rightarrow> (Inl e, s1) | (Inr _, s1) \<Rightarrow> launch_all rest s1)"

definition stream_launch :: "bool \<Rightarrow> submit_answer list \<Rightarrow> graph_exec \<Rightarrow> gpu_stream \<Rightarrow> unit result \<times> graph_exec \<times> gpu_stream" where
  "stream_launch own answers g s =
     (if \<not> own then (Inl (Message ''graph belongs to another stream''), g, s)
      else if ge_failed g then (Inl (DeviceLost ''graph has an unretired failed launch''), g, s)
      else case launch_all (zip (ge_commands g) answers) s of
        (Inl e, s1) \<Rightarrow> (Inl e, g\<lparr>ge_failed := True\<rparr>, s1)
      | (Inr _, s1) \<Rightarrow> (Inr (), g\<lparr>ge_failed := False, ge_last := gs_last s1\<rparr>, s1))"


section \<open>The timeline\<close>

definition engine_at :: "gpu_stream \<Rightarrow> nat \<Rightarrow> nat" where
  "engine_at s i = fst (gs_published s ! i)"

definition drained :: "gpu_stream \<Rightarrow> bool" where
  "drained s \<longleftrightarrow> (case gs_last s of None \<Rightarrow> True | Some i \<Rightarrow> i \<in> gs_retired s)"

definition unretired :: "gpu_stream \<Rightarrow> nat \<Rightarrow> bool" where
  "unretired s i \<longleftrightarrow> i < length (gs_published s) \<and> i \<notin> gs_retired s"

text \<open>The last completion is that of the last published part; one engine retires in order; all unretired parts are on one engine.\<close>

definition timeline_ok :: "gpu_stream \<Rightarrow> bool" where
  "timeline_ok s \<longleftrightarrow>
     gs_last s = (if gs_published s = [] then None else Some (length (gs_published s) - 1))
     \<and> (\<forall>i\<in>gs_retired s. \<forall>j<i. engine_at s j = engine_at s i \<longrightarrow> j \<in> gs_retired s)
     \<and> (\<forall>i. unretired s i \<longrightarrow> engine_at s i = engine_at s (length (gs_published s) - 1))
     \<and> gs_retired s \<subseteq> {..<length (gs_published s)}"

lemma drained_all:
  assumes "timeline_ok s" "drained s"
  shows "\<not> unretired s i"
proof
  assume u: "unretired s i"
  then have ne: "gs_published s \<noteq> []" by (auto simp: unretired_def)
  define l where "l = length (gs_published s) - 1"
  have l: "l \<in> gs_retired s" using assms ne by (simp add: timeline_ok_def drained_def l_def)
  have same: "engine_at s i = engine_at s l" using assms(1) u by (simp add: timeline_ok_def l_def)
  have "i \<noteq> l" "i \<le> l" using u l by (auto simp: unretired_def l_def)
  then have "i \<in> gs_retired s" using assms(1) l same by (simp add: timeline_ok_def)
  then show False using u by (simp add: unretired_def)
qed

lemma publish_parts_ok:
  assumes ok: "timeline_ok s" and wait: "switches engine s \<Longrightarrow> drained s"
  shows "timeline_ok (publish_parts engine natives n s)"
proof (cases "n = 0")
  case False
  let ?t = "publish_parts engine natives n s" and ?k = "length (gs_published s)"
  have t: "gs_published ?t = gs_published s @ replicate n (engine, natives)" "gs_retired ?t = gs_retired s" "gs_last ?t = Some (?k + n - 1)"
    using False by (simp_all add: publish_parts_def)
  have old: "engine_at ?t i = engine_at s i" if "i < ?k" for i using that by (simp add: engine_at_def t nth_append)
  have new: "engine_at ?t i = engine" if "?k \<le> i" "i < ?k + n" for i using that by (simp add: engine_at_def t nth_append)
  have sub: "gs_retired s \<subseteq> {..<?k}" using ok by (simp add: timeline_ok_def)
  have top: "engine_at ?t (length (gs_published ?t) - 1) = engine" using new [of "?k + n - 1"] False by (simp add: t)
  have "engine_at ?t i = engine" if u: "unretired ?t i" for i
  proof (cases "i < ?k")
    case True
    then have us: "unretired s i" using u by (simp add: unretired_def t)
    have "\<not> switches engine s" using drained_all [OF ok wait] us by blast
    moreover have "engine_at s i = engine_at s (?k - 1)" "gs_last s = Some (?k - 1)" using ok us True by (auto simp: timeline_ok_def)
    ultimately show ?thesis using old [OF True] by (simp add: switches_def engine_at_def)
  next
    case False
    then show ?thesis using new u by (simp add: unretired_def t)
  qed
  note engines = this
  have "j \<in> gs_retired s" if i: "i \<in> gs_retired s" "j < i" "engine_at ?t j = engine_at ?t i" for i j
  proof -
    have "i < ?k" using i(1) sub by auto
    then have "engine_at s j = engine_at s i" using old i(2,3) by simp
    then show ?thesis using ok i(1,2) by (simp add: timeline_ok_def)
  qed
  moreover have "gs_last ?t = (if gs_published ?t = [] then None else Some (length (gs_published ?t) - 1))" using False by (simp add: t)
  moreover have "gs_retired ?t \<subseteq> {..<length (gs_published ?t)}" using sub by (auto simp: t)
  ultimately show ?thesis using engines top unfolding timeline_ok_def t(2) by simp
qed (use ok in \<open>simp add: publish_parts_def\<close>)


section \<open>Pools\<close>

lemma min_index_Some:
  "min_index P f xs = Some i \<Longrightarrow> i < length xs \<and> P (xs ! i) \<and> (\<forall>x\<in>set xs. P x \<longrightarrow> f (xs ! i) \<le> f x)"
proof (induction xs arbitrary: i)
  case (Cons x xs)
  show ?case
  proof (cases "min_index P f xs")
    case None
    have "\<not> P y" if "y \<in> set xs" for y using None that
      by (induction xs) (auto split: option.splits if_splits)
    then show ?thesis using None Cons.prems by (auto split: if_splits)
  next
    case (Some j)
    then show ?thesis using Cons.IH [OF Some] Cons.prems by (fastforce split: if_splits)
  qed
qed simp

lemma bytes_sum_simps [simp]: "bytes_sum [] = 0" "bytes_sum (b # bs) = pb_bytes b + bytes_sum bs" "bytes_sum (xs @ ys) = bytes_sum xs + bytes_sum ys"
  by (simp_all add: bytes_sum_def)

lemma bytes_sum_mset: "mset xs = mset ys \<Longrightarrow> bytes_sum xs = bytes_sum ys"
  unfolding bytes_sum_def by (metis mset_map sum_mset_sum_list)

lemma bytes_sum_swap_remove: "i < length xs \<Longrightarrow> bytes_sum xs = pb_bytes (xs ! i) + bytes_sum (swap_remove i xs)"
  using bytes_sum_mset [of xs "xs ! i # swap_remove i xs"] mset_swap_remove [of i xs] by simp

lemma make_room_ok:
  assumes "cached = bytes_sum pool" "bytes \<le> STAGING_LIMIT" "cached \<le> STAGING_LIMIT" "make_room bytes pool cached = (pool', cached')"
  shows "mset pool' \<subseteq># mset pool \<and> cached' = bytes_sum pool' \<and> length pool' < 8 \<and> bytes + cached' \<le> STAGING_LIMIT"
  using assms
proof (induction bytes pool cached rule: make_room.induct)
  case (1 bytes pool cached)
  show ?case
  proof (cases "length pool \<ge> 8 \<or> bytes > saturating_sub STAGING_LIMIT cached")
    case False
    then have "make_room bytes pool cached = (pool, cached)" by (subst make_room.simps) simp
    then show ?thesis using "1.prems" False by (auto simp: saturating_sub_def)
  next
    case True
    show ?thesis
    proof (cases "min_index (\<lambda>_. True) pb_bytes pool")
      case None
      then have "pool = []" by (cases pool) (auto split: option.splits if_splits)
      then show ?thesis using True "1.prems"(1,2) by (simp add: saturating_sub_def)
    next
      case (Some i)
      have i: "i < length pool" using min_index_Some [OF Some] by simp
      have sum: "cached - pb_bytes (pool ! i) = bytes_sum (swap_remove i pool)" using "1.prems"(1) bytes_sum_swap_remove [OF i] by simp
      have "make_room bytes pool cached = make_room bytes (swap_remove i pool) (cached - pb_bytes (pool ! i))"
        using True Some by (subst make_room.simps) simp
      then have rec: "make_room bytes (swap_remove i pool) (cached - pb_bytes (pool ! i)) = (pool', cached')" using "1.prems"(4) by simp
      have le: "cached - pb_bytes (pool ! i) \<le> STAGING_LIMIT" using "1.prems"(3) by linarith
      note ih = "1.IH" [OF True Some sum "1.prems"(2) le rec]
      then have "mset pool' \<subseteq># mset pool" using swap_remove_subset [OF i] subset_mset.order_trans by blast
      then show ?thesis using ih by simp
    qed
  qed
qed

lemma reclaim_loop_ok:
  assumes "cached = bytes_sum pool" "length pool \<le> 8" "cached \<le> STAGING_LIMIT"
  shows "mset (reclaim_loop bs pool cached) \<subseteq># mset (bs @ pool) \<and> length (reclaim_loop bs pool cached) \<le> 8 \<and> bytes_sum (reclaim_loop bs pool cached) \<le> STAGING_LIMIT"
  using assms
proof (induction bs arbitrary: pool cached)
  case Nil
  then show ?case by simp
next
  case (Cons b bs)
  show ?case
  proof (cases "pb_bytes b > STAGING_LIMIT")
    case True
    have "mset (bs @ pool) \<subseteq># mset ((b # bs) @ pool)" by simp
    with Cons.IH [OF Cons.prems] have "mset (reclaim_loop bs pool cached) \<subseteq># mset ((b # bs) @ pool)" using subset_mset.order_trans by blast
    then show ?thesis using Cons.IH [OF Cons.prems] True by simp
  next
    case False
    obtain pool1 cached1 where room: "make_room (pb_bytes b) pool cached = (pool1, cached1)" by fastforce
    have r: "mset pool1 \<subseteq># mset pool" "cached1 = bytes_sum pool1" "length pool1 < 8" "pb_bytes b + cached1 \<le> STAGING_LIMIT"
      using make_room_ok [OF Cons.prems(1) _ Cons.prems(3) room] False by auto
    have ih: "mset (reclaim_loop bs (pool1 @ [b]) (cached1 + pb_bytes b)) \<subseteq># mset (bs @ pool1 @ [b])
        \<and> length (reclaim_loop bs (pool1 @ [b]) (cached1 + pb_bytes b)) \<le> 8 \<and> bytes_sum (reclaim_loop bs (pool1 @ [b]) (cached1 + pb_bytes b)) \<le> STAGING_LIMIT"
      by (rule Cons.IH) (use r in auto)
    have "mset (bs @ pool1 @ [b]) \<subseteq># mset ((b # bs) @ pool)" using r(1) by (simp add: subset_mset.add_left_mono)
    with ih have "mset (reclaim_loop bs (pool1 @ [b]) (cached1 + pb_bytes b)) \<subseteq># mset ((b # bs) @ pool)" using subset_mset.order_trans by blast
    then show ?thesis using ih room False by simp
  qed
qed

text \<open>A pool is never larger than its bound while its buffers stay private to it.\<close>

definition internal :: "gpu_stream \<Rightarrow> pbuffer list" where
  "internal s = gs_staging s @ gs_staging_pool s @ gs_free s @ stacked (gs_scratch s)"

definition idle :: "gpu_stream \<Rightarrow> pbuffer list" where
  "idle s = gs_staging_pool s @ gs_free s"

definition bounds_ok :: "gpu_stream \<Rightarrow> bool" where
  "bounds_ok s \<longleftrightarrow>
     length (gs_staging s) \<le> 8 \<and> bytes_sum (gs_staging s) \<le> 2 * STAGING_LIMIT \<and> (\<forall>b\<in>set (gs_staging s). pb_bytes b \<le> STAGING_LIMIT)
     \<and> length (gs_staging_pool s) \<le> 8 \<and> bytes_sum (gs_staging_pool s) \<le> STAGING_LIMIT
     \<and> length (gs_free s) \<le> 16 \<and> bytes_sum (gs_free s) \<le> 64 * 1024 * 1024
     \<and> blocks_ok (gs_scratch s) \<and> gs_scratch_bytes s = bytes_sum (stacked (gs_scratch s)) \<and> gs_scratch_bytes s \<le> gs_scratch_limit s"

definition uses_ok :: "gpu_stream \<Rightarrow> bool" where
  "uses_ok s \<longleftrightarrow>
     distinct (map pb_id (internal s)) \<and> (\<forall>b\<in>set (internal s). pb_id b < gs_allocated s)
     \<and> (\<forall>p\<in>set (gs_published s). \<forall>x\<in>snd p. x < gs_allocated s)
     \<and> (\<forall>i. unretired s i \<longrightarrow> snd (gs_published s ! i) \<inter> pb_id ` set (idle s) = {})"

definition stream_ok :: "gpu_stream \<Rightarrow> bool" where
  "stream_ok s \<longleftrightarrow> timeline_ok s \<and> uses_ok s \<and> bounds_ok s"

lemma stream_okD:
  assumes "stream_ok s"
  shows "timeline_ok s" "bounds_ok s" "distinct (map pb_id (internal s))" "b \<in> set (internal s) \<Longrightarrow> pb_id b < gs_allocated s"
    "p \<in> set (gs_published s) \<Longrightarrow> x \<in> snd p \<Longrightarrow> x < gs_allocated s"
    "unretired s i \<Longrightarrow> snd (gs_published s ! i) \<inter> pb_id ` set (idle s) = {}"
  using assms by (simp_all add: stream_ok_def uses_ok_def)

lemma stream_okI:
  assumes "stream_ok s" "gs_published t = gs_published s" "gs_retired t = gs_retired s" "gs_last t = gs_last s" "gs_allocated s \<le> gs_allocated t"
    "distinct (map pb_id (internal t))" "\<forall>b\<in>set (internal t). pb_id b < gs_allocated t"
    "\<And>i. unretired s i \<Longrightarrow> snd (gs_published s ! i) \<inter> pb_id ` set (idle t) = {}" "bounds_ok t"
  shows "stream_ok t"
proof -
  have "timeline_ok t" using stream_okD(1) [OF assms(1)] unfolding timeline_ok_def engine_at_def unretired_def assms(2-4) .
  moreover have "\<forall>p\<in>set (gs_published t). \<forall>x\<in>snd p. x < gs_allocated t"
    using stream_okD(5) [OF assms(1)] assms(2,5) order.strict_trans2 by metis
  moreover have "unretired t i = unretired s i" for i using assms(2,3) by (simp add: unretired_def)
  ultimately show ?thesis using assms(2,6-9) by (simp add: stream_ok_def uses_ok_def)
qed

text \<open>Operations that only take buffers away from the pools.\<close>

lemma stream_ok_shrink:
  assumes s: "stream_ok s" and same: "gs_published t = gs_published s" "gs_retired t = gs_retired s" "gs_last t = gs_last s" "gs_allocated s \<le> gs_allocated t"
    and sub: "mset (internal t) \<subseteq># mset (internal s)" "set (idle t) \<subseteq> set (idle s)" and bounds: "bounds_ok t"
  shows "stream_ok t"
proof (rule stream_okI [OF s same])
  show "distinct (map pb_id (internal t))" by (rule distinct_map_subset [OF stream_okD(3) [OF s] sub(1)])
  have inside: "set (internal t) \<subseteq> set (internal s)" using set_mset_mono [OF sub(1)] by simp
  show "\<forall>b\<in>set (internal t). pb_id b < gs_allocated t"
  proof
    fix b assume "b \<in> set (internal t)"
    then have "pb_id b < gs_allocated s" using inside stream_okD(4) [OF s] by blast
    then show "pb_id b < gs_allocated t" using same(4) by linarith
  qed
  show "snd (gs_published s ! i) \<inter> pb_id ` set (idle t) = {}" if "unretired s i" for i
    using stream_okD(6) [OF s that] sub(2) by blast
qed (rule bounds)

definition answer_ok :: "nat \<Rightarrow> submit_answer \<Rightarrow> gpu_stream \<Rightarrow> bool" where
  "answer_ok engine a s \<longleftrightarrow> (switches engine s \<and> sa_wait a = Inr () \<longrightarrow> drained s) \<and> (sa_error a = None \<longrightarrow> 0 < sa_accepted a)"

definition same_pools :: "gpu_stream \<Rightarrow> gpu_stream \<Rightarrow> bool" where
  "same_pools s t \<longleftrightarrow> gs_staging t = gs_staging s \<and> gs_staging_pool t = gs_staging_pool s \<and> gs_free t = gs_free s \<and> gs_scratch t = gs_scratch s
     \<and> gs_scratch_bytes t = gs_scratch_bytes s \<and> gs_scratch_limit t = gs_scratch_limit s \<and> gs_allocated t = gs_allocated s"

lemma submit_ok:
  assumes s: "stream_ok s" and a: "answer_ok engine a s" and natives: "\<forall>x\<in>natives. x < gs_allocated s" "natives \<inter> pb_id ` set (idle s) = {}"
    and t: "stream_submit engine natives a s = (r, t)"
  shows "stream_ok t \<and> same_pools s t"
proof (cases "switches engine s \<and> sa_wait a \<noteq> Inr ()")
  case True
  then have "t = s" using t by (auto simp: stream_submit_def split: sum.splits)
  then show ?thesis using s by (simp add: same_pools_def)
next
  case False
  let ?p = "publish_parts engine natives (sa_accepted a) s"
  have "(if switches engine s then sa_wait a else Inr ()) = Inr ()" using False by auto
  then have t': "t = ?p" using t by (auto simp: stream_submit_def split: option.splits)
  have pools: "same_pools s ?p" by (simp add: publish_parts_def same_pools_def)
  have "timeline_ok ?p" using s a False by (intro publish_parts_ok) (auto simp: stream_ok_def answer_ok_def)
  moreover have same: "internal ?p = internal s" "idle ?p = idle s" "gs_allocated ?p = gs_allocated s" "gs_retired ?p = gs_retired s"
    by (simp_all add: publish_parts_def internal_def idle_def)
  moreover have "bounds_ok ?p" using s pools by (simp add: stream_ok_def bounds_ok_def same_pools_def)
  moreover have "snd (gs_published ?p ! i) \<inter> pb_id ` set (idle s) = {}" if u: "unretired ?p i" for i
  proof (cases "i < length (gs_published s)")
    case True
    then have "unretired s i" "gs_published ?p ! i = gs_published s ! i" using u same(4) by (auto simp: unretired_def publish_parts_def nth_append)
    then show ?thesis using s by (simp add: stream_ok_def uses_ok_def)
  next
    case False
    then have "gs_published ?p ! i = (engine, natives)" using u by (auto simp: unretired_def publish_parts_def nth_append split: if_splits)
    then show ?thesis using natives(2) by simp
  qed
  moreover have "\<forall>p\<in>set (gs_published ?p). \<forall>x\<in>snd p. x < gs_allocated s"
    using s natives(1) by (auto simp: stream_ok_def uses_ok_def publish_parts_def split: if_splits)
  ultimately have "stream_ok ?p" using s by (simp add: stream_ok_def uses_ok_def)
  then show ?thesis using pools t' by simp
qed

lemmas pool_defs = internal_def idle_def bounds_ok_def

lemma budget_ok: "stream_ok s \<Longrightarrow> stream_ok (s\<lparr>gs_budget_uses := X\<rparr>)"
  by (rule stream_ok_shrink) (auto simp: pool_defs dest: stream_okD(2))

lemma same_pools_budget: "same_pools s (s\<lparr>gs_budget_uses := X\<rparr>)"
  by (simp add: same_pools_def)

lemma answer_ok_frame:
  "gs_published t = gs_published s \<Longrightarrow> gs_retired t = gs_retired s \<Longrightarrow> gs_last t = gs_last s \<Longrightarrow> answer_ok engine a t = answer_ok engine a s"
  unfolding answer_ok_def switches_def drained_def by (simp cong: option.case_cong)

lemma transfer_ok:
  assumes s: "stream_ok s" and a: "answer_ok engine a s" and natives: "\<forall>x\<in>natives. x < gs_allocated s" "natives \<inter> pb_id ` set (idle s) = {}"
    and t: "stream_transfer engine natives reservations prepared a s = (r, t)"
  shows "stream_ok t \<and> same_pools s t"
proof -
  let ?s = "s\<lparr>gs_budget_uses := gs_budget_uses s \<union> reservations\<rparr>"
  show ?thesis
  proof (cases prepared)
    case (Inl e)
    then have "t = ?s" using t by (simp add: stream_transfer_def Let_def)
    then show ?thesis using budget_ok [OF s] same_pools_budget by simp
  next
    case (Inr u)
    then have run: "stream_submit engine natives a ?s = (r, t)" using t by (simp add: stream_transfer_def Let_def)
    have "answer_ok engine a ?s" using a answer_ok_frame [of ?s s] by simp
    from submit_ok [OF budget_ok [OF s] this _ _ run] show ?thesis using natives by (simp add: same_pools_def idle_def)
  qed
qed

text \<open>Reclaiming staging needs a drained stream: then nothing published still reads it.\<close>

lemma reclaim_ok:
  assumes s: "stream_ok s" and drained: "drained s"
  shows "stream_ok ((reclaim_staging s)\<lparr>gs_budget_uses := X\<rparr>)"
proof -
  let ?pool = "reclaim_loop (gs_staging s) (gs_staging_pool s) (bytes_sum (gs_staging_pool s))" and ?t = "(reclaim_staging s)\<lparr>gs_budget_uses := X\<rparr>"
  have b: "bounds_ok s" by (rule stream_okD(2) [OF s])
  have loop: "mset ?pool \<subseteq># mset (gs_staging s @ gs_staging_pool s)" "length ?pool \<le> 8" "bytes_sum ?pool \<le> STAGING_LIMIT"
    using reclaim_loop_ok [of "bytes_sum (gs_staging_pool s)" "gs_staging_pool s" "gs_staging s"] b by (simp_all add: bounds_ok_def)
  have sub: "mset (internal ?t) \<subseteq># mset (internal s)"
    using loop(1) by (simp add: internal_def reclaim_staging_def subset_mset.add_right_mono add.assoc [symmetric])
  have inside: "set (internal ?t) \<subseteq> set (internal s)" using set_mset_mono [OF sub] by simp
  show ?thesis
  proof (rule stream_okI [OF s])
    show "distinct (map pb_id (internal ?t))" by (rule distinct_map_subset [OF stream_okD(3) [OF s] sub])
    show "\<forall>b\<in>set (internal ?t). pb_id b < gs_allocated ?t" using inside stream_okD(4) [OF s] by (auto simp: reclaim_staging_def)
    show "snd (gs_published s ! i) \<inter> pb_id ` set (idle ?t) = {}" if "unretired s i" for i
      using drained_all [OF stream_okD(1) [OF s] drained] that by blast
    show "bounds_ok ?t" using b loop by (simp add: bounds_ok_def reclaim_staging_def)
  qed (simp_all add: reclaim_staging_def)
qed

lemma synchronize_ok:
  assumes "stream_ok s" "answer = Inr () \<Longrightarrow> drained s" "synchronize answer s = (r, t)"
  shows "stream_ok t \<and> gs_published t = gs_published s \<and> gs_retired t = gs_retired s \<and> gs_last t = gs_last s \<and> gs_allocated t = gs_allocated s
    \<and> set (internal t) \<subseteq> set (internal s) \<and> (r = Inr () \<longrightarrow> gs_staging t = [])"
proof (cases answer)
  case (Inl e)
  then show ?thesis using assms by (auto simp: synchronize_def)
next
  case (Inr u)
  then have t: "t = (reclaim_staging s)\<lparr>gs_budget_uses := {}\<rparr>" using assms(3) by (simp add: synchronize_def)
  have ok: "stream_ok t" unfolding t using reclaim_ok assms(1,2) Inr by simp
  have "bounds_ok s" by (rule stream_okD(2) [OF assms(1)])
  then have "mset (reclaim_loop (gs_staging s) (gs_staging_pool s) (bytes_sum (gs_staging_pool s))) \<subseteq># mset (gs_staging s @ gs_staging_pool s)"
    using reclaim_loop_ok [of "bytes_sum (gs_staging_pool s)" "gs_staging_pool s" "gs_staging s"] by (simp add: bounds_ok_def)
  from set_mset_mono [OF this] have "set (internal t) \<subseteq> set (internal s)" by (auto simp: t internal_def reclaim_staging_def)
  then show ?thesis using ok by (simp add: t reclaim_staging_def)
qed

text \<open>Taking a staging buffer removes it from the pool or allocates a fresh one.\<close>

definition fresh_answer :: "usize \<Rightarrow> pbuffer result \<Rightarrow> gpu_stream \<Rightarrow> bool" where
  "fresh_answer n allocated s \<longleftrightarrow> (\<forall>b. allocated = Inr b \<longrightarrow> pb_id b = gs_allocated s \<and> pb_bytes b = n)"

lemma fresh_ok: "stream_ok s \<Longrightarrow> stream_ok (s\<lparr>gs_allocated := Suc (gs_allocated s)\<rparr>)"
  by (rule stream_ok_shrink) (auto simp: pool_defs dest: stream_okD(2))

lemma allocate_staging_ok:
  assumes s: "stream_ok s" and fresh: "fresh_answer n allocated s" and t: "allocate_staging reserved allocated s = (r, t)"
  shows "stream_ok t \<and> internal t = internal s \<and> idle t = idle s \<and> gs_published t = gs_published s \<and> gs_retired t = gs_retired s \<and> gs_last t = gs_last s \<and> gs_allocated s \<le> gs_allocated t
    \<and> gs_staging t = gs_staging s \<and> (\<forall>b. r = Inr b \<longrightarrow> pb_id b < gs_allocated t \<and> gs_allocated s \<le> pb_id b \<and> pb_bytes b = n)"
proof (cases "reserved = Inr () \<and> (\<exists>b. allocated = Inr b)")
  case True
  then obtain b where b: "allocated = Inr b" "pb_id b = gs_allocated s" "pb_bytes b = n" using fresh by (auto simp: fresh_answer_def)
  then have "t = s\<lparr>gs_allocated := Suc (gs_allocated s)\<rparr>" "r = Inr b" using t True by (simp_all add: allocate_staging_def)
  then show ?thesis using fresh_ok [OF s] b by (simp add: internal_def idle_def)
next
  case False
  then have "t = s" "\<nexists>b. r = Inr b" using t by (auto simp: allocate_staging_def split: sum.splits)
  then show ?thesis using s by simp
qed

lemma take_staging_ok:
  assumes s: "stream_ok s" and fresh: "fresh_answer n (ua_allocated a) s" and n: "n \<le> STAGING_LIMIT" and t: "take_staging n a s = (r, t)"
  shows "stream_ok t \<and> set (internal t) \<subseteq> set (internal s) \<and> gs_published t = gs_published s \<and> gs_retired t = gs_retired s \<and> gs_last t = gs_last s \<and> gs_allocated s \<le> gs_allocated t
    \<and> gs_staging t = gs_staging s
    \<and> (\<forall>b. r = Inr b \<longrightarrow> pb_id b < gs_allocated t \<and> pb_id b \<notin> pb_id ` set (internal t) \<and> n \<le> pb_bytes b \<and> pb_bytes b \<le> STAGING_LIMIT
          \<and> (b \<in> set (internal s) \<or> gs_allocated s \<le> pb_id b))"
proof (cases "min_index (\<lambda>b. pb_bytes b \<ge> n) pb_bytes (gs_staging_pool s)")
  case None
  then have t': "allocate_staging (ua_reserved a) (ua_allocated a) s = (r, t)" using t by (simp add: take_staging_def)
  note al = allocate_staging_ok [OF s fresh t']
  have "pb_id b \<notin> pb_id ` set (internal s)" if "gs_allocated s \<le> pb_id b" for b
    using stream_okD(4) [OF s] that by fastforce
  then show ?thesis using al n by auto
next
  case (Some i)
  let ?b = "gs_staging_pool s ! i" and ?pool = "swap_remove i (gs_staging_pool s)"
  have i: "i < length (gs_staging_pool s)" "n \<le> pb_bytes ?b" using min_index_Some [OF Some] by simp_all
  have t': "t = s\<lparr>gs_staging_pool := ?pool\<rparr>" "r = Inr ?b" using t Some by (simp_all add: take_staging_def)
  have ms: "mset (internal s) = add_mset ?b (mset (internal t))" using mset_swap_remove [OF i(1)] by (simp add: t' internal_def)
  have b: "bounds_ok s" by (rule stream_okD(2) [OF s])
  have sum: "bytes_sum (gs_staging_pool s) = pb_bytes ?b + bytes_sum ?pool" by (rule bytes_sum_swap_remove [OF i(1)])
  have "set ?pool \<subseteq> set (gs_staging_pool s)" using set_mset_mono [OF swap_remove_subset [OF i(1)]] by simp
  then have "set (idle t) \<subseteq> set (idle s)" by (auto simp: t' idle_def)
  moreover have "bounds_ok t" using b sum by (auto simp: t' bounds_ok_def)
  moreover have "mset (internal t) \<subseteq># mset (internal s)" by (simp add: ms)
  ultimately have ok: "stream_ok t" using s by (intro stream_ok_shrink [OF s]) (simp_all add: t')
  have "distinct (map pb_id (?b # internal t))"
    using stream_okD(3) [OF s] ms mset_eq_imp_distinct_iff [of "map pb_id (internal s)" "map pb_id (?b # internal t)"] by simp
  then have "pb_id ?b \<notin> pb_id ` set (internal t)" by simp
  moreover have mem: "?b \<in> set (internal s)" using i(1) by (simp add: internal_def)
  moreover have "set (internal t) \<subseteq> set (internal s)" using arg_cong [OF ms, of set_mset] by auto
  ultimately show ?thesis using ok stream_okD(4) [OF s mem] i(2) sum b by (simp add: t' bounds_ok_def)
qed

lemma push_staging_ok:
  assumes s: "stream_ok s" and b: "pb_id b < gs_allocated s" "pb_id b \<notin> pb_id ` set (internal s)" "pb_bytes b \<le> STAGING_LIMIT"
    and room: "length (gs_staging s) < 8" "bytes_sum (gs_staging s) \<le> STAGING_LIMIT"
  shows "stream_ok (s\<lparr>gs_staging := gs_staging s @ [b]\<rparr>)"
proof (rule stream_okI [OF s])
  let ?t = "s\<lparr>gs_staging := gs_staging s @ [b]\<rparr>"
  have ms: "mset (map pb_id (internal ?t)) = mset (map pb_id (b # internal s))" by (simp add: internal_def)
  have "distinct (map pb_id (b # internal s))" using stream_okD(3) [OF s] b(2) by simp
  then show "distinct (map pb_id (internal ?t))" using ms mset_eq_imp_distinct_iff by blast
  have "set (internal ?t) = insert b (set (internal s))" by (auto simp: internal_def)
  then show "\<forall>x\<in>set (internal ?t). pb_id x < gs_allocated ?t" using stream_okD(4) [OF s] b(1) by simp
  show "snd (gs_published s ! i) \<inter> pb_id ` set (idle ?t) = {}" if "unretired s i" for i
    using stream_okD(6) [OF s that] by (simp add: idle_def)
  show "bounds_ok ?t" using stream_okD(2) [OF s] b(3) room by (simp add: bounds_ok_def)
qed simp_all

lemma upload_chunk_ok:
  assumes s: "stream_ok s" and n: "n \<le> STAGING_LIMIT" and dst: "dst < gs_allocated s" "dst \<notin> pb_id ` set (internal s)"
    and answers: "answer_ok engine (ua_submit a) s" "fresh_answer n (ua_allocated a) s" "staging_full n s \<Longrightarrow> ua_wait a = Inr () \<Longrightarrow> drained s"
    and t: "upload_chunk engine dst reservations n a s = (r, t)"
  shows "stream_ok t"
proof -
  obtain r1 s1 where s1: "(if staging_full n s then synchronize (ua_wait a) s else (Inr (), s)) = (r1, s1)" by fastforce
  have one: "stream_ok s1 \<and> gs_published s1 = gs_published s \<and> gs_retired s1 = gs_retired s \<and> gs_last s1 = gs_last s \<and> gs_allocated s1 = gs_allocated s
      \<and> set (internal s1) \<subseteq> set (internal s) \<and> (r1 = Inr () \<longrightarrow> length (gs_staging s1) < 8 \<and> bytes_sum (gs_staging s1) \<le> STAGING_LIMIT)"
  proof (cases "staging_full n s")
    case True
    then have "synchronize (ua_wait a) s = (r1, s1)" using s1 by simp
    from synchronize_ok [OF s answers(3) [OF True] this] show ?thesis by auto
  next
    case False
    then have "s1 = s" using s1 by simp
    moreover have "bytes_sum (gs_staging s) \<le> STAGING_LIMIT" "length (gs_staging s) < 8"
      using False by (auto simp: staging_full_def saturating_add_def STAGING_LIMIT_def usize_MAX_def min_def split: if_splits)
    ultimately show ?thesis using s by simp
  qed
  show ?thesis
  proof (cases "r1 = Inr ()")
    case False
    then have "t = s1" using t s1 by (auto simp: upload_chunk_def split: sum.splits)
    then show ?thesis using one by simp
  next
    case r1: True
    obtain r2 s2 where s2: "take_staging n a s1 = (r2, s2)" by fastforce
    have fresh: "fresh_answer n (ua_allocated a) s1" using answers(2) one by (simp add: fresh_answer_def)
    have ok1: "stream_ok s1" using one by blast
    note two = take_staging_ok [OF ok1 fresh n s2]
    show ?thesis
    proof (cases "\<exists>b. r2 = Inr b \<and> ua_written a = Inr ()")
      case False
      then have "t = s2" using t s1 r1 s2 by (auto simp: upload_chunk_def split: sum.splits)
      then show ?thesis using two by simp
    next
      case True
      then obtain b where b: "r2 = Inr b" "ua_written a = Inr ()" by blast
      have fb: "pb_id b < gs_allocated s2" "pb_id b \<notin> pb_id ` set (internal s2)" "pb_bytes b \<le> STAGING_LIMIT" using two b(1) by blast+
      obtain r3 s3 where s3: "stream_transfer engine {dst, pb_id b} reservations (ua_prepared a) (ua_submit a) s2 = (r3, s3)" by fastforce
      have ans: "answer_ok engine (ua_submit a) s2" using answers(1) answer_ok_frame [of s2 s] one two by simp
      have inside: "set (internal s2) \<subseteq> set (internal s)" using one two by blast
      have "dst < gs_allocated s2" using dst(1) one two by linarith
      moreover have "dst \<notin> pb_id ` set (internal s2)" using inside dst(2) by blast
      moreover have "set (idle s2) \<subseteq> set (internal s2)" by (auto simp: idle_def internal_def)
      ultimately have nat: "\<forall>x\<in>{dst, pb_id b}. x < gs_allocated s2" "{dst, pb_id b} \<inter> pb_id ` set (idle s2) = {}" using fb by auto
      have ok2: "stream_ok s2" using two by blast
      note three = transfer_ok [OF ok2 ans nat s3]
      have same: "gs_staging s3 = gs_staging s1" "internal s3 = internal s2" "gs_allocated s3 = gs_allocated s2"
        using three two by (auto simp: same_pools_def internal_def)
      have "stream_ok (s3\<lparr>gs_staging := gs_staging s3 @ [b]\<rparr>)"
        using three fb one r1 same by (intro push_staging_ok) auto
      then show ?thesis using t s1 r1 s2 b s3 three by (auto simp: upload_chunk_def split: sum.splits)
    qed
  qed
qed

text \<open>Allocation, scratch and the free pool.\<close>

lemma take_free_ok:
  assumes s: "stream_ok s" and i: "i < length (gs_free s)"
  shows "stream_ok (s\<lparr>gs_free := swap_remove i (gs_free s)\<rparr>)"
proof (rule stream_ok_shrink [OF s])
  let ?t = "s\<lparr>gs_free := swap_remove i (gs_free s)\<rparr>"
  have sub: "mset (swap_remove i (gs_free s)) \<subseteq># mset (gs_free s)" by (rule swap_remove_subset [OF i])
  then show "mset (internal ?t) \<subseteq># mset (internal s)" by (simp add: internal_def subset_mset.add_mono)
  show "set (idle ?t) \<subseteq> set (idle s)" using set_mset_mono [OF sub] by (auto simp: idle_def)
  show "bounds_ok ?t" using stream_okD(2) [OF s] bytes_sum_swap_remove [OF i] by (auto simp: bounds_ok_def)
qed simp_all

lemma allocate_ok:
  assumes s: "stream_ok s" and fresh: "fresh_answer n allocated s" and t: "stream_allocate sdma bytes reserved allocated written s = (r, t)"
  shows "stream_ok t"
proof -
  define reused where "reused budgeted = (if sdma \<or> budgeted then None else position (\<lambda>b. pb_bytes b = bytes) (gs_free s))" for budgeted
  have i: "i < length (gs_free s)" if "reused budgeted = Some i" for budgeted i
    using that by (simp add: reused_def position_Some split: if_splits)
  consider "t = s" | i budgeted where "reused budgeted = Some i" "t = s\<lparr>gs_free := swap_remove i (gs_free s)\<rparr>"
    | b where "allocated = Inr b" "t = s\<lparr>gs_allocated := Suc (pb_id b)\<rparr>"
  proof (cases reserved)
    case (Inl e)
    then have "t = s" using t by (simp add: stream_allocate_def)
    then show thesis by (rule that)
  next
    case (Inr budgeted)
    show thesis
    proof (cases "reused budgeted")
      case (Some i)
      then have "t = s\<lparr>gs_free := swap_remove i (gs_free s)\<rparr>"
        using t Inr by (cases written) (auto simp: stream_allocate_def Let_def reused_def split: if_splits)
      then show thesis by (rule that(2) [OF Some])
    next
      case None
      show thesis
      proof (cases allocated)
        case (Inl e)
        then have "t = s" using t Inr None by (auto simp: stream_allocate_def Let_def reused_def split: if_splits)
        then show thesis by (rule that)
      next
        case alloc: (Inr b)
        then have "t = s\<lparr>gs_allocated := Suc (pb_id b)\<rparr>"
          using t Inr None by (cases written) (auto simp: stream_allocate_def Let_def reused_def split: if_splits)
        then show thesis by (rule that(3) [OF alloc])
      qed
    qed
  qed
  then show ?thesis
  proof cases
    case 1
    then show ?thesis using s by simp
  next
    case 2
    then show ?thesis using take_free_ok [OF s i] by simp
  next
    case 3
    then show ?thesis using fresh_ok [OF s] fresh by (simp add: fresh_answer_def)
  qed
qed

lemma drop_ok:
  assumes s: "stream_ok s" and b: "pb_id b < gs_allocated s" "pb_id b \<notin> pb_id ` set (internal s)"
    and free: "exclusive \<Longrightarrow> \<forall>i. unretired s i \<longrightarrow> pb_id b \<notin> snd (gs_published s ! i)"
  shows "stream_ok (buffer_drop poolable reserved exclusive b s)"
proof (cases "buffer_drop poolable reserved exclusive b s = s")
  case False
  let ?t = "s\<lparr>gs_free := gs_free s @ [b]\<rparr>"
  have t: "buffer_drop poolable reserved exclusive b s = ?t" and x: "exclusive" and room: "length (gs_free s) < 16" "pb_bytes b + bytes_sum (gs_free s) \<le> 64 * 1024 * 1024"
    using False stream_okD(2) [OF s] by (auto simp: buffer_drop_def saturating_sub_def bounds_ok_def split: if_splits)
  have "stream_ok ?t"
  proof (rule stream_okI [OF s])
    have ms: "mset (map pb_id (internal ?t)) = mset (map pb_id (b # internal s))" by (simp add: internal_def)
    have "distinct (map pb_id (b # internal s))" using stream_okD(3) [OF s] b(2) by simp
    then show "distinct (map pb_id (internal ?t))" using ms mset_eq_imp_distinct_iff by blast
    have "set (internal ?t) = insert b (set (internal s))" by (auto simp: internal_def)
    then show "\<forall>x\<in>set (internal ?t). pb_id x < gs_allocated ?t" using stream_okD(4) [OF s] b(1) by simp
    show "snd (gs_published s ! i) \<inter> pb_id ` set (idle ?t) = {}" if "unretired s i" for i
      using stream_okD(6) [OF s that] free [OF x] that by (auto simp: idle_def)
    show "bounds_ok ?t" using stream_okD(2) [OF s] room by (simp add: bounds_ok_def)
  qed simp_all
  then show ?thesis using t by simp
qed (use s in simp)

lemma pop_scratch_ok:
  assumes s: "stream_ok s" and found: "first_in_range lo hi (gs_scratch s) = Some (sz, xs)"
  shows "stream_ok (s\<lparr>gs_scratch := pop_block sz (gs_scratch s), gs_scratch_bytes := gs_scratch_bytes s - pb_bytes (List.last xs)\<rparr>)"
    (is "stream_ok ?t")
proof (rule stream_ok_shrink [OF s])
  have b: "bounds_ok s" by (rule stream_okD(2) [OF s])
  then have blocks: "blocks_ok (gs_scratch s)" by (simp add: bounds_ok_def)
  note f = first_in_range_Some [OF found blocks]
  have ms: "mset (stacked (gs_scratch s)) = add_mset (List.last xs) (mset (stacked (pop_block sz (gs_scratch s))))"
    by (rule pop_block_stacked [OF blocks f(1)])
  have "bytes_sum (stacked (gs_scratch s)) = bytes_sum (List.last xs # stacked (pop_block sz (gs_scratch s)))"
    by (rule bytes_sum_mset) (simp add: ms)
  then show "bounds_ok ?t" using b pop_block_ok [OF blocks, of sz] by (auto simp: bounds_ok_def)
  show "mset (internal ?t) \<subseteq># mset (internal s)" by (simp add: internal_def ms)
  show "set (idle ?t) \<subseteq> set (idle s)" by (simp add: idle_def)
qed simp_all

lemma recycle_ok:
  assumes s: "stream_ok s" and b: "pb_id b < gs_allocated s" "pb_id b \<notin> pb_id ` set (internal s)" and t: "stream_recycle own b s = (r, t)"
  shows "stream_ok t"
proof (cases "own \<and> pb_bytes b \<le> saturating_sub (gs_scratch_limit s) (gs_scratch_bytes s)")
  case True
  then have t': "t = s\<lparr>gs_scratch_bytes := gs_scratch_bytes s + pb_bytes b, gs_scratch := push_block (pb_bytes b) b (gs_scratch s)\<rparr>"
    using t by (simp add: stream_recycle_def)
  let ?stack = "stacked (push_block (pb_bytes b) b (gs_scratch s))"
  have bd: "bounds_ok s" by (rule stream_okD(2) [OF s])
  have ms: "mset ?stack = add_mset b (mset (stacked (gs_scratch s)))" by (rule push_block_stacked)
  have all: "mset (map pb_id (internal t)) = mset (map pb_id (b # internal s))" by (simp add: internal_def t' ms)
  have "bytes_sum ?stack = pb_bytes b + bytes_sum (stacked (gs_scratch s))" using bytes_sum_mset [of ?stack "b # stacked (gs_scratch s)"] ms by simp
  show ?thesis
  proof (rule stream_okI [OF s])
    have "distinct (map pb_id (b # internal s))" using stream_okD(3) [OF s] b(2) by simp
    then show "distinct (map pb_id (internal t))" using all mset_eq_imp_distinct_iff by blast
    have "set ?stack = insert b (set (stacked (gs_scratch s)))" using arg_cong [OF ms, of set_mset] by simp
    then have "set (internal t) = insert b (set (internal s))" by (auto simp: internal_def t')
    then show "\<forall>x\<in>set (internal t). pb_id x < gs_allocated t" using stream_okD(4) [OF s] b(1) by (simp add: t')
    show "snd (gs_published s ! i) \<inter> pb_id ` set (idle t) = {}" if "unretired s i" for i
      using stream_okD(6) [OF s that] by (simp add: idle_def t')
    show "bounds_ok t" using bd True \<open>bytes_sum ?stack = _\<close> push_block_ok [of "gs_scratch s" b "pb_bytes b"]
      by (auto simp: bounds_ok_def t' saturating_sub_def)
  qed (simp_all add: t')
next
  case False
  then have "t = s" using t by (auto simp: stream_recycle_def split: if_splits)
  then show ?thesis using s by simp
qed

lemma evict_scratch_ok:
  "held = bytes_sum (stacked bs) \<Longrightarrow> blocks_ok bs \<Longrightarrow> evict_scratch bytes bs held = (bs', held') \<Longrightarrow>
     held' = bytes_sum (stacked bs') \<and> blocks_ok bs' \<and> held' \<le> bytes \<and> mset (stacked bs') \<subseteq># mset (stacked bs)"
proof (induction bytes bs held rule: evict_scratch.induct)
  case (1 bytes bs held)
  show ?case
  proof (cases "held > bytes \<and> bs \<noteq> []")
    case True
    then obtain cs c where bs: "bs = cs @ [c]" by (metis rev_exhaust)
    have st: "stacked bs = stacked cs @ snd c" by (simp add: bs stacked_def)
    have "blocks_ok cs" using "1.prems"(2) by (simp add: bs blocks_ok_def sorted_wrt_append)
    moreover have "evict_scratch bytes bs held = evict_scratch bytes cs (held - bytes_sum (snd c))"
      using True bs by (subst evict_scratch.simps) simp
    then have "evict_scratch bytes cs (held - bytes_sum (snd c)) = (bs', held')" using "1.prems"(3) by simp
    moreover have "held - bytes_sum (snd c) = bytes_sum (stacked cs)" using "1.prems"(1) by (simp add: st)
    ultimately have ih: "held' = bytes_sum (stacked bs') \<and> blocks_ok bs' \<and> held' \<le> bytes \<and> mset (stacked bs') \<subseteq># mset (stacked cs)"
      using "1.IH" [OF True] bs by simp
    have "mset (stacked cs) \<subseteq># mset (stacked bs)" by (simp add: st)
    then show ?thesis using ih subset_mset.order_trans by blast
  next
    case False
    then have "(bs', held') = (bs, held)" using "1.prems"(3) by (subst (asm) evict_scratch.simps) auto
    then show ?thesis using "1.prems"(1,2) False by auto
  qed
qed

lemma set_scratch_limit_ok:
  assumes s: "stream_ok s"
  shows "stream_ok (set_scratch_limit bytes s)"
proof -
  obtain bs held where e: "evict_scratch bytes (gs_scratch s) (gs_scratch_bytes s) = (bs, held)" by fastforce
  have b: "bounds_ok s" by (rule stream_okD(2) [OF s])
  have r: "held = bytes_sum (stacked bs) \<and> blocks_ok bs \<and> held \<le> bytes \<and> mset (stacked bs) \<subseteq># mset (stacked (gs_scratch s))"
    using evict_scratch_ok [OF _ _ e] b by (simp add: bounds_ok_def)
  show ?thesis
  proof (rule stream_ok_shrink [OF s])
    show "mset (internal (set_scratch_limit bytes s)) \<subseteq># mset (internal s)" using r e by (simp add: set_scratch_limit_def internal_def subset_mset.add_mono)
    show "bounds_ok (set_scratch_limit bytes s)" using r e b by (simp add: set_scratch_limit_def bounds_ok_def)
  qed (simp_all add: set_scratch_limit_def e idle_def)
qed

lemma read_ok:
  assumes s: "stream_ok s" and src: "src < gs_allocated s" "src \<notin> pb_id ` set (internal s)"
    and answers: "answer_ok engine (ua_submit a) s" "fresh_answer m (ua_allocated a) s" and t: "stream_read engine src reservations n a s = (r, t)"
  shows "stream_ok t"
proof -
  obtain r1 s1 where s1: "allocate_staging (ua_reserved a) (ua_allocated a) s = (r1, s1)" by fastforce
  note one = allocate_staging_ok [OF s answers(2) s1]
  have ok1: "stream_ok s1" using one by blast
  show ?thesis
  proof (cases "\<exists>b. r1 = Inr b \<and> n \<noteq> 0")
    case False
    then have "t = s1" using t s1 by (auto simp: stream_read_def split: sum.splits)
    then show ?thesis using ok1 by simp
  next
    case True
    then obtain b where b: "r1 = Inr b" "n \<noteq> 0" by blast
    obtain r2 s2 where s2: "stream_transfer engine {src, pb_id b} reservations (ua_prepared a) (ua_submit a) s1 = (r2, s2)" by fastforce
    have fb: "pb_id b < gs_allocated s1" "gs_allocated s \<le> pb_id b" using one b(1) by blast+
    have "pb_id b \<notin> pb_id ` set (internal s)" using stream_okD(4) [OF s] fb(2) by fastforce
    moreover have "set (idle s) \<subseteq> set (internal s)" by (auto simp: idle_def internal_def)
    moreover have "src < gs_allocated s1" using src(1) one by linarith
    ultimately have nat: "\<forall>x\<in>{src, pb_id b}. x < gs_allocated s1" "{src, pb_id b} \<inter> pb_id ` set (idle s1) = {}" using src(2) fb(1) one by auto
    have ans: "answer_ok engine (ua_submit a) s1" using answers(1) answer_ok_frame [of s1 s] one by simp
    have "t = s2" using t s1 b s2 by (auto simp: stream_read_def split: sum.splits)
    then show ?thesis using transfer_ok [OF ok1 ans nat s2] by simp
  qed
qed


section \<open>Reachable streams\<close>

text \<open>
  A program holds the allocations it passes in: they exist and are in none of the stream's own pools. Waiting succeeds only when the
  last completion has retired, native allocations are fresh, and the parts of one engine retire in the order they were published.
\<close>

definition held :: "nat \<Rightarrow> gpu_stream \<Rightarrow> bool" where
  "held x s \<longleftrightarrow> x < gs_allocated s \<and> x \<notin> pb_id ` set (internal s)"

inductive stream_reach :: "gpu_stream \<Rightarrow> bool" where
  new: "stream_reach (stream_new limit)"
| retire: "stream_reach s \<Longrightarrow> unretired s i \<Longrightarrow> \<forall>j<i. engine_at s j = engine_at s i \<longrightarrow> j \<in> gs_retired s
    \<Longrightarrow> stream_reach (s\<lparr>gs_retired := insert i (gs_retired s)\<rparr>)"
| submit: "stream_reach s \<Longrightarrow> \<forall>x\<in>natives. held x s \<Longrightarrow> answer_ok engine a s \<Longrightarrow> stream_submit engine natives a s = (r, t) \<Longrightarrow> stream_reach t"
| transfer: "stream_reach s \<Longrightarrow> \<forall>x\<in>natives. held x s \<Longrightarrow> answer_ok engine a s
    \<Longrightarrow> stream_transfer engine natives reservations prepared a s = (r, t) \<Longrightarrow> stream_reach t"
| upload: "stream_reach s \<Longrightarrow> n \<le> STAGING_LIMIT \<Longrightarrow> held dst s \<Longrightarrow> answer_ok engine (ua_submit u) s \<Longrightarrow> fresh_answer n (ua_allocated u) s
    \<Longrightarrow> (staging_full n s \<Longrightarrow> ua_wait u = Inr () \<Longrightarrow> drained s) \<Longrightarrow> upload_chunk engine dst reservations n u s = (r, t) \<Longrightarrow> stream_reach t"
| sync: "stream_reach s \<Longrightarrow> (answer = Inr () \<Longrightarrow> drained s) \<Longrightarrow> synchronize answer s = (r, t) \<Longrightarrow> stream_reach t"
| poll: "stream_reach s \<Longrightarrow> (polled = Inr True \<Longrightarrow> drained s) \<Longrightarrow> submission_is_complete polled s = (b, t) \<Longrightarrow> stream_reach t"
| allocate: "stream_reach s \<Longrightarrow> fresh_answer bytes allocated s \<Longrightarrow> stream_allocate sdma bytes reserved allocated written s = (p, t) \<Longrightarrow> stream_reach t"
| drop_buffer: "stream_reach s \<Longrightarrow> held (pb_id d) s \<Longrightarrow> (exclusive \<Longrightarrow> \<forall>i. unretired s i \<longrightarrow> pb_id d \<notin> snd (gs_published s ! i))
    \<Longrightarrow> stream_reach (buffer_drop poolable budgeted exclusive d s)"
| scratch: "stream_reach s \<Longrightarrow> fresh_answer bytes allocated s
    \<Longrightarrow> stream_scratch bytes (stream_allocate sdma bytes reserved allocated written) s = (p, t) \<Longrightarrow> stream_reach t"
| recycle: "stream_reach s \<Longrightarrow> held (pb_id d) s \<Longrightarrow> stream_recycle own d s = (r, t) \<Longrightarrow> stream_reach t"
| limit: "stream_reach s \<Longrightarrow> stream_reach (set_scratch_limit bytes s)"
| read: "stream_reach s \<Longrightarrow> held src s \<Longrightarrow> answer_ok engine (ua_submit u) s \<Longrightarrow> fresh_answer m (ua_allocated u) s
    \<Longrightarrow> stream_read engine src reservations n u s = (q, t) \<Longrightarrow> stream_reach t"

lemma retire_step_ok:
  assumes s: "stream_ok s" and i: "unretired s i" "\<forall>j<i. engine_at s j = engine_at s i \<longrightarrow> j \<in> gs_retired s"
  shows "stream_ok (s\<lparr>gs_retired := insert i (gs_retired s)\<rparr>)"
proof -
  let ?t = "s\<lparr>gs_retired := insert i (gs_retired s)\<rparr>"
  have tl: "timeline_ok s" by (rule stream_okD(1) [OF s])
  have e: "engine_at ?t = engine_at s" by (simp add: engine_at_def fun_eq_iff)
  have "unretired ?t j \<longrightarrow> unretired s j" for j by (simp add: unretired_def)
  note mono = this
  have order: "k \<in> gs_retired ?t" if "j \<in> gs_retired ?t" "k < j" "engine_at s k = engine_at s j" for j k
  proof (cases "j = i")
    case True
    then show ?thesis using i(2) that by simp
  next
    case False
    then show ?thesis using tl that by (simp add: timeline_ok_def)
  qed
  have last_eng: "engine_at s j = engine_at s (length (gs_published s) - 1)" if "unretired ?t j" for j
    using tl mono that by (simp only: timeline_ok_def)
  have "timeline_ok ?t"
    unfolding timeline_ok_def e
  proof (intro conjI ballI allI impI)
    show "gs_last ?t = (if gs_published ?t = [] then None else Some (length (gs_published ?t) - 1))" using tl by (simp add: timeline_ok_def)
    show "gs_retired ?t \<subseteq> {..<length (gs_published ?t)}" using tl i(1) by (simp add: timeline_ok_def unretired_def)
    show "engine_at s j = engine_at s (length (gs_published ?t) - 1)" if "unretired ?t j" for j using last_eng [OF that] by simp
  qed (rule order)
  moreover have "snd (gs_published s ! j) \<inter> pb_id ` set (idle s) = {}" if "unretired ?t j" for j
    using stream_okD(6) [OF s, of j] that by (simp add: unretired_def)
  then have "uses_ok ?t" using s by (simp add: stream_ok_def uses_ok_def internal_def idle_def)
  moreover have "bounds_ok ?t" using stream_okD(2) [OF s] by (simp add: bounds_ok_def)
  ultimately show ?thesis by (simp add: stream_ok_def)
qed

lemma held_idle:
  assumes "\<forall>x\<in>natives. held x s"
  shows "\<forall>x\<in>natives. x < gs_allocated s" "natives \<inter> pb_id ` set (idle s) = {}"
proof -
  show "\<forall>x\<in>natives. x < gs_allocated s" using assms by (simp add: held_def)
  have "set (idle s) \<subseteq> set (internal s)" by (auto simp: idle_def internal_def)
  then show "natives \<inter> pb_id ` set (idle s) = {}" using assms by (fastforce simp: held_def)
qed

lemma scratch_ok:
  assumes s: "stream_ok s" and fresh: "fresh_answer bytes allocated s"
    and t: "stream_scratch bytes (stream_allocate sdma bytes reserved allocated written) s = (p, t)"
  shows "stream_ok t"
proof (cases "first_in_range (max bytes 1) (max (saturating_mul bytes 2) 1) (gs_scratch s)")
  case None
  then show ?thesis using t allocate_ok [OF s fresh] by (simp add: stream_scratch_def)
next
  case (Some x)
  obtain sz xs where x: "x = (sz, xs)" by fastforce
  have "t = s\<lparr>gs_scratch := pop_block sz (gs_scratch s), gs_scratch_bytes := gs_scratch_bytes s - pb_bytes (List.last xs)\<rparr>"
    using t Some x by (simp add: stream_scratch_def)
  then show ?thesis using pop_scratch_ok [OF s Some [unfolded x]] by simp
qed

lemma stream_reach_ok: "stream_reach s \<Longrightarrow> stream_ok s"
proof (induction rule: stream_reach.induct)
  case (new lim)
  show ?case by (simp add: stream_new_def stream_ok_def timeline_ok_def uses_ok_def bounds_ok_def internal_def idle_def unretired_def)
next
  case (retire s i)
  then show ?case using retire_step_ok by blast
next
  case (submit s natives engine a r t)
  then show ?case using submit_ok [OF _ _ held_idle [OF submit.hyps(2)]] by blast
next
  case (transfer s natives engine a reservations prepared r t)
  then show ?case using transfer_ok [OF _ _ held_idle [OF transfer.hyps(2)]] by blast
next
  case (upload s n dst engine u reservations r t)
  then show ?case using upload_chunk_ok [of s n dst engine u reservations r t] by (simp add: held_def)
next
  case (sync s answer r t)
  then show ?case using synchronize_ok [of s answer r t] by blast
next
  case (poll s polled b t)
  show ?case
  proof (cases "polled = Inr True")
    case True
    then have "t = (reclaim_staging s)\<lparr>gs_budget_uses := {}\<rparr>" using poll.hyps by (simp add: submission_is_complete_def)
    then show ?thesis using reclaim_ok [OF poll.IH poll.hyps(2) [OF True]] by simp
  next
    case False
    then have "t = s" using poll.hyps by (auto simp: submission_is_complete_def split: sum.splits)
    then show ?thesis using poll.IH by simp
  qed
next
  case (allocate s bytes allocated sdma reserved written p t)
  then show ?case using allocate_ok by blast
next
  case (drop_buffer s d exclusive poolable budgeted)
  then show ?case using drop_ok [of s d exclusive] by (simp add: held_def)
next
  case (scratch s bytes allocated sdma reserved written p t)
  then show ?case using scratch_ok by blast
next
  case (recycle s d own r t)
  then show ?case using recycle_ok [of s d own r t] by (simp add: held_def)
next
  case (limit s bytes)
  then show ?case by (simp add: set_scratch_limit_ok)
next
  case (read s src engine u m reservations n q t)
  then show ?case using read_ok [of s src engine u m reservations n q t] by (simp add: held_def)
qed

text \<open>
  C32: reuse on a stream is safe. In every state reachable by submissions, uploads, readbacks, allocation, scratch use and drops, with parts
  retiring in the order of their engine: all unretired parts are on one engine, so once the last completion has retired nothing is
  left running; no buffer in the staging pool or the free pool is used by an unretired part; the pools share no
  allocation; at most eight staging buffers of together twice the staging limit are in flight and at most eight of
  together the limit are pooled, the free pool holds at most 16 allocations of 64 MiB, and the scratch counter is exact and within its limit.
\<close>

theorem stream_reuse_safe:
  assumes "stream_reach s"
  shows "(\<forall>i. unretired s i \<longrightarrow> engine_at s i = engine_at s (length (gs_published s) - 1))
    \<and> (drained s \<longrightarrow> (\<forall>i. \<not> unretired s i))
    \<and> (\<forall>i. unretired s i \<longrightarrow> snd (gs_published s ! i) \<inter> pb_id ` set (gs_staging_pool s @ gs_free s) = {})
    \<and> distinct (map pb_id (gs_staging s @ gs_staging_pool s @ gs_free s @ stacked (gs_scratch s)))
    \<and> length (gs_staging s) \<le> 8 \<and> bytes_sum (gs_staging s) \<le> 2 * STAGING_LIMIT
    \<and> length (gs_staging_pool s) \<le> 8 \<and> bytes_sum (gs_staging_pool s) \<le> STAGING_LIMIT
    \<and> length (gs_free s) \<le> 16 \<and> bytes_sum (gs_free s) \<le> 64 * 1024 * 1024
    \<and> gs_scratch_bytes s = bytes_sum (stacked (gs_scratch s)) \<and> gs_scratch_bytes s \<le> gs_scratch_limit s"
proof -
  have ok: "stream_ok s" using assms by (rule stream_reach_ok)
  have one: "\<forall>i. unretired s i \<longrightarrow> engine_at s i = engine_at s (length (gs_published s) - 1)"
    using stream_okD(1) [OF ok] unfolding timeline_ok_def by blast
  have "\<forall>i. unretired s i \<longrightarrow> snd (gs_published s ! i) \<inter> pb_id ` set (gs_staging_pool s @ gs_free s) = {}"
    using stream_okD(6) [OF ok] unfolding idle_def by blast
  moreover have "drained s \<longrightarrow> (\<forall>i. \<not> unretired s i)" using drained_all [OF stream_okD(1) [OF ok]] by blast
  moreover have "distinct (map pb_id (gs_staging s @ gs_staging_pool s @ gs_free s @ stacked (gs_scratch s)))"
    using stream_okD(3) [OF ok] unfolding internal_def .
  ultimately show ?thesis using one stream_okD(2) [OF ok] unfolding bounds_ok_def by blast
qed

definition demo_submit_answer :: submit_answer where
  "demo_submit_answer = \<lparr>sa_wait = Inr (), sa_accepted = 1, sa_error = None\<rparr>"

definition demo_upload :: upload_answer where
  "demo_upload = \<lparr>ua_wait = Inr (), ua_reserved = Inr (), ua_allocated = Inr \<lparr>pb_id = 1, pb_bytes = 4\<rparr>, ua_written = Inr (), ua_prepared = Inr (),
     ua_submit = demo_submit_answer\<rparr>"

definition demo_stream :: gpu_stream where
  "demo_stream = snd (upload_chunk 1 0 {} 4 demo_upload ((stream_new 64)\<lparr>gs_allocated := 1\<rparr>))"

lemma demo_stream_reach: "stream_reach demo_stream"
proof -
  let ?b = "\<lparr>pb_id = 0, pb_bytes = 16\<rparr>" and ?s = "(stream_new 64)\<lparr>gs_allocated := 1\<rparr>"
  have "stream_allocate False 16 (Inr False) (Inr ?b) (Inr ()) (stream_new 64) = (Inr ?b, ?s)"
    by (simp add: stream_allocate_def stream_new_def)
  then have reach: "stream_reach ?s" by (rule stream_reach.allocate [OF stream_reach.new, rotated]) (simp add: fresh_answer_def stream_new_def)
  have pre: "held 0 ?s" "answer_ok 1 (ua_submit demo_upload) ?s" "fresh_answer 4 (ua_allocated demo_upload) ?s"
    by (simp_all add: held_def answer_ok_def fresh_answer_def demo_upload_def demo_submit_answer_def stream_new_def internal_def switches_def)
  have room: "\<not> staging_full 4 ?s" by (simp add: staging_full_def stream_new_def saturating_add_def STAGING_LIMIT_def usize_MAX_def)
  obtain r where step: "upload_chunk 1 0 {} 4 demo_upload ?s = (r, demo_stream)" by (simp add: demo_stream_def prod_eq_iff)
  show ?thesis by (rule stream_reach.upload [OF reach _ pre _ step]) (use room in \<open>simp_all add: STAGING_LIMIT_def\<close>)
qed

theorem stream_reuse_safe_witness:
  "stream_reach demo_stream \<and> unretired demo_stream 0 \<and> gs_published demo_stream = [(1, {0, 1})]
    \<and> snd (gs_published demo_stream ! 0) \<inter> pb_id ` set (gs_staging_pool demo_stream @ gs_free demo_stream) = {}
    \<and> bytes_sum (gs_staging demo_stream) = 4"
proof -
  have run: "gs_published demo_stream = [(1, {0, 1})]" "unretired demo_stream 0" "bytes_sum (gs_staging demo_stream) = 4"
    by (simp_all add: demo_stream_def upload_chunk_def staging_full_def stream_new_def saturating_add_def STAGING_LIMIT_def usize_MAX_def
        take_staging_def allocate_staging_def demo_upload_def demo_submit_answer_def stream_transfer_def stream_submit_def switches_def publish_parts_def
        unretired_def Let_def)
  note safe = stream_reuse_safe [OF demo_stream_reach]
  have "snd (gs_published demo_stream ! 0) \<inter> pb_id ` set (gs_staging_pool demo_stream @ gs_free demo_stream) = {}"
    using safe run(2) by blast
  then show ?thesis using run demo_stream_reach by blast
qed

end
