(* ===== verification/Stream_Commands.thy ===== *)
theory Stream_Commands
  imports Stream_Graph Launch_Constants Gpu_Stream "HOL-Library.Word"
begin

text \<open>
  Kernels and command caches of a GPU stream, \<^verbatim>\<open>src/src/runtime.rs\<close>: the export information of a native argument layout,
  the preparation of a dispatch with its checks and argument packing, and the caches of prepared dispatches and transfers with their eviction.

  What the native queues answer is an argument: \<open>se_native env t r\<close> is the answer to request \<open>r\<close> when it is the \<open>t\<close>-th one made, so that the same request
  may succeed, fail or give another command at another time. An index or slice out of range is a panic, the value \<open>None\<close>.
\<close>


section \<open>Layouts and arguments\<close>

record export_info =
  ei_workgroup_size :: dims
  ei_parameter_count :: nat
  ei_constant_bytes :: nat
  ei_binding_count :: nat

fun layout_loop :: "(nat \<times> usize) list \<Rightarrow> export_info \<Rightarrow> export_info result" where
  "layout_loop [] info = Inr info"
| "layout_loop ((kind, bytes) # rest) info =
     (if kind = 1
      then (let n = ei_constant_bytes info + bytes mod 2 ^ 32
            in if n > u32_MAX then Inl (Message ''constant layout overflow'') else layout_loop rest (info\<lparr>ei_constant_bytes := n\<rparr>))
      else if kind = 2 then layout_loop rest (info\<lparr>ei_binding_count := ei_binding_count info + 1\<rparr>)
      else Inl (Unsupported ''native argument kind is unsupported''))"

text \<open>
  A loaded native entry: its device, its compiled workgroup and what the native query answers for each of its arguments, a kind and a
  32-bit size. \<open>entries\<close> gives the entry behind an identity; \<^verbatim>\<open>same_entry\<close> compares identities.
\<close>

record native_entry =
  ne_device :: nat
  ne_workgroup :: dims
  ne_arguments :: "(nat \<times> 32 word) result list"

record runtime_kernel =
  rk_native :: nat
  rk_device :: nat
  rk_info :: export_info
  rk_layout :: "(nat \<times> usize) list"

definition argument_layout :: "native_entry \<Rightarrow> (nat \<times> usize) list result" where
  "argument_layout e = map_result (\<lambda>answer. and_then answer (\<lambda>(kind, sz). Inr (kind, unat sz))) (ne_arguments e)"

definition from_native :: "(nat \<Rightarrow> native_entry) \<Rightarrow> nat \<Rightarrow> runtime_kernel result" where
  "from_native entries native =
     and_then (argument_layout (entries native)) (\<lambda>l.
     and_then (layout_loop l \<lparr>ei_workgroup_size = ne_workgroup (entries native), ei_parameter_count = length l mod 2 ^ 32,
                 ei_constant_bytes = 0, ei_binding_count = 0\<rparr>) (\<lambda>info.
       Inr \<lparr>rk_native = native, rk_device = ne_device (entries native), rk_info = info, rk_layout = l\<rparr>))"

datatype argument = ValueArg "nat list" | BufferArg usize usize

text \<open>Packing in declaration order.\<close>

fun pack_arguments :: "nat list \<Rightarrow> gview list \<Rightarrow> (nat \<times> usize) list \<Rightarrow> nat \<Rightarrow> nat \<Rightarrow> argument list option" where
  "pack_arguments bytes bindings [] scalar bound = Some []"
| "pack_arguments bytes bindings ((kind, n) # rest) scalar bound =
     (if kind = 1
      then (if scalar + n \<le> length bytes
            then map_option (\<lambda>args. ValueArg (take n (drop scalar bytes)) # args) (pack_arguments bytes bindings rest (scalar + n) bound)
            else None)
      else (if bound < length bindings
            then map_option (\<lambda>args. BufferArg (gb_native (gv_owner (bindings ! bound))) (gv_offset (bindings ! bound)) # args)
                   (pack_arguments bytes bindings rest scalar (bound + 1))
            else None))"

text \<open>
  What is asked of the native queues: a dispatch of an entry with its grid, its workgroup and its arguments, on the PM4 queue for itself or into
  the arena of a graph, or on the AQL queue; a fill and a copy, on the copy engine if the stream has one.
\<close>

datatype request =
    PrepareGpu nat dims dims "argument list"
  | PrepareGraph nat dims dims "argument list"
  | PrepareAql nat dims dims "argument list"
  | PrepareFill bool usize usize usize nat
  | PrepareCopy bool usize usize usize usize usize

record prepared_native =
  pn_id :: nat
  pn_natives :: "nat set"
  pn_storage_bytes :: usize

datatype command = GpuCommand prepared_native nat | AqlCommand prepared_native

fun command_engine :: "command \<Rightarrow> nat" where
  "command_engine (GpuCommand c engine) = engine"
| "command_engine (AqlCommand c) = 2"

fun command_native :: "command \<Rightarrow> prepared_native" where
  "command_native (GpuCommand c engine) = c"
| "command_native (AqlCommand c) = c"

definition storage_bytes :: "command \<Rightarrow> usize" where
  "storage_bytes c = pn_storage_bytes (command_native c)"

record stream_env =
  se_device :: nat
  se_aql :: bool
  se_sdma :: bool
  se_native :: "nat \<Rightarrow> request \<Rightarrow> prepared_native result"

text \<open>\<open>block.map(|v| v as u16)\<close>.\<close>

fun narrow :: "dims \<Rightarrow> dims" where
  "narrow (x, y, z) = (x mod 2 ^ 16, y mod 2 ^ 16, z mod 2 ^ 16)"

text \<open>The checks \<^verbatim>\<open>prepare_dispatch\<close> and \<^verbatim>\<open>Kernel::prepare_aql\<close> share.\<close>

definition launch_checks :: "runtime_kernel \<Rightarrow> dims \<Rightarrow> dims \<Rightarrow> constants \<Rightarrow> gview list \<Rightarrow> unit result" where
  "launch_checks k grid block constants bindings =
     and_then (validate_export_launch (ei_workgroup_size (rk_info k)) grid block) (\<lambda>_.
       if cb_len constants \<noteq> ei_constant_bytes (rk_info k) \<or> length bindings \<noteq> ei_binding_count (rk_info k)
       then Inl (Message ''kernel binding or constant byte count mismatch'') else Inr ())"

definition prepare_aql ::
  "stream_env \<Rightarrow> nat \<Rightarrow> runtime_kernel \<Rightarrow> dims \<Rightarrow> dims \<Rightarrow> constants \<Rightarrow> gview list \<Rightarrow> prepared_native result option" where
  "prepare_aql env t k grid block constants bindings =
     (case launch_checks k grid block constants bindings of
        Inl e \<Rightarrow> Some (Inl e)
      | Inr _ \<Rightarrow>
          map_option (\<lambda>args. se_native env t (PrepareAql (rk_native k) grid (narrow block) args))
            (pack_arguments (cb_bytes constants) bindings (rk_layout k) 0 0))"

definition prepare_dispatch ::
  "stream_env \<Rightarrow> nat \<Rightarrow> bool \<Rightarrow> runtime_kernel \<Rightarrow> dims \<Rightarrow> dims \<Rightarrow> constants \<Rightarrow> gview list \<Rightarrow> command result option" where
  "prepare_dispatch env t arena k grid block constants bindings =
     (if rk_device k \<noteq> se_device env then Some (Inl (Message ''kernel belongs to another device''))
      else case and_then (launch_checks k grid block constants bindings) (\<lambda>_. try_all (\<lambda>v. owns (se_device env) (gv_owner v)) bindings) of
        Inl e \<Rightarrow> Some (Inl e)
      | Inr _ \<Rightarrow>
          if se_aql env
          then map_option (\<lambda>r. and_then r (\<lambda>c. Inr (AqlCommand c))) (prepare_aql env t k grid block constants bindings)
          else map_option (\<lambda>args. and_then
                   (se_native env t ((if arena then PrepareGraph else PrepareGpu) (rk_native k) grid (narrow block) args))
                   (\<lambda>c. Inr (GpuCommand c 0)))
                 (pack_arguments (cb_bytes constants) bindings (rk_layout k) 0 0))"

fun scalar_bytes :: "argument list \<Rightarrow> nat list" where
  "scalar_bytes [] = []"
| "scalar_bytes (ValueArg bs # args) = bs @ scalar_bytes args"
| "scalar_bytes (BufferArg _ _ # args) = scalar_bytes args"

fun buffer_args :: "argument list \<Rightarrow> (usize \<times> usize) list" where
  "buffer_args [] = []"
| "buffer_args (ValueArg _ # args) = buffer_args args"
| "buffer_args (BufferArg n off # args) = (n, off) # buffer_args args"

definition scalars :: "(nat \<times> usize) list \<Rightarrow> nat" where
  "scalars l = sum_list (map (\<lambda>(kind, n). if kind = 1 then n else 0) l)"

definition pointers :: "(nat \<times> usize) list \<Rightarrow> nat" where
  "pointers l = length (filter (\<lambda>(kind, n). kind \<noteq> 1) l)"

lemma layout_loop_counts:
  "layout_loop l info = Inr info' \<Longrightarrow> \<forall>(kind, n)\<in>set l. n < 2 ^ 32 \<Longrightarrow>
     ei_constant_bytes info' = ei_constant_bytes info + scalars l \<and> ei_binding_count info' = ei_binding_count info + pointers l"
  by (induction l info rule: layout_loop.induct) (auto simp: scalars_def pointers_def Let_def split: if_splits)

lemma argument_layout_u32:
  assumes "argument_layout e = Inr l"
  shows "\<forall>(kind, n)\<in>set l. n < 2 ^ 32"
proof -
  have "map_result (\<lambda>answer. and_then answer (\<lambda>(kind, sz). Inr (kind, unat sz))) xs = Inr l \<Longrightarrow> \<forall>(kind, n)\<in>set l. n < 2 ^ 32"
    for xs :: "(nat \<times> 32 word) result list" and l
  proof (induction xs arbitrary: l)
    case (Cons x xs)
    have "unat sz < 2 ^ 32" for sz :: "32 word" using unsigned_less [of sz] by simp
    with Cons show ?case by (fastforce simp: and_then_Inr_iff)
  qed simp
  then show ?thesis using assms unfolding argument_layout_def by blast
qed

text \<open>A loaded kernel counts the constant bytes and the buffers of its layout, and is determined by its entry.\<close>

definition kernel_loaded :: "(nat \<Rightarrow> native_entry) \<Rightarrow> runtime_kernel \<Rightarrow> bool" where
  "kernel_loaded entries k \<longleftrightarrow> from_native entries (rk_native k) = Inr k"

lemma loaded_unique: "kernel_loaded entries k \<Longrightarrow> kernel_loaded entries k' \<Longrightarrow> rk_native k = rk_native k' \<Longrightarrow> k = k'"
  by (simp add: kernel_loaded_def)

lemma loaded_counts:
  assumes "kernel_loaded entries k"
  shows "ei_constant_bytes (rk_info k) = scalars (rk_layout k)" "ei_binding_count (rk_info k) = pointers (rk_layout k)"
proof -
  obtain l info where l: "argument_layout (entries (rk_native k)) = Inr l"
    "layout_loop l \<lparr>ei_workgroup_size = ne_workgroup (entries (rk_native k)), ei_parameter_count = length l mod 2 ^ 32,
       ei_constant_bytes = 0, ei_binding_count = 0\<rparr> = Inr info"
    "k = \<lparr>rk_native = rk_native k, rk_device = ne_device (entries (rk_native k)), rk_info = info, rk_layout = l\<rparr>"
    using assms by (auto simp: kernel_loaded_def from_native_def and_then_Inr_iff)
  have "rk_info k = info" "rk_layout k = l" by (subst l(3), simp)+
  then show "ei_constant_bytes (rk_info k) = scalars (rk_layout k)" "ei_binding_count (rk_info k) = pointers (rk_layout k)"
    using layout_loop_counts [OF l(2) argument_layout_u32 [OF l(1)]] by simp_all
qed

text \<open>Arguments that have the kinds and sizes of a layout.\<close>

definition fits :: "(nat \<times> usize) list \<Rightarrow> argument list \<Rightarrow> bool" where
  "fits = list_all2 (\<lambda>(kind, n) a. case a of ValueArg bs \<Rightarrow> kind = 1 \<and> length bs = n | BufferArg _ _ \<Rightarrow> kind \<noteq> 1)"

lemma fits_simps:
  "fits [] []" "fits ((kind, n) # l) (ValueArg bs # args) \<longleftrightarrow> kind = 1 \<and> length bs = n \<and> fits l args"
  "fits ((kind, n) # l) (BufferArg x y # args) \<longleftrightarrow> kind \<noteq> 1 \<and> fits l args"
  by (auto simp: fits_def)

lemma pack_arguments_exact:
  assumes "scalar + scalars l \<le> length bytes" "bound + pointers l \<le> length bindings"
  shows "\<exists>args. pack_arguments bytes bindings l scalar bound = Some args \<and> fits l args
    \<and> scalar_bytes args = take (scalars l) (drop scalar bytes)
    \<and> buffer_args args = map (\<lambda>v. (gb_native (gv_owner v), gv_offset v)) (take (pointers l) (drop bound bindings))"
  using assms
proof (induction bytes bindings l scalar bound rule: pack_arguments.induct)
  case (1 bytes bindings scalar bound)
  then show ?case by (simp add: scalars_def pointers_def fits_simps)
next
  case (2 bytes bindings kind n rest scalar bound)
  show ?case
  proof (cases "kind = 1")
    case True
    have split: "scalars ((kind, n) # rest) = n + scalars rest" "pointers ((kind, n) # rest) = pointers rest" using True by (simp_all add: scalars_def pointers_def)
    have "scalar + n \<le> length bytes" "scalar + n + scalars rest \<le> length bytes" "bound + pointers rest \<le> length bindings" using "2.prems" split by simp_all
    then obtain args where args: "pack_arguments bytes bindings rest (scalar + n) bound = Some args" "fits rest args"
      "scalar_bytes args = take (scalars rest) (drop (scalar + n) bytes)"
      "buffer_args args = map (\<lambda>v. (gb_native (gv_owner v), gv_offset v)) (take (pointers rest) (drop bound bindings))"
      using "2.IH"(1) [OF True] by blast
    have "take (n + scalars rest) (drop scalar bytes) = take n (drop scalar bytes) @ take (scalars rest) (drop (scalar + n) bytes)"
      by (simp only: take_add drop_drop add.commute [of n scalar])
    then show ?thesis unfolding split using True \<open>scalar + n \<le> length bytes\<close> args by (simp add: fits_simps)
  next
    case False
    have split: "scalars ((kind, n) # rest) = scalars rest" "pointers ((kind, n) # rest) = Suc (pointers rest)" using False by (simp_all add: scalars_def pointers_def)
    have b: "bound < length bindings" "bound + 1 + pointers rest \<le> length bindings" "scalar + scalars rest \<le> length bytes" using "2.prems" split by simp_all
    then obtain args where args: "pack_arguments bytes bindings rest scalar (bound + 1) = Some args" "fits rest args"
      "scalar_bytes args = take (scalars rest) (drop scalar bytes)"
      "buffer_args args = map (\<lambda>v. (gb_native (gv_owner v), gv_offset v)) (take (pointers rest) (drop (bound + 1) bindings))"
      using "2.IH"(2) [OF False] by blast
    have "drop bound bindings = bindings ! bound # drop (Suc bound) bindings" using b(1) by (simp add: Cons_nth_drop_Suc)
    then show ?thesis using False b(1) split args by (simp add: fits_simps)
  qed
qed

text \<open>A checked launch has at most 1024 workitems, so narrowing its workgroup to 16 bits keeps it.\<close>

lemma narrow_checked:
  assumes "launch_checks k grid block constants bindings = Inr ()"
  shows "narrow block = block"
proof -
  obtain b1 b2 b3 where block: "block = (b1, b2, b3)" by (cases block)
  obtain g1 g2 g3 where grid: "grid = (g1, g2, g3)" by (cases grid)
  obtain c1 c2 c3 where c: "ei_workgroup_size (rk_info k) = (c1, c2, c3)" by (cases "ei_workgroup_size (rk_info k)")
  have b: "0 < b1" "0 < b2" "0 < b3" "b1 * b2 * b3 \<le> 1024"
    using assms by (auto simp: launch_checks_def and_then_Inr_iff block grid c launch_accepted_iff)
  have "b1 dvd b1 * b2 * b3" "b2 dvd b1 * b2 * b3" "b3 dvd b1 * b2 * b3" by simp_all
  moreover have "0 < b1 * b2 * b3" using b(1-3) by simp
  ultimately have "b1 \<le> 1024" "b2 \<le> 1024" "b3 \<le> 1024" using b(4) by (meson dvd_imp_le le_trans)+
  then show ?thesis by (simp add: block)
qed

text \<open>
  What it means for a command to be the one of a dispatch: the launch passed its checks, and some native preparation of this entry with this grid, this
  workgroup and these arguments answered it. The arguments have the layout of the kernel, their values are together the constant block, and
  their buffers are the bound ranges in order.
\<close>

definition prepared_for ::
  "stream_env \<Rightarrow> runtime_kernel \<Rightarrow> dims \<Rightarrow> dims \<Rightarrow> nat list \<Rightarrow> (usize \<times> usize \<times> usize) list \<Rightarrow> command \<Rightarrow> bool" where
  "prepared_for env k grid block bytes bound c \<longleftrightarrow>
     rk_device k = se_device env \<and> validate_export_launch (ei_workgroup_size (rk_info k)) grid block = Inr ()
     \<and> length bytes = ei_constant_bytes (rk_info k) \<and> length bound = ei_binding_count (rk_info k)
     \<and> (\<exists>t args p. fits (rk_layout k) args \<and> scalar_bytes args = bytes \<and> buffer_args args = map (\<lambda>(n, off, len). (n, off)) bound
          \<and> (if se_aql env then se_native env t (PrepareAql (rk_native k) grid block args) = Inr p \<and> c = AqlCommand p
             else se_native env t (PrepareGpu (rk_native k) grid block args) = Inr p \<and> c = GpuCommand p 0))"

text \<open>For a loaded kernel preparing a dispatch never panics, and a command it returns is the one of the dispatch.\<close>

lemma prepare_dispatch_exact:
  assumes "kernel_loaded entries k" "constants_ok constants"
  shows "\<exists>r. prepare_dispatch env t False k grid block constants bindings = Some r
    \<and> (\<forall>c. r = Inr c \<longrightarrow> prepared_for env k grid block (as_bytes constants)
          (map (\<lambda>v. (gb_native (gv_owner v), gv_offset v, gv_length v)) bindings) c)"
proof (cases "rk_device k = se_device env \<and> launch_checks k grid block constants bindings = Inr ()
    \<and> try_all (\<lambda>v. owns (se_device env) (gv_owner v)) bindings = Inr ()")
  case False
  then show ?thesis
    by (cases "launch_checks k grid block constants bindings"; cases "try_all (\<lambda>v. owns (se_device env) (gv_owner v)) bindings")
      (auto simp: prepare_dispatch_def)
next
  case True
  then have checks: "launch_checks k grid block constants bindings = Inr ()" by simp
  then have len: "cb_len constants = scalars (rk_layout k)" "length bindings = pointers (rk_layout k)"
    and valid: "validate_export_launch (ei_workgroup_size (rk_info k)) grid block = Inr ()"
    using loaded_counts [OF assms(1)] by (auto simp: launch_checks_def and_then_Inr_iff split: if_splits)
  obtain args where args: "pack_arguments (cb_bytes constants) bindings (rk_layout k) 0 0 = Some args" "fits (rk_layout k) args"
    "scalar_bytes args = take (scalars (rk_layout k)) (drop 0 (cb_bytes constants))"
    "buffer_args args = map (\<lambda>v. (gb_native (gv_owner v), gv_offset v)) (take (pointers (rk_layout k)) (drop 0 bindings))"
    using pack_arguments_exact [of 0 "rk_layout k" "cb_bytes constants" 0 bindings] assms(2) len by (auto simp: constants_ok_def)
  have packed: "scalar_bytes args = as_bytes constants" "buffer_args args = map (\<lambda>v. (gb_native (gv_owner v), gv_offset v)) bindings"
    using args(3,4) len by (simp_all add: as_bytes_def)
  have sz: "length (as_bytes constants) = ei_constant_bytes (rk_info k)" "length bindings = ei_binding_count (rk_info k)"
    using assms(2) len loaded_counts [OF assms(1)] by (simp_all add: as_bytes_def constants_ok_def)
  let ?req = "(if se_aql env then PrepareAql else PrepareGpu) (rk_native k) grid block args"
  have run: "prepare_dispatch env t False k grid block constants bindings =
      Some (and_then (se_native env t ?req) (\<lambda>p. Inr (if se_aql env then AqlCommand p else GpuCommand p 0)))"
    using True args(1) narrow_checked [OF checks] by (simp add: prepare_dispatch_def prepare_aql_def)
  have "prepared_for env k grid block (as_bytes constants) (map (\<lambda>v. (gb_native (gv_owner v), gv_offset v, gv_length v)) bindings)
      (if se_aql env then AqlCommand p else GpuCommand p 0)" if "se_native env t ?req = Inr p" for p
    unfolding prepared_for_def using True valid sz
    by (intro conjI exI [of _ t] exI [of _ args] exI [of _ p]) (use args(2) packed that in \<open>auto simp: comp_def\<close>)
  then show ?thesis by (auto simp: run and_then_Inr_iff)
qed


section \<open>Command caches\<close>

text \<open>
  The cache of dispatches and the cache of transfers belong to the shared part of a stream; \<open>mine\<close> says which buffers this stream allocated.
\<close>

record cached_dispatch =
  cd_kernel :: runtime_kernel
  cd_grid :: dims
  cd_block :: dims
  cd_constants :: constants
  cd_bindings :: "(usize \<times> usize \<times> usize) list"
  cd_command :: command

record cached_transfer =
  ct_destination :: usize
  ct_destination_offset :: usize
  ct_length :: usize
  ct_source :: "(usize \<times> usize) option"
  ct_value :: nat
  ct_command :: command

record command_caches =
  ch_dispatches :: "cached_dispatch list"
  ch_transfers :: "cached_transfer list"

definition DISPATCH_CACHE_ENTRIES :: usize where
  "DISPATCH_CACHE_ENTRIES = 1024"

definition DISPATCH_CACHE_BYTES :: usize where
  "DISPATCH_CACHE_BYTES = 16 * 2 ^ 20"

definition caches_new :: command_caches where
  "caches_new = \<lparr>ch_dispatches = [], ch_transfers = []\<rparr>"

fun bindings_match :: "(usize \<times> usize \<times> usize) list \<Rightarrow> gview list \<Rightarrow> bool" where
  "bindings_match ((buffer, off, len) # bs) (v # vs) \<longleftrightarrow>
     (buffer = gb_native (gv_owner v) \<and> off = gv_offset v \<and> len = gv_length v) \<and> bindings_match bs vs"
| "bindings_match _ _ \<longleftrightarrow> True"

definition dispatch_matches :: "runtime_kernel \<Rightarrow> dims \<Rightarrow> dims \<Rightarrow> constants \<Rightarrow> gview list \<Rightarrow> cached_dispatch \<Rightarrow> bool" where
  "dispatch_matches k grid block constants bindings entry \<longleftrightarrow>
     rk_native (cd_kernel entry) = rk_native k \<and> cd_grid entry = grid \<and> cd_block entry = block \<and> as_bytes (cd_constants entry) = as_bytes constants
     \<and> length (cd_bindings entry) = length bindings \<and> bindings_match (cd_bindings entry) bindings"

definition retained_bytes :: "cached_dispatch list \<Rightarrow> nat" where
  "retained_bytes es = sum_list (map (\<lambda>e. storage_bytes (cd_command e)) es)"

text \<open>Eviction from the front until the new command fits; removing from an empty cache would panic.\<close>

fun evict_dispatches :: "usize \<Rightarrow> cached_dispatch list \<Rightarrow> usize \<Rightarrow> cached_dispatch list option" where
  "evict_dispatches bytes [] retained =
     (if DISPATCH_CACHE_ENTRIES \<le> 0 \<or> retained + bytes > DISPATCH_CACHE_BYTES then None else Some [])"
| "evict_dispatches bytes (e # es) retained =
     (if length (e # es) \<ge> DISPATCH_CACHE_ENTRIES \<or> retained + bytes > DISPATCH_CACHE_BYTES
      then evict_dispatches bytes es (retained - storage_bytes (cd_command e))
      else Some (e # es))"

definition binding_key :: "gview \<Rightarrow> usize \<times> usize \<times> usize" where
  "binding_key v = (gb_native (gv_owner v), gv_offset v, gv_length v)"

text \<open>
  \<^verbatim>\<open>Stream::dispatch\<close>. The outcome is the result, the command handed to submission if there was one, the caches and the stream. A lock of a cache is
  poisoned only by a panic of a thread that holds it.
\<close>

definition cache_dispatch ::
  "runtime_kernel \<Rightarrow> dims \<Rightarrow> dims \<Rightarrow> constants \<Rightarrow> gview list \<Rightarrow> command \<Rightarrow> command_caches \<Rightarrow> command_caches option" where
  "cache_dispatch k grid block constants bindings c caches =
     (if storage_bytes c > DISPATCH_CACHE_BYTES then Some caches
      else map_option (\<lambda>es. caches\<lparr>ch_dispatches := es @
               [\<lparr>cd_kernel = k, cd_grid = grid, cd_block = block, cd_constants = constants,
                 cd_bindings = map binding_key bindings, cd_command = c\<rparr>]\<rparr>)
             (evict_dispatches (storage_bytes c) (ch_dispatches caches) (retained_bytes (ch_dispatches caches))))"

definition submit_command :: "submit_answer \<Rightarrow> command \<Rightarrow> gpu_stream \<Rightarrow> unit result \<times> gpu_stream" where
  "submit_command a c s = stream_submit (command_engine c) (pn_natives (command_native c)) a s"

definition view_reservations :: "gview list \<Rightarrow> nat set" where
  "view_reservations vs = set (concat (map (\<lambda>v. case gb_reservation (gv_owner v) of None \<Rightarrow> [] | Some r \<Rightarrow> [r]) vs))"

definition stream_dispatch ::
  "stream_env \<Rightarrow> nat \<Rightarrow> (gpu_buffer \<Rightarrow> bool) \<Rightarrow> runtime_kernel \<Rightarrow> dims \<Rightarrow> dims \<Rightarrow> constants \<Rightarrow> gview list \<Rightarrow> submit_answer \<Rightarrow> command_caches \<Rightarrow> gpu_stream
     \<Rightarrow> (unit result \<times> command option \<times> command_caches \<times> gpu_stream) option" where
  "stream_dispatch env t mine k grid block constants bindings a caches s =
     (let s0 = s\<lparr>gs_budget_uses := gs_budget_uses s \<union> view_reservations bindings\<rparr>;
          owned = list_all (\<lambda>v. mine (gv_owner v)) bindings
      in case (if owned then find (dispatch_matches k grid block constants bindings) (ch_dispatches caches) else None) of
           Some entry \<Rightarrow> (let (r, s1) = submit_command a (cd_command entry) s0 in Some (r, Some (cd_command entry), caches, s1))
         | None \<Rightarrow>
             (case prepare_dispatch env t False k grid block constants bindings of
                None \<Rightarrow> None
              | Some (Inl e) \<Rightarrow> Some (Inl e, None, caches, s0)
              | Some (Inr c) \<Rightarrow>
                  (case submit_command a c s0 of
                     (Inl e, s1) \<Rightarrow> Some (Inl e, Some c, caches, s1)
                   | (Inr _, s1) \<Rightarrow>
                       if owned then map_option (\<lambda>caches1. (Inr (), Some c, caches1, s1)) (cache_dispatch k grid block constants bindings c caches)
                       else Some (Inr (), Some c, caches, s1))))"

text \<open>\<^verbatim>\<open>Inner::prepare_fill\<close> and \<^verbatim>\<open>Inner::prepare_copy\<close>: the command comes from the cache or is prepared and cached.\<close>

definition push_transfer :: "cached_transfer \<Rightarrow> command_caches \<Rightarrow> command_caches" where
  "push_transfer t caches =
     caches\<lparr>ch_transfers := (if length (ch_transfers caches) = 128 then tl (ch_transfers caches) else ch_transfers caches) @ [t]\<rparr>"

definition cached_transfer_command ::
  "bool \<Rightarrow> (cached_transfer \<Rightarrow> bool) \<Rightarrow> (command \<Rightarrow> cached_transfer) \<Rightarrow> command result \<Rightarrow> command_caches \<Rightarrow> command result \<times> command_caches" where
  "cached_transfer_command owned matches entry prepared caches =
     (case find matches (ch_transfers caches) of
        Some t \<Rightarrow> (Inr (ct_command t), caches)
      | None \<Rightarrow>
          (case prepared of
             Inl e \<Rightarrow> (Inl e, caches)
           | Inr c \<Rightarrow> (Inr c, if owned then push_transfer (entry c) caches else caches)))"

definition fill_entry :: "gview \<Rightarrow> nat \<Rightarrow> command \<Rightarrow> cached_transfer" where
  "fill_entry dst v c =
     \<lparr>ct_destination = gb_native (gv_owner dst), ct_destination_offset = gv_offset dst, ct_length = gv_length dst,
      ct_source = None, ct_value = v, ct_command = c\<rparr>"

definition copy_entry :: "gview \<Rightarrow> gview \<Rightarrow> command \<Rightarrow> cached_transfer" where
  "copy_entry dst src c =
     \<lparr>ct_destination = gb_native (gv_owner dst), ct_destination_offset = gv_offset dst, ct_length = gv_length dst,
      ct_source = Some (gb_native (gv_owner src), gv_offset src), ct_value = 0, ct_command = c\<rparr>"

definition same_destination :: "gview \<Rightarrow> cached_transfer \<Rightarrow> bool" where
  "same_destination dst t \<longleftrightarrow>
     ct_destination t = gb_native (gv_owner dst) \<and> ct_destination_offset t = gv_offset dst \<and> ct_length t = gv_length dst"

definition sdma_command :: "stream_env \<Rightarrow> prepared_native result \<Rightarrow> command result" where
  "sdma_command env r = and_then r (\<lambda>c. Inr (GpuCommand c (if se_sdma env then 1 else 0)))"

definition prepare_fill_cached ::
  "stream_env \<Rightarrow> nat \<Rightarrow> (gpu_buffer \<Rightarrow> bool) \<Rightarrow> gview \<Rightarrow> nat \<Rightarrow> command_caches \<Rightarrow> command result \<times> command_caches" where
  "prepare_fill_cached env t mine dst v caches =
     (case owns (se_device env) (gv_owner dst) of
        Inl e \<Rightarrow> (Inl e, caches)
      | Inr _ \<Rightarrow>
          cached_transfer_command (mine (gv_owner dst)) (\<lambda>x. same_destination dst x \<and> ct_source x = None \<and> ct_value x = v)
            (fill_entry dst v)
            (sdma_command env (se_native env t (PrepareFill (se_sdma env) (gb_native (gv_owner dst)) (gv_offset dst) (gv_length dst) v))) caches)"

definition prepare_copy_cached ::
  "stream_env \<Rightarrow> nat \<Rightarrow> (gpu_buffer \<Rightarrow> bool) \<Rightarrow> gview \<Rightarrow> gview \<Rightarrow> command_caches \<Rightarrow> command result \<times> command_caches" where
  "prepare_copy_cached env t mine dst src caches =
     (case and_then (owns (se_device env) (gv_owner dst)) (\<lambda>_. owns (se_device env) (gv_owner src)) of
        Inl e \<Rightarrow> (Inl e, caches)
      | Inr _ \<Rightarrow>
          if gv_length dst \<noteq> gv_length src then (Inl (Message ''copy requires equal spans''), caches)
          else cached_transfer_command (mine (gv_owner dst) \<and> mine (gv_owner src))
                 (\<lambda>x. same_destination dst x \<and> ct_source x = Some (gb_native (gv_owner src), gv_offset src))
                 (copy_entry dst src)
                 (sdma_command env (se_native env t
                    (PrepareCopy (se_sdma env) (gb_native (gv_owner dst)) (gv_offset dst) (gb_native (gv_owner src)) (gv_offset src) (gv_length src)))) caches)"

text \<open>The eviction when a buffer of this stream is dropped.\<close>

definition evict_buffer :: "usize \<Rightarrow> command_caches \<Rightarrow> command_caches" where
  "evict_buffer native caches =
     \<lparr>ch_dispatches = filter (\<lambda>e. \<not> list_ex (\<lambda>(buffer, _, _). buffer = native) (cd_bindings e)) (ch_dispatches caches),
      ch_transfers = filter (\<lambda>t. ct_destination t \<noteq> native
                        \<and> \<not> (case ct_source t of None \<Rightarrow> False | Some (buffer, _) \<Rightarrow> buffer = native)) (ch_transfers caches)\<rparr>"


section \<open>What the caches hold\<close>

text \<open>
  Every cached dispatch is of a loaded kernel and is the command of exactly its own launch; every cached transfer was answered by native preparation
  for exactly its own ranges; all name only allocations in \<open>live\<close>.
\<close>

definition dispatch_natives :: "cached_dispatch \<Rightarrow> nat set" where
  "dispatch_natives e = fst ` set (cd_bindings e)"

definition transfer_natives :: "cached_transfer \<Rightarrow> nat set" where
  "transfer_natives t = insert (ct_destination t) (fst ` set_option (ct_source t))"

definition dispatch_ok :: "(nat \<Rightarrow> native_entry) \<Rightarrow> stream_env \<Rightarrow> cached_dispatch \<Rightarrow> bool" where
  "dispatch_ok entries env e \<longleftrightarrow>
     kernel_loaded entries (cd_kernel e)
     \<and> prepared_for env (cd_kernel e) (cd_grid e) (cd_block e) (as_bytes (cd_constants e)) (cd_bindings e) (cd_command e)"

definition transfer_request :: "stream_env \<Rightarrow> cached_transfer \<Rightarrow> request" where
  "transfer_request env t =
     (case ct_source t of
        None \<Rightarrow> PrepareFill (se_sdma env) (ct_destination t) (ct_destination_offset t) (ct_length t) (ct_value t)
      | Some (src, off) \<Rightarrow> PrepareCopy (se_sdma env) (ct_destination t) (ct_destination_offset t) src off (ct_length t))"

definition transfer_ok :: "stream_env \<Rightarrow> cached_transfer \<Rightarrow> bool" where
  "transfer_ok env t \<longleftrightarrow> (\<exists>n. sdma_command env (se_native env n (transfer_request env t)) = Inr (ct_command t))"

definition caches_ok :: "(nat \<Rightarrow> native_entry) \<Rightarrow> stream_env \<Rightarrow> nat set \<Rightarrow> command_caches \<Rightarrow> bool" where
  "caches_ok entries env live caches \<longleftrightarrow>
     length (ch_dispatches caches) \<le> DISPATCH_CACHE_ENTRIES \<and> retained_bytes (ch_dispatches caches) \<le> DISPATCH_CACHE_BYTES
     \<and> length (ch_transfers caches) \<le> 128
     \<and> (\<forall>e\<in>set (ch_dispatches caches). dispatch_ok entries env e \<and> dispatch_natives e \<subseteq> live)
     \<and> (\<forall>t\<in>set (ch_transfers caches). transfer_ok env t \<and> transfer_natives t \<subseteq> live)"

lemma bindings_match_iff: "length bs = length vs \<Longrightarrow> bindings_match bs vs \<longleftrightarrow> bs = map binding_key vs"
  by (induction bs vs rule: bindings_match.induct) (auto simp: binding_key_def)

lemma dispatch_matches_ok:
  assumes "dispatch_matches k grid block constants bindings e" "dispatch_ok entries env e" "kernel_loaded entries k"
  shows "prepared_for env k grid block (as_bytes constants) (map binding_key bindings) (cd_command e)"
proof -
  have "cd_kernel e = k" using assms loaded_unique [of entries "cd_kernel e" k] by (auto simp: dispatch_matches_def dispatch_ok_def)
  then show ?thesis using assms(1,2) by (auto simp: dispatch_matches_def dispatch_ok_def bindings_match_iff)
qed

lemma retained_bytes_simps [simp]:
  "retained_bytes [] = 0" "retained_bytes (e # es) = storage_bytes (cd_command e) + retained_bytes es"
  "retained_bytes (xs @ ys) = retained_bytes xs + retained_bytes ys"
  by (simp_all add: retained_bytes_def)

lemma retained_bytes_filter: "retained_bytes (filter P es) \<le> retained_bytes es"
  by (induction es) auto

text \<open>Eviction never reaches an empty cache and leaves a suffix with room for the new command.\<close>

lemma evict_dispatches_ok:
  assumes "bytes \<le> DISPATCH_CACHE_BYTES"
  shows "\<exists>es'. evict_dispatches bytes es (retained_bytes es) = Some es' \<and> set es' \<subseteq> set es
    \<and> length es' < DISPATCH_CACHE_ENTRIES \<and> retained_bytes es' + bytes \<le> DISPATCH_CACHE_BYTES"
proof (induction es)
  case Nil
  then show ?case using assms by (simp add: DISPATCH_CACHE_ENTRIES_def)
next
  case (Cons e es)
  then show ?case by auto
qed

lemma caches_ok_mono: "caches_ok entries env live caches \<Longrightarrow> live \<subseteq> live' \<Longrightarrow> caches_ok entries env live' caches"
  unfolding caches_ok_def by blast

lemma caches_new_ok: "caches_ok entries env live caches_new"
  by (simp add: caches_ok_def caches_new_def)

lemma evict_buffer_ok:
  assumes "caches_ok entries env live caches"
  shows "caches_ok entries env (live - {n}) (evict_buffer n caches)"
proof -
  have d: "dispatch_ok entries env e \<and> dispatch_natives e \<subseteq> live - {n}" if "e \<in> set (ch_dispatches (evict_buffer n caches))" for e
  proof -
    have "dispatch_ok entries env e" "dispatch_natives e \<subseteq> live" "\<not> list_ex (\<lambda>(buffer, _, _). buffer = n) (cd_bindings e)"
      using that assms by (auto simp: evict_buffer_def caches_ok_def)
    then show ?thesis by (auto simp: dispatch_natives_def list_ex_iff)
  qed
  have t: "transfer_ok env t \<and> transfer_natives t \<subseteq> live - {n}" if "t \<in> set (ch_transfers (evict_buffer n caches))" for t
  proof -
    have "transfer_ok env t" "transfer_natives t \<subseteq> live" "ct_destination t \<noteq> n"
      "\<not> (case ct_source t of None \<Rightarrow> False | Some (buffer, _) \<Rightarrow> buffer = n)"
      using that assms by (auto simp: evict_buffer_def caches_ok_def)
    then show ?thesis by (auto simp: transfer_natives_def split: option.splits)
  qed
  have "length (ch_dispatches (evict_buffer n caches)) \<le> length (ch_dispatches caches)"
    "length (ch_transfers (evict_buffer n caches)) \<le> length (ch_transfers caches)"
    "retained_bytes (ch_dispatches (evict_buffer n caches)) \<le> retained_bytes (ch_dispatches caches)"
    by (simp_all add: evict_buffer_def retained_bytes_filter)
  then show ?thesis using assms d t unfolding caches_ok_def by (meson le_trans)
qed

lemma cache_dispatch_ok:
  assumes ok: "caches_ok entries env live caches" and k: "kernel_loaded entries k"
    and c: "prepared_for env k grid block (as_bytes constants) (map binding_key bindings) c"
    and live: "\<forall>v\<in>set bindings. gb_native (gv_owner v) \<in> live"
  shows "\<exists>caches'. cache_dispatch k grid block constants bindings c caches = Some caches' \<and> caches_ok entries env live caches'"
proof (cases "storage_bytes c > DISPATCH_CACHE_BYTES")
  case True
  then show ?thesis using ok by (simp add: cache_dispatch_def)
next
  case False
  then obtain es where es: "evict_dispatches (storage_bytes c) (ch_dispatches caches) (retained_bytes (ch_dispatches caches)) = Some es"
    "set es \<subseteq> set (ch_dispatches caches)" "length es < DISPATCH_CACHE_ENTRIES" "retained_bytes es + storage_bytes c \<le> DISPATCH_CACHE_BYTES"
    using evict_dispatches_ok by (metis not_less)
  define e where "e = \<lparr>cd_kernel = k, cd_grid = grid, cd_block = block, cd_constants = constants, cd_bindings = map binding_key bindings, cd_command = c\<rparr>"
  have "dispatch_ok entries env e" "dispatch_natives e \<subseteq> live"
    using live k c by (auto simp: e_def dispatch_ok_def dispatch_natives_def binding_key_def)
  then have "caches_ok entries env live (caches\<lparr>ch_dispatches := es @ [e]\<rparr>)"
    using es ok by (auto simp: caches_ok_def) (simp add: e_def)
  then show ?thesis using False es(1) by (simp add: cache_dispatch_def e_def)
qed

text \<open>A dispatch never panics; the command it submits, from the cache or new, is the one of this dispatch.\<close>

lemma stream_dispatch_ok:
  assumes ok: "caches_ok entries env live caches" and k: "kernel_loaded entries k" and constants: "constants_ok constants"
    and mine: "\<forall>v\<in>set bindings. mine (gv_owner v) \<longrightarrow> gb_native (gv_owner v) \<in> live"
  shows "\<exists>r submitted caches' s'. stream_dispatch env t mine k grid block constants bindings a caches s = Some (r, submitted, caches', s')
    \<and> caches_ok entries env live caches'
    \<and> (\<forall>c. submitted = Some c \<longrightarrow> prepared_for env k grid block (as_bytes constants) (map binding_key bindings) c)"
proof -
  define s0 where "s0 = s\<lparr>gs_budget_uses := gs_budget_uses s \<union> view_reservations bindings\<rparr>"
  define owned where "owned = list_all (\<lambda>v. mine (gv_owner v)) bindings"
  define found where "found = (if owned then find (dispatch_matches k grid block constants bindings) (ch_dispatches caches) else None)"
  let ?for = "prepared_for env k grid block (as_bytes constants) (map binding_key bindings)"
  have key: "map (\<lambda>v. (gb_native (gv_owner v), gv_offset v, gv_length v)) bindings = map binding_key bindings" by (simp add: binding_key_def)
  obtain p where p: "prepare_dispatch env t False k grid block constants bindings = Some p" "\<And>c. p = Inr c \<Longrightarrow> ?for c"
    using prepare_dispatch_exact [OF k constants, of env t grid block bindings] unfolding key by blast
  have unf: "stream_dispatch env t mine k grid block constants bindings a caches s =
      (case found of
         Some entry \<Rightarrow> (let (r, s1) = submit_command a (cd_command entry) s0 in Some (r, Some (cd_command entry), caches, s1))
       | None \<Rightarrow>
           (case p of
              Inl e \<Rightarrow> Some (Inl e, None, caches, s0)
            | Inr c \<Rightarrow>
                (case submit_command a c s0 of
                   (Inl e, s1) \<Rightarrow> Some (Inl e, Some c, caches, s1)
                 | (Inr _, s1) \<Rightarrow>
                     if owned then map_option (\<lambda>caches1. (Inr (), Some c, caches1, s1)) (cache_dispatch k grid block constants bindings c caches)
                     else Some (Inr (), Some c, caches, s1))))"
    by (simp only: stream_dispatch_def Let_def found_def s0_def owned_def p(1) option.case)
  show ?thesis
  proof (cases found)
    case (Some e)
    then have "e \<in> set (ch_dispatches caches)" "dispatch_matches k grid block constants bindings e"
      by (auto simp: found_def find_Some_iff split: if_splits)
    then have "?for (cd_command e)" using ok k by (auto simp: caches_ok_def intro: dispatch_matches_ok)
    then show ?thesis using ok Some by (simp add: unf split: prod.splits)
  next
    case None
    show ?thesis
    proof (cases "\<exists>c s1. p = Inr c \<and> submit_command a c s0 = (Inr (), s1) \<and> owned")
      case True
      then obtain c s1 where c: "p = Inr c" "submit_command a c s0 = (Inr (), s1)" "owned" by blast
      have "\<forall>v\<in>set bindings. gb_native (gv_owner v) \<in> live" using mine c(3) by (auto simp: list_all_iff owned_def)
      then obtain caches' where "cache_dispatch k grid block constants bindings c caches = Some caches'" "caches_ok entries env live caches'"
        using cache_dispatch_ok [OF ok k p(2) [OF c(1)]] by blast
      then show ?thesis unfolding unf using c None p(2) by simp
    next
      case False
      then show ?thesis using None p(2) ok by (auto simp: unf split: prod.splits sum.splits)
    qed
  qed
qed

lemma push_transfer_ok:
  assumes "caches_ok entries env live caches" "transfer_ok env t" "transfer_natives t \<subseteq> live"
  shows "caches_ok entries env live (push_transfer t caches)"
  using assms by (cases "ch_transfers caches") (auto simp: caches_ok_def push_transfer_def)

text \<open>A transfer from the cache or new was answered for its own request.\<close>

lemma cached_transfer_command_ok:
  assumes ok: "caches_ok entries env live caches"
    and matches: "\<And>x. matches x \<Longrightarrow> transfer_request env x = req"
    and entry: "\<And>c. transfer_request env (entry c) = req \<and> ct_command (entry c) = c" "\<And>c. owned \<Longrightarrow> transfer_natives (entry c) \<subseteq> live"
    and res: "cached_transfer_command owned matches entry (sdma_command env (se_native env t req)) caches = (r, caches')"
  shows "caches_ok entries env live caches' \<and> (\<forall>c. r = Inr c \<longrightarrow> (\<exists>n. sdma_command env (se_native env n req) = Inr c))"
proof (cases "find matches (ch_transfers caches)")
  case (Some x)
  then have "x \<in> set (ch_transfers caches)" "transfer_request env x = req" using matches by (auto simp: find_Some_iff)
  then have "\<exists>n. sdma_command env (se_native env n req) = Inr (ct_command x)" using ok by (auto simp: caches_ok_def transfer_ok_def)
  then show ?thesis using Some res ok by (auto simp: cached_transfer_command_def)
next
  case None
  show ?thesis
  proof (cases "sdma_command env (se_native env t req)")
    case (Inl e)
    then show ?thesis using None res ok by (auto simp: cached_transfer_command_def)
  next
    case (Inr c)
    have "caches_ok entries env live (push_transfer (entry c) caches)" if "owned"
      by (rule push_transfer_ok [OF ok]) (use entry(1) [of c] entry(2) [OF that] Inr in \<open>auto simp: transfer_ok_def\<close>)
    then show ?thesis using None Inr res ok by (auto simp: cached_transfer_command_def split: if_splits)
  qed
qed

lemma prepare_fill_cached_ok:
  assumes "caches_ok entries env live caches" "mine (gv_owner dst) \<Longrightarrow> gb_native (gv_owner dst) \<in> live"
    "prepare_fill_cached env t mine dst v caches = (r, caches')"
  shows "caches_ok entries env live caches' \<and> (\<forall>c. r = Inr c \<longrightarrow>
    (\<exists>n. sdma_command env (se_native env n (PrepareFill (se_sdma env) (gb_native (gv_owner dst)) (gv_offset dst) (gv_length dst) v)) = Inr c))"
proof (cases "owns (se_device env) (gv_owner dst)")
  case (Inl e)
  then show ?thesis using assms by (auto simp: prepare_fill_cached_def)
next
  case (Inr u)
  show ?thesis
    by (rule cached_transfer_command_ok [where matches = "\<lambda>x. same_destination dst x \<and> ct_source x = None \<and> ct_value x = v" and entry = "fill_entry dst v" and owned = "mine (gv_owner dst)" and caches = caches and t = t])
      (use assms Inr in \<open>auto simp: prepare_fill_cached_def transfer_request_def transfer_natives_def fill_entry_def same_destination_def\<close>)
qed

lemma prepare_copy_cached_ok:
  assumes "caches_ok entries env live caches" "mine (gv_owner dst) \<Longrightarrow> gb_native (gv_owner dst) \<in> live" "mine (gv_owner src) \<Longrightarrow> gb_native (gv_owner src) \<in> live"
    "prepare_copy_cached env t mine dst src caches = (r, caches')"
  shows "caches_ok entries env live caches' \<and> (\<forall>c. r = Inr c \<longrightarrow>
    (\<exists>n. sdma_command env (se_native env n
       (PrepareCopy (se_sdma env) (gb_native (gv_owner dst)) (gv_offset dst) (gb_native (gv_owner src)) (gv_offset src) (gv_length src))) = Inr c))"
proof (cases "is_ok (and_then (owns (se_device env) (gv_owner dst)) (\<lambda>_. owns (se_device env) (gv_owner src))) \<and> gv_length dst = gv_length src")
  case False
  then show ?thesis using assms by (auto simp: prepare_copy_cached_def is_ok_iff split: sum.splits if_splits)
next
  case True
  show ?thesis
    by (rule cached_transfer_command_ok [where matches = "\<lambda>x. same_destination dst x \<and> ct_source x = Some (gb_native (gv_owner src), gv_offset src)" and entry = "copy_entry dst src"
          and owned = "mine (gv_owner dst) \<and> mine (gv_owner src)" and caches = caches and t = t])
      (use assms True in \<open>auto simp: prepare_copy_cached_def transfer_request_def transfer_natives_def copy_entry_def same_destination_def is_ok_iff\<close>)
qed


text \<open>
  Histories of one stream: \<open>live\<close> are the allocations of its buffers. A dropped buffer evicts the commands that name it before its storage is released.
  Each step makes at most one native request, the \<open>t\<close>-th.
\<close>

definition views_live :: "(gpu_buffer \<Rightarrow> bool) \<Rightarrow> nat set \<Rightarrow> gview list \<Rightarrow> bool" where
  "views_live mine live vs \<longleftrightarrow> list_all (\<lambda>v. mine (gv_owner v) \<longrightarrow> gb_native (gv_owner v) \<in> live) vs"

inductive cache_reach :: "(nat \<Rightarrow> native_entry) \<Rightarrow> stream_env \<Rightarrow> nat set \<Rightarrow> command_caches \<Rightarrow> bool" for entries env where
  cr_new: "cache_reach entries env {} caches_new"
| cr_allocate: "cache_reach entries env live caches \<Longrightarrow> cache_reach entries env (insert n live) caches"
| cr_drop: "cache_reach entries env live caches \<Longrightarrow> cache_reach entries env (live - {n}) (evict_buffer n caches)"
| cr_dispatch:
    "cache_reach entries env live caches \<Longrightarrow> kernel_loaded entries k \<Longrightarrow> constants_ok constants \<Longrightarrow> views_live mine live bindings \<Longrightarrow>
     stream_dispatch env t mine k grid block constants bindings a caches s = Some (r, submitted, caches', s') \<Longrightarrow>
     cache_reach entries env live caches'"
| cr_fill:
    "cache_reach entries env live caches \<Longrightarrow> views_live mine live [dst] \<Longrightarrow>
     prepare_fill_cached env t mine dst v caches = (rc, caches') \<Longrightarrow> cache_reach entries env live caches'"
| cr_copy:
    "cache_reach entries env live caches \<Longrightarrow> views_live mine live [dst, src] \<Longrightarrow>
     prepare_copy_cached env t mine dst src caches = (rc, caches') \<Longrightarrow> cache_reach entries env live caches'"

lemma cache_reach_ok: "cache_reach entries env live caches \<Longrightarrow> caches_ok entries env live caches"
proof (induction rule: cache_reach.induct)
  case cr_new
  then show ?case by (rule caches_new_ok)
next
  case (cr_allocate live caches n)
  then show ?case by (auto intro: caches_ok_mono)
next
  case (cr_drop live caches n)
  then show ?case by (simp add: evict_buffer_ok)
next
  case (cr_dispatch live caches k constants mine bindings t grid block a s r submitted caches' s')
  have "\<forall>v\<in>set bindings. mine (gv_owner v) \<longrightarrow> gb_native (gv_owner v) \<in> live" using cr_dispatch.hyps(4) by (simp add: views_live_def list_all_iff)
  from stream_dispatch_ok [OF cr_dispatch.IH cr_dispatch.hyps(2,3) this, of t grid block a s] cr_dispatch.hyps(5)
  show ?case by auto
next
  case (cr_fill live caches mine dst t v rc caches')
  then show ?case using prepare_fill_cached_ok [OF cr_fill.IH _ cr_fill.hyps(3)] by (simp add: views_live_def)
next
  case (cr_copy live caches mine dst src t rc caches')
  then show ?case using prepare_copy_cached_ok [OF cr_copy.IH _ _ cr_copy.hyps(3)] by (simp add: views_live_def)
qed


section \<open>Cached commands are exact\<close>

text \<open>
  C25: in every reachable state of the command caches a dispatch of a loaded kernel ends without a panic, in the preparation, in the packing of the arguments
  and in the eviction. The command it submits, from the cache or new, was answered by native preparation, on the queue of this stream, for exactly this kernel entry, grid and
  workgroup, with arguments of the kernel's layout whose values are exactly these constant bytes and whose buffers are these bound ranges in order. Afterwards the
  dispatch cache is within its limits of entries and retained bytes, the transfer cache holds at most 128 commands, every cached transfer was
  answered for exactly the ranges and value it is found by, and every cached command names only allocations whose buffers the stream still owns.
\<close>

theorem cached_commands_exact:
  assumes "cache_reach entries env live caches" "kernel_loaded entries k" "constants_ok constants" "views_live mine live bindings"
  shows "\<exists>r submitted caches' s'. stream_dispatch env t mine k grid block constants bindings a caches s = Some (r, submitted, caches', s')
    \<and> (\<forall>c. submitted = Some c \<longrightarrow> prepared_for env k grid block (as_bytes constants) (map binding_key bindings) c)
    \<and> length (ch_dispatches caches') \<le> DISPATCH_CACHE_ENTRIES \<and> retained_bytes (ch_dispatches caches') \<le> DISPATCH_CACHE_BYTES
    \<and> length (ch_transfers caches') \<le> 128
    \<and> (\<forall>e\<in>set (ch_dispatches caches'). dispatch_natives e \<subseteq> live)
    \<and> (\<forall>x\<in>set (ch_transfers caches'). transfer_ok env x \<and> transfer_natives x \<subseteq> live)"
proof -
  have "\<forall>v\<in>set bindings. mine (gv_owner v) \<longrightarrow> gb_native (gv_owner v) \<in> live" using assms(4) by (simp add: views_live_def list_all_iff)
  from stream_dispatch_ok [OF cache_reach_ok [OF assms(1)] assms(2,3) this, of t grid block a s] show ?thesis
    unfolding caches_ok_def by blast
qed

text \<open>A kernel of one buffer and one four-byte constant, on a PM4 queue that answers every request with a command named after the time.\<close>

definition demo_entries :: "nat \<Rightarrow> native_entry" where
  "demo_entries i = \<lparr>ne_device = 0, ne_workgroup = (16, 2, 2), ne_arguments = [Inr (2, 8), Inr (1, 4)]\<rparr>"

definition demo_kernel :: runtime_kernel where
  "demo_kernel = \<lparr>rk_native = 3, rk_device = 0,
     rk_info = \<lparr>ei_workgroup_size = (16, 2, 2), ei_parameter_count = 2, ei_constant_bytes = 4, ei_binding_count = 1\<rparr>,
     rk_layout = [(2, 8), (1, 4)]\<rparr>"

definition demo_env :: stream_env where
  "demo_env = \<lparr>se_device = 0, se_aql = False, se_sdma = False, se_native = (\<lambda>t r. Inr \<lparr>pn_id = t, pn_natives = {7}, pn_storage_bytes = 256\<rparr>)\<rparr>"

definition demo_constants :: constants where
  "demo_constants = \<lparr>cb_bytes = [1, 2, 3, 4] @ replicate 252 0, cb_len = 4\<rparr>"

definition demo_gbuffer :: gpu_buffer where
  "demo_gbuffer = \<lparr>gb_addr = 1, gb_native = 7, gb_bytes = 64, gb_device = 0, gb_reservation = None\<rparr>"

definition demo_command :: "nat \<Rightarrow> command" where
  "demo_command i = GpuCommand \<lparr>pn_id = i, pn_natives = {7}, pn_storage_bytes = 256\<rparr> 0"

definition demo_caches :: command_caches where
  "demo_caches = caches_new\<lparr>ch_dispatches := [\<lparr>cd_kernel = demo_kernel, cd_grid = (4, 2, 2), cd_block = (16, 2, 2), cd_constants = demo_constants,
      cd_bindings = [(7, 0, 64)], cd_command = demo_command 0\<rparr>]\<rparr>"

lemma demo_loaded: "kernel_loaded demo_entries demo_kernel" "constants_ok demo_constants"
  by (simp_all add: kernel_loaded_def from_native_def argument_layout_def demo_entries_def demo_kernel_def constants_ok_def demo_constants_def u32_MAX_def)

lemma demo_prepare:
  "prepare_dispatch demo_env 0 False demo_kernel (4, 2, 2) (16, 2, 2) demo_constants [binding demo_gbuffer] = Some (Inr (demo_command 0))"
proof -
  have "validate_export_launch (16, 2, 2) (4, 2, 2) (16, 2, 2) = Inr ()" by (simp add: launch_accepted_iff)
  then show ?thesis
    by (simp add: prepare_dispatch_def launch_checks_def demo_kernel_def demo_env_def demo_constants_def binding_def demo_gbuffer_def owns_def demo_command_def)
qed

lemma demo_dispatch:
  "stream_dispatch demo_env 0 (\<lambda>b. gb_native b = 7) demo_kernel (4, 2, 2) (16, 2, 2) demo_constants [binding demo_gbuffer] demo_submit_answer
     caches_new (stream_new 0) = Some (Inr (), Some (demo_command 0), demo_caches, publish_parts 0 {7} 1 (stream_new 0))"
proof -
  have "ch_dispatches caches_new = []" by (simp add: caches_new_def)
  then show ?thesis
    by (simp add: stream_dispatch_def demo_prepare Let_def)
      (simp add: demo_gbuffer_def binding_def caches_new_def submit_command_def demo_command_def stream_submit_def switches_def stream_new_def
      demo_submit_answer_def publish_parts_def cache_dispatch_def storage_bytes_def DISPATCH_CACHE_BYTES_def DISPATCH_CACHE_ENTRIES_def binding_key_def demo_caches_def
      view_reservations_def Let_def)
qed

theorem cached_commands_exact_witness:
  "\<exists>r s'. stream_dispatch demo_env 1 (\<lambda>b. gb_native b = 7) demo_kernel (4, 2, 2) (16, 2, 2) demo_constants [binding demo_gbuffer] demo_submit_answer
      demo_caches (stream_new 0) = Some (r, Some (demo_command 0), demo_caches, s')
    \<and> prepared_for demo_env demo_kernel (4, 2, 2) (16, 2, 2) [1, 2, 3, 4] [(7, 0, 64)] (demo_command 0)"
proof -
  let ?bs = "[binding demo_gbuffer]"
  have live: "views_live (\<lambda>b. gb_native b = 7) {7} ?bs" by (simp add: views_live_def binding_def demo_gbuffer_def)
  have reach: "cache_reach demo_entries demo_env {7} demo_caches"
    by (rule cr_dispatch [OF cr_allocate [OF cr_new] demo_loaded live demo_dispatch])
  obtain r submitted caches' s' where run: "stream_dispatch demo_env 1 (\<lambda>b. gb_native b = 7) demo_kernel (4, 2, 2) (16, 2, 2) demo_constants ?bs demo_submit_answer
      demo_caches (stream_new 0) = Some (r, submitted, caches', s')"
    "\<And>c. submitted = Some c \<Longrightarrow> prepared_for demo_env demo_kernel (4, 2, 2) (16, 2, 2) (as_bytes demo_constants) (map binding_key ?bs) c"
    using cached_commands_exact [OF reach demo_loaded live, of 1 "(4, 2, 2)" "(16, 2, 2)" demo_submit_answer "stream_new 0"] by auto
  have hit: "dispatch_matches demo_kernel (4, 2, 2) (16, 2, 2) demo_constants ?bs
      \<lparr>cd_kernel = demo_kernel, cd_grid = (4, 2, 2), cd_block = (16, 2, 2), cd_constants = demo_constants, cd_bindings = [(7, 0, 64)], cd_command = demo_command 0\<rparr>"
    by (simp add: dispatch_matches_def binding_def demo_gbuffer_def)
  have "submitted = Some (demo_command 0) \<and> caches' = demo_caches"
    using run(1) hit by (auto simp: stream_dispatch_def Let_def demo_caches_def binding_def demo_gbuffer_def split: prod.splits)
  moreover have "as_bytes demo_constants = [1, 2, 3, 4]" "map binding_key ?bs = [(7, 0, 64)]"
    by (simp_all add: as_bytes_def demo_constants_def binding_key_def binding_def demo_gbuffer_def)
  ultimately show ?thesis using run by auto
qed

end
