(* ===== verification/Aql_Queue.thy ===== *)
theory Aql_Queue
  imports Native_Queue
begin

text \<open>
  AQL queues, \<^verbatim>\<open>src/src/fabric/aql.rs\<close>: validation of a launch and its packets, publication into the packet ring, completion
  signals that count down, retirement with the leases of the buffers, and firmware timestamps. A prepared dispatch and its
  work are one entry of a store. Values that a thread reads without a lock (a signal, the read index) are arguments: the histories below allow any
  value the word had so far.
\<close>

unbundle bit_operations_syntax

type_synonym packet = "u32w list"

definition i64_MAX :: int where
  "i64_MAX = 2 ^ 63 - 1"


section \<open>Creating a queue\<close>

record aql_topology =
  at_xcc_count :: nat
  at_shader_engine_count :: nat
  at_compute_unit_count :: nat
  at_wave_count :: nat

definition div_ceil :: "nat \<Rightarrow> nat \<Rightarrow> nat" where
  "div_ceil a b = (a + b - 1) div b"

definition next_multiple_of :: "nat \<Rightarrow> nat \<Rightarrow> nat" where
  "next_multiple_of a b = div_ceil a b * b"

text \<open>Bytes and waves of the scratch pool; the fields are 32-bit, so only the last product can overflow.\<close>

definition aql_scratch :: "nat \<Rightarrow> aql_topology \<Rightarrow> (usize \<times> nat) option result" where
  "aql_scratch private_bytes t =
     (if private_bytes = 0 then Inr None
      else let engines = at_xcc_count t * at_shader_engine_count t
      in if engines = 0 then Inl (Unsupported ''empty AQL scratch topology'')
         else let slots = div_ceil (at_compute_unit_count t) engines * engines * at_wave_count t
         in case checked_mul (next_multiple_of (private_bytes * 64) 1024) slots of
              None \<Rightarrow> Inl (Unsupported ''AQL scratch exceeds the 512 MiB admission limit'')
            | Some bytes \<Rightarrow>
                if bytes \<noteq> 0 \<and> bytes \<le> 512 * 1024 * 1024 \<and> slots \<le> 2 ^ 32 - 1 then Inr (Some (bytes, slots))
                else Inl (Unsupported ''AQL scratch exceeds the 512 MiB admission limit''))"

definition aql_mapping_accepted :: "nat \<Rightarrow> mapping_info \<Rightarrow> bool" where
  "aql_mapping_accepted command m \<longleftrightarrow>
     \<not> (mi_command m \<noteq> command \<or> mi_format_version m \<noteq> 1 \<or> mi_index_bits m \<noteq> 64 \<or> mi_doorbell_bits m \<noteq> 64
        \<or> \<not> is_power_of_two (mi_ring_byte_length m) \<or> mi_ring_byte_length m < 128
        \<or> list_ex (\<lambda>a. a = 0 \<or> a mod 8 \<noteq> 0) (mi_addresses m))"


section \<open>Preparing a dispatch\<close>

type_synonym axes = "nat \<times> nat \<times> nat"

definition axis_extent :: "nat \<Rightarrow> nat \<Rightarrow> nat \<Rightarrow> nat result" where
  "axis_extent workgroup grid block =
     (if block = 0 \<or> grid = 0 \<or> (workgroup \<noteq> 0 \<and> workgroup \<noteq> block) then Inl (Message ''AQL launch geometry does not match kernel'')
      else if grid * block > 2 ^ 32 - 1 then Inl (Message ''AQL grid extent overflow'')
      else Inr (grid * block))"

definition aql_extents :: "axes \<Rightarrow> axes \<Rightarrow> axes \<Rightarrow> axes result" where
  "aql_extents workgroup grid block =
     (case (workgroup, grid, block) of
        ((wx, wy, wz), (gx, gy, gz), (bx, by', bz)) \<Rightarrow>
          and_then (axis_extent wx gx bx) (\<lambda>ex.
          and_then (axis_extent wy gy by') (\<lambda>ey.
          and_then (axis_extent wz gz bz) (\<lambda>ez.
          if bx * by' * bz > 1024 then Inl (Message ''AQL workgroup exceeds gfx1151 capacity'') else Inr (ex, ey, ez)))))"

definition invalidation_words :: "bool \<Rightarrow> u32w list" where
  "invalidation_words gfx9 =
     (if gfx9 then barrier Gfx9
      else [0xc0065800, 0, - 1, 0xff, 0, 0, 0x0a,
            1 OR push_bit 4 1 OR push_bit 5 1 OR push_bit 7 1 OR push_bit 8 1 OR push_bit 9 1 OR push_bit 14 1 OR push_bit 15 1])"

definition publish_packet :: "nat \<Rightarrow> nat \<Rightarrow> packet result" where
  "publish_packet ib count =
     (if ib \<ge> 2 ^ 48 \<or> ib + count * 4 > 2 ^ 48
      then Inl (Unsupported ''AQL publication IB is outside the 48-bit address domain'')
      else Inr ([push_bit 16 1 OR push_bit 8 1, 0xc0023f00, low_word ib, high_word ib, push_bit 23 1 OR word_of_nat count, 10]
                @ replicate 10 0))"

record dispatch_info =
  di_private_bytes :: nat
  di_local_bytes :: nat
  di_descriptor :: nat
  di_kernarg :: nat
  di_signal :: nat

definition dispatch_packet :: "axes \<Rightarrow> axes \<Rightarrow> dispatch_info \<Rightarrow> packet" where
  "dispatch_packet block extents d =
     (case (block, extents) of
        ((bx, by', bz), (ex, ey, ez)) \<Rightarrow>
          [2 OR push_bit 8 1 OR push_bit 9 2 OR push_bit 11 2 OR push_bit 16 3,
           word_of_nat bx OR push_bit 16 (word_of_nat by'), word_of_nat bz,
           word_of_nat ex, word_of_nat ey, word_of_nat ez,
           word_of_nat (di_private_bytes d), word_of_nat (di_local_bytes d),
           low_word (di_descriptor d), high_word (di_descriptor d),
           low_word (di_kernarg d), high_word (di_kernarg d), 0, 0,
           low_word (di_signal d), high_word (di_signal d)])"

text \<open>With a race-state clear its dispatch packet goes first, without a completion signal of its own.\<close>

definition clear_packet :: "packet list \<Rightarrow> packet" where
  "clear_packet packets = (last packets)[14 := 0, 15 := 0]"

definition aql_packets :: "packet \<Rightarrow> packet list option \<Rightarrow> packet \<Rightarrow> packet list" where
  "aql_packets publish clear dispatch =
     publish # (case clear of None \<Rightarrow> [] | Some ps \<Rightarrow> [clear_packet ps]) @ [dispatch]"

text \<open>Checks before anything is allocated, and the buffers a work retains: sorted by identity, without repeats.\<close>

definition aql_admit :: "bool \<Rightarrow> nat \<Rightarrow> nat \<Rightarrow> axes \<Rightarrow> axes \<Rightarrow> axes \<Rightarrow> axes result" where
  "aql_admit same_device private_bytes maximum_private_bytes workgroup grid block =
     (if \<not> same_device then Inl (Message ''AQL kernel belongs to another device'')
      else if private_bytes > maximum_private_bytes then Inl (Unsupported ''kernel exceeds fixed AQL scratch capacity'')
      else aql_extents workgroup grid block)"

definition aql_buffers :: "nat list \<Rightarrow> nat list \<Rightarrow> nat \<Rightarrow> nat \<Rightarrow> nat list" where
  "aql_buffers bound clear kernarg publication = remdups_adj (sort (bound @ clear @ [kernarg, publication]))"

definition aql_storage_bytes :: "usize \<Rightarrow> (nat \<Rightarrow> usize) \<Rightarrow> nat list \<Rightarrow> nat list \<Rightarrow> usize" where
  "aql_storage_bytes signal_len len arguments buffers =
     signal_len + sum_list (map len (filter (\<lambda>b. b \<notin> set arguments) buffers))"

lemma aql_buffers_exact:
  "sorted (aql_buffers bound clear kernarg publication)" "distinct (aql_buffers bound clear kernarg publication)"
  "set (aql_buffers bound clear kernarg publication) = set bound \<union> set clear \<union> {kernarg, publication}"
  "aql_buffers bound clear kernarg publication \<noteq> []"
proof -
  have s: "sorted (sort (bound @ clear @ [kernarg, publication]))" by simp
  show "sorted (aql_buffers bound clear kernarg publication)" unfolding aql_buffers_def using s by (rule sorted_remdups_adj)
  have "distinct (remdups_adj xs)" if "sorted xs" for xs :: "nat list"
    using that by (induction xs rule: remdups_adj.induct) (auto simp: less_le)
  then show "distinct (aql_buffers bound clear kernarg publication)" using s by (simp add: aql_buffers_def)
  show set: "set (aql_buffers bound clear kernarg publication) = set bound \<union> set clear \<union> {kernarg, publication}"
    by (auto simp: aql_buffers_def)
  show "aql_buffers bound clear kernarg publication \<noteq> []" using set by (metis Un_empty insert_not_empty list.set(1))
qed


section \<open>State\<close>

record aql_work =
  aw_packets :: "packet list"
  aw_buffers :: "nat list"
  aw_signal :: int
  aw_stamps :: "nat \<times> nat"
  aw_leases :: "nat list"
  aw_active :: nat
  aw_retired :: nat
  aw_next :: nat
  aw_timing :: "nat option"

record aql_queue =
  aq_works :: "nat \<Rightarrow> aql_work"
  aq_capacity :: nat
  aq_ring :: "packet list"
  aq_write :: nat
  aq_read_index :: nat
  aq_write_index :: nat
  aq_doorbell :: nat
  aq_pending :: "(nat \<times> nat) list"
  aq_profiled :: bool
  aq_captures :: "(nat \<times> nat) option list"
  aq_uses :: "nat \<Rightarrow> nat"
  aq_status :: "nat option"

record aql_completion =
  ac_work :: nat
  ac_point :: nat
  ac_timing :: "nat option"

definition aql_queue_new :: "bool \<Rightarrow> mapping_info \<Rightarrow> packet list \<Rightarrow> aql_queue" where
  "aql_queue_new timestamps m ring =
     \<lparr>aq_works = (\<lambda>_. \<lparr>aw_packets = [], aw_buffers = [], aw_signal = i64_MAX, aw_stamps = (0, 0), aw_leases = [], aw_active = 0,
         aw_retired = 0, aw_next = 0, aw_timing = None\<rparr>),
      aq_capacity = mi_ring_byte_length m div 64, aq_ring = ring, aq_write = 0, aq_read_index = 0, aq_write_index = 0, aq_doorbell = 0,
      aq_pending = [], aq_profiled = timestamps, aq_captures = [], aq_uses = (\<lambda>_. 0), aq_status = None\<rparr>"

definition upd_work :: "nat \<Rightarrow> (aql_work \<Rightarrow> aql_work) \<Rightarrow> aql_queue \<Rightarrow> aql_queue" where
  "upd_work w f s = s\<lparr>aq_works := (aq_works s)(w := f (aq_works s w))\<rparr>"

definition aql_prepared :: "packet list \<Rightarrow> nat list \<Rightarrow> aql_work" where
  "aql_prepared packets buffers =
     \<lparr>aw_packets = packets, aw_buffers = buffers, aw_signal = i64_MAX, aw_stamps = (0, 0), aw_leases = [], aw_active = 0,
      aw_retired = 0, aw_next = 0, aw_timing = None\<rparr>"


section \<open>Retirement\<close>

text \<open>The part of \<^verbatim>\<open>Work::refresh\<close> under the lock of the leases; a capture is set once.\<close>

definition set_capture :: "nat option \<Rightarrow> nat \<times> nat \<Rightarrow> (nat \<times> nat) option list \<Rightarrow> (nat \<times> nat) option list" where
  "set_capture c ticks captures =
     (case c of
        None \<Rightarrow> captures
      | Some i \<Rightarrow> (case captures ! i of None \<Rightarrow> captures[i := Some ticks] | Some _ \<Rightarrow> captures))"

definition release_leases :: "nat \<Rightarrow> aql_queue \<Rightarrow> aql_queue" where
  "release_leases w s =
     upd_work w (\<lambda>x. x\<lparr>aw_leases := []\<rparr>) (s\<lparr>aq_uses := (\<lambda>b. aq_uses s b - count_list (aw_leases (aq_works s w)) b)\<rparr>)"

definition aql_retire :: "nat \<Rightarrow> nat \<Rightarrow> aql_queue \<Rightarrow> aql_queue" where
  "aql_retire completed w s =
     (let x = aq_works s w;
          s1 = (if completed \<ge> aw_active x
                then release_leases w (s\<lparr>aq_captures := set_capture (if aq_profiled s then aw_timing x else None) (aw_stamps x) (aq_captures s)\<rparr>)
                else s)
      in upd_work w (\<lambda>x. x\<lparr>aw_retired := max (aw_retired x) completed\<rparr>) s1)"

definition aql_refresh :: "int \<Rightarrow> nat \<Rightarrow> nat \<Rightarrow> aql_queue \<Rightarrow> bool result \<times> aql_queue" where
  "aql_refresh v w point s =
     (if aw_retired (aq_works s w) \<ge> point then (Inr True, s)
      else if v < 0 then (Inl (DeviceLost ''invalid AQL completion signal''), s)
      else let completed = nat (i64_MAX - v)
      in if completed < point then (Inr False, s)
         else (Inr True, aql_retire completed w s))"

fun aql_reap :: "(nat \<times> nat \<Rightarrow> int) \<Rightarrow> (nat \<times> nat) list \<Rightarrow> aql_queue \<Rightarrow> unit result \<times> aql_queue" where
  "aql_reap seen [] s = (Inr (), s\<lparr>aq_pending := []\<rparr>)"
| "aql_reap seen ((w, point) # rest) s =
     (case aql_refresh (seen (w, point)) w point s of
        (Inl e, s1) \<Rightarrow> (Inl e, s1\<lparr>aq_pending := (w, point) # rest\<rparr>)
      | (Inr False, s1) \<Rightarrow> (Inr (), s1\<lparr>aq_pending := (w, point) # rest\<rparr>)
      | (Inr True, s1) \<Rightarrow> aql_reap seen rest s1)"

definition aql_is_complete :: "aql_completion \<Rightarrow> aql_queue \<Rightarrow> bool" where
  "aql_is_complete c s \<longleftrightarrow> aw_retired (aq_works s (ac_work c)) \<ge> ac_point c"

text \<open>\<open>query\<close> is the answer of the native status call itself.\<close>

definition aql_completion_refresh ::
  "int \<Rightarrow> (nat \<times> nat \<Rightarrow> int) \<Rightarrow> unit result \<Rightarrow> aql_completion \<Rightarrow> aql_queue \<Rightarrow> bool result \<times> aql_queue" where
  "aql_completion_refresh v seen query c s =
     (case aql_refresh v (ac_work c) (ac_point c) s of
        (Inl e, s1) \<Rightarrow> (Inl e, s1)
      | (Inr False, s1) \<Rightarrow>
          (case query of
             Inl e \<Rightarrow> (Inl e, s1)
           | Inr _ \<Rightarrow>
               (case aq_status s1 of
                  Some status \<Rightarrow> (Inl (DeviceLost (''AQL queue status '' @ show_nat status)), s1)
                | None \<Rightarrow> (Inr False, s1)))
      | (Inr True, s1) \<Rightarrow>
          (case aql_reap seen (aq_pending s1) s1 of
             (Inl e, s2) \<Rightarrow> (Inl e, s2)
           | (Inr _, s2) \<Rightarrow> (Inr True, s2)))"

definition aql_timing ::
  "int \<Rightarrow> (nat \<times> nat \<Rightarrow> int) \<Rightarrow> unit result \<Rightarrow> aql_completion \<Rightarrow> aql_queue \<Rightarrow> (nat \<times> nat) option result \<times> aql_queue" where
  "aql_timing v seen query c s =
     (case ac_timing c of
        None \<Rightarrow> (Inl (Unsupported ''AQL dispatch timestamps were not enabled''), s)
      | Some capture \<Rightarrow>
          (case aql_completion_refresh v seen query c s of
             (Inl e, s1) \<Rightarrow> (Inl e, s1)
           | (Inr False, s1) \<Rightarrow> (Inr None, s1)
           | (Inr True, s1) \<Rightarrow>
               (case aq_captures s1 ! capture of
                  None \<Rightarrow> (Inl (Message ''missing AQL timestamp capture''), s1)
                | Some (start_tick, end_tick) \<Rightarrow>
                    if start_tick = 0 \<or> end_tick < start_tick
                    then (Inl (Message ''unwritten, reset or wrapped AQL timestamps''), s1)
                    else (Inr (Some (start_tick, end_tick)), s1))))"


section \<open>Publication\<close>

fun ring_store :: "nat \<Rightarrow> nat \<Rightarrow> packet list \<Rightarrow> packet list \<Rightarrow> packet list" where
  "ring_store capacity index [] ring = ring"
| "ring_store capacity index (p # ps) ring = ring_store capacity (index + 1) ps (ring[ring_mask capacity index := p])"

text \<open>The capture of a profiled dispatch replaces the one before, and the stamps of the signal are cleared.\<close>

definition begin_capture :: "nat \<Rightarrow> aql_queue \<Rightarrow> aql_queue" where
  "begin_capture w s =
     (if aq_profiled s
      then upd_work w (\<lambda>x. x\<lparr>aw_timing := Some (length (aq_captures s)), aw_stamps := (0, 0)\<rparr>) (s\<lparr>aq_captures := aq_captures s @ [None]\<rparr>)
      else s)"

definition aql_take_leases :: "(nat \<Rightarrow> error option) \<Rightarrow> nat \<Rightarrow> aql_queue \<Rightarrow> unit result \<times> aql_queue" where
  "aql_take_leases refuses w s =
     (let x = aq_works s w
      in if aw_leases x \<noteq> [] then (Inr (), s)
         else case first_refusal refuses (aw_buffers x) of
           Some e \<Rightarrow> (Inl e, s)
         | None \<Rightarrow>
             (Inr (), upd_work w (\<lambda>x. x\<lparr>aw_leases := aw_buffers x\<rparr>) (s\<lparr>aq_uses := (\<lambda>b. aq_uses s b + count_list (aw_buffers x) b)\<rparr>)))"

definition aql_publish :: "nat \<Rightarrow> nat \<Rightarrow> aql_queue \<Rightarrow> aql_queue" where
  "aql_publish w point s =
     (let x = aq_works s w; end_index = aq_write s + length (aw_packets x)
      in upd_work w (\<lambda>x. x\<lparr>aw_active := point, aw_next := point\<rparr>)
           (s\<lparr>aq_pending := aq_pending s @ [(w, point)], aq_write_index := end_index,
              aq_ring := ring_store (aq_capacity s) (aq_write s) (aw_packets x) (aq_ring s),
              aq_doorbell := (if aw_packets x = [] then aq_doorbell s else end_index - 1), aq_write := end_index\<rparr>))"

definition aql_dispatch ::
  "(nat \<times> nat \<Rightarrow> int) \<Rightarrow> nat \<Rightarrow> (nat \<Rightarrow> error option) \<Rightarrow> nat \<Rightarrow> aql_queue \<Rightarrow> aql_completion result \<times> aql_queue" where
  "aql_dispatch seen read_seen refuses w s =
     (let point = aw_next (aq_works s w) + 1
      in if int point > i64_MAX then (Inl (DeviceLost ''AQL timeline exhausted''), s)
         else case aql_reap seen (aq_pending s) s of
           (Inl e, s1) \<Rightarrow> (Inl e, s1)
         | (Inr _, s1) \<Rightarrow>
             let end_index = aq_write s1 + length (aw_packets (aq_works s1 w))
             in if end_index > usize_MAX then (Inl (DeviceLost ''AQL ring index exhausted''), s1)
                else if length (aq_pending s1) = 4096 \<or> saturating_sub end_index read_seen > aq_capacity s1
                then (Inl (Busy ''AQL ring or pending capacity exhausted''), s1)
                else if aq_profiled s1 \<and> aw_active (aq_works s1 w) > aw_retired (aq_works s1 w)
                then (Inl (Busy ''profiled AQL dispatch is still executing''), s1)
                else let s2 = begin_capture w s1
                in case aql_take_leases refuses w s2 of
                     (Inl e, s3) \<Rightarrow> (Inl e, s3)
                   | (Inr _, s3) \<Rightarrow>
                       (Inr \<lparr>ac_work = w, ac_point = point, ac_timing = (if aq_profiled s3 then aw_timing (aq_works s3 w) else None)\<rparr>,
                        aql_publish w point s3))"

text \<open>
  Dropping a queue waits for every pending submission; \<open>seen\<close> is the last value read for each before the deadline, \<open>destroyed\<close> the
  answer of the native calls. The storage is released only when everything retired and the native queue is gone, else it is leaked.
\<close>

fun aql_drain :: "(nat \<times> nat \<Rightarrow> int) \<Rightarrow> (nat \<times> nat) list \<Rightarrow> aql_queue \<Rightarrow> bool \<times> aql_queue" where
  "aql_drain seen [] s = (True, s)"
| "aql_drain seen ((w, point) # rest) s =
     (case aql_refresh (seen (w, point)) w point s of
        (Inr True, s1) \<Rightarrow> aql_drain seen rest s1
      | (_, s1) \<Rightarrow> (False, s1))"

definition aql_drop :: "(nat \<times> nat \<Rightarrow> int) \<Rightarrow> bool \<Rightarrow> aql_queue \<Rightarrow> bool \<times> aql_queue" where
  "aql_drop seen destroyed s =
     (case aql_drain seen (aq_pending s) s of (drained, s1) \<Rightarrow> (drained \<and> destroyed, s1))"



section \<open>Packets carry the launch\<close>

lemma or_push: "a < 2 ^ n \<Longrightarrow> (a :: nat) OR push_bit n b = a + b * 2 ^ n"
proof -
  assume a: "a < 2 ^ n"
  have t: "take_bit n a = a" using a by (simp add: take_bit_nat_eq_self)
  have "\<not> bit a k \<or> \<not> bit (push_bit n b) k" for k
    by (metis bit_push_bit_iff_nat bit_take_bit_iff not_less t)
  then have "a OR push_bit n b = a + push_bit n b" by (intro disjunctive_add_eq_or [symmetric] bit_eqI) (auto simp: bit_and_iff)
  then show ?thesis by (simp add: push_bit_eq_mult)
qed

lemma or_push_word: "a < 2 ^ n \<Longrightarrow> (word_of_nat a :: u32w) OR push_bit n (word_of_nat b) = word_of_nat (a + b * 2 ^ n)"
  by (simp only: push_bit_of_nat of_nat_or_eq [symmetric] or_push)

lemma axis_extent_Inr:
  "axis_extent workgroup grid block = Inr e \<longleftrightarrow>
     0 < block \<and> 0 < grid \<and> (workgroup = 0 \<or> workgroup = block) \<and> grid * block < 2 ^ 32 \<and> e = grid * block"
  by (auto simp: axis_extent_def)

text \<open>The words of a dispatch packet give back the launch that was accepted, and the addresses it was prepared with.\<close>

lemma dispatch_packet_exact:
  assumes "aql_extents workgroup (gx, gy, gz) (bx, b2, bz) = Inr extents"
    and "di_descriptor d < 2 ^ 64" "di_kernarg d < 2 ^ 64" "di_signal d < 2 ^ 64"
  defines "p \<equiv> map unat (dispatch_packet (bx, b2, bz) extents d)"
  shows "length p = 16" "p ! 1 mod 2 ^ 16 = bx" "p ! 1 div 2 ^ 16 = b2" "p ! 2 = bz"
    "p ! 3 = gx * bx" "p ! 4 = gy * b2" "p ! 5 = gz * bz"
    "p ! 8 + p ! 9 * 2 ^ 32 = di_descriptor d" "p ! 10 + p ! 11 * 2 ^ 32 = di_kernarg d" "p ! 14 + p ! 15 * 2 ^ 32 = di_signal d"
proof -
  obtain wx wy wz where wg: "workgroup = (wx, wy, wz)" by (cases workgroup)
  have ex: "extents = (gx * bx, gy * b2, gz * bz)" and pos: "0 < bx" "0 < b2" "0 < bz"
    and small: "gx * bx < 2 ^ 32" "gy * b2 < 2 ^ 32" "gz * bz < 2 ^ 32" and prod: "bx * b2 * bz \<le> 1024"
    using assms(1) by (auto simp: aql_extents_def wg and_then_Inr_iff axis_extent_Inr split: if_splits)
  have b: "bx \<le> bx * b2 * bz" "b2 \<le> bx * b2 * bz" "bz \<le> bx * b2 * bz" using pos by (simp_all add: mult.assoc)
  then have le: "bx \<le> 1024" "b2 \<le> 1024" "bz \<le> 1024" using prod by linarith+
  have word: "unat (word_of_nat k :: u32w) = k" if "k < 2 ^ 32" for k using that by (simp add: unat_of_nat take_bit_nat_eq_self)
  have halves: "unat (low_word a) + unat (high_word a) * 2 ^ 32 = a" if "a < 2 ^ 64" for a
  proof -
    have "a div 2 ^ 32 < 2 ^ 32" using that by (simp add: less_mult_imp_div_less)
    moreover have "unat (low_word a) = a mod 2 ^ 32" by (simp add: low_word_def unat_of_nat take_bit_eq_mod)
    ultimately show ?thesis by (simp add: high_word_def word)
  qed
  have first: "unat (word_of_nat bx OR push_bit 16 (word_of_nat b2) :: u32w) = bx + b2 * 2 ^ 16"
  proof -
    have "bx < 2 ^ 16" "bx + b2 * 2 ^ 16 < 2 ^ 32" using le by simp_all
    then show ?thesis by (simp only: or_push_word word)
  qed
  have p1: "p ! 1 = bx + b2 * 2 ^ 16" using first by (simp add: p_def dispatch_packet_def ex)
  show "p ! 1 mod 2 ^ 16 = bx" "p ! 1 div 2 ^ 16 = b2" unfolding p1 using le by simp_all
  show "length p = 16" by (simp add: p_def dispatch_packet_def ex)
  show "p ! 2 = bz" using le(3) word [of bz] by (simp add: p_def dispatch_packet_def ex)
  show "p ! 3 = gx * bx" "p ! 4 = gy * b2" "p ! 5 = gz * bz"
    using word [OF small(1)] word [OF small(2)] word [OF small(3)] by (simp_all add: p_def dispatch_packet_def ex)
  show "p ! 8 + p ! 9 * 2 ^ 32 = di_descriptor d" "p ! 10 + p ! 11 * 2 ^ 32 = di_kernarg d" "p ! 14 + p ! 15 * 2 ^ 32 = di_signal d"
    using halves [OF assms(2)] halves [OF assms(3)] halves [OF assms(4)] by (simp_all add: p_def dispatch_packet_def ex)
qed

text \<open>An accepted scratch pool is nonempty, within the limit, and has room for every wave.\<close>

lemma aql_scratch_ok:
  assumes "aql_scratch private_bytes t = Inr (Some (bytes, slots))"
  shows "0 < slots" "slots * (private_bytes * 64) \<le> bytes" "bytes \<le> 512 * 1024 * 1024" "at_compute_unit_count t * at_wave_count t \<le> slots"
proof -
  let ?e = "at_xcc_count t * at_shader_engine_count t"
  have e: "?e \<noteq> 0" and slots: "slots = div_ceil (at_compute_unit_count t) ?e * ?e * at_wave_count t"
    and bytes: "bytes = next_multiple_of (private_bytes * 64) 1024 * slots" "bytes \<noteq> 0" "bytes \<le> 512 * 1024 * 1024"
    using assms by (auto simp: aql_scratch_def Let_def split: if_splits option.splits)
  have up: "a \<le> div_ceil a b * b" if "0 < b" for a b :: nat
  proof -
    define q where "q = (a + b - 1) div b * b"
    have "a + b - 1 = q + (a + b - 1) mod b" by (simp add: q_def)
    moreover have "(a + b - 1) mod b < b" using that by simp
    ultimately have "a \<le> q" using that by linarith
    then show ?thesis by (simp add: div_ceil_def q_def)
  qed
  show "bytes \<le> 512 * 1024 * 1024" by (rule bytes(3))
  show "0 < slots" using bytes(1,2) by (cases slots) simp_all
  show "slots * (private_bytes * 64) \<le> bytes" using up [of 1024 "private_bytes * 64"] by (simp add: bytes(1) next_multiple_of_def mult.commute [of slots])
  show "at_compute_unit_count t * at_wave_count t \<le> slots" unfolding slots by (rule mult_right_mono [OF up]) (use e in simp_all)
qed

end
