(* ===== verification/Aql_Safety.thy ===== *)
theory Aql_Safety
  imports Aql_Queue
begin

text \<open>
  The life of an AQL queue under an asynchronous device. A history records the accepted dispatches in order with their timestamp
  captures, how many the device finished, and the timestamps it wrote for each. The device finishes dispatches in order (every packet
  carries the barrier bit) after reading their packets.
\<close>


section \<open>Histories\<close>

record aql_history =
  ah_works :: nat
  ah_log :: "(nat \<times> nat option) list"
  ah_done :: nat
  ah_ticks :: "(nat \<times> nat) list"

abbreviation logged :: "aql_history \<Rightarrow> nat \<Rightarrow> nat" where
  "logged h i \<equiv> fst (ah_log h ! i)"

definition issued :: "aql_history \<Rightarrow> nat \<Rightarrow> nat" where
  "issued h w = count_list (map fst (ah_log h)) w"

definition finished :: "aql_history \<Rightarrow> nat \<Rightarrow> nat" where
  "finished h w = count_list (map fst (take (ah_done h) (ah_log h))) w"

text \<open>The point of a logged dispatch on the timeline of its work.\<close>

definition point_at :: "aql_history \<Rightarrow> nat \<Rightarrow> nat" where
  "point_at h i = count_list (map fst (take (Suc i) (ah_log h))) (logged h i)"

definition packets_of :: "aql_queue \<Rightarrow> (nat \<times> nat option) list \<Rightarrow> packet list" where
  "packets_of s log = concat (map (\<lambda>(w, c). aw_packets (aq_works s w)) log)"

lemma count_take_mono:
  assumes "i \<le> j"
  shows "count_list (map f (take i xs)) x \<le> count_list (map f (take j xs)) x"
proof -
  have "take j xs = take i xs @ drop i (take j xs)" using assms by (metis append_take_drop_id min.absorb1 take_take)
  then have "count_list (map f (take j xs)) x = count_list (map f (take i xs)) x + count_list (map f (drop i (take j xs))) x"
    by (metis count_list_append map_append)
  then show ?thesis by simp
qed

lemma point_at_Suc: "i < length (ah_log h) \<Longrightarrow> point_at h i = Suc (count_list (map fst (take i (ah_log h))) (logged h i))"
  by (simp add: point_at_def take_Suc_conv_app_nth)

lemma point_le_issued: "i < length (ah_log h) \<Longrightarrow> point_at h i \<le> issued h (logged h i)"
  using count_take_mono [of "Suc i" "length (ah_log h)" fst "ah_log h" "logged h i"] by (simp add: point_at_def issued_def)

lemma point_finished_iff:
  assumes "i < length (ah_log h)"
  shows "point_at h i \<le> finished h (logged h i) \<longleftrightarrow> i < ah_done h"
proof
  assume le: "point_at h i \<le> finished h (logged h i)"
  show "i < ah_done h"
  proof (rule ccontr)
    assume "\<not> i < ah_done h"
    then have "finished h (logged h i) \<le> count_list (map fst (take i (ah_log h))) (logged h i)"
      unfolding finished_def by (intro count_take_mono) simp
    then show False using le point_at_Suc [OF assms] by simp
  qed
next
  assume "i < ah_done h"
  then show "point_at h i \<le> finished h (logged h i)"
    using count_take_mono [of "Suc i" "ah_done h" fst "ah_log h" "logged h i"] by (simp add: finished_def point_at_def)
qed

lemma point_less:
  assumes "i < j" "j < length (ah_log h)" "logged h i = logged h j"
  shows "point_at h i < point_at h j"
  using point_at_Suc [OF assms(2)] count_take_mono [of "Suc i" j fst "ah_log h" "logged h j"] assms by (simp add: point_at_def)

lemma point_inj:
  assumes "i < length (ah_log h)" "j < length (ah_log h)" "logged h i = logged h j" "point_at h i = point_at h j"
  shows "i = j"
  using point_less [of i j h] point_less [of j i h] assms by (cases i j rule: linorder_cases) auto

lemma finished_le_issued: "finished h w \<le> issued h w"
  using count_take_mono [of "ah_done h" "max (ah_done h) (length (ah_log h))" fst "ah_log h" w] by (simp add: finished_def issued_def)


section \<open>Invariants\<close>

definition aql_work_ok :: "aql_history \<Rightarrow> nat \<Rightarrow> aql_work \<Rightarrow> bool" where
  "aql_work_ok h w x \<longleftrightarrow>
     aw_packets x \<noteq> [] \<and> aw_buffers x \<noteq> [] \<and> aw_next x = issued h w \<and> aw_active x = issued h w \<and> int (issued h w) \<le> i64_MAX
     \<and> aw_signal x = i64_MAX - int (finished h w) \<and> aw_retired x \<le> finished h w
     \<and> (aw_leases x = [] \<or> aw_leases x = aw_buffers x) \<and> (finished h w < issued h w \<longrightarrow> aw_leases x = aw_buffers x)"

definition works_inv :: "aql_history \<Rightarrow> aql_queue \<Rightarrow> bool" where
  "works_inv h s \<longleftrightarrow>
     (\<forall>w<ah_works h. aql_work_ok h w (aq_works s w)) \<and> (\<forall>e\<in>set (ah_log h). fst e < ah_works h)
     \<and> ah_done h \<le> length (ah_log h) \<and> length (ah_ticks h) = ah_done h"

definition uses_inv :: "aql_history \<Rightarrow> aql_queue \<Rightarrow> bool" where
  "uses_inv h s \<longleftrightarrow> (\<forall>b. aq_uses s b = (\<Sum>w<ah_works h. count_list (aw_leases (aq_works s w)) b))"

definition ring_holds :: "nat \<Rightarrow> packet list \<Rightarrow> nat \<Rightarrow> packet list \<Rightarrow> bool" where
  "ring_holds capacity ring first stream \<longleftrightarrow>
     length ring = capacity \<and> first \<le> length stream \<and> length stream - first \<le> capacity
     \<and> (\<forall>i. first \<le> i \<and> i < length stream \<longrightarrow> ring ! (i mod capacity) = stream ! i)"

definition ring_inv :: "aql_history \<Rightarrow> aql_queue \<Rightarrow> bool" where
  "ring_inv h s \<longleftrightarrow>
     is_power_of_two (aq_capacity s) \<and> ring_holds (aq_capacity s) (aq_ring s) (aq_read_index s) (packets_of s (ah_log h))
     \<and> aq_write s = length (packets_of s (ah_log h)) \<and> aq_write_index s = aq_write s
     \<and> length (packets_of s (take (ah_done h) (ah_log h))) \<le> aq_read_index s"

definition capture_entry :: "aql_history \<Rightarrow> aql_queue \<Rightarrow> nat \<Rightarrow> nat \<Rightarrow> nat \<Rightarrow> bool" where
  "capture_entry h s i w c \<longleftrightarrow>
     c < length (aq_captures s)
     \<and> (point_at h i \<le> aw_retired (aq_works s w) \<longrightarrow> aq_captures s ! c = Some (ah_ticks h ! i))
     \<and> (aw_retired (aq_works s w) < point_at h i \<longrightarrow>
          aq_captures s ! c = None \<and> aw_timing (aq_works s w) = Some c \<and> point_at h i = issued h w
          \<and> (i < ah_done h \<longrightarrow> aw_stamps (aq_works s w) = ah_ticks h ! i))
     \<and> (\<forall>v. aw_timing (aq_works s v) = Some c \<longrightarrow> v = w)"

definition captures_inv :: "aql_history \<Rightarrow> aql_queue \<Rightarrow> bool" where
  "captures_inv h s \<longleftrightarrow>
     (\<forall>i<length (ah_log h). \<forall>w c. ah_log h ! i = (w, Some c) \<longrightarrow> capture_entry h s i w c)
     \<and> (\<forall>i<length (ah_log h). (snd (ah_log h ! i) \<noteq> None) = aq_profiled s)
     \<and> (\<forall>v c. aw_timing (aq_works s v) = Some c \<longrightarrow> c < length (aq_captures s))"

definition core_inv :: "aql_history \<Rightarrow> aql_queue \<Rightarrow> bool" where
  "core_inv h s \<longleftrightarrow> works_inv h s \<and> uses_inv h s \<and> ring_inv h s \<and> captures_inv h s"

definition entries_from :: "aql_history \<Rightarrow> nat \<Rightarrow> (nat \<times> nat) list" where
  "entries_from h k = map (\<lambda>i. (logged h i, point_at h i)) [k..<length (ah_log h)]"

definition pending_inv :: "aql_history \<Rightarrow> aql_queue \<Rightarrow> bool" where
  "pending_inv h s \<longleftrightarrow> length (aq_pending s) \<le> 4096 \<and> (\<exists>k\<le>ah_done h. aq_pending s = entries_from h k)"

definition aql_inv :: "aql_history \<Rightarrow> aql_queue \<Rightarrow> bool" where
  "aql_inv h s \<longleftrightarrow> core_inv h s \<and> pending_inv h s"

lemma capture_entryD:
  assumes "capture_entry h s i w c"
  shows "c < length (aq_captures s)" "point_at h i \<le> aw_retired (aq_works s w) \<Longrightarrow> aq_captures s ! c = Some (ah_ticks h ! i)"
    "aw_retired (aq_works s w) < point_at h i \<Longrightarrow> aq_captures s ! c = None" "aw_retired (aq_works s w) < point_at h i \<Longrightarrow> aw_timing (aq_works s w) = Some c"
    "aw_retired (aq_works s w) < point_at h i \<Longrightarrow> point_at h i = issued h w"
    "aw_retired (aq_works s w) < point_at h i \<Longrightarrow> i < ah_done h \<Longrightarrow> aw_stamps (aq_works s w) = ah_ticks h ! i"
    "aw_timing (aq_works s v) = Some c \<Longrightarrow> v = w"
  using assms by (simp_all add: capture_entry_def)

lemma capture_entry_retired:
  "c < length (aq_captures s) \<Longrightarrow> point_at h i \<le> aw_retired (aq_works s w) \<Longrightarrow> aq_captures s ! c = Some (ah_ticks h ! i) \<Longrightarrow>
     (\<And>v. aw_timing (aq_works s v) = Some c \<Longrightarrow> v = w) \<Longrightarrow> capture_entry h s i w c"
  by (auto simp: capture_entry_def)

lemma capture_entry_pending:
  "c < length (aq_captures s) \<Longrightarrow> aw_retired (aq_works s w) < point_at h i \<Longrightarrow> aq_captures s ! c = None \<Longrightarrow> aw_timing (aq_works s w) = Some c \<Longrightarrow>
     point_at h i = issued h w \<Longrightarrow> (i < ah_done h \<Longrightarrow> aw_stamps (aq_works s w) = ah_ticks h ! i) \<Longrightarrow>
     (\<And>v. aw_timing (aq_works s v) = Some c \<Longrightarrow> v = w) \<Longrightarrow> capture_entry h s i w c"
  unfolding capture_entry_def by (meson leD)

lemma works_invD:
  assumes "works_inv h s" "w < ah_works h"
  shows "aw_packets (aq_works s w) \<noteq> []" "aw_buffers (aq_works s w) \<noteq> []" "aw_next (aq_works s w) = issued h w"
    "aw_active (aq_works s w) = issued h w" "int (issued h w) \<le> i64_MAX" "aw_signal (aq_works s w) = i64_MAX - int (finished h w)"
    "aw_retired (aq_works s w) \<le> finished h w" "aw_leases (aq_works s w) = [] \<or> aw_leases (aq_works s w) = aw_buffers (aq_works s w)"
    "finished h w < issued h w \<Longrightarrow> aw_leases (aq_works s w) = aw_buffers (aq_works s w)"
  using assms by (simp_all add: works_inv_def aql_work_ok_def)


section \<open>Retirement\<close>

lemma sum_fun_upd:
  assumes "w < (n::nat)"
  shows "(\<Sum>k<n. f ((g(w := y)) k)) + f (g w) = (\<Sum>k<n. f (g k)) + (f y :: nat)"
proof -
  have fin: "finite {..<n}" "w \<in> {..<n}" using assms by simp_all
  have "(\<Sum>k\<in>{..<n} - {w}. f ((g(w := y)) k)) = (\<Sum>k\<in>{..<n} - {w}. f (g k))" by (rule sum.cong) auto
  then show ?thesis
    unfolding sum.remove [OF fin, of "\<lambda>k. f ((g(w := y)) k)"] sum.remove [OF fin, of "\<lambda>k. f (g k)"] by simp
qed

lemma aql_retire_fields:
  fixes s w defines "x \<equiv> aq_works s w"
  shows "aq_works (aql_retire completed w s) =
      (aq_works s)(w := x\<lparr>aw_leases := (if completed \<ge> aw_active x then [] else aw_leases x), aw_retired := max (aw_retired x) completed\<rparr>)"
    "aq_uses (aql_retire completed w s) = (if completed \<ge> aw_active x then (\<lambda>b. aq_uses s b - count_list (aw_leases x) b) else aq_uses s)"
    "aq_captures (aql_retire completed w s) =
      (if completed \<ge> aw_active x \<and> aq_profiled s then set_capture (aw_timing x) (aw_stamps x) (aq_captures s) else aq_captures s)"
    "aq_capacity (aql_retire completed w s) = aq_capacity s" "aq_ring (aql_retire completed w s) = aq_ring s"
    "aq_write (aql_retire completed w s) = aq_write s" "aq_read_index (aql_retire completed w s) = aq_read_index s"
    "aq_write_index (aql_retire completed w s) = aq_write_index s" "aq_pending (aql_retire completed w s) = aq_pending s"
    "aq_profiled (aql_retire completed w s) = aq_profiled s" "aq_status (aql_retire completed w s) = aq_status s"
  by (simp_all add: aql_retire_def release_leases_def upd_work_def Let_def x_def set_capture_def)

lemma set_capture_nth:
  "length (set_capture c ticks captures) = length captures"
  "i < length captures \<Longrightarrow> set_capture c ticks captures ! i = (if c = Some i \<and> captures ! i = None then Some ticks else captures ! i)"
  by (simp add: set_capture_def split: option.splits)
    (cases c; cases "c = Some i"; auto simp: set_capture_def split: option.splits)

lemma packets_of_cong: "(\<And>w. aw_packets (aq_works t w) = aw_packets (aq_works s w)) \<Longrightarrow> packets_of t log = packets_of s log"
  by (simp add: packets_of_def)

lemma aql_retire_ok:
  assumes inv: "core_inv h s" and w: "w < ah_works h" and c: "completed \<le> finished h w"
  shows "core_inv h (aql_retire completed w s)"
proof -
  let ?t = "aql_retire completed w s" and ?x = "aq_works s w"
  note f = aql_retire_fields [of completed w s]
  have works: "works_inv h s" and uses: "uses_inv h s" and ring: "ring_inv h s" and caps: "captures_inv h s" using inv by (simp_all add: core_inv_def)
  note D = works_invD [OF works w]
  have full: "completed \<ge> aw_active ?x \<Longrightarrow> finished h w = issued h w" using D(4) c finished_le_issued [of h w] by simp
  have "aql_work_ok h w (aq_works ?t w)" using D full c by (auto simp: aql_work_ok_def f(1))
  then have "aql_work_ok h k (aq_works ?t k)" if "k < ah_works h" for k
    using that works by (cases "k = w") (simp_all add: f(1) works_inv_def)
  then have "works_inv h ?t" using works by (simp add: works_inv_def)
  moreover have "uses_inv h ?t"
  proof (cases "completed \<ge> aw_active ?x")
    case True
    let ?y = "?x\<lparr>aw_leases := [], aw_retired := max (aw_retired ?x) completed\<rparr>"
    have "aq_uses ?t b = (\<Sum>k<ah_works h. count_list (aw_leases (aq_works ?t k)) b)" for b
    proof -
      have "(\<Sum>k<ah_works h. count_list (aw_leases (((aq_works s)(w := ?y)) k)) b) + count_list (aw_leases ?x) b = aq_uses s b"
        using sum_fun_upd [OF w, of "\<lambda>x. count_list (aw_leases x) b" "aq_works s" ?y] uses by (simp add: uses_inv_def)
      then show ?thesis using True by (simp add: f(1,2))
    qed
    then show ?thesis by (simp add: uses_inv_def)
  next
    case False
    then have "aw_leases (aq_works ?t k) = aw_leases (aq_works s k)" for k by (simp add: f(1))
    then show ?thesis using uses False by (simp add: uses_inv_def f(2))
  qed
  moreover have "packets_of ?t log = packets_of s log" for log by (rule packets_of_cong) (simp add: f(1))
  then have "ring_inv h ?t" using ring by (simp add: ring_inv_def f)
  moreover have "captures_inv h ?t"
  proof -
    have len: "length (aq_captures ?t) = length (aq_captures s)" by (simp add: f(3) set_capture_nth)
    have timing: "aw_timing (aq_works ?t v) = aw_timing (aq_works s v)" "aw_stamps (aq_works ?t v) = aw_stamps (aq_works s v)" for v
      by (simp_all add: f(1))
    have entry: "capture_entry h ?t i w' c'" if i: "i < length (ah_log h)" "ah_log h ! i = (w', Some c')" for i w' c'
    proof -
      have e: "capture_entry h s i w' c'" using caps i by (simp add: captures_inv_def)
      note old = capture_entryD [OF e]
      have prof: "aq_profiled s" using caps i by (force simp: captures_inv_def)
      show ?thesis
      proof (cases "w' = w")
        case False
        then have "aw_timing ?x \<noteq> Some c'" using old(7) by blast
        then have "aq_captures ?t ! c' = aq_captures s ! c'" using old(1) by (simp add: f(3) set_capture_nth)
        moreover have "aq_works ?t w' = aq_works s w'" using False by (simp add: f(1))
        ultimately show ?thesis using e by (simp add: capture_entry_def len timing)
      next
        case True
        have ret: "aw_retired (aq_works ?t w') = max (aw_retired ?x) completed" using True by (simp add: f(1))
        have own: "\<forall>v. aw_timing (aq_works ?t v) = Some c' \<longrightarrow> v = w'" using old(7) by (simp add: timing)
        show ?thesis
        proof (cases "point_at h i \<le> aw_retired ?x")
          case before: True
          then have "aq_captures s ! c' = Some (ah_ticks h ! i)" using old(2) True by simp
          then have "aq_captures ?t ! c' = Some (ah_ticks h ! i)" using old(1) by (simp add: f(3) set_capture_nth)
          then show ?thesis using before old(1) own by (intro capture_entry_retired) (auto simp: len ret)
        next
          case after: False
          then have o: "aq_captures s ! c' = None" "aw_timing ?x = Some c'" "point_at h i = issued h w" "i < ah_done h \<Longrightarrow> aw_stamps ?x = ah_ticks h ! i"
            using old(3-6) True by simp_all
          show ?thesis
          proof (cases "completed \<ge> aw_active ?x")
            case full': True
            have "point_at h i \<le> finished h (logged h i)" using o(3) full [OF full'] i(2) True by simp
            then have "i < ah_done h" using point_finished_iff [OF i(1)] by simp
            then have "aq_captures ?t ! c' = Some (ah_ticks h ! i)" using o full' prof old(1) by (simp add: f(3) set_capture_nth)
            moreover have "point_at h i \<le> max (aw_retired ?x) completed" using full' D(4) o(3) by simp
            ultimately have a: "c' < length (aq_captures ?t)" "point_at h i \<le> aw_retired (aq_works ?t w')" "aq_captures ?t ! c' = Some (ah_ticks h ! i)"
              using old(1) by (simp_all only: len ret)
            show ?thesis by (rule capture_entry_retired [OF a]) (use own in blast)
          next
            case False
            then have lt: "max (aw_retired ?x) completed < point_at h i" using D(4) o(3) after by simp
            have a: "c' < length (aq_captures ?t)" "aw_retired (aq_works ?t w') < point_at h i" "aq_captures ?t ! c' = None"
              "aw_timing (aq_works ?t w') = Some c'" "point_at h i = issued h w'"
              using old(1) lt o(1-3) False by (simp_all add: len ret [unfolded True] timing f(3) True)
            show ?thesis by (rule capture_entry_pending [OF a]) (use own o(4) True in \<open>simp add: timing\<close>, use own in blast)
          qed
        qed
      qed
    qed
    have prof: "aq_profiled ?t = aq_profiled s" by (rule f(10))
    show ?thesis using entry caps by (simp add: captures_inv_def timing prof len)
  qed
  ultimately show ?thesis by (simp add: core_inv_def)
qed


text \<open>What a thread may have read: a value the signal had, not below the current one.\<close>

definition signal_seen :: "aql_queue \<Rightarrow> nat \<Rightarrow> int \<Rightarrow> bool" where
  "signal_seen s w v \<longleftrightarrow> aw_signal (aq_works s w) \<le> v \<and> v \<le> i64_MAX"

definition retire_step :: "aql_history \<Rightarrow> aql_queue \<Rightarrow> aql_queue \<Rightarrow> bool" where
  "retire_step h s t \<longleftrightarrow> core_inv h t \<and> aq_pending t = aq_pending s \<and> aq_profiled t = aq_profiled s \<and> aq_read_index t = aq_read_index s
     \<and> aq_capacity t = aq_capacity s
     \<and> (\<forall>w. aw_signal (aq_works t w) = aw_signal (aq_works s w) \<and> aw_retired (aq_works s w) \<le> aw_retired (aq_works t w))"

text \<open>A refresh never finds an invalid signal; it answers true only when the point has retired.\<close>

lemma aql_refresh_ok:
  assumes inv: "core_inv h s" and w: "w < ah_works h" and v: "signal_seen s w v"
  obtains r t where "aql_refresh v w point s = (Inr r, t)" "retire_step h s t" "r \<longrightarrow> point \<le> aw_retired (aq_works t w)"
    "\<not> r \<longrightarrow> t = s" "\<not> r \<and> v = aw_signal (aq_works s w) \<longrightarrow> finished h w < point"
proof -
  have works: "works_inv h s" using inv by (simp add: core_inv_def)
  note D = works_invD [OF works w]
  have fin: "int (finished h w) \<le> i64_MAX" using D(5) finished_le_issued [of h w] by simp
  have v0: "\<not> v < 0" and c: "nat (i64_MAX - v) \<le> finished h w" using v D(6) fin by (auto simp: signal_seen_def)
  have refl: "retire_step h s s" using inv by (simp add: retire_step_def)
  consider "point \<le> aw_retired (aq_works s w)" | "aw_retired (aq_works s w) < point" "nat (i64_MAX - v) < point"
    | "aw_retired (aq_works s w) < point" "point \<le> nat (i64_MAX - v)" by linarith
  then show thesis
  proof cases
    case 1
    then show thesis using that [of True s] refl by (simp add: aql_refresh_def)
  next
    case 2
    have "v = aw_signal (aq_works s w) \<longrightarrow> finished h w < point" using 2(2) D(6) by auto
    then show thesis using that [of False s] refl 2 v0 by (simp add: aql_refresh_def Let_def)
  next
    case 3
    have "retire_step h s (aql_retire (nat (i64_MAX - v)) w s)"
      using aql_retire_ok [OF inv w c] by (simp add: retire_step_def aql_retire_fields)
    then show thesis using that [of True "aql_retire (nat (i64_MAX - v)) w s"] 3 v0 by (simp add: aql_refresh_def Let_def aql_retire_fields)
  qed
qed

lemma entries_from_step: "k < length (ah_log h) \<Longrightarrow> entries_from h k = (logged h k, point_at h k) # entries_from h (Suc k)"
  by (simp add: entries_from_def upt_conv_Cons)

lemma logged_bound: "works_inv h s \<Longrightarrow> i < length (ah_log h) \<Longrightarrow> logged h i < ah_works h"
  by (auto simp: works_inv_def dest: nth_mem)

lemma core_inv_pending: "core_inv h (s\<lparr>aq_pending := ps\<rparr>) = core_inv h s"
  by (simp add: core_inv_def works_inv_def uses_inv_def ring_inv_def captures_inv_def capture_entry_def packets_of_def)

definition seen_ok :: "aql_queue \<Rightarrow> (nat \<times> nat \<Rightarrow> int) \<Rightarrow> bool" where
  "seen_ok s seen \<longleftrightarrow> (\<forall>w p. signal_seen s w (seen (w, p)))"

lemma retired_done:
  assumes "works_inv h s" "i < length (ah_log h)" "point_at h i \<le> aw_retired (aq_works s (logged h i))"
  shows "i < ah_done h"
  using point_finished_iff [OF assms(2)] works_invD(7) [OF assms(1) logged_bound [OF assms(1,2)]] assms(3) by simp

text \<open>Reaping ends without an error and leaves the entries from the first one that has not retired.\<close>

lemma aql_reap_ok:
  assumes "core_inv h s" "k \<le> ah_done h" "seen_ok s seen"
  obtains t where "aql_reap seen (entries_from h k) s = (Inr (), t)" "retire_step h (s\<lparr>aq_pending := aq_pending t\<rparr>) t"
    "length (aq_pending t) \<le> length (entries_from h k)" "pending_inv h t \<or> length (entries_from h k) > 4096"
proof -
  have "\<exists>t. aql_reap seen (entries_from h k) s = (Inr (), t) \<and> retire_step h (s\<lparr>aq_pending := aq_pending t\<rparr>) t
     \<and> (\<exists>j\<ge>k. j \<le> ah_done h \<and> aq_pending t = entries_from h j)"
    using assms
  proof (induction "length (ah_log h) - k" arbitrary: k s)
    case 0
    then have "length (ah_log h) \<le> k" by simp
    then have e: "entries_from h k = []" by (simp add: entries_from_def)
    have "retire_step h (s\<lparr>aq_pending := []\<rparr>) (s\<lparr>aq_pending := []\<rparr>)" using 0 by (simp add: retire_step_def core_inv_pending)
    then show ?case using 0 e by (auto intro!: exI [of _ k] simp: e)
  next
    case (Suc m)
    then have k: "k < length (ah_log h)" by simp
    have w: "logged h k < ah_works h" using Suc.prems(1) k logged_bound unfolding core_inv_def by blast
    have sn: "signal_seen s (logged h k) (seen (logged h k, point_at h k))" using Suc.prems(3) by (simp add: seen_ok_def)
    obtain r t where t: "aql_refresh (seen (logged h k, point_at h k)) (logged h k) (point_at h k) s = (Inr r, t)" "retire_step h s t"
      "r \<longrightarrow> point_at h k \<le> aw_retired (aq_works t (logged h k))" "\<not> r \<longrightarrow> t = s"
      by (rule aql_refresh_ok [OF Suc.prems(1) w sn, of "point_at h k"])
    show ?case
    proof (cases r)
      case False
      then have "aql_reap seen (entries_from h k) s = (Inr (), s\<lparr>aq_pending := entries_from h k\<rparr>)"
        using t by (simp add: entries_from_step [OF k])
      moreover have "retire_step h (s\<lparr>aq_pending := entries_from h k\<rparr>) (s\<lparr>aq_pending := entries_from h k\<rparr>)"
        using Suc.prems(1) by (simp add: retire_step_def core_inv_pending)
      ultimately show ?thesis using Suc.prems(2) by auto
    next
      case True
      have inv: "core_inv h t" and sig: "\<And>w. aw_signal (aq_works t w) = aw_signal (aq_works s w)" using t(2) by (simp_all add: retire_step_def)
      have seen_t: "seen_ok t seen" using Suc.prems(3) by (simp add: seen_ok_def signal_seen_def sig)
      have m: "m = length (ah_log h) - Suc k" using Suc.hyps(2) by simp
      have "k < ah_done h" using retired_done [of h t k] inv k t(3) True by (simp add: core_inv_def)
      then obtain u j where u: "aql_reap seen (entries_from h (Suc k)) t = (Inr (), u)" "retire_step h (t\<lparr>aq_pending := aq_pending u\<rparr>) u"
        "Suc k \<le> j" "j \<le> ah_done h" "aq_pending u = entries_from h j"
        using Suc.hyps(1) [OF m inv _ seen_t] by (meson Suc_leI)
      have "aql_reap seen (entries_from h k) s = (Inr (), u)" using t(1) True u(1) by (simp add: entries_from_step [OF k])
      moreover have "retire_step h (s\<lparr>aq_pending := aq_pending u\<rparr>) u"
        using t(2) u(2) by (auto simp: retire_step_def intro: le_trans)
      ultimately show ?thesis using u(3-5) by (auto intro!: exI [of _ j])
    qed
  qed
  then obtain t j where t: "aql_reap seen (entries_from h k) s = (Inr (), t)" "retire_step h (s\<lparr>aq_pending := aq_pending t\<rparr>) t"
    "k \<le> j" "j \<le> ah_done h" "aq_pending t = entries_from h j" by blast
  moreover have len: "length (aq_pending t) \<le> length (entries_from h k)" using t by (simp add: entries_from_def)
  moreover have "pending_inv h t \<or> length (entries_from h k) > 4096" using t len by (auto simp: pending_inv_def)
  ultimately show thesis using that by blast
qed


section \<open>The ring\<close>

lemma ring_holds_push:
  assumes "ring_holds capacity ring first stream" "length stream + 1 - first \<le> capacity" "0 < capacity"
  shows "ring_holds capacity (ring[length stream mod capacity := p]) first (stream @ [p])"
proof -
  have len: "length ring = capacity" and first: "first \<le> length stream" using assms(1) by (simp_all add: ring_holds_def)
  have "ring[length stream mod capacity := p] ! (i mod capacity) = (stream @ [p]) ! i" if i: "first \<le> i" "i < length (stream @ [p])" for i
  proof (cases "i = length stream")
    case True
    then show ?thesis using len assms(3) by simp
  next
    case False
    then have i': "i < length stream" using i by simp
    have "i mod capacity \<noteq> length stream mod capacity"
    proof
      assume "i mod capacity = length stream mod capacity"
      then have "capacity dvd length stream - i" using i' by (metis less_imp_le mod_eq_dvd_iff_nat)
      then have "capacity \<le> length stream - i" using i' by (simp add: dvd_imp_le)
      then show False using assms(2) i(1) i' by linarith
    qed
    then show ?thesis using assms(1) i(1) i' by (simp add: ring_holds_def nth_append)
  qed
  then show ?thesis using assms(2) len first by (simp add: ring_holds_def)
qed

lemma ring_store_holds:
  assumes "ring_holds capacity ring first stream" "length stream + length ps - first \<le> capacity" "is_power_of_two capacity"
  shows "ring_holds capacity (ring_store capacity (length stream) ps ring) first (stream @ ps)"
  using assms
proof (induction ps arbitrary: ring stream)
  case Nil
  then show ?case by simp
next
  case (Cons p ps)
  obtain j where j: "capacity = 2 ^ j" using Cons.prems(3) by (auto simp: is_power_of_two_iff)
  have "first \<le> length stream" using Cons.prems(1) by (simp add: ring_holds_def)
  then have "ring_holds capacity (ring[length stream mod capacity := p]) first (stream @ [p])"
    using ring_holds_push [OF Cons.prems(1), of p] Cons.prems(2) j by simp
  then have "ring_holds capacity (ring_store capacity (length (stream @ [p])) ps (ring[length stream mod capacity := p])) first ((stream @ [p]) @ ps)"
    using Cons.prems(2,3) by (intro Cons.IH) simp_all
  then show ?case using ring_mask_mod [of j] by (simp add: j)
qed


section \<open>Publication\<close>

lemma begin_capture_ok:
  assumes inv: "core_inv h s" and w: "w < ah_works h" and idle: "aq_profiled s \<Longrightarrow> aw_active (aq_works s w) \<le> aw_retired (aq_works s w)"
  shows "core_inv h (begin_capture w s)"
proof (cases "aq_profiled s")
  case False
  then show ?thesis using inv by (simp add: begin_capture_def)
next
  case True
  let ?t = "begin_capture w s" and ?n = "length (aq_captures s)"
  have works: "works_inv h s" and uses: "uses_inv h s" and ring: "ring_inv h s" and caps: "captures_inv h s" using inv by (simp_all add: core_inv_def)
  have t: "?t = s\<lparr>aq_works := (aq_works s)(w := (aq_works s w)\<lparr>aw_timing := Some ?n, aw_stamps := (0, 0)\<rparr>), aq_captures := aq_captures s @ [None]\<rparr>"
    using True by (simp add: begin_capture_def upd_work_def)
  have same: "aw_packets (aq_works ?t v) = aw_packets (aq_works s v)" "aw_buffers (aq_works ?t v) = aw_buffers (aq_works s v)"
    "aw_next (aq_works ?t v) = aw_next (aq_works s v)" "aw_active (aq_works ?t v) = aw_active (aq_works s v)"
    "aw_signal (aq_works ?t v) = aw_signal (aq_works s v)" "aw_retired (aq_works ?t v) = aw_retired (aq_works s v)"
    "aw_leases (aq_works ?t v) = aw_leases (aq_works s v)" for v by (simp_all add: t)
  have "works_inv h ?t" using works by (simp add: works_inv_def aql_work_ok_def same)
  moreover have "uses_inv h ?t" using uses by (simp add: uses_inv_def same) (simp add: t)
  moreover have "packets_of ?t log = packets_of s log" for log by (rule packets_of_cong) (simp add: same)
  then have "ring_inv h ?t" using ring by (simp add: ring_inv_def) (simp add: t)
  moreover
  have capt: "capture_entry h ?t i w' c" if i: "i < length (ah_log h)" "ah_log h ! i = (w', Some c)" for i w' c
  proof -
    have e: "capture_entry h s i w' c" using caps i by (simp add: captures_inv_def)
    have c: "c < ?n" using capture_entryD(1) [OF e] .
    have own: "v = w'" if "aw_timing (aq_works ?t v) = Some c" for v
      using capture_entryD(7) [OF e, of v] c that by (cases "v = w") (simp_all add: t)
    show ?thesis
    proof (cases "w' = w")
      case False
      then have "aq_works ?t w' = aq_works s w'" by (simp add: t)
      moreover have "length (aq_captures ?t) = Suc ?n" "aq_captures ?t ! c = aq_captures s ! c" using c by (simp_all add: t nth_append)
      ultimately show ?thesis using e c own by (simp add: capture_entry_def)
    next
      case True
      have "point_at h i \<le> issued h w" using point_le_issued [OF i(1)] i(2) True by simp
      then have le: "point_at h i \<le> aw_retired (aq_works s w)" using idle \<open>aq_profiled s\<close> works_invD(4) [OF works w] by simp
      then have "aq_captures s ! c = Some (ah_ticks h ! i)" using capture_entryD(2) [OF e] True by simp
      then have a: "c < length (aq_captures ?t)" "point_at h i \<le> aw_retired (aq_works ?t w')" "aq_captures ?t ! c = Some (ah_ticks h ! i)"
        using c le by (simp_all add: t nth_append True)
      show ?thesis by (rule capture_entry_retired [OF a]) (use own in blast)
    qed
  qed
  have bound: "c < length (aq_captures ?t)" if "aw_timing (aq_works ?t v) = Some c" for v c
    using caps that by (cases "v = w") (force simp: t captures_inv_def)+
  have "aq_profiled ?t = aq_profiled s" by (simp add: t)
  then have "captures_inv h ?t" using caps capt bound unfolding captures_inv_def by simp
  ultimately show ?thesis by (simp add: core_inv_def)
qed


lemma aql_take_leases_ok:
  assumes inv: "core_inv h s" and w: "w < ah_works h" and r: "aql_take_leases refuses w s = (r, t)"
  shows "core_inv h t" "r = Inr () \<Longrightarrow> aw_leases (aq_works t w) = aw_buffers (aq_works t w)"
    "\<And>v. aw_timing (aq_works t v) = aw_timing (aq_works s v) \<and> aw_retired (aq_works t v) = aw_retired (aq_works s v)
        \<and> aw_packets (aq_works t v) = aw_packets (aq_works s v)"
    "aq_captures t = aq_captures s" "aq_pending t = aq_pending s" "aq_profiled t = aq_profiled s" "aq_read_index t = aq_read_index s"
    "aq_capacity t = aq_capacity s" "aq_write t = aq_write s"
proof -
  let ?x = "aq_works s w"
  have works: "works_inv h s" using inv by (simp add: core_inv_def)
  note D = works_invD [OF works w]
  define u where "u = upd_work w (\<lambda>x. x\<lparr>aw_leases := aw_buffers x\<rparr>) (s\<lparr>aq_uses := (\<lambda>b. aq_uses s b + count_list (aw_buffers ?x) b)\<rparr>)"
  have t: "t = s \<and> (r = Inr () \<longrightarrow> aw_leases ?x = aw_buffers ?x) \<or> t = u \<and> aw_leases ?x = []"
    using r D(8) by (auto simp: aql_take_leases_def u_def Let_def split: if_splits option.splits)
  have uw: "aq_works u = (aq_works s)(w := ?x\<lparr>aw_leases := aw_buffers ?x\<rparr>)" "aq_captures u = aq_captures s" "aq_pending u = aq_pending s"
    "aq_profiled u = aq_profiled s" "aq_read_index u = aq_read_index s" "aq_capacity u = aq_capacity s" "aq_write u = aq_write s"
    "aq_ring u = aq_ring s" "aq_write_index u = aq_write_index s" "aq_uses u = (\<lambda>b. aq_uses s b + count_list (aw_buffers ?x) b)"
    by (simp_all add: u_def upd_work_def)
  show "\<And>v. aw_timing (aq_works t v) = aw_timing (aq_works s v) \<and> aw_retired (aq_works t v) = aw_retired (aq_works s v)
        \<and> aw_packets (aq_works t v) = aw_packets (aq_works s v)"
    "aq_captures t = aq_captures s" "aq_pending t = aq_pending s" "aq_profiled t = aq_profiled s" "aq_read_index t = aq_read_index s"
    "aq_capacity t = aq_capacity s" "aq_write t = aq_write s"
    "r = Inr () \<Longrightarrow> aw_leases (aq_works t w) = aw_buffers (aq_works t w)"
    using t by (auto simp: uw)
  have "core_inv h u" if empty: "aw_leases ?x = []"
  proof -
    have "aql_work_ok h w (aq_works u w)" using D by (simp add: aql_work_ok_def uw(1))
    then have "aql_work_ok h k (aq_works u k)" if "k < ah_works h" for k
      using that works by (cases "k = w") (simp_all add: uw(1) works_inv_def)
    then have "works_inv h u" using works by (simp add: works_inv_def)
    moreover have "aq_uses u b = (\<Sum>k<ah_works h. count_list (aw_leases (aq_works u k)) b)" for b
      using sum_fun_upd [OF w, of "\<lambda>x. count_list (aw_leases x) b" "aq_works s" "?x\<lparr>aw_leases := aw_buffers ?x\<rparr>"] inv empty
      by (simp add: uw(1,10) core_inv_def uses_inv_def)
    moreover have "packets_of u log = packets_of s log" for log by (rule packets_of_cong) (simp add: uw(1))
    then have "ring_inv h u" using inv by (simp add: core_inv_def ring_inv_def uw)
    moreover have same: "aw_timing (aq_works u v) = aw_timing (aq_works s v)" "aw_retired (aq_works u v) = aw_retired (aq_works s v)"
      "aw_stamps (aq_works u v) = aw_stamps (aq_works s v)" for v by (simp_all add: uw(1))
    have "capture_entry h u i w' c = capture_entry h s i w' c" for i w' c by (simp add: capture_entry_def uw(2) same)
    then have "captures_inv h u" using inv by (simp add: core_inv_def captures_inv_def uw(2,4) same)
    ultimately show ?thesis by (simp add: core_inv_def uses_inv_def)
  qed
  then show "core_inv h t" using t inv by auto
qed

definition log_dispatch :: "nat \<Rightarrow> nat option \<Rightarrow> aql_history \<Rightarrow> aql_history" where
  "log_dispatch w c h = h\<lparr>ah_log := ah_log h @ [(w, c)]\<rparr>"

lemma log_dispatch_counts:
  assumes "ah_done h \<le> length (ah_log h)"
  shows "issued (log_dispatch w c h) v = issued h v + (if v = w then 1 else 0)" "finished (log_dispatch w c h) v = finished h v"
    "i < length (ah_log h) \<Longrightarrow> point_at (log_dispatch w c h) i = point_at h i"
    "i < length (ah_log h) \<Longrightarrow> ah_log (log_dispatch w c h) ! i = ah_log h ! i"
    "point_at (log_dispatch w c h) (length (ah_log h)) = issued h w + 1"
  using assms by (simp_all add: log_dispatch_def issued_def finished_def point_at_def nth_append)

lemma aql_publish_ok:
  assumes inv: "core_inv h s" and w: "w < ah_works h" and leases: "aw_leases (aq_works s w) = aw_buffers (aq_works s w)"
    and fits: "int (issued h w + 1) \<le> i64_MAX" "aq_write s + length (aw_packets (aq_works s w)) - aq_read_index s \<le> aq_capacity s"
    and unprofiled: "\<not> aq_profiled s \<Longrightarrow> c = None"
    and profiled: "aq_profiled s \<Longrightarrow> \<exists>i. c = Some i \<and> i < length (aq_captures s) \<and> aq_captures s ! i = None \<and> aw_timing (aq_works s w) = Some i"
      "\<And>v. aq_profiled s \<Longrightarrow> aw_timing (aq_works s v) = c \<Longrightarrow> v = w" "\<And>i. aq_profiled s \<Longrightarrow> i < length (ah_log h) \<Longrightarrow> snd (ah_log h ! i) \<noteq> c"
      "aq_profiled s \<Longrightarrow> issued h w \<le> aw_retired (aq_works s w)"
  shows "core_inv (log_dispatch w c h) (aql_publish w (issued h w + 1) s)"
proof -
  let ?h = "log_dispatch w c h" and ?x = "aq_works s w"
  define u where "u = aql_publish w (issued h w + 1) s"
  have works: "works_inv h s" and ring: "ring_inv h s" and caps: "captures_inv h s" using inv by (simp_all add: core_inv_def)
  note D = works_invD [OF works w]
  have fin: "ah_done h \<le> length (ah_log h)" "length (ah_ticks h) = ah_done h" using works by (simp_all add: works_inv_def)
  note n = log_dispatch_counts [OF fin(1)]
  have hf: "ah_works ?h = ah_works h" "ah_log ?h = ah_log h @ [(w, c)]" "ah_done ?h = ah_done h" "ah_ticks ?h = ah_ticks h"
    by (simp_all add: log_dispatch_def)
  have t: "aq_works u = (aq_works s)(w := ?x\<lparr>aw_active := issued h w + 1, aw_next := issued h w + 1\<rparr>)" "aq_uses u = aq_uses s"
    "aq_captures u = aq_captures s" "aq_profiled u = aq_profiled s" "aq_capacity u = aq_capacity s" "aq_read_index u = aq_read_index s"
    "aq_write u = aq_write s + length (aw_packets ?x)" "aq_write_index u = aq_write s + length (aw_packets ?x)"
    "aq_ring u = ring_store (aq_capacity s) (aq_write s) (aw_packets ?x) (aq_ring s)"
    by (simp_all add: u_def aql_publish_def upd_work_def Let_def)
  have same: "aw_packets (aq_works u v) = aw_packets (aq_works s v)" "aw_leases (aq_works u v) = aw_leases (aq_works s v)"
    "aw_retired (aq_works u v) = aw_retired (aq_works s v)" "aw_timing (aq_works u v) = aw_timing (aq_works s v)"
    "aw_stamps (aq_works u v) = aw_stamps (aq_works s v)" for v by (simp_all add: t(1))
  have "aql_work_ok ?h k (aq_works u k)" if "k < ah_works h" for k
  proof (cases "k = w")
    case True
    then show ?thesis using D leases fits(1) by (simp add: aql_work_ok_def n t(1))
  next
    case False
    then show ?thesis using works that by (simp add: works_inv_def aql_work_ok_def n t(1))
  qed
  then have "works_inv ?h u" using works w fin by (auto simp: works_inv_def hf)
  moreover have "uses_inv ?h u" using inv by (simp add: core_inv_def uses_inv_def hf t(2) same)
  moreover have pk: "packets_of u log = packets_of s log" for log by (rule packets_of_cong) (simp add: same)
  have "ring_inv ?h u"
  proof -
    have stream: "packets_of s (ah_log ?h) = packets_of s (ah_log h) @ aw_packets ?x" by (simp add: hf packets_of_def)
    have old: "is_power_of_two (aq_capacity s)" "ring_holds (aq_capacity s) (aq_ring s) (aq_read_index s) (packets_of s (ah_log h))"
      "aq_write s = length (packets_of s (ah_log h))" "length (packets_of s (take (ah_done h) (ah_log h))) \<le> aq_read_index s"
      using ring by (simp_all add: ring_inv_def)
    have "ring_holds (aq_capacity s) (aq_ring u) (aq_read_index s) (packets_of s (ah_log ?h))"
      unfolding stream t(9) old(3) by (rule ring_store_holds [OF old(2) _ old(1)]) (use fits(2) old(3) in simp)
    then show ?thesis using old fin(1) stream by (simp add: ring_inv_def pk t hf)
  qed
  moreover have "captures_inv ?h u"
  proof -
    have entry: "capture_entry ?h u i w' c'" if i: "i < length (ah_log ?h)" "ah_log ?h ! i = (w', Some c')" for i w' c'
    proof (cases "i = length (ah_log h)")
      case True
      then have e: "w' = w" "c = Some c'" using i(2) by (simp_all add: hf)
      have prof: "aq_profiled s" using unprofiled e(2) by auto
      have cc: "c' < length (aq_captures s)" "aq_captures s ! c' = None" "aw_timing ?x = Some c'" using profiled(1) [OF prof] e(2) by auto
      have a: "c' < length (aq_captures u)" "aw_retired (aq_works u w') < point_at ?h i" "aq_captures u ! c' = None"
        "aw_timing (aq_works u w') = Some c'" "point_at ?h i = issued ?h w'"
        using cc e(1) True D(7) finished_le_issued [of h w] by (simp_all add: t(3) same n)
      show ?thesis
        by (rule capture_entry_pending [OF a]) (use True fin(1) in \<open>simp add: hf\<close>, use profiled(2) [OF prof] e in \<open>simp add: same\<close>)
    next
      case False
      then have il: "i < length (ah_log h)" "ah_log h ! i = (w', Some c')" using i by (simp_all add: hf nth_append)
      have e: "capture_entry h s i w' c'" using caps il by (simp add: captures_inv_def)
      have prof: "aq_profiled s" using caps il by (force simp: captures_inv_def)
      show ?thesis
      proof (cases "w' = w")
        case True
        then have "point_at h i \<le> aw_retired ?x" using point_le_issued [OF il(1)] il(2) profiled(4) [OF prof] by simp
        then have a: "c' < length (aq_captures u)" "point_at ?h i \<le> aw_retired (aq_works u w')" "aq_captures u ! c' = Some (ah_ticks ?h ! i)"
          using capture_entryD(1,2) [OF e] True by (simp_all add: t(3) same n il hf)
        show ?thesis by (rule capture_entry_retired [OF a]) (use capture_entryD(7) [OF e] in \<open>simp add: same\<close>)
      next
        case False
        then have "issued ?h w' = issued h w'" by (simp add: n)
        then show ?thesis using e by (simp add: capture_entry_def t(3) same n il hf)
      qed
    qed
    have "(snd (ah_log ?h ! i) \<noteq> None) = aq_profiled s" if "i < length (ah_log ?h)" for i
    proof (cases "i < length (ah_log h)")
      case True
      then show ?thesis using caps by (simp add: captures_inv_def n)
    next
      case False
      then have "i = length (ah_log h)" using that by (simp add: hf)
      then show ?thesis using unprofiled profiled(1) by (cases "aq_profiled s") (auto simp: log_dispatch_def)
    qed
    then show ?thesis using entry caps unfolding captures_inv_def by (simp add: t(3,4) same)
  qed
  ultimately have "core_inv ?h u" by (simp add: core_inv_def)
  then show ?thesis by (simp only: u_def)
qed


lemma pending_inv_cong: "aq_pending t = aq_pending s \<Longrightarrow> pending_inv h t = pending_inv h s"
  by (simp add: pending_inv_def)

lemma pending_logged:
  assumes p: "pending_inv h s" and len: "length (aq_pending s) \<noteq> 4096" "ah_done h \<le> length (ah_log h)"
    and t: "aq_pending t = aq_pending s @ [(w, issued h w + 1)]"
  shows "pending_inv (log_dispatch w c h) t"
proof -
  obtain k where k: "k \<le> ah_done h" "aq_pending s = entries_from h k" using p by (auto simp: pending_inv_def)
  have n: "length (ah_log (log_dispatch w c h)) = Suc (length (ah_log h))" by (simp add: log_dispatch_def)
  have "map (\<lambda>i. (logged (log_dispatch w c h) i, point_at (log_dispatch w c h) i)) [k..<length (ah_log h)] = entries_from h k"
    unfolding entries_from_def by (rule map_cong) (simp_all add: log_dispatch_counts [OF len(2)])
  moreover have "logged (log_dispatch w c h) (length (ah_log h)) = w" by (simp add: log_dispatch_def)
  ultimately have "entries_from (log_dispatch w c h) k = entries_from h k @ [(w, issued h w + 1)]"
    using k(1) len(2) unfolding entries_from_def n by (simp add: log_dispatch_counts [OF len(2)])
  then show ?thesis using p k len t by (auto simp: pending_inv_def log_dispatch_def)
qed

definition dispatch_after :: "nat \<Rightarrow> aql_history \<Rightarrow> aql_completion result \<Rightarrow> aql_queue \<Rightarrow> bool" where
  "dispatch_after w h r t \<longleftrightarrow>
     (case r of
        Inl e \<Rightarrow> aql_inv h t
      | Inr c \<Rightarrow> aql_inv (log_dispatch w (ac_timing c) h) t \<and> ac_work c = w \<and> ac_point c = issued h w + 1)"

text \<open>The end of a dispatch, after reaping and the checks.\<close>

lemma dispatch_publish_ok:
  assumes inv: "core_inv h s" "pending_inv h s" and w: "w < ah_works h" and point: "int (issued h w + 1) \<le> i64_MAX"
    and fits: "length (aq_pending s) \<noteq> 4096" "aq_write s + length (aw_packets (aq_works s w)) - aq_read_index s \<le> aq_capacity s"
    and idle: "aq_profiled s \<Longrightarrow> aw_active (aq_works s w) \<le> aw_retired (aq_works s w)"
    and take: "aql_take_leases refuses w (begin_capture w s) = (r, t)"
  shows "r = Inl e \<Longrightarrow> aql_inv h t"
    "r = Inr () \<Longrightarrow> aql_inv (log_dispatch w (if aq_profiled t then aw_timing (aq_works t w) else None) h) (aql_publish w (issued h w + 1) t)"
proof -
  have core2: "core_inv h (begin_capture w s)" using begin_capture_ok [OF inv(1) w] idle by blast
  note T = aql_take_leases_ok [OF core2 w take]
  have b: "aq_pending (begin_capture w s) = aq_pending s" "aq_profiled (begin_capture w s) = aq_profiled s"
    "aq_read_index (begin_capture w s) = aq_read_index s" "aq_capacity (begin_capture w s) = aq_capacity s" "aq_write (begin_capture w s) = aq_write s"
    "aw_packets (aq_works (begin_capture w s) w) = aw_packets (aq_works s w)" "aw_retired (aq_works (begin_capture w s) w) = aw_retired (aq_works s w)"
    by (simp_all add: begin_capture_def upd_work_def)
  have pend: "pending_inv h t" using inv(2) pending_inv_cong [of t s h] T(5) b(1) by simp
  show "r = Inl e \<Longrightarrow> aql_inv h t" using T(1) pend by (simp add: aql_inv_def)
  assume r: "r = Inr ()"
  have caps: "captures_inv h s" and works: "works_inv h s" using inv(1) by (simp_all add: core_inv_def)
  let ?c = "if aq_profiled t then aw_timing (aq_works t w) else None" and ?n = "length (aq_captures s)"
  have prof: "aq_profiled t = aq_profiled s" using T(6) b(2) by simp
  have cap: "aq_captures t = aq_captures s @ [None]" "aw_timing (aq_works t w) = Some ?n" "v \<noteq> w \<Longrightarrow> aw_timing (aq_works t v) = aw_timing (aq_works s v)"
    if "aq_profiled s" for v using that T(3,4) by (simp_all add: begin_capture_def upd_work_def)
  have "core_inv (log_dispatch w ?c h) (aql_publish w (issued h w + 1) t)"
  proof (rule aql_publish_ok [OF T(1) w T(2) [OF r] point])
    show "aq_write t + length (aw_packets (aq_works t w)) - aq_read_index t \<le> aq_capacity t"
      using fits(2) T(3) [of w] T(7-9) b by simp
    show "\<not> aq_profiled t \<Longrightarrow> ?c = None" by simp
    show "aq_profiled t \<Longrightarrow> \<exists>i. ?c = Some i \<and> i < length (aq_captures t) \<and> aq_captures t ! i = None \<and> aw_timing (aq_works t w) = Some i"
      using cap(1,2) prof by simp
    show "v = w" if "aq_profiled t" "aw_timing (aq_works t v) = ?c" for v
    proof (rule ccontr)
      assume "v \<noteq> w"
      then have "aw_timing (aq_works s v) = Some ?n" using that cap(2,3) prof by simp
      then show False using caps by (auto simp: captures_inv_def)
    qed
    show "snd (ah_log h ! i) \<noteq> ?c" if "aq_profiled t" "i < length (ah_log h)" for i
    proof
      assume "snd (ah_log h ! i) = ?c"
      then have "ah_log h ! i = (logged h i, Some ?n)" using that cap(2) prof by (simp add: prod_eq_iff)
      then have "capture_entry h s i (logged h i) ?n" using caps that(2) unfolding captures_inv_def by blast
      then show False by (simp add: capture_entry_def)
    qed
    show "aq_profiled t \<Longrightarrow> issued h w \<le> aw_retired (aq_works t w)"
      using idle prof works_invD(4) [OF works w] T(3) [of w] b(7) by simp
  qed
  moreover have "pending_inv (log_dispatch w ?c h) (aql_publish w (issued h w + 1) t)"
    by (rule pending_logged [OF pend]) (use fits(1) T(5) b(1) works in \<open>simp_all add: works_inv_def aql_publish_def upd_work_def Let_def\<close>)
  ultimately show "aql_inv (log_dispatch w ?c h) (aql_publish w (issued h w + 1) t)" by (simp add: aql_inv_def)
qed

lemma aql_reap_inv:
  assumes "aql_inv h s" "seen_ok s seen"
  obtains t where "aql_reap seen (aq_pending s) s = (Inr (), t)" "retire_step h (s\<lparr>aq_pending := aq_pending t\<rparr>) t" "aql_inv h t"
proof -
  obtain k where k: "k \<le> ah_done h" "aq_pending s = entries_from h k" "length (aq_pending s) \<le> 4096"
    using assms(1) by (auto simp: aql_inv_def pending_inv_def)
  have core: "core_inv h s" using assms(1) by (simp add: aql_inv_def)
  obtain t where t: "aql_reap seen (entries_from h k) s = (Inr (), t)" "retire_step h (s\<lparr>aq_pending := aq_pending t\<rparr>) t"
    "length (aq_pending t) \<le> length (entries_from h k)" "pending_inv h t \<or> length (entries_from h k) > 4096"
    by (rule aql_reap_ok [OF core k(1) assms(2)])
  have "pending_inv h t" using t(4) k by simp
  then show thesis using that t(1,2) k(2) by (simp add: aql_inv_def retire_step_def)
qed

lemma aql_dispatch_ok:
  assumes inv: "aql_inv h s" and w: "w < ah_works h" and seen: "seen_ok s seen" "read_seen \<le> aq_read_index s"
    and d: "aql_dispatch seen read_seen refuses w s = (r, t)"
  shows "dispatch_after w h r t"
proof -
  have works: "works_inv h s" using inv by (simp add: aql_inv_def core_inv_def)
  have next_point: "aw_next (aq_works s w) = issued h w" using works_invD(3) [OF works w] .
  obtain s1 where s1: "aql_reap seen (aq_pending s) s = (Inr (), s1)" "retire_step h (s\<lparr>aq_pending := aq_pending s1\<rparr>) s1" "aql_inv h s1"
    by (rule aql_reap_inv [OF inv seen(1)])
  show ?thesis
  proof (cases "int (issued h w + 1) > i64_MAX")
    case True
    then show ?thesis using d inv by (auto simp: aql_dispatch_def next_point dispatch_after_def)
  next
    case False
    let ?stop = "aq_write s1 + length (aw_packets (aq_works s1 w))"
    show ?thesis
    proof (cases "?stop > usize_MAX \<or> (length (aq_pending s1) = 4096 \<or> saturating_sub ?stop read_seen > aq_capacity s1)
        \<or> (aq_profiled s1 \<and> aw_active (aq_works s1 w) > aw_retired (aq_works s1 w))")
      case True
      then show ?thesis using d s1 False by (auto simp: aql_dispatch_def next_point dispatch_after_def Let_def split: if_splits)
    next
      case ok: False
      have read: "read_seen \<le> aq_read_index s1" using seen(2) s1(2) by (simp add: retire_step_def)
      have fits: "length (aq_pending s1) \<noteq> 4096" "?stop - aq_read_index s1 \<le> aq_capacity s1"
        using ok read by (auto simp: saturating_sub_def)
      have idle: "aq_profiled s1 \<Longrightarrow> aw_active (aq_works s1 w) \<le> aw_retired (aq_works s1 w)" using ok by auto
      obtain r3 s3 where r3: "aql_take_leases refuses w (begin_capture w s1) = (r3, s3)" by (cases "aql_take_leases refuses w (begin_capture w s1)")
      have core: "core_inv h s1" "pending_inv h s1" using s1(3) by (simp_all add: aql_inv_def)
      have point: "int (issued h w + 1) \<le> i64_MAX" using False by simp
      note P = dispatch_publish_ok [OF core w point fits idle r3]
      have "aql_dispatch seen read_seen refuses w s =
          (case r3 of
             Inl e \<Rightarrow> (Inl e, s3)
           | Inr _ \<Rightarrow> (Inr \<lparr>ac_work = w, ac_point = issued h w + 1, ac_timing = (if aq_profiled s3 then aw_timing (aq_works s3 w) else None)\<rparr>,
                        aql_publish w (issued h w + 1) s3))"
        using ok False s1(1) r3 by (cases r3) (auto simp: aql_dispatch_def next_point Let_def)
      then show ?thesis using d P by (cases r3) (auto simp: dispatch_after_def)
    qed
  qed
qed


section \<open>The device\<close>

lemma read_step_ok:
  assumes inv: "aql_inv h s" and r: "aq_read_index s \<le> r" "r \<le> aq_write s"
  shows "aql_inv h (s\<lparr>aq_read_index := r\<rparr>)"
proof -
  let ?t = "s\<lparr>aq_read_index := r\<rparr>"
  have ring: "ring_inv h s" and rest: "works_inv h s" "uses_inv h s" "captures_inv h s" "pending_inv h s" using inv by (simp_all add: aql_inv_def core_inv_def)
  have "packets_of ?t log = packets_of s log" for log by (rule packets_of_cong) simp
  then have "ring_inv h ?t" using ring r by (auto simp: ring_inv_def ring_holds_def)
  moreover have "capture_entry h ?t i w c = capture_entry h s i w c" for i w c by (simp add: capture_entry_def)
  ultimately show ?thesis using rest
    by (simp add: aql_inv_def core_inv_def works_inv_def uses_inv_def captures_inv_def pending_inv_def)
qed

definition finish_next :: "nat \<times> nat \<Rightarrow> aql_history \<Rightarrow> aql_history" where
  "finish_next ticks h = h\<lparr>ah_done := Suc (ah_done h), ah_ticks := ah_ticks h @ [ticks]\<rparr>"

text \<open>The device finishes the next dispatch: its timestamps are written and its signal goes down by one.\<close>

definition device_finish :: "nat \<Rightarrow> nat \<times> nat \<Rightarrow> aql_queue \<Rightarrow> aql_queue" where
  "device_finish w ticks s = upd_work w (\<lambda>x. x\<lparr>aw_signal := aw_signal x - 1, aw_stamps := ticks\<rparr>) s"

lemma finish_step_ok:
  assumes inv: "aql_inv h s" and i: "ah_done h < length (ah_log h)"
    and read: "length (packets_of s (take (Suc (ah_done h)) (ah_log h))) \<le> aq_read_index s"
  shows "aql_inv (finish_next ticks h) (device_finish (logged h (ah_done h)) ticks s)"
proof -
  let ?w = "logged h (ah_done h)" and ?h = "finish_next ticks h"
  define t where "t = device_finish ?w ticks s"
  have works: "works_inv h s" and uses: "uses_inv h s" and ring: "ring_inv h s" and caps: "captures_inv h s" and pend: "pending_inv h s"
    using inv by (simp_all add: aql_inv_def core_inv_def)
  have hf: "ah_works ?h = ah_works h" "ah_log ?h = ah_log h" "ah_done ?h = Suc (ah_done h)" "ah_ticks ?h = ah_ticks h @ [ticks]"
    "issued ?h v = issued h v" "point_at ?h j = point_at h j" for v j
    by (simp_all add: finish_next_def issued_def point_at_def)
  have fin: "finished ?h v = finished h v + (if v = ?w then 1 else 0)" for v
    using i by (simp add: finished_def hf take_Suc_conv_app_nth)
  have lt: "length (ah_ticks h) = ah_done h" using works by (simp add: works_inv_def)
  have tf: "aq_works t = (aq_works s)(?w := (aq_works s ?w)\<lparr>aw_signal := aw_signal (aq_works s ?w) - 1, aw_stamps := ticks\<rparr>)"
    "aq_uses t = aq_uses s" "aq_captures t = aq_captures s" "aq_profiled t = aq_profiled s" "aq_capacity t = aq_capacity s"
    "aq_read_index t = aq_read_index s" "aq_write t = aq_write s" "aq_write_index t = aq_write_index s" "aq_ring t = aq_ring s" "aq_pending t = aq_pending s"
    by (simp_all add: t_def device_finish_def upd_work_def)
  have same: "aw_packets (aq_works t v) = aw_packets (aq_works s v)" "aw_leases (aq_works t v) = aw_leases (aq_works s v)"
    "aw_retired (aq_works t v) = aw_retired (aq_works s v)" "aw_timing (aq_works t v) = aw_timing (aq_works s v)"
    "v \<noteq> ?w \<Longrightarrow> aw_stamps (aq_works t v) = aw_stamps (aq_works s v)" "aw_stamps (aq_works t ?w) = ticks" for v
    by (simp_all add: tf(1))
  have "aql_work_ok ?h k (aq_works t k)" if "k < ah_works h" for k
    using works_invD [OF works that] by (cases "k = ?w") (simp_all add: aql_work_ok_def fin hf tf(1))
  then have "works_inv ?h t" using works i lt by (simp add: works_inv_def hf)
  moreover have "uses_inv ?h t" using uses by (simp add: uses_inv_def hf tf(2) same)
  moreover have "packets_of t log = packets_of s log" for log by (rule packets_of_cong) (simp add: same)
  then have "ring_inv ?h t" using ring read by (simp add: ring_inv_def hf tf)
  moreover have "capture_entry ?h t j w' c" if j: "j < length (ah_log h)" "ah_log h ! j = (w', Some c)" for j w' c
  proof -
    have e: "capture_entry h s j w' c" using caps j by (simp add: captures_inv_def)
    note E = capture_entryD [OF e]
    have own: "\<And>v. aw_timing (aq_works t v) = Some c \<Longrightarrow> v = w'" using E(7) by (simp only: same)
    show ?thesis
    proof (cases "point_at h j \<le> aw_retired (aq_works s w')")
      case True
      then have "j < ah_done h" using retired_done [OF works j(1)] j(2) by simp
      then have a: "c < length (aq_captures t)" "point_at ?h j \<le> aw_retired (aq_works t w')" "aq_captures t ! c = Some (ah_ticks ?h ! j)"
        using E(1,2) True lt by (simp_all add: tf(3) hf same nth_append)
      show ?thesis by (rule capture_entry_retired [OF a own])
    next
      case False
      then have old: "aq_captures s ! c = None" "aw_timing (aq_works s w') = Some c" "point_at h j = issued h w'"
        "j < ah_done h \<Longrightarrow> aw_stamps (aq_works s w') = ah_ticks h ! j" using E(3-6) by simp_all
      have stamps: "aw_stamps (aq_works t w') = ah_ticks ?h ! j" if "j < ah_done ?h"
      proof (cases "j = ah_done h")
        case True
        then have w: "w' = ?w" using j(2) by simp
        have "(ah_ticks h @ [ticks]) ! j = ticks" using True lt by (simp add: nth_append)
        then show ?thesis unfolding w by (simp only: same(6) hf)
      next
        case False
        then have less: "j < ah_done h" using that by (simp add: hf)
        have "w' \<noteq> ?w"
        proof
          assume "w' = ?w"
          then have "point_at h j < point_at h (ah_done h)" using point_less [OF less i] j(2) by simp
          also have "\<dots> \<le> issued h w'" using point_le_issued [OF i] \<open>w' = ?w\<close> by simp
          finally show False using old(3) by simp
        qed
        then show ?thesis using old(4) [OF less] less lt by (simp add: same hf nth_append)
      qed
      have a: "c < length (aq_captures t)" "aw_retired (aq_works t w') < point_at ?h j" "aq_captures t ! c = None" "aw_timing (aq_works t w') = Some c"
        "point_at ?h j = issued ?h w'" using E(1) False old by (simp_all add: tf(3) hf same)
      show ?thesis by (rule capture_entry_pending [OF a stamps own])
    qed
  qed
  then have "captures_inv ?h t" using caps unfolding captures_inv_def by (simp add: hf tf(3,4) same)
  moreover have "entries_from ?h k = entries_from h k" for k by (simp add: entries_from_def hf)
  then have "pending_inv ?h t" using pend by (auto simp: pending_inv_def hf tf(10) intro: le_SucI)
  ultimately show ?thesis by (simp add: aql_inv_def core_inv_def t_def)
qed

lemma prepare_step_ok:
  assumes inv: "aql_inv h s" and p: "packets \<noteq> []" "buffers \<noteq> []"
  shows "aql_inv (h\<lparr>ah_works := Suc (ah_works h)\<rparr>) (upd_work (ah_works h) (\<lambda>_. aql_prepared packets buffers) s)"
proof -
  let ?n = "ah_works h" and ?h = "h\<lparr>ah_works := Suc (ah_works h)\<rparr>"
  define t where "t = upd_work ?n (\<lambda>_. aql_prepared packets buffers) s"
  have works: "works_inv h s" and uses: "uses_inv h s" and ring: "ring_inv h s" and caps: "captures_inv h s" and pend: "pending_inv h s"
    using inv by (simp_all add: aql_inv_def core_inv_def)
  have tf: "aq_works t = (aq_works s)(?n := aql_prepared packets buffers)" "aq_uses t = aq_uses s" "aq_captures t = aq_captures s"
    "aq_profiled t = aq_profiled s" "aq_capacity t = aq_capacity s" "aq_read_index t = aq_read_index s" "aq_write t = aq_write s"
    "aq_write_index t = aq_write_index s" "aq_ring t = aq_ring s" "aq_pending t = aq_pending s"
    by (simp_all add: t_def upd_work_def)
  have hf: "issued ?h = issued h" "finished ?h = finished h" "point_at ?h = point_at h"
    by (simp_all add: fun_eq_iff issued_def finished_def point_at_def)
  have logged: "fst e < ?n" if "e \<in> set (ah_log h)" for e using works that by (simp add: works_inv_def)
  have "issued h ?n = 0" using logged by (force simp: issued_def count_list_0_iff)
  then have zero: "issued h ?n = 0" "finished h ?n = 0" using finished_le_issued [of h ?n] by simp_all
  have "aql_work_ok ?h k (aq_works t k)" if "k < Suc ?n" for k
  proof (cases "k = ?n")
    case True
    then show ?thesis using p zero by (simp add: aql_work_ok_def hf tf(1) aql_prepared_def i64_MAX_def)
  next
    case False
    then show ?thesis using works that by (simp add: works_inv_def aql_work_ok_def hf tf(1))
  qed
  then have "works_inv ?h t" using works by (auto simp: works_inv_def)
  moreover have "uses_inv ?h t" using uses by (simp add: uses_inv_def tf(1,2) aql_prepared_def)
  moreover have pk: "packets_of t log = packets_of s log" if "set log \<subseteq> set (ah_log h)" for log
  proof -
    have "aq_works t (fst e) = aq_works s (fst e)" if "e \<in> set log" for e
      using logged [of e] \<open>set log \<subseteq> set (ah_log h)\<close> that by (auto simp: tf(1))
    then have "map (\<lambda>(w, c). aw_packets (aq_works t w)) log = map (\<lambda>(w, c). aw_packets (aq_works s w)) log"
      by (intro map_cong) (auto simp: split_beta)
    then show ?thesis by (simp only: packets_of_def)
  qed
  have "ring_inv ?h t" using ring by (simp add: ring_inv_def tf pk set_take_subset)
  moreover have "capture_entry ?h t j w c" if j: "j < length (ah_log h)" "ah_log h ! j = (w, Some c)" for j w c
  proof -
    have e: "capture_entry h s j w c" using caps j by (simp add: captures_inv_def)
    have "w \<noteq> ?n" using logged [OF nth_mem [OF j(1)]] j(2) by simp
    then have w: "aq_works t w = aq_works s w" by (simp add: tf(1))
    have "aw_timing (aq_works t v) = Some c \<Longrightarrow> v = w" for v
      using capture_entryD(7) [OF e, of v] by (cases "v = ?n") (simp_all add: tf(1) aql_prepared_def)
    then show ?thesis using e w unfolding capture_entry_def by (simp add: hf tf(3))
  qed
  moreover have "c < length (aq_captures t)" if "aw_timing (aq_works t v) = Some c" for v c
    using that caps by (cases "v = ?n") (auto simp: tf(1,3) aql_prepared_def captures_inv_def)
  ultimately have "core_inv ?h t" using caps by (simp add: core_inv_def captures_inv_def tf(4))
  moreover have "pending_inv ?h t" using pend by (simp add: pending_inv_def entries_from_def hf tf(10))
  ultimately show ?thesis by (simp add: aql_inv_def t_def)
qed


lemma completion_refresh_ok:
  assumes inv: "aql_inv h s" and w: "ac_work c < ah_works h" and seen: "signal_seen s (ac_work c) v" "seen_ok s seen"
    and r: "aql_completion_refresh v seen query c s = (r, t)"
  shows "aql_inv h t \<and> (r = Inr True \<longrightarrow> aql_is_complete c t)"
proof -
  have core: "core_inv h s" and pend: "pending_inv h s" using inv by (simp_all add: aql_inv_def)
  obtain a s1 where a: "aql_refresh v (ac_work c) (ac_point c) s = (Inr a, s1)" "retire_step h s s1"
    "a \<longrightarrow> ac_point c \<le> aw_retired (aq_works s1 (ac_work c))"
    by (rule aql_refresh_ok [OF core w seen(1)])
  have s1: "aql_inv h s1" using a(2) pend pending_inv_cong [of s1 s h] by (simp add: aql_inv_def retire_step_def)
  have seen1: "seen_ok s1 seen" using seen(2) a(2) by (simp add: seen_ok_def signal_seen_def retire_step_def)
  show ?thesis
  proof (cases a)
    case False
    then show ?thesis using r a(1) s1 by (auto simp: aql_completion_refresh_def split: sum.splits option.splits)
  next
    case True
    obtain u where u: "aql_reap seen (aq_pending s1) s1 = (Inr (), u)" "retire_step h (s1\<lparr>aq_pending := aq_pending u\<rparr>) u" "aql_inv h u"
      by (rule aql_reap_inv [OF s1 seen1])
    have "aw_retired (aq_works s1 (ac_work c)) \<le> aw_retired (aq_works u (ac_work c))" using u(2) by (simp add: retire_step_def)
    then have "aql_is_complete c u" using a(3) True by (simp add: aql_is_complete_def)
    then show ?thesis using r a(1) True u by (auto simp: aql_completion_refresh_def)
  qed
qed


section \<open>Histories of a queue\<close>

inductive aql_reach :: "aql_history \<Rightarrow> aql_queue \<Rightarrow> bool" where
  ar_new: "aql_mapping_accepted command m \<Longrightarrow> length ring = mi_ring_byte_length m div 64 \<Longrightarrow>
     aql_reach \<lparr>ah_works = 0, ah_log = [], ah_done = 0, ah_ticks = []\<rparr> (aql_queue_new timestamps m ring)"
| ar_prepare: "aql_reach h s \<Longrightarrow> packets \<noteq> [] \<Longrightarrow> buffers \<noteq> [] \<Longrightarrow>
     aql_reach (h\<lparr>ah_works := Suc (ah_works h)\<rparr>) (upd_work (ah_works h) (\<lambda>_. aql_prepared packets buffers) s)"
| ar_dispatch: "aql_reach h s \<Longrightarrow> w < ah_works h \<Longrightarrow> seen_ok s seen \<Longrightarrow> read_seen \<le> aq_read_index s \<Longrightarrow>
     aql_dispatch seen read_seen refuses w s = (Inr c, t) \<Longrightarrow> aql_reach (log_dispatch w (ac_timing c) h) t"
| ar_refused: "aql_reach h s \<Longrightarrow> w < ah_works h \<Longrightarrow> seen_ok s seen \<Longrightarrow> read_seen \<le> aq_read_index s \<Longrightarrow>
     aql_dispatch seen read_seen refuses w s = (Inl e, t) \<Longrightarrow> aql_reach h t"
| ar_refresh: "aql_reach h s \<Longrightarrow> ac_work c < ah_works h \<Longrightarrow> signal_seen s (ac_work c) v \<Longrightarrow> seen_ok s seen \<Longrightarrow>
     aql_completion_refresh v seen query c s = (r, t) \<Longrightarrow> aql_reach h t"
| ar_late: "aql_reach h s \<Longrightarrow> w < ah_works h \<Longrightarrow> completed \<le> finished h w \<Longrightarrow> aql_reach h (aql_retire completed w s)"
| ar_read: "aql_reach h s \<Longrightarrow> aq_read_index s \<le> r \<Longrightarrow> r \<le> aq_write s \<Longrightarrow> aql_reach h (s\<lparr>aq_read_index := r\<rparr>)"
| ar_finish: "aql_reach h s \<Longrightarrow> ah_done h < length (ah_log h) \<Longrightarrow>
     length (packets_of s (take (Suc (ah_done h)) (ah_log h))) \<le> aq_read_index s \<Longrightarrow>
     aql_reach (finish_next ticks h) (device_finish (logged h (ah_done h)) ticks s)"
| ar_fail: "aql_reach h s \<Longrightarrow> aql_reach h (s\<lparr>aq_status := Some status\<rparr>)"

lemma queue_new_ok:
  assumes "aql_mapping_accepted command m" "length ring = mi_ring_byte_length m div 64"
  shows "aql_inv \<lparr>ah_works = 0, ah_log = [], ah_done = 0, ah_ticks = []\<rparr> (aql_queue_new timestamps m ring)"
proof -
  obtain k where k: "mi_ring_byte_length m = 2 ^ k" "128 \<le> mi_ring_byte_length m"
    using assms(1) by (auto simp: aql_mapping_accepted_def is_power_of_two_iff)
  have "(2::nat) ^ 7 \<le> 2 ^ k" using k by simp
  then have "7 \<le> k" by (rule power_le_imp_le_exp [rotated]) simp
  then have "(2::nat) ^ k = 2 ^ (k - 6) * 64" using power_add [of "2::nat" "k - 6" 6] by simp
  then have "is_power_of_two (mi_ring_byte_length m div 64)" unfolding is_power_of_two_iff k(1) by auto
  then show ?thesis using assms(2)
    by (simp add: aql_inv_def core_inv_def works_inv_def uses_inv_def ring_inv_def ring_holds_def captures_inv_def pending_inv_def
        entries_from_def packets_of_def aql_queue_new_def)
qed

lemma aql_reach_inv: "aql_reach h s \<Longrightarrow> aql_inv h s"
proof (induction rule: aql_reach.induct)
  case (ar_new command m ring timestamps)
  then show ?case by (rule queue_new_ok)
next
  case (ar_prepare h s packets buffers)
  then show ?case by (intro prepare_step_ok)
next
  case (ar_dispatch h s w seen read_seen refuses c t)
  then show ?case using aql_dispatch_ok [OF ar_dispatch.IH ar_dispatch.hyps(2-5)] by (simp add: dispatch_after_def)
next
  case (ar_refused h s w seen read_seen refuses e t)
  then show ?case using aql_dispatch_ok [OF ar_refused.IH ar_refused.hyps(2-5)] by (simp add: dispatch_after_def)
next
  case (ar_refresh h s c v seen query r t)
  then show ?case using completion_refresh_ok [OF ar_refresh.IH ar_refresh.hyps(2-5)] by simp
next
  case (ar_late h s w completed)
  then show ?case using aql_retire_ok [of h s w completed] by (simp add: aql_inv_def pending_inv_def aql_retire_fields)
next
  case (ar_read h s r)
  then show ?case by (intro read_step_ok)
next
  case (ar_finish h s ticks)
  then show ?case by (intro finish_step_ok)
next
  case (ar_fail h s status)
  let ?t = "s\<lparr>aq_status := Some status\<rparr>"
  have "packets_of ?t log = packets_of s log" "capture_entry h ?t i w c = capture_entry h s i w c" for log i w c
    by (rule packets_of_cong) (simp_all add: capture_entry_def)
  then show ?case using ar_fail.IH
    by (simp add: aql_inv_def core_inv_def works_inv_def uses_inv_def ring_inv_def captures_inv_def pending_inv_def)
qed

text \<open>A completed profiled dispatch always has its capture, and a timing it answers is the one the device wrote for that dispatch.\<close>

lemma timing_exact:
  assumes reach: "aql_reach h s" and i: "i < length (ah_log h)" "ah_log h ! i = (w, Some k)"
    and seen: "signal_seen s w v" "seen_ok s seen"
    and r: "aql_timing v seen query \<lparr>ac_work = w, ac_point = point_at h i, ac_timing = Some k\<rparr> s = (r, t)"
  shows "r = Inr (Some ticks) \<Longrightarrow> i < ah_done h \<and> ticks = ah_ticks h ! i"
    "aql_completion_refresh v seen query \<lparr>ac_work = w, ac_point = point_at h i, ac_timing = Some k\<rparr> s = (Inr True, t') \<Longrightarrow>
       r = Inr (Some (ah_ticks h ! i)) \<or> r = Inl (Message ''unwritten, reset or wrapped AQL timestamps'')"
proof -
  let ?c = "\<lparr>ac_work = w, ac_point = point_at h i, ac_timing = Some k\<rparr>"
  have inv: "aql_inv h s" using reach by (rule aql_reach_inv)
  have w: "w < ah_works h" using inv logged_bound [of h s i] i by (simp add: aql_inv_def core_inv_def)
  obtain a u where a: "aql_completion_refresh v seen query ?c s = (a, u)" by (cases "aql_completion_refresh v seen query ?c s")
  have u: "aql_inv h u \<and> (a = Inr True \<longrightarrow> aql_is_complete ?c u)"
    using completion_refresh_ok [OF inv _ _ seen(2) a] w seen(1) by simp
  have e: "capture_entry h u i w k" using u i by (simp add: aql_inv_def core_inv_def captures_inv_def)
  have cap: "aq_captures u ! k = Some (ah_ticks h ! i) \<and> i < ah_done h" if "a = Inr True"
    using capture_entryD(2) [OF e] retired_done [of h u i] u i that by (simp add: aql_is_complete_def aql_inv_def core_inv_def)
  have "(a \<noteq> Inr True \<longrightarrow> r \<noteq> Inr (Some ticks)) \<and> (a = Inr True \<longrightarrow> r = Inr (Some ticks) \<longrightarrow> ticks = ah_ticks h ! i)" for ticks
    using r a cap by (auto simp: aql_timing_def split: sum.splits bool.splits if_splits prod.splits)
  then show "r = Inr (Some ticks) \<Longrightarrow> i < ah_done h \<and> ticks = ah_ticks h ! i" using cap by blast
  assume "aql_completion_refresh v seen query ?c s = (Inr True, t')"
  then show "r = Inr (Some (ah_ticks h ! i)) \<or> r = Inl (Message ''unwritten, reset or wrapped AQL timestamps'')"
    using r a cap by (cases "ah_ticks h ! i") (auto simp: aql_timing_def split: if_splits)
qed


text \<open>Storage is released by a drop only when every dispatch ever accepted has finished.\<close>

lemma drain_finished:
  assumes "core_inv h s" "k \<le> ah_done h" "seen_ok s seen" "aql_drain seen (entries_from h k) s = (True, t)"
  shows "ah_done h = length (ah_log h)"
  using assms
proof (induction "length (ah_log h) - k" arbitrary: k s)
  case 0
  then show ?case by (auto simp: core_inv_def works_inv_def)
next
  case (Suc m)
  then have k: "k < length (ah_log h)" and m: "m = length (ah_log h) - Suc k" by simp_all
  have w: "logged h k < ah_works h" using Suc.prems(1) k logged_bound unfolding core_inv_def by blast
  have sn: "signal_seen s (logged h k) (seen (logged h k, point_at h k))" using Suc.prems(3) by (simp add: seen_ok_def)
  obtain r u where u: "aql_refresh (seen (logged h k, point_at h k)) (logged h k) (point_at h k) s = (Inr r, u)" "retire_step h s u"
    "r \<longrightarrow> point_at h k \<le> aw_retired (aq_works u (logged h k))"
    by (rule aql_refresh_ok [OF Suc.prems(1) w sn, of "point_at h k"])
  have r: "r" "aql_drain seen (entries_from h (Suc k)) u = (True, t)"
    using Suc.prems(4) u(1) by (cases r; simp add: entries_from_step [OF k])+
  have inv: "core_inv h u" and "seen_ok u seen" using u(2) Suc.prems(3) by (simp_all add: retire_step_def seen_ok_def signal_seen_def)
  moreover have "Suc k \<le> ah_done h" using retired_done [of h u k] inv k u(3) r(1) by (simp add: core_inv_def)
  ultimately show ?case using Suc.hyps(1) [OF m inv _ _ r(2)] by simp
qed

lemma drop_releases_finished:
  assumes "aql_reach h s" "seen_ok s seen" "aql_drop seen destroyed s = (True, t)"
  shows "destroyed \<and> ah_done h = length (ah_log h)"
proof -
  have inv: "aql_inv h s" using assms(1) by (rule aql_reach_inv)
  then obtain k where k: "k \<le> ah_done h" "aq_pending s = entries_from h k" by (auto simp: aql_inv_def pending_inv_def)
  have "destroyed \<and> aql_drain seen (entries_from h k) s = (True, t)" using assms(3) k(2) by (auto simp: aql_drop_def split: prod.splits)
  then show ?thesis using drain_finished [OF _ k(1) assms(2)] inv by (auto simp: aql_inv_def)
qed


section \<open>Safety\<close>

text \<open>
  C19: in every reachable state of an AQL queue, the ring holds exactly the unread packets of the accepted dispatches in order, and never
  more than it can hold; at most 4096 dispatches are pending and every unfinished one is among them; the buffers of an unfinished
  dispatch are held in use and uses are counted exactly; a completion is reported only for a dispatch that the
  device has finished; a profiled dispatch that was reported complete has exactly the timestamps the device wrote for it.
\<close>

theorem aql_queue_safe:
  assumes "aql_reach h s"
  shows "(\<forall>i. aq_read_index s \<le> i \<longrightarrow> i < aq_write s \<longrightarrow> aq_ring s ! (i mod aq_capacity s) = packets_of s (ah_log h) ! i)
    \<and> aq_write s = length (packets_of s (ah_log h)) \<and> aq_write s - aq_read_index s \<le> aq_capacity s
    \<and> length (aq_pending s) \<le> 4096
    \<and> (\<forall>i<length (ah_log h). ah_done h \<le> i \<longrightarrow> (logged h i, point_at h i) \<in> set (aq_pending s)
          \<and> aw_leases (aq_works s (logged h i)) = aw_buffers (aq_works s (logged h i)))
    \<and> (\<forall>b. aq_uses s b = (\<Sum>w<ah_works h. count_list (aw_leases (aq_works s w)) b))
    \<and> (\<forall>i<length (ah_log h). aql_is_complete \<lparr>ac_work = logged h i, ac_point = point_at h i, ac_timing = snd (ah_log h ! i)\<rparr> s \<longrightarrow>
          i < ah_done h \<and> (\<forall>c. snd (ah_log h ! i) = Some c \<longrightarrow> aq_captures s ! c = Some (ah_ticks h ! i)))"
proof -
  have inv: "aql_inv h s" using assms by (rule aql_reach_inv)
  then have works: "works_inv h s" and ring: "ring_inv h s" and caps: "captures_inv h s" and pend: "pending_inv h s" and uses: "uses_inv h s"
    by (simp_all add: aql_inv_def core_inv_def)
  obtain k where k: "k \<le> ah_done h" "aq_pending s = entries_from h k" using pend by (auto simp: pending_inv_def)
  have unfinished: "(logged h i, point_at h i) \<in> set (aq_pending s) \<and> aw_leases (aq_works s (logged h i)) = aw_buffers (aq_works s (logged h i))"
    if i: "i < length (ah_log h)" "ah_done h \<le> i" for i
  proof -
    have "finished h (logged h i) < issued h (logged h i)" using point_finished_iff [OF i(1)] point_le_issued [OF i(1)] i(2) by linarith
    then show ?thesis using works_invD(9) [OF works logged_bound [OF works i(1)]] k i by (auto simp: entries_from_def)
  qed
  have complete: "i < ah_done h \<and> (\<forall>c. snd (ah_log h ! i) = Some c \<longrightarrow> aq_captures s ! c = Some (ah_ticks h ! i))"
    if i: "i < length (ah_log h)" "point_at h i \<le> aw_retired (aq_works s (logged h i))" for i
  proof (intro conjI allI impI)
    show "i < ah_done h" by (rule retired_done [OF works i])
    fix c assume "snd (ah_log h ! i) = Some c"
    then have "ah_log h ! i = (logged h i, Some c)" by (simp add: prod_eq_iff)
    then have e: "capture_entry h s i (logged h i) c" using caps i(1) by (simp add: captures_inv_def)
    show "aq_captures s ! c = Some (ah_ticks h ! i)" by (rule capture_entryD(2) [OF e i(2)])
  qed
  show ?thesis
    using ring pend uses unfinished complete by (simp add: ring_inv_def ring_holds_def pending_inv_def uses_inv_def aql_is_complete_def)
qed

definition demo_mapping :: mapping_info where
  "demo_mapping = \<lparr>mi_command = 2, mi_format_version = 1, mi_ring_byte_length = 128, mi_index_bits = 64, mi_doorbell_bits = 64,
     mi_addresses = [8], mi_ring = []\<rparr>"

definition demo_aql :: aql_queue where
  "demo_aql = upd_work 0 (\<lambda>_. aql_prepared [replicate 16 1, replicate 16 2] [7]) (aql_queue_new True demo_mapping [[], []])"

theorem aql_queue_safe_witness:
  "\<exists>h s. aql_reach h s \<and> ah_log h = [(0, Some 0)] \<and> aq_ring s ! 1 = replicate 16 2 \<and> (0, 1) \<in> set (aq_pending s) \<and> aq_uses s 7 = 1"
proof -
  let ?h = "\<lparr>ah_works = 0, ah_log = [], ah_done = 0, ah_ticks = []\<rparr>\<lparr>ah_works := Suc 0\<rparr>"
  have "aql_mapping_accepted 2 demo_mapping" by (simp add: aql_mapping_accepted_def demo_mapping_def is_power_of_two.simps)
  then have "aql_reach \<lparr>ah_works = 0, ah_log = [], ah_done = 0, ah_ticks = []\<rparr> (aql_queue_new True demo_mapping [[], []])"
    by (rule ar_new) (simp add: demo_mapping_def)
  from ar_prepare [OF this, of "[replicate 16 1, replicate 16 2]" "[7]"] have reach: "aql_reach ?h demo_aql" by (simp add: demo_aql_def)
  define r where "r = aql_dispatch (\<lambda>_. i64_MAX) 0 (\<lambda>_. None) 0 demo_aql"
  have seen: "seen_ok demo_aql (\<lambda>_. i64_MAX)"
    by (simp add: seen_ok_def signal_seen_def demo_aql_def upd_work_def aql_prepared_def aql_queue_new_def)
  have r: "fst r = Inr \<lparr>ac_work = 0, ac_point = 1, ac_timing = Some 0\<rparr>" "aq_write (snd r) = 2" "aq_read_index (snd r) = 0" "aq_capacity (snd r) = 2"
    "aw_packets (aq_works (snd r) 0) = [replicate 16 1, replicate 16 2]" "aw_buffers (aq_works (snd r) 0) = [7]"
    by (simp_all add: r_def aql_dispatch_def demo_aql_def aql_queue_new_def demo_mapping_def upd_work_def aql_prepared_def i64_MAX_def usize_MAX_def saturating_sub_def
        begin_capture_def aql_take_leases_def aql_publish_def Let_def)
  define h where "h = log_dispatch 0 (Some 0) ?h"
  have "aql_reach h (snd r)"
    using ar_dispatch [OF reach _ seen, of 0 0 "\<lambda>_. None" "\<lparr>ac_work = 0, ac_point = 1, ac_timing = Some 0\<rparr>" "snd r"] r(1)
    by (simp add: h_def r_def prod_eq_iff)
  note safe = aql_queue_safe [OF this]
  have h: "ah_log h = [(0, Some 0)]" "ah_done h = 0" "ah_works h = 1" "point_at h 0 = 1" by (simp_all add: h_def log_dispatch_def point_at_def)
  have "aq_ring (snd r) ! (1 mod 2) = packets_of (snd r) (ah_log h) ! 1" using safe r(2-4) by auto
  then have "aq_ring (snd r) ! 1 = replicate 16 2" using r(5) by (simp add: packets_of_def h)
  moreover have p: "(0, 1) \<in> set (aq_pending (snd r)) \<and> aw_leases (aq_works (snd r) 0) = [7]" using safe r(6) by (auto simp: h)
  moreover have "aq_uses (snd r) 7 = (\<Sum>w<1. count_list (aw_leases (aq_works (snd r) w)) 7)" using safe h(3) by simp
  then have "aq_uses (snd r) 7 = 1" using p by simp
  ultimately show ?thesis using \<open>aql_reach h (snd r)\<close> h(1) by blast
qed

end
