(* ===== verification/Storage_Session.thy ===== *)
theory Storage_Session
  imports Align_Mask "HOL-Library.Multiset"
begin

text \<open>
  File input and output through registered payload slots, \<^verbatim>\<open>src/src/storage/mod.rs\<close>: registration of files, aligned physical
  extents, admission of requests to slots with sharing and write exclusion, and the service worker that executes batches with
  retries and publishes outcomes. What the operating system, the native queue and the payload buffer answer are arguments. A request is
  named by a number; \<open>ss_handles\<close> counts the tickets, leases and transfers that hold it.
\<close>


section \<open>Files and extents\<close>

datatype storage_mode = Buffered | Direct

record storage_config =
  sc_mode :: storage_mode
  sc_slots :: usize
  sc_slot_bytes :: usize

record registered_file =
  rf_bytes :: usize
  rf_alignment :: usize
  rf_writable :: bool
  rf_readable :: bool
  rf_identity :: "nat \<times> nat"

record extent =
  ex_file :: usize
  ex_offset :: usize
  ex_bytes :: usize
  ex_writing :: bool

record physical_extent =
  ph_offset :: usize
  ph_bytes :: usize
  ph_skip :: usize

definition mask_low :: "usize \<Rightarrow> usize \<Rightarrow> usize" where
  "mask_low alignment n = and n (alignment - 1)"

definition physical :: "extent \<Rightarrow> usize \<Rightarrow> usize \<Rightarrow> usize \<Rightarrow> physical_extent result" where
  "physical e size' alignment capacity =
     (case checked_add (ex_offset e) (ex_bytes e) of
        None \<Rightarrow> Inl (Message ''file extent overflow'')
      | Some stop \<Rightarrow>
          if ex_bytes e = 0 \<or> ex_bytes e > capacity \<or> (\<not> ex_writing e \<and> stop > size')
          then Inl (Message ''file extent exceeds its file or payload slot'')
          else if ex_writing e \<and> (mask_low alignment (ex_offset e) \<noteq> 0 \<or> mask_low alignment (ex_bytes e) \<noteq> 0)
          then Inl (Message ''direct writes require aligned file offsets and lengths'')
          else let first = mask_down alignment (ex_offset e)
          in case checked_add stop (alignment - 1) of
               None \<Rightarrow> Inl (Message ''aligned extent overflow'')
             | Some up \<Rightarrow>
                 let bytes = mask_down alignment up - first
                 in if bytes > capacity then Inl (Message ''aligned read exceeds payload slot'')
                    else Inr \<lparr>ph_offset = first, ph_bytes = bytes, ph_skip = ex_offset e - first\<rparr>)"

datatype file_access = OnlyRead | OnlyWrite | BothAccess

record file_info =
  fi_regular :: bool
  fi_bytes :: usize
  fi_append :: bool
  fi_direct :: bool
  fi_path :: bool
  fi_access :: file_access
  fi_identity :: "nat \<times> nat"

record dio_info =
  dio_reported :: bool
  dio_mem_align :: usize
  dio_offset_align :: usize

definition direct_alignment :: "dio_info \<Rightarrow> usize \<Rightarrow> usize result" where
  "direct_alignment d page =
     (if \<not> dio_reported d \<or> dio_mem_align d = 0 \<or> dio_offset_align d = 0
      then Inl (Unsupported ''filesystem does not report direct-I/O alignment'')
      else let alignment = max (dio_mem_align d) (dio_offset_align d)
      in if \<not> is_power_of_two (dio_mem_align d) \<or> \<not> is_power_of_two (dio_offset_align d) \<or> alignment > page
         then Inl (Unsupported ''direct-I/O alignment exceeds registered-page alignment'')
         else Inr alignment)"

text \<open>\<open>metadata\<close>, \<open>flags\<close> and \<open>opened\<close> (the identity of the reopened or cloned descriptor) are answers of the operating system.\<close>

definition register_file ::
  "storage_mode \<Rightarrow> file_info result \<Rightarrow> unit result \<Rightarrow> (nat \<times> nat) result \<Rightarrow> dio_info \<Rightarrow> usize \<Rightarrow> registered_file result" where
  "register_file mode metadata flags opened dio page =
     and_then metadata (\<lambda>info.
     if \<not> fi_regular info then Inl (Unsupported ''storage requires a regular file'')
     else and_then flags (\<lambda>_.
     if fi_append info then Inl (Unsupported ''storage does not accept append-only descriptors'')
     else and_then opened (\<lambda>identity.
     if (mode = Direct \<or> fi_direct info) \<and> identity \<noteq> fi_identity info then Inl (Message ''storage file identity changed'')
     else and_then (if mode = Direct then direct_alignment dio page else Inr 1) (\<lambda>alignment.
       Inr \<lparr>rf_bytes = fi_bytes info, rf_alignment = alignment, rf_writable = (fi_access info \<noteq> OnlyRead),
            rf_readable = (fi_access info \<noteq> OnlyWrite \<and> \<not> fi_path info), rf_identity = fi_identity info\<rparr>))))"


section \<open>Sessions\<close>

record storage_request =
  sr_extent :: extent
  sr_physical :: physical_extent
  sr_slot :: nat
  sr_outcome :: "(error + usize) option"

record storage_statistics =
  st_logical_requests :: nat
  st_physical_requests :: nat
  st_shared_reads :: nat
  st_completed_bytes :: nat
  st_errors :: nat
  st_peak_slots :: nat
  st_peak_outstanding :: nat

record storage_state =
  ss_config :: storage_config
  ss_files :: "registered_file list"
  ss_requests :: "storage_request list"
  ss_handles :: "nat \<Rightarrow> nat"
  ss_pending :: "nat list"
  ss_jobs :: "nat list"
  ss_slots :: "nat option list"
  ss_stop :: bool
  ss_failed :: "error option"
  ss_running :: bool
  ss_statistics :: storage_statistics

definition statistics_default :: storage_statistics where
  "statistics_default =
     \<lparr>st_logical_requests = 0, st_physical_requests = 0, st_shared_reads = 0, st_completed_bytes = 0, st_errors = 0, st_peak_slots = 0,
      st_peak_outstanding = 0\<rparr>"

text \<open>\<open>page\<close> is the host page size or \<open>None\<close>; \<open>registered\<close> the answers for the files, \<open>allocated\<close> and \<open>started\<close> those of the payload and the worker.\<close>

definition storage_session_new ::
  "usize option \<Rightarrow> storage_config \<Rightarrow> registered_file result list \<Rightarrow> unit result \<Rightarrow> unit result \<Rightarrow> storage_state result" where
  "storage_session_new page config registered allocated started =
     (case page of
        None \<Rightarrow> Inl (Unsupported ''host page size unavailable'')
      | Some p \<Rightarrow>
          if sc_slots config = 0 \<or> sc_slots config > 64 \<or> sc_slot_bytes config = 0 \<or> sc_slot_bytes config > 64 * 2 ^ 20
             \<or> sc_slot_bytes config mod p \<noteq> 0
          then Inl (Message ''storage needs 1..=64 slots of page-aligned size, at most 64 MiB each'')
          else and_then (map_result id registered) (\<lambda>files.
          if files = [] \<or> length files > 1024 then Inl (Message ''storage needs 1..=1024 files'')
          else and_then allocated (\<lambda>_. and_then started (\<lambda>_.
            Inr \<lparr>ss_config = config, ss_files = files, ss_requests = [], ss_handles = (\<lambda>_. 0), ss_pending = [], ss_jobs = [],
                 ss_slots = replicate (sc_slots config) None, ss_stop = False, ss_failed = None, ss_running = True,
                 ss_statistics = statistics_default\<rparr>))))"

definition read_chunk_bytes :: "storage_state \<Rightarrow> usize" where
  "read_chunk_bytes s = saturating_sub (sc_slot_bytes (ss_config s)) (fold max (map rf_alignment (ss_files s)) 1 - 1)"

text \<open>The strong references of a request: handles, its place in the queue and in the worker's batch. A slot holds a weak reference.\<close>

definition strong :: "storage_state \<Rightarrow> nat \<Rightarrow> nat" where
  "strong s r = ss_handles s r + count_list (ss_pending s) r + count_list (ss_jobs s) r"

definition live_slot :: "storage_state \<Rightarrow> nat option \<Rightarrow> bool" where
  "live_slot s r = (case r of None \<Rightarrow> False | Some i \<Rightarrow> strong s i > 0)"

datatype slot_answer = ShareWith nat | Overlapping | NoMatch

definition extents_overlap :: "extent \<Rightarrow> extent \<Rightarrow> bool" where
  "extents_overlap a b \<longleftrightarrow> ex_offset a < ex_offset b + ex_bytes b \<and> ex_offset b < ex_offset a + ex_bytes a"

definition request_failed :: "storage_request \<Rightarrow> bool" where
  "request_failed x = (case sr_outcome x of Some (Inl e) \<Rightarrow> True | _ \<Rightarrow> False)"

fun scan_slots :: "storage_state \<Rightarrow> extent \<Rightarrow> nat \<times> nat \<Rightarrow> nat option list \<Rightarrow> slot_answer" where
  "scan_slots s e identity [] = NoMatch"
| "scan_slots s e identity (r # rs) =
     (case r of
        None \<Rightarrow> scan_slots s e identity rs
      | Some i \<Rightarrow>
          if strong s i = 0 then scan_slots s e identity rs
          else let other = sr_extent (ss_requests s ! i)
          in if rf_identity (ss_files s ! ex_file other) \<noteq> identity then scan_slots s e identity rs
             else if \<not> ex_writing e \<and> \<not> ex_writing other \<and> ex_offset other = ex_offset e \<and> ex_bytes other = ex_bytes e
                     \<and> \<not> request_failed (ss_requests s ! i)
             then ShareWith i
             else if (ex_writing e \<or> ex_writing other) \<and> extents_overlap e other then Overlapping
             else scan_slots s e identity rs)"

definition add_handle :: "nat \<Rightarrow> storage_state \<Rightarrow> storage_state" where
  "add_handle r s = s\<lparr>ss_handles := (ss_handles s)(r := ss_handles s r + 1)\<rparr>"

definition upd_stats :: "(storage_statistics \<Rightarrow> storage_statistics) \<Rightarrow> storage_state \<Rightarrow> storage_state" where
  "upd_stats f s = s\<lparr>ss_statistics := f (ss_statistics s)\<rparr>"

definition share_request :: "nat \<Rightarrow> storage_state \<Rightarrow> storage_state" where
  "share_request r s =
     add_handle r (upd_stats (\<lambda>st. st\<lparr>st_logical_requests := st_logical_requests st + 1, st_shared_reads := st_shared_reads st + 1\<rparr>) s)"

definition admit_request :: "extent \<Rightarrow> physical_extent \<Rightarrow> nat \<Rightarrow> storage_state \<Rightarrow> storage_state" where
  "admit_request e p slot s =
     (let r = length (ss_requests s);
          s1 = s\<lparr>ss_requests := ss_requests s @ [\<lparr>sr_extent = e, sr_physical = p, sr_slot = slot, sr_outcome = None\<rparr>],
                 ss_slots := (ss_slots s)[slot := Some r], ss_pending := ss_pending s @ [r]\<rparr>;
          s2 = add_handle r s1
      in upd_stats (\<lambda>st. st\<lparr>st_logical_requests := st_logical_requests st + 1,
                          st_peak_slots := max (st_peak_slots st) (length (filter (live_slot s2) (ss_slots s2)))\<rparr>) s2)"

text \<open>\<open>written\<close> is the answer of copying the data of a write into its slot; \<open>os_error\<close> gives the text of an error number.\<close>

definition storage_submit :: "(nat \<Rightarrow> string) \<Rightarrow> extent \<Rightarrow> unit result \<Rightarrow> storage_state \<Rightarrow> nat result \<times> storage_state" where
  "storage_submit os_error e written s =
     (if ex_file e \<ge> length (ss_files s) then (Inl (Message ''unregistered file index''), s)
      else let f = ss_files s ! ex_file e
      in if (ex_writing e \<and> \<not> rf_writable f) \<or> (\<not> ex_writing e \<and> \<not> rf_readable f) then (Inl (Io (os_error 9)), s)
         else case physical e (rf_bytes f) (rf_alignment f) (sc_slot_bytes (ss_config s)) of
           Inl err \<Rightarrow> (Inl err, s)
         | Inr p \<Rightarrow>
             (case ss_failed s of
                Some err \<Rightarrow> (Inl (Execution err), s)
              | None \<Rightarrow>
                  if ss_stop s then (Inl Cancelled, s)
                  else case scan_slots s e (rf_identity f) (ss_slots s) of
                    ShareWith r \<Rightarrow> (Inr r, share_request r s)
                  | Overlapping \<Rightarrow> (Inl (Busy ''overlapping storage write is still retained''), s)
                  | NoMatch \<Rightarrow>
                      (case position (\<lambda>r. \<not> live_slot s r) (ss_slots s) of
                         None \<Rightarrow> (Inl (Busy ''all storage payload slots are retained''), s)
                       | Some slot \<Rightarrow>
                           (case (if ex_writing e then written else Inr ()) of
                              Inl err \<Rightarrow> (Inl err, s)
                            | Inr _ \<Rightarrow> (Inr (length (ss_requests s)), admit_request e p slot s)))))"

text \<open>Tickets and leases: cloning and dropping a handle, and taking a lease from a completed request.\<close>

definition drop_handle :: "nat \<Rightarrow> storage_state \<Rightarrow> storage_state" where
  "drop_handle r s = s\<lparr>ss_handles := (ss_handles s)(r := ss_handles s r - 1)\<rparr>"

definition ticket_is_complete :: "nat \<Rightarrow> storage_state \<Rightarrow> bool" where
  "ticket_is_complete r s \<longleftrightarrow> sr_outcome (ss_requests s ! r) \<noteq> None"

definition ticket_wait :: "nat \<Rightarrow> storage_state \<Rightarrow> bool result \<times> storage_state" where
  "ticket_wait r s =
     (case sr_outcome (ss_requests s ! r) of
        None \<Rightarrow> (Inr False, s)
      | Some (Inl e) \<Rightarrow> (Inl (Execution e), s)
      | Some (Inr _) \<Rightarrow> (Inr True, add_handle r s))"

definition lease_offset :: "nat \<Rightarrow> storage_state \<Rightarrow> usize" where
  "lease_offset r s = sr_slot (ss_requests s ! r) * sc_slot_bytes (ss_config s) + ph_skip (sr_physical (ss_requests s ! r))"

definition lease_len :: "nat \<Rightarrow> storage_state \<Rightarrow> usize" where
  "lease_len r s = ex_bytes (sr_extent (ss_requests s ! r))"


section \<open>Outcomes\<close>

definition set_outcome :: "error + usize \<Rightarrow> nat \<Rightarrow> storage_state \<Rightarrow> storage_state" where
  "set_outcome out r s = s\<lparr>ss_requests := (ss_requests s)[r := (ss_requests s ! r)\<lparr>sr_outcome := Some out\<rparr>]\<rparr>"

definition fail_pending :: "error \<Rightarrow> storage_state \<Rightarrow> storage_state" where
  "fail_pending e s =
     upd_stats (\<lambda>st. st\<lparr>st_errors := st_errors st + length (ss_pending s)\<rparr>)
       ((fold (set_outcome (Inl e)) (ss_pending s) s)\<lparr>ss_pending := []\<rparr>)"

definition stop_after_failure :: "error \<Rightarrow> storage_state \<Rightarrow> error \<times> storage_state" where
  "stop_after_failure e s =
     (Execution e,
      fail_pending e (s\<lparr>ss_failed := (case ss_failed s of None \<Rightarrow> Some e | Some f \<Rightarrow> Some f), ss_stop := True\<rparr>))"

text \<open>
  \<^verbatim>\<open>ReadLease::enqueue\<close> after the checks: \<open>submitted\<close> is what the operation and the event answered, \<open>synchronized\<close> what a
  synchronization after its failure (or panic) answers. The lease is kept by the transfer, dropped, or leaked for good.
\<close>

definition lease_enqueue :: "bool \<Rightarrow> unit result \<Rightarrow> unit result \<Rightarrow> unit result \<Rightarrow> nat \<Rightarrow> storage_state \<Rightarrow> unit result \<times> storage_state" where
  "lease_enqueue same_domain bound submitted synchronized r s =
     (if \<not> same_domain then (Inl (Message ''storage and stream belong to different native domains''), drop_handle r s)
      else case bound of
        Inl e \<Rightarrow> (Inl e, drop_handle r s)
      | Inr _ \<Rightarrow>
          (case submitted of
             Inr _ \<Rightarrow> (Inr (), s)
           | Inl e \<Rightarrow>
               (case synchronized of
                  Inr _ \<Rightarrow> (Inl e, drop_handle r s)
                | Inl failure \<Rightarrow> (Inl e, snd (stop_after_failure failure s)))))"

text \<open>Waiting for a transfer: its handle is released exactly when the event completed; a failure keeps it.\<close>

definition transfer_wait :: "bool result \<Rightarrow> nat \<Rightarrow> storage_state \<Rightarrow> bool result \<times> storage_state" where
  "transfer_wait event r s =
     (case event of
        Inl e \<Rightarrow> (let (e', s') = stop_after_failure e s in (Inl e', s'))
      | Inr True \<Rightarrow> (Inr True, drop_handle r s)
      | Inr False \<Rightarrow> (Inr False, s))"

text \<open>Dropping a transfer that is still retained waits for its event; a failure leaks the lease, so the slot is never reused.\<close>

definition transfer_drop :: "unit result \<Rightarrow> nat \<Rightarrow> storage_state \<Rightarrow> storage_state" where
  "transfer_drop synchronized r s =
     (case synchronized of
        Inr _ \<Rightarrow> drop_handle r s
      | Inl e \<Rightarrow> snd (stop_after_failure e s))"


section \<open>The worker\<close>

definition worker_take :: "storage_state \<Rightarrow> storage_state" where
  "worker_take s =
     (if ss_pending s = []
      then (if ss_stop s then s\<lparr>ss_running := False\<rparr> else s)
      else s\<lparr>ss_jobs := ss_pending s, ss_pending := []\<rparr>)"

definition required_bytes :: "storage_request \<Rightarrow> nat" where
  "required_bytes x = ph_skip (sr_physical x) + ex_bytes (sr_extent x)"

text \<open>The descriptor of one attempt: file offset, payload offset, file, opcode, length.\<close>

definition batch_descriptor :: "usize \<Rightarrow> storage_request \<Rightarrow> usize \<Rightarrow> usize \<times> usize \<times> usize \<times> nat \<times> usize" where
  "batch_descriptor slot_bytes x completed =
     (ph_offset (sr_physical x) + completed, sr_slot x * slot_bytes + completed, ex_file (sr_extent x),
      if ex_writing (sr_extent x) then 5 else 4, ph_bytes (sr_physical x) - completed)"

text \<open>
  One round over the remaining jobs with the results of a batch: the numbers to retry, whether one failed, and the bytes and
  results so far. \<open>alignment\<close> is that of the file of a job, \<open>EIO\<close> is 5. The kernel transfers at most the requested
  length, at most 64 MiB, so the conversion of the bytes so far to 32 signed bits is exact.
\<close>

fun batch_round ::
  "(nat \<Rightarrow> nat) \<Rightarrow> (nat \<Rightarrow> bool) \<Rightarrow> (nat \<Rightarrow> nat) \<Rightarrow> (nat \<times> int) list \<Rightarrow> (nat \<Rightarrow> nat) \<Rightarrow> (nat \<Rightarrow> int)
     \<Rightarrow> nat list \<times> bool \<times> (nat \<Rightarrow> nat) \<times> (nat \<Rightarrow> int)" where
  "batch_round required writing alignment [] completed results = ([], False, completed, results)"
| "batch_round required writing alignment ((i, result) # rest) completed results =
     (if result < 0
      then (let (retry, failed, c, r) = batch_round required writing alignment rest completed (results(i := result)) in (retry, True, c, r))
      else let n = completed i + nat result; completed' = completed(i := n)
      in if n \<ge> required i then batch_round required writing alignment rest completed' (results(i := int n))
         else if result = 0 \<or> n mod alignment i \<noteq> 0
         then (let (retry, failed, c, r) = batch_round required writing alignment rest completed'
                       (results(i := if writing i then - 5 else int n)) in (retry, True, c, r))
         else (let (retry, failed, c, r) = batch_round required writing alignment rest completed' (results(i := int n)) in (i # retry, failed, c, r)))"

lemma progress_step:
  assumes "set a \<subseteq> F \<and> (\<forall>j\<in>set a. C j < c j \<and> C j < req j) \<and> (\<forall>j. C j \<le> c j)" and "\<And>j. completed j \<le> C j"
  shows "set a \<subseteq> F \<and> (\<forall>j\<in>set a. completed j < c j \<and> completed j < req j) \<and> (\<forall>j. completed j \<le> (c j :: nat))"
  using assms by (meson le_less_trans le_trans)

lemma batch_round_retry:
  "batch_round required writing alignment rs completed results = (retry, failed, completed', results') \<Longrightarrow>
     set retry \<subseteq> fst ` set rs \<and> (\<forall>i\<in>set retry. completed i < completed' i \<and> completed i < required i) \<and> (\<forall>i. completed i \<le> completed' i)"
proof (induction required writing alignment rs completed results arbitrary: retry failed completed' results' rule: batch_round.induct)
  case (1 required writing alignment completed results)
  then show ?case by simp
next
  case (2 required writing alignment i result rest completed results)
  let ?n = "completed i + nat result" and ?c = "completed(i := completed i + nat result)"
  have mono: "completed j \<le> ?c j" for j by simp
  consider (neg) "result < 0" | (full) "\<not> result < 0" "?n \<ge> required i"
    | (short) "\<not> result < 0" "\<not> ?n \<ge> required i" "result = 0 \<or> ?n mod alignment i \<noteq> 0"
    | (again) "\<not> result < 0" "\<not> ?n \<ge> required i" "\<not> (result = 0 \<or> ?n mod alignment i \<noteq> 0)"
    by blast
  then show ?case
  proof cases
    case neg
    obtain a b c e where r: "batch_round required writing alignment rest completed (results(i := result)) = (a, b, c, e)" by (metis prod_cases4)
    then show ?thesis using "2.IH"(1) [OF neg r] "2.prems" neg by auto
  next
    case full
    obtain a b c e where r: "batch_round required writing alignment rest ?c (results(i := int ?n)) = (a, b, c, e)" by (metis prod_cases4)
    have "set a \<subseteq> fst ` set rest \<and> (\<forall>j\<in>set a. ?c j < c j \<and> ?c j < required j) \<and> (\<forall>j. ?c j \<le> c j)"
      by (rule "2.IH"(2) [OF full(1) refl refl full(2) r])
    note p = progress_step [OF this mono]
    have "retry = a" "completed' = c" using "2.prems" full r by (simp_all add: Let_def)
    then show ?thesis using p by auto
  next
    case short
    obtain a b c e where r: "batch_round required writing alignment rest ?c (results(i := if writing i then - 5 else int ?n)) = (a, b, c, e)" by (metis prod_cases4)
    have "set a \<subseteq> fst ` set rest \<and> (\<forall>j\<in>set a. ?c j < c j \<and> ?c j < required j) \<and> (\<forall>j. ?c j \<le> c j)"
      by (rule "2.IH"(3) [OF short(1) refl refl short(2,3) r])
    note p = progress_step [OF this mono]
    have "retry = a" "completed' = c" using "2.prems" short r by (simp_all add: Let_def)
    then show ?thesis using p by auto
  next
    case again
    obtain a b c e where r: "batch_round required writing alignment rest ?c (results(i := int ?n)) = (a, b, c, e)" by (metis prod_cases4)
    have "set a \<subseteq> fst ` set rest \<and> (\<forall>j\<in>set a. ?c j < c j \<and> ?c j < required j) \<and> (\<forall>j. ?c j \<le> c j)"
      by (rule "2.IH"(4) [OF again(1) refl refl again(2,3) r])
    note q = this and p = progress_step [OF this mono]
    have "retry = i # a" "completed' = c" using "2.prems" again r by (simp_all add: Let_def)
    moreover have "0 < nat result" using again(1,3) by linarith
    then have "completed i < c i" "completed i < required i" using q [THEN conjunct2, THEN conjunct2, THEN spec, of i] again(2) by simp_all
    ultimately show ?thesis using p by auto
  qed
qed

text \<open>
  \<^verbatim>\<open>Worker::execute\<close>: batches are issued until nothing remains or one failed; every retried attempt has made progress, so this ends. \<open>batch\<close>
  answers the attempts of a round, a job with the bytes it has completed.
\<close>

function execute_rounds ::
  "(nat \<Rightarrow> (nat \<times> nat) list \<Rightarrow> int list result) \<Rightarrow> (nat \<Rightarrow> nat) \<Rightarrow> (nat \<Rightarrow> bool) \<Rightarrow> (nat \<Rightarrow> nat) \<Rightarrow> nat \<Rightarrow> nat list \<Rightarrow> (nat \<Rightarrow> nat) \<Rightarrow> (nat \<Rightarrow> int)
     \<Rightarrow> ((nat \<Rightarrow> nat) \<times> (nat \<Rightarrow> int)) result" where
  "execute_rounds batch required writing alignment k remaining completed results =
     (if remaining = [] then Inr (completed, results)
      else case batch k (map (\<lambda>i. (i, completed i)) remaining) of
        Inl e \<Rightarrow> Inl e
      | Inr returned \<Rightarrow>
          (case batch_round required writing alignment (zip remaining returned) completed results of
             (retry, failed, completed', results') \<Rightarrow>
               if failed then Inr (completed', results')
               else execute_rounds batch required writing alignment (k + 1) retry completed' results'))"
  by pat_completeness auto

lemma rounds_decrease:
  assumes "batch_round required writing alignment (zip remaining returned) completed results = (retry, failed, completed', results')" "remaining \<noteq> []"
  shows "(\<Sum>i\<in>set retry. Suc (required i - completed' i)) < (\<Sum>i\<in>set remaining. Suc (required i - completed i))"
proof -
  have b: "set retry \<subseteq> fst ` set (zip remaining returned)" "\<forall>i\<in>set retry. completed i < completed' i \<and> completed i < required i"
    using batch_round_retry [OF assms(1)] by auto
  have "fst ` set (zip remaining returned) \<subseteq> set remaining" by (auto dest: set_zip_leftD)
  then have sub: "set retry \<subseteq> set remaining" using b(1) by blast
  show ?thesis
  proof (cases "retry = []")
    case True
    then show ?thesis using assms(2) by (simp add: sum_pos card_gt_0_iff)
  next
    case False
    have "(\<Sum>i\<in>set retry. Suc (required i - completed' i)) < (\<Sum>i\<in>set retry. Suc (required i - completed i))"
      using b(2) False by (intro sum_strict_mono) auto
    also have "\<dots> \<le> (\<Sum>i\<in>set remaining. Suc (required i - completed i))" using sub by (intro sum_mono2) auto
    finally show ?thesis .
  qed
qed

termination execute_rounds
  by (relation "measure (\<lambda>(batch, required, writing, alignment, k, remaining, completed, results). \<Sum>i\<in>set remaining. Suc (required i - completed i))")
    (auto dest: rounds_decrease [OF sym])

declare execute_rounds.simps [simp del]

definition execute :: "(nat \<Rightarrow> (nat \<times> nat) list \<Rightarrow> int list result) \<Rightarrow> storage_state \<Rightarrow> int list result" where
  "execute batch s =
     (let x = (\<lambda>i. ss_requests s ! (ss_jobs s ! i))
      in and_then (execute_rounds batch (\<lambda>i. required_bytes (x i)) (\<lambda>i. ex_writing (sr_extent (x i)))
                     (\<lambda>i. rf_alignment (ss_files s ! ex_file (sr_extent (x i)))) 0 [0..<length (ss_jobs s)] (\<lambda>_. 0) (\<lambda>_. 0))
           (\<lambda>(completed, results). Inr (map results [0..<length (ss_jobs s)])))"

definition grow_files :: "nat \<times> nat \<Rightarrow> usize \<Rightarrow> registered_file list \<Rightarrow> registered_file list" where
  "grow_files identity stop files = map (\<lambda>f. if rf_identity f = identity then f\<lparr>rf_bytes := max (rf_bytes f) stop\<rparr> else f) files"

definition job_outcome :: "(nat \<Rightarrow> string) \<Rightarrow> storage_request \<Rightarrow> int \<Rightarrow> error + usize" where
  "job_outcome os_error x result =
     (if result < 0 then Inl (Io (os_error (nat (- result))))
      else if nat result < required_bytes x then Inl (Io ''incomplete storage extent'')
      else Inr (nat result))"

definition publish_job :: "(nat \<Rightarrow> string) \<Rightarrow> nat \<times> int \<Rightarrow> storage_state \<Rightarrow> storage_state" where
  "publish_job os_error j s =
     (let r = fst j; x = ss_requests s ! r; e = sr_extent x
      in case job_outcome os_error x (snd j) of
           Inr n \<Rightarrow>
             set_outcome (Inr n) r
               (upd_stats (\<lambda>st. st\<lparr>st_completed_bytes := st_completed_bytes st + n\<rparr>)
                 (if ex_writing e
                  then s\<lparr>ss_files := grow_files (rf_identity (ss_files s ! ex_file e)) (ex_offset e + ex_bytes e) (ss_files s)\<rparr>
                  else s))
         | Inl err \<Rightarrow>
             set_outcome (Inl err) r
               (upd_stats (\<lambda>st. st\<lparr>st_errors := st_errors st + 1\<rparr>)
                 (s\<lparr>ss_failed := (case ss_failed s of None \<Rightarrow> Some err | Some f \<Rightarrow> Some f), ss_stop := True\<rparr>)))"

definition worker_finish :: "(nat \<Rightarrow> string) \<Rightarrow> nat \<Rightarrow> int list result \<Rightarrow> storage_state \<Rightarrow> storage_state" where
  "worker_finish os_error requests outcome s =
     (let s0 = upd_stats (\<lambda>st. st\<lparr>st_physical_requests := requests, st_peak_outstanding := max (st_peak_outstanding st) (length (ss_jobs s))\<rparr>) s
      in case outcome of
           Inr results \<Rightarrow>
             (let s1 = fold (publish_job os_error) (zip (ss_jobs s) results) s0
              in case ss_failed s1 of
                   Some err \<Rightarrow> (fail_pending err s1)\<lparr>ss_jobs := [], ss_running := False\<rparr>
                 | None \<Rightarrow> s1\<lparr>ss_jobs := []\<rparr>)
         | Inl err \<Rightarrow>
             (let s1 = fold (set_outcome (Inl err)) (ss_jobs s @ ss_pending s) (s0\<lparr>ss_failed := Some err, ss_stop := True\<rparr>)
              in upd_stats (\<lambda>st. st\<lparr>st_errors := st_errors st + (length (ss_jobs s) + length (ss_pending s))\<rparr>)
                   (s1\<lparr>ss_pending := [], ss_jobs := [], ss_running := False\<rparr>)))"

definition storage_stop :: "storage_state \<Rightarrow> storage_state" where
  "storage_stop s = s\<lparr>ss_stop := True\<rparr>"


section \<open>Physical extents\<close>

lemma mask_low_mod: "is_power_of_two a \<Longrightarrow> mask_low a n = n mod a"
  by (auto simp: is_power_of_two_iff mask_low_def take_bit_eq_mod [symmetric] take_bit_eq_mask mask_eq_exp_minus_1)

lemma physical_ok:
  assumes a: "is_power_of_two a" and p: "physical e size' a capacity = Inr p"
  shows "ph_offset p + ph_skip p = ex_offset e" "a dvd ph_offset p" "a dvd ph_bytes p" "ph_skip p < a"
    "required_bytes \<lparr>sr_extent = e, sr_physical = p, sr_slot = k, sr_outcome = out\<rparr> \<le> ph_bytes p" "ph_bytes p \<le> capacity"
    "0 < ex_bytes e" "ex_offset e + ex_bytes e \<le> usize_MAX" "ex_writing e \<or> ex_offset e + ex_bytes e \<le> size'"
    "ex_writing e \<Longrightarrow> ph_offset p = ex_offset e \<and> ph_bytes p = ex_bytes e"
proof -
  let ?stop = "ex_offset e + ex_bytes e"
  have c: "?stop \<le> usize_MAX" "0 < ex_bytes e" "ex_writing e \<or> ?stop \<le> size'" "?stop + (a - 1) \<le> usize_MAX"
    "ex_writing e \<Longrightarrow> mask_low a (ex_offset e) = 0 \<and> mask_low a (ex_bytes e) = 0"
    and P: "ph_offset p = mask_down a (ex_offset e)" "ph_bytes p = mask_down a (?stop + (a - 1)) - mask_down a (ex_offset e)"
      "ph_skip p = ex_offset e - mask_down a (ex_offset e)" "ph_bytes p \<le> capacity"
    using p by (auto simp: physical_def Let_def split: option.splits if_splits)
  have off: "ex_offset e \<le> usize_MAX" using c(1) by simp
  note lo = mask_down [OF a off] and hi = mask_down [OF a c(4)]
  have pos: "0 < a" using a by (rule is_power_of_two_pos)
  show "ph_offset p + ph_skip p = ex_offset e" "a dvd ph_offset p" "ph_skip p < a" using lo P by (simp_all add: less_diff_conv2)
  show "a dvd ph_bytes p" using lo(2) hi(2) P(2) by simp
  have up: "?stop \<le> mask_down a (?stop + (a - 1))" using hi(4) pos by linarith
  show "required_bytes \<lparr>sr_extent = e, sr_physical = p, sr_slot = k, sr_outcome = out\<rparr> \<le> ph_bytes p"
    using up lo(3) P(2,3) by (simp add: required_bytes_def)
  show "ph_bytes p \<le> capacity" "0 < ex_bytes e" "?stop \<le> usize_MAX" "ex_writing e \<or> ?stop \<le> size'" using P(4) c by simp_all
  assume w: "ex_writing e"
  then have m: "ex_offset e mod a = 0" "ex_bytes e mod a = 0" using c(5) a by (simp_all add: mask_low_mod)
  then have "?stop mod a = 0" by (metis mod_add_eq add.right_neutral mod_0)
  then have "(?stop + (a - 1)) mod a = a - 1" using pos by (metis mod_add_left_eq add_0 diff_less mod_less zero_less_one)
  then show "ph_offset p = ex_offset e \<and> ph_bytes p = ex_bytes e" using lo(1) hi(1) m(1) P(1,2) by simp
qed

text \<open>Reads up to \<^verbatim>\<open>read_chunk_bytes\<close> inside the file always fit a slot.\<close>

lemma fold_max_start: "m \<le> fold max xs (m :: nat)"
  by (induction xs arbitrary: m) (auto intro: le_trans [OF max.cobounded2])

lemma fold_max_mem: "x \<in> set xs \<Longrightarrow> x \<le> fold max xs (m :: nat)"
  by (induction xs arbitrary: m) (auto intro: le_trans [OF max.cobounded1 fold_max_start])

lemma read_chunk_fits:
  assumes f: "i < length (ss_files s)" "rf_alignment (ss_files s ! i) = a" and a: "is_power_of_two a" "a dvd sc_slot_bytes (ss_config s)"
    and e: "\<not> ex_writing e" "0 < ex_bytes e" "ex_bytes e \<le> read_chunk_bytes s" "ex_offset e + ex_bytes e \<le> size'" "size' + a \<le> usize_MAX"
  shows "\<exists>p. physical e size' a (sc_slot_bytes (ss_config s)) = Inr p"
proof -
  let ?stop = "ex_offset e + ex_bytes e" and ?slot = "sc_slot_bytes (ss_config s)"
  have pos: "0 < a" using a(1) by (rule is_power_of_two_pos)
  have "a \<le> fold max (map rf_alignment (ss_files s)) 1" using f by (intro fold_max_mem) auto
  then have chunk: "ex_bytes e + (a - 1) \<le> ?slot" using e(2,3) by (auto simp: read_chunk_bytes_def saturating_sub_def)
  have bound: "ex_offset e \<le> usize_MAX" "?stop + (a - 1) \<le> usize_MAX" using e(4,5) by simp_all
  note lo = mask_down [OF a(1) bound(1)] and hi = mask_down [OF a(1) bound(2)]
  have "mask_down a (?stop + (a - 1)) - mask_down a (ex_offset e) \<le> ?slot"
  proof -
    obtain u where u: "mask_down a (?stop + (a - 1)) = a * u" using hi(2) by (rule dvdE)
    obtain v where v: "mask_down a (ex_offset e) = a * v" using lo(2) by (rule dvdE)
    obtain k where k: "?slot = a * k" using a(2) by (rule dvdE)
    have A: "a * u \<le> ex_offset e + ex_bytes e + (a - 1)" using hi(3) unfolding u .
    have B: "ex_offset e < a * v + a" using lo(4) unfolding v .
    have "a * (v + k + 1) = a * v + a * k + a" by (simp add: algebra_simps)
    then have "a * u < a * (v + k + 1)" using A B chunk unfolding k by linarith
    then have "u < v + k + 1" by (simp only: mult_less_cancel1)
    then have "u \<le> v + k" by simp
    then have "a * u \<le> a * (v + k)" by (rule mult_le_mono2)
    then show ?thesis unfolding u v k by (simp add: add_mult_distrib2)
  qed
  moreover have "ex_bytes e \<le> ?slot" using chunk by simp
  ultimately show ?thesis using e bound by (simp add: physical_def Let_def checked_add_def)
qed


section \<open>Invariant\<close>

definition files_ok :: "storage_config \<Rightarrow> registered_file list \<Rightarrow> bool" where
  "files_ok config files \<longleftrightarrow> list_all (\<lambda>f. is_power_of_two (rf_alignment f) \<and> rf_alignment f dvd sc_slot_bytes config) files"

definition same_file :: "storage_state \<Rightarrow> nat \<Rightarrow> nat \<Rightarrow> bool" where
  "same_file s r q \<longleftrightarrow> rf_identity (ss_files s ! ex_file (sr_extent (ss_requests s ! r))) = rf_identity (ss_files s ! ex_file (sr_extent (ss_requests s ! q)))"

definition request_ok :: "storage_state \<Rightarrow> storage_request \<Rightarrow> bool" where
  "request_ok s x \<longleftrightarrow>
     ex_file (sr_extent x) < length (ss_files s) \<and> sr_slot x < length (ss_slots s) \<and> 0 < ex_bytes (sr_extent x)
     \<and> ph_offset (sr_physical x) + ph_skip (sr_physical x) = ex_offset (sr_extent x)
     \<and> required_bytes x \<le> ph_bytes (sr_physical x) \<and> ph_bytes (sr_physical x) \<le> sc_slot_bytes (ss_config s)
     \<and> (\<forall>n. sr_outcome x = Some (Inr n) \<longrightarrow> required_bytes x \<le> n)"

definition no_overlap :: "storage_state \<Rightarrow> nat \<Rightarrow> nat \<Rightarrow> bool" where
  "no_overlap s r q \<longleftrightarrow>
     (let e = sr_extent (ss_requests s ! r); f = sr_extent (ss_requests s ! q)
      in same_file s r q \<longrightarrow> ex_writing e \<or> ex_writing f \<longrightarrow> \<not> extents_overlap e f)"

definition storage_ok :: "storage_state \<Rightarrow> bool" where
  "storage_ok s \<longleftrightarrow>
     files_ok (ss_config s) (ss_files s) \<and> length (ss_slots s) = sc_slots (ss_config s)
     \<and> (\<forall>x\<in>set (ss_requests s). request_ok s x)
     \<and> (\<forall>r. 0 < strong s r \<longrightarrow> r < length (ss_requests s) \<and> ss_slots s ! sr_slot (ss_requests s ! r) = Some r)
     \<and> distinct (ss_pending s @ ss_jobs s)
     \<and> (\<forall>r<length (ss_requests s). sr_outcome (ss_requests s ! r) = None \<longleftrightarrow> r \<in> set (ss_pending s @ ss_jobs s))
     \<and> (\<forall>r q. 0 < strong s r \<longrightarrow> 0 < strong s q \<longrightarrow> r \<noteq> q \<longrightarrow> no_overlap s r q)
     \<and> (ss_failed s \<noteq> None \<longrightarrow> ss_stop s \<and> ss_pending s = [])"

lemma storage_okD:
  assumes "storage_ok s"
  shows "files_ok (ss_config s) (ss_files s)" "length (ss_slots s) = sc_slots (ss_config s)" "\<And>x. x \<in> set (ss_requests s) \<Longrightarrow> request_ok s x"
    "\<And>r. 0 < strong s r \<Longrightarrow> r < length (ss_requests s)" "\<And>r. 0 < strong s r \<Longrightarrow> ss_slots s ! sr_slot (ss_requests s ! r) = Some r"
    "distinct (ss_pending s @ ss_jobs s)"
    "\<And>r. r < length (ss_requests s) \<Longrightarrow> sr_outcome (ss_requests s ! r) = None \<longleftrightarrow> r \<in> set (ss_pending s @ ss_jobs s)"
    "\<And>r q. 0 < strong s r \<Longrightarrow> 0 < strong s q \<Longrightarrow> r \<noteq> q \<Longrightarrow> no_overlap s r q"
    "ss_failed s \<noteq> None \<Longrightarrow> ss_stop s \<and> ss_pending s = []"
  using assms unfolding storage_ok_def by blast+

lemma strong_queued: "r \<in> set (ss_pending s @ ss_jobs s) \<Longrightarrow> 0 < strong s r"
  using count_list_0_iff [of "ss_pending s" r] count_list_0_iff [of "ss_jobs s" r] by (auto simp: strong_def)

text \<open>Two live requests never have the same slot.\<close>

lemma slots_distinct:
  assumes "storage_ok s" "0 < strong s r" "0 < strong s q" "sr_slot (ss_requests s ! r) = sr_slot (ss_requests s ! q)"
  shows "r = q"
  using trans [OF sym [OF storage_okD(5) [OF assms(1,2)]] storage_okD(5) [OF assms(1,3), folded assms(4)]] by (rule option.inject [THEN iffD1])

text \<open>Changes that only weaken references or statistics.\<close>

definition weaker :: "storage_state \<Rightarrow> storage_state \<Rightarrow> bool" where
  "weaker s t \<longleftrightarrow> ss_config t = ss_config s \<and> ss_files t = ss_files s \<and> ss_requests t = ss_requests s \<and> ss_slots t = ss_slots s
     \<and> ss_pending t = ss_pending s \<and> ss_jobs t = ss_jobs s \<and> ss_failed t = ss_failed s \<and> (ss_stop s \<longrightarrow> ss_stop t)
     \<and> (\<forall>r. 0 < strong t r \<longrightarrow> 0 < strong s r)"

lemma weaker_ok:
  assumes ok: "storage_ok s" and w: "weaker s t"
  shows "storage_ok t"
proof -
  have f: "ss_config t = ss_config s" "ss_files t = ss_files s" "ss_requests t = ss_requests s" "ss_slots t = ss_slots s"
    "ss_pending t = ss_pending s" "ss_jobs t = ss_jobs s" "ss_failed t = ss_failed s" and stop: "ss_stop s \<longrightarrow> ss_stop t"
    and st: "\<And>r. 0 < strong t r \<Longrightarrow> 0 < strong s r" using w by (simp_all add: weaker_def)
  have r: "request_ok t x = request_ok s x" "no_overlap t a b = no_overlap s a b" for x a b
    by (simp_all add: request_ok_def no_overlap_def same_file_def f)
  show ?thesis using ok st stop unfolding storage_ok_def f r by blast
qed

lemma add_handle_weaker: "0 < strong s r \<Longrightarrow> weaker s (add_handle r s)"
  by (auto simp: weaker_def add_handle_def strong_def)

lemma drop_handle_weaker: "weaker s (drop_handle r s)"
  by (auto simp: weaker_def drop_handle_def strong_def split: if_splits)

lemma upd_stats_weaker: "weaker s (upd_stats f s)"
  by (simp add: weaker_def upd_stats_def strong_def)

lemma weaker_trans: "weaker s t \<Longrightarrow> weaker t u \<Longrightarrow> weaker s u"
  by (auto simp: weaker_def)


section \<open>Admission\<close>

lemma scan_slots_NoMatch:
  "scan_slots s e identity slots = NoMatch \<Longrightarrow> Some q \<in> set slots \<Longrightarrow> 0 < strong s q \<Longrightarrow>
     rf_identity (ss_files s ! ex_file (sr_extent (ss_requests s ! q))) = identity \<Longrightarrow>
     ex_writing e \<or> ex_writing (sr_extent (ss_requests s ! q)) \<Longrightarrow> \<not> extents_overlap e (sr_extent (ss_requests s ! q))"
  by (induction slots) (auto simp: Let_def split: option.splits if_splits)

lemma scan_slots_ShareWith:
  "scan_slots s e identity slots = ShareWith q \<Longrightarrow>
     0 < strong s q \<and> \<not> ex_writing (sr_extent (ss_requests s ! q)) \<and> \<not> ex_writing e
     \<and> ex_offset (sr_extent (ss_requests s ! q)) = ex_offset e \<and> ex_bytes (sr_extent (ss_requests s ! q)) = ex_bytes e
     \<and> rf_identity (ss_files s ! ex_file (sr_extent (ss_requests s ! q))) = identity \<and> \<not> request_failed (ss_requests s ! q)"
  by (induction slots) (auto simp: Let_def split: option.splits if_splits)

lemma overlap_sym: "extents_overlap a b \<longleftrightarrow> extents_overlap b a"
  by (auto simp: extents_overlap_def)

lemma admit_ok:
  assumes ok: "storage_ok s" and f: "ex_file e < length (ss_files s)"
    and p: "physical e (rf_bytes (ss_files s ! ex_file e)) (rf_alignment (ss_files s ! ex_file e)) (sc_slot_bytes (ss_config s)) = Inr p"
    and open': "ss_failed s = None"
    and scan: "scan_slots s e (rf_identity (ss_files s ! ex_file e)) (ss_slots s) = NoMatch"
    and slot: "position (\<lambda>r. \<not> live_slot s r) (ss_slots s) = Some slot"
  shows "storage_ok (admit_request e p slot s)"
proof -
  let ?n = "length (ss_requests s)" and ?x = "\<lparr>sr_extent = e, sr_physical = p, sr_slot = slot, sr_outcome = None\<rparr>"
  define t where "t = admit_request e p slot s"
  note D = storage_okD [OF ok]
  have k: "slot < length (ss_slots s)" "\<not> live_slot s (ss_slots s ! slot)" using slot by (simp_all add: position_Some)
  have t: "ss_config t = ss_config s" "ss_files t = ss_files s" "ss_requests t = ss_requests s @ [?x]" "ss_slots t = (ss_slots s)[slot := Some ?n]"
    "ss_pending t = ss_pending s @ [?n]" "ss_jobs t = ss_jobs s" "ss_failed t = ss_failed s" "ss_handles t = (ss_handles s)(?n := ss_handles s ?n + 1)"
    by (simp_all add: t_def admit_request_def add_handle_def upd_stats_def Let_def)
  have strong: "strong t q = strong s q" if "q \<noteq> ?n" for q using that by (simp add: strong_def t)
  have old: "q < ?n" "q \<noteq> ?n" "ss_requests t ! q = ss_requests s ! q" if "0 < strong s q" for q
    using D(4) [OF that] by (simp_all add: t nth_append)
  have a: "is_power_of_two (rf_alignment (ss_files s ! ex_file e))" using D(1) f by (simp add: files_ok_def list_all_length)
  have "request_ok t ?x" using physical_ok [OF a p] f k(1) by (simp add: request_ok_def t)
  moreover have "request_ok t x" if "x \<in> set (ss_requests s)" for x using D(3) [OF that] by (simp add: request_ok_def t)
  ultimately have req: "\<forall>x\<in>set (ss_requests t). request_ok t x" by (simp add: t(3))
  have live: "r < length (ss_requests t) \<and> ss_slots t ! sr_slot (ss_requests t ! r) = Some r" if "0 < strong t r" for r
  proof (cases "r = ?n")
    case True
    then show ?thesis using k(1) by (simp add: t nth_append)
  next
    case False
    then have r: "0 < strong s r" using that strong by simp
    have "live_slot s (ss_slots s ! sr_slot (ss_requests s ! r))" using D(5) [OF r] r by (simp add: live_slot_def)
    then have "sr_slot (ss_requests s ! r) \<noteq> slot" using k(2) by auto
    then show ?thesis using D(5) [OF r] old [OF r] by (simp add: t)
  qed
  have queued: "q < ?n" if "q \<in> set (ss_pending s @ ss_jobs s)" for q using old(1) [OF strong_queued [OF that]] .
  then have "distinct (ss_pending t @ ss_jobs t)" using D(6) by (auto simp: t)
  moreover have "sr_outcome (ss_requests t ! r) = None \<longleftrightarrow> r \<in> set (ss_pending t @ ss_jobs t)" if "r < length (ss_requests t)" for r
  proof (cases "r = ?n")
    case True
    then show ?thesis by (simp add: t)
  next
    case False
    then show ?thesis using D(7) [of r] that by (simp add: t nth_append)
  qed
  moreover have new: "no_overlap t ?n q" if q: "0 < strong s q" for q
  proof -
    have slots: "sr_slot (ss_requests s ! q) < length (ss_slots s)" using D(3) [OF nth_mem [OF old(1) [OF q]]] by (simp add: request_ok_def)
    have "Some q \<in> set (ss_slots s)" using D(5) [OF q] nth_mem [OF slots] by simp
    then show ?thesis using scan_slots_NoMatch [OF scan _ q] old [OF q] by (auto simp: no_overlap_def same_file_def t Let_def nth_append)
  qed
  moreover have "no_overlap t r q" if both: "0 < strong t r" "0 < strong t q" "r \<noteq> q" for r q
  proof -
    consider "r = ?n" "q \<noteq> ?n" | "q = ?n" "r \<noteq> ?n" | "r \<noteq> ?n" "q \<noteq> ?n" using both(3) by blast
    then show ?thesis
    proof cases
      case 1
      then show ?thesis using new strong both(2) by simp
    next
      case 2
      then have "no_overlap t ?n r" using new strong both(1) by simp
      then show ?thesis using 2(1) by (auto simp: no_overlap_def same_file_def Let_def overlap_sym)
    next
      case 3
      then have l: "0 < strong s r" "0 < strong s q" using both strong by simp_all
      then show ?thesis using D(8) [OF l both(3)] old [OF l(1)] old [OF l(2)] by (simp add: no_overlap_def same_file_def t(2))
    qed
  qed
  ultimately have "storage_ok t" unfolding storage_ok_def using D(1,2) open' req live by (auto simp: t(1,2,4,7))
  then show ?thesis by (simp add: t_def)
qed

text \<open>The cases of a submission: nothing changes, a read is shared, or a request is admitted.\<close>

lemma storage_submit_cases:
  assumes "storage_submit os_error e written s = (r, t)"
  obtains (refused) err where "r = Inl err" "t = s"
  | (shared) q where "r = Inr q" "t = share_request q s" "scan_slots s e (rf_identity (ss_files s ! ex_file e)) (ss_slots s) = ShareWith q"
  | (admitted) p slot where "r = Inr (length (ss_requests s))" "t = admit_request e p slot s" "ex_file e < length (ss_files s)"
      "physical e (rf_bytes (ss_files s ! ex_file e)) (rf_alignment (ss_files s ! ex_file e)) (sc_slot_bytes (ss_config s)) = Inr p" "ss_failed s = None"
      "scan_slots s e (rf_identity (ss_files s ! ex_file e)) (ss_slots s) = NoMatch" "position (\<lambda>r. \<not> live_slot s r) (ss_slots s) = Some slot"
proof -
  define f where "f = ss_files s ! ex_file e"
  define ans where "ans = scan_slots s e (rf_identity f) (ss_slots s)"
  define no where "no \<longleftrightarrow> ex_file e \<ge> length (ss_files s) \<or> (ex_writing e \<and> \<not> rf_writable f) \<or> (\<not> ex_writing e \<and> \<not> rf_readable f)
      \<or> \<not> is_ok (physical e (rf_bytes f) (rf_alignment f) (sc_slot_bytes (ss_config s))) \<or> ss_failed s \<noteq> None \<or> ss_stop s \<or> ans = Overlapping"
  show thesis
  proof (cases no)
    case True
    then have "\<exists>err. storage_submit os_error e written s = (Inl err, s)"
      unfolding storage_submit_def f_def [symmetric] Let_def ans_def [symmetric] no_def by (auto simp: is_ok_iff split: sum.splits option.splits)
    then show thesis using refused assms by auto
  next
    case False
    then obtain p where p: "physical e (rf_bytes f) (rf_alignment f) (sc_slot_bytes (ss_config s)) = Inr p" by (auto simp: no_def is_ok_iff)
    have go: "ex_file e < length (ss_files s)" "\<not> ((ex_writing e \<and> \<not> rf_writable f) \<or> (\<not> ex_writing e \<and> \<not> rf_readable f))"
      "physical e (rf_bytes f) (rf_alignment f) (sc_slot_bytes (ss_config s)) = Inr p" "ss_failed s = None" "\<not> ss_stop s" "ans \<noteq> Overlapping"
      using False p by (auto simp: no_def)
    have sub: "storage_submit os_error e written s = (case ans of
        ShareWith r \<Rightarrow> (Inr r, share_request r s)
      | Overlapping \<Rightarrow> (Inl (Busy ''overlapping storage write is still retained''), s)
      | NoMatch \<Rightarrow>
          (case position (\<lambda>r. \<not> live_slot s r) (ss_slots s) of
             None \<Rightarrow> (Inl (Busy ''all storage payload slots are retained''), s)
           | Some slot \<Rightarrow>
               (case (if ex_writing e then written else Inr ()) of
                  Inl err \<Rightarrow> (Inl err, s)
                | Inr _ \<Rightarrow> (Inr (length (ss_requests s)), admit_request e p slot s))))"
      unfolding storage_submit_def f_def [symmetric] Let_def ans_def [symmetric] using go by auto
    show thesis
    proof (cases ans)
      case (ShareWith q)
      then have "r = Inr q" "t = share_request q s" using assms sub by simp_all
      then show thesis using shared [of q] ShareWith by (simp add: ans_def f_def)
    next
      case Overlapping
      then show thesis using go by simp
    next
      case NoMatch
      show thesis
      proof (cases "position (\<lambda>r. \<not> live_slot s r) (ss_slots s)")
        case None
        then have "r = Inl (Busy ''all storage payload slots are retained'')" "t = s" using assms sub NoMatch by simp_all
        then show thesis by (rule refused)
      next
        case (Some slot)
        show thesis
        proof (cases "if ex_writing e then written else Inr ()")
          case (Inl err)
          then have "r = Inl err" "t = s" using assms sub NoMatch Some by simp_all
          then show thesis by (rule refused)
        next
          case (Inr u)
          then have "r = Inr (length (ss_requests s))" "t = admit_request e p slot s" using assms sub NoMatch Some by simp_all
          then show thesis using admitted [of p slot] go NoMatch Some by (simp add: ans_def f_def)
        qed
      qed
    qed
  qed
qed

lemma storage_submit_ok:
  assumes ok: "storage_ok s" and r: "storage_submit os_error e written s = (r, t)"
  shows "storage_ok t"
  using r
proof (cases rule: storage_submit_cases)
  case refused
  then show ?thesis using ok by simp
next
  case (shared q)
  have "0 < strong s q" using scan_slots_ShareWith [OF shared(3)] by simp
  then have "0 < strong (upd_stats (\<lambda>st. st\<lparr>st_logical_requests := st_logical_requests st + 1, st_shared_reads := st_shared_reads st + 1\<rparr>) s) q"
    by (simp add: strong_def upd_stats_def)
  then show ?thesis unfolding shared(2) share_request_def by (rule weaker_ok [OF ok weaker_trans [OF upd_stats_weaker add_handle_weaker]])
next
  case (admitted p slot)
  show ?thesis unfolding admitted(2) by (rule admit_ok [OF ok admitted(3-7)])
qed


section \<open>Publishing outcomes\<close>

text \<open>Requests in \<open>S\<close> leave the queue with an outcome; nothing else about requests, files and slots changes.\<close>

definition resolved :: "storage_request \<Rightarrow> storage_request \<Rightarrow> bool" where
  "resolved x y \<longleftrightarrow> (\<exists>out. y = x\<lparr>sr_outcome := Some out\<rparr> \<and> (\<forall>n. out = Inr n \<longrightarrow> required_bytes x \<le> n))"

definition same_requests :: "nat set \<Rightarrow> storage_state \<Rightarrow> storage_state \<Rightarrow> bool" where
  "same_requests S s t \<longleftrightarrow>
     ss_config t = ss_config s \<and> ss_slots t = ss_slots s \<and> ss_handles t = ss_handles s \<and> length (ss_requests t) = length (ss_requests s)
     \<and> map rf_alignment (ss_files t) = map rf_alignment (ss_files s) \<and> map rf_identity (ss_files t) = map rf_identity (ss_files s)
     \<and> (\<forall>r<length (ss_requests s). if r \<in> S then resolved (ss_requests s ! r) (ss_requests t ! r) else ss_requests t ! r = ss_requests s ! r)"

lemma same_requests_refl: "same_requests {} s s"
  by (simp add: same_requests_def)

lemma resolved_extent: "resolved x y \<Longrightarrow> sr_extent y = sr_extent x \<and> sr_physical y = sr_physical x \<and> sr_slot y = sr_slot x \<and> required_bytes y = required_bytes x \<and> sr_outcome y \<noteq> None"
  by (auto simp: resolved_def required_bytes_def)

lemma resolved_trans: "resolved x y \<Longrightarrow> resolved y z \<Longrightarrow> resolved x z"
  by (auto simp: resolved_def required_bytes_def)

lemma same_requests_trans:
  assumes "same_requests A s t" "same_requests B t u"
  shows "same_requests (A \<union> B) s u"
proof -
  have "if r \<in> A \<union> B then resolved (ss_requests s ! r) (ss_requests u ! r) else ss_requests u ! r = ss_requests s ! r" if "r < length (ss_requests s)" for r
  proof -
    have 1: "if r \<in> A then resolved (ss_requests s ! r) (ss_requests t ! r) else ss_requests t ! r = ss_requests s ! r"
      using assms(1) that by (simp add: same_requests_def)
    have 2: "if r \<in> B then resolved (ss_requests t ! r) (ss_requests u ! r) else ss_requests u ! r = ss_requests t ! r"
      using assms that by (simp add: same_requests_def)
    show ?thesis using 1 2 resolved_trans [of "ss_requests s ! r" "ss_requests t ! r" "ss_requests u ! r"]
      by (cases "r \<in> A"; cases "r \<in> B"; simp)
  qed
  then show ?thesis using assms by (simp add: same_requests_def)
qed

lemma same_requests_fields:
  assumes "same_requests S s t" "r < length (ss_requests s)"
  shows "sr_extent (ss_requests t ! r) = sr_extent (ss_requests s ! r)" "sr_slot (ss_requests t ! r) = sr_slot (ss_requests s ! r)"
    "r \<in> S \<Longrightarrow> sr_outcome (ss_requests t ! r) \<noteq> None" "r \<notin> S \<Longrightarrow> ss_requests t ! r = ss_requests s ! r"
    "r \<in> S \<Longrightarrow> resolved (ss_requests s ! r) (ss_requests t ! r)"
proof -
  have 1: "if r \<in> S then resolved (ss_requests s ! r) (ss_requests t ! r) else ss_requests t ! r = ss_requests s ! r"
    using assms by (simp add: same_requests_def)
  then show "r \<notin> S \<Longrightarrow> ss_requests t ! r = ss_requests s ! r" "r \<in> S \<Longrightarrow> resolved (ss_requests s ! r) (ss_requests t ! r)" by simp_all
  show "sr_extent (ss_requests t ! r) = sr_extent (ss_requests s ! r)" "sr_slot (ss_requests t ! r) = sr_slot (ss_requests s ! r)"
    "r \<in> S \<Longrightarrow> sr_outcome (ss_requests t ! r) \<noteq> None"
    using 1 resolved_extent [of "ss_requests s ! r" "ss_requests t ! r"] by (cases "r \<in> S"; simp)+
qed

lemma request_ok_resolved:
  assumes "request_ok s x" "resolved x y \<or> y = x" "ss_config t = ss_config s" "ss_slots t = ss_slots s" "length (ss_files t) = length (ss_files s)"
  shows "request_ok t y"
  using assms by (auto simp: request_ok_def resolved_def required_bytes_def)

lemma resolve_ok:
  assumes ok: "storage_ok s" and same: "same_requests S s t"
    and queue: "set (ss_pending t @ ss_jobs t) = set (ss_pending s @ ss_jobs s) - S" "distinct (ss_pending t @ ss_jobs t)"
    and S: "S \<subseteq> set (ss_pending s @ ss_jobs s)"
    and failed: "ss_failed t \<noteq> None \<Longrightarrow> ss_stop t \<and> ss_pending t = []"
  shows "storage_ok t"
proof -
  note D = storage_okD [OF ok]
  have c: "ss_config t = ss_config s" "ss_slots t = ss_slots s" "ss_handles t = ss_handles s" "length (ss_requests t) = length (ss_requests s)"
    "map rf_alignment (ss_files t) = map rf_alignment (ss_files s)" "map rf_identity (ss_files t) = map rf_identity (ss_files s)"
    using same by (simp_all add: same_requests_def)
  have files: "length (ss_files t) = length (ss_files s)" using arg_cong [OF c(6), of length] by simp
  have ident: "rf_identity (ss_files t ! i) = rf_identity (ss_files s ! i)" if "i < length (ss_files s)" for i
    using arg_cong [OF c(6), of "\<lambda>xs. xs ! i"] that files by simp
  have align: "rf_alignment (ss_files t ! i) = rf_alignment (ss_files s ! i)" if "i < length (ss_files s)" for i
    using arg_cong [OF c(5), of "\<lambda>xs. xs ! i"] that files by simp
  note F = same_requests_fields [OF same]
  have live: "0 < strong s r" if "0 < strong t r" for r
  proof (cases "0 < ss_handles s r")
    case True
    then show ?thesis by (simp add: strong_def)
  next
    case False
    have "r \<in> set (ss_pending t @ ss_jobs t)"
    proof (rule ccontr)
      assume "r \<notin> set (ss_pending t @ ss_jobs t)"
      then have "count_list (ss_pending t) r = 0" "count_list (ss_jobs t) r = 0" by simp_all
      then show False using that False c(3) by (simp add: strong_def)
    qed
    then show ?thesis using queue(1) strong_queued by blast
  qed
  have req: "request_ok t y" if mem: "y \<in> set (ss_requests t)" for y
  proof -
    obtain r where "r < length (ss_requests t)" "ss_requests t ! r = y" using mem [unfolded in_set_conv_nth] by blast
    then have r: "r < length (ss_requests s)" "y = ss_requests t ! r" using c(4) by simp_all
    have "resolved (ss_requests s ! r) (ss_requests t ! r) \<or> ss_requests t ! r = ss_requests s ! r" using F(4,5) [OF r(1)] by blast
    then show ?thesis unfolding r(2) by (rule request_ok_resolved [OF D(3) [OF nth_mem [OF r(1)]] _ c(1,2) files])
  qed
  have files_ok: "files_ok (ss_config t) (ss_files t)" using D(1) align files by (simp add: files_ok_def list_all_length c(1))
  have live_ok: "r < length (ss_requests t) \<and> ss_slots t ! sr_slot (ss_requests t ! r) = Some r" if "0 < strong t r" for r
  proof -
    have r: "r < length (ss_requests s)" "ss_slots s ! sr_slot (ss_requests s ! r) = Some r" using D(4,5) [OF live [OF that]] .
    show ?thesis using r c(2,4) F(2) [OF r(1)] by simp
  qed
  have out: "sr_outcome (ss_requests t ! r) = None \<longleftrightarrow> r \<in> set (ss_pending t @ ss_jobs t)" if "r < length (ss_requests t)" for r
    using D(7) [of r] F(3,4) [of r] that c(4) queue(1) by (cases "r \<in> S") auto
  have over: "no_overlap t r q" if both: "0 < strong t r" "0 < strong t q" "r \<noteq> q" for r q
  proof -
    have l: "0 < strong s r" "0 < strong s q" using both live by simp_all
    note b = D(4) [OF l(1)] D(4) [OF l(2)]
    have e: "ex_file (sr_extent (ss_requests s ! k)) < length (ss_files s)" if "k < length (ss_requests s)" for k
      using D(3) [OF nth_mem [OF that]] by (simp add: request_ok_def)
    show ?thesis using D(8) [OF l both(3)] by (simp add: no_overlap_def same_file_def F(1) b ident e)
  qed
  show ?thesis unfolding storage_ok_def using files_ok D(2) c(1,2) req live_ok queue(2) out over failed by simp
qed

lemma set_outcome_same: "r < length (ss_requests s) \<Longrightarrow> (\<And>n. out = Inr n \<Longrightarrow> required_bytes (ss_requests s ! r) \<le> n) \<Longrightarrow> same_requests {r} s (set_outcome out r s)"
  by (auto simp: same_requests_def set_outcome_def resolved_def nth_list_update)

lemma set_outcome_fields [simp]:
  "ss_pending (set_outcome out r s) = ss_pending s" "ss_jobs (set_outcome out r s) = ss_jobs s" "ss_failed (set_outcome out r s) = ss_failed s"
  "ss_stop (set_outcome out r s) = ss_stop s" "length (ss_requests (set_outcome out r s)) = length (ss_requests s)"
  by (simp_all add: set_outcome_def)

lemma fold_errors_same:
  assumes "\<forall>r\<in>set rs. r < length (ss_requests s)"
  shows "same_requests (set rs) s (fold (set_outcome (Inl e)) rs s)
    \<and> ss_pending (fold (set_outcome (Inl e)) rs s) = ss_pending s \<and> ss_jobs (fold (set_outcome (Inl e)) rs s) = ss_jobs s
    \<and> ss_failed (fold (set_outcome (Inl e)) rs s) = ss_failed s \<and> ss_stop (fold (set_outcome (Inl e)) rs s) = ss_stop s"
  using assms
proof (induction rs arbitrary: s)
  case Nil
  then show ?case by (simp add: same_requests_refl)
next
  case (Cons r rs)
  have one: "same_requests {r} s (set_outcome (Inl e) r s)" using Cons.prems by (intro set_outcome_same) auto
  note ih = Cons.IH [of "set_outcome (Inl e) r s"]
  have "same_requests ({r} \<union> set rs) s (fold (set_outcome (Inl e)) rs (set_outcome (Inl e) r s))"
    by (rule same_requests_trans [OF one]) (use ih Cons.prems in simp)
  then show ?case using ih Cons.prems by simp
qed


lemma queued_bound: "storage_ok s \<Longrightarrow> r \<in> set (ss_pending s @ ss_jobs s) \<Longrightarrow> r < length (ss_requests s)"
  using storage_okD(4) strong_queued by blast

definition same_core :: "storage_state \<Rightarrow> storage_state \<Rightarrow> bool" where
  "same_core s t \<longleftrightarrow> ss_config t = ss_config s \<and> ss_slots t = ss_slots s \<and> ss_handles t = ss_handles s \<and> ss_requests t = ss_requests s \<and> ss_files t = ss_files s"

lemma same_requests_cong: "same_requests S s t \<Longrightarrow> same_core s s' \<Longrightarrow> same_core t t' \<Longrightarrow> same_requests S s' t'"
  unfolding same_core_def same_requests_def by (elim conjE) (simp only: simp_thms)

lemma fail_pending_ok:
  assumes ok: "storage_ok s"
  shows "storage_ok (fail_pending e (s\<lparr>ss_failed := f, ss_stop := True\<rparr>))"
proof -
  let ?s = "s\<lparr>ss_failed := f, ss_stop := True\<rparr>"
  have b: "\<forall>r\<in>set (ss_pending s). r < length (ss_requests ?s)" using queued_bound [OF ok] by simp
  note F = fold_errors_same [OF b, of e]
  have "same_requests (set (ss_pending s)) s (fail_pending e ?s)"
    by (rule same_requests_cong [OF conjunct1 [OF F]]) (simp_all add: same_core_def fail_pending_def upd_stats_def)
  then show ?thesis
    by (rule resolve_ok [OF ok]) (use F storage_okD(6) [OF ok] in \<open>auto simp: fail_pending_def upd_stats_def\<close>)
qed

lemma stop_flag_ok: "storage_ok s \<Longrightarrow> storage_ok (s\<lparr>ss_stop := True\<rparr>)"
  by (rule weaker_ok) (auto simp: weaker_def strong_def)

lemma stop_after_failure_ok: "storage_ok s \<Longrightarrow> storage_ok (snd (stop_after_failure e s))"
  by (simp add: stop_after_failure_def fail_pending_ok)

text \<open>What publishing the results of a batch changes.\<close>

lemma publish_job_same:
  assumes "fst j < length (ss_requests s)"
  shows "same_requests {fst j} s (publish_job os_error j s) \<and> ss_pending (publish_job os_error j s) = ss_pending s \<and> ss_jobs (publish_job os_error j s) = ss_jobs s
    \<and> (ss_failed s \<noteq> None \<or> ss_stop s \<or> ss_failed (publish_job os_error j s) = None \<or> ss_stop (publish_job os_error j s))
    \<and> (ss_stop s \<longrightarrow> ss_stop (publish_job os_error j s))"
proof -
  let ?x = "ss_requests s ! fst j" and ?t = "publish_job os_error j s"
  have files: "map rf_alignment (grow_files i n fs) = map rf_alignment fs" "map rf_identity (grow_files i n fs) = map rf_identity fs" for i n fs
    by (auto simp: grow_files_def)
  show ?thesis
  proof (cases "job_outcome os_error ?x (snd j)")
    case (Inl e)
    then have t: "?t = set_outcome (Inl e) (fst j) (upd_stats (\<lambda>st. st\<lparr>st_errors := st_errors st + 1\<rparr>)
        (s\<lparr>ss_failed := (case ss_failed s of None \<Rightarrow> Some e | Some f \<Rightarrow> Some f), ss_stop := True\<rparr>))" by (simp add: publish_job_def Let_def)
    have "same_requests {fst j} s ?t" unfolding t using assms
      by (auto simp: same_requests_def set_outcome_def upd_stats_def resolved_def nth_list_update)
    then show ?thesis by (simp add: t upd_stats_def)
  next
    case (Inr n)
    then have n: "required_bytes ?x \<le> n" by (auto simp: job_outcome_def split: if_splits)
    define u where "u = upd_stats (\<lambda>st. st\<lparr>st_completed_bytes := st_completed_bytes st + n\<rparr>)
        (if ex_writing (sr_extent ?x) then s\<lparr>ss_files := grow_files (rf_identity (ss_files s ! ex_file (sr_extent ?x))) (ex_offset (sr_extent ?x) + ex_bytes (sr_extent ?x)) (ss_files s)\<rparr> else s)"
    have t: "?t = set_outcome (Inr n) (fst j) u" using Inr by (simp add: publish_job_def Let_def u_def)
    have u: "ss_requests u = ss_requests s" "ss_config u = ss_config s" "ss_slots u = ss_slots s" "ss_handles u = ss_handles s" "ss_pending u = ss_pending s"
      "ss_jobs u = ss_jobs s" "ss_failed u = ss_failed s" "ss_stop u = ss_stop s"
      "map rf_alignment (ss_files u) = map rf_alignment (ss_files s)" "map rf_identity (ss_files u) = map rf_identity (ss_files s)"
      by (simp_all add: u_def upd_stats_def files)
    have "same_requests {fst j} s ?t" unfolding t using assms n
      by (auto simp: same_requests_def set_outcome_def resolved_def nth_list_update u)
    then show ?thesis by (auto simp: t u)
  qed
qed

lemma publish_all_same:
  assumes "\<forall>j\<in>set js. fst j < length (ss_requests s)" "ss_failed s \<noteq> None \<longrightarrow> ss_stop s"
  shows "same_requests (fst ` set js) s (fold (publish_job os_error) js s) \<and> ss_pending (fold (publish_job os_error) js s) = ss_pending s
    \<and> ss_jobs (fold (publish_job os_error) js s) = ss_jobs s
    \<and> (ss_failed (fold (publish_job os_error) js s) \<noteq> None \<longrightarrow> ss_stop (fold (publish_job os_error) js s))"
  using assms
proof (induction js arbitrary: s)
  case Nil
  then show ?case by (simp add: same_requests_refl)
next
  case (Cons j js)
  let ?t = "publish_job os_error j s"
  have one: "same_requests {fst j} s ?t" "ss_pending ?t = ss_pending s" "ss_jobs ?t = ss_jobs s" "ss_failed ?t \<noteq> None \<longrightarrow> ss_stop ?t"
    using publish_job_same [of j s os_error] Cons.prems by auto
  have len: "length (ss_requests ?t) = length (ss_requests s)" using one(1) by (simp add: same_requests_def)
  have "\<forall>k\<in>set js. fst k < length (ss_requests ?t)" using Cons.prems len by simp
  note ih = Cons.IH [OF this one(4)]
  have "same_requests ({fst j} \<union> fst ` set js) s (fold (publish_job os_error) js ?t)"
    by (rule same_requests_trans [OF one(1)]) (use ih in blast)
  then show ?case using ih one by simp
qed

lemma execute_length: "execute batch s = Inr results \<Longrightarrow> length results = length (ss_jobs s)"
  by (auto simp: execute_def Let_def and_then_Inr_iff split: prod.splits)

lemma worker_finish_ok:
  assumes ok: "storage_ok s" and out: "\<And>results. outcome = Inr results \<Longrightarrow> length results = length (ss_jobs s)"
  shows "storage_ok (worker_finish os_error n outcome s)"
proof -
  let ?st = "\<lambda>st. st\<lparr>st_physical_requests := n, st_peak_outstanding := max (st_peak_outstanding st) (length (ss_jobs s))\<rparr>"
  define s0 where "s0 = upd_stats ?st s"
  have ok0: "storage_ok s0" unfolding s0_def by (rule weaker_ok [OF ok upd_stats_weaker])
  have f0: "ss_jobs s0 = ss_jobs s" "ss_pending s0 = ss_pending s" by (simp_all add: s0_def upd_stats_def)
  have dis: "distinct (ss_pending s @ ss_jobs s)" by (rule storage_okD(6) [OF ok])
  have bound: "r < length (ss_requests s0)" if "r \<in> set (ss_pending s @ ss_jobs s)" for r using queued_bound [OF ok0, of r] that f0 by simp
  show ?thesis
  proof (cases outcome)
    case (Inl e)
    let ?u = "s0\<lparr>ss_failed := Some e, ss_stop := True\<rparr>"
    have b: "\<forall>r\<in>set (ss_jobs s @ ss_pending s). r < length (ss_requests ?u)" using bound by auto
    note F = fold_errors_same [OF b, of e]
    have t: "worker_finish os_error n outcome s = upd_stats (\<lambda>st. st\<lparr>st_errors := st_errors st + (length (ss_jobs s) + length (ss_pending s))\<rparr>)
        ((fold (set_outcome (Inl e)) (ss_jobs s @ ss_pending s) ?u)\<lparr>ss_pending := [], ss_jobs := [], ss_running := False\<rparr>)"
      using Inl by (simp add: worker_finish_def s0_def Let_def)
    have "same_requests (set (ss_jobs s @ ss_pending s)) s0 (worker_finish os_error n outcome s)"
      unfolding t by (rule same_requests_cong [OF conjunct1 [OF F]]) (simp_all add: same_core_def upd_stats_def)
    then show ?thesis
      by (rule resolve_ok [OF ok0]) (use F f0 t in \<open>auto simp: upd_stats_def\<close>)
  next
    case (Inr results)
    let ?js = "zip (ss_jobs s) results" and ?u = "fold (publish_job os_error) (zip (ss_jobs s) results) s0"
    have js: "fst ` set ?js = set (ss_jobs s)" using out [OF Inr] by (metis map_fst_zip set_map)
    have b: "\<forall>j\<in>set ?js. fst j < length (ss_requests s0)" using bound by (auto dest: set_zip_leftD)
    have "ss_failed s0 \<noteq> None \<longrightarrow> ss_stop s0" using storage_okD(9) [OF ok0] by blast
    note P = publish_all_same [OF b this, of os_error, unfolded js]
    show ?thesis
    proof (cases "ss_failed ?u")
      case None
      then have t: "worker_finish os_error n outcome s = ?u\<lparr>ss_jobs := []\<rparr>" using Inr by (simp add: worker_finish_def s0_def Let_def)
      have "same_requests (set (ss_jobs s)) s0 (?u\<lparr>ss_jobs := []\<rparr>)"
        by (rule same_requests_cong [OF conjunct1 [OF P]]) (simp_all add: same_core_def)
      then show ?thesis unfolding t by (rule resolve_ok [OF ok0]) (use P f0 None dis in auto)
    next
      case (Some e)
      let ?v = "fail_pending e ?u"
      have t: "worker_finish os_error n outcome s = ?v\<lparr>ss_jobs := [], ss_running := False\<rparr>" using Inr Some by (simp add: worker_finish_def s0_def Let_def)
      have len: "length (ss_requests ?u) = length (ss_requests s0)" using P by (simp add: same_requests_def)
      have bp: "\<forall>r\<in>set (ss_pending s). r < length (ss_requests ?u)" using bound len by simp
      note F = fold_errors_same [OF bp, of e]
      have "same_requests (set (ss_jobs s) \<union> set (ss_pending s)) s0 (fold (set_outcome (Inl e)) (ss_pending s) ?u)"
        by (rule same_requests_trans) (use P F in blast)+
      then have "same_requests (set (ss_jobs s) \<union> set (ss_pending s)) s0 (?v\<lparr>ss_jobs := [], ss_running := False\<rparr>)"
        by (rule same_requests_cong) (use P f0 in \<open>simp_all add: same_core_def fail_pending_def upd_stats_def\<close>)
      then show ?thesis unfolding t
        by (rule resolve_ok [OF ok0]) (use P F f0 Some in \<open>auto simp: fail_pending_def upd_stats_def\<close>)
    qed
  qed
qed


section \<open>Histories of a session\<close>

lemma power_two_dvd: "is_power_of_two a \<Longrightarrow> is_power_of_two b \<Longrightarrow> a \<le> b \<Longrightarrow> a dvd b"
proof -
  assume "is_power_of_two a" "is_power_of_two b" "a \<le> b"
  then obtain i j where "a = 2 ^ i" "b = 2 ^ j" "(2::nat) ^ i \<le> 2 ^ j" by (auto simp: is_power_of_two_iff)
  then show ?thesis by (simp add: le_imp_power_dvd)
qed

lemma register_file_ok:
  assumes "register_file mode metadata flags opened dio page = Inr f" "is_power_of_two page"
  shows "is_power_of_two (rf_alignment f) \<and> rf_alignment f dvd page"
proof -
  obtain a where a: "(if mode = Direct then direct_alignment dio page else Inr 1) = Inr a" "rf_alignment f = a"
    using assms(1) by (auto simp: register_file_def and_then_Inr_iff split: if_splits)
  show ?thesis
  proof (cases "mode = Direct")
    case True
    then have "is_power_of_two a" "a \<le> page" using a(1) by (auto simp: direct_alignment_def Let_def max_def split: if_splits)
    then show ?thesis using power_two_dvd [OF _ assms(2)] a(2) by simp
  next
    case False
    then show ?thesis using a by (auto simp: is_power_of_two_iff intro: exI [of _ 0])
  qed
qed

definition registered_by :: "storage_mode \<Rightarrow> usize \<Rightarrow> registered_file result \<Rightarrow> bool" where
  "registered_by mode page r \<longleftrightarrow> (\<exists>metadata flags opened dio. r = register_file mode metadata flags opened dio page)"

inductive storage_reach :: "storage_state \<Rightarrow> bool" where
  sr_new: "is_power_of_two page \<Longrightarrow> \<forall>r\<in>set registered. registered_by (sc_mode config) page r \<Longrightarrow>
     storage_session_new (Some page) config registered allocated started = Inr s \<Longrightarrow> storage_reach s"
| sr_submit: "storage_reach s \<Longrightarrow> storage_submit os_error e written s = (r, t) \<Longrightarrow> storage_reach t"
| sr_clone: "storage_reach s \<Longrightarrow> 0 < ss_handles s r \<Longrightarrow> storage_reach (add_handle r s)"
| sr_drop: "storage_reach s \<Longrightarrow> 0 < ss_handles s r \<Longrightarrow> storage_reach (drop_handle r s)"
| sr_wait: "storage_reach s \<Longrightarrow> 0 < ss_handles s r \<Longrightarrow> ticket_wait r s = (out, t) \<Longrightarrow> storage_reach t"
| sr_enqueue: "storage_reach s \<Longrightarrow> 0 < ss_handles s r \<Longrightarrow> lease_enqueue same_domain bound submitted synchronized r s = (res, t) \<Longrightarrow> storage_reach t"
| sr_transfer: "storage_reach s \<Longrightarrow> 0 < ss_handles s r \<Longrightarrow> transfer_wait event r s = (out, t) \<Longrightarrow> storage_reach t"
| sr_transfer_drop: "storage_reach s \<Longrightarrow> 0 < ss_handles s r \<Longrightarrow> storage_reach (transfer_drop synchronized r s)"
| sr_take: "storage_reach s \<Longrightarrow> ss_running s \<Longrightarrow> ss_jobs s = [] \<Longrightarrow> storage_reach (worker_take s)"
| sr_finish: "storage_reach s \<Longrightarrow> ss_jobs s \<noteq> [] \<Longrightarrow> storage_reach (worker_finish os_error n (execute batch s) s)"
| sr_stop: "storage_reach s \<Longrightarrow> storage_reach (storage_stop s)"

lemma session_new_ok:
  assumes p: "is_power_of_two page" and reg: "\<forall>r\<in>set registered. registered_by (sc_mode config) page r"
    and new: "storage_session_new (Some page) config registered allocated started = Inr s"
  shows "storage_ok s"
proof -
  obtain files where f: "map_result id registered = Inr files" "sc_slot_bytes config mod page = 0"
    and s: "s = \<lparr>ss_config = config, ss_files = files, ss_requests = [], ss_handles = (\<lambda>_. 0), ss_pending = [], ss_jobs = [],
                 ss_slots = replicate (sc_slots config) None, ss_stop = False, ss_failed = None, ss_running = True,
                 ss_statistics = statistics_default\<rparr>"
    using new by (auto simp: storage_session_new_def and_then_Inr_iff split: if_splits)
  have "is_power_of_two (rf_alignment f) \<and> rf_alignment f dvd sc_slot_bytes config" if mem: "f \<in> set files" for f
  proof -
    have "list_all2 (\<lambda>x y. id x = Inr y) registered files" using f(1) by (simp add: map_result_Inr)
    then have "Inr f \<in> set registered" using mem by (auto simp: list_all2_conv_all_nth in_set_conv_nth)
    then obtain metadata flags opened dio where "register_file (sc_mode config) metadata flags opened dio page = Inr f"
      using reg by (auto simp: registered_by_def dest: sym)
    from register_file_ok [OF this p] show ?thesis using f(2) by (auto intro: dvd_trans)
  qed
  then show ?thesis by (simp add: s storage_ok_def files_ok_def list_all_iff strong_def)
qed

lemma worker_take_ok:
  assumes ok: "storage_ok s" and jobs: "ss_jobs s = []"
  shows "storage_ok (worker_take s)"
proof (cases "ss_pending s = []")
  case True
  then have "weaker s (worker_take s)" by (auto simp: worker_take_def weaker_def strong_def)
  then show ?thesis by (rule weaker_ok [OF ok])
next
  case False
  then have t: "worker_take s = s\<lparr>ss_jobs := ss_pending s, ss_pending := []\<rparr>" by (simp add: worker_take_def)
  have "same_requests {} s (worker_take s)" unfolding t by (rule same_requests_cong [OF same_requests_refl]) (simp_all add: same_core_def)
  then show ?thesis by (rule resolve_ok [OF ok]) (use t jobs storage_okD(6,9) [OF ok] in auto)
qed

lemma storage_reach_ok: "storage_reach s \<Longrightarrow> storage_ok s"
proof (induction rule: storage_reach.induct)
  case (sr_new page registered config allocated started s)
  then show ?case by (rule session_new_ok)
next
  case (sr_submit s os_error e written r t)
  then show ?case by (blast intro: storage_submit_ok)
next
  case (sr_clone s r)
  then show ?case using weaker_ok [OF _ add_handle_weaker] by (simp add: strong_def)
next
  case (sr_drop s r)
  then show ?case by (blast intro: weaker_ok drop_handle_weaker)
next
  case (sr_wait s r out t)
  have "0 < strong s r" using sr_wait.hyps(2) by (simp add: strong_def)
  then have "storage_ok (add_handle r s)" by (rule weaker_ok [OF sr_wait.IH add_handle_weaker])
  then show ?case using sr_wait.hyps(3) sr_wait.IH by (auto simp: ticket_wait_def split: option.splits sum.splits)
next
  case (sr_enqueue s r same_domain bound submitted synchronized res t)
  have "storage_ok (drop_handle r s)" by (rule weaker_ok [OF sr_enqueue.IH drop_handle_weaker])
  then show ?case using sr_enqueue.hyps(3) sr_enqueue.IH stop_after_failure_ok [OF sr_enqueue.IH]
    by (auto simp: lease_enqueue_def split: if_splits sum.splits)
next
  case (sr_transfer s r event out t)
  have d: "storage_ok (drop_handle r s)" by (rule weaker_ok [OF sr_transfer.IH drop_handle_weaker])
  show ?case
  proof (cases event)
    case (Inl e)
    then have "t = snd (stop_after_failure e s)" using sr_transfer.hyps(3) by (simp add: transfer_wait_def Let_def split: prod.splits)
    then show ?thesis using stop_after_failure_ok [OF sr_transfer.IH] by simp
  next
    case (Inr b)
    then show ?thesis using sr_transfer.hyps(3) sr_transfer.IH d by (cases b) (auto simp: transfer_wait_def)
  qed
next
  case (sr_transfer_drop s r synchronized)
  then show ?case using stop_after_failure_ok weaker_ok [OF _ drop_handle_weaker] by (simp add: transfer_drop_def split: sum.split)
next
  case (sr_take s)
  then show ?case by (blast intro: worker_take_ok)
next
  case (sr_finish s os_error n batch)
  then show ?case by (blast intro: worker_finish_ok execute_length)
next
  case (sr_stop s)
  then show ?case unfolding storage_stop_def by (blast intro: stop_flag_ok)
qed


section \<open>Payloads are exclusive\<close>

text \<open>
  C17: in every reachable state of a storage session, the payload ranges of any two live requests are disjoint and inside the registered
  payload, and a lease reads inside its own range; no live write overlaps another live request on the same file;
  a request has no outcome exactly while it is queued or in the running batch; a successful outcome covers its whole extent;
  after a failure nothing is queued and every submission is refused.
\<close>

theorem storage_exclusive:
  assumes "storage_reach s"
  shows "(\<forall>r q. 0 < strong s r \<longrightarrow> 0 < strong s q \<longrightarrow> r \<noteq> q \<longrightarrow>
        (let B = sc_slot_bytes (ss_config s); x = ss_requests s ! r; y = ss_requests s ! q
         in (sr_slot x * B + ph_bytes (sr_physical x) \<le> sr_slot y * B \<or> sr_slot y * B + ph_bytes (sr_physical y) \<le> sr_slot x * B)
            \<and> no_overlap s r q))
    \<and> (\<forall>r. 0 < strong s r \<longrightarrow>
        (let B = sc_slot_bytes (ss_config s); x = ss_requests s ! r
         in lease_offset r s + lease_len r s \<le> sr_slot x * B + ph_bytes (sr_physical x)
            \<and> sr_slot x * B + ph_bytes (sr_physical x) \<le> sc_slots (ss_config s) * B))
    \<and> (\<forall>r<length (ss_requests s). (sr_outcome (ss_requests s ! r) = None \<longleftrightarrow> r \<in> set (ss_pending s @ ss_jobs s))
        \<and> (\<forall>n. sr_outcome (ss_requests s ! r) = Some (Inr n) \<longrightarrow> required_bytes (ss_requests s ! r) \<le> n))
    \<and> (ss_failed s \<noteq> None \<longrightarrow> ss_pending s = [] \<and> (\<forall>os_error e written. \<exists>err. storage_submit os_error e written s = (Inl err, s)))"
proof -
  have ok: "storage_ok s" using assms by (rule storage_reach_ok)
  note D = storage_okD [OF ok]
  let ?B = "sc_slot_bytes (ss_config s)"
  have req: "request_ok s (ss_requests s ! r)" if "0 < strong s r" for r using D(3) [OF nth_mem [OF D(4) [OF that]]] .
  have apart: "sr_slot (ss_requests s ! r) * ?B + ph_bytes (sr_physical (ss_requests s ! r)) \<le> sr_slot (ss_requests s ! q) * ?B"
    if "0 < strong s r" "sr_slot (ss_requests s ! r) < sr_slot (ss_requests s ! q)" for r q
  proof -
    have "Suc (sr_slot (ss_requests s ! r)) * ?B \<le> sr_slot (ss_requests s ! q) * ?B" using that(2) by (intro mult_le_mono1) simp
    then show ?thesis using req [OF that(1)] by (simp add: request_ok_def)
  qed
  have inside: "sr_slot (ss_requests s ! r) * ?B + ph_bytes (sr_physical (ss_requests s ! r)) \<le> sc_slots (ss_config s) * ?B" if "0 < strong s r" for r
  proof -
    have "Suc (sr_slot (ss_requests s ! r)) * ?B \<le> sc_slots (ss_config s) * ?B"
      using req [OF that] D(2) by (intro mult_le_mono1) (simp add: request_ok_def)
    then show ?thesis using req [OF that] by (simp add: request_ok_def)
  qed
  have disjoint: "sr_slot (ss_requests s ! r) * ?B + ph_bytes (sr_physical (ss_requests s ! r)) \<le> sr_slot (ss_requests s ! q) * ?B
      \<or> sr_slot (ss_requests s ! q) * ?B + ph_bytes (sr_physical (ss_requests s ! q)) \<le> sr_slot (ss_requests s ! r) * ?B"
    if "0 < strong s r" "0 < strong s q" "r \<noteq> q" for r q
    using slots_distinct [OF ok that(1,2)] apart that by (metis nat_neq_iff)
  have lease: "lease_offset r s + lease_len r s \<le> sr_slot (ss_requests s ! r) * ?B + ph_bytes (sr_physical (ss_requests s ! r))" if "0 < strong s r" for r
    using req [OF that] by (simp add: request_ok_def lease_offset_def lease_len_def required_bytes_def)
  have outcome: "required_bytes (ss_requests s ! r) \<le> n" if "r < length (ss_requests s)" "sr_outcome (ss_requests s ! r) = Some (Inr n)" for r n
    using D(3) [OF nth_mem [OF that(1)]] that(2) by (simp add: request_ok_def)
  have refused: "\<exists>err. storage_submit os_error e written s = (Inl err, s)" if "ss_failed s \<noteq> None" for os_error e written
    using that by (auto simp: storage_submit_def Let_def split: sum.splits)
  show ?thesis unfolding Let_def using disjoint D(8) lease inside D(7) outcome D(9) refused by blast
qed


text \<open>A session over one buffered file of 100 bytes with two slots; two reads at different offsets are in flight.\<close>

definition demo_info :: file_info where
  "demo_info = \<lparr>fi_regular = True, fi_bytes = 100, fi_append = False, fi_direct = False, fi_path = False, fi_access = BothAccess,
     fi_identity = (1, 2)\<rparr>"

definition demo_registered :: "registered_file result" where
  "demo_registered = register_file Buffered (Inr demo_info) (Inr ()) (Inr (1, 2)) \<lparr>dio_reported = False, dio_mem_align = 0, dio_offset_align = 0\<rparr> 4096"

definition demo_storage :: "storage_state result" where
  "demo_storage = storage_session_new (Some 4096) \<lparr>sc_mode = Buffered, sc_slots = 2, sc_slot_bytes = 4096\<rparr> [demo_registered] (Inr ()) (Inr ())"

definition demo_read :: "usize \<Rightarrow> extent" where
  "demo_read n = \<lparr>ex_file = 0, ex_offset = n, ex_bytes = 50, ex_writing = False\<rparr>"

definition demo_session :: storage_state where
  "demo_session =
     \<lparr>ss_config = \<lparr>sc_mode = Buffered, sc_slots = 2, sc_slot_bytes = 4096\<rparr>,
      ss_files = [\<lparr>rf_bytes = 100, rf_alignment = 1, rf_writable = True, rf_readable = True, rf_identity = (1, 2)\<rparr>],
      ss_requests = [], ss_handles = (\<lambda>_. 0), ss_pending = [], ss_jobs = [], ss_slots = [None, None], ss_stop = False, ss_failed = None,
      ss_running = True, ss_statistics = statistics_default\<rparr>"

definition demo_after :: storage_state where
  "demo_after = snd (storage_submit (\<lambda>_. []) (demo_read 50) (Inr ()) (snd (storage_submit (\<lambda>_. []) (demo_read 0) (Inr ()) demo_session)))"

lemma demo_storage_new: "demo_storage = Inr demo_session"
proof -
  have "replicate 2 None = [None, None :: nat option]" by (simp add: numeral_2_eq_2)
  then show ?thesis by (simp add: demo_storage_def storage_session_new_def demo_registered_def register_file_def demo_info_def demo_session_def)
qed

lemma demo_after_reach: "storage_reach demo_after"
proof -
  have "is_power_of_two 4096" by (auto simp: is_power_of_two_iff intro: exI [of _ 12])
  moreover have "\<forall>r\<in>set [demo_registered]. registered_by (sc_mode \<lparr>sc_mode = Buffered, sc_slots = 2, sc_slot_bytes = 4096\<rparr>) 4096 r"
    by (auto simp: registered_by_def demo_registered_def)
  ultimately have "storage_reach demo_session" using demo_storage_new unfolding demo_storage_def by (rule sr_new)
  moreover have "storage_reach (snd (storage_submit (\<lambda>_. []) e (Inr ()) u))" if "storage_reach u" for e u
    using sr_submit [OF that] by (metis prod.collapse)
  ultimately show ?thesis unfolding demo_after_def by blast
qed

lemma demo_after_slots:
  "strong demo_after 0 = 2 \<and> strong demo_after 1 = 2 \<and> sr_slot (ss_requests demo_after ! 0) = 0 \<and> sr_slot (ss_requests demo_after ! 1) = 1"
proof -
  have p: "physical (demo_read n) 100 (Suc 0) 4096 = Inr \<lparr>ph_offset = n, ph_bytes = 50, ph_skip = 0\<rparr>" if "n = 0 \<or> n = 50" for n
    using that by (auto simp: physical_def demo_read_def mask_down_def checked_add_def usize_MAX_def Let_def)
  have sel: "ex_file (demo_read n) = 0" "ex_offset (demo_read n) = n" "ex_bytes (demo_read n) = 50" "\<not> ex_writing (demo_read n)" for n
    by (simp_all add: demo_read_def)
  show ?thesis
    by (simp add: demo_after_def storage_submit_def demo_session_def p [of 0] p [of 50] sel Let_def admit_request_def add_handle_def upd_stats_def
        live_slot_def strong_def)
qed

theorem storage_exclusive_witness:
  "0 < strong demo_after 0 \<and> 0 < strong demo_after 1
    \<and> (let B = sc_slot_bytes (ss_config demo_after); x = ss_requests demo_after ! 0; y = ss_requests demo_after ! 1
       in sr_slot x * B + ph_bytes (sr_physical x) \<le> sr_slot y * B \<or> sr_slot y * B + ph_bytes (sr_physical y) \<le> sr_slot x * B)"
  using storage_exclusive [OF demo_after_reach, THEN conjunct1, THEN spec [of _ 0], THEN spec [of _ 1]] demo_after_slots by (simp add: Let_def)

end
