(* ===== verification/Scratch_Planner.thy ===== *)
theory Scratch_Planner
  imports Use_Summaries "HOL-Library.Product_Lexorder"
begin

text \<open>
  Reuse of temporary allocations by best fit over inclusive lifetimes, \<open>ScratchPlanner\<close> in \<^verbatim>\<open>src/src/loom/model.rs\<close>. Values are sorted by first
  use, larger first, then by key; each takes the smallest free slot that fits, or a new one. Values alive together never share a slot.
\<close>


section \<open>Planning\<close>

record lifetime =
  sl_bytes :: usize
  sl_first :: usize
  sl_last :: usize

text \<open>The planner's values are a \<open>BTreeMap\<close>, a list ascending in its keys. An insertion replaces an earlier entry before it reports the duplicate.\<close>

type_synonym 'k scratch_planner = "('k \<times> lifetime) list"

definition scratch_insert ::
  "'k::linorder \<Rightarrow> usize \<Rightarrow> usize \<Rightarrow> usize \<Rightarrow> 'k scratch_planner \<Rightarrow> unit result \<times> 'k scratch_planner" where
  "scratch_insert key bytes first final values =
     (if bytes = 0 then (Inl (Message ''scratch values must be nonempty''), values)
      else if first > final then (Inl (Message ''scratch lifetime ends before it begins''), values)
      else let l = \<lparr>sl_bytes = bytes, sl_first = first, sl_last = final\<rparr>; values' = bt_entry key l (\<lambda>_. l) values
      in if map_of values key \<noteq> None then (Inl (Message ''duplicate scratch value''), values') else (Inr (), values'))"

text \<open>The order of planning; \<open>Reverse\<close> of the size is its negation.\<close>

definition planning_key :: "'k \<times> lifetime \<Rightarrow> nat \<times> int \<times> 'k" where
  "planning_key v = (sl_first (snd v), - int (sl_bytes (snd v)), fst v)"

text \<open>Ending an expired allocation; \<open>free\<close> is a \<open>BTreeSet\<close>, an ascending list.\<close>

fun expire :: "usize \<Rightarrow> (usize \<times> nat) list \<Rightarrow> nat list \<Rightarrow> (usize \<times> nat) list \<times> nat list" where
  "expire first [] free = ([], free)"
| "expire first ((final, slot) # active) free =
     (if final < first then expire first active (insort_insert slot free)
      else let (active', free') = expire first active free in ((final, slot) # active', free'))"

fun plan_values ::
  "('k::linorder \<times> lifetime) list \<Rightarrow> (usize \<times> nat) list \<Rightarrow> nat list \<Rightarrow> usize list \<Rightarrow> ('k \<times> nat) list \<Rightarrow> ('k \<times> nat) list \<times> usize list" where
  "plan_values [] active free slots assignments = (assignments, slots)"
| "plan_values ((key, l) # values) active free slots assignments =
     (let (active, free) = expire (sl_first l) active free
      in case min_by_key (\<lambda>slot. slots ! slot) (filter (\<lambda>slot. slots ! slot \<ge> sl_bytes l) free) of
           None \<Rightarrow>
             plan_values values (active @ [(sl_last l, length slots)]) free (slots @ [sl_bytes l])
               (bt_entry key (length slots) (\<lambda>_. length slots) assignments)
         | Some slot \<Rightarrow>
             plan_values values (active @ [(sl_last l, slot)]) (remove1 slot free) slots (bt_entry key slot (\<lambda>_. slot) assignments))"

record 'k scratch_plan =
  sp_assignments :: "('k \<times> nat) list"
  sp_slots :: "usize list"

definition scratch_finish :: "'k::linorder scratch_planner \<Rightarrow> 'k scratch_plan" where
  "scratch_finish values =
     (case plan_values (sort_key planning_key values) [] [] [] [] of
        (assignments, slots) \<Rightarrow> \<lparr>sp_assignments = assignments, sp_slots = slots\<rparr>)"

definition plan_slot :: "'k scratch_plan \<Rightarrow> 'k \<Rightarrow> nat result" where
  "plan_slot p key = (case map_of (sp_assignments p) key of None \<Rightarrow> Inl (Message ''scratch value was not planned'') | Some s \<Rightarrow> Inr s)"

text \<open>A client inserts values one after another, stopping at the first error.\<close>

fun insert_values :: "('k::linorder \<times> usize \<times> usize \<times> usize) list \<Rightarrow> 'k scratch_planner \<Rightarrow> 'k scratch_planner result" where
  "insert_values [] values = Inr values"
| "insert_values ((key, bytes, first, final) # ins) values =
     (case scratch_insert key bytes first final values of
        (Inl e, _) \<Rightarrow> Inl e
      | (Inr _, values') \<Rightarrow> insert_values ins values')"


section \<open>Expiry\<close>

lemma expire_active: "expire first active free = (active', free') \<Longrightarrow> active' = filter (\<lambda>a. first \<le> fst a) active"
  by (induction first active free arbitrary: active' free' rule: expire.induct) (auto split: if_splits prod.splits)

lemma expire_free:
  "expire first active free = (active', free') \<Longrightarrow> set free' = set free \<union> snd ` {a \<in> set active. fst a < first}"
  by (induction first active free arbitrary: active' free' rule: expire.induct)
    (force simp: set_insort_insert split: if_splits prod.splits)+

lemma expire_distinct: "expire first active free = (active', free') \<Longrightarrow> distinct free \<Longrightarrow> distinct free'"
  by (induction first active free arbitrary: active' free' rule: expire.induct)
    (auto simp: distinct_insort_insert split: if_splits prod.splits)


section \<open>The planning invariant\<close>

definition together :: "lifetime \<Rightarrow> lifetime \<Rightarrow> bool" where
  "together a b \<longleftrightarrow> sl_first a \<le> sl_last b \<and> sl_first b \<le> sl_last a"

text \<open>\<open>placed\<close> are the values planned so far with their slots, all of them first used at \<open>now\<close> or before.\<close>

record 'k placement =
  pl_key :: 'k
  pl_life :: lifetime
  pl_slot :: nat

definition slots_split :: "(usize \<times> nat) list \<Rightarrow> nat list \<Rightarrow> nat \<Rightarrow> bool" where
  "slots_split active free n \<longleftrightarrow> distinct (map snd active) \<and> distinct free \<and> snd ` set active \<inter> set free = {}
     \<and> snd ` set active \<union> set free \<subseteq> {..<n}"

definition placed_ok :: "usize \<Rightarrow> (usize \<times> nat) list \<Rightarrow> usize list \<Rightarrow> 'k placement \<Rightarrow> bool" where
  "placed_ok now active slots p \<longleftrightarrow> pl_slot p < length slots \<and> sl_bytes (pl_life p) \<le> slots ! pl_slot p \<and> sl_first (pl_life p) \<le> now
     \<and> ((sl_last (pl_life p), pl_slot p) \<in> set active \<or> sl_last (pl_life p) < now)"

definition ended_before :: "'k placement \<Rightarrow> 'k placement \<Rightarrow> bool" where
  "ended_before p q \<longleftrightarrow> pl_slot p = pl_slot q \<longrightarrow> sl_last (pl_life p) < sl_first (pl_life q)"

definition planning_ok :: "usize \<Rightarrow> 'k placement list \<Rightarrow> (usize \<times> nat) list \<Rightarrow> nat list \<Rightarrow> usize list \<Rightarrow> bool" where
  "planning_ok now placed active free slots \<longleftrightarrow>
     slots_split active free (length slots) \<and> (\<forall>p\<in>set placed. placed_ok now active slots p) \<and> sorted_wrt ended_before placed
     \<and> (\<forall>s<length slots. \<exists>p\<in>set placed. pl_slot p = s \<and> sl_bytes (pl_life p) = slots ! s)"

lemma planning_ok_start: "planning_ok 0 [] [] [] []"
  by (simp add: planning_ok_def slots_split_def)

lemma slots_expire:
  assumes split: "slots_split active free n" and e: "expire first active free = (active', free')"
  shows "slots_split active' free' n"
proof -
  have a: "active' = filter (\<lambda>a. first \<le> fst a) active" by (rule expire_active [OF e])
  have f: "set free' = set free \<union> snd ` {a \<in> set active. fst a < first}" by (rule expire_free [OF e])
  have inj: "inj_on snd (set active)" using split by (simp add: slots_split_def distinct_map)
  have "snd x \<notin> set free'" if x: "x \<in> set active" "first \<le> fst x" for x
  proof
    assume "snd x \<in> set free'"
    moreover have "snd x \<notin> set free" using split x by (auto simp: slots_split_def)
    ultimately obtain y where "y \<in> set active" "fst y < first" "snd y = snd x" using f by auto
    then have "y = x" using inj_onD [OF inj, of y x] x(1) by simp
    then show False using \<open>fst y < first\<close> x(2) by simp
  qed
  then have "snd ` set active' \<inter> set free' = {}" using a by auto
  moreover have "distinct free'" using split expire_distinct [OF e] by (simp add: slots_split_def)
  ultimately show ?thesis using split a f by (auto simp: slots_split_def distinct_map_filter)
qed

lemma planning_expire:
  assumes ok: "planning_ok now placed active free slots" and le: "now \<le> first" and e: "expire first active free = (active', free')"
  shows "planning_ok first placed active' free' slots"
proof -
  have "active' = filter (\<lambda>a. first \<le> fst a) active" by (rule expire_active [OF e])
  then have "placed_ok first active' slots p" if "placed_ok now active slots p" for p :: "'a placement"
    using that le by (auto simp: placed_ok_def)
  then show ?thesis using ok slots_expire [OF _ e] by (simp add: planning_ok_def)
qed

lemma planning_reuse:
  assumes ok: "planning_ok (sl_first l) placed active free slots" and s: "s \<in> set free" "sl_bytes l \<le> slots ! s"
  shows "planning_ok (sl_first l) (placed @ [\<lparr>pl_key = k, pl_life = l, pl_slot = s\<rparr>]) (active @ [(sl_last l, s)]) (remove1 s free) slots"
proof -
  let ?p = "\<lparr>pl_key = k, pl_life = l, pl_slot = s\<rparr>"
  have split: "slots_split active free (length slots)" using ok by (simp add: planning_ok_def)
  then have n: "s < length slots" "s \<notin> snd ` set active" using s by (auto simp: slots_split_def)
  have "slots_split (active @ [(sl_last l, s)]) (remove1 s free) (length slots)"
    using split n by (auto simp: slots_split_def)
  moreover have old: "placed_ok (sl_first l) (active @ [(sl_last l, s)]) slots p \<and> ended_before p ?p" if "p \<in> set placed" for p
  proof -
    have "placed_ok (sl_first l) active slots p" using ok that by (simp add: planning_ok_def)
    then show ?thesis using n(2) by (force simp: placed_ok_def ended_before_def)
  qed
  moreover have "placed_ok (sl_first l) (active @ [(sl_last l, s)]) slots ?p" using n s by (simp add: placed_ok_def)
  moreover have "\<forall>t<length slots. \<exists>p\<in>set placed. pl_slot p = t \<and> sl_bytes (pl_life p) = slots ! t" "sorted_wrt ended_before placed"
    using ok by (simp_all add: planning_ok_def)
  ultimately show ?thesis by (auto simp: planning_ok_def sorted_wrt_append)
qed

lemma planning_grow:
  assumes ok: "planning_ok (sl_first l) placed active free slots"
  shows "planning_ok (sl_first l) (placed @ [\<lparr>pl_key = k, pl_life = l, pl_slot = length slots\<rparr>]) (active @ [(sl_last l, length slots)]) free
           (slots @ [sl_bytes l])"
proof -
  let ?p = "\<lparr>pl_key = k, pl_life = l, pl_slot = length slots\<rparr>" and ?slots = "slots @ [sl_bytes l]"
  have "slots_split (active @ [(sl_last l, length slots)]) free (length ?slots)"
    using ok by (auto simp: planning_ok_def slots_split_def less_Suc_eq)
  moreover have "placed_ok (sl_first l) (active @ [(sl_last l, length slots)]) ?slots p \<and> ended_before p ?p" if "p \<in> set placed" for p
  proof -
    have "placed_ok (sl_first l) active slots p" using ok that by (simp add: planning_ok_def)
    then show ?thesis by (auto simp: placed_ok_def ended_before_def nth_append)
  qed
  moreover have "placed_ok (sl_first l) (active @ [(sl_last l, length slots)]) ?slots ?p" by (simp add: placed_ok_def)
  moreover have "\<exists>p\<in>set (placed @ [?p]). pl_slot p = t \<and> sl_bytes (pl_life p) = ?slots ! t" if "t < length ?slots" for t
  proof (cases "t = length slots")
    case False
    then have t: "t < length slots" using that by simp
    then obtain p where "p \<in> set placed" "pl_slot p = t" "sl_bytes (pl_life p) = slots ! t" using ok unfolding planning_ok_def by blast
    then show ?thesis using t by (auto simp: nth_append)
  qed (simp add: nth_append)
  moreover have "sorted_wrt ended_before placed" using ok by (simp add: planning_ok_def)
  ultimately show ?thesis by (simp add: planning_ok_def sorted_wrt_append)
qed


text \<open>The assignments recorded so far are exactly the placements.\<close>

abbreviation placement_slots :: "'k placement list \<Rightarrow> ('k \<times> nat) list" where
  "placement_slots placed \<equiv> map (\<lambda>p. (pl_key p, pl_slot p)) placed"

definition recorded_as :: "('k::linorder \<times> nat) list \<Rightarrow> 'k placement list \<Rightarrow> bool" where
  "recorded_as assignments placed \<longleftrightarrow> keys_ascending assignments \<and> map_of assignments = map_of (placement_slots placed)"

lemma recorded_as_snoc:
  assumes "recorded_as assignments placed" "k \<notin> pl_key ` set placed"
  shows "recorded_as (bt_entry k s (\<lambda>_. s) assignments) (placed @ [\<lparr>pl_key = k, pl_life = l, pl_slot = s\<rparr>])"
proof -
  have "map_of (placement_slots placed) k = None" using assms(2) by (auto simp: map_of_eq_None_iff image_image)
  then have "map_of (placement_slots placed @ [(k, s)]) = (map_of (placement_slots placed))(k \<mapsto> s)" by (auto simp: fun_eq_iff map_add_def split: option.split)
  then show ?thesis using assms(1) by (simp add: recorded_as_def ascending_bt_entry map_of_bt_entry split: option.split)
qed

lemma plan_values_ok:
  "plan_values values active free slots assignments = (result, out) \<Longrightarrow> planning_ok now placed active free slots
    \<Longrightarrow> sorted (now # map (sl_first \<circ> snd) values) \<Longrightarrow> distinct (map pl_key placed @ map fst values) \<Longrightarrow> recorded_as assignments placed
    \<Longrightarrow> \<exists>now' placed' active' free'. planning_ok now' (placed @ placed') active' free' out
          \<and> map (\<lambda>p. (pl_key p, pl_life p)) placed' = values \<and> recorded_as result (placed @ placed')"
proof (induction "values" active free slots assignments arbitrary: now placed rule: plan_values.induct)
  case (1 active free slots assignments)
  then show ?case by (intro exI [of _ now] exI [of _ "[]"] exI [of _ active] exI [of _ free]) simp
next
  case (2 key l "values" active free slots assignments)
  obtain active1 free1 where e: "expire (sl_first l) active free = (active1, free1)" by fastforce
  have ok1: "planning_ok (sl_first l) placed active1 free1 slots"
    using planning_expire [OF "2.prems"(2) _ e] "2.prems"(3) by simp
  have fresh: "key \<notin> pl_key ` set placed" "distinct (map pl_key (placed @ [\<lparr>pl_key = key, pl_life = l, pl_slot = s\<rparr>]) @ map fst values)" for s
    using "2.prems"(4) by auto
  have sorted: "sorted (sl_first l # map (sl_first \<circ> snd) values)" using "2.prems"(3) by (simp add: comp_def)
  let ?best = "min_by_key (\<lambda>slot. slots ! slot) (filter (\<lambda>slot. slots ! slot \<ge> sl_bytes l) free1)"
  show ?case
  proof (cases ?best)
    case None
    then have run: "plan_values values (active1 @ [(sl_last l, length slots)]) free1 (slots @ [sl_bytes l])
        (bt_entry key (length slots) (\<lambda>_. length slots) assignments) = (result, out)"
      using "2.prems"(1) e by simp
    from "2.IH"(1) [OF e [symmetric] refl None run planning_grow [OF ok1, of key] sorted fresh(2) recorded_as_snoc [OF "2.prems"(5) fresh(1)]]
    obtain now' placed' active' free' where "planning_ok now' ((placed @ [\<lparr>pl_key = key, pl_life = l, pl_slot = length slots\<rparr>]) @ placed') active' free' out"
        "map (\<lambda>p. (pl_key p, pl_life p)) placed' = values" "recorded_as result ((placed @ [\<lparr>pl_key = key, pl_life = l, pl_slot = length slots\<rparr>]) @ placed')"
      by blast
    then show ?thesis
      by (intro exI [of _ now'] exI [of _ "\<lparr>pl_key = key, pl_life = l, pl_slot = length slots\<rparr> # placed'"] exI [of _ active'] exI [of _ free']) simp
  next
    case (Some s)
    then have s: "s \<in> set free1" "sl_bytes l \<le> slots ! s" using min_by_key_Some by fastforce+
    have run: "plan_values values (active1 @ [(sl_last l, s)]) (remove1 s free1) slots (bt_entry key s (\<lambda>_. s) assignments) = (result, out)"
      using "2.prems"(1) e Some by simp
    from "2.IH"(2) [OF e [symmetric] refl Some run planning_reuse [OF ok1 s, of key] sorted fresh(2) recorded_as_snoc [OF "2.prems"(5) fresh(1)]]
    obtain now' placed' active' free' where "planning_ok now' ((placed @ [\<lparr>pl_key = key, pl_life = l, pl_slot = s\<rparr>]) @ placed') active' free' out"
        "map (\<lambda>p. (pl_key p, pl_life p)) placed' = values" "recorded_as result ((placed @ [\<lparr>pl_key = key, pl_life = l, pl_slot = s\<rparr>]) @ placed')"
      by blast
    then show ?thesis
      by (intro exI [of _ now'] exI [of _ "\<lparr>pl_key = key, pl_life = l, pl_slot = s\<rparr> # placed'"] exI [of _ active'] exI [of _ free']) simp
  qed
qed


section \<open>The finished plan\<close>

definition planner_ok :: "'k::linorder scratch_planner \<Rightarrow> bool" where
  "planner_ok values \<longleftrightarrow> keys_ascending values \<and> (\<forall>v\<in>set values. 0 < sl_bytes (snd v) \<and> sl_first (snd v) \<le> sl_last (snd v))"

lemma set_bt_entry_new:
  "map_of values k = None \<Longrightarrow> set (bt_entry k d (\<lambda>_. d) values) = insert (k, d) (set values)"
  by (induction "values") (auto split: if_splits)

lemma scratch_insert_new:
  assumes "scratch_insert key bytes first final values = (Inr u, values')" "planner_ok values"
  shows "planner_ok values' \<and> set values' = insert (key, \<lparr>sl_bytes = bytes, sl_first = first, sl_last = final\<rparr>) (set values)
    \<and> key \<notin> fst ` set values"
  using assms
  by (auto simp: scratch_insert_def planner_ok_def Let_def set_bt_entry_new ascending_bt_entry map_of_eq_None_iff split: if_splits)

text \<open>A rejected duplicate has already replaced the lifetime of the earlier value.\<close>

lemma scratch_insert_duplicate_replaces:
  assumes "planner_ok values" "map_of values key = Some old" "0 < bytes" "first \<le> final"
  shows "\<exists>e values'. scratch_insert key bytes first final values = (Inl e, values')
    \<and> map_of values' key = Some \<lparr>sl_bytes = bytes, sl_first = first, sl_last = final\<rparr>"
  using assms by (auto simp: scratch_insert_def Let_def planner_ok_def map_of_bt_entry)

lemma insert_values_ok:
  "insert_values ins values = Inr values' \<Longrightarrow> planner_ok values \<Longrightarrow>
    planner_ok values' \<and> set values' = set values \<union> (\<lambda>(k, b, f, x). (k, \<lparr>sl_bytes = b, sl_first = f, sl_last = x\<rparr>)) ` set ins"
proof (induction ins "values" rule: insert_values.induct)
  case (2 key bytes first final ins "values")
  obtain r v where i: "scratch_insert key bytes first final values = (r, v)" by fastforce
  with "2.prems"(1) obtain u where r: "r = Inr u" "insert_values ins v = Inr values'" by (auto split: sum.splits)
  from scratch_insert_new [OF i [unfolded r] "2.prems"(2)] "2.IH" [OF i [symmetric] r] show ?case by auto
qed simp

lemma scratch_finish_placed:
  assumes ok: "planner_ok values"
  obtains now placed active free where "planning_ok now placed active free (sp_slots (scratch_finish values))"
    "(\<lambda>p. (pl_key p, pl_life p)) ` set placed = set values" "distinct (map pl_key placed)" "recorded_as (sp_assignments (scratch_finish values)) placed"
proof -
  let ?vs = "sort_key planning_key values"
  obtain result out where r: "plan_values ?vs [] [] [] [] = (result, out)" by fastforce
  have "sorted (map planning_key ?vs)" by simp
  then have "sorted_wrt (\<lambda>v w. sl_first (snd v) \<le> sl_first (snd w)) ?vs"
    unfolding sorted_map by (rule sorted_wrt_mono_rel [rotated]) (auto simp: planning_key_def less_eq_prod_def)
  then have sorted: "sorted (0 # map (sl_first \<circ> snd) ?vs)" by (simp add: sorted_map)
  have dis: "distinct (map fst ?vs)"
    using ascending_distinct [of "values"] ok by (metis distinct_map planner_ok_def distinct_sort set_sort)
  then have "distinct (map pl_key ([] :: 'a placement list) @ map fst ?vs)" by simp
  from plan_values_ok [OF r planning_ok_start sorted this] obtain now placed active free
    where p: "planning_ok now placed active free out" "map (\<lambda>p. (pl_key p, pl_life p)) placed = ?vs" "recorded_as result placed"
    by (auto simp: recorded_as_def)
  have "map pl_key placed = map fst ?vs" by (simp add: p(2) [symmetric])
  then have "distinct (map pl_key placed)" using dis by simp
  moreover have "(\<lambda>p. (pl_key p, pl_life p)) ` set placed = set values" using arg_cong [OF p(2), of set] by simp
  moreover have "sp_slots (scratch_finish values) = out" "sp_assignments (scratch_finish values) = result" using r by (simp_all add: scratch_finish_def)
  ultimately show ?thesis using that p by simp
qed


text \<open>
  C6: when every value was inserted without an error, the plan gives every value a slot at least as large as the value; two values alive at the
  same time never share a slot; every slot has the size of a value assigned to it; a key that was not inserted has no slot.
\<close>

theorem scratch_plan_sound:
  fixes ins :: "('k::linorder \<times> usize \<times> usize \<times> usize) list"
  assumes ins: "insert_values ins [] = Inr values"
  shows "(\<forall>(k, bytes, first, final)\<in>set ins. \<exists>s. plan_slot (scratch_finish values) k = Inr s \<and> s < length (sp_slots (scratch_finish values))
            \<and> bytes \<le> sp_slots (scratch_finish values) ! s)
    \<and> (\<forall>(k, bytes, first, final)\<in>set ins. \<forall>(k', bytes', first', final')\<in>set ins. k \<noteq> k' \<longrightarrow> first \<le> final' \<longrightarrow> first' \<le> final \<longrightarrow>
         plan_slot (scratch_finish values) k \<noteq> plan_slot (scratch_finish values) k')
    \<and> (\<forall>s<length (sp_slots (scratch_finish values)). \<exists>(k, bytes, first, final)\<in>set ins. plan_slot (scratch_finish values) k = Inr s
         \<and> bytes = sp_slots (scratch_finish values) ! s)
    \<and> (\<forall>k. k \<notin> fst ` set ins \<longrightarrow> (\<exists>e. plan_slot (scratch_finish values) k = Inl e))"
proof -
  have v: "planner_ok values" "set values = (\<lambda>(k, b, f, x). (k, \<lparr>sl_bytes = b, sl_first = f, sl_last = x\<rparr>)) ` set ins"
    using insert_values_ok [OF ins] by (simp_all add: planner_ok_def)
  obtain now placed active free where p: "planning_ok now placed active free (sp_slots (scratch_finish values))"
    "(\<lambda>p. (pl_key p, pl_life p)) ` set placed = set values" "distinct (map pl_key placed)" "recorded_as (sp_assignments (scratch_finish values)) placed"
    by (rule scratch_finish_placed [OF v(1)])
  let ?plan = "scratch_finish values"
  have slot: "plan_slot ?plan (pl_key q) = Inr (pl_slot q)" if "q \<in> set placed" for q
  proof -
    have "map_of (placement_slots placed) (pl_key q) = Some (pl_slot q)" using p(3) that by (intro map_of_is_SomeI) (auto simp: comp_def)
    then show ?thesis using p(4) by (simp add: plan_slot_def recorded_as_def)
  qed
  have fits: "pl_slot q < length (sp_slots ?plan) \<and> sl_bytes (pl_life q) \<le> sp_slots ?plan ! pl_slot q" if "q \<in> set placed" for q
    using p(1) that by (simp add: planning_ok_def placed_ok_def)
  have apart: "pl_slot q \<noteq> pl_slot q'" if "q \<in> set placed" "q' \<in> set placed" "q \<noteq> q'" "sl_first (pl_life q) \<le> sl_last (pl_life q')"
      "sl_first (pl_life q') \<le> sl_last (pl_life q)" for q q'
  proof -
    have "ended_before q q' \<or> ended_before q' q"
      using p(1) that(1-3) unfolding planning_ok_def sorted_wrt_iff_nth_less by (metis in_set_conv_nth linorder_neqE_nat)
    then show ?thesis using that(4,5) by (auto simp: ended_before_def)
  qed
  have of: "\<exists>q\<in>set placed. pl_key q = k \<and> pl_life q = \<lparr>sl_bytes = b, sl_first = f, sl_last = x\<rparr>" if "(k, b, f, x) \<in> set ins" for k b f x
  proof -
    have "(k, \<lparr>sl_bytes = b, sl_first = f, sl_last = x\<rparr>) \<in> (\<lambda>p. (pl_key p, pl_life p)) ` set placed"
      unfolding p(2) v(2) by (rule image_eqI [OF _ that]) simp
    then show ?thesis by auto
  qed
  have made: "\<exists>(k, bytes, first, final)\<in>set ins. plan_slot ?plan k = Inr s \<and> bytes = sp_slots ?plan ! s" if s: "s < length (sp_slots ?plan)" for s
  proof -
    obtain q where q: "q \<in> set placed" "pl_slot q = s" "sl_bytes (pl_life q) = sp_slots ?plan ! s" using p(1) s unfolding planning_ok_def by blast
    then have "(pl_key q, pl_life q) \<in> set values" using p(2) by blast
    then obtain b f x where b: "(pl_key q, b, f, x) \<in> set ins" "pl_life q = \<lparr>sl_bytes = b, sl_first = f, sl_last = x\<rparr>" using v(2) by auto
    then show ?thesis using q slot [OF q(1)] by (intro bexI [OF _ b(1)]) simp
  qed
  have none: "\<exists>e. plan_slot ?plan k = Inl e" if k: "k \<notin> fst ` set ins" for k
  proof -
    have "fst ` set values = fst ` set ins" unfolding v(2) image_image by (rule image_cong) auto
    then have "k \<notin> fst ` set values" using k by simp
    moreover have "pl_key ` set placed = fst ` set values" unfolding p(2) [symmetric] image_image by simp
    ultimately have "k \<notin> pl_key ` set placed" by simp
    then have "map_of (placement_slots placed) k = None" by (auto simp: map_of_eq_None_iff)
    then show ?thesis using p(4) by (simp add: plan_slot_def recorded_as_def)
  qed
  have all: "\<exists>s. plan_slot ?plan k = Inr s \<and> s < length (sp_slots ?plan) \<and> b \<le> sp_slots ?plan ! s" if mem: "(k, b, f, x) \<in> set ins" for k b f x
  proof -
    obtain q where q: "q \<in> set placed" "pl_key q = k" "pl_life q = \<lparr>sl_bytes = b, sl_first = f, sl_last = x\<rparr>" using of [OF mem] by blast
    then show ?thesis using slot [OF q(1)] fits [OF q(1)] by simp
  qed
  have differ: "plan_slot ?plan k \<noteq> plan_slot ?plan k'"
    if mem: "(k, b, f, x) \<in> set ins" "(k', b', f', x') \<in> set ins" "k \<noteq> k'" "f \<le> x'" "f' \<le> x" for k b f x k' b' f' x'
  proof -
    obtain q where q: "q \<in> set placed" "pl_key q = k" "pl_life q = \<lparr>sl_bytes = b, sl_first = f, sl_last = x\<rparr>" using of [OF mem(1)] by blast
    obtain q' where q': "q' \<in> set placed" "pl_key q' = k'" "pl_life q' = \<lparr>sl_bytes = b', sl_first = f', sl_last = x'\<rparr>" using of [OF mem(2)] by blast
    have "pl_slot q \<noteq> pl_slot q'" by (rule apart [OF q(1) q'(1)]) (use q q' mem in auto)
    then show ?thesis using slot [OF q(1)] slot [OF q'(1)] q q' by simp
  qed
  show ?thesis using all differ made none by blast
qed

text \<open>Four values with the lifetimes 0--1, 1--2, 2--3 and 3--3: two slots serve them.\<close>

theorem scratch_plan_sound_witness:
  "\<exists>vs. insert_values [(0::nat, 8, 0, 1), (1, 16, 1, 2), (2, 4, 2, 3), (3, 7, 3, 3)] [] = Inr vs
    \<and> plan_slot (scratch_finish vs) 0 \<noteq> plan_slot (scratch_finish vs) 1"
proof -
  obtain vs where v: "insert_values [(0::nat, 8, 0, 1), (1, 16, 1, 2), (2, 4, 2, 3), (3, 7, 3, 3)] [] = Inr vs"
    by (simp add: scratch_insert_def Let_def)
  then show ?thesis using scratch_plan_sound [OF v, THEN conjunct2, THEN conjunct1] by auto
qed

end
