(* ===== verification/Model_Session.thy ===== *)
theory Model_Session
  imports Access_Graph Stream_Commands
begin

text \<open>
  Resident model sessions, \<^verbatim>\<open>src/src/loom/model.rs\<close>: checked regions of owned allocations, loaded kernels, recorded graphs, uploads,
  replays and combined readback. What the stream, its graphs and the kernel cache answer is the record \<open>model_env\<close>, an argument of each operation.
\<close>


section \<open>Regions and commands\<close>

record mregion =
  mr_session :: nat
  mr_allocation :: nat
  mr_offset :: usize
  mr_bytes :: usize

definition region_is_empty :: "mregion \<Rightarrow> bool" where
  "region_is_empty r \<longleftrightarrow> mr_bytes r = 0"

definition region_slice :: "mregion \<Rightarrow> usize \<Rightarrow> usize \<Rightarrow> mregion result" where
  "region_slice r offset bytes =
     (case checked_add offset bytes of
        None \<Rightarrow> Inl (Message ''model region size overflow'')
      | Some stop \<Rightarrow>
          if stop > mr_bytes r then Inl (Message ''model region exceeds its parent'')
          else case checked_add (mr_offset r) offset of
            None \<Rightarrow> Inl (Message ''model region offset overflow'')
          | Some at \<Rightarrow> Inr (r\<lparr>mr_offset := at, mr_bytes := bytes\<rparr>))"

record mbinding =
  mb_region :: mregion
  mb_access :: access

definition region_read :: "mregion \<Rightarrow> mbinding" where
  "region_read r = \<lparr>mb_region = r, mb_access = Read\<rparr>"

definition region_write :: "mregion \<Rightarrow> mbinding" where
  "region_write r = \<lparr>mb_region = r, mb_access = Write\<rparr>"

definition region_read_write :: "mregion \<Rightarrow> mbinding" where
  "region_read_write r = \<lparr>mb_region = r, mb_access = ReadWrite\<rparr>"

record kernel_id =
  ki_session :: nat
  ki_index :: nat

datatype arguments = Indices "nat list" | Packed constants

record model_dispatch =
  di_kernel :: kernel_id
  di_arguments :: arguments
  di_grid :: dims
  di_bindings :: "mbinding list"

datatype model_command = MFill mregion nat | MDispatch model_dispatch

datatype prepared_command = PFill mregion nat | PDispatch kernel_id constants dims "mbinding list"

record model_kernel =
  mk_info :: export_info
  mk_device :: nat
  mk_code :: nat

datatype placement = OnDevice | OnHost

record allocation =
  al_buffer :: gpu_buffer
  al_placement :: placement
  al_immutable :: bool

record 'c prepared_graph =
  pg_executable :: "'c list"
  pg_commands :: "prepared_command list"

record 'c model_session =
  ms_id :: nat
  ms_allocations :: "allocation list"
  ms_kernels :: "model_kernel list"
  ms_graphs :: "nat \<rightharpoonup> 'c prepared_graph"
  ms_readback :: "gpu_buffer option"
  ms_failed :: bool

text \<open>
  What the session calls. \<open>me_pointer\<close> is \<open>device_ptr\<close>, \<open>None\<close> for a null pointer; \<open>me_compiled\<close> the kernels the cache resolves for a batch of requests.
\<close>

record 'c model_env =
  me_allocate :: "usize \<Rightarrow> gpu_buffer result"
  me_allocate_shared :: "usize \<Rightarrow> gpu_buffer result"
  me_upload :: "gview \<Rightarrow> nat list \<Rightarrow> unit result"
  me_launch :: "'c list \<Rightarrow> unit result"
  me_synchronize :: "unit result"
  me_copy :: "gview \<Rightarrow> gview \<Rightarrow> unit result"
  me_pointer :: "gpu_buffer \<Rightarrow> usize option result"
  me_compiled :: "model_kernel list result"
  me_graph :: "'c access_graph result"
  me_graph_fill :: "gview \<Rightarrow> nat \<Rightarrow> 'c result"
  me_graph_dispatch :: "model_kernel \<times> dims \<times> dims \<times> constants \<Rightarrow> gview list \<Rightarrow> 'c result"
  me_batch :: "('c \<times> bool) list \<Rightarrow> string list option \<Rightarrow> 'c list result"
  me_pm4 :: bool
  me_fill :: "gview \<Rightarrow> nat \<Rightarrow> unit result"
  me_dispatch :: "model_kernel \<times> dims \<times> dims \<times> constants \<Rightarrow> gview list \<Rightarrow> unit result"


section \<open>Checks\<close>

text \<open>The targets are those of the compiler and of the stream; \<open>fresh_id\<close> is the next session number.\<close>

definition with_stream :: "string \<Rightarrow> string \<Rightarrow> nat \<Rightarrow> 'c model_session result" where
  "with_stream compiler_target stream_target fresh_id =
     (if compiler_target \<noteq> stream_target
      then Inl (Message (''compiler target '' @ compiler_target @ '' does not match device target '' @ stream_target))
      else Inr \<lparr>ms_id = fresh_id, ms_allocations = [], ms_kernels = [], ms_graphs = Map.empty, ms_readback = None, ms_failed = False\<rparr>)"

definition usable :: "'c model_session \<Rightarrow> unit result" where
  "usable s = (if ms_failed s then Inl (Message ''model session is unusable after a GPU failure'') else Inr ())"

definition validate_region :: "'c model_session \<Rightarrow> mregion \<Rightarrow> unit result" where
  "validate_region s r =
     (if mr_session r \<noteq> ms_id s then Inl (Message ''model region belongs to another session'')
      else if mr_allocation r \<ge> length (ms_allocations s) then Inl (Message ''invalid model allocation'')
      else case checked_add (mr_offset r) (mr_bytes r) of
        None \<Rightarrow> Inl (Message ''model region size overflow'')
      | Some stop \<Rightarrow>
          if stop > gb_bytes (al_buffer (ms_allocations s ! mr_allocation r))
          then Inl (Message ''model region exceeds its allocation'') else Inr ())"

definition region_view :: "'c model_session \<Rightarrow> mregion \<Rightarrow> gview result" where
  "region_view s r =
     and_then (validate_region s r) (\<lambda>_. try_slice (al_buffer (ms_allocations s ! mr_allocation r)) (mr_offset r) (mr_bytes r))"

definition session_kernel :: "'c model_session \<Rightarrow> kernel_id \<Rightarrow> model_kernel result" where
  "session_kernel s k =
     (if ki_session k \<noteq> ms_id s then Inl (Message ''model kernel belongs to another session'')
      else if ki_index k < length (ms_kernels s) then Inr (ms_kernels s ! ki_index k)
      else Inl (Message ''invalid model kernel''))"

definition argument_constants :: "model_kernel \<Rightarrow> arguments \<Rightarrow> constants result" where
  "argument_constants k a = (case a of Indices vs \<Rightarrow> constants_indices (ei_constant_bytes (mk_info k)) vs | Packed c \<Rightarrow> Inr c)"

definition prepare_command :: "'c model_session \<Rightarrow> model_command \<Rightarrow> prepared_command result" where
  "prepare_command s c =
     (case c of
        MFill r v \<Rightarrow>
          and_then (validate_region s r) (\<lambda>_.
            if region_is_empty r then Inl (Message ''cannot record an empty model fill'') else Inr (PFill r v))
      | MDispatch d \<Rightarrow>
          and_then (session_kernel s (di_kernel d)) (\<lambda>k.
          and_then (try_all (\<lambda>b. validate_region s (mb_region b)) (di_bindings d)) (\<lambda>_.
          and_then (argument_constants k (di_arguments d)) (\<lambda>cs.
            Inr (PDispatch (di_kernel d) cs (di_grid d) (di_bindings d))))))"

definition prepare_commands :: "'c model_session \<Rightarrow> model_command list \<Rightarrow> prepared_command list result" where
  "prepare_commands s cs = map_result (prepare_command s) cs"


section \<open>Allocation, kernels and graphs\<close>

definition allocate_region :: "'c model_env \<Rightarrow> usize \<Rightarrow> placement \<Rightarrow> 'c model_session \<Rightarrow> mregion result \<times> 'c model_session" where
  "allocate_region env bytes place s =
     (case and_then (usable s) (\<lambda>_. case place of OnDevice \<Rightarrow> me_allocate env bytes | OnHost \<Rightarrow> me_allocate_shared env bytes) of
        Inl e \<Rightarrow> (Inl e, s)
      | Inr b \<Rightarrow>
          (Inr \<lparr>mr_session = ms_id s, mr_allocation = length (ms_allocations s), mr_offset = 0, mr_bytes = bytes\<rparr>,
           s\<lparr>ms_allocations := ms_allocations s @ [\<lparr>al_buffer = b, al_placement = place, al_immutable = False\<rparr>]\<rparr>))"

text \<open>A native failure makes the session unusable.\<close>

definition fail_on :: "'a result \<Rightarrow> 'c model_session \<Rightarrow> 'a result \<times> 'c model_session" where
  "fail_on r s = (r, if is_ok r then s else s\<lparr>ms_failed := True\<rparr>)"

definition model_upload :: "'c model_env \<Rightarrow> mregion \<Rightarrow> nat list \<Rightarrow> 'c model_session \<Rightarrow> unit result \<times> 'c model_session" where
  "model_upload env r bytes s =
     (case and_then (usable s) (\<lambda>_.
             if length bytes > mr_bytes r then Inl (Message ''upload exceeds model region'')
             else and_then (validate_region s r) (\<lambda>_.
                  and_then (try_slice (al_buffer (ms_allocations s ! mr_allocation r)) (mr_offset r) (mr_bytes r)) (\<lambda>v.
                    gview_slice v 0 (length bytes)))) of
        Inl e \<Rightarrow> (Inl e, s)
      | Inr v \<Rightarrow> fail_on (me_upload env v bytes) s)"

definition weight :: "'c model_env \<Rightarrow> nat list \<Rightarrow> 'c model_session \<Rightarrow> mregion result \<times> 'c model_session" where
  "weight env bytes s =
     (case allocate_region env (length bytes) OnDevice s of
        (Inl e, s1) \<Rightarrow> (Inl e, s1)
      | (Inr r, s1) \<Rightarrow>
          (case model_upload env r bytes s1 of
             (Inl e, s2) \<Rightarrow> (Inl e, s2)
           | (Inr _, s2) \<Rightarrow>
               (Inr r, s2\<lparr>ms_allocations := (ms_allocations s2)[mr_allocation r := (ms_allocations s2 ! mr_allocation r)\<lparr>al_immutable := True\<rparr>]\<rparr>)))"

definition model_synchronize :: "'c model_env \<Rightarrow> 'c model_session \<Rightarrow> unit result \<times> 'c model_session" where
  "model_synchronize env s = (case usable s of Inl e \<Rightarrow> (Inl e, s) | Inr _ \<Rightarrow> fail_on (me_synchronize env) s)"

definition model_compile :: "'c model_env \<Rightarrow> 'c model_session \<Rightarrow> kernel_id list result \<times> 'c model_session" where
  "model_compile env s =
     (case and_then (usable s) (\<lambda>_. me_compiled env) of
        Inl e \<Rightarrow> (Inl e, s)
      | Inr loaded \<Rightarrow>
          (case model_synchronize env s of
             (Inl e, s1) \<Rightarrow> (Inl e, s1)
           | (Inr _, s1) \<Rightarrow>
               (Inr (map (\<lambda>i. \<lparr>ki_session = ms_id s1, ki_index = i\<rparr>) [length (ms_kernels s1)..<length (ms_kernels s1) + length loaded]),
                s1\<lparr>ms_kernels := ms_kernels s1 @ loaded\<rparr>)))"

definition is_recorded :: "nat \<Rightarrow> 'c model_session \<Rightarrow> bool" where
  "is_recorded key s \<longleftrightarrow> ms_graphs s key \<noteq> None"

text \<open>Recording the prepared commands on an access graph; the graph is local and lost on an error.\<close>

definition binding_view :: "'c model_session \<Rightarrow> mbinding \<Rightarrow> access_view result" where
  "binding_view s b = and_then (region_view s (mb_region b)) (\<lambda>v. Inr \<lparr>av_view = v, av_access = mb_access b\<rparr>)"

fun record_commands :: "'c model_env \<Rightarrow> 'c model_session \<Rightarrow> prepared_command list \<Rightarrow> 'c access_graph \<Rightarrow> 'c access_graph result" where
  "record_commands env s [] g = Inr g"
| "record_commands env s (PFill r v # cs) g =
     and_then (region_view s r) (\<lambda>dst.
       case ag_fill (me_graph_fill env) g dst v of (g1, Inl e) \<Rightarrow> Inl e | (g1, Inr _) \<Rightarrow> record_commands env s cs g1)"
| "record_commands env s (PDispatch k consts grid bs # cs) g =
     and_then (session_kernel s k) (\<lambda>kn.
     and_then (map_result (binding_view s) bs) (\<lambda>views.
       case ag_dispatch (me_graph_dispatch env) g (kn, grid, ei_workgroup_size (mk_info kn), consts) views of
         (g1, Inl e) \<Rightarrow> Inl e
       | (g1, Inr _) \<Rightarrow> record_commands env s cs g1))"

definition model_record :: "'c model_env \<Rightarrow> nat \<Rightarrow> model_command list \<Rightarrow> 'c model_session \<Rightarrow> unit result \<times> 'c model_session" where
  "model_record env key cs s =
     (case and_then (usable s) (\<lambda>_.
             if cs = [] then Inl (Message ''cannot record an empty model graph'')
             else if ms_graphs s key \<noteq> None then Inl (Message (''model graph key '' @ show_nat key @ '' is already recorded''))
             else and_then (prepare_commands s cs) (\<lambda>prepared.
                  and_then (me_graph env) (\<lambda>g.
                  and_then (record_commands env s prepared g) (\<lambda>g1.
                  and_then (ag_finish (me_batch env) (me_pm4 env) g1) (\<lambda>executable.
                    Inr \<lparr>pg_executable = executable, pg_commands = prepared\<rparr>))))) of
        Inl e \<Rightarrow> (Inl e, s)
      | Inr pg \<Rightarrow> (Inr (), s\<lparr>ms_graphs := (ms_graphs s)(key \<mapsto> pg)\<rparr>))"

definition model_replay :: "'c model_env \<Rightarrow> nat \<Rightarrow> 'c model_session \<Rightarrow> unit result \<times> 'c model_session" where
  "model_replay env key s =
     (case usable s of
        Inl e \<Rightarrow> (Inl e, s)
      | Inr _ \<Rightarrow>
          (case ms_graphs s key of
             None \<Rightarrow> (Inl (Message (''model graph key '' @ show_nat key @ '' is not recorded'')), s)
           | Some g \<Rightarrow> fail_on (me_launch env (pg_executable g)) s))"



section \<open>Readback\<close>

definition reserve_readback :: "'c model_env \<Rightarrow> usize \<Rightarrow> 'c model_session \<Rightarrow> unit result \<times> 'c model_session" where
  "reserve_readback env bytes s =
     (case usable s of
        Inl e \<Rightarrow> (Inl e, s)
      | Inr _ \<Rightarrow>
          if (case ms_readback s of None \<Rightarrow> True | Some b \<Rightarrow> gb_bytes b < bytes)
          then (case me_allocate_shared env bytes of
                  Inl e \<Rightarrow> (Inl e, s)
                | Inr b \<Rightarrow> (Inr (), s\<lparr>ms_readback := Some b\<rparr>))
          else (Inr (), s))"

text \<open>The first loop over the outputs, pairs of a region and the length of the caller's slice: the total length and whether all storage is shared.\<close>

fun readback_total :: "'c model_session \<Rightarrow> (mregion \<times> usize) list \<Rightarrow> usize \<Rightarrow> bool \<Rightarrow> (usize \<times> bool) result" where
  "readback_total s [] acc shared = Inr (acc, shared)"
| "readback_total s ((r, len) # outs) acc shared =
     and_then (validate_region s r) (\<lambda>_.
       if len > mr_bytes r then Inl (Message ''readback exceeds model region'')
       else case checked_add acc len of
         None \<Rightarrow> Inl (Message ''readback size overflow'')
       | Some acc1 \<Rightarrow>
           readback_total s outs acc1 (shared \<and> al_placement (ms_allocations s ! mr_allocation r) = OnHost))"

text \<open>A host read of \<open>len\<close> bytes of a coherent buffer at an offset, one per output; an empty slice reads nothing.\<close>

type_synonym host_read = "(gpu_buffer \<times> usize \<times> usize) option"

fun shared_reads :: "'c model_env \<Rightarrow> (mregion \<times> usize) list \<Rightarrow> 'c model_session \<Rightarrow> host_read list result \<times> 'c model_session" where
  "shared_reads env [] s = (Inr [], s)"
| "shared_reads env ((r, len) # outs) s =
     (if len = 0
      then (case shared_reads env outs s of (Inl e, s1) \<Rightarrow> (Inl e, s1) | (Inr xs, s1) \<Rightarrow> (Inr (None # xs), s1))
      else let b = al_buffer (ms_allocations s ! mr_allocation r)
      in case me_pointer env b of
           Inl e \<Rightarrow> (Inl e, s)
         | Inr None \<Rightarrow> (Inl (Message ''null shared model pointer''), s\<lparr>ms_failed := True\<rparr>)
         | Inr (Some _) \<Rightarrow>
             (case shared_reads env outs s of
                (Inl e, s1) \<Rightarrow> (Inl e, s1)
              | (Inr xs, s1) \<Rightarrow> (Inr (Some (b, mr_offset r, len) # xs), s1)))"

text \<open>The copies into the readback buffer, one behind the other; they are issued in this order.\<close>

fun readback_copies ::
  "'c model_env \<Rightarrow> gpu_buffer \<Rightarrow> usize \<Rightarrow> (mregion \<times> usize) list \<Rightarrow> 'c model_session \<Rightarrow> (gview \<times> gview) list result \<times> 'c model_session" where
  "readback_copies env b offset [] s = (Inr [], s)"
| "readback_copies env b offset ((r, len) # outs) s =
     (if len = 0 then readback_copies env b offset outs s
      else case try_slice (al_buffer (ms_allocations s ! mr_allocation r)) (mr_offset r) len of
        Inl e \<Rightarrow> (Inl e, s)
      | Inr source \<Rightarrow>
          (case try_slice b offset len of
             Inl e \<Rightarrow> (Inl e, s)
           | Inr target \<Rightarrow>
               (case me_copy env target source of
                  Inl e \<Rightarrow> (Inl e, s\<lparr>ms_failed := True\<rparr>)
                | Inr _ \<Rightarrow>
                    (case readback_copies env b (offset + len) outs s of
                       (Inl e, s1) \<Rightarrow> (Inl e, s1)
                     | (Inr cs, s1) \<Rightarrow> (Inr ((target, source) # cs), s1)))))"

fun staged_reads :: "gpu_buffer \<Rightarrow> usize \<Rightarrow> (mregion \<times> usize) list \<Rightarrow> host_read list" where
  "staged_reads b offset [] = []"
| "staged_reads b offset ((r, len) # outs) = (if len = 0 then None else Some (b, offset, len)) # staged_reads b (offset + len) outs"

text \<open>The copies that were issued and the host reads after the synchronization.\<close>

definition read_many ::
  "'c model_env \<Rightarrow> (mregion \<times> usize) list \<Rightarrow> 'c model_session \<Rightarrow> ((gview \<times> gview) list \<times> host_read list) result \<times> 'c model_session" where
  "read_many env outs s =
     (case and_then (usable s) (\<lambda>_. readback_total s outs 0 True) of
        Inl e \<Rightarrow> (Inl e, s)
      | Inr (acc, True) \<Rightarrow>
          (case model_synchronize env s of
             (Inl e, s1) \<Rightarrow> (Inl e, s1)
           | (Inr _, s1) \<Rightarrow>
               (case shared_reads env outs s1 of (Inl e, s2) \<Rightarrow> (Inl e, s2) | (Inr xs, s2) \<Rightarrow> (Inr ([], xs), s2)))
      | Inr (acc, False) \<Rightarrow>
          (case reserve_readback env acc s of
             (Inl e, s1) \<Rightarrow> (Inl e, s1)
           | (Inr _, s1) \<Rightarrow>
               let b = the (ms_readback s1)
               in case readback_copies env b 0 outs s1 of
                    (Inl e, s2) \<Rightarrow> (Inl e, s2)
                  | (Inr copies, s2) \<Rightarrow>
                      (case model_synchronize env s2 of
                         (Inl e, s3) \<Rightarrow> (Inl e, s3)
                       | (Inr _, s3) \<Rightarrow>
                           if acc = 0 then (Inr (copies, map (\<lambda>_. None) outs), s3)
                           else case me_pointer env b of
                             Inl e \<Rightarrow> (Inl e, s3)
                           | Inr None \<Rightarrow> (Inl (Message ''null model readback pointer''), s3\<lparr>ms_failed := True\<rparr>)
                           | Inr (Some _) \<Rightarrow> (Inr (copies, staged_reads b 0 outs), s3))))"


section \<open>Direct execution and timing\<close>

fun execute_direct :: "'c model_env \<Rightarrow> 'c model_session \<Rightarrow> prepared_command list \<Rightarrow> unit result" where
  "execute_direct env s [] = Inr ()"
| "execute_direct env s (PFill r v # cs) =
     and_then (region_view s r) (\<lambda>dst. and_then (me_fill env dst v) (\<lambda>_. execute_direct env s cs))"
| "execute_direct env s (PDispatch k consts grid bs # cs) =
     and_then (session_kernel s k) (\<lambda>kn.
     and_then (map_result (\<lambda>b. region_view s (mb_region b)) bs) (\<lambda>views.
     and_then (me_dispatch env (kn, grid, ei_workgroup_size (mk_info kn), consts) views) (\<lambda>_. execute_direct env s cs)))"

text \<open>One timed run: mode 0 replays the graph, mode 1 issues the commands directly; both synchronize. \<open>envs\<close> gives the answers of each run.\<close>

definition timed_run :: "'c model_env \<Rightarrow> nat \<Rightarrow> prepared_command list \<Rightarrow> nat \<Rightarrow> 'c model_session \<Rightarrow> unit result \<times> 'c model_session" where
  "timed_run env key cs mode s =
     (case (if mode = 0 then model_replay env key s else fail_on (execute_direct env s cs) s) of
        (Inl e, s1) \<Rightarrow> (Inl e, s1)
      | (Inr _, s1) \<Rightarrow> model_synchronize env s1)"

fun timed_runs ::
  "(nat \<times> nat \<Rightarrow> 'c model_env) \<Rightarrow> nat \<Rightarrow> prepared_command list \<Rightarrow> (nat \<times> nat) list \<Rightarrow> nat list \<Rightarrow> 'c model_session
     \<Rightarrow> nat list result \<times> 'c model_session" where
  "timed_runs envs key cs [] measured s = (Inr measured, s)"
| "timed_runs envs key cs ((i, mode) # runs) measured s =
     (case timed_run (envs (i, mode)) key cs mode s of
        (Inl e, s1) \<Rightarrow> (Inl e, s1)
      | (Inr _, s1) \<Rightarrow> timed_runs envs key cs runs (if i \<ge> 10 then measured @ [mode] else measured) s1)"

text \<open>\<open>benchmark\<close> without the clock: the modes of the measured runs in order.\<close>

definition benchmark :: "(nat \<times> nat \<Rightarrow> 'c model_env) \<Rightarrow> nat \<Rightarrow> nat \<Rightarrow> 'c model_session \<Rightarrow> nat list result \<times> 'c model_session" where
  "benchmark envs key samples s =
     (if samples < 10 then (Inl (Message ''use at least ten model timing samples''), s)
      else case usable s of
        Inl e \<Rightarrow> (Inl e, s)
      | Inr _ \<Rightarrow>
          (case ms_graphs s key of
             None \<Rightarrow> (Inl (Message (''model graph key '' @ show_nat key @ '' is not recorded'')), s)
           | Some g \<Rightarrow>
               timed_runs envs key (pg_commands g)
                 (concat (map (\<lambda>i. [(i, i mod 2), (i, 1 - i mod 2)]) [0..<samples + 10])) [] s))"

text \<open>\<open>profile_commands\<close>: a warm-up and the samples of each command; the result names the command of every measured run.\<close>

fun profile_runs :: "(nat \<times> nat \<Rightarrow> 'c model_env) \<Rightarrow> ((nat \<times> prepared_command) \<times> nat) list \<Rightarrow> nat list \<Rightarrow> 'c model_session \<Rightarrow> nat list result \<times> 'c model_session" where
  "profile_runs envs [] measured s = (Inr measured, s)"
| "profile_runs envs (((i, c), n) # runs) measured s =
     (case timed_run (envs (i, n)) 0 [c] 1 s of
        (Inl e, s1) \<Rightarrow> (Inl e, s1)
      | (Inr _, s1) \<Rightarrow> profile_runs envs runs (if n = 0 then measured else measured @ [i]) s1)"

definition profile_commands :: "(nat \<times> nat \<Rightarrow> 'c model_env) \<Rightarrow> nat \<Rightarrow> nat \<Rightarrow> 'c model_session \<Rightarrow> nat list result \<times> 'c model_session" where
  "profile_commands envs key samples s =
     (if samples = 0 then (Inl (Message ''use at least one command timing sample''), s)
      else case usable s of
        Inl e \<Rightarrow> (Inl e, s)
      | Inr _ \<Rightarrow>
          (case ms_graphs s key of
             None \<Rightarrow> (Inl (Message (''model graph key '' @ show_nat key @ '' is not recorded'')), s)
           | Some g \<Rightarrow>
               profile_runs envs (concat (map (\<lambda>ic. map (Pair ic) [0..<samples + 1]) (zip [0..<length (pg_commands g)] (pg_commands g)))) [] s))"

section \<open>Handles stay valid\<close>

lemma region_slice_Inr:
  "region_slice r offset bytes = Inr r' \<longleftrightarrow>
     offset + bytes \<le> usize_MAX \<and> offset + bytes \<le> mr_bytes r \<and> mr_offset r + offset \<le> usize_MAX
     \<and> r' = r\<lparr>mr_offset := mr_offset r + offset, mr_bytes := bytes\<rparr>"
  by (auto simp: region_slice_def split: option.splits)

lemma validate_region_ok:
  "validate_region s r = Inr () \<longleftrightarrow> mr_session r = ms_id s \<and> mr_allocation r < length (ms_allocations s)
     \<and> mr_offset r + mr_bytes r \<le> usize_MAX \<and> mr_offset r + mr_bytes r \<le> gb_bytes (al_buffer (ms_allocations s ! mr_allocation r))"
  by (auto simp: validate_region_def split: option.splits)

lemma region_view_Inr:
  "region_view s r = Inr v \<longleftrightarrow> validate_region s r = Inr ()
     \<and> v = \<lparr>gv_owner = al_buffer (ms_allocations s ! mr_allocation r), gv_offset = mr_offset r, gv_length = mr_bytes r\<rparr>"
  by (auto simp: region_view_def and_then_Inr_iff validate_region_ok try_slice_def gview_slice_Inr binding_def)

text \<open>A slice of a valid region is valid and stays inside it.\<close>

lemma region_slice_valid:
  assumes "validate_region s r = Inr ()" "region_slice r offset bytes = Inr r'"
  shows "validate_region s r' = Inr () \<and> mr_offset r \<le> mr_offset r' \<and> mr_offset r' + mr_bytes r' \<le> mr_offset r + mr_bytes r"
  using assms by (auto simp: region_slice_Inr validate_region_ok)

text \<open>Operations only add: allocations keep their buffers, kernels and graphs stay, a failure is final.\<close>

definition grows :: "'c model_session \<Rightarrow> 'c model_session \<Rightarrow> bool" where
  "grows s t \<longleftrightarrow> ms_id t = ms_id s \<and> length (ms_allocations s) \<le> length (ms_allocations t)
     \<and> (\<forall>i<length (ms_allocations s). al_buffer (ms_allocations t ! i) = al_buffer (ms_allocations s ! i)
          \<and> al_placement (ms_allocations t ! i) = al_placement (ms_allocations s ! i)
          \<and> (al_immutable (ms_allocations s ! i) \<longrightarrow> al_immutable (ms_allocations t ! i)))
     \<and> (\<exists>ks. ms_kernels t = ms_kernels s @ ks) \<and> ms_graphs s \<subseteq>\<^sub>m ms_graphs t \<and> (ms_failed s \<longrightarrow> ms_failed t)"

lemma grows_refl [simp]: "grows s s"
  by (simp add: grows_def)

lemma grows_trans: "grows s t \<Longrightarrow> grows t u \<Longrightarrow> grows s u"
  by (auto simp: grows_def intro: map_le_trans)

lemma grows_failed [simp]: "grows s (s\<lparr>ms_failed := True\<rparr>)"
  by (simp add: grows_def)

lemma grows_readback [simp]: "grows s (s\<lparr>ms_readback := b\<rparr>)"
  by (simp add: grows_def)

lemma grows_then_failed: "grows s t \<Longrightarrow> grows s (t\<lparr>ms_failed := True\<rparr>)"
  by (rule grows_trans [OF _ grows_failed])

lemma grows_valid: "grows s t \<Longrightarrow> validate_region s r = Inr () \<Longrightarrow> validate_region t r = Inr ()"
  by (simp add: grows_def validate_region_ok)

lemma fail_on_grows: "fail_on r s = (r', t) \<Longrightarrow> grows s t"
  by (auto simp: fail_on_def split: if_splits)

lemma allocate_region_grows: "allocate_region env bytes place s = (r, t) \<Longrightarrow> grows s t"
  by (auto simp: allocate_region_def grows_def nth_append split: sum.splits)

lemma model_upload_grows: "model_upload env r bytes s = (out, t) \<Longrightarrow> grows s t"
  by (auto simp: model_upload_def split: sum.splits dest: fail_on_grows)

lemma grows_immutable:
  "grows s (s\<lparr>ms_allocations := (ms_allocations s)[i := (ms_allocations s ! i)\<lparr>al_immutable := True\<rparr>]\<rparr>)"
  by (cases "i < length (ms_allocations s)") (auto simp: grows_def nth_list_update)

lemma weight_grows: "weight env bytes s = (out, t) \<Longrightarrow> grows s t"
  by (auto simp: weight_def split: prod.splits sum.splits
      dest!: allocate_region_grows model_upload_grows intro: grows_trans grows_immutable)

lemma model_synchronize_grows: "model_synchronize env s = (out, t) \<Longrightarrow> grows s t"
  by (auto simp: model_synchronize_def split: sum.splits dest: fail_on_grows)

lemma model_compile_grows: "model_compile env s = (out, t) \<Longrightarrow> grows s t"
proof -
  have k: "grows u (u\<lparr>ms_kernels := ms_kernels u @ ks\<rparr>)" for u :: "'a model_session" and ks by (simp add: grows_def)
  show "model_compile env s = (out, t) \<Longrightarrow> grows s t"
    by (auto simp: model_compile_def split: prod.splits sum.splits dest!: model_synchronize_grows intro: grows_trans k)
qed

lemma model_record_grows: "model_record env key cs s = (out, t) \<Longrightarrow> grows s t"
  by (auto simp: model_record_def grows_def map_le_def and_then_Inr_iff split: sum.splits if_splits)

lemma model_replay_grows: "model_replay env key s = (out, t) \<Longrightarrow> grows s t"
  by (auto simp: model_replay_def split: sum.splits option.splits dest: fail_on_grows)

lemma reserve_readback_grows: "reserve_readback env bytes s = (out, t) \<Longrightarrow> grows s t"
  by (auto simp: reserve_readback_def split: sum.splits if_splits)

lemma shared_reads_state: "shared_reads env outs s = (out, t) \<Longrightarrow> t = s \<or> t = s\<lparr>ms_failed := True\<rparr>"
  by (induction env outs s arbitrary: out t rule: shared_reads.induct)
    (auto simp: Let_def split: if_splits prod.splits sum.splits option.splits)

lemma readback_copies_state: "readback_copies env b offset outs s = (out, t) \<Longrightarrow> t = s \<or> t = s\<lparr>ms_failed := True\<rparr>"
  by (induction env b offset outs s arbitrary: out t rule: readback_copies.induct)
    (auto split: if_splits prod.splits sum.splits)

lemma read_many_grows: "read_many env outs s = (out, t) \<Longrightarrow> grows s t"
proof -
  have sr: "grows u v" if "shared_reads env xs u = (r, v)" for xs u v r using shared_reads_state [OF that] by auto
  have rc: "grows u v" if "readback_copies env b n xs u = (r, v)" for b n xs u v r using readback_copies_state [OF that] by auto
  show "read_many env outs s = (out, t) \<Longrightarrow> grows s t"
    unfolding read_many_def Let_def
    by (auto split: sum.splits prod.splits bool.splits if_splits option.splits
        dest!: model_synchronize_grows reserve_readback_grows sr rc intro!: grows_then_failed intro: grows_trans)
qed

lemma timed_run_grows: "timed_run env key cs mode s = (out, t) \<Longrightarrow> grows s t"
  by (auto simp: timed_run_def split: prod.splits sum.splits if_splits
      dest!: model_synchronize_grows model_replay_grows fail_on_grows intro: grows_trans)

lemma timed_runs_grows: "timed_runs envs key cs runs measured s = (out, t) \<Longrightarrow> grows s t"
proof (induction envs key cs runs measured s arbitrary: out t rule: timed_runs.induct)
  case (2 envs key cs i mode runs measured s)
  obtain r u where u: "timed_run (envs (i, mode)) key cs mode s = (r, u)" by fastforce
  note g = timed_run_grows [OF u]
  show ?case
  proof (cases r)
    case (Inr x)
    from "2.IH" [OF u [symmetric] Inr] "2.prems" u Inr show ?thesis using grows_trans [OF g] by simp
  qed (use "2.prems" u g in simp)
qed simp

lemma profile_runs_grows: "profile_runs envs runs measured s = (out, t) \<Longrightarrow> grows s t"
proof (induction envs runs measured s arbitrary: out t rule: profile_runs.induct)
  case (2 envs i c n runs measured s)
  obtain r u where u: "timed_run (envs (i, n)) 0 [c] 1 s = (r, u)" by fastforce
  note g = timed_run_grows [OF u]
  show ?case
  proof (cases r)
    case (Inr x)
    from "2.IH" [OF u [symmetric] Inr] "2.prems" u Inr show ?thesis using grows_trans [OF g] by simp
  qed (use "2.prems" u g in simp)
qed simp

lemma timing_grows:
  "benchmark envs key samples s = (out, t) \<Longrightarrow> grows s t" "profile_commands envs key samples s = (out, t) \<Longrightarrow> grows s t"
  by (auto simp: benchmark_def profile_commands_def split: if_splits sum.splits option.splits dest: timed_runs_grows profile_runs_grows)

text \<open>A successful benchmark measures each mode exactly \<open>samples\<close> times.\<close>

lemma timed_runs_measured:
  "timed_runs envs key cs runs measured s = (Inr out, t) \<Longrightarrow> out = measured @ map snd (filter (\<lambda>r. fst r \<ge> 10) runs)"
  by (induction envs key cs runs measured s rule: timed_runs.induct) (auto split: prod.splits sum.splits if_splits)

lemma alternating_count:
  "m = 0 \<or> m = 1 \<Longrightarrow>
   count_list (map snd (filter (\<lambda>r. fst r \<ge> 10) (concat (map (\<lambda>i. [(i, i mod 2), (i, 1 - i mod 2)]) [0..<n])))) m = n - 10" for n m :: nat
proof (induction n)
  case (Suc n)
  have "n mod 2 = 0 \<or> n mod 2 = 1" by auto
  then show ?case using Suc by (cases "n \<ge> 10") (auto simp: Suc_diff_le)
qed simp

lemma benchmark_balanced:
  assumes "benchmark envs key samples s = (Inr out, t)"
  shows "count_list out 0 = samples \<and> count_list out 1 = samples"
proof -
  have "\<exists>cs. timed_runs envs key cs (concat (map (\<lambda>i. [(i, i mod 2), (i, 1 - i mod 2)]) [0..<samples + 10])) [] s = (Inr out, t)"
    using assms unfolding benchmark_def by (simp split: if_splits sum.splits option.splits) blast
  then obtain cs where "timed_runs envs key cs (concat (map (\<lambda>i. [(i, i mod 2), (i, 1 - i mod 2)]) [0..<samples + 10])) [] s = (Inr out, t)" ..
  from timed_runs_measured [OF this] show ?thesis using alternating_count [of 0 "samples + 10"] alternating_count [of 1 "samples + 10"] by simp
qed

text \<open>A failed session refuses every operation and stays as it is.\<close>

lemma failed_refuses:
  assumes "ms_failed s"
  shows "\<exists>e. allocate_region env bytes place s = (Inl e, s)" "\<exists>e. model_upload env r data s = (Inl e, s)" "\<exists>e. weight env data s = (Inl e, s)"
    "\<exists>e. model_compile env s = (Inl e, s)" "\<exists>e. model_record env key cs s = (Inl e, s)" "\<exists>e. model_replay env key s = (Inl e, s)"
    "\<exists>e. model_synchronize env s = (Inl e, s)" "\<exists>e. reserve_readback env n s = (Inl e, s)" "\<exists>e. read_many env outs s = (Inl e, s)"
    "\<exists>e. benchmark envs key samples s = (Inl e, s)" "\<exists>e. profile_commands envs key samples s = (Inl e, s)"
  using assms
  by (simp_all add: allocate_region_def model_upload_def weight_def model_compile_def model_record_def model_replay_def model_synchronize_def
      reserve_readback_def read_many_def benchmark_def profile_commands_def usable_def)


section \<open>Recorded commands are ordered\<close>

definition command_bindings :: "model_command \<Rightarrow> mbinding list" where
  "command_bindings c = (case c of MFill r v \<Rightarrow> [region_write r] | MDispatch d \<Rightarrow> di_bindings d)"

text \<open>Two bindings conflict when they share a byte of one allocation and one of them writes.\<close>

definition bindings_conflict :: "mbinding \<Rightarrow> mbinding \<Rightarrow> bool" where
  "bindings_conflict a b \<longleftrightarrow> mr_allocation (mb_region a) = mr_allocation (mb_region b)
     \<and> max (mr_offset (mb_region a)) (mr_offset (mb_region b)) < min (mr_offset (mb_region a) + mr_bytes (mb_region a)) (mr_offset (mb_region b) + mr_bytes (mb_region b))
     \<and> (writes (mb_access a) \<or> writes (mb_access b))"

definition commands_conflict :: "model_command \<Rightarrow> model_command \<Rightarrow> bool" where
  "commands_conflict c d \<longleftrightarrow> (\<exists>a\<in>set (command_bindings c). \<exists>b\<in>set (command_bindings d). bindings_conflict a b)"

lemma binding_view_Inr:
  "binding_view s b = Inr v \<longleftrightarrow> validate_region s (mb_region b) = Inr ()
     \<and> v = \<lparr>av_view = \<lparr>gv_owner = al_buffer (ms_allocations s ! mr_allocation (mb_region b)), gv_offset = mr_offset (mb_region b),
                       gv_length = mr_bytes (mb_region b)\<rparr>, av_access = mb_access b\<rparr>"
  by (auto simp: binding_view_def and_then_Inr_iff region_view_Inr)

lemma binding_view_conflict:
  assumes "binding_view s a = Inr v" "binding_view s b = Inr w" "bindings_conflict a b"
  shows "uses_conflict (view_use v) (view_use w)"
proof -
  have "mr_offset (mb_region a) + mr_bytes (mb_region a) \<le> usize_MAX" "mr_offset (mb_region b) + mr_bytes (mb_region b) \<le> usize_MAX"
    using assms(1,2) by (simp_all add: binding_view_Inr validate_region_ok)
  then show ?thesis using assms
    by (auto simp: binding_view_Inr bindings_conflict_def uses_conflict_def uses_overlap_def view_use_def saturating_add_def)
qed

text \<open>Recording follows the commands one by one.\<close>

definition recorded_views :: "'c model_session \<Rightarrow> model_command \<Rightarrow> access_view list \<Rightarrow> bool" where
  "recorded_views s c vs \<longleftrightarrow> map_result (binding_view s) (command_bindings c) = Inr vs"

lemma record_commands_recording:
  assumes "record_commands env s prepared g = Inr g'" "map_result (prepare_command s) cs = Inr prepared"
    "recording (me_graph_fill env) pc (me_graph_dispatch env) g ops"
  shows "\<exists>vss. list_all2 (recorded_views s) cs vss \<and> recording (me_graph_fill env) pc (me_graph_dispatch env) g' (ops @ vss)"
  using assms
proof (induction env s prepared g arbitrary: cs ops rule: record_commands.induct)
  case (1 env s g)
  then show ?case by (auto simp: map_result_Inr)
next
  case (2 env s r v prepared g)
  from "2.prems"(2) obtain c cs' where cs: "cs = c # cs'" "prepare_command s c = Inr (PFill r v)" "map_result (prepare_command s) cs' = Inr prepared"
    by (auto simp: map_result_Inr list_all2_Cons2)
  then have c: "c = MFill r v" by (auto simp: prepare_command_def and_then_Inr_iff split: model_command.splits if_splits)
  from "2.prems"(1) obtain dst where d: "region_view s r = Inr dst"
      "(case ag_fill (me_graph_fill env) g dst v of (g1, Inl e) \<Rightarrow> Inl e | (g1, Inr _) \<Rightarrow> record_commands env s prepared g1) = Inr g'"
    by (auto simp: and_then_Inr_iff)
  then obtain g1 n where d: "region_view s r = Inr dst" "ag_fill (me_graph_fill env) g dst v = (g1, Inr n)" "record_commands env s prepared g1 = Inr g'"
    by (cases "ag_fill (me_graph_fill env) g dst v"; cases "snd (ag_fill (me_graph_fill env) g dst v)") auto
  have rec: "recording (me_graph_fill env) pc (me_graph_dispatch env) g1 (ops @ [[write_view dst]])" by (rule rec_fill [OF "2.prems"(3) d(2)])
  obtain vss where vss: "list_all2 (recorded_views s) cs' vss"
      "recording (me_graph_fill env) pc (me_graph_dispatch env) g' ((ops @ [[write_view dst]]) @ vss)"
    using "2.IH" [OF d(2) [symmetric] refl d(3) cs(3) rec] by blast
  have "recorded_views s c [write_view dst]"
    using d(1) by (simp add: recorded_views_def c command_bindings_def region_write_def binding_view_def write_view_def)
  then show ?case using vss cs(1) by (intro exI [of _ "[write_view dst] # vss"]) simp
next
  case (3 env s k cv grid bs prepared g)
  from "3.prems"(2) obtain c cs' where cs: "cs = c # cs'" "prepare_command s c = Inr (PDispatch k cv grid bs)"
      "map_result (prepare_command s) cs' = Inr prepared"
    by (auto simp: map_result_Inr list_all2_Cons2)
  then obtain d where c: "c = MDispatch d" "di_bindings d = bs"
    by (auto simp: prepare_command_def and_then_Inr_iff split: model_command.splits if_splits)
  from "3.prems"(1) obtain kn views where d: "session_kernel s k = Inr kn" "map_result (binding_view s) bs = Inr views"
      "(case ag_dispatch (me_graph_dispatch env) g (kn, grid, ei_workgroup_size (mk_info kn), cv) views of
          (g1, Inl e) \<Rightarrow> Inl e | (g1, Inr _) \<Rightarrow> record_commands env s prepared g1) = Inr g'"
    by (auto simp: and_then_Inr_iff)
  let ?dispatch = "ag_dispatch (me_graph_dispatch env) g (kn, grid, ei_workgroup_size (mk_info kn), cv) views"
  from d obtain g1 n where d: "session_kernel s k = Inr kn" "map_result (binding_view s) bs = Inr views" "?dispatch = (g1, Inr n)"
      "record_commands env s prepared g1 = Inr g'"
    by (cases ?dispatch; cases "snd ?dispatch") auto
  have rec: "recording (me_graph_fill env) pc (me_graph_dispatch env) g1 (ops @ [views])" by (rule rec_dispatch [OF "3.prems"(3) d(3)])
  obtain vss where vss: "list_all2 (recorded_views s) cs' vss"
      "recording (me_graph_fill env) pc (me_graph_dispatch env) g' ((ops @ [views]) @ vss)"
    using "3.IH" [OF d(3) [symmetric] refl d(4) cs(3) rec] by blast
  have "recorded_views s c views" using d(2) by (simp add: recorded_views_def c command_bindings_def)
  then show ?case using vss cs(1) by (intro exI [of _ "views # vss"]) simp
qed

lemma list_all2_partner: "list_all2 P xs ys \<Longrightarrow> x \<in> set xs \<Longrightarrow> \<exists>y\<in>set ys. P x y"
  by (induction rule: list_all2_induct) auto

lemma recorded_views_conflict:
  assumes "recorded_views s c vs" "recorded_views s d ws" "commands_conflict c d"
  shows "ops_conflict (map view_use vs) (map view_use ws)"
proof -
  obtain a b where ab: "a \<in> set (command_bindings c)" "b \<in> set (command_bindings d)" "bindings_conflict a b"
    using assms(3) by (auto simp: commands_conflict_def)
  obtain v where v: "v \<in> set vs" "binding_view s a = Inr v"
    using assms(1) list_all2_partner [OF _ ab(1)] by (auto simp: recorded_views_def map_result_Inr)
  obtain w where w: "w \<in> set ws" "binding_view s b = Inr w"
    using assms(2) list_all2_partner [OF _ ab(2)] by (auto simp: recorded_views_def map_result_Inr)
  show ?thesis unfolding ops_conflict_def using binding_view_conflict [OF v(2) w(2) ab(3)] v(1) w(1) by auto
qed

text \<open>
  The native command a model command stands for: the fill of exactly its region with its value, or the dispatch of its kernel with
  its grid, the compiled workgroup size, its packed arguments and the views of its bindings in order.
\<close>

definition view_of :: "'c model_session \<Rightarrow> mregion \<Rightarrow> gview" where
  "view_of s r = \<lparr>gv_owner = al_buffer (ms_allocations s ! mr_allocation r), gv_offset = mr_offset r, gv_length = mr_bytes r\<rparr>"

definition native_command :: "'c model_env \<Rightarrow> 'c model_session \<Rightarrow> model_command \<Rightarrow> 'c result" where
  "native_command env s c =
     (case c of
        MFill r v \<Rightarrow> me_graph_fill env (view_of s r) v
      | MDispatch d \<Rightarrow>
          let kn = ms_kernels s ! ki_index (di_kernel d)
          in and_then (argument_constants kn (di_arguments d)) (\<lambda>consts.
               me_graph_dispatch env (kn, di_grid d, ei_workgroup_size (mk_info kn), consts) (map (\<lambda>b. view_of s (mb_region b)) (di_bindings d))))"

lemma region_view_of: "region_view s r = Inr v \<Longrightarrow> v = view_of s r"
  by (simp add: region_view_Inr view_of_def)

lemma binding_views_of: "map_result (binding_view s) bs = Inr views \<Longrightarrow> map av_view views = map (\<lambda>b. view_of s (mb_region b)) bs"
  by (auto simp: map_result_Inr list_all2_conv_all_nth binding_view_Inr view_of_def intro!: nth_equalityI)

lemma ag_fill_node:
  "ag_fill pf g dst v = (g1, Inr n) \<Longrightarrow> \<exists>c. pf dst v = Inr c \<and> map fst (gr_nodes (ag_graph g1)) = map fst (gr_nodes (ag_graph g)) @ [Prepared c]"
  by (auto simp: ag_fill_def ag_dependencies_def ag_record_def graph_fill_def graph_record_def retain_bindings_def and_then_Inr_iff
      split: sum.splits prod.splits if_splits)

lemma ag_dispatch_node:
  "ag_dispatch pd g l vs = (g1, Inr n) \<Longrightarrow>
     \<exists>c. pd l (map av_view vs) = Inr c \<and> map fst (gr_nodes (ag_graph g1)) = map fst (gr_nodes (ag_graph g)) @ [Prepared c]"
  by (auto simp: ag_dispatch_def ag_dependencies_def ag_record_def graph_dispatch_def graph_record_def retain_bindings_def and_then_Inr_iff
      split: sum.splits prod.splits if_splits)

lemma record_commands_nodes:
  assumes "record_commands env s prepared g = Inr g'" "map_result (prepare_command s) cs = Inr prepared"
  shows "\<exists>ns. list_all2 (\<lambda>c n. native_command env s c = Inr n) cs ns
    \<and> map fst (gr_nodes (ag_graph g')) = map fst (gr_nodes (ag_graph g)) @ map Prepared ns"
  using assms
proof (induction env s prepared g arbitrary: cs rule: record_commands.induct)
  case (1 env s g)
  then show ?case by (auto simp: map_result_Inr)
next
  case (2 env s r v prepared g)
  from "2.prems"(2) obtain c cs' where cs: "cs = c # cs'" "prepare_command s c = Inr (PFill r v)" "map_result (prepare_command s) cs' = Inr prepared"
    by (auto simp: map_result_Inr list_all2_Cons2)
  then have c: "c = MFill r v" by (auto simp: prepare_command_def and_then_Inr_iff split: model_command.splits if_splits)
  from "2.prems"(1) obtain dst where dst: "region_view s r = Inr dst"
      "(case ag_fill (me_graph_fill env) g dst v of (g1, Inl e) \<Rightarrow> Inl e | (g1, Inr _) \<Rightarrow> record_commands env s prepared g1) = Inr g'"
    by (auto simp: and_then_Inr_iff)
  then obtain g1 n where d: "ag_fill (me_graph_fill env) g dst v = (g1, Inr n)" "record_commands env s prepared g1 = Inr g'"
    by (cases "ag_fill (me_graph_fill env) g dst v"; cases "snd (ag_fill (me_graph_fill env) g dst v)") auto
  obtain x where x: "me_graph_fill env dst v = Inr x" "map fst (gr_nodes (ag_graph g1)) = map fst (gr_nodes (ag_graph g)) @ [Prepared x]"
    using ag_fill_node [OF d(1)] by blast
  obtain ns where ns: "list_all2 (\<lambda>c n. native_command env s c = Inr n) cs' ns"
      "map fst (gr_nodes (ag_graph g')) = map fst (gr_nodes (ag_graph g1)) @ map Prepared ns"
    using "2.IH" [OF d(1) [symmetric] refl d(2) cs(3)] by blast
  have "native_command env s c = Inr x" using x(1) region_view_of [OF dst(1)] by (simp add: native_command_def c)
  then show ?case using ns x(2) cs(1) by (intro exI [of _ "x # ns"]) simp
next
  case (3 env s k cv grid bs prepared g)
  from "3.prems"(2) obtain c cs' where cs: "cs = c # cs'" "prepare_command s c = Inr (PDispatch k cv grid bs)"
      "map_result (prepare_command s) cs' = Inr prepared"
    by (auto simp: map_result_Inr list_all2_Cons2)
  then obtain e where c: "c = MDispatch e" "di_bindings e = bs" "di_grid e = grid" "di_kernel e = k"
      "\<exists>kn. session_kernel s k = Inr kn \<and> argument_constants kn (di_arguments e) = Inr cv"
    by (auto simp: prepare_command_def and_then_Inr_iff split: model_command.splits if_splits)
  from "3.prems"(1) obtain kn views where d: "session_kernel s k = Inr kn" "map_result (binding_view s) bs = Inr views"
      "(case ag_dispatch (me_graph_dispatch env) g (kn, grid, ei_workgroup_size (mk_info kn), cv) views of
          (g1, Inl e) \<Rightarrow> Inl e | (g1, Inr _) \<Rightarrow> record_commands env s prepared g1) = Inr g'"
    by (auto simp: and_then_Inr_iff)
  let ?dispatch = "ag_dispatch (me_graph_dispatch env) g (kn, grid, ei_workgroup_size (mk_info kn), cv) views"
  from d(3) obtain g1 n where g1: "?dispatch = (g1, Inr n)" "record_commands env s prepared g1 = Inr g'"
    by (cases ?dispatch; cases "snd ?dispatch") auto
  obtain x where x: "me_graph_dispatch env (kn, grid, ei_workgroup_size (mk_info kn), cv) (map av_view views) = Inr x"
      "map fst (gr_nodes (ag_graph g1)) = map fst (gr_nodes (ag_graph g)) @ [Prepared x]"
    using ag_dispatch_node [OF g1(1)] by blast
  obtain ns where ns: "list_all2 (\<lambda>c n. native_command env s c = Inr n) cs' ns"
      "map fst (gr_nodes (ag_graph g')) = map fst (gr_nodes (ag_graph g1)) @ map Prepared ns"
    using "3.IH" [OF g1(1) [symmetric] refl g1(2) cs(3)] by blast
  have "kn = ms_kernels s ! ki_index k" using d(1) by (auto simp: session_kernel_def split: if_splits)
  then have "native_command env s c = Inr x"
    using x(1) binding_views_of [OF d(2)] c d(1) by (auto simp: native_command_def and_then_Inr_iff Let_def)
  then show ?case using ns x(2) cs(1) by (intro exI [of _ "x # ns"]) simp
qed

lemma ordered_natives: "map fst nodes = map Prepared ns \<Longrightarrow> map fst (order_commands i j nodes) = ns"
proof (induction nodes arbitrary: ns i j)
  case (Cons node nodes)
  then obtain n ns' d where "ns = n # ns'" "node = (Prepared n, d)" "map fst nodes = map Prepared ns'" by (cases node) auto
  then show ?case using Cons.IH by (simp add: Let_def)
qed simp

text \<open>
  C8: recording a model graph on a fresh access graph lowers the commands to a list of native commands with barrier flags. The list has
  one entry per model command, in order, each the native command its own model command stands for (same region and value, or same kernel, grid,
  workgroup size, arguments and bindings); for any two commands that share a byte of one allocation, at least one of them writing, a
  barrier lies after the earlier and at or before the later command. What is stored, under its key only, is what the native
  batching makes of that flagged list on a stream of PM4 compute and compute copies, and the native commands themselves in this order, to be submitted one by one, on
  the other engines. The other graphs, allocations and kernels are unchanged.
\<close>

theorem model_graph_ordered:
  assumes rec: "model_record env key cs s = (Inr (), t)" and fresh: "me_graph env = Inr (new_access_graph gid dev)"
  shows "\<exists>ordered executable prepared. list_all2 (\<lambda>c n. native_command env s c = Inr (fst n)) cs ordered
    \<and> (\<forall>i j. i < j \<longrightarrow> j < length cs \<longrightarrow> commands_conflict (cs ! i) (cs ! j) \<longrightarrow> (\<exists>k. i < k \<and> k \<le> j \<and> snd (ordered ! k)))
    \<and> (if me_pm4 env then me_batch env ordered None = Inr executable else executable = map fst ordered)
    \<and> prepare_commands s cs = Inr prepared \<and> ms_graphs s key = None
    \<and> t = s\<lparr>ms_graphs := (ms_graphs s)(key \<mapsto> \<lparr>pg_executable = executable, pg_commands = prepared\<rparr>)\<rparr>"
proof -
  let ?pc = "\<lambda>_ _. Inl (Message [])"
  obtain prepared g executable where p: "prepare_commands s cs = Inr prepared"
      "record_commands env s prepared (new_access_graph gid dev) = Inr g" "ag_finish (me_batch env) (me_pm4 env) g = Inr executable"
      "ms_graphs s key = None" "t = s\<lparr>ms_graphs := (ms_graphs s)(key \<mapsto> \<lparr>pg_executable = executable, pg_commands = prepared\<rparr>)\<rparr>"
    using rec fresh by (auto simp: model_record_def and_then_Inr_iff split: sum.splits if_splits)
  let ?ordered = "order_commands 0 0 (gr_nodes (ag_graph g))"
  obtain vss where vss: "list_all2 (recorded_views s) cs vss" "recording (me_graph_fill env) ?pc (me_graph_dispatch env) g ([] @ vss)"
    using record_commands_recording [OF p(2) p(1) [unfolded prepare_commands_def] rec_start] by blast
  have m: "mirrors (ag_graph g) (ag_frontier g) (ag_nodes g) (ops_uses vss)" using recording_mirrors [OF vss(2)] by simp
  have len: "length cs = length vss" using vss(1) by (rule list_all2_lengthD)
  obtain ns where ns: "list_all2 (\<lambda>c n. native_command env s c = Inr n) cs ns" "map fst (gr_nodes (ag_graph g)) = map Prepared ns"
    using record_commands_nodes [OF p(2) p(1) [unfolded prepare_commands_def]] by (auto simp: new_access_graph_def owned_graph_def)
  have "map fst ?ordered = ns" by (rule ordered_natives [OF ns(2)])
  then have "list_all2 (\<lambda>c n. native_command env s c = Inr (fst n)) cs ?ordered" using ns(1) by (auto simp: list_all2_map2)
  moreover have "\<exists>k. i < k \<and> k \<le> j \<and> snd (?ordered ! k)"
    if "i < j" "j < length cs" "commands_conflict (cs ! i) (cs ! j)" for i j
  proof -
    have "ops_conflict (map view_use (vss ! i)) (map view_use (vss ! j))"
      using vss(1) that by (intro recorded_views_conflict) (auto simp: list_all2_conv_all_nth)
    then show ?thesis using mirrors_barrier [OF m that(1)] that len by simp
  qed
  moreover have "if me_pm4 env then me_batch env ?ordered None = Inr executable else executable = map fst ?ordered"
    using p(3) by (auto simp: ag_finish_def graph_finish_def Let_def split: if_splits)
  ultimately show ?thesis using p(1,4,5) by blast
qed


section \<open>Readback returns the regions\<close>

text \<open>Device memory: the bytes of every buffer, by the address of its handle.\<close>

type_synonym device_memory = "usize \<Rightarrow> nat \<Rightarrow> nat"

definition run_copy :: "gview \<times> gview \<Rightarrow> device_memory \<Rightarrow> device_memory" where
  "run_copy c m = m(gb_addr (gv_owner (fst c)) := (\<lambda>i.
     if gv_offset (fst c) \<le> i \<and> i < gv_offset (fst c) + gv_length (fst c)
     then m (gb_addr (gv_owner (snd c))) (gv_offset (snd c) + (i - gv_offset (fst c)))
     else m (gb_addr (gv_owner (fst c))) i))"

definition run_copies :: "(gview \<times> gview) list \<Rightarrow> device_memory \<Rightarrow> device_memory" where
  "run_copies cs m = fold run_copy cs m"

definition host_bytes :: "device_memory \<Rightarrow> host_read \<Rightarrow> nat list" where
  "host_bytes m r = (case r of None \<Rightarrow> [] | Some (b, offset, len) \<Rightarrow> map (m (gb_addr b)) [offset..<offset + len])"

definition region_bytes :: "'c model_session \<Rightarrow> device_memory \<Rightarrow> mregion \<times> usize \<Rightarrow> nat list" where
  "region_bytes s m out = map (m (gb_addr (al_buffer (ms_allocations s ! mr_allocation (fst out))))) [mr_offset (fst out)..<mr_offset (fst out) + snd out]"

text \<open>The buffers a session owns are distinct; the readback buffer is none of its allocations.\<close>

definition addresses :: "'c model_session \<Rightarrow> usize list" where
  "addresses s = map (gb_addr \<circ> al_buffer) (ms_allocations s) @ (case ms_readback s of None \<Rightarrow> [] | Some b \<Rightarrow> [gb_addr b])"

definition model_ok :: "'c model_session \<Rightarrow> bool" where
  "model_ok s \<longleftrightarrow> distinct (addresses s)"

text \<open>An allocation returns a live buffer other than those the session holds.\<close>

definition env_fresh :: "'c model_env \<Rightarrow> 'c model_session \<Rightarrow> bool" where
  "env_fresh env s \<longleftrightarrow> (\<forall>n b. me_allocate env n = Inr b \<or> me_allocate_shared env n = Inr b \<longrightarrow> gb_addr b \<notin> set (addresses s) \<and> n \<le> gb_bytes b)"

lemma readback_copies_exact:
  assumes "readback_copies env b offset outs s = (Inr cs, t)"
    "\<forall>out\<in>set outs. gb_addr (al_buffer (ms_allocations s ! mr_allocation (fst out))) \<noteq> gb_addr b"
  shows "(\<forall>a. a \<noteq> gb_addr b \<longrightarrow> run_copies cs m a = m a) \<and> (\<forall>i<offset. run_copies cs m (gb_addr b) i = m (gb_addr b) i)
    \<and> map (host_bytes (run_copies cs m)) (staged_reads b offset outs) = map (region_bytes s m) outs"
  using assms
proof (induction env b offset outs s arbitrary: cs t m rule: readback_copies.induct)
  case (1 env b offset s)
  then show ?case by (simp add: run_copies_def)
next
  case (2 env b offset r len outs s)
  let ?A = "gb_addr (al_buffer (ms_allocations s ! mr_allocation r))"
  show ?case
  proof (cases "len = 0")
    case True
    then show ?thesis using "2.IH"(1) [OF True] "2.prems" by (simp add: host_bytes_def region_bytes_def)
  next
    case False
    obtain source where src: "try_slice (al_buffer (ms_allocations s ! mr_allocation r)) (mr_offset r) len = Inr source"
      using "2.prems"(1) False by (auto split: sum.splits)
    obtain target where tgt: "try_slice b offset len = Inr target" using "2.prems"(1) False src by (auto split: sum.splits)
    obtain u where u: "me_copy env target source = Inr u" using "2.prems"(1) False src tgt by (auto split: sum.splits)
    obtain x s1 where rc: "readback_copies env b (offset + len) outs s = (x, s1)" by fastforce
    obtain cs' where cs: "x = Inr cs'" "cs = (target, source) # cs'"
      using "2.prems"(1) False src tgt u rc by (auto split: sum.splits)
    let ?m = "run_copy (target, source) m"
    have sv: "source = \<lparr>gv_owner = al_buffer (ms_allocations s ! mr_allocation r), gv_offset = mr_offset r, gv_length = len\<rparr>"
      "target = \<lparr>gv_owner = b, gv_offset = offset, gv_length = len\<rparr>"
      using src tgt by (simp_all add: try_slice_def gview_slice_Inr binding_def)
    have other: "?m a = m a" if "a \<noteq> gb_addr b" for a using that by (simp add: run_copy_def sv)
    have old: "?m (gb_addr b) i = m (gb_addr b) i" if "i < offset" for i using that by (simp add: run_copy_def sv)
    have moved: "?m (gb_addr b) i = m ?A (mr_offset r + (i - offset))" if "offset \<le> i" "i < offset + len" for i
      using that by (simp add: run_copy_def sv)
    note IH = "2.IH"(2) [OF False src tgt u rc [unfolded cs(1)], of ?m]
    have ih: "(\<forall>a. a \<noteq> gb_addr b \<longrightarrow> run_copies cs' ?m a = ?m a) \<and> (\<forall>i<offset + len. run_copies cs' ?m (gb_addr b) i = ?m (gb_addr b) i)
        \<and> map (host_bytes (run_copies cs' ?m)) (staged_reads b (offset + len) outs) = map (region_bytes s ?m) outs"
      by (rule IH) (use "2.prems"(2) in simp)
    have run: "run_copies cs m = run_copies cs' ?m" by (simp add: run_copies_def cs(2))
    have "host_bytes (run_copies cs m) (Some (b, offset, len)) = map (?m (gb_addr b)) [offset..<offset + len]"
      using ih by (simp add: host_bytes_def run)
    also have "\<dots> = map (m ?A) [mr_offset r..<mr_offset r + len]" by (rule nth_equalityI) (simp_all add: moved)
    finally have first: "host_bytes (run_copies cs m) (Some (b, offset, len)) = region_bytes s m (r, len)" by (simp add: region_bytes_def)
    have rest: "map (region_bytes s ?m) outs = map (region_bytes s m) outs"
      using "2.prems"(2) other by (auto simp: region_bytes_def)
    have "\<forall>a. a \<noteq> gb_addr b \<longrightarrow> run_copies cs m a = m a" using ih other by (simp add: run)
    moreover have "\<forall>i<offset. run_copies cs m (gb_addr b) i = m (gb_addr b) i" using ih old by (simp add: run)
    ultimately show ?thesis using first rest ih False by (simp add: run)
  qed
qed

lemma shared_reads_exact:
  assumes "shared_reads env outs s = (Inr xs, t)"
  shows "map (host_bytes m) xs = map (region_bytes s m) outs"
  using assms
proof (induction env outs s arbitrary: xs t rule: shared_reads.induct)
  case (2 env r len outs s)
  obtain y s1 where rest: "shared_reads env outs s = (y, s1)" by fastforce
  let ?b = "al_buffer (ms_allocations s ! mr_allocation r)"
  show ?case
  proof (cases "len = 0")
    case True
    then obtain ys where "y = Inr ys" "xs = None # ys" using "2.prems" rest by (auto split: sum.splits)
    then show ?thesis using "2.IH"(1) [OF True, of ys s1] rest True by (simp add: host_bytes_def region_bytes_def)
  next
    case False
    then obtain q ys where q: "me_pointer env ?b = Inr (Some q)" "y = Inr ys" "xs = Some (?b, mr_offset r, len) # ys"
      using "2.prems" rest by (auto simp: Let_def split: sum.splits option.splits)
    then show ?thesis using "2.IH"(2) [OF False refl q(1) refl, of ys s1] rest by (simp add: host_bytes_def region_bytes_def)
  qed
qed simp

text \<open>Histories of a session; each operation may see different answers, allocations are fresh.\<close>

inductive model_reach :: "'c model_session \<Rightarrow> bool" where
  mr_new: "with_stream compiler_target stream_target fresh_id = Inr s \<Longrightarrow> model_reach s"
| mr_allocate: "model_reach s \<Longrightarrow> env_fresh env s \<Longrightarrow> allocate_region env bytes place s = (r, t) \<Longrightarrow> model_reach t"
| mr_weight: "model_reach s \<Longrightarrow> env_fresh env s \<Longrightarrow> weight env data s = (r, t) \<Longrightarrow> model_reach t"
| mr_upload: "model_reach s \<Longrightarrow> model_upload env r data s = (out, t) \<Longrightarrow> model_reach t"
| mr_compile: "model_reach s \<Longrightarrow> model_compile env s = (out, t) \<Longrightarrow> model_reach t"
| mr_record: "model_reach s \<Longrightarrow> model_record env key cs s = (out, t) \<Longrightarrow> model_reach t"
| mr_replay: "model_reach s \<Longrightarrow> model_replay env key s = (out, t) \<Longrightarrow> model_reach t"
| mr_synchronize: "model_reach s \<Longrightarrow> model_synchronize env s = (out, t) \<Longrightarrow> model_reach t"
| mr_reserve: "model_reach s \<Longrightarrow> env_fresh env s \<Longrightarrow> reserve_readback env n s = (out, t) \<Longrightarrow> model_reach t"
| mr_read: "model_reach s \<Longrightarrow> env_fresh env s \<Longrightarrow> read_many env outs s = (out, t) \<Longrightarrow> model_reach t"
| mr_benchmark: "model_reach s \<Longrightarrow> benchmark envs key samples s = (out, t) \<Longrightarrow> model_reach t"
| mr_profile: "model_reach s \<Longrightarrow> profile_commands envs key samples s = (out, t) \<Longrightarrow> model_reach t"

text \<open>Operations that leave the buffers of a session alone.\<close>

definition same_buffers :: "'c model_session \<Rightarrow> 'c model_session \<Rightarrow> bool" where
  "same_buffers s t \<longleftrightarrow> ms_allocations t = ms_allocations s \<and> ms_readback t = ms_readback s"

lemma same_buffers_refl [simp]: "same_buffers s s" "same_buffers s (s\<lparr>ms_failed := True\<rparr>)" "same_buffers s (s\<lparr>ms_kernels := ks\<rparr>)"
    "same_buffers s (s\<lparr>ms_graphs := gs\<rparr>)"
  by (simp_all add: same_buffers_def)

lemma same_buffers_trans: "same_buffers s t \<Longrightarrow> same_buffers t u \<Longrightarrow> same_buffers s u"
  by (simp add: same_buffers_def)

lemma same_buffers_ok: "same_buffers s t \<Longrightarrow> model_ok s \<Longrightarrow> model_ok t"
  by (simp add: same_buffers_def model_ok_def addresses_def)

lemma fail_on_same: "fail_on r s = (r', t) \<Longrightarrow> same_buffers s t"
  by (auto simp: fail_on_def split: if_splits)

lemma model_upload_same: "model_upload env r data s = (out, t) \<Longrightarrow> same_buffers s t"
  by (auto simp: model_upload_def split: sum.splits dest: fail_on_same)

lemma model_synchronize_same: "model_synchronize env s = (out, t) \<Longrightarrow> same_buffers s t"
  by (auto simp: model_synchronize_def split: sum.splits dest: fail_on_same)

lemma model_replay_same: "model_replay env key s = (out, t) \<Longrightarrow> same_buffers s t"
  by (auto simp: model_replay_def split: sum.splits option.splits dest: fail_on_same)

lemma model_record_same: "model_record env key cs s = (out, t) \<Longrightarrow> same_buffers s t"
  by (auto simp: model_record_def split: sum.splits)

lemma model_compile_same: "model_compile env s = (out, t) \<Longrightarrow> same_buffers s t"
  by (auto simp: model_compile_def split: sum.splits prod.splits dest!: model_synchronize_same intro: same_buffers_trans)

lemma timed_run_same: "timed_run env key cs mode s = (out, t) \<Longrightarrow> same_buffers s t"
  by (auto simp: timed_run_def split: prod.splits sum.splits if_splits
      dest!: model_synchronize_same model_replay_same fail_on_same intro: same_buffers_trans)

lemma timed_runs_same: "timed_runs envs key cs runs measured s = (out, t) \<Longrightarrow> same_buffers s t"
proof (induction envs key cs runs measured s arbitrary: out t rule: timed_runs.induct)
  case (2 envs key cs i mode runs measured s)
  obtain r u where u: "timed_run (envs (i, mode)) key cs mode s = (r, u)" by fastforce
  show ?case
  proof (cases r)
    case (Inr x)
    from "2.IH" [OF u [symmetric] Inr] "2.prems" u Inr show ?thesis using same_buffers_trans [OF timed_run_same [OF u]] by simp
  qed (use "2.prems" u timed_run_same [OF u] in simp)
qed simp

lemma profile_runs_same: "profile_runs envs runs measured s = (out, t) \<Longrightarrow> same_buffers s t"
proof (induction envs runs measured s arbitrary: out t rule: profile_runs.induct)
  case (2 envs i c n runs measured s)
  obtain r u where u: "timed_run (envs (i, n)) 0 [c] 1 s = (r, u)" by fastforce
  show ?case
  proof (cases r)
    case (Inr x)
    from "2.IH" [OF u [symmetric] Inr] "2.prems" u Inr show ?thesis using same_buffers_trans [OF timed_run_same [OF u]] by simp
  qed (use "2.prems" u timed_run_same [OF u] in simp)
qed simp

lemma timing_same:
  "benchmark envs key samples s = (out, t) \<Longrightarrow> same_buffers s t" "profile_commands envs key samples s = (out, t) \<Longrightarrow> same_buffers s t"
  by (auto simp: benchmark_def profile_commands_def split: if_splits sum.splits option.splits dest: timed_runs_same profile_runs_same)

lemma allocate_region_ok:
  assumes "model_ok s" "env_fresh env s" "allocate_region env bytes place s = (r, t)"
  shows "model_ok t"
proof (cases r)
  case (Inl e)
  then show ?thesis using assms(1,3) by (auto simp: allocate_region_def split: sum.splits)
next
  case (Inr x)
  obtain b where b: "me_allocate env bytes = Inr b \<or> me_allocate_shared env bytes = Inr b"
      "t = s\<lparr>ms_allocations := ms_allocations s @ [\<lparr>al_buffer = b, al_placement = place, al_immutable = False\<rparr>]\<rparr>"
    using assms(3) Inr by (auto simp: allocate_region_def and_then_Inr_iff split: sum.splits placement.splits)
  then have "gb_addr b \<notin> set (addresses s)" using assms(2) by (auto simp: env_fresh_def)
  then show ?thesis using assms(1) b(2) by (auto simp: model_ok_def addresses_def)
qed

lemma weight_ok:
  assumes "model_ok s" "env_fresh env s" "weight env data s = (r, t)"
  shows "model_ok t"
proof -
  obtain x s1 where a: "allocate_region env (length data) OnDevice s = (x, s1)" by fastforce
  have ok1: "model_ok s1" by (rule allocate_region_ok [OF assms(1,2) a])
  show ?thesis
  proof (cases x)
    case (Inl e)
    then show ?thesis using assms(3) a ok1 by (simp add: weight_def)
  next
    case (Inr r1)
    obtain y s2 where u: "model_upload env r1 data s1 = (y, s2)" by fastforce
    have ok2: "model_ok s2" by (rule same_buffers_ok [OF model_upload_same [OF u] ok1])
    have same: "map (gb_addr \<circ> al_buffer) (xs[i := (xs ! i)\<lparr>al_immutable := True\<rparr>]) = map (gb_addr \<circ> al_buffer) xs" for xs :: "allocation list" and i
      by (cases "i < length xs") (auto intro!: nth_equalityI simp: nth_list_update)
    have "addresses (s2\<lparr>ms_allocations := (ms_allocations s2)[i := (ms_allocations s2 ! i)\<lparr>al_immutable := True\<rparr>]\<rparr>) = addresses s2" for i
      by (simp add: addresses_def same)
    then show ?thesis using assms(3) a u ok2 Inr by (cases y) (auto simp: weight_def model_ok_def)
  qed
qed

lemma reserve_readback_ok:
  assumes "model_ok s" "env_fresh env s" "reserve_readback env n s = (r, t)"
  shows "model_ok t \<and> ms_allocations t = ms_allocations s \<and> (is_ok r \<longrightarrow> (\<exists>b. ms_readback t = Some b \<and> n \<le> gb_bytes b))"
proof -
  have "gb_addr b \<notin> set (addresses s) \<and> n \<le> gb_bytes b" if "me_allocate_shared env n = Inr b" for b using assms(2) that by (auto simp: env_fresh_def)
  then show ?thesis using assms(1,3)
    by (auto simp: reserve_readback_def usable_def model_ok_def addresses_def split: sum.splits if_splits option.splits)
qed

lemma readback_total_valid:
  "readback_total s outs acc shared = Inr x \<Longrightarrow> \<forall>out\<in>set outs. validate_region s (fst out) = Inr () \<and> snd out \<le> mr_bytes (fst out)"
  by (induction s outs acc shared rule: readback_total.induct) (auto simp: and_then_Inr_iff split: if_splits option.splits)

lemma readback_total_sum: "readback_total s outs acc shared = Inr (n, flag) \<Longrightarrow> n = acc + sum_list (map snd outs)"
  by (induction s outs acc shared rule: readback_total.induct) (auto simp: and_then_Inr_iff split: if_splits option.splits)

text \<open>The steps of a readback that succeeds.\<close>

lemma read_many_cases:
  assumes "read_many env outs s = (Inr (copies, seen), t)"
  obtains (shared) acc s1 where "readback_total s outs 0 True = Inr (acc, True)" "copies = []" "same_buffers s s1" "shared_reads env outs s1 = (Inr seen, t)"
  | (staged) acc s1 u s2 where "readback_total s outs 0 True = Inr (acc, False)" "reserve_readback env acc s = (Inr u, s1)"
      "readback_copies env (the (ms_readback s1)) 0 outs s1 = (Inr copies, s2)" "same_buffers s2 t"
      "seen = (if acc = 0 then map (\<lambda>_. None) outs else staged_reads (the (ms_readback s1)) 0 outs)"
proof -
  obtain acc flag where tot: "and_then (usable s) (\<lambda>_. readback_total s outs 0 True) = Inr (acc, flag)"
    using assms by (cases "and_then (usable s) (\<lambda>_. readback_total s outs 0 True)") (auto simp: read_many_def)
  then have tot': "readback_total s outs 0 True = Inr (acc, flag)" by (auto simp: and_then_Inr_iff)
  show ?thesis
  proof (cases flag)
    case True
    obtain x s1 where sy: "model_synchronize env s = (x, s1)" by fastforce
    have "x = Inr () \<and> copies = [] \<and> shared_reads env outs s1 = (Inr seen, t)"
      using assms tot True sy by (auto simp: read_many_def split: sum.splits prod.splits)
    then show ?thesis using shared [of acc s1] tot' True model_synchronize_same [OF sy] by simp
  next
    case False
    obtain x s1 where re: "reserve_readback env acc s = (x, s1)" by fastforce
    let ?b = "the (ms_readback s1)"
    obtain y s2 where rc: "readback_copies env ?b 0 outs s1 = (y, s2)" by fastforce
    obtain z s3 where sy: "model_synchronize env s2 = (z, s3)" by fastforce
    obtain u where x: "x = Inr u" using assms tot False re by (cases x) (auto simp: read_many_def)
    then have y: "y = Inr copies" using assms tot False re rc sy by (auto simp: read_many_def Let_def split: sum.splits if_splits option.splits)
    have "z = Inr () \<and> t = s3 \<and> seen = (if acc = 0 then map (\<lambda>_. None) outs else staged_reads ?b 0 outs)"
      using assms tot False re rc sy x y by (auto simp: read_many_def Let_def split: sum.splits if_splits option.splits)
    then show ?thesis using staged [of acc u s1 s2] tot' False re x rc y model_synchronize_same [OF sy] by simp
  qed
qed

lemma read_many_ok:
  assumes "model_ok s" "env_fresh env s" "read_many env outs s = (r, t)"
  shows "model_ok t"
proof -
  obtain u where u: "model_ok u" "same_buffers u t"
  proof (cases "and_then (usable s) (\<lambda>_. readback_total s outs 0 True)")
    case (Inl e)
    then show ?thesis using that [of s] assms by (simp add: read_many_def)
  next
    case (Inr p)
    obtain acc flag where p: "p = (acc, flag)" by fastforce
    have sh: "same_buffers v w" if "shared_reads env outs v = (x, w)" for v w x using shared_reads_state [OF that] by auto
    have rc: "same_buffers v w" if "readback_copies env b n outs v = (x, w)" for b n v w x using readback_copies_state [OF that] by auto
    show ?thesis
    proof (cases flag)
      case True
      have "same_buffers s t" using assms(3) Inr p True unfolding read_many_def
        by (auto split: sum.splits prod.splits dest!: model_synchronize_same sh intro: same_buffers_trans)
      then show ?thesis using that assms(1) by blast
    next
      case False
      obtain x s1 where re: "reserve_readback env acc s = (x, s1)" by fastforce
      have fl: "same_buffers v (w\<lparr>ms_failed := True\<rparr>)" if "same_buffers v w" for v w :: "'a model_session" using that by (simp add: same_buffers_def)
      have "same_buffers s1 t" using assms(3) Inr p False re unfolding read_many_def Let_def
        by (auto split: sum.splits prod.splits if_splits option.splits dest!: model_synchronize_same rc intro!: fl intro: same_buffers_trans)
      then show ?thesis using that reserve_readback_ok [OF assms(1,2) re] by blast
    qed
  qed
  then show ?thesis by (blast intro: same_buffers_ok)
qed

lemma model_reach_ok: "model_reach s \<Longrightarrow> model_ok s"
proof (induction rule: model_reach.induct)
  case (mr_new compiler_target stream_target fresh_id s)
  then show ?case by (auto simp: with_stream_def model_ok_def addresses_def split: if_splits)
qed (blast intro: allocate_region_ok weight_ok read_many_ok reserve_readback_ok [THEN conjunct1] same_buffers_ok
    model_upload_same model_compile_same model_record_same model_replay_same model_synchronize_same timing_same)+

text \<open>
  C24: in every reachable session, a successful combined readback returns for each requested output exactly the leading bytes of its region,
  whichever path it takes: after the issued copies have run in order, the bytes the host reads are those the regions held before, and no
  allocation of the session has changed.
\<close>

theorem model_read_exact:
  assumes "model_reach s" and "env_fresh env s" and rd: "read_many env outs s = (Inr (copies, seen), t)"
  shows "map (host_bytes (run_copies copies m)) seen = map (region_bytes s m) outs
    \<and> (\<forall>a\<in>set (ms_allocations s). run_copies copies m (gb_addr (al_buffer a)) = m (gb_addr (al_buffer a)))
    \<and> (\<forall>out\<in>set outs. validate_region t (fst out) = Inr () \<and> snd out \<le> mr_bytes (fst out))"
proof -
  have ok: "model_ok s" by (rule model_reach_ok [OF assms(1)])
  have valid: "\<forall>out\<in>set outs. validate_region s (fst out) = Inr () \<and> snd out \<le> mr_bytes (fst out)"
    by (rule read_many_cases [OF rd]) (use readback_total_valid in blast)+
  have later: "\<forall>out\<in>set outs. validate_region t (fst out) = Inr () \<and> snd out \<le> mr_bytes (fst out)"
    using valid grows_valid [OF read_many_grows [OF rd]] by blast
  show ?thesis
  proof (cases rule: read_many_cases [OF rd])
    case (1 acc s1)
    have "region_bytes s1 m = region_bytes s m" using 1(3) by (simp add: region_bytes_def same_buffers_def fun_eq_iff)
    then show ?thesis using shared_reads_exact [OF 1(4), of m] 1(2) later by (simp add: run_copies_def)
  next
    case (2 acc s1 u s2)
    let ?b = "the (ms_readback s1)"
    have s1: "model_ok s1" "ms_allocations s1 = ms_allocations s" "\<exists>b. ms_readback s1 = Some b"
      using reserve_readback_ok [OF ok assms(2) 2(2)] by auto
    have apart: "gb_addr (al_buffer a) \<noteq> gb_addr ?b" if "a \<in> set (ms_allocations s)" for a
      using s1 that by (auto simp: model_ok_def addresses_def)
    have same: "region_bytes s1 m = region_bytes s m" using s1(2) by (simp add: region_bytes_def fun_eq_iff)
    have "\<forall>out\<in>set outs. gb_addr (al_buffer (ms_allocations s1 ! mr_allocation (fst out))) \<noteq> gb_addr ?b"
      using valid apart s1(2) by (auto simp: validate_region_ok)
    note E = readback_copies_exact [OF 2(3) this, of m]
    have "map (host_bytes (run_copies copies m)) seen = map (region_bytes s m) outs"
    proof (cases "acc = 0")
      case True
      have "snd out = 0" if "out \<in> set outs" for out using readback_total_sum [OF 2(1)] that True by (simp add: sum_list_eq_0_iff)
      then show ?thesis using 2(5) True by (simp add: host_bytes_def region_bytes_def)
    next
      case False
      then show ?thesis using E 2(5) same by simp
    qed
    then show ?thesis using E apart later by blast
  qed
qed


section \<open>A small session\<close>

definition demo_model_env :: "usize \<Rightarrow> nat model_env" where
  "demo_model_env a =
     \<lparr>me_allocate = (\<lambda>n. Inr \<lparr>gb_addr = a, gb_native = a, gb_bytes = n, gb_device = 0, gb_reservation = None\<rparr>),
      me_allocate_shared = (\<lambda>n. Inr \<lparr>gb_addr = a, gb_native = a, gb_bytes = n, gb_device = 0, gb_reservation = None\<rparr>),
      me_upload = (\<lambda>_ _. Inr ()), me_launch = (\<lambda>_. Inr ()), me_synchronize = Inr (), me_copy = (\<lambda>_ _. Inr ()), me_pointer = (\<lambda>b. Inr (Some (gb_addr b))),
      me_compiled = Inr [], me_graph = Inr (new_access_graph 0 0), me_graph_fill = (\<lambda>_ p. Inr p), me_graph_dispatch = (\<lambda>_ _. Inr 0),
      me_batch = (\<lambda>cs _. Inr (map fst cs)), me_pm4 = True, me_fill = (\<lambda>_ _. Inr ()), me_dispatch = (\<lambda>_ _. Inr ())\<rparr>"

text \<open>Two allocations of 8 and 4 bytes, on the device and shared with the host.\<close>

definition demo_model :: "nat model_session" where
  "demo_model = snd (allocate_region (demo_model_env 2) 4 OnHost (snd (allocate_region (demo_model_env 1) 8 OnDevice
     \<lparr>ms_id = 7, ms_allocations = [], ms_kernels = [], ms_graphs = Map.empty, ms_readback = None, ms_failed = False\<rparr>)))"

definition demo_mregion :: "nat \<Rightarrow> usize \<Rightarrow> usize \<Rightarrow> mregion" where
  "demo_mregion i at n = \<lparr>mr_session = 7, mr_allocation = i, mr_offset = at, mr_bytes = n\<rparr>"

lemma demo_model_eq:
  "demo_model = \<lparr>ms_id = 7,
     ms_allocations = [\<lparr>al_buffer = \<lparr>gb_addr = 1, gb_native = 1, gb_bytes = 8, gb_device = 0, gb_reservation = None\<rparr>, al_placement = OnDevice, al_immutable = False\<rparr>,
       \<lparr>al_buffer = \<lparr>gb_addr = 2, gb_native = 2, gb_bytes = 4, gb_device = 0, gb_reservation = None\<rparr>, al_placement = OnHost, al_immutable = False\<rparr>],
     ms_kernels = [], ms_graphs = Map.empty, ms_readback = None, ms_failed = False\<rparr>"
  by (simp add: demo_model_def allocate_region_def demo_model_env_def usable_def)

lemma demo_model_reach: "model_reach demo_model"
proof -
  let ?s0 = "\<lparr>ms_id = 7, ms_allocations = [], ms_kernels = [], ms_graphs = Map.empty, ms_readback = None, ms_failed = False\<rparr> :: nat model_session"
  have "with_stream [] [] 7 = Inr ?s0" by (simp add: with_stream_def)
  then have r0: "model_reach ?s0" by (rule mr_new)
  have "env_fresh (demo_model_env 1) ?s0" by (simp add: env_fresh_def demo_model_env_def addresses_def)
  then have r1: "model_reach (snd (allocate_region (demo_model_env 1) 8 OnDevice ?s0))"
    using mr_allocate [OF r0] by (metis prod.collapse)
  have "env_fresh (demo_model_env 2) (snd (allocate_region (demo_model_env 1) 8 OnDevice ?s0))"
    by (simp add: env_fresh_def demo_model_env_def addresses_def allocate_region_def usable_def)
  then show ?thesis unfolding demo_model_def using mr_allocate [OF r1] by (metis prod.collapse)
qed

theorem model_read_exact_witness:
  "\<exists>copies seen t. read_many (demo_model_env 3) [(demo_mregion 0 2 4, 3), (demo_mregion 1 0 4, 2)] demo_model = (Inr (copies, seen), t)
    \<and> map (host_bytes (run_copies copies (\<lambda>a i. 10 * a + i))) seen = [[12, 13, 14], [20, 21]]"
proof -
  have "\<exists>copies seen t. read_many (demo_model_env 3) [(demo_mregion 0 2 4, 3), (demo_mregion 1 0 4, 2)] demo_model = (Inr (copies, seen), t)"
    by (simp add: read_many_def demo_model_eq usable_def validate_region_def demo_mregion_def checked_add_def usize_MAX_def reserve_readback_def
        demo_model_env_def Let_def try_slice_def gview_slice_def checked_span_def binding_def model_synchronize_def fail_on_def)
  then obtain copies seen t where rd: "read_many (demo_model_env 3) [(demo_mregion 0 2 4, 3), (demo_mregion 1 0 4, 2)] demo_model = (Inr (copies, seen), t)"
    by blast
  have fresh: "env_fresh (demo_model_env 3) demo_model" by (simp add: env_fresh_def demo_model_env_def demo_model_eq addresses_def)
  have "map (region_bytes demo_model (\<lambda>a i. 10 * a + i)) [(demo_mregion 0 2 4, 3), (demo_mregion 1 0 4, 2)] = [[12, 13, 14], [20, 21]]"
    by (simp add: region_bytes_def demo_model_eq demo_mregion_def upt_rec)
  then show ?thesis using model_read_exact [OF demo_model_reach fresh rd, of "\<lambda>a i. 10 * a + i"] rd by auto
qed

definition demo_write_use :: "usize \<Rightarrow> usize \<Rightarrow> iuse" where
  "demo_write_use start stop = \<lparr>u_alloc = 1, u_start = start, u_end = stop, u_access = Write\<rparr>"

lemma demo_model_dependencies:
  "\<exists>f g. dependencies Map.empty 0 [demo_write_use 0 4] = (f, []) \<and> dependencies f (Suc 0) [demo_write_use 2 6] = (g, [0])"
proof -
  have "snd (dependencies Map.empty 0 [demo_write_use 0 4]) = []"
    "snd (dependencies (fst (dependencies Map.empty 0 [demo_write_use 0 4])) (Suc 0) [demo_write_use 2 6]) = [0]"
    by code_simp+
  then show ?thesis by (metis prod.collapse)
qed

text \<open>A stream of PM4 compute whose batching marks the commands behind a barrier.\<close>

definition demo_batch_env :: "nat model_env" where
  "demo_batch_env = (demo_model_env 3)\<lparr>me_pm4 := True, me_batch := (\<lambda>xs _. Inr (map (\<lambda>(c, barrier). if barrier then 100 + c else c) xs))\<rparr>"

definition demo_fills :: "model_command list" where
  "demo_fills = [MFill (demo_mregion 0 0 4) 1, MFill (demo_mregion 0 2 4) 2]"

lemma demo_record_ok: "\<exists>t. model_record demo_batch_env 5 demo_fills demo_model = (Inr (), t)"
proof -
  obtain f g where d: "dependencies Map.empty 0 [demo_write_use 0 4] = (f, [])" "dependencies f (Suc 0) [demo_write_use 2 6] = (g, [0])"
    using demo_model_dependencies by blast
  note d' = d [unfolded demo_write_use_def]
  have v: "validate_region demo_model (demo_mregion 0 0 4) = Inr ()" "validate_region demo_model (demo_mregion 0 2 4) = Inr ()"
    by (simp_all add: validate_region_ok demo_model_eq demo_mregion_def usize_MAX_def)
  let ?v = "\<lambda>n. \<lparr>gv_owner = al_buffer (ms_allocations demo_model ! 0), gv_offset = n, gv_length = 4\<rparr>"
  have rv: "region_view demo_model (demo_mregion 0 0 4) = Inr (?v 0)" "region_view demo_model (demo_mregion 0 2 4) = Inr (?v 2)"
    using v by (simp_all add: region_view_Inr) (simp_all add: demo_mregion_def)
  have u: "view_use (write_view (?v 0)) = \<lparr>u_alloc = 1, u_start = 0, u_end = 4, u_access = Write\<rparr>"
    "view_use (write_view (?v 2)) = \<lparr>u_alloc = 1, u_start = 2, u_end = 6, u_access = Write\<rparr>"
    by (simp_all add: view_use_def write_view_def demo_model_eq saturating_add_def usize_MAX_def)
  have dev: "gb_device (al_buffer (ms_allocations demo_model ! 0)) = 0" by (simp add: demo_model_eq)
  let ?p = "[PFill (demo_mregion 0 0 4) 1, PFill (demo_mregion 0 2 4) 2]"
  have p: "prepare_commands demo_model demo_fills = Inr ?p"
    using v by (simp add: demo_fills_def prepare_commands_def prepare_command_def region_is_empty_def) (simp add: demo_mregion_def)
  have "\<exists>h. record_commands demo_batch_env demo_model ?p (new_access_graph 0 0) = Inr h"
    using d' u by (simp add: rv demo_batch_env_def demo_model_env_def ag_fill_def ag_dependencies_def ag_record_def graph_fill_def validate_dependencies_def owns_def
        gview_is_empty_def graph_record_def new_access_graph_def owned_graph_def u32_MAX_def retain_bindings_def dev)
  then obtain h where h: "record_commands demo_batch_env demo_model ?p (new_access_graph 0 0) = Inr h" ..
  have "\<exists>x. ag_finish (me_batch demo_batch_env) (me_pm4 demo_batch_env) h = Inr x"
    by (simp add: ag_finish_def graph_finish_def demo_batch_env_def)
  moreover have "me_graph demo_batch_env = Inr (new_access_graph 0 0)" by (simp add: demo_batch_env_def demo_model_env_def)
  moreover have "usable demo_model = Inr ()" "ms_graphs demo_model 5 = None" "demo_fills \<noteq> []" by (simp_all add: usable_def demo_model_eq demo_fills_def)
  ultimately show ?thesis using p h by (auto simp: model_record_def)
qed

theorem model_graph_ordered_witness:
  "\<exists>t pg. model_record demo_batch_env 5 demo_fills demo_model = (Inr (), t) \<and> ms_graphs t 5 = Some pg
    \<and> pg_executable pg \<in> {[1, 102], [101, 102]}"
proof -
  obtain t where rec: "model_record demo_batch_env 5 demo_fills demo_model = (Inr (), t)" using demo_record_ok by blast
  have g: "me_graph demo_batch_env = Inr (new_access_graph 0 0)" by (simp add: demo_batch_env_def demo_model_env_def)
  have c: "commands_conflict (demo_fills ! 0) (demo_fills ! 1)" "length demo_fills = 2"
    by (simp_all add: demo_fills_def commands_conflict_def command_bindings_def bindings_conflict_def region_write_def demo_mregion_def)
  from model_graph_ordered [OF rec g] obtain ordered executable prepared where
    o: "list_all2 (\<lambda>c n. native_command demo_batch_env demo_model c = Inr (fst n)) demo_fills ordered"
      "\<forall>i j. i < j \<longrightarrow> j < length demo_fills \<longrightarrow> commands_conflict (demo_fills ! i) (demo_fills ! j) \<longrightarrow> (\<exists>k. i < k \<and> k \<le> j \<and> snd (ordered ! k))"
      "if me_pm4 demo_batch_env then me_batch demo_batch_env ordered None = Inr executable else executable = map fst ordered"
      "t = demo_model\<lparr>ms_graphs := (ms_graphs demo_model)(5 \<mapsto> \<lparr>pg_executable = executable, pg_commands = prepared\<rparr>)\<rparr>"
    by blast
  have "me_graph_fill demo_batch_env v p = Inr p" for v p by (simp add: demo_batch_env_def demo_model_env_def)
  then obtain b1 b2 where ordered: "ordered = [(1, b1), (2, b2)]"
    using o(1) by (auto simp: demo_fills_def list_all2_Cons1 native_command_def)
  have "\<exists>k. 0 < k \<and> k \<le> (1 :: nat) \<and> snd (ordered ! k)" using o(2) c by simp
  then have "b2" using ordered by (auto simp: le_Suc_eq)
  then have "executable = [if b1 then 101 else 1, 102]" using o(3) ordered by (auto simp: demo_batch_env_def)
  then show ?thesis using rec o(4) by auto
qed

end
