(* ===== verification/Spec2Isabelle.thy ===== *)
theory Spec2Isabelle
  imports Exec_Host Residency_Safety Buffer_Pool Plan_Cache Job_Pool Sanitizer_State Visibility Native_Session Model_Context Safe_Tensors Native_Transfers Stream_Commands Aql_Safety Storage_Session Scratch_Planner Model_Session
begin

text \<open>
  Verification of the execution core of \<^verbatim>\<open>hrx\<close>, a Rust library that runs GPU and NPU kernels over
  shared memory. File names below are relative to \<^verbatim>\<open>src/src/\<close>.

  \<^bold>\<open>The program.\<close> A client allocates buffers and records operations (fills, copies, kernel
  dispatches, NPU runs) with the byte ranges they read and write. Recording infers dependencies between operations from
  these ranges (\<^verbatim>\<open>dependency_frontier.rs\<close>, used by \<^verbatim>\<open>access_graph.rs\<close> and
  \<^verbatim>\<open>execution/dependencies.rs\<close>); preparation groups the operations of a graph into regions, one per
  backend stretch, and lowers GPU regions to command lists with barriers (\<^verbatim>\<open>execution/graph.rs\<close>,
  \<^verbatim>\<open>runtime.rs\<close>). A submission is admitted by the scheduler
  (\<^verbatim>\<open>execution/scheduler.rs\<close>), which lets regions of different submissions run concurrently unless their summaries of
  uses conflict, and publishes results through completion signals
  (\<^verbatim>\<open>execution/completion.rs\<close>). The host maps the same buffers under leases
  (\<^verbatim>\<open>execution/buffer.rs\<close>) or hands them to external code (\<^verbatim>\<open>execution/handoff.rs\<close>). Around
  this core sit the byte-budgeted residency manager (\<^verbatim>\<open>residency.rs\<close>), a bounded cache of prepared plans
  (\<^verbatim>\<open>plan_cache.rs\<close>), a pool of temporary buffers (\<^verbatim>\<open>buffer_pool.rs\<close>), a pool of host jobs
  (\<^verbatim>\<open>jobs.rs\<close>), prepared inference slots (\<^verbatim>\<open>inference.rs\<close>), tensor descriptors (\<^verbatim>\<open>tensor.rs\<close>), model
  files (\<^verbatim>\<open>artifacts/\<close>) and the sanitizer runtime (\<^verbatim>\<open>fabric/sanitizer.rs\<close>). Below it lie GPU
  streams (\<^verbatim>\<open>runtime.rs\<close>), which publish commands through native queues (\<^verbatim>\<open>fabric/queue.rs\<close>) over native
  memory (\<^verbatim>\<open>fabric/memory.rs\<close>) with explicit cache visibility (\<^verbatim>\<open>fabric/visibility.rs\<close>), and file requests
  served through registered payload slots (\<^verbatim>\<open>storage/mod.rs\<close>).

  \<^bold>\<open>Conventions.\<close> A struct is a \<open>record\<close>, an enum a \<open>datatype\<close>; a fallible function returns \<open>error + 'a\<close> with the
  error of \<^verbatim>\<open>lib.rs\<close>. Sizes and addresses are naturals with the bound of \<open>usize\<close> written at every checked
  operation; bit masks are taken on 64-bit words and command packets are lists of 32-bit words. An ordered map is a function or a sorted list of
  pairs. Code that runs under one lock is one definition, from taking the lock to releasing or waiting;
  a component shared by threads is a step relation whose steps are these critical sections, so its
  reachable states cover every interleaving of them. A wait on a condition variable is a step that is enabled when its
  predicate holds. Native calls (preparing a command list, running a region, allocating, cache
  maintenance) are arguments of the definitions that make them and are only assumed to return a value
  of their result type. No model uses fuel: loops are structural recursion or have a proved
  measure.

  \<^bold>\<open>Theories.\<close>
  \<^item> \<open>HRX_Prelude\<close>: errors (\<^verbatim>\<open>Error\<close> and its accessors), checked arithmetic, the result combinators
    (\<open>and_then\<close>, \<open>try_all\<close>, \<open>map_result\<close>), and generic lemmas.
  \<^item> \<open>Dependency_Frontier\<close>: \<open>frontier\<close>, \<open>touch\<close>, \<open>sweep\<close>, \<open>dependencies\<close>. The transitive closure of the
    inferred edges is exactly that of the byte hazards (C1), each edge is a hazard, and the interval lists
    refine a byte-indexed table (C2).
  \<^item> \<open>Buffer_Views\<close>: views and \<^verbatim>\<open>execution/contract.rs\<close>. Slicing is checked and composes; a binding list is accepted
    exactly under the contract (C4).
  \<^item> \<open>Use_Summaries\<close>: \<^verbatim>\<open>execution/dependencies.rs\<close>. The summary is exact on bytes and the two-pointer
    sweep decides conflicts (C5).
  \<^item> \<open>Stream_Graph\<close>, \<open>Access_Graph\<close>: graph recording in \<^verbatim>\<open>runtime.rs\<close> and \<^verbatim>\<open>access_graph.rs\<close>. Barriers
    separate dependants (C7); a lemma shows the state left by a recording that fails after the frontier was updated.
  \<^item> \<open>Completion_Signal\<close>: the signal's state machine; publication wakes exactly the tasks that polled (C10).
  \<^item> \<open>Buffer_Leases\<close>: host leases, cache visibility and hand-off: exclusion and exact counts (C11), the maintenance calls
    are exactly those needed, also when some fail (C12), release and poisoning (C13).
  \<^item> \<open>Launch_Constants\<close>: launch validation and the constant block.
  \<^item> \<open>Fabric_Memory\<close>: native allocations, their views and aliases, use leases, host transfers and construction in
    \<^verbatim>\<open>fabric/memory.rs\<close>. Host transfers are exact and exclude device use; a fill from a
    file by several threads stays in its range whatever they do, and is the plain fill when none fails (C14).
  \<^item> \<open>Span_Merge\<close>, \<open>Align_Mask\<close>, \<open>Vec_Multiset\<close>: merging of sorted ranges, rounding with a bit mask, and vectors as
    multisets, each shared by several components.
  \<^item> \<open>Visibility\<close>: native visibility facts, host transitions and prepared coalesced cache work in \<^verbatim>\<open>fabric/visibility.rs\<close>.
  \<^item> \<open>Native_Session\<close>: sessions over native stages, checkpoints, panics and quarantine (C3).
  \<^item> \<open>Exec_Graph\<close>: building and preparing graphs: regions ordered by hazards (C16), barriers
    inside regions, disjoint scratch.
  \<^item> \<open>Exec_Scheduler\<close>, \<open>Exec_Invariants\<close>, \<open>Exec_Safety\<close>: the scheduler's state, its critical sections as a step
    relation, the invariants of reachable states, and the properties: no two regions in flight
    conflict (C20), queue exclusion and ordered native leases (C21), exact blocker counts (C22), a region starts only when
    ready (C23), results are published, and workers
    idle only on a producer or for a native stage (C26).
  \<^item> \<open>Exec_Host\<close>: the scheduler composed with the leases: host and device exclude each other (C27) and a failed region
    poisons what its graph uses for good (C28).
  \<^item> \<open>Flight_Cache\<close>, \<open>Bounded_Ledger\<close>: the single-flight protocol shared by both caches, and the locale of a ledger
    of reserved amounts under a limit; it is interpreted on the residency usage and on the buffer pool.
  \<^item> \<open>Residency\<close>, \<open>Residency_Safety\<close>: exact bytes within the budget (C29), safe eviction (C30), one load per key with
    shared outcomes (C31), exact idle sweep.
  \<^item> \<open>Buffer_Pool\<close>: no buffer leased twice, bounded retention, best fit (C33).
  \<^item> \<open>Plan_Cache\<close>: bounded entries, one preparation per key, exact counters (C34).
  \<^item> \<open>Job_Pool\<close>: exact permits and one callback per job (C35); the workers drain the pool (C36).
  \<^item> \<open>Inference_Slots\<close>, \<open>Model_Context\<close>: staging, tensor transfers and prepared slots of \<^verbatim>\<open>inference.rs\<close>; a slot is
    leased to one request at a time and granted when its latest submission is complete, with every earlier one complete or cut off by a
    stopped one (C15); transfers move exactly the bytes of their tensors.
  \<^item> \<open>Mapped_Pages\<close>, \<open>Safe_Tensors\<close>: page population and the index of a SafeTensors file, which holds only
    well-formed disjoint entries inside the file (C9).
  \<^item> \<open>Pm4_Packets\<close>, \<open>Sdma_Packets\<close>: the words of compute and copy packets, batches bounded by the indirect limit, and
    what copy packets do to memory when run.
  \<^item> \<open>Native_Queue\<close>, \<open>Native_Producer\<close>: publication into the command ring, retirement of submissions with their
    leases, queue creation, and their life under an asynchronous device: the ring holds exactly the unread stream, buffers are
    held while their fence is pending, nothing is forgotten (C18).
  \<^item> \<open>Native_Transfers\<close>: copies and fills split into parts: the parts move exactly the requested bytes, fit an
    empty ring at any position, and use the reserved fences.
  \<^item> \<open>Aql_Queue\<close>, \<open>Aql_Safety\<close>: AQL queues, their packets, completion signals and timestamps, and their life under an
    asynchronous device with stale reads: exact ring, held buffers, true completions, exact timestamps (C19).
  \<^item> \<open>Gpu_Stream\<close>: submission over several engines, staging, scratch and free pools of a stream: safe reuse and
    bounds (C32).
  \<^item> \<open>Stream_Commands\<close>: kernel layouts, the preparation of dispatches with argument packing, and the caches of prepared commands: a dispatch
    does not panic and submits a command prepared for exactly its launch, the caches are bounded and forget dropped buffers (C25).
  \<^item> \<open>Storage_Session\<close>: file requests of \<^verbatim>\<open>storage/mod.rs\<close>: aligned extents, admission to payload slots with shared
    reads and write exclusion, the worker's batches, whose retries end, and failures. Payloads of live requests are exclusive (C17).
  \<^item> \<open>Model_Session\<close>: resident sessions of \<^verbatim>\<open>loom/model.rs\<close>: handles stay valid, a failed session refuses everything, recorded commands
    are the given ones in order, separated by barriers where their regions conflict (C8), combined readback is exact (C24), and a benchmark measures both modes equally often.
  \<^item> \<open>Scratch_Planner\<close>: best-fit reuse of temporaries over lifetimes (C6); a rejected duplicate insertion replaces the old lifetime.
  \<^item> \<open>Tensor_Desc\<close>: accepted strides address distinct elements inside the extent (C37).
  \<^item> \<open>Sanitizer_Shadow\<close>, \<open>Sanitizer_Report\<close>, \<open>Sanitizer_State\<close>: the address shadow is exact (C38), every outcome of collecting
    the report channel is pinned, with exact reports and reset (C39), and the device finds its shadow through the configuration (C40).

  \<^bold>\<open>Interfaces.\<close> \<open>byte_frontier\<close> (in \<open>Dependency_Frontier\<close>) states what a frontier promises byte by byte, last writer and
  readers after a use; the ordering theorems are proved in it and reached through its interpretation on
  the interval lists. \<open>bounded_ledger\<close> states the laws of reserving and releasing under a limit; its interpretations are
  the usage of the residency manager and the retained bytes of the buffer pool.

  \<^bold>\<open>Not modelled.\<close> The foreign interface declarations and generated files; discovery and teardown of native handles, native
  kernel arguments and the remaining engines in \<^verbatim>\<open>fabric/\<close>; the Loom compiler and its cache, which is native
  code; parsing of JSON and protobuf, downloads, the command line; floating-point image and tensor kernels, which are source text
  for the compiler; memory ordering below the level of locks, and panics other than the expectations named in the theories.
  What a GPU does with a published command is not code of the repository: theorems that need it state the step as an
  assumption of the relation (fences rise to published values, one engine retires in order) or run the copy packets as their
  documented format says.
\<close>

end
